(* ===== verification/Fzn_Prelude.thy ===== *)
theory Fzn_Prelude
  imports Main "HOL-Library.Word" "HOL-Library.Sublist"
begin

text \<open>
  What every component of the development shares: the names of the C types, byte strings
  and their slices, the arrays that the library keeps in storage its caller owns, the loops
  over such arrays, and the machines whose runs the invariants are about.

  Conventions of the models.
  \<^item> \<open>uint8_t\<close>, \<open>uint16_t\<close>, \<open>uint32_t\<close> and \<open>uint64_t\<close> are words of that width, so
    addition wraps as it does in C. \<open>size_t\<close> is a natural number where it counts cells of
    an array that exists; where a product or a sum of sizes may wrap, the wrap-around is
    written out (\<open>mod 2 ^ 64\<close>) or the value is a 64-bit word.
  \<^item> A pointer a function may be handed as \<open>NULL\<close> is an \<open>option\<close>, \<open>None\<close> being
    \<open>NULL\<close>. A pointer a function writes its result through is a component of the
    result, and its \<open>NULL\<close> check has no counterpart.
  \<^item> A byte array of a fixed length (a key, a capability, a nonce, an identifier) is a list of
    bytes. Two arrays of one C type have the same length, so comparing them with
    \<open>memcmp\<close> or \<open>fzn_ct_memeq\<close> is equality of the lists; the theory
    \<open>Wire_Bytes\<close> proves that of \<open>fzn_ct_memeq\<close>.
  \<^item> An error code is a value of a datatype with the constructors of the C enumeration.
  \<^item> Diagnostics (the \<open>log\<close> pointers and the lines written through them) are left out.
\<close>

unbundle bit_operations_syntax

type_synonym u8 = "8 word"
type_synonym u16 = "16 word"
type_synonym u32 = "32 word"
type_synonym u64 = "64 word"
type_synonym bytes = "u8 list"
type_synonym key = "bytes"

abbreviation UINT64_MAX :: u64 where
  "UINT64_MAX \<equiv> - 1"

named_theorems layout \<open>lengths and field positions of encoded records\<close>
named_theorems rows \<open>how the live rows of a table change\<close>

section \<open>Slices of byte strings\<close>

definition bytes_at :: "nat \<Rightarrow> nat \<Rightarrow> 'a list \<Rightarrow> 'a list" where
  "bytes_at off n xs = take n (drop off xs)"

lemma length_bytes_at [simp]: "length (bytes_at off n xs) = min n (length xs - off)"
  by (simp add: bytes_at_def)

lemma bytes_at_append_skip [simp]:
  "length xs \<le> off \<Longrightarrow> bytes_at off n (xs @ ys) = bytes_at (off - length xs) n ys"
  by (simp add: bytes_at_def)

lemma bytes_at_append_here [simp]:
  "off + n \<le> length xs \<Longrightarrow> bytes_at off n (xs @ ys) = bytes_at off n xs"
  by (simp add: bytes_at_def)

lemma bytes_at_all [simp]: "length xs = n \<Longrightarrow> bytes_at 0 n xs = xs"
  by (simp add: bytes_at_def)

lemma bytes_at_take [simp]: "bytes_at 0 n (xs @ ys) = xs" if "length xs = n"
  using that by (simp add: bytes_at_def)

lemma bytes_at_Cons_skip [simp]:
  "bytes_at (Suc k) n (x # xs) = bytes_at k n xs"
  "bytes_at (numeral m) n (x # xs) = bytes_at (numeral m - 1) n xs"
  by (simp_all add: bytes_at_def drop_Cons')

lemma bytes_at_bytes_at:
  "i + k \<le> n \<Longrightarrow> bytes_at i k (bytes_at off n xs) = bytes_at (off + i) k xs"
  by (simp add: bytes_at_def drop_take min_absorb1 add.commute)

lemma bytes_at_join:
  "j = i + n \<Longrightarrow> bytes_at i n xs @ bytes_at j m xs = bytes_at i (n + m) xs"
  by (simp add: bytes_at_def take_add add.commute [of n i])

lemma bytes_at_one: "i < length xs \<Longrightarrow> bytes_at i 1 xs = [xs ! i]"
  by (simp add: bytes_at_def take_Suc_conv_app_nth hd_drop_conv_nth take_Suc drop_Suc_Cons)

lemma nth_bytes_at:
  "i < n \<Longrightarrow> off + i < length xs \<Longrightarrow> bytes_at off n xs ! i = xs ! (off + i)"
  by (simp add: bytes_at_def)

lemma split_at_bytes_at: "take (off + n) xs = take off xs @ bytes_at off n xs"
  by (simp add: bytes_at_def take_add)

text \<open>Writing a run of bytes into a buffer, as \<open>memcpy (buf + off, bs, length bs)\<close> does.\<close>

definition put_at :: "nat \<Rightarrow> 'a list \<Rightarrow> 'a list \<Rightarrow> 'a list" where
  "put_at off bs buf = take off buf @ bs @ drop (off + length bs) buf"

lemma length_put_at [simp]:
  "off + length bs \<le> length buf \<Longrightarrow> length (put_at off bs buf) = length buf"
  by (simp add: put_at_def)

lemma nth_put_at:
  assumes "off + length bs \<le> length buf" and "i < length buf"
  shows "put_at off bs buf ! i =
    (if off \<le> i \<and> i < off + length bs then bs ! (i - off) else buf ! i)"
  using assms by (auto simp: put_at_def nth_append min_def)

lemma take_put_front: "length xs = n \<Longrightarrow> take n (put_at 0 xs buf) = xs"
  by (simp add: put_at_def)

lemma bytes_at_put_at_same:
  "off + length bs \<le> length buf \<Longrightarrow> bytes_at off (length bs) (put_at off bs buf) = bs"
  by (simp add: put_at_def bytes_at_def min_def)

lemma bytes_at_put_at_other:
  assumes "off + length bs \<le> length buf" and "i + n \<le> length buf"
    and "i + n \<le> off \<or> off + length bs \<le> i"
  shows "bytes_at i n (put_at off bs buf) = bytes_at i n buf"
  using assms by (intro nth_equalityI) (auto simp: nth_bytes_at nth_put_at)

section \<open>Arrays in the caller's storage\<close>

text \<open>
  A table is an array with a capacity and a count \<open>used\<close>; its live rows are the first
  \<open>used\<close> cells. Appending writes the cell at \<open>used\<close> and counts it.
\<close>

lemma take_append_cell [rows]:
  "n < length xs \<Longrightarrow> take (Suc n) (xs[n := x]) = take n xs @ [x]"
  by (simp add: take_Suc_conv_app_nth)

lemma take_update_cell [rows]:
  "i < n \<Longrightarrow> take n (xs[i := x]) = (take n xs)[i := x]"
  by (simp add: take_update_swap)

lemma take_update_beyond [rows]:
  "n \<le> i \<Longrightarrow> take n (xs[i := x]) = take n xs"
  by simp

text \<open>
  Compaction in place: the loop that keeps the cells satisfying \<open>P\<close> among the first
  \<open>n\<close>, moving each down to the next free position.
\<close>

definition compact_step :: "('a \<Rightarrow> bool) \<Rightarrow> nat \<Rightarrow> 'a list \<times> nat \<Rightarrow> 'a list \<times> nat" where
  "compact_step P i = (\<lambda>(xs, kept).
     if P (xs ! i)
     then (if kept \<noteq> i then xs[kept := xs ! i] else xs, Suc kept)
     else (xs, kept))"

definition compact :: "('a \<Rightarrow> bool) \<Rightarrow> 'a list \<Rightarrow> nat \<Rightarrow> 'a list \<times> nat" where
  "compact P xs n = fold (compact_step P) [0..<n] (xs, 0)"

lemma compact_spec:
  assumes "n \<le> length xs"
  shows "length (fst (compact P xs n)) = length xs
    \<and> snd (compact P xs n) = length (filter P (take n xs))
    \<and> take (snd (compact P xs n)) (fst (compact P xs n)) = filter P (take n xs)
    \<and> drop n (fst (compact P xs n)) = drop n xs"
  using assms
proof (induction n)
  case 0
  then show ?case by (simp add: compact_def)
next
  case (Suc n)
  obtain ys k where c: "compact P xs n = (ys, k)" by fastforce
  with Suc have len: "length ys = length xs" and k: "k = length (filter P (take n xs))"
    and live: "take k ys = filter P (take n xs)" and rest: "drop n ys = drop n xs"
    by auto
  have "k \<le> n" using k length_filter_le [of P "take n xs"] by simp
  have nth: "ys ! n = xs ! n"
    using rest Suc.prems len by (metis Suc_le_lessD hd_drop_conv_nth)
  have step: "compact P xs (Suc n) = compact_step P n (ys, k)"
    using c by (simp add: compact_def)
  have "Suc n \<le> length ys" using Suc.prems len by simp
  have rest': "drop (Suc n) ys = drop (Suc n) xs"
    using rest by (metis drop_Suc tl_drop)
  show ?case
  proof (cases "P (xs ! n)")
    case False
    then show ?thesis
      using step nth len k live rest' Suc.prems by (simp add: compact_step_def take_Suc_conv_app_nth)
  next
    case True
    let ?zs = "if k \<noteq> n then ys[k := ys ! n] else ys"
    have "take (Suc k) ?zs = take k ys @ [ys ! n]"
      using \<open>k \<le> n\<close> \<open>Suc n \<le> length ys\<close> by (simp add: take_append_cell take_Suc_conv_app_nth)
    moreover have "compact P xs (Suc n) = (?zs, Suc k)"
      using True step nth by (simp add: compact_step_def)
    moreover have "drop (Suc n) ?zs = drop (Suc n) ys" using \<open>k \<le> n\<close> by simp
    moreover have "filter P (take (Suc n) xs) = filter P (take n xs) @ [xs ! n]"
      using True Suc.prems by (simp add: take_Suc_conv_app_nth)
    ultimately show ?thesis using nth len k live rest' by simp
  qed
qed

lemma length_fst_compact [simp]: "n \<le> length xs \<Longrightarrow> length (fst (compact P xs n)) = length xs"
  using compact_spec by blast

lemma snd_compact: "n \<le> length xs \<Longrightarrow> snd (compact P xs n) = length (filter P (take n xs))"
  using compact_spec by blast

lemma take_compact:
  "n \<le> length xs \<Longrightarrow> take (length (filter P (take n xs))) (fst (compact P xs n)) = filter P (take n xs)"
  using compact_spec [of n xs P] by metis

section \<open>Searching the rows of a table\<close>

text \<open>The index of the first row satisfying \<open>P\<close>, or the number of rows when none does.\<close>

primrec first_at :: "('a \<Rightarrow> bool) \<Rightarrow> 'a list \<Rightarrow> nat" where
  "first_at P [] = 0"
| "first_at P (x # xs) = (if P x then 0 else Suc (first_at P xs))"

lemma first_at_le: "first_at P xs \<le> length xs"
  by (induction xs) auto

lemma first_at_hit: "first_at P xs < length xs \<Longrightarrow> P (xs ! first_at P xs)"
  by (induction xs) auto

lemma first_at_before: "i < first_at P xs \<Longrightarrow> \<not> P (xs ! i)"
  by (induction xs arbitrary: i) (auto simp: nth_Cons split: if_splits nat.splits)

lemma first_at_found: "first_at P xs < length xs \<longleftrightarrow> (\<exists>x \<in> set xs. P x)"
  by (induction xs) auto

lemma length_filter_mono:
  "(\<And>x. x \<in> set xs \<Longrightarrow> P x \<Longrightarrow> Q x) \<Longrightarrow> length (filter P xs) \<le> length (filter Q xs)"
  by (induction xs) (auto intro: le_SucI)

lemma length_filter_same:
  "distinct xs \<Longrightarrow> length (filter (\<lambda>x. x = a) xs) = (if a \<in> set xs then 1 else 0)"
  by (induction xs) (auto simp: filter_empty_conv)

text \<open>
  The contract of every keyed search: it returns an index no larger than the number of rows,
  a hit carries the key, and nothing before it does. A table whose keys are distinct then
  behaves as a finite map, an append of an absent key keeps the keys distinct, and so does an
  update that leaves the key of its row alone.
\<close>

locale keyed_rows =
  fixes find_row :: "'e list \<Rightarrow> 'k \<Rightarrow> nat" and key_of :: "'e \<Rightarrow> 'k"
  assumes find_le: "find_row xs k \<le> length xs"
    and find_hit: "find_row xs k < length xs \<Longrightarrow> key_of (xs ! find_row xs k) = k"
    and find_before: "i < find_row xs k \<Longrightarrow> key_of (xs ! i) \<noteq> k"
begin

lemma found_iff: "find_row xs k < length xs \<longleftrightarrow> k \<in> key_of ` set xs"
proof
  assume "find_row xs k < length xs"
  then show "k \<in> key_of ` set xs"
    using find_hit [of xs k] nth_mem [of "find_row xs k" xs] by (metis imageI)
next
  assume "k \<in> key_of ` set xs"
  then obtain i where "i < length xs" "key_of (xs ! i) = k"
    by (auto simp: in_set_conv_nth)
  then show "find_row xs k < length xs"
    using find_before [of i xs k] by (metis le_less_trans not_le)
qed

lemma absent_iff: "find_row xs k = length xs \<longleftrightarrow> k \<notin> key_of ` set xs"
  using found_iff [of xs k] find_le [of xs k] by auto

lemma find_unique:
  assumes "distinct (map key_of xs)" and "i < length xs" and "key_of (xs ! i) = k"
  shows "find_row xs k = i"
proof -
  have "find_row xs k < length xs" using assms(2,3) found_iff by force
  with assms show ?thesis
    using find_hit [of xs k] nth_eq_iff_index_eq [OF assms(1), of "find_row xs k" i] by simp
qed

lemma found_row:
  assumes "distinct (map key_of xs)" and "e \<in> set xs" and "key_of e = k"
  shows "find_row xs k < length xs \<and> xs ! find_row xs k = e"
proof -
  obtain i where i: "i < length xs" "xs ! i = e" using assms(2) by (auto simp: in_set_conv_nth)
  with assms have "find_row xs k = i" by (intro find_unique) auto
  with i show ?thesis by simp
qed

lemma append_distinct:
  "distinct (map key_of xs) \<Longrightarrow> find_row xs (key_of e) = length xs \<Longrightarrow>
   distinct (map key_of (xs @ [e]))"
  using absent_iff [of xs "key_of e"] by auto

lemma update_distinct:
  "distinct (map key_of xs) \<Longrightarrow> find_row xs (key_of e) < length xs \<Longrightarrow>
   distinct (map key_of (xs[find_row xs (key_of e) := e]))"
  using find_hit [of xs "key_of e"] list_update_id [of "map key_of xs" "find_row xs (key_of e)"]
  by (simp add: map_update)

end

section \<open>Machines and their runs\<close>

text \<open>
  A component with state is a step function from a state and an event to a result and the next
  state. A run pairs every event with the result it had.
\<close>

primrec run :: "('s \<Rightarrow> 'e \<Rightarrow> 'r \<times> 's) \<Rightarrow> 's \<Rightarrow> 'e list \<Rightarrow> ('e \<times> 'r) list \<times> 's" where
  "run step s [] = ([], s)"
| "run step s (e # es) =
     (let (r, s') = step s e; (tr, s'') = run step s' es in ((e, r) # tr, s''))"

abbreviation final :: "('s \<Rightarrow> 'e \<Rightarrow> 'r \<times> 's) \<Rightarrow> 's \<Rightarrow> 'e list \<Rightarrow> 's" where
  "final step s es \<equiv> snd (run step s es)"

abbreviation trace :: "('s \<Rightarrow> 'e \<Rightarrow> 'r \<times> 's) \<Rightarrow> 's \<Rightarrow> 'e list \<Rightarrow> ('e \<times> 'r) list" where
  "trace step s es \<equiv> fst (run step s es)"

lemma run_append:
  "run step s (xs @ ys) =
    (trace step s xs @ trace step (final step s xs) ys, final step (final step s xs) ys)"
  by (induction xs arbitrary: s) (auto simp: split_beta)

lemma map_fst_trace [simp]: "map fst (trace step s es) = es"
  by (induction es arbitrary: s) (auto simp: split_beta)

lemma trace_nth:
  "i < length es \<Longrightarrow>
   trace step s es ! i = (es ! i, fst (step (final step s (take i es)) (es ! i)))"
  by (induction es arbitrary: s i) (auto simp: split_beta nth_Cons split: nat.splits)

text \<open>An invariant that every step keeps holds after every run.\<close>

locale invariant_machine =
  fixes step :: "'s \<Rightarrow> 'e \<Rightarrow> 'r \<times> 's" and invar :: "'s \<Rightarrow> bool"
  assumes step_invar: "invar s \<Longrightarrow> invar (snd (step s e))"
begin

lemma run_invar: "invar s \<Longrightarrow> invar (final step s es)"
  by (induction es arbitrary: s) (auto simp: split_beta step_invar)

text \<open>A fact about states that every step keeps, once it holds under the invariant.\<close>

lemma run_stable:
  assumes "\<And>s e. invar s \<Longrightarrow> P s \<Longrightarrow> P (snd (step s e))"
  shows "invar s \<Longrightarrow> P s \<Longrightarrow> P (final step s es)"
  by (induction es arbitrary: s) (auto simp: split_beta step_invar assms)

end

text \<open>
  A machine that hands out tags and spends each: a tag it hands out was not spent before and is spent
  afterwards, and nothing spent is ever unspent. Then no tag is handed out twice.
\<close>

locale once_only =
  fixes step :: "'s \<Rightarrow> 'e \<Rightarrow> 'r \<times> 's" and tag :: "'e \<times> 'r \<Rightarrow> 'k option" and spent :: "'s \<Rightarrow> 'k \<Rightarrow> bool"
  assumes tag_fresh: "tag (e, fst (step s e)) = Some k \<Longrightarrow> \<not> spent s k"
    and tag_spent: "tag (e, fst (step s e)) = Some k \<Longrightarrow> spent (snd (step s e)) k"
    and spent_kept: "spent s k \<Longrightarrow> spent (snd (step s e)) k"
begin

definition tags :: "('e \<times> 'r) list \<Rightarrow> 'k list" where
  "tags tr = List.map_filter tag tr"

lemma tags_once: "distinct (tags (trace step s es)) \<and> (\<forall>k \<in> set (tags (trace step s es)). \<not> spent s k)"
proof (induction es arbitrary: s)
  case (Cons e es)
  let ?s = "snd (step s e)" and ?r = "fst (step s e)"
  have tr: "trace step s (e # es) = (e, ?r) # trace step ?s es" by (simp add: split_beta)
  have later: "distinct (tags (trace step ?s es))" "\<forall>k \<in> set (tags (trace step ?s es)). \<not> spent s k"
    using Cons.IH [of ?s] spent_kept by blast+
  show ?case
  proof (cases "tag (e, ?r)")
    case None
    then show ?thesis unfolding tr using later by (simp add: tags_def List.map_filter_simps)
  next
    case (Some k)
    then show ?thesis unfolding tr using later Cons.IH [of ?s] tag_fresh [OF Some] tag_spent [OF Some]
      by (auto simp: tags_def List.map_filter_simps)
  qed
qed (simp add: tags_def List.map_filter_simps)

end

section \<open>Saturating addition on words\<close>

definition sat_add :: "u64 \<Rightarrow> u64 \<Rightarrow> u64" where
  "sat_add a b = (if UINT64_MAX - a < b then UINT64_MAX else a + b)"

lemma unat_UINT64_MAX: "unat UINT64_MAX = 2 ^ 64 - 1"
  by (simp add: unsigned_minus_1_eq_mask mask_eq_exp_minus_1)

lemma unat_UINT64_MAX_minus: "unat (UINT64_MAX - a) = 2 ^ 64 - 1 - unat a"
  by (subst unat_sub) (auto simp: unat_UINT64_MAX)

lemma unat_sat_add: "unat (sat_add a b) = min (2 ^ 64 - 1) (unat a + unat b)"
proof (cases "UINT64_MAX - a < b")
  case True
  then have "2 ^ 64 - 1 < unat a + unat b" by (simp add: word_less_nat_alt unat_UINT64_MAX_minus)
  with True show ?thesis by (simp add: sat_add_def unat_UINT64_MAX)
next
  case False
  have "unat a < 2 ^ 64" using unsigned_less [of a] by simp
  with False have le: "unat a + unat b \<le> 2 ^ 64 - 1"
    by (simp add: word_less_nat_alt unat_UINT64_MAX_minus)
  then have "unat (a + b) = unat a + unat b"
    by (intro unat_add_lem [THEN iffD1]) simp
  with False le show ?thesis by (simp add: sat_add_def)
qed

end
