(* ===== verification/Wire_Bytes.thy ===== *)
theory Wire_Bytes
  imports Fzn_Prelude
begin

text \<open>
  The byte order of every signed record (\<open>wire/bytes.h\<close>) and the comparison and wipe of
  \<open>constant_time/constant_time.c\<close>. The big-endian readers and writers are inverse to each
  other, which the locale \<open>fixed_codec\<close> states once; the comparison is equality of the
  compared prefixes.
\<close>

section \<open>Big-endian integers (wire/bytes.h)\<close>

definition fzn_get_be16 :: "bytes \<Rightarrow> u16" where
  "fzn_get_be16 p = push_bit 8 (ucast (p ! 0)) OR ucast (p ! 1)"

definition fzn_get_be32 :: "bytes \<Rightarrow> u32" where
  "fzn_get_be32 p = push_bit 24 (ucast (p ! 0)) OR push_bit 16 (ucast (p ! 1)) OR
     push_bit 8 (ucast (p ! 2)) OR ucast (p ! 3)"

definition fzn_get_be64 :: "bytes \<Rightarrow> u64" where
  "fzn_get_be64 p = push_bit 56 (ucast (p ! 0)) OR push_bit 48 (ucast (p ! 1)) OR
     push_bit 40 (ucast (p ! 2)) OR push_bit 32 (ucast (p ! 3)) OR push_bit 24 (ucast (p ! 4)) OR
     push_bit 16 (ucast (p ! 5)) OR push_bit 8 (ucast (p ! 6)) OR ucast (p ! 7)"

definition fzn_put_be16 :: "u16 \<Rightarrow> bytes" where
  "fzn_put_be16 v = [ucast (drop_bit 8 v), ucast v]"

definition fzn_put_be32 :: "u32 \<Rightarrow> bytes" where
  "fzn_put_be32 v = [ucast (drop_bit 24 v), ucast (drop_bit 16 v), ucast (drop_bit 8 v), ucast v]"

definition fzn_put_be64 :: "u64 \<Rightarrow> bytes" where
  "fzn_put_be64 v = [ucast (drop_bit 56 v), ucast (drop_bit 48 v), ucast (drop_bit 40 v),
     ucast (drop_bit 32 v), ucast (drop_bit 24 v), ucast (drop_bit 16 v), ucast (drop_bit 8 v),
     ucast v]"

text \<open>The signed objects of the library and the version byte they all start with.\<close>

abbreviation FZN_SIGNED_VERSION :: u8 where "FZN_SIGNED_VERSION \<equiv> 1"
abbreviation FZN_OBJECT_HOP :: u8 where "FZN_OBJECT_HOP \<equiv> 128"
abbreviation FZN_OBJECT_REVOCATION :: u8 where "FZN_OBJECT_REVOCATION \<equiv> 129"
abbreviation FZN_OBJECT_RECORD :: u8 where "FZN_OBJECT_RECORD \<equiv> 130"
abbreviation FZN_OBJECT_MANIFEST :: u8 where "FZN_OBJECT_MANIFEST \<equiv> 131"
abbreviation FZN_OBJECT_WITHDRAWAL :: u8 where "FZN_OBJECT_WITHDRAWAL \<equiv> 133"
abbreviation FZN_OBJECT_ADMIN_CONFIRM :: u8 where "FZN_OBJECT_ADMIN_CONFIRM \<equiv> 143"

section \<open>Comparing and wiping (constant_time/constant_time.c)\<close>

definition fzn_ct_memeq :: "bytes option \<Rightarrow> bytes option \<Rightarrow> nat \<Rightarrow> bool" where
  "fzn_ct_memeq a b len =
     (case (a, b) of
        (Some pa, Some pb) \<Rightarrow> fold (\<lambda>i diff. diff OR (pa ! i XOR pb ! i)) [0..<len] (0 :: u8) = 0
      | _ \<Rightarrow> len = 0)"

definition fzn_wipe :: "bytes option \<Rightarrow> nat \<Rightarrow> bytes option" where
  "fzn_wipe p len = map_option (\<lambda>q. fold (\<lambda>i q. q[i := 0]) [0..<len] q) p"

section \<open>Round trips\<close>

locale fixed_codec =
  fixes put :: "'v \<Rightarrow> bytes" and get :: "bytes \<Rightarrow> 'v" and width :: nat
  assumes put_length: "length (put v) = width"
    and get_put: "get (put v) = v"
    and put_get: "length p = width \<Longrightarrow> put (get p) = p"
begin

lemma put_inject: "put v = put w \<longleftrightarrow> v = w"
  using get_put by metis

lemma get_inject: "length p = width \<Longrightarrow> length q = width \<Longrightarrow> get p = get q \<longleftrightarrow> p = q"
  using put_get by metis

text \<open>Reading a field back from the place it was written to.\<close>

lemma get_field: "length pre = off \<Longrightarrow> get (bytes_at off width (pre @ put v @ post)) = v"
  by (simp add: put_length get_put)

end

lemma word_bit_split:
  "(n::nat) < 64 \<Longrightarrow> n < 8 \<or> (8 \<le> n \<and> n < 16) \<or> (16 \<le> n \<and> n < 24) \<or> (24 \<le> n \<and> n < 32)
     \<or> (32 \<le> n \<and> n < 40) \<or> (40 \<le> n \<and> n < 48) \<or> (48 \<le> n \<and> n < 56) \<or> (56 \<le> n \<and> n < 64)"
  by arith

lemma get_put_be64: "fzn_get_be64 (fzn_put_be64 v) = v"
proof (rule bit_word_eqI)
  fix n assume "n < LENGTH(64)"
  then have "n < 64" by simp
  from word_bit_split [OF this] show "bit (fzn_get_be64 (fzn_put_be64 v)) n = bit v n"
    by (elim disjE; simp add: fzn_get_be64_def fzn_put_be64_def bit_simps less_diff_conv2)
qed

lemma get_put_be32: "fzn_get_be32 (fzn_put_be32 v) = v"
proof (rule bit_word_eqI)
  fix n assume "n < LENGTH(32)"
  then have "n < 8 \<or> (8 \<le> n \<and> n < 16) \<or> (16 \<le> n \<and> n < 24) \<or> (24 \<le> n \<and> n < 32)" by auto
  then show "bit (fzn_get_be32 (fzn_put_be32 v)) n = bit v n"
    by (elim disjE; simp add: fzn_get_be32_def fzn_put_be32_def bit_simps less_diff_conv2)
qed

lemma get_put_be16: "fzn_get_be16 (fzn_put_be16 v) = v"
proof (rule bit_word_eqI)
  fix n assume "n < LENGTH(16)"
  then have "n < 8 \<or> (8 \<le> n \<and> n < 16)" by auto
  then show "bit (fzn_get_be16 (fzn_put_be16 v)) n = bit v n"
    by (elim disjE; simp add: fzn_get_be16_def fzn_put_be16_def bit_simps less_diff_conv2)
qed

lemma list_of_length_8:
  "length xs = 8 \<Longrightarrow> xs = [xs ! 0, xs ! 1, xs ! 2, xs ! 3, xs ! 4, xs ! 5, xs ! 6, xs ! 7]"
  by (intro nth_equalityI) (auto simp: nth_Cons numeral_eq_Suc less_Suc_eq)

lemma list_of_length_4: "length xs = 4 \<Longrightarrow> xs = [xs ! 0, xs ! 1, xs ! 2, xs ! 3]"
  by (intro nth_equalityI) (auto simp: nth_Cons numeral_eq_Suc less_Suc_eq)

lemma list_of_length_2: "length xs = 2 \<Longrightarrow> xs = [xs ! 0, xs ! 1]"
  by (intro nth_equalityI) (auto simp: nth_Cons numeral_eq_Suc less_Suc_eq)

lemma byte_high_bits: "8 \<le> k \<Longrightarrow> \<not> bit (b :: u8) (k + n)"
  using bit_imp_le_length [of b "k + n"] by auto

lemma put_get_be64_bytes: "fzn_put_be64 (fzn_get_be64 [a, b, c, d, e, f, g, h]) = [a, b, c, d, e, f, g, h]"
  by (simp add: fzn_get_be64_def fzn_put_be64_def, intro conjI;
      rule bit_word_eqI; simp add: bit_simps byte_high_bits)

lemma put_get_be64: "length p = 8 \<Longrightarrow> fzn_put_be64 (fzn_get_be64 p) = p"
  using put_get_be64_bytes list_of_length_8 by metis

lemma put_get_be32_bytes: "fzn_put_be32 (fzn_get_be32 [a, b, c, d]) = [a, b, c, d]"
  by (simp add: fzn_get_be32_def fzn_put_be32_def, intro conjI;
      rule bit_word_eqI; simp add: bit_simps byte_high_bits)

lemma put_get_be32: "length p = 4 \<Longrightarrow> fzn_put_be32 (fzn_get_be32 p) = p"
  using put_get_be32_bytes list_of_length_4 by metis

lemma put_get_be16_bytes: "fzn_put_be16 (fzn_get_be16 [a, b]) = [a, b]"
  by (simp add: fzn_get_be16_def fzn_put_be16_def, intro conjI;
      rule bit_word_eqI; simp add: bit_simps byte_high_bits)

lemma put_get_be16: "length p = 2 \<Longrightarrow> fzn_put_be16 (fzn_get_be16 p) = p"
  using put_get_be16_bytes list_of_length_2 by metis

lemma length_put_be64 [layout, simp]: "length (fzn_put_be64 v) = 8"
  by (simp add: fzn_put_be64_def)

lemma length_put_be32 [layout, simp]: "length (fzn_put_be32 v) = 4"
  by (simp add: fzn_put_be32_def)

lemma length_put_be16 [layout, simp]: "length (fzn_put_be16 v) = 2"
  by (simp add: fzn_put_be16_def)

interpretation be64: fixed_codec fzn_put_be64 fzn_get_be64 8
  by unfold_locales (simp_all add: get_put_be64 put_get_be64)

interpretation be32: fixed_codec fzn_put_be32 fzn_get_be32 4
  by unfold_locales (simp_all add: get_put_be32 put_get_be32)

interpretation be16: fixed_codec fzn_put_be16 fzn_get_be16 2
  by unfold_locales (simp_all add: get_put_be16 put_get_be16)

section \<open>Correctness of the comparison and of the wipe\<close>

lemma or_fold_zero:
  fixes f :: "'a \<Rightarrow> u8"
  shows "fold (\<lambda>i d. d OR f i) xs d0 = 0 \<longleftrightarrow> d0 = 0 \<and> (\<forall>i \<in> set xs. f i = 0)"
  by (induction xs arbitrary: d0) (auto simp: or_eq_0_iff)

lemma xor_zero_iff: "(a :: u8) XOR b = 0 \<longleftrightarrow> a = b"
  by (auto simp: bit_eq_iff bit_xor_iff)

lemma ct_memeq_prefix:
  "len \<le> length a \<Longrightarrow> len \<le> length b \<Longrightarrow>
   fzn_ct_memeq (Some a) (Some b) len \<longleftrightarrow> take len a = take len b"
  by (auto simp: fzn_ct_memeq_def or_fold_zero xor_zero_iff list_eq_iff_nth_eq)

lemma wipe_loop: "len \<le> length q \<Longrightarrow>
  fold (\<lambda>i q. q[i := 0]) [0..<len] q = replicate len (0 :: u8) @ drop len q"
proof (induction len)
  case (Suc len)
  then have "fold (\<lambda>i q. q[i := 0]) [0..<Suc len] q = (replicate len 0 @ drop len q)[len := 0]"
    by simp
  also have "\<dots> = replicate (Suc len) 0 @ drop (Suc len) q"
    using Suc.prems by (simp add: list_update_append replicate_append_same Cons_nth_drop_Suc [symmetric])
  finally show ?case .
qed simp

section \<open>Properties\<close>

text \<open>
  The big-endian integers every signed record is written with survive being written and
  read: reading what was written gives the value, and writing what was read gives back the very
  bytes, so an integer has exactly one encoding and a signature covers exactly one value.
\<close>

theorem big_endian_round_trip:
  "fzn_get_be64 (fzn_put_be64 v) = v \<and> fzn_get_be32 (fzn_put_be32 w) = w \<and>
   fzn_get_be16 (fzn_put_be16 u) = u \<and>
   (length p = 8 \<longrightarrow> fzn_put_be64 (fzn_get_be64 p) = p) \<and>
   (length q = 4 \<longrightarrow> fzn_put_be32 (fzn_get_be32 q) = q) \<and>
   (length r = 2 \<longrightarrow> fzn_put_be16 (fzn_get_be16 r) = r)"
  using be64.get_put be32.get_put be16.get_put be64.put_get be32.put_get be16.put_get by simp

theorem big_endian_round_trip_witness:
  "fzn_put_be64 (fzn_get_be64 [1, 2, 3, 4, 5, 6, 7, 8]) = [1, 2, 3, 4, 5, 6, 7, 8] \<and>
   fzn_put_be32 (fzn_get_be32 [1, 2, 3, 4]) = [1, 2, 3, 4] \<and>
   fzn_put_be16 (fzn_get_be16 [255, 1]) = [255, 1]"
  using big_endian_round_trip [of 0 0 0 "[1, 2, 3, 4, 5, 6, 7, 8]" "[1, 2, 3, 4]" "[255, 1]"]
  by simp

text \<open>
  The branch-free comparison is equality of the compared bytes, and a comparison against
  \<open>NULL\<close> succeeds only over no bytes at all; the wipe zeroes exactly the bytes it was given.
\<close>

theorem ct_memeq_and_wipe:
  assumes "len \<le> length a" and "len \<le> length b"
  shows "(fzn_ct_memeq (Some a) (Some b) len \<longleftrightarrow> take len a = take len b) \<and>
    (fzn_ct_memeq None (Some b) len \<longleftrightarrow> len = 0) \<and> (fzn_ct_memeq (Some a) None len \<longleftrightarrow> len = 0) \<and>
    fzn_wipe (Some a) len = Some (replicate len 0 @ drop len a)"
  using ct_memeq_prefix [OF assms] wipe_loop [OF assms(1)] by (simp add: fzn_ct_memeq_def fzn_wipe_def)

theorem ct_memeq_and_wipe_witness:
  "fzn_ct_memeq (Some [1, 2, 3]) (Some [1, 2, 4]) 2 \<and>
   fzn_wipe (Some [1, 2, 3]) 2 = Some (replicate 2 0 @ drop 2 [1, 2, 3])"
  using ct_memeq_and_wipe [of 2 "[1, 2, 3]" "[1, 2, 4]"] by simp

end
