(* ===== verification/Freshness.thy ===== *)
theory Freshness
  imports Wire_Bytes
begin

text \<open>
  Command expiry and the replay window (\<open>frame/freshness.c\<close>). A window remembers the nonce
  of every frame it admitted until that frame's own expiry; a frame is admitted when it is
  fresh, its expiry lies within the window's horizon, its nonce is not remembered and there is
  room. The locale \<open>replay_memory\<close> states what a receiver relies on, and its lemma that a
  frame is never accepted twice; the window is an instance of it.
\<close>

section \<open>Data\<close>

datatype fzn_fresh_err = FZN_FRESH_OK | FZN_FRESH_ERR_MALFORMED | FZN_FRESH_ERR_EXPIRED
  | FZN_FRESH_ERR_NO_EXPIRY | FZN_FRESH_ERR_REPLAY | FZN_FRESH_ERR_WINDOW_FULL
  | FZN_FRESH_ERR_HORIZON

datatype fzn_expiry_rule = FZN_EXPIRY_REQUIRED | FZN_EXPIRY_OPTIONAL

record fzn_replay_entry =
  re_nonce :: bytes
  re_expires_at :: u64

record fzn_replay_window =
  rw_entries :: "fzn_replay_entry list option"
  rw_capacity :: nat
  rw_used :: nat
  rw_max_ahead :: u64

section \<open>Operations\<close>

definition nonce_eq :: "bytes \<Rightarrow> bytes \<Rightarrow> bool" where
  "nonce_eq a b \<longleftrightarrow> a = b"

definition horizon_of :: "u64 \<Rightarrow> u64 \<Rightarrow> u64" where
  "horizon_of now max_ahead = (if max_ahead > UINT64_MAX - now then UINT64_MAX else now + max_ahead)"

definition fzn_freshness_check :: "u64 \<Rightarrow> fzn_expiry_rule \<Rightarrow> u64 \<Rightarrow> u64 \<Rightarrow> fzn_fresh_err" where
  "fzn_freshness_check expires_at kind now max_ahead =
     (if max_ahead = 0 then FZN_FRESH_ERR_MALFORMED
      else if expires_at = 0 then
        (if kind = FZN_EXPIRY_OPTIONAL then FZN_FRESH_OK else FZN_FRESH_ERR_NO_EXPIRY)
      else if expires_at \<le> now then FZN_FRESH_ERR_EXPIRED
      else if expires_at > horizon_of now max_ahead then FZN_FRESH_ERR_HORIZON
      else FZN_FRESH_OK)"

definition fzn_replay_init ::
  "fzn_replay_entry list option \<Rightarrow> nat \<Rightarrow> u64 \<Rightarrow> fzn_fresh_err \<times> fzn_replay_window option" where
  "fzn_replay_init entries capacity max_ahead =
     (if entries = None \<or> capacity = 0 \<or> max_ahead = 0 then (FZN_FRESH_ERR_MALFORMED, None)
      else (FZN_FRESH_OK,
        Some \<lparr>rw_entries = entries, rw_capacity = capacity, rw_used = 0, rw_max_ahead = max_ahead\<rparr>))"

definition fzn_replay_expirable :: "fzn_replay_window option \<Rightarrow> u64 \<Rightarrow> nat" where
  "fzn_replay_expirable window now =
     (case window of None \<Rightarrow> 0 | Some w \<Rightarrow>
        (case rw_entries w of None \<Rightarrow> 0 | Some es \<Rightarrow>
           if rw_used w > rw_capacity w then 0
           else fold (\<lambda>i due. if re_expires_at (es ! i) \<le> now then Suc due else due)
                  [0..<rw_used w] 0))"

definition expire_loop :: "u64 \<Rightarrow> fzn_replay_entry list \<Rightarrow> nat \<Rightarrow> fzn_replay_entry list \<times> nat" where
  "expire_loop now es used = compact (\<lambda>e. re_expires_at e > now) es used"

definition fzn_replay_expire :: "fzn_replay_window option \<Rightarrow> u64 \<Rightarrow> nat \<times> fzn_replay_window option" where
  "fzn_replay_expire window now =
     (case window of None \<Rightarrow> (0, window) | Some w \<Rightarrow>
        (case rw_entries w of None \<Rightarrow> (0, window) | Some es \<Rightarrow>
           if rw_used w > rw_capacity w then (0, window)
           else let (es', kept) = expire_loop now es (rw_used w)
                in (rw_used w - kept, Some (w\<lparr>rw_entries := Some es', rw_used := kept\<rparr>))))"

definition fzn_replay_admit :: "fzn_replay_window option \<Rightarrow> bytes option \<Rightarrow> u64 \<Rightarrow>
    fzn_expiry_rule \<Rightarrow> u64 \<Rightarrow> fzn_fresh_err \<times> fzn_replay_window option" where
  "fzn_replay_admit window nonce expires_at kind now =
     (case (window, nonce) of
        (Some w0, Some n) \<Rightarrow>
          if rw_entries w0 = None then (FZN_FRESH_ERR_MALFORMED, window)
          else if rw_used w0 > rw_capacity w0 then (FZN_FRESH_ERR_MALFORMED, window)
          else
            let window1 = snd (fzn_replay_expire window now);
                w = the window1;
                es = the (rw_entries w);
                err = fzn_freshness_check expires_at kind now (rw_max_ahead w)
            in if err \<noteq> FZN_FRESH_OK then (err, window1)
               else if expires_at = 0 then (FZN_FRESH_OK, window1)
               else if list_ex (\<lambda>i. nonce_eq (re_nonce (es ! i)) n) [0..<rw_used w]
                 then (FZN_FRESH_ERR_REPLAY, window1)
               else if rw_used w \<ge> rw_capacity w then (FZN_FRESH_ERR_WINDOW_FULL, window1)
               else (FZN_FRESH_OK,
                 Some (w\<lparr>rw_entries := Some (es[rw_used w := \<lparr>re_nonce = n, re_expires_at = expires_at\<rparr>]),
                         rw_used := Suc (rw_used w)\<rparr>))
      | _ \<Rightarrow> (FZN_FRESH_ERR_MALFORMED, window))"

definition fzn_fresh_err_str :: "fzn_fresh_err \<Rightarrow> string" where
  "fzn_fresh_err_str err =
     (case err of
        FZN_FRESH_OK \<Rightarrow> ''ok''
      | FZN_FRESH_ERR_MALFORMED \<Rightarrow> ''malformed argument''
      | FZN_FRESH_ERR_EXPIRED \<Rightarrow> ''expiry has passed''
      | FZN_FRESH_ERR_NO_EXPIRY \<Rightarrow> ''command carries no expiry''
      | FZN_FRESH_ERR_REPLAY \<Rightarrow> ''nonce already seen''
      | FZN_FRESH_ERR_WINDOW_FULL \<Rightarrow> ''replay window full of live entries''
      | FZN_FRESH_ERR_HORIZON \<Rightarrow> ''expiry beyond the replay horizon'')"

section \<open>Well-formed windows and what they remember\<close>

definition window_rows :: "fzn_replay_window \<Rightarrow> fzn_replay_entry list" where
  "window_rows w = take (rw_used w) (the (rw_entries w))"

definition window_wf :: "fzn_replay_window \<Rightarrow> bool" where
  "window_wf w \<longleftrightarrow>
     (\<exists>es. rw_entries w = Some es \<and> length es = rw_capacity w) \<and>
     rw_used w \<le> rw_capacity w \<and> rw_max_ahead w \<noteq> 0 \<and>
     distinct (map re_nonce (window_rows w)) \<and> (\<forall>e \<in> set (window_rows w). re_expires_at e \<noteq> 0)"

definition remembered :: "fzn_replay_window \<Rightarrow> (bytes \<times> u64) set" where
  "remembered w = (\<lambda>e. (re_nonce e, re_expires_at e)) ` set (window_rows w)"

text \<open>The machine a receiver drives: it admits frames and sweeps, each at some instant.\<close>

datatype replay_event = Admit bytes u64 fzn_expiry_rule u64 | Sweep u64

primrec event_time :: "replay_event \<Rightarrow> u64" where
  "event_time (Admit n x k t) = t"
| "event_time (Sweep t) = t"

primrec replay_step ::
  "fzn_replay_window \<Rightarrow> replay_event \<Rightarrow> fzn_fresh_err \<times> fzn_replay_window" where
  "replay_step w (Admit n x k t) =
     (let (err, w') = fzn_replay_admit (Some w) (Some n) x k t in (err, the w'))"
| "replay_step w (Sweep t) = (FZN_FRESH_OK, the (snd (fzn_replay_expire (Some w) t)))"

section \<open>The interface a receiver relies on\<close>

locale replay_memory =
  fixes step :: "'w \<Rightarrow> replay_event \<Rightarrow> fzn_fresh_err \<times> 'w"
    and held :: "'w \<Rightarrow> (bytes \<times> u64) set"
    and invar :: "'w \<Rightarrow> bool"
  assumes step_invar: "invar w \<Longrightarrow> invar (snd (step w e))"
    and step_keeps: "invar w \<Longrightarrow> (n, x) \<in> held w \<Longrightarrow> event_time e < x \<Longrightarrow>
      (n, x) \<in> held (snd (step w e))"
    and admit_remembers: "invar w \<Longrightarrow> x \<noteq> 0 \<Longrightarrow> fst (step w (Admit n x k t)) = FZN_FRESH_OK \<Longrightarrow>
      t < x \<and> (n, x) \<in> held (snd (step w (Admit n x k t)))"
    and admit_refuses: "invar w \<Longrightarrow> (n, x) \<in> held w \<Longrightarrow> t < x \<Longrightarrow> y \<noteq> 0 \<Longrightarrow>
      fst (step w (Admit n y k t)) \<noteq> FZN_FRESH_OK"
begin

sublocale steps: invariant_machine step invar
  by unfold_locales (rule step_invar)

lemma run_keeps:
  "invar w \<Longrightarrow> (n, x) \<in> held w \<Longrightarrow> (\<forall>e \<in> set es. event_time e < x) \<Longrightarrow>
   (n, x) \<in> held (final step w es)"
  by (induction es arbitrary: w) (auto simp: split_beta step_invar step_keeps)

text \<open>
  Once a nonce was accepted with expiry \<open>x\<close>, it is accepted again only at or after
  \<open>x\<close>, whatever happens in between, as long as the clock does not run backwards.
\<close>

lemma accepted_again_after_expiry:
  assumes inv: "invar w"
    and first: "fst (step w (Admit n x k t)) = FZN_FRESH_OK" "x \<noteq> 0" "y \<noteq> 0"
    and clock: "sorted (map event_time (es @ [Admit n y k' t']))"
    and again: "fst (step (final step (snd (step w (Admit n x k t))) es) (Admit n y k' t')) = FZN_FRESH_OK"
  shows "x \<le> t'"
proof (rule ccontr)
  assume "\<not> x \<le> t'"
  let ?w = "snd (step w (Admit n x k t))"
  have inv': "invar ?w" and mem: "(n, x) \<in> held ?w"
    using step_invar [OF inv] admit_remembers [OF inv first(2,1)] by auto
  have "\<forall>e \<in> set es. event_time e < x"
    using clock \<open>\<not> x \<le> t'\<close> by (fastforce simp: sorted_append)
  then have "(n, x) \<in> held (final step ?w es)" by (rule run_keeps [OF inv' mem])
  then show False
    using admit_refuses [OF steps.run_invar [OF inv']] again first(3) \<open>\<not> x \<le> t'\<close> by force
qed

end

section \<open>Lemmas\<close>

lemma horizon_of_sat: "horizon_of now max_ahead = sat_add now max_ahead"
  by (simp add: horizon_of_def sat_add_def)

lemma le_horizon_iff:
  "x \<le> horizon_of now m \<longleftrightarrow> unat x \<le> unat now + unat m"
proof -
  have "unat x < 2 ^ 64" using unsigned_less [of x, where 'a = nat] by simp
  then show ?thesis by (simp add: word_le_nat_alt horizon_of_sat unat_sat_add)
qed

lemma freshness_ok_iff:
  "fzn_freshness_check x kind now m = FZN_FRESH_OK \<longleftrightarrow>
     m \<noteq> 0 \<and> (if x = 0 then kind = FZN_EXPIRY_OPTIONAL
               else now < x \<and> unat x \<le> unat now + unat m)"
  using le_horizon_iff [of x now m] by (auto simp: fzn_freshness_check_def)

lemma count_due:
  "n \<le> length es \<Longrightarrow>
   fold (\<lambda>i due. if P (es ! i) then Suc due else due) [0..<n] 0 = length (filter P (take n es))"
  by (induction n) (auto simp: take_Suc_conv_app_nth)

lemma list_ex_rows:
  "n \<le> length es \<Longrightarrow> list_ex (\<lambda>i. P (es ! i)) [0..<n] \<longleftrightarrow> (\<exists>e \<in> set (take n es). P e)"
  by (force simp: list_ex_iff in_set_conv_nth)

lemma wf_entries: "window_wf w \<Longrightarrow> \<exists>es. rw_entries w = Some es \<and> length es = rw_capacity w"
  by (simp add: window_wf_def)

lemma wf_used: "window_wf w \<Longrightarrow> rw_used w \<le> rw_capacity w"
  by (simp add: window_wf_def)

text \<open>What a sweep does to a well-formed window.\<close>

lemma expire_wf:
  assumes "window_wf w"
  obtains w' where "fzn_replay_expire (Some w) now = (rw_used w - rw_used w', Some w')"
    and "window_wf w'" and "window_rows w' = filter (\<lambda>e. re_expires_at e > now) (window_rows w)"
    and "rw_capacity w' = rw_capacity w" and "rw_max_ahead w' = rw_max_ahead w"
    and "rw_used w' = length (window_rows w')"
proof -
  obtain es where es: "rw_entries w = Some es" "length es = rw_capacity w" and u: "rw_used w \<le> length es"
    using assms by (auto simp: window_wf_def)
  let ?P = "\<lambda>e. re_expires_at e > now"
  obtain es' k where c: "compact ?P es (rw_used w) = (es', k)" by fastforce
  have spec: "length es' = length es" "k = length (filter ?P (take (rw_used w) es))"
    "take k es' = filter ?P (take (rw_used w) es)"
    using compact_spec [OF u, of ?P] c by auto
  define w' where "w' = w\<lparr>rw_entries := Some es', rw_used := k\<rparr>"
  have rows: "window_rows w' = filter ?P (window_rows w)"
    using spec es by (simp add: w'_def window_rows_def)
  have "k \<le> rw_used w" using spec(2) length_filter_le [of ?P "take (rw_used w) es"] by simp
  moreover have "distinct (map re_nonce (window_rows w'))"
    using assms by (simp add: rows window_wf_def distinct_map_filter)
  moreover have "\<forall>e \<in> set (window_rows w'). re_expires_at e \<noteq> 0"
    using assms by (simp add: rows window_wf_def)
  moreover have "rw_max_ahead w \<noteq> 0" using assms by (simp add: window_wf_def)
  ultimately have "window_wf w'"
    using spec(1) es u by (simp add: window_wf_def w'_def)
  moreover have "fzn_replay_expire (Some w) now = (rw_used w - rw_used w', Some w')"
    using es u c by (simp add: fzn_replay_expire_def expire_loop_def w'_def)
  moreover have "rw_used w' = length (window_rows w')"
    using spec by (simp add: rows) (simp add: w'_def window_rows_def es)
  ultimately show thesis
    using rows by (intro that [of w']) (simp_all add: w'_def)
qed

text \<open>The outcome of admitting a nonce into a well-formed window, branch by branch.\<close>

lemma admit_cases:
  assumes "window_wf w"
  obtains w' where "snd (fzn_replay_expire (Some w) now) = Some w'" and "window_wf w'"
    and "window_rows w' = filter (\<lambda>e. re_expires_at e > now) (window_rows w)"
    and "rw_capacity w' = rw_capacity w" and "rw_max_ahead w' = rw_max_ahead w"
    and "fzn_replay_admit (Some w) (Some n) x kind now =
      (let err = fzn_freshness_check x kind now (rw_max_ahead w) in
       if err \<noteq> FZN_FRESH_OK then (err, Some w')
       else if x = 0 then (FZN_FRESH_OK, Some w')
       else if n \<in> re_nonce ` set (window_rows w') then (FZN_FRESH_ERR_REPLAY, Some w')
       else if length (window_rows w') \<ge> rw_capacity w then (FZN_FRESH_ERR_WINDOW_FULL, Some w')
       else (FZN_FRESH_OK, Some (w'\<lparr>rw_entries := Some ((the (rw_entries w'))
              [rw_used w' := \<lparr>re_nonce = n, re_expires_at = x\<rparr>]), rw_used := Suc (rw_used w')\<rparr>)))"
proof -
  obtain w' where w': "fzn_replay_expire (Some w) now = (rw_used w - rw_used w', Some w')"
      "window_wf w'" "window_rows w' = filter (\<lambda>e. re_expires_at e > now) (window_rows w)"
      "rw_capacity w' = rw_capacity w" "rw_max_ahead w' = rw_max_ahead w"
      "rw_used w' = length (window_rows w')"
    by (rule expire_wf [OF assms])
  obtain es' where es': "rw_entries w' = Some es'" "length es' = rw_capacity w'"
    using wf_entries [OF w'(2)] by blast
  have ex: "list_ex (\<lambda>i. nonce_eq (re_nonce (es' ! i)) n) [0..<rw_used w']
      \<longleftrightarrow> n \<in> re_nonce ` set (window_rows w')"
    using es' wf_used [OF w'(2)] list_ex_rows [of "rw_used w'" es' "\<lambda>e. nonce_eq (re_nonce e) n"]
    by (auto simp: window_rows_def nonce_eq_def)
  obtain es where es: "rw_entries w = Some es" "\<not> rw_capacity w < rw_used w"
    using assms by (auto simp: window_wf_def)
  have "fzn_replay_admit (Some w) (Some n) x kind now =
      (let err = fzn_freshness_check x kind now (rw_max_ahead w) in
       if err \<noteq> FZN_FRESH_OK then (err, Some w')
       else if x = 0 then (FZN_FRESH_OK, Some w')
       else if n \<in> re_nonce ` set (window_rows w') then (FZN_FRESH_ERR_REPLAY, Some w')
       else if length (window_rows w') \<ge> rw_capacity w then (FZN_FRESH_ERR_WINDOW_FULL, Some w')
       else (FZN_FRESH_OK, Some (w'\<lparr>rw_entries := Some ((the (rw_entries w'))
              [rw_used w' := \<lparr>re_nonce = n, re_expires_at = x\<rparr>]), rw_used := Suc (rw_used w')\<rparr>)))"
    unfolding fzn_replay_admit_def Let_def by (simp add: es w'(1,4,5) es'(1) ex w'(6) [symmetric])
  then show thesis using w' by (intro that [of w']) simp_all
qed

lemma append_row:
  assumes "window_wf w'" and "length (window_rows w') < rw_capacity w'"
    and "n \<notin> re_nonce ` set (window_rows w')" and "x \<noteq> 0"
  defines "w'' \<equiv> w'\<lparr>rw_entries := Some ((the (rw_entries w'))
              [rw_used w' := \<lparr>re_nonce = n, re_expires_at = x\<rparr>]), rw_used := Suc (rw_used w')\<rparr>"
  shows "window_wf w'' \<and> window_rows w'' = window_rows w' @ [\<lparr>re_nonce = n, re_expires_at = x\<rparr>]"
proof -
  obtain es where es: "rw_entries w' = Some es" "length es = rw_capacity w'"
    using wf_entries [OF assms(1)] by blast
  have lt: "rw_used w' < length es" using assms(1,2) es by (auto simp: window_wf_def window_rows_def)
  then have rows': "window_rows w'' = window_rows w' @ [\<lparr>re_nonce = n, re_expires_at = x\<rparr>]"
    using es by (simp add: w''_def window_rows_def take_append_cell)
  then show ?thesis
    using assms(1,3,4) es lt by (auto simp: window_wf_def w''_def)
qed

lemma admit_wf:
  assumes "window_wf w"
  shows "\<exists>w'. snd (fzn_replay_admit (Some w) (Some n) x kind now) = Some w' \<and> window_wf w'
     \<and> rw_capacity w' = rw_capacity w \<and> rw_max_ahead w' = rw_max_ahead w"
  by (rule admit_cases [OF assms, of now n x kind])
    (auto simp: Let_def append_row not_le)

lemma step_wf: "window_wf w \<Longrightarrow> window_wf (snd (replay_step w e))"
proof (cases e)
  case (Admit n x k t)
  then show "window_wf w \<Longrightarrow> ?thesis" using admit_wf [of w n x k t] by (auto simp: split_beta)
next
  case (Sweep t)
  assume "window_wf w"
  then show ?thesis using Sweep by (auto elim!: expire_wf [of w t])
qed

lemma remembered_live:
  "remembered w = (\<lambda>e. (re_nonce e, re_expires_at e)) ` set (window_rows w)"
  by (rule remembered_def)

lemma step_remembers:
  assumes "window_wf w" and "(n, x) \<in> remembered w" and "event_time e < x"
  shows "(n, x) \<in> remembered (snd (replay_step w e))"
proof (cases e)
  case (Admit m y k t)
  show ?thesis
    using assms(2,3)
    by (rule_tac admit_cases [OF assms(1), of t m y k])
      (auto simp: Admit split_beta remembered_def Let_def append_row not_le)
next
  case (Sweep t)
  show ?thesis
    using assms(2,3)
    by (rule_tac expire_wf [OF assms(1), of t]) (auto simp: Sweep remembered_def)
qed

lemma admit_ok_remembers:
  assumes "window_wf w" and "x \<noteq> 0"
    and "fst (fzn_replay_admit (Some w) (Some n) x k t) = FZN_FRESH_OK"
  shows "t < x \<and> (n, x) \<in> remembered (the (snd (fzn_replay_admit (Some w) (Some n) x k t)))"
  using assms(2,3)
  by (rule_tac admit_cases [OF assms(1), of t n x k])
    (auto simp: remembered_def Let_def append_row not_le freshness_ok_iff split: if_splits)

lemma admit_remembered_refused:
  assumes "window_wf w" and "(n, x) \<in> remembered w" and "t < x" and "y \<noteq> 0"
  shows "fst (fzn_replay_admit (Some w) (Some n) y k t) \<noteq> FZN_FRESH_OK"
proof (rule admit_cases [OF assms(1), of t n y k])
  fix w'
  assume rows: "window_rows w' = filter (\<lambda>e. re_expires_at e > t) (window_rows w)"
    and adm: "fzn_replay_admit (Some w) (Some n) y k t = (let err = fzn_freshness_check y k t (rw_max_ahead w) in
       if err \<noteq> FZN_FRESH_OK then (err, Some w')
       else if y = 0 then (FZN_FRESH_OK, Some w')
       else if n \<in> re_nonce ` set (window_rows w') then (FZN_FRESH_ERR_REPLAY, Some w')
       else if length (window_rows w') \<ge> rw_capacity w then (FZN_FRESH_ERR_WINDOW_FULL, Some w')
       else (FZN_FRESH_OK, Some (w'\<lparr>rw_entries := Some ((the (rw_entries w'))
              [rw_used w' := \<lparr>re_nonce = n, re_expires_at = y\<rparr>]), rw_used := Suc (rw_used w')\<rparr>)))"
  have "n \<in> re_nonce ` set (window_rows w')"
    using assms(2,3) rows by (force simp: remembered_def)
  then show ?thesis using adm assms(4) by (simp add: Let_def)
qed

interpretation replay_window: replay_memory replay_step remembered window_wf
proof unfold_locales
  show "window_wf w \<Longrightarrow> window_wf (snd (replay_step w e))" for w e
    by (rule step_wf)
  show "window_wf w \<Longrightarrow> (n, x) \<in> remembered w \<Longrightarrow> event_time e < x \<Longrightarrow>
      (n, x) \<in> remembered (snd (replay_step w e))" for w n x e
    by (rule step_remembers)
  show "window_wf w \<Longrightarrow> x \<noteq> 0 \<Longrightarrow> fst (replay_step w (Admit n x k t)) = FZN_FRESH_OK \<Longrightarrow>
      t < x \<and> (n, x) \<in> remembered (snd (replay_step w (Admit n x k t)))" for w x n k t
    using admit_ok_remembers [of w x n k t] by (simp add: split_beta)
  show "window_wf w \<Longrightarrow> (n, x) \<in> remembered w \<Longrightarrow> t < x \<Longrightarrow> y \<noteq> 0 \<Longrightarrow>
      fst (replay_step w (Admit n y k t)) \<noteq> FZN_FRESH_OK" for w n x t y k
    using admit_remembered_refused [of w n x t y k] by (simp add: split_beta)
qed

lemma init_wf:
  "fzn_replay_init (Some es) (length es) m = (FZN_FRESH_OK, Some w) \<Longrightarrow> window_wf w"
  by (auto simp: fzn_replay_init_def window_wf_def window_rows_def split: if_splits)

text \<open>The occurrences of two events in one run, seen from the earlier of them.\<close>

lemma run_split:
  assumes "i < j" and "j < length es"
  shows "final step s (take j es) =
    final step (snd (step (final step s (take i es)) (es ! i))) (bytes_at (Suc i) (j - Suc i) es)"
proof -
  have "take j es = take i es @ es ! i # bytes_at (Suc i) (j - Suc i) es"
    using assms by (metis Suc_leI append_Cons append_Nil append_assoc le_add_diff_inverse
        less_trans split_at_bytes_at take_Suc_conv_app_nth)
  then show ?thesis by (simp add: run_append split_beta)
qed

lemma sorted_between:
  assumes "sorted (map f es)" and "i < j" and "j < length es"
  shows "sorted (map f (bytes_at (Suc i) (j - Suc i) es @ [es ! j]))"
proof -
  have "drop (Suc i) (take (Suc j) es) = bytes_at (Suc i) (j - Suc i) es @ [es ! j]"
    using assms(2,3) by (simp add: bytes_at_def take_Suc_conv_app_nth drop_take)
  then show ?thesis
    using assms(1) by (metis drop_map sorted_wrt_drop sorted_wrt_take take_map)
qed

section \<open>Properties\<close>

text \<open>
  A receiver that starts from a fresh window and whose clock does not run backwards never
  executes a command twice while it is in force: whenever one nonce is admitted twice in a run of
  admissions and sweeps, the second admission is at or after the expiry the first one carried.
\<close>

theorem no_frame_accepted_twice:
  assumes "fzn_replay_init (Some cells) (length cells) m = (FZN_FRESH_OK, Some w)"
    and "sorted (map event_time es)" and "i < j" and "j < length es"
    and "es ! i = Admit n x k t" and "es ! j = Admit n y k' t'" and "x \<noteq> 0" and "y \<noteq> 0"
    and "snd (trace replay_step w es ! i) = FZN_FRESH_OK"
    and "snd (trace replay_step w es ! j) = FZN_FRESH_OK"
  shows "x \<le> t'"
proof (rule replay_window.accepted_again_after_expiry)
  show "window_wf (final replay_step w (take i es))"
    by (rule replay_window.steps.run_invar [OF init_wf [OF assms(1)]])
  show "fst (replay_step (final replay_step w (take i es)) (Admit n x k t)) = FZN_FRESH_OK"
    using assms(3,4,5,9) by (simp add: trace_nth)
  show "sorted (map event_time (bytes_at (Suc i) (j - Suc i) es @ [Admit n y k' t']))"
    using sorted_between [OF assms(2-4)] assms(6) by simp
  show "fst (replay_step (final replay_step (snd (replay_step (final replay_step w (take i es))
      (Admit n x k t))) (bytes_at (Suc i) (j - Suc i) es)) (Admit n y k' t')) = FZN_FRESH_OK"
    using assms(4,5,6,10) run_split [OF assms(3,4), of replay_step w] by (simp add: trace_nth)
qed (rule assms)+

definition replay_cells :: "fzn_replay_entry list" where
  "replay_cells = replicate 2 \<lparr>re_nonce = [], re_expires_at = 0\<rparr>"

definition replay_script :: "replay_event list" where
  "replay_script = [Admit [7] 20 FZN_EXPIRY_REQUIRED 10, Sweep 15,
     Admit [7] 21 FZN_EXPIRY_REQUIRED 20]"

definition replay_start :: fzn_replay_window where
  "replay_start = \<lparr>rw_entries = Some replay_cells, rw_capacity = 2, rw_used = 0, rw_max_ahead = 60\<rparr>"

lemma replay_script_runs:
  "map snd (trace replay_step replay_start replay_script) = [FZN_FRESH_OK, FZN_FRESH_OK, FZN_FRESH_OK]"
  by code_simp

theorem no_frame_accepted_twice_witness:
  "snd (trace replay_step replay_start replay_script ! 0) = FZN_FRESH_OK \<and>
   snd (trace replay_step replay_start replay_script ! 2) = FZN_FRESH_OK \<and> (20 :: u64) \<le> 20"
proof -
  have ok: "snd (trace replay_step replay_start replay_script ! 0) = FZN_FRESH_OK"
    "snd (trace replay_step replay_start replay_script ! 2) = FZN_FRESH_OK"
    by code_simp+
  moreover have "(20 :: u64) \<le> 20"
    by (rule no_frame_accepted_twice [of replay_cells 60 replay_start replay_script 0 2 "[7]" 20
          FZN_EXPIRY_REQUIRED 10 21 FZN_EXPIRY_REQUIRED 20])
      (use ok in \<open>simp_all add: fzn_replay_init_def replay_start_def replay_cells_def
        replay_script_def\<close>)
  ultimately show ?thesis by simp
qed

text \<open>
  What admitting a frame does, on every branch. The window first forgets every entry whose
  expiry has passed. The frame is then refused with the verdict of the freshness check, with
  \<open>REPLAY\<close> when its nonce is among the entries still in force, with \<open>WINDOW_FULL\<close> only when
  entries still in force fill the window, and otherwise accepted, and only an accepted frame that
  carries an expiry is remembered. The window stays well formed and keeps its bounds.
\<close>

theorem replay_admit_outcome:
  fixes now x :: u64 and n :: bytes and kind :: fzn_expiry_rule
  assumes "window_wf w"
  defines "live \<equiv> filter (\<lambda>e. re_expires_at e > now) (window_rows w)"
    and "err \<equiv> fzn_freshness_check x kind now (rw_max_ahead w)"
  shows "\<exists>w'. fzn_replay_admit (Some w) (Some n) x kind now =
      ((if err \<noteq> FZN_FRESH_OK then err
        else if x \<noteq> 0 \<and> n \<in> re_nonce ` set live then FZN_FRESH_ERR_REPLAY
        else if x \<noteq> 0 \<and> length live = rw_capacity w then FZN_FRESH_ERR_WINDOW_FULL
        else FZN_FRESH_OK), Some w')
    \<and> window_wf w' \<and> rw_capacity w' = rw_capacity w \<and> rw_max_ahead w' = rw_max_ahead w
    \<and> window_rows w' = live @
        (if err = FZN_FRESH_OK \<and> x \<noteq> 0 \<and> n \<notin> re_nonce ` set live \<and> length live < rw_capacity w
         then [\<lparr>re_nonce = n, re_expires_at = x\<rparr>] else [])"
proof (rule admit_cases [OF assms(1), of now n x kind])
  fix w'
  assume wf: "window_wf w'" and rows: "window_rows w' = filter (\<lambda>e. re_expires_at e > now) (window_rows w)"
    and cap: "rw_capacity w' = rw_capacity w" "rw_max_ahead w' = rw_max_ahead w"
    and adm: "fzn_replay_admit (Some w) (Some n) x kind now = (let err = fzn_freshness_check x kind now (rw_max_ahead w) in
       if err \<noteq> FZN_FRESH_OK then (err, Some w')
       else if x = 0 then (FZN_FRESH_OK, Some w')
       else if n \<in> re_nonce ` set (window_rows w') then (FZN_FRESH_ERR_REPLAY, Some w')
       else if length (window_rows w') \<ge> rw_capacity w then (FZN_FRESH_ERR_WINDOW_FULL, Some w')
       else (FZN_FRESH_OK, Some (w'\<lparr>rw_entries := Some ((the (rw_entries w'))
              [rw_used w' := \<lparr>re_nonce = n, re_expires_at = x\<rparr>]), rw_used := Suc (rw_used w')\<rparr>)))"
  have live: "window_rows w' = live" using rows by (simp add: live_def)
  moreover have "length (window_rows w') \<le> rw_capacity w'"
    using wf by (auto simp: window_wf_def window_rows_def)
  ultimately have "length live \<le> rw_capacity w" using cap by simp
  then show ?thesis
    using adm wf cap append_row [OF wf, of n x] live unfolding err_def [symmetric]
    by (cases "err = FZN_FRESH_OK"; cases "x = 0"; cases "n \<in> re_nonce ` set live";
        cases "length live = rw_capacity w") (simp_all add: Let_def)
qed

theorem replay_admit_outcome_witness:
  "window_wf replay_start \<and>
   fst (fzn_replay_admit (Some replay_start) (Some [7]) 20 FZN_EXPIRY_REQUIRED 10) = FZN_FRESH_OK"
proof -
  have "window_wf replay_start" by (simp add: window_wf_def replay_start_def replay_cells_def window_rows_def)
  moreover have "fzn_freshness_check 20 FZN_EXPIRY_REQUIRED 10 60 = FZN_FRESH_OK" by code_simp
  ultimately show ?thesis
    using replay_admit_outcome [of replay_start "[7]" 20 FZN_EXPIRY_REQUIRED 10]
    by (auto simp: replay_start_def window_rows_def)
qed

text \<open>
  The freshness check accepts exactly the frames whose expiry lies after now and at most
  \<open>max_ahead\<close> ahead of it, read as unbounded numbers, so that the addition cannot wrap an
  expiry in the far future into an acceptable one; a frame without an expiry passes exactly where
  the expiry is optional, and a window without a horizon accepts nothing.
\<close>

theorem freshness_check_accepts:
  "fzn_freshness_check x kind now m = FZN_FRESH_OK \<longleftrightarrow>
     m \<noteq> 0 \<and> (if x = 0 then kind = FZN_EXPIRY_OPTIONAL
               else unat now < unat x \<and> unat x \<le> unat now + unat m)"
  by (simp add: freshness_ok_iff word_less_nat_alt)

text \<open>
  The count of expirable entries that a caller reads before a sweep is the number the sweep
  drops, and the sweep keeps exactly the entries still in force, in their order.
\<close>

theorem sweep_drops_expirable:
  assumes "window_wf w"
  shows "\<exists>w'. fzn_replay_expire (Some w) now = (fzn_replay_expirable (Some w) now, Some w')
    \<and> window_wf w' \<and> window_rows w' = filter (\<lambda>e. re_expires_at e > now) (window_rows w)
    \<and> fzn_replay_expirable (Some w') now = 0"
proof (rule expire_wf [OF assms, of now])
  have cnt: "window_wf v \<Longrightarrow>
    fzn_replay_expirable (Some v) now = length (filter (\<lambda>e. re_expires_at e \<le> now) (window_rows v))" for v
    using count_due [of "rw_used v" "the (rw_entries v)" "\<lambda>e. re_expires_at e \<le> now"]
    by (auto simp: fzn_replay_expirable_def window_wf_def window_rows_def)
  fix w'
  assume w': "fzn_replay_expire (Some w) now = (rw_used w - rw_used w', Some w')" "window_wf w'"
    "window_rows w' = filter (\<lambda>e. re_expires_at e > now) (window_rows w)"
    "rw_used w' = length (window_rows w')"
  have "rw_used w = length (window_rows w)" using assms by (auto simp: window_wf_def window_rows_def)
  then have "rw_used w - rw_used w' = fzn_replay_expirable (Some w) now"
    using w'(3,4) cnt [OF assms] sum_length_filter_compl [of "\<lambda>e. re_expires_at e > now" "window_rows w"]
    by (simp add: not_less)
  moreover have "fzn_replay_expirable (Some w') now = 0"
    using cnt [OF w'(2)] by (simp add: w'(3) filter_filter) (simp add: filter_empty_conv not_le)
  ultimately show ?thesis using w' by auto
qed

theorem sweep_drops_expirable_witness:
  "window_wf replay_start \<and> fzn_replay_expirable (Some replay_start) 10 = 0 \<and>
   fst (fzn_replay_expire (Some replay_start) 10) = 0"
proof -
  have "window_wf replay_start" by (simp add: window_wf_def replay_start_def replay_cells_def window_rows_def)
  then show ?thesis
    using sweep_drops_expirable [of replay_start 10]
    by (auto simp: fzn_replay_expirable_def replay_start_def replay_cells_def)
qed

end
