(* ===== verification/Split.thy ===== *)
theory Split
  imports Wire_Bytes
begin

text \<open>
  Cutting a message into chunks (\<open>chunk/split.c\<close>). A plan fixes the stride, the number of
  chunks and the buffer a receiver needs; \<open>fzn_split_at\<close> gives the range of one chunk and
  distrusts the plan it is handed. Sizes are 64-bit words here, since a plan comes from outside
  and its fields are multiplied.
\<close>

section \<open>Data\<close>

datatype fzn_split_err = FZN_SPLIT_OK | FZN_SPLIT_ERR_MALFORMED | FZN_SPLIT_ERR_TOO_LARGE
  | FZN_SPLIT_ERR_PAYLOAD_TOO_LARGE

record fzn_split =
  sp_total :: u64
  sp_chunk_size :: u64
  sp_chunks :: u16
  sp_buffer_needed :: u64

abbreviation FZN_SPLIT_MAX_PAYLOAD :: u64 where "FZN_SPLIT_MAX_PAYLOAD \<equiv> 1024"
abbreviation FZN_REASM_MAX_CHUNKS :: nat where "FZN_REASM_MAX_CHUNKS \<equiv> 256"

section \<open>Operations\<close>

definition split_count :: "u64 \<Rightarrow> u64 \<Rightarrow> u64" where
  "split_count tot max_payload =
     (if tot mod max_payload \<noteq> 0 then tot div max_payload + 1 else tot div max_payload)"

definition fzn_split_plan :: "u64 \<Rightarrow> u64 \<Rightarrow> fzn_split_err \<times> fzn_split option" where
  "fzn_split_plan tot max_payload =
     (if max_payload = 0 then (FZN_SPLIT_ERR_MALFORMED, None)
      else if max_payload > FZN_SPLIT_MAX_PAYLOAD then (FZN_SPLIT_ERR_PAYLOAD_TOO_LARGE, None)
      else if tot = 0 then (FZN_SPLIT_ERR_MALFORMED, None)
      else let count = split_count tot max_payload in
        if count > of_nat FZN_REASM_MAX_CHUNKS then (FZN_SPLIT_ERR_TOO_LARGE, None)
        else let chunk_size = (if count = 1 then tot else max_payload) in
          (FZN_SPLIT_OK, Some \<lparr>sp_total = tot, sp_chunk_size = chunk_size, sp_chunks = ucast count,
             sp_buffer_needed = chunk_size * count\<rparr>))"

definition fzn_split_at :: "fzn_split option \<Rightarrow> u16 \<Rightarrow> fzn_split_err \<times> (u64 \<times> u64) option" where
  "fzn_split_at plan index =
     (case plan of None \<Rightarrow> (FZN_SPLIT_ERR_MALFORMED, None)
      | Some p \<Rightarrow>
        if sp_chunks p = 0 \<or> sp_chunk_size p = 0 then (FZN_SPLIT_ERR_MALFORMED, None)
        else if index \<ge> sp_chunks p then (FZN_SPLIT_ERR_MALFORMED, None)
        else if sp_chunk_size p > sp_total p then (FZN_SPLIT_ERR_MALFORMED, None)
        else if ucast index > (sp_total p - 1) div sp_chunk_size p then (FZN_SPLIT_ERR_MALFORMED, None)
        else if ucast (sp_chunks p) \<noteq> (sp_total p - 1) div sp_chunk_size p + 1
          then (FZN_SPLIT_ERR_MALFORMED, None)
        else let start = ucast index * sp_chunk_size p in
          (FZN_SPLIT_OK, Some (start,
             if (ucast index :: u32) + 1 = ucast (sp_chunks p) then sp_total p - start
             else sp_chunk_size p)))"

definition fzn_split_err_str :: "fzn_split_err \<Rightarrow> string" where
  "fzn_split_err_str err =
     (case err of
        FZN_SPLIT_OK \<Rightarrow> ''ok''
      | FZN_SPLIT_ERR_MALFORMED \<Rightarrow> ''malformed argument''
      | FZN_SPLIT_ERR_TOO_LARGE \<Rightarrow> ''message needs more chunks than a receiver tracks''
      | FZN_SPLIT_ERR_PAYLOAD_TOO_LARGE \<Rightarrow> ''max_payload exceeds what a frame carries'')"

section \<open>The ranges a plan describes, over unbounded numbers\<close>

definition plan_wf :: "fzn_split \<Rightarrow> bool" where
  "plan_wf p \<longleftrightarrow> 0 < unat (sp_chunk_size p) \<and> unat (sp_chunk_size p) \<le> unat (sp_total p) \<and>
     unat (sp_chunks p) = (unat (sp_total p) - 1) div unat (sp_chunk_size p) + 1"

definition piece_start :: "fzn_split \<Rightarrow> nat \<Rightarrow> nat" where
  "piece_start p i = i * unat (sp_chunk_size p)"

definition piece_len :: "fzn_split \<Rightarrow> nat \<Rightarrow> nat" where
  "piece_len p i = (if Suc i = unat (sp_chunks p) then unat (sp_total p) - piece_start p i
                    else unat (sp_chunk_size p))"

definition piece :: "fzn_split \<Rightarrow> 'a list \<Rightarrow> nat \<Rightarrow> 'a list" where
  "piece p data i = bytes_at (piece_start p i) (piece_len p i) data"

section \<open>Lemmas\<close>

lemma unat_bound64: "unat (x :: u64) < 2 ^ 64"
  using unsigned_less [of x, where 'a = nat] by simp

lemma unat_bound16: "unat (x :: u16) < 2 ^ 16"
  using unsigned_less [of x, where 'a = nat] by simp

lemma unat_ucast_16_64 [simp]: "unat (ucast (x :: u16) :: u64) = unat x"
  by (simp add: unsigned_ucast_eq take_bit_nat_eq_self order.strict_trans [OF unat_bound16])

lemma unat_ucast_16_32 [simp]: "unat (ucast (x :: u16) :: u32) = unat x"
  by (simp add: unsigned_ucast_eq take_bit_nat_eq_self order.strict_trans [OF unat_bound16])

lemma plan_last_start:
  assumes "plan_wf p"
  shows "piece_start p (unat (sp_chunks p) - 1) < unat (sp_total p)"
    and "unat (sp_total p) \<le> piece_start p (unat (sp_chunks p))"
proof -
  let ?t = "unat (sp_total p)" and ?c = "unat (sp_chunk_size p)"
  from assms have pos: "0 < ?c" "0 < ?t" and n: "unat (sp_chunks p) = (?t - 1) div ?c + 1"
    by (auto simp: plan_wf_def)
  have n': "unat (sp_chunks p) - 1 = (?t - 1) div ?c" using n by simp
  show "piece_start p (unat (sp_chunks p) - 1) < ?t"
    unfolding piece_start_def n' using pos(2) div_times_less_eq_dividend [of "?t - 1" ?c] by linarith
  have "?t - 1 < ((?t - 1) div ?c + 1) * ?c"
    using dividend_less_div_times [of ?c "?t - 1"] pos by (simp add: algebra_simps)
  then show "?t \<le> piece_start p (unat (sp_chunks p))" using n pos by (simp add: piece_start_def)
qed

lemma piece_start_mono: "i \<le> j \<Longrightarrow> piece_start p i \<le> piece_start p j"
  by (simp add: piece_start_def mult_le_mono1)

lemma piece_inside:
  assumes "plan_wf p" and "i < unat (sp_chunks p)"
  shows "0 < piece_len p i" and "piece_len p i \<le> unat (sp_chunk_size p)"
    and "piece_start p i + piece_len p i \<le> unat (sp_total p)"
proof -
  let ?n = "unat (sp_chunks p)"
  note last = plan_last_start [OF assms(1)]
  have cs: "0 < unat (sp_chunk_size p)" using assms(1) by (simp add: plan_wf_def)
  have next_start: "piece_start p (Suc i) = piece_start p i + unat (sp_chunk_size p)"
    by (simp add: piece_start_def)
  show "0 < piece_len p i" "piece_len p i \<le> unat (sp_chunk_size p)"
    "piece_start p i + piece_len p i \<le> unat (sp_total p)"
  proof (atomize (full), cases "Suc i = ?n")
    case True
    then have "unat (sp_chunks p) - 1 = i" by simp
    with True show "0 < piece_len p i \<and> piece_len p i \<le> unat (sp_chunk_size p) \<and>
      piece_start p i + piece_len p i \<le> unat (sp_total p)"
      using last next_start by (simp add: piece_len_def)
  next
    case False
    then have "Suc i \<le> ?n - 1" using assms(2) by simp
    from piece_start_mono [OF this, of p] show "0 < piece_len p i \<and>
      piece_len p i \<le> unat (sp_chunk_size p) \<and> piece_start p i + piece_len p i \<le> unat (sp_total p)"
      using last(1) next_start cs False by (simp add: piece_len_def)
  qed
qed

lemma pieces_concat:
  assumes "plan_wf p" and "length data = unat (sp_total p)" and "k \<le> unat (sp_chunks p)"
  shows "concat (map (piece p data) [0..<k]) = take (min (piece_start p k) (unat (sp_total p))) data"
  using assms(3)
proof (induction k)
  case 0
  then show ?case by (simp add: piece_start_def)
next
  case (Suc k)
  have inside: "piece_start p k + piece_len p k \<le> unat (sp_total p)"
    using piece_inside(3) [OF assms(1)] Suc.prems by simp
  have "concat (map (piece p data) [0..<Suc k]) = take (piece_start p k) data @ piece p data k"
    using Suc inside by (simp add: min_absorb1)
  also have "\<dots> = take (piece_start p k + piece_len p k) data"
    by (simp add: piece_def split_at_bytes_at)
  also have "piece_start p k + piece_len p k = min (piece_start p (Suc k)) (unat (sp_total p))"
  proof (cases "Suc k = unat (sp_chunks p)")
    case True
    then show ?thesis
      using plan_last_start [OF assms(1)] by (simp add: piece_len_def) (simp add: min_def flip: True)
  next
    case False
    with inside show ?thesis by (simp add: piece_len_def piece_start_def min_absorb1)
  qed
  finally show ?case .
qed

lemma split_at_spec:
  "fzn_split_at (Some p) i =
     (if plan_wf p \<and> unat i < unat (sp_chunks p)
      then (FZN_SPLIT_OK, Some (of_nat (piece_start p (unat i)), of_nat (piece_len p (unat i))))
      else (FZN_SPLIT_ERR_MALFORMED, None))"
proof (cases "plan_wf p \<and> unat i < unat (sp_chunks p)")
  case True
  then have wf: "plan_wf p" and i: "unat i < unat (sp_chunks p)" by auto
  note inside = piece_inside [OF wf i]
  let ?t = "unat (sp_total p)" and ?c = "unat (sp_chunk_size p)" and ?n = "unat (sp_chunks p)"
  have c: "0 < ?c" "?c \<le> ?t" "?n = (?t - 1) div ?c + 1" using wf by (auto simp: plan_wf_def)
  have t1: "unat (sp_total p - 1) = ?t - 1" using c(1,2) by (subst unat_sub) (auto simp: word_le_nat_alt)
  have div: "unat ((sp_total p - 1) div sp_chunk_size p) = (?t - 1) div ?c" by (simp add: unat_div t1)
  have div1: "unat ((sp_total p - 1) div sp_chunk_size p + 1) = (?t - 1) div ?c + 1"
    using c(3) unat_bound16 [of "sp_chunks p"] by (subst unat_word_ariths) (simp add: div)
  have start: "unat (ucast i * sp_chunk_size p) = piece_start p (unat i)"
    using inside(3) unat_bound64 [of "sp_total p"] by (subst unat_word_ariths) (simp add: piece_start_def)
  have suc: "(ucast i :: u32) + 1 = ucast (sp_chunks p) \<longleftrightarrow> Suc (unat i) = ?n"
    using unat_bound16 [of i] by (simp add: word_unat_eq_iff unat_word_ariths)
  have len: "(if (ucast i :: u32) + 1 = ucast (sp_chunks p) then sp_total p - ucast i * sp_chunk_size p
      else sp_chunk_size p) = of_nat (piece_len p (unat i))"
  proof (cases "Suc (unat i) = ?n")
    case True
    have "sp_total p - ucast i * sp_chunk_size p = of_nat (?t - piece_start p (unat i))"
      using inside(3) by (simp add: of_nat_diff flip: start)
    with True show ?thesis unfolding suc by (simp add: piece_len_def)
  next
    case False
    then show ?thesis unfolding suc by (simp add: piece_len_def)
  qed
  have "sp_chunks p \<noteq> 0" "sp_chunk_size p \<noteq> 0" "\<not> i \<ge> sp_chunks p" "\<not> sp_chunk_size p > sp_total p"
    "\<not> ucast i > (sp_total p - 1) div sp_chunk_size p"
    "ucast (sp_chunks p) = (sp_total p - 1) div sp_chunk_size p + 1"
    using c i by (auto simp: word_le_nat_alt word_less_nat_alt div div1 word_unat_eq_iff [where ?'a = 64])
  then show ?thesis
    using True len start by (simp add: fzn_split_at_def flip: start)
next
  case False
  have "fst (fzn_split_at (Some p) i) \<noteq> FZN_SPLIT_OK"
  proof
    assume ok: "fst (fzn_split_at (Some p) i) = FZN_SPLIT_OK"
    then have "\<not> i \<ge> sp_chunks p" "sp_chunk_size p \<noteq> 0" "\<not> sp_chunk_size p > sp_total p"
      "ucast (sp_chunks p) = (sp_total p - 1) div sp_chunk_size p + 1"
      by (auto simp: fzn_split_at_def Let_def split: if_splits)
    moreover from this have t1: "unat (sp_total p - 1) = unat (sp_total p) - 1"
      by (subst unat_sub) (auto simp: word_le_nat_alt word_less_nat_alt word_unat_eq_iff)
    moreover have "(unat (sp_total p) - 1) div unat (sp_chunk_size p) < 2 ^ 64 - 1"
    proof -
      have "0 < unat (sp_total p)" using calculation(2,3) by (auto simp: word_less_nat_alt word_unat_eq_iff)
      then show ?thesis
        using unat_bound64 [of "sp_total p"] div_le_dividend [of "unat (sp_total p) - 1" "unat (sp_chunk_size p)"]
        by linarith
    qed
    ultimately have "plan_wf p \<and> unat i < unat (sp_chunks p)"
      by (auto simp: plan_wf_def word_le_nat_alt word_less_nat_alt word_unat_eq_iff unat_word_ariths
          unat_div)
    with False show False by simp
  qed
  moreover have "fst (fzn_split_at (Some p) i) \<noteq> FZN_SPLIT_OK \<Longrightarrow>
      fzn_split_at (Some p) i = (FZN_SPLIT_ERR_MALFORMED, None)"
    by (simp add: fzn_split_at_def Let_def split: if_splits)
  ultimately show ?thesis using False by auto
qed

lemma split_count_ceil:
  assumes "m \<noteq> 0" and "t \<noteq> 0"
  shows "unat (split_count t m) = (unat t - 1) div unat m + 1"
proof -
  have pos: "0 < unat m" "0 < unat t" using assms by (auto simp: word_unat_eq_iff)
  have ceil: "(unat t - 1) div unat m + 1 =
      (if unat t mod unat m \<noteq> 0 then unat t div unat m + 1 else unat t div unat m)"
  proof -
    obtain k where "unat t = Suc k" using pos by (cases "unat t") auto
    then show ?thesis using pos(1) div_Suc [of k "unat m"] mod_Suc [of k "unat m"] by auto
  qed
  have "t mod m \<noteq> 0 \<longleftrightarrow> unat t mod unat m \<noteq> 0" by (simp add: word_unat_eq_iff unat_mod)
  moreover have "unat (t div m + 1) = unat t div unat m + 1" if "unat t mod unat m \<noteq> 0"
  proof -
    have "unat m \<noteq> 1" using that by auto
    then have "unat t div unat m < unat t" using pos by simp
    then show ?thesis using unat_bound64 [of t] by (simp add: unat_word_ariths unat_div)
  qed
  ultimately show ?thesis using ceil by (simp add: split_count_def unat_div)
qed

lemma split_plan_wf:
  assumes "fzn_split_plan t m = (FZN_SPLIT_OK, Some p)"
  shows "plan_wf p" and "unat (sp_chunks p) \<le> FZN_REASM_MAX_CHUNKS" and "sp_total p = t"
    and "unat (sp_chunk_size p) \<le> unat m" and "unat (sp_chunk_size p) \<le> 1024"
    and "unat (sp_buffer_needed p) = unat (sp_chunks p) * unat (sp_chunk_size p)"
proof -
  let ?n = "(unat t - 1) div unat m + 1"
  have nz: "m \<noteq> 0" "t \<noteq> 0" "\<not> m > FZN_SPLIT_MAX_PAYLOAD" "\<not> split_count t m > 256"
    and p: "p = \<lparr>sp_total = t, sp_chunk_size = (if split_count t m = 1 then t else m),
       sp_chunks = ucast (split_count t m),
       sp_buffer_needed = (if split_count t m = 1 then t else m) * split_count t m\<rparr>"
    using assms by (auto simp: fzn_split_plan_def Let_def split: if_splits)
  have pos: "0 < unat m" "0 < unat t" using nz by (auto simp: word_unat_eq_iff)
  note cnt = split_count_ceil [OF nz(1,2)]
  have le: "?n \<le> 256" "unat m \<le> 1024" using nz(3,4) cnt by (auto simp: word_less_nat_alt)
  have chunks: "unat (sp_chunks p) = ?n"
    using le(1) by (simp add: p unsigned_ucast_eq cnt take_bit_nat_eq_self)
  have one: "split_count t m = 1 \<longleftrightarrow> ?n = 1" using cnt by (simp add: word_unat_eq_iff)
  have small: "unat t \<le> unat m" if "?n = 1"
    using that pos by (simp add: div_eq_0_iff)
  have big: "unat m < unat t" if "?n \<noteq> 1"
    using that pos by (auto simp: div_eq_0_iff)
  have size: "unat (sp_chunk_size p) = (if ?n = 1 then unat t else unat m)" using one by (simp add: p)
  have "(unat t - 1) div unat t = 0" using pos by simp
  then show "plan_wf p"
    using pos big small chunks size by (auto simp: plan_wf_def p simp del: One_nat_def)
  show "unat (sp_chunks p) \<le> FZN_REASM_MAX_CHUNKS" "sp_total p = t" using chunks le by (auto simp: p)
  show m: "unat (sp_chunk_size p) \<le> unat m" using size small by auto
  then show "unat (sp_chunk_size p) \<le> 1024" using le by simp
  have "unat (sp_chunk_size p) * ?n \<le> 1024 * 256" using m le by (intro mult_le_mono) auto
  then have "unat (sp_chunk_size p * split_count t m) = unat (sp_chunk_size p) * ?n"
    by (simp add: unat_word_ariths cnt)
  then show "unat (sp_buffer_needed p) = unat (sp_chunks p) * unat (sp_chunk_size p)"
    unfolding chunks by (simp add: p)
qed

section \<open>Properties\<close>

text \<open>
  Every plan that \<open>fzn_split_at\<close> accepts tiles its message, also a plan that did not come
  from \<open>fzn_split_plan\<close>: the ranges it gives for the indices below the chunk count lie inside the
  message without wrap-around, are not empty, are no longer than the stride, and put together in
  order they are the message; every other index is refused.
\<close>

theorem accepted_plan_tiles_message:
  assumes "fst (fzn_split_at (Some p) k) = FZN_SPLIT_OK" and "length data = unat (sp_total p)"
  shows "(\<forall>i. fst (fzn_split_at (Some p) i) = FZN_SPLIT_OK \<longleftrightarrow> i < sp_chunks p) \<and>
    (\<forall>i off len. fzn_split_at (Some p) i = (FZN_SPLIT_OK, Some (off, len)) \<longrightarrow>
       0 < unat len \<and> unat len \<le> unat (sp_chunk_size p) \<and> unat off + unat len \<le> length data) \<and>
    concat (map (\<lambda>i. case fzn_split_at (Some p) (of_nat i) of
       (_, Some (off, len)) \<Rightarrow> bytes_at (unat off) (unat len) data | _ \<Rightarrow> []) [0..<unat (sp_chunks p)]) = data"
proof (intro conjI allI impI)
  have wf: "plan_wf p" using assms(1) split_at_spec [of p k] by (auto split: if_splits)
  note inside = piece_inside [OF wf]
  have small: "piece_start p i < 2 ^ 64 \<and> piece_len p i < 2 ^ 64" if "i < unat (sp_chunks p)" for i
    using inside(3) [OF that] unat_bound64 [of "sp_total p"] by linarith
  have conv: "unat (of_nat (piece_start p i) :: u64) = piece_start p i \<and>
      unat (of_nat (piece_len p i) :: u64) = piece_len p i" if "i < unat (sp_chunks p)" for i
    using small [OF that] by (simp add: unsigned_of_nat take_bit_nat_eq_self)
  show "fst (fzn_split_at (Some p) i) = FZN_SPLIT_OK \<longleftrightarrow> i < sp_chunks p" for i
    using wf by (simp add: split_at_spec word_less_nat_alt)
  show "0 < unat len" "unat len \<le> unat (sp_chunk_size p)" "unat off + unat len \<le> length data"
    if "fzn_split_at (Some p) i = (FZN_SPLIT_OK, Some (off, len))" for i off len
    using that conv [of "unat i"] inside [of "unat i"] assms(2)
    by (auto simp: split_at_spec split: if_splits)
  have "(case fzn_split_at (Some p) (of_nat i) of (_, Some (off, len)) \<Rightarrow>
      bytes_at (unat off) (unat len) data | _ \<Rightarrow> []) = piece p data i"
    if "i < unat (sp_chunks p)" for i
  proof -
    have "unat (of_nat i :: u16) = i"
      using that unat_bound16 [of "sp_chunks p"] by (simp add: unsigned_of_nat take_bit_nat_eq_self)
    then show ?thesis using that conv [OF that] wf by (simp add: split_at_spec piece_def)
  qed
  then have "concat (map (\<lambda>i. case fzn_split_at (Some p) (of_nat i) of
      (_, Some (off, len)) \<Rightarrow> bytes_at (unat off) (unat len) data | _ \<Rightarrow> []) [0..<unat (sp_chunks p)])
      = concat (map (piece p data) [0..<unat (sp_chunks p)])"
    by (intro arg_cong [of _ _ concat] map_cong) auto
  then show "concat (map (\<lambda>i. case fzn_split_at (Some p) (of_nat i) of
      (_, Some (off, len)) \<Rightarrow> bytes_at (unat off) (unat len) data | _ \<Rightarrow> []) [0..<unat (sp_chunks p)]) = data"
    using pieces_concat [OF wf assms(2), of "unat (sp_chunks p)"] plan_last_start [OF wf] assms(2)
    by (simp add: min_absorb2)
qed

theorem accepted_plan_tiles_message_witness:
  "concat (map (\<lambda>i. case fzn_split_at (Some \<lparr>sp_total = 5, sp_chunk_size = 2, sp_chunks = 3,
       sp_buffer_needed = 6\<rparr>) (of_nat i) of
     (_, Some (off, len)) \<Rightarrow> bytes_at (unat off) (unat len) [1, 2, 3, 4, 5 :: u8] | _ \<Rightarrow> []) [0..<3])
   = [1, 2, 3, 4, 5]"
proof -
  have "fst (fzn_split_at (Some \<lparr>sp_total = 5, sp_chunk_size = 2, sp_chunks = 3,
      sp_buffer_needed = 6\<rparr>) 0) = FZN_SPLIT_OK" by code_simp
  from accepted_plan_tiles_message [OF this, of "[1, 2, 3, 4, 5 :: u8]"] show ?thesis by simp
qed

text \<open>
  A plan is made for exactly the messages that can be carried: a non-empty one whose number of
  chunks, rounded up, is at most what a receiver tracks, with a payload bound between one byte and
  what a frame carries. Such a plan is one that \<open>fzn_split_at\<close> accepts, its stride is at most the
  payload bound, and the buffer it asks a receiver for is stride times chunks, computed without
  wrap-around.
\<close>

theorem split_plan_exact:
  "(fst (fzn_split_plan t m) = FZN_SPLIT_OK \<longleftrightarrow>
      0 < unat m \<and> unat m \<le> 1024 \<and> 0 < unat t \<and> (unat t - 1) div unat m + 1 \<le> FZN_REASM_MAX_CHUNKS) \<and>
   (\<forall>p. fzn_split_plan t m = (FZN_SPLIT_OK, Some p) \<longrightarrow>
      fst (fzn_split_at (Some p) 0) = FZN_SPLIT_OK \<and> sp_total p = t \<and>
      unat (sp_chunks p) = (unat t - 1) div unat (sp_chunk_size p) + 1 \<and>
      unat (sp_chunks p) \<le> FZN_REASM_MAX_CHUNKS \<and> unat (sp_chunk_size p) \<le> unat m \<and>
      unat (sp_buffer_needed p) = unat (sp_chunks p) * unat (sp_chunk_size p))"
proof (intro conjI allI impI)
  show "fst (fzn_split_plan t m) = FZN_SPLIT_OK \<longleftrightarrow>
      0 < unat m \<and> unat m \<le> 1024 \<and> 0 < unat t \<and> (unat t - 1) div unat m + 1 \<le> FZN_REASM_MAX_CHUNKS"
  proof (cases "m = 0 \<or> t = 0")
    case True
    then show ?thesis by (auto simp: fzn_split_plan_def)
  next
    case False
    then show ?thesis
      using split_count_ceil [of m t]
      by (auto simp: fzn_split_plan_def Let_def word_less_nat_alt unat_gt_0)
  qed
  fix p assume p: "fzn_split_plan t m = (FZN_SPLIT_OK, Some p)"
  note wf = split_plan_wf [OF p]
  have "0 < unat (sp_chunks p)" using wf(1) by (simp add: plan_wf_def)
  then show "fst (fzn_split_at (Some p) 0) = FZN_SPLIT_OK" using wf(1) by (simp add: split_at_spec)
  show "unat (sp_chunks p) = (unat t - 1) div unat (sp_chunk_size p) + 1"
    using wf(1,3) by (simp add: plan_wf_def)
qed (rule split_plan_wf; assumption)+

theorem split_plan_exact_witness:
  "fzn_split_plan 2500 1000 = (FZN_SPLIT_OK, Some \<lparr>sp_total = 2500, sp_chunk_size = 1000,
     sp_chunks = 3, sp_buffer_needed = 3000\<rparr>) \<and> unat (3000 :: u64) = 3 * 1000"
proof -
  have "fzn_split_plan 2500 1000 = (FZN_SPLIT_OK, Some \<lparr>sp_total = 2500, sp_chunk_size = 1000,
     sp_chunks = 3, sp_buffer_needed = 3000\<rparr>)" by code_simp
  then show ?thesis using split_plan_exact [of 2500 1000] by auto
qed

end
