(* ===== verification/Reassembly.thy ===== *)
theory Reassembly
  imports Split "HOL-Library.Monad_Syntax"
begin

text \<open>
  Putting chunks back together (\<open>chunk/reassembly.c\<close>). A table has slots, each with a buffer of
  its own; a slot is claimed by the first chunk of a message and filled by the others in any order.
  A last chunk that comes before any other is parked at the end of the buffer, because only the
  others tell the stride.

  Sizes and the 16-bit fields \<open>index\<close>, \<open>chunks\<close> and \<open>arrived\<close> are natural numbers, with the
  wrap-around of a product and of the counter written out. A memory access beyond a buffer is the
  value \<open>None\<close>, so a theorem that an operation returns \<open>Some\<close> says that it stays in bounds.
\<close>

section \<open>Data\<close>

datatype fzn_reasm_err = FZN_REASM_OK | FZN_REASM_ERR_MALFORMED | FZN_REASM_ERR_FULL
  | FZN_REASM_ERR_QUOTA | FZN_REASM_ERR_MISMATCH | FZN_REASM_ERR_CONFLICT
  | FZN_REASM_ERR_TOO_LARGE | FZN_REASM_ERR_EXPIRED | FZN_REASM_ERR_ABSENT

record fzn_partial =
  p_sender :: bytes
  p_msg :: u32
  p_chunks :: nat
  p_arrived :: nat
  p_expires_at :: u64
  p_buf :: "bytes option"
  p_buf_capacity :: nat
  p_chunk_size :: nat
  p_bytes :: nat
  p_parked :: nat
  p_seen :: bytes
  p_live :: bool
  p_handed :: bool

record fzn_reasm =
  t_partials :: "fzn_partial list option"
  t_capacity :: nat
  t_per_sender_max :: nat
  t_max_hold :: u64

record fzn_reasm_range =
  rr_first :: nat
  rr_count :: nat

section \<open>Slots\<close>

definition seen_get :: "fzn_partial \<Rightarrow> nat \<Rightarrow> bool" where
  "seen_get slot index \<longleftrightarrow>
     drop_bit (index mod 8) (ucast (p_seen slot ! (index div 8)) :: u32) AND 1 \<noteq> 0"

definition seen_set :: "fzn_partial \<Rightarrow> nat \<Rightarrow> fzn_partial" where
  "seen_set slot index = slot\<lparr>p_seen := (p_seen slot)[index div 8 :=
     p_seen slot ! (index div 8) OR ucast (push_bit (index mod 8) (1 :: u32))]\<rparr>"

definition offset_of :: "fzn_partial \<Rightarrow> nat \<Rightarrow> nat" where
  "offset_of slot index = index * p_chunk_size slot mod 2 ^ 64"

definition zero_slot :: "bytes option \<Rightarrow> nat \<Rightarrow> fzn_partial" where
  "zero_slot buf capacity = \<lparr>p_sender = replicate 32 0, p_msg = 0, p_chunks = 0, p_arrived = 0,
     p_expires_at = 0, p_buf = buf, p_buf_capacity = capacity, p_chunk_size = 0, p_bytes = 0,
     p_parked = 0, p_seen = replicate 32 0, p_live = False, p_handed = False\<rparr>"

definition fzn_reasm_slot_init :: "bytes option \<Rightarrow> nat \<Rightarrow> fzn_reasm_err \<times> fzn_partial option" where
  "fzn_reasm_slot_init buf capacity =
     (if buf = None \<or> capacity = 0 then (FZN_REASM_ERR_MALFORMED, None)
      else (FZN_REASM_OK, Some (zero_slot buf capacity)))"

definition fzn_reasm_release :: "fzn_partial \<Rightarrow> fzn_partial" where
  "fzn_reasm_release slot = zero_slot (p_buf slot) (p_buf_capacity slot)"

section \<open>The table\<close>

definition fzn_reasm_init ::
  "fzn_partial list option \<Rightarrow> nat \<Rightarrow> nat \<Rightarrow> u64 \<Rightarrow> fzn_reasm_err \<times> fzn_reasm option" where
  "fzn_reasm_init partials capacity per_sender_max max_hold =
     (case partials of None \<Rightarrow> (FZN_REASM_ERR_MALFORMED, None)
      | Some ps \<Rightarrow>
        if capacity = 0 \<or> per_sender_max = 0 \<or> max_hold = 0 then (FZN_REASM_ERR_MALFORMED, None)
        else if list_ex (\<lambda>i. p_buf (ps ! i) = None \<or> p_buf_capacity (ps ! i) = 0) [0..<capacity]
          then (FZN_REASM_ERR_MALFORMED, None)
        else (FZN_REASM_OK, Some \<lparr>t_partials = partials, t_capacity = capacity,
               t_per_sender_max = per_sender_max, t_max_hold = max_hold\<rparr>))"

definition slots :: "fzn_reasm \<Rightarrow> fzn_partial list" where
  "slots table = take (t_capacity table) (the (t_partials table))"

definition set_slot :: "fzn_reasm \<Rightarrow> nat \<Rightarrow> fzn_partial \<Rightarrow> fzn_reasm" where
  "set_slot table i slot = table\<lparr>t_partials := Some ((the (t_partials table))[i := slot])\<rparr>"

definition holds :: "bytes \<Rightarrow> u32 \<Rightarrow> fzn_partial \<Rightarrow> bool" where
  "holds sender msg slot \<longleftrightarrow> p_live slot \<and> p_msg slot = msg \<and> p_sender slot = sender"

definition find_slot :: "fzn_reasm \<Rightarrow> bytes \<Rightarrow> u32 \<Rightarrow> nat option" where
  "find_slot table sender msg =
     (let i = first_at (holds sender msg) (slots table)
      in if i < length (slots table) then Some i else None)"

definition held_by :: "fzn_reasm \<Rightarrow> bytes \<Rightarrow> nat" where
  "held_by table sender =
     fold (\<lambda>slot n. if p_live slot \<and> p_sender slot = sender then Suc n else n) (slots table) 0"

definition fzn_reasm_held_by :: "fzn_reasm option \<Rightarrow> bytes option \<Rightarrow> nat" where
  "fzn_reasm_held_by table sender =
     (case (table, sender) of
        (Some t, Some s) \<Rightarrow> if t_partials t = None then 0 else held_by t s
      | _ \<Rightarrow> 0)"

definition release_where :: "(fzn_partial \<Rightarrow> bool) \<Rightarrow> fzn_reasm \<Rightarrow> nat \<times> fzn_reasm" where
  "release_where due table =
     (let ps = slots table in
      (length (filter due ps), table\<lparr>t_partials := Some (map (\<lambda>s. if due s then fzn_reasm_release s else s) ps
          @ drop (t_capacity table) (the (t_partials table)))\<rparr>))"

definition fzn_reasm_expire :: "fzn_reasm option \<Rightarrow> u64 \<Rightarrow> nat \<times> fzn_reasm option" where
  "fzn_reasm_expire table now =
     (case table of None \<Rightarrow> (0, table)
      | Some t \<Rightarrow> if t_partials t = None then (0, table)
        else map_prod id Some (release_where
               (\<lambda>s. p_live s \<and> \<not> p_handed s \<and> p_expires_at s \<le> now) t))"

definition fzn_reasm_forget :: "fzn_reasm option \<Rightarrow> bytes option \<Rightarrow> u32 \<Rightarrow> nat \<times> fzn_reasm option" where
  "fzn_reasm_forget table sender msg =
     (case (table, sender) of
        (Some t, Some s) \<Rightarrow> if t_partials t = None then (0, table)
          else map_prod id Some (release_where (\<lambda>p. holds s msg p \<and> \<not> p_handed p) t)
      | _ \<Rightarrow> (0, table))"

section \<open>Which chunks are missing\<close>

function emit_run ::
  "nat \<Rightarrow> nat \<Rightarrow> fzn_reasm_range list \<Rightarrow> nat \<Rightarrow> nat \<Rightarrow> bool \<times> fzn_reasm_range list \<times> nat \<times> nat" where
  "emit_run cap limit out first gap =
     (if gap = 0 then (True, out, first, gap)
      else if cap \<le> length out then (False, out, first, gap)
      else let n = (if gap < limit then gap else limit) in
        emit_run cap limit (out @ [\<lparr>rr_first = first, rr_count = n\<rparr>]) (first + n) (gap - n))"
  by pat_completeness auto
termination
  by (relation "measure (\<lambda>(cap, limit, out, first, gap). cap - length out)") auto

declare emit_run.simps [simp del]

fun want_loop :: "fzn_partial \<Rightarrow> nat \<Rightarrow> nat \<Rightarrow> nat list \<Rightarrow> fzn_reasm_range list \<Rightarrow> nat \<Rightarrow> nat \<Rightarrow>
    fzn_reasm_range list \<times> nat \<times> nat" where
  "want_loop slot cap limit [] out first gap = (out, first, gap)"
| "want_loop slot cap limit (i # is) out first gap =
     (if \<not> seen_get slot i
      then want_loop slot cap limit is out (if gap = 0 then i else first) (Suc gap)
      else case emit_run cap limit out first gap of
          (True, out', first', gap') \<Rightarrow> want_loop slot cap limit is out' first' gap'
        | (False, out', first', gap') \<Rightarrow> (out', first', gap'))"

definition fzn_reasm_plan_want :: "fzn_reasm option \<Rightarrow> bytes option \<Rightarrow> u32 \<Rightarrow> nat \<Rightarrow> nat \<Rightarrow>
    fzn_reasm_err \<times> fzn_reasm_range list" where
  "fzn_reasm_plan_want table sender msg max_per_range cap =
     (case (table, sender) of
        (Some t, Some s) \<Rightarrow>
          if t_partials t = None then (FZN_REASM_ERR_MALFORMED, [])
          else if max_per_range = 0 then (FZN_REASM_ERR_MALFORMED, [])
          else (case find_slot t s msg of None \<Rightarrow> (FZN_REASM_ERR_ABSENT, [])
            | Some i \<Rightarrow>
              let slot = slots t ! i;
                  (out, first, gap) = want_loop slot cap max_per_range [0..<p_chunks slot] [] 0 0;
                  (_, out', _, _) = emit_run cap max_per_range out first gap
              in (FZN_REASM_OK, out'))
      | _ \<Rightarrow> (FZN_REASM_ERR_MALFORMED, []))"

section \<open>Accepting a chunk\<close>

definition hold_until :: "u64 \<Rightarrow> u64 \<Rightarrow> u64" where
  "hold_until now max_hold = (if max_hold > UINT64_MAX - now then UINT64_MAX else now + max_hold)"

definition admit_first :: "fzn_reasm \<Rightarrow> bytes \<Rightarrow> u32 \<Rightarrow> nat \<Rightarrow> nat \<Rightarrow> nat \<Rightarrow> u64 \<Rightarrow>
    fzn_reasm_err \<times> nat option \<times> fzn_reasm" where
  "admit_first table sender msg index chunks payload_len expires_at =
     (if chunks = 0 \<or> chunks > FZN_REASM_MAX_CHUNKS then (FZN_REASM_ERR_TOO_LARGE, None, table)
      else if index \<ge> chunks then (FZN_REASM_ERR_MISMATCH, None, table)
      else if held_by table sender \<ge> t_per_sender_max table then (FZN_REASM_ERR_QUOTA, None, table)
      else let i = first_at (\<lambda>p. \<not> p_live p) (slots table) in
        if i \<ge> length (slots table) then (FZN_REASM_ERR_FULL, None, table)
        else let slot = (slots table ! i)
            \<lparr>p_chunk_size := (if chunks > 1 \<and> index + 1 = chunks then 0 else payload_len)\<rparr> in
          if payload_len = 0 \<or> payload_len > p_buf_capacity slot div chunks
          then (FZN_REASM_ERR_TOO_LARGE, None, set_slot table i slot)
          else (FZN_REASM_OK, Some i, set_slot table i (slot\<lparr>p_sender := sender, p_msg := msg,
             p_chunks := chunks, p_arrived := 0, p_expires_at := expires_at, p_bytes := 0,
             p_parked := 0, p_seen := replicate 32 0, p_live := True\<rparr>)))"

text \<open>Copying into and out of a slot's buffer, with the bounds C leaves to the caller.\<close>

definition buf_read :: "fzn_partial \<Rightarrow> nat \<Rightarrow> nat \<Rightarrow> bytes option" where
  "buf_read slot off n =
     (case p_buf slot of None \<Rightarrow> None
      | Some b \<Rightarrow> if off + n \<le> length b then Some (bytes_at off n b) else None)"

definition buf_write :: "fzn_partial \<Rightarrow> nat \<Rightarrow> bytes \<Rightarrow> fzn_partial option" where
  "buf_write slot off bs =
     (case p_buf slot of None \<Rightarrow> None
      | Some b \<Rightarrow> if off + length bs \<le> length b then Some (slot\<lparr>p_buf := Some (put_at off bs b)\<rparr>) else None)"

definition minus_size :: "nat \<Rightarrow> nat \<Rightarrow> nat option" where
  "minus_size a b = (if b \<le> a then Some (a - b) else None)"

definition count_chunk :: "fzn_partial \<Rightarrow> nat \<Rightarrow> nat \<Rightarrow> fzn_partial" where
  "count_chunk slot index payload_len =
     (let s = seen_set slot index
      in s\<lparr>p_arrived := Suc (p_arrived s) mod 2 ^ 16, p_bytes := p_bytes s + payload_len\<rparr>)"

text \<open>The part of \<open>fzn_reasm_accept\<close> from the moment the stride is known.\<close>

definition place_chunk ::
  "fzn_partial \<Rightarrow> nat \<Rightarrow> bytes \<Rightarrow> (fzn_reasm_err \<times> bool \<times> fzn_partial) option" where
  "place_chunk slot index payload =
     (let offset = offset_of slot index in
      if offset > p_buf_capacity slot \<or> length payload > p_buf_capacity slot - offset
      then Some (FZN_REASM_ERR_TOO_LARGE, False, slot)
      else do {
        r \<leftarrow> (if seen_get slot index
             then do { old \<leftarrow> buf_read slot offset (length payload);
                       Some (if old \<noteq> payload then (FZN_REASM_ERR_CONFLICT, slot) else (FZN_REASM_OK, slot)) }
             else do { s \<leftarrow> buf_write slot offset payload;
                       Some (FZN_REASM_OK, count_chunk s index (length payload)) });
        Some (if fst r \<noteq> FZN_REASM_OK then (fst r, False, snd r)
              else if p_arrived (snd r) = p_chunks (snd r) \<and> \<not> p_handed (snd r)
              then (FZN_REASM_OK, True, (snd r)\<lparr>p_handed := True\<rparr>)
              else (FZN_REASM_OK, False, snd r)) })"

text \<open>The part that waits for the stride: parking a last chunk, and learning the stride.\<close>

definition accept_into ::
  "fzn_partial \<Rightarrow> nat \<Rightarrow> bytes \<Rightarrow> (fzn_reasm_err \<times> bool \<times> fzn_partial) option" where
  "accept_into slot index payload =
     (if p_chunk_size slot = 0 then do {
        at \<leftarrow> minus_size (p_buf_capacity slot) (p_parked slot);
        if index + 1 = p_chunks slot then
          if p_parked slot = 0 then do {
            off \<leftarrow> minus_size (p_buf_capacity slot) (length payload);
            s \<leftarrow> buf_write slot off payload;
            Some (FZN_REASM_OK, False, count_chunk (s\<lparr>p_parked := length payload\<rparr>) index (length payload)) }
          else if length payload \<noteq> p_parked slot then Some (FZN_REASM_ERR_CONFLICT, False, slot)
          else do {
            old \<leftarrow> buf_read slot at (length payload);
            Some (if old \<noteq> payload then FZN_REASM_ERR_CONFLICT else FZN_REASM_OK, False, slot) }
        else if payload = [] \<or> length payload < p_parked slot then Some (FZN_REASM_ERR_MISMATCH, False, slot)
        else if length payload > p_buf_capacity slot div p_chunks slot
          then Some (FZN_REASM_ERR_TOO_LARGE, False, slot)
        else do {
          old \<leftarrow> buf_read slot at (p_parked slot);
          s \<leftarrow> buf_write (slot\<lparr>p_chunk_size := length payload\<rparr>)
                (offset_of (slot\<lparr>p_chunk_size := length payload\<rparr>) (p_chunks slot - 1)) old;
          place_chunk s index payload } }
      else place_chunk slot index payload)"

definition chunk_mismatch :: "fzn_partial \<Rightarrow> nat \<Rightarrow> nat \<Rightarrow> nat \<Rightarrow> bool" where
  "chunk_mismatch slot index chunks payload_len \<longleftrightarrow>
     p_chunks slot \<noteq> chunks \<or> index \<ge> p_chunks slot \<or>
     (if index + 1 = p_chunks slot
      then payload_len = 0 \<or> (p_chunk_size slot \<noteq> 0 \<and> payload_len > p_chunk_size slot)
      else p_chunk_size slot \<noteq> 0 \<and> payload_len \<noteq> p_chunk_size slot)"

definition deadline_of :: "fzn_reasm \<Rightarrow> u64 \<Rightarrow> u64 \<Rightarrow> u64" where
  "deadline_of table expires_at now =
     (if expires_at = 0 then hold_until now (t_max_hold table)
      else if expires_at < hold_until now (t_max_hold table) then expires_at
      else hold_until now (t_max_hold table))"

definition fzn_reasm_accept :: "fzn_reasm option \<Rightarrow> bytes option \<Rightarrow> u32 \<Rightarrow> nat \<Rightarrow> nat \<Rightarrow>
    bytes option \<Rightarrow> u64 \<Rightarrow> u64 \<Rightarrow> (fzn_reasm_err \<times> nat option \<times> fzn_reasm option) option" where
  "fzn_reasm_accept table sender msg index chunks payload expires_at now =
     (case (table, sender, payload) of
        (Some t0, Some s, Some pl) \<Rightarrow>
          if t_partials t0 = None then Some (FZN_REASM_ERR_MALFORMED, None, table)
          else
            let t = the (snd (fzn_reasm_expire table now)) in
            if expires_at \<noteq> 0 \<and> expires_at \<le> now then Some (FZN_REASM_ERR_EXPIRED, None, Some t)
            else
              let (err, found, t') =
                (case find_slot t s msg of
                   None \<Rightarrow> admit_first t s msg index chunks (length pl) (deadline_of t expires_at now)
                 | Some i \<Rightarrow> (if chunk_mismatch (slots t ! i) index chunks (length pl)
                             then FZN_REASM_ERR_MISMATCH else FZN_REASM_OK, Some i, t))
              in if err \<noteq> FZN_REASM_OK then Some (err, None, Some t')
                 else do {
                   i \<leftarrow> found;
                   r \<leftarrow> accept_into (slots t' ! i) index pl;
                   Some (fst r, if fst (snd r) then Some i else None, Some (set_slot t' i (snd (snd r)))) }
      | _ \<Rightarrow> Some (FZN_REASM_ERR_MALFORMED, None, table))"

definition fzn_reasm_err_str :: "fzn_reasm_err \<Rightarrow> string" where
  "fzn_reasm_err_str err =
     (case err of
        FZN_REASM_OK \<Rightarrow> ''ok''
      | FZN_REASM_ERR_MALFORMED \<Rightarrow> ''malformed argument''
      | FZN_REASM_ERR_FULL \<Rightarrow> ''every slot holds a live message''
      | FZN_REASM_ERR_QUOTA \<Rightarrow> ''sender is at its slot quota''
      | FZN_REASM_ERR_MISMATCH \<Rightarrow> ''chunk disagrees with the first''
      | FZN_REASM_ERR_CONFLICT \<Rightarrow> ''index already arrived with other bytes''
      | FZN_REASM_ERR_TOO_LARGE \<Rightarrow> ''message exceeds what a slot holds''
      | FZN_REASM_ERR_EXPIRED \<Rightarrow> ''chunk expiry has passed''
      | FZN_REASM_ERR_ABSENT \<Rightarrow> ''no live message for that sender and id'')"

section \<open>The bitmap\<close>

lemma seen_get_bit: "seen_get slot i \<longleftrightarrow> bit (p_seen slot ! (i div 8)) (i mod 8)"
proof -
  have "i mod 8 < 8" by simp
  then have "i mod 8 < 32" by linarith
  then show ?thesis
    by (simp add: seen_get_def and_one_eq bit_iff_odd_drop_bit [of "ucast _ :: u32", symmetric]
        mod_2_eq_odd bit_simps)
qed

lemma seen_get_seen_set:
  assumes "length (p_seen slot) = 32" and "i < 256" and "j < 256"
  shows "seen_get (seen_set slot i) j \<longleftrightarrow> i = j \<or> seen_get slot j"
proof -
  have "j mod 8 < 8" "i mod 8 < 8" by simp_all
  moreover from this have "j mod 8 < 32" "i mod 8 < 32" by linarith+
  moreover have "i = j \<longleftrightarrow> i div 8 = j div 8 \<and> i mod 8 = j mod 8" by (metis div_mult_mod_eq)
  ultimately show ?thesis
    using assms by (cases "i div 8 = j div 8")
      (auto simp: seen_get_bit seen_set_def bit_simps nth_list_update)
qed

lemma length_seen_set [simp]: "length (p_seen (seen_set slot i)) = length (p_seen slot)"
  by (simp add: seen_set_def)

lemma seen_get_zero: "i < 256 \<Longrightarrow> p_seen slot = replicate 32 0 \<Longrightarrow> \<not> seen_get slot i"
  by (simp add: seen_get_bit)

definition arrived_set :: "fzn_partial \<Rightarrow> nat set" where
  "arrived_set s = {i. i < p_chunks s \<and> seen_get s i}"

lemma finite_arrived [simp]: "finite (arrived_set s)"
  by (simp add: arrived_set_def)

lemma arrived_subset: "arrived_set s \<subseteq> {..<p_chunks s}"
  by (auto simp: arrived_set_def)

lemma card_arrived_le: "card (arrived_set s) \<le> p_chunks s"
  using card_mono [OF _ arrived_subset] by force

lemma arrived_all_iff: "card (arrived_set s) = p_chunks s \<longleftrightarrow> arrived_set s = {..<p_chunks s}"
  using card_subset_eq [OF finite_lessThan arrived_subset, of s] card_lessThan by metis

lemma arrived_set_cong:
  "p_seen s = p_seen s' \<Longrightarrow> p_chunks s = p_chunks s' \<Longrightarrow> arrived_set s = arrived_set s'"
  unfolding arrived_set_def seen_get_def by simp

section \<open>Well-formed slots\<close>

definition stride_wf :: "fzn_partial \<Rightarrow> bool" where
  "stride_wf s \<longleftrightarrow>
     (if p_chunk_size s = 0
      then if p_parked s = 0 then arrived_set s = {} \<and> p_bytes s = 0
           else 1 < p_chunks s \<and> arrived_set s = {p_chunks s - 1} \<and>
                p_parked s \<le> p_buf_capacity s div p_chunks s \<and> p_bytes s = p_parked s
      else p_chunk_size s \<le> p_buf_capacity s div p_chunks s \<and> p_bytes s \<le> p_arrived s * p_chunk_size s)"

definition buf_wf :: "fzn_partial \<Rightarrow> bool" where
  "buf_wf s \<longleftrightarrow> (\<exists>b. p_buf s = Some b \<and> length b = p_buf_capacity s) \<and>
     0 < p_buf_capacity s \<and> p_buf_capacity s < 2 ^ 64 \<and> length (p_seen s) = 32"

definition entry_wf :: "fzn_partial \<Rightarrow> bool" where
  "entry_wf s \<longleftrightarrow> buf_wf s \<and> p_live s \<and> 0 < p_chunks s \<and> p_chunks s \<le> FZN_REASM_MAX_CHUNKS \<and>
     p_arrived s = card (arrived_set s) \<and> (p_handed s \<longleftrightarrow> p_arrived s = p_chunks s) \<and> stride_wf s"

definition slot_wf :: "fzn_partial \<Rightarrow> bool" where
  "slot_wf s \<longleftrightarrow> buf_wf s \<and> (if p_live s then entry_wf s \<and> p_arrived s \<noteq> 0 else \<not> p_handed s)"

lemma slot_wf_zero:
  "length b = c \<Longrightarrow> 0 < c \<Longrightarrow> c < 2 ^ 64 \<Longrightarrow> slot_wf (zero_slot (Some b) c)"
  by (simp add: slot_wf_def buf_wf_def zero_slot_def)

lemma slot_wf_release: "slot_wf s \<Longrightarrow> slot_wf (fzn_reasm_release s)"
  by (auto simp: slot_wf_def buf_wf_def fzn_reasm_release_def zero_slot_def)

lemma index_fits:
  assumes "c \<le> cap div n" and "i < n" and "l \<le> c"
  shows "i * c + l \<le> (cap :: nat)"
proof -
  have "i * c + l \<le> Suc i * c" using assms(3) by simp
  also have "\<dots> \<le> n * (cap div n)" using assms(1,2) by (intro mult_le_mono) auto
  finally show ?thesis using times_div_less_eq_dividend [of n cap] by (rule le_trans)
qed

text \<open>A chunk counted into a slot.\<close>

lemma count_chunk_fields [simp]:
  "p_chunks (count_chunk s i n) = p_chunks s" "p_buf (count_chunk s i n) = p_buf s"
  "p_buf_capacity (count_chunk s i n) = p_buf_capacity s" "p_chunk_size (count_chunk s i n) = p_chunk_size s"
  "p_live (count_chunk s i n) = p_live s" "p_handed (count_chunk s i n) = p_handed s"
  "p_parked (count_chunk s i n) = p_parked s" "p_sender (count_chunk s i n) = p_sender s"
  "p_msg (count_chunk s i n) = p_msg s" "p_expires_at (count_chunk s i n) = p_expires_at s"
  "p_bytes (count_chunk s i n) = p_bytes s + n" "length (p_seen (count_chunk s i n)) = length (p_seen s)"
  by (simp_all add: count_chunk_def Let_def seen_set_def)

lemma count_chunk_arrived:
  assumes "length (p_seen s) = 32" and "p_chunks s \<le> 256" and "i < p_chunks s" and "i \<notin> arrived_set s"
    and "p_arrived s = card (arrived_set s)"
  shows "arrived_set (count_chunk s i n) = insert i (arrived_set s)"
    and "p_arrived (count_chunk s i n) = card (insert i (arrived_set s))"
proof -
  have "seen_get (count_chunk s i n) j = seen_get (seen_set s i) j" for j
    unfolding seen_get_def by (simp add: count_chunk_def Let_def)
  then show "arrived_set (count_chunk s i n) = insert i (arrived_set s)"
    using seen_get_seen_set [OF assms(1)] assms(2,3) by (fastforce simp: arrived_set_def)
  have "card (arrived_set s) \<le> 256" using card_arrived_le [of s] assms(2) by simp
  then show "p_arrived (count_chunk s i n) = card (insert i (arrived_set s))"
    using assms(4,5) by (simp add: count_chunk_def Let_def seen_set_def)
qed

section \<open>What accepting a chunk does to its slot\<close>

definition placed :: "fzn_partial \<Rightarrow> nat \<Rightarrow> bytes \<Rightarrow> fzn_partial" where
  "placed s i pl =
     (count_chunk (s\<lparr>p_buf := Some (put_at (i * p_chunk_size s) pl (the (p_buf s)))\<rparr>) i (length pl))
       \<lparr>p_handed := (insert i (arrived_set s) = {..<p_chunks s})\<rparr>"

lemma not_all_arrived:
  "i < p_chunks s \<Longrightarrow> i \<notin> arrived_set s \<Longrightarrow> card (arrived_set s) \<noteq> p_chunks s"
  using arrived_all_iff [of s] by auto

lemma arrived_upd [simp]:
  "arrived_set (s\<lparr>p_buf := x\<rparr>) = arrived_set s" "arrived_set (s\<lparr>p_handed := h\<rparr>) = arrived_set s"
  "arrived_set (s\<lparr>p_chunk_size := n\<rparr>) = arrived_set s" "arrived_set (s\<lparr>p_parked := n\<rparr>) = arrived_set s"
  by (rule arrived_set_cong; simp)+

lemma seen_get_upd [simp]:
  "seen_get (s\<lparr>p_buf := x\<rparr>) = seen_get s" "seen_get (s\<lparr>p_chunk_size := n\<rparr>) = seen_get s"
  by (simp_all add: seen_get_def fun_eq_iff)

lemma handed_same: "p_handed s = h \<Longrightarrow> s\<lparr>p_handed := h\<rparr> = s"
  by (cases s) simp

lemma place_chunk_spec:
  assumes wf: "buf_wf s" "p_chunks s \<le> 256" "p_arrived s = card (arrived_set s)"
      "p_handed s \<longleftrightarrow> p_arrived s = p_chunks s"
    and i: "i < p_chunks s" and c: "p_chunk_size s \<noteq> 0" "p_chunk_size s \<le> p_buf_capacity s div p_chunks s"
    and pl: "length pl \<le> p_chunk_size s"
  shows "i * p_chunk_size s + length pl \<le> p_buf_capacity s"
    and "place_chunk s i pl = Some
      (if i \<in> arrived_set s
       then (if bytes_at (i * p_chunk_size s) (length pl) (the (p_buf s)) = pl
             then FZN_REASM_OK else FZN_REASM_ERR_CONFLICT, False, s)
       else (FZN_REASM_OK, insert i (arrived_set s) = {..<p_chunks s}, placed s i pl))"
proof -
  obtain b where b: "p_buf s = Some b" "length b = p_buf_capacity s" "p_buf_capacity s < 2 ^ 64"
      "length (p_seen s) = 32"
    using wf(1) by (auto simp: buf_wf_def)
  show fits: "i * p_chunk_size s + length pl \<le> p_buf_capacity s" by (rule index_fits [OF c(2) i pl])
  then have off: "offset_of s i = i * p_chunk_size s" using b(3) by (simp add: offset_of_def)
  have seen: "seen_get s i \<longleftrightarrow> i \<in> arrived_set s" using i by (simp add: arrived_set_def)
  have guard: "\<not> (i * p_chunk_size s > p_buf_capacity s \<or> length pl > p_buf_capacity s - i * p_chunk_size s)"
    using fits by linarith
  show "place_chunk s i pl = Some
      (if i \<in> arrived_set s
       then (if bytes_at (i * p_chunk_size s) (length pl) (the (p_buf s)) = pl
             then FZN_REASM_OK else FZN_REASM_ERR_CONFLICT, False, s)
       else (FZN_REASM_OK, insert i (arrived_set s) = {..<p_chunks s}, placed s i pl))"
  proof (cases "i \<in> arrived_set s")
    case True
    then show ?thesis
      unfolding place_chunk_def Let_def off using guard wf(4) b fits
      by (simp add: seen buf_read_def)
  next
    case False
    let ?s = "s\<lparr>p_buf := Some (put_at (i * p_chunk_size s) pl b)\<rparr>"
    have cnt: "arrived_set (count_chunk ?s i (length pl)) = insert i (arrived_set s)"
      "p_arrived (count_chunk ?s i (length pl)) = card (insert i (arrived_set s))"
      using count_chunk_arrived [of ?s i "length pl"] b wf(2,3) i False by simp_all
    have full: "card (insert i (arrived_set s)) = p_chunks s \<longleftrightarrow> insert i (arrived_set s) = {..<p_chunks s}"
      using arrived_all_iff [of "count_chunk ?s i (length pl)"] unfolding cnt(1) by simp
    have nh: "\<not> p_handed s" using not_all_arrived [OF i False] wf(3,4) by simp
    have w: "buf_write s (i * p_chunk_size s) pl = Some ?s" using b fits by (simp add: buf_write_def)
    let ?full = "insert i (arrived_set s) = {..<p_chunks s}"
    have full_iff: "p_arrived (count_chunk ?s i (length pl)) = p_chunks s \<longleftrightarrow> ?full"
      unfolding cnt(2) by (rule full)
    have eq: "\<not> ?full \<Longrightarrow> placed s i pl = count_chunk ?s i (length pl)"
      using nh b(1) by (simp add: placed_def handed_same)
    show ?thesis
      unfolding place_chunk_def Let_def off using guard nh
      by (cases ?full) (simp_all add: seen False w full_iff eq, simp add: placed_def b(1))
  qed
qed

lemma placed_fields [simp]:
  "p_chunks (placed s i pl) = p_chunks s" "p_buf_capacity (placed s i pl) = p_buf_capacity s"
  "p_chunk_size (placed s i pl) = p_chunk_size s" "p_live (placed s i pl) = p_live s"
  "p_parked (placed s i pl) = p_parked s" "p_sender (placed s i pl) = p_sender s"
  "p_msg (placed s i pl) = p_msg s" "p_expires_at (placed s i pl) = p_expires_at s"
  "p_bytes (placed s i pl) = p_bytes s + length pl" "length (p_seen (placed s i pl)) = length (p_seen s)"
  "p_buf (placed s i pl) = Some (put_at (i * p_chunk_size s) pl (the (p_buf s)))"
  "p_handed (placed s i pl) = (insert i (arrived_set s) = {..<p_chunks s})"
  by (simp_all add: placed_def)

lemma placed_arrived:
  assumes "buf_wf s" "p_chunks s \<le> 256" "p_arrived s = card (arrived_set s)" "i < p_chunks s"
    "i \<notin> arrived_set s"
  shows "arrived_set (placed s i pl) = insert i (arrived_set s)"
    and "p_arrived (placed s i pl) = card (insert i (arrived_set s))"
  using count_chunk_arrived [of "s\<lparr>p_buf := Some (put_at (i * p_chunk_size s) pl (the (p_buf s)))\<rparr>" i "length pl"]
    assms by (simp_all add: placed_def buf_wf_def)

lemma placed_entry_wf:
  assumes s: "entry_wf s" and i: "i < p_chunks s" "i \<notin> arrived_set s" and c: "p_chunk_size s \<noteq> 0"
    and pl: "length pl \<le> p_chunk_size s"
  shows "entry_wf (placed s i pl) \<and> p_arrived (placed s i pl) \<noteq> 0"
proof -
  have wf: "buf_wf s" "p_chunks s \<le> 256" "p_arrived s = card (arrived_set s)" "p_live s"
    "p_chunk_size s \<le> p_buf_capacity s div p_chunks s" "p_bytes s \<le> p_arrived s * p_chunk_size s"
    using s c by (auto simp: entry_wf_def stride_wf_def)
  note arr = placed_arrived [OF wf(1-3) i, of pl]
  have "i * p_chunk_size s + length pl \<le> p_buf_capacity s" by (rule index_fits [OF wf(5) i(1) pl])
  then have "buf_wf (placed s i pl)" using wf(1) by (auto simp: buf_wf_def)
  moreover have "p_bytes s + length pl \<le> Suc (p_arrived s) * p_chunk_size s"
    using wf(6) pl by simp
  moreover have "insert i (arrived_set s) = {..<p_chunks s} \<longleftrightarrow> card (insert i (arrived_set s)) = p_chunks s"
    using arrived_all_iff [of "placed s i pl"] arr by simp
  moreover have "p_arrived (placed s i pl) = Suc (p_arrived s)" using arr(2) wf(3) i(2) by simp
  ultimately show ?thesis
    using s c wf arr by (simp add: entry_wf_def stride_wf_def)
qed

definition parked_slot :: "fzn_partial \<Rightarrow> nat \<Rightarrow> bytes \<Rightarrow> fzn_partial" where
  "parked_slot s i pl = count_chunk (s\<lparr>p_buf := Some (put_at (p_buf_capacity s - length pl) pl (the (p_buf s))),
     p_parked := length pl\<rparr>) i (length pl)"

definition learned :: "fzn_partial \<Rightarrow> bytes \<Rightarrow> fzn_partial" where
  "learned s pl = s\<lparr>p_chunk_size := length pl, p_buf := Some (put_at ((p_chunks s - 1) * length pl)
     (bytes_at (p_buf_capacity s - p_parked s) (p_parked s) (the (p_buf s))) (the (p_buf s)))\<rparr>"

lemma entry_buf:
  assumes "entry_wf s"
  obtains b where "p_buf s = Some b" "length b = p_buf_capacity s" "p_buf_capacity s < 2 ^ 64"
    "length (p_seen s) = 32"
  using assms by (auto simp: entry_wf_def buf_wf_def)

lemma entry_parked_le:
  assumes "entry_wf s" and "p_chunk_size s = 0"
  shows "p_parked s \<le> p_buf_capacity s div p_chunks s" and "p_parked s \<le> p_buf_capacity s"
proof -
  show "p_parked s \<le> p_buf_capacity s div p_chunks s"
    using assms by (cases "p_parked s = 0") (auto simp: entry_wf_def stride_wf_def)
  then show "p_parked s \<le> p_buf_capacity s" using div_le_dividend order_trans by blast
qed

lemma accept_parks:
  assumes s: "entry_wf s" "p_chunk_size s = 0" "p_parked s = 0" and i: "i + 1 = p_chunks s" "1 < p_chunks s"
    and pl: "pl \<noteq> []" "length pl \<le> p_buf_capacity s div p_chunks s"
  shows "accept_into s i pl = Some (FZN_REASM_OK, False, parked_slot s i pl)"
    and "entry_wf (parked_slot s i pl) \<and> p_arrived (parked_slot s i pl) \<noteq> 0"
    and "arrived_set (parked_slot s i pl) = {i}"
proof -
  obtain b where b: "p_buf s = Some b" "length b = p_buf_capacity s" "p_buf_capacity s < 2 ^ 64"
    "length (p_seen s) = 32" by (rule entry_buf [OF s(1)])
  have empty: "arrived_set s = {}" and cnt: "p_arrived s = 0" "p_bytes s = 0" and le: "p_chunks s \<le> 256"
    using s by (auto simp: entry_wf_def stride_wf_def)
  have fits: "length pl \<le> p_buf_capacity s" using pl(2) div_le_dividend order_trans by blast
  let ?s = "s\<lparr>p_buf := Some (put_at (p_buf_capacity s - length pl) pl b), p_parked := length pl\<rparr>"
  have "arrived_set ?s = {}" using empty by (simp add: arrived_set_cong [of ?s s])
  then have arr: "arrived_set (parked_slot s i pl) = {i}" "p_arrived (parked_slot s i pl) = 1"
    using count_chunk_arrived [of ?s i "length pl"] b cnt le i by (simp_all add: parked_slot_def)
  show "arrived_set (parked_slot s i pl) = {i}" by (rule arr)
  show "accept_into s i pl = Some (FZN_REASM_OK, False, parked_slot s i pl)"
    using s(2,3) b fits i(1)
    by (simp add: accept_into_def minus_size_def buf_write_def parked_slot_def)
  have "buf_wf (parked_slot s i pl)" using b fits s(1) by (simp add: parked_slot_def buf_wf_def entry_wf_def)
  then show "entry_wf (parked_slot s i pl) \<and> p_arrived (parked_slot s i pl) \<noteq> 0"
    using arr pl i le s cnt by (auto simp: entry_wf_def stride_wf_def) (auto simp: parked_slot_def)
qed

lemma accept_parked_again:
  assumes s: "entry_wf s" "p_chunk_size s = 0" "p_parked s \<noteq> 0" and i: "i + 1 = p_chunks s"
  shows "accept_into s i pl = Some (if length pl = p_parked s \<and>
      bytes_at (p_buf_capacity s - p_parked s) (p_parked s) (the (p_buf s)) = pl
      then FZN_REASM_OK else FZN_REASM_ERR_CONFLICT, False, s)"
proof -
  obtain b where b: "p_buf s = Some b" "length b = p_buf_capacity s" by (rule entry_buf [OF s(1)])
  have "p_parked s \<le> p_buf_capacity s" by (rule entry_parked_le [OF s(1,2)])
  then show ?thesis using s(2,3) b i by (auto simp: accept_into_def minus_size_def buf_read_def)
qed

lemma learned_fields [simp]:
  "p_chunks (learned s pl) = p_chunks s" "p_buf_capacity (learned s pl) = p_buf_capacity s"
  "p_chunk_size (learned s pl) = length pl" "p_live (learned s pl) = p_live s"
  "p_handed (learned s pl) = p_handed s" "p_arrived (learned s pl) = p_arrived s"
  "p_sender (learned s pl) = p_sender s" "p_msg (learned s pl) = p_msg s"
  "p_expires_at (learned s pl) = p_expires_at s" "p_bytes (learned s pl) = p_bytes s"
  "p_seen (learned s pl) = p_seen s" "p_parked (learned s pl) = p_parked s"
  by (simp_all add: learned_def)

lemma learned_arrived [simp]: "arrived_set (learned s pl) = arrived_set s"
  by (rule arrived_set_cong) simp_all

lemma accept_learns:
  assumes s: "entry_wf s" "p_chunk_size s = 0" and i: "i + 1 < p_chunks s"
    and pl: "pl \<noteq> []" "p_parked s \<le> length pl" "length pl \<le> p_buf_capacity s div p_chunks s"
  shows "entry_wf (learned s pl)" and "i \<notin> arrived_set s"
    and "(p_chunks s - 1) * length pl + p_parked s \<le> p_buf_capacity s"
    and "accept_into s i pl = Some (FZN_REASM_OK, insert i (arrived_set s) = {..<p_chunks s},
           placed (learned s pl) i pl)"
proof -
  obtain b where b: "p_buf s = Some b" "length b = p_buf_capacity s" "p_buf_capacity s < 2 ^ 64"
    "length (p_seen s) = 32" by (rule entry_buf [OF s(1)])
  have park: "p_parked s \<le> p_buf_capacity s" by (rule entry_parked_le [OF s(1,2)])
  show fits: "(p_chunks s - 1) * length pl + p_parked s \<le> p_buf_capacity s"
    by (rule index_fits [OF pl(3)]) (use i pl in auto)
  show notin: "i \<notin> arrived_set s"
    using s i by (auto simp: entry_wf_def stride_wf_def split: if_splits)
  have "p_bytes s \<le> p_arrived s * length pl"
    using s pl(2) by (auto simp: entry_wf_def stride_wf_def split: if_splits)
  then show entry: "entry_wf (learned s pl)"
    using s(1) pl b fits park by (auto simp: entry_wf_def stride_wf_def buf_wf_def learned_def)
  have off: "offset_of (s\<lparr>p_chunk_size := length pl\<rparr>) (p_chunks s - 1) = (p_chunks s - 1) * length pl"
    using fits b(3) by (simp add: offset_of_def)
  have "accept_into s i pl = place_chunk (learned s pl) i pl"
    using s(2) i pl park fits b
    by (simp add: accept_into_def minus_size_def off [unfolded One_nat_def] buf_read_def buf_write_def learned_def not_less)
  also have "\<dots> = Some (FZN_REASM_OK, insert i (arrived_set s) = {..<p_chunks s}, placed (learned s pl) i pl)"
    using place_chunk_spec(2) [of "learned s pl" i pl] entry i notin pl
    by (simp add: entry_wf_def stride_wf_def)
  finally show "accept_into s i pl = Some (FZN_REASM_OK, insert i (arrived_set s) = {..<p_chunks s},
           placed (learned s pl) i pl)" .
qed

lemma accept_learns_not:
  assumes "entry_wf s" "p_chunk_size s = 0" and "i + 1 < p_chunks s"
    and "\<not> (pl \<noteq> [] \<and> p_parked s \<le> length pl \<and> length pl \<le> p_buf_capacity s div p_chunks s)"
  shows "\<exists>err. err \<noteq> FZN_REASM_OK \<and> accept_into s i pl = Some (err, False, s)"
  using assms entry_parked_le [OF assms(1,2)] by (auto simp: accept_into_def minus_size_def)

text \<open>
  Whatever chunk a well-formed slot is given, the call stays in bounds, keeps the slot well formed
  and its identity, and forgets no chunk that arrived.
\<close>

definition same_message :: "fzn_partial \<Rightarrow> fzn_partial \<Rightarrow> bool" where
  "same_message s s' \<longleftrightarrow> p_live s' = p_live s \<and> p_sender s' = p_sender s \<and> p_msg s' = p_msg s \<and>
     p_chunks s' = p_chunks s \<and> p_expires_at s' = p_expires_at s \<and> p_buf_capacity s' = p_buf_capacity s"

lemma accept_into_safe:
  assumes s: "entry_wf s" and i: "i < p_chunks s"
    and ok: "\<not> chunk_mismatch s i (p_chunks s) (length pl)"
    and fresh: "p_arrived s = 0 \<Longrightarrow> length pl \<le> p_buf_capacity s div p_chunks s \<and>
      (p_chunk_size s = 0 \<longleftrightarrow> 1 < p_chunks s \<and> i + 1 = p_chunks s)"
  obtains err out s' where "accept_into s i pl = Some (err, out, s')" and "slot_wf s'"
    and "same_message s s'" and "p_live s'"
    and "arrived_set s' = (if err = FZN_REASM_OK then insert i (arrived_set s) else arrived_set s)"
    and "out \<longleftrightarrow> err = FZN_REASM_OK \<and> arrived_set s' = {..<p_chunks s} \<and> \<not> p_handed s"
    and "p_arrived s = 0 \<Longrightarrow> err = FZN_REASM_OK"
proof -
  have e: "p_chunks s \<le> 256" "p_arrived s = card (arrived_set s)" "p_handed s \<longleftrightarrow> p_arrived s = p_chunks s"
    "buf_wf s" "p_live s" using s by (auto simp: entry_wf_def)
  have full: "p_handed s \<longleftrightarrow> arrived_set s = {..<p_chunks s}" using e(2,3) arrived_all_iff by simp
  consider (known) "p_chunk_size s \<noteq> 0" | (park) "p_chunk_size s = 0" "p_parked s = 0" "i + 1 = p_chunks s"
    | (again) "p_chunk_size s = 0" "p_parked s \<noteq> 0" "i + 1 = p_chunks s"
    | (learn) "p_chunk_size s = 0" "i + 1 < p_chunks s" using i by linarith
  then show thesis
  proof cases
    case known
    have pl: "length pl \<le> p_chunk_size s"
      using ok known by (auto simp: chunk_mismatch_def split: if_splits)
    have c: "p_chunk_size s \<le> p_buf_capacity s div p_chunks s"
      using s known by (simp add: entry_wf_def stride_wf_def)
    have into: "accept_into s i pl = place_chunk s i pl" using known by (simp add: accept_into_def)
    note spec = place_chunk_spec(2) [OF e(4,1-3) i known c pl]
    show thesis
    proof (cases "i \<in> arrived_set s")
      case True
      then have r: "accept_into s i pl = Some (if bytes_at (i * p_chunk_size s) (length pl) (the (p_buf s)) = pl
          then FZN_REASM_OK else FZN_REASM_ERR_CONFLICT, False, s)" using into spec by simp
      have "p_arrived s \<noteq> 0" using True e(2) by auto
      then show thesis
        using True s e full by (intro that [OF r]) (simp_all add: slot_wf_def same_message_def insert_absorb)
    next
      case False
      then have r: "accept_into s i pl = Some (FZN_REASM_OK, insert i (arrived_set s) = {..<p_chunks s},
          placed s i pl)" using into spec by simp
      have "\<not> p_handed s" using not_all_arrived [OF i False] e by simp
      then show thesis
        using placed_entry_wf [OF s i False known pl] placed_arrived [OF e(4,1,2) i False, of pl] e(5)
        by (intro that [OF r]) (simp_all add: slot_wf_def same_message_def entry_wf_def)
    qed
  next
    case park
    then have "p_arrived s = 0" using s by (simp add: entry_wf_def stride_wf_def)
    then have f: "1 < p_chunks s" "length pl \<le> p_buf_capacity s div p_chunks s" "arrived_set s = {}"
      using fresh park e(2) by auto
    have "pl \<noteq> []" using ok park by (auto simp: chunk_mismatch_def)
    note spec = accept_parks [OF s park f(1) this f(2)]
    have "{i} \<noteq> {..<p_chunks s}"
    proof
      assume "{i} = {..<p_chunks s}"
      then have "0 \<in> {i}" "1 \<in> {i}" using f(1) by auto
      then show False by simp
    qed
    then show thesis
      using spec(2,3) f(3) e(5)
      by (intro that [OF spec(1)]) (simp_all add: slot_wf_def entry_wf_def same_message_def, simp_all add: parked_slot_def)
  next
    case again
    have "arrived_set s = {i}" using s again by (auto simp: entry_wf_def stride_wf_def)
    moreover from this have "p_arrived s \<noteq> 0" using e(2) by simp
    ultimately show thesis
      using s e full
      by (intro that [OF accept_parked_again [OF s again, of pl]]) (simp_all add: slot_wf_def same_message_def)
  next
    case learn
    show thesis
    proof (cases "pl \<noteq> [] \<and> p_parked s \<le> length pl \<and> length pl \<le> p_buf_capacity s div p_chunks s")
      case True
      then have pl: "pl \<noteq> []" "p_parked s \<le> length pl" "length pl \<le> p_buf_capacity s div p_chunks s" by auto
      note spec = accept_learns [OF s learn pl]
      have "\<not> p_handed s" using not_all_arrived [OF i spec(2)] e by simp
      moreover have "entry_wf (placed (learned s pl) i pl) \<and> p_arrived (placed (learned s pl) i pl) \<noteq> 0"
        using placed_entry_wf [OF spec(1), of i pl] spec(2) i pl by simp
      moreover have "arrived_set (placed (learned s pl) i pl) = insert i (arrived_set s)"
        using placed_arrived(1) [of "learned s pl" i pl] spec(1,2) i by (simp add: entry_wf_def)
      ultimately show thesis
        using e(5) by (intro that [OF spec(4)]) (simp_all add: slot_wf_def entry_wf_def same_message_def)
    next
      case False
      then have "p_arrived s \<noteq> 0" using fresh learn by auto
      moreover obtain err where "err \<noteq> FZN_REASM_OK" "accept_into s i pl = Some (err, False, s)"
        using accept_learns_not [OF s learn False] by blast
      ultimately show thesis
        using s e by (intro that [of err False s]) (simp_all add: slot_wf_def same_message_def)
    qed
  qed
qed

section \<open>A slot fed with the chunks of one message\<close>

definition pieces_wf :: "nat \<Rightarrow> nat \<Rightarrow> (nat \<Rightarrow> bytes) \<Rightarrow> bool" where
  "pieces_wf n c pc \<longleftrightarrow> 0 < n \<and> 0 < c \<and> (\<forall>i. i + 1 < n \<longrightarrow> length (pc i) = c) \<and>
     0 < length (pc (n - 1)) \<and> length (pc (n - 1)) \<le> c \<and> (n = 1 \<longrightarrow> length (pc 0) = c)"

definition content :: "nat \<Rightarrow> (nat \<Rightarrow> bytes) \<Rightarrow> fzn_partial \<Rightarrow> bool" where
  "content c pc s \<longleftrightarrow>
     (if p_chunk_size s = 0
      then p_parked s \<noteq> 0 \<longrightarrow> p_parked s = length (pc (p_chunks s - 1)) \<and>
        bytes_at (p_buf_capacity s - p_parked s) (p_parked s) (the (p_buf s)) = pc (p_chunks s - 1)
      else p_chunk_size s = c \<and>
        (\<forall>i \<in> arrived_set s. bytes_at (i * c) (length (pc i)) (the (p_buf s)) = pc i)) \<and>
     p_bytes s = (\<Sum>i \<in> arrived_set s. length (pc i))"

lemma piece_bound: "pieces_wf n c pc \<Longrightarrow> i < n \<Longrightarrow> 0 < length (pc i) \<and> length (pc i) \<le> c"
  by (cases "i + 1 = n") (auto simp: pieces_wf_def)

lemma strides_disjoint: "i \<noteq> j \<Longrightarrow> k \<le> c \<Longrightarrow> l \<le> c \<Longrightarrow> i * c + k \<le> j * c \<or> j * c + l \<le> (i * c :: nat)"
proof -
  have *: "a < b \<Longrightarrow> m \<le> c \<Longrightarrow> a * c + m \<le> b * c" for a b m :: nat
    using mult_le_mono1 [of "Suc a" b c] by simp
  assume "i \<noteq> j" "k \<le> c" "l \<le> c"
  then show ?thesis using * [of i j k] * [of j i l] by (cases "i < j") auto
qed

lemma content_placed:
  assumes s: "entry_wf s" "p_chunk_size s = c" and con: "content c pc s"
    and pc: "pieces_wf (p_chunks s) c pc" and i: "i < p_chunks s" "i \<notin> arrived_set s"
  shows "content c pc (placed s i (pc i))"
proof -
  obtain b where b: "p_buf s = Some b" "length b = p_buf_capacity s" by (rule entry_buf [OF s(1)])
  have c: "c \<noteq> 0" using pc by (simp add: pieces_wf_def)
  have wf: "buf_wf s" "p_chunks s \<le> 256" "p_arrived s = card (arrived_set s)"
    "c \<le> p_buf_capacity s div p_chunks s"
    using s c by (auto simp: entry_wf_def stride_wf_def)
  note arr = placed_arrived(1) [OF wf(1-3) i, of "pc i"]
  have fits: "j * c + length (pc j) \<le> length b" if "j < p_chunks s" for j
    using index_fits [OF wf(4) that] piece_bound [OF pc that] b(2) by simp
  have "bytes_at (j * c) (length (pc j)) (put_at (i * c) (pc i) b) = pc j" if "j \<in> arrived_set s" for j
  proof -
    have j: "j < p_chunks s" "j \<noteq> i" using that i arrived_subset by auto
    then have "j * c + length (pc j) \<le> i * c \<or> i * c + length (pc i) \<le> j * c"
      using piece_bound [OF pc] i(1) by (intro strides_disjoint) auto
    then have "bytes_at (j * c) (length (pc j)) (put_at (i * c) (pc i) b) = bytes_at (j * c) (length (pc j)) b"
      using fits j i(1) by (intro bytes_at_put_at_other) auto
    also have "\<dots> = pc j" using con that s(2) c b(1) by (simp add: content_def)
    finally show ?thesis .
  qed
  moreover have "bytes_at (i * c) (length (pc i)) (put_at (i * c) (pc i) b) = pc i"
    using fits [OF i(1)] by (rule bytes_at_put_at_same)
  ultimately show ?thesis
    using con c s(2) b(1) i(2) by (simp add: content_def arr)
qed

lemma content_learned:
  assumes s: "entry_wf s" "p_chunk_size s = 0" and con: "content c pc s"
    and pc: "pieces_wf (p_chunks s) c pc" and i: "i + 1 < p_chunks s"
    and c: "c \<le> p_buf_capacity s div p_chunks s"
  shows "content c pc (learned s (pc i))" and "p_parked s \<le> length (pc i)"
    and "length (pc i) = c" and "pc i \<noteq> []"
proof -
  obtain b where b: "p_buf s = Some b" "length b = p_buf_capacity s" by (rule entry_buf [OF s(1)])
  show len: "length (pc i) = c" using pc i by (simp add: pieces_wf_def)
  have c0: "0 < c" using pc by (simp add: pieces_wf_def)
  show "pc i \<noteq> []" using len c0 by auto
  show park: "p_parked s \<le> length (pc i)"
    using con s(2) pc len by (cases "p_parked s = 0") (auto simp: content_def pieces_wf_def)
  show "content c pc (learned s (pc i))"
  proof (cases "p_parked s = 0")
    case True
    then have "arrived_set s = {}" using s by (simp add: entry_wf_def stride_wf_def)
    with con c0 len show ?thesis by (simp add: content_def)
  next
    case False
    have one: "arrived_set s = {p_chunks s - 1}" using s False by (simp add: entry_wf_def stride_wf_def)
    have pk: "p_parked s = length (pc (p_chunks s - 1))"
        "bytes_at (p_buf_capacity s - p_parked s) (p_parked s) b = pc (p_chunks s - 1)"
      using con s(2) False b(1) unfolding content_def by (metis option.sel)+
    have "(p_chunks s - 1) * c + p_parked s \<le> length b"
      using index_fits [OF c, of "p_chunks s - 1" "p_parked s"] i park len b(2) by simp
    then have "bytes_at ((p_chunks s - 1) * c) (p_parked s) (put_at ((p_chunks s - 1) * c) (pc (p_chunks s - 1)) b)
        = pc (p_chunks s - 1)"
      using bytes_at_put_at_same [of "(p_chunks s - 1) * c" "pc (p_chunks s - 1)" b] pk(1) by simp
    moreover have "p_buf (learned s (pc i)) = Some (put_at ((p_chunks s - 1) * c) (pc (p_chunks s - 1)) b)"
      using pk(2) len b(1) by (simp add: learned_def)
    ultimately show ?thesis
      using con c0 len one pk(1) s(2) by (simp add: content_def)
  qed
qed

lemma content_parked:
  assumes s: "entry_wf s" "p_chunk_size s = 0" "p_parked s = 0"
    and pc: "pieces_wf (p_chunks s) c pc" and i: "i + 1 = p_chunks s" "1 < p_chunks s"
    and c: "c \<le> p_buf_capacity s div p_chunks s"
  shows "content c pc (parked_slot s i (pc i))"
proof -
  obtain b where b: "p_buf s = Some b" "length b = p_buf_capacity s" by (rule entry_buf [OF s(1)])
  have len: "0 < length (pc i)" "length (pc i) \<le> p_buf_capacity s div p_chunks s"
    using piece_bound [OF pc, of i] i c by auto
  then have "length (pc i) \<le> length b" using b(2) div_le_dividend order_trans by metis
  then have "bytes_at (length b - length (pc i)) (length (pc i)) (put_at (length b - length (pc i)) (pc i) b) = pc i"
    by (intro bytes_at_put_at_same) simp
  moreover have "arrived_set (parked_slot s i (pc i)) = {i}"
    using accept_parks(3) [OF s i _ len(2)] len(1) by auto
  moreover have "p_bytes s = 0" using s by (simp add: entry_wf_def stride_wf_def)
  moreover have "p_chunks s - 1 = i" using i by simp
  ultimately show ?thesis using s(2) b len(1) by (simp add: content_def) (simp add: parked_slot_def)
qed

lemma genuine_no_mismatch:
  assumes "content c pc s" and "pieces_wf (p_chunks s) c pc" and "i < p_chunks s"
  shows "\<not> chunk_mismatch s i (p_chunks s) (length (pc i))"
proof -
  have "p_chunk_size s = 0 \<or> p_chunk_size s = c" using assms(1) by (auto simp: content_def split: if_splits)
  moreover have "i + 1 \<noteq> p_chunks s \<longrightarrow> length (pc i) = c" using assms(2,3) by (simp add: pieces_wf_def)
  ultimately show ?thesis using piece_bound [OF assms(2,3)] assms(3) by (auto simp: chunk_mismatch_def)
qed

lemma accept_into_genuine:
  assumes s: "entry_wf s" and con: "content c pc s" and pc: "pieces_wf (p_chunks s) c pc"
    and i: "i < p_chunks s" and c: "c \<le> p_buf_capacity s div p_chunks s"
    and fresh: "p_arrived s = 0 \<Longrightarrow> p_chunk_size s = 0 \<longleftrightarrow> 1 < p_chunks s \<and> i + 1 = p_chunks s"
  shows "\<exists>out s'. accept_into s i (pc i) = Some (FZN_REASM_OK, out, s') \<and> content c pc s'"
proof -
  have e: "p_chunks s \<le> 256" "p_arrived s = card (arrived_set s)" "p_handed s \<longleftrightarrow> p_arrived s = p_chunks s"
    "buf_wf s" using s by (auto simp: entry_wf_def)
  note bound = piece_bound [OF pc i]
  consider (known) "p_chunk_size s \<noteq> 0" | (park) "p_chunk_size s = 0" "p_parked s = 0" "i + 1 = p_chunks s"
    | (again) "p_chunk_size s = 0" "p_parked s \<noteq> 0" "i + 1 = p_chunks s"
    | (learn) "p_chunk_size s = 0" "i + 1 < p_chunks s" using i by linarith
  then show ?thesis
  proof cases
    case known
    then have cs: "p_chunk_size s = c" using con by (simp add: content_def)
    note spec = place_chunk_spec(2) [OF e(4,1-3) i known, of "pc i"]
    have "i \<in> arrived_set s \<Longrightarrow> bytes_at (i * c) (length (pc i)) (the (p_buf s)) = pc i"
      using con known by (simp add: content_def)
    moreover have "i \<notin> arrived_set s \<Longrightarrow> content c pc (placed s i (pc i))"
      by (rule content_placed [OF s cs con pc i])
    moreover have "accept_into s i (pc i) = place_chunk s i (pc i)" using known by (simp add: accept_into_def)
    moreover note spec
    ultimately show ?thesis using con cs c bound by (cases "i \<in> arrived_set s") auto
  next
    case park
    then have "p_arrived s = 0" using s by (simp add: entry_wf_def stride_wf_def)
    then have one: "1 < p_chunks s" using fresh park by blast
    have "length (pc i) \<le> p_buf_capacity s div p_chunks s" "pc i \<noteq> []" using bound c by auto
    then show ?thesis
      using accept_parks(1) [OF s park one] content_parked [OF s park(1,2) pc park(3) one c] by blast
  next
    case again
    have eq: "length (pc i) = p_parked s"
        "bytes_at (p_buf_capacity s - p_parked s) (p_parked s) (the (p_buf s)) = pc i"
      using con again(1,2) unfolding content_def again(3) [symmetric] by (metis add_diff_cancel_right')+
    then have "accept_into s i (pc i) = Some (FZN_REASM_OK, False, s)"
      unfolding accept_parked_again [OF s again] by simp
    then show ?thesis using con by blast
  next
    case learn
    note con' = content_learned [OF s learn(1) con pc learn(2) c]
    have le: "length (pc i) \<le> p_buf_capacity s div p_chunks s" using con'(3) c by simp
    note spec = accept_learns [OF s learn con'(4,2) le]
    have "content c pc (placed (learned s (pc i)) i (pc i))"
      by (rule content_placed [OF spec(1)]) (use con' pc i spec(2) in simp_all)
    then show ?thesis using spec(4) by blast
  qed
qed

section \<open>Well-formed tables\<close>

definition live_slots :: "fzn_reasm \<Rightarrow> bytes \<Rightarrow> nat set" where
  "live_slots t sender = {i. i < length (slots t) \<and> p_live (slots t ! i) \<and> p_sender (slots t ! i) = sender}"

definition table_wf :: "fzn_reasm \<Rightarrow> bool" where
  "table_wf t \<longleftrightarrow>
     (\<exists>ps. t_partials t = Some ps \<and> length ps = t_capacity t) \<and> (\<forall>s \<in> set (slots t). slot_wf s) \<and>
     (\<forall>i j. i < length (slots t) \<longrightarrow> j < length (slots t) \<longrightarrow> p_live (slots t ! i) \<longrightarrow>
        holds (p_sender (slots t ! i)) (p_msg (slots t ! i)) (slots t ! j) \<longrightarrow> i = j) \<and>
     (\<forall>sender. card (live_slots t sender) \<le> t_per_sender_max t)"

lemma table_partials: "table_wf t \<Longrightarrow> t_partials t = Some (slots t) \<and> length (slots t) = t_capacity t"
  by (auto simp: table_wf_def slots_def)

lemma held_by_card: "held_by t sender = card (live_slots t sender)"
proof -
  have "fold (\<lambda>s n. if P s then Suc n else n) ps k = k + length (filter P ps)"
    for P :: "fzn_partial \<Rightarrow> bool" and ps k
    by (induction ps arbitrary: k) auto
  from this [of "\<lambda>s. p_live s \<and> p_sender s = sender" "slots t" 0] show ?thesis
    by (simp add: held_by_def live_slots_def length_filter_conv_card)
qed

lemma slots_set_slot: "table_wf t \<Longrightarrow> slots (set_slot t i s) = (slots t)[i := s]"
  using table_partials [of t] by (simp add: set_slot_def slots_def take_update_swap)

lemma set_slot_fields [simp]:
  "t_capacity (set_slot t i s) = t_capacity t" "t_per_sender_max (set_slot t i s) = t_per_sender_max t"
  "t_max_hold (set_slot t i s) = t_max_hold t"
  by (simp_all add: set_slot_def)

lemma finite_live_slots [simp]: "finite (live_slots t sender)"
  by (simp add: live_slots_def)

lemma find_slot_Some:
  "find_slot t sender msg = Some i \<Longrightarrow> i < length (slots t) \<and> holds sender msg (slots t ! i)"
  using first_at_hit [of "holds sender msg" "slots t"] by (auto simp: find_slot_def Let_def split: if_splits)

lemma find_slot_None:
  "find_slot t sender msg = None \<longleftrightarrow> (\<forall>i < length (slots t). \<not> holds sender msg (slots t ! i))"
  using first_at_found [of "holds sender msg" "slots t"]
  by (auto simp: find_slot_def Let_def in_set_conv_nth dest: nth_mem)

lemma find_slot_unique:
  assumes "table_wf t" and "i < length (slots t)" and "holds sender msg (slots t ! i)"
  shows "find_slot t sender msg = Some i"
proof -
  have "find_slot t sender msg \<noteq> None" using assms(2,3) find_slot_None [of t sender msg] by auto
  then obtain j where j: "find_slot t sender msg = Some j" by blast
  from find_slot_Some [OF j] have "j < length (slots t)" "holds sender msg (slots t ! j)" by auto
  moreover from this have "i = j" using assms by (auto simp: table_wf_def holds_def)
  ultimately show ?thesis using j by simp
qed

text \<open>
  Writing a slot keeps the table well formed when the slot keeps its message, when it dies, and
  when a dead slot takes a message that no slot holds within the quota of its sender.
\<close>

lemma set_slot_same:
  assumes "table_wf t" and "i < length (slots t)" and "slot_wf s"
    and "p_live s = p_live (slots t ! i) \<or> \<not> p_live s"
    and "p_live s \<Longrightarrow> p_sender s = p_sender (slots t ! i) \<and> p_msg s = p_msg (slots t ! i)"
  shows "table_wf (set_slot t i s)"
proof -
  note sl = slots_set_slot [OF assms(1), of i s]
  have "live_slots (set_slot t i s) sender \<subseteq> live_slots t sender" for sender
    using assms(2,4,5) by (auto simp: live_slots_def sl nth_list_update split: if_splits)
  then have "card (live_slots (set_slot t i s) sender) \<le> t_per_sender_max t" for sender
    using assms(1) card_mono [OF finite_live_slots] unfolding table_wf_def by (meson order_trans)
  moreover have "\<forall>j k. j < length (slots t) \<longrightarrow> k < length (slots t) \<longrightarrow> p_live ((slots t)[i := s] ! j) \<longrightarrow>
        holds (p_sender ((slots t)[i := s] ! j)) (p_msg ((slots t)[i := s] ! j)) ((slots t)[i := s] ! k) \<longrightarrow> j = k"
    using assms by (auto simp: table_wf_def holds_def nth_list_update)
  moreover have "\<forall>s' \<in> set ((slots t)[i := s]). slot_wf s'"
    using assms(1,3) by (auto simp: table_wf_def dest!: set_update_subset_insert [THEN subsetD])
  ultimately show ?thesis
    using assms(1) table_partials [OF assms(1)] by (simp add: table_wf_def sl) (simp add: set_slot_def)
qed

lemma set_slot_new:
  assumes "table_wf t" and "i < length (slots t)" and "slot_wf s" and "\<not> p_live (slots t ! i)"
    and "find_slot t (p_sender s) (p_msg s) = None"
    and "card (live_slots t (p_sender s)) < t_per_sender_max t"
  shows "table_wf (set_slot t i s)"
proof -
  note sl = slots_set_slot [OF assms(1), of i s]
  have sub: "live_slots (set_slot t i s) sender \<subseteq>
      (if sender = p_sender s then insert i (live_slots t sender) else live_slots t sender)" for sender
    using assms(2) by (auto simp: live_slots_def sl nth_list_update split: if_splits)
  have "card (live_slots (set_slot t i s) sender) \<le> t_per_sender_max t" for sender
  proof -
    have "card (live_slots (set_slot t i s) sender) \<le>
        (if sender = p_sender s then Suc (card (live_slots t sender)) else card (live_slots t sender))"
      using card_mono [OF _ sub, of sender] card_insert_le_m1
      by (cases "sender = p_sender s") (auto simp: card_insert_if split: if_splits)
    then show ?thesis using assms(1,6) by (auto simp: table_wf_def split: if_splits intro: order_trans)
  qed
  moreover have "\<forall>j k. j < length (slots t) \<longrightarrow> k < length (slots t) \<longrightarrow> p_live ((slots t)[i := s] ! j) \<longrightarrow>
        holds (p_sender ((slots t)[i := s] ! j)) (p_msg ((slots t)[i := s] ! j)) ((slots t)[i := s] ! k) \<longrightarrow> j = k"
    using assms(1,2,5) unfolding find_slot_None by (auto simp: table_wf_def holds_def nth_list_update)
  moreover have "\<forall>s' \<in> set ((slots t)[i := s]). slot_wf s'"
    using assms(1,3) by (auto simp: table_wf_def dest!: set_update_subset_insert [THEN subsetD])
  ultimately show ?thesis
    using assms(1) table_partials [OF assms(1)] by (simp add: table_wf_def sl) (simp add: set_slot_def)
qed

lemma release_where_wf:
  assumes "table_wf t"
  shows "slots (snd (release_where due t)) = map (\<lambda>s. if due s then fzn_reasm_release s else s) (slots t)"
    and "table_wf (snd (release_where due t))"
proof -
  note tp = table_partials [OF assms]
  let ?f = "\<lambda>s. if due s then fzn_reasm_release s else s"
  show sl: "slots (snd (release_where due t)) = map ?f (slots t)"
    using tp by (simp add: release_where_def Let_def slots_def)
  have dead: "\<not> p_live (fzn_reasm_release s)" for s by (simp add: fzn_reasm_release_def zero_slot_def)
  have "live_slots (snd (release_where due t)) sender \<subseteq> live_slots t sender" for sender
    using dead by (auto simp: live_slots_def sl split: if_splits)
  then have "card (live_slots (snd (release_where due t)) sender) \<le> t_per_sender_max t" for sender
    using assms card_mono [OF finite_live_slots] unfolding table_wf_def by (meson order_trans)
  moreover have "i = j" if "i < length (slots t)" "j < length (slots t)" "p_live (?f (slots t ! i))"
      "holds (p_sender (?f (slots t ! i))) (p_msg (?f (slots t ! i))) (?f (slots t ! j))" for i j
    using assms that dead by (auto simp: table_wf_def holds_def split: if_splits)
  ultimately show "table_wf (snd (release_where due t))"
    using assms tp slot_wf_release unfolding table_wf_def sl by (auto simp: release_where_def Let_def)
qed

lemma fresh_table_wf:
  assumes "t_partials t = Some ps" and "length ps = t_capacity t" and "\<forall>q \<in> set ps. \<not> p_live q \<and> slot_wf q"
  shows "table_wf t"
proof -
  have sl: "slots t = ps" using assms by (simp add: slots_def)
  have "live_slots t sender = {}" for sender using assms(3) by (auto simp: live_slots_def sl)
  then show ?thesis using assms by (auto simp: table_wf_def sl)
qed

section \<open>Accepting a chunk into a table\<close>

definition sweep :: "fzn_reasm \<Rightarrow> u64 \<Rightarrow> fzn_reasm" where
  "sweep t now = snd (release_where (\<lambda>s. p_live s \<and> \<not> p_handed s \<and> p_expires_at s \<le> now) t)"

lemma sweep_fields [simp]:
  "t_capacity (sweep t now) = t_capacity t" "t_per_sender_max (sweep t now) = t_per_sender_max t"
  "t_max_hold (sweep t now) = t_max_hold t"
  by (simp_all add: sweep_def release_where_def Let_def)

lemma sweep_wf: "table_wf t \<Longrightarrow> table_wf (sweep t now)"
  by (simp add: sweep_def release_where_wf)

lemma slots_sweep:
  "table_wf t \<Longrightarrow> slots (sweep t now) =
     map (\<lambda>s. if p_live s \<and> \<not> p_handed s \<and> p_expires_at s \<le> now then fzn_reasm_release s else s) (slots t)"
  by (simp add: sweep_def release_where_wf)

lemma sweep_keeps:
  assumes "table_wf t" and "j < length (slots t)" and "p_handed (slots t ! j) \<or> now < p_expires_at (slots t ! j)"
  shows "slots (sweep t now) ! j = slots t ! j"
  using assms by (auto simp: slots_sweep)

lemma expire_sweep:
  "table_wf t \<Longrightarrow> snd (fzn_reasm_expire (Some t) now) = Some (sweep t now)"
  using table_partials [of t] by (simp add: fzn_reasm_expire_def sweep_def)

definition finish_accept :: "fzn_reasm \<Rightarrow> nat \<Rightarrow> nat \<Rightarrow> bytes \<Rightarrow>
    (fzn_reasm_err \<times> nat option \<times> fzn_reasm option) option" where
  "finish_accept t j i pl =
     map_option (\<lambda>(err, out, s). (err, if out then Some j else None, Some (set_slot t j s)))
       (accept_into (slots t ! j) i pl)"

lemma admit_first_ok_found: "admit_first t s m i n len x = (FZN_REASM_OK, found, t') \<Longrightarrow> \<exists>j. found = Some j"
  by (auto simp: admit_first_def Let_def split: if_splits)

lemma accept_unfold:
  assumes "table_wf t"
  shows "fzn_reasm_accept (Some t) (Some s) m i n (Some pl) x now =
    (if x \<noteq> 0 \<and> x \<le> now then Some (FZN_REASM_ERR_EXPIRED, None, Some (sweep t now))
     else case find_slot (sweep t now) s m of
       None \<Rightarrow> (case admit_first (sweep t now) s m i n (length pl) (deadline_of t x now) of (err, found, t') \<Rightarrow>
          if err \<noteq> FZN_REASM_OK then Some (err, None, Some t') else finish_accept t' (the found) i pl)
     | Some j \<Rightarrow> if chunk_mismatch (slots (sweep t now) ! j) i n (length pl)
          then Some (FZN_REASM_ERR_MISMATCH, None, Some (sweep t now))
          else finish_accept (sweep t now) j i pl)"
proof -
  have bind: "(do { r \<leftarrow> accept_into q i pl; Some (fst r, if fst (snd r) then Some j else None,
      Some (set_slot t' j (snd (snd r)))) }) =
    map_option (\<lambda>(err, out, s). (err, if out then Some j else None, Some (set_slot t' j s))) (accept_into q i pl)"
    for q t' j by (cases "accept_into q i pl") auto
  have dl: "deadline_of (sweep t now) y now = deadline_of t y now" for y by (simp add: deadline_of_def)
  note start = fzn_reasm_accept_def expire_sweep [OF assms, of now] table_partials [OF assms]
  show ?thesis
  proof (cases "find_slot (sweep t now) s m")
    case None
    obtain err found t' where adm:
      "admit_first (sweep t now) s m i n (length pl) (deadline_of t x now) = (err, found, t')"
      by (metis prod_cases3)
    then have "err = FZN_REASM_OK \<Longrightarrow> \<exists>j. found = Some j" using admit_first_ok_found by blast
    then show ?thesis
      using None adm by (cases found) (auto simp: start dl bind finish_accept_def Let_def)
  next
    case (Some j)
    then show ?thesis by (simp add: start bind finish_accept_def Let_def)
  qed
qed

lemma admit_first_cases:
  assumes t: "table_wf t" and none: "find_slot t s m = None"
  obtains (refused) err t' where "admit_first t s m i n len x = (err, None, t')" and "err \<noteq> FZN_REASM_OK"
      and "table_wf t'" and "length (slots t') = length (slots t)" and "t_max_hold t' = t_max_hold t"
      and "t_per_sender_max t' = t_per_sender_max t"
      and "\<And>j. j < length (slots t) \<Longrightarrow> p_live (slots t ! j) \<Longrightarrow> slots t' ! j = slots t ! j"
      and "\<And>j. j < length (slots t) \<Longrightarrow> p_live (slots t' ! j) = p_live (slots t ! j)"
  | (claimed) k q where "admit_first t s m i n len x = (FZN_REASM_OK, Some k, set_slot t k q)"
      and "k < length (slots t)" and "\<not> p_live (slots t ! k)" and "entry_wf q" and "p_arrived q = 0"
      and "p_sender q = s" and "p_msg q = m" and "p_chunks q = n" and "p_expires_at q = x" and "i < n"
      and "p_parked q = 0" and "0 < len" and "len \<le> p_buf_capacity q div n"
      and "p_chunk_size q = (if 1 < n \<and> i + 1 = n then 0 else len)"
      and "card (live_slots t s) < t_per_sender_max t" and "p_buf_capacity q = p_buf_capacity (slots t ! k)"
proof -
  let ?k = "first_at (\<lambda>p. \<not> p_live p) (slots t)"
  let ?c = "if 1 < n \<and> i + 1 = n then 0 else len"
  let ?q = "(slots t ! ?k)\<lparr>p_chunk_size := ?c\<rparr>"
  consider (early) err where "admit_first t s m i n len x = (err, None, t)" "err \<noteq> FZN_REASM_OK"
    | (found) "?k < length (slots t)" "0 < n" "n \<le> 256" "i < n" "card (live_slots t s) < t_per_sender_max t"
      "admit_first t s m i n len x =
        (if len = 0 \<or> len > p_buf_capacity (slots t ! ?k) div n
         then (FZN_REASM_ERR_TOO_LARGE, None, set_slot t ?k ?q)
         else (FZN_REASM_OK, Some ?k, set_slot t ?k (?q\<lparr>p_sender := s, p_msg := m,
             p_chunks := n, p_arrived := 0, p_expires_at := x, p_bytes := 0,
             p_parked := 0, p_seen := replicate 32 0, p_live := True\<rparr>)))"
  proof (cases "n = 0 \<or> n > 256 \<or> n \<le> i \<or> t_per_sender_max t \<le> held_by t s \<or> length (slots t) \<le> ?k")
    case True
    have "\<exists>err. admit_first t s m i n len x = (err, None, t) \<and> err \<noteq> FZN_REASM_OK"
      unfolding admit_first_def Let_def using True
      by (cases "n = 0 \<or> n > 256"; cases "n \<le> i"; cases "t_per_sender_max t \<le> held_by t s"; simp)
    then show ?thesis using early by blast
  next
    case False
    then have "admit_first t s m i n len x =
        (if len = 0 \<or> len > p_buf_capacity (slots t ! ?k) div n
         then (FZN_REASM_ERR_TOO_LARGE, None, set_slot t ?k ?q)
         else (FZN_REASM_OK, Some ?k, set_slot t ?k (?q\<lparr>p_sender := s, p_msg := m,
             p_chunks := n, p_arrived := 0, p_expires_at := x, p_bytes := 0,
             p_parked := 0, p_seen := replicate 32 0, p_live := True\<rparr>)))"
      unfolding admit_first_def Let_def by simp
    then show ?thesis using False found by (simp add: held_by_card)
  qed
  then show thesis
  proof cases
    case early
    then show thesis using t by (intro refused) auto
  next
    case found
    have dead: "\<not> p_live (slots t ! ?k)" using first_at_hit [OF found(1)] by simp
    have wf: "buf_wf (slots t ! ?k)" "\<not> p_handed (slots t ! ?k)"
      using t found(1) dead by (auto simp: table_wf_def slot_wf_def)
    show thesis
    proof (cases "len = 0 \<or> len > p_buf_capacity (slots t ! ?k) div n")
      case True
      have q: "slot_wf ?q" using wf dead by (simp add: slot_wf_def buf_wf_def)
      have "table_wf (set_slot t ?k ?q)" by (rule set_slot_same [OF t found(1) q]) (use dead in auto)
      moreover have adm: "admit_first t s m i n len x = (FZN_REASM_ERR_TOO_LARGE, None, set_slot t ?k ?q)"
        unfolding found(6) using True by (rule if_P)
      ultimately show thesis
        using dead found(1) by (intro refused [OF adm]) (auto simp: slots_set_slot [OF t] nth_list_update)
    next
      case False
      let ?new = "?q\<lparr>p_sender := s, p_msg := m,
             p_chunks := n, p_arrived := 0, p_expires_at := x, p_bytes := 0,
             p_parked := 0, p_seen := replicate 32 0, p_live := True\<rparr>"
      have arr: "arrived_set ?new = {}"
        using found(3) seen_get_zero [of _ ?new] by (auto simp: arrived_set_def)
      have "entry_wf ?new"
        using wf found(2-4) False unfolding entry_wf_def stride_wf_def arr by (auto simp: buf_wf_def)
      moreover have adm: "admit_first t s m i n len x = (FZN_REASM_OK, Some ?k, set_slot t ?k ?new)"
        unfolding found(6) using False by (rule if_not_P)
      ultimately show thesis using False found(1-5) dead by (intro claimed [OF adm]) auto
    qed
  qed
qed

lemma set_slot_twice [simp]: "set_slot (set_slot t k q) k q' = set_slot t k q'"
  by (simp add: set_slot_def)

lemma live_entry: "table_wf t \<Longrightarrow> j < length (slots t) \<Longrightarrow> p_live (slots t ! j) \<Longrightarrow>
    entry_wf (slots t ! j) \<and> p_arrived (slots t ! j) \<noteq> 0"
  by (auto simp: table_wf_def slot_wf_def)

lemma finish_known:
  assumes t: "table_wf t" and j: "j < length (slots t)" "p_live (slots t ! j)"
    and ok: "\<not> chunk_mismatch (slots t ! j) i n (length pl)"
  obtains err out q where "accept_into (slots t ! j) i pl = Some (err, out, q)"
    and "finish_accept t j i pl = Some (err, if out then Some j else None, Some (set_slot t j q))"
    and "table_wf (set_slot t j q)" and "same_message (slots t ! j) q" and "slot_wf q"
    and "arrived_set q = (if err = FZN_REASM_OK then insert i (arrived_set (slots t ! j)) else arrived_set (slots t ! j))"
    and "out \<longleftrightarrow> err = FZN_REASM_OK \<and> arrived_set q = {..<n} \<and> \<not> p_handed (slots t ! j)"
proof -
  note e = live_entry [OF t j]
  have n: "n = p_chunks (slots t ! j)" "i < p_chunks (slots t ! j)" using ok by (auto simp: chunk_mismatch_def)
  obtain err out q where r: "accept_into (slots t ! j) i pl = Some (err, out, q)" "slot_wf q"
      "same_message (slots t ! j) q" "p_live q"
      "arrived_set q = (if err = FZN_REASM_OK then insert i (arrived_set (slots t ! j)) else arrived_set (slots t ! j))"
      "out \<longleftrightarrow> err = FZN_REASM_OK \<and> arrived_set q = {..<p_chunks (slots t ! j)} \<and> \<not> p_handed (slots t ! j)"
    using accept_into_safe [of "slots t ! j" i pl] e n ok by metis
  have "table_wf (set_slot t j q)"
    using r(3) by (intro set_slot_same [OF t j(1) r(2)]) (auto simp: same_message_def)
  then show thesis using r n by (intro that [OF r(1)]) (simp_all add: finish_accept_def)
qed

lemma finish_claimed:
  assumes t: "table_wf t" and k: "k < length (slots t)" "\<not> p_live (slots t ! k)"
    and q: "entry_wf q" "p_arrived q = 0" "p_sender q = s" "p_msg q = m" "p_chunks q = n" "i < n"
      "0 < length pl" "length pl \<le> p_buf_capacity q div n"
      "p_chunk_size q = (if 1 < n \<and> i + 1 = n then 0 else length pl)"
    and none: "find_slot t s m = None" and quota: "card (live_slots t s) < t_per_sender_max t"
  obtains out q' where "accept_into q i pl = Some (FZN_REASM_OK, out, q')"
    and "finish_accept (set_slot t k q) k i pl = Some (FZN_REASM_OK, if out then Some k else None, Some (set_slot t k q'))"
    and "table_wf (set_slot t k q')" and "same_message q q'" and "slot_wf q'"
    and "arrived_set q' = {i}" and "out \<longleftrightarrow> {i} = {..<n}"
proof -
  have no: "\<not> chunk_mismatch q i (p_chunks q) (length pl)" using q by (auto simp: chunk_mismatch_def)
  have empty: "arrived_set q = {}" using q(1,2) by (simp add: entry_wf_def)
  have nh: "\<not> p_handed q" using q(1,2) by (auto simp: entry_wf_def)
  obtain err out q' where r: "accept_into q i pl = Some (err, out, q')" "slot_wf q'" "same_message q q'" "p_live q'"
      "arrived_set q' = (if err = FZN_REASM_OK then insert i (arrived_set q) else arrived_set q)"
      "out \<longleftrightarrow> err = FZN_REASM_OK \<and> arrived_set q' = {..<p_chunks q} \<and> \<not> p_handed q"
      "p_arrived q = 0 \<Longrightarrow> err = FZN_REASM_OK"
    by (rule accept_into_safe [OF q(1) _ no]) (use q in \<open>auto simp: Suc_le_eq\<close>)
  have err: "err = FZN_REASM_OK" using r(7) q(2) by simp
  have "table_wf (set_slot t k q')"
    using r(3) q none quota by (intro set_slot_new [OF t k(1) r(2) k(2)]) (auto simp: same_message_def)
  moreover have "slots (set_slot t k q) ! k = q" using k slots_set_slot [OF t] by simp
  ultimately show thesis
    using r err empty nh q(5) by (intro that [of out q']) (simp_all add: finish_accept_def)
qed

text \<open>
  Accepting any chunk stays in bounds, keeps the table well formed, and leaves every other message
  that has not expired exactly as it was.
\<close>

lemma accept_table:
  assumes t: "table_wf t"
  obtains err out t' where "fzn_reasm_accept (Some t) (Some s) m i n (Some pl) x now = Some (err, out, Some t')"
    and "table_wf t'" and "length (slots t') = length (slots t)" and "t_max_hold t' = t_max_hold t"
    and "t_per_sender_max t' = t_per_sender_max t"
    and "\<And>j. j < length (slots t) \<Longrightarrow> p_live (slots t ! j) \<Longrightarrow> \<not> holds s m (slots t ! j) \<Longrightarrow>
      p_handed (slots t ! j) \<or> now < p_expires_at (slots t ! j) \<Longrightarrow> slots t' ! j = slots t ! j"
proof -
  let ?t = "sweep t now"
  note wf = sweep_wf [OF t, of now]
  have len: "length (slots ?t) = length (slots t)" by (simp add: slots_sweep [OF t])
  note keep = sweep_keeps [OF t, of _ now]
  consider (expired) "x \<noteq> 0" "x \<le> now" | (new) "\<not> (x \<noteq> 0 \<and> x \<le> now)" "find_slot ?t s m = None"
    | (old) j where "\<not> (x \<noteq> 0 \<and> x \<le> now)" "find_slot ?t s m = Some j" by (cases "find_slot ?t s m") auto
  then show thesis
  proof cases
    case expired
    then show thesis using wf len keep by (intro that [of FZN_REASM_ERR_EXPIRED None ?t])
        (auto simp: accept_unfold [OF t])
  next
    case new
    show thesis
    proof (cases rule: admit_first_cases [OF wf new(2), of i n "length pl" "deadline_of t x now",
        case_names refused claimed])
      case (refused err t')
      then show thesis using new len keep by (intro that [of err None t']) (auto simp: accept_unfold [OF t])
    next
      case (claimed k q)
      obtain out q' where r: "finish_accept (set_slot ?t k q) k i pl =
          Some (FZN_REASM_OK, if out then Some k else None, Some (set_slot ?t k q'))"
          "table_wf (set_slot ?t k q')"
        by (rule finish_claimed [OF wf claimed(2-8,10,12-14) new(2) claimed(15)])
      show thesis
      proof (rule that)
        show "fzn_reasm_accept (Some t) (Some s) m i n (Some pl) x now =
            Some (FZN_REASM_OK, if out then Some k else None, Some (set_slot ?t k q'))"
          using new r(1) claimed(1) by (auto simp: accept_unfold [OF t])
        show "slots (set_slot ?t k q') ! j = slots t ! j" if "j < length (slots t)" "p_live (slots t ! j)"
          "p_handed (slots t ! j) \<or> now < p_expires_at (slots t ! j)" for j
          using that keep [of j] claimed(3) by (cases "j = k") (auto simp: slots_set_slot [OF wf])
      qed (use r len in \<open>auto simp: slots_set_slot [OF wf]\<close>)
    qed
  next
    case (old j)
    have j: "j < length (slots ?t)" "p_live (slots ?t ! j)" "holds s m (slots ?t ! j)"
      using find_slot_Some [OF old(2)] by (auto simp: holds_def)
    show thesis
    proof (cases "chunk_mismatch (slots ?t ! j) i n (length pl)")
      case True
      then show thesis using old wf len keep by (intro that [of FZN_REASM_ERR_MISMATCH None ?t])
          (auto simp: accept_unfold [OF t])
    next
      case False
      obtain err out q where r: "finish_accept ?t j i pl = Some (err, if out then Some j else None, Some (set_slot ?t j q))"
          "table_wf (set_slot ?t j q)"
        by (rule finish_known [OF wf j(1,2) False])
      show thesis
      proof (rule that)
        show "fzn_reasm_accept (Some t) (Some s) m i n (Some pl) x now =
            Some (err, if out then Some j else None, Some (set_slot ?t j q))"
          using old r(1) False by (auto simp: accept_unfold [OF t])
        show "slots (set_slot ?t j q) ! l = slots t ! l" if "l < length (slots t)" "\<not> holds s m (slots t ! l)"
          "p_handed (slots t ! l) \<or> now < p_expires_at (slots t ! l)" for l
          using that keep [of l] j(3) by (cases "l = j") (auto simp: slots_set_slot [OF wf])
      qed (use r len in \<open>auto simp: slots_set_slot [OF wf]\<close>)
    qed
  qed
qed

section \<open>The machine a receiver drives\<close>

datatype reasm_event =
    Chunk bytes u32 nat nat bytes u64 u64
  | Forget bytes u32
  | Expire u64
  | Release nat

fun reasm_step :: "fzn_reasm \<Rightarrow> reasm_event \<Rightarrow> (fzn_reasm_err \<times> nat option) option \<times> fzn_reasm" where
  "reasm_step t (Chunk s m i n pl x now) =
     (case fzn_reasm_accept (Some t) (Some s) m i n (Some pl) x now of
        None \<Rightarrow> (None, t)
      | Some (err, out, t') \<Rightarrow> (Some (err, out), the t'))"
| "reasm_step t (Forget s m) = (Some (FZN_REASM_OK, None), the (snd (fzn_reasm_forget (Some t) (Some s) m)))"
| "reasm_step t (Expire now) = (Some (FZN_REASM_OK, None), the (snd (fzn_reasm_expire (Some t) now)))"
| "reasm_step t (Release j) = (Some (FZN_REASM_OK, None),
     if j < length (slots t) then set_slot t j (fzn_reasm_release (slots t ! j)) else t)"

lemma forget_release:
  "table_wf t \<Longrightarrow> snd (fzn_reasm_forget (Some t) (Some s) m) =
     Some (snd (release_where (\<lambda>p. holds s m p \<and> \<not> p_handed p) t))"
  using table_partials [of t] by (simp add: fzn_reasm_forget_def)

lemma reasm_step_wf:
  assumes t: "table_wf t"
  shows "table_wf (snd (reasm_step t e)) \<and> fst (reasm_step t e) \<noteq> None"
proof (cases e)
  case (Chunk s m i n pl x now)
  then show ?thesis by (rule_tac accept_table [OF t, of s m i n pl x now]) auto
next
  case (Forget s m)
  then show ?thesis using release_where_wf [OF t] by (simp add: forget_release [OF t])
next
  case (Expire now)
  then show ?thesis using sweep_wf [OF t] by (simp add: expire_sweep [OF t])
next
  case (Release j)
  have "table_wf (set_slot t j (fzn_reasm_release (slots t ! j)))" if "j < length (slots t)"
  proof (rule set_slot_same [OF t that])
    show "slot_wf (fzn_reasm_release (slots t ! j))"
      using t that by (intro slot_wf_release) (simp add: table_wf_def)
  qed (auto simp: fzn_reasm_release_def zero_slot_def)
  then show ?thesis using Release t by simp
qed

interpretation reasm: invariant_machine reasm_step table_wf
  by unfold_locales (simp add: reasm_step_wf)

text \<open>Events that belong to one message, and events that do not concern it.\<close>

fun own_event :: "bytes \<Rightarrow> u32 \<Rightarrow> nat \<Rightarrow> (nat \<Rightarrow> bytes) \<Rightarrow> u64 \<Rightarrow> reasm_event \<Rightarrow> bool" where
  "own_event s m n pc D (Chunk s' m' i n' pl x now) \<longleftrightarrow>
     s' = s \<and> m' = m \<and> n' = n \<and> i < n \<and> pl = pc i \<and> now < D \<and> (x = 0 \<or> now < x)"
| "own_event s m n pc D _ \<longleftrightarrow> False"

fun other_event :: "bytes \<Rightarrow> u32 \<Rightarrow> u64 \<Rightarrow> nat \<Rightarrow> reasm_event \<Rightarrow> bool" where
  "other_event s m D k (Chunk s' m' i n pl x now) \<longleftrightarrow> (s', m') \<noteq> (s, m) \<and> now < D"
| "other_event s m D k (Forget s' m') \<longleftrightarrow> (s', m') \<noteq> (s, m)"
| "other_event s m D k (Expire now) \<longleftrightarrow> now < D"
| "other_event s m D k (Release j) \<longleftrightarrow> j \<noteq> k"

fun event_index :: "reasm_event \<Rightarrow> nat" where
  "event_index (Chunk s m i n pl x now) = i"
| "event_index _ = 0"

definition own_indices :: "bytes \<Rightarrow> u32 \<Rightarrow> nat \<Rightarrow> (nat \<Rightarrow> bytes) \<Rightarrow> u64 \<Rightarrow> reasm_event list \<Rightarrow> nat set" where
  "own_indices s m n pc D es = event_index ` {e \<in> set es. own_event s m n pc D e}"

definition tracked :: "bytes \<Rightarrow> u32 \<Rightarrow> nat \<Rightarrow> nat \<Rightarrow> (nat \<Rightarrow> bytes) \<Rightarrow> u64 \<Rightarrow> nat \<Rightarrow> nat set \<Rightarrow> fzn_reasm \<Rightarrow> bool" where
  "tracked s m n c pc D k A t \<longleftrightarrow> table_wf t \<and> k < length (slots t) \<and> holds s m (slots t ! k) \<and>
     p_expires_at (slots t ! k) = D \<and> p_chunks (slots t ! k) = n \<and> content c pc (slots t ! k) \<and>
     arrived_set (slots t ! k) = A \<and> c \<le> p_buf_capacity (slots t ! k) div n"

lemma tracked_other:
  assumes tr: "tracked s m n c pc D k A t" and e: "other_event s m D k e"
  shows "tracked s m n c pc D k A (snd (reasm_step t e))"
proof -
  have t: "table_wf t" and k: "k < length (slots t)" "holds s m (slots t ! k)" "p_expires_at (slots t ! k) = D"
    using tr by (auto simp: tracked_def)
  have "slots (snd (reasm_step t e)) ! k = slots t ! k \<and> length (slots (snd (reasm_step t e))) = length (slots t)"
  proof (cases e)
    case (Chunk s' m' i n' pl x now)
    obtain err out t' where r: "fzn_reasm_accept (Some t) (Some s') m' i n' (Some pl) x now = Some (err, out, Some t')"
      "table_wf t'" "length (slots t') = length (slots t)" "t_max_hold t' = t_max_hold t"
      "\<And>j. j < length (slots t) \<Longrightarrow> p_live (slots t ! j) \<Longrightarrow> \<not> holds s' m' (slots t ! j) \<Longrightarrow>
        p_handed (slots t ! j) \<or> now < p_expires_at (slots t ! j) \<Longrightarrow> slots t' ! j = slots t ! j"
      by (rule accept_table [OF t, of s' m' i n' pl x now]) blast
    then show ?thesis using Chunk e k r(5) [of k] by (auto simp: holds_def)
  next
    case (Forget s' m')
    then show ?thesis
      using e k release_where_wf(1) [OF t] by (auto simp: forget_release [OF t] holds_def)
  next
    case (Expire now)
    then show ?thesis
      using e k sweep_keeps [OF t k(1), of now] by (simp add: expire_sweep [OF t] slots_sweep [OF t])
  next
    case (Release j)
    then show ?thesis using e by (auto simp: slots_set_slot [OF t])
  qed
  then show ?thesis using tr reasm_step_wf [OF t, of e] by (simp add: tracked_def)
qed

lemma tracked_handed:
  assumes "tracked s m n c pc D k A t"
  shows "p_handed (slots t ! k) \<longleftrightarrow> A = {..<n}"
proof -
  have "entry_wf (slots t ! k)" using assms live_entry by (auto simp: tracked_def holds_def)
  then show ?thesis
    using assms arrived_all_iff [of "slots t ! k"] by (auto simp: tracked_def entry_wf_def)
qed

lemma tracked_own:
  assumes tr: "tracked s m n c pc D k A t" and pc: "pieces_wf n c pc" and e: "own_event s m n pc D e"
  shows "fst (reasm_step t e) = Some (FZN_REASM_OK,
      if insert (event_index e) A = {..<n} \<and> A \<noteq> {..<n} then Some k else None)"
    and "tracked s m n c pc D k (insert (event_index e) A) (snd (reasm_step t e))"
proof -
  have t: "table_wf t" and k: "k < length (slots t)" "holds s m (slots t ! k)" "p_expires_at (slots t ! k) = D"
      "p_chunks (slots t ! k) = n" "content c pc (slots t ! k)" "arrived_set (slots t ! k) = A"
      "c \<le> p_buf_capacity (slots t ! k) div n"
    using tr by (auto simp: tracked_def)
  obtain i x now where e': "e = Chunk s m i n (pc i) x now" "i < n" "now < D" "x = 0 \<or> now < x"
    using e by (cases e) auto
  let ?t = "sweep t now"
  note wf = sweep_wf [OF t, of now]
  have sk: "slots ?t ! k = slots t ! k" by (rule sweep_keeps [OF t k(1)]) (use k(3) e'(3) in simp)
  have len: "length (slots ?t) = length (slots t)" by (simp add: slots_sweep [OF t])
  have find: "find_slot ?t s m = Some k" by (rule find_slot_unique [OF wf]) (use k sk len in auto)
  have live: "p_live (slots ?t ! k)" using k(2) sk by (simp add: holds_def)
  note en = live_entry [OF t k(1)] k(2) [unfolded holds_def]
  have no: "\<not> chunk_mismatch (slots ?t ! k) i n (length (pc i))"
    using genuine_no_mismatch [OF k(5)] pc e'(2) k(4) sk by simp
  obtain err out q where r: "accept_into (slots ?t ! k) i (pc i) = Some (err, out, q)"
    "finish_accept ?t k i (pc i) = Some (err, if out then Some k else None, Some (set_slot ?t k q))"
    "table_wf (set_slot ?t k q)" "same_message (slots ?t ! k) q" "slot_wf q"
    "arrived_set q = (if err = FZN_REASM_OK then insert i (arrived_set (slots ?t ! k)) else arrived_set (slots ?t ! k))"
    "out \<longleftrightarrow> err = FZN_REASM_OK \<and> arrived_set q = {..<n} \<and> \<not> p_handed (slots ?t ! k)"
    by (rule finish_known [OF wf _ live no]) (use k len in auto)
  have "\<exists>out s'. accept_into (slots t ! k) i (pc i) = Some (FZN_REASM_OK, out, s') \<and> content c pc s'"
    using en k pc e'(2) by (intro accept_into_genuine) auto
  then have g: "err = FZN_REASM_OK" "content c pc q" using r(1) sk by auto
  have step: "reasm_step t e = (Some (FZN_REASM_OK, if out then Some k else None), set_slot ?t k q)"
    using e' find no r(2) g(1) by (auto simp: accept_unfold [OF t])
  have "out \<longleftrightarrow> insert i A = {..<n} \<and> A \<noteq> {..<n}"
    using r(6,7) g(1) sk k(6) tracked_handed [OF tr] by simp
  then show "fst (reasm_step t e) = Some (FZN_REASM_OK,
      if insert (event_index e) A = {..<n} \<and> A \<noteq> {..<n} then Some k else None)"
    using step e' by simp
  show "tracked s m n c pc D k (insert (event_index e) A) (snd (reasm_step t e))"
    using step e' r(3,4,6) g k sk len
    by (simp add: tracked_def slots_set_slot [OF wf] same_message_def holds_def)
qed

lemma other_not_own: "other_event s m D k e \<Longrightarrow> \<not> own_event s m n pc D e"
  by (cases e) auto

lemma own_indices_Cons [simp]:
  "own_indices s m n pc D (e # es) =
     (if own_event s m n pc D e then insert (event_index e) (own_indices s m n pc D es)
      else own_indices s m n pc D es)"
  by (auto simp: own_indices_def)

lemma own_indices_Nil [simp]: "own_indices s m n pc D [] = {}"
  by (simp add: own_indices_def)

lemma own_indices_bound: "own_indices s m n pc D es \<subseteq> {..<n}"
proof -
  have "own_event s m n pc D e \<Longrightarrow> event_index e < n" for e by (cases e) auto
  then show ?thesis by (auto simp: own_indices_def)
qed

lemma tracked_run:
  assumes "tracked s m n c pc D k A t" and "pieces_wf n c pc"
    and "\<forall>e \<in> set es. own_event s m n pc D e \<or> other_event s m D k e"
  shows "tracked s m n c pc D k (A \<union> own_indices s m n pc D es) (final reasm_step t es) \<and>
    (\<forall>x \<in> set (trace reasm_step t es). own_event s m n pc D (fst x) \<longrightarrow> (\<exists>out. snd x = Some (FZN_REASM_OK, out))) \<and>
    length (filter (\<lambda>x. own_event s m n pc D (fst x) \<and> snd x = Some (FZN_REASM_OK, Some k)) (trace reasm_step t es)) =
      (if A \<noteq> {..<n} \<and> A \<union> own_indices s m n pc D es = {..<n} then 1 else 0)"
  using assms(1,3)
proof (induction es arbitrary: A t)
  case Nil
  then show ?case by simp
next
  case (Cons e es)
  show ?case
  proof (cases "own_event s m n pc D e")
    case True
    let ?B = "insert (event_index e) A" and ?I = "own_indices s m n pc D es"
    note own = tracked_own [OF Cons.prems(1) assms(2) True]
    note IH = Cons.IH [OF own(2)]
    have "A \<subseteq> {..<n}"
      using Cons.prems(1) arrived_subset [of "slots t ! k"] by (auto simp: tracked_def)
    moreover have "event_index e < n"
      using own_indices_bound [of s m n pc D "[e]"] True by simp
    moreover note own_indices_bound [of s m n pc D es]
    ultimately have cnt: "(A \<noteq> {..<n} \<and> A \<union> insert (event_index e) ?I = {..<n}) \<longleftrightarrow>
        (?B = {..<n} \<and> A \<noteq> {..<n}) \<or> (?B \<noteq> {..<n} \<and> ?B \<union> ?I = {..<n})"
      by auto
    show ?thesis
    proof (intro conjI)
      show "tracked s m n c pc D k (A \<union> own_indices s m n pc D (e # es)) (final reasm_step t (e # es))"
        using IH Cons.prems(2) True by (simp add: split_beta)
      show "\<forall>x \<in> set (trace reasm_step t (e # es)). own_event s m n pc D (fst x) \<longrightarrow>
          (\<exists>out. snd x = Some (FZN_REASM_OK, out))"
        using IH Cons.prems(2) own(1) by (simp add: split_beta)
      show "length (filter (\<lambda>x. own_event s m n pc D (fst x) \<and> snd x = Some (FZN_REASM_OK, Some k))
            (trace reasm_step t (e # es))) =
          (if A \<noteq> {..<n} \<and> A \<union> own_indices s m n pc D (e # es) = {..<n} then 1 else 0)"
        using IH Cons.prems(2) True own(1) cnt
        by (cases "?B = {..<n}"; cases "A = {..<n}") (simp_all add: split_beta)
    qed
  next
    case False
    then have other: "other_event s m D k e" using Cons.prems(2) by simp
    show ?thesis
      using Cons.IH [OF tracked_other [OF Cons.prems(1) other]] Cons.prems(2) False by (auto simp: split_beta)
  qed
qed

lemma tracked_first:
  assumes t: "table_wf t" and none: "\<forall>j < length (slots t). \<not> holds s m (slots t ! j)"
    and pc: "pieces_wf n c pc" and c: "\<forall>q \<in> set (slots t). n * c \<le> p_buf_capacity q"
    and ok: "reasm_step t (Chunk s m i n (pc i) x now) = (Some (FZN_REASM_OK, out), t')" and i: "i < n"
  shows "\<exists>k < length (slots t). tracked s m n c pc (deadline_of t x now) k {i} t' \<and>
    out = (if {i} = {..<n} then Some k else None)"
proof -
  let ?t = "sweep t now"
  note wf = sweep_wf [OF t, of now]
  have len: "length (slots ?t) = length (slots t)" by (simp add: slots_sweep [OF t])
  have none': "find_slot ?t s m = None"
    unfolding find_slot_None using none by (auto simp: slots_sweep [OF t] holds_def fzn_reasm_release_def zero_slot_def)
  have cap: "n * c \<le> p_buf_capacity q" if "q \<in> set (slots ?t)" for q
    using that c by (auto simp: slots_sweep [OF t] fzn_reasm_release_def zero_slot_def)
  have fresh: "\<not> (x \<noteq> 0 \<and> x \<le> now)" using ok by (auto simp: accept_unfold [OF t])
  show ?thesis
  proof (cases rule: admit_first_cases [OF wf none', of i n "length (pc i)" "deadline_of t x now",
      case_names refused claimed])
    case (refused err t'')
    then show ?thesis using ok fresh none' by (auto simp: accept_unfold [OF t] split: if_splits)
  next
    case (claimed k q)
    obtain out' q' where r: "accept_into q i (pc i) = Some (FZN_REASM_OK, out', q')"
        "finish_accept (set_slot ?t k q) k i (pc i) =
          Some (FZN_REASM_OK, if out' then Some k else None, Some (set_slot ?t k q'))"
        "table_wf (set_slot ?t k q')" "same_message q q'" "slot_wf q'" "arrived_set q' = {i}" "out' \<longleftrightarrow> {i} = {..<n}"
      by (rule finish_claimed [OF wf claimed(2-8,10,12-14) none' claimed(15)])
    have res: "t' = set_slot ?t k q'" "out = (if {i} = {..<n} then Some k else None)"
      using ok fresh none' claimed(1) r(2,7) by (auto simp: accept_unfold [OF t] split: if_splits)
    have cq: "c \<le> p_buf_capacity q div n"
      using cap [of "slots ?t ! k"] claimed(2,16) pc by (simp add: pieces_wf_def less_eq_div_iff_mult_less_eq mult.commute)
    have "arrived_set q = {}" "p_bytes q = 0"
      using claimed(4,5) by (auto simp: entry_wf_def stride_wf_def split: if_splits)
    moreover have "p_chunk_size q = 0 \<or> p_chunk_size q = c"
      using claimed(14) pc i by (cases "i + 1 = n") (auto simp: pieces_wf_def)
    ultimately have "content c pc q" using claimed(11) by (auto simp: content_def)
    then have "\<exists>out s'. accept_into q i (pc i) = Some (FZN_REASM_OK, out, s') \<and> content c pc s'"
      using claimed(4,5,8,10,12,14) pc cq
      by (intro accept_into_genuine [of q c pc i]) (simp_all split: if_splits)
    then have "content c pc q'" using r(1) by simp
    then have "tracked s m n c pc (deadline_of t x now) k {i} t'"
      unfolding tracked_def res(1) slots_set_slot [OF wf] using r(3,4,6) claimed(2,4,6-9) cq
      by (simp add: same_message_def holds_def entry_wf_def)
    then show ?thesis using res(2) claimed(2) len by (intro exI [of _ k]) simp
  qed
qed

lemma plan_pieces:
  assumes "fzn_split_plan (of_nat (length data)) mp = (FZN_SPLIT_OK, Some p)" and "length data < 2 ^ 64"
  shows "pieces_wf (unat (sp_chunks p)) (unat (sp_chunk_size p)) (piece p data)"
    and "unat (sp_total p) = length data"
proof -
  note wf = split_plan_wf [OF assms(1)]
  have len: "unat (sp_total p) = length data"
    using wf(3) assms(2) by (simp add: unsigned_of_nat take_bit_nat_eq_self)
  then show "unat (sp_total p) = length data" .
  have pl: "length (piece p data i) = piece_len p i" if "i < unat (sp_chunks p)" for i
    using piece_inside(3) [OF wf(1) that] len by (simp add: piece_def)
  have n: "0 < unat (sp_chunks p)" "0 < unat (sp_chunk_size p)" "unat (sp_chunk_size p) \<le> unat (sp_total p)"
    using wf(1) by (auto simp: plan_wf_def)
  have "unat (sp_chunks p) = 1 \<Longrightarrow> piece_len p 0 = unat (sp_chunk_size p)"
    using piece_inside(2) [OF wf(1), of 0] n(3) by (simp add: piece_len_def piece_start_def)
  then show "pieces_wf (unat (sp_chunks p)) (unat (sp_chunk_size p)) (piece p data)"
    using n pl piece_inside [OF wf(1), of "unat (sp_chunks p) - 1"]
    by (simp add: pieces_wf_def) (auto simp: piece_len_def)
qed

lemma tracked_complete:
  assumes tr: "tracked s m (unat (sp_chunks p)) (unat (sp_chunk_size p)) (piece p data) D k {..<unat (sp_chunks p)} t"
    and p: "plan_wf p" and len: "unat (sp_total p) = length data"
  shows "p_bytes (slots t ! k) = length data \<and> take (length data) (the (p_buf (slots t ! k))) = data"
proof -
  let ?n = "unat (sp_chunks p)" and ?c = "unat (sp_chunk_size p)" and ?s = "slots t ! k"
  have arr: "arrived_set ?s = {..<?n}" and con: "content ?c (piece p data) ?s" and n: "p_chunks ?s = ?n"
    and cap: "?c \<le> p_buf_capacity ?s div ?n" and en: "entry_wf ?s"
    using tr live_entry by (auto simp: tracked_def holds_def)
  obtain b where b: "p_buf ?s = Some b" "length b = p_buf_capacity ?s" by (rule entry_buf [OF en])
  have n0: "0 < ?n" using p by (simp add: plan_wf_def)
  have nz: "p_chunk_size ?s \<noteq> 0"
  proof
    assume z: "p_chunk_size ?s = 0"
    have st: "stride_wf ?s" using en by (simp add: entry_wf_def)
    show False
    proof (cases "p_parked ?s = 0")
      case True
      then have "arrived_set ?s = {}" using st z by (simp add: stride_wf_def)
      then show False using arr n0 by (simp add: lessThan_empty_iff)
    next
      case False
      then have "1 < ?n" "arrived_set ?s = {?n - 1}" using st z n by (simp_all add: stride_wf_def)
      then have "card {..<?n} = 1" "1 < ?n" using arr by simp_all
      then show False by simp
    qed
  qed
  then have at: "\<forall>i < ?n. bytes_at (i * ?c) (length (piece p data i)) b = piece p data i"
    using con arr b(1) by (auto simp: content_def)
  have "length data \<le> ?n * ?c" using plan_last_start(2) [OF p] len by (simp add: piece_start_def)
  also have "\<dots> \<le> length b"
    using cap b(2) n0 by (simp add: less_eq_div_iff_mult_less_eq mult.commute)
  finally have le: "length data \<le> length b" .
  have "piece p (take (length data) b) i = piece p data i" if "i < ?n" for i
  proof -
    have "piece_start p i + piece_len p i \<le> length data" using piece_inside(3) [OF p that] len by simp
    then have "piece p (take (length data) b) i = bytes_at (piece_start p i) (piece_len p i) b"
        "length (piece p data i) = piece_len p i"
      by (simp_all add: piece_def) (simp add: bytes_at_def drop_take)
    then show ?thesis using at [rule_format, OF that] by (simp add: piece_start_def)
  qed
  then have "concat (map (piece p (take (length data) b)) [0..<?n]) = concat (map (piece p data) [0..<?n])"
    by (intro arg_cong [of _ _ concat] map_cong) auto
  then have eq: "take (length data) b = data"
    using pieces_concat [OF p, of "take (length data) b" ?n] pieces_concat [OF p, of data ?n] le len
      plan_last_start(2) [OF p] by (simp add: min_absorb2)
  have "p_bytes ?s = (\<Sum>i<?n. length (piece p data i))" using con arr by (simp add: content_def)
  also have "\<dots> = length (concat (map (piece p data) [0..<?n]))"
    by (simp add: length_concat sum_list_sum_nth atLeast0LessThan)
  also have "\<dots> = length data"
    using pieces_concat [OF p, of data ?n] len plan_last_start(2) [OF p] by (simp add: min_absorb2)
  finally show ?thesis using eq b(1) by simp
qed

section \<open>The ranges asked for\<close>

definition range_indices :: "fzn_reasm_range list \<Rightarrow> nat list" where
  "range_indices rs = concat (map (\<lambda>r. [rr_first r..<rr_first r + rr_count r]) rs)"

definition ranges_ok :: "nat \<Rightarrow> nat \<Rightarrow> fzn_reasm_range list \<Rightarrow> bool" where
  "ranges_ok cap limit rs \<longleftrightarrow> length rs \<le> cap \<and> (\<forall>r \<in> set rs. 0 < rr_count r \<and> rr_count r \<le> limit)"

lemma range_indices_snoc [simp]:
  "range_indices (rs @ [r]) = range_indices rs @ [rr_first r..<rr_first r + rr_count r]"
  by (simp add: range_indices_def)

lemma emit_run_spec:
  assumes "emit_run cap limit out first gap = (ok, out', first', gap')" and "0 < limit" and "ranges_ok cap limit out"
  shows "range_indices out' @ [first'..<first' + gap'] = range_indices out @ [first..<first + gap] \<and>
    ranges_ok cap limit out' \<and> first' + gap' = first + gap \<and> (if ok then gap' = 0 else length out' = cap \<and> gap' \<noteq> 0)"
  using assms
proof (induction cap limit out first gap rule: emit_run.induct)
  case (1 cap limit out first gap)
  consider "gap = 0" | "gap \<noteq> 0" "cap \<le> length out" | "gap \<noteq> 0" "\<not> cap \<le> length out" by blast
  then show ?case
  proof cases
    case 3
    let ?n = "if gap < limit then gap else limit"
    let ?out = "out @ [\<lparr>rr_first = first, rr_count = ?n\<rparr>]"
    have n: "0 < ?n" "?n \<le> limit" "?n \<le> gap" using 3 1(3) by auto
    have step: "emit_run cap limit ?out (first + ?n) (gap - ?n) = (ok, out', first', gap')"
      using 1(2) 3 by (subst (asm) emit_run.simps) (simp add: Let_def)
    have "ranges_ok cap limit ?out" using 1(4) 3 n by (auto simp: ranges_ok_def)
    from 1(1) [OF 3 refl step 1(3) this]
    have IH: "range_indices out' @ [first'..<first' + gap'] =
        range_indices ?out @ [first + ?n..<first + ?n + (gap - ?n)]" "ranges_ok cap limit out'"
        "first' + gap' = first + ?n + (gap - ?n)" "if ok then gap' = 0 else length out' = cap \<and> gap' \<noteq> 0"
      by auto
    have "[first..<first + ?n] @ [first + ?n..<first + ?n + (gap - ?n)] = [first..<first + ?n + (gap - ?n)]"
      by (rule upt_add_eq_append [symmetric]) simp
    moreover have "first + ?n + (gap - ?n) = first + gap" using n by simp
    ultimately show ?thesis using IH unfolding range_indices_snoc append_assoc by simp
  next
    case 1
    then have "(ok, out', first', gap') = (True, out, first, gap)"
      using "1.prems"(1) by (subst (asm) emit_run.simps) simp
    then show ?thesis using \<open>gap = 0\<close> "1.prems"(3) by simp
  next
    case 2
    then have "(ok, out', first', gap') = (False, out, first, gap)"
      using "1.prems"(1) by (subst (asm) emit_run.simps) simp
    then show ?thesis using 2 "1.prems"(3) by (simp add: ranges_ok_def)
  qed
qed

lemma want_loop_spec:
  assumes "want_loop slot cap limit [a..<b] out first gap = (out', first', gap')" and "0 < limit"
    and "ranges_ok cap limit out" and "gap \<noteq> 0 \<longrightarrow> first + gap = a" and "a \<le> b"
  shows "\<exists>rest. range_indices out' @ [first'..<first' + gap'] @ rest =
      range_indices out @ [first..<first + gap] @ filter (\<lambda>i. \<not> seen_get slot i) [a..<b] \<and>
    ranges_ok cap limit out' \<and> (rest \<noteq> [] \<longrightarrow> length out' = cap)"
  using assms
proof (induction "b - a" arbitrary: a out first gap)
  case 0
  then show ?case by auto
next
  case (Suc d)
  then have ab: "[a..<b] = a # [Suc a..<b]" "Suc a \<le> b" "d = b - Suc a" by (auto simp: upt_conv_Cons)
  show ?case
  proof (cases "seen_get slot a")
    case False
    let ?first = "if gap = 0 then a else first"
    have "want_loop slot cap limit [Suc a..<b] out ?first (Suc gap) = (out', first', gap')"
      using Suc.prems(1) False by (simp add: ab)
    from Suc.hyps(1) [OF ab(3) this Suc.prems(2,3)] show ?thesis
      using Suc.prems(4) ab False by (auto split: if_splits)
  next
    case True
    obtain ok out1 first1 gap1 where e: "emit_run cap limit out first gap = (ok, out1, first1, gap1)"
      by (metis prod_cases4)
    note spec = emit_run_spec [OF e Suc.prems(2,3)]
    show ?thesis
    proof (cases ok)
      case True
      have "want_loop slot cap limit [Suc a..<b] out1 first1 gap1 = (out', first', gap')"
        using Suc.prems(1) e True \<open>seen_get slot a\<close> by (simp add: ab)
      moreover have "range_indices out1 = range_indices out @ [first..<first + gap]" using spec True by auto
      ultimately show ?thesis
        using Suc.hyps(1) [OF ab(3), of out1 first1 gap1] Suc.prems(2) spec True ab \<open>seen_get slot a\<close> by simp
    next
      case False
      then have eqs: "out' = out1" "first' = first1" "gap' = gap1"
        using Suc.prems(1) e \<open>seen_get slot a\<close> by (simp_all add: ab)
      let ?F = "filter (\<lambda>i. \<not> seen_get slot i) [a..<b]"
      show ?thesis unfolding eqs
      proof (intro exI [of _ ?F] conjI impI)
        show "range_indices out1 @ [first1..<first1 + gap1] @ ?F =
            range_indices out @ [first..<first + gap] @ ?F"
          using spec append_assoc by metis
      qed (use spec False in simp_all)
    qed
  qed
qed

lemma step_keeps_shape:
  assumes t: "table_wf t"
  shows "t_per_sender_max (snd (reasm_step t e)) = t_per_sender_max t"
    and "length (slots (snd (reasm_step t e))) = length (slots t)"
proof -
  have "t_per_sender_max (snd (reasm_step t e)) = t_per_sender_max t \<and>
      length (slots (snd (reasm_step t e))) = length (slots t)"
  proof (cases e)
    case (Chunk s m i n pl x now)
    then show ?thesis by (rule_tac accept_table [OF t, of s m i n pl x now]) simp
  next
    case (Forget s m)
    then show ?thesis using release_where_wf(1) [OF t]
      by (simp add: forget_release [OF t]) (simp add: release_where_def Let_def)
  next
    case (Expire now)
    then show ?thesis by (simp add: expire_sweep [OF t] slots_sweep [OF t])
  next
    case (Release j)
    then show ?thesis by (simp add: slots_set_slot [OF t])
  qed
  then show "t_per_sender_max (snd (reasm_step t e)) = t_per_sender_max t"
    and "length (slots (snd (reasm_step t e))) = length (slots t)" by auto
qed

lemma entry_bounds:
  assumes "entry_wf q"
  shows "p_bytes q \<le> p_buf_capacity q \<and> length (the (p_buf q)) = p_buf_capacity q \<and>
    p_arrived q = card {i. i < p_chunks q \<and> seen_get q i} \<and> p_arrived q \<le> p_chunks q \<and> p_chunks q \<le> 256"
proof -
  have arr: "p_arrived q = card (arrived_set q)" "p_chunks q \<le> 256" "stride_wf q"
      "length (the (p_buf q)) = p_buf_capacity q"
    using assms by (auto simp: entry_wf_def buf_wf_def)
  have le: "p_arrived q \<le> p_chunks q" using arr(1) card_arrived_le by simp
  have "p_bytes q \<le> p_buf_capacity q"
  proof (cases "p_chunk_size q = 0")
    case True
    then show ?thesis
      using arr(3) entry_parked_le(2) [OF assms True] by (cases "p_parked q = 0") (simp_all add: stride_wf_def)
  next
    case False
    then have "p_bytes q \<le> p_arrived q * p_chunk_size q" "p_chunk_size q \<le> p_buf_capacity q div p_chunks q"
      using arr(3) by (simp_all add: stride_wf_def)
    then have "p_bytes q \<le> p_chunks q * (p_buf_capacity q div p_chunks q)"
      using mult_le_mono [OF le] by (meson order_trans)
    then show ?thesis using times_div_less_eq_dividend order_trans by blast
  qed
  then show ?thesis using arr le by (simp add: arrived_set_def)
qed

section \<open>Properties\<close>

text \<open>
  C3. A message cut by \<open>fzn_split_plan\<close> is put together again. Once one of its chunks was accepted
  into a well-formed table, its chunks may arrive in any order, any number of times, interleaved
  with any traffic of other messages, sweeps and releases, until the deadline fixed at its first
  chunk: every one of them is accepted, and as soon as each index has arrived the message was
  handed out exactly once and its slot holds exactly the bytes that were sent, also when the short
  last chunk came first and had to be parked.
\<close>

theorem message_delivered:
  assumes "fzn_split_plan (of_nat (length data)) mp = (FZN_SPLIT_OK, Some p)" and "length data < 2 ^ 64"
    and "table_wf t" and "\<forall>j < length (slots t). \<not> holds s m (slots t ! j)"
    and "\<forall>q \<in> set (slots t). unat (sp_buffer_needed p) \<le> p_buf_capacity q"
    and "i < unat (sp_chunks p)"
    and "reasm_step t (Chunk s m i (unat (sp_chunks p)) (piece p data i) x now) = (Some (FZN_REASM_OK, out), t1)"
  shows "\<exists>k < length (slots t). \<forall>es.
    (\<forall>e \<in> set es. own_event s m (unat (sp_chunks p)) (piece p data) (deadline_of t x now) e \<or>
       other_event s m (deadline_of t x now) k e) \<longrightarrow>
    (\<forall>r \<in> set (trace reasm_step t1 es).
       own_event s m (unat (sp_chunks p)) (piece p data) (deadline_of t x now) (fst r) \<longrightarrow>
       (\<exists>h. snd r = Some (FZN_REASM_OK, h))) \<and>
    (insert i (own_indices s m (unat (sp_chunks p)) (piece p data) (deadline_of t x now) es) = {..<unat (sp_chunks p)} \<longrightarrow>
       (if out = Some k then 1 else 0) + length (filter (\<lambda>r. own_event s m (unat (sp_chunks p)) (piece p data)
           (deadline_of t x now) (fst r) \<and> snd r = Some (FZN_REASM_OK, Some k)) (trace reasm_step t1 es)) = 1 \<and>
       p_bytes (slots (final reasm_step t1 es) ! k) = length data \<and>
       take (length data) (the (p_buf (slots (final reasm_step t1 es) ! k))) = data)"
proof -
  let ?n = "unat (sp_chunks p)" and ?c = "unat (sp_chunk_size p)" and ?D = "deadline_of t x now"
  note wf = split_plan_wf [OF assms(1)] and pp = plan_pieces [OF assms(1,2)]
  have "\<forall>q \<in> set (slots t). ?n * ?c \<le> p_buf_capacity q" using assms(5) wf(6) by simp
  from tracked_first [OF assms(3,4) pp(1) this assms(7,6)] obtain k where k: "k < length (slots t)"
    and tr: "tracked s m ?n ?c (piece p data) ?D k {i} t1" and out: "out = (if {i} = {..<?n} then Some k else None)"
    by blast
  show ?thesis
  proof (intro exI [of _ k] conjI k allI impI)
    fix es assume es: "\<forall>e \<in> set es. own_event s m ?n (piece p data) ?D e \<or> other_event s m ?D k e"
    note run = tracked_run [OF tr pp(1) es]
    show "\<forall>r \<in> set (trace reasm_step t1 es). own_event s m ?n (piece p data) ?D (fst r) \<longrightarrow>
       (\<exists>h. snd r = Some (FZN_REASM_OK, h))" using run by blast
    assume full: "insert i (own_indices s m ?n (piece p data) ?D es) = {..<?n}"
    show "(if out = Some k then 1 else 0) + length (filter (\<lambda>r. own_event s m ?n (piece p data)
           ?D (fst r) \<and> snd r = Some (FZN_REASM_OK, Some k)) (trace reasm_step t1 es)) = 1"
      using run full out by simp
    have "tracked s m ?n ?c (piece p data) ?D k {..<?n} (final reasm_step t1 es)" using run full by simp
    from tracked_complete [OF this wf(1) pp(2)]
    show "p_bytes (slots (final reasm_step t1 es) ! k) = length data"
      "take (length data) (the (p_buf (slots (final reasm_step t1 es) ! k))) = data" by auto
  qed
qed

lemmas reasm_model_defs = fzn_reasm_accept_def fzn_reasm_expire_def release_where_def slots_def
  zero_slot_def find_slot_def holds_def admit_first_def held_by_def set_slot_def accept_into_def
  minus_size_def buf_write_def buf_read_def count_chunk_def seen_set_def put_at_def deadline_of_def
  hold_until_def Let_def

definition demo_table :: fzn_reasm where
  "demo_table = \<lparr>t_partials = Some [zero_slot (Some [0, 0, 0, 0]) 4], t_capacity = 1,
     t_per_sender_max = 1, t_max_hold = 100\<rparr>"

definition demo_plan :: fzn_split where
  "demo_plan = \<lparr>sp_total = 3, sp_chunk_size = 2, sp_chunks = 2, sp_buffer_needed = 4\<rparr>"

lemma demo_table_wf: "table_wf demo_table"
proof (rule fresh_table_wf)
  show "\<forall>q \<in> set [zero_slot (Some [0, 0, 0, 0]) 4]. \<not> p_live q \<and> slot_wf q"
    using slot_wf_zero [of "[0, 0, 0, 0]" 4] by simp (simp add: zero_slot_def)
qed (simp_all add: demo_table_def)

lemma demo_plan_made: "fzn_split_plan (of_nat (length [1, 2, 3 :: u8])) 2 = (FZN_SPLIT_OK, Some demo_plan)"
  by code_simp

lemma sp_buffer_needed_demo: "sp_buffer_needed demo_plan = 4" "sp_chunks demo_plan = 2"
  by (simp_all add: demo_plan_def)

lemma demo_pieces: "piece demo_plan [1, 2, 3 :: u8] 0 = [1, 2]" "piece demo_plan [1, 2, 3 :: u8] 1 = [3]"
  by code_simp+

theorem message_delivered_witness:
  "\<exists>t1. reasm_step demo_table (Chunk [9] 7 1 2 [3] 0 10) = (Some (FZN_REASM_OK, None), t1) \<and>
     take 3 (the (p_buf (slots (final reasm_step t1 [Chunk [9] 7 0 2 [1, 2] 0 11]) ! 0))) = [1, 2, 3 :: u8]"
proof -
  let ?t1 = "snd (reasm_step demo_table (Chunk [9] 7 1 2 [3] 0 10))"
  have "fst (reasm_step demo_table (Chunk [9] 7 1 2 [3] 0 10)) = Some (FZN_REASM_OK, None)"
    by (simp add: reasm_model_defs demo_table_def)
  then have first: "reasm_step demo_table (Chunk [9] 7 1 2 [3] 0 10) = (Some (FZN_REASM_OK, None), ?t1)"
    by (metis prod.collapse)
  have D: "deadline_of demo_table 0 10 = 110" by (simp add: deadline_of_def hold_until_def demo_table_def)
  have slots: "slots demo_table = [zero_slot (Some [0, 0, 0, 0]) 4]" by (simp add: slots_def demo_table_def)
  have n: "unat (sp_chunks demo_plan) = 2" by (simp add: demo_plan_def)
  have "{..<2} = {1, 0 :: nat}" by auto
  then have own: "own_event [9] 7 2 (piece demo_plan [1, 2, 3]) 110 (Chunk [9] 7 0 2 [1, 2] 0 11)"
    "insert 1 (own_indices [9] 7 2 (piece demo_plan [1, 2, 3]) 110 [Chunk [9] 7 0 2 [1, 2] 0 11]) = {..<2}"
    by (simp_all add: demo_pieces)
  have pre: "length [1, 2, 3 :: u8] < 2 ^ 64" "\<forall>j < length (slots demo_table). \<not> holds [9] 7 (slots demo_table ! j)"
      "\<forall>q \<in> set (slots demo_table). unat (sp_buffer_needed demo_plan) \<le> p_buf_capacity q"
      "1 < unat (sp_chunks demo_plan)"
      "reasm_step demo_table (Chunk [9] 7 1 (unat (sp_chunks demo_plan)) (piece demo_plan [1, 2, 3] 1) 0 10)
        = (Some (FZN_REASM_OK, None), ?t1)"
    using first unfolding n demo_pieces by (simp_all add: slots holds_def zero_slot_def demo_plan_def del: reasm_step.simps)
  obtain k where k: "k < length (slots demo_table)" and all: "\<And>es.
      \<forall>e \<in> set es. own_event [9] 7 2 (piece demo_plan [1, 2, 3]) 110 e \<or> other_event [9] 7 110 k e \<Longrightarrow>
      insert 1 (own_indices [9] 7 2 (piece demo_plan [1, 2, 3]) 110 es) = {..<2} \<Longrightarrow>
      take (length [1, 2, 3 :: u8]) (the (p_buf (slots (final reasm_step ?t1 es) ! k))) = [1, 2, 3]"
    using message_delivered [OF demo_plan_made pre(1) demo_table_wf pre(2-5), unfolded n D] by blast
  have "k = 0" using k by (simp add: slots)
  with all [of "[Chunk [9] 7 0 2 [1, 2] 0 11]"] own(1) own(2)
  have "take 3 (the (p_buf (slots (final reasm_step ?t1 [Chunk [9] 7 0 2 [1, 2] 0 11]) ! 0))) = [1, 2, 3 :: u8]"
    by (simp add: numeral_3_eq_3 del: own_indices_Cons own_event.simps other_event.simps reasm_step.simps run.simps)
  with first show ?thesis by blast
qed

text \<open>
  C6. The table never touches memory outside its buffers and never breaks its own bookkeeping,
  whatever a peer sends: from a freshly initialised table, over every sequence of chunks, sweeps,
  cancellations and releases, no access leaves a buffer, no sender ever holds more slots than its
  quota, no two slots hold one message, and every live slot has at most the bytes its buffer takes
  and counts exactly the indices that arrived.
\<close>

theorem reassembly_stays_in_bounds:
  assumes "fzn_reasm_init (Some (map (\<lambda>b. zero_slot (Some b) (length b)) bufs)) (length bufs) quota hold =
      (FZN_REASM_OK, Some t)"
    and "\<forall>b \<in> set bufs. length b < 2 ^ 64"
  shows "(\<forall>r \<in> set (trace reasm_step t es). snd r \<noteq> None) \<and>
    (\<forall>sender. fzn_reasm_held_by (Some (final reasm_step t es)) (Some sender) \<le> quota) \<and>
    (\<forall>i j. i < j \<and> j < length bufs \<and> p_live (slots (final reasm_step t es) ! i) \<longrightarrow>
      \<not> holds (p_sender (slots (final reasm_step t es) ! i)) (p_msg (slots (final reasm_step t es) ! i))
          (slots (final reasm_step t es) ! j)) \<and>
    (\<forall>q \<in> set (slots (final reasm_step t es)). p_live q \<longrightarrow>
      p_bytes q \<le> p_buf_capacity q \<and> length (the (p_buf q)) = p_buf_capacity q \<and>
      p_arrived q = card {i. i < p_chunks q \<and> seen_get q i} \<and> p_arrived q \<le> p_chunks q \<and>
      p_chunks q \<le> FZN_REASM_MAX_CHUNKS)"
proof -
  have nonempty: "\<forall>b \<in> set bufs. b \<noteq> []" and t: "t_partials t = Some (map (\<lambda>b. zero_slot (Some b) (length b)) bufs)"
      "t_capacity t = length bufs" "t_per_sender_max t = quota"
    using assms(1) by (auto simp: fzn_reasm_init_def zero_slot_def list_ex_iff in_set_conv_nth split: if_splits)
  have wf: "table_wf t"
    by (rule fresh_table_wf [OF t(1)])
      (use t nonempty assms(2) in \<open>auto simp: slot_wf_zero\<close>, simp add: zero_slot_def)
  let ?t = "final reasm_step t es"
  note wf' = reasm.run_invar [OF wf, of es]
  have same: "t_per_sender_max ?t = quota \<and> length (slots ?t) = length bufs"
    by (rule reasm.run_stable [where P = "\<lambda>u. t_per_sender_max u = quota \<and> length (slots u) = length bufs"])
      (use wf t in \<open>simp_all add: step_keeps_shape, simp add: slots_def\<close>)
  have live: "p_bytes q \<le> p_buf_capacity q \<and> length (the (p_buf q)) = p_buf_capacity q \<and>
      p_arrived q = card {i. i < p_chunks q \<and> seen_get q i} \<and> p_arrived q \<le> p_chunks q \<and> p_chunks q \<le> 256"
    if "q \<in> set (slots ?t)" "p_live q" for q
    using wf' that entry_bounds [of q] by (auto simp: table_wf_def slot_wf_def)
  have no_fault: "\<forall>r \<in> set (trace reasm_step t es). snd r \<noteq> None"
  proof
    fix r assume "r \<in> set (trace reasm_step t es)"
    then obtain i where "i < length (trace reasm_step t es)" "r = trace reasm_step t es ! i"
      by (auto simp: in_set_conv_nth)
    moreover have "length (trace reasm_step t es) = length es" by (metis length_map map_fst_trace)
    ultimately show "snd r \<noteq> None"
      using reasm_step_wf [OF reasm.run_invar [OF wf, of "take i es"], of "es ! i"] by (simp add: trace_nth)
  qed
  have quota: "fzn_reasm_held_by (Some ?t) (Some sender) \<le> quota" for sender
    using wf' same table_partials [OF wf'] by (simp add: fzn_reasm_held_by_def held_by_card table_wf_def)
  have unique: "\<not> holds (p_sender (slots ?t ! i)) (p_msg (slots ?t ! i)) (slots ?t ! j)"
    if "i < j" "j < length bufs" "p_live (slots ?t ! i)" for i j
  proof
    assume h: "holds (p_sender (slots ?t ! i)) (p_msg (slots ?t ! i)) (slots ?t ! j)"
    have "\<forall>i j. i < length (slots ?t) \<longrightarrow> j < length (slots ?t) \<longrightarrow> p_live (slots ?t ! i) \<longrightarrow>
        holds (p_sender (slots ?t ! i)) (p_msg (slots ?t ! i)) (slots ?t ! j) \<longrightarrow> i = j"
      using wf' unfolding table_wf_def by (elim conjE)
    moreover have "i < length (slots ?t)" "j < length (slots ?t)" using that(1,2) same by linarith+
    ultimately have "i = j" using that(3) h by blast
    then show False using that(1) by simp
  qed
  show ?thesis
    by (intro conjI allI ballI impI) (use no_fault quota unique live in \<open>blast+\<close>)
qed

theorem reassembly_stays_in_bounds_witness:
  "fst (fzn_reasm_init (Some [zero_slot (Some [0, 0, 0, 0]) 4]) 1 1 100) = FZN_REASM_OK \<and>
   fzn_reasm_held_by (Some (final reasm_step demo_table
     [Chunk [9] 7 1 2 [3] 0 10, Chunk [9] 8 0 1 [1] 0 10, Release 0])) (Some [9]) \<le> 1"
proof -
  have "fzn_reasm_init (Some (map (\<lambda>b. zero_slot (Some b) (length b)) [[0, 0, 0, 0]])) (length [[0, 0, 0, 0 :: u8]]) 1 100
      = (FZN_REASM_OK, Some demo_table)"
    by (simp add: fzn_reasm_init_def demo_table_def zero_slot_def)
  from reassembly_stays_in_bounds [OF this, of "[Chunk [9] 7 1 2 [3] 0 10, Chunk [9] 8 0 1 [1] 0 10, Release 0]"]
  show ?thesis
    by (simp add: fzn_reasm_init_def zero_slot_def del: reasm_step.simps run.simps)
qed

text \<open>
  The ranges asked for when a transfer stalls name missing chunks and nothing else: they list,
  in ascending order and without repetition, the indices that have not arrived, in ranges of at
  most the given length, as far as the caller's array takes them, and all of them when the array
  was not filled.
\<close>

theorem plan_want_names_missing:
  assumes "fzn_reasm_plan_want (Some t) (Some s) m limit cap = (FZN_REASM_OK, rs)"
  shows "\<exists>q \<in> set (slots t). holds s m q \<and> length rs \<le> cap \<and>
    (\<forall>r \<in> set rs. 0 < rr_count r \<and> rr_count r \<le> limit) \<and>
    prefix (concat (map (\<lambda>r. [rr_first r..<rr_first r + rr_count r]) rs))
      (filter (\<lambda>i. \<not> seen_get q i) [0..<p_chunks q]) \<and>
    (length rs < cap \<longrightarrow> concat (map (\<lambda>r. [rr_first r..<rr_first r + rr_count r]) rs) =
       filter (\<lambda>i. \<not> seen_get q i) [0..<p_chunks q])"
proof -
  have limit: "0 < limit" and "find_slot t s m \<noteq> None"
    using assms by (auto simp: fzn_reasm_plan_want_def split: if_splits option.splits)
  then obtain i where i: "find_slot t s m = Some i" by blast
  let ?q = "slots t ! i" and ?missing = "filter (\<lambda>j. \<not> seen_get (slots t ! i) j) [0..<p_chunks (slots t ! i)]"
  obtain out first gap where w: "want_loop ?q cap limit [0..<p_chunks ?q] [] 0 0 = (out, first, gap)"
    by (metis prod_cases3)
  obtain ok first' gap' where e: "emit_run cap limit out first gap = (ok, rs, first', gap')"
    using assms i w by (auto simp: fzn_reasm_plan_want_def split: if_splits prod.splits)
  obtain rest where rest: "range_indices out @ [first..<first + gap] @ rest = ?missing" "ranges_ok cap limit out"
      "rest \<noteq> [] \<longrightarrow> length out = cap"
    using want_loop_spec [OF w limit] by (auto simp: ranges_ok_def range_indices_def)
  note spec = emit_run_spec [OF e limit rest(2)]
  have all: "range_indices rs @ [first'..<first' + gap'] @ rest = ?missing"
    using spec rest(1) by (metis append_assoc)
  have full: "range_indices rs = ?missing" if "length rs < cap"
  proof -
    have "gap' = 0" using spec that by (cases ok) auto
    moreover have "rest = []"
    proof (rule ccontr)
      assume "rest \<noteq> []"
      then have "length out = cap" using rest(3) by simp
      then have "rs = out" using e by (subst (asm) emit_run.simps) (auto split: if_splits)
      then show False using that \<open>length out = cap\<close> by simp
    qed
    ultimately show ?thesis using all by simp
  qed
  have "prefix (range_indices rs) ?missing" using all by (metis prefixI)
  then show ?thesis
    using find_slot_Some [OF i] spec full
    by (intro bexI [of _ ?q]) (simp_all add: range_indices_def ranges_ok_def)
qed

theorem plan_want_names_missing_witness:
  "fzn_reasm_plan_want (Some (snd (reasm_step demo_table (Chunk [9] 7 1 2 [3] 0 10)))) (Some [9]) 7 4 5 =
     (FZN_REASM_OK, [\<lparr>rr_first = 0, rr_count = 1\<rparr>]) \<and>
   (\<exists>q \<in> set (slots (snd (reasm_step demo_table (Chunk [9] 7 1 2 [3] 0 10)))). holds [9] 7 q)"
proof -
  have run: "fzn_reasm_plan_want (Some (snd (reasm_step demo_table (Chunk [9] 7 1 2 [3] 0 10)))) (Some [9]) 7 4 5 =
     (FZN_REASM_OK, [\<lparr>rr_first = 0, rr_count = 1\<rparr>])"
    by (simp add: reasm_model_defs demo_table_def fzn_reasm_plan_want_def seen_get_def upt_rec emit_run.simps)
  from plan_want_names_missing [OF run] show ?thesis using run by blast
qed

text \<open>
  A slot is not held for ever. The deadline a message gets with its first chunk is the
  earlier of the expiry the chunk carries and the table's hold time from now, computed without
  wrap-around, and a sweep releases exactly the messages whose deadline has passed and that were
  not handed to a caller; the others it leaves as they are.
\<close>

theorem slot_deadline_bounded:
  assumes "table_wf t"
  shows "unat (deadline_of t x now) \<le> unat now + unat (t_max_hold t) \<and>
    (x \<noteq> 0 \<longrightarrow> deadline_of t x now \<le> x) \<and>
    (\<exists>t'. fzn_reasm_expire (Some t) now = (length (filter (\<lambda>q. p_live q \<and> \<not> p_handed q \<and> p_expires_at q \<le> now) (slots t)), Some t') \<and>
       slots t' = map (\<lambda>q. if p_live q \<and> \<not> p_handed q \<and> p_expires_at q \<le> now then fzn_reasm_release q else q) (slots t))"
proof (intro conjI impI)
  have hold: "hold_until now (t_max_hold t) = sat_add now (t_max_hold t)" by (simp add: hold_until_def sat_add_def)
  show "unat (deadline_of t x now) \<le> unat now + unat (t_max_hold t)"
    using unat_sat_add [of now "t_max_hold t"] by (auto simp: deadline_of_def hold word_less_nat_alt)
  show "x \<noteq> 0 \<Longrightarrow> deadline_of t x now \<le> x" by (auto simp: deadline_of_def)
  show "\<exists>t'. fzn_reasm_expire (Some t) now = (length (filter (\<lambda>q. p_live q \<and> \<not> p_handed q \<and> p_expires_at q \<le> now) (slots t)), Some t') \<and>
       slots t' = map (\<lambda>q. if p_live q \<and> \<not> p_handed q \<and> p_expires_at q \<le> now then fzn_reasm_release q else q) (slots t)"
    using slots_sweep [OF assms, of now] table_partials [OF assms]
    by (intro exI [of _ "sweep t now"]) (simp add: fzn_reasm_expire_def sweep_def, simp add: release_where_def Let_def)
qed

theorem slot_deadline_bounded_witness:
  "table_wf demo_table \<and> unat (deadline_of demo_table 0 10) \<le> 110"
  using demo_table_wf slot_deadline_bounded [OF demo_table_wf, of 0 10] by (simp add: demo_table_def)

text \<open>
  A repeated last chunk is compared over its own length only: after the message \<open>[1, 2, 3, 4]\<close>
  has arrived as \<open>[1, 2]\<close> and \<open>[3, 4]\<close>, a repeat of the last chunk with the single byte \<open>[3]\<close> is
  accepted as if it were the chunk that arrived.
\<close>

theorem shorter_repeat_accepted:
  "map snd (trace reasm_step demo_table
     [Chunk [9] 7 0 2 [1, 2] 0 10, Chunk [9] 7 1 2 [3, 4] 0 10, Chunk [9] 7 1 2 [3] 0 10]) =
   [Some (FZN_REASM_OK, None), Some (FZN_REASM_OK, Some 0), Some (FZN_REASM_OK, None)]"
  by (simp add: reasm_model_defs demo_table_def place_chunk_def offset_of_def seen_get_def bytes_at_def
      chunk_mismatch_def)

end
