(* ===== verification/Chain_Hop.thy ===== *)
theory Chain_Hop
  imports Wire_Bytes
begin

text \<open>
  The layout of a grant, the hop, and of a chain of hops (\<open>chain/chain.c\<close>, \<open>chain/chain.h\<close>):
  encoding, opening, the accessors, packing a chain and opening it again, and signing a hop.

  A hop is a view of bytes; the view that points nowhere is \<open>None\<close>. An array of hops with its
  count is a list, and the array that is \<open>NULL\<close> with a count is \<open>None\<close>. The functions of the
  signing and hashing seams, which the library is handed from outside, are parameters: a seam that
  was not supplied is \<open>None\<close>, a signer that fails returns \<open>None\<close>.
\<close>

section \<open>Data and seams\<close>

datatype fzn_chain_err = FZN_CHAIN_OK | FZN_CHAIN_ERR_MALFORMED | FZN_CHAIN_ERR_CHAIN_INVALID
  | FZN_CHAIN_ERR_WRONG_ROOT | FZN_CHAIN_ERR_EXPIRED | FZN_CHAIN_ERR_REVOKED
  | FZN_CHAIN_ERR_NOT_DELEGABLE | FZN_CHAIN_ERR_STORE_FULL | FZN_CHAIN_ERR_SHAPE
  | FZN_CHAIN_ERR_UNKNOWN_TARGET | FZN_CHAIN_ERR_INCOMPLETE

type_synonym cap_id = bytes
type_synonym fzn_chain_hop = "bytes option"
type_synonym fzn_hash_ops = "bytes \<Rightarrow> bytes option"

record fzn_sign_ops =
  so_verify :: "(key \<Rightarrow> bytes \<Rightarrow> bytes \<Rightarrow> bool) option"
  so_sign :: "(bytes \<Rightarrow> bytes option) option"

record fzn_chain =
  ch_root :: key
  ch_grantee :: key
  ch_capability :: cap_id
  ch_hop_count :: nat
  ch_expires_at :: u64

abbreviation FZN_PUBKEY_LEN :: nat where "FZN_PUBKEY_LEN \<equiv> 32"
abbreviation FZN_CAP_ID_LEN :: nat where "FZN_CAP_ID_LEN \<equiv> 32"
abbreviation FZN_SIG_LEN :: nat where "FZN_SIG_LEN \<equiv> 64"
abbreviation FZN_CHAIN_MAX_HOPS :: nat where "FZN_CHAIN_MAX_HOPS \<equiv> 8"
abbreviation FZN_HOP_BODY_LEN :: nat where "FZN_HOP_BODY_LEN \<equiv> 115"
abbreviation FZN_HOP_LEN :: nat where "FZN_HOP_LEN \<equiv> 179"
abbreviation FZN_CHAIN_HEADER_LEN :: nat where "FZN_CHAIN_HEADER_LEN \<equiv> 2"
abbreviation FZN_NO_EXPIRY :: u64 where "FZN_NO_EXPIRY \<equiv> 0"

section \<open>Hops\<close>

definition fzn_hop_open :: "bytes option \<Rightarrow> fzn_chain_err \<times> fzn_chain_hop" where
  "fzn_hop_open bytes =
     (case bytes of None \<Rightarrow> (FZN_CHAIN_ERR_MALFORMED, None)
      | Some b \<Rightarrow>
        if length b \<noteq> FZN_HOP_LEN then (FZN_CHAIN_ERR_SHAPE, None)
        else if b ! 0 \<noteq> FZN_SIGNED_VERSION then (FZN_CHAIN_ERR_SHAPE, None)
        else if b ! 1 \<noteq> FZN_OBJECT_HOP then (FZN_CHAIN_ERR_SHAPE, None)
        else if b ! 114 > 1 then (FZN_CHAIN_ERR_SHAPE, None)
        else (FZN_CHAIN_OK, Some b))"

definition fzn_hop_encode :: "key option \<Rightarrow> key option \<Rightarrow> cap_id option \<Rightarrow> u64 \<Rightarrow> u64 \<Rightarrow> bool \<Rightarrow>
    fzn_chain_err \<times> bytes option" where
  "fzn_hop_encode grantor grantee capability issued_at expires_at delegable =
     (case (grantor, grantee, capability) of
        (Some gr, Some ge, Some cap) \<Rightarrow>
          (FZN_CHAIN_OK, Some ([FZN_SIGNED_VERSION, FZN_OBJECT_HOP] @ gr @ ge @ cap @
             fzn_put_be64 issued_at @ fzn_put_be64 expires_at @ [if delegable then 1 else 0] @
             replicate FZN_SIG_LEN 0))
      | _ \<Rightarrow> (FZN_CHAIN_ERR_MALFORMED, None))"

definition fzn_hop_grantor :: "bytes \<Rightarrow> key" where
  "fzn_hop_grantor hop = bytes_at 2 FZN_PUBKEY_LEN hop"

definition fzn_hop_grantee :: "bytes \<Rightarrow> key" where
  "fzn_hop_grantee hop = bytes_at 34 FZN_PUBKEY_LEN hop"

definition fzn_hop_capability :: "bytes \<Rightarrow> cap_id" where
  "fzn_hop_capability hop = bytes_at 66 FZN_CAP_ID_LEN hop"

definition fzn_hop_issued_at :: "bytes \<Rightarrow> u64" where
  "fzn_hop_issued_at hop = fzn_get_be64 (bytes_at 98 8 hop)"

definition fzn_hop_expires_at :: "bytes \<Rightarrow> u64" where
  "fzn_hop_expires_at hop = fzn_get_be64 (bytes_at 106 8 hop)"

definition fzn_hop_delegable :: "bytes \<Rightarrow> bool" where
  "fzn_hop_delegable hop \<longleftrightarrow> hop ! 114 \<noteq> 0"

definition fzn_hop_signature :: "bytes \<Rightarrow> bytes" where
  "fzn_hop_signature hop = bytes_at 115 FZN_SIG_LEN hop"

definition fzn_hop_signed_bytes :: "bytes \<Rightarrow> bytes" where
  "fzn_hop_signed_bytes hop = bytes_at 0 FZN_HOP_BODY_LEN hop"

section \<open>Chains of hops\<close>

primrec open_hops :: "bytes \<Rightarrow> nat list \<Rightarrow> fzn_chain_err \<times> fzn_chain_hop list" where
  "open_hops b [] = (FZN_CHAIN_OK, [])"
| "open_hops b (i # is) =
     (case fzn_hop_open (Some (bytes_at (FZN_CHAIN_HEADER_LEN + i * FZN_HOP_LEN) FZN_HOP_LEN b)) of
        (FZN_CHAIN_OK, hop) \<Rightarrow> map_prod id ((#) hop) (open_hops b is)
      | (err, _) \<Rightarrow> (err, []))"

definition fzn_chain_open :: "bytes option \<Rightarrow> fzn_chain_err \<times> fzn_chain_hop list" where
  "fzn_chain_open bytes =
     (case bytes of None \<Rightarrow> (FZN_CHAIN_ERR_MALFORMED, [])
      | Some b \<Rightarrow>
        if length b < FZN_CHAIN_HEADER_LEN then (FZN_CHAIN_ERR_SHAPE, [])
        else if b ! 0 \<noteq> FZN_SIGNED_VERSION then (FZN_CHAIN_ERR_SHAPE, [])
        else let n = unat (b ! 1) in
          if n = 0 \<or> n > FZN_CHAIN_MAX_HOPS then (FZN_CHAIN_ERR_SHAPE, [])
          else if length b \<noteq> FZN_CHAIN_HEADER_LEN + n * FZN_HOP_LEN then (FZN_CHAIN_ERR_SHAPE, [])
          else open_hops b [0..<n])"

definition fzn_chain_pack :: "fzn_chain_hop list option \<Rightarrow> nat \<Rightarrow> fzn_chain_err \<times> bytes option" where
  "fzn_chain_pack hops cap =
     (case hops of None \<Rightarrow> (FZN_CHAIN_ERR_MALFORMED, None)
      | Some hs \<Rightarrow>
        if hs = [] \<or> length hs > FZN_CHAIN_MAX_HOPS then (FZN_CHAIN_ERR_MALFORMED, None)
        else if cap < FZN_CHAIN_HEADER_LEN + length hs * FZN_HOP_LEN then (FZN_CHAIN_ERR_MALFORMED, None)
        else if list_ex (\<lambda>h. h = None) hs then (FZN_CHAIN_ERR_MALFORMED, None)
        else (FZN_CHAIN_OK, Some ([FZN_SIGNED_VERSION, of_nat (length hs)] @
               concat (map (\<lambda>h. take FZN_HOP_LEN (the h)) hs))))"

definition hop_sign :: "key option \<Rightarrow> key option \<Rightarrow> cap_id option \<Rightarrow> u64 \<Rightarrow> u64 \<Rightarrow> bool \<Rightarrow>
    fzn_sign_ops \<Rightarrow> fzn_chain_err \<times> bytes option" where
  "hop_sign grantor grantee capability issued_at expires_at delegable sign =
     (case (grantor, grantee, capability, so_sign sign) of
        (Some _, Some _, Some _, Some do_sign) \<Rightarrow>
          if expires_at \<noteq> FZN_NO_EXPIRY \<and> expires_at \<le> issued_at then (FZN_CHAIN_ERR_CHAIN_INVALID, None)
          else (case fzn_hop_encode grantor grantee capability issued_at expires_at delegable of
              (FZN_CHAIN_OK, Some out) \<Rightarrow>
                (case fzn_hop_open (Some out) of
                   (FZN_CHAIN_OK, Some hop) \<Rightarrow>
                     (case do_sign (fzn_hop_signed_bytes hop) of
                        None \<Rightarrow> (FZN_CHAIN_ERR_CHAIN_INVALID, Some (replicate FZN_HOP_LEN 0))
                      | Some sig \<Rightarrow> (FZN_CHAIN_OK, Some (put_at FZN_HOP_BODY_LEN sig out)))
                 | (err, _) \<Rightarrow> (err, Some out))
            | (err, out) \<Rightarrow> (err, out))
      | _ \<Rightarrow> (FZN_CHAIN_ERR_MALFORMED, None))"

definition fzn_chain_err_str :: "fzn_chain_err \<Rightarrow> string" where
  "fzn_chain_err_str err =
     (case err of
        FZN_CHAIN_OK \<Rightarrow> ''ok''
      | FZN_CHAIN_ERR_MALFORMED \<Rightarrow> ''malformed argument''
      | FZN_CHAIN_ERR_CHAIN_INVALID \<Rightarrow> ''chain does not check out''
      | FZN_CHAIN_ERR_WRONG_ROOT \<Rightarrow> ''valid chain under a different root''
      | FZN_CHAIN_ERR_EXPIRED \<Rightarrow> ''a hop has expired''
      | FZN_CHAIN_ERR_REVOKED \<Rightarrow> ''a grant has been revoked''
      | FZN_CHAIN_ERR_NOT_DELEGABLE \<Rightarrow> ''last hop is not delegable''
      | FZN_CHAIN_ERR_STORE_FULL \<Rightarrow> ''revocation store is full''
      | FZN_CHAIN_ERR_SHAPE \<Rightarrow> ''not the shape the layout describes''
      | FZN_CHAIN_ERR_UNKNOWN_TARGET \<Rightarrow> ''withdrawal names a revocation this store does not hold''
      | FZN_CHAIN_ERR_INCOMPLETE \<Rightarrow> ''this host is missing revocations from a grantor in this chain'')"

section \<open>What a hop says\<close>

record hop_fields =
  hf_grantor :: key
  hf_grantee :: key
  hf_capability :: cap_id
  hf_issued_at :: u64
  hf_expires_at :: u64
  hf_delegable :: bool

definition hop_read :: "bytes \<Rightarrow> hop_fields" where
  "hop_read hop = \<lparr>hf_grantor = fzn_hop_grantor hop, hf_grantee = fzn_hop_grantee hop,
     hf_capability = fzn_hop_capability hop, hf_issued_at = fzn_hop_issued_at hop,
     hf_expires_at = fzn_hop_expires_at hop, hf_delegable = fzn_hop_delegable hop\<rparr>"

definition hop_write :: "hop_fields \<Rightarrow> bytes" where
  "hop_write f = [FZN_SIGNED_VERSION, FZN_OBJECT_HOP] @ hf_grantor f @ hf_grantee f @ hf_capability f @
     fzn_put_be64 (hf_issued_at f) @ fzn_put_be64 (hf_expires_at f) @ [if hf_delegable f then 1 else 0]"

definition hop_fields_wf :: "hop_fields \<Rightarrow> bool" where
  "hop_fields_wf f \<longleftrightarrow> length (hf_grantor f) = 32 \<and> length (hf_grantee f) = 32 \<and> length (hf_capability f) = 32"

lemma length_hop_write [layout]: "hop_fields_wf f \<Longrightarrow> length (hop_write f) = FZN_HOP_BODY_LEN"
  by (simp add: hop_write_def hop_fields_wf_def)

lemma hop_read_write:
  assumes "hop_fields_wf f"
  shows "hop_read (hop_write f @ sig) = f"
  using assms be64.get_field
  by (cases f) (simp add: hop_read_def hop_write_def hop_fields_wf_def fzn_hop_grantor_def fzn_hop_grantee_def
      fzn_hop_capability_def fzn_hop_issued_at_def fzn_hop_expires_at_def fzn_hop_delegable_def nth_append
      be64.get_put)

lemma hop_open_ok_iff:
  "fst (fzn_hop_open (Some b)) = FZN_CHAIN_OK \<longleftrightarrow>
     length b = FZN_HOP_LEN \<and> b ! 0 = FZN_SIGNED_VERSION \<and> b ! 1 = FZN_OBJECT_HOP \<and> b ! 114 \<le> 1"
  by (auto simp: fzn_hop_open_def)

lemma hop_open_ok: "fst (fzn_hop_open (Some b)) = FZN_CHAIN_OK \<Longrightarrow> fzn_hop_open (Some b) = (FZN_CHAIN_OK, Some b)"
  by (auto simp: fzn_hop_open_def split: if_splits)

lemma hop_encode_write:
  "fzn_hop_encode (Some gr) (Some ge) (Some cap) iss ex dg =
     (FZN_CHAIN_OK, Some (hop_write \<lparr>hf_grantor = gr, hf_grantee = ge, hf_capability = cap,
        hf_issued_at = iss, hf_expires_at = ex, hf_delegable = dg\<rparr> @ replicate FZN_SIG_LEN 0))"
  by (simp add: fzn_hop_encode_def hop_write_def)

lemma hop_write_open:
  assumes "hop_fields_wf f" and "length sig = FZN_SIG_LEN"
  shows "fzn_hop_open (Some (hop_write f @ sig)) = (FZN_CHAIN_OK, Some (hop_write f @ sig))"
proof (rule hop_open_ok)
  show "fst (fzn_hop_open (Some (hop_write f @ sig))) = FZN_CHAIN_OK"
    unfolding hop_open_ok_iff using assms length_hop_write [OF assms(1)]
    by (auto simp: hop_write_def hop_fields_wf_def nth_append)
qed

lemma hop_signed_write:
  "hop_fields_wf f \<Longrightarrow> fzn_hop_signed_bytes (hop_write f @ sig) = hop_write f"
  by (simp add: fzn_hop_signed_bytes_def length_hop_write)

lemma hop_signature_write:
  "hop_fields_wf f \<Longrightarrow> length sig = FZN_SIG_LEN \<Longrightarrow> fzn_hop_signature (hop_write f @ sig) = sig"
  by (simp add: fzn_hop_signature_def length_hop_write)

text \<open>
  The body of a hop that opens is determined by what the accessors read from it: opening accepts
  one encoding of each grant.
\<close>

lemma byte_01: "(b :: u8) \<le> 1 \<Longrightarrow> b = (if b \<noteq> 0 then 1 else 0)"
  by (auto simp: word_le_nat_alt word_unat_eq_iff)

lemma hop_write_read:
  assumes "fst (fzn_hop_open (Some b)) = FZN_CHAIN_OK"
  shows "hop_write (hop_read b) = fzn_hop_signed_bytes b" and "hop_fields_wf (hop_read b)"
    and "b = hop_write (hop_read b) @ fzn_hop_signature b"
proof -
  from assms have b: "length b = FZN_HOP_LEN" "b ! 0 = FZN_SIGNED_VERSION" "b ! 1 = FZN_OBJECT_HOP" "b ! 114 \<le> 1"
    by (simp_all add: hop_open_ok_iff)
  have tag: "[FZN_SIGNED_VERSION, FZN_OBJECT_HOP] = bytes_at 0 2 b"
    using b(1-3) bytes_at_one [of 0 b] bytes_at_one [of 1 b] bytes_at_join [of 1 0 1 b 1] by (simp add: numeral_2_eq_2)
  have dg: "[if fzn_hop_delegable b then 1 else 0] = bytes_at 114 1 b"
    using byte_01 [OF b(4)] b(1) bytes_at_one [of 114 b] by (simp add: fzn_hop_delegable_def)
  show w: "hop_write (hop_read b) = fzn_hop_signed_bytes b"
    unfolding hop_write_def tag using b(1) dg
    by (simp add: hop_read_def fzn_hop_grantor_def fzn_hop_grantee_def fzn_hop_capability_def
        fzn_hop_issued_at_def fzn_hop_expires_at_def be64.put_get bytes_at_join fzn_hop_signed_bytes_def
        del: bytes_at_append_skip)
  show "hop_fields_wf (hop_read b)"
    using b(1) by (simp add: hop_fields_wf_def hop_read_def fzn_hop_grantor_def fzn_hop_grantee_def fzn_hop_capability_def)
  have "bytes_at 0 115 b @ bytes_at 115 64 b = b" using b(1) by (simp add: bytes_at_join)
  then show "b = hop_write (hop_read b) @ fzn_hop_signature b"
    unfolding w by (simp add: fzn_hop_signed_bytes_def fzn_hop_signature_def)
qed

section \<open>What a packed chain holds\<close>

lemma open_hops_ok:
  assumes "\<forall>i \<in> set is. fst (fzn_hop_open (Some (bytes_at (2 + i * 179) 179 b))) = FZN_CHAIN_OK"
  shows "open_hops b is = (FZN_CHAIN_OK, map (\<lambda>i. Some (bytes_at (2 + i * 179) 179 b)) is)"
  using assms by (induction "is") (auto simp: hop_open_ok)

lemma open_hops_okD:
  "fst (open_hops b is) = FZN_CHAIN_OK \<Longrightarrow>
   \<forall>i \<in> set is. fst (fzn_hop_open (Some (bytes_at (2 + i * 179) 179 b))) = FZN_CHAIN_OK"
  by (induction "is") (auto split: prod.splits fzn_chain_err.splits)

lemma bytes_at_concat:
  assumes "\<forall>x \<in> set xss. length x = w" and "i < length xss"
  shows "bytes_at (i * w) w (concat xss) = xss ! i"
  using assms
proof (induction xss arbitrary: i)
  case (Cons x xss)
  then show ?case by (cases i) auto
qed simp

lemma concat_slices:
  "length b = n * w \<Longrightarrow> concat (map (\<lambda>i. bytes_at (i * w) w b) [0..<n]) = b"
proof (induction n arbitrary: b)
  case (Suc n)
  have "concat (map (\<lambda>i. bytes_at (i * w) w b) [0..<n]) = concat (map (\<lambda>i. bytes_at (i * w) w (take (n * w) b)) [0..<n])"
    by (intro arg_cong [of _ _ concat] map_cong)
      (auto simp: bytes_at_def drop_take min_def take_eq_Nil simp flip: diff_mult_distrib
        intro!: arg_cong [of _ _ "\<lambda>k. take k _"] mult_le_mono1 dest!: Suc_leI)
  also have "\<dots> = take (n * w) b" using Suc by simp
  finally show ?case
    using Suc.prems by (simp add: bytes_at_def)
qed simp

lemma chain_pack_spec:
  "fzn_chain_pack (Some hs) cap = (FZN_CHAIN_OK, Some b) \<longleftrightarrow>
     hs \<noteq> [] \<and> length hs \<le> FZN_CHAIN_MAX_HOPS \<and> 2 + length hs * 179 \<le> cap \<and> None \<notin> set hs \<and>
     b = [FZN_SIGNED_VERSION, of_nat (length hs)] @ concat (map (\<lambda>h. take FZN_HOP_LEN (the h)) hs)"
  by (auto simp: fzn_chain_pack_def list_ex_iff)

lemma chain_open_spec:
  "fzn_chain_open (Some b) = (FZN_CHAIN_OK, hs) \<longleftrightarrow>
     (\<exists>n. 0 < n \<and> n \<le> FZN_CHAIN_MAX_HOPS \<and> length b = 2 + n * 179 \<and> b ! 0 = FZN_SIGNED_VERSION \<and>
        b ! 1 = of_nat n \<and> hs = map (\<lambda>i. Some (bytes_at (2 + i * 179) 179 b)) [0..<n] \<and>
        (\<forall>i < n. fst (fzn_hop_open (Some (bytes_at (2 + i * 179) 179 b))) = FZN_CHAIN_OK))"
  (is "?open \<longleftrightarrow> ?spec")
proof
  assume ?open
  then have h: "\<not> length b < 2" "b ! 0 = FZN_SIGNED_VERSION" "unat (b ! 1) \<noteq> 0" "\<not> unat (b ! 1) > 8"
    "length b = 2 + unat (b ! 1) * 179" and o: "open_hops b [0..<unat (b ! 1)] = (FZN_CHAIN_OK, hs)"
    by (auto simp: fzn_chain_open_def Let_def split: if_splits)
  from o have all: "\<forall>i \<in> set [0..<unat (b ! 1)]. fst (fzn_hop_open (Some (bytes_at (2 + i * 179) 179 b))) = FZN_CHAIN_OK"
    by (intro open_hops_okD) simp
  have "hs = map (\<lambda>i. Some (bytes_at (2 + i * 179) 179 b)) [0..<unat (b ! 1)]"
    using o open_hops_ok [OF all] by simp
  with h all show ?spec by (intro exI [of _ "unat (b ! 1)"]) auto
next
  assume ?spec
  then obtain n where n: "0 < n" "n \<le> 8" "length b = 2 + n * 179" "b ! 0 = FZN_SIGNED_VERSION"
      "b ! 1 = of_nat n" "hs = map (\<lambda>i. Some (bytes_at (2 + i * 179) 179 b)) [0..<n]"
      "\<forall>i < n. fst (fzn_hop_open (Some (bytes_at (2 + i * 179) 179 b))) = FZN_CHAIN_OK" by blast
  have u: "unat (b ! 1) = n" using n(2,5) by (simp add: unsigned_of_nat take_bit_nat_eq_self)
  have "open_hops b [0..<n] = (FZN_CHAIN_OK, hs)" using n(6,7) open_hops_ok [of "[0..<n]" b] by simp
  then show ?open using n u by (simp add: fzn_chain_open_def)
qed

section \<open>Properties\<close>

text \<open>
  A grant has one encoding. Encoding a grant and putting any signature behind it gives a hop
  that opens and reads back as exactly that grant, signed over exactly the encoded body; and every
  hop that opens is the encoding of what the accessors read from it, so no two byte strings that
  open say the same thing under one signature.
\<close>

theorem hop_round_trip:
  "(length gr = 32 \<and> length ge = 32 \<and> length cap = 32 \<and> length sig = FZN_SIG_LEN \<longrightarrow>
     (\<exists>out. fzn_hop_encode (Some gr) (Some ge) (Some cap) iss ex dg = (FZN_CHAIN_OK, Some out) \<and>
       fst (fzn_hop_open (Some (put_at FZN_HOP_BODY_LEN sig out))) = FZN_CHAIN_OK \<and>
       hop_read (put_at FZN_HOP_BODY_LEN sig out) = \<lparr>hf_grantor = gr, hf_grantee = ge, hf_capability = cap,
         hf_issued_at = iss, hf_expires_at = ex, hf_delegable = dg\<rparr> \<and>
       fzn_hop_signed_bytes (put_at FZN_HOP_BODY_LEN sig out) = take FZN_HOP_BODY_LEN out \<and>
       fzn_hop_signature (put_at FZN_HOP_BODY_LEN sig out) = sig)) \<and>
   (fst (fzn_hop_open (Some h)) = FZN_CHAIN_OK \<and> fst (fzn_hop_open (Some h')) = FZN_CHAIN_OK \<and>
      hop_read h = hop_read h' \<and> fzn_hop_signature h = fzn_hop_signature h' \<longrightarrow> h = h')"
proof (intro conjI impI)
  let ?f = "\<lparr>hf_grantor = gr, hf_grantee = ge, hf_capability = cap, hf_issued_at = iss,
    hf_expires_at = ex, hf_delegable = dg\<rparr>"
  assume "length gr = 32 \<and> length ge = 32 \<and> length cap = 32 \<and> length sig = FZN_SIG_LEN"
  then have wf: "hop_fields_wf ?f" and sig: "length sig = FZN_SIG_LEN" by (auto simp: hop_fields_wf_def)
  have put: "put_at FZN_HOP_BODY_LEN sig (hop_write ?f @ replicate FZN_SIG_LEN 0) = hop_write ?f @ sig"
    using length_hop_write [OF wf] sig by (simp add: put_at_def)
  show "\<exists>out. fzn_hop_encode (Some gr) (Some ge) (Some cap) iss ex dg = (FZN_CHAIN_OK, Some out) \<and>
       fst (fzn_hop_open (Some (put_at FZN_HOP_BODY_LEN sig out))) = FZN_CHAIN_OK \<and>
       hop_read (put_at FZN_HOP_BODY_LEN sig out) = ?f \<and>
       fzn_hop_signed_bytes (put_at FZN_HOP_BODY_LEN sig out) = take FZN_HOP_BODY_LEN out \<and>
       fzn_hop_signature (put_at FZN_HOP_BODY_LEN sig out) = sig"
    using hop_write_open [OF wf sig] hop_read_write [OF wf] hop_signed_write [OF wf]
      hop_signature_write [OF wf sig] length_hop_write [OF wf]
    by (simp add: hop_encode_write put)
next
  assume "fst (fzn_hop_open (Some h)) = FZN_CHAIN_OK \<and> fst (fzn_hop_open (Some h')) = FZN_CHAIN_OK \<and>
      hop_read h = hop_read h' \<and> fzn_hop_signature h = fzn_hop_signature h'"
  then show "h = h'" using hop_write_read(3) by metis
qed

theorem hop_round_trip_witness:
  "\<exists>out. fzn_hop_encode (Some (replicate 32 1)) (Some (replicate 32 2)) (Some (replicate 32 3)) 7 9 True =
     (FZN_CHAIN_OK, Some out) \<and> fst (fzn_hop_open (Some (put_at 115 (replicate 64 5) out))) = FZN_CHAIN_OK"
  using hop_round_trip [of "replicate 32 1" "replicate 32 2" "replicate 32 3" "replicate 64 5" 7 9 True]
  by auto

lemma open_repacks:
  assumes "fzn_chain_open (Some b') = (FZN_CHAIN_OK, hs')"
  shows "fzn_chain_pack (Some hs') (length b') = (FZN_CHAIN_OK, Some b')"
proof -
  from assms obtain n where n: "0 < n" "n \<le> 8" "length b' = 2 + n * 179" "b' ! 0 = FZN_SIGNED_VERSION"
      "b' ! 1 = of_nat n" "hs' = map (\<lambda>i. Some (bytes_at (2 + i * 179) 179 b')) [0..<n]"
    unfolding chain_open_spec by blast
  have "length (drop 2 b') = n * 179" using n(3) by simp
  from concat_slices [OF this] have "concat (map (\<lambda>i. bytes_at (2 + i * 179) 179 b') [0..<n]) = drop 2 b'"
    by (simp add: bytes_at_def add.commute)
  moreover have "map (\<lambda>h. take 179 (the h)) hs' = map (\<lambda>i. bytes_at (2 + i * 179) 179 b') [0..<n]"
    by (simp add: n(6) bytes_at_def)
  moreover have "b' = [b' ! 0, b' ! 1] @ drop 2 b'"
    using n(3) by (cases b'; cases "tl b'") auto
  ultimately have "b' = [FZN_SIGNED_VERSION, of_nat n] @ concat (map (\<lambda>h. take 179 (the h)) hs')"
    using n(4,5) by simp
  then show ?thesis
    unfolding chain_pack_spec using n(1-3,6) by auto
qed

lemma pack_reopens:
  assumes "\<forall>h \<in> set hs. fst (fzn_hop_open (Some h)) = FZN_CHAIN_OK" and "fzn_chain_pack (Some (map Some hs)) cap = (FZN_CHAIN_OK, Some b)"
  shows "fzn_chain_open (Some b) = (FZN_CHAIN_OK, map Some hs)"
proof -
  have len: "\<forall>h \<in> set hs. length h = 179" using assms(1) by (auto simp: hop_open_ok_iff)
  have b: "hs \<noteq> []" "length hs \<le> 8"
      "b = [FZN_SIGNED_VERSION, of_nat (length hs)] @ concat (map (\<lambda>h. take 179 (the h)) (map Some hs))"
    using assms(2) by (auto simp: chain_pack_spec)
  have "map (\<lambda>h. take 179 (the h)) (map Some hs) = hs" using len by (simp add: map_idI)
  with b(3) have b': "b = [FZN_SIGNED_VERSION, of_nat (length hs)] @ concat hs" by simp
  have at: "bytes_at (2 + i * 179) 179 b = hs ! i" if "i < length hs" for i
    using bytes_at_concat [OF len that] by (simp add: b')
  have total: "length b = 2 + length hs * 179"
    using len by (simp add: b' length_concat) (induction hs; simp)
  show ?thesis
    unfolding chain_open_spec
    using b total at assms(1) by (intro exI [of _ "length hs"]) (auto simp: b' intro: nth_equalityI)
qed

text \<open>
  A chain of hops survives being packed and opened: opening what was packed from hops that
  open gives those hops back, and whatever opens as a chain is what packing its hops produces, so
  a chain has one encoding, of one to eight hops and nothing behind them.
\<close>

theorem chain_pack_open:
  "((\<forall>h \<in> set hs. fst (fzn_hop_open (Some h)) = FZN_CHAIN_OK) \<and>
     fzn_chain_pack (Some (map Some hs)) cap = (FZN_CHAIN_OK, Some b) \<longrightarrow>
     fzn_chain_open (Some b) = (FZN_CHAIN_OK, map Some hs)) \<and>
   (fzn_chain_open (Some b') = (FZN_CHAIN_OK, hs') \<longrightarrow>
     fzn_chain_pack (Some hs') (length b') = (FZN_CHAIN_OK, Some b'))"
  using pack_reopens open_repacks by blast

definition demo_hop :: bytes where
  "demo_hop = hop_write \<lparr>hf_grantor = replicate 32 1, hf_grantee = replicate 32 2,
     hf_capability = replicate 32 3, hf_issued_at = 7, hf_expires_at = 90, hf_delegable = True\<rparr> @ replicate 64 5"

lemma demo_hop_opens: "fst (fzn_hop_open (Some demo_hop)) = FZN_CHAIN_OK"
  unfolding demo_hop_def by (subst hop_write_open) (simp_all add: hop_fields_wf_def)

theorem chain_pack_open_witness:
  "\<exists>b. fzn_chain_pack (Some [Some demo_hop]) 400 = (FZN_CHAIN_OK, Some b) \<and>
     fzn_chain_open (Some b) = (FZN_CHAIN_OK, [Some demo_hop])"
proof -
  have "fzn_chain_pack (Some (map Some [demo_hop])) 400 =
      (FZN_CHAIN_OK, Some ([1, 1] @ concat (map (\<lambda>h. take 179 (the h)) [Some demo_hop])))"
    unfolding chain_pack_spec by simp
  with chain_pack_open [of "[demo_hop]" 400] demo_hop_opens show ?thesis by auto
qed

end
