(* ===== verification/Revocation_Store.thy ===== *)
theory Revocation_Store
  imports Chain_Hop "HOL-Library.Multiset"
begin

text \<open>
  Revocations (\<open>chain/revocation.c\<close>): the signed record, the store of them, and the rule that
  says which hops of a chain stand revoked. Admission into the store, which calls chain
  verification, is in \<open>Revocation_Admit\<close>.

  The store lies in memory its caller owns, so its tables are options (\<open>NULL\<close>) with a capacity
  and a count. The sets of roots and the log of acts are seams, parameters of the model.
\<close>

section \<open>Data\<close>

record fzn_revocation =
  rv_capability :: cap_id
  rv_grantee :: key
  rv_issuer :: key
  rv_id :: bytes
  rv_withdrawn :: bool
  rv_epoch :: u64
  rv_held :: bytes
  rv_cut :: bytes

record fzn_revocation_admin =
  ad_key :: key
  ad_hop_count :: nat
  ad_grantor :: "key list"
  ad_grantee :: "key list"
  ad_hop_id :: "bytes list"
  ad_first_act :: bytes

record fzn_revocation_confirm =
  cf_confirmer :: key
  cf_grant :: bytes
  cf_act :: bytes

record fzn_root_ops =
  ro_member :: "key \<Rightarrow> bool"
  ro_counts :: "key \<Rightarrow> bytes \<Rightarrow> bool"

type_synonym fzn_act_log_ops = "key \<Rightarrow> bytes \<Rightarrow> bytes \<Rightarrow> bool"

record fzn_revocation_store =
  rs_entries :: "fzn_revocation list option"
  rs_capacity :: nat
  rs_used :: nat
  rs_generation :: u64
  rs_quorum :: nat
  rs_has_admin :: bool
  rs_admin_capability :: cap_id
  rs_admins :: "fzn_revocation_admin list option"
  rs_admin_capacity :: nat
  rs_admins_used :: nat
  rs_roots :: "fzn_root_ops option"
  rs_root_hash :: "fzn_hash_ops option"
  rs_confirms :: "fzn_revocation_confirm list option"
  rs_confirm_capacity :: nat
  rs_confirms_used :: nat
  rs_confirm_hash :: "fzn_hash_ops option"
  rs_acts :: "fzn_act_log_ops option"

abbreviation FZN_REVOCATION_ID_LEN :: nat where "FZN_REVOCATION_ID_LEN \<equiv> 32"
abbreviation FZN_REVOCATION_BODY_LEN :: nat where "FZN_REVOCATION_BODY_LEN \<equiv> 178"
abbreviation FZN_REVOCATION_LEN :: nat where "FZN_REVOCATION_LEN \<equiv> 242"
abbreviation REVOCATION_ADMINS_MAX :: nat where "REVOCATION_ADMINS_MAX \<equiv> 32"

section \<open>The signed record\<close>

definition all_zero :: "bytes \<Rightarrow> bool" where
  "all_zero p \<longleftrightarrow> fold (\<lambda>b seen. seen OR b) p 0 = 0"

definition fzn_revocation_open :: "bytes option \<Rightarrow> fzn_chain_err \<times> bytes option" where
  "fzn_revocation_open bytes =
     (case bytes of None \<Rightarrow> (FZN_CHAIN_ERR_MALFORMED, None)
      | Some b \<Rightarrow>
        if length b \<noteq> FZN_REVOCATION_LEN then (FZN_CHAIN_ERR_SHAPE, None)
        else if b ! 0 \<noteq> FZN_SIGNED_VERSION then (FZN_CHAIN_ERR_SHAPE, None)
        else if b ! 1 \<noteq> FZN_OBJECT_REVOCATION \<and> b ! 1 \<noteq> FZN_OBJECT_WITHDRAWAL then (FZN_CHAIN_ERR_SHAPE, None)
        else if b ! 1 = FZN_OBJECT_WITHDRAWAL \<and> all_zero (bytes_at 106 FZN_REVOCATION_ID_LEN b)
          then (FZN_CHAIN_ERR_SHAPE, None)
        else if b ! 1 = FZN_OBJECT_WITHDRAWAL \<and> \<not> all_zero (bytes_at 146 FZN_REVOCATION_ID_LEN b)
          then (FZN_CHAIN_ERR_SHAPE, None)
        else (FZN_CHAIN_OK, Some b))"

definition or_zero :: "bytes option \<Rightarrow> bytes" where
  "or_zero p = (case p of Some b \<Rightarrow> b | None \<Rightarrow> replicate FZN_REVOCATION_ID_LEN 0)"

definition fzn_revocation_encode :: "u8 \<Rightarrow> key option \<Rightarrow> cap_id option \<Rightarrow> key option \<Rightarrow> u64 \<Rightarrow> u64 \<Rightarrow>
    bytes option \<Rightarrow> bytes option \<Rightarrow> fzn_chain_err \<times> bytes option" where
  "fzn_revocation_encode object issuer capability grantee issued_at epoch supersedes cutp =
     (case (issuer, capability, grantee) of
        (Some iss, Some cap, Some ge) \<Rightarrow>
          if object \<noteq> FZN_OBJECT_REVOCATION \<and> object \<noteq> FZN_OBJECT_WITHDRAWAL
          then (FZN_CHAIN_ERR_MALFORMED, None)
          else if object = FZN_OBJECT_WITHDRAWAL \<and>
              (case supersedes of None \<Rightarrow> True | Some s \<Rightarrow> all_zero s) then (FZN_CHAIN_ERR_MALFORMED, None)
          else if object = FZN_OBJECT_WITHDRAWAL \<and>
              (case cutp of None \<Rightarrow> False | Some c \<Rightarrow> \<not> all_zero c) then (FZN_CHAIN_ERR_MALFORMED, None)
          else (FZN_CHAIN_OK, Some ([FZN_SIGNED_VERSION, object] @ cap @ ge @ iss @
             fzn_put_be64 issued_at @ or_zero supersedes @ fzn_put_be64 epoch @ or_zero cutp @
             replicate FZN_SIG_LEN 0))
      | _ \<Rightarrow> (FZN_CHAIN_ERR_MALFORMED, None))"

definition fzn_revocation_capability :: "bytes \<Rightarrow> cap_id" where
  "fzn_revocation_capability rec = bytes_at 2 FZN_CAP_ID_LEN rec"

definition fzn_revocation_grantee :: "bytes \<Rightarrow> key" where
  "fzn_revocation_grantee rec = bytes_at 34 FZN_PUBKEY_LEN rec"

definition fzn_revocation_issuer :: "bytes \<Rightarrow> key" where
  "fzn_revocation_issuer rec = bytes_at 66 FZN_PUBKEY_LEN rec"

definition fzn_revocation_issued_at :: "bytes \<Rightarrow> u64" where
  "fzn_revocation_issued_at rec = fzn_get_be64 (bytes_at 98 8 rec)"

definition fzn_revocation_supersedes :: "bytes \<Rightarrow> bytes" where
  "fzn_revocation_supersedes rec = bytes_at 106 FZN_REVOCATION_ID_LEN rec"

definition fzn_revocation_epoch :: "bytes \<Rightarrow> u64" where
  "fzn_revocation_epoch rec = fzn_get_be64 (bytes_at 138 8 rec)"

definition fzn_revocation_cut :: "bytes \<Rightarrow> bytes" where
  "fzn_revocation_cut rec = bytes_at 146 FZN_REVOCATION_ID_LEN rec"

definition fzn_revocation_is_withdrawal :: "bytes \<Rightarrow> bool" where
  "fzn_revocation_is_withdrawal rec \<longleftrightarrow> rec ! 1 = FZN_OBJECT_WITHDRAWAL"

definition fzn_revocation_signature :: "bytes \<Rightarrow> bytes" where
  "fzn_revocation_signature rec = bytes_at 178 FZN_SIG_LEN rec"

definition fzn_revocation_signed_bytes :: "bytes \<Rightarrow> bytes" where
  "fzn_revocation_signed_bytes rec = bytes_at 0 FZN_REVOCATION_BODY_LEN rec"

definition mint :: "u8 \<Rightarrow> key option \<Rightarrow> cap_id option \<Rightarrow> key option \<Rightarrow> u64 \<Rightarrow> u64 \<Rightarrow> bytes option \<Rightarrow>
    bytes option \<Rightarrow> fzn_sign_ops \<Rightarrow> fzn_chain_err \<times> bytes option" where
  "mint object issuer capability grantee issued_at epoch supersedes cutp sign =
     (case (issuer, capability, grantee, so_sign sign) of
        (Some _, Some _, Some _, Some do_sign) \<Rightarrow>
          (case fzn_revocation_encode object issuer capability grantee issued_at epoch supersedes cutp of
             (FZN_CHAIN_OK, Some out) \<Rightarrow>
               (case fzn_revocation_open (Some out) of
                  (FZN_CHAIN_OK, Some rec) \<Rightarrow>
                    (case do_sign (fzn_revocation_signed_bytes rec) of
                       None \<Rightarrow> (FZN_CHAIN_ERR_CHAIN_INVALID, Some (replicate FZN_REVOCATION_LEN 0))
                     | Some sig \<Rightarrow> (FZN_CHAIN_OK, Some (put_at FZN_REVOCATION_BODY_LEN sig out)))
                | (err, _) \<Rightarrow> (err, Some out))
           | (err, out) \<Rightarrow> (err, out))
      | _ \<Rightarrow> (FZN_CHAIN_ERR_MALFORMED, None))"

definition fzn_revocation_issue :: "key option \<Rightarrow> cap_id option \<Rightarrow> key option \<Rightarrow> u64 \<Rightarrow> u64 \<Rightarrow> bytes option \<Rightarrow>
    fzn_sign_ops \<Rightarrow> fzn_chain_err \<times> bytes option" where
  "fzn_revocation_issue issuer capability grantee issued_at epoch cutp sign =
     mint FZN_OBJECT_REVOCATION issuer capability grantee issued_at epoch None cutp sign"

definition fzn_revocation_reissue :: "key option \<Rightarrow> cap_id option \<Rightarrow> key option \<Rightarrow> u64 \<Rightarrow> u64 \<Rightarrow> bytes option \<Rightarrow>
    bytes option \<Rightarrow> fzn_sign_ops \<Rightarrow> fzn_chain_err \<times> bytes option" where
  "fzn_revocation_reissue issuer capability grantee issued_at epoch supersedes cutp sign =
     (if (case supersedes of None \<Rightarrow> True | Some s \<Rightarrow> all_zero s) then (FZN_CHAIN_ERR_MALFORMED, None)
      else mint FZN_OBJECT_REVOCATION issuer capability grantee issued_at epoch supersedes cutp sign)"

definition fzn_revocation_issue_withdrawal :: "key option \<Rightarrow> cap_id option \<Rightarrow> key option \<Rightarrow> u64 \<Rightarrow> u64 \<Rightarrow>
    bytes option \<Rightarrow> fzn_sign_ops \<Rightarrow> fzn_chain_err \<times> bytes option" where
  "fzn_revocation_issue_withdrawal issuer capability grantee issued_at epoch target sign =
     mint FZN_OBJECT_WITHDRAWAL issuer capability grantee issued_at epoch target None sign"

section \<open>Setting up a store\<close>

definition fzn_revocation_store_sound :: "fzn_revocation_store option \<Rightarrow> bool" where
  "fzn_revocation_store_sound store =
     (case store of None \<Rightarrow> True
      | Some s \<Rightarrow>
        if rs_used s > rs_capacity s then False
        else if rs_used s > 0 \<and> rs_entries s = None then False
        else if rs_admins_used s > rs_admin_capacity s \<or> (rs_admins_used s > 0 \<and> rs_admins s = None) then False
        else if rs_confirms_used s > rs_confirm_capacity s \<or> (rs_confirms_used s > 0 \<and> rs_confirms s = None)
          then False
        else True)"

abbreviation corrupt :: "fzn_revocation_store \<Rightarrow> bool" where
  "corrupt store \<equiv> \<not> fzn_revocation_store_sound (Some store)"

definition fzn_revocation_store_init ::
  "fzn_revocation list option \<Rightarrow> nat \<Rightarrow> fzn_chain_err \<times> fzn_revocation_store option" where
  "fzn_revocation_store_init entries capacity =
     (if entries = None \<or> capacity = 0 then (FZN_CHAIN_ERR_MALFORMED, None)
      else (FZN_CHAIN_OK, Some \<lparr>rs_entries = entries, rs_capacity = capacity, rs_used = 0,
        rs_generation = 1, rs_quorum = 1, rs_has_admin = False,
        rs_admin_capability = replicate FZN_CAP_ID_LEN 0, rs_admins = None, rs_admin_capacity = 0,
        rs_admins_used = 0, rs_roots = None, rs_root_hash = None, rs_confirms = None,
        rs_confirm_capacity = 0, rs_confirms_used = 0, rs_confirm_hash = None, rs_acts = None\<rparr>))"

definition fzn_revocation_store_use :: "fzn_revocation_store \<Rightarrow> fzn_revocation list option \<Rightarrow> nat \<Rightarrow>
    fzn_chain_err \<times> fzn_revocation_store" where
  "fzn_revocation_store_use store entries capacity =
     (case entries of None \<Rightarrow> (FZN_CHAIN_ERR_MALFORMED, store)
      | Some es \<Rightarrow>
        if capacity = 0 \<or> corrupt store \<or> capacity < rs_used store then (FZN_CHAIN_ERR_MALFORMED, store)
        else (FZN_CHAIN_OK, store\<lparr>rs_entries := Some (take (rs_used store) (the (rs_entries store)) @
                drop (rs_used store) es), rs_capacity := capacity, rs_generation := rs_generation store + 1\<rparr>))"

definition fzn_revocation_store_use_confirmations :: "fzn_revocation_store \<Rightarrow>
    fzn_revocation_confirm list option \<Rightarrow> nat \<Rightarrow> fzn_chain_err \<times> fzn_revocation_store" where
  "fzn_revocation_store_use_confirmations store table capacity =
     (case table of None \<Rightarrow> (FZN_CHAIN_ERR_MALFORMED, store)
      | Some tb \<Rightarrow>
        if capacity = 0 \<or> rs_confirms store = None \<or> corrupt store \<or> capacity < rs_confirms_used store
        then (FZN_CHAIN_ERR_MALFORMED, store)
        else (FZN_CHAIN_OK, store\<lparr>rs_confirms := Some (take (rs_confirms_used store) (the (rs_confirms store)) @
                drop (rs_confirms_used store) tb), rs_confirm_capacity := capacity,
                rs_generation := rs_generation store + 1\<rparr>))"

definition fzn_revocation_store_set_confirmations :: "fzn_revocation_store \<Rightarrow>
    fzn_revocation_confirm list option \<Rightarrow> nat \<Rightarrow> fzn_hash_ops option \<Rightarrow> fzn_chain_err \<times> fzn_revocation_store" where
  "fzn_revocation_store_set_confirmations store table capacity hash =
     (if table = None \<or> capacity = 0 \<or> hash = None \<or> rs_admins_used store \<noteq> 0
      then (FZN_CHAIN_ERR_MALFORMED, store)
      else (FZN_CHAIN_OK, store\<lparr>rs_confirms := table, rs_confirm_capacity := capacity, rs_confirms_used := 0,
              rs_confirm_hash := hash, rs_generation := rs_generation store + 1\<rparr>))"

definition fzn_revocation_store_set_roots :: "fzn_revocation_store \<Rightarrow> fzn_root_ops option \<Rightarrow>
    fzn_hash_ops option \<Rightarrow> fzn_chain_err \<times> fzn_revocation_store" where
  "fzn_revocation_store_set_roots store roots hash =
     (if roots \<noteq> None \<and> hash = None then (FZN_CHAIN_ERR_MALFORMED, store)
      else (FZN_CHAIN_OK, store\<lparr>rs_roots := roots, rs_root_hash := (if roots \<noteq> None then hash else None),
              rs_generation := rs_generation store + 1\<rparr>))"

definition fzn_revocation_store_set_k :: "fzn_revocation_store \<Rightarrow> nat \<Rightarrow> fzn_chain_err \<times> fzn_revocation_store" where
  "fzn_revocation_store_set_k store quorum =
     (if quorum = 0 then (FZN_CHAIN_ERR_MALFORMED, store)
      else if rs_quorum store \<noteq> quorum
      then (FZN_CHAIN_OK, store\<lparr>rs_quorum := quorum, rs_generation := rs_generation store + 1\<rparr>)
      else (FZN_CHAIN_OK, store))"

definition fzn_revocation_store_set_quorum :: "fzn_revocation_store \<Rightarrow> nat \<Rightarrow> cap_id option \<Rightarrow>
    fzn_revocation_admin list option \<Rightarrow> nat \<Rightarrow> fzn_chain_err \<times> fzn_revocation_store" where
  "fzn_revocation_store_set_quorum store quorum admin_capability admins admin_capacity =
     (if quorum = 0 then (FZN_CHAIN_ERR_MALFORMED, store)
      else if admin_capability \<noteq> None \<and> (admins = None \<or> admin_capacity = 0 \<or> admin_capacity > REVOCATION_ADMINS_MAX)
      then (FZN_CHAIN_ERR_MALFORMED, store)
      else (FZN_CHAIN_OK, store\<lparr>rs_quorum := quorum, rs_has_admin := (admin_capability \<noteq> None),
              rs_admin_capability := (case admin_capability of Some c \<Rightarrow> c | None \<Rightarrow> rs_admin_capability store),
              rs_admins := (if admin_capability \<noteq> None then admins else None),
              rs_admin_capacity := (if admin_capability \<noteq> None then admin_capacity else 0),
              rs_admins_used := 0, rs_generation := rs_generation store + 1\<rparr>))"

definition fzn_revocation_store_set_acts :: "fzn_revocation_store \<Rightarrow> fzn_act_log_ops option \<Rightarrow>
    fzn_chain_err \<times> fzn_revocation_store" where
  "fzn_revocation_store_set_acts store acts =
     (FZN_CHAIN_OK, store\<lparr>rs_acts := acts, rs_generation := rs_generation store + 1\<rparr>)"

definition fzn_revocation_generation :: "fzn_revocation_store option \<Rightarrow> u64" where
  "fzn_revocation_generation store = (case store of Some s \<Rightarrow> rs_generation s | None \<Rightarrow> 0)"

definition fzn_admin_confirm_issue :: "key option \<Rightarrow> bytes option \<Rightarrow> fzn_sign_ops \<Rightarrow> fzn_chain_err \<times> bytes option" where
  "fzn_admin_confirm_issue confirmer grant sign =
     (case (confirmer, grant, so_sign sign) of
        (Some c, Some g, Some do_sign) \<Rightarrow>
          let body = [FZN_SIGNED_VERSION, FZN_OBJECT_ADMIN_CONFIRM] @ c @ g in
          (case do_sign body of
             None \<Rightarrow> (FZN_CHAIN_ERR_CHAIN_INVALID, Some body)
           | Some sig \<Rightarrow> (FZN_CHAIN_OK, Some (body @ sig)))
      | _ \<Rightarrow> (FZN_CHAIN_ERR_MALFORMED, None))"

section \<open>Looking an entry up\<close>

definition entries_of :: "fzn_revocation_store \<Rightarrow> fzn_revocation list" where
  "entries_of store = take (rs_used store) (the (rs_entries store))"

definition admins_of :: "fzn_revocation_store \<Rightarrow> fzn_revocation_admin list" where
  "admins_of store = take (rs_admins_used store) (the (rs_admins store))"

definition confirms_of :: "fzn_revocation_store \<Rightarrow> fzn_revocation_confirm list" where
  "confirms_of store = take (rs_confirms_used store) (the (rs_confirms store))"

definition same :: "key \<Rightarrow> cap_id \<Rightarrow> key \<Rightarrow> fzn_revocation \<Rightarrow> bool" where
  "same issuer capability grantee entry \<longleftrightarrow>
     rv_issuer entry = issuer \<and> rv_capability entry = capability \<and> rv_grantee entry = grantee"

definition find_entry :: "fzn_revocation_store \<Rightarrow> key \<Rightarrow> cap_id \<Rightarrow> key \<Rightarrow> nat" where
  "find_entry store issuer capability grantee = first_at (same issuer capability grantee) (entries_of store)"

definition fzn_revocation_covers :: "fzn_revocation_store option \<Rightarrow> key option \<Rightarrow> cap_id option \<Rightarrow>
    key option \<Rightarrow> bool" where
  "fzn_revocation_covers store issuer capability grantee =
     (case store of None \<Rightarrow> False
      | Some s \<Rightarrow>
        if corrupt s then True
        else case (rs_entries s, issuer, capability, grantee) of
            (Some es, Some i, Some c, Some g) \<Rightarrow>
              let at = find_entry s i c g in at < rs_used s \<and> \<not> rv_withdrawn (es ! at)
          | _ \<Rightarrow> False)"

definition fzn_revocation_lookup :: "fzn_revocation_store option \<Rightarrow> key option \<Rightarrow> cap_id option \<Rightarrow>
    key option \<Rightarrow> (bytes \<times> bool) option" where
  "fzn_revocation_lookup store issuer capability grantee =
     (case store of None \<Rightarrow> None
      | Some s \<Rightarrow>
        if corrupt s then None
        else case (rs_entries s, issuer, capability, grantee) of
            (Some es, Some i, Some c, Some g) \<Rightarrow>
              let at = find_entry s i c g in
              if at = rs_used s then None else Some (rv_id (es ! at), rv_withdrawn (es ! at))
          | _ \<Rightarrow> None)"

definition fzn_revocation_known :: "fzn_revocation_store option \<Rightarrow> key option \<Rightarrow> cap_id option \<Rightarrow>
    key option \<Rightarrow> bool" where
  "fzn_revocation_known store issuer capability grantee =
     (case store of None \<Rightarrow> False
      | Some s \<Rightarrow>
        if corrupt s then True
        else case (rs_entries s, issuer, capability, grantee) of
            (Some es, Some i, Some c, Some g) \<Rightarrow> find_entry s i c g < rs_used s
          | _ \<Rightarrow> False)"

definition find_admin :: "fzn_revocation_store \<Rightarrow> key \<Rightarrow> nat" where
  "find_admin store key = first_at (\<lambda>a. ad_key a = key) (admins_of store)"

section \<open>The question asked of a hop\<close>

record hop_question =
  hq_grantors :: "key list"
  hq_grantees :: "key list"
  hq_i :: nat
  hq_capability :: cap_id
  hq_admin_ok :: "bool list option"
  hq_any_issuer :: bool
  hq_floor :: "u64 option"

datatype hop_verdict = HOP_FREE | HOP_ROOT | HOP_LIVE | HOP_LATCHED

definition root_member :: "fzn_revocation_store \<Rightarrow> key \<Rightarrow> bool" where
  "root_member store k = (case rs_roots store of Some r \<Rightarrow> ro_member r k | None \<Rightarrow> False)"

definition root_entry :: "fzn_revocation_store \<Rightarrow> fzn_revocation \<Rightarrow> key option \<Rightarrow> bool" where
  "root_entry store entry root_key =
     (case rs_roots store of
        Some r \<Rightarrow> ro_member r (rv_issuer entry) \<and> ro_counts r (rv_issuer entry) (rv_held entry)
      | None \<Rightarrow> (case root_key of Some k \<Rightarrow> rv_issuer entry = k | None \<Rightarrow> False))"

definition counts :: "fzn_revocation_store \<Rightarrow> hop_question \<Rightarrow> fzn_revocation \<Rightarrow> bool" where
  "counts store h entry =
     (if rv_capability entry \<noteq> hq_capability h \<or> rv_grantee entry \<noteq> hq_grantees h ! hq_i h then False
      else if (case hq_floor h of Some f \<Rightarrow> rv_epoch entry \<le> f | None \<Rightarrow> False) then False
      else if hq_any_issuer h then
        (case hq_admin_ok h of
           Some ok \<Rightarrow>
             if rs_has_admin store \<and> \<not> root_member store (rv_issuer entry)
             then let a = find_admin store (rv_issuer entry) in \<not> (a < rs_admins_used store \<and> \<not> ok ! a)
             else True
         | None \<Rightarrow> True)
      else if root_member store (rv_issuer entry) then root_entry store entry None
      else if list_ex (\<lambda>j. hq_grantors h ! j = rv_issuer entry) [0..<Suc (hq_i h)] then True
      else if rs_has_admin store then
        let a = find_admin store (rv_issuer entry) in
        a < rs_admins_used store \<and> (case hq_admin_ok h of Some ok \<Rightarrow> ok ! a | None \<Rightarrow> True)
      else False)"

definition count_entries :: "(fzn_revocation \<Rightarrow> bool) \<Rightarrow> fzn_revocation_store \<Rightarrow> nat" where
  "count_entries P store = length (filter P (entries_of store))"

definition epoch_closed :: "fzn_revocation_store \<Rightarrow> hop_question \<Rightarrow> u64 \<Rightarrow> nat \<Rightarrow> bool" where
  "epoch_closed store h epoch q \<longleftrightarrow>
     q \<le> count_entries (\<lambda>e. counts store h e \<and> (rv_epoch e > epoch \<or> (rv_epoch e = epoch \<and> rv_withdrawn e))) store"

definition try_epoch :: "fzn_revocation_store \<Rightarrow> hop_question \<Rightarrow> nat \<Rightarrow> u64 \<Rightarrow> u64 \<Rightarrow> bool \<times> u64 \<Rightarrow> bool \<times> u64" where
  "try_epoch store h q first c = (\<lambda>(have, best).
     if c < first then (have, best)
     else if (\<not> have \<or> c < best) \<and> \<not> epoch_closed store h c q then (True, c)
     else (have, best))"

definition open_step :: "fzn_revocation_store \<Rightarrow> hop_question \<Rightarrow> nat \<Rightarrow> u64 \<Rightarrow> fzn_revocation \<Rightarrow>
    bool \<times> u64 \<Rightarrow> bool \<times> u64" where
  "open_step store h q first entry st =
     (if \<not> counts store h entry then st
      else let st' = try_epoch store h q first (rv_epoch entry) st in
        if rv_epoch entry = UINT64_MAX then st'
        else try_epoch store h q first (rv_epoch entry + 1) st')"

definition open_epoch :: "fzn_revocation_store \<Rightarrow> hop_question \<Rightarrow> nat \<Rightarrow> u64" where
  "open_epoch store h q =
     (if hq_floor h = Some UINT64_MAX then UINT64_MAX
      else let first = (case hq_floor h of Some f \<Rightarrow> f + 1 | None \<Rightarrow> 0);
               (have, best) = fold (open_step store h q first) (entries_of store)
                 (\<not> epoch_closed store h first q, first)
           in if have then best else UINT64_MAX)"

fun root_loop :: "fzn_revocation_store \<Rightarrow> key option \<Rightarrow> hop_question \<Rightarrow> fzn_revocation list \<Rightarrow> bool \<times> hop_question" where
  "root_loop store root_key h [] = (False, h)"
| "root_loop store root_key h (entry # es) =
     (if \<not> counts store h entry \<or> \<not> root_entry store entry root_key then root_loop store root_key h es
      else if \<not> rv_withdrawn entry then (True, h)
      else root_loop store root_key
        (h\<lparr>hq_floor := Some (case hq_floor h of Some f \<Rightarrow> if rv_epoch entry > f then rv_epoch entry else f
                                            | None \<Rightarrow> rv_epoch entry)\<rparr>) es)"

definition root_pass :: "fzn_revocation_store \<Rightarrow> hop_question \<Rightarrow> key option \<Rightarrow> bool \<times> hop_question" where
  "root_pass store h root_key =
     (if root_key = None \<and> rs_roots store = None then (False, h\<lparr>hq_floor := None\<rparr>)
      else root_loop store root_key (h\<lparr>hq_floor := None\<rparr>) (entries_of store))"

definition judge_hop :: "fzn_revocation_store \<Rightarrow> hop_question \<Rightarrow> key option \<Rightarrow> nat \<Rightarrow> hop_verdict \<times> u64 option" where
  "judge_hop store h0 root_key q =
     (let (by_root, h) = root_pass store h0 root_key in
      if by_root then (HOP_ROOT, None)
      else if q \<le> count_entries (\<lambda>e. counts store h e \<and> \<not> rv_withdrawn e) store then (HOP_LIVE, None)
      else if count_entries (counts store h) store < q then (HOP_FREE, None)
      else let epoch = open_epoch store h q;
               cast = count_entries (\<lambda>e. counts store h e \<and> rv_epoch e = epoch) store;
               left = count_entries (\<lambda>e. counts store h e \<and> rv_epoch e = epoch \<and> rv_withdrawn e) store
           in if q \<le> cast \<and> left < q then (HOP_LATCHED, Some epoch) else (HOP_FREE, None))"

definition quorum_of :: "fzn_revocation_store \<Rightarrow> nat" where
  "quorum_of store = (if rs_quorum store \<noteq> 0 then rs_quorum store else 1)"

definition judge_links :: "fzn_revocation_store \<Rightarrow> key list \<Rightarrow> key list \<Rightarrow> nat \<Rightarrow> cap_id \<Rightarrow> bool list option \<Rightarrow>
    bool list" where
  "judge_links store grantors grantees hop_count capability admin_ok =
     map (\<lambda>i. fst (judge_hop store \<lparr>hq_grantors = grantors, hq_grantees = grantees, hq_i = i,
            hq_capability = capability, hq_admin_ok = admin_ok, hq_any_issuer = False, hq_floor = None\<rparr>
            (Some (grantors ! 0)) (quorum_of store)) \<noteq> HOP_FREE) [0..<hop_count]"

section \<open>Admins who stand\<close>

definition root_confirms :: "fzn_revocation_store \<Rightarrow> key \<Rightarrow> key \<Rightarrow> bytes \<Rightarrow> bool" where
  "root_confirms store k first act =
     (case rs_roots store of Some r \<Rightarrow> ro_member r k \<and> ro_counts r k act | None \<Rightarrow> k = first)"

definition admin_rooted :: "fzn_revocation_store \<Rightarrow> fzn_revocation_admin \<Rightarrow> bool" where
  "admin_rooted store ad =
     (case rs_roots store of
        Some r \<Rightarrow> if ad_hop_count ad = 0 then True else ro_counts r (ad_grantor ad ! 0) (ad_first_act ad)
      | None \<Rightarrow> True)"

fun confirm_scan :: "fzn_revocation_store \<Rightarrow> bool list option \<Rightarrow> bool list \<Rightarrow> nat \<Rightarrow> fzn_revocation_admin \<Rightarrow>
    nat \<Rightarrow> fzn_revocation_confirm list \<Rightarrow> bool \<Rightarrow> key list \<Rightarrow> bool \<times> key list" where
  "confirm_scan store eligible confirmed need ad h [] by_root seen = (by_root, seen)"
| "confirm_scan store eligible confirmed need ad h (cf # cs) by_root seen =
     (if by_root \<or> need \<le> length seen then (by_root, seen)
      else if cf_grant cf \<noteq> ad_hop_id ad ! h \<or> cf_confirmer cf = ad_grantor ad ! h
      then confirm_scan store eligible confirmed need ad h cs by_root seen
      else if root_confirms store (cf_confirmer cf) (ad_grantor ad ! 0) (cf_act cf)
      then confirm_scan store eligible confirmed need ad h cs True seen
      else let b = find_admin store (cf_confirmer cf) in
        if rs_admins_used store \<le> b \<or> \<not> confirmed ! b \<or> (case eligible of Some el \<Rightarrow> \<not> el ! b | None \<Rightarrow> False)
        then confirm_scan store eligible confirmed need ad h cs by_root seen
        else confirm_scan store eligible confirmed need ad h cs by_root
               (if cf_confirmer cf \<in> set seen then seen else seen @ [cf_confirmer cf]))"

definition hop_confirmed :: "fzn_revocation_store \<Rightarrow> bool list option \<Rightarrow> bool list \<Rightarrow> nat \<Rightarrow>
    fzn_revocation_admin \<Rightarrow> nat \<Rightarrow> bool" where
  "hop_confirmed store eligible confirmed need ad h =
     (if ad_grantor ad ! h = ad_grantor ad ! 0 \<or> root_member store (ad_grantor ad ! h) then True
      else let (by_root, seen) = confirm_scan store eligible confirmed need ad h (confirms_of store) False []
           in by_root \<or> need \<le> length seen)"

definition confirm_one :: "fzn_revocation_store \<Rightarrow> bool list option \<Rightarrow> nat \<Rightarrow> nat \<Rightarrow> bool list \<times> bool \<Rightarrow>
    bool list \<times> bool" where
  "confirm_one store eligible need a = (\<lambda>(confirmed, changed).
     let ad = admins_of store ! a in
     if confirmed ! a \<or> \<not> admin_rooted store ad then (confirmed, changed)
     else if list_all (hop_confirmed store eligible confirmed need ad) [1..<ad_hop_count ad]
     then (confirmed[a := True], True)
     else (confirmed, changed))"

primrec confirm_rounds :: "fzn_revocation_store \<Rightarrow> bool list option \<Rightarrow> nat \<Rightarrow> nat \<Rightarrow> bool list \<Rightarrow> bool list" where
  "confirm_rounds store eligible need 0 confirmed = confirmed"
| "confirm_rounds store eligible need (Suc rounds) confirmed =
     (let (confirmed', changed) =
        fold (confirm_one store eligible need) [0..<rs_admins_used store] (confirmed, False)
      in if changed then confirm_rounds store eligible need rounds confirmed' else confirmed')"

definition confirm_admins :: "fzn_revocation_store \<Rightarrow> bool list option \<Rightarrow> bool list" where
  "confirm_admins store eligible =
     (let need = quorum_of store - 1;
          given = (rs_confirm_hash store = None \<or> need = 0);
          start = map (\<lambda>a. given \<and> admin_rooted store (admins_of store ! a)) [0..<rs_admins_used store]
      in if given then start
         else confirm_rounds store eligible need (Suc (rs_admins_used store)) start)"

definition standing_admins :: "fzn_revocation_store \<Rightarrow> bool list" where
  "standing_admins store =
     (let confirmed = confirm_admins store None;
          ok = map (\<lambda>a. let ad = admins_of store ! a in
                 confirmed ! a \<and> \<not> list_ex (\<lambda>x. x) (judge_links store (ad_grantor ad) (ad_grantee ad)
                    (ad_hop_count ad) (rs_admin_capability store) (Some confirmed)))
               [0..<rs_admins_used store];
          confirmed' = confirm_admins store (Some ok)
      in map (\<lambda>a. ok ! a \<and> confirmed' ! a) [0..<rs_admins_used store])"

definition fzn_revocation_admin_stands :: "fzn_revocation_store option \<Rightarrow> key option \<Rightarrow> bool" where
  "fzn_revocation_admin_stands store k =
     (case (store, k) of
        (Some s, Some key) \<Rightarrow>
          if corrupt s \<or> \<not> rs_has_admin s then False
          else let a = find_admin s key in
            if rs_admins_used s \<le> a then False else standing_admins s ! a
      | _ \<Rightarrow> False)"

fun act_scan :: "fzn_revocation_store \<Rightarrow> bool list \<Rightarrow> nat \<Rightarrow> key \<Rightarrow> bytes \<Rightarrow> key \<Rightarrow>
    fzn_revocation_confirm list \<Rightarrow> key list \<Rightarrow> bool" where
  "act_scan store admin_ok need issuer act root [] seen = (need \<le> length seen)"
| "act_scan store admin_ok need issuer act root (cf # cs) seen =
     (if need \<le> length seen then True
      else if cf_grant cf \<noteq> act \<or> cf_confirmer cf = issuer
      then act_scan store admin_ok need issuer act root cs seen
      else if root_confirms store (cf_confirmer cf) root (cf_act cf) then True
      else let b = find_admin store (cf_confirmer cf) in
        if rs_admins_used store \<le> b \<or> \<not> admin_ok ! b
        then act_scan store admin_ok need issuer act root cs seen
        else act_scan store admin_ok need issuer act root cs
               (if cf_confirmer cf \<in> set seen then seen else seen @ [cf_confirmer cf]))"

definition fzn_revocation_confirmed :: "fzn_revocation_store option \<Rightarrow> key option \<Rightarrow> bytes option \<Rightarrow>
    key option \<Rightarrow> bool" where
  "fzn_revocation_confirmed store issuer act root =
     (case (store, issuer, act, root) of
        (Some s, Some iss, Some ac, Some rt) \<Rightarrow>
          if corrupt s then False
          else if root_confirms s iss rt ac then True
          else if \<not> fzn_revocation_admin_stands store issuer then False
          else let need = quorum_of s - 1 in
            if rs_confirm_hash s = None \<or> need = 0 then True
            else act_scan s (standing_admins s) need iss ac rt (confirms_of s) []
      | _ \<Rightarrow> False)"

section \<open>The verdict on a chain\<close>

definition fzn_revocation_covers_links :: "fzn_revocation_store option \<Rightarrow> key list option \<Rightarrow> key list option \<Rightarrow>
    cap_id option \<Rightarrow> bool list" where
  "fzn_revocation_covers_links store grantors grantees capability =
     (case store of None \<Rightarrow> replicate FZN_CHAIN_MAX_HOPS False
      | Some s \<Rightarrow>
        if corrupt s then replicate FZN_CHAIN_MAX_HOPS True
        else case (rs_entries s, grantors, grantees, capability) of
            (Some _, Some grs, Some ges, Some cap) \<Rightarrow>
              if grs = [] \<or> length grs > FZN_CHAIN_MAX_HOPS then replicate FZN_CHAIN_MAX_HOPS False
              else judge_links s grs ges (length grs) cap (Some (standing_admins s)) @
                   replicate (FZN_CHAIN_MAX_HOPS - length grs) False
          | _ \<Rightarrow> replicate FZN_CHAIN_MAX_HOPS False)"

definition fzn_revocation_covers_chain :: "fzn_revocation_store option \<Rightarrow> bytes list \<Rightarrow> cap_id option \<Rightarrow>
    bool list" where
  "fzn_revocation_covers_chain store hops capability =
     (if (case store of None \<Rightarrow> True | Some s \<Rightarrow> corrupt s \<or> rs_entries s = None) \<or> capability = None \<or>
         hops = [] \<or> length hops > FZN_CHAIN_MAX_HOPS
      then fzn_revocation_covers_links store None None capability
      else fzn_revocation_covers_links store (Some (map fzn_hop_grantor hops)) (Some (map fzn_hop_grantee hops))
             capability)"

definition undo_floor :: "fzn_revocation_store \<Rightarrow> key \<Rightarrow> fzn_revocation \<Rightarrow> hop_question \<Rightarrow> hop_question" where
  "undo_floor store root_key entry h =
     (if rv_withdrawn entry \<and> counts store h entry \<and> root_entry store entry (Some root_key) \<and>
         (case hq_floor h of Some f \<Rightarrow> rv_epoch entry > f | None \<Rightarrow> True)
      then h\<lparr>hq_floor := Some (rv_epoch entry)\<rparr> else h)"

definition binds :: "fzn_revocation_store \<Rightarrow> hop_question \<Rightarrow> hop_verdict \<times> u64 option \<Rightarrow> fzn_revocation \<Rightarrow> bool" where
  "binds store h verdict entry \<longleftrightarrow> counts store h entry \<and>
     \<not> (rv_withdrawn entry \<and> \<not> (fst verdict = HOP_LATCHED \<and> snd verdict = Some (rv_epoch entry)))"

definition fzn_revocation_act_stands :: "fzn_revocation_store option \<Rightarrow> key list option \<Rightarrow> key list option \<Rightarrow>
    cap_id option \<Rightarrow> nat \<Rightarrow> bytes option \<Rightarrow> bool" where
  "fzn_revocation_act_stands store grantors grantees capability i act =
     (case (store, act) of
        (Some s, Some ac) \<Rightarrow>
          if corrupt s then False
          else (case (rs_entries s, grantors, grantees, capability) of
              (Some _, Some grs, Some ges, Some cap) \<Rightarrow>
                if grs = [] \<or> length grs > FZN_CHAIN_MAX_HOPS \<or> length grs \<le> i then False
                else let h = \<lparr>hq_grantors = grs, hq_grantees = ges, hq_i = i, hq_capability = cap,
                              hq_admin_ok = Some (standing_admins s), hq_any_issuer = False, hq_floor = None\<rparr>;
                         verdict = judge_hop s h (Some (grs ! 0)) (quorum_of s) in
                  if fst verdict = HOP_FREE then True
                  else let h' = fold (undo_floor s (grs ! 0)) (entries_of s) h in
                    (case rs_acts s of None \<Rightarrow> False
                     | Some stands \<Rightarrow>
                       let bs = filter (binds s h' verdict) (entries_of s) in
                       list_all (\<lambda>e. \<not> all_zero (rv_cut e) \<and> stands (ges ! i) (rv_cut e) ac) bs \<and> bs \<noteq> [])
            | _ \<Rightarrow> False)
      | _ \<Rightarrow> False)"

definition fzn_revocation_current_epoch :: "fzn_revocation_store option \<Rightarrow> key option \<Rightarrow> cap_id option \<Rightarrow>
    key option \<Rightarrow> u64" where
  "fzn_revocation_current_epoch store root capability grantee =
     (case (store, capability, grantee) of
        (Some s, Some cap, Some ge) \<Rightarrow>
          if corrupt s \<or> rs_entries s = None then 0
          else let h = \<lparr>hq_grantors = [], hq_grantees = [ge], hq_i = 0, hq_capability = cap,
                    hq_admin_ok = (if rs_has_admin s \<and> rs_admins_used s \<noteq> 0 then Some (standing_admins s) else None),
                    hq_any_issuer = True, hq_floor = None\<rparr>
               in open_epoch s (snd (root_pass s h root)) (quorum_of s)
      | _ \<Rightarrow> 0)"

section \<open>What a row is about\<close>

definition triple :: "fzn_revocation \<Rightarrow> key \<times> cap_id \<times> key" where
  "triple e = (rv_issuer e, rv_capability e, rv_grantee e)"

end
