(* ===== verification/Manifest.thy ===== *)
theory Manifest
  imports Revocation_Store
begin

text \<open>
  Manifests (\<open>chain/manifest.c\<close>, \<open>chain/manifest.h\<close>): an issuer's signed list of what it has
  revoked, what a host that follows the issuer finds missing in its own store, and the gate a
  verifier reads from that.

  A record is the bytes a view points at. The entries of a manifest under construction are a list
  of 97-byte entries, which is what the buffer holds behind the header.
\<close>

section \<open>Data\<close>

datatype fzn_manifest_err = FZN_MANIFEST_OK | FZN_MANIFEST_ERR_MALFORMED | FZN_MANIFEST_ERR_SHAPE
  | FZN_MANIFEST_ERR_SIGNATURE | FZN_MANIFEST_ERR_UNKNOWN_ISSUER | FZN_MANIFEST_ERR_FULL
  | FZN_MANIFEST_ERR_DEFICIT_FULL

record fzn_manifest_pair =
  mp_capability :: cap_id
  mp_grantee :: key

record fzn_manifest_entry =
  me_pair :: fzn_manifest_pair
  me_id :: bytes
  me_state :: u8

record fzn_manifest_issuer_t =
  mi_issuer :: key
  mi_pairs_seen :: nat
  mi_overflowed :: bool

record fzn_manifest_deficit_t =
  md_issuer :: key
  md_capability :: cap_id
  md_grantee :: key

record fzn_manifest_state =
  ms_issuers :: "fzn_manifest_issuer_t list option"
  ms_issuer_capacity :: nat
  ms_issuer_used :: nat
  ms_deficit :: "fzn_manifest_deficit_t list option"
  ms_deficit_capacity :: nat
  ms_deficit_used :: nat

record fzn_manifest_offer =
  mo_held :: nat
  mo_examined :: nat
  mo_truncated :: bool

abbreviation FZN_MANIFEST_KEY_LEN :: nat where "FZN_MANIFEST_KEY_LEN \<equiv> 64"
abbreviation FZN_MANIFEST_PAIR_LEN :: nat where "FZN_MANIFEST_PAIR_LEN \<equiv> 97"
abbreviation FZN_MANIFEST_HEADER_LEN :: nat where "FZN_MANIFEST_HEADER_LEN \<equiv> 36"
abbreviation FZN_MANIFEST_MAX_PAIRS :: nat where "FZN_MANIFEST_MAX_PAIRS \<equiv> 2701"
abbreviation FZN_MANIFEST_REVOKED :: u8 where "FZN_MANIFEST_REVOKED \<equiv> 0"
abbreviation FZN_MANIFEST_WITHDRAWN :: u8 where "FZN_MANIFEST_WITHDRAWN \<equiv> 1"

definition FZN_MANIFEST_BODY_LEN :: "nat \<Rightarrow> nat" where
  "FZN_MANIFEST_BODY_LEN pairs = FZN_MANIFEST_HEADER_LEN + FZN_MANIFEST_PAIR_LEN * pairs"

definition FZN_MANIFEST_LEN :: "nat \<Rightarrow> nat" where
  "FZN_MANIFEST_LEN pairs = FZN_MANIFEST_BODY_LEN pairs + FZN_SIG_LEN"

section \<open>Comparing pairs\<close>

text \<open>\<open>memcmp\<close> on the first bytes of two arrays: the sign of the first difference.\<close>

fun memcmp :: "bytes \<Rightarrow> bytes \<Rightarrow> int" where
  "memcmp (x # xs) (y # ys) = (if x < y then - 1 else if y < x then 1 else memcmp xs ys)"
| "memcmp _ _ = 0"

definition pair_cmp :: "bytes \<Rightarrow> bytes \<Rightarrow> int" where
  "pair_cmp a b = memcmp (take FZN_MANIFEST_KEY_LEN a) (take FZN_MANIFEST_KEY_LEN b)"

definition pair_struct_cmp :: "fzn_manifest_pair \<Rightarrow> fzn_manifest_pair \<Rightarrow> int" where
  "pair_struct_cmp a b =
     (let cmp = memcmp (mp_capability a) (mp_capability b) in
      if cmp \<noteq> 0 then cmp else memcmp (mp_grantee a) (mp_grantee b))"

section \<open>The tables\<close>

definition state_sound :: "fzn_manifest_state option \<Rightarrow> bool" where
  "state_sound state =
     (case state of None \<Rightarrow> False
      | Some st \<Rightarrow>
        if ms_issuer_used st > ms_issuer_capacity st then False
        else if ms_deficit_used st > ms_deficit_capacity st then False
        else if ms_issuer_used st > 0 \<and> ms_issuers st = None then False
        else if ms_deficit_used st > 0 \<and> ms_deficit st = None then False
        else True)"

definition followed :: "fzn_manifest_state \<Rightarrow> fzn_manifest_issuer_t list" where
  "followed st = take (ms_issuer_used st) (the (ms_issuers st))"

definition missing :: "fzn_manifest_state \<Rightarrow> fzn_manifest_deficit_t list" where
  "missing st = take (ms_deficit_used st) (the (ms_deficit st))"

definition find_issuer :: "fzn_manifest_state \<Rightarrow> key \<Rightarrow> nat" where
  "find_issuer st issuer = first_at (\<lambda>i. mi_issuer i = issuer) (followed st)"

definition names :: "key \<Rightarrow> cap_id \<Rightarrow> key \<Rightarrow> fzn_manifest_deficit_t \<Rightarrow> bool" where
  "names issuer capability grantee d \<longleftrightarrow>
     md_issuer d = issuer \<and> md_capability d = capability \<and> md_grantee d = grantee"

definition deficit_holds :: "fzn_manifest_state \<Rightarrow> key \<Rightarrow> cap_id \<Rightarrow> key \<Rightarrow> bool" where
  "deficit_holds st issuer capability grantee = list_ex (names issuer capability grantee) (missing st)"

section \<open>The signed record\<close>

definition entry_at :: "nat \<Rightarrow> bytes \<Rightarrow> bytes" where
  "entry_at i b = bytes_at (FZN_MANIFEST_HEADER_LEN + FZN_MANIFEST_PAIR_LEN * i) FZN_MANIFEST_PAIR_LEN b"

definition fzn_manifest_issuer :: "bytes \<Rightarrow> key" where
  "fzn_manifest_issuer rec = bytes_at 2 FZN_PUBKEY_LEN rec"

definition fzn_manifest_count :: "bytes \<Rightarrow> nat" where
  "fzn_manifest_count rec = unat (fzn_get_be16 (bytes_at 34 2 rec))"

definition fzn_manifest_capability :: "bytes \<Rightarrow> nat \<Rightarrow> cap_id" where
  "fzn_manifest_capability rec i =
     bytes_at (FZN_MANIFEST_HEADER_LEN + FZN_MANIFEST_PAIR_LEN * i) FZN_CAP_ID_LEN rec"

definition fzn_manifest_grantee :: "bytes \<Rightarrow> nat \<Rightarrow> key" where
  "fzn_manifest_grantee rec i =
     bytes_at (FZN_MANIFEST_HEADER_LEN + FZN_MANIFEST_PAIR_LEN * i + FZN_CAP_ID_LEN) FZN_PUBKEY_LEN rec"

definition fzn_manifest_id :: "bytes \<Rightarrow> nat \<Rightarrow> bytes" where
  "fzn_manifest_id rec i =
     bytes_at (FZN_MANIFEST_HEADER_LEN + FZN_MANIFEST_PAIR_LEN * i + 64) FZN_REVOCATION_ID_LEN rec"

definition fzn_manifest_is_withdrawn :: "bytes \<Rightarrow> nat \<Rightarrow> bool" where
  "fzn_manifest_is_withdrawn rec i \<longleftrightarrow>
     rec ! (FZN_MANIFEST_HEADER_LEN + FZN_MANIFEST_PAIR_LEN * i + 96) = FZN_MANIFEST_WITHDRAWN"

definition fzn_manifest_signature :: "bytes \<Rightarrow> bytes" where
  "fzn_manifest_signature rec = bytes_at (FZN_MANIFEST_BODY_LEN (fzn_manifest_count rec)) FZN_SIG_LEN rec"

definition fzn_manifest_signed_bytes :: "bytes \<Rightarrow> bytes" where
  "fzn_manifest_signed_bytes rec = bytes_at 0 (FZN_MANIFEST_BODY_LEN (fzn_manifest_count rec)) rec"

definition fzn_manifest_open :: "bytes option \<Rightarrow> fzn_manifest_err \<times> bytes option" where
  "fzn_manifest_open bytes =
     (case bytes of None \<Rightarrow> (FZN_MANIFEST_ERR_MALFORMED, None)
      | Some b \<Rightarrow>
        if length b < FZN_MANIFEST_LEN 0 then (FZN_MANIFEST_ERR_SHAPE, None)
        else if b ! 0 \<noteq> FZN_SIGNED_VERSION then (FZN_MANIFEST_ERR_SHAPE, None)
        else if b ! 1 \<noteq> FZN_OBJECT_MANIFEST then (FZN_MANIFEST_ERR_SHAPE, None)
        else let cnt = unat (fzn_get_be16 (bytes_at 34 2 b)) in
          if cnt > FZN_MANIFEST_MAX_PAIRS then (FZN_MANIFEST_ERR_SHAPE, None)
          else if length b \<noteq> FZN_MANIFEST_LEN cnt then (FZN_MANIFEST_ERR_SHAPE, None)
          else if list_ex (\<lambda>i. pair_cmp (entry_at (i - 1) b) (entry_at i b) \<ge> 0) [1..<cnt]
          then (FZN_MANIFEST_ERR_SHAPE, None)
          else if list_ex (\<lambda>i. let state = b ! (FZN_MANIFEST_HEADER_LEN + FZN_MANIFEST_PAIR_LEN * i + 96) in
              state \<noteq> FZN_MANIFEST_REVOKED \<and> state \<noteq> FZN_MANIFEST_WITHDRAWN) [0..<cnt]
          then (FZN_MANIFEST_ERR_SHAPE, None)
          else (FZN_MANIFEST_OK, Some b))"

definition entry_bytes :: "fzn_manifest_entry \<Rightarrow> bytes" where
  "entry_bytes e = mp_capability (me_pair e) @ mp_grantee (me_pair e) @ me_id e @ [me_state e]"

definition manifest_header :: "key \<Rightarrow> nat \<Rightarrow> bytes" where
  "manifest_header issuer cnt =
     [FZN_SIGNED_VERSION, FZN_OBJECT_MANIFEST] @ issuer @ fzn_put_be16 (of_nat cnt)"

definition fzn_manifest_encode :: "nat \<Rightarrow> key option \<Rightarrow> fzn_manifest_entry list option \<Rightarrow> nat \<Rightarrow>
    fzn_manifest_err \<times> bytes option" where
  "fzn_manifest_encode out_cap issuer entries cnt =
     (case issuer of None \<Rightarrow> (FZN_MANIFEST_ERR_MALFORMED, None)
      | Some iss \<Rightarrow>
        if cnt > 0 \<and> entries = None then (FZN_MANIFEST_ERR_MALFORMED, None)
        else let es = (case entries of Some es \<Rightarrow> take cnt es | None \<Rightarrow> []) in
          if cnt > FZN_MANIFEST_MAX_PAIRS then (FZN_MANIFEST_ERR_SHAPE, None)
          else if out_cap < FZN_MANIFEST_LEN cnt then (FZN_MANIFEST_ERR_MALFORMED, None)
          else if list_ex (\<lambda>e. me_state e \<noteq> FZN_MANIFEST_REVOKED \<and> me_state e \<noteq> FZN_MANIFEST_WITHDRAWN) es
          then (FZN_MANIFEST_ERR_SHAPE, None)
          else if list_ex (\<lambda>i. pair_struct_cmp (me_pair (es ! (i - 1))) (me_pair (es ! i)) \<ge> 0) [1..<cnt]
          then (FZN_MANIFEST_ERR_SHAPE, None)
          else (FZN_MANIFEST_OK, Some (manifest_header iss cnt @ concat (map entry_bytes es) @
                 replicate FZN_SIG_LEN 0)))"

section \<open>Issuing\<close>

definition candidate :: "fzn_revocation \<Rightarrow> bytes" where
  "candidate e = rv_capability e @ rv_grantee e @ rv_id e @
     [if rv_withdrawn e then FZN_MANIFEST_WITHDRAWN else FZN_MANIFEST_REVOKED]"

definition insert_entry :: "bytes \<Rightarrow> bytes list \<Rightarrow> bytes list" where
  "insert_entry cand pairs =
     (let at = first_at (\<lambda>p. pair_cmp p cand \<ge> 0) pairs in
      if at < length pairs \<and> pair_cmp (pairs ! at) cand = 0 then pairs
      else take at pairs @ cand # drop at pairs)"

primrec issue_loop :: "key \<Rightarrow> nat \<Rightarrow> fzn_revocation list \<Rightarrow> bytes list \<Rightarrow> fzn_manifest_err + bytes list" where
  "issue_loop issuer out_cap [] pairs = Inr pairs"
| "issue_loop issuer out_cap (e # es) pairs =
     (if rv_issuer e \<noteq> issuer then issue_loop issuer out_cap es pairs
      else if length pairs \<ge> FZN_MANIFEST_MAX_PAIRS then Inl FZN_MANIFEST_ERR_SHAPE
      else if out_cap < FZN_MANIFEST_LEN (length pairs + 1) then Inl FZN_MANIFEST_ERR_MALFORMED
      else issue_loop issuer out_cap es (insert_entry (candidate e) pairs))"

definition fzn_manifest_issue :: "key option \<Rightarrow> fzn_revocation_store option \<Rightarrow> fzn_sign_ops \<Rightarrow> nat \<Rightarrow>
    fzn_manifest_err \<times> bytes option" where
  "fzn_manifest_issue issuer store sign out_cap =
     (case (issuer, so_sign sign) of
        (Some iss, Some do_sign) \<Rightarrow>
          if \<not> fzn_revocation_store_sound store then (FZN_MANIFEST_ERR_MALFORMED, None)
          else if out_cap < FZN_MANIFEST_LEN 0 then (FZN_MANIFEST_ERR_MALFORMED, None)
          else (case issue_loop iss out_cap (case store of Some s \<Rightarrow> entries_of s | None \<Rightarrow> []) [] of
              Inl err \<Rightarrow> (err, None)
            | Inr pairs \<Rightarrow>
              let cnt = length pairs;
                  out = manifest_header iss cnt @ concat pairs @ replicate FZN_SIG_LEN 0 in
              (case fzn_manifest_open (Some out) of
                 (FZN_MANIFEST_OK, Some rec) \<Rightarrow>
                   (case do_sign (fzn_manifest_signed_bytes rec) of
                      None \<Rightarrow> (FZN_MANIFEST_ERR_SIGNATURE, Some (replicate (FZN_MANIFEST_LEN cnt) 0))
                    | Some sig \<Rightarrow> (FZN_MANIFEST_OK, Some (put_at (FZN_MANIFEST_BODY_LEN cnt) sig out)))
               | (err, _) \<Rightarrow> (err, Some out)))
      | _ \<Rightarrow> (FZN_MANIFEST_ERR_MALFORMED, None))"

section \<open>Following and admitting\<close>

definition fzn_manifest_init :: "fzn_manifest_issuer_t list option \<Rightarrow> nat \<Rightarrow> fzn_manifest_deficit_t list option \<Rightarrow>
    nat \<Rightarrow> fzn_manifest_err \<times> fzn_manifest_state option" where
  "fzn_manifest_init issuers issuer_capacity deficit deficit_capacity =
     (if issuers = None \<or> deficit = None \<or> issuer_capacity = 0 \<or> deficit_capacity = 0
      then (FZN_MANIFEST_ERR_MALFORMED, None)
      else (FZN_MANIFEST_OK, Some \<lparr>ms_issuers = issuers, ms_issuer_capacity = issuer_capacity, ms_issuer_used = 0,
        ms_deficit = deficit, ms_deficit_capacity = deficit_capacity, ms_deficit_used = 0\<rparr>))"

definition fzn_manifest_follow :: "fzn_manifest_state \<Rightarrow> key option \<Rightarrow> fzn_manifest_err \<times> fzn_manifest_state" where
  "fzn_manifest_follow st issuer =
     (case (issuer, ms_issuers st) of
        (Some iss, Some is) \<Rightarrow>
          if \<not> state_sound (Some st) then (FZN_MANIFEST_ERR_MALFORMED, st)
          else if find_issuer st iss < ms_issuer_used st then (FZN_MANIFEST_OK, st)
          else if ms_issuer_used st \<ge> ms_issuer_capacity st then (FZN_MANIFEST_ERR_FULL, st)
          else (FZN_MANIFEST_OK, st\<lparr>ms_issuers := Some (is[ms_issuer_used st :=
                  \<lparr>mi_issuer = iss, mi_pairs_seen = 0, mi_overflowed = False\<rparr>]),
                ms_issuer_used := Suc (ms_issuer_used st)\<rparr>)
      | _ \<Rightarrow> (FZN_MANIFEST_ERR_MALFORMED, st))"

definition ahead :: "fzn_revocation_store option \<Rightarrow> bytes \<Rightarrow> nat \<Rightarrow> bool" where
  "ahead store rec i =
     (case fzn_revocation_lookup store (Some (fzn_manifest_issuer rec)) (Some (fzn_manifest_capability rec i))
         (Some (fzn_manifest_grantee rec i)) of
        None \<Rightarrow> False
      | Some (mine, mine_withdrawn) \<Rightarrow>
        if mine \<noteq> fzn_manifest_id rec i then False
        else \<not> (fzn_manifest_is_withdrawn rec i \<and> \<not> mine_withdrawn))"

definition set_overflowed :: "nat \<Rightarrow> bool \<Rightarrow> fzn_manifest_state \<Rightarrow> fzn_manifest_state" where
  "set_overflowed which v st =
     st\<lparr>ms_issuers := map_option (\<lambda>is. is[which := (is ! which)\<lparr>mi_overflowed := v\<rparr>]) (ms_issuers st)\<rparr>"

definition admit_pair :: "fzn_revocation_store option \<Rightarrow> bytes \<Rightarrow> nat \<Rightarrow> nat \<Rightarrow> fzn_manifest_state \<times> nat \<Rightarrow>
    fzn_manifest_state \<times> nat" where
  "admit_pair store rec which i = (\<lambda>(st, dropped).
     if ahead store rec i then (st, dropped)
     else if deficit_holds st (fzn_manifest_issuer rec) (fzn_manifest_capability rec i) (fzn_manifest_grantee rec i)
     then (st, dropped)
     else if ms_deficit_used st \<ge> ms_deficit_capacity st then (set_overflowed which True st, Suc dropped)
     else (st\<lparr>ms_deficit := map_option (\<lambda>d. d[ms_deficit_used st :=
             \<lparr>md_issuer = fzn_manifest_issuer rec, md_capability = fzn_manifest_capability rec i,
              md_grantee = fzn_manifest_grantee rec i\<rparr>]) (ms_deficit st),
           ms_deficit_used := Suc (ms_deficit_used st)\<rparr>, dropped))"

definition settle_counts :: "nat \<Rightarrow> nat \<Rightarrow> nat \<Rightarrow> fzn_manifest_state \<Rightarrow> fzn_manifest_state" where
  "settle_counts which cnt dropped st =
     (if cnt \<ge> mi_pairs_seen (the (ms_issuers st) ! which)
      then st\<lparr>ms_issuers := map_option (\<lambda>is. is[which := (is ! which)\<lparr>mi_pairs_seen := cnt,
             mi_overflowed := (if dropped = 0 then False else mi_overflowed (is ! which))\<rparr>]) (ms_issuers st)\<rparr>
      else st)"

definition fzn_manifest_admit :: "fzn_manifest_state \<Rightarrow> fzn_revocation_store option \<Rightarrow> bytes option \<Rightarrow>
    fzn_sign_ops \<Rightarrow> fzn_manifest_err \<times> fzn_manifest_state" where
  "fzn_manifest_admit st store rec sign =
     (if \<not> state_sound (Some st) \<or> ms_issuers st = None \<or> ms_deficit st = None
      then (FZN_MANIFEST_ERR_MALFORMED, st)
      else case (so_verify sign, rec) of
          (Some verify, Some r) \<Rightarrow>
            let which = find_issuer st (fzn_manifest_issuer r) in
            if which \<ge> ms_issuer_used st then (FZN_MANIFEST_ERR_UNKNOWN_ISSUER, st)
            else if \<not> fzn_revocation_store_sound store then (FZN_MANIFEST_ERR_MALFORMED, st)
            else if \<not> verify (fzn_manifest_issuer r) (fzn_manifest_signed_bytes r) (fzn_manifest_signature r)
            then (FZN_MANIFEST_ERR_SIGNATURE, st)
            else let cnt = fzn_manifest_count r;
                     (st', dropped) = fold (admit_pair store r which) [0..<cnt] (st, 0);
                     st'' = settle_counts which cnt dropped st'
                 in if dropped \<noteq> 0 then (FZN_MANIFEST_ERR_DEFICIT_FULL, st'') else (FZN_MANIFEST_OK, st'')
        | _ \<Rightarrow> (FZN_MANIFEST_ERR_MALFORMED, st))"

text \<open>The loop of \<open>fzn_manifest_satisfy\<close>: a match is closed over with \<open>memmove\<close> and its index looked at again.\<close>

function satisfy_loop :: "(fzn_manifest_deficit_t \<Rightarrow> bool) \<Rightarrow> nat \<Rightarrow> fzn_manifest_deficit_t list \<times> nat \<times> nat \<Rightarrow>
    fzn_manifest_deficit_t list \<times> nat \<times> nat" where
  "satisfy_loop P i (ds, used, removed) =
     (if i < used then
        if P (ds ! i)
        then satisfy_loop P i (put_at i (bytes_at (i + 1) (used - i - 1) ds) ds, used - 1, removed + 1)
        else satisfy_loop P (Suc i) (ds, used, removed)
      else (ds, used, removed))"
  by pat_completeness auto
termination by (relation "measure (\<lambda>(P, i, ds, used, removed). used - i)") auto

declare satisfy_loop.simps [simp del]

definition fzn_manifest_satisfy :: "fzn_manifest_state option \<Rightarrow> key option \<Rightarrow> cap_id option \<Rightarrow> key option \<Rightarrow>
    nat \<times> fzn_manifest_state option" where
  "fzn_manifest_satisfy state issuer capability grantee =
     (case state of None \<Rightarrow> (0, state)
      | Some st \<Rightarrow>
        (case (ms_deficit st, issuer, capability, grantee) of
           (Some ds, Some iss, Some cap, Some ge) \<Rightarrow>
             if \<not> state_sound state then (0, state)
             else let (ds', used', removed) = satisfy_loop (names iss cap ge) 0 (ds, ms_deficit_used st, 0)
                  in (removed, Some (st\<lparr>ms_deficit := Some ds', ms_deficit_used := used'\<rparr>))
         | _ \<Rightarrow> (0, state)))"

section \<open>Asking\<close>

definition fzn_manifest_pending :: "fzn_manifest_state option \<Rightarrow> key option \<Rightarrow> nat" where
  "fzn_manifest_pending state issuer =
     (case (state, issuer) of
        (Some st, Some iss) \<Rightarrow>
          if \<not> state_sound state \<or> ms_deficit st = None then 0
          else length (filter (\<lambda>d. md_issuer d = iss) (missing st))
      | _ \<Rightarrow> 0)"

definition fzn_manifest_follows :: "fzn_manifest_state option \<Rightarrow> key option \<Rightarrow> bool" where
  "fzn_manifest_follows state issuer =
     (case (state, issuer) of
        (Some st, Some iss) \<Rightarrow>
          if \<not> state_sound state \<or> ms_issuers st = None then False else find_issuer st iss < ms_issuer_used st
      | _ \<Rightarrow> False)"

definition fzn_manifest_overflowed :: "fzn_manifest_state option \<Rightarrow> key option \<Rightarrow> bool" where
  "fzn_manifest_overflowed state issuer =
     (case (state, issuer) of
        (Some st, Some iss) \<Rightarrow>
          if \<not> state_sound state \<or> ms_issuers st = None then True
          else let which = find_issuer st iss in
            if which \<ge> ms_issuer_used st then True else mi_overflowed (the (ms_issuers st) ! which)
      | _ \<Rightarrow> True)"

definition fzn_manifest_plan_offer :: "fzn_revocation_store option \<Rightarrow> fzn_manifest_deficit_t list option \<Rightarrow> nat \<Rightarrow>
    bool list option \<Rightarrow> nat \<Rightarrow> fzn_manifest_err \<times> bool list option \<times> fzn_manifest_offer" where
  "fzn_manifest_plan_offer store wants want_count holds holds_cap =
     (let zero = \<lparr>mo_held = 0, mo_examined = 0, mo_truncated = False\<rparr> in
      case holds of None \<Rightarrow> (FZN_MANIFEST_ERR_MALFORMED, holds, zero)
      | Some hs \<Rightarrow>
        if holds_cap = 0 then (FZN_MANIFEST_ERR_MALFORMED, holds, zero)
        else if want_count > 0 \<and> wants = None then (FZN_MANIFEST_ERR_MALFORMED, holds, zero)
        else if \<not> fzn_revocation_store_sound store then (FZN_MANIFEST_ERR_MALFORMED, holds, zero)
        else let n = (if want_count > holds_cap then holds_cap else want_count);
                 have = map (\<lambda>w. fzn_revocation_known store (Some (md_issuer w)) (Some (md_capability w))
                          (Some (md_grantee w))) (take n (case wants of Some ws \<Rightarrow> ws | None \<Rightarrow> []))
             in (FZN_MANIFEST_OK, Some (put_at 0 have hs),
                 \<lparr>mo_held = length (filter (\<lambda>x. x) have), mo_examined = n, mo_truncated = (want_count > holds_cap)\<rparr>))"

primrec deficit_loop :: "key \<Rightarrow> nat \<Rightarrow> nat \<Rightarrow> nat \<Rightarrow> fzn_manifest_deficit_t list \<Rightarrow>
    nat \<times> fzn_manifest_pair list \<times> nat \<Rightarrow> nat \<times> fzn_manifest_pair list \<times> nat" where
  "deficit_loop issuer tot from out_cap [] st = st"
| "deficit_loop issuer tot from out_cap (d # ds) st =
     (let (pos, out, written) = st in
      if md_issuer d \<noteq> issuer then deficit_loop issuer tot from out_cap ds st
      else let rel = (pos + tot - from) mod tot in
        if rel \<ge> out_cap then deficit_loop issuer tot from out_cap ds (pos + 1, out, written)
        else deficit_loop issuer tot from out_cap ds (pos + 1,
               out[rel := \<lparr>mp_capability = md_capability d, mp_grantee = md_grantee d\<rparr>], written + 1))"

text \<open>The result: pairs written, the array, pairs dropped, and where the next call starts.\<close>

definition fzn_manifest_deficit_from :: "fzn_manifest_state option \<Rightarrow> key option \<Rightarrow> nat \<Rightarrow>
    fzn_manifest_pair list option \<Rightarrow> nat \<Rightarrow> nat \<times> fzn_manifest_pair list option \<times> nat \<times> nat" where
  "fzn_manifest_deficit_from state issuer from out out_cap =
     (case (state, issuer) of
        (Some st, Some iss) \<Rightarrow>
          if \<not> state_sound state \<or> ms_deficit st = None \<or> (out_cap > 0 \<and> out = None) then (0, out, 0, 0)
          else let tot = length (filter (\<lambda>d. md_issuer d = iss) (missing st)) in
            if tot = 0 then (0, out, 0, 0)
            else let start = from mod tot;
                     (pos, arr, written) = deficit_loop iss tot start out_cap (missing st)
                       (0, case out of Some o' \<Rightarrow> o' | None \<Rightarrow> [], 0)
                 in (written, map_option (\<lambda>_. arr) out, tot - written, (start + written) mod tot)
      | _ \<Rightarrow> (0, out, 0, 0))"

definition fzn_manifest_deficit :: "fzn_manifest_state option \<Rightarrow> key option \<Rightarrow> fzn_manifest_pair list option \<Rightarrow> nat \<Rightarrow>
    nat \<times> fzn_manifest_pair list option \<times> nat" where
  "fzn_manifest_deficit state issuer out out_cap =
     (let (written, arr, dropped, next) = fzn_manifest_deficit_from state issuer 0 out out_cap
      in (written, arr, dropped))"

definition fzn_manifest_err_str :: "fzn_manifest_err \<Rightarrow> string" where
  "fzn_manifest_err_str err =
     (case err of
        FZN_MANIFEST_OK \<Rightarrow> ''ok''
      | FZN_MANIFEST_ERR_MALFORMED \<Rightarrow> ''malformed argument''
      | FZN_MANIFEST_ERR_SHAPE \<Rightarrow> ''not the shape the layout describes''
      | FZN_MANIFEST_ERR_SIGNATURE \<Rightarrow> ''signature does not check out''
      | FZN_MANIFEST_ERR_UNKNOWN_ISSUER \<Rightarrow> ''manifest from an issuer nobody follows''
      | FZN_MANIFEST_ERR_FULL \<Rightarrow> ''no room to follow another issuer''
      | FZN_MANIFEST_ERR_DEFICIT_FULL \<Rightarrow> ''deficit table is full'')"

section \<open>The order of pairs\<close>

lemma memcmp_eq: "length a = length b \<Longrightarrow> memcmp a b = 0 \<longleftrightarrow> a = b"
  by (induction a b rule: memcmp.induct) auto

lemma memcmp_anti: "memcmp b a = - memcmp a b"
  by (induction a b rule: memcmp.induct) auto

lemma memcmp_trans: "memcmp a b < 0 \<Longrightarrow> memcmp b c < 0 \<Longrightarrow> memcmp a c < 0"
proof (induction a b arbitrary: c rule: memcmp.induct)
  case (1 x xs y ys)
  then show ?case by (cases c) (auto split: if_splits)
qed auto

lemma memcmp_append:
  "length a = length a' \<Longrightarrow> memcmp (a @ b) (a' @ b') = (if memcmp a a' \<noteq> 0 then memcmp a a' else memcmp b b')"
  by (induction a a' rule: memcmp.induct) auto

definition key_less :: "bytes \<Rightarrow> bytes \<Rightarrow> bool" where
  "key_less a b \<longleftrightarrow> pair_cmp a b < 0"

lemma key_less_transp: "transp key_less"
  by (intro transpI) (auto simp: key_less_def pair_cmp_def intro: memcmp_trans)

lemma adjacent_sorted:
  "\<not> list_ex (\<lambda>i. pair_cmp (f (i - 1)) (f i) \<ge> 0) [1..<n] \<longleftrightarrow> sorted_wrt key_less (map f [0..<n])"
proof -
  have "(\<not> list_ex (\<lambda>i. pair_cmp (f (i - 1)) (f i) \<ge> 0) [1..<n]) \<longleftrightarrow> (\<forall>i. Suc i < n \<longrightarrow> key_less (f i) (f (Suc i)))"
  proof (intro iffI allI impI)
    fix i
    assume none: "\<not> list_ex (\<lambda>i. pair_cmp (f (i - 1)) (f i) \<ge> 0) [1..<n]" and "Suc i < n"
    then have "Suc i \<in> set [1..<n]" by simp
    with none have "\<not> pair_cmp (f (Suc i - 1)) (f (Suc i)) \<ge> 0" unfolding list_ex_iff by blast
    then show "key_less (f i) (f (Suc i))" by (simp add: key_less_def)
  next
    assume up: "\<forall>i. Suc i < n \<longrightarrow> key_less (f i) (f (Suc i))"
    have "pair_cmp (f (i - 1)) (f i) < 0" if "1 \<le> i" "i < n" for i
      using up [rule_format, of "i - 1"] that by (simp add: key_less_def)
    then show "\<not> list_ex (\<lambda>i. pair_cmp (f (i - 1)) (f i) \<ge> 0) [1..<n]" by (auto simp: list_ex_iff not_le)
  qed
  also have "\<dots> \<longleftrightarrow> sorted_wrt key_less (map f [0..<n])"
    by (simp add: sorted_wrt_iff_nth_Suc_transp [OF key_less_transp])
  finally show ?thesis .
qed

section \<open>What a manifest says\<close>

definition entry_wf :: "fzn_manifest_entry \<Rightarrow> bool" where
  "entry_wf e \<longleftrightarrow> length (mp_capability (me_pair e)) = 32 \<and> length (mp_grantee (me_pair e)) = 32 \<and>
     length (me_id e) = 32 \<and> (me_state e = FZN_MANIFEST_REVOKED \<or> me_state e = FZN_MANIFEST_WITHDRAWN)"

definition entry_of :: "bytes \<Rightarrow> fzn_manifest_entry" where
  "entry_of x = \<lparr>me_pair = \<lparr>mp_capability = bytes_at 0 32 x, mp_grantee = bytes_at 32 32 x\<rparr>,
     me_id = bytes_at 64 32 x, me_state = (if x ! 96 = FZN_MANIFEST_WITHDRAWN then FZN_MANIFEST_WITHDRAWN else FZN_MANIFEST_REVOKED)\<rparr>"

definition manifest_entries :: "bytes \<Rightarrow> fzn_manifest_entry list" where
  "manifest_entries rec = map (\<lambda>i. \<lparr>me_pair = \<lparr>mp_capability = fzn_manifest_capability rec i,
     mp_grantee = fzn_manifest_grantee rec i\<rparr>, me_id = fzn_manifest_id rec i,
     me_state = (if fzn_manifest_is_withdrawn rec i then FZN_MANIFEST_WITHDRAWN else FZN_MANIFEST_REVOKED)\<rparr>)
     [0..<fzn_manifest_count rec]"

definition manifest_write :: "key \<Rightarrow> bytes list \<Rightarrow> bytes" where
  "manifest_write issuer pairs = manifest_header issuer (length pairs) @ concat pairs"

definition pairs_wf :: "bytes list \<Rightarrow> bool" where
  "pairs_wf pairs \<longleftrightarrow> length pairs \<le> FZN_MANIFEST_MAX_PAIRS \<and> (\<forall>x \<in> set pairs. length x = 97 \<and> (x ! 96 = 0 \<or> x ! 96 = 1))"

lemma length_entry_bytes [layout]: "entry_wf e \<Longrightarrow> length (entry_bytes e) = 97"
  by (simp add: entry_wf_def entry_bytes_def)

lemma entry_of_bytes: "entry_wf e \<Longrightarrow> entry_of (entry_bytes e) = e"
  by (cases e; cases "me_pair e") (auto simp: entry_of_def entry_bytes_def entry_wf_def nth_append)

lemma pair_cmp_entry_bytes:
  "entry_wf a \<Longrightarrow> entry_wf b \<Longrightarrow> pair_cmp (entry_bytes a) (entry_bytes b) = pair_struct_cmp (me_pair a) (me_pair b)"
  by (simp add: pair_cmp_def entry_bytes_def pair_struct_cmp_def entry_wf_def memcmp_append)

lemma length_manifest_header [layout]: "length issuer = 32 \<Longrightarrow> length (manifest_header issuer n) = 36"
  by (simp add: manifest_header_def fzn_put_be16_def)

lemma length_concat_const: "\<forall>x \<in> set xs. length x = w \<Longrightarrow> length (concat xs) = w * length xs"
  by (induction xs) auto

lemma length_manifest_write [layout]:
  "length issuer = 32 \<Longrightarrow> pairs_wf pairs \<Longrightarrow> length (manifest_write issuer pairs) = FZN_MANIFEST_BODY_LEN (length pairs)"
  by (simp add: manifest_write_def length_manifest_header pairs_wf_def length_concat_const FZN_MANIFEST_BODY_LEN_def)

lemma manifest_write_fields:
  assumes "length issuer = 32" and "pairs_wf pairs"
  shows "fzn_manifest_count (manifest_write issuer pairs @ sig) = length pairs"
    and "fzn_manifest_issuer (manifest_write issuer pairs @ sig) = issuer"
    and "(manifest_write issuer pairs @ sig) ! 0 = FZN_SIGNED_VERSION"
    and "(manifest_write issuer pairs @ sig) ! 1 = FZN_OBJECT_MANIFEST"
    and "i < length pairs \<Longrightarrow> entry_at i (manifest_write issuer pairs @ sig) = pairs ! i"
proof -
  have n: "length pairs < 2 ^ 16" using assms(2) by (simp add: pairs_wf_def)
  have "bytes_at 34 2 (manifest_write issuer pairs @ sig) = fzn_put_be16 (of_nat (length pairs))"
    using assms(1) by (simp add: manifest_write_def manifest_header_def)
  then show "fzn_manifest_count (manifest_write issuer pairs @ sig) = length pairs"
    using n by (simp add: fzn_manifest_count_def be16.get_put unsigned_of_nat take_bit_nat_eq_self)
  show "fzn_manifest_issuer (manifest_write issuer pairs @ sig) = issuer"
    using assms(1) by (simp add: fzn_manifest_issuer_def manifest_write_def manifest_header_def)
  show "(manifest_write issuer pairs @ sig) ! 0 = FZN_SIGNED_VERSION"
    "(manifest_write issuer pairs @ sig) ! 1 = FZN_OBJECT_MANIFEST"
    by (simp_all add: manifest_write_def manifest_header_def)
  assume i: "i < length pairs"
  have len: "\<forall>x \<in> set pairs. length x = 97" using assms(2) by (simp add: pairs_wf_def)
  have "97 * i + 97 \<le> length (concat pairs)" using i by (simp add: length_concat_const [OF len])
  then show "entry_at i (manifest_write issuer pairs @ sig) = pairs ! i"
    using bytes_at_concat [OF len i] length_manifest_header [OF assms(1)]
    by (simp add: entry_at_def manifest_write_def mult.commute)
qed

lemma entry_at_fields:
  assumes "36 + 97 * i + 97 \<le> length b"
  shows "fzn_manifest_capability b i = bytes_at 0 32 (entry_at i b)"
    and "fzn_manifest_grantee b i = bytes_at 32 32 (entry_at i b)"
    and "fzn_manifest_id b i = bytes_at 64 32 (entry_at i b)"
    and "b ! (132 + 97 * i) = entry_at i b ! 96"
  using assms
  by (simp_all add: fzn_manifest_capability_def fzn_manifest_grantee_def fzn_manifest_id_def entry_at_def
      bytes_at_bytes_at nth_bytes_at)

lemma manifest_entries_at:
  assumes "length b = FZN_MANIFEST_LEN (fzn_manifest_count b)"
  shows "manifest_entries b = map (\<lambda>i. entry_of (entry_at i b)) [0..<fzn_manifest_count b]"
proof -
  have "36 + 97 * i + 97 \<le> length b" if "i < fzn_manifest_count b" for i
    using assms that by (simp add: FZN_MANIFEST_LEN_def FZN_MANIFEST_BODY_LEN_def)
  then show ?thesis
    by (auto simp: manifest_entries_def entry_of_def entry_at_fields fzn_manifest_is_withdrawn_def)
qed

lemma manifest_open_iff:
  "fzn_manifest_open (Some b) = (FZN_MANIFEST_OK, Some b') \<longleftrightarrow> b' = b \<and> 100 \<le> length b \<and>
     b ! 0 = FZN_SIGNED_VERSION \<and> b ! 1 = FZN_OBJECT_MANIFEST \<and>
     fzn_manifest_count b \<le> FZN_MANIFEST_MAX_PAIRS \<and> length b = FZN_MANIFEST_LEN (fzn_manifest_count b) \<and>
     sorted_wrt key_less (map (\<lambda>i. entry_at i b) [0..<fzn_manifest_count b]) \<and>
     (\<forall>i < fzn_manifest_count b. entry_at i b ! 96 = 0 \<or> entry_at i b ! 96 = 1)"
proof -
  have st: "list_ex (\<lambda>i. b ! (36 + 97 * i + 96) \<noteq> 0 \<and> b ! (36 + 97 * i + 96) \<noteq> 1) [0..<fzn_manifest_count b] \<longleftrightarrow>
      \<not> (\<forall>i < fzn_manifest_count b. entry_at i b ! 96 = 0 \<or> entry_at i b ! 96 = 1)"
    if "length b = FZN_MANIFEST_LEN (fzn_manifest_count b)"
    using that entry_at_fields(4) [of _ b]
    by (fastforce simp: list_ex_iff FZN_MANIFEST_LEN_def FZN_MANIFEST_BODY_LEN_def)
  show ?thesis
    unfolding fzn_manifest_open_def option.case Let_def fzn_manifest_count_def [symmetric]
    using st adjacent_sorted [of "\<lambda>i. entry_at i b" "fzn_manifest_count b"]
    by (auto simp: FZN_MANIFEST_LEN_def [of 0] FZN_MANIFEST_BODY_LEN_def [of 0])
qed

lemma manifest_open_write:
  assumes "length issuer = 32" and "pairs_wf pairs" and "sorted_wrt key_less pairs" and "length sig = FZN_SIG_LEN"
  shows "fzn_manifest_open (Some (manifest_write issuer pairs @ sig)) =
      (FZN_MANIFEST_OK, Some (manifest_write issuer pairs @ sig))"
    and "manifest_entries (manifest_write issuer pairs @ sig) = map entry_of pairs"
    and "fzn_manifest_signed_bytes (manifest_write issuer pairs @ sig) = manifest_write issuer pairs"
    and "fzn_manifest_signature (manifest_write issuer pairs @ sig) = sig"
proof -
  let ?b = "manifest_write issuer pairs @ sig"
  note len = length_manifest_write [OF assms(1,2)]
  note f = manifest_write_fields [OF assms(1,2), where sig = sig]
  have total: "length ?b = FZN_MANIFEST_LEN (fzn_manifest_count ?b)"
    using assms(4) len by (simp add: f FZN_MANIFEST_LEN_def)
  have pairs: "map (\<lambda>i. entry_at i ?b) [0..<length pairs] = pairs"
    by (intro nth_equalityI) (simp_all add: f)
  show "fzn_manifest_open (Some ?b) = (FZN_MANIFEST_OK, Some ?b)"
    unfolding manifest_open_iff using assms(2,3) total pairs f
    by (simp add: pairs_wf_def FZN_MANIFEST_LEN_def FZN_MANIFEST_BODY_LEN_def)
  show "manifest_entries ?b = map entry_of pairs"
    using manifest_entries_at [OF total] arg_cong [OF pairs, of "map entry_of"] by (simp add: f comp_def)
  show "fzn_manifest_signed_bytes ?b = manifest_write issuer pairs"
    using len by (simp add: fzn_manifest_signed_bytes_def f)
  show "fzn_manifest_signature ?b = sig"
    using len assms(4) by (simp add: fzn_manifest_signature_def f)
qed

lemma manifest_write_open:
  assumes "fzn_manifest_open (Some b) = (FZN_MANIFEST_OK, Some b)"
  shows "\<exists>pairs. pairs_wf pairs \<and> sorted_wrt key_less pairs \<and> manifest_entries b = map entry_of pairs \<and>
    length (fzn_manifest_issuer b) = 32 \<and> length pairs = fzn_manifest_count b \<and>
    b = manifest_write (fzn_manifest_issuer b) pairs @ fzn_manifest_signature b"
proof (intro exI conjI)
  let ?n = "fzn_manifest_count b"
  let ?pairs = "map (\<lambda>i. entry_at i b) [0..<?n]"
  from assms have b: "b ! 0 = FZN_SIGNED_VERSION" "b ! 1 = FZN_OBJECT_MANIFEST" "?n \<le> FZN_MANIFEST_MAX_PAIRS"
      "length b = FZN_MANIFEST_LEN ?n" "\<forall>i < ?n. entry_at i b ! 96 = 0 \<or> entry_at i b ! 96 = 1"
    and sorted: "sorted_wrt key_less ?pairs" unfolding manifest_open_iff by auto
  have len: "length b = 36 + 97 * ?n + 64" using b(4) by (simp add: FZN_MANIFEST_LEN_def FZN_MANIFEST_BODY_LEN_def)
  then show "pairs_wf ?pairs" using b(3,5) by (auto simp: pairs_wf_def entry_at_def)
  show "sorted_wrt key_less ?pairs" by (rule sorted)
  show "manifest_entries b = map entry_of ?pairs" using manifest_entries_at [OF b(4)] by simp
  show "length (fzn_manifest_issuer b) = 32" using len by (simp add: fzn_manifest_issuer_def)
  show "length ?pairs = ?n" by simp
  have tag: "[FZN_SIGNED_VERSION, FZN_OBJECT_MANIFEST] = bytes_at 0 2 b"
    using b(1,2) len bytes_at_one [of 0 b] bytes_at_one [of 1 b] bytes_at_join [of 1 0 1 b 1] by (simp add: numeral_2_eq_2)
  have "fzn_put_be16 (of_nat ?n) = bytes_at 34 2 b"
    using len by (simp add: fzn_manifest_count_def be16.put_get)
  then have header: "manifest_header (fzn_manifest_issuer b) ?n = bytes_at 0 36 b"
    unfolding manifest_header_def tag by (simp add: fzn_manifest_issuer_def bytes_at_join)
  have "length (bytes_at 36 (97 * ?n) b) = ?n * 97" using len by simp
  note concat_slices [OF this]
  moreover have "bytes_at (i * 97) 97 (bytes_at 36 (97 * ?n) b) = entry_at i b" if "i < ?n" for i
    using that by (simp add: entry_at_def bytes_at_bytes_at mult.commute)
  then have "map (\<lambda>i. bytes_at (i * 97) 97 (bytes_at 36 (97 * ?n) b)) [0..<?n] = ?pairs" by simp
  ultimately have "concat ?pairs = bytes_at 36 (97 * ?n) b" by metis
  moreover have "fzn_manifest_signature b = bytes_at (36 + 97 * ?n) 64 b"
    by (simp add: fzn_manifest_signature_def FZN_MANIFEST_BODY_LEN_def)
  ultimately have "manifest_write (fzn_manifest_issuer b) ?pairs @ fzn_manifest_signature b =
      bytes_at 0 (36 + 97 * ?n + 64) b"
    by (simp add: manifest_write_def header bytes_at_join del: bytes_at_append_skip)
  with len show "b = manifest_write (fzn_manifest_issuer b) ?pairs @ fzn_manifest_signature b" by simp
qed

section \<open>What issuing lists\<close>

lemma insert_entry_spec:
  assumes "sorted_wrt key_less ps" and "\<forall>p \<in> set ps. length p = 97 \<and> take 64 p \<noteq> take 64 c" and "length c = 97"
  shows "sorted_wrt key_less (insert_entry c ps) \<and> set (insert_entry c ps) = insert c (set ps) \<and>
    length (insert_entry c ps) = Suc (length ps)"
proof -
  define n where "n = first_at (\<lambda>p. pair_cmp p c \<ge> 0) ps"
  have distinct: "pair_cmp p c \<noteq> 0" if "p \<in> set ps" for p
    using assms(2,3) that by (simp add: pair_cmp_def memcmp_eq)
  have ins: "insert_entry c ps = take n ps @ c # drop n ps"
    using distinct by (auto simp: insert_entry_def Let_def n_def)
  have low: "key_less p c" if p: "p \<in> set (take n ps)" for p
  proof -
    obtain i where "i < n" "p = ps ! i" using p by (auto simp: in_set_conv_nth)
    then show ?thesis using first_at_before [of i "\<lambda>p. pair_cmp p c \<ge> 0" ps] by (simp add: n_def key_less_def)
  qed
  have split: "sorted_wrt key_less (take n ps @ drop n ps)" using assms(1) by simp
  have high: "key_less c p" if "p \<in> set (drop n ps)" for p
  proof (cases "drop n ps")
    case (Cons q qs)
    then have n: "n < length ps" by (intro not_le_imp_less notI) simp
    have q: "q = ps ! n" using Cons hd_drop_conv_nth [OF n] by simp
    have "pair_cmp q c > 0"
      using first_at_hit [of "\<lambda>p. pair_cmp p c \<ge> 0" ps] distinct [of q] n nth_mem [OF n] by (auto simp: n_def q)
    then have "key_less c q" by (simp add: key_less_def pair_cmp_def memcmp_anti [of "take 64 q"])
    moreover have "p = q \<or> key_less q p" using split that Cons by (auto simp: sorted_wrt_append)
    ultimately show ?thesis using transpD [OF key_less_transp] by blast
  qed (use that in simp)
  have "sorted_wrt key_less (insert_entry c ps)"
    unfolding ins using split [unfolded sorted_wrt_append] low high by (auto simp: sorted_wrt_append)
  moreover have "set (insert_entry c ps) = insert c (set (take n ps @ drop n ps))"
    unfolding ins set_append list.set by blast
  ultimately show ?thesis using first_at_le [of "\<lambda>p. pair_cmp p c \<ge> 0" ps] by (simp add: ins n_def)
qed

definition row_wf :: "fzn_revocation \<Rightarrow> bool" where
  "row_wf e \<longleftrightarrow> length (rv_capability e) = 32 \<and> length (rv_grantee e) = 32 \<and> length (rv_id e) = 32"

definition listed :: "fzn_revocation \<Rightarrow> fzn_manifest_entry" where
  "listed e = \<lparr>me_pair = \<lparr>mp_capability = rv_capability e, mp_grantee = rv_grantee e\<rparr>, me_id = rv_id e,
     me_state = (if rv_withdrawn e then FZN_MANIFEST_WITHDRAWN else FZN_MANIFEST_REVOKED)\<rparr>"

lemma candidate_facts:
  assumes "row_wf e"
  shows "length (candidate e) = 97" and "take 64 (candidate e) = rv_capability e @ rv_grantee e"
    and "entry_of (candidate e) = listed e" and "candidate e ! 96 = 0 \<or> candidate e ! 96 = 1"
  using assms by (auto simp: row_wf_def candidate_def entry_of_def listed_def nth_append)

definition mine :: "key \<Rightarrow> fzn_revocation list \<Rightarrow> fzn_revocation list" where
  "mine issuer es = filter (\<lambda>e. rv_issuer e = issuer) es"

lemma issue_loop_spec:
  assumes "sorted_wrt key_less ps" and "set ps = candidate ` set ds" and "length ps = length ds"
    and "\<forall>e \<in> set ds \<union> set (mine issuer es). row_wf e \<and> rv_issuer e = issuer"
    and "distinct (map triple (ds @ mine issuer es))"
    and "length ps \<le> FZN_MANIFEST_MAX_PAIRS" and "FZN_MANIFEST_LEN (length ps) \<le> out_cap"
  shows "if length ds + length (mine issuer es) \<le> FZN_MANIFEST_MAX_PAIRS \<and>
      FZN_MANIFEST_LEN (length ds + length (mine issuer es)) \<le> out_cap
    then \<exists>ps'. issue_loop issuer out_cap es ps = Inr ps' \<and> sorted_wrt key_less ps' \<and>
      set ps' = candidate ` (set ds \<union> set (mine issuer es)) \<and> length ps' = length ds + length (mine issuer es)
    else \<exists>err. issue_loop issuer out_cap es ps = Inl err \<and> err \<noteq> FZN_MANIFEST_OK"
  using assms
proof (induction es arbitrary: ps ds)
  case Nil
  then show ?case by (simp add: mine_def)
next
  case (Cons e es)
  show ?case
  proof (cases "rv_issuer e = issuer")
    case False
    then have "mine issuer (e # es) = mine issuer es" by (simp add: mine_def)
    with Cons False show ?thesis by simp
  next
    case True
    then have m: "mine issuer (e # es) = e # mine issuer es" by (simp add: mine_def)
    show ?thesis
    proof (cases "length ps < FZN_MANIFEST_MAX_PAIRS \<and> FZN_MANIFEST_LEN (length ps + 1) \<le> out_cap")
      case False
      with True Cons.prems(3,6) show ?thesis by (auto simp: m FZN_MANIFEST_LEN_def FZN_MANIFEST_BODY_LEN_def)
    next
      case room: True
      have wf: "row_wf e" "\<forall>d \<in> set ds. row_wf d \<and> rv_issuer d = issuer" using Cons.prems(4) m by auto
      have "length p = 97 \<and> take 64 p \<noteq> take 64 (candidate e)" if p: "p \<in> set ps" for p
      proof -
        obtain d where d: "d \<in> set ds" "p = candidate d" using Cons.prems(2) p by blast
        with wf have "row_wf d" "rv_issuer d = rv_issuer e" using True by auto
        moreover have "triple d \<noteq> triple e" using Cons.prems(5) imageI [OF d(1), of triple] m by auto
        ultimately show ?thesis
          using wf(1) d(2) candidate_facts(1,2) by (auto simp: triple_def row_wf_def)
      qed
      then have ins: "sorted_wrt key_less (insert_entry (candidate e) ps)"
        "set (insert_entry (candidate e) ps) = insert (candidate e) (set ps)"
        "length (insert_entry (candidate e) ps) = Suc (length ps)"
        using insert_entry_spec [OF Cons.prems(1), of "candidate e"] candidate_facts(1) [OF wf(1)] by auto
      have "issue_loop issuer out_cap (e # es) ps = issue_loop issuer out_cap es (insert_entry (candidate e) ps)"
        using True room by simp
      moreover note Cons.IH [OF ins(1), of "ds @ [e]"]
      ultimately show ?thesis using Cons.prems(2-5) room ins m by (auto split: if_splits)
    qed
  qed
qed

section \<open>Encoding and opening\<close>

lemma encode_iff:
  assumes "\<forall>e \<in> set es. entry_wf e"
  shows "fzn_manifest_encode out_cap (Some issuer) (Some es) (length es) = (FZN_MANIFEST_OK, Some out) \<longleftrightarrow>
    length es \<le> FZN_MANIFEST_MAX_PAIRS \<and> FZN_MANIFEST_LEN (length es) \<le> out_cap \<and>
    sorted_wrt key_less (map entry_bytes es) \<and>
    out = manifest_write issuer (map entry_bytes es) @ replicate FZN_SIG_LEN 0"
proof -
  have "list_ex (\<lambda>i. pair_struct_cmp (me_pair (es ! (i - 1))) (me_pair (es ! i)) \<ge> 0) [1..<length es] =
      list_ex (\<lambda>i. pair_cmp (entry_bytes (es ! (i - 1))) (entry_bytes (es ! i)) \<ge> 0) [1..<length es]"
    unfolding list_ex_iff using assms by (intro bex_cong refl) (subst pair_cmp_entry_bytes; auto)
  moreover have "map (\<lambda>i. entry_bytes (es ! i)) [0..<length es] = map entry_bytes es"
    by (intro nth_equalityI) simp_all
  moreover have "\<not> list_ex (\<lambda>e. me_state e \<noteq> FZN_MANIFEST_REVOKED \<and> me_state e \<noteq> FZN_MANIFEST_WITHDRAWN) es"
    using assms by (auto simp: list_ex_iff entry_wf_def)
  ultimately show ?thesis
    using adjacent_sorted [of "\<lambda>i. entry_bytes (es ! i)" "length es"]
    by (auto simp: fzn_manifest_encode_def Let_def manifest_write_def)
qed

lemma pairs_wf_entry_bytes:
  "\<forall>e \<in> set es. entry_wf e \<Longrightarrow> length es \<le> FZN_MANIFEST_MAX_PAIRS \<Longrightarrow> pairs_wf (map entry_bytes es)"
  by (auto simp: pairs_wf_def length_entry_bytes entry_wf_def entry_bytes_def nth_append)

lemma entry_of_wf:
  assumes "length x = 97" and "x ! 96 = 0 \<or> x ! 96 = 1"
  shows "entry_wf (entry_of x)" and "entry_bytes (entry_of x) = x"
proof -
  show "entry_wf (entry_of x)" using assms by (simp add: entry_wf_def entry_of_def)
  have "[me_state (entry_of x)] = bytes_at 96 1 x"
    using assms bytes_at_one [of 96 x] by (auto simp: entry_of_def)
  then show "entry_bytes (entry_of x) = x"
    using assms(1) unfolding entry_bytes_def
    by (simp add: entry_of_def bytes_at_join del: bytes_at_append_skip One_nat_def)
qed

section \<open>Properties of the record\<close>

text \<open>
  A manifest has one encoding. What \<open>fzn_manifest_encode\<close> lays out from well-sized entries opens
  under any signature and reads back as the same issuer and the same entries in the same order, and
  every byte string that opens is what encoding its own entries gives, up to the signature.
\<close>

theorem manifest_round_trip:
  "(length issuer = 32 \<and> (\<forall>e \<in> set es. entry_wf e) \<and> length sig = FZN_SIG_LEN \<and>
     fzn_manifest_encode out_cap (Some issuer) (Some es) (length es) = (FZN_MANIFEST_OK, Some out) \<longrightarrow>
     (let rec = put_at (FZN_MANIFEST_BODY_LEN (length es)) sig out in
      fzn_manifest_open (Some rec) = (FZN_MANIFEST_OK, Some rec) \<and> fzn_manifest_issuer rec = issuer \<and>
      manifest_entries rec = es \<and> fzn_manifest_signature rec = sig \<and>
      fzn_manifest_signed_bytes rec = take (FZN_MANIFEST_BODY_LEN (length es)) out)) \<and>
   (fzn_manifest_open (Some b) = (FZN_MANIFEST_OK, Some b) \<longrightarrow>
     fzn_manifest_encode (length b) (Some (fzn_manifest_issuer b)) (Some (manifest_entries b)) (fzn_manifest_count b) =
       (FZN_MANIFEST_OK, Some (fzn_manifest_signed_bytes b @ replicate FZN_SIG_LEN 0)))"
proof (intro conjI impI)
  assume a: "length issuer = 32 \<and> (\<forall>e \<in> set es. entry_wf e) \<and> length sig = FZN_SIG_LEN \<and>
     fzn_manifest_encode out_cap (Some issuer) (Some es) (length es) = (FZN_MANIFEST_OK, Some out)"
  let ?ps = "map entry_bytes es"
  from a have wf: "\<forall>e \<in> set es. entry_wf e" and iss: "length issuer = 32" and sig: "length sig = FZN_SIG_LEN" by auto
  with a have enc: "length es \<le> FZN_MANIFEST_MAX_PAIRS" "sorted_wrt key_less ?ps"
    "out = manifest_write issuer ?ps @ replicate FZN_SIG_LEN 0" by (auto simp: encode_iff)
  note pwf = pairs_wf_entry_bytes [OF wf enc(1)]
  note len = length_manifest_write [OF iss pwf]
  have rec: "put_at (FZN_MANIFEST_BODY_LEN (length es)) sig out = manifest_write issuer ?ps @ sig"
    using len sig by (simp add: enc(3) put_at_def)
  have "map entry_of ?ps = es" using wf by (simp add: map_idI entry_of_bytes)
  then show "let rec = put_at (FZN_MANIFEST_BODY_LEN (length es)) sig out in
      fzn_manifest_open (Some rec) = (FZN_MANIFEST_OK, Some rec) \<and> fzn_manifest_issuer rec = issuer \<and>
      manifest_entries rec = es \<and> fzn_manifest_signature rec = sig \<and>
      fzn_manifest_signed_bytes rec = take (FZN_MANIFEST_BODY_LEN (length es)) out"
    unfolding rec Let_def using manifest_open_write [OF iss pwf enc(2) sig] manifest_write_fields(2) [OF iss pwf] len
    by (simp add: enc(3))
next
  assume b: "fzn_manifest_open (Some b) = (FZN_MANIFEST_OK, Some b)"
  then obtain ps where ps: "pairs_wf ps" "sorted_wrt key_less ps" "manifest_entries b = map entry_of ps"
      "length (fzn_manifest_issuer b) = 32" "length ps = fzn_manifest_count b"
      "b = manifest_write (fzn_manifest_issuer b) ps @ fzn_manifest_signature b"
    using manifest_write_open by blast
  have total: "length b = FZN_MANIFEST_LEN (fzn_manifest_count b)" using b by (simp add: manifest_open_iff)
  have wf: "\<forall>e \<in> set (map entry_of ps). entry_wf e" and id: "map entry_bytes (map entry_of ps) = ps"
    using ps(1) entry_of_wf by (auto simp: pairs_wf_def intro!: map_idI)
  have "fzn_manifest_signed_bytes b = manifest_write (fzn_manifest_issuer b) ps"
    using length_manifest_write [OF ps(4,1)] ps(5) bytes_at_take [of "manifest_write (fzn_manifest_issuer b) ps"]
    unfolding fzn_manifest_signed_bytes_def by (subst ps(6)) simp
  then show "fzn_manifest_encode (length b) (Some (fzn_manifest_issuer b)) (Some (manifest_entries b)) (fzn_manifest_count b) =
       (FZN_MANIFEST_OK, Some (fzn_manifest_signed_bytes b @ replicate FZN_SIG_LEN 0))"
    using encode_iff [OF wf, of "length b" "fzn_manifest_issuer b"] ps(1,2,3,5) total id by (simp add: pairs_wf_def)
qed

theorem manifest_round_trip_witness:
  "let e = \<lparr>me_pair = \<lparr>mp_capability = replicate 32 1, mp_grantee = replicate 32 2\<rparr>, me_id = replicate 32 3, me_state = 1\<rparr>;
       out = manifest_write (replicate 32 7) [entry_bytes e] @ replicate FZN_SIG_LEN 0 in
   fzn_manifest_encode 1000 (Some (replicate 32 7)) (Some [e]) 1 = (FZN_MANIFEST_OK, Some out) \<and>
   manifest_entries (put_at (FZN_MANIFEST_BODY_LEN 1) (replicate 64 5) out) = [e]"
proof -
  let ?e = "\<lparr>me_pair = \<lparr>mp_capability = replicate 32 1, mp_grantee = replicate 32 2\<rparr>, me_id = replicate 32 3, me_state = 1\<rparr>"
  let ?out = "manifest_write (replicate 32 7) [entry_bytes ?e] @ replicate FZN_SIG_LEN 0"
  have wf: "\<forall>e \<in> set [?e]. entry_wf e" by (simp add: entry_wf_def)
  have "fzn_manifest_encode 1000 (Some (replicate 32 7)) (Some [?e]) (length [?e]) = (FZN_MANIFEST_OK, Some ?out)"
    unfolding encode_iff [OF wf] by (simp add: FZN_MANIFEST_LEN_def FZN_MANIFEST_BODY_LEN_def)
  with manifest_round_trip [of "replicate 32 7" "[?e]" "replicate 64 5" 1000 ?out] wf
  show ?thesis by (simp add: Let_def)
qed

text \<open>
  Issuing lists the store. From a sound store that holds one row per issuer, capability and
  grantee, the manifest an issuer signs opens, carries the issuer's signature over its own bytes and
  names exactly the issuer's rows, each once, with the identity and the state the store has; and
  issuing fails only when those rows do not fit the buffer or the format.
\<close>

theorem manifest_lists_store:
  assumes "fzn_revocation_store_sound (Some s)" and "length issuer = 32"
    and "\<forall>e \<in> set (mine issuer (entries_of s)). row_wf e" and "distinct (map triple (entries_of s))"
    and "so_sign sign = Some do_sign" and "\<forall>m. \<exists>sig. do_sign m = Some sig \<and> length sig = FZN_SIG_LEN"
  shows "if length (mine issuer (entries_of s)) \<le> FZN_MANIFEST_MAX_PAIRS \<and>
      FZN_MANIFEST_LEN (length (mine issuer (entries_of s))) \<le> out_cap
    then \<exists>out. fzn_manifest_issue (Some issuer) (Some s) sign out_cap = (FZN_MANIFEST_OK, Some out) \<and>
      fzn_manifest_open (Some out) = (FZN_MANIFEST_OK, Some out) \<and> fzn_manifest_issuer out = issuer \<and>
      set (manifest_entries out) = listed ` set (mine issuer (entries_of s)) \<and>
      length (manifest_entries out) = length (mine issuer (entries_of s)) \<and>
      do_sign (fzn_manifest_signed_bytes out) = Some (fzn_manifest_signature out)
    else fst (fzn_manifest_issue (Some issuer) (Some s) sign out_cap) \<noteq> FZN_MANIFEST_OK"
proof (cases "FZN_MANIFEST_LEN 0 \<le> out_cap")
  case False
  then show ?thesis using assms(1,5) by (simp add: fzn_manifest_issue_def FZN_MANIFEST_LEN_def FZN_MANIFEST_BODY_LEN_def)
next
  case cap: True
  let ?m = "mine issuer (entries_of s)"
  let ?fits = "length ?m \<le> FZN_MANIFEST_MAX_PAIRS \<and> FZN_MANIFEST_LEN (length ?m) \<le> out_cap"
  have d: "distinct (map triple ?m)" unfolding mine_def using assms(4) by (rule distinct_map_filter)
  have own: "\<forall>e \<in> set ?m. row_wf e \<and> rv_issuer e = issuer" using assms(3) by (auto simp: mine_def)
  have loop: "if ?fits then \<exists>ps. issue_loop issuer out_cap (entries_of s) [] = Inr ps \<and> sorted_wrt key_less ps \<and>
        set ps = candidate ` set ?m \<and> length ps = length ?m
      else \<exists>err. issue_loop issuer out_cap (entries_of s) [] = Inl err \<and> err \<noteq> FZN_MANIFEST_OK"
    using issue_loop_spec [of "[]" "[]" issuer "entries_of s" out_cap] own d cap by (auto split: if_splits)
  show ?thesis
  proof (cases ?fits)
    case False
    with loop assms(1,5) cap show ?thesis by (auto simp: fzn_manifest_issue_def)
  next
    case True
    with loop obtain ps where ps: "issue_loop issuer out_cap (entries_of s) [] = Inr ps" "sorted_wrt key_less ps"
      "set ps = candidate ` set ?m" "length ps = length ?m" by auto
    have pwf: "pairs_wf ps" using True ps(3,4) assms(3) candidate_facts by (auto simp: pairs_wf_def)
    let ?body = "manifest_write issuer ps"
    obtain sig where sig: "do_sign ?body = Some sig" "length sig = FZN_SIG_LEN" using assms(6) by blast
    note zero = manifest_open_write [OF assms(2) pwf ps(2), of "replicate FZN_SIG_LEN 0"]
    note written = manifest_open_write [OF assms(2) pwf ps(2) sig(2)]
    have put: "put_at (FZN_MANIFEST_BODY_LEN (length ps)) sig (?body @ replicate FZN_SIG_LEN 0) = ?body @ sig"
      using length_manifest_write [OF assms(2) pwf] sig(2) by (simp add: put_at_def)
    have "fzn_manifest_issue (Some issuer) (Some s) sign out_cap = (FZN_MANIFEST_OK, Some (?body @ sig))"
      using assms(1,5) cap ps(1) zero(1,3) sig(1) put
      by (simp add: fzn_manifest_issue_def manifest_write_def)
    moreover have "entry_of ` set ps = listed ` set ?m"
      using assms(3) candidate_facts(3) by (simp add: ps(3) image_image)
    ultimately show ?thesis
      using True written sig(1) manifest_write_fields(2) [OF assms(2) pwf] ps(4) by simp
  qed
qed

definition one_row :: fzn_revocation where
  "one_row = \<lparr>rv_capability = replicate 32 1, rv_grantee = replicate 32 2, rv_issuer = replicate 32 7,
     rv_id = replicate 32 3, rv_withdrawn = True, rv_epoch = 0, rv_held = replicate 32 3, rv_cut = replicate 32 0\<rparr>"

definition one_row_store :: fzn_revocation_store where
  "one_row_store = (the (snd (fzn_revocation_store_init (Some [one_row]) 1)))\<lparr>rs_used := 1\<rparr>"

theorem manifest_lists_store_witness:
  "\<exists>out. fzn_manifest_issue (Some (replicate 32 7)) (Some one_row_store)
      \<lparr>so_verify = None, so_sign = Some (\<lambda>m. Some (replicate 64 5))\<rparr> 1000 = (FZN_MANIFEST_OK, Some out) \<and>
     set (manifest_entries out) = {listed one_row}"
proof -
  have e: "entries_of one_row_store = [one_row]" "mine (replicate 32 7) [one_row] = [one_row]"
    by (simp_all add: one_row_store_def entries_of_def fzn_revocation_store_init_def mine_def one_row_def)
  have "fzn_revocation_store_sound (Some one_row_store)" "row_wf one_row"
    by (simp_all add: one_row_store_def fzn_revocation_store_init_def fzn_revocation_store_sound_def row_wf_def one_row_def)
  with e manifest_lists_store [of one_row_store "replicate 32 7"
      "\<lparr>so_verify = None, so_sign = Some (\<lambda>m. Some (replicate 64 5))\<rparr>" "\<lambda>m. Some (replicate 64 5)" 1000]
  show ?thesis by (auto simp: FZN_MANIFEST_LEN_def FZN_MANIFEST_BODY_LEN_def)
qed

end
