(* ===== verification/Manifest_State.thy ===== *)
theory Manifest_State
  imports Manifest
begin

text \<open>
  What the tables of \<open>chain/manifest.c\<close> hold: the issuers a host follows and the pairs their
  manifests name that the host's own store does not have. The lemmas give the effect of every
  operation on the two tables as sets of rows, and the machine whose events are the operations
  keeps the tables inside their arrays and free of repetition.
\<close>

section \<open>Rows\<close>

interpretation issuer_rows: keyed_rows "\<lambda>xs k. first_at (\<lambda>i. mi_issuer i = k) xs" mi_issuer
  by unfold_locales (auto simp: first_at_le dest: first_at_hit first_at_before)

definition want :: "bytes \<Rightarrow> nat \<Rightarrow> fzn_manifest_deficit_t" where
  "want rec i = \<lparr>md_issuer = fzn_manifest_issuer rec, md_capability = fzn_manifest_capability rec i,
     md_grantee = fzn_manifest_grantee rec i\<rparr>"

definition behind :: "fzn_revocation_store option \<Rightarrow> bytes \<Rightarrow> nat set \<Rightarrow> fzn_manifest_deficit_t set" where
  "behind store rec I = want rec ` {i \<in> I. \<not> ahead store rec i}"

lemma names_iff: "names issuer capability grantee d \<longleftrightarrow>
    d = \<lparr>md_issuer = issuer, md_capability = capability, md_grantee = grantee\<rparr>"
  by (cases d) (auto simp: names_def)

lemma deficit_holds_want:
  "deficit_holds st (fzn_manifest_issuer rec) (fzn_manifest_capability rec i) (fzn_manifest_grantee rec i) \<longleftrightarrow>
     want rec i \<in> set (missing st)"
  by (auto simp: deficit_holds_def list_ex_iff names_iff want_def)

definition tables_wf :: "fzn_manifest_state \<Rightarrow> bool" where
  "tables_wf st \<longleftrightarrow>
     (case (ms_issuers st, ms_deficit st) of
        (Some is, Some ds) \<Rightarrow> length is = ms_issuer_capacity st \<and> ms_issuer_used st \<le> length is \<and>
          length ds = ms_deficit_capacity st \<and> ms_deficit_used st \<le> length ds
      | _ \<Rightarrow> False)"

definition manifest_inv :: "fzn_manifest_state \<Rightarrow> bool" where
  "manifest_inv st \<longleftrightarrow> tables_wf st \<and> distinct (map mi_issuer (followed st)) \<and> distinct (missing st) \<and>
     md_issuer ` set (missing st) \<subseteq> mi_issuer ` set (followed st)"

lemma tables_sound: "tables_wf st \<Longrightarrow> state_sound (Some st) \<and> ms_issuers st \<noteq> None \<and> ms_deficit st \<noteq> None"
  by (auto simp: tables_wf_def state_sound_def split: option.splits)

lemma length_rows:
  "tables_wf st \<Longrightarrow> length (followed st) = ms_issuer_used st"
  "tables_wf st \<Longrightarrow> length (missing st) = ms_deficit_used st"
  by (auto simp: tables_wf_def followed_def missing_def split: option.splits)

lemma find_issuer_iff: "tables_wf st \<Longrightarrow> find_issuer st k < ms_issuer_used st \<longleftrightarrow> k \<in> mi_issuer ` set (followed st)"
  using issuer_rows.found_iff [where xs = "followed st" and k = k] by (simp add: find_issuer_def length_rows)

lemma issuer_update_rows:
  fixes f :: "fzn_manifest_issuer_t \<Rightarrow> fzn_manifest_issuer_t" and w :: nat
  assumes "tables_wf st" and "\<And>r. mi_issuer (f r) = mi_issuer r"
  defines "st' \<equiv> st\<lparr>ms_issuers := map_option (\<lambda>is. is[w := f (is ! w)]) (ms_issuers st)\<rparr>"
  shows "tables_wf st'" and "missing st' = missing st" and "map mi_issuer (followed st') = map mi_issuer (followed st)"
proof -
  obtain rs where rs: "ms_issuers st = Some rs" using assms(1) by (auto simp: tables_wf_def split: option.splits)
  show "tables_wf st'" "missing st' = missing st"
    using assms(1) by (auto simp: st'_def tables_wf_def missing_def rs split: option.splits)
  have "map mi_issuer (rs[w := f (rs ! w)]) = map mi_issuer rs"
    by (cases "w < length rs") (simp_all add: map_update assms(2) list_update_same_conv list_update_beyond not_less)
  then show "map mi_issuer (followed st') = map mi_issuer (followed st)"
    by (simp add: followed_def st'_def rs flip: take_map)
qed

lemma set_overflowed_rows [rows]:
  assumes "tables_wf st"
  shows "tables_wf (set_overflowed w v st)" and "missing (set_overflowed w v st) = missing st"
    and "map mi_issuer (followed (set_overflowed w v st)) = map mi_issuer (followed st)"
  using issuer_update_rows [OF assms, of "\<lambda>r. r\<lparr>mi_overflowed := v\<rparr>" w] by (simp_all add: set_overflowed_def)

lemma settle_rows [rows]:
  assumes "tables_wf st"
  shows "tables_wf (settle_counts w c d st)" and "missing (settle_counts w c d st) = missing st"
    and "map mi_issuer (followed (settle_counts w c d st)) = map mi_issuer (followed st)"
  using assms issuer_update_rows [OF assms, of "\<lambda>r. r\<lparr>mi_pairs_seen := c,
      mi_overflowed := (if d = 0 then False else mi_overflowed r)\<rparr>" w]
  by (auto simp: settle_counts_def)

section \<open>Admitting a manifest\<close>

text \<open>What holds after the pairs \<open>I\<close> of a manifest have been looked at, \<open>d\<close> of them dropped.\<close>

definition admitted :: "fzn_revocation_store option \<Rightarrow> bytes \<Rightarrow> nat \<Rightarrow> fzn_manifest_state \<Rightarrow> nat set \<Rightarrow>
    fzn_manifest_state \<times> nat \<Rightarrow> bool" where
  "admitted store rec w st I = (\<lambda>(st', d).
     tables_wf st' \<and> distinct (missing st') \<and> ms_issuer_used st' = ms_issuer_used st \<and>
     ms_deficit_capacity st' = ms_deficit_capacity st \<and>
     set (missing st) \<subseteq> set (missing st') \<and> set (missing st') \<subseteq> set (missing st) \<union> behind store rec I \<and>
     (if d = 0 then ms_issuers st' = ms_issuers st \<and> behind store rec I \<subseteq> set (missing st')
      else ms_issuers st' = ms_issuers (set_overflowed w True st) \<and> ms_deficit_used st' = ms_deficit_capacity st'))"

lemma list_update_cong_overflow:
  "xs[w := (xs[w := (xs ! w)\<lparr>mi_overflowed := v\<rparr>] ! w)\<lparr>mi_overflowed := v\<rparr>] = xs[w := (xs ! w)\<lparr>mi_overflowed := v\<rparr>]"
  by (cases "w < length xs") (simp_all add: list_update_beyond not_less)

lemma set_overflowed_twice:
  "ms_issuers s = ms_issuers (set_overflowed w True st) \<or> ms_issuers s = ms_issuers st \<Longrightarrow>
   ms_issuers (set_overflowed w True s) = ms_issuers (set_overflowed w True st)"
  by (cases "ms_issuers st") (auto simp: set_overflowed_def list_update_cong_overflow)

lemma missing_append:
  assumes "tables_wf s" and "ms_deficit_used s < ms_deficit_capacity s"
  shows "missing (s\<lparr>ms_deficit := map_option (\<lambda>d. d[ms_deficit_used s := x]) (ms_deficit s),
      ms_deficit_used := Suc (ms_deficit_used s)\<rparr>) = missing s @ [x]"
    and "tables_wf (s\<lparr>ms_deficit := map_option (\<lambda>d. d[ms_deficit_used s := x]) (ms_deficit s),
      ms_deficit_used := Suc (ms_deficit_used s)\<rparr>)"
  using assms by (auto simp: tables_wf_def missing_def take_append_cell split: option.splits)

lemma behind_insert: "behind store rec (insert i I) = (if ahead store rec i then {} else {want rec i}) \<union> behind store rec I"
  by (auto simp: behind_def)

lemma admitted_step:
  assumes "admitted store rec w st I (s, d)"
  shows "admitted store rec w st (insert i I) (admit_pair store rec w i (s, d))"
proof -
  have s: "tables_wf s" "distinct (missing s)" using assms by (auto simp: admitted_def)
  consider (skip) "ahead store rec i \<or> want rec i \<in> set (missing s)"
    | (full) "\<not> ahead store rec i" "want rec i \<notin> set (missing s)" "ms_deficit_used s \<ge> ms_deficit_capacity s"
    | (room) "\<not> ahead store rec i" "want rec i \<notin> set (missing s)" "ms_deficit_used s < ms_deficit_capacity s"
    by linarith
  then show ?thesis
  proof cases
    case skip
    then have "admit_pair store rec w i (s, d) = (s, d)" by (auto simp: admit_pair_def deficit_holds_want)
    with skip assms show ?thesis by (auto simp: admitted_def behind_insert)
  next
    case full
    then have "admit_pair store rec w i (s, d) = (set_overflowed w True s, Suc d)"
      by (simp add: admit_pair_def deficit_holds_want)
    moreover have "ms_deficit_used s = ms_deficit_capacity s"
      using full(3) s(1) by (auto simp: tables_wf_def split: option.splits)
    moreover have "ms_issuers (set_overflowed w True s) = ms_issuers (set_overflowed w True st)"
      using assms by (intro set_overflowed_twice) (auto simp: admitted_def split: if_splits)
    ultimately show ?thesis
      using assms s full(1) set_overflowed_rows(1,2) [OF s(1)]
      by (auto simp: admitted_def behind_insert) (simp_all add: set_overflowed_def)
  next
    case room
    note app = missing_append [OF s(1) room(3), of "want rec i"]
    have "d = 0" using assms room(3) by (auto simp: admitted_def split: if_splits)
    moreover have "admit_pair store rec w i (s, d) = (s\<lparr>ms_deficit := map_option (\<lambda>d. d[ms_deficit_used s := want rec i])
        (ms_deficit s), ms_deficit_used := Suc (ms_deficit_used s)\<rparr>, d)"
      using room by (simp add: admit_pair_def deficit_holds_want want_def)
    ultimately show ?thesis using assms s room(1,2) app by (auto simp: admitted_def behind_insert)
  qed
qed

lemma admitted_fold:
  "admitted store rec w st I sd \<Longrightarrow> admitted store rec w st (I \<union> set is) (fold (admit_pair store rec w) is sd)"
proof (induction "is" arbitrary: I sd)
  case (Cons i "is")
  obtain s d where sd: "sd = (s, d)" by fastforce
  from Cons.IH [OF admitted_step [OF Cons.prems [unfolded sd], of i]] show ?case by (simp add: sd)
qed simp

lemma settle_overflowed:
  assumes "tables_wf st" and "w < ms_issuer_used st"
  shows "mi_overflowed (the (ms_issuers (settle_counts w c d st)) ! w) \<longleftrightarrow>
    mi_overflowed (the (ms_issuers st) ! w) \<and> \<not> (mi_pairs_seen (the (ms_issuers st) ! w) \<le> c \<and> d = 0)"
  using assms by (auto simp: tables_wf_def settle_counts_def split: option.splits)

lemma find_issuer_cong:
  assumes "map mi_issuer (followed st') = map mi_issuer (followed st)"
  shows "find_issuer st' k = find_issuer st k"
proof -
  have "first_at (\<lambda>i. mi_issuer i = k) xs = first_at (\<lambda>x. x = k) (map mi_issuer xs)" for xs
    by (induction xs) auto
  with assms show ?thesis unfolding find_issuer_def by metis
qed

text \<open>A manifest is looked at when it is from a followed issuer, signed by it, and the store is sound.\<close>

definition admissible :: "fzn_manifest_state \<Rightarrow> fzn_revocation_store option \<Rightarrow> bytes option \<Rightarrow> fzn_sign_ops \<Rightarrow> bool" where
  "admissible st store rec sign \<longleftrightarrow>
     (case (so_verify sign, rec) of
        (Some verify, Some r) \<Rightarrow> fzn_manifest_issuer r \<in> mi_issuer ` set (followed st) \<and>
          fzn_revocation_store_sound store \<and>
          verify (fzn_manifest_issuer r) (fzn_manifest_signed_bytes r) (fzn_manifest_signature r)
      | _ \<Rightarrow> False)"

lemma admit_refused:
  assumes "tables_wf st" and "\<not> admissible st store rec sign"
  shows "snd (fzn_manifest_admit st store rec sign) = st \<and>
    fst (fzn_manifest_admit st store rec sign) \<notin> {FZN_MANIFEST_OK, FZN_MANIFEST_ERR_DEFICIT_FULL}"
  using assms tables_sound [OF assms(1)] find_issuer_iff [OF assms(1)]
  by (auto simp: fzn_manifest_admit_def admissible_def Let_def not_less [symmetric] split: option.splits)

lemma admit_looked_at:
  assumes "manifest_inv st" and "admissible st store (Some r) sign"
  obtains st' d where "admitted store r (find_issuer st (fzn_manifest_issuer r)) st {0..<fzn_manifest_count r} (st', d)"
    and "fzn_manifest_admit st store (Some r) sign =
      (if d \<noteq> 0 then FZN_MANIFEST_ERR_DEFICIT_FULL else FZN_MANIFEST_OK,
       settle_counts (find_issuer st (fzn_manifest_issuer r)) (fzn_manifest_count r) d st')"
proof -
  let ?w = "find_issuer st (fzn_manifest_issuer r)"
  have wf: "tables_wf st" using assms(1) by (simp add: manifest_inv_def)
  obtain st' d where f: "fold (admit_pair store r ?w) [0..<fzn_manifest_count r] (st, 0) = (st', d)" by fastforce
  have "admitted store r ?w st {} (st, 0)" using assms(1) by (simp add: admitted_def manifest_inv_def behind_def)
  from admitted_fold [OF this, of "[0..<fzn_manifest_count r]"]
  have "admitted store r ?w st {0..<fzn_manifest_count r} (st', d)" by (simp add: f)
  then show thesis
    using assms(2) tables_sound [OF wf] find_issuer_iff [OF wf] f
    by (intro that) (auto simp: fzn_manifest_admit_def admissible_def Let_def not_less [symmetric] split: option.splits)
qed

lemma admitted_issuers:
  assumes "admitted store r w st I (st', d)" and "tables_wf st"
  shows "map mi_issuer (followed st') = map mi_issuer (followed st)"
proof (cases "d = 0")
  case True
  then show ?thesis using assms(1) by (simp add: admitted_def followed_def)
next
  case False
  then have "followed st' = followed (set_overflowed w True st)"
    using assms(1) by (auto simp: admitted_def followed_def set_overflowed_def)
  then show ?thesis using set_overflowed_rows(3) [OF assms(2)] by simp
qed

lemma admit_inv:
  assumes "manifest_inv st"
  shows "manifest_inv (snd (fzn_manifest_admit st store rec sign))"
proof (cases "admissible st store rec sign")
  case False
  then show ?thesis using assms admit_refused [of st store rec sign] by (simp add: manifest_inv_def)
next
  case True
  then obtain r where r: "rec = Some r" by (auto simp: admissible_def split: option.splits)
  have wf: "tables_wf st" using assms by (simp add: manifest_inv_def)
  show ?thesis
  proof (cases rule: admit_looked_at [OF assms True [unfolded r]])
    case (1 st' d)
    have st': "tables_wf st'" "distinct (missing st')"
      "set (missing st') \<subseteq> set (missing st) \<union> behind store r {0..<fzn_manifest_count r}"
      using 1(1) by (auto simp: admitted_def)
    have own: "fzn_manifest_issuer r \<in> mi_issuer ` set (followed st)"
      using True by (auto simp: admissible_def r split: option.splits)
    have "md_issuer x \<in> mi_issuer ` set (followed st)" if x: "x \<in> set (missing st')" for x
    proof (cases "x \<in> set (missing st)")
      case True
      then show ?thesis using assms by (auto simp: manifest_inv_def)
    next
      case False
      then have "md_issuer x = fzn_manifest_issuer r" using st'(3) x by (auto simp: behind_def want_def)
      then show ?thesis using own by simp
    qed
    then have "md_issuer ` set (missing st') \<subseteq> mi_issuer ` set (followed st)" by (rule image_subsetI)
    moreover note keys = admitted_issuers [OF 1(1) wf] settle_rows [OF st'(1), of "find_issuer st (fzn_manifest_issuer r)"
        "fzn_manifest_count r" d]
    moreover have "mi_issuer ` set (followed (snd (fzn_manifest_admit st store (Some r) sign))) = mi_issuer ` set (followed st)"
      using keys 1(2) by (metis list.set_map snd_conv)
    ultimately show ?thesis using st' assms 1(2) by (simp add: manifest_inv_def r)
  qed
qed

text \<open>No manifest takes a pair out of the deficit.\<close>

lemma admit_missing_mono:
  assumes "manifest_inv st"
  shows "set (missing st) \<subseteq> set (missing (snd (fzn_manifest_admit st store rec sign)))"
proof (cases "admissible st store rec sign")
  case False
  then show ?thesis using assms admit_refused [of st store rec sign] by (simp add: manifest_inv_def)
next
  case True
  then obtain r where r: "rec = Some r" by (auto simp: admissible_def split: option.splits)
  show ?thesis
  proof (cases rule: admit_looked_at [OF assms True [unfolded r]])
    case (1 st' d)
    then show ?thesis using settle_rows(2) [of st'] by (auto simp: admitted_def r)
  qed
qed

section \<open>Settling a pair\<close>

lemma satisfy_loop_spec:
  assumes "used \<le> length ds" and "i \<le> used" and "satisfy_loop P i (ds, used, removed) = (ds', used', removed')"
  shows "length ds' = length ds \<and> used' \<le> used \<and> removed' + used' = removed + used \<and>
    take used' ds' = take i ds @ filter (\<lambda>d. \<not> P d) (drop i (take used ds))"
  using assms
proof (induction P i "(ds, used, removed)" arbitrary: ds used removed rule: satisfy_loop.induct)
  case (1 P i ds used removed)
  consider (stop) "\<not> i < used" | (hit) "i < used" "P (ds ! i)" | (miss) "i < used" "\<not> P (ds ! i)" by blast
  then show ?case
  proof cases
    case stop
    then show ?thesis using 1(3-5) by (simp add: satisfy_loop.simps)
  next
    case hit
    let ?ds = "put_at i (bytes_at (i + 1) (used - i - 1) ds) ds"
    have ds: "?ds = take i ds @ drop (Suc i) (take used ds) @ drop (used - 1) ds"
      using hit(1) 1(3) by (simp add: put_at_def bytes_at_def drop_take)
    have len: "length ?ds = length ds" unfolding ds using hit(1) 1(3) by simp
    have pre: "used - 1 \<le> length ?ds" "i \<le> used - 1" using len hit(1) 1(3) by simp_all
    have "take (used - 1) ?ds = take i ds @ drop (Suc i) (take used ds)"
      unfolding ds using hit(1) 1(3) by simp
    then have rest: "drop i (take (used - 1) ?ds) = drop (Suc i) (take used ds)" "take i ?ds = take i ds"
      using hit(1) 1(3) by (simp_all add: put_at_def)
    have "drop i (take used ds) = ds ! i # drop (Suc i) (take used ds)"
      using Cons_nth_drop_Suc [of i "take used ds"] hit(1) 1(3) by simp
    moreover have "satisfy_loop P i (?ds, used - 1, removed + 1) = (ds', used', removed')"
      using 1(5) hit by (simp add: satisfy_loop.simps [of P i ds])
    note 1(1) [OF hit pre this]
    ultimately show ?thesis using hit 1(3) len rest by auto
  next
    case miss
    have "drop i (take used ds) = ds ! i # drop (Suc i) (take used ds)"
      using Cons_nth_drop_Suc [of i "take used ds"] miss(1) 1(3) by simp
    moreover have "take (Suc i) ds = take i ds @ [ds ! i]" using miss(1) 1(3) by (simp add: take_Suc_conv_app_nth)
    moreover have "satisfy_loop P (Suc i) (ds, used, removed) = (ds', used', removed')"
      using 1(5) miss by (simp add: satisfy_loop.simps [of P i ds])
    note 1(2) [OF miss 1(3) _ this]
    ultimately show ?thesis using miss by simp
  qed
qed

lemma satisfy_rows:
  assumes "tables_wf st"
  shows "\<exists>st'. fzn_manifest_satisfy (Some st) (Some iss) (Some cap) (Some ge) =
      (length (filter (names iss cap ge) (missing st)), Some st') \<and> tables_wf st' \<and>
      missing st' = filter (\<lambda>d. \<not> names iss cap ge d) (missing st) \<and> followed st' = followed st \<and>
      ms_issuers st' = ms_issuers st"
proof -
  obtain ds where ds: "ms_deficit st = Some ds" "length ds = ms_deficit_capacity st" "ms_deficit_used st \<le> length ds"
    using assms by (auto simp: tables_wf_def split: option.splits)
  obtain ds' used' removed' where loop: "satisfy_loop (names iss cap ge) 0 (ds, ms_deficit_used st, 0) = (ds', used', removed')"
    by (metis prod_cases3)
  have spec: "length ds' = length ds" "used' \<le> ms_deficit_used st" "removed' + used' = ms_deficit_used st"
      "take used' ds' = filter (\<lambda>d. \<not> names iss cap ge d) (missing st)"
    using satisfy_loop_spec [OF ds(3) _ loop] by (simp_all add: missing_def ds(1))
  have "used' = length (filter (\<lambda>d. \<not> names iss cap ge d) (missing st))"
    using arg_cong [OF spec(4), of length] spec(1,2) ds(3) by simp
  then have "removed' = length (filter (names iss cap ge) (missing st))"
    using sum_length_filter_compl [of "names iss cap ge" "missing st"] spec(3) length_rows(2) [OF assms] by simp
  moreover have "fzn_manifest_satisfy (Some st) (Some iss) (Some cap) (Some ge) =
      (removed', Some (st\<lparr>ms_deficit := Some ds', ms_deficit_used := used'\<rparr>))"
    using tables_sound [OF assms] loop ds(1) by (simp add: fzn_manifest_satisfy_def)
  moreover have "tables_wf (st\<lparr>ms_deficit := Some ds', ms_deficit_used := used'\<rparr>)"
    using assms spec(1,2) ds by (auto simp: tables_wf_def split: option.splits)
  ultimately show ?thesis using spec(4) by (simp add: missing_def followed_def)
qed

lemma follow_rows:
  assumes "manifest_inv st"
  shows "manifest_inv (snd (fzn_manifest_follow st issuer))"
proof -
  have wf: "tables_wf st" using assms by (simp add: manifest_inv_def)
  obtain rs where rs: "ms_issuers st = Some rs" "length rs = ms_issuer_capacity st"
    using wf by (auto simp: tables_wf_def split: option.splits)
  show ?thesis
  proof (cases "\<exists>k. issuer = Some k \<and> k \<notin> mi_issuer ` set (followed st) \<and> ms_issuer_used st < ms_issuer_capacity st")
    case False
    then have "snd (fzn_manifest_follow st issuer) = st"
      using tables_sound [OF wf] find_issuer_iff [OF wf] by (auto simp: fzn_manifest_follow_def split: option.splits)
    then show ?thesis using assms by simp
  next
    case True
    then obtain k where k: "issuer = Some k" "k \<notin> mi_issuer ` set (followed st)" "ms_issuer_used st < ms_issuer_capacity st" by blast
    let ?row = "\<lparr>mi_issuer = k, mi_pairs_seen = 0, mi_overflowed = False\<rparr>"
    let ?st = "st\<lparr>ms_issuers := Some (rs[ms_issuer_used st := ?row]), ms_issuer_used := Suc (ms_issuer_used st)\<rparr>"
    have "snd (fzn_manifest_follow st issuer) = ?st"
      using k tables_sound [OF wf] find_issuer_iff [OF wf] rs by (simp add: fzn_manifest_follow_def)
    moreover have "followed ?st = followed st @ [?row]" "missing ?st = missing st"
      using k(3) rs by (simp_all add: followed_def missing_def take_append_cell)
    moreover have "tables_wf ?st" using wf rs k(3) by (auto simp: tables_wf_def split: option.splits)
    ultimately show ?thesis using assms k(2) by (auto simp: manifest_inv_def)
  qed
qed

lemma satisfy_inv:
  assumes "manifest_inv st"
  shows "manifest_inv (the (snd (fzn_manifest_satisfy (Some st) issuer capability grantee)))"
proof (cases "issuer = None \<or> capability = None \<or> grantee = None")
  case True
  then have "snd (fzn_manifest_satisfy (Some st) issuer capability grantee) = Some st"
    by (auto simp: fzn_manifest_satisfy_def split: option.splits)
  then show ?thesis using assms by simp
next
  case False
  then obtain i c g where n: "issuer = Some i" "capability = Some c" "grantee = Some g" by auto
  from satisfy_rows [of st i c g] assms show ?thesis unfolding n manifest_inv_def by (auto simp: image_subset_iff)
qed

section \<open>The operations as a machine\<close>

datatype manifest_event = Follow "key option"
  | Admit "fzn_revocation_store option" "bytes option" fzn_sign_ops
  | Satisfy "key option" "cap_id option" "key option"

primrec manifest_step :: "fzn_manifest_state \<Rightarrow> manifest_event \<Rightarrow> unit \<times> fzn_manifest_state" where
  "manifest_step st (Follow issuer) = ((), snd (fzn_manifest_follow st issuer))"
| "manifest_step st (Admit store rec sign) = ((), snd (fzn_manifest_admit st store rec sign))"
| "manifest_step st (Satisfy issuer capability grantee) =
     ((), the (snd (fzn_manifest_satisfy (Some st) issuer capability grantee)))"

lemma manifest_step_inv: "manifest_inv st \<Longrightarrow> manifest_inv (snd (manifest_step st ev))"
  by (cases ev) (simp_all add: follow_rows admit_inv satisfy_inv)

interpretation manifest_machine: invariant_machine manifest_step manifest_inv
  by unfold_locales (rule manifest_step_inv)

section \<open>Walking the deficit of an issuer\<close>

definition pair_of :: "fzn_manifest_deficit_t \<Rightarrow> fzn_manifest_pair" where
  "pair_of d = \<lparr>mp_capability = md_capability d, mp_grantee = md_grantee d\<rparr>"

definition lacking :: "fzn_manifest_state \<Rightarrow> key \<Rightarrow> fzn_manifest_pair list" where
  "lacking st issuer = map pair_of (filter (\<lambda>d. md_issuer d = issuer) (missing st))"

definition rel_of :: "nat \<Rightarrow> nat \<Rightarrow> nat \<Rightarrow> nat" where
  "rel_of tot from p = (p + tot - from) mod tot"

lemma rel_of_iff:
  assumes "from < tot" and "p < tot" and "r < tot"
  shows "rel_of tot from p = r \<longleftrightarrow> p = (from + r) mod tot"
proof (cases "from \<le> p")
  case True
  then have "rel_of tot from p = p - from"
    using assms by (simp add: rel_of_def add.commute [of p] flip: Nat.add_diff_assoc)
  then show ?thesis using True assms by (cases "from + r < tot") (auto simp: mod_if)
next
  case False
  then have "rel_of tot from p = p + tot - from" using assms by (simp add: rel_of_def)
  then show ?thesis using False assms by (cases "from + r < tot") (auto simp: mod_if)
qed

lemma rel_of_less: "0 < tot \<Longrightarrow> rel_of tot from p < tot"
  by (simp add: rel_of_def)

lemma deficit_loop_spec:
  assumes "from < tot" and "pos + length (filter (\<lambda>d. md_issuer d = iss) ds) \<le> tot" and "cap \<le> length out"
    and "deficit_loop iss tot from cap ds (pos, out, w) = (pos', out', w')"
  shows "length out' = length out \<and>
    w' = w + length (filter (\<lambda>p. rel_of tot from p < cap) [pos..<pos + length (filter (\<lambda>d. md_issuer d = iss) ds)]) \<and>
    (\<forall>k < length (filter (\<lambda>d. md_issuer d = iss) ds). rel_of tot from (pos + k) < cap \<longrightarrow>
       out' ! rel_of tot from (pos + k) = pair_of (filter (\<lambda>d. md_issuer d = iss) ds ! k)) \<and>
    (\<forall>r. (\<forall>k < length (filter (\<lambda>d. md_issuer d = iss) ds). rel_of tot from (pos + k) \<noteq> r) \<longrightarrow> out' ! r = out ! r)"
  using assms
proof (induction ds arbitrary: pos out w)
  case (Cons d ds)
  let ?own = "filter (\<lambda>d. md_issuer d = iss) ds"
  show ?case
  proof (cases "md_issuer d = iss")
    case False
    with Cons show ?thesis by simp
  next
    case own: True
    let ?r = "rel_of tot from pos"
    let ?out = "if ?r < cap then out[?r := pair_of d] else out"
    let ?w = "if ?r < cap then w + 1 else w"
    have step: "deficit_loop iss tot from cap ds (pos + 1, ?out, ?w) = (pos', out', w')"
      using Cons.prems(4) own by (auto simp: rel_of_def [symmetric] pair_of_def not_less split: if_splits)
    have "pos + 1 + length ?own \<le> tot" "cap \<le> length ?out" using Cons.prems(2,3) own by auto
    note ih = Cons.IH [OF Cons.prems(1) this step]
    have fresh: "rel_of tot from (Suc pos + k) \<noteq> ?r" if "k < length ?own" for k
      using that Cons.prems(1,2) own rel_of_iff [of "from" tot pos ?r] rel_of_iff [of "from" tot "Suc pos + k" ?r]
        rel_of_less [of tot "from" pos] by auto
    have "[pos..<pos + Suc (length ?own)] = pos # [Suc pos..<Suc pos + length ?own]" by (simp add: upt_conv_Cons del: upt_Suc)
    moreover have "out' ! rel_of tot from (pos + k) = pair_of ((d # ?own) ! k)"
      if k: "k < Suc (length ?own)" "rel_of tot from (pos + k) < cap" for k
    proof (cases k)
      case 0
      then have "out' ! ?r = ?out ! ?r" using ih fresh by simp
      then show ?thesis using 0 k(2) Cons.prems(3) by simp
    next
      case (Suc j)
      then show ?thesis using ih k by simp
    qed
    moreover have "out' ! r = out ! r" if "\<forall>k < Suc (length ?own). rel_of tot from (pos + k) \<noteq> r" for r
    proof -
      have "?r \<noteq> r" "\<forall>k < length ?own. rel_of tot from (Suc pos + k) \<noteq> r" using that [rule_format, of 0] that [rule_format, of "Suc _"] by auto
      then show ?thesis using ih by simp
    qed
    ultimately show ?thesis using ih own by simp
  qed
qed simp

lemma rotation_count:
  assumes "from < tot"
  shows "length (filter (\<lambda>p. rel_of tot from p < cap) [0..<tot]) = min cap tot"
proof -
  have inv: "rel_of tot from ((from + r) mod tot) = r" if "r < tot" for r
    using assms that rel_of_iff [OF assms, of "(from + r) mod tot" r] by simp
  have "bij_betw (\<lambda>r. (from + r) mod tot) {..<min cap tot} {p. p < tot \<and> rel_of tot from p < cap}"
  proof (rule bij_betw_byWitness [where f' = "rel_of tot from"])
    show "\<forall>r \<in> {..<min cap tot}. rel_of tot from ((from + r) mod tot) = r" by (simp add: inv)
    show "\<forall>p \<in> {p. p < tot \<and> rel_of tot from p < cap}. (from + rel_of tot from p) mod tot = p"
      using assms rel_of_iff [OF assms] rel_of_less [of tot "from"] by (metis (no_types, lifting) gr_zeroI mem_Collect_eq not_less_zero)
    show "(\<lambda>r. (from + r) mod tot) ` {..<min cap tot} \<subseteq> {p. p < tot \<and> rel_of tot from p < cap}"
      using assms by (auto simp: inv)
    show "rel_of tot from ` {p. p < tot \<and> rel_of tot from p < cap} \<subseteq> {..<min cap tot}"
      using assms rel_of_less [of tot "from"] by auto
  qed
  from bij_betw_same_card [OF this] have "card {p. p < tot \<and> rel_of tot from p < cap} = min cap tot" by simp
  then show ?thesis using distinct_card [of "filter (\<lambda>p. rel_of tot from p < cap) [0..<tot]"] by simp
qed

lemma deficit_from_spec:
  assumes "tables_wf st" and "lacking st iss \<noteq> []" and "cap \<le> length arr"
  shows "\<exists>arr'. fzn_manifest_deficit_from (Some st) (Some iss) from (Some arr) cap =
      (min cap (length (lacking st iss)), Some arr', length (lacking st iss) - min cap (length (lacking st iss)),
       (from + min cap (length (lacking st iss))) mod length (lacking st iss)) \<and>
    length arr' = length arr \<and>
    (\<forall>k < min cap (length (lacking st iss)). arr' ! k = lacking st iss ! ((from + k) mod length (lacking st iss)))"
proof -
  let ?own = "filter (\<lambda>d. md_issuer d = iss) (missing st)"
  define tot where "tot = length ?own"
  define start where "start = from mod tot"
  have tot: "length (lacking st iss) = tot" "0 < tot" using assms(2) by (auto simp: lacking_def tot_def)
  then have start: "start < tot" by (simp add: start_def)
  obtain pos' arr' w' where loop: "deficit_loop iss tot start cap (missing st) (0, arr, 0) = (pos', arr', w')"
    by (metis prod_cases3)
  note spec = deficit_loop_spec [OF start _ assms(3) loop, folded tot_def, simplified]
  have w': "w' = min cap tot" using spec rotation_count [OF start] by simp
  have "arr' ! k = lacking st iss ! ((from + k) mod tot)" if k: "k < min cap tot" for k
  proof -
    let ?p = "(start + k) mod tot"
    have p: "?p < tot" "rel_of tot start ?p = k" using rel_of_iff [OF start, of ?p k] tot(2) k by auto
    then have "arr' ! k = pair_of (?own ! ?p)" using spec k by fastforce
    moreover have "?p = (from + k) mod tot" by (simp add: start_def mod_add_left_eq)
    ultimately show ?thesis using p(1) by (simp add: lacking_def tot_def)
  qed
  moreover have "fzn_manifest_deficit_from (Some st) (Some iss) from (Some arr) cap =
      (w', Some arr', tot - w', (start + w') mod tot)"
    using tables_sound [OF assms(1)] tot(2) loop
    by (auto simp: fzn_manifest_deficit_from_def Let_def tot_def [symmetric] start_def [symmetric])
  moreover have "(start + w') mod tot = (from + min cap tot) mod tot" unfolding w' start_def by (rule mod_add_left_eq)
  moreover have "length arr' = length arr" using spec by simp
  ultimately show ?thesis using w' tot(1) by simp
qed

text \<open>Repeated calls, each starting where the last one said.\<close>

primrec walk :: "nat \<Rightarrow> fzn_manifest_state \<Rightarrow> key \<Rightarrow> nat \<Rightarrow> fzn_manifest_pair list \<Rightarrow> nat \<Rightarrow> fzn_manifest_pair list" where
  "walk 0 st iss from arr cap = []"
| "walk (Suc c) st iss from arr cap =
     (let (n, out, dropped, next) = fzn_manifest_deficit_from (Some st) (Some iss) from (Some arr) cap
      in take n (the out) @ walk c st iss next arr cap)"

lemma walk_spec:
  assumes "tables_wf st" and "lacking st iss \<noteq> []" and "cap \<le> length arr"
  defines "n \<equiv> min cap (length (lacking st iss))"
  shows "walk c st iss from arr cap = map (\<lambda>j. lacking st iss ! ((from + j) mod length (lacking st iss))) [0..<c * n]"
proof (induction c arbitrary: "from")
  case (Suc c)
  let ?l = "length (lacking st iss)"
  obtain arr' where call: "fzn_manifest_deficit_from (Some st) (Some iss) from (Some arr) cap =
      (n, Some arr', ?l - n, (from + n) mod ?l)" and arr': "length arr' = length arr"
      "\<forall>k < n. arr' ! k = lacking st iss ! ((from + k) mod ?l)"
    using deficit_from_spec [OF assms(1-3)] unfolding n_def by blast
  have "n \<le> length arr'" using assms(3) arr'(1) by (simp add: n_def)
  then have "take n arr' = map (\<lambda>j. lacking st iss ! ((from + j) mod ?l)) [0..<n]"
    using arr'(2) by (intro nth_equalityI) simp_all
  moreover have "((from + n) mod ?l + j) mod ?l = (from + (j + n)) mod ?l" for j
    using mod_add_left_eq [of "from + n" ?l j] by (simp add: ac_simps)
  moreover have "[0..<Suc c * n] = [0..<n] @ map (\<lambda>j. j + n) [0..<c * n]"
    using upt_add_eq_append [of 0 n "c * n"] unfolding map_add_upt by (simp add: add.commute)
  ultimately show ?case using Suc.IH [of "(from + n) mod ?l"] call by (simp add: comp_def del: mult_Suc)
qed simp

section \<open>Properties of the tables\<close>

text \<open>
  What admitting a manifest does. A manifest from an issuer the host does not follow, with a
  signature that does not verify, or against a store that is not sound changes nothing. Any other
  adds to the deficit exactly the pairs it names of which the store has not that revocation, or has
  it without the withdrawal the manifest reports, each once; when the table cannot hold them it
  reports so, the table is full, and the issuer is marked as overflowed until a manifest at least as
  long is admitted without loss.
\<close>

theorem manifest_admit_outcome:
  assumes "manifest_inv st"
  shows "(\<not> admissible st store rec sign \<longrightarrow> snd (fzn_manifest_admit st store rec sign) = st \<and>
      fst (fzn_manifest_admit st store rec sign) \<notin> {FZN_MANIFEST_OK, FZN_MANIFEST_ERR_DEFICIT_FULL}) \<and>
    (admissible st store (Some r) sign \<longrightarrow>
      (case fzn_manifest_admit st store (Some r) sign of (err, st') \<Rightarrow>
         err = FZN_MANIFEST_OK \<and>
           set (missing st') = set (missing st) \<union> behind store r {0..<fzn_manifest_count r} \<and>
           (fzn_manifest_overflowed (Some st') (Some (fzn_manifest_issuer r)) \<longrightarrow>
             fzn_manifest_overflowed (Some st) (Some (fzn_manifest_issuer r))) \<or>
         err = FZN_MANIFEST_ERR_DEFICIT_FULL \<and> set (missing st) \<subseteq> set (missing st') \<and>
           set (missing st') \<subseteq> set (missing st) \<union> behind store r {0..<fzn_manifest_count r} \<and>
           ms_deficit_used st' = ms_deficit_capacity st' \<and>
           fzn_manifest_overflowed (Some st') (Some (fzn_manifest_issuer r))))"
proof (intro conjI impI)
  have wf: "tables_wf st" using assms by (simp add: manifest_inv_def)
  assume "\<not> admissible st store rec sign"
  with wf show "snd (fzn_manifest_admit st store rec sign) = st"
    "fst (fzn_manifest_admit st store rec sign) \<notin> {FZN_MANIFEST_OK, FZN_MANIFEST_ERR_DEFICIT_FULL}"
    using admit_refused by blast+
next
  have wf: "tables_wf st" using assms by (simp add: manifest_inv_def)
  let ?k = "fzn_manifest_issuer r" and ?I = "{0..<fzn_manifest_count r}"
  let ?w = "find_issuer st ?k"
  assume adm: "admissible st store (Some r) sign"
  then have w: "?w < ms_issuer_used st" using find_issuer_iff [OF wf] by (auto simp: admissible_def split: option.splits)
  show "case fzn_manifest_admit st store (Some r) sign of (err, st') \<Rightarrow>
         err = FZN_MANIFEST_OK \<and> set (missing st') = set (missing st) \<union> behind store r ?I \<and>
           (fzn_manifest_overflowed (Some st') (Some ?k) \<longrightarrow> fzn_manifest_overflowed (Some st) (Some ?k)) \<or>
         err = FZN_MANIFEST_ERR_DEFICIT_FULL \<and> set (missing st) \<subseteq> set (missing st') \<and>
           set (missing st') \<subseteq> set (missing st) \<union> behind store r ?I \<and>
           ms_deficit_used st' = ms_deficit_capacity st' \<and> fzn_manifest_overflowed (Some st') (Some ?k)"
  proof (cases rule: admit_looked_at [OF assms adm])
    case (1 st' d)
    let ?st = "settle_counts ?w (fzn_manifest_count r) d st'"
    have a: "tables_wf st'" "ms_issuer_used st' = ms_issuer_used st" using 1(1) by (auto simp: admitted_def)
    note rows = settle_rows [OF a(1), of ?w "fzn_manifest_count r" d]
    have find: "find_issuer ?st ?k = ?w"
      using find_issuer_cong [of ?st st] rows(3) admitted_issuers [OF 1(1) wf] by simp
    have used: "ms_issuer_used ?st = ms_issuer_used st" "ms_deficit_used ?st = ms_deficit_used st'"
      "ms_deficit_capacity ?st = ms_deficit_capacity st'" by (simp_all add: settle_counts_def a(2))
    have over: "fzn_manifest_overflowed (Some ?st) (Some ?k) \<longleftrightarrow> mi_overflowed (the (ms_issuers st') ! ?w) \<and>
        \<not> (mi_pairs_seen (the (ms_issuers st') ! ?w) \<le> fzn_manifest_count r \<and> d = 0)"
      using tables_sound [OF rows(1)] w used(1) a(2) find settle_overflowed [OF a(1), of ?w]
      by (auto simp: fzn_manifest_overflowed_def Let_def)
    have was: "fzn_manifest_overflowed (Some st) (Some ?k) \<longleftrightarrow> mi_overflowed (the (ms_issuers st) ! ?w)"
      using tables_sound [OF wf] w by (auto simp: fzn_manifest_overflowed_def Let_def)
    show ?thesis
    proof (cases "d = 0")
      case True
      then show ?thesis using 1 rows(2) over was by (auto simp: admitted_def)
    next
      case False
      have "mi_overflowed (the (ms_issuers (set_overflowed ?w True st)) ! ?w)"
        using wf w by (auto simp: set_overflowed_def tables_wf_def split: option.splits)
      then show ?thesis using False 1 rows(2) over used by (simp add: admitted_def)
    qed
  qed
qed

definition demo_manifest :: bytes where
  "demo_manifest = manifest_write (replicate 32 7) [candidate one_row] @ replicate 64 5"

definition demo_state :: fzn_manifest_state where
  "demo_state = \<lparr>ms_issuers = Some [\<lparr>mi_issuer = replicate 32 7, mi_pairs_seen = 0, mi_overflowed = False\<rparr>],
     ms_issuer_capacity = 1, ms_issuer_used = 1,
     ms_deficit = Some (replicate 2 \<lparr>md_issuer = [], md_capability = [], md_grantee = []\<rparr>),
     ms_deficit_capacity = 2, ms_deficit_used = 0\<rparr>"

definition demo_sign :: fzn_sign_ops where
  "demo_sign = \<lparr>so_verify = Some (\<lambda>k m sig. sig = replicate 64 5), so_sign = Some (\<lambda>m. Some (replicate 64 5))\<rparr>"

lemma demo_state_inv: "manifest_inv demo_state"
  by (simp add: demo_state_def manifest_inv_def tables_wf_def followed_def missing_def)

lemma demo_manifest_fields:
  "fzn_manifest_count demo_manifest = 1" "fzn_manifest_issuer demo_manifest = replicate 32 7"
  "fzn_manifest_signature demo_manifest = replicate 64 5"
proof -
  have wf: "row_wf one_row" by (simp add: row_wf_def one_row_def)
  have ps: "pairs_wf [candidate one_row]" using candidate_facts [OF wf] by (simp add: pairs_wf_def)
  have iss: "length (replicate 32 (7 :: u8)) = 32" and sig: "length (replicate 64 (5 :: u8)) = FZN_SIG_LEN" by simp_all
  show "fzn_manifest_count demo_manifest = 1" "fzn_manifest_issuer demo_manifest = replicate 32 7"
    using manifest_write_fields(1,2) [OF iss ps] by (simp_all add: demo_manifest_def)
  show "fzn_manifest_signature demo_manifest = replicate 64 5"
    using manifest_open_write(4) [OF iss ps _ sig] by (simp add: demo_manifest_def)
qed

lemma demo_admissible: "admissible demo_state None (Some demo_manifest) demo_sign"
  by (simp add: admissible_def demo_sign_def demo_manifest_fields demo_state_def followed_def fzn_revocation_store_sound_def)

theorem manifest_admit_outcome_witness:
  "manifest_inv demo_state \<and> admissible demo_state None (Some demo_manifest) demo_sign \<and>
   (case fzn_manifest_admit demo_state None (Some demo_manifest) demo_sign of (err, st') \<Rightarrow>
      err = FZN_MANIFEST_OK \<and> set (missing st') = {want demo_manifest 0} \<or>
      err = FZN_MANIFEST_ERR_DEFICIT_FULL \<and> ms_deficit_used st' = ms_deficit_capacity st')"
proof -
  have none: "missing demo_state = []" by (simp add: demo_state_def missing_def)
  have "behind None demo_manifest {0..<1} = {want demo_manifest 0}"
    by (auto simp: behind_def ahead_def fzn_revocation_lookup_def)
  with manifest_admit_outcome [OF demo_state_inv, of None None demo_sign demo_manifest] demo_admissible demo_state_inv none
  show ?thesis by (auto simp: demo_manifest_fields split: prod.splits)
qed

text \<open>
  Settling a pair removes it from the deficit and nothing else, keeps the order of the rest and
  reports how many rows it removed, which is at most one; afterwards the issuer's count of pending
  pairs has dropped by that number and every other issuer's stands.
\<close>

theorem satisfy_removes_pair:
  assumes "manifest_inv st"
  shows "\<exists>st'. fzn_manifest_satisfy (Some st) (Some issuer) (Some capability) (Some grantee) =
      ((if \<lparr>md_issuer = issuer, md_capability = capability, md_grantee = grantee\<rparr> \<in> set (missing st) then 1 else 0), Some st') \<and>
    manifest_inv st' \<and>
    missing st' = filter (\<lambda>d. d \<noteq> \<lparr>md_issuer = issuer, md_capability = capability, md_grantee = grantee\<rparr>) (missing st) \<and>
    fzn_manifest_pending (Some st') (Some issuer) + fst (fzn_manifest_satisfy (Some st) (Some issuer) (Some capability) (Some grantee)) =
      fzn_manifest_pending (Some st) (Some issuer) \<and>
    (\<forall>other. other \<noteq> issuer \<longrightarrow> fzn_manifest_pending (Some st') (Some other) = fzn_manifest_pending (Some st) (Some other))"
proof -
  let ?d = "\<lparr>md_issuer = issuer, md_capability = capability, md_grantee = grantee\<rparr>"
  have wf: "tables_wf st" and dist: "distinct (missing st)" using assms by (auto simp: manifest_inv_def)
  obtain st' where s: "fzn_manifest_satisfy (Some st) (Some issuer) (Some capability) (Some grantee) =
      (length (filter (\<lambda>d. d = ?d) (missing st)), Some st')" "tables_wf st'"
      "missing st' = filter (\<lambda>d. d \<noteq> ?d) (missing st)"
    using satisfy_rows [OF wf, of issuer capability grantee] by (auto simp: names_iff [abs_def])
  have inv: "manifest_inv st'" using satisfy_inv [OF assms, of "Some issuer" "Some capability" "Some grantee"] s(1) by simp
  have pend: "fzn_manifest_pending (Some x) (Some k) = length (filter (\<lambda>d. md_issuer d = k) (missing x))"
    if "tables_wf x" for x k using tables_sound [OF that] by (auto simp: fzn_manifest_pending_def)
  have hits: "length (filter (\<lambda>d. d = ?d) (missing st)) = (if ?d \<in> set (missing st) then 1 else 0)"
    using dist by (rule length_filter_same)
  have split: "length (filter (\<lambda>d. d \<noteq> ?d \<and> md_issuer d = issuer) xs) + length (filter (\<lambda>d. d = ?d) xs) =
      length (filter (\<lambda>d. md_issuer d = issuer) xs)" for xs by (induction xs) auto
  have others: "filter (\<lambda>d. d \<noteq> ?d \<and> md_issuer d = k) xs = filter (\<lambda>d. md_issuer d = k) xs" if "k \<noteq> issuer" for k xs
    using that by (induction xs) auto
  have "fzn_manifest_pending (Some st') (Some issuer) + length (filter (\<lambda>d. d = ?d) (missing st)) =
      fzn_manifest_pending (Some st) (Some issuer)"
    using split [of "missing st"] by (simp add: pend [OF wf] pend [OF s(2)] s(3))
  moreover have "fzn_manifest_pending (Some st') (Some k) = fzn_manifest_pending (Some st) (Some k)" if "k \<noteq> issuer" for k
    using others [OF that, of "missing st"] by (simp add: pend [OF wf] pend [OF s(2)] s(3))
  ultimately show ?thesis using s(1,3) inv unfolding hits by (intro exI [of _ st']) simp
qed

theorem satisfy_removes_pair_witness:
  "\<exists>st'. fzn_manifest_satisfy (Some (demo_state\<lparr>ms_deficit := Some [\<lparr>md_issuer = replicate 32 7, md_capability = [1], md_grantee = [2]\<rparr>,
        \<lparr>md_issuer = replicate 32 7, md_capability = [3], md_grantee = [2]\<rparr>], ms_deficit_used := 2\<rparr>))
      (Some (replicate 32 7)) (Some [1]) (Some [2]) = (1, Some st') \<and>
     missing st' = [\<lparr>md_issuer = replicate 32 7, md_capability = [3], md_grantee = [2]\<rparr>]"
proof -
  let ?st = "demo_state\<lparr>ms_deficit := Some [\<lparr>md_issuer = replicate 32 7, md_capability = [1], md_grantee = [2]\<rparr>,
        \<lparr>md_issuer = replicate 32 7, md_capability = [3], md_grantee = [2]\<rparr>], ms_deficit_used := 2\<rparr>"
  have m: "missing ?st = [\<lparr>md_issuer = replicate 32 7, md_capability = [1], md_grantee = [2]\<rparr>,
        \<lparr>md_issuer = replicate 32 7, md_capability = [3], md_grantee = [2]\<rparr>]" by (simp add: missing_def)
  have "manifest_inv ?st" by (simp add: manifest_inv_def tables_wf_def m) (simp add: demo_state_def followed_def)
  from satisfy_removes_pair [OF this, of "replicate 32 7" "[1]" "[2]"] show ?thesis unfolding m by auto
qed

text \<open>
  Walking a deficit reaches all of it: calls of \<open>fzn_manifest_deficit_from\<close> that each start where
  the last one ended report, once their arrays together are as long as the deficit, exactly the
  pairs the issuer's manifests named and the host lacks, wherever the walk starts.
\<close>

theorem deficit_walk_covers:
  assumes "tables_wf st" and "0 < cap" and "cap \<le> length arr" and "length (lacking st issuer) \<le> calls * min cap (length (lacking st issuer))"
  shows "set (walk calls st issuer from arr cap) = set (lacking st issuer)"
proof (cases "lacking st issuer = []")
  case True
  then have "length (filter (\<lambda>d. md_issuer d = issuer) (missing st)) = 0" by (simp add: lacking_def)
  then have "fzn_manifest_deficit_from (Some st) (Some issuer) f (Some arr) cap = (0, Some arr, 0, 0)" for f
    by (auto simp: fzn_manifest_deficit_from_def)
  then have "walk c st issuer f arr cap = []" for c f by (induction c arbitrary: f) simp_all
  with True show ?thesis by simp
next
  case False
  let ?l = "length (lacking st issuer)"
  have l: "0 < ?l" using False by simp
  have "x \<in> set (walk calls st issuer from arr cap)" if x: "x \<in> set (lacking st issuer)" for x
  proof -
    obtain i where i: "i < ?l" "x = lacking st issuer ! i" using x by (auto simp: in_set_conv_nth)
    define j where "j = rel_of ?l (from mod ?l) i"
    have j: "j < ?l" "i = (from mod ?l + j) mod ?l"
      using rel_of_iff [of "from mod ?l" ?l i j] rel_of_less [OF l] i(1) l by (auto simp: j_def)
    then have "x = lacking st issuer ! ((from + j) mod ?l)" using i(2) by (simp add: mod_add_left_eq)
    moreover have "j < calls * min cap ?l" using j(1) assms(4) by linarith
    ultimately show ?thesis unfolding walk_spec [OF assms(1) False assms(3)] by auto
  qed
  moreover have "set (walk calls st issuer from arr cap) \<subseteq> set (lacking st issuer)"
    unfolding walk_spec [OF assms(1) False assms(3)] using l by (auto intro!: nth_mem)
  ultimately show ?thesis by blast
qed

theorem deficit_walk_covers_witness:
  "set (walk 2 (demo_state\<lparr>ms_deficit := Some [\<lparr>md_issuer = [1], md_capability = [1], md_grantee = [2]\<rparr>,
        \<lparr>md_issuer = [1], md_capability = [3], md_grantee = [2]\<rparr>], ms_deficit_used := 2\<rparr>) [1] 5
        [\<lparr>mp_capability = [], mp_grantee = []\<rparr>] 1) =
   {\<lparr>mp_capability = [1], mp_grantee = [2]\<rparr>, \<lparr>mp_capability = [3], mp_grantee = [2]\<rparr>}"
proof -
  let ?st = "demo_state\<lparr>ms_deficit := Some [\<lparr>md_issuer = [1], md_capability = [1], md_grantee = [2]\<rparr>,
        \<lparr>md_issuer = [1], md_capability = [3], md_grantee = [2]\<rparr>], ms_deficit_used := 2\<rparr>"
  have "lacking ?st [1] = [\<lparr>mp_capability = [1], mp_grantee = [2]\<rparr>, \<lparr>mp_capability = [3], mp_grantee = [2]\<rparr>]"
    by (simp add: lacking_def missing_def pair_of_def)
  moreover have "tables_wf ?st" by (simp add: tables_wf_def demo_state_def)
  ultimately show ?thesis using deficit_walk_covers [of ?st 1 "[\<lparr>mp_capability = [], mp_grantee = []\<rparr>]" "[1]" 2 5] by simp
qed

text \<open>
  From fresh tables no sequence of follows, admissions and settlements leaves the arrays, lists
  a pair or an issuer twice, or records a pair for an issuer the host does not follow.
\<close>

theorem manifest_tables_invariant:
  assumes "fzn_manifest_init (Some issuers) (length issuers) (Some deficit) (length deficit) = (FZN_MANIFEST_OK, Some st)"
  shows "manifest_inv (final manifest_step st evs)"
proof -
  have "manifest_inv st"
    using assms by (auto simp: fzn_manifest_init_def manifest_inv_def tables_wf_def followed_def missing_def split: if_splits)
  then show ?thesis by (rule manifest_machine.run_invar)
qed

theorem manifest_tables_invariant_witness:
  "\<exists>st. fzn_manifest_init (Some [\<lparr>mi_issuer = [], mi_pairs_seen = 0, mi_overflowed = False\<rparr>]) 1
       (Some [\<lparr>md_issuer = [], md_capability = [], md_grantee = []\<rparr>]) 1 = (FZN_MANIFEST_OK, Some st) \<and>
     manifest_inv (final manifest_step st [Follow (Some (replicate 32 7)), Admit None (Some demo_manifest) demo_sign])"
  using manifest_tables_invariant [of "[\<lparr>mi_issuer = [], mi_pairs_seen = 0, mi_overflowed = False\<rparr>]"
      "[\<lparr>md_issuer = [], md_capability = [], md_grantee = []\<rparr>]" _
      "[Follow (Some (replicate 32 7)), Admit None (Some demo_manifest) demo_sign]"]
  by (simp add: fzn_manifest_init_def del: run.simps)

end
