(* ===== verification/Revocation_Rule.thy ===== *)
theory Revocation_Rule
  imports Revocation_Store
begin

text \<open>
  What the rule of \<open>chain/revocation.c\<close> computes: the epoch it finds open is the least one that is
  not closed although only epochs named by entries are tried, and the verdict depends on which
  revocations a store holds and not on the order it learned them in, as long as one root decides.
  With a set of roots it does depend on the order, which the last property shows on two stores.
\<close>

section \<open>The open epoch\<close>

definition first_epoch :: "hop_question \<Rightarrow> u64" where
  "first_epoch h = (case hq_floor h of Some f \<Rightarrow> f + 1 | None \<Rightarrow> 0)"

definition open_at :: "fzn_revocation_store \<Rightarrow> hop_question \<Rightarrow> nat \<Rightarrow> u64 \<Rightarrow> bool" where
  "open_at store h q c \<longleftrightarrow> first_epoch h \<le> c \<and> \<not> epoch_closed store h c q"

definition named_epochs :: "fzn_revocation_store \<Rightarrow> hop_question \<Rightarrow> fzn_revocation \<Rightarrow> u64 set" where
  "named_epochs store h e =
     (if counts store h e
      then insert (rv_epoch e) (if rv_epoch e = UINT64_MAX then {} else {rv_epoch e + 1}) else {})"

definition best_so_far :: "fzn_revocation_store \<Rightarrow> hop_question \<Rightarrow> nat \<Rightarrow> u64 set \<Rightarrow> bool \<times> u64 \<Rightarrow> bool" where
  "best_so_far store h q S = (\<lambda>(have, best).
     (have \<longleftrightarrow> (\<exists>c \<in> S. open_at store h q c)) \<and>
     (have \<longrightarrow> best \<in> S \<and> open_at store h q best \<and> (\<forall>c \<in> S. open_at store h q c \<longrightarrow> best \<le> c)))"

lemma best_try:
  "best_so_far store h q S st \<Longrightarrow>
   best_so_far store h q (insert c S) (try_epoch store h q (first_epoch h) c st)"
  by (cases st) (auto simp: best_so_far_def try_epoch_def open_at_def)

lemma best_step:
  assumes "best_so_far store h q S st"
  shows "best_so_far store h q (S \<union> named_epochs store h e) (open_step store h q (first_epoch h) e st)"
proof (cases "counts store h e")
  case True
  note one = best_try [OF assms, of "rv_epoch e"]
  show ?thesis
  proof (cases "rv_epoch e = UINT64_MAX")
    case True
    then show ?thesis using one \<open>counts store h e\<close> by (simp add: open_step_def named_epochs_def)
  next
    case False
    then show ?thesis
      using best_try [OF one, of "rv_epoch e + 1"] \<open>counts store h e\<close>
      by (simp add: open_step_def named_epochs_def insert_commute)
  qed
qed (use assms in \<open>simp add: open_step_def named_epochs_def\<close>)

lemma best_fold:
  "best_so_far store h q S st \<Longrightarrow>
   best_so_far store h q (S \<union> (\<Union>e \<in> set es. named_epochs store h e)) (fold (open_step store h q (first_epoch h)) es st)"
proof (induction es arbitrary: S st)
  case (Cons e es)
  from Cons.IH [OF best_step [OF Cons.prems, of e]] show ?case by (simp add: Un_assoc)
qed simp

definition tried_epochs :: "fzn_revocation_store \<Rightarrow> hop_question \<Rightarrow> u64 set" where
  "tried_epochs store h = insert (first_epoch h) (\<Union>e \<in> set (entries_of store). named_epochs store h e)"

lemma open_epoch_tried:
  assumes "hq_floor h \<noteq> Some UINT64_MAX"
  shows "if \<exists>c \<in> tried_epochs store h. open_at store h q c
    then open_epoch store h q \<in> tried_epochs store h \<and> open_at store h q (open_epoch store h q) \<and>
      (\<forall>c \<in> tried_epochs store h. open_at store h q c \<longrightarrow> open_epoch store h q \<le> c)
    else open_epoch store h q = UINT64_MAX"
proof -
  have "best_so_far store h q {first_epoch h} (\<not> epoch_closed store h (first_epoch h) q, first_epoch h)"
    by (simp add: best_so_far_def open_at_def)
  from best_fold [OF this, of "entries_of store"]
  have "best_so_far store h q (tried_epochs store h)
      (fold (open_step store h q (first_epoch h)) (entries_of store)
        (\<not> epoch_closed store h (first_epoch h) q, first_epoch h))"
    by (simp add: tried_epochs_def)
  moreover have "open_epoch store h q =
      (let (have, best) = fold (open_step store h q (first_epoch h)) (entries_of store)
        (\<not> epoch_closed store h (first_epoch h) q, first_epoch h) in if have then best else UINT64_MAX)"
    using assms by (simp add: open_epoch_def first_epoch_def Let_def)
  ultimately show ?thesis by (auto simp: best_so_far_def split: prod.splits)
qed

lemma unat_next: "m \<noteq> UINT64_MAX \<Longrightarrow> unat (m + 1) = Suc (unat m)"
  by (metis add.commute add_eq_0_iff unatSuc)

lemma next_gap: "m \<noteq> UINT64_MAX \<Longrightarrow> m \<le> c \<Longrightarrow> c < m + 1 \<Longrightarrow> c = m"
  by (simp add: word_le_nat_alt word_less_nat_alt word_unat_eq_iff unat_next)

lemma finite_tried: "finite (tried_epochs store h)"
  by (simp add: tried_epochs_def named_epochs_def)

text \<open>Every open epoch has an open one among those tried at or below it.\<close>

lemma tried_below:
  assumes "open_at store h q c"
  shows "\<exists>m \<in> tried_epochs store h. open_at store h q m \<and> m \<le> c"
proof -
  let ?C = "{x \<in> tried_epochs store h. x \<le> c}"
  have fin: "finite ?C" using finite_tried by simp
  have first: "first_epoch h \<in> ?C" using assms by (simp add: open_at_def tried_epochs_def)
  define m where "m = Max ?C"
  have m: "m \<in> ?C" using Max_in [OF fin] first unfolding m_def by blast
  have top: "x \<le> m" if "x \<in> tried_epochs store h" "x \<le> c" for x
    unfolding m_def using that by (intro Max_ge [OF fin]) simp
  have later: "rv_epoch e > c \<or> (rv_epoch e = c \<and> rv_withdrawn e)"
    if e: "e \<in> set (entries_of store)" "counts store h e"
      and at: "rv_epoch e > m \<or> (rv_epoch e = m \<and> rv_withdrawn e)" for e
  proof (cases "rv_epoch e > m")
    case True
    have "rv_epoch e \<in> tried_epochs store h" using e by (auto simp: tried_epochs_def named_epochs_def)
    with True top show ?thesis by (meson not_le)
  next
    case False
    then have em: "rv_epoch e = m" "rv_withdrawn e" using at by auto
    have "c = m"
    proof (cases "m = UINT64_MAX")
      case True
      then show ?thesis using m by (simp add: antisym)
    next
      case False
      then have "m + 1 \<in> tried_epochs store h" using e em by (auto simp: tried_epochs_def named_epochs_def)
      then have "\<not> m + 1 \<le> c" using top [of "m + 1"] False
        by (auto simp: word_le_nat_alt unat_next)
      then show ?thesis using next_gap [OF False] m by simp
    qed
    with em show ?thesis by simp
  qed
  have "count_entries (\<lambda>e. counts store h e \<and> (rv_epoch e > m \<or> (rv_epoch e = m \<and> rv_withdrawn e))) store
      \<le> count_entries (\<lambda>e. counts store h e \<and> (rv_epoch e > c \<or> (rv_epoch e = c \<and> rv_withdrawn e))) store"
    unfolding count_entries_def using later by (intro length_filter_mono) auto
  then have "\<not> epoch_closed store h m q" using assms by (simp add: open_at_def epoch_closed_def)
  moreover have "first_epoch h \<le> m" using top [of "first_epoch h"] first by simp
  ultimately show ?thesis using m by (auto simp: open_at_def)
qed

lemma open_epoch_cases:
  assumes "hq_floor h \<noteq> Some UINT64_MAX"
  shows "if \<exists>c. open_at store h q c
    then open_at store h q (open_epoch store h q) \<and> (\<forall>c. open_at store h q c \<longrightarrow> open_epoch store h q \<le> c)
    else open_epoch store h q = UINT64_MAX"
proof (cases "\<exists>c. open_at store h q c")
  case True
  then have ex: "\<exists>c \<in> tried_epochs store h. open_at store h q c" using tried_below by blast
  note best = open_epoch_tried [OF assms, of store q, unfolded if_P [OF ex]]
  have "open_epoch store h q \<le> c" if "open_at store h q c" for c
    using tried_below [OF that] best by force
  with best True show ?thesis by simp
next
  case False
  then show ?thesis using open_epoch_tried [OF assms, of store q] by (auto split: if_splits)
qed

section \<open>Independence of the order of the entries\<close>

lemma rows_entries_update [simp]:
  "admins_of (s\<lparr>rs_entries := x\<rparr>) = admins_of s" "confirms_of (s\<lparr>rs_entries := x\<rparr>) = confirms_of s"
  "root_member (s\<lparr>rs_entries := x\<rparr>) k = root_member s k" "root_entry (s\<lparr>rs_entries := x\<rparr>) e rk = root_entry s e rk"
  "root_confirms (s\<lparr>rs_entries := x\<rparr>) k fk act = root_confirms s k fk act"
  "admin_rooted (s\<lparr>rs_entries := x\<rparr>) ad = admin_rooted s ad" "quorum_of (s\<lparr>rs_entries := x\<rparr>) = quorum_of s"
  by (simp_all add: admins_of_def confirms_of_def root_member_def root_entry_def root_confirms_def
      admin_rooted_def quorum_of_def)

lemma find_admin_entries [simp]: "find_admin (s\<lparr>rs_entries := x\<rparr>) k = find_admin s k"
  by (simp add: find_admin_def)

lemma counts_entries [simp]: "counts (s\<lparr>rs_entries := x\<rparr>) h e = counts s h e"
  by (simp add: counts_def Let_def split: option.splits)

lemma confirm_scan_entries [simp]:
  "confirm_scan (s\<lparr>rs_entries := x\<rparr>) el cd need ad h cs br seen = confirm_scan s el cd need ad h cs br seen"
  by (induction s el cd need ad h cs br seen rule: confirm_scan.induct) (simp_all add: Let_def)

lemma hop_confirmed_entries [simp]: "hop_confirmed (s\<lparr>rs_entries := x\<rparr>) = hop_confirmed s"
  by (intro ext) (simp add: hop_confirmed_def)

lemma confirm_one_entries [simp]: "confirm_one (s\<lparr>rs_entries := x\<rparr>) = confirm_one s"
  by (intro ext) (simp add: confirm_one_def Let_def split_beta)

lemma confirm_rounds_entries [simp]:
  "confirm_rounds (s\<lparr>rs_entries := x\<rparr>) el need n cd = confirm_rounds s el need n cd"
  by (induction n arbitrary: cd) (simp_all add: split_beta)

lemma confirm_admins_entries [simp]: "confirm_admins (s\<lparr>rs_entries := x\<rparr>) = confirm_admins s"
  by (intro ext) (simp add: confirm_admins_def Let_def del: confirm_rounds.simps)

lemma root_loop_entries [simp]: "root_loop (s\<lparr>rs_entries := x\<rparr>) rk h es = root_loop s rk h es"
  by (induction s rk h es rule: root_loop.induct) simp_all

text \<open>
  With a single root at most one entry of a store is the root's on a given hop, so the pass over
  its entries meets it wherever it lies.
\<close>

definition of_root :: "key option \<Rightarrow> hop_question \<Rightarrow> fzn_revocation \<Rightarrow> bool" where
  "of_root rk h e \<longleftrightarrow> rk = Some (rv_issuer e) \<and> rv_capability e = hq_capability h \<and>
     rv_grantee e = hq_grantees h ! hq_i h"

lemma of_root_floor [simp]: "of_root rk (h\<lparr>hq_floor := f\<rparr>) = of_root rk h"
  by (simp add: of_root_def fun_eq_iff)

lemma root_loop_skip:
  assumes "rs_roots s = None"
  shows "\<not> of_root rk h e \<Longrightarrow> root_loop s rk h (e # es) = root_loop s rk h es"
  using assms by (auto simp: of_root_def counts_def root_entry_def split: option.splits)

lemma root_loop_none:
  assumes "rs_roots s = None"
  shows "filter (of_root rk h) es = [] \<Longrightarrow> root_loop s rk h es = (False, h)"
  by (induction es) (auto simp: root_loop_skip [OF assms] simp del: root_loop.simps(2) split: if_splits)

lemma root_loop_filter:
  assumes "rs_roots s = None"
  shows "length (filter (of_root rk h) es) \<le> 1 \<Longrightarrow> root_loop s rk h es = root_loop s rk h (filter (of_root rk h) es)"
proof (induction es)
  case (Cons e es)
  show ?case
  proof (cases "of_root rk h e")
    case True
    then have "filter (of_root rk h) es = []" using Cons.prems by simp
    then show ?thesis
      using True root_loop_none [OF assms, of rk h es] root_loop_none [OF assms, of rk "h\<lparr>hq_floor := _\<rparr>" es] by simp
  qed (use Cons root_loop_skip [OF assms] in \<open>simp del: root_loop.simps(2)\<close>)
qed simp

lemma one_root_row:
  assumes "distinct (map triple es)"
  shows "length (filter (of_root rk h) es) \<le> 1"
proof (rule ccontr)
  assume "\<not> ?thesis"
  then obtain a b cs where f: "filter (of_root rk h) es = a # b # cs"
    by (cases "filter (of_root rk h) es"; cases "tl (filter (of_root rk h) es)") auto
  have "distinct (map triple (filter (of_root rk h) es))" using assms by (rule distinct_map_filter)
  moreover have "a \<in> set (filter (of_root rk h) es)" "b \<in> set (filter (of_root rk h) es)" unfolding f by simp_all
  then have "of_root rk h a" "of_root rk h b" by simp_all
  ultimately show False using f by (auto simp: of_root_def triple_def)
qed

lemma mset_short_eq: "mset xs = mset ys \<Longrightarrow> length xs \<le> 1 \<Longrightarrow> xs = ys"
  by (cases xs; cases ys) (auto dest: mset_eq_length)

lemma root_loop_perm:
  assumes "rs_roots s = None" and "distinct (map triple es)" and "mset es' = mset es"
  shows "root_loop s rk h es' = root_loop s rk h es"
proof -
  have "mset (map triple es') = mset (map triple es)" using assms(3) by (metis mset_map)
  then have d': "distinct (map triple es')" using assms(2) mset_eq_imp_distinct_iff by blast
  have "filter (of_root rk h) es' = filter (of_root rk h) es"
    using one_root_row [OF d'] assms(3) by (intro mset_short_eq) simp_all
  then show ?thesis
    using root_loop_filter [OF assms(1) one_root_row [OF d']] root_loop_filter [OF assms(1) one_root_row [OF assms(2)]]
    by metis
qed

definition reordered :: "fzn_revocation_store \<Rightarrow> fzn_revocation_store \<Rightarrow> bool" where
  "reordered s' s \<longleftrightarrow> (\<exists>es'. s' = s\<lparr>rs_entries := Some es'\<rparr>) \<and> mset (entries_of s') = mset (entries_of s)"

lemma reordered_count: "reordered s' s \<Longrightarrow> count_entries P s' = count_entries P s"
  unfolding reordered_def count_entries_def by (metis mset_filter size_mset)

lemma reordered_counts: "reordered s' s \<Longrightarrow> counts s' = counts s"
  by (intro ext) (auto simp: reordered_def)

lemma reordered_closed: "reordered s' s \<Longrightarrow> epoch_closed s' h c q = epoch_closed s h c q"
  by (simp add: epoch_closed_def reordered_count reordered_counts)

lemma reordered_open_epoch:
  assumes "reordered s' s"
  shows "open_epoch s' h q = open_epoch s h q"
proof (cases "hq_floor h = Some UINT64_MAX")
  case False
  have same: "open_at s' h q = open_at s h q"
    by (intro ext) (simp add: open_at_def reordered_closed [OF assms])
  show ?thesis
    using open_epoch_cases [OF False, of s' q] open_epoch_cases [OF False, of s q]
    unfolding same by (auto intro: antisym split: if_splits)
qed (simp add: open_epoch_def)

lemma reordered_root_pass:
  assumes "reordered s' s" and "rs_roots s = None" and "distinct (map triple (entries_of s))"
  shows "root_pass s' h rk = root_pass s h rk"
  using assms(1) root_loop_perm [OF assms(2,3), of "entries_of s'"] assms(2)
  by (auto simp: root_pass_def reordered_def)

lemma reordered_judge_hop:
  assumes "reordered s' s" and "rs_roots s = None" and "distinct (map triple (entries_of s))"
  shows "judge_hop s' h rk q = judge_hop s h rk q"
  by (simp add: judge_hop_def Let_def split_beta reordered_root_pass [OF assms] reordered_count [OF assms(1)]
      reordered_counts [OF assms(1)] reordered_open_epoch [OF assms(1)])

lemma reordered_same:
  assumes "reordered s' s"
  shows "quorum_of s' = quorum_of s" and "confirm_admins s' = confirm_admins s" and "admins_of s' = admins_of s"
    and "rs_admins_used s' = rs_admins_used s" and "rs_admin_capability s' = rs_admin_capability s"
  using assms by (auto simp: reordered_def)

lemma reordered_judge_links:
  assumes "reordered s' s" and "rs_roots s = None" and "distinct (map triple (entries_of s))"
  shows "judge_links s' grs ges n cap ok = judge_links s grs ges n cap ok"
  by (simp add: judge_links_def reordered_judge_hop [OF assms] reordered_same [OF assms(1)])

lemma reordered_standing:
  assumes "reordered s' s" and "rs_roots s = None" and "distinct (map triple (entries_of s))"
  shows "standing_admins s' = standing_admins s"
  by (simp add: standing_admins_def reordered_judge_links [OF assms] reordered_same [OF assms(1)])

section \<open>Votes of distinct issuers\<close>

text \<open>Rows of one hop have distinct issuers, so counting rows counts issuers.\<close>

definition voters :: "fzn_revocation_store \<Rightarrow> hop_question \<Rightarrow> (fzn_revocation \<Rightarrow> bool) \<Rightarrow> key set" where
  "voters s h P = rv_issuer ` {e \<in> set (entries_of s). counts s h e \<and> P e}"

lemma counts_same_hop:
  "counts s h e \<Longrightarrow> rv_capability e = hq_capability h \<and> rv_grantee e = hq_grantees h ! hq_i h"
  by (auto simp: counts_def split: if_splits)

lemma count_voters:
  assumes "distinct (map triple (entries_of s))"
  shows "count_entries (\<lambda>e. counts s h e \<and> P e) s = card (voters s h P)"
proof -
  let ?fs = "filter (\<lambda>e. counts s h e \<and> P e) (entries_of s)"
  have "distinct (map triple ?fs)" using assms by (rule distinct_map_filter)
  moreover have "\<forall>e \<in> set ?fs. rv_capability e = hq_capability h \<and> rv_grantee e = hq_grantees h ! hq_i h"
    using counts_same_hop by auto
  ultimately have "distinct (map rv_issuer ?fs)"
    by (force simp: distinct_map triple_def inj_on_def)
  then have "card (rv_issuer ` set ?fs) = length ?fs"
    using distinct_card [of "map rv_issuer ?fs"] by simp
  then show ?thesis by (simp add: count_entries_def voters_def conj_commute)
qed

lemma judge_hop_cases:
  obtains (root) "judge_hop s h0 rk q = (HOP_ROOT, None)" "fst (root_pass s h0 rk)"
  | (live) "judge_hop s h0 rk q = (HOP_LIVE, None)" "\<not> fst (root_pass s h0 rk)"
      "q \<le> count_entries (\<lambda>e. counts s (snd (root_pass s h0 rk)) e \<and> \<not> rv_withdrawn e) s"
  | (latched) c where "judge_hop s h0 rk q = (HOP_LATCHED, Some c)" "\<not> fst (root_pass s h0 rk)"
      "count_entries (\<lambda>e. counts s (snd (root_pass s h0 rk)) e \<and> \<not> rv_withdrawn e) s < q"
      "c = open_epoch s (snd (root_pass s h0 rk)) q"
      "q \<le> count_entries (\<lambda>e. counts s (snd (root_pass s h0 rk)) e \<and> rv_epoch e = c) s"
      "count_entries (\<lambda>e. counts s (snd (root_pass s h0 rk)) e \<and> rv_epoch e = c \<and> rv_withdrawn e) s < q"
  | (free) "judge_hop s h0 rk q = (HOP_FREE, None)" "\<not> fst (root_pass s h0 rk)"
      "count_entries (\<lambda>e. counts s (snd (root_pass s h0 rk)) e \<and> \<not> rv_withdrawn e) s < q"
proof (cases "fst (judge_hop s h0 rk q)")
  case HOP_ROOT
  then show thesis by (intro root) (auto simp: judge_hop_def Let_def split_beta split: if_splits)
next
  case HOP_LIVE
  then show thesis by (intro live) (auto simp: judge_hop_def Let_def split_beta split: if_splits)
next
  case HOP_LATCHED
  then show thesis by (intro latched) (auto simp: judge_hop_def Let_def split_beta split: if_splits)
next
  case HOP_FREE
  then show thesis by (intro free) (auto simp: judge_hop_def Let_def split_beta split: if_splits)
qed

section \<open>Properties\<close>

definition demo_entry :: "u8 \<Rightarrow> bool \<Rightarrow> u64 \<Rightarrow> fzn_revocation" where
  "demo_entry issuer withdrawn epoch = \<lparr>rv_capability = [9], rv_grantee = [8], rv_issuer = [issuer],
     rv_id = [issuer, 1], rv_withdrawn = withdrawn, rv_epoch = epoch, rv_held = [issuer, 1], rv_cut = [0]\<rparr>"

definition demo_store :: "fzn_root_ops option \<Rightarrow> nat \<Rightarrow> fzn_revocation list \<Rightarrow> fzn_revocation_store" where
  "demo_store roots quorum es = \<lparr>rs_entries = Some es, rs_capacity = length es, rs_used = length es,
     rs_generation = 1, rs_quorum = quorum, rs_has_admin = False, rs_admin_capability = [], rs_admins = None,
     rs_admin_capacity = 0, rs_admins_used = 0, rs_roots = roots, rs_root_hash = None, rs_confirms = None,
     rs_confirm_capacity = 0, rs_confirms_used = 0, rs_confirm_hash = None, rs_acts = None\<rparr>"

definition demo_question :: hop_question where
  "demo_question = \<lparr>hq_grantors = [[1], [2], [3]], hq_grantees = [[2], [3], [8]], hq_i = 2, hq_capability = [9],
     hq_admin_ok = None, hq_any_issuer = False, hq_floor = None\<rparr>"

text \<open>
  The epoch \<open>open_epoch\<close> returns is the lowest one that is not closed, of all epochs from the
  first past the root's undo: asking only the epochs that entries name and the ones after them
  misses none. When every epoch is closed it is the last one.
\<close>

theorem open_epoch_least:
  assumes "hq_floor h \<noteq> Some UINT64_MAX"
  shows "(\<forall>c. first_epoch h \<le> c \<and> \<not> epoch_closed store h c q \<longrightarrow>
        first_epoch h \<le> open_epoch store h q \<and> \<not> epoch_closed store h (open_epoch store h q) q \<and>
        open_epoch store h q \<le> c) \<and>
      ((\<forall>c \<ge> first_epoch h. epoch_closed store h c q) \<longrightarrow> open_epoch store h q = UINT64_MAX)"
  using open_epoch_cases [OF assms, of store q] by (auto simp: open_at_def split: if_splits)

theorem open_epoch_least_witness:
  "open_epoch (demo_store None 2 [demo_entry 1 True 0, demo_entry 2 True 0, demo_entry 3 False 1]) demo_question 2 \<le> 1 \<and>
   \<not> epoch_closed (demo_store None 2 [demo_entry 1 True 0, demo_entry 2 True 0, demo_entry 3 False 1]) demo_question 1 2"
proof -
  have "\<not> epoch_closed (demo_store None 2 [demo_entry 1 True 0, demo_entry 2 True 0, demo_entry 3 False 1]) demo_question 1 2"
    "first_epoch demo_question \<le> 1" "hq_floor demo_question \<noteq> Some UINT64_MAX" by code_simp+
  with open_epoch_least [of demo_question] show ?thesis by blast
qed

text \<open>
  With one root the verdict is a property of which revocations a store holds: two stores that
  hold the same entries, each about a different issuer, capability and grantee, in different orders
  revoke the same hops of every chain, whatever the quorum, the admins and their confirmations.
\<close>

theorem verdict_ignores_order:
  assumes "rs_roots s = None" and "\<not> corrupt s" and "rs_entries s \<noteq> None"
    and "distinct (map triple (entries_of s))"
    and "mset (entries_of (s\<lparr>rs_entries := Some es'\<rparr>)) = mset (entries_of s)"
  shows "fzn_revocation_covers_links (Some (s\<lparr>rs_entries := Some es'\<rparr>)) grantors grantees capability =
    fzn_revocation_covers_links (Some s) grantors grantees capability"
proof -
  let ?s' = "s\<lparr>rs_entries := Some es'\<rparr>"
  have re: "reordered ?s' s" using assms(5) by (auto simp: reordered_def)
  have sound: "\<not> corrupt ?s'" using assms(2) by (auto simp: fzn_revocation_store_sound_def split: if_splits)
  show ?thesis
    using assms(2,3) sound
    by (auto simp: fzn_revocation_covers_links_def reordered_judge_links [OF re assms(1,4)]
        reordered_standing [OF re assms(1,4)] split: option.splits)
qed

theorem verdict_ignores_order_witness:
  "fzn_revocation_covers_links (Some (demo_store None 2 [demo_entry 2 False 0, demo_entry 1 True 0, demo_entry 3 False 1]))
     (Some [[1], [2], [3]]) (Some [[2], [3], [8]]) (Some [9]) =
   fzn_revocation_covers_links (Some (demo_store None 2 [demo_entry 1 True 0, demo_entry 2 False 0, demo_entry 3 False 1]))
     (Some [[1], [2], [3]]) (Some [[2], [3], [8]]) (Some [9])"
  using verdict_ignores_order [of "demo_store None 2 [demo_entry 1 True 0, demo_entry 2 False 0, demo_entry 3 False 1]"
      "[demo_entry 2 False 0, demo_entry 1 True 0, demo_entry 3 False 1]"]
  by (simp add: demo_store_def fzn_revocation_store_sound_def entries_of_def triple_def demo_entry_def)

text \<open>
  With a set of roots the verdict depends on the order. Root 1 revoked the last hop in epoch 5
  and withdrew, root 2 revoked it in epoch 3 and stands by it. A store that learned of root 2 first
  revokes the hop; a store that learned of root 1 first does not, because the floor root 1's
  withdrawal leaves hides root 2's live revocation.
\<close>

theorem root_verdict_order_dependent:
  "fzn_revocation_covers_links
     (Some (demo_store (Some \<lparr>ro_member = (\<lambda>k. k = [1] \<or> k = [2]), ro_counts = (\<lambda>k held. True)\<rparr>) 1
        [demo_entry 2 False 3, demo_entry 1 True 5]))
     (Some [[1], [3]]) (Some [[3], [8]]) (Some [9]) = [False, True, False, False, False, False, False, False] \<and>
   fzn_revocation_covers_links
     (Some (demo_store (Some \<lparr>ro_member = (\<lambda>k. k = [1] \<or> k = [2]), ro_counts = (\<lambda>k held. True)\<rparr>) 1
        [demo_entry 1 True 5, demo_entry 2 False 3]))
     (Some [[1], [3]]) (Some [[3], [8]]) (Some [9]) = replicate 8 False"
  by code_simp

text \<open>
  C20. What it takes to revoke. Unless a root decides alone, a hop is revoked by live votes exactly
  when a quorum of different issuers who count have live revocations of it, and held by the latch
  only when a quorum of them voted in the open epoch and fewer than a quorum withdrew. With a quorum
  of one the latch never holds and a hop is free exactly when nobody who counts has a live
  revocation of it.
\<close>

theorem quorum_rule:
  assumes "distinct (map triple (entries_of s))" and "root_pass s h0 rk = (False, h)"
  shows "(fst (judge_hop s h0 rk q) = HOP_LIVE \<longleftrightarrow> q \<le> card (voters s h (\<lambda>e. \<not> rv_withdrawn e))) \<and>
    (fst (judge_hop s h0 rk q) = HOP_LATCHED \<longrightarrow>
       q \<le> card (voters s h (\<lambda>e. rv_epoch e = open_epoch s h q)) \<and>
       card (voters s h (\<lambda>e. rv_epoch e = open_epoch s h q \<and> rv_withdrawn e)) < q) \<and>
    (q = 1 \<longrightarrow> fst (judge_hop s h0 rk q) \<noteq> HOP_LATCHED \<and>
       (fst (judge_hop s h0 rk q) = HOP_FREE \<longleftrightarrow> voters s h (\<lambda>e. \<not> rv_withdrawn e) = {}))"
proof -
  note cv = count_voters [OF assms(1), symmetric]
  have empty: "voters s h (\<lambda>e. \<not> rv_withdrawn e) = {} \<longleftrightarrow> count_entries (\<lambda>e. counts s h e \<and> \<not> rv_withdrawn e) s = 0"
    by (auto simp: voters_def count_entries_def filter_empty_conv)
  show ?thesis
    unfolding cv empty
    by (cases rule: judge_hop_cases [of s h0 rk q])
      (use assms(2) in \<open>auto simp: count_entries_def filter_empty_conv Suc_le_eq\<close>)
qed

theorem quorum_rule_witness:
  "fst (judge_hop (demo_store None 2 [demo_entry 1 True 0, demo_entry 2 False 0, demo_entry 3 False 1]) demo_question None 2) =
     HOP_LIVE \<and>
   2 \<le> card (voters (demo_store None 2 [demo_entry 1 True 0, demo_entry 2 False 0, demo_entry 3 False 1]) demo_question
     (\<lambda>e. \<not> rv_withdrawn e))"
proof -
  let ?s = "demo_store None 2 [demo_entry 1 True 0, demo_entry 2 False 0, demo_entry 3 False 1]"
  have "distinct (map triple (entries_of ?s))" "root_pass ?s demo_question None = (False, demo_question)"
    "fst (judge_hop ?s demo_question None 2) = HOP_LIVE" by code_simp+
  with quorum_rule [of ?s demo_question None demo_question 2] show ?thesis by blast
qed

text \<open>
  A store whose counters do not fit its tables revokes every hop of every chain, covers and
  knows every triple, and lets no admin stand and no act stand.
\<close>

theorem corrupt_store_fails_closed:
  assumes "corrupt s"
  shows "fzn_revocation_covers_links (Some s) grantors grantees capability = replicate FZN_CHAIN_MAX_HOPS True \<and>
    fzn_revocation_covers_chain (Some s) hops capability = replicate FZN_CHAIN_MAX_HOPS True \<and>
    fzn_revocation_covers (Some s) issuer capability grantee \<and> fzn_revocation_known (Some s) issuer capability grantee \<and>
    fzn_revocation_lookup (Some s) issuer capability grantee = None \<and>
    \<not> fzn_revocation_admin_stands (Some s) issuer \<and> \<not> fzn_revocation_confirmed (Some s) issuer act root \<and>
    \<not> fzn_revocation_act_stands (Some s) grantors grantees capability i act"
  using assms
  by (auto simp: fzn_revocation_covers_links_def fzn_revocation_covers_chain_def fzn_revocation_covers_def
      fzn_revocation_known_def fzn_revocation_lookup_def fzn_revocation_admin_stands_def
      fzn_revocation_confirmed_def fzn_revocation_act_stands_def split: option.splits)

theorem corrupt_store_fails_closed_witness:
  "fzn_revocation_covers_chain (Some ((demo_store None 1 [])\<lparr>rs_used := 4\<rparr>)) [] None = replicate FZN_CHAIN_MAX_HOPS True"
proof -
  have "corrupt ((demo_store None 1 [])\<lparr>rs_used := 4\<rparr>)" by code_simp
  from corrupt_store_fails_closed [OF this] show ?thesis by blast
qed

end
