(* ===== verification/Chain_Verify.thy ===== *)
theory Chain_Verify
  imports Manifest_State Revocation_Rule
begin

text \<open>
  Verifying and extending chains (\<open>chain/chain.c\<close>): what \<open>fzn_chain_verify\<close> accepts, as a
  statement about the hops, how the verdict moves with the clock, and that a hop minted or delegated
  here is one a verifier accepts.

  The result of \<open>fzn_chain_verify\<close> is an error or the verdict it fills in. A store with a set of
  roots has the hash it was given with them (\<open>fzn_revocation_store_set_roots\<close> refuses one without).
\<close>

section \<open>The model\<close>

definition first_hop_rooted :: "fzn_revocation_store option \<Rightarrow> key \<Rightarrow> bytes \<Rightarrow> bool" where
  "first_hop_rooted revocations root hop =
     (case revocations of
        Some s \<Rightarrow>
          (case rs_roots s of
             Some r \<Rightarrow>
               ro_member r (fzn_hop_grantor hop) \<and>
               (case rs_root_hash s of None \<Rightarrow> False
                | Some hash \<Rightarrow>
                  (case hash (take FZN_HOP_LEN hop) of None \<Rightarrow> False
                   | Some act \<Rightarrow> ro_counts r (fzn_hop_grantor hop) act))
           | None \<Rightarrow> fzn_hop_grantor hop = root)
      | None \<Rightarrow> fzn_hop_grantor hop = root)"

primrec pass_one :: "bytes list \<Rightarrow> cap_id \<Rightarrow> u64 \<Rightarrow> bool list \<Rightarrow> nat list \<Rightarrow> u64 \<Rightarrow> fzn_chain_err + u64" where
  "pass_one hops capability now revoked [] soonest = Inr soonest"
| "pass_one hops capability now revoked (i # is) soonest =
     (let hop = hops ! i; expires_at = fzn_hop_expires_at hop in
      if fzn_hop_capability hop \<noteq> capability then Inl FZN_CHAIN_ERR_CHAIN_INVALID
      else if i > 0 \<and> fzn_hop_grantor hop \<noteq> fzn_hop_grantee (hops ! (i - 1)) then Inl FZN_CHAIN_ERR_CHAIN_INVALID
      else if i > 0 \<and> \<not> fzn_hop_delegable (hops ! (i - 1)) then Inl FZN_CHAIN_ERR_CHAIN_INVALID
      else if expires_at \<noteq> FZN_NO_EXPIRY \<and> expires_at \<le> fzn_hop_issued_at hop then Inl FZN_CHAIN_ERR_CHAIN_INVALID
      else if expires_at \<noteq> FZN_NO_EXPIRY \<and> expires_at \<le> now then Inl FZN_CHAIN_ERR_EXPIRED
      else if revoked ! i then Inl FZN_CHAIN_ERR_REVOKED
      else pass_one hops capability now revoked is
        (if expires_at \<noteq> FZN_NO_EXPIRY \<and> (soonest = FZN_NO_EXPIRY \<or> expires_at < soonest) then expires_at else soonest))"

definition fzn_chain_verify :: "fzn_chain_hop list option \<Rightarrow> key option \<Rightarrow> cap_id option \<Rightarrow> u64 \<Rightarrow> fzn_sign_ops \<Rightarrow>
    fzn_revocation_store option \<Rightarrow> fzn_manifest_state option \<Rightarrow> fzn_chain_err + fzn_chain" where
  "fzn_chain_verify hops root capability now sign revocations manifest =
     (case (hops, root, capability, so_verify sign) of
        (Some hs, Some rt, Some cap, Some verify) \<Rightarrow>
          if hs = [] \<or> length hs > FZN_CHAIN_MAX_HOPS then Inl FZN_CHAIN_ERR_MALFORMED
          else if list_ex (\<lambda>h. h = None) hs then Inl FZN_CHAIN_ERR_MALFORMED
          else let hops = map the hs in
            if \<not> first_hop_rooted revocations rt (hops ! 0) then Inl FZN_CHAIN_ERR_WRONG_ROOT
            else let revoked = fzn_revocation_covers_chain revocations hops capability in
              (case pass_one hops cap now revoked [0..<length hops] FZN_NO_EXPIRY of
                 Inl err \<Rightarrow> Inl err
               | Inr soonest \<Rightarrow>
                 if manifest \<noteq> None \<and> list_ex (\<lambda>h. fzn_manifest_pending manifest (Some (fzn_hop_grantor h)) > 0) hops
                 then Inl FZN_CHAIN_ERR_INCOMPLETE
                 else if list_ex (\<lambda>h. \<not> verify (fzn_hop_grantor h) (fzn_hop_signed_bytes h) (fzn_hop_signature h)) hops
                 then Inl FZN_CHAIN_ERR_CHAIN_INVALID
                 else Inr \<lparr>ch_root = rt, ch_grantee = fzn_hop_grantee (last hops), ch_capability = cap,
                        ch_hop_count = length hops, ch_expires_at = soonest\<rparr>)
      | _ \<Rightarrow> Inl FZN_CHAIN_ERR_MALFORMED)"

definition fzn_chain_mint :: "key option \<Rightarrow> key option \<Rightarrow> cap_id option \<Rightarrow> u64 \<Rightarrow> u64 \<Rightarrow> bool \<Rightarrow> fzn_sign_ops \<Rightarrow>
    fzn_chain_err \<times> bytes option" where
  "fzn_chain_mint root grantee capability issued_at expires_at delegable sign =
     hop_sign root grantee capability issued_at expires_at delegable sign"

definition fzn_chain_delegate :: "fzn_chain_hop list option \<Rightarrow> key option \<Rightarrow> cap_id option \<Rightarrow> u64 \<Rightarrow> key option \<Rightarrow>
    u64 \<Rightarrow> bool \<Rightarrow> fzn_sign_ops \<Rightarrow> fzn_revocation_store option \<Rightarrow> fzn_chain_err \<times> bytes option" where
  "fzn_chain_delegate hops root capability now grantee expires_at delegable sign revocations =
     (case (hops, grantee, so_verify sign) of
        (Some hs, Some _, Some _) \<Rightarrow>
          if length hs \<ge> FZN_CHAIN_MAX_HOPS then (FZN_CHAIN_ERR_MALFORMED, None)
          else (case fzn_chain_verify hops root capability now sign revocations None of
              Inl err \<Rightarrow> (err, None)
            | Inr existing \<Rightarrow>
              if \<not> fzn_hop_delegable (the (last hs)) then (FZN_CHAIN_ERR_NOT_DELEGABLE, None)
              else let expires_at =
                  (if ch_expires_at existing \<noteq> FZN_NO_EXPIRY \<and>
                      (expires_at = FZN_NO_EXPIRY \<or> expires_at > ch_expires_at existing)
                   then ch_expires_at existing else expires_at)
                in hop_sign (Some (ch_grantee existing)) grantee capability now expires_at delegable sign)
      | _ \<Rightarrow> (FZN_CHAIN_ERR_MALFORMED, None))"

definition fzn_chain_expired_at :: "fzn_chain option \<Rightarrow> u64 \<Rightarrow> bool" where
  "fzn_chain_expired_at chain now =
     (case chain of None \<Rightarrow> False
      | Some c \<Rightarrow> ch_expires_at c \<noteq> FZN_NO_EXPIRY \<and> ch_expires_at c \<le> now)"

section \<open>What a verified chain is\<close>

definition alive :: "u64 \<Rightarrow> bytes \<Rightarrow> bool" where
  "alive now hop \<longleftrightarrow> fzn_hop_expires_at hop = FZN_NO_EXPIRY \<or> now < fzn_hop_expires_at hop"

definition well_granted :: "cap_id \<Rightarrow> bytes \<Rightarrow> bool" where
  "well_granted cap hop \<longleftrightarrow> fzn_hop_capability hop = cap \<and>
     (fzn_hop_expires_at hop = FZN_NO_EXPIRY \<or> fzn_hop_issued_at hop < fzn_hop_expires_at hop)"

definition linked :: "bytes list \<Rightarrow> bool" where
  "linked hops \<longleftrightarrow> (\<forall>i. Suc i < length hops \<longrightarrow>
     fzn_hop_grantor (hops ! Suc i) = fzn_hop_grantee (hops ! i) \<and> fzn_hop_delegable (hops ! i))"

definition sooner :: "u64 \<Rightarrow> u64 \<Rightarrow> u64" where
  "sooner a b = (if b \<noteq> FZN_NO_EXPIRY \<and> (a = FZN_NO_EXPIRY \<or> b < a) then b else a)"

definition soonest_expiry :: "bytes list \<Rightarrow> u64" where
  "soonest_expiry hops = fold (\<lambda>h a. sooner a (fzn_hop_expires_at h)) hops FZN_NO_EXPIRY"

text \<open>The first hop that fails decides the error.\<close>

definition hop_err :: "bytes list \<Rightarrow> cap_id \<Rightarrow> u64 \<Rightarrow> bool list \<Rightarrow> nat \<Rightarrow> fzn_chain_err option" where
  "hop_err hops cap now revoked i =
     (if \<not> well_granted cap (hops ! i) \<or>
         (i > 0 \<and> \<not> (fzn_hop_grantor (hops ! i) = fzn_hop_grantee (hops ! (i - 1)) \<and> fzn_hop_delegable (hops ! (i - 1))))
      then Some FZN_CHAIN_ERR_CHAIN_INVALID
      else if \<not> alive now (hops ! i) then Some FZN_CHAIN_ERR_EXPIRED
      else if revoked ! i then Some FZN_CHAIN_ERR_REVOKED else None)"

lemma pass_one_step:
  "pass_one hops cap now revoked (i # is) soonest =
     (case hop_err hops cap now revoked i of Some err \<Rightarrow> Inl err
      | None \<Rightarrow> pass_one hops cap now revoked is (sooner soonest (fzn_hop_expires_at (hops ! i))))"
  unfolding hop_err_def well_granted_def alive_def linorder_not_le [symmetric, where 'a = u64]
  by (cases "fzn_hop_capability (hops ! i) = cap"; cases "fzn_hop_expires_at (hops ! i) = FZN_NO_EXPIRY";
      cases "fzn_hop_expires_at (hops ! i) \<le> fzn_hop_issued_at (hops ! i)";
      cases "fzn_hop_expires_at (hops ! i) \<le> now"; cases i; simp add: Let_def sooner_def)

lemma hop_err_none:
  "hop_err hops cap now revoked i = None \<longleftrightarrow> well_granted cap (hops ! i) \<and> alive now (hops ! i) \<and> \<not> revoked ! i \<and>
     (i > 0 \<longrightarrow> fzn_hop_grantor (hops ! i) = fzn_hop_grantee (hops ! (i - 1)) \<and> fzn_hop_delegable (hops ! (i - 1)))"
  by (auto simp: hop_err_def)

declare pass_one.simps(2) [simp del]

lemma pass_one_ok:
  "pass_one hops cap now revoked is a = Inr b \<longleftrightarrow>
     (\<forall>i \<in> set is. hop_err hops cap now revoked i = None) \<and>
     b = fold (\<lambda>i a. sooner a (fzn_hop_expires_at (hops ! i))) is a"
  by (induction "is" arbitrary: a) (auto simp: pass_one_step split: option.splits)

lemma pass_one_err:
  assumes "pass_one hops cap now revoked is a = Inl err"
  shows "\<exists>us i vs. is = us @ i # vs \<and> hop_err hops cap now revoked i = Some err \<and>
    (\<forall>j \<in> set us. hop_err hops cap now revoked j = None)"
  using assms
proof (induction "is" arbitrary: a)
  case (Cons i "is")
  show ?case
  proof (cases "hop_err hops cap now revoked i")
    case None
    with Cons.prems have "pass_one hops cap now revoked is (sooner a (fzn_hop_expires_at (hops ! i))) = Inl err"
      by (simp add: pass_one_step)
    then obtain us j vs where "is = us @ j # vs" "hop_err hops cap now revoked j = Some err"
      "\<forall>j \<in> set us. hop_err hops cap now revoked j = None" using Cons.IH by blast
    then show ?thesis using None by (intro exI [of _ "i # us"] exI [of _ j] exI [of _ vs]) simp
  next
    case (Some e)
    then show ?thesis using Cons.prems by (intro exI [of _ "[]"] exI [of _ i] exI [of _ "is"]) (simp add: pass_one_step)
  qed
qed simp

lemma soonest_fold: "fold (\<lambda>i a. sooner a (fzn_hop_expires_at (hops ! i))) [0..<length hops] FZN_NO_EXPIRY = soonest_expiry hops"
proof -
  have "fold (\<lambda>h a. sooner a (fzn_hop_expires_at h)) (map ((!) hops) [0..<length hops]) =
      fold (\<lambda>i a. sooner a (fzn_hop_expires_at (hops ! i))) [0..<length hops]"
    by (simp add: fold_map comp_def)
  then show ?thesis by (simp add: soonest_expiry_def map_nth)
qed

lemma hop_errs_none:
  "(\<forall>i \<in> set [0..<length hops]. hop_err hops cap now revoked i = None) \<longleftrightarrow>
     linked hops \<and> (\<forall>h \<in> set hops. well_granted cap h \<and> alive now h) \<and> (\<forall>i < length hops. \<not> revoked ! i)"
  (is "?l \<longleftrightarrow> ?r")
proof
  assume l: ?l
  have each: "hop_err hops cap now revoked i = None" if "i < length hops" for i using l that by simp
  have "linked hops"
    unfolding linked_def
  proof (intro allI impI)
    fix i assume "Suc i < length hops"
    then show "fzn_hop_grantor (hops ! Suc i) = fzn_hop_grantee (hops ! i) \<and> fzn_hop_delegable (hops ! i)"
      using each [of "Suc i"] by (simp add: hop_err_none)
  qed
  moreover have "\<forall>h \<in> set hops. well_granted cap h \<and> alive now h"
    using each by (auto simp: in_set_conv_nth hop_err_none)
  moreover have "\<forall>i < length hops. \<not> revoked ! i" using each by (auto simp: hop_err_none)
  ultimately show ?r by blast
next
  assume r: ?r
  have "hop_err hops cap now revoked i = None" if "i < length hops" for i
    using r that by (cases i) (auto simp: hop_err_none linked_def)
  then show ?l by simp
qed

section \<open>Hops after a hop do not decide it\<close>

definition same_hop :: "hop_question \<Rightarrow> hop_question \<Rightarrow> bool" where
  "same_hop h h' \<longleftrightarrow> hq_i h = hq_i h' \<and> hq_capability h = hq_capability h' \<and> hq_admin_ok h = hq_admin_ok h' \<and>
     hq_any_issuer h = hq_any_issuer h' \<and> hq_floor h = hq_floor h' \<and>
     hq_grantees h ! hq_i h = hq_grantees h' ! hq_i h' \<and> (\<forall>j \<le> hq_i h. hq_grantors h ! j = hq_grantors h' ! j)"

lemma same_hop_floor: "same_hop h h' \<Longrightarrow> same_hop (h\<lparr>hq_floor := f\<rparr>) (h'\<lparr>hq_floor := f\<rparr>)"
  by (auto simp: same_hop_def)

lemma same_hop_counts:
  assumes "same_hop h h'"
  shows "counts s h = counts s h'"
proof (intro ext)
  fix e :: fzn_revocation
  have grs: "list_ex (\<lambda>j. hq_grantors h ! j = rv_issuer e) [0..<Suc (hq_i h)] =
      list_ex (\<lambda>j. hq_grantors h' ! j = rv_issuer e) [0..<Suc (hq_i h')]"
    unfolding list_ex_iff using assms by (auto simp: same_hop_def)
  have eqs: "hq_capability h = hq_capability h'" "hq_grantees h ! hq_i h = hq_grantees h' ! hq_i h'"
      "hq_floor h = hq_floor h'" "hq_admin_ok h = hq_admin_ok h'" "hq_any_issuer h = hq_any_issuer h'"
    using assms by (auto simp: same_hop_def)
  show "counts s h e = counts s h' e" unfolding counts_def grs eqs by (rule refl)
qed

lemma same_hop_root_loop:
  "same_hop h h' \<Longrightarrow> fst (root_loop s rk h es) = fst (root_loop s rk h' es) \<and>
     same_hop (snd (root_loop s rk h es)) (snd (root_loop s rk h' es))"
proof (induction es arbitrary: h h')
  case (Cons e es)
  have c: "counts s h e = counts s h' e" using same_hop_counts [OF Cons.prems] by simp
  have f: "hq_floor h = hq_floor h'" using Cons.prems by (simp add: same_hop_def)
  show ?case using Cons.IH [OF Cons.prems] Cons.IH [OF same_hop_floor [OF Cons.prems]] Cons.prems c f by simp
qed simp

lemma same_hop_root_pass:
  assumes "same_hop h h'"
  shows "fst (root_pass s h rk) = fst (root_pass s h' rk) \<and> same_hop (snd (root_pass s h rk)) (snd (root_pass s h' rk))"
  using same_hop_root_loop [OF same_hop_floor [OF assms]] same_hop_floor [OF assms]
  by (auto simp: root_pass_def)

lemma same_hop_open_epoch:
  assumes "same_hop h h'"
  shows "open_epoch s h q = open_epoch s h' q"
proof -
  have closed: "epoch_closed s h = epoch_closed s h'"
    by (intro ext) (simp add: epoch_closed_def same_hop_counts [OF assms])
  have "try_epoch s h = try_epoch s h'" by (intro ext) (simp add: try_epoch_def closed split_beta)
  then have "open_step s h = open_step s h'"
    by (intro ext) (simp add: open_step_def Let_def same_hop_counts [OF assms])
  with closed assms show ?thesis by (simp add: open_epoch_def same_hop_def)
qed

lemma same_hop_judge:
  assumes "same_hop h h'"
  shows "judge_hop s h rk q = judge_hop s h' rk q"
proof -
  have "same_hop (snd (root_pass s h rk)) (snd (root_pass s h' rk))" using same_hop_root_pass [OF assms] by blast
  note eqs = same_hop_open_epoch [OF this] same_hop_counts [OF this]
  show ?thesis using same_hop_root_pass [OF assms, of s rk] by (simp add: judge_hop_def split_beta Let_def eqs)
qed

lemma covers_chain_prefix:
  assumes "length (hops @ rest) \<le> FZN_CHAIN_MAX_HOPS" and "i < length hops"
  shows "fzn_revocation_covers_chain revs (hops @ rest) cap ! i = fzn_revocation_covers_chain revs hops cap ! i"
proof (cases "(case revs of None \<Rightarrow> True | Some s \<Rightarrow> corrupt s \<or> rs_entries s = None) \<or> cap = None")
  case True
  then show ?thesis using assms by (auto simp: fzn_revocation_covers_chain_def)
next
  case False
  then obtain s c where s: "revs = Some s" "\<not> corrupt s" "rs_entries s \<noteq> None" "cap = Some c"
    by (auto split: option.splits)
  let ?q = "\<lambda>hs. \<lparr>hq_grantors = map fzn_hop_grantor hs, hq_grantees = map fzn_hop_grantee hs, hq_i = i,
      hq_capability = c, hq_admin_ok = Some (standing_admins s), hq_any_issuer = False, hq_floor = None\<rparr>"
  have at: "fzn_revocation_covers_chain revs hs cap ! i \<longleftrightarrow>
      fst (judge_hop s (?q hs) (Some (map fzn_hop_grantor hs ! 0)) (quorum_of s)) \<noteq> HOP_FREE"
    if "length hs \<le> FZN_CHAIN_MAX_HOPS" "i < length hs" for hs
    using that s
    by (auto simp: fzn_revocation_covers_chain_def fzn_revocation_covers_links_def judge_links_def nth_append)
  have "same_hop (?q (hops @ rest)) (?q hops)"
    using assms(2) by (auto simp: same_hop_def nth_append)
  moreover have "map fzn_hop_grantor (hops @ rest) ! 0 = map fzn_hop_grantor hops ! 0"
    using assms(2) by (cases hops) auto
  ultimately show ?thesis
    using at [of "hops @ rest"] at [of hops] same_hop_judge assms by simp
qed

section \<open>The verdict\<close>

definition chain_good :: "key \<Rightarrow> cap_id \<Rightarrow> u64 \<Rightarrow> (key \<Rightarrow> bytes \<Rightarrow> bytes \<Rightarrow> bool) \<Rightarrow> fzn_revocation_store option \<Rightarrow>
    fzn_manifest_state option \<Rightarrow> bytes list \<Rightarrow> bool" where
  "chain_good rt cap now verify revs man hops \<longleftrightarrow>
     hops \<noteq> [] \<and> length hops \<le> FZN_CHAIN_MAX_HOPS \<and> first_hop_rooted revs rt (hd hops) \<and> linked hops \<and>
     (\<forall>h \<in> set hops. well_granted cap h \<and> alive now h \<and>
        verify (fzn_hop_grantor h) (fzn_hop_signed_bytes h) (fzn_hop_signature h)) \<and>
     (\<forall>i < length hops. \<not> fzn_revocation_covers_chain revs hops (Some cap) ! i) \<and>
     (man = None \<or> (\<forall>h \<in> set hops. fzn_manifest_pending man (Some (fzn_hop_grantor h)) = 0))"

definition verdict_of :: "key \<Rightarrow> cap_id \<Rightarrow> bytes list \<Rightarrow> fzn_chain" where
  "verdict_of rt cap hops = \<lparr>ch_root = rt, ch_grantee = fzn_hop_grantee (last hops), ch_capability = cap,
     ch_hop_count = length hops, ch_expires_at = soonest_expiry hops\<rparr>"

lemma map_the_Some: "None \<notin> set hs \<Longrightarrow> map Some (map the hs) = hs"
  by (induction hs) auto

lemma verify_ok_iff:
  "fzn_chain_verify (Some hs) (Some rt) (Some cap) now sign revs man = Inr ch \<longleftrightarrow>
     (\<exists>hops verify. hs = map Some hops \<and> so_verify sign = Some verify \<and>
        chain_good rt cap now verify revs man hops \<and> ch = verdict_of rt cap hops)"
  (is "?v \<longleftrightarrow> ?g")
proof
  assume v: ?v
  then obtain verify where ver: "so_verify sign = Some verify"
    by (auto simp: fzn_chain_verify_def split: option.splits)
  let ?hops = "map the hs"
  have shape: "hs \<noteq> []" "length hs \<le> FZN_CHAIN_MAX_HOPS" "None \<notin> set hs" "first_hop_rooted revs rt (?hops ! 0)"
    using v ver by (auto simp: fzn_chain_verify_def Let_def list_ex_iff split: if_splits)
  then obtain soonest where one: "pass_one ?hops cap now (fzn_revocation_covers_chain revs ?hops (Some cap)) [0..<length ?hops] FZN_NO_EXPIRY = Inr soonest"
    using v ver by (auto simp: fzn_chain_verify_def Let_def split: if_splits sum.splits)
  have rest: "\<not> (man \<noteq> None \<and> list_ex (\<lambda>h. fzn_manifest_pending man (Some (fzn_hop_grantor h)) > 0) ?hops)"
      "\<not> list_ex (\<lambda>h. \<not> verify (fzn_hop_grantor h) (fzn_hop_signed_bytes h) (fzn_hop_signature h)) ?hops"
      "ch = \<lparr>ch_root = rt, ch_grantee = fzn_hop_grantee (last ?hops), ch_capability = cap,
        ch_hop_count = length ?hops, ch_expires_at = soonest\<rparr>"
    using v ver shape(1-3) one by (auto simp: fzn_chain_verify_def Let_def list_ex_iff split: if_splits)
  from one have "soonest = soonest_expiry ?hops" and
    "linked ?hops \<and> (\<forall>h \<in> set ?hops. well_granted cap h \<and> alive now h) \<and>
      (\<forall>i < length ?hops. \<not> fzn_revocation_covers_chain revs ?hops (Some cap) ! i)"
    unfolding pass_one_ok hop_errs_none soonest_fold by blast+
  then show ?g
    using shape rest ver map_the_Some [OF shape(3)]
    by (intro exI [of _ ?hops] exI [of _ verify])
      (auto simp: chain_good_def verdict_of_def list_ex_iff hd_conv_nth)
next
  assume ?g
  then obtain hops verify where g: "hs = map Some hops" "so_verify sign = Some verify"
    "chain_good rt cap now verify revs man hops" "ch = verdict_of rt cap hops" by blast
  have ids: "map the hs = hops" "None \<notin> set hs" using g(1) by (auto simp: comp_def)
  have "pass_one hops cap now (fzn_revocation_covers_chain revs hops (Some cap)) [0..<length hops] FZN_NO_EXPIRY =
      Inr (soonest_expiry hops)"
    unfolding pass_one_ok hop_errs_none soonest_fold using g(3) by (simp add: chain_good_def)
  moreover have "\<not> (man \<noteq> None \<and> list_ex (\<lambda>h. fzn_manifest_pending man (Some (fzn_hop_grantor h)) > 0) hops)"
    "\<not> list_ex (\<lambda>h. \<not> verify (fzn_hop_grantor h) (fzn_hop_signed_bytes h) (fzn_hop_signature h)) hops"
    "hops \<noteq> []" "length hops \<le> FZN_CHAIN_MAX_HOPS" "first_hop_rooted revs rt (hops ! 0)"
    using g(3) by (auto simp: chain_good_def list_ex_iff hd_conv_nth)
  moreover have "\<not> list_ex (\<lambda>h. h = None) hs" using ids(2) by (auto simp: list_ex_iff)
  ultimately show ?v
    using g(1,2,4) ids(1) by (simp add: fzn_chain_verify_def verdict_of_def)
qed

section \<open>The soonest expiry\<close>

lemma sooner_fold:
  defines "f \<equiv> \<lambda>h a. sooner a (fzn_hop_expires_at h)"
  shows "(fold f hops a = 0 \<longleftrightarrow> a = 0 \<and> (\<forall>h \<in> set hops. fzn_hop_expires_at h = 0)) \<and>
    (fold f hops a \<noteq> 0 \<longrightarrow> fold f hops a = a \<or> fold f hops a \<in> fzn_hop_expires_at ` set hops) \<and>
    (a \<noteq> 0 \<longrightarrow> fold f hops a \<le> a) \<and> (\<forall>h \<in> set hops. fzn_hop_expires_at h \<noteq> 0 \<longrightarrow> fold f hops a \<le> fzn_hop_expires_at h)"
proof (induction hops arbitrary: a)
  case (Cons h hops)
  let ?a = "sooner a (fzn_hop_expires_at h)"
  have one: "?a = 0 \<longleftrightarrow> a = 0 \<and> fzn_hop_expires_at h = 0" "?a = a \<or> ?a = fzn_hop_expires_at h"
    "a \<noteq> 0 \<longrightarrow> ?a \<le> a" "fzn_hop_expires_at h \<noteq> 0 \<longrightarrow> ?a \<le> fzn_hop_expires_at h"
    by (auto simp: sooner_def)
  have fold: "fold f (h # hops) a = fold f hops ?a" by (simp add: f_def)
  note ih = Cons.IH [of ?a]
  show ?case unfolding fold
  proof (intro conjI impI ballI)
    show "fold f hops ?a = 0 \<longleftrightarrow> a = 0 \<and> (\<forall>h \<in> set (h # hops). fzn_hop_expires_at h = 0)"
      using ih one(1) by auto
    show "fold f hops ?a = a \<or> fold f hops ?a \<in> fzn_hop_expires_at ` set (h # hops)" if "fold f hops ?a \<noteq> 0"
      using ih one(2) that by auto
    show "fold f hops ?a \<le> a" if "a \<noteq> 0" using ih one(1,3) that order_trans by blast
    show "fold f hops ?a \<le> fzn_hop_expires_at x" if "x \<in> set (h # hops)" "fzn_hop_expires_at x \<noteq> 0" for x
    proof (cases "x \<in> set hops")
      case False
      then have "fzn_hop_expires_at h \<noteq> 0" and x: "x = h" using that by auto
      then have "?a \<noteq> 0" "?a \<le> fzn_hop_expires_at h" using one(1,4) by blast+
      then show ?thesis using ih order_trans unfolding x by blast
    qed (use ih that in blast)
  qed
qed simp

lemma soonest_spec:
  "soonest_expiry hops = 0 \<longleftrightarrow> (\<forall>h \<in> set hops. fzn_hop_expires_at h = 0)"
  "soonest_expiry hops \<noteq> 0 \<Longrightarrow> soonest_expiry hops \<in> fzn_hop_expires_at ` set hops"
  "h \<in> set hops \<Longrightarrow> fzn_hop_expires_at h \<noteq> 0 \<Longrightarrow> soonest_expiry hops \<le> fzn_hop_expires_at h"
  using sooner_fold [of hops 0] by (auto simp: soonest_expiry_def)

lemma all_alive_iff: "(\<forall>h \<in> set hops. alive now h) \<longleftrightarrow> soonest_expiry hops = 0 \<or> now < soonest_expiry hops"
proof
  assume a: "\<forall>h \<in> set hops. alive now h"
  show "soonest_expiry hops = 0 \<or> now < soonest_expiry hops"
  proof (cases "soonest_expiry hops = 0")
    case False
    then show ?thesis using soonest_spec(2) [of hops] a by (auto simp: alive_def)
  qed simp
next
  assume s: "soonest_expiry hops = 0 \<or> now < soonest_expiry hops"
  show "\<forall>h \<in> set hops. alive now h"
  proof
    fix h assume h: "h \<in> set hops"
    show "alive now h"
    proof (cases "fzn_hop_expires_at h = 0")
      case False
      then have "now < soonest_expiry hops" "soonest_expiry hops \<le> fzn_hop_expires_at h"
        using s h soonest_spec(1) [of hops] soonest_spec(3) [OF h] by auto
      then show ?thesis by (auto simp: alive_def)
    qed (simp add: alive_def)
  qed
qed

section \<open>Signing a hop\<close>

definition signs_for :: "(key \<Rightarrow> bytes \<Rightarrow> bytes \<Rightarrow> bool) \<Rightarrow> (bytes \<Rightarrow> bytes option) \<Rightarrow> key \<Rightarrow> bool" where
  "signs_for verify do_sign k \<longleftrightarrow> (\<forall>m sig. do_sign m = Some sig \<longrightarrow> length sig = FZN_SIG_LEN \<and> verify k m sig)"

lemma hop_sign_ok:
  assumes "hop_sign (Some gr) (Some ge) (Some cap) iss ex dg sign = (FZN_CHAIN_OK, Some b)"
    and "so_sign sign = Some do_sign" and "signs_for verify do_sign gr"
    and "length gr = 32" and "length ge = 32" and "length cap = 32"
  shows "fst (fzn_hop_open (Some b)) = FZN_CHAIN_OK \<and>
    hop_read b = \<lparr>hf_grantor = gr, hf_grantee = ge, hf_capability = cap, hf_issued_at = iss,
      hf_expires_at = ex, hf_delegable = dg\<rparr> \<and>
    verify gr (fzn_hop_signed_bytes b) (fzn_hop_signature b) \<and> (ex = FZN_NO_EXPIRY \<or> iss < ex)"
proof -
  let ?f = "\<lparr>hf_grantor = gr, hf_grantee = ge, hf_capability = cap, hf_issued_at = iss, hf_expires_at = ex, hf_delegable = dg\<rparr>"
  have wf: "hop_fields_wf ?f" using assms(4-6) by (simp add: hop_fields_wf_def)
  note open0 = hop_write_open [OF wf, of "replicate FZN_SIG_LEN 0"] and body = hop_signed_write [OF wf]
  have ex: "ex = FZN_NO_EXPIRY \<or> iss < ex" using assms(1,2) by (auto simp: hop_sign_def not_le split: if_splits)
  then obtain sig where sig: "do_sign (hop_write ?f) = Some sig"
      "b = put_at FZN_HOP_BODY_LEN sig (hop_write ?f @ replicate FZN_SIG_LEN 0)"
    using assms(1,2) open0
    by (auto simp: hop_sign_def hop_encode_write body not_le split: if_splits option.splits)
  have len: "length sig = FZN_SIG_LEN" and ver: "verify gr (hop_write ?f) sig" using assms(3) sig(1) by (auto simp: signs_for_def)
  have b: "b = hop_write ?f @ sig" using sig(2) len length_hop_write [OF wf] by (simp add: put_at_def)
  show ?thesis
    unfolding b using hop_write_open [OF wf len] hop_read_write [OF wf] body hop_signature_write [OF wf len] ver ex by simp
qed

lemma hop_read_fields:
  "fzn_hop_grantor b = hf_grantor (hop_read b)" "fzn_hop_grantee b = hf_grantee (hop_read b)"
  "fzn_hop_capability b = hf_capability (hop_read b)" "fzn_hop_issued_at b = hf_issued_at (hop_read b)"
  "fzn_hop_expires_at b = hf_expires_at (hop_read b)" "fzn_hop_delegable b = hf_delegable (hop_read b)"
  by (simp_all add: hop_read_def)

lemma chain_good_snoc:
  assumes good: "chain_good rt cap now verify revs None hops" and len: "length hops < FZN_CHAIN_MAX_HOPS"
    and last: "fzn_hop_delegable (last hops)" "fzn_hop_grantor b = fzn_hop_grantee (last hops)"
    and b: "well_granted cap b" "alive now b" "verify (fzn_hop_grantor b) (fzn_hop_signed_bytes b) (fzn_hop_signature b)"
    and free: "\<not> fzn_revocation_covers_chain revs (hops @ [b]) (Some cap) ! length hops"
  shows "chain_good rt cap now verify revs None (hops @ [b])"
proof -
  have ne: "hops \<noteq> []" using good by (simp add: chain_good_def)
  have "linked (hops @ [b])"
    unfolding linked_def
  proof (intro allI impI)
    fix i assume i: "Suc i < length (hops @ [b])"
    show "fzn_hop_grantor ((hops @ [b]) ! Suc i) = fzn_hop_grantee ((hops @ [b]) ! i) \<and> fzn_hop_delegable ((hops @ [b]) ! i)"
    proof (cases "Suc i < length hops")
      case True
      then show ?thesis using good by (auto simp: chain_good_def linked_def nth_append)
    next
      case False
      then have n: "length hops = Suc i" using i by simp
      then have "last hops = hops ! i" using ne by (simp add: last_conv_nth)
      then show ?thesis using last n by (simp add: nth_append)
    qed
  qed
  moreover have "\<not> fzn_revocation_covers_chain revs (hops @ [b]) (Some cap) ! i" if "i < length (hops @ [b])" for i
  proof (cases "i < length hops")
    case True
    then show ?thesis using covers_chain_prefix [of hops "[b]" i revs "Some cap"] good len by (simp add: chain_good_def)
  next
    case False
    then have "i = length hops" using that by simp
    then show ?thesis using free by simp
  qed
  ultimately show ?thesis using good ne len b by (auto simp: chain_good_def)
qed

section \<open>Properties\<close>

text \<open>
  C8. A chain is accepted exactly when it has one to eight opened hops, starts at the root (or at a
  root of the store's set whose grant still counts), every hop grants this capability, was issued
  before it expires and has not expired, each hop is granted by the one before it, which could be
  passed on, no hop is revoked, nothing is known to be missing from any of its grantors, and every
  hop carries its grantor's signature over its own bytes. The verdict names the last grantee and the
  soonest expiry of any hop, no expiry only when no hop has one.
\<close>

theorem chain_verify_exact:
  "((\<exists>ch. fzn_chain_verify (Some hs) (Some rt) (Some cap) now sign revs man = Inr ch) \<longleftrightarrow>
     (\<exists>hops verify. hs = map Some hops \<and> so_verify sign = Some verify \<and> chain_good rt cap now verify revs man hops)) \<and>
   (\<forall>ch. fzn_chain_verify (Some hs) (Some rt) (Some cap) now sign revs man = Inr ch \<longrightarrow>
     ch_root ch = rt \<and> ch_capability ch = cap \<and> ch_hop_count ch = length hs \<and>
     ch_grantee ch = fzn_hop_grantee (the (last hs)) \<and>
     (ch_expires_at ch = FZN_NO_EXPIRY \<longleftrightarrow> (\<forall>h \<in> set hs. fzn_hop_expires_at (the h) = FZN_NO_EXPIRY)) \<and>
     (ch_expires_at ch \<noteq> FZN_NO_EXPIRY \<longrightarrow> (\<exists>h \<in> set hs. fzn_hop_expires_at (the h) = ch_expires_at ch)) \<and>
     (\<forall>h \<in> set hs. fzn_hop_expires_at (the h) \<noteq> FZN_NO_EXPIRY \<longrightarrow> ch_expires_at ch \<le> fzn_hop_expires_at (the h)))"
proof (intro conjI allI impI)
  show "(\<exists>ch. fzn_chain_verify (Some hs) (Some rt) (Some cap) now sign revs man = Inr ch) \<longleftrightarrow>
     (\<exists>hops verify. hs = map Some hops \<and> so_verify sign = Some verify \<and> chain_good rt cap now verify revs man hops)"
    unfolding verify_ok_iff by blast
next
  fix ch
  assume "fzn_chain_verify (Some hs) (Some rt) (Some cap) now sign revs man = Inr ch"
  then obtain hops where h: "hs = map Some hops" "hops \<noteq> []" "ch = verdict_of rt cap hops"
    unfolding verify_ok_iff by (auto simp: chain_good_def)
  show "ch_root ch = rt" "ch_capability ch = cap" "ch_hop_count ch = length hs" "ch_grantee ch = fzn_hop_grantee (the (last hs))"
    using h by (simp_all add: verdict_of_def last_map)
  show "ch_expires_at ch = FZN_NO_EXPIRY \<longleftrightarrow> (\<forall>h \<in> set hs. fzn_hop_expires_at (the h) = FZN_NO_EXPIRY)"
    using soonest_spec(1) [of hops] by (simp add: h verdict_of_def)
  show "\<exists>h \<in> set hs. fzn_hop_expires_at (the h) = ch_expires_at ch" if "ch_expires_at ch \<noteq> FZN_NO_EXPIRY"
    using soonest_spec(2) [of hops] that by (auto simp: h verdict_of_def)
  show "\<forall>h \<in> set hs. fzn_hop_expires_at (the h) \<noteq> FZN_NO_EXPIRY \<longrightarrow> ch_expires_at ch \<le> fzn_hop_expires_at (the h)"
    using soonest_spec(3) [of _ hops] by (auto simp: h verdict_of_def)
qed

text \<open>
  The verdict moves with the clock only through its expiry: a chain accepted once gives, at
  every later time and against the same store, the same verdict until \<open>fzn_chain_expired_at\<close> says the
  verdict has expired, and the error for an expired hop from then on.
\<close>

theorem chain_verify_later:
  assumes "fzn_chain_verify (Some hs) (Some rt) (Some cap) now sign revs man = Inr ch" and "now \<le> later"
  shows "fzn_chain_verify (Some hs) (Some rt) (Some cap) later sign revs man =
    (if fzn_chain_expired_at (Some ch) later then Inl FZN_CHAIN_ERR_EXPIRED else Inr ch)"
proof -
  from assms(1) obtain hops verify where h: "hs = map Some hops" "so_verify sign = Some verify"
      and good: "chain_good rt cap now verify revs man hops" and ch: "ch = verdict_of rt cap hops"
    unfolding verify_ok_iff by blast
  have expired: "fzn_chain_expired_at (Some ch) later \<longleftrightarrow> \<not> (\<forall>h \<in> set hops. alive later h)"
    by (auto simp: all_alive_iff fzn_chain_expired_at_def ch verdict_of_def)
  show ?thesis
  proof (cases "fzn_chain_expired_at (Some ch) later")
    case False
    then have "chain_good rt cap later verify revs man hops" using good expired by (auto simp: chain_good_def)
    then have "fzn_chain_verify (Some hs) (Some rt) (Some cap) later sign revs man = Inr ch"
      unfolding verify_ok_iff using h ch by blast
    with False show ?thesis by simp
  next
    case True
    let ?rv = "fzn_revocation_covers_chain revs hops (Some cap)"
    have before: "hop_err hops cap now ?rv i = None" if "i < length hops" for i
      using hop_errs_none [of hops cap now ?rv] good that by (simp add: chain_good_def)
    obtain err where one: "pass_one hops cap later ?rv [0..<length hops] FZN_NO_EXPIRY = Inl err"
      using pass_one_ok [of hops cap later ?rv "[0..<length hops]" FZN_NO_EXPIRY] hop_errs_none [of hops cap later ?rv] True expired
      by (cases "pass_one hops cap later ?rv [0..<length hops] FZN_NO_EXPIRY") auto
    from pass_one_err [OF this] obtain us i vs where i: "[0..<length hops] = us @ i # vs" "hop_err hops cap later ?rv i = Some err"
      by blast
    have "i \<in> set [0..<length hops]" unfolding i(1) by simp
    then have "err = FZN_CHAIN_ERR_EXPIRED" using before [of i] i(2) by (auto simp: hop_err_def hop_err_none split: if_splits)
    moreover have "hops \<noteq> []" "length hops \<le> FZN_CHAIN_MAX_HOPS" "first_hop_rooted revs rt (hops ! 0)"
      using good by (auto simp: chain_good_def hd_conv_nth)
    ultimately have "fzn_chain_verify (Some hs) (Some rt) (Some cap) later sign revs man = Inl FZN_CHAIN_ERR_EXPIRED"
      using h one by (simp add: fzn_chain_verify_def comp_def list_ex_iff image_iff)
    with True show ?thesis by simp
  qed
qed

text \<open>
  What is minted verifies. A hop the root mints with a signer that signs for it is accepted as
  a chain of its own, with the grantee, the expiry and nothing more than what was asked for, at every
  time from its issue to its expiry, by a verifier without revocations; and minting refuses a grant
  that would have no valid moment.
\<close>

theorem minted_hop_verifies:
  assumes "so_sign sign = Some do_sign" and "so_verify sign = Some verify" and "signs_for verify do_sign rt"
    and "length rt = 32" and "length ge = 32" and "length cap = 32"
    and "fzn_chain_mint (Some rt) (Some ge) (Some cap) iss ex dg sign = (FZN_CHAIN_OK, Some b)"
    and "ex = FZN_NO_EXPIRY \<or> now < ex"
  shows "fzn_chain_verify (Some [Some b]) (Some rt) (Some cap) now sign None None =
      Inr \<lparr>ch_root = rt, ch_grantee = ge, ch_capability = cap, ch_hop_count = 1, ch_expires_at = ex\<rparr> \<and>
    (ex = FZN_NO_EXPIRY \<or> iss < ex) \<and> fzn_hop_delegable b = dg"
proof -
  from hop_sign_ok [OF assms(7) [unfolded fzn_chain_mint_def] assms(1,3,4,5,6)]
  have read: "hop_read b = \<lparr>hf_grantor = rt, hf_grantee = ge, hf_capability = cap, hf_issued_at = iss,
      hf_expires_at = ex, hf_delegable = dg\<rparr>"
    and ver: "verify rt (fzn_hop_signed_bytes b) (fzn_hop_signature b)" and span: "ex = FZN_NO_EXPIRY \<or> iss < ex" by auto
  have "chain_good rt cap now verify None None [b]"
    using ver span assms(8)
    by (simp add: chain_good_def first_hop_rooted_def linked_def well_granted_def alive_def hop_read_fields read
        fzn_revocation_covers_chain_def fzn_revocation_covers_links_def)
  moreover have "verdict_of rt cap [b] =
      \<lparr>ch_root = rt, ch_grantee = ge, ch_capability = cap, ch_hop_count = 1, ch_expires_at = ex\<rparr>"
    by (simp add: verdict_of_def soonest_expiry_def sooner_def hop_read_fields read)
  ultimately have "fzn_chain_verify (Some (map Some [b])) (Some rt) (Some cap) now sign None None =
      Inr \<lparr>ch_root = rt, ch_grantee = ge, ch_capability = cap, ch_hop_count = 1, ch_expires_at = ex\<rparr>"
    unfolding verify_ok_iff using assms(2) by metis
  then show ?thesis using span by (simp add: hop_read_fields read)
qed

text \<open>
  Delegation extends a chain and never widens it. A hop delegated from a chain is granted by the
  chain's last grantee, for the same capability, from now, and expires no later than the chain does;
  delegating refuses a chain that does not verify, one whose last hop may not be passed on and one
  that is full. The extended chain verifies at the same moment, unless the new hop itself is revoked,
  and names the new grantee and the sooner of the two expiries.
\<close>

theorem delegated_hop_verifies:
  assumes "so_sign sign = Some do_sign" and "so_verify sign = Some verify" and "signs_for verify do_sign (fzn_hop_grantee (last hops))"
    and "\<forall>h \<in> set hops. fst (fzn_hop_open (Some h)) = FZN_CHAIN_OK" and "length ge = 32" and "length cap = 32"
    and "fzn_chain_delegate (Some (map Some hops)) (Some rt) (Some cap) now (Some ge) ex dg sign revs = (FZN_CHAIN_OK, Some b)"
  shows "\<exists>ch. fzn_chain_verify (Some (map Some hops)) (Some rt) (Some cap) now sign revs None = Inr ch \<and>
    fzn_hop_delegable (last hops) \<and> length hops < FZN_CHAIN_MAX_HOPS \<and>
    fzn_hop_grantor b = ch_grantee ch \<and> fzn_hop_grantee b = ge \<and> fzn_hop_capability b = cap \<and> fzn_hop_issued_at b = now \<and>
    (ch_expires_at ch \<noteq> FZN_NO_EXPIRY \<longrightarrow> fzn_hop_expires_at b \<noteq> FZN_NO_EXPIRY \<and> fzn_hop_expires_at b \<le> ch_expires_at ch) \<and>
    (\<not> fzn_revocation_covers_chain revs (hops @ [b]) (Some cap) ! length hops \<longrightarrow>
      fzn_chain_verify (Some (map Some (hops @ [b]))) (Some rt) (Some cap) now sign revs None =
        Inr (ch\<lparr>ch_grantee := ge, ch_hop_count := Suc (length hops),
               ch_expires_at := sooner (ch_expires_at ch) (fzn_hop_expires_at b)\<rparr>))"
proof -
  from assms(2,7) obtain ch where v: "fzn_chain_verify (Some (map Some hops)) (Some rt) (Some cap) now sign revs None = Inr ch"
    and len: "length hops < FZN_CHAIN_MAX_HOPS"
    by (auto simp: fzn_chain_delegate_def split: if_splits sum.splits)
  from v obtain vf where "so_verify sign = Some vf" and "chain_good rt cap now vf revs None hops" and ch: "ch = verdict_of rt cap hops"
    unfolding verify_ok_iff by (auto simp: inj_map_eq_map)
  then have good: "chain_good rt cap now verify revs None hops" using assms(2) by simp
  then have ne: "hops \<noteq> []" by (simp add: chain_good_def)
  define ex' where "ex' = (if ch_expires_at ch \<noteq> FZN_NO_EXPIRY \<and> (ex = FZN_NO_EXPIRY \<or> ex > ch_expires_at ch)
      then ch_expires_at ch else ex)"
  have deleg: "fzn_hop_delegable (last hops)"
    and sg: "hop_sign (Some (ch_grantee ch)) (Some ge) (Some cap) now ex' dg sign = (FZN_CHAIN_OK, Some b)"
    using assms(2,7) v len ne by (auto simp: fzn_chain_delegate_def ex'_def Let_def last_map split: if_splits)
  have gr: "ch_grantee ch = fzn_hop_grantee (last hops)" by (simp add: ch verdict_of_def)
  have grlen: "length (ch_grantee ch) = 32"
    using assms(4) last_in_set [OF ne] hop_write_read(2) [of "last hops"]
    unfolding gr by (simp add: hop_fields_wf_def hop_read_def)
  from hop_sign_ok [OF sg assms(1) assms(3) [folded gr] grlen assms(5,6)]
  have read: "hop_read b = \<lparr>hf_grantor = ch_grantee ch, hf_grantee = ge, hf_capability = cap, hf_issued_at = now,
      hf_expires_at = ex', hf_delegable = dg\<rparr>"
    and ver: "verify (ch_grantee ch) (fzn_hop_signed_bytes b) (fzn_hop_signature b)" and span: "ex' = FZN_NO_EXPIRY \<or> now < ex'"
    by auto
  note f = hop_read_fields [of b, unfolded read, simplified]
  have "fzn_chain_verify (Some (map Some (hops @ [b]))) (Some rt) (Some cap) now sign revs None =
        Inr (ch\<lparr>ch_grantee := ge, ch_hop_count := Suc (length hops), ch_expires_at := sooner (ch_expires_at ch) ex'\<rparr>)"
    if free: "\<not> fzn_revocation_covers_chain revs (hops @ [b]) (Some cap) ! length hops"
  proof -
    have "chain_good rt cap now verify revs None (hops @ [b])"
      using chain_good_snoc [OF good len deleg _ _ _ _ free] ver span gr f by (simp add: well_granted_def alive_def)
    moreover have "verdict_of rt cap (hops @ [b]) = ch\<lparr>ch_grantee := ge, ch_hop_count := Suc (length hops),
        ch_expires_at := sooner (ch_expires_at ch) ex'\<rparr>"
      by (simp add: verdict_of_def soonest_expiry_def ch f)
    ultimately show ?thesis unfolding verify_ok_iff using assms(2) by metis
  qed
  then show ?thesis
    using v deleg len f by (intro exI [of _ ch]) (auto simp: ex'_def)
qed

section \<open>A chain of one hop\<close>

lemma demo_hop_read: "hop_read demo_hop = \<lparr>hf_grantor = replicate 32 1, hf_grantee = replicate 32 2,
    hf_capability = replicate 32 3, hf_issued_at = 7, hf_expires_at = 90, hf_delegable = True\<rparr>"
  unfolding demo_hop_def by (rule hop_read_write) (simp add: hop_fields_wf_def)

lemma demo_hop_signature: "fzn_hop_signature demo_hop = replicate 64 5"
  unfolding demo_hop_def by (rule hop_signature_write) (simp_all add: hop_fields_wf_def)

lemma demo_chain_verifies_at:
  assumes "now < 90"
  shows "fzn_chain_verify (Some [Some demo_hop]) (Some (replicate 32 1)) (Some (replicate 32 3)) now demo_sign None None =
     Inr \<lparr>ch_root = replicate 32 1, ch_grantee = replicate 32 2, ch_capability = replicate 32 3, ch_hop_count = 1, ch_expires_at = 90\<rparr>"
proof -
  have "chain_good (replicate 32 1) (replicate 32 3) now (\<lambda>k m sig. sig = replicate 64 5) None None [demo_hop]"
    using assms by (simp add: chain_good_def first_hop_rooted_def linked_def well_granted_def alive_def hop_read_fields demo_hop_read
        demo_hop_signature fzn_revocation_covers_chain_def fzn_revocation_covers_links_def)
  moreover have "verdict_of (replicate 32 1) (replicate 32 3) [demo_hop] = \<lparr>ch_root = replicate 32 1,
      ch_grantee = replicate 32 2, ch_capability = replicate 32 3, ch_hop_count = 1, ch_expires_at = 90\<rparr>"
    by (simp add: verdict_of_def soonest_expiry_def sooner_def hop_read_fields demo_hop_read)
  moreover have "so_verify demo_sign = Some (\<lambda>k m sig. sig = replicate 64 5)" by (simp add: demo_sign_def)
  moreover have "[Some demo_hop] = map Some [demo_hop]" by simp
  ultimately show ?thesis unfolding verify_ok_iff by metis
qed

lemmas demo_chain_verifies = demo_chain_verifies_at [of 10, simplified]

lemma demo_signs_for: "signs_for (\<lambda>k m sig. sig = replicate 64 5) (\<lambda>m. Some (replicate 64 5)) k"
  by (simp add: signs_for_def)

theorem chain_verify_exact_witness:
  "\<exists>ch. fzn_chain_verify (Some [Some demo_hop]) (Some (replicate 32 1)) (Some (replicate 32 3)) 10 demo_sign None None = Inr ch \<and>
     ch_hop_count ch = 1 \<and> ch_expires_at ch \<le> fzn_hop_expires_at demo_hop"
  using chain_verify_exact [of "[Some demo_hop]" "replicate 32 1" "replicate 32 3" 10 demo_sign None None] demo_chain_verifies
  by (simp add: hop_read_fields demo_hop_read)

theorem chain_verify_later_witness:
  "fzn_chain_verify (Some [Some demo_hop]) (Some (replicate 32 1)) (Some (replicate 32 3)) 90 demo_sign None None =
     Inl FZN_CHAIN_ERR_EXPIRED"
  using chain_verify_later [OF demo_chain_verifies, of 90] by (simp add: fzn_chain_expired_at_def)

theorem minted_hop_verifies_witness:
  "\<exists>b. fzn_chain_mint (Some (replicate 32 1)) (Some (replicate 32 2)) (Some (replicate 32 3)) 7 90 True demo_sign = (FZN_CHAIN_OK, Some b) \<and>
     fzn_chain_verify (Some [Some b]) (Some (replicate 32 1)) (Some (replicate 32 3)) 10 demo_sign None None =
      Inr \<lparr>ch_root = replicate 32 1, ch_grantee = replicate 32 2, ch_capability = replicate 32 3, ch_hop_count = 1, ch_expires_at = 90\<rparr>"
proof -
  let ?f = "\<lparr>hf_grantor = replicate 32 1, hf_grantee = replicate 32 2, hf_capability = replicate 32 3,
    hf_issued_at = 7, hf_expires_at = 90, hf_delegable = True\<rparr>"
  have wf: "hop_fields_wf ?f" by (simp add: hop_fields_wf_def)
  obtain b where "fzn_chain_mint (Some (replicate 32 1)) (Some (replicate 32 2)) (Some (replicate 32 3)) 7 90 True demo_sign = (FZN_CHAIN_OK, Some b)"
    using hop_write_open [OF wf, of "replicate FZN_SIG_LEN 0"]
    by (simp add: fzn_chain_mint_def hop_sign_def hop_encode_write demo_sign_def)
  with minted_hop_verifies [of demo_sign "\<lambda>m. Some (replicate 64 5)" "\<lambda>k m sig. sig = replicate 64 5" "replicate 32 1"
      "replicate 32 2" "replicate 32 3" 7 90 True b 10] demo_signs_for
  show ?thesis by (auto simp: demo_sign_def)
qed

theorem delegated_hop_verifies_witness:
  "\<exists>b. fzn_chain_delegate (Some [Some demo_hop]) (Some (replicate 32 1)) (Some (replicate 32 3)) 10 (Some (replicate 32 4)) 0 False
       demo_sign None = (FZN_CHAIN_OK, Some b) \<and> fzn_hop_expires_at b \<le> 90 \<and> fzn_hop_grantee b = replicate 32 4"
proof -
  let ?f = "\<lparr>hf_grantor = replicate 32 2, hf_grantee = replicate 32 4, hf_capability = replicate 32 3,
    hf_issued_at = 10, hf_expires_at = 90, hf_delegable = False\<rparr>"
  have wf: "hop_fields_wf ?f" by (simp add: hop_fields_wf_def)
  let ?b = "put_at FZN_HOP_BODY_LEN (replicate 64 5) (hop_write ?f @ replicate FZN_SIG_LEN 0)"
  have ops: "so_sign demo_sign = Some (\<lambda>m. Some (replicate 64 5))" "so_verify demo_sign = Some (\<lambda>k m sig. sig = replicate 64 5)"
    by (simp_all add: demo_sign_def)
  have sg: "hop_sign (Some (replicate 32 2)) (Some (replicate 32 4)) (Some (replicate 32 3)) 10 90 False demo_sign = (FZN_CHAIN_OK, Some ?b)"
    using hop_write_open [OF wf, of "replicate FZN_SIG_LEN 0"] by (simp add: hop_sign_def hop_encode_write ops)
  have dg: "fzn_hop_delegable demo_hop" by (simp add: hop_read_fields demo_hop_read)
  have b: "fzn_chain_delegate (Some (map Some [demo_hop])) (Some (replicate 32 1)) (Some (replicate 32 3)) 10
      (Some (replicate 32 4)) 0 False demo_sign None = (FZN_CHAIN_OK, Some ?b)"
    using demo_chain_verifies dg sg by (simp add: fzn_chain_delegate_def ops)
  from delegated_hop_verifies [OF ops demo_signs_for _ _ _ b] demo_hop_opens demo_chain_verifies b
  show ?thesis by auto
qed

end
