(* ===== verification/Revocation_Admit.thy ===== *)
theory Revocation_Admit
  imports Chain_Verify
begin

text \<open>
  Admission into the revocation store (\<open>chain/revocation.c\<close>): which records a host takes, what they
  do to the store and to the deficit its manifests left, and what stays true of the store whatever
  arrives. An offer is a record with the chain that entitles its issuer; an offer without hops is the
  root's own. The first hop of an offered chain is a view that was opened.
\<close>

section \<open>Who may revoke\<close>

definition root_for :: "fzn_revocation_store \<Rightarrow> key \<Rightarrow> fzn_chain_hop list \<Rightarrow> key" where
  "root_for store root hops =
     (case hops of
        Some h # _ \<Rightarrow> if root_member store (fzn_hop_grantor h) then fzn_hop_grantor h else root
      | _ \<Rightarrow> root)"

definition entitled_by_chain :: "fzn_revocation_store \<Rightarrow> bytes \<Rightarrow> fzn_chain_hop list \<Rightarrow> key \<Rightarrow> fzn_sign_ops \<Rightarrow> fzn_chain_err" where
  "entitled_by_chain store record hops root sign =
     (if length hops \<ge> FZN_CHAIN_MAX_HOPS then FZN_CHAIN_ERR_MALFORMED
      else case fzn_chain_verify (Some hops) (Some (root_for store root hops)) (Some (fzn_revocation_capability record))
          0 sign None None of
        Inl err \<Rightarrow> err
      | Inr issuers \<Rightarrow>
        if ch_grantee issuers \<noteq> fzn_revocation_issuer record then FZN_CHAIN_ERR_CHAIN_INVALID
        else if \<not> fzn_hop_delegable (the (last hops)) then FZN_CHAIN_ERR_NOT_DELEGABLE
        else FZN_CHAIN_OK)"

definition zero_id :: bytes where
  "zero_id = replicate FZN_REVOCATION_ID_LEN 0"

definition admin_row :: "fzn_revocation_store \<Rightarrow> key \<Rightarrow> bytes list \<Rightarrow> fzn_hash_ops option \<Rightarrow> fzn_revocation_admin option" where
  "admin_row store k hops hash =
     (case (case hash of None \<Rightarrow> Some zero_id | Some f \<Rightarrow> f (take FZN_HOP_LEN (hops ! 0)),
            case rs_confirm_hash store of None \<Rightarrow> Some (replicate (length hops) zero_id)
            | Some f \<Rightarrow> those (map (\<lambda>h. f (take FZN_HOP_LEN h)) hops)) of
        (Some first_act, Some ids) \<Rightarrow>
          Some \<lparr>ad_key = k, ad_hop_count = length hops, ad_grantor = map fzn_hop_grantor hops,
            ad_grantee = map fzn_hop_grantee hops, ad_hop_id = ids, ad_first_act = first_act\<rparr>
      | _ \<Rightarrow> None)"

definition entitled_as_admin :: "fzn_revocation_store \<Rightarrow> key \<Rightarrow> fzn_chain_hop list \<Rightarrow> key \<Rightarrow> fzn_sign_ops \<Rightarrow>
    fzn_hash_ops option \<Rightarrow> fzn_chain_err \<times> fzn_revocation_store" where
  "entitled_as_admin store issuer hops root sign hash =
     (if length hops \<ge> FZN_CHAIN_MAX_HOPS \<or> (hops \<noteq> [] \<and> hd hops = None) then (FZN_CHAIN_ERR_MALFORMED, store)
      else case fzn_chain_verify (Some hops) (Some (root_for store root hops)) (Some (rs_admin_capability store))
          0 sign None None of
        Inl err \<Rightarrow> (err, store)
      | Inr verdict \<Rightarrow>
        if ch_grantee verdict \<noteq> issuer then (FZN_CHAIN_ERR_CHAIN_INVALID, store)
        else case admin_row store (ch_grantee verdict) (map the hops) hash of
            None \<Rightarrow> (FZN_CHAIN_ERR_MALFORMED, store)
          | Some ad \<Rightarrow>
            let a = find_admin store (ad_key ad) in
            if a < rs_admins_used store
            then (if admins_of store ! a = ad then FZN_CHAIN_OK else FZN_CHAIN_ERR_CHAIN_INVALID, store)
            else if rs_admins_used store \<ge> rs_admin_capacity store then (FZN_CHAIN_ERR_STORE_FULL, store)
            else (FZN_CHAIN_OK, store\<lparr>rs_admins := map_option (\<lambda>as. as[rs_admins_used store := ad]) (rs_admins store),
                    rs_admins_used := Suc (rs_admins_used store), rs_generation := rs_generation store + 1\<rparr>))"

definition fzn_revocation_admin_admit :: "fzn_revocation_store \<Rightarrow> key option \<Rightarrow> fzn_chain_hop list option \<Rightarrow> key option \<Rightarrow>
    fzn_sign_ops \<Rightarrow> fzn_chain_err \<times> fzn_revocation_store" where
  "fzn_revocation_admin_admit store k hops root sign =
     (case (k, hops, root) of
        (Some key, Some hs, Some rt) \<Rightarrow>
          if hs = [] \<or> corrupt store then (FZN_CHAIN_ERR_MALFORMED, store)
          else if \<not> rs_has_admin store then (FZN_CHAIN_ERR_CHAIN_INVALID, store)
          else entitled_as_admin store key hs rt sign (rs_confirm_hash store)
      | _ \<Rightarrow> (FZN_CHAIN_ERR_MALFORMED, store))"

section \<open>Taking a record\<close>

definition append_row :: "fzn_revocation \<Rightarrow> fzn_revocation_store \<Rightarrow> fzn_revocation_store" where
  "append_row row store = store\<lparr>rs_entries := map_option (\<lambda>es. es[rs_used store := row]) (rs_entries store),
     rs_used := Suc (rs_used store), rs_generation := rs_generation store + 1\<rparr>"

definition set_row :: "nat \<Rightarrow> fzn_revocation \<Rightarrow> fzn_revocation_store \<Rightarrow> fzn_revocation_store" where
  "set_row at row store = store\<lparr>rs_entries := map_option (\<lambda>es. es[at := row]) (rs_entries store)\<rparr>"

definition bump :: "fzn_revocation_store \<Rightarrow> fzn_revocation_store" where
  "bump store = store\<lparr>rs_generation := rs_generation store + 1\<rparr>"

definition settle :: "bytes \<Rightarrow> fzn_manifest_state option \<Rightarrow> fzn_manifest_state option" where
  "settle record manifest =
     snd (fzn_manifest_satisfy manifest (Some (fzn_revocation_issuer record)) (Some (fzn_revocation_capability record))
       (Some (fzn_revocation_grantee record)))"

definition live_row :: "bytes \<Rightarrow> bytes \<Rightarrow> fzn_revocation" where
  "live_row record rid = \<lparr>rv_capability = fzn_revocation_capability record, rv_grantee = fzn_revocation_grantee record,
     rv_issuer = fzn_revocation_issuer record, rv_id = rid, rv_withdrawn = False, rv_epoch = fzn_revocation_epoch record,
     rv_held = rid, rv_cut = fzn_revocation_cut record\<rparr>"

definition tombstone :: "bytes \<Rightarrow> bytes \<Rightarrow> fzn_revocation" where
  "tombstone record rid = \<lparr>rv_capability = fzn_revocation_capability record, rv_grantee = fzn_revocation_grantee record,
     rv_issuer = fzn_revocation_issuer record, rv_id = fzn_revocation_supersedes record, rv_withdrawn = True,
     rv_epoch = fzn_revocation_epoch record, rv_held = rid, rv_cut = zero_id\<rparr>"

definition take_withdrawal :: "fzn_revocation_store \<Rightarrow> bytes \<Rightarrow> bytes \<Rightarrow> nat \<Rightarrow> fzn_chain_err \<times> fzn_revocation_store" where
  "take_withdrawal store record rid at =
     (if at = rs_used store then
        if rs_used store \<ge> rs_capacity store then (FZN_CHAIN_ERR_STORE_FULL, store)
        else (FZN_CHAIN_OK, append_row (tombstone record rid) store)
      else let entry = the (rs_entries store) ! at in
        if rv_id entry \<noteq> fzn_revocation_supersedes record then (FZN_CHAIN_ERR_UNKNOWN_TARGET, store)
        else if rv_epoch entry \<noteq> fzn_revocation_epoch record then (FZN_CHAIN_ERR_UNKNOWN_TARGET, store)
        else if \<not> rv_withdrawn entry
        then (FZN_CHAIN_OK, bump (set_row at (entry\<lparr>rv_held := rid, rv_withdrawn := True\<rparr>) store))
        else (FZN_CHAIN_OK, set_row at (entry\<lparr>rv_held := rid\<rparr>) store))"

definition take_revocation :: "fzn_revocation_store \<Rightarrow> bytes \<Rightarrow> bytes \<Rightarrow> nat \<Rightarrow> fzn_manifest_state option \<Rightarrow>
    fzn_chain_err \<times> fzn_revocation_store \<times> fzn_manifest_state option" where
  "take_revocation store record rid at manifest =
     (if at < rs_used store then
        let entry = the (rs_entries store) ! at in
        if rv_withdrawn entry then
          if rid = rv_id entry then (FZN_CHAIN_OK, store, settle record manifest)
          else if fzn_revocation_supersedes record = zero_id
          then (FZN_CHAIN_ERR_UNKNOWN_TARGET, store, settle record manifest)
          else (FZN_CHAIN_OK,
            bump (set_row at (entry\<lparr>rv_withdrawn := False, rv_epoch := fzn_revocation_epoch record, rv_id := rid,
              rv_held := rid, rv_cut := fzn_revocation_cut record\<rparr>) store), settle record manifest)
        else if rid \<noteq> rv_id entry \<and> fzn_revocation_supersedes record = rv_id entry then
          let entry' = entry\<lparr>rv_id := rid, rv_held := rid, rv_epoch := fzn_revocation_epoch record\<rparr> in
          if rv_cut entry \<noteq> fzn_revocation_cut record
          then (FZN_CHAIN_OK, bump (set_row at (entry'\<lparr>rv_cut := fzn_revocation_cut record\<rparr>) store), settle record manifest)
          else (FZN_CHAIN_OK, set_row at entry' store, settle record manifest)
        else (FZN_CHAIN_OK, store, settle record manifest)
      else if rs_used store \<ge> rs_capacity store then (FZN_CHAIN_ERR_STORE_FULL, store, manifest)
      else (FZN_CHAIN_OK, append_row (live_row record rid) store, settle record manifest))"

definition entitled :: "fzn_revocation_store \<Rightarrow> bytes \<Rightarrow> fzn_chain_hop list \<Rightarrow> key \<Rightarrow> fzn_sign_ops \<Rightarrow> fzn_hash_ops \<Rightarrow>
    fzn_chain_err \<times> fzn_revocation_store" where
  "entitled store record hops root sign hash =
     (case hops of [] \<Rightarrow> (FZN_CHAIN_OK, store)
      | h # _ \<Rightarrow>
        if rs_has_admin store \<and> (case h of Some hop \<Rightarrow> fzn_hop_capability hop = rs_admin_capability store | None \<Rightarrow> False)
        then entitled_as_admin store (fzn_revocation_issuer record) hops root sign (Some hash)
        else (entitled_by_chain store record hops root sign, store))"

record fzn_revocation_offer =
  of_record :: "bytes option"
  of_hops :: "fzn_chain_hop list option"
  of_hop_count :: nat

definition fzn_revocation_offer_root :: "bytes option \<Rightarrow> fzn_revocation_offer" where
  "fzn_revocation_offer_root record = \<lparr>of_record = record, of_hops = None, of_hop_count = 0\<rparr>"

definition fzn_revocation_offer_chain :: "bytes option \<Rightarrow> fzn_chain_hop list option \<Rightarrow> nat \<Rightarrow> fzn_revocation_offer" where
  "fzn_revocation_offer_chain record hops hop_count = \<lparr>of_record = record, of_hops = hops, of_hop_count = hop_count\<rparr>"

definition offered_hops :: "fzn_revocation_offer \<Rightarrow> fzn_chain_hop list" where
  "offered_hops offer = (case of_hops offer of Some hs \<Rightarrow> take (of_hop_count offer) hs | None \<Rightarrow> [])"

definition fzn_revocation_admit :: "fzn_revocation_store \<Rightarrow> fzn_revocation_offer \<Rightarrow> key option \<Rightarrow> fzn_sign_ops \<Rightarrow>
    fzn_hash_ops option \<Rightarrow> fzn_manifest_state option \<Rightarrow> fzn_chain_err \<times> fzn_revocation_store \<times> fzn_manifest_state option" where
  "fzn_revocation_admit store offer root sign hash manifest =
     (case (rs_entries store, root, so_verify sign, hash, of_record offer) of
        (Some _, Some rt, Some verify, Some hsh, Some record) \<Rightarrow>
          if of_hop_count offer > 0 \<and> of_hops offer = None then (FZN_CHAIN_ERR_MALFORMED, store, manifest)
          else if of_hop_count offer = 0 \<and> fzn_revocation_issuer record \<noteq> rt \<and> \<not> root_member store (fzn_revocation_issuer record)
          then (FZN_CHAIN_ERR_WRONG_ROOT, store, manifest)
          else if \<not> verify (fzn_revocation_issuer record) (fzn_revocation_signed_bytes record) (fzn_revocation_signature record)
          then (FZN_CHAIN_ERR_CHAIN_INVALID, store, manifest)
          else (case entitled store record (offered_hops offer) rt sign hsh of
              (FZN_CHAIN_OK, store') \<Rightarrow>
                if rs_used store' > rs_capacity store' then (FZN_CHAIN_ERR_MALFORMED, store', manifest)
                else (case hsh (take FZN_REVOCATION_LEN record) of
                    None \<Rightarrow> (FZN_CHAIN_ERR_MALFORMED, store', manifest)
                  | Some rid \<Rightarrow>
                    let at = find_entry store' (fzn_revocation_issuer record) (fzn_revocation_capability record)
                               (fzn_revocation_grantee record) in
                    if fzn_revocation_is_withdrawal record
                    then (case take_withdrawal store' record rid at of (err, s) \<Rightarrow> (err, s, manifest))
                    else take_revocation store' record rid at manifest)
            | (err, store') \<Rightarrow> (err, store', manifest))
      | _ \<Rightarrow> (FZN_CHAIN_ERR_MALFORMED, store, manifest))"

fun merge_loop :: "fzn_revocation_offer list \<Rightarrow> key option \<Rightarrow> fzn_sign_ops \<Rightarrow> fzn_hash_ops option \<Rightarrow>
    fzn_revocation_store \<Rightarrow> fzn_manifest_state option \<Rightarrow> nat \<Rightarrow> fzn_chain_err \<Rightarrow>
    nat \<times> fzn_chain_err \<times> fzn_revocation_store \<times> fzn_manifest_state option" where
  "merge_loop [] root sign hash store manifest n_ok first = (n_ok, first, store, manifest)"
| "merge_loop (offer # offers) root sign hash store manifest n_ok first =
     (case fzn_revocation_admit store offer root sign hash manifest of
        (one, store', manifest') \<Rightarrow>
          if one = FZN_CHAIN_OK then merge_loop offers root sign hash store' manifest' (n_ok + 1) first
          else merge_loop offers root sign hash store' manifest' n_ok (if first = FZN_CHAIN_OK then one else first))"

definition fzn_revocation_merge :: "fzn_revocation_store \<Rightarrow> fzn_revocation_offer list option \<Rightarrow> nat \<Rightarrow> key option \<Rightarrow>
    fzn_sign_ops \<Rightarrow> fzn_hash_ops option \<Rightarrow> fzn_manifest_state option \<Rightarrow>
    nat \<times> fzn_chain_err \<times> fzn_revocation_store \<times> fzn_manifest_state option" where
  "fzn_revocation_merge store offers n root sign hash manifest =
     (case offers of
        None \<Rightarrow> if n > 0 then (0, FZN_CHAIN_ERR_MALFORMED, store, manifest) else (0, FZN_CHAIN_OK, store, manifest)
      | Some os \<Rightarrow> merge_loop (take n os) root sign hash store manifest 0 FZN_CHAIN_OK)"

definition confirm_entitled :: "fzn_revocation_store \<Rightarrow> key \<Rightarrow> fzn_chain_hop list option \<Rightarrow> nat \<Rightarrow> key \<Rightarrow> fzn_sign_ops \<Rightarrow>
    fzn_chain_err \<times> fzn_revocation_store" where
  "confirm_entitled store confirmer hops hop_count root sign =
     (if hop_count > 0 then
        if \<not> rs_has_admin store then (FZN_CHAIN_ERR_CHAIN_INVALID, store)
        else entitled_as_admin store confirmer (take hop_count (the hops)) root sign (rs_confirm_hash store)
      else (FZN_CHAIN_OK, store))"

definition take_confirmation :: "fzn_revocation_store \<Rightarrow> key \<Rightarrow> bytes \<Rightarrow> bytes option \<Rightarrow> fzn_chain_err \<times> fzn_revocation_store" where
  "take_confirmation store confirmer grant act =
     (if list_ex (\<lambda>c. cf_confirmer c = confirmer \<and> cf_grant c = grant) (confirms_of store) then (FZN_CHAIN_OK, store)
      else if rs_confirms_used store \<ge> rs_confirm_capacity store then (FZN_CHAIN_ERR_STORE_FULL, store)
      else case act of
          None \<Rightarrow> (FZN_CHAIN_ERR_MALFORMED, store)
        | Some a \<Rightarrow> (FZN_CHAIN_OK, store\<lparr>rs_confirms := map_option (\<lambda>cs. cs[rs_confirms_used store :=
              \<lparr>cf_confirmer = confirmer, cf_grant = grant, cf_act = a\<rparr>]) (rs_confirms store),
            rs_confirms_used := Suc (rs_confirms_used store), rs_generation := rs_generation store + 1\<rparr>))"

definition fzn_revocation_confirm_admit :: "fzn_revocation_store \<Rightarrow> bytes option \<Rightarrow> fzn_chain_hop list option \<Rightarrow> nat \<Rightarrow>
    key option \<Rightarrow> fzn_sign_ops \<Rightarrow> fzn_chain_err \<times> fzn_revocation_store" where
  "fzn_revocation_confirm_admit store bytes hops hop_count root sign =
     (case (rs_confirms store, rs_confirm_hash store, bytes, root, so_verify sign) of
        (Some _, Some hsh, Some b, Some rt, Some verify) \<Rightarrow>
          if hop_count > 0 \<and> hops = None then (FZN_CHAIN_ERR_MALFORMED, store)
          else if corrupt store then (FZN_CHAIN_ERR_MALFORMED, store)
          else if length b \<noteq> 130 \<or> b ! 0 \<noteq> FZN_SIGNED_VERSION \<or> b ! 1 \<noteq> FZN_OBJECT_ADMIN_CONFIRM
          then (FZN_CHAIN_ERR_SHAPE, store)
          else let confirmer = bytes_at 2 FZN_PUBKEY_LEN b; grant = bytes_at 34 FZN_REVOCATION_ID_LEN b in
            if hop_count = 0 \<and> confirmer \<noteq> rt \<and> \<not> root_member store confirmer then (FZN_CHAIN_ERR_WRONG_ROOT, store)
            else if \<not> verify confirmer (bytes_at 0 66 b) (bytes_at 66 FZN_SIG_LEN b) then (FZN_CHAIN_ERR_CHAIN_INVALID, store)
            else (case confirm_entitled store confirmer hops hop_count rt sign of
                (FZN_CHAIN_OK, store') \<Rightarrow> take_confirmation store' confirmer grant (hsh b)
              | (err, store') \<Rightarrow> (err, store'))
      | _ \<Rightarrow> (FZN_CHAIN_ERR_MALFORMED, store))"

section \<open>Rows and the invariant\<close>

interpretation entry_rows: keyed_rows "\<lambda>xs k. first_at (\<lambda>e. triple e = k) xs" triple
  by unfold_locales (auto simp: first_at_le dest: first_at_hit first_at_before)

interpretation admin_rows: keyed_rows "\<lambda>xs k. first_at (\<lambda>a. ad_key a = k) xs" ad_key
  by unfold_locales (auto simp: first_at_le dest: first_at_hit first_at_before)

definition record_triple :: "bytes \<Rightarrow> key \<times> cap_id \<times> key" where
  "record_triple record = (fzn_revocation_issuer record, fzn_revocation_capability record, fzn_revocation_grantee record)"

lemma find_entry_triple: "find_entry s i c g = first_at (\<lambda>e. triple e = (i, c, g)) (entries_of s)"
  by (simp add: find_entry_def same_def [abs_def] triple_def)

definition table_wf :: "'a list option \<Rightarrow> nat \<Rightarrow> nat \<Rightarrow> bool" where
  "table_wf table capacity used \<longleftrightarrow>
     (case table of None \<Rightarrow> capacity = 0 \<and> used = 0 | Some xs \<Rightarrow> length xs = capacity \<and> used \<le> capacity)"

definition store_inv :: "fzn_revocation_store \<Rightarrow> bool" where
  "store_inv s \<longleftrightarrow> rs_entries s \<noteq> None \<and> table_wf (rs_entries s) (rs_capacity s) (rs_used s) \<and>
     table_wf (rs_admins s) (rs_admin_capacity s) (rs_admins_used s) \<and>
     table_wf (rs_confirms s) (rs_confirm_capacity s) (rs_confirms_used s) \<and>
     distinct (map triple (entries_of s)) \<and> distinct (map ad_key (admins_of s)) \<and>
     distinct (map (\<lambda>c. (cf_confirmer c, cf_grant c)) (confirms_of s))"

lemma store_inv_sound: "store_inv s \<Longrightarrow> \<not> corrupt s"
  by (auto simp: store_inv_def table_wf_def fzn_revocation_store_sound_def split: option.splits)

lemma length_entries: "store_inv s \<Longrightarrow> length (entries_of s) = rs_used s"
  by (auto simp: store_inv_def table_wf_def entries_of_def split: option.splits)

lemma used_le: "store_inv s \<Longrightarrow> rs_used s \<le> rs_capacity s"
  by (auto simp: store_inv_def table_wf_def split: option.splits)

lemma length_admins: "store_inv s \<Longrightarrow> length (admins_of s) = rs_admins_used s"
  by (auto simp: store_inv_def table_wf_def admins_of_def split: option.splits)

lemma entries_nth: "store_inv s \<Longrightarrow> at < rs_used s \<Longrightarrow> the (rs_entries s) ! at = entries_of s ! at"
  by (simp add: entries_of_def)

text \<open>The step every table takes: the cell behind its live rows is written and counted.\<close>

lemma table_append:
  assumes "table_wf table capacity used" and "used < capacity"
  shows "table_wf (map_option (\<lambda>xs. xs[used := x]) table) capacity (Suc used)"
    and "take (Suc used) (the (map_option (\<lambda>xs. xs[used := x]) table)) = take used (the table) @ [x]"
  using assms by (auto simp: table_wf_def take_append_cell split: option.splits)

lemma append_row_rows:
  assumes "store_inv s" and "rs_used s < rs_capacity s"
  shows "entries_of (append_row row s) = entries_of s @ [row]"
    and "triple row \<notin> triple ` set (entries_of s) \<Longrightarrow> store_inv (append_row row s)"
proof -
  have t: "table_wf (rs_entries s) (rs_capacity s) (rs_used s)" using assms(1) by (simp add: store_inv_def)
  note app = table_append [OF t assms(2), of row]
  show e: "entries_of (append_row row s) = entries_of s @ [row]" using app(2) by (simp add: entries_of_def append_row_def)
  show "store_inv (append_row row s)" if "triple row \<notin> triple ` set (entries_of s)"
    using assms(1) app(1) that unfolding store_inv_def e
    by (auto simp: append_row_def admins_of_def confirms_of_def)
qed

lemma set_row_rows:
  assumes "store_inv s" and "at < rs_used s" and "triple row = triple (entries_of s ! at)"
  shows "entries_of (set_row at row s) = (entries_of s)[at := row]" and "store_inv (set_row at row s)"
proof -
  show e: "entries_of (set_row at row s) = (entries_of s)[at := row]"
    using assms(1,2) by (auto simp: set_row_def entries_of_def store_inv_def take_update_swap)
  have "map triple ((entries_of s)[at := row]) = map triple (entries_of s)"
    using assms by (simp add: map_update length_entries list_update_same_conv)
  then show "store_inv (set_row at row s)"
    using assms(1) unfolding store_inv_def e
    by (auto simp: set_row_def admins_of_def confirms_of_def table_wf_def split: option.splits)
qed

lemma bump_rows [simp]: "entries_of (bump s) = entries_of s" "store_inv (bump s) = store_inv s"
  "rs_generation (bump s) = rs_generation s + 1"
  by (simp_all add: bump_def entries_of_def store_inv_def admins_of_def confirms_of_def)

section \<open>What one record does\<close>

text \<open>
  The effect on the rows: nothing, a new row for a triple that had none, or another value for the
  row of the triple. The rest of the store is left alone but for the generation.
\<close>

text \<open>What a row answers: its triple, whether it is withdrawn, and its cut; not its identities nor its epoch.\<close>

definition answer_of :: "fzn_revocation \<Rightarrow> (key \<times> cap_id \<times> key) \<times> bool \<times> bytes" where
  "answer_of e = (triple e, rv_withdrawn e, rv_cut e)"

definition row_step :: "key \<times> cap_id \<times> key \<Rightarrow> fzn_revocation_store \<Rightarrow> fzn_revocation_store \<Rightarrow> bool" where
  "row_step k s s' \<longleftrightarrow> store_inv s' \<and>
     (entries_of s' = entries_of s \<and> rs_generation s' = rs_generation s \<or>
      (\<exists>row. triple row = k \<and> k \<notin> triple ` set (entries_of s) \<and> entries_of s' = entries_of s @ [row] \<and>
         rs_generation s' = rs_generation s + 1) \<or>
      (\<exists>at row. at < length (entries_of s) \<and> triple row = k \<and> triple (entries_of s ! at) = k \<and>
         entries_of s' = (entries_of s)[at := row] \<and>
         (rs_generation s' = rs_generation s + 1 \<or>
          rs_generation s' = rs_generation s \<and> answer_of row = answer_of (entries_of s ! at))))"

lemma find_record:
  fixes r :: bytes
  assumes "store_inv s"
  defines "at \<equiv> find_entry s (fzn_revocation_issuer r) (fzn_revocation_capability r) (fzn_revocation_grantee r)"
  shows "at < rs_used s \<Longrightarrow> triple (entries_of s ! at) = record_triple r"
    and "\<not> at < rs_used s \<Longrightarrow> at = rs_used s \<and> record_triple r \<notin> triple ` set (entries_of s)"
    and "record_triple r \<notin> triple ` set (entries_of s) \<Longrightarrow> at = rs_used s"
  using entry_rows.find_hit [where xs = "entries_of s" and k = "record_triple r"]
    entry_rows.absent_iff [where xs = "entries_of s" and k = "record_triple r"]
    entry_rows.find_le [where xs = "entries_of s" and k = "record_triple r"] length_entries [OF assms(1)]
  by (auto simp: at_def find_entry_triple record_triple_def)

lemma row_step_same: "store_inv s \<Longrightarrow> row_step k s s"
  by (simp add: row_step_def)

lemma row_step_append:
  assumes "store_inv s" and "rs_used s < rs_capacity s" and "k \<notin> triple ` set (entries_of s)" and "triple row = k"
  shows "row_step k s (append_row row s)"
  using append_row_rows [OF assms(1,2), of row] assms(3,4) by (auto simp: row_step_def append_row_def)

lemma row_step_set:
  assumes "store_inv s" and "at < rs_used s" and "triple (entries_of s ! at) = k" and "triple row = k"
  shows "row_step k s (bump (set_row at row s))"
    and "answer_of row = answer_of (entries_of s ! at) \<Longrightarrow> row_step k s (set_row at row s)"
proof -
  note set = set_row_rows [OF assms(1,2), of row]
  have "rs_generation (set_row at row s) = rs_generation s" by (simp add: set_row_def)
  then show "row_step k s (bump (set_row at row s))"
    "answer_of row = answer_of (entries_of s ! at) \<Longrightarrow> row_step k s (set_row at row s)"
    using set assms length_entries [OF assms(1)] unfolding row_step_def
    by (auto intro!: exI [of _ at] exI [of _ row])
qed

abbreviation record_at :: "fzn_revocation_store \<Rightarrow> bytes \<Rightarrow> nat" where
  "record_at s r \<equiv> find_entry s (fzn_revocation_issuer r) (fzn_revocation_capability r) (fzn_revocation_grantee r)"

lemma take_withdrawal_step:
  assumes "store_inv s"
  shows "row_step (record_triple r) s (snd (take_withdrawal s r rid (record_at s r)))"
proof (cases "record_at s r < rs_used s")
  case True
  note hit = find_record(1) [OF assms True]
  show ?thesis
    using True row_step_same [OF assms] row_step_set [OF assms True hit] entries_nth [OF assms True] hit
    by (auto simp: take_withdrawal_def Let_def triple_def answer_of_def)
next
  case False
  then have at: "record_at s r = rs_used s" and new: "record_triple r \<notin> triple ` set (entries_of s)"
    using find_record(2) [OF assms] by auto
  then show ?thesis
    using row_step_same [OF assms] row_step_append [OF assms _ new, of "tombstone r rid"]
    by (auto simp: take_withdrawal_def at record_triple_def triple_def tombstone_def)
qed

lemma take_revocation_step:
  assumes "store_inv s"
  shows "row_step (record_triple r) s (fst (snd (take_revocation s r rid (record_at s r) m)))"
proof (cases "record_at s r < rs_used s")
  case True
  note hit = find_record(1) [OF assms True]
  show ?thesis
    using True row_step_same [OF assms] row_step_set [OF assms True hit] entries_nth [OF assms True] hit
    by (auto simp: take_revocation_def Let_def triple_def answer_of_def)
next
  case False
  then have at: "record_at s r = rs_used s" and new: "record_triple r \<notin> triple ` set (entries_of s)"
    using find_record(2) [OF assms] by auto
  then show ?thesis
    using row_step_same [OF assms] row_step_append [OF assms _ new, of "live_row r rid"]
    by (auto simp: take_revocation_def at record_triple_def triple_def live_row_def)
qed

lemma entitled_as_admin_rows:
  assumes "store_inv s" and "entitled_as_admin s k hops root sign hash = (err, s')"
  shows "store_inv s' \<and> entries_of s' = entries_of s \<and> rs_capacity s' = rs_capacity s \<and> rs_used s' = rs_used s \<and>
    rs_roots s' = rs_roots s \<and> (s' = s \<or> rs_generation s' = rs_generation s + 1)"
proof (cases "s' = s")
  case True
  then show ?thesis using assms(1) by simp
next
  case False
  with assms(2) have "\<exists>ad. \<not> find_admin s (ad_key ad) < rs_admins_used s \<and> \<not> rs_admins_used s \<ge> rs_admin_capacity s \<and>
      s' = s\<lparr>rs_admins := map_option (\<lambda>as. as[rs_admins_used s := ad]) (rs_admins s),
        rs_admins_used := Suc (rs_admins_used s), rs_generation := rs_generation s + 1\<rparr>"
    unfolding entitled_as_admin_def Let_def by (auto split: if_splits sum.splits option.splits)
  then obtain ad where ad: "\<not> find_admin s (ad_key ad) < rs_admins_used s" "\<not> rs_admins_used s \<ge> rs_admin_capacity s"
      "s' = s\<lparr>rs_admins := map_option (\<lambda>as. as[rs_admins_used s := ad]) (rs_admins s),
        rs_admins_used := Suc (rs_admins_used s), rs_generation := rs_generation s + 1\<rparr>" by blast
  have t: "table_wf (rs_admins s) (rs_admin_capacity s) (rs_admins_used s)" using assms(1) by (simp add: store_inv_def)
  note app = table_append [OF t, of ad]
  have "admins_of s' = admins_of s @ [ad]" using app(2) ad(2,3) by (simp add: admins_of_def)
  moreover have "ad_key ad \<notin> ad_key ` set (admins_of s)"
    using ad(1) admin_rows.found_iff [where xs = "admins_of s" and k = "ad_key ad"] length_admins [OF assms(1)]
    by (simp add: find_admin_def)
  moreover have "table_wf (rs_admins s') (rs_admin_capacity s') (rs_admins_used s')" using app(1) ad(2,3) by simp
  moreover have "entries_of s' = entries_of s" "confirms_of s' = confirms_of s" by (simp_all add: ad(3) entries_of_def confirms_of_def)
  ultimately show ?thesis using assms(1) by (simp add: store_inv_def ad(3))
qed

lemma entitled_rows:
  assumes "store_inv s" and "entitled s r hops root sign hash = (err, s')"
  shows "store_inv s' \<and> entries_of s' = entries_of s \<and> rs_capacity s' = rs_capacity s \<and> rs_used s' = rs_used s \<and>
    rs_roots s' = rs_roots s \<and> (s' = s \<or> rs_generation s' = rs_generation s + 1)"
  using assms entitled_as_admin_rows [OF assms(1)]
  by (auto simp: entitled_def split: list.splits if_splits)

text \<open>
  When \<open>fzn_revocation_admit\<close> reaches the rows, the record is signed by its issuer, who is the root, a
  member of the root set, or the last grantee of a chain that checks out.
\<close>

definition standing_issuer :: "fzn_revocation_store \<Rightarrow> bytes \<Rightarrow> fzn_chain_hop list \<Rightarrow> key \<Rightarrow> fzn_sign_ops \<Rightarrow> bool" where
  "standing_issuer s r hops root sign \<longleftrightarrow>
     (if hops = [] then fzn_revocation_issuer r = root \<or> root_member s (fzn_revocation_issuer r)
      else \<exists>cap ch. (cap = fzn_revocation_capability r \<and> fzn_hop_delegable (the (last hops)) \<or>
             rs_has_admin s \<and> cap = rs_admin_capability s) \<and>
           fzn_chain_verify (Some hops) (Some (root_for s root hops)) (Some cap) 0 sign None None = Inr ch \<and>
           ch_grantee ch = fzn_revocation_issuer r)"

lemma pass_one_err_kind:
  "pass_one hops cap now revoked is soonest = Inl e \<Longrightarrow> e \<notin> {FZN_CHAIN_OK, FZN_CHAIN_ERR_STORE_FULL}"
  by (induction "is" arbitrary: soonest) (auto simp: pass_one.simps Let_def split: if_splits)

lemma verify_err_kind:
  "fzn_chain_verify hops root cap now sign revs m = Inl e \<Longrightarrow> e \<notin> {FZN_CHAIN_OK, FZN_CHAIN_ERR_STORE_FULL}"
  by (auto simp: fzn_chain_verify_def Let_def split: option.splits if_splits sum.splits dest: pass_one_err_kind)

lemma entitled_by_chain_ok:
  assumes "entitled_by_chain s r hops root sign = FZN_CHAIN_OK"
  shows "\<exists>ch. fzn_chain_verify (Some hops) (Some (root_for s root hops)) (Some (fzn_revocation_capability r)) 0 sign None None = Inr ch \<and>
    ch_grantee ch = fzn_revocation_issuer r \<and> fzn_hop_delegable (the (last hops))"
proof (cases "fzn_chain_verify (Some hops) (Some (root_for s root hops)) (Some (fzn_revocation_capability r)) 0 sign None None")
  case (Inl err)
  then have "err \<noteq> FZN_CHAIN_OK" using verify_err_kind by blast
  then show ?thesis using assms Inl by (simp add: entitled_by_chain_def split: if_splits)
next
  case (Inr ch)
  then show ?thesis using assms by (simp add: entitled_by_chain_def split: if_splits)
qed

lemma entitled_as_admin_ok:
  assumes "entitled_as_admin s k hops root sign hash = (FZN_CHAIN_OK, s')"
  shows "\<exists>ch. fzn_chain_verify (Some hops) (Some (root_for s root hops)) (Some (rs_admin_capability s)) 0 sign None None = Inr ch \<and>
    ch_grantee ch = k"
proof (cases "fzn_chain_verify (Some hops) (Some (root_for s root hops)) (Some (rs_admin_capability s)) 0 sign None None")
  case (Inl err)
  then have "err \<noteq> FZN_CHAIN_OK" using verify_err_kind by blast
  then show ?thesis using assms Inl by (simp add: entitled_as_admin_def split: if_splits)
next
  case (Inr ch)
  then show ?thesis using assms by (simp add: entitled_as_admin_def split: if_splits)
qed

lemma entitled_standing:
  assumes "entitled s r hops root sign hash = (FZN_CHAIN_OK, s')" and "hops \<noteq> []"
  shows "standing_issuer s r hops root sign"
proof (cases "rs_has_admin s \<and> (case hd hops of Some hop \<Rightarrow> fzn_hop_capability hop = rs_admin_capability s | None \<Rightarrow> False)")
  case True
  then have "entitled_as_admin s (fzn_revocation_issuer r) hops root sign (Some hash) = (FZN_CHAIN_OK, s')"
    using assms by (cases hops) (simp_all add: entitled_def)
  from entitled_as_admin_ok [OF this] show ?thesis using True assms(2) by (auto simp: standing_issuer_def)
next
  case False
  then have "entitled_by_chain s r hops root sign = FZN_CHAIN_OK"
    using assms by (cases hops) (auto simp: entitled_def split: if_splits)
  from entitled_by_chain_ok [OF this] show ?thesis using assms(2) by (auto simp: standing_issuer_def)
qed

definition reaches_rows :: "fzn_revocation_store \<Rightarrow> fzn_revocation_offer \<Rightarrow> key option \<Rightarrow> fzn_sign_ops \<Rightarrow> fzn_hash_ops option \<Rightarrow>
    bytes \<Rightarrow> bytes \<Rightarrow> fzn_revocation_store \<Rightarrow> bool" where
  "reaches_rows s offer root sign hash r rid s1 \<longleftrightarrow>
     (\<exists>rt verify hsh. rs_entries s \<noteq> None \<and> of_record offer = Some r \<and> root = Some rt \<and> so_verify sign = Some verify \<and>
        hash = Some hsh \<and> (of_hop_count offer > 0 \<longrightarrow> of_hops offer \<noteq> None) \<and>
        (of_hop_count offer = 0 \<longrightarrow> fzn_revocation_issuer r = rt \<or> root_member s (fzn_revocation_issuer r)) \<and>
        verify (fzn_revocation_issuer r) (fzn_revocation_signed_bytes r) (fzn_revocation_signature r) \<and>
        entitled s r (offered_hops offer) rt sign hsh = (FZN_CHAIN_OK, s1) \<and> rs_used s1 \<le> rs_capacity s1 \<and>
        hsh (take FZN_REVOCATION_LEN r) = Some rid)"

lemma admit_rows:
  "reaches_rows s offer root sign hash r rid s1 \<Longrightarrow>
   fzn_revocation_admit s offer root sign hash m =
     (if fzn_revocation_is_withdrawal r
      then (fst (take_withdrawal s1 r rid (record_at s1 r)), snd (take_withdrawal s1 r rid (record_at s1 r)), m)
      else take_revocation s1 r rid (record_at s1 r) m)"
  by (auto simp: reaches_rows_def fzn_revocation_admit_def Let_def split_beta)

lemma admit_stops:
  assumes "store_inv s" and "\<And>r rid s1. \<not> reaches_rows s offer root sign hash r rid s1"
    and "fzn_revocation_admit s offer root sign hash m = (err, s', m')"
  shows "err \<noteq> FZN_CHAIN_OK \<and> m' = m \<and> store_inv s' \<and> entries_of s' = entries_of s \<and>
    (s' = s \<or> rs_generation s' = rs_generation s + 1)"
proof (cases "\<exists>r rt verify hsh. of_record offer = Some r \<and> root = Some rt \<and> so_verify sign = Some verify \<and> hash = Some hsh \<and>
    (of_hop_count offer > 0 \<longrightarrow> of_hops offer \<noteq> None) \<and>
    (of_hop_count offer = 0 \<longrightarrow> fzn_revocation_issuer r = rt \<or> root_member s (fzn_revocation_issuer r)) \<and>
    verify (fzn_revocation_issuer r) (fzn_revocation_signed_bytes r) (fzn_revocation_signature r)")
  case False
  then have "(\<exists>e. e \<noteq> FZN_CHAIN_OK \<and> fzn_revocation_admit s offer root sign hash m = (e, s, m))"
    by (cases "rs_entries s"; cases "of_record offer"; cases root; cases "so_verify sign"; cases hash)
      (auto simp: fzn_revocation_admit_def)
  then have "err \<noteq> FZN_CHAIN_OK \<and> m' = m \<and> s' = s" using assms(3) by auto
  then show ?thesis using assms(1) by blast
next
  case True
  then obtain r rt verify hsh where g: "of_record offer = Some r" "root = Some rt" "so_verify sign = Some verify" "hash = Some hsh"
    "of_hop_count offer > 0 \<longrightarrow> of_hops offer \<noteq> None"
    "of_hop_count offer = 0 \<longrightarrow> fzn_revocation_issuer r = rt \<or> root_member s (fzn_revocation_issuer r)"
    "verify (fzn_revocation_issuer r) (fzn_revocation_signed_bytes r) (fzn_revocation_signature r)"
    by - (elim exE conjE, rule that, assumption+)
  obtain e1 s1 where e: "entitled s r (offered_hops offer) rt sign hsh = (e1, s1)" by fastforce
  note rows = entitled_rows [OF assms(1) e]
  have some: "rs_entries s \<noteq> None" using assms(1) by (simp add: store_inv_def)
  have fit: "rs_used s1 \<le> rs_capacity s1" using rows used_le by blast
  have none: "e1 = FZN_CHAIN_OK \<Longrightarrow> hsh (take FZN_REVOCATION_LEN r) = None"
    using assms(2) [of r _ s1] g e fit some by (fastforce simp: reaches_rows_def)
  have n: "\<not> (of_hop_count offer > 0 \<and> of_hops offer = None)"
    "\<not> (of_hop_count offer = 0 \<and> fzn_revocation_issuer r \<noteq> rt \<and> \<not> root_member s (fzn_revocation_issuer r))"
    "\<not> \<not> verify (fzn_revocation_issuer r) (fzn_revocation_signed_bytes r) (fzn_revocation_signature r)"
    using g by auto
  obtain es where es: "rs_entries s = Some es" using some by blast
  have "fzn_revocation_admit s offer root sign hash m = (if e1 = FZN_CHAIN_OK then FZN_CHAIN_ERR_MALFORMED else e1, s1, m)"
    unfolding fzn_revocation_admit_def g(1-4) es prod.case option.case e if_not_P [OF n(1)] if_not_P [OF n(2)] if_not_P [OF n(3)]
    using none fit by (cases e1) simp_all
  then have "err \<noteq> FZN_CHAIN_OK \<and> m' = m \<and> s' = s1" using assms(3) by (auto split: if_splits)
  then show ?thesis using rows by blast
qed

lemma admit_row_step:
  assumes "store_inv s" and "fzn_revocation_admit s offer root sign hash m = (err, s', m')"
  obtains (same) "store_inv s'" "entries_of s' = entries_of s" "s' = s \<or> rs_generation s' = rs_generation s + 1"
  | (step) r rid s1 where "reaches_rows s offer root sign hash r rid s1" "store_inv s1" "entries_of s1 = entries_of s"
      "s1 = s \<or> rs_generation s1 = rs_generation s + 1" "row_step (record_triple r) s1 s'"
proof (cases "\<exists>r rid s1. reaches_rows s offer root sign hash r rid s1")
  case False
  then show thesis using admit_stops [OF assms(1) _ assms(2)] same by blast
next
  case True
  then obtain r rid s1 where reach: "reaches_rows s offer root sign hash r rid s1" by blast
  then obtain rt hsh where "entitled s r (offered_hops offer) rt sign hsh = (FZN_CHAIN_OK, s1)" by (auto simp: reaches_rows_def)
  note ent = entitled_rows [OF assms(1) this]
  then have rows: "store_inv s1" "entries_of s1 = entries_of s" "s1 = s \<or> rs_generation s1 = rs_generation s + 1" by simp_all
  have "row_step (record_triple r) s1 s'"
    using admit_rows [OF reach, of m] assms(2) take_withdrawal_step [OF rows(1), of r rid] take_revocation_step [OF rows(1), of r rid m]
    by (cases "fzn_revocation_is_withdrawal r") (simp_all add: prod_eq_iff)
  then show thesis using step reach rows by blast
qed

section \<open>The store as a machine\<close>

text \<open>
  Everything that changes a store after \<open>fzn_revocation_store_init\<close>. Tables come with their length,
  as the C contract of an array and its capacity has it.
\<close>

datatype store_event =
    Offered fzn_revocation_offer "key option" fzn_sign_ops "fzn_hash_ops option"
  | Merged "fzn_revocation_offer list option" nat "key option" fzn_sign_ops "fzn_hash_ops option"
  | Confirmation "bytes option" "fzn_chain_hop list option" nat "key option" fzn_sign_ops
  | Admin "key option" "fzn_chain_hop list option" "key option" fzn_sign_ops
  | Set_k nat
  | Set_quorum nat "cap_id option" "fzn_revocation_admin list"
  | Set_roots "fzn_root_ops option" "fzn_hash_ops option"
  | Set_confirmations "fzn_revocation_confirm list" "fzn_hash_ops option"
  | Set_acts "fzn_act_log_ops option"
  | Use "fzn_revocation list"
  | Use_confirmations "fzn_revocation_confirm list"

type_synonym host = "fzn_revocation_store \<times> fzn_manifest_state option"

fun store_step :: "host \<Rightarrow> store_event \<Rightarrow> fzn_chain_err \<times> host" where
  "store_step (s, m) (Offered offer root sign hash) = fzn_revocation_admit s offer root sign hash m"
| "store_step (s, m) (Merged offers n root sign hash) = snd (fzn_revocation_merge s offers n root sign hash m)"
| "store_step (s, m) (Confirmation b hops n root sign) =
     (let (err, s') = fzn_revocation_confirm_admit s b hops n root sign in (err, s', m))"
| "store_step (s, m) (Admin k hops root sign) =
     (let (err, s') = fzn_revocation_admin_admit s k hops root sign in (err, s', m))"
| "store_step (s, m) (Set_k quorum) = (let (err, s') = fzn_revocation_store_set_k s quorum in (err, s', m))"
| "store_step (s, m) (Set_quorum quorum cap admins) =
     (let (err, s') = fzn_revocation_store_set_quorum s quorum cap (Some admins) (length admins) in (err, s', m))"
| "store_step (s, m) (Set_roots roots hash) = (let (err, s') = fzn_revocation_store_set_roots s roots hash in (err, s', m))"
| "store_step (s, m) (Set_confirmations table hash) =
     (let (err, s') = fzn_revocation_store_set_confirmations s (Some table) (length table) hash in (err, s', m))"
| "store_step (s, m) (Set_acts acts) = (let (err, s') = fzn_revocation_store_set_acts s acts in (err, s', m))"
| "store_step (s, m) (Use es) = (let (err, s') = fzn_revocation_store_use s (Some es) (length es) in (err, s', m))"
| "store_step (s, m) (Use_confirmations table) =
     (let (err, s') = fzn_revocation_store_use_confirmations s (Some table) (length table) in (err, s', m))"

text \<open>What every step keeps: the invariant, and the triples of the rows, in their places.\<close>

definition keeps :: "fzn_revocation_store \<Rightarrow> fzn_revocation_store \<Rightarrow> bool" where
  "keeps s s' \<longleftrightarrow> store_inv s' \<and> take (rs_used s) (map triple (entries_of s')) = map triple (entries_of s)"

lemma keeps_same_rows: "store_inv s \<Longrightarrow> store_inv s' \<Longrightarrow> entries_of s' = entries_of s \<Longrightarrow> keeps s s'"
  by (simp add: keeps_def length_entries)

lemma keeps_trans:
  assumes "store_inv s" and "keeps s s'" and "keeps s' s''"
  shows "keeps s s''"
proof -
  have inv': "store_inv s'" using assms(2) by (simp add: keeps_def)
  have "length (take (rs_used s) (map triple (entries_of s'))) = length (map triple (entries_of s))"
    using assms(2) unfolding keeps_def by metis
  then have "rs_used s \<le> rs_used s'" using inv' assms(1) by (simp add: length_entries)
  then have "take (rs_used s) (map triple (entries_of s'')) = take (rs_used s) (take (rs_used s') (map triple (entries_of s'')))"
    by (simp add: min_absorb1)
  with assms(2,3) show ?thesis by (simp add: keeps_def)
qed

lemma keeps_row_step: "store_inv s \<Longrightarrow> row_step k s s' \<Longrightarrow> keeps s s'"
  by (auto simp: row_step_def keeps_def length_entries map_update list_update_same_conv)

lemma admit_keeps:
  assumes "store_inv s"
  shows "keeps s (fst (snd (fzn_revocation_admit s offer root sign hash m)))"
proof -
  obtain err s' m' where a: "fzn_revocation_admit s offer root sign hash m = (err, s', m')" by (metis prod_cases3)
  from assms a show ?thesis
  proof (cases rule: admit_row_step)
    case same
    then show ?thesis using assms keeps_same_rows a by simp
  next
    case (step r rid s1)
    then show ?thesis using assms keeps_trans [OF assms keeps_same_rows [OF assms] keeps_row_step] a by simp
  qed
qed

lemma merge_keeps:
  "store_inv s \<Longrightarrow> keeps s (fst (snd (snd (merge_loop offers root sign hash s m n first))))"
proof (induction offers arbitrary: s m n first)
  case Nil
  then show ?case by (simp add: keeps_same_rows)
next
  case (Cons offer offers)
  obtain err s' m' where a: "fzn_revocation_admit s offer root sign hash m = (err, s', m')" by (metis prod_cases3)
  have k: "keeps s s'" using admit_keeps [OF Cons.prems, of offer root sign hash m] a by simp
  then have "store_inv s'" by (simp add: keeps_def)
  from keeps_trans [OF Cons.prems k Cons.IH [OF this]] show ?case by (simp add: a)
qed

text \<open>A confirmation is written behind the others, once for a confirmer and a grant.\<close>

lemma confirm_append:
  assumes "store_inv s" and "rs_confirms_used s < rs_confirm_capacity s"
    and "\<not> list_ex (\<lambda>c. cf_confirmer c = cf_confirmer cf \<and> cf_grant c = cf_grant cf) (confirms_of s)"
  defines "s' \<equiv> s\<lparr>rs_confirms := map_option (\<lambda>cs. cs[rs_confirms_used s := cf]) (rs_confirms s),
    rs_confirms_used := Suc (rs_confirms_used s), rs_generation := rs_generation s + 1\<rparr>"
  shows "keeps s s'"
proof -
  have t: "table_wf (rs_confirms s) (rs_confirm_capacity s) (rs_confirms_used s)" using assms(1) by (simp add: store_inv_def)
  note app = table_append [OF t assms(2), of cf]
  have c: "confirms_of s' = confirms_of s @ [cf]" using app(2) by (simp add: confirms_of_def s'_def)
  have e: "entries_of s' = entries_of s" "admins_of s' = admins_of s" by (simp_all add: s'_def entries_of_def admins_of_def)
  have "distinct (map (\<lambda>c. (cf_confirmer c, cf_grant c)) (confirms_of s'))"
    using assms(1,3) by (auto simp: c store_inv_def list_ex_iff)
  then have "store_inv s'" using assms(1) app(1) unfolding store_inv_def e by (simp add: s'_def)
  from keeps_same_rows [OF assms(1) this e(1)] show ?thesis .
qed

lemma admin_keeps:
  assumes "store_inv s"
  shows "keeps s (snd (entitled_as_admin s k hops root sign hash))"
  using entitled_as_admin_rows [OF assms, of k hops root sign hash] keeps_same_rows [OF assms]
  by (metis prod.collapse)

lemma confirm_admit_keeps:
  assumes "store_inv s"
  shows "keeps s (snd (fzn_revocation_confirm_admit s b hops n root sign))"
proof -
  have refl: "keeps s s" using keeps_same_rows [OF assms assms] by simp
  have tail: "keeps s (snd (case confirm_entitled s confirmer hops n rt sign of
      (FZN_CHAIN_OK, s') \<Rightarrow> take_confirmation s' confirmer grant act | (err, s') \<Rightarrow> (err, s')))" for confirmer hops n rt grant act
  proof -
    obtain e1 s1 where e: "confirm_entitled s confirmer hops n rt sign = (e1, s1)" by fastforce
    then have s1: "keeps s s1"
      using refl admin_keeps [OF assms, of confirmer "take n (the hops)" rt sign "rs_confirm_hash s"]
      by (auto simp: confirm_entitled_def split: if_splits)
    then have inv: "store_inv s1" by (simp add: keeps_def)
    have "keeps s (snd (take_confirmation s1 confirmer grant act))"
      using s1 keeps_trans [OF assms s1 confirm_append [OF inv], of "\<lparr>cf_confirmer = confirmer, cf_grant = grant, cf_act = the act\<rparr>"]
      by (cases act) (simp_all add: take_confirmation_def)
    with s1 show ?thesis by (cases e1) (simp_all add: e)
  qed
  show ?thesis
    unfolding fzn_revocation_confirm_admit_def Let_def
    by (auto simp: refl tail split: option.split)
qed

lemma store_use_keeps:
  assumes "store_inv s"
  shows "keeps s (snd (fzn_revocation_store_use s (Some es) (length es)))"
    and "keeps s (snd (fzn_revocation_store_use_confirmations s (Some cs) (length cs)))"
proof -
  obtain rows where rows: "rs_entries s = Some rows" "rs_used s \<le> length rows"
    using assms by (auto simp: store_inv_def table_wf_def split: option.splits)
  have refl: "keeps s s" using keeps_same_rows [OF assms assms] by simp
  have same: "keeps s s'" if "entries_of s' = entries_of s" "store_inv s'" for s' using keeps_same_rows [OF assms] that by blast
  note tables = store_inv_def table_wf_def entries_of_def admins_of_def confirms_of_def
  have es: "store_inv s'" "entries_of s' = entries_of s" if "rs_used s \<le> length es"
      "s' = s\<lparr>rs_entries := Some (take (rs_used s) rows @ drop (rs_used s) es), rs_capacity := length es,
        rs_generation := rs_generation s + 1\<rparr>" for s'
    using assms rows that by (simp_all add: tables)
  have cs: "store_inv s'" "entries_of s' = entries_of s" if "rs_confirms_used s \<le> length cs" "rs_confirms s \<noteq> None"
      "s' = s\<lparr>rs_confirms := Some (take (rs_confirms_used s) (the (rs_confirms s)) @ drop (rs_confirms_used s) cs),
        rs_confirm_capacity := length cs, rs_generation := rs_generation s + 1\<rparr>" for s'
    using assms that by (auto simp: tables split: option.splits)
  show "keeps s (snd (fzn_revocation_store_use s (Some es) (length es)))"
    using refl es by (simp add: fzn_revocation_store_use_def rows(1) same)
  show "keeps s (snd (fzn_revocation_store_use_confirmations s (Some cs) (length cs)))"
    using refl cs by (simp add: fzn_revocation_store_use_confirmations_def same)
qed

lemma store_step_keeps:
  assumes "store_inv s"
  shows "keeps s (fst (snd (store_step (s, m) e)))"
proof -
  have refl: "keeps s s" using keeps_same_rows [OF assms assms] by simp
  have same: "keeps s s'" if "entries_of s' = entries_of s" "store_inv s'" for s' using keeps_same_rows [OF assms] that by blast
  note rows = store_inv_def table_wf_def entries_of_def admins_of_def confirms_of_def
  show ?thesis
  proof (cases e)
    case (Merged offers n root sign hash)
    then show ?thesis using refl merge_keeps [OF assms]
      by (simp add: fzn_revocation_merge_def split: option.split)
  next
    case (Admin k hops root sign)
    then show ?thesis using refl admin_keeps [OF assms]
      by (simp add: fzn_revocation_admin_admit_def split_beta split: option.split)
  next
    case (Set_k q)
    then show ?thesis using refl assms by (auto simp: fzn_revocation_store_set_k_def intro!: same) (auto simp: rows)
  next
    case (Set_quorum q cap admins)
    then show ?thesis using refl assms by (auto simp: fzn_revocation_store_set_quorum_def intro!: same) (auto simp: rows)
  next
    case (Set_roots roots hash)
    then show ?thesis using refl assms by (auto simp: fzn_revocation_store_set_roots_def intro!: same) (auto simp: rows)
  next
    case (Set_confirmations table hash)
    then show ?thesis using refl assms by (auto simp: fzn_revocation_store_set_confirmations_def intro!: same) (auto simp: rows)
  next
    case (Set_acts acts)
    then show ?thesis using assms by (auto simp: fzn_revocation_store_set_acts_def intro!: same) (auto simp: rows)
  qed (simp_all add: split_beta admit_keeps confirm_admit_keeps store_use_keeps assms)
qed

lemma store_init_inv:
  "fzn_revocation_store_init (Some es) (length es) = (FZN_CHAIN_OK, Some s) \<Longrightarrow> store_inv s"
  by (auto simp: fzn_revocation_store_init_def store_inv_def table_wf_def entries_of_def admins_of_def confirms_of_def
      split: if_splits)

lemma store_step_inv: "store_inv (fst h) \<Longrightarrow> store_inv (fst (snd (store_step h e)))"
  using store_step_keeps [of "fst h" "snd h" e] by (simp add: keeps_def)

interpretation store_machine: invariant_machine store_step "\<lambda>h. store_inv (fst h)"
  by unfold_locales (rule store_step_inv)

lemma known_triple:
  assumes "store_inv s"
  shows "fzn_revocation_known (Some s) (Some i) (Some c) (Some g) \<longleftrightarrow> (i, c, g) \<in> triple ` set (entries_of s)"
  using entry_rows.found_iff [where xs = "entries_of s" and k = "(i, c, g)"] length_entries [OF assms] store_inv_sound [OF assms] assms
  by (auto simp: fzn_revocation_known_def find_entry_triple store_inv_def Let_def)

lemma keeps_known: "store_inv s \<Longrightarrow> keeps s s' \<Longrightarrow> triple ` set (entries_of s) \<subseteq> triple ` set (entries_of s')"
  unfolding keeps_def by (metis set_map set_take_subset)

lemma step_known:
  assumes "store_inv (fst h)" and "k \<in> triple ` set (entries_of (fst h))"
  shows "k \<in> triple ` set (entries_of (fst (snd (store_step h e))))"
  using keeps_known [OF assms(1) store_step_keeps [OF assms(1), of "snd h" e]] assms(2) by auto

text \<open>
  C12. Whatever is offered to a host and however it is set up, its store stays inside its arrays and
  keeps one row for a triple, and a triple it has once recorded is known for ever: no sequence of
  offers, merges, confirmations, admin chains and changes of the tables makes it forget one.
\<close>

theorem store_never_forgets:
  assumes "fzn_revocation_store_init (Some es) (length es) = (FZN_CHAIN_OK, Some s)"
  shows "store_inv (fst (final store_step (s, m) (before @ after))) \<and>
    (fzn_revocation_known (Some (fst (final store_step (s, m) before))) (Some i) (Some c) (Some g) \<longrightarrow>
     fzn_revocation_known (Some (fst (final store_step (s, m) (before @ after)))) (Some i) (Some c) (Some g))"
proof -
  let ?mid = "final store_step (s, m) before" and ?last = "final store_step (s, m) (before @ after)"
  have inv: "store_inv s" using assms by (rule store_init_inv)
  have mid: "store_inv (fst ?mid)" and fin: "store_inv (fst ?last)"
    using inv by (auto intro!: store_machine.run_invar)
  have "(i, c, g) \<in> triple ` set (entries_of (fst ?last))" if known: "(i, c, g) \<in> triple ` set (entries_of (fst ?mid))"
  proof -
    have "(i, c, g) \<in> triple ` set (entries_of (fst (final store_step ?mid after)))"
      using store_machine.run_stable [where P = "\<lambda>h. (i, c, g) \<in> triple ` set (entries_of (fst h))", OF step_known mid known] .
    then show ?thesis by (simp add: run_append)
  qed
  then show ?thesis using mid fin by (simp add: known_triple)
qed

definition demo_revocation :: "u8 \<Rightarrow> u64 \<Rightarrow> u64 \<Rightarrow> bytes option \<Rightarrow> bytes" where
  "demo_revocation issuer issued_at epoch supersedes =
     the (snd (mint (if issued_at < 50 then FZN_OBJECT_REVOCATION else FZN_OBJECT_WITHDRAWAL) (Some (replicate 32 issuer))
       (Some (replicate 32 3)) (Some (replicate 32 4)) issued_at epoch supersedes None demo_sign))"

definition demo_hash :: fzn_hash_ops where
  "demo_hash b = Some (replicate 32 (b ! 105))"

definition fresh_store :: "nat \<Rightarrow> fzn_revocation_store" where
  "fresh_store n = the (snd (fzn_revocation_store_init (Some (replicate n one_row)) n))"

theorem store_never_forgets_witness:
  "fzn_revocation_known (Some (fst (final store_step (fresh_store 2, None)
     ([Offered (fzn_revocation_offer_root (Some (demo_revocation 1 20 0 None))) (Some (replicate 32 1)) demo_sign (Some demo_hash)] @
      [Set_k 2, Use []]))))
    (Some (replicate 32 1)) (Some (replicate 32 3)) (Some (replicate 32 4))"
proof -
  let ?offer = "[Offered (fzn_revocation_offer_root (Some (demo_revocation 1 20 0 None))) (Some (replicate 32 1)) demo_sign (Some demo_hash)]"
  have "fzn_revocation_store_init (Some (replicate 2 one_row)) (length (replicate 2 one_row)) = (FZN_CHAIN_OK, Some (fresh_store 2))"
    by (simp add: fresh_store_def fzn_revocation_store_init_def)
  moreover have "fzn_revocation_known (Some (fst (final store_step (fresh_store 2, None) ?offer)))
    (Some (replicate 32 1)) (Some (replicate 32 3)) (Some (replicate 32 4))" by code_simp
  ultimately show ?thesis using store_never_forgets [of "replicate 2 one_row" "fresh_store 2" None ?offer "[Set_k 2, Use []]"] by blast
qed

lemma filter_update_out:
  assumes "i < length xs" and "\<not> P (xs ! i)" and "\<not> P x"
  shows "filter P (xs[i := x]) = filter P xs"
proof -
  have "filter P xs = filter P (take i xs @ xs ! i # drop (Suc i) xs)" using assms(1) by (simp add: id_take_nth_drop [symmetric])
  then show ?thesis using assms by (simp add: upd_conv_take_nth_drop)
qed

lemma row_step_others:
  "row_step k s s' \<Longrightarrow> filter (\<lambda>e. triple e \<noteq> k) (entries_of s') = filter (\<lambda>e. triple e \<noteq> k) (entries_of s)"
  by (auto simp: row_step_def filter_update_out)

lemma take_moved:
  "entries_of (snd (take_withdrawal s r rid at)) \<noteq> entries_of s \<Longrightarrow> fst (take_withdrawal s r rid at) = FZN_CHAIN_OK"
  "entries_of (fst (snd (take_revocation s r rid at m))) \<noteq> entries_of s \<Longrightarrow> fst (take_revocation s r rid at m) = FZN_CHAIN_OK"
  by (auto simp: take_withdrawal_def take_revocation_def Let_def split: if_splits)

definition offer_wf :: "fzn_revocation_offer \<Rightarrow> bool" where
  "offer_wf offer \<longleftrightarrow> (case of_hops offer of Some hs \<Rightarrow> of_hop_count offer \<le> length hs | None \<Rightarrow> True)"

lemma reaches_standing:
  assumes "reaches_rows s offer (Some root) sign hash r rid s1" and "offer_wf offer"
  shows "standing_issuer s r (offered_hops offer) root sign"
proof (cases "of_hop_count offer = 0")
  case True
  then show ?thesis using assms(1)
    by (auto simp: reaches_rows_def standing_issuer_def offered_hops_def split: option.splits)
next
  case False
  then have "offered_hops offer \<noteq> []"
    using assms by (auto simp: reaches_rows_def offered_hops_def offer_wf_def split: option.splits)
  then show ?thesis using assms(1) by (auto simp: reaches_rows_def intro: entitled_standing)
qed

text \<open>
  Only an entitled issuer moves a row, and only its own. When an offer changes the rows, the
  record is signed by the key it names as its issuer, that key is the root, a member of the root set
  or the end of a chain that checks out for the capability or for the admins, and every row of another
  triple keeps its value. An offer that is not reported as taken changes no row.
\<close>

theorem admit_moves_own_row:
  assumes "store_inv s" and "offer_wf offer"
    and "fzn_revocation_admit s offer (Some root) sign hash m = (err, s', m')" and "entries_of s' \<noteq> entries_of s"
  shows "err = FZN_CHAIN_OK \<and>
      (\<exists>r verify. of_record offer = Some r \<and> so_verify sign = Some verify \<and>
         verify (fzn_revocation_issuer r) (fzn_revocation_signed_bytes r) (fzn_revocation_signature r) \<and>
         standing_issuer s r (offered_hops offer) root sign \<and>
         filter (\<lambda>e. triple e \<noteq> record_triple r) (entries_of s') = filter (\<lambda>e. triple e \<noteq> record_triple r) (entries_of s))"
  using assms(1,3)
proof (cases rule: admit_row_step)
  case same
  then show ?thesis using assms(4) by simp
next
  case (step r rid s1)
  have "err = FZN_CHAIN_OK"
    using admit_rows [OF step(1), of m] assms(3,4) step(3)
    by (cases "fzn_revocation_is_withdrawal r") (auto simp: prod_eq_iff intro: take_moved)
  moreover have "filter (\<lambda>e. triple e \<noteq> record_triple r) (entries_of s') = filter (\<lambda>e. triple e \<noteq> record_triple r) (entries_of s)"
    using row_step_others [OF step(5)] step(3) by simp
  moreover have "of_record offer = Some r" "\<exists>verify. so_verify sign = Some verify \<and>
      verify (fzn_revocation_issuer r) (fzn_revocation_signed_bytes r) (fzn_revocation_signature r)"
    using step(1) by (auto simp: reaches_rows_def)
  ultimately show ?thesis using reaches_standing [OF step(1) assms(2)] by blast
qed

lemma store_inv_fresh: "0 < n \<Longrightarrow> store_inv (fresh_store n)"
  by (simp add: fresh_store_def fzn_revocation_store_init_def store_inv_def table_wf_def entries_of_def admins_of_def confirms_of_def)

theorem admit_moves_own_row_witness:
  "\<exists>r. of_record (fzn_revocation_offer_root (Some (demo_revocation 1 20 0 None))) = Some r \<and>
     standing_issuer (fresh_store 2) r [] (replicate 32 1) demo_sign"
proof -
  let ?o = "fzn_revocation_offer_root (Some (demo_revocation 1 20 0 None))"
  obtain err s' m' where a: "fzn_revocation_admit (fresh_store 2) ?o (Some (replicate 32 1)) demo_sign (Some demo_hash) None = (err, s', m')"
    by (metis prod_cases3)
  have "rs_used (fst (snd (fzn_revocation_admit (fresh_store 2) ?o (Some (replicate 32 1)) demo_sign (Some demo_hash) None))) = 1" by code_simp
  then have "rs_used s' = 1" by (simp add: a)
  moreover have "store_inv s'" using admit_keeps [of "fresh_store 2" ?o "Some (replicate 32 1)" demo_sign "Some demo_hash" None] a
    by (simp add: keeps_def store_inv_fresh)
  ultimately have "entries_of s' \<noteq> entries_of (fresh_store 2)"
    using length_entries [of s'] by (auto simp: entries_of_def fresh_store_def fzn_revocation_store_init_def)
  moreover have "offer_wf ?o" "offered_hops ?o = []" by (simp_all add: offer_wf_def offered_hops_def fzn_revocation_offer_root_def)
  ultimately show ?thesis using admit_moves_own_row [OF store_inv_fresh _ a] by auto
qed

section \<open>Answers and the generation\<close>

lemma triple_row:
  assumes "store_inv s" and "e \<in> set (entries_of s)" and "triple e = (i, c, g)"
  shows "find_entry s i c g < rs_used s" and "the (rs_entries s) ! find_entry s i c g = e"
proof -
  have "distinct (map triple (entries_of s))" using assms(1) by (simp add: store_inv_def)
  then have f: "find_entry s i c g < length (entries_of s) \<and> entries_of s ! find_entry s i c g = e"
    unfolding find_entry_triple using entry_rows.found_row [where xs = "entries_of s" and k = "(i, c, g)"] assms(2,3) by blast
  then show "find_entry s i c g < rs_used s" using length_entries [OF assms(1)] by simp
  with f entries_nth [OF assms(1)] show "the (rs_entries s) ! find_entry s i c g = e" by simp
qed

definition live_triples :: "fzn_revocation_store \<Rightarrow> (key \<times> cap_id \<times> key) set" where
  "live_triples s = {k. (k, False) \<in> set (map (\<lambda>e. (triple e, rv_withdrawn e)) (entries_of s))}"

lemma covers_live:
  assumes "store_inv s"
  shows "fzn_revocation_covers (Some s) (Some i) (Some c) (Some g) \<longleftrightarrow> (i, c, g) \<in> live_triples s"
proof -
  obtain es where es: "rs_entries s = Some es" using assms by (auto simp: store_inv_def)
  have iff: "fzn_revocation_covers (Some s) (Some i) (Some c) (Some g) \<longleftrightarrow>
      find_entry s i c g < rs_used s \<and> \<not> rv_withdrawn (the (rs_entries s) ! find_entry s i c g)"
    using store_inv_sound [OF assms] by (simp add: fzn_revocation_covers_def es Let_def)
  show ?thesis
  proof
    assume "fzn_revocation_covers (Some s) (Some i) (Some c) (Some g)"
    with iff have f: "find_entry s i c g < rs_used s" "\<not> rv_withdrawn (entries_of s ! find_entry s i c g)"
      using entries_nth [OF assms] by auto
    then have "triple (entries_of s ! find_entry s i c g) = (i, c, g)" "entries_of s ! find_entry s i c g \<in> set (entries_of s)"
      using entry_rows.find_hit [where xs = "entries_of s" and k = "(i, c, g)"] length_entries [OF assms]
      by (simp_all add: find_entry_triple)
    with f(2) show "(i, c, g) \<in> live_triples s" by (force simp: live_triples_def)
  next
    assume "(i, c, g) \<in> live_triples s"
    then obtain e where "e \<in> set (entries_of s)" "\<not> rv_withdrawn e" "triple e = (i, c, g)" by (auto simp: live_triples_def)
    with iff triple_row [OF assms this(1,3)] show "fzn_revocation_covers (Some s) (Some i) (Some c) (Some g)" by simp
  qed
qed

lemma row_step_quiet:
  assumes "row_step k s s'" and "rs_generation s' = rs_generation s"
  shows "map answer_of (entries_of s') = map answer_of (entries_of s)"
  using assms by (auto simp: row_step_def map_update list_update_same_conv)

lemma same_answers:
  assumes "map answer_of (entries_of s') = map answer_of (entries_of s)"
  shows "live_triples s' = live_triples s" and "triple ` set (entries_of s') = triple ` set (entries_of s)"
proof -
  have "map (\<lambda>e. (triple e, rv_withdrawn e)) (entries_of t) = map (\<lambda>(k, w, _). (k, w)) (map answer_of (entries_of t))"
    "triple ` set (entries_of t) = fst ` set (map answer_of (entries_of t))" for t
    by (simp_all add: answer_of_def image_image)
  then show "live_triples s' = live_triples s" "triple ` set (entries_of s') = triple ` set (entries_of s)"
    using assms by (simp_all only: live_triples_def)
qed

lemma steps_differ: "(x :: u64) + 1 \<noteq> x" "(x :: u64) + 1 + 1 \<noteq> x"
  by (simp_all add: add.assoc)

lemma row_step_generation: "row_step k s s' \<Longrightarrow> rs_generation s' = rs_generation s \<or> rs_generation s' = rs_generation s + 1"
  by (auto simp: row_step_def)

text \<open>
  C21. An offer that leaves the generation of the store where it was leaves what the store says of every triple
  where it was: whether the triple is covered, whether it is known, and row by row whether it is withdrawn and where its cut
  is. What such an offer may still change are the identities and the epoch of a row: a reissue over a live
  revocation does, and that is not among the answers this shows to stand.
\<close>

theorem quiet_admit_keeps_answers:
  assumes "store_inv s" and "fzn_revocation_admit s offer root sign hash m = (err, s', m')"
    and "fzn_revocation_generation (Some s') = fzn_revocation_generation (Some s)"
  shows "fzn_revocation_covers (Some s') i c g = fzn_revocation_covers (Some s) i c g \<and>
    fzn_revocation_known (Some s') i c g = fzn_revocation_known (Some s) i c g \<and>
    map answer_of (entries_of s') = map answer_of (entries_of s)"
proof -
  have inv: "store_inv s'" using admit_keeps [OF assms(1), of offer root sign hash m] assms(2) by (simp add: keeps_def)
  have gen: "rs_generation s' = rs_generation s" using assms(3) by (simp add: fzn_revocation_generation_def)
  have same: "map answer_of (entries_of s') = map answer_of (entries_of s)"
    using assms(1,2)
  proof (cases rule: admit_row_step)
    case same
    then show ?thesis by simp
  next
    case (step r rid s1)
    have "rs_generation s1 = rs_generation s"
      using step(4) row_step_generation [OF step(5)] unfolding gen by (elim disjE) (metis steps_differ)+
    with step(3) gen row_step_quiet [OF step(5)] show ?thesis by simp
  qed
  then have "fzn_revocation_covers (Some s') (Some x) (Some y) (Some z) = fzn_revocation_covers (Some s) (Some x) (Some y) (Some z)"
    "fzn_revocation_known (Some s') (Some x) (Some y) (Some z) = fzn_revocation_known (Some s) (Some x) (Some y) (Some z)"
    for x y z using covers_live [OF inv] covers_live [OF assms(1)] known_triple [OF inv] known_triple [OF assms(1)] same_answers [OF same] by simp_all
  moreover have "\<not> fzn_revocation_covers (Some t) i c g \<and> \<not> fzn_revocation_known (Some t) i c g" if "store_inv t" "i = None \<or> c = None \<or> g = None" for t
    using store_inv_sound [OF that(1)] that(2) by (auto simp: fzn_revocation_covers_def fzn_revocation_known_def split: option.splits)
  ultimately show ?thesis using inv assms(1) same by (cases i; cases c; cases g) simp_all
qed

text \<open>A revocation and a reissue that supersedes it: taken, with a new identity and epoch, and the generation stands.\<close>

definition once_revoked :: fzn_revocation_store where
  "once_revoked = fst (snd (fzn_revocation_admit (fresh_store 2) (fzn_revocation_offer_root (Some (demo_revocation 1 20 0 None)))
     (Some (replicate 32 1)) demo_sign (Some demo_hash) None))"

definition reissue_offer :: fzn_revocation_offer where
  "reissue_offer = fzn_revocation_offer_root (Some (demo_revocation 1 21 6 (Some (replicate 32 20))))"

theorem quiet_admit_keeps_answers_witness:
  "\<exists>s'. fzn_revocation_admit once_revoked reissue_offer (Some (replicate 32 1)) demo_sign (Some demo_hash) None = (FZN_CHAIN_OK, s', None) \<and>
     fzn_revocation_lookup (Some s') (Some (replicate 32 1)) (Some (replicate 32 3)) (Some (replicate 32 4)) \<noteq>
       fzn_revocation_lookup (Some once_revoked) (Some (replicate 32 1)) (Some (replicate 32 3)) (Some (replicate 32 4)) \<and>
     fzn_revocation_covers (Some once_revoked) (Some (replicate 32 1)) (Some (replicate 32 3)) (Some (replicate 32 4)) \<and>
     fzn_revocation_covers (Some s') (Some (replicate 32 1)) (Some (replicate 32 3)) (Some (replicate 32 4))"
proof -
  let ?a = "fzn_revocation_admit once_revoked reissue_offer (Some (replicate 32 1)) demo_sign (Some demo_hash) None"
  have inv: "store_inv once_revoked"
    unfolding once_revoked_def using admit_keeps [OF store_inv_fresh [of 2]] by (simp add: keeps_def)
  have taken: "fst ?a = FZN_CHAIN_OK \<and> snd (snd ?a) = None" by code_simp
  have gen: "fzn_revocation_generation (Some (fst (snd ?a))) = fzn_revocation_generation (Some once_revoked)" by code_simp
  have moved: "fzn_revocation_lookup (Some (fst (snd ?a))) (Some (replicate 32 1)) (Some (replicate 32 3)) (Some (replicate 32 4)) \<noteq>
       fzn_revocation_lookup (Some once_revoked) (Some (replicate 32 1)) (Some (replicate 32 3)) (Some (replicate 32 4))" by code_simp
  have covered: "fzn_revocation_covers (Some once_revoked) (Some (replicate 32 1)) (Some (replicate 32 3)) (Some (replicate 32 4))" by code_simp
  have a: "?a = (FZN_CHAIN_OK, fst (snd ?a), None)" using taken by (metis prod.collapse)
  show ?thesis using a moved covered quiet_admit_keeps_answers [OF inv a gen] by blast
qed

section \<open>Orders of arrival\<close>

lemma root_offer_reaches:
  assumes "store_inv s" and "so_verify sign = Some verify" and "fzn_revocation_issuer r = root"
    and "verify root (fzn_revocation_signed_bytes r) (fzn_revocation_signature r)"
    and "hsh (take FZN_REVOCATION_LEN r) = Some rid"
  shows "reaches_rows s (fzn_revocation_offer_root (Some r)) (Some root) sign (Some hsh) r rid s"
  using assms used_le [OF assms(1)]
  by (simp add: reaches_rows_def fzn_revocation_offer_root_def offered_hops_def entitled_def store_inv_def)

lemma admit_root_offer:
  assumes "store_inv s" and "so_verify sign = Some verify" and "fzn_revocation_issuer r = root"
    and "verify root (fzn_revocation_signed_bytes r) (fzn_revocation_signature r)"
    and "hsh (take FZN_REVOCATION_LEN r) = Some rid"
  shows "fst (snd (fzn_revocation_admit s (fzn_revocation_offer_root (Some r)) (Some root) sign (Some hsh) m)) =
    (if fzn_revocation_is_withdrawal r then snd (take_withdrawal s r rid (record_at s r))
     else fst (snd (take_revocation s r rid (record_at s r) m)))"
  using admit_rows [OF root_offer_reaches [where hsh = hsh, OF assms], of m] by simp

lemma record_at_last:
  assumes "store_inv s" and "entries_of s = rows @ [row]" and "triple row = record_triple r"
  shows "record_at s r < rs_used s" and "the (rs_entries s) ! record_at s r = row" and "record_at s r = length rows"
proof -
  have t: "triple row = (fzn_revocation_issuer r, fzn_revocation_capability r, fzn_revocation_grantee r)"
    using assms(3) by (simp add: record_triple_def)
  have "row \<in> set (entries_of s)" using assms(2) by simp
  from triple_row [OF assms(1) this t] show "record_at s r < rs_used s" "the (rs_entries s) ! record_at s r = row" .
  have "distinct (map triple (entries_of s))" using assms(1) by (simp add: store_inv_def)
  then show "record_at s r = length rows"
    unfolding find_entry_triple using entry_rows.find_unique [where xs = "entries_of s" and k = "record_triple r" and i = "length rows"]
      assms(2,3) by (simp add: record_triple_def)
qed

text \<open>What a record does to a store that has no row for its triple.\<close>

lemma first_record:
  assumes "store_inv s" and "rs_used s < rs_capacity s" and "record_triple r \<notin> triple ` set (entries_of s)"
  shows "snd (take_withdrawal s r rid (record_at s r)) = append_row (tombstone r rid) s"
    and "fst (snd (take_revocation s r rid (record_at s r) m)) = append_row (live_row r rid) s"
    and "store_inv (append_row (tombstone r rid) s)" and "store_inv (append_row (live_row r rid) s)"
    and "entries_of (append_row (tombstone r rid) s) = entries_of s @ [tombstone r rid]"
    and "entries_of (append_row (live_row r rid) s) = entries_of s @ [live_row r rid]"
proof -
  have at: "record_at s r = rs_used s" using find_record(3) [OF assms(1,3)] .
  show "snd (take_withdrawal s r rid (record_at s r)) = append_row (tombstone r rid) s"
    "fst (snd (take_revocation s r rid (record_at s r) m)) = append_row (live_row r rid) s"
    using assms(2) by (simp_all add: at take_withdrawal_def take_revocation_def)
  have "triple (tombstone r rid) = record_triple r" "triple (live_row r rid) = record_triple r"
    by (simp_all add: triple_def record_triple_def tombstone_def live_row_def)
  then show "store_inv (append_row (tombstone r rid) s)" "store_inv (append_row (live_row r rid) s)"
    "entries_of (append_row (tombstone r rid) s) = entries_of s @ [tombstone r rid]"
    "entries_of (append_row (live_row r rid) s) = entries_of s @ [live_row r rid]"
    using append_row_rows [OF assms(1,2)] assms(3) by simp_all
qed

definition root_offers :: "key \<Rightarrow> fzn_sign_ops \<Rightarrow> fzn_hash_ops \<Rightarrow> fzn_manifest_state option \<Rightarrow> bytes \<Rightarrow> fzn_revocation_store \<Rightarrow>
    fzn_revocation_store" where
  "root_offers root sign hsh m record s =
     fst (snd (fzn_revocation_admit s (fzn_revocation_offer_root (Some record)) (Some root) sign (Some hsh) m))"

text \<open>
  A revocation and its withdrawal meet in either order. Whether the withdrawal follows the
  revocation or overtakes it, the store ends with one new row for the triple, withdrawn, under the
  same identity and epoch; only the cut, which a tombstone never learns, may differ.
\<close>

theorem withdrawal_may_overtake:
  assumes "store_inv s" and "rs_used s < rs_capacity s" and "record_triple r \<notin> triple ` set (entries_of s)"
    and "so_verify sign = Some verify" and "fzn_revocation_issuer r = root"
    and "verify root (fzn_revocation_signed_bytes r) (fzn_revocation_signature r)"
    and "verify root (fzn_revocation_signed_bytes w) (fzn_revocation_signature w)"
    and "hsh (take FZN_REVOCATION_LEN r) = Some rid" and "hsh (take FZN_REVOCATION_LEN w) = Some wid"
    and "\<not> fzn_revocation_is_withdrawal r" and "fzn_revocation_is_withdrawal w"
    and "record_triple w = record_triple r" and "fzn_revocation_supersedes w = rid" and "fzn_revocation_epoch w = fzn_revocation_epoch r"
  shows "\<exists>row. rv_withdrawn row \<and> triple row = record_triple r \<and> rv_id row = rid \<and> rv_held row = wid \<and>
    entries_of (root_offers root sign hsh m w (root_offers root sign hsh m r s)) = entries_of s @ [row] \<and>
    entries_of (root_offers root sign hsh m r (root_offers root sign hsh m w s)) = entries_of s @ [row\<lparr>rv_cut := zero_id\<rparr>]"
proof -
  let ?in = "root_offers root sign hsh m"
  note first = first_record [OF assms(1-3)]
  have iss: "fzn_revocation_issuer w = root" using assms(5,12) by (simp add: record_triple_def)
  have new: "record_triple w \<notin> triple ` set (entries_of s)" using assms(3,12) by simp
  note firstw = first_record [OF assms(1,2) new]
  have r: "?in r t = fst (snd (take_revocation t r rid (record_at t r) m))" if "store_inv t" for t
    using admit_root_offer [where hsh = hsh, OF that assms(4) _ _ assms(8)] assms(5,6,10) by (simp add: root_offers_def)
  have w: "?in w t = snd (take_withdrawal t w wid (record_at t w))" if "store_inv t" for t
    using admit_root_offer [where hsh = hsh, OF that assms(4) _ _ assms(9)] iss assms(7,11) by (simp add: root_offers_def)
  have live: "triple (live_row r rid) = record_triple w" using assms(12) by (simp add: live_row_def triple_def record_triple_def)
  have dead: "triple (tombstone w wid) = record_triple r" using assms(12) by (simp add: tombstone_def triple_def record_triple_def)
  let ?row = "(live_row r rid)\<lparr>rv_held := wid, rv_withdrawn := True\<rparr>"
  have rs: "?in r s = append_row (live_row r rid) s" using r [OF assms(1)] first(2) by simp
  have ws: "?in w s = append_row (tombstone w wid) s" using w [OF assms(1)] firstw(1) by simp
  note at = record_at_last [OF first(4,6) live] and atw = record_at_last [OF firstw(3,5) dead]
  have "?in w (?in r s) = bump (set_row (record_at (?in r s) w) ?row (?in r s))"
    using w [OF first(4)] at assms(13,14) by (simp add: rs take_withdrawal_def live_row_def)
  moreover have "entries_of (set_row (record_at (?in r s) w) ?row (?in r s)) = entries_of s @ [?row]"
    using set_row_rows(1) [OF first(4) at(1), of ?row] at(3) first(6) live
    by (simp add: rs triple_def live_row_def record_triple_def)
  ultimately have one: "entries_of (?in w (?in r s)) = entries_of s @ [?row]" by simp
  have "?in r (?in w s) = ?in w s"
    using r [OF firstw(3)] atw assms(13) by (simp add: ws take_revocation_def tombstone_def)
  moreover have "tombstone w wid = ?row\<lparr>rv_cut := zero_id\<rparr>"
    using assms(12-14) by (simp add: tombstone_def live_row_def record_triple_def)
  ultimately have two: "entries_of (?in r (?in w s)) = entries_of s @ [?row\<lparr>rv_cut := zero_id\<rparr>]"
    using firstw(5) [of wid] by (simp only: ws)
  show ?thesis by (intro exI [of _ ?row] conjI one two) (simp_all add: live_row_def triple_def record_triple_def)
qed

theorem withdrawal_may_overtake_witness:
  "\<exists>row. rv_withdrawn row \<and> rv_id row = replicate 32 20 \<and>
    entries_of (root_offers (replicate 32 1) demo_sign demo_hash None (demo_revocation 1 60 5 (Some (replicate 32 20)))
      (root_offers (replicate 32 1) demo_sign demo_hash None (demo_revocation 1 20 5 None) (fresh_store 2))) = [row]"
proof -
  let ?r = "demo_revocation 1 20 5 None" and ?w = "demo_revocation 1 60 5 (Some (replicate 32 20))"
  have s: "entries_of (fresh_store 2) = []" "rs_used (fresh_store 2) < rs_capacity (fresh_store 2)"
    by (simp_all add: entries_of_def fresh_store_def fzn_revocation_store_init_def)
  have fields: "fzn_revocation_issuer ?r = replicate 32 1" "fzn_revocation_signature ?r = replicate 64 5"
    "fzn_revocation_signature ?w = replicate 64 5" "demo_hash (take FZN_REVOCATION_LEN ?r) = Some (replicate 32 20)"
    "demo_hash (take FZN_REVOCATION_LEN ?w) = Some (replicate 32 60)" "\<not> fzn_revocation_is_withdrawal ?r"
    "fzn_revocation_is_withdrawal ?w" "record_triple ?w = record_triple ?r" "fzn_revocation_supersedes ?w = replicate 32 20"
    "fzn_revocation_epoch ?w = fzn_revocation_epoch ?r" by code_simp+
  have "so_verify demo_sign = Some (\<lambda>k m sig. sig = replicate 64 5)" by (simp add: demo_sign_def)
  from withdrawal_may_overtake [OF store_inv_fresh s(2) _ this fields(1) fields(2,3) fields(4-10), of None] s(1)
  show ?thesis by auto
qed

section \<open>A withdrawal and the deficit\<close>

lemma lookup_row:
  assumes "store_inv s" and "e \<in> set (entries_of s)" and "triple e = (i, c, g)"
  shows "fzn_revocation_lookup (Some s) (Some i) (Some c) (Some g) = Some (rv_id e, rv_withdrawn e)"
  using triple_row [OF assms] store_inv_sound [OF assms(1)] assms(1)
  by (auto simp: fzn_revocation_lookup_def store_inv_def Let_def)

lemma withdrawal_taken:
  assumes "store_inv s" and "take_withdrawal s w wid (record_at s w) = (FZN_CHAIN_OK, s')"
  shows "\<exists>e \<in> set (entries_of s'). triple e = record_triple w \<and> rv_withdrawn e \<and> rv_id e = fzn_revocation_supersedes w"
proof (cases "record_at s w < rs_used s")
  case True
  let ?e = "entries_of s ! record_at s w"
  let ?row = "?e\<lparr>rv_held := wid, rv_withdrawn := True\<rparr>"
  have e: "triple ?e = record_triple w" using find_record(1) [OF assms(1) True] .
  have "rv_id ?e = fzn_revocation_supersedes w" and
    "s' = bump (set_row (record_at s w) ?row s) \<or> s' = set_row (record_at s w) (?e\<lparr>rv_held := wid\<rparr>) s \<and> rv_withdrawn ?e"
    using True assms(2) entries_nth [OF assms(1) True] by (auto simp: take_withdrawal_def Let_def split: if_splits)
  moreover have "triple ?row = triple ?e" "triple (?e\<lparr>rv_held := wid\<rparr>) = triple ?e" by (simp_all add: triple_def)
  moreover have "record_at s w < length (entries_of s)" using True length_entries [OF assms(1)] by simp
  note set_update_memI [OF this]
  ultimately show ?thesis
    using set_row_rows(1) [OF assms(1) True, of ?row] set_row_rows(1) [OF assms(1) True, of "?e\<lparr>rv_held := wid\<rparr>"] e by auto
next
  case False
  then have at: "record_at s w = rs_used s" and new: "record_triple w \<notin> triple ` set (entries_of s)"
    using find_record(2) [OF assms(1)] by auto
  with assms(2) have "rs_used s < rs_capacity s" by (simp add: take_withdrawal_def split: if_splits)
  from first_record(1,5) [OF assms(1) this new, of wid] assms(2) show ?thesis
    by (auto simp: tombstone_def triple_def record_triple_def)
qed

text \<open>
  A withdrawal that is taken does not drain the deficit. After it the host holds what the
  manifest listed, so the manifest would not put the pair on the list again, but the pair the
  manifest put there stays, whatever manifests follow, and the issuer stays pending.
\<close>

theorem withdrawal_leaves_deficit:
  assumes "store_inv s" and "manifest_inv m" and "of_record offer = Some w" and "fzn_revocation_is_withdrawal w"
    and "fzn_revocation_admit s offer root sign hash (Some m) = (FZN_CHAIN_OK, s', m')"
    and "want rec i \<in> set (missing m)" and "fzn_manifest_id rec i = fzn_revocation_supersedes w"
    and "record_triple w = (fzn_manifest_issuer rec, fzn_manifest_capability rec i, fzn_manifest_grantee rec i)"
  shows "ahead (Some s') rec i \<and> m' = Some m \<and> 0 < fzn_manifest_pending m' (Some (fzn_manifest_issuer rec)) \<and>
    want rec i \<in> set (missing (snd (fzn_manifest_admit m (Some s') later sign')))"
proof -
  have "\<exists>r rid s1. reaches_rows s offer root sign hash r rid s1" using admit_stops [OF assms(1) _ assms(5)] by blast
  then obtain rid s1 where reach: "reaches_rows s offer root sign hash w rid s1" using assms(3) by (auto simp: reaches_rows_def)
  then have inv1: "store_inv s1" using entitled_rows [OF assms(1)] by (auto simp: reaches_rows_def)
  have t: "take_withdrawal s1 w rid (record_at s1 w) = (FZN_CHAIN_OK, s')" and m': "m' = Some m"
    using admit_rows [OF reach, of "Some m"] assms(4,5) by (auto simp: prod_eq_iff)
  have inv: "store_inv s'" using admit_keeps [OF assms(1), of offer root sign hash "Some m"] assms(5) by (simp add: keeps_def)
  obtain e where e: "e \<in> set (entries_of s')" "triple e = record_triple w" "rv_withdrawn e" "rv_id e = fzn_revocation_supersedes w"
    using withdrawal_taken [OF inv1 t] by blast
  have "ahead (Some s') rec i"
    using lookup_row [OF inv e(1)] e(2-4) assms(7,8) by (simp add: ahead_def)
  moreover have "want rec i \<in> set (filter (\<lambda>d. md_issuer d = fzn_manifest_issuer rec) (missing m))"
    using assms(6) by (simp add: want_def)
  from length_pos_if_in_set [OF this] have "0 < fzn_manifest_pending (Some m) (Some (fzn_manifest_issuer rec))"
    using tables_sound [OF conjunct1 [OF assms(2) [unfolded manifest_inv_def]]] by (auto simp: fzn_manifest_pending_def)
  ultimately show ?thesis using m' admit_missing_mono [OF assms(2), of "Some s'" later sign'] assms(6) by auto
qed

definition demo_row :: fzn_revocation where
  "demo_row = \<lparr>rv_capability = replicate 32 3, rv_grantee = replicate 32 4, rv_issuer = replicate 32 1, rv_id = replicate 32 20,
     rv_withdrawn = True, rv_epoch = 5, rv_held = replicate 32 60, rv_cut = zero_id\<rparr>"

definition demo_listing :: bytes where
  "demo_listing = manifest_write (replicate 32 1) [candidate demo_row] @ replicate 64 5"

definition demo_behind :: fzn_manifest_state where
  "demo_behind = demo_state\<lparr>ms_issuers := Some [\<lparr>mi_issuer = replicate 32 1, mi_pairs_seen = 1, mi_overflowed = False\<rparr>],
     ms_issuer_used := 1, ms_deficit := Some [\<lparr>md_issuer = replicate 32 1, md_capability = replicate 32 3, md_grantee = replicate 32 4\<rparr>],
     ms_deficit_capacity := 1, ms_deficit_used := 1\<rparr>"

theorem withdrawal_leaves_deficit_witness:
  "ahead (Some (root_offers (replicate 32 1) demo_sign demo_hash (Some demo_behind) (demo_revocation 1 60 5 (Some (replicate 32 20)))
      (fresh_store 2))) demo_listing 0 \<and>
   0 < fzn_manifest_pending (Some demo_behind) (Some (replicate 32 1))"
proof -
  let ?w = "demo_revocation 1 60 5 (Some (replicate 32 20))"
  let ?a = "fzn_revocation_admit (fresh_store 2) (fzn_revocation_offer_root (Some ?w)) (Some (replicate 32 1)) demo_sign
    (Some demo_hash) (Some demo_behind)"
  have "fst ?a = FZN_CHAIN_OK" by code_simp
  then have a: "?a = (FZN_CHAIN_OK, fst (snd ?a), snd (snd ?a))" by (simp add: prod_eq_iff)
  have listing: "fzn_manifest_issuer demo_listing = replicate 32 1" "fzn_manifest_capability demo_listing 0 = replicate 32 3"
    "fzn_manifest_grantee demo_listing 0 = replicate 32 4" "fzn_manifest_id demo_listing 0 = replicate 32 20" by code_simp+
  have w: "fzn_revocation_is_withdrawal ?w" "fzn_revocation_supersedes ?w = replicate 32 20"
    "record_triple ?w = (replicate 32 1, replicate 32 3, replicate 32 4)" by code_simp+
  have inv: "manifest_inv demo_behind"
    by (simp add: demo_behind_def demo_state_def manifest_inv_def tables_wf_def followed_def missing_def)
  have wanted: "want demo_listing 0 \<in> set (missing demo_behind)"
    by (simp add: want_def missing_def demo_behind_def listing)
  have rec: "of_record (fzn_revocation_offer_root (Some ?w)) = Some ?w" by (simp add: fzn_revocation_offer_root_def)
  have "fzn_manifest_id demo_listing 0 = fzn_revocation_supersedes ?w" "record_triple ?w =
      (fzn_manifest_issuer demo_listing, fzn_manifest_capability demo_listing 0, fzn_manifest_grantee demo_listing 0)"
    by (simp_all only: listing w)
  from withdrawal_leaves_deficit [OF store_inv_fresh inv rec w(1) a wanted this, of None demo_sign] listing(1)
  show ?thesis unfolding root_offers_def by (metis zero_less_numeral)
qed

end
