(* ===== verification/Memo.thy ===== *)
theory Memo
  imports Revocation_Admit
begin

text \<open>
  Remembered chain verdicts (\<open>chain/memo.c\<close>) and the decision about a request
  (\<open>chain/authz.c\<close>). A memo keeps verdicts under the generation of the revocation store they were
  reached at. What it allows is compared with what \<open>fzn_chain_verify\<close> would say.
\<close>

section \<open>The memo\<close>

record fzn_chain_memo_entry =
  me_root :: key
  me_grantee :: key
  me_capability :: cap_id
  me_generation :: u64
  me_expires_at :: u64

record fzn_chain_memo =
  mo_entries :: "fzn_chain_memo_entry list"
  mo_capacity :: nat
  mo_cursor :: nat
  mo_hits :: nat
  mo_misses :: nat

definition zero_entry :: fzn_chain_memo_entry where
  "zero_entry = \<lparr>me_root = replicate FZN_PUBKEY_LEN 0, me_grantee = replicate FZN_PUBKEY_LEN 0,
     me_capability = replicate FZN_CAP_ID_LEN 0, me_generation = 0, me_expires_at = 0\<rparr>"

definition fzn_chain_memo_init :: "fzn_chain_memo_entry list option \<Rightarrow> nat \<Rightarrow> fzn_chain_err \<times> fzn_chain_memo option" where
  "fzn_chain_memo_init entries capacity =
     (if capacity > 0 \<and> entries = None then (FZN_CHAIN_ERR_MALFORMED, None)
      else (FZN_CHAIN_OK, Some \<lparr>mo_entries = replicate capacity zero_entry @
              (case entries of Some es \<Rightarrow> drop capacity es | None \<Rightarrow> []),
            mo_capacity = capacity, mo_cursor = 0, mo_hits = 0, mo_misses = 0\<rparr>))"

definition same_triple :: "fzn_chain_memo_entry \<Rightarrow> key \<Rightarrow> key \<Rightarrow> cap_id \<Rightarrow> bool" where
  "same_triple e root grantee capability \<longleftrightarrow>
     me_root e = root \<and> me_grantee e = grantee \<and> me_capability e = capability"

definition fzn_chain_memo_allows :: "fzn_chain_memo \<Rightarrow> key option \<Rightarrow> key option \<Rightarrow> cap_id option \<Rightarrow> u64 \<Rightarrow> u64 \<Rightarrow>
    bool \<times> fzn_chain_memo" where
  "fzn_chain_memo_allows memo root grantee capability generation now =
     (case (root, grantee, capability) of
        (Some rt, Some ge, Some cap) \<Rightarrow>
          if generation = 0 then (False, memo\<lparr>mo_misses := Suc (mo_misses memo)\<rparr>)
          else if list_ex (\<lambda>e. \<not> (me_generation e = 0 \<or> me_generation e \<noteq> generation) \<and> same_triple e rt ge cap \<and>
                  \<not> (me_expires_at e \<noteq> FZN_NO_EXPIRY \<and> now \<ge> me_expires_at e)) (take (mo_capacity memo) (mo_entries memo))
          then (True, memo\<lparr>mo_hits := Suc (mo_hits memo)\<rparr>)
          else (False, memo\<lparr>mo_misses := Suc (mo_misses memo)\<rparr>)
      | _ \<Rightarrow> (False, memo))"

text \<open>The slot a verdict goes to: its own, else the first one that is free or stale, else none.\<close>

fun memo_slot :: "fzn_chain \<Rightarrow> u64 \<Rightarrow> nat \<Rightarrow> nat \<Rightarrow> nat \<Rightarrow> fzn_chain_memo_entry list \<Rightarrow> nat" where
  "memo_slot verdict generation capacity i slot [] = slot"
| "memo_slot verdict generation capacity i slot (e # es) =
     (if same_triple e (ch_root verdict) (ch_grantee verdict) (ch_capability verdict) then i
      else memo_slot verdict generation capacity (Suc i)
        (if slot = capacity \<and> (me_generation e = 0 \<or> me_generation e \<noteq> generation) then i else slot) es)"

definition fzn_chain_memo_record :: "fzn_chain_memo \<Rightarrow> fzn_chain option \<Rightarrow> u64 \<Rightarrow> fzn_chain_err \<times> fzn_chain_memo" where
  "fzn_chain_memo_record memo verdict generation =
     (case verdict of None \<Rightarrow> (FZN_CHAIN_ERR_MALFORMED, memo)
      | Some v \<Rightarrow>
        if generation = 0 then (FZN_CHAIN_ERR_MALFORMED, memo)
        else if mo_capacity memo = 0 then (FZN_CHAIN_OK, memo)
        else let found = memo_slot v generation (mo_capacity memo) 0 (mo_capacity memo) (take (mo_capacity memo) (mo_entries memo));
                 (slot, cursor) = (if found = mo_capacity memo then (mo_cursor memo, (mo_cursor memo + 1) mod mo_capacity memo)
                                   else (found, mo_cursor memo))
             in (FZN_CHAIN_OK, memo\<lparr>mo_entries := (mo_entries memo)[slot := \<lparr>me_root = ch_root v, me_grantee = ch_grantee v,
                    me_capability = ch_capability v, me_generation = generation, me_expires_at = ch_expires_at v\<rparr>],
                  mo_cursor := cursor\<rparr>))"

definition fzn_chain_memo_live :: "fzn_chain_memo option \<Rightarrow> u64 \<Rightarrow> nat" where
  "fzn_chain_memo_live memo generation =
     (case memo of None \<Rightarrow> 0
      | Some m \<Rightarrow> if generation = 0 then 0
        else length (filter (\<lambda>e. me_generation e = generation) (take (mo_capacity m) (mo_entries m))))"

section \<open>The decision\<close>

datatype fzn_authz_verdict = FZN_AUTHZ_DENIED | FZN_AUTHZ_GRANTED_BY_CHAIN | FZN_AUTHZ_GRANTED_UNGUARDED

datatype fzn_origin = FZN_ORIGIN_NONE | FZN_ORIGIN_SAME_USER | FZN_ORIGIN_LOCAL | FZN_ORIGIN_REMOTE

primrec origin_number :: "fzn_origin \<Rightarrow> nat" where
  "origin_number FZN_ORIGIN_NONE = 0"
| "origin_number FZN_ORIGIN_SAME_USER = 1"
| "origin_number FZN_ORIGIN_LOCAL = 2"
| "origin_number FZN_ORIGIN_REMOTE = 3"

definition FZN_ORIGIN_BIT :: "fzn_origin \<Rightarrow> u32" where
  "FZN_ORIGIN_BIT origin = push_bit (origin_number origin) 1"

definition FZN_ORIGIN_ANY :: u32 where
  "FZN_ORIGIN_ANY = FZN_ORIGIN_BIT FZN_ORIGIN_SAME_USER OR FZN_ORIGIN_BIT FZN_ORIGIN_LOCAL OR FZN_ORIGIN_BIT FZN_ORIGIN_REMOTE"

record fzn_authz_policy =
  po_spelled :: bool
  po_guarded :: bool
  po_origins :: u32
  po_capability :: cap_id

definition fzn_authz_requires :: "cap_id option \<Rightarrow> u32 \<Rightarrow> fzn_authz_policy" where
  "fzn_authz_requires capability origins =
     \<lparr>po_spelled = True, po_guarded = True, po_origins = origins,
      po_capability = (case capability of Some c \<Rightarrow> c | None \<Rightarrow> replicate FZN_CAP_ID_LEN 0)\<rparr>"

definition fzn_authz_unguarded :: "u32 \<Rightarrow> fzn_authz_policy" where
  "fzn_authz_unguarded origins =
     \<lparr>po_spelled = True, po_guarded = False, po_origins = origins, po_capability = replicate FZN_CAP_ID_LEN 0\<rparr>"

definition fzn_authz_origin_permitted :: "fzn_authz_policy \<Rightarrow> fzn_origin \<Rightarrow> bool" where
  "fzn_authz_origin_permitted policy origin =
     (if origin = FZN_ORIGIN_NONE then False else po_origins policy AND FZN_ORIGIN_BIT origin \<noteq> 0)"

definition fzn_authz_decide :: "fzn_authz_policy \<Rightarrow> fzn_origin \<Rightarrow> fzn_chain_hop list option \<Rightarrow> key option \<Rightarrow> u64 \<Rightarrow>
    fzn_sign_ops \<Rightarrow> fzn_revocation_store option \<Rightarrow> fzn_manifest_state option \<Rightarrow> fzn_authz_verdict" where
  "fzn_authz_decide policy origin hops root now sign revocations manifest =
     (if \<not> po_spelled policy then FZN_AUTHZ_DENIED
      else if \<not> fzn_authz_origin_permitted policy origin then FZN_AUTHZ_DENIED
      else if \<not> po_guarded policy then FZN_AUTHZ_GRANTED_UNGUARDED
      else if hops = None \<or> hops = Some [] then FZN_AUTHZ_DENIED
      else case fzn_chain_verify hops root (Some (po_capability policy)) now sign revocations manifest of
          Inl _ \<Rightarrow> FZN_AUTHZ_DENIED
        | Inr _ \<Rightarrow> FZN_AUTHZ_GRANTED_BY_CHAIN)"

definition fzn_authz_verdict_str :: "fzn_authz_verdict \<Rightarrow> string" where
  "fzn_authz_verdict_str verdict =
     (case verdict of FZN_AUTHZ_DENIED \<Rightarrow> ''denied''
      | FZN_AUTHZ_GRANTED_BY_CHAIN \<Rightarrow> ''granted by capability chain''
      | FZN_AUTHZ_GRANTED_UNGUARDED \<Rightarrow> ''granted: this kind requires no capability'')"

section \<open>What a hit means\<close>

definition memo_wf :: "fzn_chain_memo \<Rightarrow> bool" where
  "memo_wf m \<longleftrightarrow> mo_capacity m \<le> length (mo_entries m) \<and> (mo_capacity m > 0 \<longrightarrow> mo_cursor m < mo_capacity m)"

lemma memo_slot_bound:
  "memo_slot v g cap i slot es \<noteq> slot \<Longrightarrow> memo_slot v g cap i slot es < i + length es"
proof (induction es arbitrary: i slot)
  case (Cons e es)
  let ?s = "if slot = cap \<and> (me_generation e = 0 \<or> me_generation e \<noteq> g) then i else slot"
  show ?case
  proof (cases "same_triple e (ch_root v) (ch_grantee v) (ch_capability v)")
    case False
    then have eq: "memo_slot v g cap i slot (e # es) = memo_slot v g cap (Suc i) ?s es" by simp
    show ?thesis
    proof (cases "memo_slot v g cap (Suc i) ?s es = ?s")
      case True
      then show ?thesis using Cons.prems by (simp only: eq) (auto split: if_splits)
    next
      case False
      then show ?thesis using Cons.IH [of "Suc i" ?s] by (simp only: eq) simp
    qed
  qed simp
qed simp

definition noted :: "fzn_chain \<Rightarrow> u64 \<Rightarrow> fzn_chain_memo_entry" where
  "noted v g = \<lparr>me_root = ch_root v, me_grantee = ch_grantee v, me_capability = ch_capability v, me_generation = g,
     me_expires_at = ch_expires_at v\<rparr>"

lemma record_cases:
  assumes "memo_wf m"
  obtains (same) "snd (fzn_chain_memo_record m verdict g) = m" "verdict = None \<or> g = 0 \<or> mo_capacity m = 0"
  | (stored) v slot where "verdict = Some v" "g \<noteq> 0" "slot < mo_capacity m"
      "mo_entries (snd (fzn_chain_memo_record m verdict g)) = (mo_entries m)[slot := noted v g]"
      "mo_capacity (snd (fzn_chain_memo_record m verdict g)) = mo_capacity m"
      "memo_wf (snd (fzn_chain_memo_record m verdict g))"
proof (cases "verdict = None \<or> g = 0 \<or> mo_capacity m = 0")
  case True
  then show thesis by (intro same) (auto simp: fzn_chain_memo_record_def split: option.splits)
next
  case False
  then obtain v where v: "verdict = Some v" "g \<noteq> 0" "0 < mo_capacity m" by auto
  let ?f = "memo_slot v g (mo_capacity m) 0 (mo_capacity m) (take (mo_capacity m) (mo_entries m))"
  have f: "?f \<noteq> mo_capacity m \<Longrightarrow> ?f < mo_capacity m"
    using memo_slot_bound [of v g "mo_capacity m" 0 "mo_capacity m" "take (mo_capacity m) (mo_entries m)"] assms
    by (simp add: memo_wf_def)
  let ?slot = "if ?f = mo_capacity m then mo_cursor m else ?f"
  show thesis
    using v f assms by (intro stored [of v ?slot]) (auto simp: fzn_chain_memo_record_def noted_def memo_wf_def Let_def)
qed

text \<open>A memo in use: verdicts are recorded, questions are asked.\<close>

datatype memo_event = Record "fzn_chain option" u64
  | Ask "key option" "key option" "cap_id option" u64 u64

primrec memo_step :: "fzn_chain_memo \<Rightarrow> memo_event \<Rightarrow> bool \<times> fzn_chain_memo" where
  "memo_step m (Record v g) = (let (err, m') = fzn_chain_memo_record m v g in (err = FZN_CHAIN_OK, m'))"
| "memo_step m (Ask root grantee capability g now) = fzn_chain_memo_allows m root grantee capability g now"

definition memo_knows :: "(fzn_chain \<times> u64) set \<Rightarrow> fzn_chain_memo \<Rightarrow> bool" where
  "memo_knows H m \<longleftrightarrow> memo_wf m \<and>
     (\<forall>e \<in> set (take (mo_capacity m) (mo_entries m)). me_generation e = 0 \<or> (\<exists>(v, g) \<in> H. e = noted v g))"

lemma allows_keeps [simp]:
  "mo_entries (snd (fzn_chain_memo_allows m rt ge cap g now)) = mo_entries m"
  "mo_capacity (snd (fzn_chain_memo_allows m rt ge cap g now)) = mo_capacity m"
  "mo_cursor (snd (fzn_chain_memo_allows m rt ge cap g now)) = mo_cursor m"
  by (auto simp: fzn_chain_memo_allows_def split: option.splits)

definition told :: "memo_event list \<Rightarrow> (fzn_chain \<times> u64) set" where
  "told evs = {(v, g). Record (Some v) g \<in> set evs \<and> g \<noteq> 0}"

lemma memo_step_knows:
  assumes "memo_knows H m"
  shows "memo_knows (H \<union> told [ev]) (snd (memo_step m ev))"
proof (cases ev)
  case (Ask root grantee capability g now)
  then show ?thesis using assms by (auto simp: memo_knows_def memo_wf_def)
next
  case (Record verdict g)
  have wf: "memo_wf m" using assms by (simp add: memo_knows_def)
  then show ?thesis
  proof (cases rule: record_cases [of m verdict g])
    case same
    then show ?thesis using assms Record by (auto simp: memo_knows_def split_beta)
  next
    case (stored v slot)
    let ?m = "snd (fzn_chain_memo_record m verdict g)"
    have "set (take (mo_capacity m) ((mo_entries m)[slot := noted v g])) \<subseteq>
        insert (noted v g) (set (take (mo_capacity m) (mo_entries m)))"
      using set_update_subset_insert [of "take (mo_capacity m) (mo_entries m)" slot "noted v g"] by (simp add: take_update_swap)
    moreover have "(v, g) \<in> told [ev]" using stored(1,2) Record by (simp add: told_def)
    ultimately have "me_generation e = 0 \<or> (\<exists>(v, g) \<in> H \<union> told [ev]. e = noted v g)"
      if "e \<in> set (take (mo_capacity m) ((mo_entries m)[slot := noted v g]))" for e
      using assms that unfolding memo_knows_def by blast
    then show ?thesis using stored(4-6) Record by (simp add: memo_knows_def split_beta)
  qed
qed

lemma memo_run_knows:
  "memo_knows H m \<Longrightarrow> memo_knows (H \<union> told evs) (final memo_step m evs)"
proof (induction evs arbitrary: H m)
  case (Cons ev evs)
  have "told (ev # evs) = told [ev] \<union> told evs" by (auto simp: told_def)
  with Cons.IH [OF memo_step_knows [OF Cons.prems, of ev]] show ?case by (simp add: split_beta Un_assoc)
qed (simp add: told_def)

lemma memo_run_capacity: "mo_capacity (final memo_step m evs) = mo_capacity m"
proof (induction evs arbitrary: m)
  case (Cons ev evs)
  have "mo_capacity (snd (memo_step m ev)) = mo_capacity m"
    by (cases ev) (auto simp: fzn_chain_memo_record_def split_beta Let_def split: option.splits)
  with Cons.IH show ?case by (simp add: split_beta)
qed simp

lemma memo_hit:
  assumes "memo_knows H m" and "fst (fzn_chain_memo_allows m (Some rt) (Some ge) (Some cap) g now)"
  shows "\<exists>v. (v, g) \<in> H \<and> g \<noteq> 0 \<and> ch_root v = rt \<and> ch_grantee v = ge \<and> ch_capability v = cap \<and> \<not> fzn_chain_expired_at (Some v) now"
proof -
  obtain e where e: "e \<in> set (take (mo_capacity m) (mo_entries m))" "me_generation e \<noteq> 0" "me_generation e = g"
      "same_triple e rt ge cap" "\<not> (me_expires_at e \<noteq> FZN_NO_EXPIRY \<and> now \<ge> me_expires_at e)"
    using assms(2) by (auto simp: fzn_chain_memo_allows_def list_ex_iff split: if_splits)
  then obtain v where "(v, g) \<in> H" "e = noted v g" using assms(1) by (fastforce simp: memo_knows_def noted_def)
  with e show ?thesis by (auto simp: noted_def same_triple_def fzn_chain_expired_at_def)
qed

lemma memo_init_knows:
  "fzn_chain_memo_init (Some es) (length es) = (FZN_CHAIN_OK, Some m) \<Longrightarrow> memo_knows {} m"
  by (auto simp: fzn_chain_memo_init_def memo_knows_def memo_wf_def zero_entry_def)

text \<open>
  C15. A memo answers yes only from a verdict it was told. From a fresh memo, after any sequence of
  records and questions, a yes for a root, a grantee and a capability under a generation means that
  exactly such a verdict was recorded under that generation and has not expired; and a verdict just
  recorded in a memo with room is answered until it expires.
\<close>

theorem memo_answers_verdicts:
  assumes "fzn_chain_memo_init (Some es) (length es) = (FZN_CHAIN_OK, Some m)"
  shows "(fst (fzn_chain_memo_allows (final memo_step m evs) (Some rt) (Some ge) (Some cap) g now) \<longrightarrow>
      (\<exists>v. Record (Some v) g \<in> set evs \<and> ch_root v = rt \<and> ch_grantee v = ge \<and> ch_capability v = cap \<and>
         \<not> fzn_chain_expired_at (Some v) now)) \<and>
    (es \<noteq> [] \<and> g \<noteq> 0 \<and> \<not> fzn_chain_expired_at (Some w) now \<longrightarrow>
      fst (fzn_chain_memo_allows (final memo_step m (evs @ [Record (Some w) g]))
        (Some (ch_root w)) (Some (ch_grantee w)) (Some (ch_capability w)) g now))"
proof -
  let ?m = "final memo_step m evs"
  have knows: "memo_knows (told evs) ?m" using memo_run_knows [OF memo_init_knows [OF assms], of evs] by simp
  have "\<exists>v. Record (Some v) g \<in> set evs \<and> ch_root v = rt \<and> ch_grantee v = ge \<and> ch_capability v = cap \<and>
      \<not> fzn_chain_expired_at (Some v) now"
    if hit: "fst (fzn_chain_memo_allows ?m (Some rt) (Some ge) (Some cap) g now)"
    using memo_hit [OF knows hit] by (auto simp: told_def)
  moreover have "fst (fzn_chain_memo_allows (final memo_step m (evs @ [Record (Some w) g]))
      (Some (ch_root w)) (Some (ch_grantee w)) (Some (ch_capability w)) g now)"
    if ok: "es \<noteq> []" "g \<noteq> 0" "\<not> fzn_chain_expired_at (Some w) now"
  proof -
    have room: "mo_capacity ?m \<noteq> 0"
      using assms ok(1) by (auto simp: memo_run_capacity fzn_chain_memo_init_def split: if_splits)
    have wf: "memo_wf ?m" using knows by (simp add: memo_knows_def)
    let ?m' = "snd (fzn_chain_memo_record ?m (Some w) g)"
    have m': "final memo_step m (evs @ [Record (Some w) g]) = ?m'" by (simp add: run_append split_beta)
    from wf show ?thesis
    proof (cases rule: record_cases [of ?m "Some w" g])
      case same
      then show ?thesis using room ok(2) by simp
    next
      case (stored v slot)
      have "noted v g \<in> set (take (mo_capacity ?m') (mo_entries ?m'))"
        using stored(3-5) wf by (simp add: memo_wf_def take_update_swap set_update_memI)
      then show ?thesis
        unfolding m' using stored(1) ok(2,3)
        by (auto simp: fzn_chain_memo_allows_def list_ex_iff same_triple_def noted_def fzn_chain_expired_at_def intro!: bexI)
    qed
  qed
  ultimately show ?thesis by blast
qed

theorem memo_answers_verdicts_witness:
  "fst (fzn_chain_memo_allows (final memo_step (the (snd (fzn_chain_memo_init (Some [zero_entry]) 1)))
     ([Ask None None None 1 5] @ [Record (Some \<lparr>ch_root = [1], ch_grantee = [2], ch_capability = [3], ch_hop_count = 1, ch_expires_at = 90\<rparr>) 4]))
     (Some [1]) (Some [2]) (Some [3]) 4 89)"
proof -
  have "fzn_chain_memo_init (Some [zero_entry]) (length [zero_entry]) =
    (FZN_CHAIN_OK, Some (the (snd (fzn_chain_memo_init (Some [zero_entry]) 1))))" by (simp add: fzn_chain_memo_init_def)
  from memo_answers_verdicts [OF this, of "[Ask None None None 1 5]" "[]" "[]" "[]" 4 89
      "\<lparr>ch_root = [1], ch_grantee = [2], ch_capability = [3], ch_hop_count = 1, ch_expires_at = 90\<rparr>"]
  show ?thesis by (simp add: fzn_chain_expired_at_def)
qed

section \<open>What is granted\<close>

text \<open>
  The decision never grants by omission. A policy that was not spelled out and an origin that was
  not observed deny, whatever else is presented; an unguarded grant comes only from a policy that says
  so; and a request to a guarded kind is granted exactly when its origin is one the policy names and
  its chain verifies for the capability the policy names. A policy reachable from anywhere is
  reachable from every observed origin, and one reachable from one origin from that one only.
\<close>

theorem authz_decides:
  "(fzn_authz_decide policy origin hops root now sign revs man = FZN_AUTHZ_GRANTED_UNGUARDED \<longleftrightarrow>
      po_spelled policy \<and> fzn_authz_origin_permitted policy origin \<and> \<not> po_guarded policy) \<and>
   (fzn_authz_decide policy origin hops root now sign revs man = FZN_AUTHZ_GRANTED_BY_CHAIN \<longleftrightarrow>
      po_spelled policy \<and> fzn_authz_origin_permitted policy origin \<and> po_guarded policy \<and>
      (\<exists>ch. fzn_chain_verify hops root (Some (po_capability policy)) now sign revs man = Inr ch)) \<and>
   fzn_authz_decide policy FZN_ORIGIN_NONE hops root now sign revs man = FZN_AUTHZ_DENIED \<and>
   (fzn_authz_origin_permitted (fzn_authz_requires cap FZN_ORIGIN_ANY) origin \<longleftrightarrow> origin \<noteq> FZN_ORIGIN_NONE) \<and>
   (fzn_authz_origin_permitted (fzn_authz_requires cap (FZN_ORIGIN_BIT one)) origin \<longleftrightarrow> origin \<noteq> FZN_ORIGIN_NONE \<and> origin = one)"
proof -
  have empty: "fzn_chain_verify hops root c now sign revs man \<noteq> Inr ch" if "hops = None \<or> hops = Some []" for c ch
    using that by (auto simp: fzn_chain_verify_def split: option.splits)
  have "fzn_authz_origin_permitted (fzn_authz_requires cap FZN_ORIGIN_ANY) origin \<longleftrightarrow> origin \<noteq> FZN_ORIGIN_NONE"
    by (cases origin) (simp_all add: fzn_authz_origin_permitted_def fzn_authz_requires_def FZN_ORIGIN_ANY_def FZN_ORIGIN_BIT_def)
  moreover have "fzn_authz_origin_permitted (fzn_authz_requires cap (FZN_ORIGIN_BIT one)) origin \<longleftrightarrow> origin \<noteq> FZN_ORIGIN_NONE \<and> origin = one"
    by (cases origin; cases one) (simp_all add: fzn_authz_origin_permitted_def fzn_authz_requires_def FZN_ORIGIN_BIT_def)
  ultimately show ?thesis
    using empty by (auto simp: fzn_authz_decide_def fzn_authz_origin_permitted_def [of _ FZN_ORIGIN_NONE] split: sum.splits)
qed

section \<open>A verdict that outlives its revocation\<close>

definition vote :: "u8 \<Rightarrow> bool \<Rightarrow> u64 \<Rightarrow> u8 \<Rightarrow> fzn_revocation" where
  "vote issuer withdrawn epoch rid = \<lparr>rv_capability = replicate 32 3, rv_grantee = replicate 32 4, rv_issuer = replicate 32 issuer,
     rv_id = replicate 32 rid, rv_withdrawn = withdrawn, rv_epoch = epoch, rv_held = replicate 32 rid, rv_cut = zero_id\<rparr>"

definition voted_store :: fzn_revocation_store where
  "voted_store = (fresh_store 2)\<lparr>rs_entries := Some [vote 1 True 5 11, vote 2 False 3 12], rs_used := 2\<rparr>"

definition second_hop :: bytes where
  "second_hop = hop_write \<lparr>hf_grantor = replicate 32 2, hf_grantee = replicate 32 4, hf_capability = replicate 32 3,
     hf_issued_at = 8, hf_expires_at = 90, hf_delegable = False\<rparr> @ replicate 64 5"

definition reissued :: "fzn_chain_err \<times> fzn_revocation_store \<times> fzn_manifest_state option" where
  "reissued = fzn_revocation_admit voted_store
     (fzn_revocation_offer_chain (Some (demo_revocation 2 20 6 (Some (replicate 32 12)))) (Some [Some demo_hop]) 1)
     (Some (replicate 32 1)) demo_sign (Some demo_hash) None"

definition granted :: fzn_chain where
  "granted = \<lparr>ch_root = replicate 32 1, ch_grantee = replicate 32 4, ch_capability = replicate 32 3, ch_hop_count = 2,
     ch_expires_at = 90\<rparr>"

text \<open>
  A reissue can change a verdict without moving the generation. The root withdrew in epoch 5 and
  the grantor of the second hop has a live revocation of it from epoch 3, which the withdrawal
  outdates: the chain verifies. The grantor reissues its revocation in epoch 6; the record is taken,
  the chain is revoked from then on, but the generation stands, and a memo that kept the verdict goes
  on allowing it.
\<close>

theorem reissue_outlives_memo:
  "fzn_chain_verify (Some [Some demo_hop, Some second_hop]) (Some (replicate 32 1)) (Some (replicate 32 3)) 10 demo_sign
     (Some voted_store) None = Inr granted \<and>
   fst reissued = FZN_CHAIN_OK \<and>
   fzn_chain_verify (Some [Some demo_hop, Some second_hop]) (Some (replicate 32 1)) (Some (replicate 32 3)) 10 demo_sign
     (Some (fst (snd reissued))) None = Inl FZN_CHAIN_ERR_REVOKED \<and>
   fst (fzn_chain_memo_allows
     (snd (fzn_chain_memo_record (the (snd (fzn_chain_memo_init (Some [zero_entry]) 1))) (Some granted)
        (fzn_revocation_generation (Some voted_store))))
     (Some (replicate 32 1)) (Some (replicate 32 4)) (Some (replicate 32 3))
     (fzn_revocation_generation (Some (fst (snd reissued)))) 10)"
proof -
  have "fzn_revocation_generation (Some (fst (snd reissued))) = 1" by code_simp
  moreover have "fzn_revocation_generation (Some voted_store) = 1" by code_simp
  moreover have "fst (fzn_chain_memo_allows
     (snd (fzn_chain_memo_record (the (snd (fzn_chain_memo_init (Some [zero_entry]) 1))) (Some granted) 1))
     (Some (replicate 32 1)) (Some (replicate 32 4)) (Some (replicate 32 3)) 1 10)" by code_simp
  moreover have "fzn_chain_verify (Some [Some demo_hop, Some second_hop]) (Some (replicate 32 1)) (Some (replicate 32 3)) 10 demo_sign
     (Some voted_store) None = Inr granted" by code_simp
  moreover have "fst reissued = FZN_CHAIN_OK" by code_simp
  moreover have "fzn_chain_verify (Some [Some demo_hop, Some second_hop]) (Some (replicate 32 1)) (Some (replicate 32 3)) 10 demo_sign
     (Some (fst (snd reissued))) None = Inl FZN_CHAIN_ERR_REVOKED" by code_simp
  ultimately show ?thesis by simp
qed

end
