(* ===== verification/Chain_Store.thy ===== *)
theory Chain_Store
  imports Memo
begin

text \<open>
  The chains a host keeps for the subjects it hears from (\<open>chain/chain_store.c\<close>): a bounded table
  under root, capability and subject, into which only chains that verify are taken and whose expired
  rows are reused. The table is shown to be a map whose entries run out on their own.
\<close>

section \<open>The model\<close>

abbreviation FZN_CHAIN_MAX_LEN :: nat where "FZN_CHAIN_MAX_LEN \<equiv> 1434"

record fzn_chain_entry =
  ce_chain :: fzn_chain
  ce_bytes :: bytes
  ce_len :: nat

record fzn_chain_store =
  cs_entries :: "fzn_chain_entry list option"
  cs_capacity :: nat
  cs_used :: nat

definition fzn_chain_store_sound :: "fzn_chain_store option \<Rightarrow> bool" where
  "fzn_chain_store_sound store =
     (case store of None \<Rightarrow> True
      | Some s \<Rightarrow> if cs_used s > cs_capacity s then False
        else if cs_used s > 0 \<and> cs_entries s = None then False else True)"

definition chains_of :: "fzn_chain_store \<Rightarrow> fzn_chain_entry list" where
  "chains_of store = take (cs_used store) (the (cs_entries store))"

definition find_chain :: "fzn_chain_store \<Rightarrow> key \<Rightarrow> cap_id \<Rightarrow> key \<Rightarrow> nat" where
  "find_chain store root capability subject =
     first_at (\<lambda>e. ch_root (ce_chain e) = root \<and> ch_capability (ce_chain e) = capability \<and>
       ch_grantee (ce_chain e) = subject) (chains_of store)"

definition find_expired :: "fzn_chain_store \<Rightarrow> u64 \<Rightarrow> nat" where
  "find_expired store now = first_at (\<lambda>e. fzn_chain_expired_at (Some (ce_chain e)) now) (chains_of store)"

definition zero_chain_entry :: fzn_chain_entry where
  "zero_chain_entry = \<lparr>ce_chain = \<lparr>ch_root = replicate FZN_PUBKEY_LEN 0, ch_grantee = replicate FZN_PUBKEY_LEN 0,
     ch_capability = replicate FZN_CAP_ID_LEN 0, ch_hop_count = 0, ch_expires_at = 0\<rparr>,
     ce_bytes = replicate FZN_CHAIN_MAX_LEN 0, ce_len = 0\<rparr>"

definition fzn_chain_store_init :: "fzn_chain_entry list option \<Rightarrow> nat \<Rightarrow> fzn_chain_err \<times> fzn_chain_store option" where
  "fzn_chain_store_init entries capacity =
     (case entries of None \<Rightarrow> (FZN_CHAIN_ERR_MALFORMED, None)
      | Some es \<Rightarrow> if capacity = 0 then (FZN_CHAIN_ERR_MALFORMED, None)
        else (FZN_CHAIN_OK, Some \<lparr>cs_entries = Some (replicate capacity zero_chain_entry @ drop capacity es),
               cs_capacity = capacity, cs_used = 0\<rparr>))"

definition put_chain :: "nat \<Rightarrow> fzn_chain \<Rightarrow> bytes \<Rightarrow> fzn_chain_store \<Rightarrow> fzn_chain_store" where
  "put_chain at verified packed store =
     store\<lparr>cs_entries := map_option (\<lambda>es. es[at := \<lparr>ce_chain = verified, ce_bytes = put_at 0 packed (ce_bytes (es ! at)),
       ce_len = length packed\<rparr>]) (cs_entries store)\<rparr>"

definition fzn_chain_store_admit :: "fzn_chain_store \<Rightarrow> fzn_chain_hop list option \<Rightarrow> key option \<Rightarrow> cap_id option \<Rightarrow> u64 \<Rightarrow>
    fzn_sign_ops \<Rightarrow> fzn_revocation_store option \<Rightarrow> fzn_manifest_state option \<Rightarrow> fzn_chain_err \<times> fzn_chain_store" where
  "fzn_chain_store_admit store hops root capability now sign revocations manifest =
     (if cs_entries store = None \<or> hops = None \<or> root = None \<or> capability = None then (FZN_CHAIN_ERR_MALFORMED, store)
      else if \<not> fzn_chain_store_sound (Some store) then (FZN_CHAIN_ERR_MALFORMED, store)
      else case fzn_chain_verify hops root capability now sign revocations manifest of
          Inl err \<Rightarrow> (err, store)
        | Inr verified \<Rightarrow>
          (case fzn_chain_pack hops FZN_CHAIN_MAX_LEN of
             (FZN_CHAIN_OK, Some packed) \<Rightarrow>
               let at = find_chain store (ch_root verified) (ch_capability verified) (ch_grantee verified) in
               if at = cs_used store then
                 if cs_used store \<ge> cs_capacity store then
                   let at = find_expired store now in
                   if at = cs_used store then (FZN_CHAIN_ERR_STORE_FULL, store)
                   else (FZN_CHAIN_OK, put_chain at verified packed store)
                 else (FZN_CHAIN_OK, put_chain at verified packed (store\<lparr>cs_used := Suc (cs_used store)\<rparr>))
               else (FZN_CHAIN_OK, put_chain at verified packed store)
           | (err, _) \<Rightarrow> (err, store)))"

definition fzn_chain_store_lookup :: "fzn_chain_store option \<Rightarrow> key option \<Rightarrow> cap_id option \<Rightarrow> key option \<Rightarrow> u64 \<Rightarrow> bytes option" where
  "fzn_chain_store_lookup store root capability subject now =
     (case store of None \<Rightarrow> None
      | Some s \<Rightarrow>
        if \<not> fzn_chain_store_sound (Some s) then None
        else case (cs_entries s, root, capability, subject) of
            (Some es, Some rt, Some cap, Some sub) \<Rightarrow>
              let at = find_chain s rt cap sub in
              if at = cs_used s then None
              else let e = es ! at in
                if ce_len e > FZN_CHAIN_MAX_LEN then None
                else if fzn_chain_expired_at (Some (ce_chain e)) now then None
                else Some (take (ce_len e) (ce_bytes e))
          | _ \<Rightarrow> None)"

definition fzn_chain_store_count :: "fzn_chain_store option \<Rightarrow> nat" where
  "fzn_chain_store_count store =
     (case store of None \<Rightarrow> 0 | Some s \<Rightarrow> if \<not> fzn_chain_store_sound (Some s) then 0 else cs_used s)"

record fzn_chain_want =
  cw_root :: key
  cw_capability :: cap_id
  cw_subject :: key

record fzn_chain_offer =
  co_held :: nat
  co_examined :: nat
  co_truncated :: bool

definition fzn_chain_plan_offer :: "fzn_chain_store option \<Rightarrow> fzn_chain_want list option \<Rightarrow> nat \<Rightarrow> bytes option \<Rightarrow> nat \<Rightarrow> u64 \<Rightarrow>
    fzn_chain_err \<times> bytes option \<times> fzn_chain_offer" where
  "fzn_chain_plan_offer store wants want_count holds holds_cap now =
     (let nothing = \<lparr>co_held = 0, co_examined = 0, co_truncated = False\<rparr> in
      case holds of None \<Rightarrow> (FZN_CHAIN_ERR_MALFORMED, holds, nothing)
      | Some hs \<Rightarrow>
        if holds_cap = 0 \<or> (want_count > 0 \<and> wants = None) \<or> store = None \<or> \<not> fzn_chain_store_sound store
        then (FZN_CHAIN_ERR_MALFORMED, holds, nothing)
        else let examined = (if want_count < holds_cap then want_count else holds_cap);
                 marks = map (\<lambda>w. if fzn_chain_store_lookup store (Some (cw_root w)) (Some (cw_capability w))
                   (Some (cw_subject w)) now \<noteq> None then 1 else 0) (take examined (the wants))
             in (FZN_CHAIN_OK, Some (put_at 0 marks hs),
                 \<lparr>co_held = length (filter (\<lambda>m. m = 1) marks), co_examined = examined, co_truncated = (want_count > holds_cap)\<rparr>))"

section \<open>The table as a map\<close>

definition chain_key :: "fzn_chain_entry \<Rightarrow> key \<times> cap_id \<times> key" where
  "chain_key e = (ch_root (ce_chain e), ch_capability (ce_chain e), ch_grantee (ce_chain e))"

definition verdict_key :: "fzn_chain \<Rightarrow> key \<times> cap_id \<times> key" where
  "verdict_key v = (ch_root v, ch_capability v, ch_grantee v)"

interpretation chain_rows: keyed_rows "\<lambda>xs k. first_at (\<lambda>e. chain_key e = k) xs" chain_key
  by unfold_locales (auto simp: first_at_le dest: first_at_hit first_at_before)

lemma find_chain_key: "find_chain s rt cap sub = first_at (\<lambda>e. chain_key e = (rt, cap, sub)) (chains_of s)"
  by (simp add: find_chain_def chain_key_def)

definition chains_inv :: "fzn_chain_store \<Rightarrow> bool" where
  "chains_inv s \<longleftrightarrow>
     (case cs_entries s of None \<Rightarrow> False
      | Some es \<Rightarrow> length es = cs_capacity s \<and> cs_used s \<le> cs_capacity s \<and>
          (\<forall>e \<in> set es. length (ce_bytes e) = FZN_CHAIN_MAX_LEN \<and> ce_len e \<le> FZN_CHAIN_MAX_LEN)) \<and>
     distinct (map chain_key (chains_of s))"

lemma chains_inv_some:
  assumes "chains_inv s"
  obtains es where "cs_entries s = Some es" "length es = cs_capacity s" "cs_used s \<le> cs_capacity s"
    "\<forall>e \<in> set es. length (ce_bytes e) = FZN_CHAIN_MAX_LEN \<and> ce_len e \<le> FZN_CHAIN_MAX_LEN"
    "chains_of s = take (cs_used s) es" "length (chains_of s) = cs_used s"
  using assms that by (auto simp: chains_inv_def chains_of_def split: option.splits)

lemma chains_sound: "chains_inv s \<Longrightarrow> fzn_chain_store_sound (Some s)"
  by (auto simp: chains_inv_def fzn_chain_store_sound_def split: option.splits)

text \<open>What a question is answered with, as a partial map that depends on the time.\<close>

definition answers :: "fzn_chain_store \<Rightarrow> u64 \<Rightarrow> key \<times> cap_id \<times> key \<Rightarrow> bytes option" where
  "answers s t = (\<lambda>(rt, cap, sub). fzn_chain_store_lookup (Some s) (Some rt) (Some cap) (Some sub) t)"

lemma answers_row:
  assumes "chains_inv s" and "e \<in> set (chains_of s)"
  shows "answers s t (chain_key e) =
    (if fzn_chain_expired_at (Some (ce_chain e)) t then None else Some (take (ce_len e) (ce_bytes e)))"
proof -
  obtain es where es: "cs_entries s = Some es" "cs_used s \<le> length es"
      "\<forall>e \<in> set es. length (ce_bytes e) = FZN_CHAIN_MAX_LEN \<and> ce_len e \<le> FZN_CHAIN_MAX_LEN"
      "chains_of s = take (cs_used s) es" "length (chains_of s) = cs_used s"
    using chains_inv_some [OF assms(1)] by metis
  have dist: "distinct (map chain_key (chains_of s))" using assms(1) by (simp add: chains_inv_def)
  obtain rt cap sub where k: "chain_key e = (rt, cap, sub)" using prod_cases3 by blast
  have "find_chain s rt cap sub < cs_used s" "chains_of s ! find_chain s rt cap sub = e"
    using chain_rows.found_row [where xs = "chains_of s" and k = "chain_key e", OF dist assms(2)] es(5)
    by (simp_all add: find_chain_key k)
  moreover from this have "es ! find_chain s rt cap sub = e" by (simp add: es(4))
  moreover have "ce_len e \<le> FZN_CHAIN_MAX_LEN" using es(3,4) assms(2) by (auto dest: in_set_takeD)
  ultimately show ?thesis
    unfolding k using chains_sound [OF assms(1)] by (simp add: answers_def fzn_chain_store_lookup_def es(1) Let_def)
qed

lemma answers_none:
  assumes "chains_inv s" and "k \<notin> chain_key ` set (chains_of s)"
  shows "answers s t k = None"
proof -
  obtain rt cap sub where k: "k = (rt, cap, sub)" using prod_cases3 by blast
  obtain es where es: "cs_entries s = Some es" "length (chains_of s) = cs_used s" using chains_inv_some [OF assms(1)] by metis
  have "find_chain s rt cap sub = cs_used s"
    using chain_rows.absent_iff [where xs = "chains_of s" and k = k] assms(2) es(2) by (simp add: find_chain_key k)
  then show ?thesis unfolding k using chains_sound [OF assms(1)] by (simp add: answers_def fzn_chain_store_lookup_def es(1) Let_def)
qed

definition chain_entry_of :: "fzn_chain \<Rightarrow> bytes \<Rightarrow> fzn_chain_entry \<Rightarrow> bool" where
  "chain_entry_of v packed e \<longleftrightarrow> ce_chain e = v \<and> ce_len e = length packed \<and> take (length packed) (ce_bytes e) = packed"

text \<open>Where a verified chain goes: over its own row, over an expired one, or behind the others.\<close>

lemma put_chain_rows:
  fixes v :: fzn_chain
  assumes "chains_inv s" and "length packed \<le> FZN_CHAIN_MAX_LEN" and "at < cs_capacity s"
    and "at \<le> used" and "used \<le> cs_capacity s" and "cs_used s \<le> used"
  defines "s' \<equiv> put_chain at v packed (s\<lparr>cs_used := used\<rparr>)"
  shows "\<exists>e. chain_entry_of v packed e \<and> length (ce_bytes e) = FZN_CHAIN_MAX_LEN \<and>
    chains_of s' = take used ((the (cs_entries s))[at := e]) \<and> cs_entries s' = Some ((the (cs_entries s))[at := e])"
proof -
  obtain es where es: "cs_entries s = Some es" "length es = cs_capacity s"
      "\<forall>e \<in> set es. length (ce_bytes e) = FZN_CHAIN_MAX_LEN \<and> ce_len e \<le> FZN_CHAIN_MAX_LEN"
    using chains_inv_some [OF assms(1)] by metis
  let ?e = "\<lparr>ce_chain = v, ce_bytes = put_at 0 packed (ce_bytes (es ! at)), ce_len = length packed\<rparr>"
  have len: "length (ce_bytes (es ! at)) = FZN_CHAIN_MAX_LEN" using es assms(3) by simp
  have "chain_entry_of v packed ?e" "length (ce_bytes ?e) = FZN_CHAIN_MAX_LEN"
    using len assms(2) by (simp_all add: chain_entry_of_def put_at_def)
  moreover have "cs_entries s' = Some (es[at := ?e])" "cs_used s' = used" by (simp_all add: s'_def put_chain_def es(1))
  ultimately show ?thesis by (intro exI [of _ ?e]) (simp add: chains_of_def es(1))
qed

text \<open>
  A put is an update of the answers: it changes those about its own key, and about the key of the row
  it takes over, if that was another's.
\<close>

lemma put_answers:
  assumes "chains_inv s" and "chain_entry_of v packed e" and "length (ce_bytes e) = FZN_CHAIN_MAX_LEN"
    and "length packed \<le> FZN_CHAIN_MAX_LEN" and "cs_entries s = Some es"
    and s': "cs_entries s' = Some (es[at := e])" "cs_capacity s' = cs_capacity s"
    and at: "at < cs_used s' " "cs_used s' \<le> cs_capacity s" "cs_used s' = cs_used s \<or> at = cs_used s \<and> cs_used s' = Suc (cs_used s)"
    and free: "at < cs_used s \<and> chain_key (es ! at) = verdict_key v \<or> verdict_key v \<notin> chain_key ` set (chains_of s)"
  shows "chains_inv s'"
    and "answers s' t (verdict_key v) = (if fzn_chain_expired_at (Some v) t then None else Some packed)"
    and "k \<noteq> verdict_key v \<Longrightarrow> at < cs_used s \<and> chain_key (es ! at) = k \<Longrightarrow> answers s' t k = None"
    and "k \<noteq> verdict_key v \<Longrightarrow> \<not> (at < cs_used s \<and> chain_key (es ! at) = k) \<Longrightarrow> answers s' t k = answers s t k"
proof -
  have len: "length es = cs_capacity s" and dist: "distinct (map chain_key (chains_of s))"
    using assms(1,5) by (auto simp: chains_inv_def)
  have key: "chain_key e = verdict_key v" using assms(2) by (simp add: chain_entry_of_def chain_key_def verdict_key_def)
  have rows: "chains_of s' = (if at < cs_used s then (chains_of s)[at := e] else chains_of s @ [e])"
  proof (cases "at < cs_used s")
    case True
    then show ?thesis using at(3) by (auto simp: chains_of_def s' assms(5) take_update_swap)
  next
    case False
    then have "at = cs_used s" "cs_used s' = Suc (cs_used s)" using at(1,3) by auto
    then show ?thesis using at(2) len by (simp add: chains_of_def s' assms(5) take_append_cell)
  qed
  have nth: "at < cs_used s \<Longrightarrow> chains_of s ! at = es ! at" by (simp add: chains_of_def assms(5))
  have lenr: "length (chains_of s) = cs_used s" using chains_inv_some [OF assms(1)] by metis
  have dist': "distinct (map chain_key (chains_of s'))"
  proof (cases "at < cs_used s")
    case True
    from free have "chain_key (es ! at) = verdict_key v \<or> verdict_key v \<notin> chain_key ` set (chains_of s)" by blast
    then show ?thesis
    proof
      assume "chain_key (es ! at) = verdict_key v"
      then have "map chain_key ((chains_of s)[at := e]) = map chain_key (chains_of s)"
        using True lenr nth by (simp add: map_update list_update_same_conv key)
      then show ?thesis using dist rows True by simp
    next
      assume "verdict_key v \<notin> chain_key ` set (chains_of s)"
      then show ?thesis using dist rows True by (simp add: map_update key distinct_list_update)
    qed
  next
    case False
    then show ?thesis using free dist rows by (simp add: key)
  qed
  have "\<forall>x \<in> set (es[at := e]). length (ce_bytes x) = FZN_CHAIN_MAX_LEN \<and> ce_len x \<le> FZN_CHAIN_MAX_LEN"
    using assms(1-5) set_update_subset_insert [of es at e] by (auto simp: chains_inv_def chain_entry_of_def)
  then show inv': "chains_inv s'" using dist' at(2) len by (simp add: chains_inv_def s')
  have "e \<in> set (chains_of s')" using rows lenr by (simp add: set_update_memI)
  from answers_row [OF inv' this, of t]
  show "answers s' t (verdict_key v) = (if fzn_chain_expired_at (Some v) t then None else Some packed)"
    using assms(2) by (simp add: key chain_entry_of_def)
  have others: "x \<in> set (chains_of s') \<longleftrightarrow> x \<in> set (chains_of s) \<and> \<not> (at < cs_used s \<and> chain_key (es ! at) = chain_key x)"
    if "chain_key x \<noteq> verdict_key v" for x
  proof (cases "at < cs_used s")
    case False
    then show ?thesis using rows that key by auto
  next
    case True
    have split: "chains_of s = take at (chains_of s) @ es ! at # drop (Suc at) (chains_of s)"
      using True lenr nth by (metis id_take_nth_drop)
    have "chain_key (es ! at) \<notin> chain_key ` (set (take at (chains_of s)) \<union> set (drop (Suc at) (chains_of s)))"
      using dist unfolding arg_cong [OF split, of "map chain_key"] by auto
    moreover have "set (chains_of s') = insert e (set (take at (chains_of s)) \<union> set (drop (Suc at) (chains_of s)))"
      using rows True lenr by (simp add: upd_conv_take_nth_drop)
    moreover have "set (chains_of s) = insert (es ! at) (set (take at (chains_of s)) \<union> set (drop (Suc at) (chains_of s)))"
      using arg_cong [OF split, of set] by simp
    ultimately show ?thesis using that key True by auto
  qed
  show "answers s' t k = None" if "k \<noteq> verdict_key v" "at < cs_used s \<and> chain_key (es ! at) = k"
    using others that by (intro answers_none inv') blast
  show "answers s' t k = answers s t k" if k: "k \<noteq> verdict_key v" "\<not> (at < cs_used s \<and> chain_key (es ! at) = k)"
  proof (cases "k \<in> chain_key ` set (chains_of s)")
    case True
    then obtain x where x: "x \<in> set (chains_of s)" "chain_key x = k" by blast
    then have "x \<in> set (chains_of s')" using others k by blast
    then show ?thesis using answers_row [OF inv', of x t] answers_row [OF assms(1), of x t] x by simp
  next
    case False
    then have "k \<notin> chain_key ` set (chains_of s')" using others k by blast
    then show ?thesis using answers_none [OF inv'] answers_none [OF assms(1) False] by simp
  qed
qed

lemma expired_later: "fzn_chain_expired_at c now \<Longrightarrow> now \<le> t \<Longrightarrow> fzn_chain_expired_at c t"
  by (auto simp: fzn_chain_expired_at_def split: option.splits)

lemma put_refines:
  assumes "chains_inv s" and "length packed \<le> FZN_CHAIN_MAX_LEN" and "cs_entries s = Some es"
    and at: "at < used" "used \<le> cs_capacity s" "used = cs_used s \<or> at = cs_used s \<and> used = Suc (cs_used s)"
    and free: "at < cs_used s \<Longrightarrow> chain_key (es ! at) = verdict_key v \<or>
        fzn_chain_expired_at (Some (ce_chain (es ! at))) now \<and> verdict_key v \<notin> chain_key ` set (chains_of s)"
      "\<not> at < cs_used s \<Longrightarrow> verdict_key v \<notin> chain_key ` set (chains_of s)"
  defines "s' \<equiv> put_chain at v packed (s\<lparr>cs_used := used\<rparr>)"
  shows "chains_inv s'" and "now \<le> t \<Longrightarrow> answers s' t =
    (answers s t)(verdict_key v := if fzn_chain_expired_at (Some v) t then None else Some packed)"
proof -
  have "at < cs_capacity s" "at \<le> used" "cs_used s \<le> used" using at by auto
  then obtain e where e: "chain_entry_of v packed e" "length (ce_bytes e) = FZN_CHAIN_MAX_LEN" "cs_entries s' = Some (es[at := e])"
    using put_chain_rows [OF assms(1,2), of at used v] at(2) assms(3) by (auto simp: s'_def)
  have s': "cs_capacity s' = cs_capacity s" "cs_used s' = used" by (simp_all add: s'_def put_chain_def)
  have f: "at < cs_used s \<and> chain_key (es ! at) = verdict_key v \<or> verdict_key v \<notin> chain_key ` set (chains_of s)"
    using free by blast
  note put = put_answers [OF assms(1) e(1,2) assms(2,3) e(3) s'(1), unfolded s'(2), OF at f]
  show "chains_inv s'" by (rule put(1))
  show "answers s' t = (answers s t)(verdict_key v := if fzn_chain_expired_at (Some v) t then None else Some packed)" if t: "now \<le> t"
  proof
    fix k
    consider (own) "k = verdict_key v" | (taken) "k \<noteq> verdict_key v" "at < cs_used s \<and> chain_key (es ! at) = k"
      | (other) "k \<noteq> verdict_key v" "\<not> (at < cs_used s \<and> chain_key (es ! at) = k)" by blast
    then show "answers s' t k = ((answers s t)(verdict_key v := if fzn_chain_expired_at (Some v) t then None else Some packed)) k"
    proof cases
      case own
      then show ?thesis using put(2) by simp
    next
      case taken
      then have "fzn_chain_expired_at (Some (ce_chain (es ! at))) t" using free(1) expired_later t by blast
      moreover have "es ! at \<in> set (chains_of s)"
        using taken(2) nth_mem [of at "chains_of s"] chains_inv_some [OF assms(1)] assms(3) by (metis nth_take option.inject)
      ultimately show ?thesis using put(3) [OF taken] taken answers_row [OF assms(1), of "es ! at" t] by auto
    next
      case other
      then show ?thesis using put(4) [OF other] by simp
    qed
  qed
qed

lemma verified_packs:
  assumes "fzn_chain_verify (Some hs) (Some rt) (Some cap) now sign revs man = Inr v"
  obtains packed where "fzn_chain_pack (Some hs) FZN_CHAIN_MAX_LEN = (FZN_CHAIN_OK, Some packed)" "length packed \<le> FZN_CHAIN_MAX_LEN"
proof -
  from assms obtain hops where h: "hs = map Some hops" "hops \<noteq> []" "length hops \<le> 8"
    unfolding verify_ok_iff by (auto simp: chain_good_def)
  have "length (concat (map (\<lambda>h. take 179 (the h)) hs)) \<le> length hs * 179"
    by (induction hs) (auto simp: le_diff_conv min_def)
  then show thesis using h by (intro that) (auto simp: chain_pack_spec)
qed

text \<open>What taking a chain in comes to: an error, no room, or one row written.\<close>

lemma store_admit_cases:
  assumes "chains_inv s" and "fzn_chain_store_admit s (Some hs) (Some rt) (Some cap) now sign revs man = (err, s')"
  obtains (refused) e where "fzn_chain_verify (Some hs) (Some rt) (Some cap) now sign revs man = Inl e" "err = e" "s' = s"
  | (full) "err = FZN_CHAIN_ERR_STORE_FULL" "s' = s" "cs_used s = cs_capacity s"
      "\<forall>e \<in> set (chains_of s). \<not> fzn_chain_expired_at (Some (ce_chain e)) now"
  | (stored) v packed at used es where "fzn_chain_verify (Some hs) (Some rt) (Some cap) now sign revs man = Inr v" "err = FZN_CHAIN_OK"
      "fzn_chain_pack (Some hs) FZN_CHAIN_MAX_LEN = (FZN_CHAIN_OK, Some packed)" "length packed \<le> FZN_CHAIN_MAX_LEN"
      "cs_entries s = Some es" "s' = put_chain at v packed (s\<lparr>cs_used := used\<rparr>)"
      "at < used" "used \<le> cs_capacity s" "used = cs_used s \<or> at = cs_used s \<and> used = Suc (cs_used s)"
      "at < cs_used s \<longrightarrow> chain_key (es ! at) = verdict_key v \<or>
         fzn_chain_expired_at (Some (ce_chain (es ! at))) now \<and> verdict_key v \<notin> chain_key ` set (chains_of s)"
      "\<not> at < cs_used s \<longrightarrow> verdict_key v \<notin> chain_key ` set (chains_of s)"
proof -
  obtain es where es: "cs_entries s = Some es" "length es = cs_capacity s" "cs_used s \<le> cs_capacity s"
      "chains_of s = take (cs_used s) es" "length (chains_of s) = cs_used s"
    using chains_inv_some [OF assms(1)] by metis
  note sound = chains_sound [OF assms(1)]
  show thesis
  proof (cases "fzn_chain_verify (Some hs) (Some rt) (Some cap) now sign revs man")
    case (Inl e)
    then have "err = e \<and> s' = s" using assms(2) sound by (simp add: fzn_chain_store_admit_def es(1))
    then show thesis using refused [OF Inl] by simp
  next
    case (Inr v)
    obtain packed where p: "fzn_chain_pack (Some hs) FZN_CHAIN_MAX_LEN = (FZN_CHAIN_OK, Some packed)"
        and plen: "length packed \<le> FZN_CHAIN_MAX_LEN" using verified_packs [OF Inr] .
    let ?at = "find_chain s (ch_root v) (ch_capability v) (ch_grantee v)"
    let ?old = "find_expired s now"
    have key: "?at = first_at (\<lambda>e. chain_key e = verdict_key v) (chains_of s)" by (simp add: find_chain_key verdict_key_def)
    have hit: "?at < cs_used s \<Longrightarrow> chain_key (es ! ?at) = verdict_key v"
      using chain_rows.find_hit [where xs = "chains_of s" and k = "verdict_key v"] es(4,5) by (simp add: key)
    have miss: "?at = cs_used s \<Longrightarrow> verdict_key v \<notin> chain_key ` set (chains_of s)"
      using chain_rows.absent_iff [where xs = "chains_of s" and k = "verdict_key v"] es(5) by (simp add: key)
    have le: "?at \<le> cs_used s" "?old \<le> cs_used s"
      using first_at_le [of _ "chains_of s"] es(5) by (metis key) (metis find_expired_def first_at_le es(5))
    have old: "?old < cs_used s \<Longrightarrow> fzn_chain_expired_at (Some (ce_chain (es ! ?old))) now"
      using first_at_hit [of "\<lambda>e. fzn_chain_expired_at (Some (ce_chain e)) now" "chains_of s"] es(4,5) by (simp add: find_expired_def)
    have same: "s\<lparr>cs_used := cs_used s\<rparr> = s" by simp
    consider (own) "?at < cs_used s" "err = FZN_CHAIN_OK" "s' = put_chain ?at v packed s"
      | (room) "?at = cs_used s" "cs_used s < cs_capacity s" "err = FZN_CHAIN_OK"
          "s' = put_chain (cs_used s) v packed (s\<lparr>cs_used := Suc (cs_used s)\<rparr>)"
      | (reuse) "?at = cs_used s" "?old < cs_used s" "err = FZN_CHAIN_OK" "s' = put_chain ?old v packed s"
      | (none) "?at = cs_used s" "cs_used s \<ge> cs_capacity s" "?old = cs_used s" "err = FZN_CHAIN_ERR_STORE_FULL" "s' = s"
      using assms(2) sound le Inr p by (auto simp: fzn_chain_store_admit_def es(1) Let_def split: if_splits)
    then show thesis
    proof cases
      case own
      then show thesis using hit es(3) by (intro stored [OF Inr own(2) p plen es(1), of ?at "cs_used s"]) auto
    next
      case room
      then show thesis using miss by (intro stored [OF Inr room(3) p plen es(1), of "cs_used s" "Suc (cs_used s)"]) auto
    next
      case reuse
      then show thesis using old miss es(3) by (intro stored [OF Inr reuse(3) p plen es(1), of ?old "cs_used s"]) auto
    next
      case none
      then have "\<not> (\<exists>e \<in> set (chains_of s). fzn_chain_expired_at (Some (ce_chain e)) now)"
        using first_at_found [of "\<lambda>e. fzn_chain_expired_at (Some (ce_chain e)) now" "chains_of s"] es(5) by (simp add: find_expired_def)
      then show thesis using none full es(3) by auto
    qed
  qed
qed

text \<open>
  C13. The table is a map whose entries run out. Taking a chain in either leaves the table alone, with
  an error that is not success, or binds the chain's own key, for every time from then on, to the
  bytes the chain packs to until the chain expires, and leaves the answer for every other key at every
  such time as it was. Rows are reused only where nobody can see it. Taking in fails for want of room
  only if every row holds a chain that is still running.
\<close>

theorem chain_store_refines_map:
  assumes "chains_inv s" and "fzn_chain_store_admit s (Some hs) (Some rt) (Some cap) now sign revs man = (err, s')"
  shows "chains_inv s' \<and> (err \<noteq> FZN_CHAIN_OK \<longrightarrow> s' = s) \<and>
    (err = FZN_CHAIN_OK \<longrightarrow> (\<exists>v packed. fzn_chain_verify (Some hs) (Some rt) (Some cap) now sign revs man = Inr v \<and>
       fzn_chain_pack (Some hs) FZN_CHAIN_MAX_LEN = (FZN_CHAIN_OK, Some packed) \<and>
       (\<forall>t \<ge> now. answers s' t = (answers s t)(verdict_key v := if fzn_chain_expired_at (Some v) t then None else Some packed)))) \<and>
    (err = FZN_CHAIN_ERR_STORE_FULL \<longrightarrow> cs_used s = cs_capacity s \<and>
       (\<forall>e \<in> set (chains_of s). \<not> fzn_chain_expired_at (Some (ce_chain e)) now))"
  using assms
proof (cases rule: store_admit_cases)
  case (refused e)
  then show ?thesis using assms(1) verify_err_kind [OF refused(1)] by simp
next
  case full
  then show ?thesis using assms(1) by simp
next
  case (stored v packed at used es)
  note r = put_refines [OF assms(1) stored(4,5,7-9), of v now] and free = stored(10,11)
  show ?thesis using r [OF mp [OF free(1)] mp [OF free(2)]] stored(1-3,6) by auto
qed

definition empty_chains :: fzn_chain_store where
  "empty_chains = the (snd (fzn_chain_store_init (Some [zero_chain_entry]) 1))"

lemma empty_chains_inv: "chains_inv empty_chains"
  by (simp add: empty_chains_def fzn_chain_store_init_def chains_inv_def chains_of_def zero_chain_entry_def)

theorem chain_store_refines_map_witness:
  "\<exists>packed. fzn_chain_pack (Some [Some demo_hop]) FZN_CHAIN_MAX_LEN = (FZN_CHAIN_OK, Some packed) \<and>
     answers (snd (fzn_chain_store_admit empty_chains (Some [Some demo_hop]) (Some (replicate 32 1)) (Some (replicate 32 3)) 10
       demo_sign None None)) 20 (replicate 32 1, replicate 32 3, replicate 32 2) = Some packed"
proof -
  let ?a = "fzn_chain_store_admit empty_chains (Some [Some demo_hop]) (Some (replicate 32 1)) (Some (replicate 32 3)) 10 demo_sign None None"
  have "fst ?a = FZN_CHAIN_OK"
    by (rule verified_packs [OF demo_chain_verifies])
      (simp add: fzn_chain_store_admit_def empty_chains_def fzn_chain_store_init_def fzn_chain_store_sound_def demo_chain_verifies
        find_chain_def chains_of_def Let_def first_at_def)
  then have "?a = (FZN_CHAIN_OK, snd ?a)" by (simp add: prod_eq_iff)
  from chain_store_refines_map [OF empty_chains_inv this] demo_chain_verifies
  obtain packed where "fzn_chain_pack (Some [Some demo_hop]) FZN_CHAIN_MAX_LEN = (FZN_CHAIN_OK, Some packed)"
    "\<forall>t \<ge> 10. answers (snd ?a) t = (answers empty_chains t)((replicate 32 1, replicate 32 3, replicate 32 2) :=
       if 90 \<le> t then None else Some packed)"
    by (auto simp: verdict_key_def fzn_chain_expired_at_def)
  then show ?thesis by simp
qed

section \<open>What a row holds\<close>

text \<open>A row is filed under the subject its own bytes name: what the table was given opens again.\<close>

definition filed :: "fzn_chain_store \<Rightarrow> bool" where
  "filed s \<longleftrightarrow> (\<forall>e \<in> set (chains_of s). \<exists>hs. fzn_chain_open (Some (take (ce_len e) (ce_bytes e))) = (FZN_CHAIN_OK, hs) \<and>
     ch_grantee (ce_chain e) = fzn_hop_grantee (the (last hs)))"

lemma pack_same:
  assumes "fzn_chain_open (Some b) = (FZN_CHAIN_OK, hs)" and "fzn_chain_pack (Some hs) cap = (FZN_CHAIN_OK, Some packed)"
  shows "packed = b"
  using open_repacks [OF assms(1)] assms(2) by (simp add: chain_pack_spec)

lemma admit_filed:
  assumes "chains_inv s" and "filed s" and "fzn_chain_open (Some b) = (FZN_CHAIN_OK, hs)"
    and "fzn_chain_store_admit s (Some hs) (Some rt) (Some cap) now sign revs man = (err, s')"
  shows "chains_inv s' \<and> filed s'"
  using assms(1,4)
proof (cases rule: store_admit_cases)
  case (stored v packed at used es)
  note inv = put_refines(1) [OF assms(1) stored(4,5,7-9) mp [OF stored(10)] mp [OF stored(11)], folded stored(6)]
  have "at < cs_capacity s" "at \<le> used" "cs_used s \<le> used" using stored(7-9) by auto
  then obtain e where e: "chain_entry_of v packed e" "chains_of s' = take used (es[at := e])"
    using put_chain_rows [OF assms(1) stored(4), of at used v] stored(5,6,8) by auto
  have rows: "set (chains_of s') \<subseteq> insert e (set (chains_of s))"
  proof (cases "used = cs_used s")
    case True
    then show ?thesis using set_update_subset_insert [of "take used es" at e] e(2) stored(5) by (simp add: chains_of_def take_update_swap)
  next
    case False
    then have "at = cs_used s" "used = Suc (cs_used s)" using stored(9) by auto
    moreover have "length es = cs_capacity s" using chains_inv_some [OF assms(1)] stored(5) by (metis option.inject)
    ultimately show ?thesis using e(2) stored(5,8) by (simp add: chains_of_def take_append_cell)
  qed
  have "ch_grantee v = fzn_hop_grantee (the (last hs))" using stored(1) unfolding verify_ok_iff
    by (auto simp: verdict_of_def chain_good_def last_map)
  then have "filed s'"
    using assms(2,3) rows e(1) pack_same [OF assms(3) stored(3)] unfolding filed_def chain_entry_of_def by fastforce
  with inv show ?thesis by simp
qed (use assms(1,2) in simp_all)

lemma stored_answers:
  assumes "chains_inv s" and "fzn_chain_store_admit s (Some hs) (Some rt) (Some cap) now sign revs man = (FZN_CHAIN_OK, s')"
    and "fzn_chain_verify (Some hs) (Some rt) (Some cap) now sign revs man = Inr v"
    and "fzn_chain_pack (Some hs) FZN_CHAIN_MAX_LEN = (FZN_CHAIN_OK, Some packed)" and "now \<le> t" and "\<not> fzn_chain_expired_at (Some v) t"
  shows "answers s' t (verdict_key v) = Some packed"
  using assms(1,2)
proof (cases rule: store_admit_cases)
  case (refused e)
  then show ?thesis using assms(3) by simp
next
  case full
  then show ?thesis by simp
next
  case (stored v0 packed0 at used es)
  note r = put_refines(2) [OF assms(1) stored(4,5,7-9) mp [OF stored(10)] mp [OF stored(11)] assms(5), folded stored(6)]
  show ?thesis using r stored(1,3) assms(3,4,6) by simp
qed

lemma lookup_filed:
  assumes "chains_inv s" and "filed s" and "fzn_chain_store_lookup (Some s) (Some rt) (Some cap) (Some sub) now = Some b"
  obtains hs where "fzn_chain_open (Some b) = (FZN_CHAIN_OK, hs)" "fzn_hop_grantee (the (last hs)) = sub"
proof -
  have a: "answers s now (rt, cap, sub) = Some b" using assms(3) by (simp add: answers_def)
  then obtain e where e: "e \<in> set (chains_of s)" "chain_key e = (rt, cap, sub)" using answers_none [OF assms(1), of "(rt, cap, sub)" now] by fastforce
  then have "b = take (ce_len e) (ce_bytes e)" using a answers_row [OF assms(1) e(1), of now] by (simp split: if_splits)
  with assms(2) e show thesis using that by (auto simp: filed_def chain_key_def)
qed

end
