(* ===== verification/Seal.thy ===== *)
theory Seal
  imports Chain_Store
begin

text \<open>
  Frames: their layout (\<open>wire/generated/frame.h\<close>, \<open>frame.c\<close>), sealing and opening them
  (\<open>wire/seal.c\<close>), the commitment to the key (\<open>session/commitment.c\<close>), nonces
  (\<open>session/random.c\<close>) and what a relay may do to a frame in flight (\<open>wire/relay.c\<close>). The hash, the
  cipher and the source of randomness are parameters, as they are in the code. A frame buffer is a
  list of bytes; a view is the list with an offset, and the limit of a view is the length of the list,
  at most \<open>UINT32_MAX\<close>, so no offset below wraps.
\<close>

unbundle bit_operations_syntax

section \<open>Key commitment\<close>

type_synonym fzn_hash_fn = "nat \<Rightarrow> bytes \<Rightarrow> bytes option"

datatype fzn_commitment_err = FZN_COMMITMENT_OK | FZN_COMMITMENT_ERR_MALFORMED | FZN_COMMITMENT_ERR_HASH
  | FZN_COMMITMENT_ERR_MISMATCH

abbreviation FZN_AEAD_KEY_LEN :: nat where "FZN_AEAD_KEY_LEN \<equiv> 32"
abbreviation FZN_COMMITMENT_KEY_LEN :: nat where "FZN_COMMITMENT_KEY_LEN \<equiv> 32"
abbreviation FZN_COMMITMENT_LEN :: nat where "FZN_COMMITMENT_LEN \<equiv> 16"
abbreviation FZN_AEAD_NONCE_LEN :: nat where "FZN_AEAD_NONCE_LEN \<equiv> 24"
abbreviation FZN_AEAD_TAG_LEN :: nat where "FZN_AEAD_TAG_LEN \<equiv> 16"
abbreviation FZN_DERIVED_LEN :: nat where "FZN_DERIVED_LEN \<equiv> 64"
abbreviation FZN_TRANSCRIPT_MAX :: nat where "FZN_TRANSCRIPT_MAX \<equiv> 512"

definition ascii :: "string \<Rightarrow> bytes" where
  "ascii s = map (\<lambda>c. of_nat (of_char c)) s"

definition FZN_ROOT_LABEL :: bytes where
  "FZN_ROOT_LABEL = ascii ''fuzznet-kdf-v2'' @ [0, 0]"

definition FZN_BIND_LABEL :: bytes where
  "FZN_BIND_LABEL = ascii ''fuzznet-bind-v1'' @ [0]"

definition fzn_commitment_derive_root :: "fzn_hash_fn option \<Rightarrow> bytes option \<Rightarrow> fzn_commitment_err \<times> (bytes \<times> bytes) option" where
  "fzn_commitment_derive_root hash transcript =
     (case (hash, transcript) of
        (Some h, Some t) \<Rightarrow>
          if length t = 0 \<or> length t > FZN_TRANSCRIPT_MAX then (FZN_COMMITMENT_ERR_MALFORMED, None)
          else (case h FZN_DERIVED_LEN (FZN_ROOT_LABEL @ t) of
              None \<Rightarrow> (FZN_COMMITMENT_ERR_HASH, None)
            | Some derived \<Rightarrow> (FZN_COMMITMENT_OK,
                Some (take FZN_AEAD_KEY_LEN derived, bytes_at FZN_AEAD_KEY_LEN FZN_COMMITMENT_KEY_LEN derived)))
      | _ \<Rightarrow> (FZN_COMMITMENT_ERR_MALFORMED, None))"

definition fzn_commitment_for_nonce :: "fzn_hash_fn option \<Rightarrow> bytes option \<Rightarrow> bytes option \<Rightarrow> fzn_commitment_err \<times> bytes option" where
  "fzn_commitment_for_nonce hash commitment_key nonce =
     (case (hash, commitment_key, nonce) of
        (Some h, Some k, Some n) \<Rightarrow>
          (case h FZN_COMMITMENT_LEN (FZN_BIND_LABEL @ k @ n) of
             None \<Rightarrow> (FZN_COMMITMENT_ERR_HASH, None)
           | Some derived \<Rightarrow> (FZN_COMMITMENT_OK, Some (take FZN_COMMITMENT_LEN derived)))
      | _ \<Rightarrow> (FZN_COMMITMENT_ERR_MALFORMED, None))"

definition fzn_commitment_check :: "bytes option \<Rightarrow> bytes option \<Rightarrow> fzn_commitment_err" where
  "fzn_commitment_check derived received =
     (case (derived, received) of
        (Some d, Some r) \<Rightarrow> if fzn_ct_memeq (Some d) (Some r) FZN_COMMITMENT_LEN then FZN_COMMITMENT_OK else FZN_COMMITMENT_ERR_MISMATCH
      | _ \<Rightarrow> FZN_COMMITMENT_ERR_MALFORMED)"

definition fzn_commitment_err_str :: "fzn_commitment_err \<Rightarrow> string" where
  "fzn_commitment_err_str err =
     (case err of FZN_COMMITMENT_OK \<Rightarrow> ''ok'' | FZN_COMMITMENT_ERR_MALFORMED \<Rightarrow> ''malformed argument''
      | FZN_COMMITMENT_ERR_HASH \<Rightarrow> ''hash refused or absent'' | FZN_COMMITMENT_ERR_MISMATCH \<Rightarrow> ''key commitment mismatch'')"

section \<open>The layout of a frame\<close>

datatype situ_err = SITU_OK | SITU_ERR_BOUNDS | SITU_ERR_CONSTRAINT

abbreviation SITU_FZN_FRAME_SIZE_MIN :: nat where "SITU_FZN_FRAME_SIZE_MIN \<equiv> 144"
abbreviation SITU_FZN_HOP_SIZE_FIXED :: nat where "SITU_FZN_HOP_SIZE_FIXED \<equiv> 5"
abbreviation SITU_FZN_HEAD_SIZE_FIXED :: nat where "SITU_FZN_HEAD_SIZE_FIXED \<equiv> 91"
abbreviation SITU_FZN_HEAD_LENGTH_VALUE_MAX :: nat where "SITU_FZN_HEAD_LENGTH_VALUE_MAX \<equiv> 1024"

definition situ_fzn_kind_is_known :: "u8 \<Rightarrow> bool" where
  "situ_fzn_kind_is_known value \<longleftrightarrow> value = 0 \<or> value = 1 \<or> value = 2 \<or> value = 3"

definition situ_remaining :: "nat \<Rightarrow> nat \<Rightarrow> nat" where
  "situ_remaining limit at = (if at \<ge> limit then 0 else limit - at)"

definition situ_advance :: "nat \<Rightarrow> nat \<Rightarrow> nat \<Rightarrow> nat" where
  "situ_advance at by limit = (let room = situ_remaining limit at in at + (if by < room then by else room))"

definition situ_in_bounds :: "nat \<Rightarrow> nat \<Rightarrow> nat \<Rightarrow> bool" where
  "situ_in_bounds limit offset extent \<longleftrightarrow> extent \<le> limit \<and> offset \<le> limit - extent"

definition head_kind :: "bytes \<Rightarrow> u8" where "head_kind f = f ! 5"
definition head_sender :: "bytes \<Rightarrow> key" where "head_sender f = bytes_at 6 32 f"
definition head_expires_at :: "bytes \<Rightarrow> u64" where "head_expires_at f = fzn_get_be64 (bytes_at 38 8 f)"
definition head_nonce :: "bytes \<Rightarrow> bytes" where "head_nonce f = bytes_at 46 FZN_AEAD_NONCE_LEN f"
definition head_commitment :: "bytes \<Rightarrow> bytes" where "head_commitment f = bytes_at 70 FZN_COMMITMENT_LEN f"
definition head_msg :: "bytes \<Rightarrow> u32" where "head_msg f = fzn_get_be32 (bytes_at 86 4 f)"
definition head_index :: "bytes \<Rightarrow> u16" where "head_index f = fzn_get_be16 (bytes_at 90 2 f)"
definition head_chunks :: "bytes \<Rightarrow> u16" where "head_chunks f = fzn_get_be16 (bytes_at 92 2 f)"
definition head_length :: "bytes \<Rightarrow> u16" where "head_length f = fzn_get_be16 (bytes_at 94 2 f)"

definition tag_offset :: "bytes \<Rightarrow> nat" where
  "tag_offset f = situ_advance 96 (32 + unat (head_length f)) (length f)"

definition payload_len :: "bytes \<Rightarrow> nat" where
  "payload_len f = (let n = unat (head_length f); room = situ_remaining (length f) 128 in if n < room then n else room)"

definition hop_check :: "bytes \<Rightarrow> situ_err" where
  "hop_check f = (if length f < SITU_FZN_HOP_SIZE_FIXED then SITU_ERR_BOUNDS
     else if f ! 0 \<noteq> 1 then SITU_ERR_CONSTRAINT
     else if f ! 4 \<noteq> 0 then SITU_ERR_CONSTRAINT else SITU_OK)"

definition head_check :: "bytes \<Rightarrow> situ_err" where
  "head_check f =
     (if \<not> situ_fzn_kind_is_known (head_kind f) then SITU_ERR_CONSTRAINT
      else if int (unat (head_index f)) > int (unat (head_chunks f)) - 1 then SITU_ERR_CONSTRAINT
      else if unat (head_length f) > SITU_FZN_HEAD_LENGTH_VALUE_MAX then SITU_ERR_CONSTRAINT else SITU_OK)"

definition frame_check :: "bytes \<Rightarrow> situ_err" where
  "frame_check f =
     (if length f < SITU_FZN_FRAME_SIZE_MIN then SITU_ERR_BOUNDS
      else if \<not> situ_in_bounds (length f) 0 SITU_FZN_HOP_SIZE_FIXED then SITU_ERR_BOUNDS
      else if hop_check f \<noteq> SITU_OK then hop_check f
      else if \<not> situ_in_bounds (length f) 5 SITU_FZN_HEAD_SIZE_FIXED then SITU_ERR_BOUNDS
      else if head_check f \<noteq> SITU_OK then head_check f
      else if situ_remaining (length f) 96 < 32 + unat (head_length f) then SITU_ERR_BOUNDS
      else if \<not> situ_in_bounds (length f) (tag_offset f) FZN_AEAD_TAG_LEN then SITU_ERR_BOUNDS
      else SITU_OK)"

definition tag_covered :: "bytes \<Rightarrow> (nat \<times> nat) option" where
  "tag_covered f = (let start = 5; stop = tag_offset f in
     if stop < start \<or> \<not> situ_in_bounds (length f) start (stop - start) then None else Some (start, stop - start))"

definition tag_ptr :: "bytes \<Rightarrow> nat option" where
  "tag_ptr f = (if situ_in_bounds (length f) (tag_offset f) FZN_AEAD_TAG_LEN then Some (tag_offset f) else None)"

section \<open>Sealing and opening\<close>

datatype fzn_seal_err = FZN_SEAL_OK | FZN_SEAL_ERR_MALFORMED | FZN_SEAL_ERR_SHAPE | FZN_SEAL_ERR_TAG | FZN_SEAL_ERR_COMMITMENT
  | FZN_SEAL_ERR_NO_NONCE | FZN_SEAL_ERR_CAPACITY | FZN_SEAL_ERR_HASH | FZN_SEAL_ERR_AEAD

record fzn_aead_ops =
  ao_seal :: "(bytes \<Rightarrow> bytes \<Rightarrow> bytes \<Rightarrow> bytes \<Rightarrow> (bytes \<times> bytes) option) option"
  ao_open :: "(bytes \<Rightarrow> bytes \<Rightarrow> bytes \<Rightarrow> bytes \<Rightarrow> bytes \<Rightarrow> bytes option) option"

record fzn_opened =
  op_capability :: bytes
  op_payload :: bytes
  op_sender :: key
  op_nonce :: bytes
  op_expires_at :: u64
  op_msg :: u32
  op_index :: u16
  op_chunks :: u16
  op_kind :: u8

record fzn_peek =
  pk_sender :: key
  pk_nonce :: bytes
  pk_commitment :: bytes
  pk_expires_at :: u64
  pk_msg :: u32
  pk_index :: u16
  pk_chunks :: u16
  pk_kind :: u8

record fzn_send =
  se_sender :: "key option"
  se_capability :: "bytes option"
  se_payload :: "bytes option"
  se_payload_len :: nat
  se_expires_at :: u64
  se_msg :: u32
  se_index :: u16
  se_chunks :: u16
  se_kind :: u8
  se_hops :: u8
  se_service_hint :: u32

abbreviation UINT32_MAX :: nat where "UINT32_MAX \<equiv> 4294967295"
abbreviation FZN_SEAL_OVERHEAD :: nat where "FZN_SEAL_OVERHEAD \<equiv> 144"
abbreviation FZN_RELAY_MAX_HOPS :: u8 where "FZN_RELAY_MAX_HOPS \<equiv> 8"
abbreviation FZN_RELAY_SERVICE_MAX :: u32 where "FZN_RELAY_SERVICE_MAX \<equiv> 0xffff"

definition views :: "bytes \<Rightarrow> bool" where
  "views f =
     (if length f > UINT32_MAX then False
      else if length f < SITU_FZN_FRAME_SIZE_MIN then False
      else if frame_check f \<noteq> SITU_OK then False
      else if length f \<noteq> tag_offset f + FZN_AEAD_TAG_LEN then False
      else situ_in_bounds (length f) 5 SITU_FZN_HEAD_SIZE_FIXED)"

definition fzn_seal_open :: "bytes option \<Rightarrow> bytes option \<Rightarrow> bytes option \<Rightarrow> fzn_hash_fn option \<Rightarrow> fzn_aead_ops \<Rightarrow>
    fzn_seal_err \<times> bytes option \<times> fzn_opened option" where
  "fzn_seal_open frame key commitment_key hash aead =
     (case (frame, key, commitment_key, hash, ao_open aead) of
        (Some f, Some k, Some ck, Some _, Some aopen) \<Rightarrow>
          if \<not> views f then (FZN_SEAL_ERR_SHAPE, frame, None)
          else (case fzn_commitment_for_nonce hash commitment_key (Some (head_nonce f)) of
              (FZN_COMMITMENT_OK, derived) \<Rightarrow>
                if fzn_commitment_check derived (Some (head_commitment f)) \<noteq> FZN_COMMITMENT_OK
                then (FZN_SEAL_ERR_COMMITMENT, frame, None)
                else (case (tag_covered f, tag_ptr f) of
                    (Some (covered_at, covered_len), Some tag) \<Rightarrow>
                      if covered_len < SITU_FZN_HEAD_SIZE_FIXED then (FZN_SEAL_ERR_SHAPE, frame, None)
                      else let sealed_at = covered_at + SITU_FZN_HEAD_SIZE_FIXED; sealed_len = covered_len - SITU_FZN_HEAD_SIZE_FIXED in
                        (case aopen k (head_nonce f) (bytes_at covered_at SITU_FZN_HEAD_SIZE_FIXED f)
                              (bytes_at sealed_at sealed_len f) (bytes_at tag FZN_AEAD_TAG_LEN f) of
                           None \<Rightarrow> (FZN_SEAL_ERR_TAG, frame, None)
                         | Some text \<Rightarrow>
                           let g = put_at sealed_at text f in
                           (FZN_SEAL_OK, Some g, Some \<lparr>op_capability = bytes_at 96 32 g, op_payload = bytes_at 128 (payload_len g) g,
                              op_sender = head_sender g, op_nonce = head_nonce g, op_expires_at = head_expires_at g,
                              op_msg = head_msg g, op_index = head_index g, op_chunks = head_chunks g, op_kind = head_kind g\<rparr>))
                  | _ \<Rightarrow> (FZN_SEAL_ERR_SHAPE, frame, None))
            | _ \<Rightarrow> (FZN_SEAL_ERR_HASH, frame, None))
      | _ \<Rightarrow> (FZN_SEAL_ERR_MALFORMED, frame, None))"

definition fzn_seal_peek :: "bytes option \<Rightarrow> fzn_seal_err \<times> fzn_peek option" where
  "fzn_seal_peek frame =
     (case frame of None \<Rightarrow> (FZN_SEAL_ERR_MALFORMED, None)
      | Some f \<Rightarrow> if \<not> views f then (FZN_SEAL_ERR_SHAPE, None)
        else (FZN_SEAL_OK, Some \<lparr>pk_sender = head_sender f, pk_nonce = head_nonce f, pk_commitment = head_commitment f,
               pk_expires_at = head_expires_at f, pk_msg = head_msg f, pk_index = head_index f, pk_chunks = head_chunks f,
               pk_kind = head_kind f\<rparr>))"

definition fzn_seal_peek_sender :: "bytes option \<Rightarrow> fzn_seal_err \<times> key option" where
  "fzn_seal_peek_sender frame =
     (case fzn_seal_peek frame of (FZN_SEAL_OK, Some head) \<Rightarrow> (FZN_SEAL_OK, Some (pk_sender head)) | (err, _) \<Rightarrow> (err, None))"

definition fzn_seal_close :: "bytes option \<Rightarrow> bytes option \<Rightarrow> fzn_aead_ops \<Rightarrow> fzn_seal_err \<times> bytes option" where
  "fzn_seal_close frame key aead =
     (case (frame, key, ao_seal aead) of
        (Some f, Some k, Some aseal) \<Rightarrow>
          if \<not> views f then (FZN_SEAL_ERR_SHAPE, frame)
          else (case (tag_covered f, tag_ptr f) of
              (Some (covered_at, covered_len), Some tag) \<Rightarrow>
                if covered_len < SITU_FZN_HEAD_SIZE_FIXED then (FZN_SEAL_ERR_SHAPE, frame)
                else (case aseal k (head_nonce f) (bytes_at covered_at SITU_FZN_HEAD_SIZE_FIXED f)
                       (bytes_at (covered_at + SITU_FZN_HEAD_SIZE_FIXED) (covered_len - SITU_FZN_HEAD_SIZE_FIXED) f) of
                    None \<Rightarrow> (FZN_SEAL_ERR_AEAD, frame)
                  | Some (text, t) \<Rightarrow> (FZN_SEAL_OK, Some (put_at tag t (put_at (covered_at + SITU_FZN_HEAD_SIZE_FIXED) text f))))
            | _ \<Rightarrow> (FZN_SEAL_ERR_SHAPE, frame))
      | _ \<Rightarrow> (FZN_SEAL_ERR_MALFORMED, frame))"

type_synonym fzn_random_ops = "(nat \<Rightarrow> bytes option) option"

definition fzn_nonce_next :: "fzn_random_ops option \<Rightarrow> bytes option" where
  "fzn_nonce_next rng = (case rng of Some (Some fill) \<Rightarrow> fill FZN_AEAD_NONCE_LEN | _ \<Rightarrow> None)"

text \<open>The plain frame \<open>fzn_seal_build\<close> lays out before it seals: hop, head, capability, payload, room for the tag.\<close>

definition lay_out :: "fzn_send \<Rightarrow> bytes \<Rightarrow> bytes \<Rightarrow> bytes" where
  "lay_out what nonce commitment =
     [1, se_hops what] @ fzn_put_be16 (ucast (se_service_hint what)) @ [0] @
     [se_kind what] @ the (se_sender what) @ fzn_put_be64 (se_expires_at what) @ nonce @ commitment @
     fzn_put_be32 (se_msg what) @ fzn_put_be16 (se_index what) @ fzn_put_be16 (se_chunks what) @
     fzn_put_be16 (of_nat (se_payload_len what)) @
     the (se_capability what) @ (if se_payload_len what > 0 then take (se_payload_len what) (the (se_payload what)) else []) @
     replicate FZN_AEAD_TAG_LEN 0"

definition fzn_seal_build :: "nat \<Rightarrow> fzn_send \<Rightarrow> bytes option \<Rightarrow> bytes option \<Rightarrow> fzn_hash_fn option \<Rightarrow> fzn_random_ops option \<Rightarrow>
    fzn_aead_ops \<Rightarrow> fzn_seal_err \<times> bytes option" where
  "fzn_seal_build frame_cap what key commitment_key hash rng aead =
     (if se_sender what = None \<or> se_capability what = None \<or> key = None \<or> commitment_key = None \<or> hash = None \<or> rng = None \<or>
         ao_seal aead = None then (FZN_SEAL_ERR_MALFORMED, None)
      else if se_payload what = None \<and> se_payload_len what \<noteq> 0 then (FZN_SEAL_ERR_MALFORMED, None)
      else if se_hops what > FZN_RELAY_MAX_HOPS then (FZN_SEAL_ERR_MALFORMED, None)
      else if se_service_hint what > FZN_RELAY_SERVICE_MAX then (FZN_SEAL_ERR_MALFORMED, None)
      else if se_payload_len what > SITU_FZN_HEAD_LENGTH_VALUE_MAX then (FZN_SEAL_ERR_SHAPE, None)
      else if \<not> situ_fzn_kind_is_known (se_kind what) then (FZN_SEAL_ERR_SHAPE, None)
      else if int (unat (se_index what)) > int (unat (se_chunks what)) - 1 then (FZN_SEAL_ERR_SHAPE, None)
      else if frame_cap < FZN_SEAL_OVERHEAD + se_payload_len what then (FZN_SEAL_ERR_CAPACITY, None)
      else case fzn_nonce_next rng of
          None \<Rightarrow> (FZN_SEAL_ERR_NO_NONCE, None)
        | Some nonce \<Rightarrow>
          (case fzn_commitment_for_nonce hash commitment_key (Some nonce) of
             (FZN_COMMITMENT_OK, Some commitment) \<Rightarrow>
               (case fzn_seal_close (Some (lay_out what nonce commitment)) key aead of
                  (FZN_SEAL_OK, frame) \<Rightarrow> (FZN_SEAL_OK, frame)
                | (err, _) \<Rightarrow> (err, Some (replicate (FZN_SEAL_OVERHEAD + se_payload_len what) 0)))
           | _ \<Rightarrow> (FZN_SEAL_ERR_HASH, None)))"

definition fzn_seal_err_str :: "fzn_seal_err \<Rightarrow> string" where
  "fzn_seal_err_str err =
     (case err of FZN_SEAL_OK \<Rightarrow> ''ok'' | FZN_SEAL_ERR_MALFORMED \<Rightarrow> ''malformed argument''
      | FZN_SEAL_ERR_SHAPE \<Rightarrow> ''not the shape the schema describes'' | FZN_SEAL_ERR_TAG \<Rightarrow> ''tag did not verify''
      | FZN_SEAL_ERR_COMMITMENT \<Rightarrow> ''key commitment mismatch'' | FZN_SEAL_ERR_NO_NONCE \<Rightarrow> ''no nonce could be drawn''
      | FZN_SEAL_ERR_CAPACITY \<Rightarrow> ''caller buffer too small'' | FZN_SEAL_ERR_HASH \<Rightarrow> ''hash seam refused''
      | FZN_SEAL_ERR_AEAD \<Rightarrow> ''the aead refused while sealing'')"

section \<open>Relays\<close>

datatype fzn_relay_err = FZN_RELAY_OK | FZN_RELAY_ERR_MALFORMED | FZN_RELAY_ERR_SHAPE | FZN_RELAY_ERR_EXHAUSTED | FZN_RELAY_ERR_REFUSED

record fzn_relay_policy =
  rp_service :: u16
  rp_allowed :: u8

definition hop_view :: "bytes \<Rightarrow> bool" where
  "hop_view f \<longleftrightarrow> \<not> length f > UINT32_MAX \<and> \<not> length f < SITU_FZN_HOP_SIZE_FIXED"

definition hops_left :: "bytes \<Rightarrow> u8" where "hops_left f = f ! 1"
definition service_hint :: "bytes \<Rightarrow> u16" where "service_hint f = fzn_get_be16 (bytes_at 2 2 f)"

definition fzn_relay_budget :: "bytes option \<Rightarrow> u8 \<Rightarrow> fzn_relay_err + u8" where
  "fzn_relay_budget frame allowed =
     (case frame of None \<Rightarrow> Inl FZN_RELAY_ERR_MALFORMED
      | Some f \<Rightarrow> if \<not> hop_view f then Inl FZN_RELAY_ERR_SHAPE
        else if hop_check f \<noteq> SITU_OK then Inl FZN_RELAY_ERR_SHAPE
        else Inr (if hops_left f < allowed then hops_left f else allowed))"

definition fzn_relay_service :: "bytes option \<Rightarrow> fzn_relay_err + u16" where
  "fzn_relay_service frame =
     (case frame of None \<Rightarrow> Inl FZN_RELAY_ERR_MALFORMED
      | Some f \<Rightarrow> if \<not> hop_view f then Inl FZN_RELAY_ERR_SHAPE
        else if hop_check f \<noteq> SITU_OK then Inl FZN_RELAY_ERR_SHAPE
        else Inr (service_hint f))"

definition policy_ceiling :: "bytes option \<Rightarrow> fzn_relay_policy list option \<Rightarrow> u8 \<Rightarrow> fzn_relay_err + u8" where
  "policy_ceiling frame policy fallback =
     (case fzn_relay_service frame of Inl err \<Rightarrow> Inl err
      | Inr hinted \<Rightarrow>
        let ceiling = (case find (\<lambda>p. rp_service p = hinted) (case policy of None \<Rightarrow> [] | Some ps \<Rightarrow> ps) of
              Some p \<Rightarrow> rp_allowed p | None \<Rightarrow> fallback)
        in if ceiling = 0 then Inl FZN_RELAY_ERR_REFUSED else Inr ceiling)"

definition fzn_relay_budget_policy :: "bytes option \<Rightarrow> fzn_relay_policy list option \<Rightarrow> u8 \<Rightarrow> fzn_relay_err + u8" where
  "fzn_relay_budget_policy frame policy fallback =
     (if frame = None then Inl FZN_RELAY_ERR_MALFORMED
      else case policy_ceiling frame policy fallback of Inl err \<Rightarrow> Inl err | Inr ceiling \<Rightarrow> fzn_relay_budget frame ceiling)"

definition fzn_relay_spend :: "bytes option \<Rightarrow> u8 \<Rightarrow> fzn_relay_err \<times> bytes option" where
  "fzn_relay_spend frame allowed =
     (case fzn_relay_budget frame allowed of Inl err \<Rightarrow> (err, frame)
      | Inr budget \<Rightarrow> if budget = 0 then (FZN_RELAY_ERR_EXHAUSTED, frame)
        else if \<not> hop_view (the frame) then (FZN_RELAY_ERR_SHAPE, frame)
        else (FZN_RELAY_OK, Some ((the frame)[1 := budget - 1])))"

definition fzn_relay_spend_policy :: "bytes option \<Rightarrow> fzn_relay_policy list option \<Rightarrow> u8 \<Rightarrow> fzn_relay_err \<times> bytes option" where
  "fzn_relay_spend_policy frame policy fallback =
     (if frame = None then (FZN_RELAY_ERR_MALFORMED, frame)
      else case policy_ceiling frame policy fallback of Inl err \<Rightarrow> (err, frame) | Inr ceiling \<Rightarrow> fzn_relay_spend frame ceiling)"

definition fzn_relay_err_str :: "fzn_relay_err \<Rightarrow> string" where
  "fzn_relay_err_str err =
     (case err of FZN_RELAY_OK \<Rightarrow> ''ok'' | FZN_RELAY_ERR_MALFORMED \<Rightarrow> ''malformed argument''
      | FZN_RELAY_ERR_SHAPE \<Rightarrow> ''not a frame this host can read'' | FZN_RELAY_ERR_EXHAUSTED \<Rightarrow> ''hop budget spent''
      | FZN_RELAY_ERR_REFUSED \<Rightarrow> ''this host does not relay this subsystem'')"

section \<open>The parts of a frame\<close>

text \<open>
  A frame that \<open>views\<close> accepts is a prefix of 96 bytes, hop and head, the sealed region whose length
  the head states, and the tag, and nothing after it.
\<close>

definition prefix_ok :: "bytes \<Rightarrow> bool" where
  "prefix_ok pre \<longleftrightarrow> length pre = 96 \<and> hop_check pre = SITU_OK \<and> head_check pre = SITU_OK"

lemma head_prefix:
  assumes "length pre = 96"
  shows "head_kind (pre @ rest) = head_kind pre" "head_sender (pre @ rest) = head_sender pre"
    "head_expires_at (pre @ rest) = head_expires_at pre" "head_nonce (pre @ rest) = head_nonce pre"
    "head_commitment (pre @ rest) = head_commitment pre" "head_msg (pre @ rest) = head_msg pre"
    "head_index (pre @ rest) = head_index pre" "head_chunks (pre @ rest) = head_chunks pre"
    "head_length (pre @ rest) = head_length pre" "hop_check (pre @ rest) = hop_check pre"
    "head_check (pre @ rest) = head_check pre"
  using assms
  by (simp_all add: head_kind_def head_sender_def head_expires_at_def head_nonce_def head_commitment_def head_msg_def
      head_index_def head_chunks_def head_length_def hop_check_def head_check_def nth_append)

lemma head_check_length: "head_check pre = SITU_OK \<Longrightarrow> unat (head_length pre) \<le> 1024"
  by (auto simp: head_check_def split: if_splits)

lemma frame_offsets:
  assumes "prefix_ok pre" and "length x = 32 + unat (head_length pre)" and "length t = 16"
  defines "f \<equiv> pre @ x @ t"
  shows "views f" "tag_covered f = Some (5, 91 + length x)" "tag_ptr f = Some (96 + length x)"
    "payload_len f = unat (head_length pre)"
proof -
  have pre: "length pre = 96" "unat (head_length pre) \<le> 1024" using assms(1) head_check_length by (auto simp: prefix_ok_def)
  have len: "length f = 144 + unat (head_length pre)" using assms(2,3) pre by (simp add: f_def)
  have h: "head_length f = head_length pre" "hop_check f = SITU_OK" "head_check f = SITU_OK"
    using assms(1) by (simp_all add: f_def head_prefix prefix_ok_def)
  have off: "tag_offset f = 96 + length x" using len assms(2) by (simp add: tag_offset_def h situ_advance_def situ_remaining_def)
  show "views f" "tag_covered f = Some (5, 91 + length x)" "tag_ptr f = Some (96 + length x)"
    using len pre(2) assms(2) by (simp_all add: views_def frame_check_def h off situ_in_bounds_def situ_remaining_def tag_covered_def tag_ptr_def)
  show "payload_len f = unat (head_length pre)" using len by (simp add: payload_len_def h situ_remaining_def)
qed

lemma views_parts:
  assumes "views f"
  obtains pre x t where "f = pre @ x @ t" "prefix_ok pre" "length x = 32 + unat (head_length pre)" "length t = 16"
proof -
  let ?pre = "take 96 f" and ?n = "32 + unat (head_length f)"
  have len: "144 \<le> length f" and off: "length f = tag_offset f + 16" and room: "?n \<le> situ_remaining (length f) 96"
    and ok: "hop_check f = SITU_OK" "head_check f = SITU_OK"
    using assms by (auto simp: views_def frame_check_def split: if_splits)
  have total: "length f = 96 + ?n + 16"
    using off room len by (simp add: tag_offset_def situ_advance_def situ_remaining_def Let_def split: if_splits)
  have pre: "length ?pre = 96" using len by simp
  note h = head_prefix(9-11) [OF pre, of "drop 96 f", unfolded append_take_drop_id]
  show thesis
  proof (rule that)
    show "f = ?pre @ bytes_at 96 ?n f @ drop (96 + ?n) f"
      by (simp only: append_assoc [symmetric] split_at_bytes_at [symmetric] append_take_drop_id)
    show "prefix_ok ?pre" using ok pre h by (simp add: prefix_ok_def)
    have "length (bytes_at 96 ?n f) = ?n" using total by simp
    then show "length (bytes_at 96 ?n f) = 32 + unat (head_length ?pre)" by (simp only: h(1))
    show "length (drop (96 + ?n) f) = 16" using total by simp
  qed
qed

text \<open>Opening in terms of the parts.\<close>

definition opened_of :: "bytes \<Rightarrow> bytes \<Rightarrow> fzn_opened" where
  "opened_of pre text = \<lparr>op_capability = take 32 text, op_payload = bytes_at 32 (unat (head_length pre)) text, op_sender = head_sender pre,
     op_nonce = head_nonce pre, op_expires_at = head_expires_at pre, op_msg = head_msg pre, op_index = head_index pre,
     op_chunks = head_chunks pre, op_kind = head_kind pre\<rparr>"

lemma commitment_ok_iff:
  "fzn_commitment_check (Some d) (Some r) = FZN_COMMITMENT_OK \<longleftrightarrow> take 16 d = take 16 r"
  if "16 \<le> length d" "16 \<le> length r"
  using that by (simp add: fzn_commitment_check_def ct_memeq_prefix)

lemma put_at_middle: "length pre = n \<Longrightarrow> length y = length x \<Longrightarrow> put_at n y (pre @ x @ t) = pre @ y @ t"
  by (simp add: put_at_def)

lemma open_parts:
  assumes "prefix_ok pre" and "length x = 32 + unat (head_length pre)" and "length t = 16"
    and "ao_open aead = Some aopen" and "\<forall>plain. aopen k (head_nonce pre) (drop 5 pre) x t = Some plain \<longrightarrow> length plain = length x"
  shows "fzn_seal_open (Some (pre @ x @ t)) (Some k) (Some ck) (Some h) aead =
    (case fzn_commitment_for_nonce (Some h) (Some ck) (Some (head_nonce pre)) of
       (FZN_COMMITMENT_OK, derived) \<Rightarrow>
         if fzn_commitment_check derived (Some (head_commitment pre)) \<noteq> FZN_COMMITMENT_OK
         then (FZN_SEAL_ERR_COMMITMENT, Some (pre @ x @ t), None)
         else (case aopen k (head_nonce pre) (drop 5 pre) x t of
             None \<Rightarrow> (FZN_SEAL_ERR_TAG, Some (pre @ x @ t), None)
           | Some text \<Rightarrow> (FZN_SEAL_OK, Some (pre @ text @ t), Some (opened_of pre text)))
     | _ \<Rightarrow> (FZN_SEAL_ERR_HASH, Some (pre @ x @ t), None))"
proof -
  let ?f = "pre @ x @ t"
  have pre: "length pre = 96" using assms(1) by (simp add: prefix_ok_def)
  note off = frame_offsets [OF assms(1-3)] and hp = head_prefix [OF pre]
  have parts: "bytes_at 5 91 ?f = drop 5 pre" "bytes_at 96 (length x) ?f = x" "bytes_at (96 + length x) 16 ?f = t"
    using pre assms(3) by (simp_all add: bytes_at_def)
  have opened: "\<lparr>op_capability = bytes_at 96 32 g, op_payload = bytes_at 128 (payload_len g) g,
      op_sender = head_sender g, op_nonce = head_nonce g, op_expires_at = head_expires_at g, op_msg = head_msg g,
      op_index = head_index g, op_chunks = head_chunks g, op_kind = head_kind g\<rparr> = opened_of pre plain"
    if "g = pre @ plain @ t" "length plain = length x" for g plain
    unfolding that(1) using pre frame_offsets(4) [OF assms(1) _ assms(3), of plain] that(2) assms(2)
    by (simp add: opened_of_def hp bytes_at_def)
  obtain ce dv where c: "fzn_commitment_for_nonce (Some h) (Some ck) (Some (head_nonce pre)) = (ce, dv)" by fastforce
  show ?thesis
  proof (cases "aopen k (head_nonce pre) (drop 5 pre) x t")
    case None
    then show ?thesis by (cases ce) (simp_all add: fzn_seal_open_def Let_def c off assms(4) parts hp)
  next
    case (Some plain)
    then have len: "length plain = length x" using assms(5) by simp
    then have "put_at 96 plain ?f = pre @ plain @ t" using pre by (simp add: put_at_middle)
    then show ?thesis
      using Some opened [OF refl len] by (cases ce) (simp_all add: fzn_seal_open_def Let_def c off assms(4) parts hp)
  qed
qed

lemma close_parts:
  assumes "prefix_ok pre" and "length x = 32 + unat (head_length pre)" and "length t = 16" and "ao_seal aead = Some aseal"
    and "\<And>y tag. aseal k (head_nonce pre) (drop 5 pre) x = Some (y, tag) \<Longrightarrow> length y = length x \<and> length tag = 16"
  shows "fzn_seal_close (Some (pre @ x @ t)) (Some k) aead =
    (case aseal k (head_nonce pre) (drop 5 pre) x of None \<Rightarrow> (FZN_SEAL_ERR_AEAD, Some (pre @ x @ t))
     | Some (y, tag) \<Rightarrow> (FZN_SEAL_OK, Some (pre @ y @ tag)))"
proof -
  let ?f = "pre @ x @ t"
  have pre: "length pre = 96" using assms(1) by (simp add: prefix_ok_def)
  have parts: "bytes_at 5 91 ?f = drop 5 pre" "bytes_at 96 (length x) ?f = x" using pre by (simp_all add: bytes_at_def)
  have puts: "put_at (96 + length x) tag (put_at 96 y ?f) = pre @ y @ tag" if "length y = length x" "length tag = 16" for y tag
    using pre assms(3) that by (simp add: put_at_def)
  show ?thesis
  proof (cases "aseal k (head_nonce pre) (drop 5 pre) x")
    case None
    then show ?thesis
      by (simp add: fzn_seal_close_def frame_offsets [OF assms(1-3)] head_prefix [OF pre] assms(4) parts)
  next
    case (Some p)
    obtain y tag where p: "p = (y, tag)" by fastforce
    from assms(5) [OF Some [unfolded p]] have put: "put_at (96 + length x) tag (put_at 96 y ?f) = pre @ y @ tag" by (intro puts) simp_all
    show ?thesis
      by (simp add: fzn_seal_close_def frame_offsets [OF assms(1-3)] head_prefix [OF pre] assms(4) parts Some p put)
  qed
qed

text \<open>The contract of the cipher (\<open>session/aead.h\<close>): what was sealed opens, and lengths are kept.\<close>

definition aead_inverts :: "fzn_aead_ops \<Rightarrow> bool" where
  "aead_inverts aead \<longleftrightarrow>
     (case (ao_seal aead, ao_open aead) of
        (Some aseal, Some aopen) \<Rightarrow>
          (\<forall>k n a x y t. aseal k n a x = Some (y, t) \<longrightarrow> length y = length x \<and> length t = FZN_AEAD_TAG_LEN \<and> aopen k n a y t = Some x)
      | _ \<Rightarrow> False)"

definition hash_fills :: "fzn_hash_fn \<Rightarrow> bool" where
  "hash_fills h \<longleftrightarrow> (\<forall>n b d. h n b = Some d \<longrightarrow> length d = n)"

definition random_fills :: "fzn_random_ops option \<Rightarrow> bool" where
  "random_fills rng \<longleftrightarrow> (\<forall>fill n b. rng = Some (Some fill) \<and> fill n = Some b \<longrightarrow> length b = n)"

text \<open>What a caller hands over: arrays of the lengths the types state.\<close>

definition send_wf :: "fzn_send \<Rightarrow> bool" where
  "send_wf what \<longleftrightarrow> (\<forall>s. se_sender what = Some s \<longrightarrow> length s = 32) \<and> (\<forall>c. se_capability what = Some c \<longrightarrow> length c = 32) \<and>
     (\<forall>p. se_payload what = Some p \<longrightarrow> se_payload_len what \<le> length p)"

definition sent_payload :: "fzn_send \<Rightarrow> bytes" where
  "sent_payload what = (case se_payload what of Some p \<Rightarrow> take (se_payload_len what) p | None \<Rightarrow> [])"

definition sent_prefix :: "fzn_send \<Rightarrow> bytes \<Rightarrow> bytes \<Rightarrow> bytes" where
  "sent_prefix what nonce commitment =
     [1, se_hops what] @ fzn_put_be16 (ucast (se_service_hint what)) @ [0] @
     [se_kind what] @ the (se_sender what) @ fzn_put_be64 (se_expires_at what) @ nonce @ commitment @
     fzn_put_be32 (se_msg what) @ fzn_put_be16 (se_index what) @ fzn_put_be16 (se_chunks what) @
     fzn_put_be16 (of_nat (se_payload_len what))"

lemma sent_prefix_fields:
  assumes "se_sender what = Some s" and "length s = 32" and "length nonce = 24" and "length commitment = 16"
  shows "length (sent_prefix what nonce commitment) = 96"
    and "head_kind (sent_prefix what nonce commitment) = se_kind what" and "head_sender (sent_prefix what nonce commitment) = s"
    and "head_expires_at (sent_prefix what nonce commitment) = se_expires_at what"
    and "head_nonce (sent_prefix what nonce commitment) = nonce" and "head_commitment (sent_prefix what nonce commitment) = commitment"
    and "head_msg (sent_prefix what nonce commitment) = se_msg what" and "head_index (sent_prefix what nonce commitment) = se_index what"
    and "head_chunks (sent_prefix what nonce commitment) = se_chunks what"
    and "head_length (sent_prefix what nonce commitment) = of_nat (se_payload_len what)"
    and "hop_check (sent_prefix what nonce commitment) = SITU_OK" and "hops_left (sent_prefix what nonce commitment) = se_hops what"
  using assms
  by (simp_all add: sent_prefix_def head_kind_def head_sender_def head_expires_at_def head_nonce_def head_commitment_def
      head_msg_def head_index_def head_chunks_def head_length_def hop_check_def hops_left_def nth_append get_put_be16 get_put_be32 get_put_be64)

lemma build_prefix:
  assumes "se_sender what = Some s" and "length s = 32" and "length nonce = 24" and "length commitment = 16"
    and "se_payload_len what \<le> 1024" and "situ_fzn_kind_is_known (se_kind what)"
    and "\<not> int (unat (se_index what)) > int (unat (se_chunks what)) - 1"
  shows "prefix_ok (sent_prefix what nonce commitment)"
    and "unat (head_length (sent_prefix what nonce commitment)) = se_payload_len what"
proof -
  note fields = sent_prefix_fields [OF assms(1-4)]
  have len: "unat (of_nat (se_payload_len what) :: u16) = se_payload_len what" using assms(5) by (simp add: unat_of_nat)
  then show "unat (head_length (sent_prefix what nonce commitment)) = se_payload_len what" by (simp add: fields)
  show "prefix_ok (sent_prefix what nonce commitment)"
    using assms(5-7) len by (simp add: prefix_ok_def fields head_check_def)
qed

lemma lay_out_parts:
  assumes "send_wf what" and "se_capability what = Some c" and "se_payload what = None \<longrightarrow> se_payload_len what = 0"
  shows "lay_out what nonce commitment = sent_prefix what nonce commitment @ (c @ sent_payload what) @ replicate 16 0"
    and "length (c @ sent_payload what) = 32 + se_payload_len what"
  using assms by (auto simp: lay_out_def sent_prefix_def sent_payload_def send_wf_def split: option.splits)

lemma seal_build_opens:
  assumes "aead_inverts aead" and "hash_fills h" and "random_fills rng" and "send_wf what"
    and "fzn_seal_build frame_cap what (Some k) (Some ck) (Some h) rng aead = (FZN_SEAL_OK, Some f)"
  shows "\<exists>g out. fzn_seal_open (Some f) (Some k) (Some ck) (Some h) aead = (FZN_SEAL_OK, Some g, Some out) \<and>
    length f \<le> frame_cap \<and> hops_left f = se_hops what \<and> hops_left f \<le> FZN_RELAY_MAX_HOPS \<and>
    Some (op_sender out) = se_sender what \<and> Some (op_capability out) = se_capability what \<and> op_payload out = sent_payload what \<and>
    op_expires_at out = se_expires_at what \<and> op_msg out = se_msg what \<and> op_index out = se_index what \<and>
    op_chunks out = se_chunks what \<and> op_kind out = se_kind what"
proof -
  have guards: "se_sender what \<noteq> None" "se_capability what \<noteq> None" "ao_seal aead \<noteq> None"
      "se_payload what = None \<longrightarrow> se_payload_len what = 0" "se_hops what \<le> 8" "se_payload_len what \<le> 1024"
      "situ_fzn_kind_is_known (se_kind what)" "\<not> int (unat (se_index what)) > int (unat (se_chunks what)) - 1"
      "144 + se_payload_len what \<le> frame_cap"
    using assms(5) by (auto simp: fzn_seal_build_def split: if_splits)
  from guards(1-3) obtain s c aseal where w: "se_sender what = Some s" "se_capability what = Some c" "ao_seal aead = Some aseal" by auto
  have lens: "length s = 32" "length c = 32" using assms(4) w by (simp_all add: send_wf_def)
  have rest: "(case fzn_nonce_next rng of None \<Rightarrow> (FZN_SEAL_ERR_NO_NONCE, None)
        | Some nonce \<Rightarrow>
          (case fzn_commitment_for_nonce (Some h) (Some ck) (Some nonce) of
             (FZN_COMMITMENT_OK, Some commitment) \<Rightarrow>
               (case fzn_seal_close (Some (lay_out what nonce commitment)) (Some k) aead of
                  (FZN_SEAL_OK, frame) \<Rightarrow> (FZN_SEAL_OK, frame)
                | (err, _) \<Rightarrow> (err, Some (replicate (FZN_SEAL_OVERHEAD + se_payload_len what) 0)))
           | _ \<Rightarrow> (FZN_SEAL_ERR_HASH, None))) = (FZN_SEAL_OK, Some f)"
    using assms(5) by (auto simp: fzn_seal_build_def simp del: replicate.simps split: if_splits)
  obtain nonce where n: "fzn_nonce_next rng = Some nonce" using rest by (auto split: option.splits)
  then have nl: "length nonce = 24" using assms(3) by (auto simp: fzn_nonce_next_def random_fills_def split: option.splits)
  obtain d where d: "h 16 (FZN_BIND_LABEL @ ck @ nonce) = Some d"
    using rest n by (auto simp: fzn_commitment_for_nonce_def split: option.splits)
  have dl: "length d = 16" using assms(2) d by (simp add: hash_fills_def)
  then have c_ok: "fzn_commitment_for_nonce (Some h) (Some ck) (Some nonce) = (FZN_COMMITMENT_OK, Some d)"
    by (simp add: fzn_commitment_for_nonce_def d)
  let ?pre = "sent_prefix what nonce d" and ?x = "c @ sent_payload what"
  note fields = sent_prefix_fields [OF w(1) lens(1) nl dl]
  note pre = build_prefix [OF w(1) lens(1) nl dl guards(6-8)]
  note lay = lay_out_parts(1) [OF assms(4) w(2) guards(4), of nonce d] and xl = lay_out_parts(2) [OF assms(4) w(2) guards(4)]
  obtain aopen where o: "ao_open aead = Some aopen" using assms(1) by (auto simp: aead_inverts_def split: option.splits)
  have inv: "length y = length x \<and> length t = 16 \<and> aopen k n a y t = Some x" if "aseal k n a x = Some (y, t)" for k n a x y t
    using assms(1) that by (auto simp: aead_inverts_def w(3) o)
  have xl': "length ?x = 32 + unat (head_length ?pre)" using xl by (simp only: pre(2))
  note close = close_parts [OF pre(1) xl' _ w(3), of "replicate 16 0" k, unfolded fields(5)]
  obtain y tag where y: "aseal k nonce (drop 5 ?pre) ?x = Some (y, tag)" and f: "f = ?pre @ y @ tag"
    using rest close inv by (auto simp: n c_ok lay split: option.splits)
  note yt = inv [OF y]
  have "fzn_seal_open (Some f) (Some k) (Some ck) (Some h) aead = (FZN_SEAL_OK, Some (?pre @ ?x @ tag), Some (opened_of ?pre ?x))"
    using open_parts [OF pre(1) _ _ o, of y tag k ck h] yt xl'
    by (simp add: f fields(5,6) c_ok commitment_ok_iff dl)
  moreover have "hops_left f = se_hops what" using fields(1,12) by (simp add: f hops_left_def nth_append)
  moreover have "length f \<le> frame_cap" using guards(9) fields(1) yt xl by (simp add: f)
  ultimately show ?thesis
    using guards(5) w lens xl by (auto simp: opened_of_def fields pre(2) [unfolded fields(10)] bytes_at_def)
qed

text \<open>
  C5. What is sealed opens. A frame that \<open>fzn_seal_build\<close> returns opens under the same keys and gives
  back the sender, the capability, the payload and every field of the head as they were handed over,
  for every cipher that opens what it sealed.
\<close>

theorem sealed_frame_opens:
  assumes "aead_inverts aead" and "hash_fills h" and "random_fills rng" and "send_wf what"
    and "fzn_seal_build frame_cap what (Some k) (Some ck) (Some h) rng aead = (FZN_SEAL_OK, Some f)"
  shows "\<exists>g out. fzn_seal_open (Some f) (Some k) (Some ck) (Some h) aead = (FZN_SEAL_OK, Some g, Some out) \<and>
    length f \<le> frame_cap \<and> hops_left f = se_hops what \<and> hops_left f \<le> FZN_RELAY_MAX_HOPS \<and>
    Some (op_sender out) = se_sender what \<and> Some (op_capability out) = se_capability what \<and> op_payload out = sent_payload what \<and>
    op_expires_at out = se_expires_at what \<and> op_msg out = se_msg what \<and> op_index out = se_index what \<and>
    op_chunks out = se_chunks what \<and> op_kind out = se_kind what"
  using seal_build_opens [OF assms] .

definition demo_aead :: fzn_aead_ops where
  "demo_aead = \<lparr>ao_seal = Some (\<lambda>k n a x. Some (map (\<lambda>b. b XOR 90) x, replicate 16 7)),
     ao_open = Some (\<lambda>k n a y t. if t = replicate 16 7 then Some (map (\<lambda>b. b XOR 90) y) else None)\<rparr>"

definition demo_fn :: fzn_hash_fn where
  "demo_fn n b = Some (replicate n 9)"

definition demo_random :: "fzn_random_ops option" where
  "demo_random = Some (Some (\<lambda>n. Some (replicate n 4)))"

definition demo_send :: fzn_send where
  "demo_send = \<lparr>se_sender = Some (replicate 32 2), se_capability = Some (replicate 32 3), se_payload = Some [1, 2, 3], se_payload_len = 3,
     se_expires_at = 50, se_msg = 7, se_index = 0, se_chunks = 1, se_kind = 1, se_hops = 2, se_service_hint = 0\<rparr>"

lemma demo_seams: "aead_inverts demo_aead" "hash_fills demo_fn" "random_fills demo_random" "send_wf demo_send"
  by (auto simp: aead_inverts_def demo_aead_def hash_fills_def demo_fn_def random_fills_def demo_random_def send_wf_def demo_send_def
      comp_def xor.assoc)

definition demo_prefix :: bytes where
  "demo_prefix = sent_prefix demo_send (replicate 24 4) (replicate 16 9)"

definition demo_plain :: bytes where
  "demo_plain = replicate 32 3 @ [1, 2, 3]"

definition demo_frame :: bytes where
  "demo_frame = demo_prefix @ map (\<lambda>b. b XOR 90) demo_plain @ replicate 16 7"

lemma demo_prefix_ok: "prefix_ok demo_prefix" "length demo_plain = 32 + unat (head_length demo_prefix)"
  using build_prefix [of demo_send "replicate 32 2" "replicate 24 4" "replicate 16 9"]
  by (simp_all add: demo_prefix_def demo_plain_def) (simp_all add: demo_send_def situ_fzn_kind_is_known_def)

lemma demo_fields: "head_nonce demo_prefix = replicate 24 4" "head_commitment demo_prefix = replicate 16 9" "hops_left demo_prefix = 2"
  "length demo_prefix = 96" "hop_check demo_prefix = SITU_OK"
  using sent_prefix_fields [of demo_send "replicate 32 2" "replicate 24 4" "replicate 16 9"]
  by (simp_all add: demo_prefix_def) (simp_all add: demo_send_def)

lemma demo_bound:
  "fzn_commitment_for_nonce (Some demo_fn) (Some ck) (Some (replicate 24 4)) = (FZN_COMMITMENT_OK, Some (replicate 16 9))"
  by (simp add: fzn_commitment_for_nonce_def demo_fn_def)

lemma demo_built:
  "fzn_seal_build 200 demo_send (Some k) (Some ck) (Some demo_fn) demo_random demo_aead =
     (FZN_SEAL_OK, Some demo_frame)"
proof -
  have lay: "lay_out demo_send (replicate 24 4) (replicate 16 9) = demo_prefix @ demo_plain @ replicate 16 0"
    using lay_out_parts(1) [OF demo_seams(4), of "replicate 32 3" "replicate 24 4" "replicate 16 9"]
    by (simp add: demo_prefix_def demo_plain_def demo_send_def sent_payload_def)
  have sealer: "ao_seal demo_aead = Some (\<lambda>k n a x. Some (map (\<lambda>b. b XOR 90) x, replicate 16 7))"
    by (simp add: demo_aead_def)
  have "fzn_seal_close (Some (demo_prefix @ demo_plain @ replicate 16 0)) (Some k) demo_aead =
      (FZN_SEAL_OK, Some demo_frame)"
    by (subst close_parts [OF demo_prefix_ok _ sealer]) (auto simp: demo_frame_def)
  moreover have "fzn_nonce_next demo_random = Some (replicate 24 4)" by (simp add: fzn_nonce_next_def demo_random_def)
  ultimately show ?thesis
    by (simp add: fzn_seal_build_def demo_bound lay) (simp add: demo_send_def demo_aead_def demo_random_def situ_fzn_kind_is_known_def)
qed

theorem sealed_frame_opens_witness:
  "\<exists>f g out. fzn_seal_open (Some f) (Some (replicate 32 1)) (Some (replicate 32 1)) (Some demo_fn) demo_aead = (FZN_SEAL_OK, Some g, Some out) \<and>
     op_payload out = [1, 2, 3] \<and> op_sender out = replicate 32 2"
proof -
  from sealed_frame_opens [OF demo_seams demo_built [of "replicate 32 1" "replicate 32 1"]] show ?thesis by (auto simp: demo_send_def sent_payload_def)
qed

section \<open>Frames in flight\<close>

text \<open>A frame handed from relay to relay, each with a budget of its own.\<close>

fun forwarded :: "bytes \<Rightarrow> u8 list \<Rightarrow> bytes option" where
  "forwarded f [] = Some f"
| "forwarded f (allowed # rest) =
     (case fzn_relay_spend (Some f) allowed of (FZN_RELAY_OK, Some g) \<Rightarrow> forwarded g rest | _ \<Rightarrow> None)"

lemma spend_ok:
  assumes "fzn_relay_spend (Some f) allowed = (FZN_RELAY_OK, Some g)"
  shows "unat (hops_left g) < unat (hops_left f)" and "unat (hops_left g) < unat allowed" and "g = f[1 := hops_left g]"
proof -
  let ?b = "if hops_left f < allowed then hops_left f else allowed"
  have f: "hop_view f" "?b \<noteq> 0" "g = f[1 := ?b - 1]"
    using assms by (auto simp: fzn_relay_spend_def fzn_relay_budget_def Let_def split: if_splits)
  have len: "5 \<le> length f" using f(1) by (simp add: hop_view_def)
  have b: "0 < unat ?b" "unat ?b \<le> unat (hops_left f)" "unat ?b \<le> unat allowed" "unat (?b - 1) = unat ?b - 1"
    using f(2) by (auto simp: unat_gt_0 word_le_nat_alt word_less_nat_alt unat_minus_one)
  have g: "hops_left g = ?b - 1" using len f(3) by (simp add: hops_left_def)
  show "unat (hops_left g) < unat (hops_left f)" "unat (hops_left g) < unat allowed" using b unfolding g by linarith+
  show "g = f[1 := hops_left g]" using f(3) unfolding g .
qed

lemma hop_byte_outside:
  assumes "length pre = 96"
  shows "prefix_ok (pre[1 := b]) = prefix_ok pre" "drop 5 (pre[1 := b]) = drop 5 pre" "head_nonce (pre[1 := b]) = head_nonce pre"
    "head_commitment (pre[1 := b]) = head_commitment pre" "head_length (pre[1 := b]) = head_length pre"
    "opened_of (pre[1 := b]) = opened_of pre"
proof -
  have d: "drop n (pre[1 := b]) = drop n pre" if "2 \<le> n" for n using that by (simp add: drop_update_cancel)
  have h: "head_kind (pre[1 := b]) = head_kind pre" "head_sender (pre[1 := b]) = head_sender pre"
    "head_expires_at (pre[1 := b]) = head_expires_at pre" "head_nonce (pre[1 := b]) = head_nonce pre"
    "head_commitment (pre[1 := b]) = head_commitment pre" "head_msg (pre[1 := b]) = head_msg pre"
    "head_index (pre[1 := b]) = head_index pre" "head_chunks (pre[1 := b]) = head_chunks pre"
    "head_length (pre[1 := b]) = head_length pre" "hop_check (pre[1 := b]) = hop_check pre"
    using assms d by (simp_all add: head_kind_def head_sender_def head_expires_at_def head_nonce_def head_commitment_def head_msg_def
        head_index_def head_chunks_def head_length_def hop_check_def bytes_at_def)
  show "prefix_ok (pre[1 := b]) = prefix_ok pre" "drop 5 (pre[1 := b]) = drop 5 pre" "head_nonce (pre[1 := b]) = head_nonce pre"
    "head_commitment (pre[1 := b]) = head_commitment pre" "head_length (pre[1 := b]) = head_length pre"
    "opened_of (pre[1 := b]) = opened_of pre"
    using d [of 5] by (simp_all add: prefix_ok_def head_check_def h [unfolded One_nat_def] opened_of_def fun_eq_iff)
qed

definition opens_in_place :: "fzn_aead_ops \<Rightarrow> bool" where
  "opens_in_place aead \<longleftrightarrow>
     (\<forall>aopen k n a y t x. ao_open aead = Some aopen \<and> aopen k n a y t = Some x \<longrightarrow> length x = length y)"

lemma views_hop_byte: "views (f[1 := b]) = views f"
proof -
  have "views (f[1 := b])" if "views f" for f b
  proof -
    from that obtain pre x t where p: "f = pre @ x @ t" "prefix_ok pre" "length x = 32 + unat (head_length pre)" "length t = 16"
      by (rule views_parts)
    then have "length pre = 96" by (simp add: prefix_ok_def)
    with p frame_offsets(1) [of "pre[1 := b]" x t] show ?thesis by (simp add: hop_byte_outside [unfolded One_nat_def] list_update_append)
  qed
  from this [of f b] this [of "f[1 := b]" "f ! 1"] show ?thesis by auto
qed

lemma open_hop_byte:
  assumes "opens_in_place aead"
  shows "fst (fzn_seal_open (Some (f[1 := b])) k ck h aead) = fst (fzn_seal_open (Some f) k ck h aead) \<and>
    snd (snd (fzn_seal_open (Some (f[1 := b])) k ck h aead)) = snd (snd (fzn_seal_open (Some f) k ck h aead))"
proof (cases "(\<exists>k' ck' h' aopen. k = Some k' \<and> ck = Some ck' \<and> h = Some h' \<and> ao_open aead = Some aopen) \<and> views f")
  case False
  then show ?thesis using views_hop_byte [of f b] by (auto simp: fzn_seal_open_def split: option.splits)
next
  case True
  then obtain k' ck' h' aopen where s: "k = Some k'" "ck = Some ck'" "h = Some h'" "ao_open aead = Some aopen" by blast
  from True obtain pre x t where p: "f = pre @ x @ t" "prefix_ok pre" "length x = 32 + unat (head_length pre)" "length t = 16"
    using views_parts by blast
  have l: "length pre = 96" using p(2) by (simp add: prefix_ok_def)
  have fits: "\<forall>plain. aopen k' n a x t = Some plain \<longrightarrow> length plain = length x" for n a
    using assms s(4) by (auto simp: opens_in_place_def)
  have f': "f[1 := b] = pre[1 := b] @ x @ t" using l by (simp add: p(1) list_update_append)
  note out = hop_byte_outside [OF l, of b]
  have new: "prefix_ok (pre[1 := b])" "length x = 32 + unat (head_length (pre[1 := b]))" using p out by simp_all
  note one = open_parts [OF p(2-4) s(4) fits, where ck = ck' and h = h'] and two = open_parts [OF new p(4) s(4) fits, where ck = ck' and h = h']
  obtain ce dv where c: "fzn_commitment_for_nonce (Some h') (Some ck') (Some (head_nonce pre)) = (ce, dv)" by fastforce
  show ?thesis
    unfolding f' unfolding p(1) s(1-3) unfolding one two unfolding out c
    by (cases ce; cases "aopen k' (head_nonce pre) (drop 5 pre) x t") simp_all
qed

text \<open>
  C14. A frame cannot circulate. However many relays pass it on, and whatever budget each of them
  allows, a frame is passed on at most as often as the hop count it set out with, the count left is
  below every budget on the way, and the receiver opens what arrives exactly as it would have opened
  what was sent.
\<close>

theorem relayed_frame_ends:
  assumes "opens_in_place aead" and "forwarded f budgets = Some g"
  shows "length budgets \<le> unat (hops_left f) \<and> unat (hops_left g) + length budgets \<le> unat (hops_left f) \<and>
    (\<forall>a \<in> set budgets. hops_left g < a) \<and>
    fst (fzn_seal_open (Some g) k ck h aead) = fst (fzn_seal_open (Some f) k ck h aead) \<and>
    snd (snd (fzn_seal_open (Some g) k ck h aead)) = snd (snd (fzn_seal_open (Some f) k ck h aead))"
  using assms(2)
proof (induction budgets arbitrary: f)
  case (Cons a budgets)
  then obtain f' where s: "fzn_relay_spend (Some f) a = (FZN_RELAY_OK, Some f')" and rest: "forwarded f' budgets = Some g"
    by (auto split: prod.splits fzn_relay_err.splits option.splits)
  note spent = spend_ok [OF s] and ih = Cons.IH [OF rest]
  have "unat (hops_left g) < unat a" using spent(2) ih by linarith
  then have "hops_left g < a" by (simp add: word_less_nat_alt)
  moreover have "fst (fzn_seal_open (Some f') k ck h aead) = fst (fzn_seal_open (Some f) k ck h aead)"
    "snd (snd (fzn_seal_open (Some f') k ck h aead)) = snd (snd (fzn_seal_open (Some f) k ck h aead))"
    using open_hop_byte [OF assms(1), of f "hops_left f'" k ck h] spent(3) by simp_all
  ultimately show ?case using ih spent(1) by auto
qed simp

theorem relayed_frame_ends_witness:
  "\<exists>g. forwarded demo_frame [8] = Some g \<and> hops_left g < 8 \<and>
     fst (fzn_seal_open (Some g) (Some (replicate 32 1)) (Some (replicate 32 1)) (Some demo_fn) demo_aead) = FZN_SEAL_OK"
proof -
  have view: "hop_view demo_frame" by (simp add: hop_view_def demo_frame_def demo_fields demo_plain_def)
  have shape: "hop_check demo_frame = SITU_OK" "hops_left demo_frame = 2"
    using head_prefix(10) [OF demo_fields(4)] demo_fields(3-5) by (simp_all add: demo_frame_def hops_left_def nth_append)
  then obtain g where g: "forwarded demo_frame [8] = Some g"
    using view by (simp add: fzn_relay_spend_def fzn_relay_budget_def)
  have "opens_in_place demo_aead" by (auto simp: opens_in_place_def demo_aead_def split: if_splits)
  moreover have "fst (fzn_seal_open (Some demo_frame) (Some (replicate 32 1)) (Some (replicate 32 1)) (Some demo_fn) demo_aead) = FZN_SEAL_OK"
    using open_parts [OF demo_prefix_ok(1), of "map (\<lambda>b. b XOR 90) demo_plain" "replicate 16 7" demo_aead] demo_prefix_ok(2)
    by (simp add: demo_frame_def demo_aead_def demo_fields demo_bound commitment_ok_iff)
  ultimately show ?thesis using relayed_frame_ends [OF _ g] g by auto
qed

end
