(* ===== verification/Admit.thy ===== *)
theory Admit
  imports Freshness Reassembly Seal
begin

text \<open>
  Taking a datagram in (\<open>admit/admit.c\<close>): the fixed order of gates between the network and the
  application, over the components the other theories model. A frame is looked at, a key is chosen by
  its commitment, the seal is opened, then freshness, replay, authority and reassembly decide. The
  theorems say what an admitted frame has behind it and what a refused one leaves behind.

  The caller's questions (\<open>fzn_admit_ops\<close>) are functions. The code of a step is kept with the
  module it comes from, which \<open>int err\<close> and the vocabulary say together in the source. A result
  field that is all zero in the source is \<open>None\<close>.
\<close>

section \<open>The model\<close>

datatype fzn_admit_step = FZN_ADMIT_ADMITTED | FZN_ADMIT_SHAPE | FZN_ADMIT_KEY_SELECT | FZN_ADMIT_COMMITMENT
  | FZN_ADMIT_TAG | FZN_ADMIT_FRESHNESS | FZN_ADMIT_REPLAY | FZN_ADMIT_CHAIN | FZN_ADMIT_REASSEMBLY

datatype fzn_admit_vocab = FZN_ADMIT_VOCAB_NONE | FZN_ADMIT_VOCAB_SEAL | FZN_ADMIT_VOCAB_COMMITMENT | FZN_ADMIT_VOCAB_FRESH
  | FZN_ADMIT_VOCAB_CHAIN | FZN_ADMIT_VOCAB_REASM | FZN_ADMIT_VOCAB_UNKNOWN_SENDER | FZN_ADMIT_VOCAB_NO_CHAIN

datatype fzn_admit_code = No_Code | Seal_Code fzn_seal_err | Commitment_Code fzn_commitment_err | Fresh_Code fzn_fresh_err
  | Chain_Code fzn_chain_err | Reasm_Code fzn_reasm_err

definition fzn_admit_vocab_str :: "fzn_admit_vocab \<Rightarrow> string" where
  "fzn_admit_vocab_str vocab =
     (case vocab of FZN_ADMIT_VOCAB_NONE \<Rightarrow> ''none'' | FZN_ADMIT_VOCAB_SEAL \<Rightarrow> ''seal''
      | FZN_ADMIT_VOCAB_COMMITMENT \<Rightarrow> ''commitment'' | FZN_ADMIT_VOCAB_FRESH \<Rightarrow> ''freshness''
      | FZN_ADMIT_VOCAB_CHAIN \<Rightarrow> ''chain'' | FZN_ADMIT_VOCAB_REASM \<Rightarrow> ''reassembly''
      | FZN_ADMIT_VOCAB_UNKNOWN_SENDER \<Rightarrow> ''unknown-sender'' | FZN_ADMIT_VOCAB_NO_CHAIN \<Rightarrow> ''no-chain'')"

definition fzn_admit_step_str :: "fzn_admit_step \<Rightarrow> string" where
  "fzn_admit_step_str step =
     (case step of FZN_ADMIT_ADMITTED \<Rightarrow> ''admitted'' | FZN_ADMIT_SHAPE \<Rightarrow> ''shape'' | FZN_ADMIT_KEY_SELECT \<Rightarrow> ''key-select''
      | FZN_ADMIT_COMMITMENT \<Rightarrow> ''commitment'' | FZN_ADMIT_TAG \<Rightarrow> ''tag'' | FZN_ADMIT_FRESHNESS \<Rightarrow> ''freshness''
      | FZN_ADMIT_REPLAY \<Rightarrow> ''replay'' | FZN_ADMIT_CHAIN \<Rightarrow> ''chain'' | FZN_ADMIT_REASSEMBLY \<Rightarrow> ''reassembly'')"

record fzn_admit_key =
  ak_aead :: bytes
  ak_commitment :: bytes

record fzn_admit_ops =
  ao_keys :: "(key \<Rightarrow> nat \<Rightarrow> nat \<times> fzn_admit_key list) option"
  ao_expiry_rule :: "(u8 \<Rightarrow> fzn_expiry_rule) option"
  ao_root_for :: "(key \<Rightarrow> key option) option"

record fzn_admit_env =
  en_ops :: "fzn_admit_ops option"
  en_hash :: "fzn_hash_fn option"
  en_aead :: "fzn_aead_ops option"
  en_sign :: "fzn_sign_ops option"
  en_replay :: "fzn_replay_window option"
  en_chains :: "fzn_chain_store option"
  en_revocations :: "fzn_revocation_store option"
  en_manifest :: "fzn_manifest_state option"
  en_memo :: "fzn_chain_memo option"
  en_reassembly :: "fzn_reasm option"
  en_max_ahead :: u64

record fzn_admit_result =
  ar_step :: fzn_admit_step
  ar_vocab :: fzn_admit_vocab
  ar_err :: fzn_admit_code
  ar_opened :: "fzn_opened option"
  ar_message :: "nat option"

definition refuse :: "fzn_opened option \<Rightarrow> fzn_admit_step \<Rightarrow> fzn_admit_vocab \<Rightarrow> fzn_admit_code \<Rightarrow> fzn_admit_result" where
  "refuse opened step vocab err = \<lparr>ar_step = step, ar_vocab = vocab, ar_err = err, ar_opened = opened, ar_message = None\<rparr>"

text \<open>The candidate whose key the frame commits to, or the code of a derivation that failed on the way.\<close>

fun choose_key :: "fzn_hash_fn option \<Rightarrow> fzn_peek \<Rightarrow> fzn_admit_key list \<Rightarrow> fzn_commitment_err + fzn_admit_key" where
  "choose_key hash peek [] = Inl FZN_COMMITMENT_ERR_MISMATCH"
| "choose_key hash peek (c # cs) =
     (case fzn_commitment_for_nonce hash (Some (ak_commitment c)) (Some (pk_nonce peek)) of
        (FZN_COMMITMENT_OK, derived) \<Rightarrow>
          if fzn_commitment_check derived (Some (pk_commitment peek)) = FZN_COMMITMENT_OK then Inr c else choose_key hash peek cs
      | (er, _) \<Rightarrow> Inl er)"

text \<open>Step 7: the root, the memo, the stored chain, the verdict. \<open>None\<close> lets the frame pass.\<close>

definition prove_authority :: "fzn_admit_env \<Rightarrow> fzn_admit_ops \<Rightarrow> fzn_opened \<Rightarrow> u64 \<Rightarrow>
    (fzn_admit_vocab \<times> fzn_admit_code) option \<times> fzn_admit_env" where
  "prove_authority env ops opened now =
     (case the (ao_root_for ops) (op_sender opened) of None \<Rightarrow> (Some (FZN_ADMIT_VOCAB_NO_CHAIN, No_Code), env)
      | Some root \<Rightarrow>
        let cap = take FZN_CAP_ID_LEN (op_capability opened); generation = fzn_revocation_generation (en_revocations env);
            (hit, env) = (case en_memo env of None \<Rightarrow> (False, env)
              | Some memo \<Rightarrow> let (hit, memo) = fzn_chain_memo_allows memo (Some root) (Some (op_sender opened)) (Some cap) generation now
                  in (hit, env\<lparr>en_memo := Some memo\<rparr>))
        in if hit then (None, env)
           else (case fzn_chain_store_lookup (en_chains env) (Some root) (Some cap) (Some (op_sender opened)) now of
               None \<Rightarrow> (Some (FZN_ADMIT_VOCAB_NO_CHAIN, No_Code), env)
             | Some chain_bytes \<Rightarrow>
               let (cr, hops) = fzn_chain_open (Some chain_bytes) in
               if cr \<noteq> FZN_CHAIN_OK then (Some (FZN_ADMIT_VOCAB_CHAIN, Chain_Code cr), env)
               else (case fzn_chain_verify (Some hops) (Some root) (Some cap) now (the (en_sign env)) (en_revocations env) (en_manifest env) of
                   Inl cr \<Rightarrow> (Some (FZN_ADMIT_VOCAB_CHAIN, Chain_Code cr), env)
                 | Inr verdict \<Rightarrow>
                   (None, env\<lparr>en_memo := map_option (\<lambda>memo. snd (fzn_chain_memo_record memo (Some verdict) generation)) (en_memo env)\<rparr>))))"

text \<open>Step 8, and the result. No outcome is a chunk written outside a slot's buffer.\<close>

definition reassemble :: "fzn_admit_env \<Rightarrow> fzn_opened \<Rightarrow> u64 \<Rightarrow> (fzn_admit_result \<times> fzn_admit_env) option" where
  "reassemble env opened now =
     (let admitted = \<lambda>message. \<lparr>ar_step = FZN_ADMIT_ADMITTED, ar_vocab = FZN_ADMIT_VOCAB_NONE, ar_err = No_Code,
        ar_opened = Some opened, ar_message = message\<rparr>
      in case en_reassembly env of None \<Rightarrow> Some (admitted None, env)
      | Some table \<Rightarrow>
        (case fzn_reasm_accept (Some table) (Some (op_sender opened)) (op_msg opened) (unat (op_index opened)) (unat (op_chunks opened))
            (Some (op_payload opened)) (op_expires_at opened) now of
           None \<Rightarrow> None
         | Some (rr, message, table) \<Rightarrow>
           let env = env\<lparr>en_reassembly := table\<rparr> in
           if rr \<noteq> FZN_REASM_OK then Some (refuse (Some opened) FZN_ADMIT_REASSEMBLY FZN_ADMIT_VOCAB_REASM (Reasm_Code rr), env)
           else Some (admitted message, env)))"

definition after_open :: "fzn_admit_env \<Rightarrow> fzn_admit_ops \<Rightarrow> fzn_opened \<Rightarrow> u64 \<Rightarrow> (fzn_admit_result \<times> fzn_admit_env) option" where
  "after_open env ops opened now =
     (let rule = the (ao_expiry_rule ops) (op_kind opened);
          fr = fzn_freshness_check (op_expires_at opened) rule now (en_max_ahead env)
      in if fr \<noteq> FZN_FRESH_OK then Some (refuse (Some opened) FZN_ADMIT_FRESHNESS FZN_ADMIT_VOCAB_FRESH (Fresh_Code fr), env)
         else let (fr, window) = fzn_replay_admit (en_replay env) (Some (op_nonce opened)) (op_expires_at opened) rule now;
                  env = env\<lparr>en_replay := window\<rparr>
              in if fr \<noteq> FZN_FRESH_OK then Some (refuse (Some opened) FZN_ADMIT_REPLAY FZN_ADMIT_VOCAB_FRESH (Fresh_Code fr), env)
                 else (case prove_authority env ops opened now of
                     (Some (vocab, err), env) \<Rightarrow> Some (refuse (Some opened) FZN_ADMIT_CHAIN vocab err, env)
                   | (None, env) \<Rightarrow> reassemble env opened now))"

text \<open>The sequence over an environment; \<open>ao_keys\<close> gives the count and what the candidate buffer then holds.\<close>

definition admit_env :: "bytes option \<Rightarrow> u64 \<Rightarrow> fzn_admit_env \<Rightarrow> bool \<Rightarrow> nat \<Rightarrow>
    (fzn_admit_result \<times> fzn_admit_env \<times> bytes option) option" where
  "admit_env frame now env candidates candidate_cap =
     (let malformed = Some (refuse None FZN_ADMIT_SHAPE FZN_ADMIT_VOCAB_SEAL (Seal_Code FZN_SEAL_ERR_MALFORMED), env, frame) in
      case en_ops env of None \<Rightarrow> malformed
      | Some ops \<Rightarrow>
        if frame = None \<or> ao_keys ops = None \<or> ao_expiry_rule ops = None \<or> ao_root_for ops = None \<or> en_hash env = None \<or>
           en_aead env = None \<or> en_sign env = None \<or> en_replay env = None \<or> en_chains env = None \<or>
           candidate_cap \<noteq> 0 \<and> \<not> candidates
        then malformed
        else (case fzn_seal_peek frame of
            (FZN_SEAL_OK, Some peek) \<Rightarrow>
              let (n, cands) = the (ao_keys ops) (pk_sender peek) candidate_cap in
              if n = 0 \<or> n > candidate_cap
              then Some (refuse None FZN_ADMIT_KEY_SELECT FZN_ADMIT_VOCAB_UNKNOWN_SENDER No_Code, env, frame)
              else (case choose_key (en_hash env) peek (take n cands) of
                  Inl er \<Rightarrow> Some (refuse None FZN_ADMIT_COMMITMENT FZN_ADMIT_VOCAB_COMMITMENT (Commitment_Code er), env, frame)
                | Inr chosen \<Rightarrow>
                  (case fzn_seal_open frame (Some (ak_aead chosen)) (Some (ak_commitment chosen)) (en_hash env) (the (en_aead env)) of
                     (FZN_SEAL_OK, frame', Some opened) \<Rightarrow>
                       map_option (\<lambda>(res, env). (res, env, frame')) (after_open env ops opened now)
                   | (sr, frame', _) \<Rightarrow> Some (refuse None FZN_ADMIT_TAG FZN_ADMIT_VOCAB_SEAL (Seal_Code sr), env, frame')))
          | (sr, _) \<Rightarrow> Some (refuse None FZN_ADMIT_SHAPE FZN_ADMIT_VOCAB_SEAL (Seal_Code sr), env, frame)))"

definition fzn_admit :: "bytes option \<Rightarrow> u64 \<Rightarrow> fzn_admit_env option \<Rightarrow> bool \<Rightarrow> nat \<Rightarrow>
    (fzn_admit_result \<times> fzn_admit_env option \<times> bytes option) option" where
  "fzn_admit frame now env candidates candidate_cap =
     (case env of None \<Rightarrow> Some (refuse None FZN_ADMIT_SHAPE FZN_ADMIT_VOCAB_SEAL (Seal_Code FZN_SEAL_ERR_MALFORMED), None, frame)
      | Some e \<Rightarrow> map_option (\<lambda>(res, e, frame). (res, Some e, frame)) (admit_env frame now e candidates candidate_cap))"

section \<open>What each gate leaves\<close>

lemma peek_cases:
  obtains (ok) p where "fzn_seal_peek frame = (FZN_SEAL_OK, Some p)"
  | (bad) e where "fzn_seal_peek frame = (e, None)" "e \<noteq> FZN_SEAL_OK"
  by (cases frame; cases "views (the frame)") (simp_all add: fzn_seal_peek_def)

lemma open_cases:
  obtains (ok) g out where "fzn_seal_open frame k ck h aead = (FZN_SEAL_OK, g, Some out)"
  | (bad) e where "fzn_seal_open frame k ck h aead = (e, frame, None)" "e \<noteq> FZN_SEAL_OK"
proof -
  obtain e g out where o: "fzn_seal_open frame k ck h aead = (e, g, out)" by (cases "fzn_seal_open frame k ck h aead") auto
  then have "e = FZN_SEAL_OK \<and> out \<noteq> None \<or> e \<noteq> FZN_SEAL_OK \<and> g = frame \<and> out = None"
    by (auto simp: fzn_seal_open_def Let_def split: option.splits if_splits prod.splits fzn_commitment_err.splits)
  then show thesis using ok bad o by auto
qed

lemma choose_key_err: "choose_key hash peek cs = Inl er \<Longrightarrow> er \<noteq> FZN_COMMITMENT_OK"
  by (induction cs) (auto split: prod.splits fzn_commitment_err.splits if_splits)

lemma choose_key_member:
  "choose_key hash peek cs = Inr c \<Longrightarrow> c \<in> set cs \<and> (\<exists>d. fzn_commitment_for_nonce hash (Some (ak_commitment c)) (Some (pk_nonce peek)) =
     (FZN_COMMITMENT_OK, Some d) \<and> fzn_commitment_check (Some d) (Some (pk_commitment peek)) = FZN_COMMITMENT_OK)"
  by (induction cs) (auto simp: fzn_commitment_check_def split: prod.splits fzn_commitment_err.splits if_splits option.splits)

text \<open>Step 7 touches the memo only, and passes a frame on a hit or on a verdict.\<close>

lemma prove_authority_cases:
  obtains (refused) vocab err memo where "prove_authority env ops o' now = (Some (vocab, err), env\<lparr>en_memo := memo\<rparr>)"
      "vocab = FZN_ADMIT_VOCAB_NO_CHAIN \<and> err = No_Code \<or> vocab = FZN_ADMIT_VOCAB_CHAIN \<and> (\<exists>cr. cr \<noteq> FZN_CHAIN_OK \<and> err = Chain_Code cr)"
      "map_option mo_entries memo = map_option mo_entries (en_memo env)" "map_option mo_capacity memo = map_option mo_capacity (en_memo env)"
      "map_option mo_cursor memo = map_option mo_cursor (en_memo env)"
  | (hit) root m m' where "prove_authority env ops o' now = (None, env\<lparr>en_memo := Some m'\<rparr>)" "en_memo env = Some m"
      "the (ao_root_for ops) (op_sender o') = Some root"
      "fzn_chain_memo_allows m (Some root) (Some (op_sender o')) (Some (take 32 (op_capability o')))
         (fzn_revocation_generation (en_revocations env)) now = (True, m')"
  | (verdict) root b hops v memo where "prove_authority env ops o' now = (None, env\<lparr>en_memo := map_option
         (\<lambda>m. snd (fzn_chain_memo_record m (Some v) (fzn_revocation_generation (en_revocations env)))) memo\<rparr>)"
      "map_option mo_entries memo = map_option mo_entries (en_memo env)" "map_option mo_capacity memo = map_option mo_capacity (en_memo env)"
      "map_option mo_cursor memo = map_option mo_cursor (en_memo env)"
      "the (ao_root_for ops) (op_sender o') = Some root"
      "fzn_chain_store_lookup (en_chains env) (Some root) (Some (take 32 (op_capability o'))) (Some (op_sender o')) now = Some b"
      "fzn_chain_open (Some b) = (FZN_CHAIN_OK, hops)"
      "fzn_chain_verify (Some hops) (Some root) (Some (take 32 (op_capability o'))) now (the (en_sign env)) (en_revocations env) (en_manifest env) = Inr v"
proof (cases "the (ao_root_for ops) (op_sender o')")
  case None
  then show thesis by (intro refused [of FZN_ADMIT_VOCAB_NO_CHAIN No_Code "en_memo env"]) (simp_all add: prove_authority_def)
next
  case (Some root)
  let ?cap = "take 32 (op_capability o')" and ?g = "fzn_revocation_generation (en_revocations env)"
  let ?ask = "\<lambda>m. fzn_chain_memo_allows m (Some root) (Some (op_sender o')) (Some ?cap) ?g now"
  show thesis
  proof (cases "\<exists>m. en_memo env = Some m \<and> fst (?ask m)")
    case True
    then obtain m m' where m: "en_memo env = Some m" "?ask m = (True, m')" by (metis prod.collapse)
    then show thesis using Some by (intro hit [of m' m root]) (simp_all add: prove_authority_def)
  next
    case False
    let ?memo = "map_option (\<lambda>m. snd (?ask m)) (en_memo env)"
    have keep: "map_option mo_entries ?memo = map_option mo_entries (en_memo env)" "map_option mo_capacity ?memo = map_option mo_capacity (en_memo env)"
      "map_option mo_cursor ?memo = map_option mo_cursor (en_memo env)" by (simp_all add: option.map_comp comp_def)
    have asked: "(case en_memo env of None \<Rightarrow> (False, env) | Some memo \<Rightarrow> let (hit, memo) = ?ask memo in (hit, env\<lparr>en_memo := Some memo\<rparr>)) =
        (False, env\<lparr>en_memo := ?memo\<rparr>)"
      using False by (cases "en_memo env") (auto simp: split_beta)
    show thesis
    proof (cases "fzn_chain_store_lookup (en_chains env) (Some root) (Some ?cap) (Some (op_sender o')) now")
      case None
      then show thesis using keep asked Some
        by (intro refused [of FZN_ADMIT_VOCAB_NO_CHAIN No_Code ?memo]) (simp_all add: prove_authority_def)
    next
      case b: (Some b)
      obtain cr hops where o: "fzn_chain_open (Some b) = (cr, hops)" by fastforce
      show thesis
      proof (cases "cr = FZN_CHAIN_OK")
        case False
        then show thesis using keep asked Some b o
          by (intro refused [of FZN_ADMIT_VOCAB_CHAIN "Chain_Code cr" ?memo]) (simp_all add: prove_authority_def)
      next
        case True
        show thesis
        proof (cases "fzn_chain_verify (Some hops) (Some root) (Some ?cap) now (the (en_sign env)) (en_revocations env) (en_manifest env)")
          case (Inl e)
          then show thesis using keep asked Some b o True verify_err_kind [OF Inl]
            by (intro refused [of FZN_ADMIT_VOCAB_CHAIN "Chain_Code e" ?memo]) (simp_all add: prove_authority_def)
        next
          case (Inr v)
          then show thesis using keep asked Some b o True
            by (intro verdict [of v ?memo root b hops]) (simp_all add: prove_authority_def, simp add: Let_def)
        qed
      qed
    qed
  qed
qed

lemma reassemble_cases:
  assumes "reassemble env o' now = Some (r, env')"
  obtains (taken) table where "ar_step r = FZN_ADMIT_ADMITTED" "ar_vocab r = FZN_ADMIT_VOCAB_NONE" "ar_err r = No_Code"
      "ar_opened r = Some o'" "env' = env\<lparr>en_reassembly := table\<rparr>" "en_reassembly env = None \<longrightarrow> ar_message r = None"
  | (refused) table rr where "r = refuse (Some o') FZN_ADMIT_REASSEMBLY FZN_ADMIT_VOCAB_REASM (Reasm_Code rr)" "rr \<noteq> FZN_REASM_OK"
      "env' = env\<lparr>en_reassembly := table\<rparr>"
proof (cases "en_reassembly env")
  case None
  then have "env = env\<lparr>en_reassembly := None\<rparr>" by (cases env) simp
  then show thesis using assms None by (intro taken [of None]) (auto simp: reassemble_def)
next
  case (Some t)
  obtain rr msg t' where a: "fzn_reasm_accept (Some t) (Some (op_sender o')) (op_msg o') (unat (op_index o')) (unat (op_chunks o'))
      (Some (op_payload o')) (op_expires_at o') now = Some (rr, msg, t')"
    using assms Some by (auto simp: reassemble_def Let_def split: option.splits)
  show thesis
  proof (cases "rr = FZN_REASM_OK")
    case True
    then show thesis using assms Some a by (intro taken [of t']) (auto simp: reassemble_def Let_def)
  next
    case False
    then show thesis using assms Some a by (intro refused [of rr t']) (auto simp: reassemble_def Let_def)
  qed
qed

lemma after_open_cases:
  assumes "after_open env ops o' now = Some (r, env')"
  obtains (stale) fr where "r = refuse (Some o') FZN_ADMIT_FRESHNESS FZN_ADMIT_VOCAB_FRESH (Fresh_Code fr)" "fr \<noteq> FZN_FRESH_OK" "env' = env"
  | (replayed) fr w where "r = refuse (Some o') FZN_ADMIT_REPLAY FZN_ADMIT_VOCAB_FRESH (Fresh_Code fr)" "fr \<noteq> FZN_FRESH_OK"
      "fzn_replay_admit (en_replay env) (Some (op_nonce o')) (op_expires_at o') (the (ao_expiry_rule ops) (op_kind o')) now = (fr, w)"
      "env' = env\<lparr>en_replay := w\<rparr>"
  | (unproven) w vocab err where "r = refuse (Some o') FZN_ADMIT_CHAIN vocab err"
      "fzn_replay_admit (en_replay env) (Some (op_nonce o')) (op_expires_at o') (the (ao_expiry_rule ops) (op_kind o')) now = (FZN_FRESH_OK, w)"
      "prove_authority (env\<lparr>en_replay := w\<rparr>) ops o' now = (Some (vocab, err), env')"
  | (proven) w env1 where "fzn_freshness_check (op_expires_at o') (the (ao_expiry_rule ops) (op_kind o')) now (en_max_ahead env) = FZN_FRESH_OK"
      "fzn_replay_admit (en_replay env) (Some (op_nonce o')) (op_expires_at o') (the (ao_expiry_rule ops) (op_kind o')) now = (FZN_FRESH_OK, w)"
      "prove_authority (env\<lparr>en_replay := w\<rparr>) ops o' now = (None, env1)" "reassemble env1 o' now = Some (r, env')"
proof -
  let ?rule = "the (ao_expiry_rule ops) (op_kind o')"
  obtain fr w where a: "fzn_replay_admit (en_replay env) (Some (op_nonce o')) (op_expires_at o') ?rule now = (fr, w)" by fastforce
  obtain v e1 where p: "prove_authority (env\<lparr>en_replay := w\<rparr>) ops o' now = (v, e1)" by fastforce
  show thesis
    using assms stale replayed unproven proven a p
    by (auto simp: after_open_def Let_def split: if_splits option.splits)
qed

lemma admit_env_cases:
  assumes "admit_env frame now env cands cap = Some (r, env', frame')"
  obtains (early) step vocab err where "r = refuse None step vocab err" "env' = env" "frame' = frame"
      "step = FZN_ADMIT_SHAPE \<and> vocab = FZN_ADMIT_VOCAB_SEAL \<and> (\<exists>e. e \<noteq> FZN_SEAL_OK \<and> err = Seal_Code e) \<or>
       step = FZN_ADMIT_KEY_SELECT \<and> vocab = FZN_ADMIT_VOCAB_UNKNOWN_SENDER \<and> err = No_Code \<or>
       step = FZN_ADMIT_COMMITMENT \<and> vocab = FZN_ADMIT_VOCAB_COMMITMENT \<and> (\<exists>e. e \<noteq> FZN_COMMITMENT_OK \<and> err = Commitment_Code e) \<or>
       step = FZN_ADMIT_TAG \<and> vocab = FZN_ADMIT_VOCAB_SEAL \<and> (\<exists>e. e \<noteq> FZN_SEAL_OK \<and> err = Seal_Code e)"
  | (opened) ops peek n keys chosen f out where "en_ops env = Some ops" "frame = Some f" "fzn_seal_peek (Some f) = (FZN_SEAL_OK, Some peek)"
      "the (ao_keys ops) (pk_sender peek) cap = (n, keys)" "n \<le> cap" "choose_key (en_hash env) peek (take n keys) = Inr chosen"
      "fzn_seal_open (Some f) (Some (ak_aead chosen)) (Some (ak_commitment chosen)) (en_hash env) (the (en_aead env)) = (FZN_SEAL_OK, frame', Some out)"
      "after_open env ops out now = Some (r, env')"
proof -
  have malformed: thesis if "r = refuse None FZN_ADMIT_SHAPE FZN_ADMIT_VOCAB_SEAL (Seal_Code FZN_SEAL_ERR_MALFORMED)" "env' = env" "frame' = frame"
    using that by (intro early) auto
  show thesis
  proof (cases "en_ops env")
    case None
    then show thesis using malformed assms by (simp add: admit_env_def)
  next
    case (Some ops)
    let ?bad = "frame = None \<or> ao_keys ops = None \<or> ao_expiry_rule ops = None \<or> ao_root_for ops = None \<or> en_hash env = None \<or>
      en_aead env = None \<or> en_sign env = None \<or> en_replay env = None \<or> en_chains env = None \<or> cap \<noteq> 0 \<and> \<not> cands"
    show thesis
    proof (cases ?bad)
      case True
      have "admit_env frame now env cands cap =
          Some (refuse None FZN_ADMIT_SHAPE FZN_ADMIT_VOCAB_SEAL (Seal_Code FZN_SEAL_ERR_MALFORMED), env, frame)"
        unfolding admit_env_def Let_def Some option.case if_P [OF True] ..
      then show thesis using malformed assms by simp
    next
      case False
      then obtain f where f: "frame = Some f" by (cases frame) auto
      note go = assms [unfolded admit_env_def Let_def Some option.case if_not_P [OF False]]
      show thesis
      proof (cases rule: peek_cases [of frame])
        case (bad e)
        then have "r = refuse None FZN_ADMIT_SHAPE FZN_ADMIT_VOCAB_SEAL (Seal_Code e) \<and> env' = env \<and> frame' = frame"
          using go by (cases e) simp_all
        then show thesis using bad(2) by (intro early) auto
      next
        case (ok peek)
        obtain n keys where k: "the (ao_keys ops) (pk_sender peek) cap = (n, keys)" by fastforce
        show thesis
        proof (cases "n = 0 \<or> n > cap")
          case True
          then have "r = refuse None FZN_ADMIT_KEY_SELECT FZN_ADMIT_VOCAB_UNKNOWN_SENDER No_Code \<and> env' = env \<and> frame' = frame"
            using go by (simp add: ok k)
          then show thesis by (intro early) auto
        next
          case n: False
          show thesis
          proof (cases "choose_key (en_hash env) peek (take n keys)")
            case (Inl er)
            then have "r = refuse None FZN_ADMIT_COMMITMENT FZN_ADMIT_VOCAB_COMMITMENT (Commitment_Code er) \<and> env' = env \<and> frame' = frame"
              using go n by (simp add: ok k)
            then show thesis using choose_key_err [OF Inl] by (intro early) auto
          next
            case (Inr chosen)
            show thesis
            proof (cases rule: open_cases [of frame "Some (ak_aead chosen)" "Some (ak_commitment chosen)" "en_hash env" "the (en_aead env)"])
              case (bad e)
              then have "r = refuse None FZN_ADMIT_TAG FZN_ADMIT_VOCAB_SEAL (Seal_Code e) \<and> env' = env \<and> frame' = frame"
                using go n Inr by (cases e) (simp_all add: ok k)
              then show thesis using bad(2) by (intro early) auto
            next
              case op: (ok g out)
              then have "after_open env ops out now = Some (r, env') \<and> frame' = g" using go n Inr by (auto simp: ok k)
              then show thesis using n op ok by (intro opened [OF Some f _ k _ Inr, of out]) (simp_all add: f)
            qed
          qed
        qed
      qed
    qed
  qed
qed

section \<open>The result\<close>

definition result_wf :: "fzn_admit_result \<Rightarrow> bool" where
  "result_wf r \<longleftrightarrow>
     (case ar_step r of
        FZN_ADMIT_ADMITTED \<Rightarrow> ar_vocab r = FZN_ADMIT_VOCAB_NONE \<and> ar_err r = No_Code \<and> ar_opened r \<noteq> None
      | FZN_ADMIT_SHAPE \<Rightarrow> ar_vocab r = FZN_ADMIT_VOCAB_SEAL \<and> (case ar_err r of Seal_Code e \<Rightarrow> e \<noteq> FZN_SEAL_OK | _ \<Rightarrow> False) \<and> ar_opened r = None
      | FZN_ADMIT_KEY_SELECT \<Rightarrow> ar_vocab r = FZN_ADMIT_VOCAB_UNKNOWN_SENDER \<and> ar_err r = No_Code \<and> ar_opened r = None
      | FZN_ADMIT_COMMITMENT \<Rightarrow> ar_vocab r = FZN_ADMIT_VOCAB_COMMITMENT \<and>
          (case ar_err r of Commitment_Code e \<Rightarrow> e \<noteq> FZN_COMMITMENT_OK | _ \<Rightarrow> False) \<and> ar_opened r = None
      | FZN_ADMIT_TAG \<Rightarrow> ar_vocab r = FZN_ADMIT_VOCAB_SEAL \<and> (case ar_err r of Seal_Code e \<Rightarrow> e \<noteq> FZN_SEAL_OK | _ \<Rightarrow> False) \<and> ar_opened r = None
      | FZN_ADMIT_CHAIN \<Rightarrow> ar_opened r \<noteq> None \<and>
          (ar_vocab r = FZN_ADMIT_VOCAB_NO_CHAIN \<and> ar_err r = No_Code \<or>
           ar_vocab r = FZN_ADMIT_VOCAB_CHAIN \<and> (case ar_err r of Chain_Code e \<Rightarrow> e \<noteq> FZN_CHAIN_OK | _ \<Rightarrow> False))
      | FZN_ADMIT_REASSEMBLY \<Rightarrow> ar_vocab r = FZN_ADMIT_VOCAB_REASM \<and> (case ar_err r of Reasm_Code e \<Rightarrow> e \<noteq> FZN_REASM_OK | _ \<Rightarrow> False) \<and>
          ar_opened r \<noteq> None
      | _ \<Rightarrow> ar_vocab r = FZN_ADMIT_VOCAB_FRESH \<and> (case ar_err r of Fresh_Code e \<Rightarrow> e \<noteq> FZN_FRESH_OK | _ \<Rightarrow> False) \<and> ar_opened r \<noteq> None) \<and>
     (ar_step r \<noteq> FZN_ADMIT_ADMITTED \<longrightarrow> ar_message r = None)"

text \<open>What a call may leave changed, by the step it stopped at.\<close>

definition effects_bounded :: "fzn_admit_env \<Rightarrow> fzn_admit_env \<Rightarrow> fzn_admit_step \<Rightarrow> bool" where
  "effects_bounded env env' step \<longleftrightarrow>
     env' = env\<lparr>en_replay := en_replay env', en_memo := en_memo env', en_reassembly := en_reassembly env'\<rparr> \<and>
     (step \<noteq> FZN_ADMIT_ADMITTED \<and> step \<noteq> FZN_ADMIT_REASSEMBLY \<longrightarrow> en_reassembly env' = en_reassembly env \<and>
        map_option mo_entries (en_memo env') = map_option mo_entries (en_memo env) \<and>
        (step \<noteq> FZN_ADMIT_CHAIN \<longrightarrow> en_memo env' = en_memo env \<and> (step \<noteq> FZN_ADMIT_REPLAY \<longrightarrow> en_replay env' = en_replay env)))"

lemma refuse_fields [simp]:
  "ar_step (refuse out st vocab err) = st" "ar_vocab (refuse out st vocab err) = vocab" "ar_err (refuse out st vocab err) = err"
  "ar_opened (refuse out st vocab err) = out" "ar_message (refuse out st vocab err) = None"
  by (simp_all add: refuse_def)

lemma authority_env:
  assumes "prove_authority env ops out now = (v, env')"
  shows "env' = env\<lparr>en_memo := en_memo env'\<rparr>"
    and "v = Some (vocab, err) \<Longrightarrow> map_option mo_entries (en_memo env') = map_option mo_entries (en_memo env)"
proof -
  have "\<exists>m. env' = env\<lparr>en_memo := m\<rparr> \<and> (v \<noteq> None \<longrightarrow> map_option mo_entries m = map_option mo_entries (en_memo env))"
  proof (cases rule: prove_authority_cases [of env ops out now])
    case (refused vocab err memo)
    then show ?thesis using assms by (intro exI [of _ memo]) simp
  next
    case (hit root m m')
    then show ?thesis using assms by (intro exI [of _ "Some m'"]) simp
  next
    case (verdict root b hops v memo)
    show ?thesis using assms unfolding verdict(1) by blast
  qed
  then obtain m where "env' = env\<lparr>en_memo := m\<rparr>" "v \<noteq> None \<longrightarrow> map_option mo_entries m = map_option mo_entries (en_memo env)" by blast
  then show "env' = env\<lparr>en_memo := en_memo env'\<rparr>" and "v = Some (vocab, err) \<Longrightarrow> map_option mo_entries (en_memo env') = map_option mo_entries (en_memo env)"
    by simp_all
qed

lemma after_open_result:
  assumes "after_open env ops out now = Some (r, env')"
  shows "result_wf r \<and> effects_bounded env env' (ar_step r) \<and> ar_opened r = Some out"
  using assms
proof (cases rule: after_open_cases)
  case (unproven w vocab err)
  then show ?thesis
    using authority_env [OF unproven(3)]
    by (cases rule: prove_authority_cases [of "env\<lparr>en_replay := w\<rparr>" ops out now]) (auto simp: result_wf_def effects_bounded_def)
next
  case (proven w env1)
  note env1 = authority_env(1) [OF proven(3)]
  from proven(4) show ?thesis
  proof (cases rule: reassemble_cases)
    case (taken table)
    then show ?thesis using arg_cong [OF env1, of "\<lambda>e. e\<lparr>en_reassembly := table\<rparr>"] by (simp add: result_wf_def effects_bounded_def)
  next
    case (refused table rr)
    then show ?thesis using arg_cong [OF env1, of "\<lambda>e. e\<lparr>en_reassembly := table\<rparr>"] by (simp add: result_wf_def effects_bounded_def)
  qed
qed (simp_all add: result_wf_def effects_bounded_def)

text \<open>From the replay step on the replay window has been asked about the frame, and is what that left.\<close>

definition replay_asked :: "fzn_admit_env \<Rightarrow> fzn_admit_env \<Rightarrow> u64 \<Rightarrow> fzn_admit_result \<Rightarrow> bool" where
  "replay_asked env env' now r \<longleftrightarrow>
     (\<exists>out ops fr. ar_opened r = Some out \<and> en_ops env = Some ops \<and>
        fzn_replay_admit (en_replay env) (Some (op_nonce out)) (op_expires_at out) (the (ao_expiry_rule ops) (op_kind out)) now = (fr, en_replay env') \<and>
        (fr = FZN_FRESH_OK \<longleftrightarrow> ar_step r \<noteq> FZN_ADMIT_REPLAY))"

lemma after_open_asks:
  assumes "after_open env ops out now = Some (r, env')" and "en_ops env = Some ops" and "ar_step r \<noteq> FZN_ADMIT_FRESHNESS"
  shows "replay_asked env env' now r"
  using assms(1)
proof (cases rule: after_open_cases)
  case (unproven w vocab err)
  then show ?thesis using assms(2) arg_cong [OF authority_env(1) [OF unproven(3)], of en_replay] by (simp add: replay_asked_def)
next
  case (proven w env1)
  have env1: "en_replay env1 = w" using arg_cong [OF authority_env(1) [OF proven(3)], of en_replay] by simp
  from proven(4) show ?thesis
    by (cases rule: reassemble_cases) (use assms(2) proven(2) env1 after_open_result [OF assms(1)] in \<open>auto simp: replay_asked_def\<close>)
qed (use assms(2,3) in \<open>simp_all add: replay_asked_def\<close>)


text \<open>
  C16. Nobody without a key changes anything. A frame that is refused before its seal opened leaves
  the replay window, the memo, the reassembly table and its own bytes exactly as they were, and a stale
  one leaves the state alone too. From then on the replay window is what asking it about the frame left:
  a replayed frame was refused by it and changes nothing else; a frame that got further, refused or
  admitted, was accepted by it first, and no later refusal takes that back. A frame without authority changes no verdict of the memo
  and not the reassembly table; one that reassembly refuses may also have left a verdict in the memo
  and the table changed. No frame at all changes the chains, the revocations or the manifests it is judged by.
\<close>

theorem unopened_changes_nothing:
  assumes "fzn_admit frame now (Some env) cands cap = Some (r, env', frame')"
  shows "\<exists>e. env' = Some e \<and> effects_bounded env e (ar_step r) \<and>
    (ar_opened r = None \<longrightarrow> e = env \<and> frame' = frame) \<and>
    (ar_step r \<in> {FZN_ADMIT_REPLAY, FZN_ADMIT_CHAIN, FZN_ADMIT_REASSEMBLY, FZN_ADMIT_ADMITTED} \<longrightarrow> replay_asked env e now r)"
proof -
  obtain e where e: "env' = Some e" "admit_env frame now env cands cap = Some (r, e, frame')" using assms by (auto simp: fzn_admit_def)
  from e(2) show ?thesis
  proof (cases rule: admit_env_cases)
    case (early step vocab err)
    then show ?thesis by (auto simp: e(1) effects_bounded_def)
  next
    case (opened ops peek n keys chosen f out)
    then show ?thesis using after_open_result [OF opened(8)] after_open_asks [OF opened(8,1)] by (auto simp: e(1))
  qed
qed

section \<open>A receiver at work\<close>

text \<open>
  A receiver takes datagrams, takes chains into its store, and has its revocations, manifests and
  reassembly table moved on by their own operations between two datagrams.
\<close>

datatype receiver_event = Datagram bytes u64
  | Learn_Chain bytes key cap_id u64
  | Local "fzn_revocation_store option" "fzn_manifest_state option" "fzn_reasm option"

fun receiver_step :: "nat \<Rightarrow> fzn_admit_env \<Rightarrow> receiver_event \<Rightarrow> fzn_admit_result option \<times> fzn_admit_env" where
  "receiver_step cap env (Datagram f now) =
     (case fzn_admit (Some f) now (Some env) True cap of Some (r, Some env', _) \<Rightarrow> (Some r, env') | _ \<Rightarrow> (None, env))"
| "receiver_step cap env (Learn_Chain b root capability now) =
     (case (en_chains env, fzn_chain_open (Some b)) of
        (Some s, FZN_CHAIN_OK, hs) \<Rightarrow> (None, env\<lparr>en_chains := Some (snd (fzn_chain_store_admit s (Some hs) (Some root) (Some capability) now
           (the (en_sign env)) (en_revocations env) (en_manifest env)))\<rparr>)
      | _ \<Rightarrow> (None, env))"
| "receiver_step cap env (Local revs man table) = (None, env\<lparr>en_revocations := revs, en_manifest := man, en_reassembly := table\<rparr>)"

text \<open>The verdicts a datagram can lead to, with the generation of the revocations they were reached under.\<close>

fun proofs :: "fzn_admit_env \<Rightarrow> receiver_event \<Rightarrow> (fzn_chain \<times> u64) set" where
  "proofs env (Datagram f now) = {(v, g). g = fzn_revocation_generation (en_revocations env) \<and>
     (\<exists>hs rt c. fzn_chain_verify (Some hs) (Some rt) (Some c) now (the (en_sign env)) (en_revocations env) (en_manifest env) = Inr v)}"
| "proofs env _ = {}"

definition receiver_inv :: "(fzn_chain \<times> u64) set \<Rightarrow> fzn_admit_env \<Rightarrow> bool" where
  "receiver_inv H env \<longleftrightarrow> (\<exists>w. en_replay env = Some w \<and> window_wf w) \<and>
     (\<exists>s. en_chains env = Some s \<and> chains_inv s \<and> filed s) \<and> (\<forall>m. en_memo env = Some m \<longrightarrow> memo_knows H m)"

lemma memo_knows_cong:
  assumes "map_option mo_entries a = map_option mo_entries b" and "map_option mo_capacity a = map_option mo_capacity b"
    and "map_option mo_cursor a = map_option mo_cursor b"
  shows "(\<forall>m. a = Some m \<longrightarrow> memo_knows H m) \<longleftrightarrow> (\<forall>m. b = Some m \<longrightarrow> memo_knows H m)"
  using assms by (cases a; cases b) (auto simp: memo_knows_def memo_wf_def)

lemma memo_knows_mono: "memo_knows H m \<Longrightarrow> H \<subseteq> H' \<Longrightarrow> memo_knows H' m"
  unfolding memo_knows_def by blast

lemma record_knows:
  assumes "memo_knows H m" and "(v, g) \<in> H'"
  shows "memo_knows (H \<union> H') (snd (fzn_chain_memo_record m (Some v) g))"
  using memo_step_knows [OF assms(1), of "Record (Some v) g"] assms(2)
  by (auto simp: told_def split_beta elim!: memo_knows_mono)

lemma verified_alive:
  assumes "fzn_chain_verify (Some hs) (Some rt) (Some c) now sign revs man = Inr v"
  shows "\<not> fzn_chain_expired_at (Some v) now"
proof -
  obtain hops verify where "chain_good rt c now verify revs man hops" "v = verdict_of rt c hops" using assms unfolding verify_ok_iff by blast
  then show ?thesis using all_alive_iff [of hops now] by (auto simp: chain_good_def verdict_of_def fzn_chain_expired_at_def)
qed

lemma verdict_fields:
  "fzn_chain_verify (Some hs) (Some rt) (Some c) now sign revs man = Inr v \<Longrightarrow>
   ch_root v = rt \<and> ch_capability v = c \<and> ch_grantee v = fzn_hop_grantee (the (last hs))"
  unfolding verify_ok_iff by (auto simp: verdict_of_def chain_good_def last_map)

text \<open>Who may pass step 7, and what the memo knows afterwards.\<close>

lemma authority_inv:
  fixes f :: bytes
  assumes "receiver_inv H env" and "prove_authority env ops out now = (v, env')"
  shows "receiver_inv (H \<union> proofs env (Datagram f now)) env'"
    and "v = None \<Longrightarrow> \<exists>root ch g. the (ao_root_for ops) (op_sender out) = Some root \<and> (ch, g) \<in> H \<union> proofs env (Datagram f now) \<and>
      ((ch, g) \<notin> proofs env (Datagram f now) \<longrightarrow> g \<noteq> 0) \<and>
      g = fzn_revocation_generation (en_revocations env) \<and> ch_root ch = root \<and> ch_grantee ch = op_sender out \<and>
      ch_capability ch = take 32 (op_capability out) \<and> \<not> fzn_chain_expired_at (Some ch) now"
proof -
  let ?P = "proofs env (Datagram f now)" and ?g = "fzn_revocation_generation (en_revocations env)"
  obtain s where s: "en_chains env = Some s" "chains_inv s" "filed s" using assms(1) by (auto simp: receiver_inv_def)
  have knows: "\<forall>m. en_memo env = Some m \<longrightarrow> memo_knows H m" using assms(1) by (simp add: receiver_inv_def)
  have wider: "\<forall>m. en_memo env = Some m \<longrightarrow> memo_knows (H \<union> ?P) m" using knows memo_knows_mono by blast
  have "receiver_inv (H \<union> ?P) env' \<and> (v = None \<longrightarrow> (\<exists>root ch g. the (ao_root_for ops) (op_sender out) = Some root \<and> (ch, g) \<in> H \<union> ?P \<and>
      ((ch, g) \<notin> ?P \<longrightarrow> g \<noteq> 0) \<and> g = ?g \<and> ch_root ch = root \<and> ch_grantee ch = op_sender out \<and>
      ch_capability ch = take 32 (op_capability out) \<and> \<not> fzn_chain_expired_at (Some ch) now))"
  proof (cases rule: prove_authority_cases [of env ops out now])
    case (refused vocab err memo)
    then have e: "env' = env\<lparr>en_memo := memo\<rparr>" "v \<noteq> None" using assms(2) by simp_all
    have "receiver_inv (H \<union> ?P) env'"
      using assms(1) wider memo_knows_cong [OF refused(3-5)] unfolding receiver_inv_def e(1) by simp
    with e(2) show ?thesis by blast
  next
    case (hit root m m')
    then have e: "env' = env\<lparr>en_memo := Some m'\<rparr>" "m' = snd (fzn_chain_memo_allows m (Some root) (Some (op_sender out))
        (Some (take 32 (op_capability out))) ?g now)" using assms(2) by simp_all
    have "memo_knows (H \<union> ?P) m'" using wider hit(2) by (simp add: e(2) memo_knows_def memo_wf_def)
    moreover have "memo_knows H m" using knows hit(2) by blast
    note memo_hit [OF this, of root "op_sender out" "take 32 (op_capability out)" ?g now]
    ultimately show ?thesis using assms(1) hit(3,4) by (auto simp: receiver_inv_def e(1))
  next
    case (verdict root b hops ch memo)
    have e: "env' = env\<lparr>en_memo := map_option (\<lambda>m. snd (fzn_chain_memo_record m (Some ch) ?g)) memo\<rparr>" using assms(2) verdict(1) by simp
    have ch: "(ch, ?g) \<in> ?P" using verdict(8) by auto
    have "\<forall>m. memo = Some m \<longrightarrow> memo_knows H m" using knows memo_knows_cong [OF verdict(2-4)] by blast
    then have "\<forall>m. en_memo env' = Some m \<longrightarrow> memo_knows (H \<union> ?P) m" using record_knows [OF _ ch] by (auto simp: e)
    moreover obtain hs where "fzn_chain_open (Some b) = (FZN_CHAIN_OK, hs)" "fzn_hop_grantee (the (last hs)) = op_sender out"
      using lookup_filed [OF s(2,3) verdict(6) [unfolded s(1)]] .
    then have "ch_grantee ch = op_sender out" using verdict_fields [OF verdict(8)] verdict(7) by simp
    ultimately show ?thesis
      using assms(1) verdict(5) verdict_fields [OF verdict(8)] verified_alive [OF verdict(8)] ch
      by (auto simp: receiver_inv_def e)
  qed
  then show "receiver_inv (H \<union> ?P) env'" and "v = None \<Longrightarrow> \<exists>root ch g. the (ao_root_for ops) (op_sender out) = Some root \<and> (ch, g) \<in> H \<union> ?P \<and>
      ((ch, g) \<notin> ?P \<longrightarrow> g \<noteq> 0) \<and> g = ?g \<and> ch_root ch = root \<and> ch_grantee ch = op_sender out \<and>
      ch_capability ch = take 32 (op_capability out) \<and> \<not> fzn_chain_expired_at (Some ch) now" by blast+
qed

lemma open_head:
  assumes "fzn_seal_open (Some f) k ck h aead = (FZN_SEAL_OK, g, Some out)" and "fzn_seal_peek (Some f) = (FZN_SEAL_OK, Some p)"
  shows "op_sender out = pk_sender p" and "take 32 (op_capability out) = op_capability out"
proof -
  have views: "views f" and p: "pk_sender p = head_sender f" using assms(2) by (auto simp: fzn_seal_peek_def split: if_splits)
  from views obtain pre x t where f: "f = pre @ x @ t" "prefix_ok pre" "length x = 32 + unat (head_length pre)" "length t = 16" by (rule views_parts)
  have l: "length pre = 96" using f(2) by (simp add: prefix_ok_def)
  have cov: "tag_covered f = Some (5, 91 + length x)" using frame_offsets(2) [OF f(2-4)] f(1) by simp
  obtain plain where o: "op_sender out = head_sender (put_at 96 plain f)" "op_capability out = bytes_at 96 32 (put_at 96 plain f)"
    using assms(1) cov by (auto simp: fzn_seal_open_def Let_def split: option.splits if_splits prod.splits fzn_commitment_err.splits)
  have "put_at 96 plain f = pre @ plain @ drop (96 + length plain) f" using l by (simp add: put_at_def f(1))
  then show "op_sender out = pk_sender p" using head_prefix(2) [OF l] by (simp add: o(1) p f(1))
  show "take 32 (op_capability out) = op_capability out" by (simp add: o(2) bytes_at_def)
qed

text \<open>The key a frame opened under is one the host holds for its sender, and the frame is fresh.\<close>

definition opened_under :: "fzn_admit_env \<Rightarrow> nat \<Rightarrow> bytes \<Rightarrow> u64 \<Rightarrow> fzn_opened \<Rightarrow> bool" where
  "opened_under env cap f now out \<longleftrightarrow>
     (\<exists>ops n keys c g. en_ops env = Some ops \<and> the (ao_keys ops) (op_sender out) cap = (n, keys) \<and> n \<le> cap \<and> c \<in> set (take n keys) \<and>
        fzn_seal_open (Some f) (Some (ak_aead c)) (Some (ak_commitment c)) (en_hash env) (the (en_aead env)) = (FZN_SEAL_OK, g, Some out) \<and>
        fzn_freshness_check (op_expires_at out) (the (ao_expiry_rule ops) (op_kind out)) now (en_max_ahead env) = FZN_FRESH_OK)"

definition authorised :: "fzn_admit_env \<Rightarrow> (fzn_chain \<times> u64) set \<Rightarrow> (fzn_chain \<times> u64) set \<Rightarrow> u64 \<Rightarrow> fzn_opened \<Rightarrow> bool" where
  "authorised env H P now out \<longleftrightarrow>
     (\<exists>ops root ch g. en_ops env = Some ops \<and> the (ao_root_for ops) (op_sender out) = Some root \<and> (ch, g) \<in> H \<union> P \<and>
        ((ch, g) \<notin> P \<longrightarrow> g \<noteq> 0) \<and> g = fzn_revocation_generation (en_revocations env) \<and> ch_root ch = root \<and>
        ch_grantee ch = op_sender out \<and> ch_capability ch = op_capability out \<and> \<not> fzn_chain_expired_at (Some ch) now)"

text \<open>The replay window sees a datagram at most once, and an admitted one is one it accepted.\<close>

definition window_seen :: "fzn_admit_env \<Rightarrow> fzn_admit_env \<Rightarrow> u64 \<Rightarrow> replay_event list \<Rightarrow> bool" where
  "window_seen env env' now evs \<longleftrightarrow> en_replay env' = Some (final replay_step (the (en_replay env)) evs) \<and> (\<forall>e \<in> set evs. event_time e = now)"

lemma admit_seen:
  assumes "window_wf w" and "fzn_replay_admit (Some w) (Some n) x k t = (fr, w')"
  shows "w' = Some (final replay_step w [replay_event.Admit n x k t])" and "fst (replay_step w (replay_event.Admit n x k t)) = fr" and "\<exists>w1. w' = Some w1 \<and> window_wf w1"
  using assms admit_wf [OF assms(1), of n x k t] by (auto simp: split_beta)

lemma datagram_step:
  assumes "receiver_inv H env" and "admit_env (Some f) now env cands cap = Some (r, env', f')"
  defines "P \<equiv> proofs env (Datagram f now)"
  shows "receiver_inv (H \<union> P) env' \<and> (\<exists>evs. window_seen env env' now evs \<and>
    (ar_step r = FZN_ADMIT_ADMITTED \<longrightarrow> (\<exists>out k. ar_opened r = Some out \<and> opened_under env cap f now out \<and> authorised env H P now out \<and>
       evs = [replay_event.Admit (op_nonce out) (op_expires_at out) k now] \<and>
       fst (replay_step (the (en_replay env)) (replay_event.Admit (op_nonce out) (op_expires_at out) k now)) = FZN_FRESH_OK)))"
proof -
  obtain w where w: "en_replay env = Some w" "window_wf w" using assms(1) by (auto simp: receiver_inv_def)
  have wider: "receiver_inv (H \<union> P) e" if "receiver_inv H e" for e
    using that memo_knows_mono [of H _ "H \<union> P"] by (auto simp: receiver_inv_def)
  have none: "window_seen env env now []" by (simp add: window_seen_def w(1))
  from assms(2) show ?thesis
  proof (cases rule: admit_env_cases)
    case (early st vocab err)
    then have "ar_step r \<noteq> FZN_ADMIT_ADMITTED" by auto
    then show ?thesis using wider [OF assms(1)] none early(2) by blast
  next
    case (opened ops peek n keys chosen f0 out)
    have f0: "f0 = f" using opened(2) by simp
    note head = open_head [OF opened(7,3)] and key = choose_key_member [OF opened(6)]
    from opened(8) show ?thesis
    proof (cases rule: after_open_cases)
      case (stale fr)
      then show ?thesis using wider [OF assms(1)] none by auto
    next
      case (replayed fr w')
      note seen = admit_seen [OF w(2) replayed(3) [unfolded w(1)]]
      have "receiver_inv H env'" using assms(1) seen(3) by (auto simp: receiver_inv_def replayed(4))
      moreover have "window_seen env env' now [replay_event.Admit (op_nonce out) (op_expires_at out) (the (ao_expiry_rule ops) (op_kind out)) now]"
        using seen(1) by (simp add: window_seen_def w(1) replayed(4))
      ultimately show ?thesis using wider replayed(1) by auto
    next
      case (unproven w' vocab err)
      note seen = admit_seen [OF w(2) unproven(2) [unfolded w(1)]]
      have mid: "receiver_inv H (env\<lparr>en_replay := w'\<rparr>)" using assms(1) seen(3) by (auto simp: receiver_inv_def)
      have "en_replay env' = w'" using arg_cong [OF authority_env(1) [OF unproven(3)], of en_replay] by simp
      then have "window_seen env env' now [replay_event.Admit (op_nonce out) (op_expires_at out) (the (ao_expiry_rule ops) (op_kind out)) now]"
        using seen(1) by (simp add: window_seen_def w(1))
      moreover have "receiver_inv (H \<union> P) env'" using authority_inv(1) [OF mid unproven(3), of f] by (simp add: P_def)
      ultimately show ?thesis using unproven(1) by auto
    next
      case (proven w' env1)
      note seen = admit_seen [OF w(2) proven(2) [unfolded w(1)]]
      have mid: "receiver_inv H (env\<lparr>en_replay := w'\<rparr>)" using assms(1) seen(3) by (auto simp: receiver_inv_def)
      have same: "proofs (env\<lparr>en_replay := w'\<rparr>) (Datagram f now) = P" by (simp add: P_def)
      have inv: "receiver_inv (H \<union> P) env1" using authority_inv(1) [OF mid proven(3), of f] unfolding same .
      obtain table where env': "env' = env1\<lparr>en_reassembly := table\<rparr>" and r: "ar_step r = FZN_ADMIT_ADMITTED \<longrightarrow> ar_opened r = Some out"
        using proven(4) by (cases rule: reassemble_cases) auto
      have "en_replay env1 = w'" using arg_cong [OF authority_env(1) [OF proven(3)], of en_replay] by simp
      then have "window_seen env env' now [replay_event.Admit (op_nonce out) (op_expires_at out) (the (ao_expiry_rule ops) (op_kind out)) now]"
        using seen(1) by (simp add: window_seen_def w(1) env')
      moreover have "receiver_inv (H \<union> P) env'" using inv by (simp add: receiver_inv_def env')
      moreover have "authorised env H P now out"
        using authority_inv(2) [OF mid proven(3) refl, of f] opened(1) head(2) unfolding same authorised_def by simp
      moreover have "opened_under env cap f now out"
        using opened(1,4,5,7) key proven(1) unfolding opened_under_def head(1) f0 by blast
      ultimately show ?thesis using r seen(2) w(1) by fastforce
    qed
  qed
qed

lemma datagram_result:
  "receiver_step cap env (Datagram f now) = (case admit_env (Some f) now env True cap of Some (r, env', _) \<Rightarrow> (Some r, env') | None \<Rightarrow> (None, env))"
  by (auto simp: fzn_admit_def split: option.splits)

lemma receiver_step_inv:
  assumes "receiver_inv H env"
  shows "receiver_inv (H \<union> proofs env ev) (snd (receiver_step cap env ev))"
proof (cases ev)
  case (Datagram f now)
  have "receiver_inv (H \<union> proofs env ev) env" using assms memo_knows_mono [of H _ "H \<union> proofs env ev"] by (auto simp: receiver_inv_def)
  then show ?thesis
    unfolding Datagram datagram_result using datagram_step [OF assms, of f now True cap] by (auto split: option.splits)
next
  case (Learn_Chain b root c now)
  obtain s where s: "en_chains env = Some s" "chains_inv s" "filed s" using assms by (auto simp: receiver_inv_def)
  obtain cr hs where o: "fzn_chain_open (Some b) = (cr, hs)" by fastforce
  obtain err s' where a: "fzn_chain_store_admit s (Some hs) (Some root) (Some c) now (the (en_sign env)) (en_revocations env) (en_manifest env) = (err, s')"
    by fastforce
  show ?thesis
  proof (cases "cr = FZN_CHAIN_OK")
    case True
    then show ?thesis using assms admit_filed [OF s(2,3) o [unfolded True] a] by (simp add: Learn_Chain s(1) o a receiver_inv_def)
  next
    case False
    then have "snd (receiver_step cap env ev) = env" by (cases cr) (simp_all add: Learn_Chain s(1) o)
    then show ?thesis using assms Learn_Chain by simp
  qed
next
  case (Local revs man t)
  then show ?thesis using assms by (simp add: receiver_inv_def)
qed

text \<open>The parts of the environment that no event changes.\<close>

definition fixed_part :: "fzn_admit_env \<Rightarrow> fzn_admit_ops option \<times> fzn_hash_fn option \<times> fzn_aead_ops option \<times> fzn_sign_ops option \<times> u64" where
  "fixed_part env = (en_ops env, en_hash env, en_aead env, en_sign env, en_max_ahead env)"

lemma bounded_fixed: "effects_bounded env env' st \<Longrightarrow> fixed_part env' = fixed_part env"
  by (drule effects_bounded_def [THEN iffD1, THEN conjunct1], drule arg_cong [where f = fixed_part]) (simp add: fixed_part_def)

lemma admit_env_fixed:
  assumes "admit_env frame now env cands cap = Some (r, env', frame')"
  shows "fixed_part env' = fixed_part env"
  using assms by (cases rule: admit_env_cases) (auto dest!: after_open_result bounded_fixed)

lemma receiver_step_fixed: "fixed_part (snd (receiver_step cap env ev)) = fixed_part env"
proof (cases ev)
  case (Datagram f now)
  show ?thesis unfolding Datagram datagram_result by (auto split: option.splits dest: admit_env_fixed)
next
  case (Learn_Chain b root c now)
  obtain cr hs where o: "fzn_chain_open (Some b) = (cr, hs)" by fastforce
  show ?thesis by (cases "en_chains env"; cases cr) (simp_all add: Learn_Chain o fixed_part_def)
next
  case (Local revs man t)
  then show ?thesis by (simp add: fixed_part_def)
qed

lemma receiver_fixed: "fixed_part (final (receiver_step cap) env es) = fixed_part env"
  by (induction es arbitrary: env) (simp_all add: split_beta receiver_step_fixed)

definition history :: "nat \<Rightarrow> fzn_admit_env \<Rightarrow> receiver_event list \<Rightarrow> (fzn_chain \<times> u64) set" where
  "history cap env es = {p. \<exists>xs ev ys. es = xs @ ev # ys \<and> p \<in> proofs (final (receiver_step cap) env xs) ev}"

lemma history_snoc: "history cap env (es @ [ev]) = history cap env es \<union> proofs (final (receiver_step cap) env es) ev"
proof -
  have "es @ [ev] = xs @ e # ys \<longleftrightarrow> (ys = [] \<and> es = xs \<and> ev = e) \<or> (\<exists>zs. ys = zs @ [ev] \<and> es = xs @ e # zs)" for xs e ys
    by (cases ys rule: rev_cases) auto
  then show ?thesis by (auto simp: history_def)
qed

lemma receiver_run_inv: "receiver_inv H env \<Longrightarrow> receiver_inv (H \<union> history cap env es) (final (receiver_step cap) env es)"
proof (induction es rule: rev_induct)
  case Nil
  then show ?case by (simp add: history_def)
next
  case (snoc ev es)
  from receiver_step_inv [OF snoc.IH [OF snoc.prems], of ev cap] show ?case by (simp add: run_append history_snoc split_beta Un_assoc)
qed

text \<open>A receiver that has taken nothing in yet.\<close>

definition fresh_receiver :: "fzn_admit_env \<Rightarrow> bool" where
  "fresh_receiver env \<longleftrightarrow>
     (\<exists>cells m w. fzn_replay_init (Some cells) (length cells) m = (FZN_FRESH_OK, Some w) \<and> en_replay env = Some w) \<and>
     (\<exists>rows s. fzn_chain_store_init (Some rows) (length rows) = (FZN_CHAIN_OK, Some s) \<and> en_chains env = Some s) \<and>
     (en_memo env = None \<or> (\<exists>es m. fzn_chain_memo_init (Some es) (length es) = (FZN_CHAIN_OK, Some m) \<and> en_memo env = Some m))"

lemma fresh_receiver_inv: "fresh_receiver env \<Longrightarrow> receiver_inv {} env"
  by (auto simp: fresh_receiver_def receiver_inv_def init_wf memo_init_knows fzn_chain_store_init_def chains_inv_def chains_of_def filed_def
      zero_chain_entry_def split: if_splits)

text \<open>
  C1. What an admitted frame has behind it. Whatever a receiver has been through since it started
  empty, a frame it admits opened under a key the host holds for the frame's sender, is fresh, and
  its sender holds the capability the frame names: a chain from the root the host anchors that sender
  to, down to the sender, verified for this frame or for an earlier datagram under the same
  generation of revocations, and it has not expired. A verdict is only ever carried over where there
  is a revocation store to invalidate it.
\<close>

theorem admitted_frames_authorised:
  assumes "fresh_receiver env" and "fst (receiver_step cap (final (receiver_step cap) env es) (Datagram f now)) = Some r"
    and "ar_step r = FZN_ADMIT_ADMITTED"
  shows "\<exists>out ops root before f' t after hs ch. ar_opened r = Some out \<and> opened_under env cap f now out \<and>
    en_ops env = Some ops \<and> the (ao_root_for ops) (op_sender out) = Some root \<and> es @ [Datagram f now] = before @ Datagram f' t # after \<and>
    (let here = final (receiver_step cap) env es; past = final (receiver_step cap) env before in
     fzn_chain_verify (Some hs) (Some root) (Some (op_capability out)) t (the (en_sign env)) (en_revocations past) (en_manifest past) = Inr ch \<and>
     ch_grantee ch = op_sender out \<and> \<not> fzn_chain_expired_at (Some ch) now \<and>
     fzn_revocation_generation (en_revocations past) = fzn_revocation_generation (en_revocations here) \<and>
     (fzn_revocation_generation (en_revocations here) = 0 \<longrightarrow> before = es))"
proof -
  let ?env = "final (receiver_step cap) env es" and ?P = "proofs (final (receiver_step cap) env es) (Datagram f now)"
  note inv = receiver_run_inv [OF fresh_receiver_inv [OF assms(1)], of cap es]
  have unchanged: "fixed_part (final (receiver_step cap) env xs) = fixed_part env" for xs by (rule receiver_fixed)
  obtain env' f' where a: "admit_env (Some f) now ?env True cap = Some (r, env', f')"
    using assms(2) unfolding datagram_result by (auto split: option.splits)
  from datagram_step [OF inv a] assms(3) obtain out where out: "ar_opened r = Some out" "opened_under ?env cap f now out"
      "authorised ?env (history cap env es) ?P now out" by auto
  have under: "opened_under env cap f now out" using out(2) unchanged [of es] by (simp add: opened_under_def fixed_part_def)
  have ops: "en_ops ?env = en_ops env" using unchanged [of es] by (simp add: fixed_part_def)
  obtain ops root ch g where au: "en_ops env = Some ops" "the (ao_root_for ops) (op_sender out) = Some root"
      "(ch, g) \<in> history cap env es \<union> ?P" "(ch, g) \<notin> ?P \<longrightarrow> g \<noteq> 0" "g = fzn_revocation_generation (en_revocations ?env)"
      "ch_root ch = root" "ch_grantee ch = op_sender out" "ch_capability ch = op_capability out" "\<not> fzn_chain_expired_at (Some ch) now"
    using out(3) unfolding authorised_def ops by - (elim exE conjE, rule that, assumption+)
  obtain before ev after where split: "es @ [Datagram f now] = before @ ev # after" "(ch, g) \<in> proofs (final (receiver_step cap) env before) ev"
      "g = 0 \<longrightarrow> before = es"
  proof (cases "(ch, g) \<in> ?P")
    case True
    then show thesis using that [of es "Datagram f now" "[]"] by simp
  next
    case False
    then have "(ch, g) \<in> history cap env es" "g \<noteq> 0" using au(3,4) by blast+
    then obtain xs e ys where x: "es = xs @ e # ys" "(ch, g) \<in> proofs (final (receiver_step cap) env xs) e" unfolding history_def by blast
    show thesis by (rule that [OF _ x(2), of "ys @ [Datagram f now]"]) (simp_all add: x(1) \<open>g \<noteq> 0\<close>)
  qed
  then obtain f' t where ev: "ev = Datagram f' t" by (cases ev) auto
  obtain hs rt c where v: "fzn_chain_verify (Some hs) (Some rt) (Some c) t (the (en_sign env)) (en_revocations (final (receiver_step cap) env before))
      (en_manifest (final (receiver_step cap) env before)) = Inr ch" "g = fzn_revocation_generation (en_revocations (final (receiver_step cap) env before))"
    using split(2) unchanged [of before] by (auto simp: ev fixed_part_def)
  have rc: "rt = root" "c = op_capability out" using verdict_fields [OF v(1)] au(6,8) by simp_all
  have same: "fzn_revocation_generation (en_revocations (final (receiver_step cap) env before)) = fzn_revocation_generation (en_revocations ?env)"
    and zero: "fzn_revocation_generation (en_revocations ?env) = 0 \<longrightarrow> before = es" using v(2) au(5) split(3) by simp_all
  show ?thesis
    unfolding Let_def
    by (intro exI conjI) (rule out(1) under au(1,2) split(1) [unfolded ev] v(1) [unfolded rc] au(7,9) same zero)+
qed

fun datagram_times :: "receiver_event list \<Rightarrow> u64 list" where
  "datagram_times [] = []"
| "datagram_times (Datagram f t # es) = t # datagram_times es"
| "datagram_times (_ # es) = datagram_times es"

lemma datagram_times_append [simp]: "datagram_times (xs @ ys) = datagram_times xs @ datagram_times ys"
  by (induction xs rule: datagram_times.induct) simp_all

text \<open>The window of a receiver keeps what it remembers through every event before the expiry.\<close>

lemma receiver_step_keeps:
  assumes "receiver_inv H env" and "(n, x) \<in> remembered (the (en_replay env))" and "\<forall>t \<in> set (datagram_times [ev]). t < x"
  shows "(n, x) \<in> remembered (the (en_replay (snd (receiver_step cap env ev))))"
proof (cases ev)
  case (Datagram f now)
  show ?thesis
  proof (cases "admit_env (Some f) now env True cap")
    case None
    then show ?thesis using assms(2) unfolding Datagram datagram_result by simp
  next
    case (Some p)
    obtain r env' g where p: "p = (r, env', g)" using prod_cases3 by blast
    from datagram_step [OF assms(1) Some [unfolded p]] obtain evs where seen: "window_seen env env' now evs" by blast
    obtain w where w: "en_replay env = Some w" "window_wf w" using assms(1) by (auto simp: receiver_inv_def)
    have "(n, x) \<in> remembered (final replay_step w evs)"
      using assms(2,3) seen by (intro replay_window.run_keeps [OF w(2)]) (auto simp: w(1) window_seen_def Datagram)
    then show ?thesis using seen unfolding Datagram datagram_result Some p by (simp add: window_seen_def w(1))
  qed
next
  case (Learn_Chain b root c now)
  obtain cr hs where o: "fzn_chain_open (Some b) = (cr, hs)" by fastforce
  show ?thesis using assms(2) by (cases "en_chains env"; cases cr) (simp_all add: Learn_Chain o)
next
  case (Local revs man table)
  then show ?thesis using assms(2) by simp
qed

lemma receiver_run_keeps:
  "receiver_inv H env \<Longrightarrow> (n, x) \<in> remembered (the (en_replay env)) \<Longrightarrow> \<forall>t \<in> set (datagram_times es). t < x \<Longrightarrow>
   (n, x) \<in> remembered (the (en_replay (final (receiver_step cap) env es)))"
proof (induction es arbitrary: H env)
  case (Cons ev es)
  have "\<forall>t \<in> set (datagram_times [ev]). t < x" "\<forall>t \<in> set (datagram_times es). t < x"
    using Cons.prems(3) datagram_times_append [of "[ev]" es] by auto
  with Cons.IH [OF receiver_step_inv [OF Cons.prems(1)] receiver_step_keeps [OF Cons.prems(1,2)]] show ?case
    by (simp add: split_beta)
qed simp

lemma receiver_accepts:
  assumes "receiver_inv H env" and "fst (receiver_step cap env (Datagram f t)) = Some r" and "ar_step r = FZN_ADMIT_ADMITTED"
  defines "out \<equiv> the (ar_opened r)"
  shows "\<exists>k w. en_replay env = Some w \<and> window_wf w \<and> fst (fzn_replay_admit (Some w) (Some (op_nonce out)) (op_expires_at out) k t) = FZN_FRESH_OK \<and>
    en_replay (snd (receiver_step cap env (Datagram f t))) = snd (fzn_replay_admit (Some w) (Some (op_nonce out)) (op_expires_at out) k t)"
proof -
  obtain env' g where a: "admit_env (Some f) t env True cap = Some (r, env', g)"
    using assms(2) unfolding datagram_result by (auto split: option.splits)
  obtain w where w: "en_replay env = Some w" "window_wf w" using assms(1) by (auto simp: receiver_inv_def)
  from datagram_step [OF assms(1) a] assms(3) obtain o' k where o: "ar_opened r = Some o'"
      "window_seen env env' t [replay_event.Admit (op_nonce o') (op_expires_at o') k t]"
      "fst (replay_step (the (en_replay env)) (replay_event.Admit (op_nonce o') (op_expires_at o') k t)) = FZN_FRESH_OK" by auto
  note wf = admit_wf [OF w(2), of "op_nonce o'" "op_expires_at o'" k t]
  show ?thesis
    unfolding datagram_result a using w o wf by (intro exI [of _ k] exI [of _ w]) (auto simp: out_def window_seen_def split_beta)
qed

text \<open>
  C2. A frame that carries an expiry is admitted once. Whatever a receiver has been through, once it admitted a
  frame with an expiry, it admits no other frame with an expiry and the same nonce, in whatever order datagrams, chains and
  updates of its stores follow, until the first one has expired, provided the clock of the datagrams
  does not run backwards. Frames without an expiry are outside of this: where the rule for their kind lets them through, the
  replay window neither remembers them nor holds their nonce against what it remembers.
\<close>

theorem frame_admitted_once:
  assumes "fresh_receiver env" and "sorted (datagram_times (before @ Datagram f t # between @ [Datagram f' t']))"
    and "fst (receiver_step cap (final (receiver_step cap) env before) (Datagram f t)) = Some r" and "ar_step r = FZN_ADMIT_ADMITTED"
    and "fst (receiver_step cap (final (receiver_step cap) env (before @ Datagram f t # between)) (Datagram f' t')) = Some r'"
    and "ar_step r' = FZN_ADMIT_ADMITTED"
    and "op_nonce (the (ar_opened r)) = op_nonce (the (ar_opened r'))"
    and "op_expires_at (the (ar_opened r)) \<noteq> 0" and "op_expires_at (the (ar_opened r')) \<noteq> 0"
  shows "op_expires_at (the (ar_opened r)) \<le> t'"
proof (rule ccontr)
  let ?n = "op_nonce (the (ar_opened r))" and ?x = "op_expires_at (the (ar_opened r))"
  let ?here = "final (receiver_step cap) env before"
  let ?next = "snd (receiver_step cap ?here (Datagram f t))"
  assume "\<not> ?x \<le> t'"
  then have late: "t' < ?x" by simp
  note inv = receiver_run_inv [OF fresh_receiver_inv [OF assms(1)], of cap before]
  obtain k w where first: "en_replay ?here = Some w" "window_wf w" "fst (fzn_replay_admit (Some w) (Some ?n) ?x k t) = FZN_FRESH_OK"
      "en_replay ?next = snd (fzn_replay_admit (Some w) (Some ?n) ?x k t)"
    using receiver_accepts [OF inv assms(3,4)] by auto
  have held: "(?n, ?x) \<in> remembered (the (en_replay ?next))" using admit_ok_remembers [OF first(2) assms(8) first(3)] first(4) by simp
  have early: "\<forall>s \<in> set (datagram_times between). s < ?x"
    using assms(2) late by (auto simp: sorted_append)
  have path: "final (receiver_step cap) env (before @ Datagram f t # between) = final (receiver_step cap) ?next between"
    by (simp add: run_append split_beta)
  have kept: "(?n, ?x) \<in> remembered (the (en_replay (final (receiver_step cap) env (before @ Datagram f t # between))))"
    unfolding path by (rule receiver_run_keeps [OF receiver_step_inv [OF inv] held early])
  obtain k' w' where again: "en_replay (final (receiver_step cap) env (before @ Datagram f t # between)) = Some w'" "window_wf w'"
      "fst (fzn_replay_admit (Some w') (Some ?n) (op_expires_at (the (ar_opened r'))) k' t') = FZN_FRESH_OK"
    using receiver_accepts [OF receiver_run_inv [OF fresh_receiver_inv [OF assms(1)]] assms(5,6)] assms(7) by auto
  from admit_remembered_refused [OF again(2) _ late assms(9), of ?n k'] kept again show False by simp
qed

section \<open>One receiver, two frames\<close>

definition demo_ops :: fzn_admit_ops where
  "demo_ops = \<lparr>ao_keys = Some (\<lambda>sender room. (1, [\<lparr>ak_aead = replicate 32 1, ak_commitment = replicate 32 1\<rparr>])),
     ao_expiry_rule = Some (\<lambda>kind. FZN_EXPIRY_REQUIRED), ao_root_for = Some (\<lambda>sender. Some (replicate 32 1))\<rparr>"

definition demo_env :: fzn_admit_env where
  "demo_env = \<lparr>en_ops = Some demo_ops, en_hash = Some demo_fn, en_aead = Some demo_aead, en_sign = Some demo_sign,
     en_replay = Some replay_start, en_chains = Some empty_chains, en_revocations = None, en_manifest = None, en_memo = None,
     en_reassembly = None, en_max_ahead = 60\<rparr>"

definition demo_chain :: bytes where
  "demo_chain = [1, 1] @ demo_hop"

definition frame_at :: "u64 \<Rightarrow> bytes" where
  "frame_at x = sent_prefix (demo_send\<lparr>se_expires_at := x\<rparr>) (replicate 24 4) (replicate 16 9) @ map (\<lambda>b. b XOR 90) demo_plain @ replicate 16 7"

lemma demo_packs: "fzn_chain_pack (Some [Some demo_hop]) FZN_CHAIN_MAX_LEN = (FZN_CHAIN_OK, Some demo_chain)"
  using demo_hop_opens by (auto simp: chain_pack_spec demo_chain_def hop_open_ok_iff)

lemma demo_reopens: "fzn_chain_open (Some demo_chain) = (FZN_CHAIN_OK, [Some demo_hop])"
  using pack_reopens [of "[demo_hop]"] demo_packs demo_hop_opens by simp

lemma demo_fresh: "fresh_receiver demo_env"
proof -
  have replay: "fzn_replay_init (Some replay_cells) (length replay_cells) 60 = (FZN_FRESH_OK, Some replay_start)"
    by (simp add: fzn_replay_init_def replay_start_def replay_cells_def)
  have store: "fzn_chain_store_init (Some [zero_chain_entry]) (length [zero_chain_entry]) = (FZN_CHAIN_OK, Some empty_chains)"
    by (simp add: empty_chains_def fzn_chain_store_init_def)
  show ?thesis unfolding fresh_receiver_def
  proof (intro conjI exI)
    show "en_memo demo_env = None \<or> (\<exists>es m. fzn_chain_memo_init (Some es) (length es) = (FZN_CHAIN_OK, Some m) \<and> en_memo demo_env = Some m)"
      by (simp add: demo_env_def)
  qed (rule replay store | simp add: demo_env_def)+
qed

text \<open>A receiver that knows the chain, and what it makes of a frame that expires at \<open>x\<close>.\<close>

definition knowing :: "fzn_replay_window \<Rightarrow> fzn_admit_env" where
  "knowing w = demo_env\<lparr>en_replay := Some w, en_chains := Some (snd (fzn_chain_store_admit empty_chains (Some [Some demo_hop])
     (Some (replicate 32 1)) (Some (replicate 32 3)) 10 demo_sign None None))\<rparr>"

lemma knowing_fields:
  "en_ops (knowing w) = Some demo_ops" "en_hash (knowing w) = Some demo_fn" "en_aead (knowing w) = Some demo_aead"
  "en_sign (knowing w) = Some demo_sign" "en_replay (knowing w) = Some w" "en_revocations (knowing w) = None" "en_manifest (knowing w) = None"
  "en_memo (knowing w) = None" "en_reassembly (knowing w) = None" "en_max_ahead (knowing w) = 60" "en_chains (knowing w) \<noteq> None"
  "(knowing w)\<lparr>en_replay := Some w'\<rparr> = knowing w'" "(knowing w)\<lparr>en_memo := None\<rparr> = knowing w"
  by (simp_all add: knowing_def demo_env_def)

lemma demo_learns: "final (receiver_step 1) demo_env [Learn_Chain demo_chain (replicate 32 1) (replicate 32 3) 10] = knowing replay_start"
  by (simp add: knowing_def demo_env_def demo_reopens)

lemma demo_lookup:
  assumes "10 \<le> t" and "t < 90"
  shows "fzn_chain_store_lookup (en_chains (knowing w)) (Some (replicate 32 1)) (Some (replicate 32 3)) (Some (replicate 32 2)) t = Some demo_chain"
proof -
  let ?a = "fzn_chain_store_admit empty_chains (Some [Some demo_hop]) (Some (replicate 32 1)) (Some (replicate 32 3)) 10 demo_sign None None"
  have "fst ?a = FZN_CHAIN_OK"
    by (simp add: fzn_chain_store_admit_def empty_chains_def fzn_chain_store_init_def fzn_chain_store_sound_def demo_chain_verifies
        demo_packs find_chain_def chains_of_def Let_def first_at_def)
  then have "?a = (FZN_CHAIN_OK, snd ?a)" by (simp add: prod_eq_iff)
  from stored_answers [OF empty_chains_inv this demo_chain_verifies demo_packs assms(1)] assms(2)
  show ?thesis by (simp add: answers_def verdict_key_def fzn_chain_expired_at_def knowing_def not_le)
qed

definition demo_opened :: "u64 \<Rightarrow> fzn_opened" where
  "demo_opened x = \<lparr>op_capability = replicate 32 3, op_payload = [1, 2, 3], op_sender = replicate 32 2, op_nonce = replicate 24 4,
     op_expires_at = x, op_msg = 7, op_index = 0, op_chunks = 1, op_kind = 1\<rparr>"

lemma demo_admits:
  assumes "10 \<le> t" and "t < 90" and "fzn_freshness_check x FZN_EXPIRY_REQUIRED t 60 = FZN_FRESH_OK"
    and "fzn_replay_admit (Some w) (Some (replicate 24 4)) x FZN_EXPIRY_REQUIRED t = (FZN_FRESH_OK, Some w')"
  shows "\<exists>g. fzn_admit (Some (frame_at x)) t (Some (knowing w)) True 1 =
    Some (\<lparr>ar_step = FZN_ADMIT_ADMITTED, ar_vocab = FZN_ADMIT_VOCAB_NONE, ar_err = No_Code, ar_opened = Some (demo_opened x), ar_message = None\<rparr>,
      Some (knowing w'), g)"
proof -
  let ?what = "demo_send\<lparr>se_expires_at := x\<rparr>"
  let ?pre = "sent_prefix ?what (replicate 24 4) (replicate 16 9)" and ?y = "map (\<lambda>b. b XOR 90) demo_plain"
  have sender: "se_sender ?what = Some (replicate 32 2)" by (simp add: demo_send_def)
  note fields = sent_prefix_fields [OF sender, of "replicate 24 4" "replicate 16 9", simplified]
  have pre: "prefix_ok ?pre" "unat (head_length ?pre) = 3"
    using build_prefix [OF sender, of "replicate 24 4" "replicate 16 9"] by (simp_all add: demo_send_def situ_fzn_kind_is_known_def)
  have y: "length ?y = 32 + unat (head_length ?pre)" by (simp add: pre(2) demo_plain_def)
  have views: "views (frame_at x)" unfolding frame_at_def by (rule frame_offsets(1) [OF pre(1) y]) simp
  have peek: "fzn_seal_peek (Some (frame_at x)) = (FZN_SEAL_OK, Some \<lparr>pk_sender = replicate 32 2, pk_nonce = replicate 24 4,
      pk_commitment = replicate 16 9, pk_expires_at = x, pk_msg = 7, pk_index = 0, pk_chunks = 1, pk_kind = 1\<rparr>)"
    using views head_prefix [OF fields(1)] fields(2-9) by (simp add: fzn_seal_peek_def) (simp add: frame_at_def demo_send_def)
  have opener: "ao_open demo_aead = Some (\<lambda>k n a y t. if t = replicate 16 7 then Some (map (\<lambda>b. b XOR 90) y) else None)"
    by (simp add: demo_aead_def)
  have out: "opened_of ?pre demo_plain = demo_opened x"
    using fields(2-9) by (simp add: opened_of_def demo_opened_def demo_plain_def pre(2)) (simp add: demo_send_def bytes_at_def)
  have clear: "map ((\<lambda>b. b XOR 90) \<circ> (\<lambda>b. b XOR 90)) demo_plain = demo_plain" by (simp add: comp_def xor.assoc)
  have "fzn_seal_open (Some (frame_at x)) (Some (replicate 32 1)) (Some (replicate 32 1)) (Some demo_fn) demo_aead =
      (FZN_SEAL_OK, Some (?pre @ demo_plain @ replicate 16 7), Some (demo_opened x))"
    unfolding frame_at_def using open_parts [OF pre(1) y _ opener, of "replicate 16 7" "replicate 32 1" "replicate 32 1" demo_fn]
    by (simp add: fields(5,6) demo_bound commitment_ok_iff out clear)
  moreover have "after_open (knowing w) demo_ops (demo_opened x) t = Some (\<lparr>ar_step = FZN_ADMIT_ADMITTED, ar_vocab = FZN_ADMIT_VOCAB_NONE,
      ar_err = No_Code, ar_opened = Some (demo_opened x), ar_message = None\<rparr>, knowing w')"
  proof -
    have "prove_authority (knowing w') demo_ops (demo_opened x) t = (None, knowing w')"
      by (simp add: prove_authority_def demo_ops_def demo_opened_def knowing_fields demo_lookup [OF assms(1,2)] demo_reopens
          demo_chain_verifies_at [OF assms(2)])
    moreover have "the (ao_expiry_rule demo_ops) (op_kind (demo_opened x)) = FZN_EXPIRY_REQUIRED" by (simp add: demo_ops_def)
    moreover have "op_expires_at (demo_opened x) = x" "op_nonce (demo_opened x) = replicate 24 4" by (simp_all add: demo_opened_def)
    ultimately show ?thesis
      using assms(3,4) by (simp add: after_open_def Let_def knowing_fields reassemble_def)
  qed
  moreover have "ao_keys demo_ops = Some (\<lambda>sender room. (1, [\<lparr>ak_aead = replicate 32 1, ak_commitment = replicate 32 1\<rparr>]))"
    "ao_expiry_rule demo_ops \<noteq> None" "ao_root_for demo_ops \<noteq> None" by (simp_all add: demo_ops_def)
  ultimately show ?thesis
    using peek knowing_fields(11) [of w] by (auto simp: fzn_admit_def admit_env_def knowing_fields demo_bound commitment_ok_iff)
qed

lemma demo_fresh_checks:
  "fzn_freshness_check 50 FZN_EXPIRY_REQUIRED 10 60 = FZN_FRESH_OK" "fzn_freshness_check 80 FZN_EXPIRY_REQUIRED 50 60 = FZN_FRESH_OK"
  by code_simp+

lemma demo_replays:
  obtains w w' where "fzn_replay_admit (Some replay_start) (Some (replicate 24 4)) 50 FZN_EXPIRY_REQUIRED 10 = (FZN_FRESH_OK, Some w)"
    "fzn_replay_admit (Some w) (Some (replicate 24 4)) 80 FZN_EXPIRY_REQUIRED 50 = (FZN_FRESH_OK, Some w')"
proof -
  let ?one = "fzn_replay_admit (Some replay_start) (Some (replicate 24 4)) 50 FZN_EXPIRY_REQUIRED 10"
  let ?two = "fzn_replay_admit (snd ?one) (Some (replicate 24 4)) 80 FZN_EXPIRY_REQUIRED 50"
  have "fst ?one = FZN_FRESH_OK" "snd ?one \<noteq> None" "fst ?two = FZN_FRESH_OK" "snd ?two \<noteq> None" by code_simp+
  then obtain w w' where "?one = (FZN_FRESH_OK, Some w)" "?two = (FZN_FRESH_OK, Some w')" by (metis not_None_eq prod.collapse)
  then show thesis using that by simp
qed


theorem unopened_changes_nothing_witness:
  "\<exists>r e. fzn_admit (Some []) 10 (Some (knowing replay_start)) True 1 = Some (r, Some e, Some []) \<and> ar_step r = FZN_ADMIT_SHAPE \<and>
     e = knowing replay_start"
proof -
  have a: "fzn_admit (Some []) 10 (Some (knowing replay_start)) True 1 =
      Some (refuse None FZN_ADMIT_SHAPE FZN_ADMIT_VOCAB_SEAL (Seal_Code FZN_SEAL_ERR_SHAPE), Some (knowing replay_start), Some [])"
    using knowing_fields(11) [of replay_start]
    by (simp add: fzn_admit_def admit_env_def knowing_fields fzn_seal_peek_def views_def) (simp add: demo_ops_def)
  from unopened_changes_nothing [OF a] a show ?thesis by auto
qed

theorem admitted_frames_authorised_witness:
  "\<exists>out hs t ch. opened_under demo_env 1 (frame_at 50) 10 out \<and>
     fzn_chain_verify (Some hs) (Some (replicate 32 1)) (Some (op_capability out)) t demo_sign None None = Inr ch \<and>
     ch_grantee ch = op_sender out \<and> \<not> fzn_chain_expired_at (Some ch) 10"
proof -
  let ?es = "[Learn_Chain demo_chain (replicate 32 1) (replicate 32 3) 10]"
  obtain w w' where w: "fzn_replay_admit (Some replay_start) (Some (replicate 24 4)) 50 FZN_EXPIRY_REQUIRED 10 = (FZN_FRESH_OK, Some w)"
    by (rule demo_replays)
  obtain r where r: "fst (receiver_step 1 (knowing replay_start) (Datagram (frame_at 50) 10)) = Some r" "ar_step r = FZN_ADMIT_ADMITTED"
    using demo_admits [OF _ _ demo_fresh_checks(1) w] by auto
  have rooted: "the (ao_root_for demo_ops) k = Some (replicate 32 1)" and fixed: "en_ops demo_env = Some demo_ops" "en_sign demo_env = Some demo_sign" for k
    by (simp_all add: demo_ops_def demo_env_def)
  note behind = admitted_frames_authorised [OF demo_fresh _ r(2), of 1 ?es "frame_at 50" 10, unfolded demo_learns, OF r(1)]
  obtain out ops root before f' t after hs ch where o: "opened_under demo_env 1 (frame_at 50) 10 out" "en_ops demo_env = Some ops"
      "the (ao_root_for ops) (op_sender out) = Some root" "?es @ [Datagram (frame_at 50) 10] = before @ Datagram f' t # after"
      "fzn_chain_verify (Some hs) (Some root) (Some (op_capability out)) t (the (en_sign demo_env))
        (en_revocations (final (receiver_step 1) demo_env before)) (en_manifest (final (receiver_step 1) demo_env before)) = Inr ch"
      "ch_grantee ch = op_sender out" "\<not> fzn_chain_expired_at (Some ch) 10"
    using behind unfolding Let_def by - (elim exE conjE, rule that, assumption+)
  have root: "root = replicate 32 1" using o(2,3) rooted fixed(1) by simp
  have "before = ?es" using o(4) by (cases before; cases "tl before") auto
  then have "en_revocations (final (receiver_step 1) demo_env before) = None" "en_manifest (final (receiver_step 1) demo_env before) = None"
    using demo_learns by (simp_all add: knowing_fields)
  with o(1,5-7) show ?thesis unfolding root fixed(2) option.sel by auto
qed

theorem frame_admitted_once_witness:
  "\<exists>r r'. fst (receiver_step 1 (knowing replay_start) (Datagram (frame_at 50) 10)) = Some r \<and>
     fst (receiver_step 1 (snd (receiver_step 1 (knowing replay_start) (Datagram (frame_at 50) 10))) (Datagram (frame_at 80) 50)) = Some r' \<and>
     ar_step r = FZN_ADMIT_ADMITTED \<and> ar_step r' = FZN_ADMIT_ADMITTED \<and> op_expires_at (the (ar_opened r)) \<le> 50"
proof -
  let ?before = "[Learn_Chain demo_chain (replicate 32 1) (replicate 32 3) 10]"
  obtain w w' where w: "fzn_replay_admit (Some replay_start) (Some (replicate 24 4)) 50 FZN_EXPIRY_REQUIRED 10 = (FZN_FRESH_OK, Some w)"
      "fzn_replay_admit (Some w) (Some (replicate 24 4)) 80 FZN_EXPIRY_REQUIRED 50 = (FZN_FRESH_OK, Some w')" by (rule demo_replays)
  obtain r where r: "receiver_step 1 (knowing replay_start) (Datagram (frame_at 50) 10) = (Some r, knowing w)" "ar_step r = FZN_ADMIT_ADMITTED"
      "ar_opened r = Some (demo_opened 50)" using demo_admits [OF _ _ demo_fresh_checks(1) w(1)] by auto
  obtain r' where r': "receiver_step 1 (knowing w) (Datagram (frame_at 80) 50) = (Some r', knowing w')" "ar_step r' = FZN_ADMIT_ADMITTED"
      "ar_opened r' = Some (demo_opened 80)" using demo_admits [OF _ _ demo_fresh_checks(2) w(2)] by auto
  have path: "final (receiver_step 1) demo_env (?before @ Datagram (frame_at 50) 10 # []) = knowing w"
    using r(1) demo_learns unfolding run_append by (simp add: split_beta)
  have "sorted (datagram_times (?before @ Datagram (frame_at 50) 10 # [] @ [Datagram (frame_at 80) 50]))" by simp
  from frame_admitted_once [OF demo_fresh this, of 1 r r', unfolded demo_learns path] r r'
  have "op_expires_at (the (ar_opened r)) \<le> 50" by (simp add: demo_opened_def)
  then show ?thesis using r r' by (intro exI [of _ r] exI [of _ r']) (simp del: receiver_step.simps)
qed

end
