(* ===== verification/Byte_Field.thy ===== *)
theory Byte_Field
  imports Fzn_Prelude
begin

text \<open>
  The arithmetic of \<open>chunk/erasure.c\<close>: bytes as elements of the field of 256 elements. The logarithm
  tables of \<open>gf_init\<close> are shown to multiply like the polynomials they stand for, the bytes are made an
  instance of the library's class of fields, and a square system of inverses of differences is shown
  to have no solution but zero.
\<close>

section \<open>The tables and what is looked up in them\<close>

text \<open>The first loop of \<open>gf_init\<close>: the running power, the exponentials and the logarithms.\<close>

definition gf_step :: "nat \<Rightarrow> u32 \<times> u8 list \<times> u8 list \<Rightarrow> u32 \<times> u8 list \<times> u8 list" where
  "gf_step i = (\<lambda>(x, ex, lg).
     let y = push_bit 1 x in
     (if y AND 0x100 \<noteq> 0 then y XOR 0x11d else y, ex[i := ucast x], lg[unat x := of_nat i]))"

definition gf_init :: "u8 list \<times> u8 list" where
  "gf_init = (case fold gf_step [0..<255] (1, replicate 512 0, replicate 256 0) of
     (_, ex, lg) \<Rightarrow> (fold (\<lambda>i e. e[i := e ! (i - 255)]) [255..<512] ex, lg))"

definition gf_exp :: "u8 list" where "gf_exp = fst gf_init"
definition gf_log :: "u8 list" where "gf_log = snd gf_init"

definition gf_mul :: "u8 \<Rightarrow> u8 \<Rightarrow> u8" where
  "gf_mul a b = (if a = 0 \<or> b = 0 then 0 else gf_exp ! (unat (gf_log ! unat a) + unat (gf_log ! unat b)))"

definition gf_inv :: "u8 \<Rightarrow> u8" where
  "gf_inv a = gf_exp ! (255 - unat (gf_log ! unat a))"

section \<open>The field\<close>

text \<open>The reference: multiplication by \<open>x\<close> modulo the polynomial \<open>0x11d\<close>, and by any polynomial bit by bit.\<close>

definition xtime :: "u8 \<Rightarrow> u8" where
  "xtime a = push_bit 1 a XOR (if bit a 7 then 0x1d else 0)"

primrec poly_mul :: "nat \<Rightarrow> u8 \<Rightarrow> u8 \<Rightarrow> u8" where
  "poly_mul 0 a b = 0"
| "poly_mul (Suc n) a b = poly_mul n a b XOR (if bit b n then (xtime ^^ n) a else 0)"

abbreviation power_of_x :: "nat \<Rightarrow> u8" where
  "power_of_x i \<equiv> (xtime ^^ i) 1"

lemma xtime_zero [simp]: "xtime 0 = 0" "(xtime ^^ n) 0 = 0"
  by (simp add: xtime_def) (induction n; simp add: xtime_def)

lemma xtime_xor: "xtime (a XOR b) = xtime a XOR xtime b"
  by (auto simp: xtime_def push_bit_xor bit_xor_iff xor.assoc xor.left_commute)

lemma xtime_pow_xor: "(xtime ^^ n) (a XOR b) = (xtime ^^ n) a XOR (xtime ^^ n) b"
  by (induction n) (simp_all add: xtime_xor)

lemma poly_mul_xtime: "poly_mul n ((xtime ^^ m) a) b = (xtime ^^ m) (poly_mul n a b)"
  by (induction n) (simp_all add: xtime_pow_xor funpow_add [symmetric, THEN fun_cong, unfolded comp_def] add.commute)

lemma poly_mul_xor: "poly_mul n (a XOR b) c = poly_mul n a c XOR poly_mul n b c"
  by (induction n) (simp_all add: xtime_pow_xor xor.assoc xor.left_commute)

lemma poly_mul_zero [simp]: "poly_mul n 0 b = 0" "poly_mul n a 0 = 0"
  by (induction n) simp_all

lemma small_powers: "n < 8 \<Longrightarrow> power_of_x n = 2 ^ n"
proof -
  have "list_all (\<lambda>n. power_of_x n = 2 ^ n) [0..<8]" by code_simp
  then show "n < 8 \<Longrightarrow> ?thesis" by (simp add: list_all_iff)
qed

lemma poly_mul_one: "poly_mul 8 1 b = b"
proof -
  have bits: "n \<le> 8 \<Longrightarrow> bit (poly_mul n 1 b) i \<longleftrightarrow> i < n \<and> bit b i" for n i
  proof (induction n)
    case (Suc n)
    then show ?case by (auto simp: bit_xor_iff small_powers bit_exp_iff less_Suc_eq)
  qed simp
  show ?thesis
    using bits [of 8] by (intro bit_eqI) (auto simp: bit_word.rep_eq dest: bit_imp_le_length)
qed

lemma power_mul: "poly_mul 8 (power_of_x i) b = (xtime ^^ i) b"
  by (simp add: poly_mul_xtime poly_mul_one)

lemma powers_add: "poly_mul 8 (power_of_x i) (power_of_x j) = power_of_x (i + j)"
  by (simp add: power_mul funpow_add)

primrec avoids_one :: "nat \<Rightarrow> u8 \<Rightarrow> bool" where
  "avoids_one 0 a \<longleftrightarrow> a = 1"
| "avoids_one (Suc n) a \<longleftrightarrow> a \<noteq> 1 \<and> avoids_one n (xtime a)"

lemma avoids_oneD:
  "avoids_one n a \<Longrightarrow> (xtime ^^ n) a = 1 \<and> (\<forall>i < n. (xtime ^^ i) a \<noteq> 1)"
proof (induction n arbitrary: a)
  case (Suc n)
  then show ?case by (auto simp: funpow_swap1 less_Suc_eq_0_disj)
qed simp

text \<open>The powers of \<open>x\<close> return to one after 255 steps and not before: they are all the bytes but zero.\<close>

lemma order_255: "power_of_x 255 = 1" and powers_below: "0 < i \<Longrightarrow> i < 255 \<Longrightarrow> power_of_x i \<noteq> 1"
proof -
  have "avoids_one 254 (xtime 1)" by code_simp
  note run = avoids_oneD [OF this]
  have step: "(xtime ^^ n) (xtime 1) = power_of_x (Suc n)" for n by (simp add: funpow_swap1)
  show "power_of_x 255 = 1" using run step [of 254] by simp
  show "power_of_x i \<noteq> 1" if "0 < i" "i < 255"
    using run step [of "i - 1"] that by (auto dest: spec [of _ "i - 1"])
qed

lemma power_period: "power_of_x (255 + i) = power_of_x i"
  using powers_add [of 255 i] poly_mul_one by (simp only: order_255)

lemma power_255_mult: "power_of_x (255 * n) = 1"
proof (induction n)
  case (Suc n)
  then show ?case using power_period [of "255 * n"] by simp
qed simp

lemma power_nonzero: "power_of_x i \<noteq> 0"
proof
  assume "power_of_x i = 0"
  then have "power_of_x (i + 254 * i) = 0" using powers_add [of i "254 * i"] by simp
  then show False using power_255_mult [of i] by simp
qed

lemma powers_inj: "inj_on power_of_x {..<255}"
proof (rule linorder_inj_onI)
  fix i j :: nat assume ij: "i < j" "i \<in> {..<255}" "j \<in> {..<255}"
  show "power_of_x i \<noteq> power_of_x j"
  proof
    assume "power_of_x i = power_of_x j"
    then have "power_of_x (i + (255 - i)) = power_of_x (j + (255 - i))" unfolding powers_add [symmetric] by simp
    moreover have "j + (255 - i) = 255 + (j - i)" using ij by simp
    ultimately show False using powers_below [of "j - i"] ij order_255 power_period [of "j - i"] by simp
  qed
qed auto

lemma powers_all: "a \<noteq> 0 \<Longrightarrow> \<exists>i < 255. a = power_of_x i"
proof -
  have "card (UNIV - {0} :: u8 set) = 255" by (simp add: card_word card_Diff_singleton_if)
  moreover have "card (power_of_x ` {..<255}) = 255" by (simp add: card_image [OF powers_inj])
  moreover have "power_of_x ` {..<255} \<subseteq> UNIV - {0}" using power_nonzero by auto
  ultimately have "power_of_x ` {..<255} = UNIV - {0}" by (intro card_subset_eq) simp_all
  then show "a \<noteq> 0 \<Longrightarrow> ?thesis" by (auto simp: image_iff set_eq_iff)
qed

section \<open>The tables\<close>

lemma unat_u8_less: "unat (a :: u8) < 256"
  using unsigned_less [of a, where 'a = nat] by simp

lemma unat_widened: "unat (ucast (a :: u8) :: u32) = unat a"
  using unat_u8_less [of a] by (simp add: unsigned_ucast_eq unsigned_take_bit_eq take_bit_nat_eq_self)

lemma widened_back: "ucast (ucast (a :: u8) :: u32) = a"
  by (intro bit_eqI) (simp add: bit_ucast_iff)

lemma next_power:
  "(let y = push_bit 1 (ucast a :: u32) in if y AND 0x100 \<noteq> 0 then y XOR 0x11d else y) = ucast (xtime a)"
proof -
  have "list_all (\<lambda>n. (let y = push_bit 1 (ucast (of_nat n :: u8) :: u32) in if y AND 0x100 \<noteq> 0 then y XOR 0x11d else y) =
      ucast (xtime (of_nat n))) [0..<256]" by code_simp
  then have "(let y = push_bit 1 (ucast (of_nat (unat a) :: u8) :: u32) in if y AND 0x100 \<noteq> 0 then y XOR 0x11d else y) =
      ucast (xtime (of_nat (unat a)))" unfolding list_all_iff using unat_u8_less [of a] by (elim bspec) simp
  then show ?thesis by simp
qed

lemma first_loop:
  assumes "n \<le> 255"
  shows "case fold gf_step [0..<n] (1, replicate 512 0, replicate 256 0) of (x, ex, lg) \<Rightarrow>
    x = ucast (power_of_x n) \<and> length ex = 512 \<and> length lg = 256 \<and>
    (\<forall>i < n. ex ! i = power_of_x i \<and> lg ! unat (power_of_x i) = of_nat i)"
  using assms
proof (induction n)
  case (Suc n)
  obtain x ex lg where f: "fold gf_step [0..<n] (1, replicate 512 0, replicate 256 0) = (x, ex, lg)" using prod_cases3 by blast
  from Suc have ih: "x = ucast (power_of_x n)" "length ex = 512" "length lg = 256"
      "\<And>i. i < n \<Longrightarrow> ex ! i = power_of_x i \<and> lg ! unat (power_of_x i) = of_nat i" by (simp_all add: f)
  have x: "ucast x = power_of_x n" "unat x = unat (power_of_x n)" by (simp_all add: ih(1) unat_widened widened_back)
  have new: "unat (power_of_x n) \<noteq> unat (power_of_x i)" if "i < n" for i
    using inj_onD [OF powers_inj, of i n] that Suc.prems by (auto simp: word_unat_eq_iff)
  have "fold gf_step [0..<Suc n] (1, replicate 512 0, replicate 256 0) =
      (ucast (power_of_x (Suc n)), ex[n := power_of_x n], lg[unat (power_of_x n) := of_nat n])"
    using next_power [of "power_of_x n"] by (simp add: f gf_step_def x ih(1) [symmetric] Let_def)
  then show ?case
    using ih new Suc.prems unat_u8_less by (auto simp: less_Suc_eq nth_list_update)
qed simp

lemma second_loop:
  assumes "length ex = 512" and "\<forall>i < 255. ex ! i = power_of_x i" and "n \<le> 257"
  shows "length (fold (\<lambda>i e. e[i := e ! (i - 255)]) [255..<255 + n] ex) = 512 \<and>
    (\<forall>i < 255 + n. fold (\<lambda>i e. e[i := e ! (i - 255)]) [255..<255 + n] ex ! i = power_of_x i)"
  using assms(3)
proof (induction n)
  case 0
  then show ?case using assms(1,2) by simp
next
  case (Suc n)
  have app: "[255..<255 + Suc n] = [255..<255 + n] @ [255 + n]" by (simp only: add_Suc_right) (simp only: upt_Suc, simp)
  let ?e = "fold (\<lambda>i e. e[i := e ! (i - 255)]) [255..<255 + n] ex"
  have e: "length ?e = 512" "\<forall>i < 255 + n. ?e ! i = power_of_x i" using Suc by simp_all
  show ?case
    unfolding app fold_append comp_def using e Suc.prems power_period [of n] by (auto simp: nth_list_update)
qed

lemma table_exp: "i < 512 \<Longrightarrow> gf_exp ! i = power_of_x i"
  and table_log: "i < 255 \<Longrightarrow> unat (gf_log ! unat (power_of_x i)) = i"
proof -
  obtain x ex lg where f: "fold gf_step [0..<255] (1, replicate 512 0, replicate 256 0) = (x, ex, lg)" using prod_cases3 by blast
  have t: "length ex = 512" "\<forall>i < 255. ex ! i = power_of_x i" "\<forall>i < 255. lg ! unat (power_of_x i) = of_nat i"
    using first_loop [OF order_refl, unfolded f prod.case] by blast+
  have total: "255 + 257 = (512 :: nat)" by simp
  show "i < 512 \<Longrightarrow> gf_exp ! i = power_of_x i"
    unfolding gf_exp_def gf_init_def f prod.case fst_conv using second_loop [OF t(1,2) order_refl, unfolded total] by blast
  show "i < 255 \<Longrightarrow> unat (gf_log ! unat (power_of_x i)) = i"
    unfolding gf_log_def gf_init_def f prod.case snd_conv using t(3) by (simp add: unat_of_nat)
qed

lemma gf_mul_powers: "i < 255 \<Longrightarrow> j < 255 \<Longrightarrow> gf_mul (power_of_x i) (power_of_x j) = power_of_x (i + j)"
  by (simp add: gf_mul_def power_nonzero table_log table_exp)

lemma gf_mul_poly: "gf_mul a b = poly_mul 8 a b"
proof (cases "a = 0 \<or> b = 0")
  case False
  then obtain i j where "i < 255" "a = power_of_x i" "j < 255" "b = power_of_x j" using powers_all by metis
  then show ?thesis by (simp only: gf_mul_powers powers_add)
qed (auto simp: gf_mul_def)

lemma gf_mul_inv: "a \<noteq> 0 \<Longrightarrow> gf_mul a (gf_inv a) = 1"
proof -
  assume "a \<noteq> 0"
  then obtain i where i: "i < 255" "a = power_of_x i" using powers_all by blast
  have "gf_inv (power_of_x i) = power_of_x (255 - i)" using i(1) by (simp add: gf_inv_def table_log table_exp)
  then show ?thesis unfolding gf_mul_poly i(2) using i(1) by (simp only: powers_add) (simp add: order_255)
qed

text \<open>
  C19. The tables multiply. For all pairs of bytes the product that \<open>gf_mul\<close> looks up through the
  logarithm and the exponential table is the product of the polynomials the bytes stand for, reduced
  modulo \<open>0x11d\<close>; multiplication by \<open>x\<close> is a shift with that reduction, and \<open>gf_inv\<close> gives every byte
  but zero the factor that takes it to one.
\<close>

theorem gf_mul_is_polynomial_product:
  "gf_mul a b = poly_mul 8 a b \<and> gf_mul 2 a = xtime a \<and> (a = 0 \<or> gf_mul a (gf_inv a) = 1)"
proof -
  have "power_of_x 1 = 2" by code_simp
  then have "gf_mul 2 a = xtime a" using power_mul [of 1 a] by (simp add: gf_mul_poly)
  then show ?thesis using gf_mul_poly gf_mul_inv by blast
qed

section \<open>Bytes as a field\<close>

typedef gf = "UNIV :: u8 set"
  morphisms byte_of Gf by simp

setup_lifting type_definition_gf

instantiation gf :: field
begin

lift_definition zero_gf :: gf is "0" .
lift_definition one_gf :: gf is "1" .
lift_definition plus_gf :: "gf \<Rightarrow> gf \<Rightarrow> gf" is "(XOR)" .
lift_definition minus_gf :: "gf \<Rightarrow> gf \<Rightarrow> gf" is "(XOR)" .
lift_definition uminus_gf :: "gf \<Rightarrow> gf" is "\<lambda>a. a" .
lift_definition times_gf :: "gf \<Rightarrow> gf \<Rightarrow> gf" is gf_mul .
lift_definition inverse_gf :: "gf \<Rightarrow> gf" is "\<lambda>a. if a = 0 then 0 else gf_inv a" .
lift_definition divide_gf :: "gf \<Rightarrow> gf \<Rightarrow> gf" is "\<lambda>a b. gf_mul a (if b = 0 then 0 else gf_inv b)" .

instance
proof
  have zero: "gf_mul 0 a = 0" "gf_mul a 0 = 0" for a by (simp_all add: gf_mul_def)
  have com: "gf_mul a b = gf_mul b a" for a b by (simp add: gf_mul_def add.commute)
  have one: "gf_mul 1 a = a" for a by (simp add: gf_mul_poly poly_mul_one)
  have assoc: "gf_mul (gf_mul a b) c = gf_mul a (gf_mul b c)" for a b c
  proof (cases "a = 0 \<or> b = 0 \<or> c = 0")
    case False
    then obtain i j l where "a = power_of_x i" "b = power_of_x j" "c = power_of_x l" using powers_all by metis
    then show ?thesis by (simp only: gf_mul_poly powers_add add.assoc)
  qed (auto simp: zero)
  have dist: "gf_mul (a XOR b) c = gf_mul a c XOR gf_mul b c" for a b c by (simp add: gf_mul_poly poly_mul_xor)
  have iv: "a \<noteq> 0 \<Longrightarrow> gf_mul (gf_inv a) a = 1" for a using gf_mul_inv com by simp
  fix a b c :: gf
  show "a * b * c = a * (b * c)" by transfer (rule assoc)
  show "a * b = b * a" by transfer (rule com)
  show "1 * a = a" by transfer (rule one)
  show "(a + b) * c = a * c + b * c" by transfer (rule dist)
  show "a \<noteq> 0 \<Longrightarrow> inverse a * a = 1" by transfer (simp add: iv)
  show "a div b = a * inverse b" by transfer simp
  show "inverse (0 :: gf) = 0" by transfer simp
  show "a + b + c = a + (b + c)" by transfer (rule xor.assoc)
  show "a + b = b + a" by transfer (rule xor.commute)
  show "0 + a = a" by transfer simp
  show "- a + a = 0" by transfer simp
  show "a - b = a + - b" by transfer simp
  show "(0 :: gf) \<noteq> 1" by transfer simp
qed

end

text \<open>
  A square system whose coefficients are the inverses of differences has no solution but zero: the
  step from \<open>n + 1\<close> points to \<open>n\<close> divides one point out and one pole away.
\<close>

lemma partial_fraction:
  fixes p q e u :: "'a :: field"
  assumes "p \<noteq> 0" and "q \<noteq> 0" and "q - p \<noteq> 0"
  shows "u * (e - p) / q / p = (u / p - u / q) * (e / (q - p)) - u / q"
proof -
  have "u / p - u / q = u / (p * q) * (q - p)" using assms by (simp add: field_simps)
  then have "(u / p - u / q) * (e / (q - p)) = u * e / (p * q)" using assms(3) by simp
  then show ?thesis using assms by (simp add: field_simps)
qed

lemma cauchy_kernel:
  fixes v :: "'a :: field \<Rightarrow> 'a"
  assumes "finite T" and "finite X" and "card X = card T" and "X \<inter> T = {}"
    and "\<forall>x \<in> X. (\<Sum>c \<in> T. v c / (x - c)) = 0"
  shows "\<forall>c \<in> T. v c = 0"
  using assms
proof (induction T arbitrary: X v rule: finite_induct)
  case (insert c0 T)
  then obtain x0 where x0: "x0 \<in> X" by fastforce
  let ?X = "X - {x0}" and ?w = "\<lambda>c. v c * (c - c0) / (x0 - c)"
  have apart: "x \<noteq> c" if "x \<in> X" "c \<in> insert c0 T" for x c using insert.prems(3) that by auto
  have zero0: "(\<Sum>c \<in> insert c0 T. v c / (x0 - c)) = 0" using insert.prems(4) x0 by blast
  have "\<forall>x \<in> ?X. (\<Sum>c \<in> T. ?w c / (x - c)) = 0"
  proof
    fix x assume x: "x \<in> ?X"
    have each: "?w c / (x - c) = (v c / (x - c) - v c / (x0 - c)) * ((x - c0) / (x0 - x)) - v c / (x0 - c)" if "c \<in> insert c0 T" for c
    proof -
      have "x - c \<noteq> 0" "x0 - c \<noteq> 0" "x0 - x \<noteq> 0" using apart [of x c] apart [of x0 c] x x0 that by auto
      then show ?thesis using partial_fraction [of "x - c" "x0 - c" "v c" "x - c0"] by simp
    qed
    have "(\<Sum>c \<in> insert c0 T. ?w c / (x - c)) =
        ((\<Sum>c \<in> insert c0 T. v c / (x - c)) - (\<Sum>c \<in> insert c0 T. v c / (x0 - c))) * ((x - c0) / (x0 - x)) - (\<Sum>c \<in> insert c0 T. v c / (x0 - c))"
      by (simp only: sum.cong [OF refl each] sum_subtractf sum_distrib_right [symmetric])
    also have "\<dots> = 0" using zero0 insert.prems(4) x by simp
    finally show "(\<Sum>c \<in> T. ?w c / (x - c)) = 0" using insert.hyps by simp
  qed
  moreover have "card ?X = card T" using insert.prems(1,2) insert.hyps x0 by simp
  ultimately have w: "\<forall>c \<in> T. ?w c = 0" using insert.IH [of ?X ?w] insert.prems(1,3) by blast
  have rest: "v c = 0" if "c \<in> T" for c
    using w that apart [OF x0, of c] insert.hyps by auto
  then have "v c0 / (x0 - c0) = 0" using zero0 insert.hyps by simp
  then have "v c0 = 0" using apart [OF x0, of c0] by simp
  then show ?case using rest by simp
qed simp

end
