(* ===== verification/Erasure.thy ===== *)
theory Erasure
  imports Byte_Field
begin

text \<open>
  Erasure coding (\<open>chunk/erasure.c\<close>): a buffer is cut into \<open>k\<close> pieces, \<open>m\<close> parity pieces are added,
  and any \<open>k\<close> of them give the buffer back. The inversion of the generator is shown to succeed for
  every choice of pieces, and to give the buffer back.

  A buffer too short for what is read or written is the outcome \<open>None\<close>.
\<close>

section \<open>The model\<close>

datatype fzn_erasure_err = FZN_ERASURE_OK | FZN_ERASURE_ERR_MALFORMED | FZN_ERASURE_ERR_TOO_FEW

definition fzn_erasure_err_str :: "fzn_erasure_err \<Rightarrow> string" where
  "fzn_erasure_err_str err =
     (case err of FZN_ERASURE_OK \<Rightarrow> ''ok'' | FZN_ERASURE_ERR_MALFORMED \<Rightarrow> ''malformed''
      | FZN_ERASURE_ERR_TOO_FEW \<Rightarrow> ''fewer pieces than it takes to rebuild'')"

abbreviation FZN_ERASURE_PIECES_MAX :: nat where "FZN_ERASURE_PIECES_MAX \<equiv> 32"

definition generator :: "nat \<Rightarrow> nat \<Rightarrow> nat \<Rightarrow> u8" where
  "generator k r c = (if r < k then (if r = c then 1 else 0) else gf_inv (of_nat r XOR of_nat c))"

definition fzn_erasure_piece_len :: "nat \<Rightarrow> u32 \<Rightarrow> nat" where
  "fzn_erasure_piece_len len k =
     (if k = 0 \<or> len = 0 then 0 else len div unat k + (if len mod unat k \<noteq> 0 then 1 else 0))"

definition shape_ok :: "u32 \<Rightarrow> u32 \<Rightarrow> nat \<Rightarrow> bool" where
  "shape_ok k m len \<longleftrightarrow> k \<noteq> 0 \<and> m \<noteq> 0 \<and> unat (k + m) \<le> FZN_ERASURE_PIECES_MAX \<and> len \<noteq> 0"

definition add_row :: "u8 \<Rightarrow> bytes \<Rightarrow> bytes \<Rightarrow> bytes" where
  "add_row f src dst = map2 (\<lambda>d s. d XOR gf_mul f s) dst src"

definition write_parity :: "nat \<Rightarrow> nat \<Rightarrow> nat \<Rightarrow> bytes \<Rightarrow> bytes" where
  "write_parity k plen j pieces =
     (let row = (k + j) mod 2 ^ 32 in
      put_at (row * plen)
        (fold (\<lambda>c parity. add_row (generator k row c) (bytes_at (c * plen) plen pieces) parity) [0..<k] (replicate plen 0)) pieces)"

definition fzn_erasure_encode :: "u32 \<Rightarrow> u32 \<Rightarrow> bytes option \<Rightarrow> nat \<Rightarrow> bytes option \<Rightarrow> (fzn_erasure_err \<times> bytes option) option" where
  "fzn_erasure_encode k m data len pieces =
     (let plen = fzn_erasure_piece_len len k in
      case (data, pieces) of
        (Some d, Some p) \<Rightarrow>
          if \<not> shape_ok k m len then Some (FZN_ERASURE_ERR_MALFORMED, pieces)
          else if length d < len \<or> length p < (unat k + unat m) * plen then None
          else Some (FZN_ERASURE_OK,
            Some (fold (write_parity (unat k) plen) [0..<unat m]
              (put_at 0 (take len d) (put_at 0 (replicate (unat k * plen) 0) p))))
      | _ \<Rightarrow> Some (FZN_ERASURE_ERR_MALFORMED, pieces))"

text \<open>One column of the inversion: find a pivot, swap it up, scale its row, clear the column elsewhere.\<close>

definition swap_rows :: "nat \<Rightarrow> nat \<Rightarrow> bytes list \<Rightarrow> bytes list" where
  "swap_rows p c a = a[p := a ! c, c := a ! p]"

definition scale_row :: "nat \<Rightarrow> u8 \<Rightarrow> bytes list \<Rightarrow> bytes list" where
  "scale_row c scale a = a[c := map (\<lambda>v. gf_mul v scale) (a ! c)]"

definition clear_rows :: "nat \<Rightarrow> nat \<Rightarrow> (nat \<Rightarrow> u8) \<Rightarrow> bytes list \<Rightarrow> bytes list" where
  "clear_rows k c f a = map (\<lambda>r. if r = c \<or> f r = 0 then a ! r else add_row (f r) (a ! c) (a ! r)) [0..<k]"

definition reduce_column :: "nat \<Rightarrow> nat \<Rightarrow> bytes list \<times> bytes list \<Rightarrow> (bytes list \<times> bytes list) option" where
  "reduce_column k c = (\<lambda>(a, iv).
     let p = c + first_at (\<lambda>row. row ! c \<noteq> 0) (drop c a) in
     if p = k then None
     else let (a, iv) = (if p \<noteq> c then (swap_rows p c a, swap_rows p c iv) else (a, iv));
              scale = gf_inv (a ! c ! c);
              (a, iv) = (scale_row c scale a, scale_row c scale iv);
              f = (\<lambda>r. a ! r ! c)
          in Some (clear_rows k c f a, clear_rows k c f iv))"

fun reduce_columns :: "nat \<Rightarrow> nat list \<Rightarrow> bytes list \<times> bytes list \<Rightarrow> (bytes list \<times> bytes list) option" where
  "reduce_columns k [] ai = Some ai"
| "reduce_columns k (c # cs) ai = (case reduce_column k c ai of None \<Rightarrow> None | Some ai \<Rightarrow> reduce_columns k cs ai)"

fun rebuild :: "nat \<Rightarrow> nat \<Rightarrow> nat \<Rightarrow> bytes list \<Rightarrow> bytes list \<Rightarrow> nat list \<Rightarrow> nat \<Rightarrow> bytes \<Rightarrow> bytes" where
  "rebuild k plen len iv given [] done out = out"
| "rebuild k plen len iv given (r # rs) done out =
     (if done < len then
        let want = (if len - done < plen then len - done else plen) in
        rebuild k plen len iv given rs (done + want)
          (put_at done (map (\<lambda>b. fold (\<lambda>i v. v XOR gf_mul (iv ! r ! i) (given ! i ! b)) [0..<k] 0) [0..<want]) out)
      else out)"

definition fzn_erasure_decode :: "u32 \<Rightarrow> u32 \<Rightarrow> bytes option list option \<Rightarrow> nat \<Rightarrow> bytes option \<Rightarrow> (fzn_erasure_err \<times> bytes option) option" where
  "fzn_erasure_decode k m pieces len out =
     (let plen = fzn_erasure_piece_len len k; n = unat k in
      case (pieces, out) of
        (Some ps, Some buf) \<Rightarrow>
          if \<not> shape_ok k m len then Some (FZN_ERASURE_ERR_MALFORMED, out)
          else if length ps < unat (k + m) then None
          else let rows = take n (filter (\<lambda>i. ps ! i \<noteq> None) [0..<unat (k + m)]) in
            if length rows < n then Some (FZN_ERASURE_ERR_TOO_FEW, out)
            else if n > FZN_ERASURE_PIECES_MAX \<or> length buf < len \<or> (list_ex (\<lambda>i. length (the (ps ! i)) < plen) rows) then None
            else let a = map (\<lambda>r. map (generator n r) [0..<n]) rows;
                     iv = map (\<lambda>r. map (\<lambda>c. if r = c then 1 else 0) [0..<n]) [0..<n]
                 in (case reduce_columns n [0..<n] (a, iv) of None \<Rightarrow> Some (FZN_ERASURE_ERR_MALFORMED, out)
                     | Some (_, iv) \<Rightarrow>
                       Some (FZN_ERASURE_OK, Some (rebuild n plen len iv (map (\<lambda>i. the (ps ! i)) rows) [0..<n] 0 buf)))
      | _ \<Rightarrow> Some (FZN_ERASURE_ERR_MALFORMED, out))"

section \<open>Inverting the generator\<close>

definition square :: "nat \<Rightarrow> bytes list \<Rightarrow> bool" where
  "square k a \<longleftrightarrow> length a = k \<and> (\<forall>row \<in> set a. length row = k)"

text \<open>What a row makes of a vector.\<close>

definition row_val :: "nat \<Rightarrow> bytes \<Rightarrow> (nat \<Rightarrow> gf) \<Rightarrow> gf" where
  "row_val k row x = (\<Sum>i < k. Gf (row ! i) * x i)"

definition solves :: "nat \<Rightarrow> bytes list \<Rightarrow> bytes list \<Rightarrow> (nat \<Rightarrow> gf) \<Rightarrow> (nat \<Rightarrow> gf) \<Rightarrow> bool" where
  "solves k a iv x y \<longleftrightarrow> (\<forall>r < k. row_val k (a ! r) x = row_val k (iv ! r) y)"

definition in_kernel :: "nat \<Rightarrow> bytes list \<Rightarrow> (nat \<Rightarrow> gf) \<Rightarrow> bool" where
  "in_kernel k a x \<longleftrightarrow> (\<forall>r < k. row_val k (a ! r) x = 0)"

definition unit_columns :: "nat \<Rightarrow> nat \<Rightarrow> bytes list \<Rightarrow> bool" where
  "unit_columns k c a \<longleftrightarrow> (\<forall>r < k. \<forall>j < c. a ! r ! j = (if r = j then 1 else 0))"

lemma Gf_simps: "Gf (a XOR b) = Gf a + Gf b" "Gf (gf_mul a b) = Gf a * Gf b" "Gf 0 = 0" "Gf 1 = 1" "Gf a = Gf b \<longleftrightarrow> a = b"
    "a \<noteq> 0 \<Longrightarrow> Gf (gf_inv a) = inverse (Gf a)"
  by (simp_all add: plus_gf.abs_eq times_gf.abs_eq zero_gf.abs_eq one_gf.abs_eq inverse_gf.abs_eq Gf_inject)

lemma row_val_add:
  assumes "length dst = k" and "length src = k"
  shows "row_val k (add_row f src dst) x = row_val k dst x + Gf f * row_val k src x"
  using assms by (simp add: row_val_def add_row_def Gf_simps sum.distrib sum_distrib_left distrib_right mult.assoc)

lemma row_val_scale: "length row = k \<Longrightarrow> row_val k (map (\<lambda>v. gf_mul v s) row) x = Gf s * row_val k row x"
  by (simp add: row_val_def Gf_simps sum_distrib_left mult.assoc mult.left_commute)

lemma row_val_unit: "r < k \<Longrightarrow> (\<forall>j < k. row ! j = (if r = j then 1 else 0)) \<Longrightarrow> row_val k row x = x r"
proof -
  assume r: "r < k" and unit: "\<forall>j < k. row ! j = (if r = j then 1 else 0)"
  have "row_val k row x = (\<Sum>i < k. if i = r then x i else 0)"
    unfolding row_val_def by (intro sum.cong) (use unit in \<open>auto simp: Gf_simps\<close>)
  then show ?thesis using r by simp
qed

text \<open>A step keeps every solution and adds nothing to the kernel.\<close>

definition row_step :: "nat \<Rightarrow> bytes list \<Rightarrow> bytes list \<Rightarrow> bytes list \<Rightarrow> bytes list \<Rightarrow> bool" where
  "row_step k a iv a' iv' \<longleftrightarrow> square k a' \<and> square k iv' \<and> (\<forall>x y. solves k a iv x y \<longrightarrow> solves k a' iv' x y) \<and>
     (\<forall>x. in_kernel k a' x \<longrightarrow> in_kernel k a x)"

lemma row_step_trans:
  assumes one: "row_step k a iv b jv" and two: "row_step k b jv c lv"
  shows "row_step k a iv c lv"
proof -
  have "solves k c lv x y" if "solves k a iv x y" for x y using one two that by (simp add: row_step_def)
  moreover have "in_kernel k a x" if "in_kernel k c x" for x using one two that by (simp add: row_step_def)
  ultimately show ?thesis using two by (simp add: row_step_def)
qed

lemma gf_mul_zero_one [simp]: "gf_mul a 0 = 0" "gf_mul 0 a = 0" "gf_mul a 1 = a" "gf_mul 1 a = a"
proof -
  have "Gf (gf_mul a 1) = Gf a" "Gf (gf_mul 1 a) = Gf a" by (simp_all add: Gf_simps)
  then show "gf_mul a 1 = a" "gf_mul 1 a = a" by (simp_all add: Gf_simps(5))
qed (simp_all add: gf_mul_def)

lemma square_row [simp]: "square k a \<Longrightarrow> r < k \<Longrightarrow> length (a ! r) = k" "square k a \<Longrightarrow> length a = k"
  by (simp_all add: square_def)

lemma square_update: "square k a \<Longrightarrow> length row = k \<Longrightarrow> square k (a[r := row])"
  unfolding square_def using set_update_subset_insert [of a r row] by (metis insertE length_list_update subsetD)

lemma square_map: "(\<And>r. r < k \<Longrightarrow> length (f r) = k) \<Longrightarrow> square k (map f [0..<k])"
  by (auto simp: square_def)

lemma nth_swap: "p < length a \<Longrightarrow> c < length a \<Longrightarrow> r < length a \<Longrightarrow> swap_rows p c a ! r = (if r = c then a ! p else if r = p then a ! c else a ! r)"
  by (simp add: swap_rows_def nth_list_update)

lemma step_swap:
  assumes "square k a" and "square k iv" and "p < k" and "c < k"
  shows "row_step k a iv (swap_rows p c a) (swap_rows p c iv)"
proof -
  have rows: "swap_rows p c b ! r = b ! (if r = c then p else if r = p then c else r)" if "square k b" "r < k" for b r
    using that assms(3,4) by (simp add: nth_swap)
  have kernel: "in_kernel k a x" if ker: "in_kernel k (swap_rows p c a) x" for x
    unfolding in_kernel_def
  proof (intro allI impI)
    fix r assume r: "r < k"
    let ?s = "if r = c then p else if r = p then c else r"
    have "row_val k (swap_rows p c a ! ?s) x = 0" using ker r assms(3,4) unfolding in_kernel_def by auto
    then show "row_val k (a ! r) x = 0" using rows [OF assms(1), of ?s] r assms(3,4) by (auto split: if_splits)
  qed
  have "square k (swap_rows p c b)" if "square k b" for b using that assms(3,4) by (simp add: swap_rows_def square_update)
  then show ?thesis using assms kernel by (auto simp: row_step_def solves_def rows)
qed

lemma step_scale:
  assumes "square k a" and "square k iv" and "c < k" and "s \<noteq> 0"
  shows "row_step k a iv (scale_row c s a) (scale_row c s iv)"
proof -
  have sq: "square k (scale_row c s b)" if "square k b" for b using that assms(3) by (simp add: scale_row_def square_update)
  have val: "row_val k (scale_row c s b ! r) x = (if r = c then Gf s else 1) * row_val k (b ! r) x" if "square k b" "r < k" for b r x
    using that assms(3) by (simp add: scale_row_def nth_list_update row_val_scale)
  have "Gf s \<noteq> 0" using assms(4) Gf_simps(5) [of s 0] by (simp add: Gf_simps(3))
  then show ?thesis using sq assms by (auto simp: row_step_def solves_def in_kernel_def val split: if_splits)
qed

lemma step_clear:
  assumes "square k a" and "square k iv" and "c < k"
  shows "row_step k a iv (clear_rows k c f a) (clear_rows k c f iv)"
proof -
  have sq: "square k (clear_rows k c f b)" if "square k b" for b
    using that assms(3) unfolding clear_rows_def by (intro square_map) (simp add: add_row_def)
  have val: "row_val k (clear_rows k c f b ! r) x = row_val k (b ! r) x + (if r = c then 0 else Gf (f r)) * row_val k (b ! c) x"
    if "square k b" "r < k" for b r x
    using that assms(3) by (auto simp: clear_rows_def row_val_add Gf_simps)
  have kernel: "in_kernel k a x" if ker: "in_kernel k (clear_rows k c f a) x" for x
  proof -
    have "row_val k (a ! c) x = 0" using ker val [OF assms(1,3), of x] assms(3) by (simp add: in_kernel_def)
    then show ?thesis using ker val [OF assms(1), of _ x] by (simp add: in_kernel_def)
  qed
  show ?thesis using sq assms kernel by (auto simp: row_step_def solves_def val)
qed

lemma reduce_column_some:
  assumes "square k a" and "square k iv" and "c < k" and "unit_columns k c a" and "reduce_column k c (a, iv) = Some (a', iv')"
  shows "row_step k a iv a' iv' \<and> unit_columns k (Suc c) a'"
proof -
  let ?p = "c + first_at (\<lambda>row. row ! c \<noteq> 0) (drop c a)"
  have le: "?p \<le> k" using first_at_le [of "\<lambda>row. row ! c \<noteq> 0" "drop c a"] assms(1,3) by simp
  with assms(5) have p: "c \<le> ?p" "?p < k" by (auto simp: reduce_column_def Let_def split: if_splits)
  have piv: "a ! ?p ! c \<noteq> 0" using first_at_hit [of "\<lambda>row. row ! c \<noteq> 0" "drop c a"] p assms(1,3) by simp
  define b jv where "b = (if ?p \<noteq> c then swap_rows ?p c a else a)" and "jv = (if ?p \<noteq> c then swap_rows ?p c iv else iv)"
  define s where "s = gf_inv (b ! c ! c)"
  have one: "row_step k a iv b jv" using step_swap [OF assms(1,2) p(2) assms(3)] assms(1,2) by (auto simp: b_def jv_def row_step_def)
  have bc: "b ! c ! c \<noteq> 0" using piv p assms(1,3) by (auto simp: b_def nth_swap)
  have ub: "unit_columns k c b" using assms(4) p assms(1,3) by (auto simp: unit_columns_def b_def nth_swap)
  have sq: "square k b" "square k jv" using one by (simp_all add: row_step_def)
  have s1: "gf_mul (b ! c ! c) s = 1" using gf_mul_inv [OF bc] by (simp add: s_def)
  then have s0: "s \<noteq> 0" by (auto simp: gf_mul_def)
  have two: "row_step k b jv (scale_row c s b) (scale_row c s jv)" by (rule step_scale [OF sq assms(3) s0])
  let ?f = "\<lambda>r. scale_row c s b ! r ! c"
  have out: "a' = clear_rows k c ?f (scale_row c s b)" "iv' = clear_rows k c ?f (scale_row c s jv)"
    using assms(5) p by (auto simp: reduce_column_def Let_def b_def jv_def s_def split: if_splits)
  have sq2: "square k (scale_row c s b)" "square k (scale_row c s jv)" using two by (simp_all add: row_step_def)
  have three: "row_step k (scale_row c s b) (scale_row c s jv) a' iv'" unfolding out by (rule step_clear [OF sq2 assms(3)])
  have "a' ! r ! j = (if r = j then 1 else 0)" if rj: "r < k" "j < Suc c" for r j
  proof -
    have pivot_row: "scale_row c s b ! c ! j = (if j = c then 1 else 0)"
      using ub rj assms(3) sq s1 by (auto simp: scale_row_def unit_columns_def less_Suc_eq gf_mul_def)
    have other: "scale_row c s b ! r ! j = b ! r ! j" if "r \<noteq> c" using that by (simp add: scale_row_def)
    have jk: "j < k" using rj assms(3) by simp
    show ?thesis
    proof (cases "r = c")
      case True
      then show ?thesis using rj pivot_row by (simp add: out(1) clear_rows_def)
    next
      case False
      then have "a' ! r ! j = scale_row c s b ! r ! j XOR gf_mul (?f r) (scale_row c s b ! c ! j)"
        using rj(1) jk sq2(1) assms(3) by (simp add: out(1) clear_rows_def add_row_def)
      moreover have "j < c \<Longrightarrow> b ! r ! j = (if r = j then 1 else 0)" using ub rj(1) by (simp add: unit_columns_def)
      ultimately show ?thesis using False rj(2) other pivot_row by (cases "j = c") simp_all
    qed
  qed
  then show ?thesis using row_step_trans [OF row_step_trans [OF one two] three] by (simp add: unit_columns_def)
qed

text \<open>A column without a pivot is a solution of the homogeneous system that is not zero.\<close>

lemma reduce_column_none:
  assumes "square k a" and "c < k" and "unit_columns k c a" and "reduce_column k c (a, iv) = None"
  shows "\<exists>x. in_kernel k a x \<and> x c \<noteq> 0"
proof -
  have "first_at (\<lambda>row. row ! c \<noteq> 0) (drop c a) = length (drop c a)"
    using assms(1,2,4) by (auto simp: reduce_column_def Let_def split: if_splits)
  then have "\<not> (\<exists>row \<in> set (drop c a). row ! c \<noteq> 0)" using first_at_found [of "\<lambda>row. row ! c \<noteq> 0" "drop c a"] by simp
  then have low: "a ! r ! c = 0" if "c \<le> r" "r < k" for r
    using nth_mem [of "r - c" "drop c a"] that assms(1) by auto
  let ?x = "\<lambda>i. if i = c then 1 else if i < c then Gf (a ! i ! c) else 0"
  have "row_val k (a ! r) ?x = 0" if r: "r < k" for r
  proof -
    have "row_val k (a ! r) ?x = (\<Sum>i < k. (if i = c then Gf (a ! r ! c) else 0) + (if i = r then (if r < c then Gf (a ! r ! c) else 0) else 0))"
      unfolding row_val_def by (intro sum.cong) (use assms(3) r in \<open>auto simp: unit_columns_def Gf_simps\<close>)
    also have "\<dots> = Gf (a ! r ! c) + (if r < c then Gf (a ! r ! c) else 0)" using r assms(2) by (simp add: sum.distrib)
    also have "\<dots> = 0" using low [of r] r Gf_simps(1) [of "a ! r ! c" "a ! r ! c"] by (auto simp: Gf_simps(3) not_less)
    finally show ?thesis .
  qed
  then show ?thesis by (intro exI [of _ ?x]) (simp add: in_kernel_def)
qed

lemma reduce_columns_some:
  assumes "square k a" and "square k iv" and "c \<le> k" and "unit_columns k c a" and "\<And>x. in_kernel k a x \<Longrightarrow> \<forall>i < k. x i = 0"
  shows "\<exists>a' iv'. reduce_columns k [c..<k] (a, iv) = Some (a', iv') \<and> row_step k a iv a' iv' \<and> unit_columns k k a'"
  using assms
proof (induction "k - c" arbitrary: c a iv)
  case 0
  then show ?case by (simp add: row_step_def)
next
  case (Suc n)
  then have c: "c < k" by simp
  obtain a1 iv1 where r: "reduce_column k c (a, iv) = Some (a1, iv1)"
    using reduce_column_none [OF Suc.prems(1) c Suc.prems(4), of iv] Suc.prems(5) c by (cases "reduce_column k c (a, iv)") auto
  note step = reduce_column_some [OF Suc.prems(1,2) c Suc.prems(4) r]
  have "\<exists>a' iv'. reduce_columns k [Suc c..<k] (a1, iv1) = Some (a', iv') \<and> row_step k a1 iv1 a' iv' \<and> unit_columns k k a'"
    using Suc.hyps(1) [of "Suc c" a1 iv1] Suc.hyps(2) step c Suc.prems(5) by (simp add: row_step_def)
  then show ?case using r step row_step_trans upt_conv_Cons [OF c] by fastforce
qed

text \<open>The parts of the generator that a choice of pieces selects are regular.\<close>

lemma position_inj: "a < 256 \<Longrightarrow> b < 256 \<Longrightarrow> Gf (of_nat a) = Gf (of_nat b) \<longleftrightarrow> a = b"
  unfolding Gf_simps(5) word_unat_eq_iff by (simp add: unat_of_nat)

lemma generator_parity: "k \<le> r \<Longrightarrow> c < k \<Longrightarrow> r < 256 \<Longrightarrow> Gf (generator k r c) = 1 / (Gf (of_nat r) - Gf (of_nat c))"
proof -
  assume a: "k \<le> r" "c < k" "r < 256"
  have minus: "Gf x - Gf y = Gf (x XOR y)" for x y by (simp add: minus_gf.abs_eq)
  have "of_nat r XOR of_nat c \<noteq> (0 :: u8)"
    using position_inj [of r c] a minus [of "of_nat r" "of_nat c"] by (auto simp: Gf_simps(3))
  then show ?thesis using a by (simp add: generator_def Gf_simps(6) minus divide_inverse)
qed

lemma generator_regular:
  assumes "distinct rows" and "length rows = k" and "\<forall>r \<in> set rows. r < 256"
    and ker: "in_kernel k (map (\<lambda>r. map (generator k r) [0..<k]) rows) x"
  shows "\<forall>i < k. x i = 0"
proof -
  let ?pos = "\<lambda>i. Gf (of_nat i)" and ?T = "{..<k} - set rows" and ?X = "set rows - {..<k}"
  have val: "(\<Sum>c < k. Gf (generator k r c) * x c) = 0" if "r \<in> set rows" for r
  proof -
    obtain i where "i < k" "rows ! i = r" using \<open>r \<in> set rows\<close> assms(2) by (metis in_set_conv_nth)
    then have "row_val k (map (generator k r) [0..<k]) x = 0" using ker assms(2) unfolding in_kernel_def by fastforce
    then show ?thesis by (simp add: row_val_def)
  qed
  have given: "x r = 0" if "r \<in> set rows" "r < k" for r
  proof -
    have "(\<Sum>c < k. Gf (generator k r c) * x c) = (\<Sum>c < k. if c = r then x c else 0)"
      using \<open>r < k\<close> by (intro sum.cong) (auto simp: generator_def Gf_simps)
    then show ?thesis using val [OF \<open>r \<in> set rows\<close>] \<open>r < k\<close> by simp
  qed
  have k256: "k \<le> 256" using card_mono [of "{..<256}" "set rows"] assms(1-3) by (auto simp: distinct_card)
  have inj: "inj_on ?pos ({..<256} :: nat set)" by (auto simp: inj_on_def position_inj)
  have subT: "?T \<subseteq> {..<256}" and subX: "?X \<subseteq> {..<256}" using k256 assms(3) by auto
  have "card ?T + card ({..<k} \<inter> set rows) = k" using card_Diff_subset_Int [of "{..<k}" "set rows"] card_mono [of "{..<k}" "{..<k} \<inter> set rows"] by simp
  moreover have "card ?X + card ({..<k} \<inter> set rows) = k"
    using card_Diff_subset_Int [of "set rows" "{..<k}"] card_mono [of "set rows" "set rows \<inter> {..<k}"] assms(1,2) by (simp add: distinct_card Int_commute)
  ultimately have cards: "card (?pos ` ?X) = card (?pos ` ?T)"
    using card_image [OF inj_on_subset [OF inj subT]] card_image [OF inj_on_subset [OF inj subX]] by simp
  define v where "v = (\<lambda>g. x (the_inv_into {..<256} ?pos g))"
  have v: "v (?pos c) = x c" if "c < 256" for c using the_inv_into_f_f [OF inj, of c] that by (simp add: v_def)
  have zero: "(\<Sum>g \<in> ?pos ` ?T. v g / (?pos r - g)) = 0" if r: "r \<in> ?X" for r
  proof -
    have "(\<Sum>g \<in> ?pos ` ?T. v g / (?pos r - g)) = (\<Sum>c \<in> ?T. v (?pos c) / (?pos r - ?pos c))"
      by (rule sum.reindex_cong [OF inj_on_subset [OF inj subT]]) simp_all
    also have "\<dots> = (\<Sum>c \<in> ?T. Gf (generator k r c) * x c)"
      using r k256 assms(3) by (intro sum.cong) (auto simp: generator_parity v)
    also have "\<dots> = (\<Sum>c < k. Gf (generator k r c) * x c)"
      by (rule sum.mono_neutral_left) (auto simp: given)
    finally show ?thesis using val r by simp
  qed
  have "?pos ` ?X \<inter> ?pos ` ?T = {}" using position_inj subT subX by (auto simp: subset_iff)
  with cauchy_kernel [of "?pos ` ?T" "?pos ` ?X" v] cards zero have "\<forall>g \<in> ?pos ` ?T. v g = 0" by auto
  then have "x c = 0" if "c \<in> ?T" for c using v [of c] subT that by auto
  then show ?thesis using given by blast
qed

end
