(* ===== verification/Erasure_Round_Trip.thy ===== *)
theory Erasure_Round_Trip
  imports Erasure
begin

text \<open>
  Encoding and decoding compose (\<open>chunk/erasure.c\<close>): whatever \<open>k\<close> of the \<open>k + m\<close> pieces that the
  encoder wrote are left, the decoder gives the buffer back, and fewer than \<open>k\<close> are refused.
\<close>

section \<open>Any \<open>k\<close> pieces give the buffer back\<close>

lemma parity_val:
  fixes g :: "nat \<Rightarrow> u8"
  assumes "\<And>c. c < n \<Longrightarrow> length (P c) = plen"
  defines "par \<equiv> fold (\<lambda>c parity. add_row (g c) (P c) parity) [0..<n] (replicate plen 0)"
  shows "length par = plen" and "b < plen \<Longrightarrow> Gf (par ! b) = (\<Sum>c < n. Gf (g c) * Gf (P c ! b))"
proof -
  have "length par = plen \<and> (b < plen \<longrightarrow> Gf (par ! b) = (\<Sum>c < n. Gf (g c) * Gf (P c ! b)))"
    using assms(1) unfolding par_def
  proof (induction n)
    case (Suc n)
    then show ?case by (simp add: add_row_def Gf_simps)
  qed (simp add: Gf_simps)
  then show "length par = plen" and "b < plen \<Longrightarrow> Gf (par ! b) = (\<Sum>c < n. Gf (g c) * Gf (P c ! b))" by simp_all
qed

text \<open>What the encoder leaves in the buffer of pieces.\<close>

definition parity_of :: "nat \<Rightarrow> nat \<Rightarrow> (nat \<Rightarrow> bytes) \<Rightarrow> nat \<Rightarrow> bytes" where
  "parity_of k plen P j = fold (\<lambda>c parity. add_row (generator k (k + j) c) (P c) parity) [0..<k] (replicate plen 0)"

lemma fold_cong_list: "(\<And>x a. x \<in> set xs \<Longrightarrow> f x a = g x a) \<Longrightarrow> fold f xs a = fold g xs a"
  by (induction xs arbitrary: a) simp_all

lemma piece_before:
  fixes plen :: nat
  assumes "i < j"
  shows "i * plen + plen \<le> j * plen"
  using mult_le_mono1 [of "Suc i" j plen] assms by (simp add: add.commute)

lemma parities_written:
  fixes P :: "nat \<Rightarrow> bytes"
  assumes "\<And>c. c < k \<Longrightarrow> bytes_at (c * plen) plen B = P c \<and> length (P c) = plen" and "(k + m) * plen \<le> length B" and "n \<le> m"
    and small: "k + m \<le> 32"
  defines "B' \<equiv> fold (write_parity k plen) [0..<n] B"
  shows "length B' = length B \<and> (\<forall>c < k. bytes_at (c * plen) plen B' = P c) \<and>
    (\<forall>j < n. bytes_at ((k + j) * plen) plen B' = parity_of k plen P j)"
  using assms(3) unfolding B'_def
proof (induction n)
  case 0
  then show ?case using assms(1) by simp
next
  case (Suc n)
  let ?B = "fold (write_parity k plen) [0..<n] B"
  have ih: "length ?B = length B" "\<forall>c < k. bytes_at (c * plen) plen ?B = P c"
      "\<forall>j < n. bytes_at ((k + j) * plen) plen ?B = parity_of k plen P j" using Suc by simp_all
  have par: "fold (\<lambda>c parity. add_row (generator k (k + n) c) (bytes_at (c * plen) plen ?B) parity) [0..<k] (replicate plen 0) = parity_of k plen P n"
    unfolding parity_of_def using ih(2) by (intro fold_cong_list) simp
  have len: "length (parity_of k plen P n) = plen" unfolding parity_of_def using assms(1) by (intro parity_val(1)) simp
  have "Suc (k + n) * plen \<le> (k + m) * plen" using Suc.prems by (intro mult_le_mono1) simp
  then have fits: "(k + n) * plen + plen \<le> length ?B" using assms(2) ih(1) by (simp add: add.commute)
  have w: "fold (write_parity k plen) [0..<Suc n] B = put_at ((k + n) * plen) (parity_of k plen P n) ?B"
    using small Suc.prems by (simp add: write_parity_def par Let_def)
  have keep: "bytes_at (i * plen) plen (put_at ((k + n) * plen) (parity_of k plen P n) ?B) = bytes_at (i * plen) plen ?B" if "i < k + n" for i
    using piece_before [OF that, of plen] fits len by (intro bytes_at_put_at_other) auto
  have here: "bytes_at ((k + n) * plen) plen (put_at ((k + n) * plen) (parity_of k plen P n) ?B) = parity_of k plen P n"
    using bytes_at_put_at_same [of "(k + n) * plen" "parity_of k plen P n" ?B] fits len by simp
  show ?case unfolding w using ih keep here fits len by (auto simp: less_Suc_eq)
qed

text \<open>The buffer with its padding, cut into pieces.\<close>

definition padded :: "nat \<Rightarrow> nat \<Rightarrow> bytes \<Rightarrow> bytes" where
  "padded k plen d = d @ replicate (k * plen - length d) 0"

lemma piece_len_covers: "k \<noteq> 0 \<Longrightarrow> len \<noteq> 0 \<Longrightarrow> len \<le> unat k * fzn_erasure_piece_len len k"
proof -
  assume nz: "k \<noteq> 0" "len \<noteq> 0"
  have up: "q + r = l \<Longrightarrow> r < n \<Longrightarrow> l \<le> q + (if r = 0 then 0 else n)" for q r l n :: nat by auto
  have "len \<le> unat k * (len div unat k) + (if len mod unat k = 0 then 0 else unat k)"
    using nz(1) by (intro up [OF mult_div_mod_eq]) (simp add: unat_gt_0)
  then show ?thesis using nz by (simp add: fzn_erasure_piece_len_def split: if_splits)
qed

lemma data_pieces:
  assumes "length d \<le> k * plen" and "(k + m) * plen \<le> length p" and "c < k"
  shows "bytes_at (c * plen) plen (put_at 0 d (put_at 0 (replicate (k * plen) 0) p)) = bytes_at (c * plen) plen (padded k plen d)"
    and "length (bytes_at (c * plen) plen (padded k plen d)) = plen"
proof -
  have k: "k * plen \<le> length p" using assms(2) by (simp add: add_mult_distrib)
  have "put_at 0 d (put_at 0 (replicate (k * plen) 0) p) = padded k plen d @ drop (k * plen) p"
    using assms(1) k by (simp add: put_at_def padded_def)
  moreover have "length (padded k plen d) = k * plen" using assms(1) by (simp add: padded_def)
  ultimately show "bytes_at (c * plen) plen (put_at 0 d (put_at 0 (replicate (k * plen) 0) p)) = bytes_at (c * plen) plen (padded k plen d)"
    and "length (bytes_at (c * plen) plen (padded k plen d)) = plen"
    using piece_before [OF assms(3), of plen] by simp_all
qed

definition encoded :: "u32 \<Rightarrow> u32 \<Rightarrow> bytes \<Rightarrow> bytes \<Rightarrow> bytes" where
  "encoded k m d p =
     (let plen = fzn_erasure_piece_len (length d) k in
      fold (write_parity (unat k) plen) [0..<unat m] (put_at 0 d (put_at 0 (replicate (unat k * plen) 0) p)))"

lemma encode_encoded:
  assumes "k \<noteq> 0" and "m \<noteq> 0" and "unat k + unat m \<le> 32" and "length d \<noteq> 0"
    and "(unat k + unat m) * fzn_erasure_piece_len (length d) k \<le> length p"
  shows "fzn_erasure_encode k m (Some d) (length d) (Some p) = Some (FZN_ERASURE_OK, Some (encoded k m d p))"
  using assms by (auto simp: fzn_erasure_encode_def shape_ok_def encoded_def Let_def unat_plus_if')

lemma encoded_piece:
  assumes shape: "k \<noteq> 0" "unat k + unat m \<le> 32" "length d \<noteq> 0" "length d = len"
    and room: "(unat k + unat m) * fzn_erasure_piece_len len k \<le> length p"
  defines "n \<equiv> unat k" and "plen \<equiv> fzn_erasure_piece_len len k" and "buf \<equiv> encoded k m d p"
  shows "length buf = length p"
    and "i < n + unat m \<Longrightarrow> b < plen \<Longrightarrow>
      Gf (bytes_at (i * plen) plen buf ! b) = (\<Sum>c < n. Gf (generator n i c) * Gf (padded n plen d ! (c * plen + b)))"
proof -
  let ?P = "\<lambda>c. bytes_at (c * plen) plen (padded n plen d)"
  let ?B = "put_at 0 d (put_at 0 (replicate (n * plen) 0) p)"
  have fits: "(n + unat m) * plen \<le> length p" using room by (simp add: n_def plen_def)
  have cov: "length d \<le> n * plen" using piece_len_covers [OF shape(1,3)] shape(4) by (simp add: n_def plen_def)
  have "n * plen \<le> length p" using fits by (simp add: add_mult_distrib)
  then have "length ?B = length p" using cov by simp
  then have w: "length buf = length p \<and> (\<forall>c < n. bytes_at (c * plen) plen buf = ?P c) \<and> (\<forall>j < unat m. bytes_at ((n + j) * plen) plen buf = parity_of n plen ?P j)"
    using parities_written [of n plen ?B ?P "unat m" "unat m"] data_pieces [OF cov fits] fits shape(2,4)
    by (simp add: buf_def encoded_def Let_def n_def plen_def)
  then show "length buf = length p" by simp
  assume i: "i < n + unat m" and b: "b < plen"
  have bytes: "?P c ! b = padded n plen d ! (c * plen + b)" if "c < n" for c
    using that b cov piece_before [OF that, of plen] by (simp add: nth_bytes_at padded_def)
  show "Gf (bytes_at (i * plen) plen buf ! b) = (\<Sum>c < n. Gf (generator n i c) * Gf (padded n plen d ! (c * plen + b)))"
  proof (cases "i < n")
    case True
    have "(\<Sum>c < n. Gf (generator n i c) * Gf (padded n plen d ! (c * plen + b))) = (\<Sum>c < n. if c = i then Gf (padded n plen d ! (c * plen + b)) else 0)"
      by (intro sum.cong) (use True in \<open>auto simp: generator_def Gf_simps\<close>)
    then show ?thesis using True w bytes by simp
  next
    case False
    then obtain j where j: "i = n + j" "j < unat m" using i by (metis add_less_cancel_left le_Suc_ex not_less)
    have "Gf (parity_of n plen ?P j ! b) = (\<Sum>c < n. Gf (generator n (n + j) c) * Gf (?P c ! b))"
      unfolding parity_of_def using data_pieces(2) [OF cov fits] b by (intro parity_val(2)) simp_all
    then show ?thesis using w j bytes by simp
  qed
qed

lemma decoded_byte: "Gf (fold (\<lambda>i v. v XOR gf_mul (row ! i) (given ! i ! b)) [0..<k] 0) = row_val k row (\<lambda>i. Gf (given ! i ! b))"
  by (induction k) (simp_all add: row_val_def Gf_simps)

lemma take_put_at: "off + length bs \<le> length buf \<Longrightarrow> take (off + length bs) (put_at off bs buf) = take off buf @ bs"
  by (simp add: put_at_def)

lemma rebuild_ok:
  assumes "\<forall>r < k. \<forall>b < plen. fold (\<lambda>i v. v XOR gf_mul (iv ! r ! i) (given ! i ! b)) [0..<k] 0 = full ! (r * plen + b)"
    and "len \<le> k * plen" and "length full = k * plen" and "length out = len" and "r \<le> k"
    and "take (min (r * plen) len) out = take (min (r * plen) len) full"
  shows "rebuild k plen len iv given [r..<k] (min (r * plen) len) out = take len full"
  using assms(4-)
proof (induction "k - r" arbitrary: r out)
  case 0
  then have "min (r * plen) len = len" using assms(2) by simp
  then show ?case using 0 by simp
next
  case (Suc n)
  then have r: "r < k" by simp
  show ?case
  proof (cases "r * plen < len")
    case False
    then have "min (r * plen) len = len" by simp
    then show ?thesis using Suc.prems upt_conv_Cons [OF r] by simp
  next
    case True
    let ?want = "if len - r * plen < plen then len - r * plen else plen"
    let ?new = "map (\<lambda>b. fold (\<lambda>i v. v XOR gf_mul (iv ! r ! i) (given ! i ! b)) [0..<k] 0) [0..<?want]"
    have new: "?new = bytes_at (r * plen) ?want full"
      using assms(1) r piece_before [OF r, of plen] assms(3) by (intro nth_equalityI) (auto simp: nth_bytes_at)
    have fit: "r * plen + length ?new \<le> len" using True by auto
    have at: "r * plen + ?want = min (Suc r * plen) len" using True by auto
    have "take (min (Suc r * plen) len) (put_at (r * plen) ?new out) = take (min (Suc r * plen) len) full"
      using Suc.prems(1,3) True fit take_put_at [of "r * plen" ?new out] split_at_bytes_at [of "r * plen" ?want full]
      by (simp only: at [symmetric] new [symmetric]) (simp add: min_absorb1)
    then have "rebuild k plen len iv given [Suc r..<k] (min (Suc r * plen) len) (put_at (r * plen) ?new out) = take len full"
      using Suc.hyps(1) [of "Suc r" "put_at (r * plen) ?new out"] Suc.hyps(2) r Suc.prems(1) fit by simp
    then show ?thesis using True upt_conv_Cons [OF r] at by (simp add: Let_def min_absorb1)
  qed
qed

text \<open>Rows of the generator for the pieces held, beside the identity.\<close>

lemma inverted:
  assumes "distinct rows" and "length rows = k" and "\<forall>r \<in> set rows. r < 256"
  shows "\<exists>a' iv'. reduce_columns k [0..<k] (map (\<lambda>r. map (generator k r) [0..<k]) rows, map (\<lambda>r. map (\<lambda>c. if r = c then 1 else 0) [0..<k]) [0..<k]) = Some (a', iv') \<and>
    (\<forall>x y. (\<forall>i < k. (\<Sum>c < k. Gf (generator k (rows ! i) c) * x c) = y i) \<longrightarrow> (\<forall>r < k. row_val k (iv' ! r) y = x r))"
proof -
  let ?a = "map (\<lambda>r. map (generator k r) [0..<k]) rows" and ?iv = "map (\<lambda>r. map (\<lambda>c. if r = c then 1 else 0 :: u8) [0..<k]) [0..<k]"
  have sq: "square k ?a" "square k ?iv" using assms(2) by (auto simp: square_def)
  have "unit_columns k 0 ?a" by (simp add: unit_columns_def)
  then obtain a' iv' where red: "reduce_columns k [0..<k] (?a, ?iv) = Some (a', iv')" and step: "row_step k ?a ?iv a' iv'" and unit: "unit_columns k k a'"
    using reduce_columns_some [OF sq le0] generator_regular [OF assms] by blast
  have "row_val k (iv' ! r) y = x r" if sol: "\<forall>i < k. (\<Sum>c < k. Gf (generator k (rows ! i) c) * x c) = y i" and r: "r < k" for x y r
  proof -
    have "solves k ?a ?iv x y"
      unfolding solves_def
    proof (intro allI impI)
      fix i assume i: "i < k"
      have "row_val k (?iv ! i) y = y i" using i by (intro row_val_unit) auto
      moreover have "row_val k (?a ! i) x = y i" using sol i assms(2) by (simp add: row_val_def)
      ultimately show "row_val k (?a ! i) x = row_val k (?iv ! i) y" by simp
    qed
    then have "row_val k (a' ! r) x = row_val k (iv' ! r) y" using step r by (simp add: row_step_def solves_def)
    moreover have "row_val k (a' ! r) x = x r" using unit r by (intro row_val_unit) (auto simp: unit_columns_def)
    ultimately show ?thesis by simp
  qed
  then show ?thesis using red by blast
qed

lemma held_count: "length (filter (\<lambda>i. ps ! i \<noteq> None) [0..<length ps]) = length (filter (\<lambda>q. q \<noteq> None) ps)"
  using arg_cong [OF filter_map [of "\<lambda>q. q \<noteq> None" "(!) ps" "[0..<length ps]"], of length] by (simp add: map_nth o_def)

lemma round_trip:
  assumes shape: "k \<noteq> 0" "m \<noteq> 0" "unat k + unat m \<le> 32" "length d \<noteq> 0" "length d = len"
    and room: "(unat k + unat m) * fzn_erasure_piece_len len k \<le> length p"
    and given: "length ps = unat k + unat m"
      "\<forall>i < length ps. ps ! i = None \<or> ps ! i = Some (bytes_at (i * fzn_erasure_piece_len len k) (fzn_erasure_piece_len len k) (encoded k m d p))"
    and enough: "unat k \<le> length (filter (\<lambda>q. q \<noteq> None) ps)" and out: "length out = len"
  shows "fzn_erasure_decode k m (Some ps) len (Some out) = Some (FZN_ERASURE_OK, Some d)"
proof -
  let ?buf = "encoded k m d p"
  define n plen rows where "n = unat k" and "plen = fzn_erasure_piece_len len k"
    and "rows = take n (filter (\<lambda>i. ps ! i \<noteq> None) [0..<n + unat m])"
  have km: "unat (k + m) = n + unat m" using shape(3) by (simp add: n_def unat_plus_if')
  have len: "length rows = n" using held_count [of ps] enough given(1) by (simp add: rows_def n_def)
  have mem: "i < n + unat m \<and> ps ! i = Some (bytes_at (i * plen) plen ?buf)" if "i \<in> set rows" for i
    using in_set_takeD [OF that [unfolded rows_def]] given by (auto simp: n_def plen_def)
  have dist: "distinct rows" by (simp add: rows_def)
  have small: "\<forall>r \<in> set rows. r < 256" using mem shape(3) by (fastforce simp: n_def)
  let ?given = "map (\<lambda>i. the (ps ! i)) rows"
  have buflen: "(n + unat m) * plen \<le> length ?buf"
    using encoded_piece(1) [OF shape(1,3-5) room] room by (simp add: n_def plen_def)
  obtain a' iv' where red: "reduce_columns n [0..<n] (map (\<lambda>r. map (generator n r) [0..<n]) rows, map (\<lambda>r. map (\<lambda>c. if r = c then 1 else 0) [0..<n]) [0..<n]) = Some (a', iv')"
    and inv: "\<forall>x y. (\<forall>i < n. (\<Sum>c < n. Gf (generator n (rows ! i) c) * x c) = y i) \<longrightarrow> (\<forall>r < n. row_val n (iv' ! r) y = x r)"
    using inverted [OF dist len small] by blast
  have "fold (\<lambda>i v. v XOR gf_mul (iv' ! r ! i) (?given ! i ! b)) [0..<n] 0 = padded n plen d ! (r * plen + b)" if "r < n" "b < plen" for r b
  proof -
    have "\<forall>i < n. (\<Sum>c < n. Gf (generator n (rows ! i) c) * Gf (padded n plen d ! (c * plen + b))) = Gf (?given ! i ! b)"
      using encoded_piece(2) [OF shape(1,3-5) room, folded n_def plen_def, OF _ that(2)] mem len by simp
    then have "row_val n (iv' ! r) (\<lambda>i. Gf (?given ! i ! b)) = Gf (padded n plen d ! (r * plen + b))" 
      using inv [THEN spec [of _ "\<lambda>c. Gf (padded n plen d ! (c * plen + b))"], THEN spec [of _ "\<lambda>i. Gf (?given ! i ! b)"]] that(1) by simp
    then show ?thesis unfolding decoded_byte [symmetric] Gf_simps(5) .
  qed
  then have "rebuild n plen len iv' ?given [0..<n] (min (0 * plen) len) out = take len (padded n plen d)"
    using piece_len_covers [OF shape(1,4)] shape(5) out by (intro rebuild_ok) (simp_all add: n_def plen_def padded_def)
  moreover have "\<not> list_ex (\<lambda>i. length (the (ps ! i)) < plen) rows"
  proof -
    have "plen \<le> length ?buf - i * plen" if "i \<in> set rows" for i
      using mem [OF that] piece_before [of i "n + unat m" plen] buflen by linarith
    then show ?thesis using mem by (auto simp: list_ex_iff)
  qed
  ultimately show ?thesis
    using red len km given(1) shape out by (simp add: fzn_erasure_decode_def shape_ok_def Let_def n_def plen_def rows_def padded_def)
qed

text \<open>
  C7. Encoding a buffer of the right shape writes \<open>k + m\<close> pieces, and decoding from any of them, at
  least \<open>k\<close> in number, gives exactly the buffer back: a pivot is always found, the inverse is the
  inverse, the padding is cut off.
\<close>

theorem erasure_round_trip:
  assumes "k \<noteq> 0" and "m \<noteq> 0" and "unat k + unat m \<le> FZN_ERASURE_PIECES_MAX" and "d \<noteq> []"
    and "(unat k + unat m) * fzn_erasure_piece_len (length d) k \<le> length p"
  shows "\<exists>buf. fzn_erasure_encode k m (Some d) (length d) (Some p) = Some (FZN_ERASURE_OK, Some buf) \<and>
    (\<forall>ps out. length ps = unat k + unat m \<longrightarrow> length out = length d \<longrightarrow> unat k \<le> length (filter (\<lambda>q. q \<noteq> None) ps) \<longrightarrow>
       (\<forall>i < length ps. ps ! i = None \<or> ps ! i = Some (bytes_at (i * fzn_erasure_piece_len (length d) k) (fzn_erasure_piece_len (length d) k) buf)) \<longrightarrow>
       fzn_erasure_decode k m (Some ps) (length d) (Some out) = Some (FZN_ERASURE_OK, Some d))"
  using encode_encoded [OF assms(1-3) _ assms(5)] round_trip [OF assms(1-3) _ refl assms(5)] assms(4) by simp

theorem erasure_round_trip_witness:
  "\<exists>buf. fzn_erasure_encode 2 1 (Some [7, 8, 9]) 3 (Some (replicate 6 0)) = Some (FZN_ERASURE_OK, Some buf) \<and>
     fzn_erasure_decode 2 1 (Some [None, Some (bytes_at 2 2 buf), Some (bytes_at 4 2 buf)]) 3 (Some [0, 0, 0]) = Some (FZN_ERASURE_OK, Some [7, 8, 9])"
proof -
  have len: "length [7, 8, 9 :: u8] = 3" by simp
  have plen: "fzn_erasure_piece_len 3 2 = 2" by (simp add: fzn_erasure_piece_len_def)
  obtain buf where enc: "fzn_erasure_encode 2 1 (Some [7, 8, 9]) 3 (Some (replicate 6 0)) = Some (FZN_ERASURE_OK, Some buf)"
    and dec: "\<And>ps out. length ps = 3 \<Longrightarrow> length out = 3 \<Longrightarrow> 2 \<le> length (filter (\<lambda>q. q \<noteq> None) ps) \<Longrightarrow>
       \<forall>i < length ps. ps ! i = None \<or> ps ! i = Some (bytes_at (i * 2) 2 buf) \<Longrightarrow>
       fzn_erasure_decode 2 1 (Some ps) 3 (Some out) = Some (FZN_ERASURE_OK, Some [7, 8, 9])"
    using erasure_round_trip [of 2 1 "[7, 8, 9]" "replicate 6 0", unfolded len plen] by auto
  have "fzn_erasure_decode 2 1 (Some [None, Some (bytes_at 2 2 buf), Some (bytes_at 4 2 buf)]) 3 (Some [0, 0, 0]) = Some (FZN_ERASURE_OK, Some [7, 8, 9])"
    by (rule dec) (auto simp: less_Suc_eq)
  then show ?thesis using enc by blast
qed

text \<open>
  Fewer than \<open>k\<close> pieces are refused and nothing is written.
\<close>

theorem too_few_refused:
  assumes "k \<noteq> 0" and "m \<noteq> 0" and "unat k + unat m \<le> FZN_ERASURE_PIECES_MAX" and "len \<noteq> 0" and "length ps = unat k + unat m"
    and "length (filter (\<lambda>q. q \<noteq> None) ps) < unat k"
  shows "fzn_erasure_decode k m (Some ps) len (Some out) = Some (FZN_ERASURE_ERR_TOO_FEW, Some out)"
  using assms held_count [of ps] by (simp add: fzn_erasure_decode_def shape_ok_def Let_def unat_plus_if')

theorem too_few_refused_witness:
  "fzn_erasure_decode 2 1 (Some [None, Some [9, 0], None]) 3 (Some [0, 0, 0]) = Some (FZN_ERASURE_ERR_TOO_FEW, Some [0, 0, 0])"
  by (rule too_few_refused) simp_all

text \<open>
  The test of the shape adds \<open>k\<close> and \<open>m\<close> at 32 bits: a \<open>k\<close> near the top of the range passes
  with an \<open>m\<close> that wraps the sum, although it is far above the limit of pieces.
\<close>

theorem shape_sum_wraps: "shape_ok k m len \<longleftrightarrow> k \<noteq> 0 \<and> m \<noteq> 0 \<and> len \<noteq> 0 \<and>
    (unat k + unat m \<le> FZN_ERASURE_PIECES_MAX \<or> 2 ^ 32 \<le> unat k + unat m \<and> unat k + unat m \<le> 2 ^ 32 + FZN_ERASURE_PIECES_MAX)"
  by (auto simp: shape_ok_def unat_plus_if')

end
