(* ===== verification/Sched.thy ===== *)
theory Sched
  imports Fzn_Prelude
begin

text \<open>
  Choosing a link for a message (\<open>sched/sched.c\<close>): the hard constraints of a class of traffic, the cost
  of a candidate and the selection. The cost is a saturating sum of 64-bit products, and the selection
  is the first of the cheapest candidates that meet every constraint.
\<close>

section \<open>The model\<close>

datatype fzn_sched_err = FZN_SCHED_OK | FZN_SCHED_ERR_MALFORMED | FZN_SCHED_ERR_NONE

datatype fzn_sched_exclusion = FZN_SCHED_ADMITTED | FZN_SCHED_EXCLUDED_MALFORMED | FZN_SCHED_EXCLUDED_UNUSABLE
  | FZN_SCHED_EXCLUDED_LATENCY | FZN_SCHED_EXCLUDED_LOSS | FZN_SCHED_EXCLUDED_MTU

record fzn_sched_candidate =
  sc_id :: u32
  sc_metric :: u32
  sc_latency_ms :: u32
  sc_loss_permille :: u16
  sc_mtu :: u32
  sc_usable :: bool

record fzn_class =
  cl_max_latency_ms :: u32
  cl_max_loss_permille :: u16
  cl_min_mtu :: u32
  cl_weight_metric :: u32
  cl_weight_latency :: u32
  cl_weight_loss :: u32

definition fzn_sched_excluded_by :: "fzn_sched_candidate option \<Rightarrow> fzn_class option \<Rightarrow> fzn_sched_exclusion" where
  "fzn_sched_excluded_by link wanted =
     (case (link, wanted) of
        (Some l, Some w) \<Rightarrow>
          if \<not> sc_usable l then FZN_SCHED_EXCLUDED_UNUSABLE
          else if cl_max_latency_ms w \<noteq> 0 \<and> sc_latency_ms l > cl_max_latency_ms w then FZN_SCHED_EXCLUDED_LATENCY
          else if cl_max_loss_permille w \<noteq> 0 \<and> sc_loss_permille l > cl_max_loss_permille w then FZN_SCHED_EXCLUDED_LOSS
          else if cl_min_mtu w \<noteq> 0 \<and> sc_mtu l < cl_min_mtu w then FZN_SCHED_EXCLUDED_MTU
          else FZN_SCHED_ADMITTED
      | _ \<Rightarrow> FZN_SCHED_EXCLUDED_MALFORMED)"

definition fzn_sched_admits :: "fzn_sched_candidate option \<Rightarrow> fzn_class option \<Rightarrow> bool" where
  "fzn_sched_admits link wanted \<longleftrightarrow> fzn_sched_excluded_by link wanted = FZN_SCHED_ADMITTED"

definition add_saturating :: "u64 \<Rightarrow> u64 \<Rightarrow> u64" where
  "add_saturating a b = (if a > UINT64_MAX - b then UINT64_MAX else a + b)"

definition fzn_sched_cost :: "fzn_sched_candidate option \<Rightarrow> fzn_class option \<Rightarrow> u64" where
  "fzn_sched_cost link wanted =
     (case (link, wanted) of
        (Some l, Some w) \<Rightarrow>
          let cost = add_saturating 0 (ucast (cl_weight_metric w) * ucast (sc_metric l));
              cost = add_saturating cost (ucast (cl_weight_latency w) * ucast (sc_latency_ms l))
          in add_saturating cost (ucast (cl_weight_loss w) * ucast (sc_loss_permille l))
      | _ \<Rightarrow> UINT64_MAX)"

text \<open>The loop keeps the best index and its cost, or nothing while no candidate was admitted.\<close>

definition select_step :: "fzn_sched_candidate list \<Rightarrow> fzn_class \<Rightarrow> nat \<Rightarrow> (nat \<times> u64) option \<Rightarrow> (nat \<times> u64) option" where
  "select_step links wanted i best =
     (if \<not> fzn_sched_admits (Some (links ! i)) (Some wanted) then best
      else let cost = fzn_sched_cost (Some (links ! i)) (Some wanted) in
        (case best of None \<Rightarrow> Some (i, cost)
         | Some (_, best_cost) \<Rightarrow> if cost < best_cost then Some (i, cost) else best))"

text \<open>\<open>links\<close> is an array of \<open>link_count\<close> candidates.\<close>

definition fzn_sched_select :: "fzn_sched_candidate list option \<Rightarrow> fzn_class option \<Rightarrow> fzn_sched_err \<times> nat option" where
  "fzn_sched_select links wanted =
     (case (links, wanted) of
        (Some ls, Some w) \<Rightarrow>
          if length ls = 0 then (FZN_SCHED_ERR_MALFORMED, None)
          else (case fold (select_step ls w) [0..<length ls] None of
              None \<Rightarrow> (FZN_SCHED_ERR_NONE, None)
            | Some (best, _) \<Rightarrow> (FZN_SCHED_OK, Some best))
      | _ \<Rightarrow> (FZN_SCHED_ERR_MALFORMED, None))"

definition fzn_sched_err_str :: "fzn_sched_err \<Rightarrow> string" where
  "fzn_sched_err_str err =
     (case err of FZN_SCHED_OK \<Rightarrow> ''ok'' | FZN_SCHED_ERR_MALFORMED \<Rightarrow> ''malformed argument''
      | FZN_SCHED_ERR_NONE \<Rightarrow> ''no link satisfies this class'')"

section \<open>Cost\<close>

lemma unat_add_saturating: "unat (add_saturating a b) = min (2 ^ 64 - 1) (unat a + unat b)"
proof -
  have "add_saturating a b = sat_add b a" by (simp add: add_saturating_def sat_add_def add.commute)
  then show ?thesis by (simp add: unat_sat_add add.commute)
qed

text \<open>No product of a 32-bit and a 32-bit or 16-bit value overflows 64 bits.\<close>

lemma unat_product:
  fixes a :: "'a :: len word" and b :: "'b :: len word"
  assumes "LENGTH('a) + LENGTH('b) \<le> 64"
  shows "unat (ucast a * ucast b :: u64) = unat a * unat b"
proof -
  have up: "unat (ucast x :: u64) = unat x" if "LENGTH('c) \<le> 64" for x :: "'c :: len word"
    using less_le_trans [OF unsigned_less [of x] power_increasing [OF that, of "2 :: nat"]]
    by (simp add: unsigned_ucast_eq take_bit_nat_eq_self)
  have "unat a * unat b < 2 ^ LENGTH('a) * 2 ^ LENGTH('b)"
    using unsigned_less [of a] unsigned_less [of b] by (intro mult_strict_mono) simp_all
  also have "\<dots> \<le> 2 ^ 64" unfolding power_add [symmetric] using assms by (intro power_increasing) simp_all
  finally have "unat (ucast a :: u64) * unat (ucast b :: u64) < 2 ^ LENGTH(64)" using assms by (simp add: up)
  then show ?thesis using unat_mult_lem [of "ucast a :: u64" "ucast b"] assms by (simp add: up)
qed

text \<open>The cost without a bound on its size.\<close>

definition true_cost :: "fzn_sched_candidate \<Rightarrow> fzn_class \<Rightarrow> nat" where
  "true_cost l w = unat (cl_weight_metric w) * unat (sc_metric l) + unat (cl_weight_latency w) * unat (sc_latency_ms l)
     + unat (cl_weight_loss w) * unat (sc_loss_permille l)"

lemma cost_is_true_cost: "unat (fzn_sched_cost (Some l) (Some w)) = min (2 ^ 64 - 1) (true_cost l w)"
  by (simp add: fzn_sched_cost_def Let_def unat_add_saturating unat_product true_cost_def min_def)

section \<open>Selection\<close>

text \<open>Among the first \<open>n\<close> candidates, the index \<open>i\<close> is the first of the cheapest admitted ones.\<close>

definition first_cheapest :: "('a \<Rightarrow> bool) \<Rightarrow> ('a \<Rightarrow> 'b :: linorder) \<Rightarrow> 'a list \<Rightarrow> nat \<Rightarrow> nat \<Rightarrow> bool" where
  "first_cheapest P c xs n i \<longleftrightarrow> i < n \<and> P (xs ! i) \<and> (\<forall>j < n. P (xs ! j) \<longrightarrow> c (xs ! i) \<le> c (xs ! j)) \<and>
     (\<forall>j < i. P (xs ! j) \<longrightarrow> c (xs ! i) < c (xs ! j))"

lemma select_loop:
  fixes ls w
  defines "adm \<equiv> \<lambda>l. fzn_sched_admits (Some l) (Some w)" and "cost \<equiv> \<lambda>l. fzn_sched_cost (Some l) (Some w)"
  shows "case fold (select_step ls w) [0..<n] None of
      None \<Rightarrow> \<forall>j < n. \<not> adm (ls ! j)
    | Some (i, c) \<Rightarrow> c = cost (ls ! i) \<and> first_cheapest adm cost ls n i"
proof (induction n)
  case 0
  then show ?case by simp
next
  case (Suc n)
  have loop: "fold (select_step ls w) [0..<Suc n] None = select_step ls w n (fold (select_step ls w) [0..<n] None)" by simp
  show ?case unfolding loop
  proof (cases "fold (select_step ls w) [0..<n] None")
    case None
    then have "\<forall>j < n. \<not> adm (ls ! j)" using Suc by simp
    then show "case select_step ls w n (fold (select_step ls w) [0..<n] None) of None \<Rightarrow> \<forall>j < Suc n. \<not> adm (ls ! j)
        | Some (i, c) \<Rightarrow> c = cost (ls ! i) \<and> first_cheapest adm cost ls (Suc n) i"
      unfolding None by (auto simp: select_step_def Let_def first_cheapest_def adm_def cost_def less_Suc_eq)
  next
    case (Some b)
    obtain i c where b: "b = (i, c)" by (cases b)
    then have c: "c = cost (ls ! i)" and best: "first_cheapest adm cost ls n i" using Suc Some by auto
    show "case select_step ls w n (fold (select_step ls w) [0..<n] None) of None \<Rightarrow> \<forall>j < Suc n. \<not> adm (ls ! j)
        | Some (i, c) \<Rightarrow> c = cost (ls ! i) \<and> first_cheapest adm cost ls (Suc n) i"
    proof (cases "adm (ls ! n) \<and> cost (ls ! n) < cost (ls ! i)")
      case True
      have "cost (ls ! n) < cost (ls ! j)" if "j < n" "adm (ls ! j)" for j
        using best True that unfolding first_cheapest_def by (meson less_le_trans)
      then have "first_cheapest adm cost ls (Suc n) n" using True by (auto simp: first_cheapest_def less_Suc_eq intro: less_imp_le)
      then show ?thesis using True Some b c by (simp add: select_step_def Let_def adm_def cost_def)
    next
      case False
      then have "first_cheapest adm cost ls (Suc n) i" using best by (auto simp: first_cheapest_def less_Suc_eq)
      then show ?thesis using False Some b c by (auto simp: select_step_def Let_def adm_def cost_def)
    qed
  qed
qed

lemma select_cases:
  assumes "ls \<noteq> []"
  shows "case fzn_sched_select (Some ls) (Some w) of
      (FZN_SCHED_OK, Some i) \<Rightarrow> first_cheapest (\<lambda>l. fzn_sched_admits (Some l) (Some w)) (\<lambda>l. fzn_sched_cost (Some l) (Some w)) ls (length ls) i
    | (FZN_SCHED_ERR_NONE, None) \<Rightarrow> \<forall>l \<in> set ls. \<not> fzn_sched_admits (Some l) (Some w)
    | _ \<Rightarrow> False"
  using select_loop [where ls = ls and w = w and n = "length ls"] assms
  by (auto simp: fzn_sched_select_def in_set_conv_nth split: option.splits)

text \<open>
  The selection is total and right: with a candidate that meets every hard constraint it returns
  one of those, of the least cost among them and the first of that cost; it answers that none qualifies
  exactly when none does, and never falls back to a candidate that fails a constraint. The cost is the
  weighted sum of the three components, cut off at the largest 64-bit value and never wrapped.
\<close>

theorem sched_selects_cheapest:
  assumes "ls \<noteq> []"
  shows "(fzn_sched_select (Some ls) (Some w) = (FZN_SCHED_ERR_NONE, None) \<longleftrightarrow> (\<forall>l \<in> set ls. \<not> fzn_sched_admits (Some l) (Some w))) \<and>
    (fzn_sched_select (Some ls) (Some w) = (FZN_SCHED_OK, Some i) \<longleftrightarrow>
       i < length ls \<and> fzn_sched_admits (Some (ls ! i)) (Some w) \<and>
       (\<forall>j < length ls. fzn_sched_admits (Some (ls ! j)) (Some w) \<longrightarrow>
          min (2 ^ 64 - 1) (true_cost (ls ! i) w) \<le> min (2 ^ 64 - 1) (true_cost (ls ! j) w) \<and>
          (j < i \<longrightarrow> min (2 ^ 64 - 1) (true_cost (ls ! i) w) < min (2 ^ 64 - 1) (true_cost (ls ! j) w))))"
    (is "?none \<and> (?sel i \<longleftrightarrow> ?best i)")
proof -
  let ?fc = "first_cheapest (\<lambda>l. fzn_sched_admits (Some l) (Some w)) (\<lambda>l. fzn_sched_cost (Some l) (Some w)) ls (length ls)"
  have best: "?best i \<longleftrightarrow> ?fc i" for i
    unfolding first_cheapest_def word_le_nat_alt word_less_nat_alt cost_is_true_cost by (meson less_trans)
  have uniq: "a = b" if "?fc a" "?fc b" for a b
    using that unfolding first_cheapest_def by (metis linorder_neqE_nat not_le)
  have cases: "(\<exists>j. ?sel j \<and> ?fc j) \<or> (fzn_sched_select (Some ls) (Some w) = (FZN_SCHED_ERR_NONE, None) \<and> (\<forall>l \<in> set ls. \<not> fzn_sched_admits (Some l) (Some w)))"
    using select_cases [OF assms, of w] by (auto split: prod.splits option.splits fzn_sched_err.splits)
  have some: "\<exists>l \<in> set ls. fzn_sched_admits (Some l) (Some w)" if "?fc j" for j
    using that nth_mem unfolding first_cheapest_def by blast
  show ?thesis unfolding best using cases uniq some by fastforce
qed

theorem sched_selects_cheapest_witness:
  "let fast = \<lparr>sc_id = 1, sc_metric = 5, sc_latency_ms = 10, sc_loss_permille = 50, sc_mtu = 1400, sc_usable = True\<rparr>;
       safe = \<lparr>sc_id = 2, sc_metric = 5, sc_latency_ms = 200, sc_loss_permille = 1, sc_mtu = 1400, sc_usable = True\<rparr>;
       voice = \<lparr>cl_max_latency_ms = 100, cl_max_loss_permille = 0, cl_min_mtu = 0, cl_weight_metric = 0, cl_weight_latency = 1, cl_weight_loss = 0\<rparr>
   in fzn_sched_select (Some [safe, fast]) (Some voice) = (FZN_SCHED_OK, Some 1)"
  unfolding Let_def
  by (subst sched_selects_cheapest [THEN conjunct2])
    (auto simp: less_Suc_eq fzn_sched_admits_def fzn_sched_excluded_by_def true_cost_def)

end
