(* ===== verification/Link.thy ===== *)
theory Link
  imports Sched
begin

text \<open>
  The table of links (\<open>link/link.c\<close>): registration, the estimates that observations move, and the
  snapshot the scheduler chooses from. The estimate is shown to reach a repeated sample, the table to
  keep its keys distinct and every loss rate at most 1000 permille, and the selection over a snapshot
  to be a selection over the table.
\<close>

unbundle bit_operations_syntax

section \<open>The model\<close>

datatype fzn_link_err = FZN_LINK_OK | FZN_LINK_ERR_MALFORMED | FZN_LINK_ERR_FULL | FZN_LINK_ERR_DUPLICATE | FZN_LINK_ERR_ABSENT

abbreviation FZN_LINK_SMOOTH_SHIFT :: nat where "FZN_LINK_SMOOTH_SHIFT \<equiv> 3"

record fzn_link_entry =
  le_id :: u32
  le_metric :: u32
  le_latency_ms :: u32
  le_loss_permille :: u16
  le_mtu :: u32
  le_observations :: u64
  le_last_seen :: u64
  le_usable :: bool

record fzn_link_table =
  lt_entries :: "fzn_link_entry list option"
  lt_capacity :: nat
  lt_used :: nat

definition usable_table :: "fzn_link_table option \<Rightarrow> bool" where
  "usable_table table = (case table of None \<Rightarrow> False | Some t \<Rightarrow> lt_entries t \<noteq> None \<and> lt_used t \<le> lt_capacity t)"

definition find_link :: "fzn_link_table \<Rightarrow> u32 \<Rightarrow> nat option" where
  "find_link table lid = fold (\<lambda>i hit. if le_id (the (lt_entries table) ! i) = lid then Some i else hit) [0..<lt_used table] None"

definition zero_link :: fzn_link_entry where
  "zero_link = \<lparr>le_id = 0, le_metric = 0, le_latency_ms = 0, le_loss_permille = 0, le_mtu = 0, le_observations = 0,
     le_last_seen = 0, le_usable = False\<rparr>"

definition fzn_link_table_init :: "fzn_link_table option \<Rightarrow> fzn_link_entry list option \<Rightarrow> nat \<Rightarrow> fzn_link_err \<times> fzn_link_table option" where
  "fzn_link_table_init table entries capacity =
     (case (table, entries) of
        (Some _, Some es) \<Rightarrow>
          if capacity = 0 then (FZN_LINK_ERR_MALFORMED, table)
          else (FZN_LINK_OK, Some \<lparr>lt_entries = Some (replicate capacity zero_link @ drop capacity es), lt_capacity = capacity, lt_used = 0\<rparr>)
      | _ \<Rightarrow> (FZN_LINK_ERR_MALFORMED, table))"

definition fzn_link_register :: "fzn_link_table option \<Rightarrow> u32 \<Rightarrow> u32 \<Rightarrow> u32 \<Rightarrow> u16 \<Rightarrow> u32 \<Rightarrow> fzn_link_err \<times> fzn_link_table option" where
  "fzn_link_register table lid metric latency_ms loss_permille mtu =
     (if \<not> usable_table table then (FZN_LINK_ERR_MALFORMED, table)
      else let t = the table in
        if loss_permille > 1000 then (FZN_LINK_ERR_MALFORMED, table)
        else if find_link t lid \<noteq> None then (FZN_LINK_ERR_DUPLICATE, table)
        else if lt_used t \<ge> lt_capacity t then (FZN_LINK_ERR_FULL, table)
        else (FZN_LINK_OK, Some (t\<lparr>
          lt_entries := map_option (\<lambda>es. es[lt_used t :=
            \<lparr>le_id = lid, le_metric = metric, le_latency_ms = latency_ms, le_loss_permille = loss_permille, le_mtu = mtu,
             le_observations = 0, le_last_seen = 0, le_usable = True\<rparr>]) (lt_entries t),
          lt_used := lt_used t + 1\<rparr>)))"

definition smooth :: "u32 \<Rightarrow> u32 \<Rightarrow> u32" where
  "smooth old sample =
     (let weighted = (ucast old :: u64) * ucast (push_bit FZN_LINK_SMOOTH_SHIFT 1 - 1 :: u32);
          total = weighted + ucast sample;
          result = ucast (drop_bit FZN_LINK_SMOOTH_SHIFT total)
      in if sample > old \<and> total AND (push_bit FZN_LINK_SMOOTH_SHIFT 1 - 1) \<noteq> 0 then result + 1 else result)"

text \<open>What the three operations on a registered link share: find it, change it, leave the rest.\<close>

definition on_link :: "fzn_link_table option \<Rightarrow> u32 \<Rightarrow> (fzn_link_entry \<Rightarrow> fzn_link_entry) \<Rightarrow> fzn_link_err \<times> fzn_link_table option" where
  "on_link table lid f =
     (if \<not> usable_table table then (FZN_LINK_ERR_MALFORMED, table)
      else let t = the table in
        (case find_link t lid of None \<Rightarrow> (FZN_LINK_ERR_ABSENT, table)
         | Some i \<Rightarrow> (FZN_LINK_OK, Some (t\<lparr>lt_entries := map_option (\<lambda>es. es[i := f (es ! i)]) (lt_entries t)\<rparr>))))"

definition fzn_link_observe_ack :: "fzn_link_table option \<Rightarrow> u32 \<Rightarrow> u32 \<Rightarrow> u64 \<Rightarrow> fzn_link_err \<times> fzn_link_table option" where
  "fzn_link_observe_ack table lid rtt_ms now =
     on_link table lid (\<lambda>e. e\<lparr>le_latency_ms := smooth (le_latency_ms e) rtt_ms,
       le_loss_permille := ucast (smooth (ucast (le_loss_permille e)) 0), le_observations := le_observations e + 1, le_last_seen := now\<rparr>)"

definition fzn_link_observe_loss :: "fzn_link_table option \<Rightarrow> u32 \<Rightarrow> u64 \<Rightarrow> fzn_link_err \<times> fzn_link_table option" where
  "fzn_link_observe_loss table lid now =
     on_link table lid (\<lambda>e. e\<lparr>le_loss_permille := ucast (smooth (ucast (le_loss_permille e)) 1000),
       le_observations := le_observations e + 1, le_last_seen := now\<rparr>)"

definition fzn_link_set_usable :: "fzn_link_table option \<Rightarrow> u32 \<Rightarrow> bool \<Rightarrow> fzn_link_err \<times> fzn_link_table option" where
  "fzn_link_set_usable table lid usable = on_link table lid (\<lambda>e. e\<lparr>le_usable := usable\<rparr>)"

definition fzn_link_get :: "fzn_link_table option \<Rightarrow> u32 \<Rightarrow> fzn_link_entry option" where
  "fzn_link_get table lid =
     (if \<not> usable_table table then None
      else map_option ((!) (the (lt_entries (the table)))) (find_link (the table) lid))"

definition candidate_of :: "fzn_link_entry \<Rightarrow> fzn_sched_candidate" where
  "candidate_of e = \<lparr>sc_id = le_id e, sc_metric = le_metric e, sc_latency_ms = le_latency_ms e, sc_loss_permille = le_loss_permille e,
     sc_mtu = le_mtu e, sc_usable = le_usable e\<rparr>"

definition snapshot_step :: "fzn_link_entry list \<Rightarrow> nat \<Rightarrow> nat \<Rightarrow> fzn_sched_candidate list \<times> nat \<times> nat \<Rightarrow> fzn_sched_candidate list \<times> nat \<times> nat" where
  "snapshot_step es out_cap i = (\<lambda>(out, n, dropped).
     if n \<ge> out_cap then (out, n, dropped + 1) else (out[n := candidate_of (es ! i)], n + 1, dropped))"

text \<open>The result is the count, the array and \<open>*dropped\<close>, which is never \<open>NULL\<close> here.\<close>

definition fzn_link_snapshot :: "fzn_link_table option \<Rightarrow> fzn_sched_candidate list option \<Rightarrow> nat \<Rightarrow> nat \<times> fzn_sched_candidate list option \<times> nat" where
  "fzn_link_snapshot table out out_cap =
     (case out of None \<Rightarrow> (0, out, 0)
      | Some cells \<Rightarrow>
        if \<not> usable_table table then (0, out, 0)
        else let (cells, n, dropped) = fold (snapshot_step (the (lt_entries (the table))) out_cap) [0..<lt_used (the table)] (cells, 0, 0)
             in (n, Some cells, dropped))"

definition fzn_link_err_str :: "fzn_link_err \<Rightarrow> string" where
  "fzn_link_err_str err =
     (case err of FZN_LINK_OK \<Rightarrow> ''ok'' | FZN_LINK_ERR_MALFORMED \<Rightarrow> ''malformed argument''
      | FZN_LINK_ERR_FULL \<Rightarrow> ''no room for another link'' | FZN_LINK_ERR_DUPLICATE \<Rightarrow> ''this link is registered already''
      | FZN_LINK_ERR_ABSENT \<Rightarrow> ''no such link'')"

section \<open>The estimate\<close>

text \<open>The average in natural numbers: rounded towards the sample, never wrapped.\<close>

definition average :: "nat \<Rightarrow> nat \<Rightarrow> nat" where
  "average old sample = (if sample > old then (7 * old + sample + 7) div 8 else (7 * old + sample) div 8)"

lemma average_between: "min old sample \<le> average old sample" "average old sample \<le> max old sample"
  by (auto simp: average_def)

lemma average_closer: "old < sample \<Longrightarrow> old < average old sample" "sample < old \<Longrightarrow> average old sample < old" "average x x = x"
  by (auto simp: average_def)

lemma div8_up: "x mod 8 \<noteq> 0 \<Longrightarrow> x div 8 + 1 = (x + 7) div 8" "x mod 8 = 0 \<Longrightarrow> x div 8 = (x + 7) div 8" for x :: nat
proof -
  have "(x + 7) div 8 = (8 * (x div 8) + (x mod 8 + 7)) div 8" by simp
  also have "\<dots> = x div 8 + (x mod 8 + 7) div 8" by (simp only: div_mult_self4)
  finally have up: "(x + 7) div 8 = x div 8 + (x mod 8 + 7) div 8" .
  have "(r + 7) div 8 = 1" if "r \<noteq> 0" "r < 8" for r :: nat using that by (intro div_nat_eqI) simp_all
  then show "x mod 8 \<noteq> 0 \<Longrightarrow> x div 8 + 1 = (x + 7) div 8" "x mod 8 = 0 \<Longrightarrow> x div 8 = (x + 7) div 8" unfolding up by simp_all
qed

lemma unat_smooth: "unat (smooth old sample) = average (unat old) (unat sample)"
proof -
  define tot where "tot = (ucast old * ucast (push_bit 3 1 - 1 :: u32) + ucast sample :: u64)"
  have bounds: "unat old < 2 ^ 32" "unat sample < 2 ^ 32" using unsigned_less [of old] unsigned_less [of sample] by simp_all
  have sm: "smooth old sample = (if sample > old \<and> tot AND (push_bit 3 1 - 1) \<noteq> 0 then ucast (drop_bit 3 tot) + 1 else ucast (drop_bit 3 tot))"
    by (simp only: smooth_def Let_def tot_def)
  have t: "unat tot = 7 * unat old + unat sample"
    using bounds by (simp add: tot_def unat_word_ariths unsigned_ucast_eq take_bit_nat_eq_self take_bit_eq_mod)
  have d: "unat (ucast (drop_bit 3 tot) :: u32) = (7 * unat old + unat sample) div 8"
    using bounds by (simp only: unsigned_ucast_eq unsigned_drop_bit_eq t) (simp add: drop_bit_eq_div take_bit_eq_mod)
  have m: "tot AND (push_bit 3 1 - 1) \<noteq> 0 \<longleftrightarrow> (7 * unat old + unat sample) mod 8 \<noteq> 0"
  proof -
    have "push_bit 3 1 - 1 = (mask 3 :: u64)" by (simp add: mask_eq_exp_minus_1 push_bit_eq_mult)
    then have "unat (tot AND (push_bit 3 1 - 1)) = unat tot mod 8"
      by (simp only: take_bit_eq_mask [symmetric] unsigned_take_bit_eq) (simp add: take_bit_eq_mod)
    then show ?thesis unfolding t by (metis unat_eq_zero)
  qed
  show ?thesis
  proof (cases "sample > old \<and> tot AND (push_bit 3 1 - 1) \<noteq> 0")
    case True
    then have "(7 * unat old + unat sample) div 8 + 1 = (7 * unat old + unat sample + 7) div 8" unfolding m by (intro div8_up) simp
    moreover have "(7 * unat old + unat sample) div 8 + 1 < 2 ^ 32" using bounds True by (simp only: word_less_nat_alt) linarith
    ultimately show ?thesis unfolding sm using True d by (simp add: average_def word_less_nat_alt unat_word_ariths)
  next
    case False
    then have "unat sample > unat old \<Longrightarrow> (7 * unat old + unat sample) div 8 = (7 * unat old + unat sample + 7) div 8"
      unfolding m word_less_nat_alt by (intro div8_up) simp
    then show ?thesis unfolding sm using False d by (auto simp: average_def word_less_nat_alt)
  qed
qed

lemma average_reaches: "n \<ge> max old sample - min old sample \<Longrightarrow> ((\<lambda>x. average x sample) ^^ n) old = sample"
proof (induction n arbitrary: old)
  case 0
  then show ?case by (simp add: max_def min_def split: if_splits)
next
  case (Suc n)
  have "max (average old sample) sample - min (average old sample) sample \<le> n"
    using Suc.prems average_between [of old sample] average_closer(1,2) [where old = old and sample = sample] by (cases old sample rule: linorder_cases) auto
  then show ?case using Suc.IH [of "average old sample"] by (simp add: funpow_Suc_right del: funpow.simps)
qed

text \<open>
  The estimate never leaves the range between the old value and the sample, never stalls short of
  the sample, and after as many equal samples as the distance between them it is the sample: a link
  that loses everything is reported as losing everything.
\<close>

theorem smooth_reaches_sample:
  "min old sample \<le> smooth old sample \<and> smooth old sample \<le> max old sample \<and> (smooth old sample = old \<longleftrightarrow> sample = old) \<and>
   (n \<ge> unat (max old sample) - unat (min old sample) \<longrightarrow> ((\<lambda>x. smooth x sample) ^^ n) old = sample)"
proof -
  have minmax: "unat (min old sample) = min (unat old) (unat sample)" "unat (max old sample) = max (unat old) (unat sample)"
    by (auto simp: min_def max_def word_le_nat_alt)
  have iter: "unat (((\<lambda>x. smooth x sample) ^^ n) old) = ((\<lambda>x. average x (unat sample)) ^^ n) (unat old)" for n
    by (induction n) (simp_all add: unat_smooth)
  have same: "smooth old sample = old \<longleftrightarrow> sample = old"
    using average_closer(1,2) [where old = "unat old" and sample = "unat sample"] average_closer(3) by (cases "unat old" "unat sample" rule: linorder_cases)
      (auto simp: unat_smooth word_unat_eq_iff)
  show ?thesis
    using average_between [of "unat old" "unat sample"] same average_reaches [of "unat old" "unat sample" n]
    by (simp add: word_le_nat_alt unat_smooth minmax word_unat_eq_iff iter)
qed

section \<open>The table\<close>

definition links_of :: "fzn_link_table \<Rightarrow> fzn_link_entry list" where
  "links_of t = take (lt_used t) (the (lt_entries t))"

definition link_wf :: "fzn_link_table \<Rightarrow> bool" where
  "link_wf t \<longleftrightarrow> lt_entries t \<noteq> None \<and> lt_capacity t \<le> length (the (lt_entries t)) \<and> lt_used t \<le> lt_capacity t \<and>
     distinct (map le_id (links_of t)) \<and> (\<forall>e \<in> set (links_of t). le_loss_permille e \<le> 1000)"

lemma find_link_row:
  assumes "link_wf t"
  shows "case find_link t lid of None \<Rightarrow> lid \<notin> le_id ` set (links_of t)
    | Some i \<Rightarrow> i < lt_used t \<and> i < length (links_of t) \<and> le_id (links_of t ! i) = lid"
proof -
  have "case fold (\<lambda>i hit. if le_id (es ! i) = lid then Some i else hit) [0..<n] None of
      None \<Rightarrow> \<forall>j < n. le_id (es ! j) \<noteq> lid | Some i \<Rightarrow> i < n \<and> le_id (es ! i) = lid" for es n
    by (induction n) (auto simp: less_Suc_eq split: option.splits)
  from this [of "lt_used t" "the (lt_entries t)"] show ?thesis
    using assms by (fastforce simp: find_link_def link_wf_def links_of_def in_set_conv_nth split: option.splits)
qed

lemma find_link_unique:
  assumes "link_wf t" and "i < length (links_of t)" and "le_id (links_of t ! i) = lid"
  shows "find_link t lid = Some i"
proof -
  have "distinct (map le_id (links_of t))" using assms(1) by (simp add: link_wf_def)
  then have "j = i" if "j < length (links_of t)" "le_id (links_of t ! j) = lid" for j
    using nth_eq_iff_index_eq [of "map le_id (links_of t)" j i] that assms(2,3) by simp
  moreover have "lid \<in> le_id ` set (links_of t)" using assms(2,3) nth_mem by blast
  ultimately show ?thesis using find_link_row [OF assms(1), of lid] by (cases "find_link t lid") simp_all
qed

text \<open>Changing a registered link without its name.\<close>

lemma on_link_cases:
  assumes "link_wf t"
  obtains (absent) "lid \<notin> le_id ` set (links_of t)" "on_link (Some t) lid f = (FZN_LINK_ERR_ABSENT, Some t)"
    | (present) i t' where "i < length (links_of t)" "le_id (links_of t ! i) = lid" "on_link (Some t) lid f = (FZN_LINK_OK, Some t')"
        "links_of t' = (links_of t)[i := f (links_of t ! i)]" "lt_used t' = lt_used t" "lt_capacity t' = lt_capacity t"
        "lt_entries t' \<noteq> None" "length (the (lt_entries t')) = length (the (lt_entries t))"
proof (cases "find_link t lid")
  case None
  then show thesis using absent find_link_row [OF assms, of lid] assms by (simp add: on_link_def usable_table_def link_wf_def)
next
  case (Some i)
  then have i: "i < lt_used t" "i < length (links_of t)" "le_id (links_of t ! i) = lid" using find_link_row [OF assms, of lid] by simp_all
  let ?t = "t\<lparr>lt_entries := map_option (\<lambda>es. es[i := f (es ! i)]) (lt_entries t)\<rparr>"
  show thesis using Some i assms
    by (intro present [OF i(2,3), of ?t]) (auto simp: on_link_def usable_table_def link_wf_def links_of_def take_update_swap)
qed

lemma on_link_ids:
  assumes "link_wf t" and "\<And>e. le_id (f e) = le_id e"
  shows "map le_id (links_of (the (snd (on_link (Some t) lid f)))) = map le_id (links_of t)"
  using assms(1)
proof (cases rule: on_link_cases [of t lid f])
  case (present i t')
  then show ?thesis using assms(2) by (simp add: map_update) (metis list_update_id nth_map)
qed simp

lemma on_link_wf:
  assumes "link_wf t" and "\<And>e. le_id (f e) = le_id e" and "\<And>e. le_loss_permille e \<le> 1000 \<Longrightarrow> le_loss_permille (f e) \<le> 1000"
  shows "link_wf (the (snd (on_link (Some t) lid f)))"
  using assms(1)
proof (cases rule: on_link_cases [of t lid f])
  case absent
  then show ?thesis using assms(1) by simp
next
  case (present i t')
  have "\<forall>e \<in> set ((links_of t)[i := f (links_of t ! i)]). le_loss_permille e \<le> 1000"
    using assms present(1) set_update_subset_insert [of "links_of t" i] by (fastforce simp: link_wf_def)
  then show ?thesis using present on_link_ids [OF assms(1,2), of lid] assms(1) by (simp add: link_wf_def)
qed

lemma loss_bounded:
  fixes l :: u16
  assumes "l \<le> 1000" and "s \<le> 1000"
  shows "(ucast (smooth (ucast l) s) :: u16) \<le> 1000" and "unat (ucast (smooth (ucast l) s) :: u16) = average (unat l) (unat s)"
proof -
  have "unat l < 2 ^ 16" using unsigned_less [of l] by simp
  then have up: "unat (ucast l :: u32) = unat l" by (simp add: unsigned_ucast_eq take_bit_nat_eq_self)
  have l: "unat l \<le> 1000" "unat s \<le> 1000" using assms by (simp_all add: word_le_nat_alt)
  then have "average (unat l) (unat s) \<le> 1000" using average_between(2) [of "unat l" "unat s"] by simp
  moreover from this show "unat (ucast (smooth (ucast l) s) :: u16) = average (unat l) (unat s)"
    by (simp only: unsigned_ucast_eq unat_smooth up [unfolded unsigned_ucast_eq]) (simp add: take_bit_nat_eq_self)
  ultimately show "(ucast (smooth (ucast l) s) :: u16) \<le> 1000" by (simp add: word_le_nat_alt)
qed

lemma register_wf:
  assumes "link_wf t"
  shows "link_wf (the (snd (fzn_link_register (Some t) lid metric latency loss mtu)))"
proof (cases "fst (fzn_link_register (Some t) lid metric latency loss mtu) = FZN_LINK_OK")
  case False
  then show ?thesis using assms by (auto simp: fzn_link_register_def Let_def split: if_splits)
next
  case True
  then have "find_link t lid = None" "loss \<le> 1000" "lt_used t < lt_capacity t"
    by (auto simp: fzn_link_register_def Let_def split: if_splits)
  then show ?thesis using assms find_link_row [OF assms, of lid]
    by (auto simp: fzn_link_register_def usable_table_def link_wf_def links_of_def take_append_cell Let_def)
qed

text \<open>Everything that can happen to a table.\<close>

datatype link_event = Register u32 u32 u32 u16 u32 | Acked u32 u32 u64 | Lost u32 u64 | Set_usable u32 bool

fun link_step :: "fzn_link_table \<Rightarrow> link_event \<Rightarrow> fzn_link_err \<times> fzn_link_table" where
  "link_step t (Register lid metric latency loss mtu) = apsnd the (fzn_link_register (Some t) lid metric latency loss mtu)"
| "link_step t (Acked lid rtt now) = apsnd the (fzn_link_observe_ack (Some t) lid rtt now)"
| "link_step t (Lost lid now) = apsnd the (fzn_link_observe_loss (Some t) lid now)"
| "link_step t (Set_usable lid u) = apsnd the (fzn_link_set_usable (Some t) lid u)"

lemma link_step_wf: "link_wf t \<Longrightarrow> link_wf (snd (link_step t ev))"
  by (cases ev) (auto simp: register_wf fzn_link_observe_ack_def fzn_link_observe_loss_def fzn_link_set_usable_def loss_bounded intro!: on_link_wf)

interpretation links: invariant_machine link_step link_wf
  by unfold_locales (rule link_step_wf)

lemma link_init_wf:
  assumes "fzn_link_table_init table entries capacity = (FZN_LINK_OK, Some t)"
  shows "link_wf t"
  using assms by (auto simp: fzn_link_table_init_def link_wf_def links_of_def split: option.splits if_splits)

text \<open>
  C22. Whatever is registered, measured and switched on an initialised table, in any order: the table
  never overruns its storage, no two links share a name, and no loss rate exceeds 1000 permille.
\<close>

theorem link_table_invariant:
  assumes "fzn_link_table_init table entries capacity = (FZN_LINK_OK, Some t0)"
  shows "let t = final link_step t0 evs in lt_used t \<le> lt_capacity t \<and> lt_capacity t \<le> length (the (lt_entries t)) \<and>
    distinct (map le_id (links_of t)) \<and> (\<forall>e \<in> set (links_of t). le_loss_permille e \<le> 1000)"
  using links.run_invar [OF link_init_wf [OF assms], of evs] by (simp add: link_wf_def Let_def)

theorem link_table_invariant_witness:
  "let t0 = \<lparr>lt_entries = Some [zero_link], lt_capacity = 1, lt_used = 0\<rparr>;
       t = final link_step t0 [Register 4 1 2 3 5, Lost 4 9] in lt_used t \<le> lt_capacity t \<and> (\<forall>e \<in> set (links_of t). le_loss_permille e \<le> 1000)"
  using link_table_invariant [of "Some undefined" "Some [zero_link]" 1 "\<lparr>lt_entries = Some [zero_link], lt_capacity = 1, lt_used = 0\<rparr>"
      "[Register 4 1 2 3 5, Lost 4 9]"]
  by (simp add: fzn_link_table_init_def Let_def)

section \<open>The snapshot\<close>

lemma snapshot_loop:
  assumes "cap \<le> length cells"
  shows "\<exists>cs. fold (snapshot_step es cap) [0..<n] (cells, 0, 0) = (cs, min n cap, n - min n cap) \<and> length cs = length cells \<and>
    take (min n cap) cs = map (\<lambda>i. candidate_of (es ! i)) [0..<min n cap]"
proof (induction n)
  case (Suc n)
  then obtain cs where "fold (snapshot_step es cap) [0..<n] (cells, 0, 0) = (cs, min n cap, n - min n cap)" "length cs = length cells"
    "take (min n cap) cs = map (\<lambda>i. candidate_of (es ! i)) [0..<min n cap]" by blast
  note ih = this
  then have loop: "fold (snapshot_step es cap) [0..<Suc n] (cells, 0, 0) = snapshot_step es cap n (cs, min n cap, n - min n cap)" by simp
  show ?case
  proof (cases "n < cap")
    case True
    then show ?thesis unfolding loop using ih assms by (simp add: snapshot_step_def min_absorb1 take_append_cell)
  next
    case False
    then show ?thesis unfolding loop using ih by (simp add: snapshot_step_def min_absorb2 Suc_diff_le)
  qed
qed simp

lemma snapshot_table:
  assumes "link_wf t" and "cap \<le> length cells" and "lt_used t \<le> cap"
  shows "\<exists>cs. fzn_link_snapshot (Some t) (Some cells) cap = (lt_used t, Some cs, 0) \<and> take (lt_used t) cs = map candidate_of (links_of t)"
proof -
  obtain cs where cs: "fold (snapshot_step (the (lt_entries t)) cap) [0..<lt_used t] (cells, 0, 0) = (cs, lt_used t, 0)"
    "take (lt_used t) cs = map (\<lambda>i. candidate_of (the (lt_entries t) ! i)) [0..<lt_used t]"
    using snapshot_loop [OF assms(2), of "the (lt_entries t)" "lt_used t"] assms(3) by (auto simp: min_absorb1)
  moreover have "map (\<lambda>i. candidate_of (the (lt_entries t) ! i)) [0..<lt_used t] = map candidate_of (links_of t)"
    using assms(1) by (intro nth_equalityI) (auto simp: link_wf_def links_of_def)
  ultimately show ?thesis using assms(1) by (simp add: fzn_link_snapshot_def usable_table_def link_wf_def)
qed

text \<open>
  With room for every link, choosing over a snapshot is choosing over the table: the snapshot
  drops nothing, a choice is a registered link that the class admits, and none is reported exactly when
  no registered link qualifies.
\<close>

theorem snapshot_selection:
  assumes "link_wf t" and "links_of t \<noteq> []" and "cap \<le> length cells" and "lt_used t \<le> cap"
  shows "\<exists>cs. fzn_link_snapshot (Some t) (Some cells) cap = (lt_used t, Some cs, 0) \<and>
    (case fzn_sched_select (Some (take (lt_used t) cs)) (Some w) of
       (FZN_SCHED_OK, Some i) \<Rightarrow> i < length (links_of t) \<and> le_usable (links_of t ! i) \<and>
          fzn_sched_admits (Some (candidate_of (links_of t ! i))) (Some w) \<and>
          fzn_link_get (Some t) (sc_id (cs ! i)) = Some (links_of t ! i)
     | (FZN_SCHED_ERR_NONE, None) \<Rightarrow> \<forall>e \<in> set (links_of t). \<not> fzn_sched_admits (Some (candidate_of e)) (Some w)
     | _ \<Rightarrow> False)"
proof -
  obtain cs where snap: "fzn_link_snapshot (Some t) (Some cells) cap = (lt_used t, Some cs, 0)"
    and cs: "take (lt_used t) cs = map candidate_of (links_of t)" using snapshot_table [OF assms(1,3,4)] by blast
  have len: "length (links_of t) = lt_used t" using assms(1) by (simp add: links_of_def link_wf_def)
  have row: "fzn_link_get (Some t) (sc_id (cs ! i)) = Some (links_of t ! i)" if "i < length (links_of t)" for i
  proof -
    have "cs ! i = candidate_of (links_of t ! i)" using arg_cong [OF cs, of "\<lambda>l. l ! i"] that len by simp
    then show ?thesis using find_link_unique [OF assms(1) that refl] assms(1) that len
      by (simp add: fzn_link_get_def usable_table_def link_wf_def candidate_of_def links_of_def)
  qed
  have adm: "fzn_sched_admits (Some (candidate_of e)) (Some w) \<Longrightarrow> le_usable e" for e
    by (auto simp: fzn_sched_admits_def fzn_sched_excluded_by_def candidate_of_def split: if_splits)
  from select_cases [of "map candidate_of (links_of t)" w] assms(2)
  have "case fzn_sched_select (Some (map candidate_of (links_of t))) (Some w) of
       (FZN_SCHED_OK, Some i) \<Rightarrow> i < length (links_of t) \<and> fzn_sched_admits (Some (candidate_of (links_of t ! i))) (Some w)
     | (FZN_SCHED_ERR_NONE, None) \<Rightarrow> \<forall>e \<in> set (links_of t). \<not> fzn_sched_admits (Some (candidate_of e)) (Some w)
     | _ \<Rightarrow> False"
    by (auto simp: first_cheapest_def split: prod.splits option.splits fzn_sched_err.splits)
  then show ?thesis using snap row adm by (intro exI [of _ cs]) (auto simp: cs split: prod.splits option.splits fzn_sched_err.splits)
qed

definition demo_table :: fzn_link_table where
  "demo_table = \<lparr>lt_entries = Some [zero_link\<lparr>le_id := 7, le_mtu := 1400, le_usable := True\<rparr>, zero_link], lt_capacity = 2, lt_used = 1\<rparr>"

lemma demo_links_wf: "link_wf demo_table" "links_of demo_table = [zero_link\<lparr>le_id := 7, le_mtu := 1400, le_usable := True\<rparr>]" "lt_used demo_table = 1"
  by (simp_all add: demo_table_def link_wf_def links_of_def zero_link_def)

theorem snapshot_selection_witness:
  "\<exists>cs. fzn_link_snapshot (Some demo_table) (Some [candidate_of zero_link]) 1 = (1, Some cs, 0)"
  using snapshot_selection [OF demo_links_wf(1), of 1 "[candidate_of zero_link]"] by (auto simp: demo_links_wf)

text \<open>Losses in a row.\<close>

lemma lost_step:
  assumes "link_wf t" and "e \<in> set (links_of (snd (link_step t (Lost lid now))))" and "le_id e = lid"
  shows "\<exists>e0 \<in> set (links_of t). le_id e0 = lid \<and> unat (le_loss_permille e) = average (unat (le_loss_permille e0)) 1000"
proof -
  let ?f = "\<lambda>e. e\<lparr>le_loss_permille := ucast (smooth (ucast (le_loss_permille e)) 1000), le_observations := le_observations e + 1, le_last_seen := now\<rparr>"
  show ?thesis using assms(1)
  proof (cases rule: on_link_cases [of t lid ?f])
    case absent
    then show ?thesis using assms(2,3) by (auto simp: fzn_link_observe_loss_def)
  next
    case (present i t')
    have links: "links_of (snd (link_step t (Lost lid now))) = (links_of t)[i := ?f (links_of t ! i)]"
      using present by (simp add: fzn_link_observe_loss_def)
    obtain j where j: "j < length (links_of t)" "e = (links_of t)[i := ?f (links_of t ! i)] ! j"
      using assms(2) unfolding links by (metis in_set_conv_nth length_list_update)
    have "le_id (links_of t ! j) = lid" using j assms(3) present(2) by (cases "j = i") auto
    then have "j = i" using find_link_unique [OF assms(1) j(1)] find_link_unique [OF assms(1) present(1,2)] by simp
    then have e: "e = ?f (links_of t ! i)" using j by simp
    have "le_loss_permille (links_of t ! i) \<le> 1000" using assms(1) present(1) by (simp add: link_wf_def)
    then have "unat (le_loss_permille e) = average (unat (le_loss_permille (links_of t ! i))) 1000"
      using loss_bounded(2) [of "le_loss_permille (links_of t ! i)" 1000] by (simp add: e)
    then show ?thesis using present(1,2) by force
  qed
qed

lemma lost_run:
  assumes "link_wf t" and "e \<in> set (links_of (final link_step t (map (Lost lid) nows)))" and "le_id e = lid"
  shows "\<exists>e0 \<in> set (links_of t). le_id e0 = lid \<and>
    unat (le_loss_permille e) = ((\<lambda>x. average x 1000) ^^ length nows) (unat (le_loss_permille e0))"
  using assms
proof (induction nows arbitrary: t)
  case (Cons now nows)
  let ?t = "snd (link_step t (Lost lid now))"
  obtain e1 where e1: "e1 \<in> set (links_of ?t)" "le_id e1 = lid"
    "unat (le_loss_permille e) = ((\<lambda>x. average x 1000) ^^ length nows) (unat (le_loss_permille e1))"
    using Cons.IH [OF link_step_wf [OF Cons.prems(1)], of "Lost lid now"] Cons.prems(2,3) by (auto simp: split_beta)
  obtain e0 where "e0 \<in> set (links_of t)" "le_id e0 = lid" "unat (le_loss_permille e1) = average (unat (le_loss_permille e0)) 1000"
    using lost_step [OF Cons.prems(1) e1(1,2)] by blast
  then show ?case using e1(3) by (auto simp: funpow_Suc_right simp del: funpow.simps)
qed auto

text \<open>
  A dead link stops being chosen: once a thousand messages in a row were lost on it, whatever its
  earlier estimate, no class that bounds the loss below 1000 permille admits it.
\<close>

theorem dead_link_excluded:
  assumes "link_wf t" and "1000 \<le> length nows" and "e \<in> set (links_of (final link_step t (map (Lost lid) nows)))" and "le_id e = lid"
    and "cl_max_loss_permille w \<noteq> 0" and "cl_max_loss_permille w < 1000"
  shows "\<not> fzn_sched_admits (Some (candidate_of e)) (Some w)"
proof -
  obtain e0 where e0: "e0 \<in> set (links_of t)" "unat (le_loss_permille e) = ((\<lambda>x. average x 1000) ^^ length nows) (unat (le_loss_permille e0))"
    using lost_run [OF assms(1,3,4)] by blast
  have "unat (le_loss_permille e0) \<le> 1000" using assms(1) e0(1) by (auto simp: link_wf_def word_le_nat_alt)
  then have "unat (le_loss_permille e) = 1000" using e0(2) average_reaches [of "unat (le_loss_permille e0)" 1000 "length nows"] assms(2) by simp
  then have "cl_max_loss_permille w < le_loss_permille e" using assms(6) by (simp add: word_less_nat_alt)
  then show ?thesis using assms(5) by (auto simp: fzn_sched_admits_def fzn_sched_excluded_by_def candidate_of_def)
qed

lemma lost_ids: "link_wf t \<Longrightarrow> map le_id (links_of (final link_step t (map (Lost lid) nows))) = map le_id (links_of t)"
proof (induction nows arbitrary: t)
  case (Cons now nows)
  have "map le_id (links_of (snd (link_step t (Lost lid now)))) = map le_id (links_of t)"
    using on_link_ids [OF Cons.prems] by (simp add: fzn_link_observe_loss_def)
  then show ?case using Cons.IH [OF link_step_wf [OF Cons.prems], of "Lost lid now"] by (simp add: split_beta)
qed simp

theorem dead_link_excluded_witness:
  "let t = final link_step demo_table (map (Lost 7) (replicate 1000 0));
       w = \<lparr>cl_max_latency_ms = 0, cl_max_loss_permille = 990, cl_min_mtu = 0, cl_weight_metric = 1, cl_weight_latency = 1, cl_weight_loss = 1\<rparr>
   in \<not> fzn_sched_admits (Some (candidate_of (hd (links_of t)))) (Some w)"
proof -
  let ?t = "final link_step demo_table (map (Lost 7) (replicate 1000 0))"
  have "map le_id (links_of ?t) = [7]" using lost_ids [OF demo_links_wf(1)] by (simp add: demo_links_wf del: map_replicate)
  then have "hd (links_of ?t) \<in> set (links_of ?t)" "le_id (hd (links_of ?t)) = 7" by (auto simp: map_eq_Cons_conv)
  from dead_link_excluded [OF demo_links_wf(1) _ this] show ?thesis by (simp add: Let_def del: map_replicate)
qed

end
