(* ===== verification/Succession.thy ===== *)
theory Succession
  imports Revocation_Admit Seal
begin

text \<open>
  Successions (\<open>chain/succession.c\<close>): signed statements that one key is succeeded by another, the set a
  host keeps of them, and reading a key through the successions that count. Also the names of
  capabilities and streams (\<open>chain/service.c\<close>). Who may issue a succession and when it counts is judged
  by the revocation store, whose models are used here.
\<close>

unbundle bit_operations_syntax

section \<open>Records\<close>

abbreviation FZN_SUCCESSION_BODY_LEN :: nat where "FZN_SUCCESSION_BODY_LEN \<equiv> 130"
abbreviation FZN_SUCCESSION_LEN :: nat where "FZN_SUCCESSION_LEN \<equiv> 194"
abbreviation FZN_SUCCESSION_ID_LEN :: nat where "FZN_SUCCESSION_ID_LEN \<equiv> 32"
abbreviation FZN_SUCCESSION_DEPTH_MAX :: nat where "FZN_SUCCESSION_DEPTH_MAX \<equiv> 16"
abbreviation FZN_OBJECT_SUCCESSION :: u8 where "FZN_OBJECT_SUCCESSION \<equiv> 146"

definition fzn_succession_open :: "bytes option \<Rightarrow> fzn_chain_err \<times> bytes option" where
  "fzn_succession_open bytes =
     (case bytes of None \<Rightarrow> (FZN_CHAIN_ERR_MALFORMED, None)
      | Some b \<Rightarrow>
        if length b \<noteq> FZN_SUCCESSION_LEN \<or> b ! 0 \<noteq> FZN_SIGNED_VERSION \<or> b ! 1 \<noteq> FZN_OBJECT_SUCCESSION
        then (FZN_CHAIN_ERR_SHAPE, None)
        else if bytes_at 34 FZN_PUBKEY_LEN b = bytes_at 66 FZN_PUBKEY_LEN b then (FZN_CHAIN_ERR_SHAPE, None)
        else (FZN_CHAIN_OK, Some b))"

definition fzn_succession_issuer :: "bytes \<Rightarrow> key" where
  "fzn_succession_issuer r = bytes_at 2 FZN_PUBKEY_LEN r"

definition fzn_succession_old :: "bytes \<Rightarrow> key" where
  "fzn_succession_old r = bytes_at 34 FZN_PUBKEY_LEN r"

definition fzn_succession_new :: "bytes \<Rightarrow> key" where
  "fzn_succession_new r = bytes_at 66 FZN_PUBKEY_LEN r"

definition fzn_succession_cut :: "bytes \<Rightarrow> bytes" where
  "fzn_succession_cut r = bytes_at 98 FZN_SUCCESSION_ID_LEN r"

text \<open>\<open>out\<close> is the caller's buffer of 194 bytes; a signer that refuses leaves it zeroed.\<close>

definition fzn_succession_issue :: "key option \<Rightarrow> key option \<Rightarrow> key option \<Rightarrow> bytes option \<Rightarrow> fzn_sign_ops option \<Rightarrow>
    fzn_chain_err \<times> bytes option" where
  "fzn_succession_issue issuer old new_key cutp sign =
     (case (issuer, old, new_key, sign) of
        (Some iss, Some ol, Some nw, Some sg) \<Rightarrow>
          (case so_sign sg of None \<Rightarrow> (FZN_CHAIN_ERR_MALFORMED, None)
           | Some do_sign \<Rightarrow>
             if ol = nw then (FZN_CHAIN_ERR_MALFORMED, None)
             else let body = [FZN_SIGNED_VERSION, FZN_OBJECT_SUCCESSION] @ iss @ ol @ nw @
                        (case cutp of Some c \<Rightarrow> c | None \<Rightarrow> replicate FZN_SUCCESSION_ID_LEN 0)
                  in (case do_sign body of None \<Rightarrow> (FZN_CHAIN_ERR_CHAIN_INVALID, Some (replicate FZN_SUCCESSION_LEN 0))
                      | Some sig \<Rightarrow> (FZN_CHAIN_OK, Some (body @ sig))))
      | _ \<Rightarrow> (FZN_CHAIN_ERR_MALFORMED, None))"

section \<open>The set\<close>

record fzn_succession =
  su_issuer :: key
  su_old :: key
  su_new_key :: key
  su_cut :: bytes
  su_id :: bytes

record fzn_succession_set =
  ss_entries :: "fzn_succession list option"
  ss_capacity :: nat
  ss_used :: nat
  ss_hash :: "fzn_hash_ops option"

definition fzn_succession_set_init :: "fzn_succession_set option \<Rightarrow> fzn_succession list option \<Rightarrow> nat \<Rightarrow> fzn_hash_ops option \<Rightarrow>
    fzn_chain_err \<times> fzn_succession_set option" where
  "fzn_succession_set_init st entries capacity hash =
     (if st = None \<or> entries = None \<or> capacity = 0 \<or> hash = None then (FZN_CHAIN_ERR_MALFORMED, st)
      else (FZN_CHAIN_OK, Some \<lparr>ss_entries = entries, ss_capacity = capacity, ss_used = 0, ss_hash = hash\<rparr>))"

definition succession_sound :: "fzn_succession_set option \<Rightarrow> bool" where
  "succession_sound st = (case st of None \<Rightarrow> False
     | Some s \<Rightarrow> ss_entries s \<noteq> None \<and> ss_hash s \<noteq> None \<and> ss_used s \<le> ss_capacity s)"

text \<open>Moving the set to other storage: the live rows go to its front.\<close>

definition fzn_succession_set_use :: "fzn_succession_set option \<Rightarrow> fzn_succession list option \<Rightarrow> nat \<Rightarrow>
    fzn_chain_err \<times> fzn_succession_set option" where
  "fzn_succession_set_use st entries capacity =
     (if \<not> succession_sound st \<or> entries = None \<or> capacity = 0 \<or> capacity < ss_used (the st) then (FZN_CHAIN_ERR_MALFORMED, st)
      else let s = the st in
        (FZN_CHAIN_OK, Some (s\<lparr>ss_entries := Some (put_at 0 (take (ss_used s) (the (ss_entries s))) (the entries)), ss_capacity := capacity\<rparr>)))"

definition successions_of :: "fzn_succession_set \<Rightarrow> fzn_succession list" where
  "successions_of s = take (ss_used s) (the (ss_entries s))"

definition succession_row :: "bytes \<Rightarrow> bytes \<Rightarrow> fzn_succession" where
  "succession_row rec rid = \<lparr>su_issuer = fzn_succession_issuer rec, su_old = fzn_succession_old rec,
     su_new_key = fzn_succession_new rec, su_cut = fzn_succession_cut rec, su_id = rid\<rparr>"

definition keep_succession :: "fzn_succession_set \<Rightarrow> bytes \<Rightarrow> fzn_chain_err \<times> fzn_succession_set" where
  "keep_succession s rec =
     (case the (ss_hash s) rec of None \<Rightarrow> (FZN_CHAIN_ERR_MALFORMED, s)
      | Some rid \<Rightarrow>
        if list_ex (\<lambda>e. su_id e = rid) (successions_of s) then (FZN_CHAIN_OK, s)
        else if ss_used s \<ge> ss_capacity s then (FZN_CHAIN_ERR_STORE_FULL, s)
        else (FZN_CHAIN_OK, s\<lparr>ss_entries := map_option (\<lambda>es. es[ss_used s := succession_row rec rid]) (ss_entries s),
                              ss_used := ss_used s + 1\<rparr>))"

definition fzn_succession_admit :: "fzn_succession_set option \<Rightarrow> fzn_revocation_store option \<Rightarrow> bytes option \<Rightarrow> fzn_chain_hop list option \<Rightarrow>
    nat \<Rightarrow> key option \<Rightarrow> fzn_sign_ops option \<Rightarrow> fzn_chain_err \<times> fzn_succession_set option \<times> fzn_revocation_store option" where
  "fzn_succession_admit st revocations bytes hops hop_count root sign =
     (if \<not> succession_sound st \<or> revocations = None \<or> bytes = None \<or> root = None \<or> sign = None \<or> so_verify (the sign) = None \<or>
         hop_count > 0 \<and> hops = None then (FZN_CHAIN_ERR_MALFORMED, st, revocations)
      else let (err, opened) = fzn_succession_open bytes in
        if err \<noteq> FZN_CHAIN_OK then (err, st, revocations)
        else let rec = the opened; issuer = fzn_succession_issuer rec in
          if hop_count = 0 \<and> issuer \<noteq> the root \<and> \<not> root_member (the revocations) issuer then (FZN_CHAIN_ERR_WRONG_ROOT, st, revocations)
          else if \<not> the (so_verify (the sign)) issuer (bytes_at 0 FZN_SUCCESSION_BODY_LEN rec) (bytes_at 130 FZN_SIG_LEN rec)
          then (FZN_CHAIN_ERR_CHAIN_INVALID, st, revocations)
          else let (err, revs) = (if hop_count > 0
                     then fzn_revocation_admin_admit (the revocations) (Some issuer) (map_option (take hop_count) hops) root (the sign)
                     else (FZN_CHAIN_OK, the revocations)) in
            if err \<noteq> FZN_CHAIN_OK then (err, st, Some revs)
            else let (err, s) = keep_succession (the st) rec in (err, Some s, Some revs))"

definition fzn_succession_counts :: "fzn_succession_set option \<Rightarrow> nat \<Rightarrow> fzn_revocation_store option \<Rightarrow> key option \<Rightarrow> bool" where
  "fzn_succession_counts st i revocations root =
     (if \<not> succession_sound st \<or> i \<ge> ss_used (the st) \<or> revocations = None \<or> root = None then False
      else let e = the (ss_entries (the st)) ! i in
        fzn_revocation_confirmed revocations (Some (su_issuer e)) (Some (su_id e)) root)"

text \<open>One round of reading through: \<open>None\<close> for a fork, otherwise the successor, if there is one.\<close>

fun next_loop :: "fzn_succession_set \<Rightarrow> fzn_revocation_store option \<Rightarrow> key option \<Rightarrow> key \<Rightarrow> nat list \<Rightarrow> key option \<Rightarrow> key option option" where
  "next_loop s revocations root here [] nx = Some nx"
| "next_loop s revocations root here (i # rest) nx =
     (let e = the (ss_entries s) ! i in
      if su_old e \<noteq> here \<or> \<not> fzn_succession_counts (Some s) i revocations root then next_loop s revocations root here rest nx
      else if nx \<noteq> None \<and> the nx \<noteq> su_new_key e then None
      else next_loop s revocations root here rest (Some (su_new_key e)))"

fun resolve_loop :: "nat \<Rightarrow> fzn_succession_set \<Rightarrow> fzn_revocation_store option \<Rightarrow> key option \<Rightarrow> key \<Rightarrow> key option" where
  "resolve_loop 0 s revocations root here = None"
| "resolve_loop (Suc n) s revocations root here =
     (case next_loop s revocations root here [0..<ss_used s] None of
        None \<Rightarrow> None
      | Some None \<Rightarrow> Some here
      | Some (Some nx) \<Rightarrow> resolve_loop n s revocations root nx)"

definition fzn_succession_resolve :: "fzn_succession_set option \<Rightarrow> fzn_revocation_store option \<Rightarrow> key option \<Rightarrow> key option \<Rightarrow> key option" where
  "fzn_succession_resolve st revocations root k =
     (if \<not> succession_sound st \<or> revocations = None \<or> root = None \<or> k = None then None
      else resolve_loop (FZN_SUCCESSION_DEPTH_MAX + 1) (the st) revocations root (the k))"

section \<open>Names of capabilities and streams\<close>

abbreviation FZN_PRODUCT_ANY :: u32 where "FZN_PRODUCT_ANY \<equiv> 0xffff"
abbreviation FZN_PRODUCT_MAX :: u32 where "FZN_PRODUCT_MAX \<equiv> 0xfffe"
abbreviation FZN_SERVICE_NAME_MAX :: nat where "FZN_SERVICE_NAME_MAX \<equiv> 64"
abbreviation FZN_STREAM_PRODUCT_SHIFT :: nat where "FZN_STREAM_PRODUCT_SHIFT \<equiv> 16"
abbreviation FZN_STREAM_INDEX_MAX :: u32 where "FZN_STREAM_INDEX_MAX \<equiv> 0xffff"

definition FZN_SERVICE_LABEL :: bytes where
  "FZN_SERVICE_LABEL = ascii ''fuzznet-cap-v1'' @ [0, 0]"

text \<open>\<open>name\<close> is the array the pair \<open>name\<close>, \<open>name_len\<close> points at; \<open>None\<close> with a length of zero is no name.\<close>

definition service_input :: "u32 \<Rightarrow> u32 \<Rightarrow> bytes \<Rightarrow> bytes" where
  "service_input service product name = FZN_SERVICE_LABEL @ fzn_put_be32 service @ fzn_put_be32 product @ name"

definition fzn_service_capability :: "u32 \<Rightarrow> u32 \<Rightarrow> bytes option \<Rightarrow> nat \<Rightarrow> fzn_hash_fn option \<Rightarrow> fzn_chain_err \<times> cap_id option" where
  "fzn_service_capability service product name name_len hash =
     (if hash = None then (FZN_CHAIN_ERR_MALFORMED, None)
      else if service = 0 \<or> product = 0 then (FZN_CHAIN_ERR_MALFORMED, None)
      else if product > FZN_PRODUCT_MAX \<and> product \<noteq> FZN_PRODUCT_ANY then (FZN_CHAIN_ERR_MALFORMED, None)
      else if name_len > FZN_SERVICE_NAME_MAX then (FZN_CHAIN_ERR_MALFORMED, None)
      else if name_len > 0 \<and> name = None then (FZN_CHAIN_ERR_MALFORMED, None)
      else (case the hash FZN_CAP_ID_LEN (service_input service product (if name_len > 0 then take name_len (the name) else [])) of
          None \<Rightarrow> (FZN_CHAIN_ERR_MALFORMED, None)
        | Some derived \<Rightarrow> (FZN_CHAIN_OK, Some derived)))"

text \<open>The scoped capability is written before the other is derived, so an error of the second leaves it.\<close>

definition fzn_service_capability_pair :: "u32 \<Rightarrow> u32 \<Rightarrow> bytes option \<Rightarrow> nat \<Rightarrow> fzn_hash_fn option \<Rightarrow>
    fzn_chain_err \<times> cap_id option \<times> cap_id option" where
  "fzn_service_capability_pair service product name name_len hash =
     (if product = FZN_PRODUCT_ANY then (FZN_CHAIN_ERR_MALFORMED, None, None)
      else let (err, scoped) = fzn_service_capability service product name name_len hash in
        if err \<noteq> FZN_CHAIN_OK then (err, scoped, None)
        else let (err, any) = fzn_service_capability service FZN_PRODUCT_ANY name name_len hash in (err, scoped, any))"

definition fzn_service_stream :: "u32 \<Rightarrow> u32 \<Rightarrow> fzn_chain_err \<times> u32 option" where
  "fzn_service_stream product index =
     (if product = 0 \<or> product > FZN_PRODUCT_MAX then (FZN_CHAIN_ERR_MALFORMED, None)
      else if index > FZN_STREAM_INDEX_MAX then (FZN_CHAIN_ERR_MALFORMED, None)
      else (FZN_CHAIN_OK, Some (push_bit FZN_STREAM_PRODUCT_SHIFT product OR index)))"

definition fzn_service_stream_product :: "u32 \<Rightarrow> u32" where
  "fzn_service_stream_product stream = drop_bit FZN_STREAM_PRODUCT_SHIFT stream"

section \<open>Reading through\<close>

text \<open>The successors of a key: the new keys of the rows that name it and count.\<close>

definition successors :: "fzn_succession_set \<Rightarrow> fzn_revocation_store \<Rightarrow> key \<Rightarrow> key \<Rightarrow> key set" where
  "successors s revs root k = su_new_key ` {e \<in> set (successions_of s). su_old e = k \<and>
     fzn_revocation_confirmed (Some revs) (Some (su_issuer e)) (Some (su_id e)) (Some root)}"

definition set_wf :: "fzn_succession_set \<Rightarrow> bool" where
  "set_wf s \<longleftrightarrow> succession_sound (Some s) \<and> ss_capacity s \<le> length (the (ss_entries s)) \<and> distinct (map su_id (successions_of s))"

lemma next_loop_succ:
  fixes s revs root here
  defines "counted \<equiv> \<lambda>i. su_old (the (ss_entries s) ! i) = here \<and> fzn_succession_counts (Some s) i revs root"
  shows "next_loop s revs root here idx nx =
    (let N = set_option nx \<union> (\<lambda>i. su_new_key (the (ss_entries s) ! i)) ` {i \<in> set idx. counted i} in
     if N = {} then Some None else if \<exists>x. N = {x} then Some (Some (the_elem N)) else None)"
proof (induction idx arbitrary: nx)
  case Nil
  then show ?case by (cases nx) simp_all
next
  case (Cons i idx)
  let ?new = "\<lambda>i. su_new_key (the (ss_entries s) ! i)"
  show ?case
  proof (cases "counted i")
    case False
    then have "{j \<in> set (i # idx). counted j} = {j \<in> set idx. counted j}" by auto
    then show ?thesis using False Cons.IH [of nx] by (simp add: counted_def Let_def)
  next
    case True
    then have "{j \<in> set (i # idx). counted j} = insert i {j \<in> set idx. counted j}" by auto
    then have N: "set_option nx \<union> ?new ` {j \<in> set (i # idx). counted j} = set_option nx \<union> insert (?new i) (?new ` {j \<in> set idx. counted j})" by simp
    show ?thesis
    proof (cases "nx = None \<or> nx = Some (?new i)")
      case same: True
      then have "set_option nx \<union> insert (?new i) (?new ` {j \<in> set idx. counted j}) = set_option (Some (?new i)) \<union> ?new ` {j \<in> set idx. counted j}" by auto
      moreover have "next_loop s revs root here (i # idx) nx = next_loop s revs root here idx (Some (?new i))"
        using True same by (auto simp: counted_def Let_def)
      ultimately show ?thesis unfolding N using Cons.IH [of "Some (?new i)"] by simp
    next
      case False
      then obtain y where y: "nx = Some y" "y \<noteq> ?new i" by auto
      have "\<not> (\<exists>x. set_option nx \<union> insert (?new i) (?new ` {j \<in> set idx. counted j}) = {x})"
      proof
        assume "\<exists>x. set_option nx \<union> insert (?new i) (?new ` {j \<in> set idx. counted j}) = {x}"
        then obtain x where "set_option nx \<union> insert (?new i) (?new ` {j \<in> set idx. counted j}) = {x}" by blast
        then have "y \<in> {x}" "?new i \<in> {x}" using y(1) by blast+
        then show False using y(2) by simp
      qed
      moreover have "next_loop s revs root here (i # idx) nx = None" using True y by (simp add: counted_def Let_def)
      ultimately show ?thesis unfolding N using y by (simp add: Let_def)
    qed
  qed
qed

lemma next_successors:
  assumes "set_wf s"
  shows "next_loop s (Some revs) (Some root) here [0..<ss_used s] None =
    (let N = successors s revs root here in if N = {} then Some None else if \<exists>x. N = {x} then Some (Some (the_elem N)) else None)"
proof -
  let ?es = "the (ss_entries s)"
  have rows: "set (successions_of s) = (!) ?es ` {..<ss_used s}" "ss_used s \<le> length ?es"
    using assms nth_image [of "ss_used s" ?es] by (auto simp: successions_of_def set_wf_def succession_sound_def lessThan_atLeast0)
  have "(\<lambda>i. su_new_key (?es ! i)) ` {i \<in> set [0..<ss_used s]. su_old (?es ! i) = here \<and> fzn_succession_counts (Some s) i (Some revs) (Some root)}
      = successors s revs root here"
  proof -
    let ?ok = "\<lambda>e. su_old e = here \<and> fzn_revocation_confirmed (Some revs) (Some (su_issuer e)) (Some (su_id e)) (Some root)"
    have "{e \<in> (!) ?es ` {..<ss_used s}. ?ok e} = (!) ?es ` {i \<in> {..<ss_used s}. ?ok (?es ! i)}" by auto
    moreover have "{i \<in> set [0..<ss_used s]. su_old (?es ! i) = here \<and> fzn_succession_counts (Some s) i (Some revs) (Some root)} = {i \<in> {..<ss_used s}. ?ok (?es ! i)}"
      using assms by (auto simp: fzn_succession_counts_def set_wf_def Let_def)
    ultimately show ?thesis unfolding successors_def rows by (simp add: image_image)
  qed
  then show ?thesis unfolding next_loop_succ by simp
qed

text \<open>A walk of \<open>n\<close> steps in which every step is the only one there is.\<close>

inductive only_walk :: "(key \<Rightarrow> key set) \<Rightarrow> nat \<Rightarrow> key \<Rightarrow> key \<Rightarrow> bool" for f where
  walk_here: "only_walk f 0 k k"
| walk_step: "f k = {m} \<Longrightarrow> only_walk f n m l \<Longrightarrow> only_walk f (Suc n) k l"

inductive_cases only_walk_0: "only_walk f 0 k l"
inductive_cases only_walk_Suc: "only_walk f (Suc n) k l"

lemma resolve_walk:
  assumes "set_wf s"
  shows "resolve_loop d s (Some revs) (Some root) k = Some l \<longleftrightarrow>
    (\<exists>n < d. only_walk (successors s revs root) n k l) \<and> successors s revs root l = {}"
proof (induction d arbitrary: k)
  case (Suc d)
  let ?f = "successors s revs root"
  consider (stop) "?f k = {}" | (go) m where "?f k = {m}" | (fork) "?f k \<noteq> {}" "\<not> (\<exists>x. ?f k = {x})" by blast
  then show ?case
  proof cases
    case stop
    then have "only_walk ?f n k l \<longleftrightarrow> n = 0 \<and> l = k" for n by (cases n) (auto elim: only_walk_0 only_walk_Suc intro: walk_here)
    then show ?thesis using stop by (auto simp: next_successors [OF assms] Let_def)
  next
    case go
    have "(\<exists>n < Suc d. only_walk ?f n k l) \<and> ?f l = {} \<longleftrightarrow> (\<exists>n < d. only_walk ?f n m l) \<and> ?f l = {}"
      using go by (auto elim!: only_walk_0 only_walk_Suc intro: walk_step simp: less_Suc_eq_0_disj)
    then show ?thesis using go Suc.IH [of m] by (simp add: next_successors [OF assms] Let_def)
  next
    case fork
    then have "\<not> (only_walk ?f n k l \<and> ?f l = {})" for n by (cases n) (auto elim: only_walk_0 only_walk_Suc)
    then show ?thesis using fork by (auto simp: next_successors [OF assms] Let_def)
  qed
qed simp

definition demo_successions :: "fzn_succession list \<Rightarrow> fzn_succession_set" where
  "demo_successions es = \<lparr>ss_entries = Some (es @ [succession_row [] []]), ss_capacity = length es + 1, ss_used = length es, ss_hash = Some (\<lambda>b. Some (take 3 b))\<rparr>"

definition demo_succession :: "u8 \<Rightarrow> u8 \<Rightarrow> fzn_succession" where
  "demo_succession ol nw = \<lparr>su_issuer = [1], su_old = [ol], su_new_key = [nw], su_cut = [], su_id = [ol, nw]\<rparr>"

lemma demo_successions_wf: "distinct (map su_id es) \<Longrightarrow> set_wf (demo_successions es)" "successions_of (demo_successions es) = es"
  by (simp_all add: demo_successions_def set_wf_def succession_sound_def successions_of_def)

lemma demo_successors:
  "successors (demo_successions es) (demo_store None q []) [1] k = su_new_key ` set (filter (\<lambda>e. su_old e = k \<and> su_issuer e = [1]) es)"
proof -
  have "fzn_revocation_confirmed (Some (demo_store None q [])) (Some i) (Some a) (Some [1]) \<longleftrightarrow> i = [1]" for i a
    by (auto simp: fzn_revocation_confirmed_def demo_store_def root_confirms_def fzn_revocation_store_sound_def fzn_revocation_admin_stands_def Let_def)
  then show ?thesis by (simp add: successors_def demo_successions_wf)
qed

text \<open>
  C18. Who a key is now: reading it through gives exactly the key reached by at most sixteen steps, each
  the only succession that counts from where it starts, to a key that nothing succeeds. A fork, a cycle
  and a longer chain give nothing.
\<close>

theorem succession_resolves:
  assumes "set_wf s"
  shows "fzn_succession_resolve (Some s) (Some revs) (Some root) (Some k) = Some l \<longleftrightarrow>
    (\<exists>n \<le> FZN_SUCCESSION_DEPTH_MAX. only_walk (successors s revs root) n k l) \<and> successors s revs root l = {}"
proof -
  have "fzn_succession_resolve (Some s) (Some revs) (Some root) (Some k) = resolve_loop (FZN_SUCCESSION_DEPTH_MAX + 1) s (Some revs) (Some root) k"
    using assms by (simp add: fzn_succession_resolve_def set_wf_def)
  then show ?thesis using resolve_walk [OF assms, of "FZN_SUCCESSION_DEPTH_MAX + 1" revs root k l] by (simp only: less_Suc_eq_le Suc_eq_plus1 [symmetric])
qed

theorem succession_resolves_witness:
  "fzn_succession_resolve (Some (demo_successions [demo_succession 4 5, demo_succession 5 6])) (Some (demo_store None 1 [])) (Some [1]) (Some [4]) = Some [6]"
proof -
  let ?s = "demo_successions [demo_succession 4 5, demo_succession 5 6]"
  have wf: "set_wf ?s" by (rule demo_successions_wf) (simp add: demo_succession_def)
  have succ: "successors ?s (demo_store None 1 []) [1] [4] = {[5]}" "successors ?s (demo_store None 1 []) [1] [5] = {[6]}"
      "successors ?s (demo_store None 1 []) [1] [6] = {}"
    unfolding demo_successors by (simp_all add: demo_succession_def)
  have "only_walk (successors ?s (demo_store None 1 []) [1]) (Suc (Suc 0)) [4] [6]"
    by (rule walk_step, rule succ(1), rule walk_step, rule succ(2), rule walk_here)
  moreover have "Suc (Suc 0) \<le> FZN_SUCCESSION_DEPTH_MAX" by simp
  ultimately show ?thesis unfolding succession_resolves [OF wf] using succ(3) by blast
qed

text \<open>
  The order in which successions arrived decides nothing: two sets that hold the same rows read
  every key the same way.
\<close>

theorem succession_order_irrelevant:
  assumes "set_wf s" and "set_wf t" and "set (successions_of s) = set (successions_of t)"
  shows "fzn_succession_resolve (Some s) revs root k = fzn_succession_resolve (Some t) revs root k"
proof (cases "revs = None \<or> root = None \<or> k = None")
  case True
  then show ?thesis by (auto simp: fzn_succession_resolve_def)
next
  case False
  then obtain rv rt key where some: "revs = Some rv" "root = Some rt" "k = Some key" by auto
  have "successors s rv rt = successors t rv rt" using assms(3) by (simp add: successors_def fun_eq_iff)
  then have "resolve_loop d s revs root key = Some l \<longleftrightarrow> resolve_loop d t revs root key = Some l" for d l
    unfolding some resolve_walk [OF assms(1)] resolve_walk [OF assms(2)] by simp
  then have "resolve_loop d s revs root key = resolve_loop d t revs root key" for d by (metis option.exhaust)
  then show ?thesis using assms by (simp add: fzn_succession_resolve_def set_wf_def some)
qed

theorem succession_order_irrelevant_witness:
  "fzn_succession_resolve (Some (demo_successions [demo_succession 4 5, demo_succession 5 6])) (Some (demo_store None 1 [])) (Some [1]) (Some [4]) =
   fzn_succession_resolve (Some (demo_successions [demo_succession 5 6, demo_succession 4 5])) (Some (demo_store None 1 [])) (Some [1]) (Some [4])"
proof (rule succession_order_irrelevant)
  show "set_wf (demo_successions [demo_succession 4 5, demo_succession 5 6])" "set_wf (demo_successions [demo_succession 5 6, demo_succession 4 5])"
    by (rule demo_successions_wf, simp add: demo_succession_def)+
qed (auto simp: demo_successions_wf)

section \<open>Admission\<close>

lemma open_record: "fzn_succession_open (Some b) = (FZN_CHAIN_OK, Some r) \<longleftrightarrow>
    r = b \<and> length b = FZN_SUCCESSION_LEN \<and> b ! 0 = FZN_SIGNED_VERSION \<and> b ! 1 = FZN_OBJECT_SUCCESSION \<and> fzn_succession_old b \<noteq> fzn_succession_new b"
  "fzn_succession_open (Some b) = (err, r') \<Longrightarrow> err = FZN_CHAIN_OK \<longleftrightarrow> r' = Some b"
  by (auto simp: fzn_succession_open_def fzn_succession_old_def fzn_succession_new_def split: if_splits)

lemma keep_cases:
  assumes "set_wf s" and "keep_succession s rec = (err, s')"
  obtains (same) "s' = s"
    | (added) rid where "err = FZN_CHAIN_OK" "the (ss_hash s) rec = Some rid" "rid \<notin> su_id ` set (successions_of s)" "set_wf s'"
        "successions_of s' = successions_of s @ [succession_row rec rid]"
proof (cases "s' = s")
  case False
  then obtain rid where rid: "the (ss_hash s) rec = Some rid" "\<not> list_ex (\<lambda>e. su_id e = rid) (successions_of s)" "ss_used s < ss_capacity s"
      "err = FZN_CHAIN_OK" "s' = s\<lparr>ss_entries := map_option (\<lambda>es. es[ss_used s := succession_row rec rid]) (ss_entries s), ss_used := ss_used s + 1\<rparr>"
    using assms(2) by (auto simp: keep_succession_def split: option.splits if_splits)
  have rows: "successions_of s' = successions_of s @ [succession_row rec rid]"
    using assms(1) rid(3) by (auto simp: rid(5) successions_of_def set_wf_def succession_sound_def take_append_cell)
  have new: "rid \<notin> su_id ` set (successions_of s)" using rid(2) by (auto simp: list_ex_iff)
  have "set_wf s'" using assms(1) rid(3) rows new
    by (auto simp: set_wf_def succession_sound_def succession_row_def) (auto simp: rid(5))
  with rid(1,4) new rows show thesis by (rule_tac added) auto
qed (rule same)

lemma succession_admit_cases:
  assumes "set_wf s" and "so_verify sign = Some verify"
    and "fzn_succession_admit (Some s) (Some revs) (Some b) hops hop_count (Some root) (Some sign) = (err, s', revs')"
  shows "s' = Some s \<or> (err = FZN_CHAIN_OK \<and> fzn_succession_old b \<noteq> fzn_succession_new b \<and>
    verify (fzn_succession_issuer b) (bytes_at 0 FZN_SUCCESSION_BODY_LEN b) (bytes_at 130 FZN_SIG_LEN b) \<and>
    (if hop_count = 0 then fzn_succession_issuer b = root \<or> root_member revs (fzn_succession_issuer b)
     else fst (fzn_revocation_admin_admit revs (Some (fzn_succession_issuer b)) (map_option (take hop_count) hops) (Some root) sign) = FZN_CHAIN_OK) \<and>
    (\<exists>s1. s' = Some s1 \<and> keep_succession s b = (FZN_CHAIN_OK, s1)))"
proof (cases "s' = Some s")
  case False
  let ?iss = "fzn_succession_issuer b"
  obtain e r where op: "fzn_succession_open (Some b) = (e, r)" by fastforce
  have sound: "succession_sound (Some s)" using assms(1) by (simp add: set_wf_def)
  have ok: "e = FZN_CHAIN_OK" "r = Some b" using assms(3) False open_record(2) [OF op]
    by (auto simp: fzn_succession_admit_def op split: if_splits)
  have old: "fzn_succession_old b \<noteq> fzn_succession_new b" using op open_record(1) ok by simp
  obtain e1 r1 where ad: "(if hop_count > 0 then fzn_revocation_admin_admit revs (Some ?iss) (map_option (take hop_count) hops) (Some root) sign
      else (FZN_CHAIN_OK, revs)) = (e1, r1)" by fastforce
  obtain e2 s2 where keep: "keep_succession s b = (e2, s2)" by fastforce
  have "hop_count = 0 \<longrightarrow> ?iss = root \<or> root_member revs ?iss" "verify ?iss (bytes_at 0 FZN_SUCCESSION_BODY_LEN b) (bytes_at 130 FZN_SIG_LEN b)"
      "e1 = FZN_CHAIN_OK" "err = e2" "s' = Some s2"
    using assms(3) False sound op ok assms(2) ad keep by (auto simp: fzn_succession_admit_def Let_def split: if_splits)
  moreover have "e2 = FZN_CHAIN_OK" using keep_cases [OF assms(1) keep] calculation(5) False by auto
  ultimately show ?thesis using old ad keep by (auto split: if_splits)
qed simp

text \<open>
  A row enters the set only for a record whose old and new keys differ, with a valid signature of its
  issuer over it, from a root when no chain is shown and otherwise from an admin whose chain was
  admitted; it carries the record's fields under a name not held before, and every other outcome leaves
  the set as it was.
\<close>

theorem succession_admitted_entitled:
  assumes "set_wf s" and "so_verify sign = Some verify"
    and "fzn_succession_admit (Some s) (Some revs) (Some b) hops hop_count (Some root) (Some sign) = (err, s', revs')"
  shows "s' = Some s \<or> (\<exists>s1 rid. s' = Some s1 \<and> err = FZN_CHAIN_OK \<and> set_wf s1 \<and> the (ss_hash s) b = Some rid \<and>
    rid \<notin> su_id ` set (successions_of s) \<and> successions_of s1 = successions_of s @ [succession_row b rid] \<and>
    fzn_succession_old b \<noteq> fzn_succession_new b \<and>
    verify (fzn_succession_issuer b) (bytes_at 0 FZN_SUCCESSION_BODY_LEN b) (bytes_at 130 FZN_SIG_LEN b) \<and>
    (if hop_count = 0 then fzn_succession_issuer b = root \<or> root_member revs (fzn_succession_issuer b)
     else fst (fzn_revocation_admin_admit revs (Some (fzn_succession_issuer b)) (map_option (take hop_count) hops) (Some root) sign) = FZN_CHAIN_OK))"
  using succession_admit_cases [OF assms]
proof (elim disjE conjE exE, goal_cases)
  case (2 s1)
  from assms(1) 2(6) show ?case
  proof (cases rule: keep_cases)
    case same
    then show ?thesis using 2 by simp
  next
    case (added rid)
    then show ?thesis using 2 by auto
  qed
qed simp

text \<open>
  A succession that a root issues opens to the keys and the cut it was issued with, and a host that
  pins this root admits it, as the newest row of its set, whenever the set has room and the name is new.
\<close>

theorem issued_succession_admitted:
  assumes "length iss = FZN_PUBKEY_LEN" and "length ol = FZN_PUBKEY_LEN" and "length nw = FZN_PUBKEY_LEN" and "length cutb = FZN_SUCCESSION_ID_LEN"
    and "ol \<noteq> nw" and "so_sign sign = Some do_sign" and "so_verify sign = Some verify" and "signs_for verify do_sign iss"
    and "fzn_succession_issue (Some iss) (Some ol) (Some nw) (Some cutb) (Some sign) = (FZN_CHAIN_OK, Some b)"
    and "set_wf s" and "ss_used s < ss_capacity s" and "the (ss_hash s) b = Some rid" and "rid \<notin> su_id ` set (successions_of s)"
  shows "fzn_succession_open (Some b) = (FZN_CHAIN_OK, Some b) \<and>
    (\<exists>s'. fzn_succession_admit (Some s) (Some revs) (Some b) None 0 (Some iss) (Some sign) = (FZN_CHAIN_OK, Some s', Some revs) \<and>
      successions_of s' = successions_of s @ [\<lparr>su_issuer = iss, su_old = ol, su_new_key = nw, su_cut = cutb, su_id = rid\<rparr>])"
proof -
  let ?body = "[FZN_SIGNED_VERSION, FZN_OBJECT_SUCCESSION] @ iss @ ol @ nw @ cutb"
  obtain sig where sig: "do_sign ?body = Some sig" and b: "b = ?body @ sig"
    using assms(5,6,9) by (auto simp: fzn_succession_issue_def Let_def split: option.splits)
  have len: "length sig = FZN_SIG_LEN" and ver: "verify iss ?body sig" using assms(8) sig by (auto simp: signs_for_def)
  have fields: "fzn_succession_issuer b = iss" "fzn_succession_old b = ol" "fzn_succession_new b = nw" "fzn_succession_cut b = cutb"
    using assms(1-4) by (simp_all add: b fzn_succession_issuer_def fzn_succession_old_def fzn_succession_new_def fzn_succession_cut_def)
  have parts: "bytes_at 0 FZN_SUCCESSION_BODY_LEN b = ?body" "bytes_at 130 FZN_SIG_LEN b = sig"
    using assms(1-4) len by (simp_all add: b bytes_at_def)
  have op: "fzn_succession_open (Some b) = (FZN_CHAIN_OK, Some b)"
    unfolding open_record(1) using fields assms(1-5) len by (simp add: b)
  have keep: "keep_succession s b = (FZN_CHAIN_OK, s\<lparr>ss_entries := map_option (\<lambda>es. es[ss_used s := succession_row b rid]) (ss_entries s), ss_used := ss_used s + 1\<rparr>)"
    using assms(11-13) by (auto simp: keep_succession_def list_ex_iff)
  have "successions_of (s\<lparr>ss_entries := map_option (\<lambda>es. es[ss_used s := succession_row b rid]) (ss_entries s), ss_used := ss_used s + 1\<rparr>)
      = successions_of s @ [\<lparr>su_issuer = iss, su_old = ol, su_new_key = nw, su_cut = cutb, su_id = rid\<rparr>]"
    using assms(10,11) fields by (auto simp: successions_of_def set_wf_def succession_sound_def take_append_cell succession_row_def)
  then show ?thesis using op keep fields parts ver assms(7,10)
    by (simp add: fzn_succession_admit_def set_wf_def Let_def)
qed

definition demo_signer :: fzn_sign_ops where
  "demo_signer = \<lparr>so_verify = Some (\<lambda>k m sig. sig = replicate 64 7), so_sign = Some (\<lambda>m. Some (replicate 64 7))\<rparr>"

definition demo_record :: bytes where
  "demo_record = [FZN_SIGNED_VERSION, FZN_OBJECT_SUCCESSION] @ replicate 32 1 @ replicate 32 2 @ replicate 32 3 @ replicate 32 0 @ replicate 64 7"

theorem issued_succession_admitted_witness:
  "\<exists>s'. fzn_succession_admit (Some (demo_successions [])) (Some (demo_store None 1 [])) (Some demo_record) None 0 (Some (replicate 32 1)) (Some demo_signer)
     = (FZN_CHAIN_OK, Some s', Some (demo_store None 1 [])) \<and> length (successions_of s') = 1"
proof -
  have "fzn_succession_issue (Some (replicate 32 1)) (Some (replicate 32 2)) (Some (replicate 32 3)) (Some (replicate 32 0)) (Some demo_signer) = (FZN_CHAIN_OK, Some demo_record)"
    by (simp add: fzn_succession_issue_def demo_signer_def demo_record_def replicate_eq_replicate)
  moreover have "so_sign demo_signer = Some (\<lambda>m. Some (replicate 64 7))" "so_verify demo_signer = Some (\<lambda>k m sig. sig = replicate 64 7)"
      "signs_for (\<lambda>k m sig. sig = replicate 64 7) (\<lambda>m. Some (replicate 64 7)) (replicate 32 1)"
    by (simp_all add: demo_signer_def signs_for_def)
  moreover have "ss_used (demo_successions []) < ss_capacity (demo_successions [])" "the (ss_hash (demo_successions [])) demo_record = Some (take 3 demo_record)"
    by (simp_all add: demo_successions_def)
  ultimately show ?thesis
    using issued_succession_admitted [of "replicate 32 1" "replicate 32 2" "replicate 32 3" "replicate 32 0" demo_signer "\<lambda>m. Some (replicate 64 7)"
        "\<lambda>k m sig. sig = replicate 64 7" demo_record "demo_successions []" "take 3 demo_record" "demo_store None 1 []"]
    by (auto simp: demo_successions_wf replicate_eq_replicate)
qed

theorem succession_admitted_entitled_witness:
  "let (err, s', revs') = fzn_succession_admit (Some (demo_successions [])) (Some (demo_store None 1 [])) (Some demo_record) None 0 (Some (replicate 32 9)) (Some demo_signer)
   in s' = Some (demo_successions [])"
proof -
  obtain err s' revs' where ad: "fzn_succession_admit (Some (demo_successions [])) (Some (demo_store None 1 [])) (Some demo_record) None 0 (Some (replicate 32 9)) (Some demo_signer) = (err, s', revs')"
    by (metis prod_cases3)
  have iss: "fzn_succession_issuer demo_record = replicate 32 1" by (simp add: demo_record_def fzn_succession_issuer_def)
  have sign: "so_verify demo_signer = Some (\<lambda>k m sig. sig = replicate 64 7)" by (simp add: demo_signer_def)
  have "\<not> (replicate 32 (1 :: u8) = replicate 32 9 \<or> root_member (demo_store None 1 []) (replicate 32 1))"
    by (simp add: demo_store_def root_member_def replicate_eq_replicate)
  then have "s' = Some (demo_successions [])" using succession_admitted_entitled [OF demo_successions_wf(1) sign ad] by (simp only: iss) auto
  then show ?thesis unfolding ad by simp
qed

section \<open>Names\<close>

lemma low_half:
  fixes x :: u32
  assumes "x \<le> 0xffff"
  shows "take_bit 16 x = x" "drop_bit 16 x = 0"
proof -
  have "unat x < 2 ^ 16" using assms by (simp add: word_le_nat_alt)
  then show "take_bit 16 x = x" by (simp add: word_unat_eq_iff unsigned_take_bit_eq take_bit_nat_eq_self)
  from \<open>unat x < 2 ^ 16\<close> show "drop_bit 16 x = 0" 
    by (simp only: word_unat_eq_iff unsigned_drop_bit_eq unsigned_0) (simp add: drop_bit_eq_div take_bit_nat_eq_self)
qed

lemma stream_parts:
  fixes p i :: u32
  assumes "p \<le> 0xffff" and "i \<le> 0xffff"
  shows "drop_bit 16 (push_bit 16 p OR i) = p" and "(push_bit 16 p OR i) AND FZN_STREAM_INDEX_MAX = i"
proof -
  have "drop_bit 16 (push_bit 16 p) = take_bit 16 p" by (rule bit_eqI) (auto simp: bit_drop_bit_eq bit_push_bit_iff bit_take_bit_iff)
  then show "drop_bit 16 (push_bit 16 p OR i) = p" using low_half [OF assms(1)] low_half [OF assms(2)] by (simp only: drop_bit_or or.right_neutral)
  have m: "FZN_STREAM_INDEX_MAX = mask 16" by (simp add: mask_eq_exp_minus_1)
  have "take_bit 16 (push_bit 16 p) = 0" by (rule bit_eqI) (auto simp: bit_push_bit_iff bit_take_bit_iff)
  then show "(push_bit 16 p OR i) AND FZN_STREAM_INDEX_MAX = i"
    unfolding m take_bit_eq_mask [symmetric] using low_half(1) [OF assms(2)] by (simp only: take_bit_or or.left_neutral)
qed

text \<open>
  Names do not collide: what is hashed into a capability determines the service, the product and the
  name, and a stream number determines its product and its index.
\<close>

theorem service_names_distinct:
  "(service_input sv pr nm = service_input sv' pr' nm' \<longleftrightarrow> sv = sv' \<and> pr = pr' \<and> nm = nm') \<and>
   (fzn_service_stream p i = (FZN_CHAIN_OK, Some st) \<longrightarrow> fzn_service_stream_product st = p \<and> st AND FZN_STREAM_INDEX_MAX = i)"
proof -
  have be32: "fzn_put_be32 a = fzn_put_be32 b \<longleftrightarrow> a = b" for a b by (metis get_put_be32)
  have "service_input sv pr nm = service_input sv' pr' nm' \<longleftrightarrow> sv = sv' \<and> pr = pr' \<and> nm = nm'"
    by (auto simp: service_input_def be32)
  moreover have "fzn_service_stream_product st = p \<and> st AND FZN_STREAM_INDEX_MAX = i" if ok: "fzn_service_stream p i = (FZN_CHAIN_OK, Some st)"
  proof -
    have le: "p \<le> 0xfffe" "i \<le> 0xffff" and st: "st = push_bit 16 p OR i" using ok by (auto simp: fzn_service_stream_def split: if_splits)
    have "p \<le> 0xffff" using le(1) by (rule order_trans) simp
    then show ?thesis using stream_parts le(2) by (simp only: st fzn_service_stream_product_def)
  qed
  ultimately show ?thesis by blast
qed

theorem service_names_distinct_witness:
  "fzn_service_stream 2 7 = (FZN_CHAIN_OK, Some 0x20007) \<and> fzn_service_stream_product 0x20007 = 2"
proof -
  have "fzn_service_stream 2 7 = (FZN_CHAIN_OK, Some 0x20007)" by (simp add: fzn_service_stream_def)
  then show ?thesis using service_names_distinct [of 1 1 "[]" 1 1 "[]" 2 7 "0x20007"] by simp
qed

end
