(* ===== verification/Ratchet.thy ===== *)
theory Ratchet
  imports Seal
begin

text \<open>
  A symmetric key chain (\<open>ratchet/ratchet.c\<close>): one derivation, and a bounded fast-forward over it. The
  fast-forward is shown to be the iteration of the derivation, to be independent of the path, to hand
  out each sequence number once, and to leave everything alone when it refuses. The hash is a parameter.
\<close>

section \<open>The model\<close>

datatype fzn_ratchet_err = FZN_RATCHET_OK | FZN_RATCHET_ERR_MALFORMED | FZN_RATCHET_ERR_HASH | FZN_RATCHET_ERR_BEHIND
  | FZN_RATCHET_ERR_TOO_FAR | FZN_RATCHET_ERR_IN_PLACE

abbreviation FZN_CHAIN_KEY_LEN :: nat where "FZN_CHAIN_KEY_LEN \<equiv> 32"
abbreviation FZN_MESSAGE_KEY_LEN :: nat where "FZN_MESSAGE_KEY_LEN \<equiv> 32"
abbreviation FZN_RATCHET_DERIVED_LEN :: nat where "FZN_RATCHET_DERIVED_LEN \<equiv> FZN_MESSAGE_KEY_LEN + FZN_CHAIN_KEY_LEN"
abbreviation FZN_RATCHET_MAX_ADVANCE :: u64 where "FZN_RATCHET_MAX_ADVANCE \<equiv> 100000"

definition FZN_RATCHET_LABEL :: bytes where
  "FZN_RATCHET_LABEL = ascii ''fuzznet-ratchet1''"

record fzn_ratchet_chain =
  ra_key :: bytes
  ra_seq :: u64

text \<open>
  The table of hash operations may be absent, and so may the operation in it. A successful derivation
  returns the message key and the next chain key.
\<close>

definition fzn_ratchet_derive :: "fzn_hash_fn option option \<Rightarrow> bytes option \<Rightarrow> fzn_ratchet_err \<times> (bytes \<times> bytes) option" where
  "fzn_ratchet_derive hash ckey =
     (case (hash, ckey) of
        (Some (Some h), Some k) \<Rightarrow>
          (case h FZN_RATCHET_DERIVED_LEN (FZN_RATCHET_LABEL @ k) of
             None \<Rightarrow> (FZN_RATCHET_ERR_HASH, None)
           | Some derived \<Rightarrow> (FZN_RATCHET_OK, Some (take FZN_MESSAGE_KEY_LEN derived, bytes_at FZN_MESSAGE_KEY_LEN FZN_CHAIN_KEY_LEN derived)))
      | _ \<Rightarrow> (FZN_RATCHET_ERR_MALFORMED, None))"

definition fzn_ratchet_init :: "fzn_ratchet_chain option \<Rightarrow> bytes option \<Rightarrow> u64 \<Rightarrow> fzn_ratchet_chain option" where
  "fzn_ratchet_init chain key seq =
     map_option (\<lambda>_. \<lparr>ra_key = (case key of Some k \<Rightarrow> k | None \<Rightarrow> replicate FZN_CHAIN_KEY_LEN 0), ra_seq = seq\<rparr>) chain"

definition fzn_ratchet_wipe :: "fzn_ratchet_chain option \<Rightarrow> fzn_ratchet_chain option" where
  "fzn_ratchet_wipe chain = map_option (\<lambda>c. \<lparr>ra_key = the (fzn_wipe (Some (ra_key c)) FZN_CHAIN_KEY_LEN), ra_seq = 0\<rparr>) chain"

text \<open>What the loop works on: the chain, the buffer of skipped keys, the keys kept and the keys lost.\<close>

record ratchet_work =
  rk_chain :: fzn_ratchet_chain
  rk_skipped :: "bytes option"
  rk_kept :: nat
  rk_lost :: nat

definition skip_one :: "nat \<Rightarrow> bytes \<Rightarrow> bytes \<Rightarrow> ratchet_work \<Rightarrow> ratchet_work" where
  "skip_one skipped_cap message_key next_key w =
     (let w = (case rk_skipped w of None \<Rightarrow> w
               | Some buf \<Rightarrow>
                 if rk_kept w < skipped_cap
                 then w\<lparr>rk_skipped := Some (put_at (rk_kept w * FZN_MESSAGE_KEY_LEN) message_key buf), rk_kept := rk_kept w + 1\<rparr>
                 else w\<lparr>rk_lost := rk_lost w + 1\<rparr>)
      in w\<lparr>rk_chain := \<lparr>ra_key = next_key, ra_seq = ra_seq (rk_chain w) + 1\<rparr>\<rparr>)"

fun skip_loop :: "fzn_hash_fn option option \<Rightarrow> nat \<Rightarrow> nat \<Rightarrow> ratchet_work \<Rightarrow> fzn_ratchet_err \<times> ratchet_work" where
  "skip_loop hash skipped_cap 0 w = (FZN_RATCHET_OK, w)"
| "skip_loop hash skipped_cap (Suc n) w =
     (case fzn_ratchet_derive hash (Some (ra_key (rk_chain w))) of
        (FZN_RATCHET_OK, Some (message_key, next_key)) \<Rightarrow> skip_loop hash skipped_cap n (skip_one skipped_cap message_key next_key w)
      | (err, _) \<Rightarrow> (err, w))"

text \<open>
  What the caller passes by reference and finds afterwards: the message key, the chain it goes to, the
  buffer of skipped keys and the two counts, each possibly absent. \<open>in_place\<close> says that \<open>to\<close> and
  \<open>from\<close> are the same chain.
\<close>

record ratchet_out =
  ro_message_key :: "bytes option"
  ro_to :: "fzn_ratchet_chain option"
  ro_skipped :: "bytes option"
  ro_skipped_count :: "nat option"
  ro_dropped :: "nat option"

definition ratchet_walk :: "fzn_hash_fn option option \<Rightarrow> fzn_ratchet_chain \<Rightarrow> u64 \<Rightarrow> nat \<Rightarrow> ratchet_out \<Rightarrow> fzn_ratchet_err \<times> ratchet_out" where
  "ratchet_walk hash c jump skipped_cap out =
     (case skip_loop hash skipped_cap (unat jump) \<lparr>rk_chain = c, rk_skipped = ro_skipped out, rk_kept = 0, rk_lost = 0\<rparr> of
        (FZN_RATCHET_OK, w) \<Rightarrow>
          (case fzn_ratchet_derive hash (Some (ra_key (rk_chain w))) of
             (FZN_RATCHET_OK, Some (message_key, next_key)) \<Rightarrow>
               (FZN_RATCHET_OK, \<lparr>ro_message_key = Some message_key, ro_to = Some \<lparr>ra_key = next_key, ra_seq = ra_seq (rk_chain w) + 1\<rparr>,
                  ro_skipped = rk_skipped w, ro_skipped_count = map_option (\<lambda>_. rk_kept w) (ro_skipped_count out),
                  ro_dropped = map_option (\<lambda>_. rk_lost w) (ro_dropped out)\<rparr>)
           | (err, _) \<Rightarrow> (err, out\<lparr>ro_skipped := rk_skipped w\<rparr>))
      | (err, w) \<Rightarrow> (err, out\<lparr>ro_skipped := rk_skipped w\<rparr>))"

definition fzn_ratchet_advance :: "fzn_hash_fn option option \<Rightarrow> fzn_ratchet_chain option \<Rightarrow> u64 \<Rightarrow> bool \<Rightarrow> nat \<Rightarrow> ratchet_out \<Rightarrow>
    fzn_ratchet_err \<times> ratchet_out" where
  "fzn_ratchet_advance hash src target_seq in_place skipped_cap out =
     (if hash = None \<or> src = None \<or> ro_to out = None \<or> ro_message_key out = None then (FZN_RATCHET_ERR_MALFORMED, out)
      else if in_place then (FZN_RATCHET_ERR_IN_PLACE, out)
      else if skipped_cap > 0 \<and> ro_skipped out = None then (FZN_RATCHET_ERR_MALFORMED, out)
      else if (ro_skipped_count out = None) \<noteq> (ro_skipped out = None) then (FZN_RATCHET_ERR_MALFORMED, out)
      else if ro_skipped out \<noteq> None \<and> ro_dropped out = None then (FZN_RATCHET_ERR_MALFORMED, out)
      else if target_seq < ra_seq (the src) then (FZN_RATCHET_ERR_BEHIND, out)
      else let jump = target_seq - ra_seq (the src) in
        if jump > FZN_RATCHET_MAX_ADVANCE then (FZN_RATCHET_ERR_TOO_FAR, out)
        else ratchet_walk hash (the src) jump skipped_cap out)"

definition fzn_ratchet_err_str :: "fzn_ratchet_err \<Rightarrow> string" where
  "fzn_ratchet_err_str err =
     (case err of FZN_RATCHET_OK \<Rightarrow> ''ok'' | FZN_RATCHET_ERR_MALFORMED \<Rightarrow> ''malformed argument''
      | FZN_RATCHET_ERR_HASH \<Rightarrow> ''hash refused or absent''
      | FZN_RATCHET_ERR_BEHIND \<Rightarrow> ''target is behind the chain, so a duplicate or a replay''
      | FZN_RATCHET_ERR_TOO_FAR \<Rightarrow> ''jump exceeds the fast-forward bound''
      | FZN_RATCHET_ERR_IN_PLACE \<Rightarrow> ''advanced a live chain in place: derive, verify, then commit'')"

section \<open>The chain of keys\<close>

lemma unat_u64: "unat (x :: u64) < 2 ^ 64"
  using unsigned_less [of x] by simp

text \<open>The chain as mathematics: the key after \<open>n\<close> steps, and the message key at step \<open>n\<close>.\<close>

definition next_key :: "fzn_hash_fn \<Rightarrow> bytes \<Rightarrow> bytes" where
  "next_key h k = drop FZN_MESSAGE_KEY_LEN (the (h FZN_RATCHET_DERIVED_LEN (FZN_RATCHET_LABEL @ k)))"

definition message_key :: "fzn_hash_fn \<Rightarrow> bytes \<Rightarrow> bytes" where
  "message_key h k = take FZN_MESSAGE_KEY_LEN (the (h FZN_RATCHET_DERIVED_LEN (FZN_RATCHET_LABEL @ k)))"

text \<open>What is relied on of the hash: it does not refuse, and fills the output it is asked for.\<close>

definition hash_total :: "fzn_hash_fn \<Rightarrow> bool" where
  "hash_total h \<longleftrightarrow> (\<forall>n b. \<exists>d. h n b = Some d \<and> length d = n)"

lemma derive_total:
  assumes "hash_total h"
  shows "fzn_ratchet_derive (Some (Some h)) (Some k) = (FZN_RATCHET_OK, Some (message_key h k, next_key h k))"
    and "length (message_key h k) = FZN_MESSAGE_KEY_LEN"
proof -
  obtain d where "h FZN_RATCHET_DERIVED_LEN (FZN_RATCHET_LABEL @ k) = Some d" "length d = FZN_RATCHET_DERIVED_LEN"
    using assms unfolding hash_total_def by blast
  then show "fzn_ratchet_derive (Some (Some h)) (Some k) = (FZN_RATCHET_OK, Some (message_key h k, next_key h k))"
    and "length (message_key h k) = FZN_MESSAGE_KEY_LEN"
    by (simp_all add: fzn_ratchet_derive_def message_key_def next_key_def bytes_at_def)
qed

text \<open>The keys of the first \<open>n\<close> steps from a chain key, one after the other.\<close>

definition skipped_keys :: "fzn_hash_fn \<Rightarrow> bytes \<Rightarrow> nat \<Rightarrow> bytes" where
  "skipped_keys h k n = concat (map (\<lambda>i. message_key h ((next_key h ^^ i) k)) [0..<n])"

lemma length_skipped_keys: "hash_total h \<Longrightarrow> length (skipped_keys h k n) = n * FZN_MESSAGE_KEY_LEN"
  by (induction n) (simp_all add: skipped_keys_def derive_total(2))

definition skip_step :: "fzn_hash_fn \<Rightarrow> nat \<Rightarrow> ratchet_work \<Rightarrow> ratchet_work" where
  "skip_step h cap w = skip_one cap (message_key h (ra_key (rk_chain w))) (next_key h (ra_key (rk_chain w))) w"

lemma skip_loop_funpow: "hash_total h \<Longrightarrow> skip_loop (Some (Some h)) cap n w = (FZN_RATCHET_OK, (skip_step h cap ^^ n) w)"
  by (induction n arbitrary: w) (simp_all add: derive_total skip_step_def funpow_swap1)

text \<open>The state of the loop after \<open>n\<close> steps from a chain at \<open>(k, seq)\<close>.\<close>

definition skipped_to :: "fzn_hash_fn \<Rightarrow> nat \<Rightarrow> fzn_ratchet_chain \<Rightarrow> bytes option \<Rightarrow> nat \<Rightarrow> ratchet_work" where
  "skipped_to h cap c buf n =
     \<lparr>rk_chain = \<lparr>ra_key = (next_key h ^^ n) (ra_key c), ra_seq = ra_seq c + of_nat n\<rparr>,
      rk_skipped = map_option (put_at 0 (skipped_keys h (ra_key c) (min n cap))) buf,
      rk_kept = (if buf = None then 0 else min n cap), rk_lost = (if buf = None then 0 else n - cap)\<rparr>"

lemma put_at_extend:
  "off = length xs \<Longrightarrow> length xs + length ys \<le> length buf \<Longrightarrow> put_at off ys (put_at 0 xs buf) = put_at 0 (xs @ ys) buf"
  by (simp add: put_at_def add.commute)

lemma skip_steps:
  assumes "hash_total h" and "\<forall>b. buf = Some b \<longrightarrow> cap * FZN_MESSAGE_KEY_LEN \<le> length b"
  shows "(skip_step h cap ^^ n) (skipped_to h cap c buf 0) = skipped_to h cap c buf n"
proof (induction n)
  case (Suc n)
  have keys: "skipped_keys h k (Suc m) = skipped_keys h k m @ message_key h ((next_key h ^^ m) k)" for k m by (simp add: skipped_keys_def)
  have "skip_step h cap (skipped_to h cap c buf n) = skipped_to h cap c buf (Suc n)"
  proof (cases buf)
    case None
    then show ?thesis by (simp add: skip_step_def skip_one_def skipped_to_def)
  next
    case (Some b)
    show ?thesis
    proof (cases "n < cap")
      case True
      then have "Suc n * FZN_MESSAGE_KEY_LEN \<le> cap * FZN_MESSAGE_KEY_LEN" by (intro mult_le_mono1) simp
      with Some assms(2) have "n * FZN_MESSAGE_KEY_LEN + FZN_MESSAGE_KEY_LEN \<le> length b" by simp
      then show ?thesis using True Some assms(1)
        by (simp add: skip_step_def skip_one_def skipped_to_def keys length_skipped_keys derive_total(2) put_at_extend min_absorb1)
    next
      case False
      then show ?thesis using Some by (simp add: skip_step_def skip_one_def skipped_to_def min_absorb2 Suc_diff_le)
    qed
  qed
  then show ?case using Suc by simp
qed simp

section \<open>Advancing\<close>

text \<open>What a caller has to pass: outputs where the code wants them, and a buffer as large as it says.\<close>

definition out_ready :: "nat \<Rightarrow> ratchet_out \<Rightarrow> bool" where
  "out_ready cap out \<longleftrightarrow> ro_to out \<noteq> None \<and> ro_message_key out \<noteq> None \<and> (ro_skipped_count out = None \<longleftrightarrow> ro_skipped out = None) \<and>
     (case ro_skipped out of None \<Rightarrow> cap = 0 | Some b \<Rightarrow> ro_dropped out \<noteq> None \<and> cap * FZN_MESSAGE_KEY_LEN \<le> length b)"

lemma advance_ready:
  assumes "out_ready cap out" and "ra_seq c \<le> target" and "target - ra_seq c \<le> FZN_RATCHET_MAX_ADVANCE"
  shows "fzn_ratchet_advance (Some hash) (Some c) target False cap out = ratchet_walk (Some hash) c (target - ra_seq c) cap out"
proof -
  have "\<not> target < ra_seq c" "\<not> FZN_RATCHET_MAX_ADVANCE < target - ra_seq c" using assms(2,3) by (simp_all add: not_less)
  then show ?thesis using assms(1) unfolding fzn_ratchet_advance_def out_ready_def by (cases "ro_skipped out") auto
qed

lemma advance_total:
  assumes "hash_total h" and "out_ready cap out" and "ra_seq c \<le> target" and "target - ra_seq c \<le> FZN_RATCHET_MAX_ADVANCE"
  defines "n \<equiv> unat (target - ra_seq c)"
  shows "fzn_ratchet_advance (Some (Some h)) (Some c) target False cap out = (FZN_RATCHET_OK,
    \<lparr>ro_message_key = Some (message_key h ((next_key h ^^ n) (ra_key c))),
     ro_to = Some \<lparr>ra_key = (next_key h ^^ Suc n) (ra_key c), ra_seq = target + 1\<rparr>,
     ro_skipped = map_option (put_at 0 (skipped_keys h (ra_key c) (min n cap))) (ro_skipped out),
     ro_skipped_count = map_option (\<lambda>_. min n cap) (ro_skipped_count out),
     ro_dropped = map_option (\<lambda>_. if ro_skipped out = None then 0 else n - cap) (ro_dropped out)\<rparr>)"
proof -
  have start: "\<lparr>rk_chain = c, rk_skipped = ro_skipped out, rk_kept = 0, rk_lost = 0\<rparr> = skipped_to h cap c (ro_skipped out) 0"
    by (cases "ro_skipped out") (simp_all add: skipped_to_def skipped_keys_def put_at_def)
  have room: "\<forall>b. ro_skipped out = Some b \<longrightarrow> cap * FZN_MESSAGE_KEY_LEN \<le> length b" using assms(2) by (auto simp: out_ready_def)
  have loop: "skip_loop (Some (Some h)) cap n \<lparr>rk_chain = c, rk_skipped = ro_skipped out, rk_kept = 0, rk_lost = 0\<rparr>
      = (FZN_RATCHET_OK, skipped_to h cap c (ro_skipped out) n)"
    unfolding start skip_loop_funpow [OF assms(1)] skip_steps [OF assms(1) room] by simp
  have seq: "ra_seq c + of_nat n = target" by (simp add: n_def)
  have none: "ro_skipped out = None \<Longrightarrow> ro_skipped_count out = None" using assms(2) by (simp add: out_ready_def)
  show ?thesis
    unfolding advance_ready [OF assms(2-4)] ratchet_walk_def n_def [symmetric] loop
    using derive_total(1) [OF assms(1)] none by (cases "ro_skipped out") (simp_all add: skipped_to_def seq)
qed

text \<open>
  Advancing a chain to a sequence number at or ahead of it, within the bound, hands out the
  message key of exactly that number, a chain placed just after it, the keys of every number jumped
  over as far as the caller's buffer goes, and the count of those that did not fit.
\<close>

theorem ratchet_advances:
  assumes "hash_total h" and "out_ready cap out" and "ra_seq c \<le> target" and "target - ra_seq c \<le> FZN_RATCHET_MAX_ADVANCE"
  shows "let n = unat (target - ra_seq c) in
    fzn_ratchet_advance (Some (Some h)) (Some c) target False cap out = (FZN_RATCHET_OK,
    \<lparr>ro_message_key = Some (message_key h ((next_key h ^^ n) (ra_key c))),
     ro_to = Some \<lparr>ra_key = (next_key h ^^ Suc n) (ra_key c), ra_seq = target + 1\<rparr>,
     ro_skipped = map_option (put_at 0 (skipped_keys h (ra_key c) (min n cap))) (ro_skipped out),
     ro_skipped_count = map_option (\<lambda>_. min n cap) (ro_skipped_count out),
     ro_dropped = map_option (\<lambda>_. if ro_skipped out = None then 0 else n - cap) (ro_dropped out)\<rparr>)"
  using advance_total [OF assms] by (simp add: Let_def)

definition demo_hash :: fzn_hash_fn where
  "demo_hash n b = Some (replicate n (of_nat (length b)))"

definition demo_out :: ratchet_out where
  "demo_out = \<lparr>ro_message_key = Some [], ro_to = Some \<lparr>ra_key = [], ra_seq = 0\<rparr>, ro_skipped = None, ro_skipped_count = None, ro_dropped = None\<rparr>"

lemma demo_ratchet: "hash_total demo_hash" "out_ready 0 demo_out"
  by (simp_all add: hash_total_def demo_hash_def out_ready_def demo_out_def)

theorem ratchet_advances_witness:
  "\<exists>out. fzn_ratchet_advance (Some (Some demo_hash)) (Some \<lparr>ra_key = [1], ra_seq = 4\<rparr>) 6 False 0 demo_out = (FZN_RATCHET_OK, out) \<and>
     map_option ra_seq (ro_to out) = Some 7"
  using ratchet_advances [OF demo_ratchet, of "\<lparr>ra_key = [1], ra_seq = 4\<rparr>" 6] by (simp add: Let_def)

text \<open>
  C11. The path does not matter: stopping at a sequence number on the way and going on from the chain
  returned there gives the same message key and the same chain as going straight.
\<close>

theorem ratchet_path_independent:
  assumes "hash_total h" and "out_ready cap out1" and "out_ready cap out2" and "ra_seq c \<le> mid" and "mid < target"
    and "target - ra_seq c \<le> FZN_RATCHET_MAX_ADVANCE"
  shows "\<exists>r1 r2 r. fzn_ratchet_advance (Some (Some h)) (Some c) mid False cap out1 = (FZN_RATCHET_OK, r1) \<and>
    fzn_ratchet_advance (Some (Some h)) (ro_to r1) target False cap out2 = (FZN_RATCHET_OK, r2) \<and>
    fzn_ratchet_advance (Some (Some h)) (Some c) target False cap out2 = (FZN_RATCHET_OK, r) \<and>
    ro_message_key r2 = ro_message_key r \<and> ro_to r2 = ro_to r"
proof -
  let ?c1 = "\<lparr>ra_key = (next_key h ^^ Suc (unat (mid - ra_seq c))) (ra_key c), ra_seq = mid + 1\<rparr>"
  have le3: "ra_seq c \<le> target" using assms(4,5) by order
  have le: "mid + 1 \<le> target" using assms(5) by (rule inc_le)
  have nat: "unat (mid - ra_seq c) = unat mid - unat (ra_seq c)" "unat (target - ra_seq c) = unat target - unat (ra_seq c)"
    by (rule unat_sub [OF assms(4)], rule unat_sub [OF le3])
  have mid1: "unat (mid + 1) = unat mid + 1" 
    using assms(5) unat_u64 [of target] by (simp add: unat_word_ariths word_less_nat_alt)
  have tgt: "unat (target - (mid + 1)) = unat target - (unat mid + 1)" using unat_sub [OF le] mid1 by simp
  have ord: "unat (ra_seq c) \<le> unat mid" "unat mid + 1 \<le> unat target" "unat target - unat (ra_seq c) \<le> 100000"
    using assms(4-6) nat by (simp_all add: word_le_nat_alt word_less_nat_alt)
  have b1: "mid - ra_seq c \<le> FZN_RATCHET_MAX_ADVANCE" and b2: "target - ra_seq ?c1 \<le> FZN_RATCHET_MAX_ADVANCE"
    using ord by (simp_all add: word_le_nat_alt nat tgt)
  have "unat (target - ra_seq c) = unat (target - (mid + 1)) + Suc (unat (mid - ra_seq c))" using ord by (simp add: nat tgt)
  then have steps: "(next_key h ^^ unat (target - (mid + 1))) ((next_key h ^^ Suc (unat (mid - ra_seq c))) (ra_key c)) = (next_key h ^^ unat (target - ra_seq c)) (ra_key c)"
    by (simp only: funpow_add comp_apply)
  note one = advance_total [OF assms(1,2,4) b1]
  have two: "ro_message_key (snd (fzn_ratchet_advance (Some (Some h)) (Some ?c1) target False cap out2)) =
      Some (message_key h ((next_key h ^^ unat (target - ra_seq c)) (ra_key c)))"
    "ro_to (snd (fzn_ratchet_advance (Some (Some h)) (Some ?c1) target False cap out2)) =
      Some \<lparr>ra_key = next_key h ((next_key h ^^ unat (target - ra_seq c)) (ra_key c)), ra_seq = target + 1\<rparr>"
    "fst (fzn_ratchet_advance (Some (Some h)) (Some ?c1) target False cap out2) = FZN_RATCHET_OK"
    using advance_total [OF assms(1,3) _ b2] le steps by simp_all
  note three = advance_total [OF assms(1,3) le3 assms(6)]
  show ?thesis
  proof (intro exI conjI)
    show "fzn_ratchet_advance (Some (Some h)) (Some c) mid False cap out1 = (FZN_RATCHET_OK, snd (fzn_ratchet_advance (Some (Some h)) (Some c) mid False cap out1))"
      by (simp add: one)
    have to: "ro_to (snd (fzn_ratchet_advance (Some (Some h)) (Some c) mid False cap out1)) = Some ?c1" by (simp add: one)
    show "fzn_ratchet_advance (Some (Some h)) (ro_to (snd (fzn_ratchet_advance (Some (Some h)) (Some c) mid False cap out1))) target False cap out2 =
        (FZN_RATCHET_OK, snd (fzn_ratchet_advance (Some (Some h)) (Some ?c1) target False cap out2))"
      unfolding to using two(3) by (simp only: prod_eq_iff fst_conv snd_conv simp_thms)
    show "fzn_ratchet_advance (Some (Some h)) (Some c) target False cap out2 = (FZN_RATCHET_OK, snd (fzn_ratchet_advance (Some (Some h)) (Some c) target False cap out2))"
      by (simp add: three)
    show "ro_message_key (snd (fzn_ratchet_advance (Some (Some h)) (Some ?c1) target False cap out2)) =
        ro_message_key (snd (fzn_ratchet_advance (Some (Some h)) (Some c) target False cap out2))"
      unfolding two three by simp
    show "ro_to (snd (fzn_ratchet_advance (Some (Some h)) (Some ?c1) target False cap out2)) =
        ro_to (snd (fzn_ratchet_advance (Some (Some h)) (Some c) target False cap out2))"
      unfolding two three by simp
  qed
qed

theorem ratchet_path_independent_witness:
  "\<exists>r1 r2 r. fzn_ratchet_advance (Some (Some demo_hash)) (Some \<lparr>ra_key = [1], ra_seq = 4\<rparr>) 6 False 0 demo_out = (FZN_RATCHET_OK, r1) \<and>
    fzn_ratchet_advance (Some (Some demo_hash)) (ro_to r1) 9 False 0 demo_out = (FZN_RATCHET_OK, r2) \<and>
    fzn_ratchet_advance (Some (Some demo_hash)) (Some \<lparr>ra_key = [1], ra_seq = 4\<rparr>) 9 False 0 demo_out = (FZN_RATCHET_OK, r) \<and>
    ro_message_key r2 = ro_message_key r \<and> ro_to r2 = ro_to r"
  by (rule ratchet_path_independent [OF demo_ratchet(1,2,2)]) simp_all

text \<open>
  A chain in use: the caller asks for one number after another, commits the chain it is given when the
  answer is ok, and keeps its own otherwise. Whatever numbers were asked for, and whichever were
  refused, the chain is the one derived from the seed for its position.
\<close>

fun chain_after :: "fzn_hash_fn \<Rightarrow> nat \<Rightarrow> ratchet_out \<Rightarrow> fzn_ratchet_chain \<Rightarrow> u64 list \<Rightarrow> fzn_ratchet_chain" where
  "chain_after h cap out c [] = c"
| "chain_after h cap out c (t # ts) =
     (case fzn_ratchet_advance (Some (Some h)) (Some c) t False cap out of
        (FZN_RATCHET_OK, r) \<Rightarrow> chain_after h cap out (the (ro_to r)) ts
      | _ \<Rightarrow> chain_after h cap out c ts)"

definition on_chain :: "fzn_hash_fn \<Rightarrow> bytes \<Rightarrow> u64 \<Rightarrow> fzn_ratchet_chain \<Rightarrow> bool" where
  "on_chain h seed start c \<longleftrightarrow> start \<le> ra_seq c \<and> ra_key c = (next_key h ^^ unat (ra_seq c - start)) seed"

lemma on_chain_steps:
  assumes "on_chain h seed start c" and "ra_seq c \<le> t"
  shows "(next_key h ^^ unat (t - ra_seq c)) (ra_key c) = (next_key h ^^ unat (t - start)) seed"
proof -
  have "start \<le> ra_seq c" using assms(1) by (simp add: on_chain_def)
  with assms(2) have "unat (t - start) = unat (t - ra_seq c) + unat (ra_seq c - start)"
    by (simp add: unat_sub word_le_nat_alt order_trans)
  then show ?thesis using assms(1) by (simp add: on_chain_def funpow_add)
qed

lemma on_chain_next:
  assumes "on_chain h seed start c" and "ra_seq c \<le> t" and "t \<noteq> UINT64_MAX"
  shows "on_chain h seed start \<lparr>ra_key = (next_key h ^^ Suc (unat (t - ra_seq c))) (ra_key c), ra_seq = t + 1\<rparr>"
proof -
  have le: "start \<le> t" using assms(1,2) by (auto simp: on_chain_def)
  have "unat t \<noteq> unat UINT64_MAX" using assms(3) word_unat_eq_iff by blast
  then have inc: "unat (t + 1) = unat t + 1" using unat_u64 [of t] by (simp add: unat_UINT64_MAX unat_word_ariths)
  then have "start \<le> t + 1" "unat (t + 1 - start) = Suc (unat (t - start))"
    using le by (simp_all add: unat_sub word_le_nat_alt Suc_diff_le)
  then show ?thesis using on_chain_steps [OF assms(1,2)] by (simp add: on_chain_def)
qed

lemma advance_range:
  "fst (fzn_ratchet_advance (Some (Some h)) (Some c) t False cap out) = FZN_RATCHET_OK \<Longrightarrow> ra_seq c \<le> t \<and> t - ra_seq c \<le> FZN_RATCHET_MAX_ADVANCE"
  by (auto simp: fzn_ratchet_advance_def Let_def not_less split: if_splits)

lemma chain_after_on:
  assumes "hash_total h" and "out_ready cap out" and "on_chain h seed start c" and "UINT64_MAX \<notin> set ts"
  shows "on_chain h seed start (chain_after h cap out c ts)"
  using assms(3,4)
proof (induction ts arbitrary: c)
  case (Cons t ts)
  show ?case
  proof (cases "fst (fzn_ratchet_advance (Some (Some h)) (Some c) t False cap out) = FZN_RATCHET_OK")
    case True
    note range = advance_range [OF True]
    show ?thesis
      using Cons.IH [OF on_chain_next [OF Cons.prems(1)]] advance_total [OF assms(1,2)] range Cons.prems(2) by auto
  next
    case False
    then have "chain_after h cap out c (t # ts) = chain_after h cap out c ts" by (auto split: prod.split fzn_ratchet_err.split)
    then show ?thesis using Cons by simp
  qed
qed simp

lemma on_chain_init: "on_chain h seed start (the (fzn_ratchet_init (Some c) (Some seed) start))"
  by (simp add: fzn_ratchet_init_def on_chain_def)

lemma chain_after_key:
  assumes "hash_total h" and "out_ready cap out" and "on_chain h seed start c" and "UINT64_MAX \<notin> set ts"
    and "ra_seq (chain_after h cap out c ts) \<le> t" and "t - ra_seq (chain_after h cap out c ts) \<le> FZN_RATCHET_MAX_ADVANCE"
  shows "\<exists>r. fzn_ratchet_advance (Some (Some h)) (Some (chain_after h cap out c ts)) t False cap out = (FZN_RATCHET_OK, r) \<and>
    ro_message_key r = Some (message_key h ((next_key h ^^ unat (t - start)) seed))"
  using advance_total [OF assms(1,2,5,6)] on_chain_steps [OF chain_after_on [OF assms(1-4)] assms(5)] by simp

lemma derive_ok: "fzn_ratchet_derive hash k = (FZN_RATCHET_OK, r) \<Longrightarrow> r \<noteq> None"
  by (auto simp: fzn_ratchet_derive_def split: option.splits)

lemma skip_loop_seq: "skip_loop hash cap n w = (FZN_RATCHET_OK, w') \<Longrightarrow> ra_seq (rk_chain w') = ra_seq (rk_chain w) + of_nat n"
proof (induction n arbitrary: w)
  case (Suc n)
  have seq: "ra_seq (rk_chain (skip_one cap m k w)) = ra_seq (rk_chain w) + 1" for m k by (simp add: skip_one_def Let_def split: option.splits)
  obtain m k where "skip_loop hash cap n (skip_one cap m k w) = (FZN_RATCHET_OK, w')"
    using Suc.prems derive_ok by (fastforce split: prod.splits fzn_ratchet_err.splits option.splits)
  then show ?case using Suc.IH seq by (simp add: add.assoc)
qed simp

text \<open>Whatever the hash does, a walk that is ok ends just after its target; any other leaves the outputs alone.\<close>

lemma walk_cases:
  assumes "ratchet_walk hash c jump cap out = (err, out')"
  shows "if err = FZN_RATCHET_OK then \<exists>k. ro_to out' = Some \<lparr>ra_key = k, ra_seq = ra_seq c + jump + 1\<rparr>
    else out' = out\<lparr>ro_skipped := ro_skipped out'\<rparr>"
proof -
  obtain e w where loop: "skip_loop hash cap (unat jump) \<lparr>rk_chain = c, rk_skipped = ro_skipped out, rk_kept = 0, rk_lost = 0\<rparr> = (e, w)" by fastforce
  obtain d r where derive: "fzn_ratchet_derive hash (Some (ra_key (rk_chain w))) = (d, r)" by fastforce
  show ?thesis
  proof (cases "e = FZN_RATCHET_OK \<and> d = FZN_RATCHET_OK")
    case True
    then have "ra_seq (rk_chain w) = ra_seq c + jump" using skip_loop_seq loop by fastforce
    moreover obtain m k where "r = Some (m, k)" using derive_ok True derive by fastforce
    ultimately show ?thesis using True assms by (auto simp: ratchet_walk_def loop derive)
  next
    case False
    then have "err = (if e = FZN_RATCHET_OK then d else e) \<and> out' = out\<lparr>ro_skipped := rk_skipped w\<rparr>"
      using assms by (cases e; cases d) (auto simp: ratchet_walk_def loop derive)
    then show ?thesis using False by auto
  qed
qed

lemma advance_cases:
  assumes "fzn_ratchet_advance hash src target in_place cap out = (err, out')"
  shows "if err = FZN_RATCHET_OK then hash \<noteq> None \<and> (\<exists>k. ro_to out' = Some \<lparr>ra_key = k, ra_seq = target + 1\<rparr>)
    else out' = out\<lparr>ro_skipped := ro_skipped out'\<rparr>"
proof (cases "out' = out \<and> err \<noteq> FZN_RATCHET_OK")
  case False
  then have "hash \<noteq> None" "ratchet_walk hash (the src) (target - ra_seq (the src)) cap out = (err, out')"
    using assms by (auto simp: fzn_ratchet_advance_def Let_def split: if_splits)
  then show ?thesis using walk_cases by fastforce
qed simp

text \<open>A walk that fails without the hash having failed did not get as far as writing anything.\<close>

lemma derive_errs: "fst (fzn_ratchet_derive (Some (Some h)) (Some k)) \<in> {FZN_RATCHET_OK, FZN_RATCHET_ERR_HASH}"
  by (simp add: fzn_ratchet_derive_def split: option.split)

lemma skip_loop_errs: "fst (skip_loop (Some (Some h)) cap n w) \<in> {FZN_RATCHET_OK, FZN_RATCHET_ERR_HASH}"
proof (induction n arbitrary: w)
  case (Suc n)
  then show ?case using derive_errs [of h "ra_key (rk_chain w)"] derive_ok
    by (auto simp del: insert_iff split: prod.splits fzn_ratchet_err.splits option.splits)
qed simp

lemma walk_refuses:
  assumes "ratchet_walk hash c jump cap out = (err, out')" and "err \<notin> {FZN_RATCHET_OK, FZN_RATCHET_ERR_HASH}"
  shows "out' = out"
proof (cases "\<exists>h. hash = Some (Some h)")
  case True
  then obtain h where h: "hash = Some (Some h)" by blast
  obtain e w where loop: "skip_loop hash cap (unat jump) \<lparr>rk_chain = c, rk_skipped = ro_skipped out, rk_kept = 0, rk_lost = 0\<rparr> = (e, w)" by fastforce
  obtain d r where derive: "fzn_ratchet_derive hash (Some (ra_key (rk_chain w))) = (d, r)" by fastforce
  have "e = FZN_RATCHET_OK \<or> e = FZN_RATCHET_ERR_HASH" "d = FZN_RATCHET_OK \<or> d = FZN_RATCHET_ERR_HASH"
    using skip_loop_errs [of h] derive_errs [of h] loop derive h by (metis fst_conv insertE singletonD)+
  then have "err \<in> {FZN_RATCHET_OK, FZN_RATCHET_ERR_HASH}"
    using assms(1) derive_ok derive by (auto simp: ratchet_walk_def loop split: option.splits)
  then show ?thesis using assms(2) by blast
next
  case False
  then have derive: "fzn_ratchet_derive hash k = (FZN_RATCHET_ERR_MALFORMED, None)" for k
    by (auto simp: fzn_ratchet_derive_def split: option.split)
  show ?thesis using assms(1) by (cases "unat jump") (auto simp: ratchet_walk_def derive)
qed

text \<open>
  C31. A refusal gives nothing away: unless the answer is ok, the message key, the chain and the two counts
  of the caller are what they were, whatever the hash does. The buffer of skipped keys is what it was too,
  except when the hash itself failed on the way, which leaves there the keys already derived. After an
  answer that is ok, every sequence number up to the one asked for is behind the chain returned and is
  refused with everything left alone, so no number is handed out twice; the last number of all is the
  exception, because the position after it wraps to zero.
\<close>

theorem ratchet_refuses_cleanly:
  assumes "fzn_ratchet_advance hash src target in_place cap out = (err, out')"
  shows "if err \<noteq> FZN_RATCHET_OK
    then out' = out\<lparr>ro_skipped := ro_skipped out'\<rparr> \<and> (err \<noteq> FZN_RATCHET_ERR_HASH \<longrightarrow> out' = out)
    else target \<noteq> UINT64_MAX \<longrightarrow> seq \<le> target \<longrightarrow> out_ready cap2 out2 \<longrightarrow>
      fzn_ratchet_advance hash (ro_to out') seq False cap2 out2 = (FZN_RATCHET_ERR_BEHIND, out2)"
proof (cases "err = FZN_RATCHET_OK")
  case False
  have "err = FZN_RATCHET_ERR_HASH \<or> out' = out"
    using assms False walk_refuses by (fastforce simp: fzn_ratchet_advance_def Let_def split: if_splits)
  then show ?thesis using False advance_cases [OF assms] by auto
next
  case True
  then obtain k where to: "hash \<noteq> None" "ro_to out' = Some \<lparr>ra_key = k, ra_seq = target + 1\<rparr>" using advance_cases [OF assms] by auto
  have "seq < target + 1" if "target \<noteq> UINT64_MAX" "seq \<le> target"
  proof -
    have "unat target \<noteq> unat UINT64_MAX" using that(1) word_unat_eq_iff by blast
    then have "unat target + 1 < 2 ^ 64" using unat_u64 [of target] by (simp add: unat_UINT64_MAX)
    then show ?thesis using that(2) by (simp add: word_less_nat_alt word_le_nat_alt unat_word_ariths)
  qed
  then show ?thesis using True to by (cases "ro_skipped out2") (auto simp: fzn_ratchet_advance_def out_ready_def)
qed

theorem ratchet_refuses_cleanly_witness:
  "\<exists>out. fzn_ratchet_advance (Some (Some demo_hash)) (Some \<lparr>ra_key = [1], ra_seq = 4\<rparr>) 6 False 0 demo_out = (FZN_RATCHET_OK, out) \<and>
     fzn_ratchet_advance (Some (Some demo_hash)) (ro_to out) 5 False 0 demo_out = (FZN_RATCHET_ERR_BEHIND, demo_out) \<and>
     (\<exists>out'. fzn_ratchet_advance (Some (Some (\<lambda>n b. None))) (Some \<lparr>ra_key = [1], ra_seq = 4\<rparr>) 6 False 0 demo_out = (FZN_RATCHET_ERR_HASH, out') \<and>
       ro_to out' = ro_to demo_out)"
proof -
  obtain out where "fzn_ratchet_advance (Some (Some demo_hash)) (Some \<lparr>ra_key = [1], ra_seq = 4\<rparr>) 6 False 0 demo_out = (FZN_RATCHET_OK, out)"
    using advance_total [OF demo_ratchet, of "\<lparr>ra_key = [1], ra_seq = 4\<rparr>" 6] by simp
  moreover have "fst (fzn_ratchet_advance (Some (Some (\<lambda>n b. None))) (Some \<lparr>ra_key = [1], ra_seq = 4\<rparr>) 6 False 0 demo_out) = FZN_RATCHET_ERR_HASH"
    by code_simp
  then obtain out' where bad: "fzn_ratchet_advance (Some (Some (\<lambda>n b. None))) (Some \<lparr>ra_key = [1], ra_seq = 4\<rparr>) 6 False 0 demo_out = (FZN_RATCHET_ERR_HASH, out')"
    by (metis prod.collapse)
  have "out' = demo_out\<lparr>ro_skipped := ro_skipped out'\<rparr>" using ratchet_refuses_cleanly [OF bad] by simp
  then have "ro_to out' = ro_to demo_out" by (metis ratchet_out.select_convs(2) ratchet_out.surjective ratchet_out.update_convs(3))
  ultimately show ?thesis using bad ratchet_refuses_cleanly [of _ _ 6 _ _ _ FZN_RATCHET_OK out 5 0 demo_out] demo_ratchet(2) by auto
qed

end
