(* ===== verification/Session.thy ===== *)
theory Session
  imports Ratchet
begin

text \<open>
  How two hosts come to share keys: the agreement over deletable secrets (\<open>session/agree.c\<close>), the session
  transcript, the two forms of establishment and the chains of each direction (\<open>session/session.c\<close>), and
  boxes sealed to a public key (\<open>session/box.c\<close>). The agreement, the hash, the cipher and the source of
  randomness are parameters; the contract of the agreement is that the two halves of it commute.

  A buffer that only holds secrets on the way is wiped by the code before it is left and has no
  counterpart here.
\<close>

section \<open>Agreement\<close>

datatype fzn_agree_err = FZN_AGREE_OK | FZN_AGREE_ERR_MALFORMED | FZN_AGREE_ERR_OPS | FZN_AGREE_ERR_DEGENERATE | FZN_AGREE_ERR_ABSENT

abbreviation FZN_AGREE_SECRET_LEN :: nat where "FZN_AGREE_SECRET_LEN \<equiv> 32"
abbreviation FZN_AGREE_PUBLIC_LEN :: nat where "FZN_AGREE_PUBLIC_LEN \<equiv> 32"
abbreviation FZN_AGREE_SHARED_LEN :: nat where "FZN_AGREE_SHARED_LEN \<equiv> 32"

record fzn_agree_ops =
  ag_public_of :: "(bytes \<Rightarrow> bytes option) option"
  ag_agree :: "(bytes \<Rightarrow> bytes \<Rightarrow> bytes option) option"

record fzn_agree_secret =
  as_secret :: bytes
  as_public_key :: bytes
  as_generation :: u64
  as_live :: bool

definition fzn_agree_secret_install :: "fzn_agree_secret option \<Rightarrow> fzn_agree_ops option \<Rightarrow> bytes option \<Rightarrow>
    fzn_agree_err \<times> fzn_agree_secret option" where
  "fzn_agree_secret_install sk ops secret =
     (if sk = None \<or> secret = None then (FZN_AGREE_ERR_MALFORMED, sk)
      else if ops = None \<or> ag_public_of (the ops) = None then (FZN_AGREE_ERR_OPS, sk)
      else (case the (ag_public_of (the ops)) (the secret) of
          None \<Rightarrow> (FZN_AGREE_ERR_OPS, sk)
        | Some public_key \<Rightarrow>
          (FZN_AGREE_OK, Some \<lparr>as_secret = the secret, as_public_key = public_key,
             as_generation = (if as_live (the sk) then as_generation (the sk) + 1 else 0), as_live = True\<rparr>)))"

definition fzn_agree_secret_public :: "fzn_agree_secret option \<Rightarrow> bytes option" where
  "fzn_agree_secret_public sk = (if sk = None \<or> \<not> as_live (the sk) then None else Some (as_public_key (the sk)))"

definition fzn_agree_secret_generation :: "fzn_agree_secret option \<Rightarrow> u64" where
  "fzn_agree_secret_generation sk = (if sk \<noteq> None \<and> as_live (the sk) then as_generation (the sk) else 0)"

text \<open>The second component is what \<open>shared_out\<close> was given, \<open>None\<close> while it is untouched.\<close>

definition fzn_agree_shared :: "fzn_agree_secret option \<Rightarrow> fzn_agree_ops option \<Rightarrow> bytes option \<Rightarrow> fzn_agree_err \<times> bytes option" where
  "fzn_agree_shared sk ops peer_public =
     (if sk = None \<or> peer_public = None then (FZN_AGREE_ERR_MALFORMED, None)
      else if ops = None \<or> ag_agree (the ops) = None then (FZN_AGREE_ERR_OPS, None)
      else if \<not> as_live (the sk) then (FZN_AGREE_ERR_ABSENT, None)
      else (case the (ag_agree (the ops)) (as_secret (the sk)) (the peer_public) of
          None \<Rightarrow> (FZN_AGREE_ERR_DEGENERATE, Some (replicate FZN_AGREE_SHARED_LEN 0))
        | Some shared \<Rightarrow> (FZN_AGREE_OK, Some shared)))"

definition fzn_agree_secret_wipe :: "fzn_agree_secret option \<Rightarrow> fzn_agree_secret option" where
  "fzn_agree_secret_wipe sk = map_option (\<lambda>s. \<lparr>as_secret = the (fzn_wipe (Some (as_secret s)) FZN_AGREE_SECRET_LEN),
     as_public_key = replicate FZN_AGREE_PUBLIC_LEN 0, as_generation = 0, as_live = False\<rparr>) sk"

definition fzn_agree_err_str :: "fzn_agree_err \<Rightarrow> string" where
  "fzn_agree_err_str err =
     (case err of FZN_AGREE_OK \<Rightarrow> ''ok'' | FZN_AGREE_ERR_MALFORMED \<Rightarrow> ''malformed argument''
      | FZN_AGREE_ERR_OPS \<Rightarrow> ''agreement ops refused or absent''
      | FZN_AGREE_ERR_DEGENERATE \<Rightarrow> ''peer public key yields no contributory secret''
      | FZN_AGREE_ERR_ABSENT \<Rightarrow> ''no secret installed, or it has been wiped'')"

section \<open>Sessions\<close>

datatype fzn_session_err = FZN_SESSION_OK | FZN_SESSION_ERR_MALFORMED | FZN_SESSION_ERR_SELF | FZN_SESSION_ERR_AGREE | FZN_SESSION_ERR_HASH

abbreviation FZN_SESSION_IDENTITY_LEN :: nat where "FZN_SESSION_IDENTITY_LEN \<equiv> 32"
abbreviation FZN_SESSION_TRANSCRIPT_VERSION :: u8 where "FZN_SESSION_TRANSCRIPT_VERSION \<equiv> 1"
abbreviation FZN_SESSION_TRANSCRIPT_V2 :: u8 where "FZN_SESSION_TRANSCRIPT_V2 \<equiv> 2"
abbreviation FZN_SESSION_TRANSCRIPT_LEN :: nat where "FZN_SESSION_TRANSCRIPT_LEN \<equiv> 177"
abbreviation FZN_SESSION_TRANSCRIPT_V2_LEN :: nat where "FZN_SESSION_TRANSCRIPT_V2_LEN \<equiv> 241"

definition FZN_SESSION_LABEL :: bytes where
  "FZN_SESSION_LABEL = ascii ''fuzznet-sess-v1'' @ [0]"

definition FZN_SESSION_DIR_LABEL :: bytes where
  "FZN_SESSION_DIR_LABEL = ascii ''fuzznet-dir-v1'' @ [0, 0]"

text \<open>\<open>memcmp\<close> below zero: the first byte that differs is the smaller one.\<close>

fun memcmp_less :: "bytes \<Rightarrow> bytes \<Rightarrow> bool" where
  "memcmp_less (a # as) (b # bs) = (a < b \<or> a = b \<and> memcmp_less as bs)"
| "memcmp_less _ _ = False"

definition fzn_session_transcript :: "bytes option \<Rightarrow> bytes option \<Rightarrow> bytes option \<Rightarrow> bytes option \<Rightarrow> bytes option \<Rightarrow>
    fzn_session_err \<times> bytes option" where
  "fzn_session_transcript self_identity self_prekey peer_identity peer_prekey shared =
     (case (self_identity, self_prekey, peer_identity, peer_prekey, shared) of
        (Some si, Some sp, Some pi, Some pp, Some sh) \<Rightarrow>
          if si = pi then (FZN_SESSION_ERR_SELF, None)
          else let (first_id, first_pk, second_id, second_pk) =
                     (if memcmp_less si pi then (si, sp, pi, pp) else (pi, pp, si, sp))
               in (FZN_SESSION_OK, Some (FZN_SESSION_LABEL @ [FZN_SESSION_TRANSCRIPT_VERSION] @ first_id @ first_pk @ second_id @ second_pk @ sh))
      | _ \<Rightarrow> (FZN_SESSION_ERR_MALFORMED, None))"

definition root_of :: "fzn_hash_fn option \<Rightarrow> bytes \<Rightarrow> fzn_session_err \<times> (bytes \<times> bytes) option" where
  "root_of hash transcript =
     (case fzn_commitment_derive_root hash (Some transcript) of
        (FZN_COMMITMENT_OK, keys) \<Rightarrow> (FZN_SESSION_OK, keys)
      | (_, keys) \<Rightarrow> (FZN_SESSION_ERR_HASH, keys))"

definition fzn_session_establish :: "fzn_agree_secret option \<Rightarrow> fzn_agree_ops option \<Rightarrow> fzn_hash_fn option \<Rightarrow> bytes option \<Rightarrow> bytes option \<Rightarrow>
    bytes option \<Rightarrow> fzn_session_err \<times> (bytes \<times> bytes) option" where
  "fzn_session_establish self_prekey agree hash self_identity peer_identity peer_prekey =
     (if self_prekey = None \<or> self_identity = None \<or> peer_identity = None \<or> peer_prekey = None then (FZN_SESSION_ERR_MALFORMED, None)
      else (case fzn_agree_secret_public self_prekey of
          None \<Rightarrow> (FZN_SESSION_ERR_AGREE, None)
        | Some self_pk \<Rightarrow>
          let (aerr, shared) = fzn_agree_shared self_prekey agree peer_prekey in
          if aerr \<noteq> FZN_AGREE_OK then (FZN_SESSION_ERR_AGREE, None)
          else let (err, transcript) = fzn_session_transcript self_identity (Some self_pk) peer_identity peer_prekey shared in
            if err \<noteq> FZN_SESSION_OK then (err, None)
            else root_of hash (the transcript)))"

definition transcript_v2 :: "bytes \<Rightarrow> bytes \<Rightarrow> bytes \<Rightarrow> bytes \<Rightarrow> bytes \<Rightarrow> bytes \<Rightarrow> bytes \<Rightarrow> fzn_session_err \<times> bytes option" where
  "transcript_v2 initiator_id initiator_prekey responder_id responder_prekey ephemeral_public prekey_shared ephemeral_shared =
     (if initiator_id = responder_id then (FZN_SESSION_ERR_SELF, None)
      else (FZN_SESSION_OK, Some (FZN_SESSION_LABEL @ [FZN_SESSION_TRANSCRIPT_V2] @ initiator_id @ initiator_prekey @ responder_id @
        responder_prekey @ ephemeral_public @ prekey_shared @ ephemeral_shared)))"

definition fzn_session_establish_initiator :: "fzn_agree_secret option \<Rightarrow> fzn_agree_secret option \<Rightarrow> fzn_agree_ops option \<Rightarrow> fzn_hash_fn option \<Rightarrow>
    bytes option \<Rightarrow> bytes option \<Rightarrow> bytes option \<Rightarrow> fzn_session_err \<times> (bytes \<times> bytes) option" where
  "fzn_session_establish_initiator self_prekey ephemeral agree hash self_identity peer_identity peer_prekey =
     (if self_prekey = None \<or> ephemeral = None \<or> self_identity = None \<or> peer_identity = None \<or> peer_prekey = None
      then (FZN_SESSION_ERR_MALFORMED, None)
      else (case (fzn_agree_secret_public self_prekey, fzn_agree_secret_public ephemeral) of
          (Some self_pk, Some eph_pk) \<Rightarrow>
            let (aerr, dh_prekey) = fzn_agree_shared self_prekey agree peer_prekey in
            if aerr \<noteq> FZN_AGREE_OK then (FZN_SESSION_ERR_AGREE, None)
            else let (aerr, dh_ephemeral) = fzn_agree_shared ephemeral agree peer_prekey in
              if aerr \<noteq> FZN_AGREE_OK then (FZN_SESSION_ERR_AGREE, None)
              else let (err, transcript) = transcript_v2 (the self_identity) self_pk (the peer_identity) (the peer_prekey) eph_pk
                         (the dh_prekey) (the dh_ephemeral) in
                if err \<noteq> FZN_SESSION_OK then (err, None) else root_of hash (the transcript)
        | _ \<Rightarrow> (FZN_SESSION_ERR_AGREE, None)))"

definition fzn_session_establish_responder :: "fzn_agree_secret option \<Rightarrow> fzn_agree_ops option \<Rightarrow> fzn_hash_fn option \<Rightarrow>
    bytes option \<Rightarrow> bytes option \<Rightarrow> bytes option \<Rightarrow> bytes option \<Rightarrow> fzn_session_err \<times> (bytes \<times> bytes) option" where
  "fzn_session_establish_responder self_prekey agree hash self_identity peer_identity peer_prekey peer_ephemeral =
     (if self_prekey = None \<or> self_identity = None \<or> peer_identity = None \<or> peer_prekey = None \<or> peer_ephemeral = None
      then (FZN_SESSION_ERR_MALFORMED, None)
      else (case fzn_agree_secret_public self_prekey of
          None \<Rightarrow> (FZN_SESSION_ERR_AGREE, None)
        | Some self_pk \<Rightarrow>
          let (aerr, dh_prekey) = fzn_agree_shared self_prekey agree peer_prekey in
          if aerr \<noteq> FZN_AGREE_OK then (FZN_SESSION_ERR_AGREE, None)
          else let (aerr, dh_ephemeral) = fzn_agree_shared self_prekey agree peer_ephemeral in
            if aerr \<noteq> FZN_AGREE_OK then (FZN_SESSION_ERR_AGREE, None)
            else let (err, transcript) = transcript_v2 (the peer_identity) (the peer_prekey) (the self_identity) self_pk (the peer_ephemeral)
                       (the dh_prekey) (the dh_ephemeral) in
              if err \<noteq> FZN_SESSION_OK then (err, None) else root_of hash (the transcript)))"

definition chain_for :: "fzn_hash_fn \<Rightarrow> bytes \<Rightarrow> bytes \<Rightarrow> bytes \<Rightarrow> bytes option" where
  "chain_for h key sender receiver = h FZN_CHAIN_KEY_LEN (FZN_SESSION_DIR_LABEL @ sender @ receiver @ key)"

text \<open>The chains, sending first; after an error of the hash whatever was written is wiped.\<close>

definition fzn_session_chains :: "fzn_hash_fn option \<Rightarrow> bytes option \<Rightarrow> bytes option \<Rightarrow> bytes option \<Rightarrow> fzn_session_err \<times> (bytes \<times> bytes) option" where
  "fzn_session_chains hash key self_identity peer_identity =
     (case (key, self_identity, peer_identity) of
        (Some k, Some si, Some pi) \<Rightarrow>
          (case hash of None \<Rightarrow> (FZN_SESSION_ERR_HASH, None)
           | Some h \<Rightarrow>
             if si = pi then (FZN_SESSION_ERR_SELF, None)
             else (case chain_for h k si pi of None \<Rightarrow> (FZN_SESSION_ERR_HASH, None)
                 | Some send_chain \<Rightarrow>
                   (case chain_for h k pi si of None \<Rightarrow> (FZN_SESSION_ERR_HASH, None)
                    | Some recv_chain \<Rightarrow> (FZN_SESSION_OK, Some (send_chain, recv_chain)))))
      | _ \<Rightarrow> (FZN_SESSION_ERR_MALFORMED, None))"

definition fzn_session_err_str :: "fzn_session_err \<Rightarrow> string" where
  "fzn_session_err_str err =
     (case err of FZN_SESSION_OK \<Rightarrow> ''ok'' | FZN_SESSION_ERR_MALFORMED \<Rightarrow> ''malformed argument''
      | FZN_SESSION_ERR_SELF \<Rightarrow> ''both identities are the same key''
      | FZN_SESSION_ERR_AGREE \<Rightarrow> ''key agreement refused or unavailable'' | FZN_SESSION_ERR_HASH \<Rightarrow> ''hash refused or absent'')"

section \<open>Boxes\<close>

datatype fzn_box_err = FZN_BOX_OK | FZN_BOX_ERR_MALFORMED | FZN_BOX_ERR_SHAPE | FZN_BOX_ERR_OPEN | FZN_BOX_ERR_OPS

abbreviation FZN_BOX_MARK :: u8 where "FZN_BOX_MARK \<equiv> 0xFB"
abbreviation FZN_BOX_VERSION :: u8 where "FZN_BOX_VERSION \<equiv> 1"
abbreviation FZN_BOX_HEAD_LEN :: nat where "FZN_BOX_HEAD_LEN \<equiv> 34"
abbreviation FZN_BOX_OVERHEAD :: nat where "FZN_BOX_OVERHEAD \<equiv> 50"

definition FZN_BOX_LABEL :: bytes where
  "FZN_BOX_LABEL = ascii ''fuzznet.box'' @ [0]"

definition fzn_box_err_str :: "fzn_box_err \<Rightarrow> string" where
  "fzn_box_err_str err =
     (case err of FZN_BOX_OK \<Rightarrow> ''ok'' | FZN_BOX_ERR_MALFORMED \<Rightarrow> ''malformed'' | FZN_BOX_ERR_SHAPE \<Rightarrow> ''not a box''
      | FZN_BOX_ERR_OPEN \<Rightarrow> ''not sealed to this key, or altered'' | FZN_BOX_ERR_OPS \<Rightarrow> ''the randomness or the agreement refused'')"

definition fzn_box_is :: "bytes option \<Rightarrow> bool" where
  "fzn_box_is b \<longleftrightarrow> b \<noteq> None \<and> length (the b) \<ge> FZN_BOX_OVERHEAD \<and> the b ! 0 = FZN_BOX_MARK \<and> the b ! 1 = FZN_BOX_VERSION"

definition box_key :: "fzn_hash_fn \<Rightarrow> bytes \<Rightarrow> bytes \<Rightarrow> bytes \<Rightarrow> bytes option" where
  "box_key h eph recipient shared = h FZN_AEAD_KEY_LEN (FZN_BOX_LABEL @ eph @ recipient @ shared)"

abbreviation box_nonce :: bytes where "box_nonce \<equiv> replicate FZN_AEAD_NONCE_LEN 0"

text \<open>The key a box is sealed under and the public half of the secret drawn for it.\<close>

definition box_draw :: "fzn_agree_ops \<Rightarrow> fzn_hash_fn \<Rightarrow> (nat \<Rightarrow> bytes option) \<Rightarrow> bytes \<Rightarrow> (bytes \<times> bytes) option" where
  "box_draw agree h fill recipient =
     (case fill FZN_AGREE_SECRET_LEN of None \<Rightarrow> None
      | Some seed \<Rightarrow>
        (case fzn_agree_secret_install (Some \<lparr>as_secret = replicate 32 0, as_public_key = replicate 32 0, as_generation = 0, as_live = False\<rparr>)
                (Some agree) (Some seed) of
           (FZN_AGREE_OK, eph) \<Rightarrow>
             (case fzn_agree_shared eph (Some agree) (Some recipient) of
                (FZN_AGREE_OK, Some shared) \<Rightarrow>
                  map_option (\<lambda>key. (the (fzn_agree_secret_public eph), key)) (box_key h (the (fzn_agree_secret_public eph)) recipient shared)
              | _ \<Rightarrow> None)
         | _ \<Rightarrow> None))"

text \<open>
  \<open>out\<close> is the caller's buffer of \<open>cap\<close> bytes. The cipher's operations are taken to be present, as the
  code takes them. A cipher that refuses leaves the head and the payload in the buffer.
\<close>

definition fzn_box_seal :: "fzn_agree_ops option \<Rightarrow> fzn_hash_fn option \<Rightarrow> fzn_aead_ops option \<Rightarrow> fzn_random_ops option \<Rightarrow> bytes option \<Rightarrow>
    bytes option \<Rightarrow> nat \<Rightarrow> bytes option \<Rightarrow> nat \<Rightarrow> fzn_box_err \<times> bytes option \<times> nat option" where
  "fzn_box_seal agree hash aead rng recipient payload len out cap =
     (if agree = None \<or> hash = None \<or> aead = None \<or> rng = None \<or> the rng = None \<or> recipient = None \<or> (payload = None \<and> len \<noteq> 0) \<or>
         out = None \<or> cap < FZN_BOX_OVERHEAD \<or> cap - FZN_BOX_OVERHEAD < len then (FZN_BOX_ERR_MALFORMED, out, None)
      else (case box_draw (the agree) (the hash) (the (the rng)) (the recipient) of
          None \<Rightarrow> (FZN_BOX_ERR_OPS, out, None)
        | Some (eph_pk, key) \<Rightarrow>
          let head = [FZN_BOX_MARK, FZN_BOX_VERSION] @ eph_pk;
              text = (if len \<noteq> 0 then take len (the payload) else []);
              out = put_at 0 (head @ text) (the out)
          in (case the (ao_seal (the aead)) key box_nonce head text of
                None \<Rightarrow> (FZN_BOX_ERR_OPS, Some out, None)
              | Some (cipher, tag) \<Rightarrow> (FZN_BOX_OK, Some (put_at FZN_BOX_HEAD_LEN (cipher @ tag) out), Some (FZN_BOX_OVERHEAD + len)))))"

definition fzn_box_open :: "fzn_agree_secret option \<Rightarrow> fzn_agree_ops option \<Rightarrow> fzn_hash_fn option \<Rightarrow> fzn_aead_ops option \<Rightarrow>
    bytes option \<Rightarrow> bytes option \<Rightarrow> nat \<Rightarrow> fzn_box_err \<times> bytes option \<times> nat option" where
  "fzn_box_open secret agree hash aead box out cap =
     (if secret = None \<or> agree = None \<or> hash = None \<or> aead = None \<or> box = None \<or> out = None then (FZN_BOX_ERR_MALFORMED, out, None)
      else if \<not> fzn_box_is box then (FZN_BOX_ERR_SHAPE, out, None)
      else let b = the box; n = length b - FZN_BOX_OVERHEAD; eph = bytes_at 2 FZN_AGREE_PUBLIC_LEN b in
        if cap < n then (FZN_BOX_ERR_MALFORMED, out, None)
        else (case fzn_agree_secret_public secret of None \<Rightarrow> (FZN_BOX_ERR_OPEN, out, None)
            | Some own_pk \<Rightarrow>
              (case fzn_agree_shared secret agree (Some eph) of
                 (FZN_AGREE_OK, Some shared) \<Rightarrow>
                   (case box_key (the hash) eph own_pk shared of None \<Rightarrow> (FZN_BOX_ERR_OPEN, out, None)
                    | Some key \<Rightarrow>
                      (case the (ao_open (the aead)) key box_nonce (bytes_at 0 FZN_BOX_HEAD_LEN b) (bytes_at FZN_BOX_HEAD_LEN n b)
                              (bytes_at (FZN_BOX_HEAD_LEN + n) FZN_AEAD_TAG_LEN b) of
                         None \<Rightarrow> (FZN_BOX_ERR_OPEN, Some (put_at 0 (replicate n 0) (the out)), None)
                       | Some plain \<Rightarrow> (FZN_BOX_OK, Some (put_at 0 plain (the out)), Some n)))
               | _ \<Rightarrow> (FZN_BOX_ERR_OPEN, out, None))))"

section \<open>Both ends hold the same keys\<close>

text \<open>
  What is relied on of an agreement (\<open>session/agree.h\<close>): a secret and the public half of another give the
  same as the other secret with the public half of the first, and lengths are the ones of the types.
\<close>

definition agree_commutes :: "fzn_agree_ops \<Rightarrow> bool" where
  "agree_commutes ops \<longleftrightarrow>
     (case (ag_public_of ops, ag_agree ops) of
        (Some pub, Some agr) \<Rightarrow>
          (\<forall>a b pa pb. pub a = Some pa \<longrightarrow> pub b = Some pb \<longrightarrow> agr a pb = agr b pa) \<and>
          (\<forall>a pa. pub a = Some pa \<longrightarrow> length pa = FZN_AGREE_PUBLIC_LEN) \<and>
          (\<forall>a p s. agr a p = Some s \<longrightarrow> length s = FZN_AGREE_SHARED_LEN)
      | _ \<Rightarrow> False)"

text \<open>A secret as installing leaves it: live, with its own public half.\<close>

definition secret_wf :: "fzn_agree_ops \<Rightarrow> fzn_agree_secret \<Rightarrow> bool" where
  "secret_wf ops sk \<longleftrightarrow> as_live sk \<and> (\<exists>pub. ag_public_of ops = Some pub \<and> pub (as_secret sk) = Some (as_public_key sk))"

lemma install_wf: "fzn_agree_secret_install sk (Some ops) secret = (FZN_AGREE_OK, Some sk') \<Longrightarrow> secret_wf ops sk'"
  by (auto simp: fzn_agree_secret_install_def secret_wf_def split: if_splits option.splits)

lemma public_wf: "secret_wf ops sk \<Longrightarrow> fzn_agree_secret_public (Some sk) = Some (as_public_key sk)"
  by (simp add: fzn_agree_secret_public_def secret_wf_def)

lemma shared_commutes:
  assumes "agree_commutes ops" and "secret_wf ops a" and "secret_wf ops b"
  shows "fzn_agree_shared (Some a) (Some ops) (Some (as_public_key b)) = fzn_agree_shared (Some b) (Some ops) (Some (as_public_key a))"
proof -
  obtain pub agr where ops: "ag_public_of ops = Some pub" "ag_agree ops = Some agr"
    using assms(1) by (auto simp: agree_commutes_def split: option.splits)
  then have "agr (as_secret a) (as_public_key b) = agr (as_secret b) (as_public_key a)"
    using assms by (auto simp: agree_commutes_def secret_wf_def)
  then show ?thesis using assms(2,3) ops by (simp add: fzn_agree_shared_def secret_wf_def)
qed

lemma shared_some: "fzn_agree_shared sk ops peer \<noteq> (FZN_AGREE_OK, None)"
  by (auto simp: fzn_agree_shared_def split: option.splits)

text \<open>The order of the identities is one order, whoever asks.\<close>

lemma memcmp_total: "length a = length b \<Longrightarrow> a \<noteq> b \<Longrightarrow> memcmp_less a b \<longleftrightarrow> \<not> memcmp_less b a"
  by (induction a b rule: list_induct2) auto

lemma transcript_symmetric:
  assumes "length si = length pi"
  shows "fzn_session_transcript (Some si) (Some sp) (Some pi) (Some pp) (Some sh) = fzn_session_transcript (Some pi) (Some pp) (Some si) (Some sp) (Some sh)"
  using memcmp_total [OF assms] by (auto simp: fzn_session_transcript_def)

lemma establish_symmetric:
  assumes "agree_commutes ops" and "secret_wf ops a" and "secret_wf ops b"
    and "length ida = FZN_SESSION_IDENTITY_LEN" and "length idb = FZN_SESSION_IDENTITY_LEN"
  shows "fzn_session_establish (Some a) (Some ops) hash (Some ida) (Some idb) (Some (as_public_key b)) =
      fzn_session_establish (Some b) (Some ops) hash (Some idb) (Some ida) (Some (as_public_key a))"
proof -
  obtain err sh where ab: "fzn_agree_shared (Some a) (Some ops) (Some (as_public_key b)) = (err, sh)" by fastforce
  then have ba: "fzn_agree_shared (Some b) (Some ops) (Some (as_public_key a)) = (err, sh)" using shared_commutes [OF assms(1-3)] by simp
  have some: "sh \<noteq> None" if "err = FZN_AGREE_OK" using ab that shared_some by metis
  show ?thesis
  proof (cases "err = FZN_AGREE_OK")
    case False
    then show ?thesis by (simp add: fzn_session_establish_def public_wf [OF assms(2)] public_wf [OF assms(3)] ab ba)
  next
    case True
    then obtain s where "sh = Some s" using some by auto
    moreover have "fzn_session_transcript (Some ida) (Some (as_public_key a)) (Some idb) (Some (as_public_key b)) (Some s) =
        fzn_session_transcript (Some idb) (Some (as_public_key b)) (Some ida) (Some (as_public_key a)) (Some s)"
      using assms(4,5) by (intro transcript_symmetric) simp
    ultimately show ?thesis by (simp add: fzn_session_establish_def public_wf [OF assms(2)] public_wf [OF assms(3)] ab ba True)
  qed
qed

text \<open>
  C17. Two hosts that establish a session with each other's prekeys arrive at the same answer: the same
  session key and commitment key, or the same error. So do the two ends of an establishment with an
  ephemeral key, the initiator that drew it and the responder that was sent its public half.
\<close>

theorem sessions_agree:
  assumes "agree_commutes ops" and "secret_wf ops a" and "secret_wf ops b" and "secret_wf ops e"
    and "length ida = FZN_SESSION_IDENTITY_LEN" and "length idb = FZN_SESSION_IDENTITY_LEN"
  shows "fzn_session_establish (Some a) (Some ops) hash (Some ida) (Some idb) (Some (as_public_key b)) =
      fzn_session_establish (Some b) (Some ops) hash (Some idb) (Some ida) (Some (as_public_key a)) \<and>
    fzn_session_establish_initiator (Some a) (Some e) (Some ops) hash (Some ida) (Some idb) (Some (as_public_key b)) =
      fzn_session_establish_responder (Some b) (Some ops) hash (Some idb) (Some ida) (Some (as_public_key a)) (Some (as_public_key e))"
proof
  show "fzn_session_establish (Some a) (Some ops) hash (Some ida) (Some idb) (Some (as_public_key b)) =
      fzn_session_establish (Some b) (Some ops) hash (Some idb) (Some ida) (Some (as_public_key a))"
    by (rule establish_symmetric [OF assms(1-3,5,6)])
  have ab: "fzn_agree_shared (Some a) (Some ops) (Some (as_public_key b)) = fzn_agree_shared (Some b) (Some ops) (Some (as_public_key a))"
    by (rule shared_commutes [OF assms(1-3)])
  have eb: "fzn_agree_shared (Some e) (Some ops) (Some (as_public_key b)) = fzn_agree_shared (Some b) (Some ops) (Some (as_public_key e))"
    by (rule shared_commutes [OF assms(1,4,3)])
  show "fzn_session_establish_initiator (Some a) (Some e) (Some ops) hash (Some ida) (Some idb) (Some (as_public_key b)) =
      fzn_session_establish_responder (Some b) (Some ops) hash (Some idb) (Some ida) (Some (as_public_key a)) (Some (as_public_key e))"
    unfolding fzn_session_establish_initiator_def fzn_session_establish_responder_def public_wf [OF assms(2)] public_wf [OF assms(3)] public_wf [OF assms(4)] ab eb
    by (simp cong: if_cong split: prod.split)
qed

definition demo_agree :: fzn_agree_ops where
  "demo_agree = \<lparr>ag_public_of = Some (\<lambda>s. Some (replicate 32 (hd s))), ag_agree = Some (\<lambda>s p. Some (replicate 32 (hd s * hd p)))\<rparr>"

definition demo_secret :: "u8 \<Rightarrow> fzn_agree_secret" where
  "demo_secret x = \<lparr>as_secret = [x], as_public_key = replicate 32 x, as_generation = 0, as_live = True\<rparr>"

lemma demo_agreement: "agree_commutes demo_agree" "secret_wf demo_agree (demo_secret x)"
  by (auto simp: agree_commutes_def demo_agree_def secret_wf_def demo_secret_def mult.commute)

theorem sessions_agree_witness:
  "fzn_session_establish_initiator (Some (demo_secret 2)) (Some (demo_secret 5)) (Some demo_agree) (Some demo_hash) (Some (replicate 32 8)) (Some (replicate 32 9))
     (Some (as_public_key (demo_secret 3))) =
   fzn_session_establish_responder (Some (demo_secret 3)) (Some demo_agree) (Some demo_hash) (Some (replicate 32 9)) (Some (replicate 32 8))
     (Some (as_public_key (demo_secret 2))) (Some (as_public_key (demo_secret 5)))"
  by (rule sessions_agree [OF demo_agreement demo_agreement(2) demo_agreement(2), THEN conjunct2]) simp_all

text \<open>
  The chains of the two directions cross: what one end sends on, the other receives on. They differ
  in what is hashed, so a message reflected to its sender is not on the chain it expects.
\<close>

theorem session_chains_cross:
  "fzn_session_chains hash key ida idb = (FZN_SESSION_OK, Some (send, recv)) \<longleftrightarrow>
   fzn_session_chains hash key idb ida = (FZN_SESSION_OK, Some (recv, send))"
  by (auto simp: fzn_session_chains_def split: option.splits)

text \<open>
  A transcript binds everything that went into it: two first-form transcripts that are equal have
  the same two hosts, each with its own prekey, and the same shared secret; two second-form ones agree
  in every field and in who initiated; and a transcript of one form is never one of the other.
\<close>

definition peer_wf :: "bytes \<times> bytes \<Rightarrow> bool" where
  "peer_wf p \<longleftrightarrow> length (fst p) = FZN_SESSION_IDENTITY_LEN \<and> length (snd p) = FZN_AGREE_PUBLIC_LEN"

theorem transcripts_bind:
  assumes "peer_wf (i, ip)" and "peer_wf (r, rp)" and "peer_wf (i', ip')" and "peer_wf (r', rp')"
    and "length ep = FZN_AGREE_PUBLIC_LEN" and "length ep' = FZN_AGREE_PUBLIC_LEN" and "length ps = FZN_AGREE_SHARED_LEN" and "length ps' = FZN_AGREE_SHARED_LEN"
  shows "(fzn_session_transcript (Some i) (Some ip) (Some r) (Some rp) (Some sh) = (FZN_SESSION_OK, Some t1) \<longrightarrow>
      fzn_session_transcript (Some i') (Some ip') (Some r') (Some rp') (Some sh') = (FZN_SESSION_OK, Some t1) \<longrightarrow>
      {(i, ip), (r, rp)} = {(i', ip'), (r', rp')} \<and> sh = sh') \<and>
    (transcript_v2 i ip r rp ep ps es = (FZN_SESSION_OK, Some t2) \<longrightarrow> transcript_v2 i' ip' r' rp' ep' ps' es' = (FZN_SESSION_OK, Some t2) \<longrightarrow>
      (i, ip, r, rp, ep, ps, es) = (i', ip', r', rp', ep', ps', es')) \<and>
    (fzn_session_transcript (Some i) (Some ip) (Some r) (Some rp) (Some sh) = (FZN_SESSION_OK, Some t1) \<longrightarrow>
      transcript_v2 i' ip' r' rp' ep' ps' es' = (FZN_SESSION_OK, Some t2) \<longrightarrow> t1 \<noteq> t2)"
proof (intro conjI impI)
  note len = assms [unfolded peer_wf_def fst_conv snd_conv]
  show "{(i, ip), (r, rp)} = {(i', ip'), (r', rp')}" if "fzn_session_transcript (Some i) (Some ip) (Some r) (Some rp) (Some sh) = (FZN_SESSION_OK, Some t1)"
    "fzn_session_transcript (Some i') (Some ip') (Some r') (Some rp') (Some sh') = (FZN_SESSION_OK, Some t1)"
    using that len by (auto simp: fzn_session_transcript_def split: if_splits)
  show "sh = sh'" if "fzn_session_transcript (Some i) (Some ip) (Some r) (Some rp) (Some sh) = (FZN_SESSION_OK, Some t1)"
    "fzn_session_transcript (Some i') (Some ip') (Some r') (Some rp') (Some sh') = (FZN_SESSION_OK, Some t1)"
    using that len by (auto simp: fzn_session_transcript_def split: if_splits)
  show "(i, ip, r, rp, ep, ps, es) = (i', ip', r', rp', ep', ps', es')" if "transcript_v2 i ip r rp ep ps es = (FZN_SESSION_OK, Some t2)"
    "transcript_v2 i' ip' r' rp' ep' ps' es' = (FZN_SESSION_OK, Some t2)"
    using that len by (auto simp: transcript_v2_def split: if_splits)
  show "t1 \<noteq> t2" if "fzn_session_transcript (Some i) (Some ip) (Some r) (Some rp) (Some sh) = (FZN_SESSION_OK, Some t1)"
    "transcript_v2 i' ip' r' rp' ep' ps' es' = (FZN_SESSION_OK, Some t2)"
    using that by (auto simp: transcript_v2_def fzn_session_transcript_def split: if_splits)
qed

theorem transcripts_bind_witness:
  "fst (transcript_v2 (replicate 32 1) (replicate 32 2) (replicate 32 3) (replicate 32 4) (replicate 32 5) (replicate 32 6) []) = FZN_SESSION_OK \<and>
   snd (transcript_v2 (replicate 32 1) (replicate 32 2) (replicate 32 3) (replicate 32 4) (replicate 32 5) (replicate 32 6) []) \<noteq>
   snd (transcript_v2 (replicate 32 3) (replicate 32 4) (replicate 32 1) (replicate 32 2) (replicate 32 5) (replicate 32 6) [])"
proof -
  let ?t = "transcript_v2 (replicate 32 1) (replicate 32 2) (replicate 32 3) (replicate 32 4) (replicate 32 5) (replicate 32 6) []"
  let ?u = "transcript_v2 (replicate 32 3) (replicate 32 4) (replicate 32 1) (replicate 32 2) (replicate 32 5) (replicate 32 6) []"
  have ok: "fst ?t = FZN_SESSION_OK" "fst ?u = FZN_SESSION_OK" "snd ?t = Some (the (snd ?t))" "snd ?u = Some (the (snd ?u))"
    by (simp_all add: transcript_v2_def replicate_eq_replicate)
  have "snd ?t \<noteq> snd ?u"
  proof
    assume "snd ?t = snd ?u"
    then have "?t = (FZN_SESSION_OK, Some (the (snd ?t)))" "?u = (FZN_SESSION_OK, Some (the (snd ?t)))" using ok by (metis prod.collapse)+
    then show False
      using transcripts_bind [of "replicate 32 1" "replicate 32 2" "replicate 32 3" "replicate 32 4" "replicate 32 3" "replicate 32 4" "replicate 32 1" "replicate 32 2"
          "replicate 32 5" "replicate 32 5" "replicate 32 6" "replicate 32 6" "[]" "the (snd ?t)" "[]" "[]" "the (snd ?t)" "[]"]
      by (simp add: peer_wf_def replicate_eq_replicate)
  qed
  then show ?thesis using ok by simp
qed

section \<open>Boxes open\<close>

lemma draw_cases:
  assumes "agree_commutes ops" and "box_draw ops h fill recipient = Some (eph_pk, key)"
  obtains e shared where "secret_wf ops e" "as_public_key e = eph_pk" "length eph_pk = FZN_AGREE_PUBLIC_LEN"
    "fzn_agree_shared (Some e) (Some ops) (Some recipient) = (FZN_AGREE_OK, Some shared)" "box_key h eph_pk recipient shared = Some key"
proof -
  let ?none = "\<lparr>as_secret = replicate 32 0, as_public_key = replicate 32 0, as_generation = 0, as_live = False\<rparr>"
  obtain seed where seed: "fill FZN_AGREE_SECRET_LEN = Some seed" using assms(2) by (auto simp: box_draw_def split: option.splits)
  obtain err eph where ins: "fzn_agree_secret_install (Some ?none) (Some ops) (Some seed) = (err, eph)" by fastforce
  then obtain e where e: "eph = Some e" by (auto simp: fzn_agree_secret_install_def split: if_splits option.splits)
  have ok: "err = FZN_AGREE_OK" using assms(2) by (cases err) (simp_all add: box_draw_def seed ins)
  have wf: "secret_wf ops e" using ins e ok install_wf by blast
  obtain err2 sh where sh: "fzn_agree_shared (Some e) (Some ops) (Some recipient) = (err2, sh)" by fastforce
  have ok2: "err2 = FZN_AGREE_OK" using assms(2) by (cases err2) (simp_all add: box_draw_def seed ins ok e sh)
  obtain shared where shared: "sh = Some shared" using sh ok2 shared_some by (cases sh) auto
  have "eph_pk = as_public_key e \<and> box_key h (as_public_key e) recipient shared = Some key"
    using assms(2) by (auto simp: box_draw_def seed ins ok e sh ok2 shared public_wf [OF wf])
  moreover have "length (as_public_key e) = FZN_AGREE_PUBLIC_LEN"
    using assms(1) wf by (auto simp: agree_commutes_def secret_wf_def split: option.splits)
  ultimately show thesis using that wf sh ok2 shared by blast
qed

text \<open>
  A box sealed to a public key opens with its secret to exactly the payload, for every agreement that
  commutes and every cipher that opens what it sealed.
\<close>

theorem box_round_trip:
  assumes "agree_commutes ops" and "aead_inverts aead" and "secret_wf ops sk" and "length p = len"
    and "cap \<le> length out" and "n \<le> length buf"
    and "fzn_box_seal (Some ops) (Some h) (Some aead) rng (Some (as_public_key sk)) (Some p) len (Some out) cap = (FZN_BOX_OK, Some box, Some n)"
  shows "n = FZN_BOX_OVERHEAD + len \<and>
    fzn_box_open (Some sk) (Some ops) (Some h) (Some aead) (Some (take n box)) (Some buf) n = (FZN_BOX_OK, Some (put_at 0 p buf), Some len)"
proof -
  obtain aseal aopen where ops: "ao_seal aead = Some aseal" "ao_open aead = Some aopen"
    using assms(2) by (auto simp: aead_inverts_def split: option.splits)
  have inv: "length y = length x \<and> length t = FZN_AEAD_TAG_LEN \<and> aopen k m a y t = Some x" if "aseal k m a x = Some (y, t)" for k m a x y t
    using assms(2) that by (auto simp: aead_inverts_def ops)
  let ?fill = "the (the rng)" and ?r = "as_public_key sk"
  have guard: "FZN_BOX_OVERHEAD \<le> cap" "len \<le> cap - FZN_BOX_OVERHEAD"
    using assms(7) by (auto simp: fzn_box_seal_def split: if_splits)
  obtain eph_pk key where draw: "box_draw ops h ?fill ?r = Some (eph_pk, key)"
    using assms(7) by (auto simp: fzn_box_seal_def split: if_splits option.splits)
  from assms(1) draw obtain e shared where e: "secret_wf ops e" "as_public_key e = eph_pk" "length eph_pk = FZN_AGREE_PUBLIC_LEN"
      "fzn_agree_shared (Some e) (Some ops) (Some ?r) = (FZN_AGREE_OK, Some shared)" "box_key h eph_pk ?r shared = Some key"
    by (rule draw_cases)
  let ?head = "[FZN_BOX_MARK, FZN_BOX_VERSION] @ eph_pk"
  obtain y t where y: "aseal key box_nonce ?head p = Some (y, t)" and n: "n = FZN_BOX_OVERHEAD + len"
    and box: "box = put_at FZN_BOX_HEAD_LEN (y @ t) (put_at 0 (?head @ p) out)"
    using assms(4,7) by (auto simp: fzn_box_seal_def draw ops Let_def split: if_splits option.splits)
  note yt = inv [OF y]
  have "box = (?head @ y @ t) @ drop (FZN_BOX_HEAD_LEN + length (y @ t)) (put_at 0 (?head @ p) out)" "length (?head @ y @ t) = n"
    using yt e(3) assms(4) n by (simp_all add: box put_at_def)
  then have "take n box = ?head @ y @ t" by (metis append_eq_conv_conj)
  moreover have "fzn_agree_shared (Some sk) (Some ops) (Some eph_pk) = (FZN_AGREE_OK, Some shared)"
    using shared_commutes [OF assms(1,3) e(1)] e(2,4) by simp
  moreover have "bytes_at 2 FZN_AGREE_PUBLIC_LEN (?head @ y @ t) = eph_pk" "bytes_at 0 FZN_BOX_HEAD_LEN (?head @ y @ t) = ?head"
      "bytes_at FZN_BOX_HEAD_LEN len (?head @ y @ t) = y"
      "length (?head @ y @ t) = FZN_BOX_OVERHEAD + len" "fzn_box_is (Some (?head @ y @ t))"
    using yt e(3) assms(4) by (simp_all add: bytes_at_def fzn_box_is_def)
  moreover have "bytes_at (FZN_BOX_HEAD_LEN + len) FZN_AEAD_TAG_LEN ((?head @ y) @ t) = t"
    using yt e(3) assms(4) by (subst bytes_at_append_skip) simp_all
  ultimately show ?thesis
    using yt e(5) n public_wf [OF assms(3)] by (simp only: append_assoc) (simp add: fzn_box_open_def ops del: append_Cons append.simps)
qed

theorem box_round_trip_witness:
  "\<exists>box. fzn_box_seal (Some demo_agree) (Some demo_hash) (Some demo_aead) (Some (Some (\<lambda>n. Some (replicate n 6)))) (Some (as_public_key (demo_secret 3)))
      (Some [1, 2]) 2 (Some (replicate 60 0)) 60 = (FZN_BOX_OK, Some box, Some 52) \<and>
    fzn_box_open (Some (demo_secret 3)) (Some demo_agree) (Some demo_hash) (Some demo_aead) (Some (take 52 box)) (Some (replicate 52 0)) 52
      = (FZN_BOX_OK, Some (put_at 0 [1, 2] (replicate 52 0)), Some 2)"
proof -
  obtain box where box: "fzn_box_seal (Some demo_agree) (Some demo_hash) (Some demo_aead) (Some (Some (\<lambda>n. Some (replicate n 6)))) (Some (as_public_key (demo_secret 3)))
      (Some [1, 2]) 2 (Some (replicate 60 0)) 60 = (FZN_BOX_OK, Some box, Some 52)"
    by (simp add: fzn_box_seal_def box_draw_def fzn_agree_secret_install_def fzn_agree_shared_def fzn_agree_secret_public_def demo_agree_def demo_hash_def box_key_def
        demo_aead_def Let_def demo_secret_def)
  then show ?thesis using box_round_trip [OF demo_agreement(1) demo_seams(1) demo_agreement(2) _ _ _ box] by simp
qed

text \<open>A frame opens under a pair of keys to the sender, the capability and the payload of what was sent.\<close>

definition opens_to :: "fzn_hash_fn \<Rightarrow> fzn_aead_ops \<Rightarrow> bytes \<Rightarrow> bytes \<Rightarrow> bytes \<Rightarrow> fzn_send \<Rightarrow> bool" where
  "opens_to h aead key ck f what \<longleftrightarrow>
     (\<exists>g out. fzn_seal_open (Some f) (Some key) (Some ck) (Some h) aead = (FZN_SEAL_OK, Some g, Some out) \<and>
        Some (op_sender out) = se_sender what \<and> Some (op_capability out) = se_capability what \<and> op_payload out = sent_payload what)"

lemma hash_total_fills: "hash_total h \<Longrightarrow> hash_fills h"
  by (auto simp: hash_total_def hash_fills_def) (metis option.inject)

lemma built_opens_to:
  assumes "aead_inverts aead" and "hash_total h" and "random_fills rng" and "send_wf what"
    and "fzn_seal_build frame_cap what (Some key) (Some ck) (Some h) rng aead = (FZN_SEAL_OK, Some f)"
  shows "opens_to h aead key ck f what"
  using seal_build_opens [OF assms(1) hash_total_fills [OF assms(2)] assms(3-5)] unfolding opens_to_def by blast

lemma chains_cross:
  assumes "hash_total h" and "ida \<noteq> idb"
  obtains send recv where "fzn_session_chains (Some h) (Some key) (Some ida) (Some idb) = (FZN_SESSION_OK, Some (send, recv))"
    "fzn_session_chains (Some h) (Some key) (Some idb) (Some ida) = (FZN_SESSION_OK, Some (recv, send))"
proof -
  obtain send where "chain_for h key ida idb = Some send" using assms(1) unfolding hash_total_def chain_for_def by blast
  moreover obtain recv where "chain_for h key idb ida = Some recv" using assms(1) unfolding hash_total_def chain_for_def by blast
  ultimately show thesis using that assms(2) by (simp add: fzn_session_chains_def)
qed

text \<open>
  C4. The whole path of a message. When two hosts establish a session with each other's prekeys, both
  hold the same session key and commitment key, and a frame one of them seals under these opens at the other to the
  sender, the capability and the payload that were sent. The chain keys the session hands out cross: the one's sending
  chain is the other's receiving chain. With both set up at the same position, and whatever
  numbers each end has asked of its chain since, committing the chain after every answer that was ok: for every number that
  neither has passed and that is within the bound of a fast-forward from both, both ends are given
  the same message key, and a frame the sender seals under it opens under it at the receiver.
  The last number of all is left out of the histories, because the position after it wraps to zero.
\<close>

theorem session_carries_messages:
  assumes "agree_commutes ops" and "secret_wf ops a" and "secret_wf ops b" and "length ida = 32" and "length idb = 32"
    and "fzn_session_establish (Some a) (Some ops) (Some h) (Some ida) (Some idb) (Some (as_public_key b)) = (FZN_SESSION_OK, Some (key, ck))"
    and "aead_inverts aead" and "hash_total h" and "random_fills rng" and "send_wf what"
    and "out_ready cap1 out1" and "out_ready cap2 out2" and "UINT64_MAX \<notin> set sent" and "UINT64_MAX \<notin> set heard"
  shows "fzn_session_establish (Some b) (Some ops) (Some h) (Some idb) (Some ida) (Some (as_public_key a)) = (FZN_SESSION_OK, Some (key, ck)) \<and>
    (\<forall>f. fzn_seal_build frame_cap what (Some key) (Some ck) (Some h) rng aead = (FZN_SEAL_OK, Some f) \<longrightarrow> opens_to h aead key ck f what) \<and>
    (\<exists>send recv. fzn_session_chains (Some h) (Some key) (Some ida) (Some idb) = (FZN_SESSION_OK, Some (send, recv)) \<and>
      fzn_session_chains (Some h) (Some key) (Some idb) (Some ida) = (FZN_SESSION_OK, Some (recv, send)) \<and>
      (let sender = chain_after h cap1 out1 (the (fzn_ratchet_init (Some c1) (Some send) start)) sent;
           receiver = chain_after h cap2 out2 (the (fzn_ratchet_init (Some c2) (Some send) start)) heard in
       ra_seq sender \<le> n \<longrightarrow> n - ra_seq sender \<le> FZN_RATCHET_MAX_ADVANCE \<longrightarrow>
       ra_seq receiver \<le> n \<longrightarrow> n - ra_seq receiver \<le> FZN_RATCHET_MAX_ADVANCE \<longrightarrow>
       (\<exists>mk r1 r2. fzn_ratchet_advance (Some (Some h)) (Some sender) n False cap1 out1 = (FZN_RATCHET_OK, r1) \<and> ro_message_key r1 = Some mk \<and>
          fzn_ratchet_advance (Some (Some h)) (Some receiver) n False cap2 out2 = (FZN_RATCHET_OK, r2) \<and> ro_message_key r2 = Some mk \<and>
          (\<forall>f. fzn_seal_build frame_cap what (Some mk) (Some ck) (Some h) rng aead = (FZN_SEAL_OK, Some f) \<longrightarrow> opens_to h aead mk ck f what))))"
proof (intro conjI)
  show "fzn_session_establish (Some b) (Some ops) (Some h) (Some idb) (Some ida) (Some (as_public_key a)) = (FZN_SESSION_OK, Some (key, ck))"
    using establish_symmetric [OF assms(1-5), of "Some h"] assms(6) by simp
  note opens = built_opens_to [OF assms(7-10)]
  show "\<forall>f. fzn_seal_build frame_cap what (Some key) (Some ck) (Some h) rng aead = (FZN_SEAL_OK, Some f) \<longrightarrow> opens_to h aead key ck f what"
    using opens by blast
  have "ida \<noteq> idb"
    using assms(6) by (auto simp: fzn_session_establish_def fzn_session_transcript_def Let_def split: if_splits option.splits prod.splits)
  with assms(8) obtain send recv where cross: "fzn_session_chains (Some h) (Some key) (Some ida) (Some idb) = (FZN_SESSION_OK, Some (send, recv))"
    "fzn_session_chains (Some h) (Some key) (Some idb) (Some ida) = (FZN_SESSION_OK, Some (recv, send))"
    by (rule chains_cross)
  show "\<exists>send recv. fzn_session_chains (Some h) (Some key) (Some ida) (Some idb) = (FZN_SESSION_OK, Some (send, recv)) \<and>
      fzn_session_chains (Some h) (Some key) (Some idb) (Some ida) = (FZN_SESSION_OK, Some (recv, send)) \<and>
      (let sender = chain_after h cap1 out1 (the (fzn_ratchet_init (Some c1) (Some send) start)) sent;
           receiver = chain_after h cap2 out2 (the (fzn_ratchet_init (Some c2) (Some send) start)) heard in
       ra_seq sender \<le> n \<longrightarrow> n - ra_seq sender \<le> FZN_RATCHET_MAX_ADVANCE \<longrightarrow>
       ra_seq receiver \<le> n \<longrightarrow> n - ra_seq receiver \<le> FZN_RATCHET_MAX_ADVANCE \<longrightarrow>
       (\<exists>mk r1 r2. fzn_ratchet_advance (Some (Some h)) (Some sender) n False cap1 out1 = (FZN_RATCHET_OK, r1) \<and> ro_message_key r1 = Some mk \<and>
          fzn_ratchet_advance (Some (Some h)) (Some receiver) n False cap2 out2 = (FZN_RATCHET_OK, r2) \<and> ro_message_key r2 = Some mk \<and>
          (\<forall>f. fzn_seal_build frame_cap what (Some mk) (Some ck) (Some h) rng aead = (FZN_SEAL_OK, Some f) \<longrightarrow> opens_to h aead mk ck f what)))"
    unfolding Let_def
    using cross chain_after_key [OF assms(8,11) on_chain_init [of h send start c1] assms(13), of n]
      chain_after_key [OF assms(8,12) on_chain_init [of h send start c2] assms(14), of n] opens by blast
qed

theorem session_carries_messages_witness:
  "\<exists>key ck send recv mk. fzn_session_establish (Some (demo_secret 3)) (Some demo_agree) (Some demo_fn) (Some (replicate 32 9)) (Some (replicate 32 8))
      (Some (as_public_key (demo_secret 2))) = (FZN_SESSION_OK, Some (key, ck)) \<and>
    opens_to demo_fn demo_aead key ck demo_frame demo_send \<and>
    fzn_session_chains (Some demo_fn) (Some key) (Some (replicate 32 9)) (Some (replicate 32 8)) = (FZN_SESSION_OK, Some (recv, send)) \<and>
    (\<exists>r. fzn_ratchet_advance (Some (Some demo_fn)) (Some (chain_after demo_fn 0 demo_out (the (fzn_ratchet_init (Some \<lparr>ra_key = [], ra_seq = 0\<rparr>) (Some send) 0)) [1, 0]))
        3 False 0 demo_out = (FZN_RATCHET_OK, r) \<and> ro_message_key r = Some mk) \<and>
    opens_to demo_fn demo_aead mk ck demo_frame demo_send"
proof -
  obtain key ck where est: "fzn_session_establish (Some (demo_secret 2)) (Some demo_agree) (Some demo_fn) (Some (replicate 32 8)) (Some (replicate 32 9))
      (Some (as_public_key (demo_secret 3))) = (FZN_SESSION_OK, Some (key, ck))"
    by (simp add: fzn_session_establish_def fzn_agree_secret_public_def fzn_agree_shared_def demo_secret_def demo_agree_def fzn_session_transcript_def
        root_of_def fzn_commitment_derive_root_def demo_fn_def FZN_SESSION_LABEL_def ascii_def replicate_eq_replicate)
  have total: "hash_total demo_fn" by (simp add: hash_total_def demo_fn_def)
  let ?c = "\<lparr>ra_key = [], ra_seq = 0\<rparr>"
  have behind: "fzn_ratchet_advance (Some (Some demo_fn)) (Some \<lparr>ra_key = k, ra_seq = 2\<rparr>) 0 False 0 demo_out = (FZN_RATCHET_ERR_BEHIND, demo_out)" for k
    by (simp add: fzn_ratchet_advance_def demo_out_def)
  have sender: "ra_seq (chain_after demo_fn 0 demo_out (the (fzn_ratchet_init (Some ?c) (Some send) 0)) [0, 1]) = 2"
    and receiver: "ra_seq (chain_after demo_fn 0 demo_out (the (fzn_ratchet_init (Some ?c) (Some send) 0)) [1, 0]) = 2" for send
    by (simp_all add: fzn_ratchet_init_def advance_total [OF total demo_ratchet(2)] behind)
  have mem: "UINT64_MAX \<notin> set [0, 1]" "UINT64_MAX \<notin> set [1, 0]" by simp_all
  show ?thesis
    using session_carries_messages [OF demo_agreement demo_agreement(2) _ _ est demo_seams(1) total demo_seams(3,4) demo_ratchet(2) demo_ratchet(2) mem,
        of 200 ?c 0 ?c 3] demo_built sender receiver unfolding Let_def by (simp del: chain_after.simps) blast
qed

end
