(* ===== verification/Session_Frame.thy ===== *)
theory Session_Frame
  imports Session
begin

text \<open>
  Session frames (\<open>wire/session_frame.c\<close>): the short frames of two ends that are both awake, with a counter
  for a nonce. Shown are that the two ends of a session hold crossed keys, that what one seals the other
  opens, that no counter is ever used twice by a sender nor accepted twice by a receiver, and that the
  64-bit window is a set of counters. The hash and the cipher are parameters.
\<close>

unbundle bit_operations_syntax

section \<open>The model\<close>

datatype fzn_session_frame_err = FZN_SESSION_FRAME_OK | FZN_SESSION_FRAME_ERR_MALFORMED | FZN_SESSION_FRAME_ERR_SHAPE
  | FZN_SESSION_FRAME_ERR_REPLAY | FZN_SESSION_FRAME_ERR_TAG | FZN_SESSION_FRAME_ERR_SPENT | FZN_SESSION_FRAME_ERR_CAPACITY
  | FZN_SESSION_FRAME_ERR_AEAD

abbreviation FZN_SESSION_FRAME_MARK :: u8 where "FZN_SESSION_FRAME_MARK \<equiv> 0xFA"
abbreviation FZN_SESSION_FRAME_HEAD_LEN :: nat where "FZN_SESSION_FRAME_HEAD_LEN \<equiv> 9"
abbreviation FZN_SESSION_FRAME_SEALED_HEAD_LEN :: nat where "FZN_SESSION_FRAME_SEALED_HEAD_LEN \<equiv> 8"
abbreviation FZN_SESSION_FRAME_OVERHEAD :: nat where "FZN_SESSION_FRAME_OVERHEAD \<equiv> 33"
abbreviation FZN_SESSION_FRAME_PAYLOAD_MAX :: nat where "FZN_SESSION_FRAME_PAYLOAD_MAX \<equiv> 1024"
abbreviation FZN_SESSION_FRAME_MAX :: nat where "FZN_SESSION_FRAME_MAX \<equiv> 1057"
abbreviation FZN_SESSION_RANDOM_LEN :: nat where "FZN_SESSION_RANDOM_LEN \<equiv> 16"
abbreviation FZN_SESSION_ASK_LEN :: nat where "FZN_SESSION_ASK_LEN \<equiv> 20"
abbreviation FZN_SESSION_GRANT_LEN :: nat where "FZN_SESSION_GRANT_LEN \<equiv> 28"
abbreviation FZN_SESSION_WINDOW :: u32 where "FZN_SESSION_WINDOW \<equiv> 64"
abbreviation UINT32_TOP :: u32 where "UINT32_TOP \<equiv> - 1"

record fzn_session_end =
  en_send_key :: bytes
  en_recv_key :: bytes
  en_hears_as :: u32
  en_speaks_to :: u32
  en_sent :: u32
  en_newest :: u32
  en_heard :: u64

record fzn_session_opened =
  sp_payload :: bytes
  sp_msg :: u32
  sp_counter :: u32
  sp_expires_at :: u32

definition zero_end :: fzn_session_end where
  "zero_end = \<lparr>en_send_key = replicate FZN_AEAD_KEY_LEN 0, en_recv_key = replicate FZN_AEAD_KEY_LEN 0, en_hears_as = 0, en_speaks_to = 0,
     en_sent = 0, en_newest = 0, en_heard = 0\<rparr>"

definition fzn_session_end_derive :: "fzn_session_end option \<Rightarrow> fzn_hash_fn option \<Rightarrow> bytes option \<Rightarrow> bytes option \<Rightarrow> bytes option \<Rightarrow> bool \<Rightarrow>
    bool \<times> fzn_session_end option" where
  "fzn_session_end_derive en hash root ask grant initiator =
     (case (en, hash, root, ask, grant) of
        (Some _, Some h, Some rt, Some ak, Some gr) \<Rightarrow>
          (case h (FZN_AEAD_KEY_LEN * 2) (ascii ''fuzznet session frame 1'' @ rt @ ak @ gr) of
             None \<Rightarrow> (False, Some zero_end)
           | Some keys \<Rightarrow>
             let ask_handle = fzn_get_be32 (bytes_at FZN_SESSION_RANDOM_LEN 4 ak);
                 grant_handle = fzn_get_be32 (bytes_at FZN_SESSION_RANDOM_LEN 4 gr)
             in (True, Some (zero_end\<lparr>
                  en_send_key := bytes_at (if initiator then 0 else FZN_AEAD_KEY_LEN) FZN_AEAD_KEY_LEN keys,
                  en_recv_key := bytes_at (if initiator then FZN_AEAD_KEY_LEN else 0) FZN_AEAD_KEY_LEN keys,
                  en_hears_as := (if initiator then ask_handle else grant_handle),
                  en_speaks_to := (if initiator then grant_handle else ask_handle)\<rparr>)))
      | _ \<Rightarrow> (False, en))"

text \<open>The bytes of a frame and its length are one list.\<close>

definition fzn_session_frame_handle :: "bytes option \<Rightarrow> u32 option" where
  "fzn_session_frame_handle frame =
     (case frame of None \<Rightarrow> None
      | Some f \<Rightarrow>
        if length f < FZN_SESSION_FRAME_OVERHEAD \<or> length f > FZN_SESSION_FRAME_MAX \<or> f ! 0 \<noteq> FZN_SESSION_FRAME_MARK then None
        else Some (fzn_get_be32 (bytes_at 1 4 f)))"

definition nonce_of :: "u32 \<Rightarrow> bytes" where
  "nonce_of counter = replicate (FZN_AEAD_NONCE_LEN - 4) 0 @ fzn_put_be32 counter"

text \<open>
  The result is the error, the end with its counter moved, the buffer and the length of the frame in it.
  A cipher that refuses leaves the counter spent and the frame zeroed.
\<close>

definition fzn_session_frame_seal :: "fzn_session_end option \<Rightarrow> u32 \<Rightarrow> u32 \<Rightarrow> bytes option \<Rightarrow> nat \<Rightarrow> bytes option \<Rightarrow> nat \<Rightarrow> fzn_aead_ops option \<Rightarrow>
    fzn_session_frame_err \<times> fzn_session_end option \<times> bytes option \<times> nat option" where
  "fzn_session_frame_seal en msg expires_at payload plen frame frame_cap aead =
     (if en = None \<or> (payload = None \<and> plen \<noteq> 0) \<or> frame = None \<or> aead = None \<or> ao_seal (the aead) = None \<or>
         plen > FZN_SESSION_FRAME_PAYLOAD_MAX then (FZN_SESSION_FRAME_ERR_MALFORMED, en, frame, None)
      else if en_sent (the en) = UINT32_TOP then (FZN_SESSION_FRAME_ERR_SPENT, en, frame, None)
      else let total = FZN_SESSION_FRAME_OVERHEAD + plen in
        if frame_cap < total then (FZN_SESSION_FRAME_ERR_CAPACITY, en, frame, None)
        else let counter = en_sent (the en) + 1;
                 e = (the en)\<lparr>en_sent := counter\<rparr>;
                 head = [FZN_SESSION_FRAME_MARK] @ fzn_put_be32 (en_speaks_to e) @ fzn_put_be32 counter;
                 clear = fzn_put_be32 msg @ fzn_put_be32 expires_at @ (if plen \<noteq> 0 then take plen (the payload) else [])
             in (case the (ao_seal (the aead)) (en_send_key e) (nonce_of counter) head clear of
                   None \<Rightarrow> (FZN_SESSION_FRAME_ERR_AEAD, Some e, Some (put_at 0 (replicate total 0) (the frame)), None)
                 | Some (cipher, tag) \<Rightarrow> (FZN_SESSION_FRAME_OK, Some e, Some (put_at 0 (head @ cipher @ tag) (the frame)), Some total)))"

definition stale :: "fzn_session_end \<Rightarrow> u32 \<Rightarrow> bool" where
  "stale e counter =
     (if counter > en_newest e then False
      else let behind = en_newest e - counter in behind \<ge> FZN_SESSION_WINDOW \<or> drop_bit (unat behind) (en_heard e) AND 1 \<noteq> 0)"

definition mark_heard :: "fzn_session_end \<Rightarrow> u32 \<Rightarrow> fzn_session_end" where
  "mark_heard e counter =
     (if counter > en_newest e then
        let ahead = counter - en_newest e in
        e\<lparr>en_heard := (if ahead \<ge> FZN_SESSION_WINDOW then 0 else push_bit (unat ahead) (en_heard e)) OR 1, en_newest := counter\<rparr>
      else e\<lparr>en_heard := en_heard e OR push_bit (unat (en_newest e - counter)) 1\<rparr>)"

definition fzn_session_frame_open :: "fzn_session_end option \<Rightarrow> bytes option \<Rightarrow> fzn_aead_ops option \<Rightarrow>
    fzn_session_frame_err \<times> fzn_session_end option \<times> bytes option \<times> fzn_session_opened option" where
  "fzn_session_frame_open en frame aead =
     (if en = None \<or> frame = None \<or> aead = None \<or> ao_open (the aead) = None then (FZN_SESSION_FRAME_ERR_MALFORMED, en, frame, None)
      else if fzn_session_frame_handle frame \<noteq> Some (en_hears_as (the en)) then (FZN_SESSION_FRAME_ERR_SHAPE, en, frame, None)
      else let f = the frame; counter = fzn_get_be32 (bytes_at 5 4 f) in
        if counter = 0 \<or> stale (the en) counter then (FZN_SESSION_FRAME_ERR_REPLAY, en, frame, None)
        else let text_len = length f - FZN_SESSION_FRAME_HEAD_LEN - FZN_AEAD_TAG_LEN in
          (case the (ao_open (the aead)) (en_recv_key (the en)) (nonce_of counter) (bytes_at 0 FZN_SESSION_FRAME_HEAD_LEN f)
                  (bytes_at FZN_SESSION_FRAME_HEAD_LEN text_len f) (bytes_at (FZN_SESSION_FRAME_HEAD_LEN + text_len) FZN_AEAD_TAG_LEN f) of
             None \<Rightarrow> (FZN_SESSION_FRAME_ERR_TAG, en, frame, None)
           | Some clear \<Rightarrow>
             (FZN_SESSION_FRAME_OK, Some (mark_heard (the en) counter), Some (put_at FZN_SESSION_FRAME_HEAD_LEN clear f),
              Some \<lparr>sp_payload = bytes_at FZN_SESSION_FRAME_SEALED_HEAD_LEN (text_len - FZN_SESSION_FRAME_SEALED_HEAD_LEN) clear,
                sp_msg = fzn_get_be32 (bytes_at 0 4 clear), sp_counter = counter, sp_expires_at = fzn_get_be32 (bytes_at 4 4 clear)\<rparr>)))"

section \<open>The window is a set of counters\<close>

definition heard_set :: "fzn_session_end \<Rightarrow> u32 set" where
  "heard_set e = {c. c \<le> en_newest e \<and> unat (en_newest e) - unat c < 64 \<and> bit (en_heard e) (unat (en_newest e) - unat c)}"

lemma and_one_iff: "drop_bit n x AND 1 \<noteq> 0 \<longleftrightarrow> bit x n" for x :: u64
proof -
  have "drop_bit n x AND 1 = of_bool (bit x n)" by (simp add: and_one_eq mod_2_eq_odd bit_iff_odd_drop_bit)
  then show ?thesis by simp
qed

lemma behind: "c \<le> n \<Longrightarrow> unat (n - c :: u32) = unat n - unat c"
  by (rule unat_sub)

lemma stale_iff: "stale e c \<longleftrightarrow> c \<le> en_newest e \<and> (64 \<le> unat (en_newest e) - unat c \<or> c \<in> heard_set e)"
proof (cases "c \<le> en_newest e")
  case True
  then have "FZN_SESSION_WINDOW \<le> en_newest e - c \<longleftrightarrow> 64 \<le> unat (en_newest e) - unat c"
    by (simp add: word_le_nat_alt behind)
  then show ?thesis using True by (auto simp: stale_def Let_def heard_set_def and_one_iff behind not_less)
qed (simp add: stale_def not_le)

lemma mark_newest: "en_newest (mark_heard e c) = max (en_newest e) c"
  by (auto simp: mark_heard_def Let_def max_def)

text \<open>Marking a counter adds it, and lets go of those that are now 64 or more behind.\<close>

lemma mark_set:
  assumes "\<not> stale e c"
  shows "heard_set (mark_heard e c) = insert c {d \<in> heard_set e. unat (max (en_newest e) c) - unat d < 64}"
proof (cases "c > en_newest e")
  case True
  let ?n = "unat (en_newest e)" and ?c = "unat c"
  have lt: "?n < ?c" using True by (simp add: word_less_nat_alt)
  have gap: "unat (c - en_newest e) = ?c - ?n" by (rule behind [OF less_imp_le [OF True]])
  then have far: "FZN_SESSION_WINDOW \<le> c - en_newest e \<longleftrightarrow> 64 \<le> ?c - ?n" by (simp add: word_le_nat_alt)
  have bits: "bit (en_heard (mark_heard e c)) i \<longleftrightarrow> i = 0 \<or> (?c - ?n \<le> i \<and> bit (en_heard e) (i - (?c - ?n)))" if "i < 64" for i
    using True that far by (auto simp: mark_heard_def Let_def gap bit_or_iff bit_push_bit_iff bit_1_iff)
  have "d \<in> heard_set (mark_heard e c) \<longleftrightarrow> d = c \<or> d \<in> heard_set e \<and> ?c - unat d < 64" for d
  proof (cases "d \<le> c \<and> ?c - unat d < 64")
    case near: True
    have le: "d \<le> c \<longleftrightarrow> unat d \<le> ?c" "d \<le> en_newest e \<longleftrightarrow> unat d \<le> ?n" "d = c \<longleftrightarrow> unat d = ?c" by (simp_all add: word_le_nat_alt word_unat_eq_iff)
    have "d \<in> heard_set (mark_heard e c) \<longleftrightarrow> bit (en_heard (mark_heard e c)) (?c - unat d)"
      using near True by (simp add: heard_set_def mark_newest max_absorb2 less_imp_le)
    also have "\<dots> \<longleftrightarrow> unat d = ?c \<or> (unat d \<le> ?n \<and> bit (en_heard e) (?n - unat d))"
      using near lt by (auto simp: bits le)
    finally show ?thesis using near lt by (auto simp: heard_set_def le)
  next
    case False
    have "d \<notin> heard_set (mark_heard e c)" using False True by (auto simp: heard_set_def mark_newest max_absorb2 less_imp_le)
    moreover have "d \<noteq> c" using False by auto
    moreover have "\<not> (d \<in> heard_set e \<and> ?c - unat d < 64)" using False lt by (auto simp: heard_set_def word_le_nat_alt)
    ultimately show ?thesis by simp
  qed
  then show ?thesis using True by (auto simp: max_absorb2 less_imp_le)
next
  case False
  then have le: "c \<le> en_newest e" by simp
  have near: "unat (en_newest e) - unat c < 64" using assms le by (auto simp: stale_iff)
  have bits: "bit (en_heard (mark_heard e c)) i \<longleftrightarrow> bit (en_heard e) i \<or> i = unat (en_newest e) - unat c" if "i < 64" for i
    using False that near by (auto simp: mark_heard_def behind [OF le] bit_or_iff bit_exp_iff)
  have "d \<in> heard_set (mark_heard e c) \<longleftrightarrow> d = c \<or> d \<in> heard_set e" for d
  proof (cases "d \<le> en_newest e \<and> unat (en_newest e) - unat d < 64")
    case True
    have "unat (en_newest e) - unat d = unat (en_newest e) - unat c \<longleftrightarrow> d = c"
      using True le by (auto simp: word_le_nat_alt word_unat_eq_iff)
    then show ?thesis using True le by (auto simp: heard_set_def mark_newest max_absorb1 bits)
  next
    case False
    then show ?thesis using le near by (auto simp: heard_set_def mark_newest max_absorb1)
  qed
  then show ?thesis using le by (auto simp: max_absorb1 heard_set_def)
qed

section \<open>Once only\<close>

text \<open>A receiver: frames arrive, in any order and any number of times, from anyone.\<close>

definition hear :: "fzn_aead_ops \<Rightarrow> fzn_session_end \<Rightarrow> bytes \<Rightarrow> (fzn_session_frame_err \<times> fzn_session_opened option) \<times> fzn_session_end" where
  "hear aead e f = (case fzn_session_frame_open (Some e) (Some f) (Some aead) of (err, e', _, out) \<Rightarrow> ((err, out), the e'))"

definition heard_tag :: "fzn_session_frame_err \<times> fzn_session_opened option \<Rightarrow> u32 option" where
  "heard_tag r = (if fst r = FZN_SESSION_FRAME_OK then map_option sp_counter (snd r) else None)"

lemma hear_cases:
  obtains (refused) err where "hear aead e f = ((err, None), e)" "err \<noteq> FZN_SESSION_FRAME_OK"
    | (taken) out where "hear aead e f = ((FZN_SESSION_FRAME_OK, Some out), mark_heard e (sp_counter out))" "sp_counter out \<noteq> 0"
        "\<not> stale e (sp_counter out)"
proof (cases "fst (fst (hear aead e f)) = FZN_SESSION_FRAME_OK")
  case False
  then have "hear aead e f = ((fst (fst (hear aead e f)), None), e)"
    by (auto simp: hear_def fzn_session_frame_open_def Let_def split: if_splits option.splits)
  then show thesis using False refused by blast
next
  case True
  then have "\<exists>out. hear aead e f = ((FZN_SESSION_FRAME_OK, Some out), mark_heard e (sp_counter out)) \<and> sp_counter out \<noteq> 0 \<and> \<not> stale e (sp_counter out)"
    by (auto simp: hear_def fzn_session_frame_open_def Let_def split: if_splits option.splits)
  then show thesis using taken by blast
qed

lemma stale_after_mark:
  assumes "\<not> stale e c"
  shows "stale (mark_heard e c) c" and "stale e d \<Longrightarrow> stale (mark_heard e c) d"
proof -
  show "stale (mark_heard e c) c" by (simp add: stale_iff mark_newest mark_set [OF assms])
  assume d: "stale e d"
  have "unat (en_newest e) \<le> unat (max (en_newest e) c)" by (auto simp: max_def word_le_nat_alt)
  then show "stale (mark_heard e c) d" using d by (auto simp: stale_iff mark_newest mark_set [OF assms] le_max_iff_disj)
qed

interpretation hearing: once_only "hear aead" "heard_tag \<circ> snd" stale for aead
proof
  show "(heard_tag \<circ> snd) (e, fst (hear aead s e)) = Some k \<Longrightarrow> \<not> stale s k" for s e k
    by (cases rule: hear_cases [of aead s e]) (auto simp: heard_tag_def)
  show "(heard_tag \<circ> snd) (e, fst (hear aead s e)) = Some k \<Longrightarrow> stale (snd (hear aead s e)) k" for s e k
    by (cases rule: hear_cases [of aead s e]) (auto simp: heard_tag_def stale_after_mark)
  show "stale s k \<Longrightarrow> stale (snd (hear aead s e)) k" for s e k
    by (cases rule: hear_cases [of aead s e]) (auto simp: stale_after_mark)
qed

text \<open>A sender: what it is asked to seal, into a buffer of its caller's.\<close>

definition speak :: "fzn_aead_ops \<Rightarrow> fzn_session_end \<Rightarrow> u32 \<times> u32 \<times> bytes \<times> bytes \<Rightarrow> (fzn_session_frame_err \<times> u32) \<times> fzn_session_end" where
  "speak aead e = (\<lambda>(msg, expires, payload, frame).
     case fzn_session_frame_seal (Some e) msg expires (Some payload) (length payload) (Some frame) (length frame) (Some aead) of
       (err, e', _, _) \<Rightarrow> ((err, en_sent (the e')), the e'))"

text \<open>The counter a call used the key with: on success, and also when the cipher refused.\<close>

definition spoken_tag :: "fzn_session_frame_err \<times> u32 \<Rightarrow> u32 option" where
  "spoken_tag r = (if fst r = FZN_SESSION_FRAME_OK \<or> fst r = FZN_SESSION_FRAME_ERR_AEAD then Some (snd r) else None)"

lemma speak_cases:
  obtains (refused) err where "speak aead e w = ((err, en_sent e), e)" "err \<noteq> FZN_SESSION_FRAME_OK" "err \<noteq> FZN_SESSION_FRAME_ERR_AEAD"
    | (used) err where "speak aead e w = ((err, en_sent e + 1), e\<lparr>en_sent := en_sent e + 1\<rparr>)" "en_sent e \<noteq> UINT32_TOP"
        "err = FZN_SESSION_FRAME_OK \<or> err = FZN_SESSION_FRAME_ERR_AEAD"
proof -
  have "(\<exists>err. speak aead e w = ((err, en_sent e), e) \<and> err \<noteq> FZN_SESSION_FRAME_OK \<and> err \<noteq> FZN_SESSION_FRAME_ERR_AEAD) \<or>
    (\<exists>err. speak aead e w = ((err, en_sent e + 1), e\<lparr>en_sent := en_sent e + 1\<rparr>) \<and> en_sent e \<noteq> UINT32_TOP \<and>
      (err = FZN_SESSION_FRAME_OK \<or> err = FZN_SESSION_FRAME_ERR_AEAD))"
    by (auto simp: speak_def fzn_session_frame_seal_def Let_def split: prod.splits if_splits option.splits)
  then show thesis using refused used by blast
qed

lemma next_counter: "n \<noteq> UINT32_TOP \<Longrightarrow> n < n + 1" for n :: u32
proof -
  assume "n \<noteq> UINT32_TOP"
  then have "unat n \<noteq> 2 ^ 32 - 1" by (auto simp: word_unat_eq_iff unsigned_minus_1_eq_mask mask_eq_exp_minus_1)
  moreover have "unat n < 2 ^ 32" using unsigned_less [of n] by simp
  ultimately show ?thesis by (simp add: word_less_nat_alt unat_word_ariths)
qed

interpretation speaking: once_only "speak aead" "spoken_tag \<circ> snd" "\<lambda>e c. c \<le> en_sent e" for aead
proof
  show "(spoken_tag \<circ> snd) (e, fst (speak aead s e)) = Some k \<Longrightarrow> \<not> k \<le> en_sent s" for s e k
    by (cases rule: speak_cases [of aead s e]) (auto simp: spoken_tag_def not_le next_counter)
  show "(spoken_tag \<circ> snd) (e, fst (speak aead s e)) = Some k \<Longrightarrow> k \<le> en_sent (snd (speak aead s e))" for s e k
    by (cases rule: speak_cases [of aead s e]) (auto simp: spoken_tag_def)
  show "k \<le> en_sent s \<Longrightarrow> k \<le> en_sent (snd (speak aead s e))" for s e k
    by (cases rule: speak_cases [of aead s e]) (auto intro: order_trans less_imp_le next_counter)
qed

text \<open>
  C9. A receiver accepts no counter twice: whatever frames arrive, in whatever order and however often, the
  counters of those that open are distinct, whatever the cipher.
\<close>

theorem session_counter_accepted_once:
  "distinct (List.map_filter (heard_tag \<circ> snd) (trace (hear aead) e frames))"
  using hearing.tags_once [of aead e frames] by (simp add: hearing.tags_def)

text \<open>
  A sender uses no counter twice under its key, whether or not the cipher took it: it stops when the
  counter is at its top instead of wrapping.
\<close>

theorem session_nonce_used_once:
  "distinct (map nonce_of (List.map_filter (spoken_tag \<circ> snd) (trace (speak aead) e words)))"
proof -
  have "inj nonce_of" by (rule injI) (metis append_same_eq get_put_be32 nonce_of_def same_append_eq)
  then show ?thesis using speaking.tags_once [of aead e words] by (simp add: speaking.tags_def distinct_map inj_on_def)
qed

text \<open>
  C10. The window of 64 bits refines a set of counters: a counter is stale exactly when it is not ahead of
  the newest and is either 64 or more behind it or in the set, and hearing one that is not stale adds it
  to the set and lets go of exactly those that fall 64 or more behind.
\<close>

theorem window_refines_set:
  "(stale e c \<longleftrightarrow> c \<le> en_newest e \<and> (64 \<le> unat (en_newest e) - unat c \<or> c \<in> heard_set e)) \<and>
   (\<not> stale e c \<longrightarrow> en_newest (mark_heard e c) = max (en_newest e) c \<and>
      heard_set (mark_heard e c) = insert c {d \<in> heard_set e. unat (max (en_newest e) c) - unat d < 64})"
  using stale_iff mark_newest mark_set by blast

theorem window_refines_set_witness:
  "\<not> stale zero_end 5 \<and> heard_set (mark_heard zero_end 5) = {5}"
proof -
  have "\<not> stale zero_end 5" by (simp add: stale_def zero_end_def)
  moreover have "heard_set zero_end = {}" by (simp add: heard_set_def zero_end_def)
  ultimately show ?thesis using window_refines_set [of zero_end 5] by simp
qed

section \<open>The two ends of a session\<close>

text \<open>What one end speaks, the other hears.\<close>

definition paired :: "fzn_session_end \<Rightarrow> fzn_session_end \<Rightarrow> bool" where
  "paired a b \<longleftrightarrow> en_send_key a = en_recv_key b \<and> en_speaks_to a = en_hears_as b"

lemma paired_moves: "paired (a\<lparr>en_sent := n\<rparr>) b = paired a b" "paired a (mark_heard b c) = paired a b"
  by (simp_all add: paired_def mark_heard_def Let_def)

lemma frame_parts:
  fixes ha cn :: u32
  assumes "length y = 8 + length p" and "length t = FZN_AEAD_TAG_LEN" and "length p \<le> FZN_SESSION_FRAME_PAYLOAD_MAX"
  defines "head \<equiv> [FZN_SESSION_FRAME_MARK] @ fzn_put_be32 ha @ fzn_put_be32 cn"
  shows "fzn_session_frame_handle (Some (head @ y @ t)) = Some ha" "bytes_at 0 FZN_SESSION_FRAME_HEAD_LEN (head @ y @ t) = head"
    "fzn_get_be32 (bytes_at 5 4 (head @ y @ t)) = cn" "length (head @ y @ t) - FZN_SESSION_FRAME_HEAD_LEN - FZN_AEAD_TAG_LEN = length y"
    "bytes_at FZN_SESSION_FRAME_HEAD_LEN (length y) (head @ y @ t) = y"
    "bytes_at (FZN_SESSION_FRAME_HEAD_LEN + length y) FZN_AEAD_TAG_LEN (head @ y @ t) = t"
proof -
  have len: "length head = 9" by (simp add: head_def)
  show "fzn_session_frame_handle (Some (head @ y @ t)) = Some ha"
    using assms(1-3) by (simp add: fzn_session_frame_handle_def head_def get_put_be32)
  show "bytes_at 0 FZN_SESSION_FRAME_HEAD_LEN (head @ y @ t) = head" "bytes_at FZN_SESSION_FRAME_HEAD_LEN (length y) (head @ y @ t) = y"
    using len by (simp_all add: bytes_at_def)
  show "fzn_get_be32 (bytes_at 5 4 (head @ y @ t)) = cn" by (simp add: head_def get_put_be32)
  show "length (head @ y @ t) - FZN_SESSION_FRAME_HEAD_LEN - FZN_AEAD_TAG_LEN = length y" using len assms(2) by simp
  have "bytes_at (FZN_SESSION_FRAME_HEAD_LEN + length y) FZN_AEAD_TAG_LEN ((head @ y) @ t) = t"
    using len assms(2) by (subst bytes_at_append_skip) simp_all
  then show "bytes_at (FZN_SESSION_FRAME_HEAD_LEN + length y) FZN_AEAD_TAG_LEN (head @ y @ t) = t" by simp
qed

text \<open>
  The two ends a session was derived for hold crossed keys and crossed handles. A frame that one of
  them seals opens at the other, as long as its counter is not stale there, and gives back the message
  number, the expiry and the payload; the ends stay paired for the next one.
\<close>

theorem session_frame_round_trip:
  assumes "fzn_session_end_derive (Some x) (Some h) (Some root) (Some ask) (Some grant) True = (True, Some a0)"
    and "fzn_session_end_derive (Some y) (Some h) (Some root) (Some ask) (Some grant) False = (True, Some b0)"
    and "paired a b \<or> (a, b) = (a0, b0) \<or> (a, b) = (b0, a0)" and "aead_inverts aead"
    and "fzn_session_frame_seal (Some a) msg expires (Some p) (length p) (Some buf) (length buf) (Some aead) = (FZN_SESSION_FRAME_OK, Some a', Some buf', Some n)"
    and "\<not> stale b (en_sent a')"
  shows "\<exists>b' g out. fzn_session_frame_open (Some b) (Some (take n buf')) (Some aead) = (FZN_SESSION_FRAME_OK, Some b', Some g, Some out) \<and>
    sp_payload out = p \<and> sp_msg out = msg \<and> sp_expires_at out = expires \<and> sp_counter out = en_sent a' \<and> paired a' b' \<and>
    paired a0 b0 \<and> paired b0 a0"
proof -
  have cross: "paired a0 b0" "paired b0 a0"
    using assms(1,2) by (auto simp: fzn_session_end_derive_def paired_def Let_def split: option.splits)
  then have pair: "paired a b" using assms(3) by auto
  obtain aseal aopen where ops: "ao_seal aead = Some aseal" "ao_open aead = Some aopen"
    using assms(4) by (auto simp: aead_inverts_def split: option.splits)
  let ?c = "en_sent a + 1"
  let ?head = "[FZN_SESSION_FRAME_MARK] @ fzn_put_be32 (en_speaks_to a) @ fzn_put_be32 ?c"
  let ?clear = "fzn_put_be32 msg @ fzn_put_be32 expires @ p"
  have small: "length p \<le> FZN_SESSION_FRAME_PAYLOAD_MAX" "en_sent a \<noteq> UINT32_TOP"
    using assms(5) by (auto simp: fzn_session_frame_seal_def Let_def split: if_splits)
  obtain y t where yt: "aseal (en_send_key a) (nonce_of ?c) ?head ?clear = Some (y, t)" and a': "a' = a\<lparr>en_sent := ?c\<rparr>"
    and buf': "buf' = put_at 0 (?head @ y @ t) buf" and n: "n = FZN_SESSION_FRAME_OVERHEAD + length p"
    using assms(5) ops by (auto simp: fzn_session_frame_seal_def Let_def split: if_splits option.splits)
  have inv: "length y = 8 + length p" "length t = FZN_AEAD_TAG_LEN" "aopen (en_send_key a) (nonce_of ?c) ?head y t = Some ?clear"
    using assms(4) yt by (auto simp: aead_inverts_def ops)
  have "length (?head @ y @ t) = n" using inv n by simp
  then have tk: "take n buf' = ?head @ y @ t" unfolding buf' by (rule take_put_front)
  define H F where "H = ?head" and "F = H @ y @ t"
  note parts = frame_parts [OF inv(1,2) small(1), of "en_speaks_to a" ?c, folded H_def F_def]
  have lenF: "length F = 25 + length y" using inv(2) by (simp add: F_def H_def)
  have opens: "aopen (en_recv_key b) (nonce_of ?c) H y t = Some ?clear" using inv(3) pair by (simp only: H_def paired_def)
  have "?c \<noteq> 0" using small(2) by (metis add_eq_0_iff2)
  moreover have "\<not> stale b ?c" using assms(6) by (simp add: a')
  moreover have "fzn_session_frame_handle (Some F) = Some (en_hears_as b)" using parts(1) pair by (simp only: paired_def)
  moreover have "bytes_at 8 (length y - 8) ?clear = p" "fzn_get_be32 (bytes_at 0 4 ?clear) = msg" "fzn_get_be32 (bytes_at 4 4 ?clear) = expires"
    using inv(1) by (simp_all add: bytes_at_def get_put_be32)
  ultimately have "fzn_session_frame_open (Some b) (Some (take n buf')) (Some aead) = (FZN_SESSION_FRAME_OK, Some (mark_heard b ?c),
      Some (put_at FZN_SESSION_FRAME_HEAD_LEN ?clear F), Some \<lparr>sp_payload = p, sp_msg = msg, sp_counter = ?c, sp_expires_at = expires\<rparr>)"
    unfolding tk [folded H_def F_def] fzn_session_frame_open_def by (simp add: parts(2,3,5,6) lenF opens ops Let_def)
  then show ?thesis using cross pair by (auto simp: a' paired_moves)
qed

definition demo_end :: "bool \<Rightarrow> fzn_session_end" where
  "demo_end initiator = the (snd (fzn_session_end_derive (Some zero_end) (Some demo_fn) (Some (replicate 32 1)) (Some (replicate 20 2)) (Some (replicate 28 3)) initiator))"

theorem session_frame_round_trip_witness:
  "\<exists>b' g out. fzn_session_frame_open (Some (demo_end False))
      (Some (take 35 (the (fst (snd (snd (fzn_session_frame_seal (Some (demo_end True)) 7 9 (Some [1, 2]) 2 (Some (replicate 40 0)) 40 (Some demo_aead)))))))) (Some demo_aead)
      = (FZN_SESSION_FRAME_OK, Some b', Some g, Some out) \<and> sp_payload out = [1, 2]"
proof -
  have derived: "fzn_session_end_derive (Some zero_end) (Some demo_fn) (Some (replicate 32 1)) (Some (replicate 20 2)) (Some (replicate 28 3)) i = (True, Some (demo_end i))" for i
    by (simp add: demo_end_def fzn_session_end_derive_def demo_fn_def Let_def)
  have sent: "en_sent (demo_end i) = 0 \<and> en_newest (demo_end i) = 0" for i by (simp add: demo_end_def fzn_session_end_derive_def demo_fn_def Let_def zero_end_def)
  obtain a' buf' where seal: "fzn_session_frame_seal (Some (demo_end True)) 7 9 (Some [1, 2]) (length [1, 2 :: u8]) (Some (replicate 40 0)) (length (replicate 40 (0 :: u8))) (Some demo_aead)
      = (FZN_SESSION_FRAME_OK, Some a', Some buf', Some 35)" and a': "en_sent a' = 1"
    by (simp add: fzn_session_frame_seal_def demo_aead_def sent Let_def)
  have "\<not> stale (demo_end False) (en_sent a')" by (simp add: stale_def sent a')
  then obtain b' g out where "fzn_session_frame_open (Some (demo_end False)) (Some (take 35 buf')) (Some demo_aead) = (FZN_SESSION_FRAME_OK, Some b', Some g, Some out)"
      "sp_payload out = [1, 2]"
    using session_frame_round_trip [OF derived derived _ demo_seams(1) seal, of "demo_end False"] by auto
  moreover have "length [1, 2 :: u8] = 2" "length (replicate 40 (0 :: u8)) = 40" by simp_all
  ultimately show ?thesis using seal by (simp only:) auto
qed

end
