(* ===== verification/Signed_Record.thy ===== *)
theory Signed_Record
  imports Chain_Verify Seal
begin

text \<open>
  Records (\<open>record/record.c\<close>, \<open>record/record.h\<close>): signed entries of a host's streams, each naming its
  predecessor; and the store of records behind a backend (\<open>record/store.c\<close>), with the walk that tells
  whether an act stands under a cut. The signatures, the hash and the backend are parameters.
\<close>

section \<open>The model\<close>

datatype fzn_record_err = FZN_RECORD_OK | FZN_RECORD_ERR_MALFORMED | FZN_RECORD_ERR_UNSIGNED | FZN_RECORD_ERR_BODY_TOO_LARGE
  | FZN_RECORD_ERR_SEQ_ZERO | FZN_RECORD_ERR_SHAPE

abbreviation FZN_SUBJECT_LEN :: nat where "FZN_SUBJECT_LEN \<equiv> 32"
abbreviation FZN_RECORD_ID_LEN :: nat where "FZN_RECORD_ID_LEN \<equiv> 32"
abbreviation FZN_RECORD_BODY_MAX :: nat where "FZN_RECORD_BODY_MAX \<equiv> 512"
abbreviation FZN_RECORD_HEADER_LEN :: nat where "FZN_RECORD_HEADER_LEN \<equiv> 124"
abbreviation FZN_RECORD_MIN_LEN :: nat where "FZN_RECORD_MIN_LEN \<equiv> 188"
abbreviation FZN_RECORD_MAX_LEN :: nat where "FZN_RECORD_MAX_LEN \<equiv> 700"
abbreviation FZN_OBJECT_RECORD :: u8 where "FZN_OBJECT_RECORD \<equiv> 130"

definition prev_is_zero :: "bytes \<Rightarrow> bool" where
  "prev_is_zero p \<longleftrightarrow> fold (\<lambda>i acc. acc OR p ! i) [0..<FZN_RECORD_ID_LEN] 0 = 0"

definition fzn_record_open :: "bytes option \<Rightarrow> fzn_record_err \<times> bytes option" where
  "fzn_record_open bytes =
     (case bytes of None \<Rightarrow> (FZN_RECORD_ERR_MALFORMED, None)
      | Some b \<Rightarrow>
        if length b < FZN_RECORD_MIN_LEN then (FZN_RECORD_ERR_SHAPE, None)
        else if b ! 0 \<noteq> FZN_SIGNED_VERSION then (FZN_RECORD_ERR_SHAPE, None)
        else if b ! 1 \<noteq> FZN_OBJECT_RECORD then (FZN_RECORD_ERR_SHAPE, None)
        else let body_len = unat (fzn_get_be16 (bytes_at 122 2 b)) in
          if body_len > FZN_RECORD_BODY_MAX then (FZN_RECORD_ERR_BODY_TOO_LARGE, None)
          else if length b \<noteq> FZN_RECORD_HEADER_LEN + body_len + FZN_SIG_LEN then (FZN_RECORD_ERR_SHAPE, None)
          else if fzn_get_be64 (bytes_at 74 8 b) = 0 then (FZN_RECORD_ERR_SEQ_ZERO, None)
          else if fzn_get_be64 (bytes_at 74 8 b) = 1 \<and> \<not> prev_is_zero (bytes_at 82 FZN_RECORD_ID_LEN b) then (FZN_RECORD_ERR_SHAPE, None)
          else (FZN_RECORD_OK, Some b))"

text \<open>A view is the bytes it was opened over; \<open>None\<close> is one that was never opened.\<close>

definition fzn_record_is_open :: "bytes option \<Rightarrow> bool" where
  "fzn_record_is_open r =
     (case r of None \<Rightarrow> False
      | Some b \<Rightarrow>
        if length b < FZN_RECORD_MIN_LEN then False
        else if b ! 0 \<noteq> FZN_SIGNED_VERSION then False
        else if b ! 1 \<noteq> FZN_OBJECT_RECORD then False
        else let body_len = unat (fzn_get_be16 (bytes_at 122 2 b)) in
          if body_len > FZN_RECORD_BODY_MAX then False
          else if fzn_get_be64 (bytes_at 74 8 b) = 0 then False
          else if fzn_get_be64 (bytes_at 74 8 b) = 1 \<and> fold (\<lambda>i acc. acc OR b ! (82 + i)) [0..<FZN_RECORD_ID_LEN] 0 \<noteq> 0 then False
          else length b = FZN_RECORD_HEADER_LEN + body_len + FZN_SIG_LEN)"

definition fzn_record_issuer :: "bytes \<Rightarrow> key" where "fzn_record_issuer r = bytes_at 2 FZN_PUBKEY_LEN r"
definition fzn_record_subject :: "bytes \<Rightarrow> bytes" where "fzn_record_subject r = bytes_at 34 FZN_SUBJECT_LEN r"
definition fzn_record_stream :: "bytes \<Rightarrow> u32" where "fzn_record_stream r = fzn_get_be32 (bytes_at 66 4 r)"
definition fzn_record_kind :: "bytes \<Rightarrow> u32" where "fzn_record_kind r = fzn_get_be32 (bytes_at 70 4 r)"
definition fzn_record_seq :: "bytes \<Rightarrow> u64" where "fzn_record_seq r = fzn_get_be64 (bytes_at 74 8 r)"
definition fzn_record_prev :: "bytes \<Rightarrow> bytes" where "fzn_record_prev r = bytes_at 82 FZN_RECORD_ID_LEN r"
definition fzn_record_issued_at :: "bytes \<Rightarrow> u64" where "fzn_record_issued_at r = fzn_get_be64 (bytes_at 114 8 r)"

definition fzn_record_issued_ms :: "bytes \<Rightarrow> u64" where
  "fzn_record_issued_ms r = (let at = fzn_record_issued_at r in if at < 100000000000 then at * 1000 else at)"

definition fzn_record_body_len :: "bytes \<Rightarrow> nat" where "fzn_record_body_len r = unat (fzn_get_be16 (bytes_at 122 2 r))"
definition fzn_record_body :: "bytes \<Rightarrow> bytes" where "fzn_record_body r = bytes_at 124 (fzn_record_body_len r) r"
definition fzn_record_signature :: "bytes \<Rightarrow> bytes" where "fzn_record_signature r = bytes_at (length r - FZN_SIG_LEN) FZN_SIG_LEN r"
definition fzn_record_signed_bytes :: "bytes \<Rightarrow> bytes" where "fzn_record_signed_bytes r = take (length r - FZN_SIG_LEN) r"

definition fzn_record_verify :: "bytes option \<Rightarrow> fzn_sign_ops option \<Rightarrow> fzn_record_err" where
  "fzn_record_verify record sign =
     (if sign = None \<or> so_verify (the sign) = None then FZN_RECORD_ERR_MALFORMED
      else if \<not> fzn_record_is_open record then FZN_RECORD_ERR_MALFORMED
      else let r = the record in
        if \<not> the (so_verify (the sign)) (fzn_record_issuer r) (fzn_record_signed_bytes r) (fzn_record_signature r) then FZN_RECORD_ERR_UNSIGNED
        else FZN_RECORD_OK)"

text \<open>\<open>out\<close> is the caller's buffer of \<open>out_cap\<close> bytes; a signer that refuses leaves it with a zero signature.\<close>

definition record_signed :: "key \<Rightarrow> bytes \<Rightarrow> u32 \<Rightarrow> u32 \<Rightarrow> u64 \<Rightarrow> bytes option \<Rightarrow> u64 \<Rightarrow> bytes \<Rightarrow> bytes" where
  "record_signed issuer subject stream kind seq prev issued_at body =
     [FZN_SIGNED_VERSION, FZN_OBJECT_RECORD] @ issuer @ subject @ fzn_put_be32 stream @ fzn_put_be32 kind @ fzn_put_be64 seq @
     (case prev of Some p \<Rightarrow> p | None \<Rightarrow> replicate FZN_RECORD_ID_LEN 0) @ fzn_put_be64 issued_at @ fzn_put_be16 (of_nat (length body)) @ body"

definition fzn_record_sign :: "key option \<Rightarrow> bytes option \<Rightarrow> u32 \<Rightarrow> u32 \<Rightarrow> u64 \<Rightarrow> bytes option \<Rightarrow> u64 \<Rightarrow> bytes option \<Rightarrow> nat \<Rightarrow>
    fzn_sign_ops option \<Rightarrow> bytes option \<Rightarrow> nat \<Rightarrow> fzn_record_err \<times> bytes option \<times> nat option" where
  "fzn_record_sign issuer subject stream kind seq prev issued_at body body_len sign out out_cap =
     (if issuer = None \<or> subject = None \<or> sign = None \<or> so_sign (the sign) = None \<or> out = None then (FZN_RECORD_ERR_MALFORMED, out, None)
      else if body = None \<and> body_len \<noteq> 0 then (FZN_RECORD_ERR_MALFORMED, out, None)
      else if body_len > FZN_RECORD_BODY_MAX then (FZN_RECORD_ERR_BODY_TOO_LARGE, out, None)
      else if seq = 0 then (FZN_RECORD_ERR_SEQ_ZERO, out, None)
      else if seq = 1 \<and> prev \<noteq> None \<and> \<not> prev_is_zero (the prev) then (FZN_RECORD_ERR_MALFORMED, out, None)
      else let signed_len = FZN_RECORD_HEADER_LEN + body_len in
        if out_cap < signed_len + FZN_SIG_LEN then (FZN_RECORD_ERR_MALFORMED, out, None)
        else let signed = record_signed (the issuer) (the subject) stream kind seq prev issued_at
                   (if body_len \<noteq> 0 then take body_len (the body) else [])
             in (case the (so_sign (the sign)) signed of
                   None \<Rightarrow> (FZN_RECORD_ERR_UNSIGNED, Some (put_at 0 (signed @ replicate FZN_SIG_LEN 0) (the out)), None)
                 | Some sig \<Rightarrow> (FZN_RECORD_OK, Some (put_at 0 (signed @ sig) (the out)), Some (signed_len + FZN_SIG_LEN))))"

definition fzn_record_err_str :: "fzn_record_err \<Rightarrow> string" where
  "fzn_record_err_str err =
     (case err of FZN_RECORD_OK \<Rightarrow> ''ok'' | FZN_RECORD_ERR_MALFORMED \<Rightarrow> ''malformed argument''
      | FZN_RECORD_ERR_UNSIGNED \<Rightarrow> ''signature does not check out'' | FZN_RECORD_ERR_BODY_TOO_LARGE \<Rightarrow> ''body exceeds what a record carries''
      | FZN_RECORD_ERR_SEQ_ZERO \<Rightarrow> ''sequence zero is reserved'' | FZN_RECORD_ERR_SHAPE \<Rightarrow> ''not the shape of a record'')"

section \<open>The store\<close>

datatype fzn_record_store_err = FZN_RECORD_STORE_OK | FZN_RECORD_STORE_ERR_MALFORMED | FZN_RECORD_STORE_ERR_ABSENT
  | FZN_RECORD_STORE_ERR_BACKEND | FZN_RECORD_STORE_ERR_SHAPE | FZN_RECORD_STORE_ERR_MISPLACED

text \<open>
  A backend over states of type \<open>'b\<close>: putting and cutting answer whether they were done; getting answers
  with the bytes, at most as many as there is room for, or with whether the record was found at all.
\<close>

record 'b fzn_record_store_ops =
  st_put :: "(key \<Rightarrow> u32 \<Rightarrow> u64 \<Rightarrow> bytes \<Rightarrow> 'b \<Rightarrow> bool \<times> 'b) option"
  st_get :: "(key \<Rightarrow> u32 \<Rightarrow> u64 \<Rightarrow> nat \<Rightarrow> 'b \<Rightarrow> bytes + bool) option"
  st_cut :: "(key \<Rightarrow> u32 \<Rightarrow> u64 \<Rightarrow> u64 \<Rightarrow> 'b \<Rightarrow> bool \<times> 'b) option"

definition fzn_record_store_init :: "'b fzn_record_store_ops option \<Rightarrow> fzn_record_store_err \<times> 'b fzn_record_store_ops option" where
  "fzn_record_store_init ops =
     (if ops = None \<or> st_put (the ops) = None \<or> st_get (the ops) = None then (FZN_RECORD_STORE_ERR_MALFORMED, None)
      else (FZN_RECORD_STORE_OK, ops))"

definition fzn_record_store_put :: "'b fzn_record_store_ops option \<Rightarrow> 'b \<Rightarrow> bytes option \<Rightarrow> fzn_record_store_err \<times> 'b" where
  "fzn_record_store_put store held record =
     (if store = None then (FZN_RECORD_STORE_ERR_MALFORMED, held)
      else if \<not> fzn_record_is_open record then (FZN_RECORD_STORE_ERR_MALFORMED, held)
      else let r = the record; (ok, held) = the (st_put (the store)) (fzn_record_issuer r) (fzn_record_stream r) (fzn_record_seq r) r held
           in (if ok then FZN_RECORD_STORE_OK else FZN_RECORD_STORE_ERR_BACKEND, held))"

definition fzn_record_store_cut :: "'b fzn_record_store_ops option \<Rightarrow> 'b \<Rightarrow> key option \<Rightarrow> u32 \<Rightarrow> u64 \<Rightarrow> u64 \<Rightarrow> fzn_record_store_err \<times> 'b" where
  "fzn_record_store_cut store held issuer stream start below =
     (if store = None \<or> st_cut (the store) = None \<or> issuer = None \<or> start = 0 \<or> below \<le> start then (FZN_RECORD_STORE_ERR_MALFORMED, held)
      else let (ok, held) = the (st_cut (the store)) (the issuer) stream start below held
           in (if ok then FZN_RECORD_STORE_OK else FZN_RECORD_STORE_ERR_BACKEND, held))"

definition fzn_record_store_get :: "'b fzn_record_store_ops option \<Rightarrow> 'b \<Rightarrow> key option \<Rightarrow> u32 \<Rightarrow> u64 \<Rightarrow> nat \<Rightarrow> fzn_record_store_err \<times> bytes option" where
  "fzn_record_store_get store held issuer stream seq cap =
     (if store = None \<or> issuer = None then (FZN_RECORD_STORE_ERR_MALFORMED, None)
      else if seq = 0 then (FZN_RECORD_STORE_ERR_MALFORMED, None)
      else (case the (st_get (the store)) (the issuer) stream seq cap held of
          Inr found \<Rightarrow> (if found then FZN_RECORD_STORE_ERR_BACKEND else FZN_RECORD_STORE_ERR_ABSENT, None)
        | Inl b \<Rightarrow>
          (case fzn_record_open (Some b) of
             (FZN_RECORD_OK, Some r) \<Rightarrow>
               if fzn_record_issuer r \<noteq> the issuer \<or> fzn_record_stream r \<noteq> stream \<or> fzn_record_seq r \<noteq> seq then (FZN_RECORD_STORE_ERR_MISPLACED, None)
               else (FZN_RECORD_STORE_OK, Some r)
           | _ \<Rightarrow> (FZN_RECORD_STORE_ERR_SHAPE, None))))"

definition fzn_record_store_err_str :: "fzn_record_store_err \<Rightarrow> string" where
  "fzn_record_store_err_str err =
     (case err of FZN_RECORD_STORE_OK \<Rightarrow> ''ok'' | FZN_RECORD_STORE_ERR_MALFORMED \<Rightarrow> ''malformed'' | FZN_RECORD_STORE_ERR_ABSENT \<Rightarrow> ''not held''
      | FZN_RECORD_STORE_ERR_BACKEND \<Rightarrow> ''backend refused'' | FZN_RECORD_STORE_ERR_SHAPE \<Rightarrow> ''not a record''
      | FZN_RECORD_STORE_ERR_MISPLACED \<Rightarrow> ''filed under another address'')"

text \<open>
  The walk from the cut down to the act. Its length is the distance between the two sequence numbers,
  so the argument that counts down is that distance and the walk ends.
\<close>

fun stands_loop :: "'b fzn_record_store_ops option \<Rightarrow> 'b \<Rightarrow> fzn_hash_fn \<Rightarrow> key \<Rightarrow> u32 \<Rightarrow> bytes \<Rightarrow> nat \<Rightarrow> u64 \<Rightarrow> bytes \<Rightarrow> bool" where
  "stands_loop store held h issuer stream act_id left seq wanted_id =
     (case fzn_record_store_get store held (Some issuer) stream seq FZN_RECORD_MAX_LEN of
        (FZN_RECORD_STORE_OK, Some rec) \<Rightarrow>
          (case h FZN_RECORD_ID_LEN rec of None \<Rightarrow> False
           | Some got \<Rightarrow>
             if got \<noteq> wanted_id then False
             else (case left of 0 \<Rightarrow> got = act_id
                   | Suc n \<Rightarrow> stands_loop store held h issuer stream act_id n (seq - 1) (fzn_record_prev rec)))
      | _ \<Rightarrow> False)"

definition fzn_record_store_stands :: "'b fzn_record_store_ops option \<Rightarrow> 'b \<Rightarrow> fzn_hash_fn option \<Rightarrow> key option \<Rightarrow> u32 \<Rightarrow> u64 \<Rightarrow> bytes option \<Rightarrow>
    u64 \<Rightarrow> bytes option \<Rightarrow> bool" where
  "fzn_record_store_stands store held hash issuer stream cut_seq cut_id act_seq act_id =
     (if store = None \<or> hash = None \<or> issuer = None \<or> cut_id = None \<or> act_id = None \<or> act_seq = 0 \<or> act_seq > cut_seq then False
      else stands_loop store held (the hash) (the issuer) stream (the act_id) (unat (cut_seq - act_seq)) cut_seq (the cut_id))"


section \<open>The shape of a record\<close>

lemma prev_is_zero_iff: "length p = FZN_RECORD_ID_LEN \<Longrightarrow> prev_is_zero p \<longleftrightarrow> p = replicate FZN_RECORD_ID_LEN 0"
  unfolding prev_is_zero_def or_fold_zero by (simp add: list_eq_iff_nth_eq Ball_def del: upt_rec_numeral)

lemma prev_at: "FZN_RECORD_MIN_LEN \<le> length b \<Longrightarrow>
  prev_is_zero (bytes_at 82 FZN_RECORD_ID_LEN b) \<longleftrightarrow> fold (\<lambda>i acc. acc OR b ! (82 + i)) [0..<FZN_RECORD_ID_LEN] 0 = 0"
  unfolding prev_is_zero_def or_fold_zero by (auto simp: nth_bytes_at simp del: upt_rec_numeral)

lemma record_open_iff: "fzn_record_open (Some b) = (FZN_RECORD_OK, Some r) \<longleftrightarrow> r = b \<and> fzn_record_is_open (Some b)"
  by (auto simp: fzn_record_open_def fzn_record_is_open_def Let_def prev_at simp del: upt_rec_numeral)

text \<open>What a signer hands out: the fields in their places, with the signature behind them.\<close>

lemma record_fields:
  fixes stream kind :: u32 and seq issued_at :: u64
  assumes "length issuer = FZN_PUBKEY_LEN" and "length subject = FZN_SUBJECT_LEN" and "\<forall>p. prev = Some p \<longrightarrow> length p = FZN_RECORD_ID_LEN"
    and "length body \<le> FZN_RECORD_BODY_MAX" and "length sig = FZN_SIG_LEN"
  defines "b \<equiv> record_signed issuer subject stream kind seq prev issued_at body @ sig"
  shows "fzn_record_issuer b = issuer" and "fzn_record_subject b = subject" and "fzn_record_stream b = stream" and "fzn_record_kind b = kind"
    and "fzn_record_seq b = seq" and "fzn_record_prev b = (case prev of Some p \<Rightarrow> p | None \<Rightarrow> replicate FZN_RECORD_ID_LEN 0)"
    and "fzn_record_issued_at b = issued_at" and "fzn_record_body b = body" and "fzn_record_body_len b = length body"
    and "length b = FZN_RECORD_HEADER_LEN + length body + FZN_SIG_LEN"
    and "fzn_record_signed_bytes b = record_signed issuer subject stream kind seq prev issued_at body" and "fzn_record_signature b = sig"
    and "b ! 0 = FZN_SIGNED_VERSION" and "b ! 1 = FZN_OBJECT_RECORD"
proof -
  let ?prev = "case prev of Some p \<Rightarrow> p | None \<Rightarrow> replicate FZN_RECORD_ID_LEN 0"
  have lp: "length ?prev = FZN_RECORD_ID_LEN" using assms(3) by (cases prev) auto
  define P where "P = ?prev"
  have b: "b = [FZN_SIGNED_VERSION, FZN_OBJECT_RECORD] @ issuer @ subject @ fzn_put_be32 stream @ fzn_put_be32 kind @ fzn_put_be64 seq @ P @
      fzn_put_be64 issued_at @ fzn_put_be16 (of_nat (length body)) @ body @ sig"
    by (simp add: b_def record_signed_def P_def)
  note lens = assms(1,2,5) lp [folded P_def]
  show "fzn_record_issuer b = issuer" "fzn_record_subject b = subject" "fzn_record_stream b = stream" "fzn_record_kind b = kind"
    "fzn_record_seq b = seq" "fzn_record_issued_at b = issued_at"
    using lens by (simp_all add: b fzn_record_issuer_def fzn_record_subject_def fzn_record_stream_def fzn_record_kind_def fzn_record_seq_def
        fzn_record_issued_at_def get_put_be32 get_put_be64)
  show "fzn_record_prev b = ?prev" using lens unfolding P_def [symmetric] by (simp add: b fzn_record_prev_def)
  have small: "unat (of_nat (length body) :: u16) = length body" using assms(4) by (simp add: unsigned_of_nat take_bit_nat_eq_self)
  show bl: "fzn_record_body_len b = length body" using lens small by (simp add: b fzn_record_body_len_def get_put_be16)
  show "fzn_record_body b = body" unfolding fzn_record_body_def bl using lens by (simp add: b)
  show len: "length b = FZN_RECORD_HEADER_LEN + length body + FZN_SIG_LEN" using lens by (simp add: b)
  have "length (record_signed issuer subject stream kind seq prev issued_at body) = FZN_RECORD_HEADER_LEN + length body"
    using len lens by (simp add: b_def)
  then show "fzn_record_signed_bytes b = record_signed issuer subject stream kind seq prev issued_at body" "fzn_record_signature b = sig"
    unfolding fzn_record_signed_bytes_def fzn_record_signature_def len using lens by (simp_all add: b_def)
  show "b ! 0 = FZN_SIGNED_VERSION" "b ! 1 = FZN_OBJECT_RECORD" by (simp_all add: b)
qed

lemma signed_is_open:
  assumes "length issuer = FZN_PUBKEY_LEN" and "length subject = FZN_SUBJECT_LEN" and "\<forall>p. prev = Some p \<longrightarrow> length p = FZN_RECORD_ID_LEN"
    and "length body \<le> FZN_RECORD_BODY_MAX" and "length sig = FZN_SIG_LEN"
    and "seq \<noteq> 0" and "\<not> (seq = 1 \<and> prev \<noteq> None \<and> \<not> prev_is_zero (the prev))"
  shows "fzn_record_is_open (Some (record_signed issuer subject stream kind seq prev issued_at body @ sig))"
proof -
  define b where "b = record_signed issuer subject stream kind seq prev issued_at body @ sig"
  note f = record_fields [OF assms(1-5), of stream kind seq issued_at, folded b_def]
  have "seq = 1 \<Longrightarrow> prev_is_zero (fzn_record_prev b)"
    unfolding f using assms(7) by (auto simp: prev_is_zero_iff split: option.split)
  then have "seq = 1 \<Longrightarrow> fold (\<lambda>i acc. acc OR b ! (82 + i)) [0..<FZN_RECORD_ID_LEN] 0 = 0"
    using prev_at [of b] f(10) by (simp add: fzn_record_prev_def del: upt_rec_numeral)
  then show ?thesis
    using f(5,9,10,13,14) assms(4,6) unfolding b_def [symmetric]
    by (simp add: fzn_record_is_open_def fzn_record_seq_def fzn_record_body_len_def Let_def del: upt_rec_numeral)
qed

lemma signed_record_reads:
  assumes "length issuer = FZN_PUBKEY_LEN" and "length subject = FZN_SUBJECT_LEN" and "\<forall>p. prev = Some p \<longrightarrow> length p = FZN_RECORD_ID_LEN"
    and "so_sign sign = Some do_sign" and "so_verify sign = Some verify" and "signs_for verify do_sign issuer"
    and "length out = out_cap"
    and "fzn_record_sign (Some issuer) (Some subject) stream kind seq prev issued_at (Some body) (length body) (Some sign) (Some out) out_cap
      = (FZN_RECORD_OK, Some out', Some n)"
  shows "fzn_record_open (Some (take n out')) = (FZN_RECORD_OK, Some (take n out'))"
    and "fzn_record_verify (Some (take n out')) (Some sign) = FZN_RECORD_OK"
    and "fzn_record_issuer (take n out') = issuer" and "fzn_record_subject (take n out') = subject"
    and "fzn_record_stream (take n out') = stream" and "fzn_record_kind (take n out') = kind"
    and "fzn_record_seq (take n out') = seq" and "fzn_record_prev (take n out') = (case prev of Some p \<Rightarrow> p | None \<Rightarrow> replicate FZN_RECORD_ID_LEN 0)"
    and "fzn_record_issued_at (take n out') = issued_at" and "fzn_record_body (take n out') = body"
    and "n = FZN_RECORD_HEADER_LEN + length body + FZN_SIG_LEN" and "drop n out' = drop n out"
    and "fzn_record_open (Some v) = (FZN_RECORD_OK, Some v) \<longleftrightarrow> fzn_record_is_open (Some v)"
proof -
  let ?s = "record_signed issuer subject stream kind seq prev issued_at body"
  obtain sig where sig: "do_sign ?s = Some sig" and out': "out' = put_at 0 (?s @ sig) out" and n: "n = FZN_RECORD_HEADER_LEN + length body + FZN_SIG_LEN"
    and ok: "length body \<le> FZN_RECORD_BODY_MAX" "seq \<noteq> 0" "\<not> (seq = 1 \<and> prev \<noteq> None \<and> \<not> prev_is_zero (the prev))"
    using assms(4,8) by (auto simp: fzn_record_sign_def Let_def split: if_splits option.splits)
  have sl: "length sig = FZN_SIG_LEN" and ver: "verify issuer ?s sig" using assms(6) sig by (auto simp: signs_for_def)
  note f = record_fields [OF assms(1-3) ok(1) sl, of stream kind seq issued_at]
  have b: "take n out' = ?s @ sig" unfolding out' using f(10) n by (intro take_put_front) simp
  have op: "fzn_record_is_open (Some (?s @ sig))" by (rule signed_is_open [OF assms(1-3) ok(1) sl ok(2,3)])
  show "fzn_record_open (Some (take n out')) = (FZN_RECORD_OK, Some (take n out'))" unfolding b record_open_iff using op by simp
  show "fzn_record_verify (Some (take n out')) (Some sign) = FZN_RECORD_OK"
    unfolding b using op assms(5) ver f(1,11,12) by (simp add: fzn_record_verify_def)
  show "fzn_record_issuer (take n out') = issuer" "fzn_record_subject (take n out') = subject"
    "fzn_record_stream (take n out') = stream" "fzn_record_kind (take n out') = kind"
    "fzn_record_seq (take n out') = seq" "fzn_record_prev (take n out') = (case prev of Some p \<Rightarrow> p | None \<Rightarrow> replicate FZN_RECORD_ID_LEN 0)"
    "fzn_record_issued_at (take n out') = issued_at" "fzn_record_body (take n out') = body"
    unfolding b by (rule f)+
  show "n = FZN_RECORD_HEADER_LEN + length body + FZN_SIG_LEN" by (rule n)
  show "drop n out' = drop n out" unfolding out' using f(10) n by (simp add: put_at_def)
  show "fzn_record_open (Some v) = (FZN_RECORD_OK, Some v) \<longleftrightarrow> fzn_record_is_open (Some v)" by (simp add: record_open_iff)
qed

text \<open>
  A record that was signed opens, verifies under its issuer's key and reads back as the subject, the
  stream, the kind, the sequence number, the predecessor, the time and the body it was signed with; and a
  view counts as open exactly when opening its bytes succeeds, so nothing is verified that would not open.
\<close>

theorem signed_record_opens:
  assumes "length issuer = FZN_PUBKEY_LEN" and "length subject = FZN_SUBJECT_LEN" and "\<forall>p. prev = Some p \<longrightarrow> length p = FZN_RECORD_ID_LEN"
    and "so_sign sign = Some do_sign" and "so_verify sign = Some verify" and "signs_for verify do_sign issuer"
    and "length out = out_cap"
    and "fzn_record_sign (Some issuer) (Some subject) stream kind seq prev issued_at (Some body) (length body) (Some sign) (Some out) out_cap
      = (FZN_RECORD_OK, Some out', Some n)"
  shows "fzn_record_open (Some (take n out')) = (FZN_RECORD_OK, Some (take n out')) \<and>
    fzn_record_verify (Some (take n out')) (Some sign) = FZN_RECORD_OK \<and>
    fzn_record_issuer (take n out') = issuer \<and> fzn_record_subject (take n out') = subject \<and>
    fzn_record_stream (take n out') = stream \<and> fzn_record_kind (take n out') = kind \<and> fzn_record_seq (take n out') = seq \<and>
    fzn_record_prev (take n out') = (case prev of Some p \<Rightarrow> p | None \<Rightarrow> replicate FZN_RECORD_ID_LEN 0) \<and>
    fzn_record_issued_at (take n out') = issued_at \<and> fzn_record_body (take n out') = body \<and> drop n out' = drop n out \<and>
    (fzn_record_open (Some v) = (FZN_RECORD_OK, Some v) \<longleftrightarrow> fzn_record_is_open (Some v))"
  by (intro conjI signed_record_reads [OF assms])

definition record_signer :: fzn_sign_ops where
  "record_signer = \<lparr>so_verify = Some (\<lambda>k m sig. sig = replicate 64 7), so_sign = Some (\<lambda>m. Some (replicate 64 7))\<rparr>"

theorem signed_record_opens_witness:
  "\<exists>out'. fzn_record_sign (Some (replicate 32 1)) (Some (replicate 32 2)) 3 4 1 None 5 (Some [8, 9]) 2 (Some record_signer) (Some (replicate 200 0)) 200
      = (FZN_RECORD_OK, Some out', Some 190) \<and>
    fzn_record_open (Some (take 190 out')) = (FZN_RECORD_OK, Some (take 190 out')) \<and> fzn_record_body (take 190 out') = [8, 9]"
proof -
  let ?r = "fzn_record_sign (Some (replicate 32 1)) (Some (replicate 32 2)) 3 4 1 None 5 (Some [8, 9]) (length [8, 9 :: u8]) (Some record_signer) (Some (replicate 200 0)) 200"
  have "fst ?r = FZN_RECORD_OK \<and> fst (snd ?r) \<noteq> None \<and> snd (snd ?r) = Some 190" by code_simp
  then obtain out' where r: "?r = (FZN_RECORD_OK, Some out', Some 190)" by (metis option.exhaust_sel prod.collapse)
  from signed_record_opens [OF _ _ _ _ _ _ _ r, of "\<lambda>m. Some (replicate 64 7)" "\<lambda>k m sig. sig = replicate 64 7"]
  have "fzn_record_open (Some (take 190 out')) = (FZN_RECORD_OK, Some (take 190 out')) \<and> fzn_record_body (take 190 out') = [8, 9]"
    by (simp add: record_signer_def signs_for_def)
  with r show ?thesis by (intro exI [of _ out']) (simp add: numeral_2_eq_2)
qed

section \<open>What stands under a cut\<close>

text \<open>A path of records, each named by its successor, from the record named first down to the last.\<close>

fun hash_linked :: "fzn_hash_fn \<Rightarrow> bytes \<Rightarrow> bytes list \<Rightarrow> bytes \<Rightarrow> bool" where
  "hash_linked h named [] last_id \<longleftrightarrow> False"
| "hash_linked h named [r] last_id \<longleftrightarrow> h FZN_RECORD_ID_LEN r = Some named \<and> named = last_id"
| "hash_linked h named (r # rs) last_id \<longleftrightarrow> h FZN_RECORD_ID_LEN r = Some named \<and> hash_linked h (fzn_record_prev r) rs last_id"

definition held_path :: "'b fzn_record_store_ops option \<Rightarrow> 'b \<Rightarrow> key \<Rightarrow> u32 \<Rightarrow> u64 \<Rightarrow> bytes list \<Rightarrow> bool" where
  "held_path store held issuer stream seq rs \<longleftrightarrow>
     (\<forall>i < length rs. fzn_record_store_get store held (Some issuer) stream (seq - of_nat i) FZN_RECORD_MAX_LEN = (FZN_RECORD_STORE_OK, Some (rs ! i)))"

lemma held_path_Cons: "held_path store held issuer stream seq (r # rs) \<longleftrightarrow>
  fzn_record_store_get store held (Some issuer) stream seq FZN_RECORD_MAX_LEN = (FZN_RECORD_STORE_OK, Some r) \<and> held_path store held issuer stream (seq - 1) rs"
  unfolding held_path_def All_less_Suc2 length_Cons by (simp add: algebra_simps)

lemma stands_step:
  "stands_loop store held h issuer stream act_id left seq named \<longleftrightarrow>
   (\<exists>r. fzn_record_store_get store held (Some issuer) stream seq FZN_RECORD_MAX_LEN = (FZN_RECORD_STORE_OK, Some r) \<and>
     h FZN_RECORD_ID_LEN r = Some named \<and>
     (case left of 0 \<Rightarrow> named = act_id | Suc n \<Rightarrow> stands_loop store held h issuer stream act_id n (seq - 1) (fzn_record_prev r)))"
proof (cases "fzn_record_store_get store held (Some issuer) stream seq FZN_RECORD_MAX_LEN")
  case (Pair err r)
  show ?thesis
    by (subst stands_loop.simps, cases err; cases r) (auto simp: Pair split: option.split nat.split)
qed

declare stands_loop.simps [simp del]

lemma stands_loop_path:
  "stands_loop store held h issuer stream act_id left seq named \<longleftrightarrow>
   (\<exists>rs. length rs = Suc left \<and> held_path store held issuer stream seq rs \<and> hash_linked h named rs act_id)"
proof (induction left arbitrary: seq named)
  case 0
  show ?case unfolding stands_step [of store held h issuer stream act_id 0]
    by (auto simp: length_Suc_conv ex_simps(1) [symmetric] held_path_Cons held_path_def [of _ _ _ _ _ "[]"] simp del: ex_simps)
next
  case (Suc left)
  have longer: "hash_linked h named (r # rs) act_id \<longleftrightarrow> h FZN_RECORD_ID_LEN r = Some named \<and> hash_linked h (fzn_record_prev r) rs act_id"
    if "length rs = Suc left" for r rs using that by (cases rs) auto
  show ?case
    unfolding length_Suc_conv [of _ "Suc left"] stands_step [of store held h issuer stream act_id "Suc left"] nat.case Suc.IH
    by (metis held_path_Cons longer)
qed

lemma stands_path:
  "fzn_record_store_stands (Some store) held (Some h) (Some issuer) stream cut_seq (Some cut_id) act_seq (Some act_id) \<longleftrightarrow>
   act_seq \<noteq> 0 \<and> act_seq \<le> cut_seq \<and>
   (\<exists>rs. length rs = Suc (unat cut_seq - unat act_seq) \<and> held_path (Some store) held issuer stream cut_seq rs \<and> hash_linked h cut_id rs act_id)"
  by (auto simp: fzn_record_store_stands_def stands_loop_path unat_sub)

lemma linked_agree:
  assumes "hash_linked h named rs a" and "hash_linked h named rs' a'" and "length rs = length rs'"
  shows "(rs = rs' \<and> a = a') \<or>
    (\<exists>i < length rs. rs ! i \<noteq> rs' ! i \<and> h FZN_RECORD_ID_LEN (rs ! i) \<noteq> None \<and> h FZN_RECORD_ID_LEN (rs ! i) = h FZN_RECORD_ID_LEN (rs' ! i))"
  using assms
proof (induction h named rs a arbitrary: rs' rule: hash_linked.induct)
  case (2 h named r last_id)
  then have "length rs' = Suc 0" by simp
  then obtain r' where "rs' = [r']" unfolding length_Suc_conv by auto
  with 2 show ?case by auto
next
  case (3 h named r q rs last_id)
  obtain r' q' rs2 where rs': "rs' = r' # q' # rs2" using 3(4) by (metis Suc_length_conv length_Cons)
  have h: "h FZN_RECORD_ID_LEN r = Some named" "h FZN_RECORD_ID_LEN r' = Some named" using 3(2,3) rs' by auto
  show ?case
  proof (cases "r = r'")
    case True
    have "hash_linked h (fzn_record_prev r) (q' # rs2) a'" "length (q # rs) = length (q' # rs2)" "hash_linked h (fzn_record_prev r) (q # rs) last_id"
      using 3(2-4) rs' True by auto
    from 3(1) [OF this(3,1,2)] show ?thesis
    proof (elim disjE exE conjE)
      fix i assume "i < length (q # rs)" "(q # rs) ! i \<noteq> (q' # rs2) ! i" "h FZN_RECORD_ID_LEN ((q # rs) ! i) \<noteq> None"
        "h FZN_RECORD_ID_LEN ((q # rs) ! i) = h FZN_RECORD_ID_LEN ((q' # rs2) ! i)"
      then show ?thesis unfolding rs' by (intro disjI2 exI [of _ "Suc i"]) simp
    qed (simp add: rs' True)
  next
    case False
    then show ?thesis using h unfolding rs' by auto
  qed
qed simp

text \<open>
  C35. An act stands under a cut exactly when the store holds every record from the cut down to the act,
  the first is the one the cut names, each is the one its successor names and the last is the act. So a
  cut fixes the past: two hosts that hold whatever records they hold and agree on the cut agree on the act
  at every sequence number below it, unless between them they hold two different records with the same
  hash.
\<close>

theorem cut_fixes_past:
  assumes "fzn_record_store_stands (Some store) held (Some h) (Some issuer) stream cut_seq (Some cut_id) act_seq (Some act_id)"
    and "fzn_record_store_stands (Some store') held' (Some h) (Some issuer) stream cut_seq (Some cut_id) act_seq (Some act_id')"
  shows "(fzn_record_store_stands (Some store) held (Some h) (Some issuer) stream cut_seq (Some cut_id) a_seq (Some a_id) \<longleftrightarrow>
      a_seq \<noteq> 0 \<and> a_seq \<le> cut_seq \<and>
      (\<exists>rs. length rs = Suc (unat cut_seq - unat a_seq) \<and> held_path (Some store) held issuer stream cut_seq rs \<and> hash_linked h cut_id rs a_id)) \<and>
    (act_id = act_id' \<or>
     (\<exists>seq r r'. fzn_record_store_get (Some store) held (Some issuer) stream seq FZN_RECORD_MAX_LEN = (FZN_RECORD_STORE_OK, Some r) \<and>
        fzn_record_store_get (Some store') held' (Some issuer) stream seq FZN_RECORD_MAX_LEN = (FZN_RECORD_STORE_OK, Some r') \<and>
        r \<noteq> r' \<and> h FZN_RECORD_ID_LEN r \<noteq> None \<and> h FZN_RECORD_ID_LEN r = h FZN_RECORD_ID_LEN r'))"
proof -
  from assms(1) obtain rs where rs: "length rs = Suc (unat cut_seq - unat act_seq)" "held_path (Some store) held issuer stream cut_seq rs"
      "hash_linked h cut_id rs act_id" unfolding stands_path by blast
  from assms(2) obtain rs' where rs': "length rs' = Suc (unat cut_seq - unat act_seq)" "held_path (Some store') held' issuer stream cut_seq rs'"
      "hash_linked h cut_id rs' act_id'" unfolding stands_path by blast
  have "act_id = act_id' \<or> (\<exists>i < length rs. rs ! i \<noteq> rs' ! i \<and> h FZN_RECORD_ID_LEN (rs ! i) \<noteq> None \<and> h FZN_RECORD_ID_LEN (rs ! i) = h FZN_RECORD_ID_LEN (rs' ! i))"
    using linked_agree [OF rs(3) rs'(3)] rs(1) rs'(1) by auto
  then have "act_id = act_id' \<or>
     (\<exists>seq r r'. fzn_record_store_get (Some store) held (Some issuer) stream seq FZN_RECORD_MAX_LEN = (FZN_RECORD_STORE_OK, Some r) \<and>
        fzn_record_store_get (Some store') held' (Some issuer) stream seq FZN_RECORD_MAX_LEN = (FZN_RECORD_STORE_OK, Some r') \<and>
        r \<noteq> r' \<and> h FZN_RECORD_ID_LEN r \<noteq> None \<and> h FZN_RECORD_ID_LEN r = h FZN_RECORD_ID_LEN r')"
  proof (elim disjE exE conjE)
    fix i assume "i < length rs" "rs ! i \<noteq> rs' ! i" "h FZN_RECORD_ID_LEN (rs ! i) \<noteq> None" "h FZN_RECORD_ID_LEN (rs ! i) = h FZN_RECORD_ID_LEN (rs' ! i)"
    moreover have "i < length rs'" using \<open>i < length rs\<close> rs(1) rs'(1) by simp
    ultimately show ?thesis using rs(2) rs'(2) unfolding held_path_def by blast
  qed simp
  then show ?thesis by (intro conjI stands_path)
qed

definition demo_rec1 :: bytes where
  "demo_rec1 = record_signed (replicate 32 1) (replicate 32 2) 3 4 1 None 5 [] @ replicate 64 7"

definition demo_id :: fzn_hash_fn where
  "demo_id n m = Some (bytes_at 74 n m)"

definition demo_rec2 :: bytes where
  "demo_rec2 = record_signed (replicate 32 1) (replicate 32 2) 3 4 2 (Some (bytes_at 74 32 demo_rec1)) 6 [9] @ replicate 64 7"

definition demo_backend :: "unit fzn_record_store_ops" where
  "demo_backend = \<lparr>st_put = Some (\<lambda>_ _ _ _ _. (False, ())),
     st_get = Some (\<lambda>_ _ seq _ _. if seq = 1 then Inl demo_rec1 else if seq = 2 then Inl demo_rec2 else Inr False), st_cut = None\<rparr>"

lemma demo_get:
  "fzn_record_store_get (Some demo_backend) () (Some (replicate 32 1)) 3 1 FZN_RECORD_MAX_LEN = (FZN_RECORD_STORE_OK, Some demo_rec1)"
  "fzn_record_store_get (Some demo_backend) () (Some (replicate 32 1)) 3 2 FZN_RECORD_MAX_LEN = (FZN_RECORD_STORE_OK, Some demo_rec2)"
  "fzn_record_prev demo_rec2 = bytes_at 74 32 demo_rec1"
proof -
  have l1: "length demo_rec1 = 188" using record_fields(10) [of "replicate 32 1" "replicate 32 2" None "[]" "replicate 64 7"] by (simp add: demo_rec1_def)
  have pr: "\<forall>p. Some (bytes_at 74 32 demo_rec1) = Some p \<longrightarrow> length p = FZN_RECORD_ID_LEN" by (simp add: l1)
  note f1 = record_fields [of "replicate 32 1" "replicate 32 2" None "[]" "replicate 64 7", of 3 4 1 5, folded demo_rec1_def]
  note f2 = record_fields [OF _ _ pr, of "replicate 32 1" "replicate 32 2" "[9]" "replicate 64 7" 3 4 2 6, folded demo_rec2_def]
  have o1: "fzn_record_open (Some demo_rec1) = (FZN_RECORD_OK, Some demo_rec1)"
    unfolding record_open_iff using signed_is_open [of "replicate 32 1" "replicate 32 2" None "[]" "replicate 64 7" 1 3 4 5] by (simp add: demo_rec1_def)
  have o2: "fzn_record_open (Some demo_rec2) = (FZN_RECORD_OK, Some demo_rec2)"
    unfolding record_open_iff using signed_is_open [OF _ _ pr, of "replicate 32 1" "replicate 32 2" "[9]" "replicate 64 7" 2 3 4 6] by (simp add: demo_rec2_def)
  show "fzn_record_store_get (Some demo_backend) () (Some (replicate 32 1)) 3 1 FZN_RECORD_MAX_LEN = (FZN_RECORD_STORE_OK, Some demo_rec1)"
    "fzn_record_store_get (Some demo_backend) () (Some (replicate 32 1)) 3 2 FZN_RECORD_MAX_LEN = (FZN_RECORD_STORE_OK, Some demo_rec2)"
    using f1(1,3,5) f2(1,3,5) by (simp_all add: fzn_record_store_get_def demo_backend_def o1 o2)
  show "fzn_record_prev demo_rec2 = bytes_at 74 32 demo_rec1" using f2(6) by simp
qed

theorem cut_fixes_past_witness:
  "fzn_record_store_stands (Some demo_backend) () (Some demo_id) (Some (replicate 32 1)) 3 2 (Some (bytes_at 74 32 demo_rec2)) 1 (Some (bytes_at 74 32 demo_rec1)) \<and>
   (\<exists>rs. length rs = 2 \<and> hash_linked demo_id (bytes_at 74 32 demo_rec2) rs (bytes_at 74 32 demo_rec1))"
proof -
  have "hash_linked demo_id (bytes_at 74 32 demo_rec2) [demo_rec2, demo_rec1] (bytes_at 74 32 demo_rec1)"
    by (simp add: demo_id_def demo_get)
  moreover have "held_path (Some demo_backend) () (replicate 32 1) 3 2 [demo_rec2, demo_rec1]"
    using demo_get by (simp add: held_path_Cons held_path_def [of _ _ _ _ _ "[]"])
  moreover have "length [demo_rec2, demo_rec1] = Suc (unat (2 :: u64) - unat (1 :: u64))" "(1 :: u64) \<le> 2" by simp_all
  ultimately have yes: "fzn_record_store_stands (Some demo_backend) () (Some demo_id) (Some (replicate 32 1)) 3 2 (Some (bytes_at 74 32 demo_rec2)) 1
      (Some (bytes_at 74 32 demo_rec1))"
    unfolding stands_path by (metis zero_neq_one)
  from cut_fixes_past [OF yes yes, of 1 "bytes_at 74 32 demo_rec1"] yes
  obtain rs where "length rs = Suc (unat (2 :: u64) - unat (1 :: u64))" "hash_linked demo_id (bytes_at 74 32 demo_rec2) rs (bytes_at 74 32 demo_rec1)" by blast
  moreover have "Suc (unat (2 :: u64) - unat (1 :: u64)) = 2" by simp
  ultimately show ?thesis using yes by metis
qed

end
