(* ===== verification/Keyed_Map.thy ===== *)
theory Keyed_Map
  imports Fzn_Prelude
begin

text \<open>
  Tables whose rows carry a key, read as maps. Several components search all rows of a table and
  take the last hit, so that the time does not tell where it was; with distinct keys that is the row of the
  key, and writing a row or appending one is an update of the map.
\<close>

definition last_hit :: "('a \<Rightarrow> bool) \<Rightarrow> 'a list \<Rightarrow> nat \<Rightarrow> nat option" where
  "last_hit P xs n = fold (\<lambda>i hit. if P (xs ! i) then Some i else hit) [0..<n] None"

lemma last_hit_None: "last_hit P xs n = None \<longleftrightarrow> (\<forall>i < n. \<not> P (xs ! i))"
  unfolding last_hit_def by (induction n) (auto simp: less_Suc_eq)

lemma last_hit_Some: "last_hit P xs n = Some i \<Longrightarrow> i < n \<and> P (xs ! i)"
  unfolding last_hit_def by (induction n) (auto simp: less_Suc_eq split: if_splits)

definition row_map :: "('e \<Rightarrow> 'k) \<Rightarrow> 'e list \<Rightarrow> ('k \<rightharpoonup> 'e)" where
  "row_map key_of xs = map_of (map (\<lambda>e. (key_of e, e)) xs)"

lemma dom_row_map: "dom (row_map key_of xs) = key_of ` set xs"
  by (auto simp: row_map_def dom_map_of_conv_image_fst image_image)

lemma row_map_nth:
  assumes "distinct (map key_of xs)" and "i < length xs"
  shows "row_map key_of xs (key_of (xs ! i)) = Some (xs ! i)"
proof -
  have "distinct (map fst (map (\<lambda>e. (key_of e, e)) xs))" using assms(1) by (simp add: comp_def)
  moreover have "(key_of (xs ! i), xs ! i) \<in> set (map (\<lambda>e. (key_of e, e)) xs)" using assms(2) by auto
  ultimately show ?thesis unfolding row_map_def by (rule map_of_is_SomeI)
qed

lemma row_map_None: "row_map key_of xs k = None \<longleftrightarrow> k \<notin> key_of ` set xs"
  by (simp add: dom_row_map [symmetric] domIff)

lemma row_map_in: "row_map key_of xs k = Some e \<Longrightarrow> e \<in> set xs \<and> key_of e = k"
  unfolding row_map_def by (drule map_of_SomeD) auto

lemma row_map_ext:
  assumes "distinct (map key_of ys)" and "\<And>k e. m k = Some e \<longleftrightarrow> e \<in> set ys \<and> key_of e = k"
  shows "row_map key_of ys = m"
proof (rule ext)
  fix k
  show "row_map key_of ys k = m k"
  proof (cases "m k")
    case None
    then show ?thesis using assms(2) [of k] by (auto simp: row_map_None)
  next
    case (Some e)
    then obtain i where "i < length ys" "ys ! i = e" "key_of e = k" using assms(2) by (auto simp: in_set_conv_nth)
    then show ?thesis using Some row_map_nth [OF assms(1), of i] by simp
  qed
qed

lemma update_keys: "i < length xs \<Longrightarrow> key_of e = key_of (xs ! i) \<Longrightarrow> map key_of (xs[i := e]) = map key_of xs"
  by (simp add: map_update) (metis list_update_id nth_map)

lemma row_map_update:
  assumes "distinct (map key_of xs)" and "i < length xs" and "key_of e = key_of (xs ! i)"
  shows "row_map key_of (xs[i := e]) = (row_map key_of xs)(key_of (xs ! i) \<mapsto> e)"
proof (rule row_map_ext)
  show d: "distinct (map key_of (xs[i := e]))" using assms update_keys [OF assms(2,3)] by metis
  have other: "j = i" if "j < length xs" "key_of (xs ! j) = key_of (xs ! i)" for j
    using nth_eq_iff_index_eq [OF assms(1), of j i] that assms(2) by simp
  fix k e'
  show "((row_map key_of xs)(key_of (xs ! i) \<mapsto> e)) k = Some e' \<longleftrightarrow> e' \<in> set (xs[i := e]) \<and> key_of e' = k"
  proof (cases "k = key_of (xs ! i)")
    case True
    then show ?thesis using assms(2,3) other by (auto simp: in_set_conv_nth nth_list_update split: if_splits)
  next
    case False
    have "row_map key_of xs k = Some e' \<longleftrightarrow> e' \<in> set xs \<and> key_of e' = k"
      using row_map_in [of key_of xs k e'] row_map_nth [OF assms(1)] by (auto simp: in_set_conv_nth)
    also have "\<dots> \<longleftrightarrow> e' \<in> set (xs[i := e]) \<and> key_of e' = k"
      using False assms(2,3) by (auto simp: in_set_conv_nth nth_list_update split: if_splits)
    finally show ?thesis using False by simp
  qed
qed

lemma row_map_append: "key_of e \<notin> key_of ` set xs \<Longrightarrow> row_map key_of (xs @ [e]) = (row_map key_of xs)(key_of e \<mapsto> e)"
  by (rule ext) (auto simp: row_map_def map_add_def split: option.splits dest!: map_of_SomeD)

lemma card_dom_row_map: "distinct (map key_of xs) \<Longrightarrow> card (dom (row_map key_of xs)) = length xs"
  unfolding dom_row_map by (metis distinct_card length_map set_map)

text \<open>The last hit on the key among the live rows of an array is the row of the key.\<close>

lemma last_hit_row:
  assumes "n \<le> length xs" and "distinct (map key_of (take n xs))"
  obtains (absent) "last_hit (\<lambda>e. key_of e = k) xs n = None" "row_map key_of (take n xs) k = None" "k \<notin> key_of ` set (take n xs)"
    | (present) i where "last_hit (\<lambda>e. key_of e = k) xs n = Some i" "i < n" "key_of (xs ! i) = k" "row_map key_of (take n xs) k = Some (xs ! i)"
proof (cases "last_hit (\<lambda>e. key_of e = k) xs n")
  case None
  then have "k \<notin> key_of ` set (take n xs)" using assms(1) by (fastforce simp: last_hit_None in_set_conv_nth)
  with None show thesis by (intro absent) (simp_all add: row_map_None)
next
  case (Some i)
  then have i: "i < n" "key_of (xs ! i) = k" using last_hit_Some by fastforce+
  with Some show thesis using row_map_nth [OF assms(2), of i] assms(1) by (intro present [of i]) simp_all
qed

end
