(* ===== verification/Journal.thy ===== *)
theory Journal
  imports Signed_Record Keyed_Map
begin

text \<open>
  The journal (\<open>record/journal.c\<close>): how far each stream of each issuer was received and applied, and the
  record at its head. A journal is a map from streams to counters; from it come that no sequence number is
  admitted twice and that what is admitted with its predecessor forms one unbroken chain.
\<close>

section \<open>The model\<close>

datatype fzn_journal_err = FZN_JOURNAL_OK | FZN_JOURNAL_ERR_MALFORMED | FZN_JOURNAL_ERR_DUPLICATE | FZN_JOURNAL_ERR_GAP
  | FZN_JOURNAL_ERR_FULL | FZN_JOURNAL_ERR_UNKNOWN_ISSUER | FZN_JOURNAL_ERR_NOT_RECEIVED | FZN_JOURNAL_ERR_FORK

record fzn_journal_entry =
  je_issuer :: key
  je_stream :: u32
  je_received :: u64
  je_applied :: u64
  je_head :: bytes
  je_has_head :: bool
  je_forked :: bool

record fzn_journal =
  jn_entries :: "fzn_journal_entry list option"
  jn_capacity :: nat
  jn_used :: nat

abbreviation zero_head :: bytes where "zero_head \<equiv> replicate FZN_RECORD_ID_LEN 0"

definition find_journal :: "fzn_journal \<Rightarrow> key \<Rightarrow> u32 \<Rightarrow> nat option" where
  "find_journal journal issuer stream = last_hit (\<lambda>e. je_stream e = stream \<and> je_issuer e = issuer) (the (jn_entries journal)) (jn_used journal)"

definition zero_entry :: fzn_journal_entry where
  "zero_entry = \<lparr>je_issuer = replicate FZN_PUBKEY_LEN 0, je_stream = 0, je_received = 0, je_applied = 0, je_head = zero_head,
     je_has_head = False, je_forked = False\<rparr>"

definition fzn_journal_init :: "fzn_journal option \<Rightarrow> fzn_journal_entry list option \<Rightarrow> nat \<Rightarrow> fzn_journal_err \<times> fzn_journal option" where
  "fzn_journal_init journal entries capacity =
     (if journal = None \<or> entries = None \<or> capacity = 0 then (FZN_JOURNAL_ERR_MALFORMED, journal)
      else (FZN_JOURNAL_OK, Some \<lparr>jn_entries = Some (replicate capacity zero_entry @ drop capacity (the entries)), jn_capacity = capacity, jn_used = 0\<rparr>))"

text \<open>Moving to other storage: \<open>in_place\<close> tells that it is the array the journal is in already.\<close>

definition fzn_journal_use :: "fzn_journal option \<Rightarrow> fzn_journal_entry list option \<Rightarrow> bool \<Rightarrow> nat \<Rightarrow> fzn_journal_err \<times> fzn_journal option" where
  "fzn_journal_use journal entries in_place capacity =
     (if journal = None \<or> entries = None \<or> capacity = 0 \<or> capacity < jn_used (the journal) \<or> jn_used (the journal) > jn_capacity (the journal)
      then (FZN_JOURNAL_ERR_MALFORMED, journal)
      else let j = the journal; es = the entries;
               es = (if in_place then es
                     else put_at 0 (take (jn_used j) (the (jn_entries j))) (put_at (jn_used j) (replicate (capacity - jn_used j) zero_entry) es))
           in (FZN_JOURNAL_OK, Some (j\<lparr>jn_entries := Some es, jn_capacity := capacity\<rparr>)))"

definition usable_journal :: "fzn_journal option \<Rightarrow> key option \<Rightarrow> bool" where
  "usable_journal journal issuer \<longleftrightarrow> journal \<noteq> None \<and> jn_entries (the journal) \<noteq> None \<and> issuer \<noteq> None \<and> jn_used (the journal) \<le> jn_capacity (the journal)"

definition journal_row :: "fzn_journal \<Rightarrow> nat \<Rightarrow> fzn_journal_entry" where
  "journal_row j at = the (jn_entries j) ! at"

definition put_row :: "fzn_journal \<Rightarrow> nat \<Rightarrow> fzn_journal_entry \<Rightarrow> fzn_journal" where
  "put_row j at e = j\<lparr>jn_entries := Some ((the (jn_entries j))[at := e])\<rparr>"

definition fzn_journal_admit :: "fzn_journal option \<Rightarrow> key option \<Rightarrow> u32 \<Rightarrow> u64 \<Rightarrow> fzn_journal_err \<times> fzn_journal option" where
  "fzn_journal_admit journal issuer stream seq =
     (if \<not> usable_journal journal issuer then (FZN_JOURNAL_ERR_MALFORMED, journal)
      else if seq = 0 then (FZN_JOURNAL_ERR_MALFORMED, journal)
      else let j = the journal in
        (case find_journal j (the issuer) stream of
           None \<Rightarrow> (FZN_JOURNAL_ERR_UNKNOWN_ISSUER, journal)
         | Some at \<Rightarrow> let e = journal_row j at in
             if seq \<le> je_received e then (FZN_JOURNAL_ERR_DUPLICATE, journal)
             else if seq > je_received e + 1 then (FZN_JOURNAL_ERR_GAP, journal)
             else (FZN_JOURNAL_OK, Some (put_row j at (e\<lparr>je_received := seq, je_head := zero_head, je_has_head := False\<rparr>)))))"

definition fzn_journal_admit_chained :: "fzn_journal option \<Rightarrow> key option \<Rightarrow> u32 \<Rightarrow> u64 \<Rightarrow> bytes option \<Rightarrow> bytes option \<Rightarrow>
    fzn_journal_err \<times> fzn_journal option" where
  "fzn_journal_admit_chained journal issuer stream seq prev rid =
     (if \<not> usable_journal journal issuer \<or> prev = None \<or> rid = None \<or> seq = 0 then (FZN_JOURNAL_ERR_MALFORMED, journal)
      else let j = the journal; found = find_journal j (the issuer) stream; e = journal_row j (the found) in
        if found \<noteq> None \<and> je_has_head e \<and> seq = je_received e \<and> je_received e \<noteq> 0 \<and> je_head e \<noteq> the rid
        then (FZN_JOURNAL_ERR_FORK, Some (put_row j (the found) (e\<lparr>je_forked := True\<rparr>)))
        else if found \<noteq> None \<and> seq = je_received e + 1 \<and> je_has_head e \<and> je_head e \<noteq> the prev
        then (FZN_JOURNAL_ERR_FORK, Some (put_row j (the found) (e\<lparr>je_forked := True\<rparr>)))
        else let (err, journal) = fzn_journal_admit journal issuer stream seq in
          if err \<noteq> FZN_JOURNAL_OK then (err, journal)
          else let j = the journal; e = journal_row j (the found)
               in (FZN_JOURNAL_OK, Some (put_row j (the found) (e\<lparr>je_head := the rid, je_has_head := True\<rparr>))))"

text \<open>The part of an anchor that follows finding or making the row.\<close>

definition anchor_at :: "fzn_journal \<Rightarrow> nat \<Rightarrow> u64 \<Rightarrow> fzn_journal_err \<times> fzn_journal option" where
  "anchor_at j at seq =
     (let e = journal_row j at in
      if seq \<le> je_received e then (FZN_JOURNAL_ERR_DUPLICATE, Some j)
      else (FZN_JOURNAL_OK, Some (put_row j at (e\<lparr>je_received := seq, je_head := zero_head, je_has_head := False\<rparr>))))"

definition fzn_journal_anchor :: "fzn_journal option \<Rightarrow> key option \<Rightarrow> u32 \<Rightarrow> u64 \<Rightarrow> fzn_journal_err \<times> fzn_journal option" where
  "fzn_journal_anchor journal issuer stream seq =
     (if \<not> usable_journal journal issuer then (FZN_JOURNAL_ERR_MALFORMED, journal)
      else let j = the journal in
        (case find_journal j (the issuer) stream of
           None \<Rightarrow>
             if jn_used j \<ge> jn_capacity j then (FZN_JOURNAL_ERR_FULL, journal)
             else let at = jn_used j;
                      j = (put_row j at \<lparr>je_issuer = the issuer, je_stream = stream, je_received = 0, je_applied = 0,
                             je_head = zero_head, je_has_head = True, je_forked = False\<rparr>)\<lparr>jn_used := jn_used j + 1\<rparr>
                  in if seq = 0 then (FZN_JOURNAL_OK, Some j) else anchor_at j at seq
         | Some at \<Rightarrow> if seq = 0 then (FZN_JOURNAL_ERR_DUPLICATE, journal) else anchor_at j at seq))"

definition fzn_journal_confirm :: "fzn_journal option \<Rightarrow> key option \<Rightarrow> u32 \<Rightarrow> u64 \<Rightarrow> fzn_journal_err \<times> fzn_journal option" where
  "fzn_journal_confirm journal issuer stream seq =
     (if \<not> usable_journal journal issuer then (FZN_JOURNAL_ERR_MALFORMED, journal)
      else let j = the journal in
        (case find_journal j (the issuer) stream of
           None \<Rightarrow> (FZN_JOURNAL_ERR_UNKNOWN_ISSUER, journal)
         | Some at \<Rightarrow> let e = journal_row j at in
             if seq > je_received e then (FZN_JOURNAL_ERR_NOT_RECEIVED, journal)
             else if seq \<le> je_applied e then (FZN_JOURNAL_ERR_DUPLICATE, journal)
             else (FZN_JOURNAL_OK, Some (put_row j at (e\<lparr>je_applied := seq\<rparr>)))))"

definition fzn_journal_next :: "fzn_journal option \<Rightarrow> key option \<Rightarrow> u32 \<Rightarrow> u64" where
  "fzn_journal_next journal issuer stream =
     (if \<not> usable_journal journal issuer then 1
      else case find_journal (the journal) (the issuer) stream of
          None \<Rightarrow> 1
        | Some at \<Rightarrow> let e = journal_row (the journal) at in
            if je_received e = UINT64_MAX then UINT64_MAX else je_received e + 1)"

definition fzn_journal_pending :: "fzn_journal option \<Rightarrow> key option \<Rightarrow> u32 \<Rightarrow> u64" where
  "fzn_journal_pending journal issuer stream =
     (if \<not> usable_journal journal issuer then 0
      else case find_journal (the journal) (the issuer) stream of
          None \<Rightarrow> 0
        | Some at \<Rightarrow> let e = journal_row (the journal) at in je_received e - je_applied e)"

definition fzn_journal_err_str :: "fzn_journal_err \<Rightarrow> string" where
  "fzn_journal_err_str err =
     (case err of FZN_JOURNAL_OK \<Rightarrow> ''ok'' | FZN_JOURNAL_ERR_MALFORMED \<Rightarrow> ''malformed argument'' | FZN_JOURNAL_ERR_DUPLICATE \<Rightarrow> ''already seen''
      | FZN_JOURNAL_ERR_GAP \<Rightarrow> ''ahead of what is held'' | FZN_JOURNAL_ERR_FULL \<Rightarrow> ''no room to track another issuer''
      | FZN_JOURNAL_ERR_UNKNOWN_ISSUER \<Rightarrow> ''nothing received from this issuer''
      | FZN_JOURNAL_ERR_NOT_RECEIVED \<Rightarrow> ''confirming further than was received'' | FZN_JOURNAL_ERR_FORK \<Rightarrow> ''does not extend the chain held'')"

section \<open>A journal is a map from streams to counters\<close>

definition journal_key :: "fzn_journal_entry \<Rightarrow> key \<times> u32" where "journal_key e = (je_issuer e, je_stream e)"
definition live_rows :: "fzn_journal \<Rightarrow> fzn_journal_entry list" where "live_rows j = take (jn_used j) (the (jn_entries j))"
definition journal_map :: "fzn_journal \<Rightarrow> (key \<times> u32 \<rightharpoonup> fzn_journal_entry)" where "journal_map j = row_map journal_key (live_rows j)"

definition journal_wf :: "fzn_journal \<Rightarrow> bool" where
  "journal_wf j \<longleftrightarrow> jn_entries j \<noteq> None \<and> jn_capacity j \<le> length (the (jn_entries j)) \<and> jn_used j \<le> jn_capacity j \<and>
     distinct (map journal_key (live_rows j)) \<and> (\<forall>e \<in> set (live_rows j). je_applied e \<le> je_received e)"

text \<open>What the operations do to a row of the map.\<close>

definition admit_row :: "u64 \<Rightarrow> fzn_journal_entry \<Rightarrow> fzn_journal_err \<times> fzn_journal_entry" where
  "admit_row seq e =
     (if seq \<le> je_received e then (FZN_JOURNAL_ERR_DUPLICATE, e)
      else if seq \<noteq> je_received e + 1 then (FZN_JOURNAL_ERR_GAP, e)
      else (FZN_JOURNAL_OK, e\<lparr>je_received := seq, je_head := zero_head, je_has_head := False\<rparr>))"

definition chain_row :: "u64 \<Rightarrow> bytes \<Rightarrow> bytes \<Rightarrow> fzn_journal_entry \<Rightarrow> fzn_journal_err \<times> fzn_journal_entry" where
  "chain_row seq prev rid e =
     (if je_has_head e \<and> (seq = je_received e \<and> je_head e \<noteq> rid \<or> seq = je_received e + 1 \<and> je_head e \<noteq> prev)
      then (FZN_JOURNAL_ERR_FORK, e\<lparr>je_forked := True\<rparr>)
      else if seq \<le> je_received e then (FZN_JOURNAL_ERR_DUPLICATE, e)
      else if seq \<noteq> je_received e + 1 then (FZN_JOURNAL_ERR_GAP, e)
      else (FZN_JOURNAL_OK, e\<lparr>je_received := seq, je_head := rid, je_has_head := True\<rparr>))"

definition anchor_row :: "u64 \<Rightarrow> fzn_journal_entry \<Rightarrow> fzn_journal_err \<times> fzn_journal_entry" where
  "anchor_row seq e =
     (if seq \<le> je_received e then (FZN_JOURNAL_ERR_DUPLICATE, e)
      else (FZN_JOURNAL_OK, e\<lparr>je_received := seq, je_head := zero_head, je_has_head := False\<rparr>))"

definition confirm_row :: "u64 \<Rightarrow> fzn_journal_entry \<Rightarrow> fzn_journal_err \<times> fzn_journal_entry" where
  "confirm_row seq e =
     (if seq > je_received e then (FZN_JOURNAL_ERR_NOT_RECEIVED, e)
      else if seq \<le> je_applied e then (FZN_JOURNAL_ERR_DUPLICATE, e)
      else (FZN_JOURNAL_OK, e\<lparr>je_applied := seq\<rparr>))"

definition fresh_row :: "key \<times> u32 \<Rightarrow> fzn_journal_entry" where
  "fresh_row k = \<lparr>je_issuer = fst k, je_stream = snd k, je_received = 0, je_applied = 0, je_head = zero_head, je_has_head = True, je_forked = False\<rparr>"

datatype journal_event = Admit_plain "key \<times> u32" u64 | Admit_chained "key \<times> u32" u64 bytes bytes | Anchor "key \<times> u32" u64 | Confirm "key \<times> u32" u64

fun journal_step :: "fzn_journal \<Rightarrow> journal_event \<Rightarrow> fzn_journal_err \<times> fzn_journal" where
  "journal_step j (Admit_plain k seq) = apsnd the (fzn_journal_admit (Some j) (Some (fst k)) (snd k) seq)"
| "journal_step j (Admit_chained k seq prev rid) = apsnd the (fzn_journal_admit_chained (Some j) (Some (fst k)) (snd k) seq (Some prev) (Some rid))"
| "journal_step j (Anchor k seq) = apsnd the (fzn_journal_anchor (Some j) (Some (fst k)) (snd k) seq)"
| "journal_step j (Confirm k seq) = apsnd the (fzn_journal_confirm (Some j) (Some (fst k)) (snd k) seq)"

definition on_row :: "('k \<rightharpoonup> 'e) \<Rightarrow> 'k \<Rightarrow> ('e \<Rightarrow> 'r \<times> 'e) \<Rightarrow> 'r \<Rightarrow> 'r \<times> ('k \<rightharpoonup> 'e)" where
  "on_row m k f absent = (case m k of None \<Rightarrow> (absent, m) | Some e \<Rightarrow> (fst (f e), m(k \<mapsto> snd (f e))))"

fun journal_spec :: "nat \<Rightarrow> (key \<times> u32 \<rightharpoonup> fzn_journal_entry) \<Rightarrow> journal_event \<Rightarrow> fzn_journal_err \<times> (key \<times> u32 \<rightharpoonup> fzn_journal_entry)" where
  "journal_spec room m (Admit_plain k seq) = (if seq = 0 then (FZN_JOURNAL_ERR_MALFORMED, m) else on_row m k (admit_row seq) FZN_JOURNAL_ERR_UNKNOWN_ISSUER)"
| "journal_spec room m (Admit_chained k seq prev rid) =
     (if seq = 0 then (FZN_JOURNAL_ERR_MALFORMED, m) else on_row m k (chain_row seq prev rid) FZN_JOURNAL_ERR_UNKNOWN_ISSUER)"
| "journal_spec room m (Anchor k seq) =
     (if m k \<noteq> None then on_row m k (anchor_row seq) FZN_JOURNAL_ERR_FULL
      else if room \<le> card (dom m) then (FZN_JOURNAL_ERR_FULL, m)
      else (FZN_JOURNAL_OK, m(k \<mapsto> if seq = 0 then fresh_row k else snd (anchor_row seq (fresh_row k)))))"
| "journal_spec room m (Confirm k seq) = on_row m k (confirm_row seq) FZN_JOURNAL_ERR_UNKNOWN_ISSUER"

lemma journal_cases:
  assumes "journal_wf j"
  obtains (absent) "find_journal j (fst k) (snd k) = None" "journal_map j k = None" "k \<notin> journal_key ` set (live_rows j)"
    | (present) i where "find_journal j (fst k) (snd k) = Some i" "i < jn_used j" "journal_key (journal_row j i) = k" "journal_map j k = Some (journal_row j i)"
proof -
  have "(\<lambda>e. je_stream e = snd k \<and> je_issuer e = fst k) = (\<lambda>e. journal_key e = k)" by (auto simp: journal_key_def prod_eq_iff)
  then have f: "find_journal j (fst k) (snd k) = last_hit (\<lambda>e. journal_key e = k) (the (jn_entries j)) (jn_used j)"
    by (simp add: find_journal_def)
  have "jn_used j \<le> length (the (jn_entries j))" "distinct (map journal_key (take (jn_used j) (the (jn_entries j))))"
    using assms by (auto simp: journal_wf_def live_rows_def)
  then show thesis
    by (cases rule: last_hit_row [of _ _ _ k]) (use absent present in \<open>simp_all add: f journal_map_def live_rows_def journal_row_def\<close>)
qed

text \<open>Writing a row of the same key that was applied no further than received.\<close>

lemma put_row_map:
  assumes "journal_wf j" and "i < jn_used j" and "journal_key e = journal_key (journal_row j i)" and "je_applied e \<le> je_received e"
  shows "journal_wf (put_row j i e)" and "journal_map (put_row j i e) = (journal_map j)(journal_key e \<mapsto> e)"
    and "jn_capacity (put_row j i e) = jn_capacity j" and "jn_used (put_row j i e) = jn_used j"
    and "journal_row (put_row j i e) i = e"
proof -
  have live: "live_rows (put_row j i e) = (live_rows j)[i := e]" using assms(2) by (simp add: live_rows_def put_row_def take_update_swap)
  have len: "i < length (live_rows j)" "journal_row j i = live_rows j ! i" using assms(1,2) by (auto simp: live_rows_def journal_wf_def journal_row_def)
  have keys: "map journal_key ((live_rows j)[i := e]) = map journal_key (live_rows j)" using assms(3) len by (intro update_keys) simp_all
  have "\<forall>x \<in> set ((live_rows j)[i := e]). je_applied x \<le> je_received x"
    using assms(1,4) set_update_subset_insert [of "live_rows j" i e] by (auto simp: journal_wf_def)
  then show "journal_wf (put_row j i e)" using assms(1) live keys by (simp add: journal_wf_def put_row_def)
  show "journal_map (put_row j i e) = (journal_map j)(journal_key e \<mapsto> e)"
    using row_map_update [of journal_key "live_rows j" i e] assms(1,3) len by (simp add: journal_map_def live journal_wf_def)
  show "jn_capacity (put_row j i e) = jn_capacity j" "jn_used (put_row j i e) = jn_used j" by (simp_all add: put_row_def)
  show "journal_row (put_row j i e) i = e" using assms(1,2) by (auto simp: journal_row_def put_row_def journal_wf_def)
qed

lemma row_applied: "journal_wf j \<Longrightarrow> i < jn_used j \<Longrightarrow> je_applied (journal_row j i) \<le> je_received (journal_row j i)"
  by (force simp: journal_wf_def live_rows_def journal_row_def in_set_conv_nth)

lemma beyond_next: "r < (seq :: u64) \<Longrightarrow> r + 1 < seq \<longleftrightarrow> seq \<noteq> r + 1"
  using inc_le [of r seq] by (auto simp: order.strict_iff_order)

lemma next_above: "r < (seq :: u64) \<Longrightarrow> a \<le> r \<Longrightarrow> a \<le> seq"
  by simp

definition refines_map :: "fzn_journal \<Rightarrow> fzn_journal_err \<times> fzn_journal \<Rightarrow> fzn_journal_err \<times> (key \<times> u32 \<rightharpoonup> fzn_journal_entry) \<Rightarrow> bool" where
  "refines_map j out spec \<longleftrightarrow> fst out = fst spec \<and> journal_map (snd out) = snd spec \<and> journal_wf (snd out) \<and> jn_capacity (snd out) = jn_capacity j"

lemma same_refines: "journal_wf j \<Longrightarrow> refines_map j (err, j) (err, journal_map j)"
  by (simp add: refines_map_def)

lemma put_row_same: "journal_wf j \<Longrightarrow> put_row j i (journal_row j i) = j"
  by (cases j) (auto simp: put_row_def journal_row_def journal_wf_def)

lemma put_row_twice: "put_row (put_row j i e) i e' = put_row j i e'"
  by (simp add: put_row_def)

text \<open>An operation on the row it found refines the same operation on the row of the map.\<close>

lemma row_refines:
  assumes "journal_wf j" and "i < jn_used j" and "journal_key (journal_row j i) = k" and "journal_map j k = Some (journal_row j i)"
    and "out = (fst (f (journal_row j i)), put_row j i (snd (f (journal_row j i))))"
    and "\<And>e. journal_key (snd (f e)) = journal_key e" and "\<And>e. je_applied e \<le> je_received e \<Longrightarrow> je_applied (snd (f e)) \<le> je_received (snd (f e))"
  shows "refines_map j out (on_row (journal_map j) k f absent)"
proof -
  let ?e = "snd (f (journal_row j i))"
  have "je_applied ?e \<le> je_received ?e" using assms(7) row_applied [OF assms(1,2)] by blast
  from put_row_map [OF assms(1,2) assms(6) this] show ?thesis using assms(3-6) by (simp add: refines_map_def on_row_def)
qed

lemma usable_some: "journal_wf j \<Longrightarrow> usable_journal (Some j) (Some k)"
  by (auto simp: journal_wf_def usable_journal_def)

lemma admit_refines:
  assumes "journal_wf j"
  shows "refines_map j (journal_step j (Admit_plain k seq)) (journal_spec (jn_capacity j) (journal_map j) (Admit_plain k seq))"
  using assms
proof (cases rule: journal_cases [of j k])
  case absent
  then show ?thesis using assms by (simp add: fzn_journal_admit_def usable_some on_row_def same_refines Let_def)
next
  case (present i)
  show ?thesis
  proof (cases "seq = 0")
    case True
    then show ?thesis using assms by (simp add: fzn_journal_admit_def usable_some same_refines)
  next
    case False
    then have "journal_step j (Admit_plain k seq) = (fst (admit_row seq (journal_row j i)), put_row j i (snd (admit_row seq (journal_row j i))))"
      using assms present(1) by (auto simp: fzn_journal_admit_def usable_some admit_row_def beyond_next not_le put_row_same Let_def)
    then show ?thesis unfolding journal_spec.simps if_not_P [OF False]
      by (intro row_refines [OF assms present(2-4)]) (auto simp: admit_row_def journal_key_def)
  qed
qed

lemma chained_refines:
  assumes "journal_wf j"
  shows "refines_map j (journal_step j (Admit_chained k seq prev rid)) (journal_spec (jn_capacity j) (journal_map j) (Admit_chained k seq prev rid))"
  using assms
proof (cases rule: journal_cases [of j k])
  case absent
  then show ?thesis using assms by (simp add: fzn_journal_admit_chained_def fzn_journal_admit_def usable_some on_row_def same_refines Let_def)
next
  case (present i)
  show ?thesis
  proof (cases "seq = 0")
    case True
    then show ?thesis using assms by (simp add: fzn_journal_admit_chained_def usable_some same_refines)
  next
    case False
    define e where "e = journal_row j i"
    have row: "journal_row (put_row j i x) i = x" for x using assms present(2) by (auto simp: journal_row_def put_row_def journal_wf_def)
    have "journal_step j (Admit_chained k seq prev rid) = (fst (chain_row seq prev rid e), put_row j i (snd (chain_row seq prev rid e)))"
      using assms present(1) False put_row_same [OF assms, of i]
      by (auto simp: fzn_journal_admit_chained_def fzn_journal_admit_def usable_some chain_row_def beyond_next not_le Let_def
          row put_row_twice e_def [symmetric])
    then show ?thesis unfolding journal_spec.simps if_not_P [OF False] e_def
      by (intro row_refines [OF assms present(2-4)]) (auto simp: chain_row_def journal_key_def)
  qed
qed

lemma anchor_at_row: "journal_wf j \<Longrightarrow> anchor_at j i seq = (fst (anchor_row seq (journal_row j i)), Some (put_row j i (snd (anchor_row seq (journal_row j i)))))"
  by (simp add: anchor_at_def anchor_row_def put_row_same Let_def)

lemma added_row:
  assumes "journal_wf j" and "jn_used j < jn_capacity j" and "k \<notin> journal_key ` set (live_rows j)"
  defines "j' \<equiv> (put_row j (jn_used j) (fresh_row k))\<lparr>jn_used := jn_used j + 1\<rparr>"
  shows "journal_wf j'" and "journal_map j' = (journal_map j)(k \<mapsto> fresh_row k)" and "jn_capacity j' = jn_capacity j"
    and "journal_row j' (jn_used j) = fresh_row k" and "jn_used j < jn_used j'"
proof -
  have k: "journal_key (fresh_row k) = k" by (simp add: journal_key_def fresh_row_def)
  have live: "live_rows j' = live_rows j @ [fresh_row k]"
    using assms(1,2) by (simp add: j'_def live_rows_def put_row_def journal_wf_def take_append_cell)
  show "journal_wf j'" using assms(1-3) k by (simp add: journal_wf_def live) (simp add: j'_def put_row_def fresh_row_def)
  show "journal_map j' = (journal_map j)(k \<mapsto> fresh_row k)" using row_map_append [of journal_key "fresh_row k"] k assms(3) by (simp add: journal_map_def live)
  show "jn_capacity j' = jn_capacity j" "jn_used j < jn_used j'" by (simp_all add: j'_def put_row_def)
  show "journal_row j' (jn_used j) = fresh_row k" using assms(1,2) by (auto simp: j'_def journal_row_def put_row_def journal_wf_def)
qed

lemma anchor_refines:
  assumes "journal_wf j"
  shows "refines_map j (journal_step j (Anchor k seq)) (journal_spec (jn_capacity j) (journal_map j) (Anchor k seq))"
  using assms
proof (cases rule: journal_cases [of j k])
  case (present i)
  have "journal_step j (Anchor k seq) = (fst (anchor_row seq (journal_row j i)), put_row j i (snd (anchor_row seq (journal_row j i))))"
    using assms present(1) by (cases "seq = 0") (simp_all add: fzn_journal_anchor_def usable_some anchor_at_row, simp add: anchor_row_def put_row_same)
  then have "refines_map j (journal_step j (Anchor k seq)) (on_row (journal_map j) k (anchor_row seq) FZN_JOURNAL_ERR_FULL)"
    by (intro row_refines [OF assms present(2-4)]) (auto simp: anchor_row_def journal_key_def)
  then show ?thesis using present(4) by simp
next
  case absent
  have room: "card (dom (journal_map j)) = jn_used j"
    using assms card_dom_row_map [of journal_key "live_rows j"] by (auto simp: journal_map_def journal_wf_def live_rows_def)
  show ?thesis
  proof (cases "jn_used j < jn_capacity j")
    case False
    then show ?thesis using assms absent room by (simp add: fzn_journal_anchor_def usable_some same_refines Let_def)
  next
    case True
    define j' where "j' = (put_row j (jn_used j) (fresh_row k))\<lparr>jn_used := jn_used j + 1\<rparr>"
    note a = added_row [OF assms True absent(3), folded j'_def]
    have out: "journal_step j (Anchor k seq) = (if seq = 0 then (FZN_JOURNAL_OK, j') else apsnd the (anchor_at j' (jn_used j) seq))"
      using assms absent(1) True by (simp add: fzn_journal_anchor_def usable_some Let_def j'_def fresh_row_def)
    show ?thesis
    proof (cases "seq = 0")
      case True
      then show ?thesis unfolding out using a \<open>jn_used j < jn_capacity j\<close> absent(2) room by (simp add: refines_map_def)
    next
      case False
      let ?e = "snd (anchor_row seq (fresh_row k))"
      have e: "journal_key ?e = k" "je_applied ?e \<le> je_received ?e" "fst (anchor_row seq (fresh_row k)) = FZN_JOURNAL_OK"
        using False by (auto simp: anchor_row_def fresh_row_def journal_key_def)
      have "journal_key (journal_row j' (jn_used j)) = k" by (simp add: a(4)) (simp add: journal_key_def fresh_row_def)
      from put_row_map [OF a(1,5), of ?e] this e show ?thesis
        unfolding out using False a \<open>jn_used j < jn_capacity j\<close> absent(2) room by (simp add: refines_map_def anchor_at_row)
    qed
  qed
qed

lemma confirm_refines:
  assumes "journal_wf j"
  shows "refines_map j (journal_step j (Confirm k seq)) (journal_spec (jn_capacity j) (journal_map j) (Confirm k seq))"
  using assms
proof (cases rule: journal_cases [of j k])
  case absent
  then show ?thesis using assms by (simp add: fzn_journal_confirm_def usable_some on_row_def same_refines Let_def)
next
  case (present i)
  have "journal_step j (Confirm k seq) = (fst (confirm_row seq (journal_row j i)), put_row j i (snd (confirm_row seq (journal_row j i))))"
    using assms present(1) by (auto simp: fzn_journal_confirm_def usable_some confirm_row_def put_row_same Let_def)
  then show ?thesis unfolding journal_spec.simps
    by (intro row_refines [OF assms present(2-4)]) (auto simp: confirm_row_def journal_key_def)
qed

lemma journal_step_refines: "journal_wf j \<Longrightarrow> refines_map j (journal_step j ev) (journal_spec (jn_capacity j) (journal_map j) ev)"
  by (cases ev) (simp_all only: admit_refines chained_refines anchor_refines confirm_refines)

lemma journal_run_refines:
  assumes "journal_wf j"
  shows "trace journal_step j es = trace (journal_spec (jn_capacity j)) (journal_map j) es" (is "?tr j es")
    and "journal_map (final journal_step j es) = final (journal_spec (jn_capacity j)) (journal_map j) es" (is "?fin j es")
    and "journal_wf (final journal_step j es)"
proof -
  have "?tr j es \<and> ?fin j es \<and> journal_wf (final journal_step j es)" using assms
  proof (induction es arbitrary: j)
    case (Cons ev es)
    from journal_step_refines [OF Cons.prems, of ev] Cons.IH [of "snd (journal_step j ev)"]
    show ?case by (simp add: refines_map_def split_beta)
  qed simp
  then show "?tr j es" "?fin j es" "journal_wf (final journal_step j es)" by simp_all
qed

text \<open>
  C32. A journal is a map from streams to rows. Whatever is anchored, admitted and confirmed, in any order
  and with whatever arguments, the answers are those of the map and the rows those of the map; the table
  stays within its array with one row for each stream, and no stream is applied further than it was
  received. What is next and what is pending are read from the map.
\<close>

theorem journal_refines_map:
  assumes "journal_wf j"
  shows "trace journal_step j es = trace (journal_spec (jn_capacity j)) (journal_map j) es \<and>
    journal_map (final journal_step j es) = final (journal_spec (jn_capacity j)) (journal_map j) es \<and>
    journal_wf (final journal_step j es) \<and>
    fzn_journal_next (Some j) (Some issuer) stream =
      (case journal_map j (issuer, stream) of None \<Rightarrow> 1 | Some e \<Rightarrow> if je_received e = UINT64_MAX then UINT64_MAX else je_received e + 1) \<and>
    unat (fzn_journal_pending (Some j) (Some issuer) stream) =
      (case journal_map j (issuer, stream) of None \<Rightarrow> 0 | Some e \<Rightarrow> unat (je_received e) - unat (je_applied e))"
  using assms
proof (cases rule: journal_cases [of j "(issuer, stream)"])
  case absent
  then show ?thesis using assms journal_run_refines [OF assms] by (simp add: fzn_journal_next_def fzn_journal_pending_def usable_some)
next
  case (present i)
  then show ?thesis using assms journal_run_refines [OF assms] row_applied [OF assms present(2)]
    by (simp add: fzn_journal_next_def fzn_journal_pending_def usable_some unat_sub Let_def)
qed

lemma journal_init_wf:
  assumes "fzn_journal_init (Some j0) (Some es) n = (FZN_JOURNAL_OK, Some j)"
  shows "journal_wf j" and "journal_map j = Map.empty" and "jn_capacity j = n" and "0 < n"
  using assms by (auto simp: fzn_journal_init_def journal_wf_def live_rows_def journal_map_def row_map_def split: if_splits)

section \<open>Once only, and in one chain\<close>

fun admitted :: "journal_event \<times> fzn_journal_err \<Rightarrow> ((key \<times> u32) \<times> u64) option" where
  "admitted (Admit_plain k seq, FZN_JOURNAL_OK) = Some (k, seq)"
| "admitted (Admit_chained k seq _ _, FZN_JOURNAL_OK) = Some (k, seq)"
| "admitted _ = None"

definition received_up_to :: "(key \<times> u32 \<rightharpoonup> fzn_journal_entry) \<Rightarrow> (key \<times> u32) \<times> u64 \<Rightarrow> bool" where
  "received_up_to m ks \<longleftrightarrow> (\<exists>e. m (fst ks) = Some e \<and> snd ks \<le> je_received e)"

lemma row_step_received:
  "je_received e \<le> je_received (snd (admit_row seq e))" "je_received e \<le> je_received (snd (chain_row seq prev rid e))"
  "je_received e \<le> je_received (snd (anchor_row seq e))" "je_received e \<le> je_received (snd (confirm_row seq e))"
  by (auto simp: admit_row_def chain_row_def anchor_row_def confirm_row_def not_le intro: less_imp_le)

lemma spec_received_kept: "received_up_to m ks \<Longrightarrow> received_up_to (snd (journal_spec room m ev)) ks"
  using row_step_received
  by (cases ev) (auto simp: received_up_to_def on_row_def split: option.splits intro: order_trans)

lemma spec_admits:
  assumes "admitted (ev, fst (journal_spec room m ev)) = Some ks"
  shows "\<not> received_up_to m ks" and "received_up_to (snd (journal_spec room m ev)) ks"
proof -
  have "\<not> received_up_to m ks \<and> received_up_to (snd (journal_spec room m ev)) ks"
  proof (cases ev)
    case (Admit_plain k seq)
    then show ?thesis using assms
      by (auto simp: received_up_to_def on_row_def admit_row_def split: if_splits option.splits)
  next
    case (Admit_chained k seq prev rid)
    then show ?thesis using assms
      by (auto simp: received_up_to_def on_row_def chain_row_def split: if_splits option.splits)
  qed (use assms in auto)
  then show "\<not> received_up_to m ks" "received_up_to (snd (journal_spec room m ev)) ks" by simp_all
qed

interpretation admitting: once_only "journal_spec room" admitted received_up_to for room
  by unfold_locales (auto intro: spec_admits spec_received_kept dest: spec_admits)

text \<open>
  No record is admitted twice: over everything that is done to a journal, plainly or with
  predecessors, in whatever order, each sequence number of each stream is admitted at most once.
\<close>

theorem journal_admits_once:
  assumes "journal_wf j"
  shows "distinct (List.map_filter admitted (trace journal_step j es))"
  using admitting.tags_once [of "jn_capacity j" "journal_map j" es] journal_run_refines(1) [OF assms, of es] by (simp add: admitting.tags_def)

text \<open>The records a stream took with their predecessors, and the events that leave its chain alone.\<close>

fun took :: "key \<times> u32 \<Rightarrow> journal_event \<times> fzn_journal_err \<Rightarrow> (u64 \<times> bytes \<times> bytes) option" where
  "took k (Admit_chained k' seq prev rid, err) = (if k' = k \<and> err = FZN_JOURNAL_OK then Some (seq, prev, rid) else None)"
| "took k _ = None"

fun forks :: "key \<times> u32 \<Rightarrow> journal_event \<times> fzn_journal_err \<Rightarrow> bool" where
  "forks k (Admit_chained k' _ _ _, err) \<longleftrightarrow> k' = k \<and> err = FZN_JOURNAL_ERR_FORK"
| "forks k _ \<longleftrightarrow> False"

fun chained_only :: "key \<times> u32 \<Rightarrow> journal_event \<Rightarrow> bool" where
  "chained_only k (Admit_plain k' _) \<longleftrightarrow> k' \<noteq> k"
| "chained_only k (Anchor k' _) \<longleftrightarrow> k' \<noteq> k"
| "chained_only k _ \<longleftrightarrow> True"

fun chain_from :: "u64 \<Rightarrow> bytes \<Rightarrow> (u64 \<times> bytes \<times> bytes) list \<Rightarrow> bool" where
  "chain_from at named [] \<longleftrightarrow> True"
| "chain_from at named ((seq, prev, rid) # rest) \<longleftrightarrow> at < seq \<and> seq = at + 1 \<and> prev = named \<and> chain_from seq rid rest"

lemma on_row_other: "k \<noteq> k' \<Longrightarrow> snd (on_row m k' f a) k = m k"
  by (simp add: on_row_def split: option.split)

lemma spec_other:
  "k \<noteq> k' \<Longrightarrow> snd (journal_spec room m (Admit_plain k' seq)) k = m k"
  "k \<noteq> k' \<Longrightarrow> snd (journal_spec room m (Admit_chained k' seq prev rid)) k = m k"
  "k \<noteq> k' \<Longrightarrow> snd (journal_spec room m (Anchor k' seq)) k = m k"
  "k \<noteq> k' \<Longrightarrow> snd (journal_spec room m (Confirm k' seq)) k = m k"
  by (simp_all add: on_row_other)

lemma chained_step:
  assumes "m k = Some e" and "je_has_head e" and "chained_only k ev"
  shows "\<exists>e'. snd (journal_spec room m ev) k = Some e' \<and> je_has_head e' \<and>
    je_forked e' = (je_forked e \<or> forks k (ev, fst (journal_spec room m ev))) \<and>
    (case took k (ev, fst (journal_spec room m ev)) of
       None \<Rightarrow> je_received e' = je_received e \<and> je_head e' = je_head e
     | Some (seq, prev, rid) \<Rightarrow> je_received e < seq \<and> seq = je_received e + 1 \<and> prev = je_head e \<and> je_received e' = seq \<and> je_head e' = rid)"
proof (cases ev)
  case (Admit_chained k' seq prev rid)
  show ?thesis
  proof (cases "k' = k \<and> seq \<noteq> 0")
    case True
    then have out: "journal_spec room m (Admit_chained k' seq prev rid) = (fst (chain_row seq prev rid e), m(k \<mapsto> snd (chain_row seq prev rid e)))"
      using assms(1) by (simp add: on_row_def)
    show ?thesis unfolding Admit_chained out using assms(2) True by (simp add: chain_row_def not_le)
  next
    case False
    then show ?thesis using assms spec_other(2) [of k k' room m seq prev rid] unfolding Admit_chained by (cases "k' = k") auto
  qed
next
  case (Confirm k' seq)
  show ?thesis
  proof (cases "k' = k")
    case True
    then have out: "journal_spec room m (Confirm k' seq) = (fst (confirm_row seq e), m(k \<mapsto> snd (confirm_row seq e)))" using assms(1) by (simp add: on_row_def)
    show ?thesis unfolding Confirm out using assms(2) by (simp add: confirm_row_def)
  next
    case False
    then show ?thesis using assms spec_other(4) [of k k'] unfolding Confirm by simp
  qed
next
  case (Admit_plain k' seq)
  then show ?thesis using assms spec_other(1) [of k k' room m seq] unfolding Admit_plain by auto
next
  case (Anchor k' seq)
  then show ?thesis using assms spec_other(3) [of k k' room m seq] unfolding Anchor by auto
qed

lemma chained_run:
  assumes "m k = Some e" and "je_has_head e" and "\<forall>ev \<in> set es. chained_only k ev"
  shows "let tr = trace (journal_spec room) m es; xs = List.map_filter (took k) tr in
    chain_from (je_received e) (je_head e) xs \<and>
    (\<exists>e'. final (journal_spec room) m es k = Some e' \<and> je_has_head e' \<and> je_received e' = je_received e + of_nat (length xs) \<and>
      je_head e' = (if xs = [] then je_head e else snd (snd (last xs))) \<and> je_forked e' = (je_forked e \<or> list_ex (forks k) tr))"
  using assms
proof (induction es arbitrary: m e)
  case Nil
  then show ?case by (simp add: List.map_filter_simps)
next
  case (Cons ev es)
  let ?m = "snd (journal_spec room m ev)" and ?r = "fst (journal_spec room m ev)"
  have only: "chained_only k ev" "\<forall>ev \<in> set es. chained_only k ev" using Cons.prems(3) by simp_all
  from chained_step [where m = m and k = k and room = room, OF Cons.prems(1,2) only(1)] obtain e' where e': "?m k = Some e'" "je_has_head e'"
    "je_forked e' = (je_forked e \<or> forks k (ev, ?r))"
    "case took k (ev, ?r) of None \<Rightarrow> je_received e' = je_received e \<and> je_head e' = je_head e
     | Some (seq, prev, rid) \<Rightarrow> je_received e < seq \<and> seq = je_received e + 1 \<and> prev = je_head e \<and> je_received e' = seq \<and> je_head e' = rid"
    by blast
  have tr: "trace (journal_spec room) m (ev # es) = (ev, ?r) # trace (journal_spec room) ?m es" by (simp add: split_beta)
  have fin: "final (journal_spec room) m (ev # es) = final (journal_spec room) ?m es" by (simp add: split_beta)
  show ?case using Cons.IH [where m = ?m, OF e'(1,2) only(2)] e'(3,4) unfolding tr fin
    by (auto simp: List.map_filter_simps Let_def algebra_simps split: option.splits)
qed

lemma chain_from_nth:
  "chain_from at named xs \<Longrightarrow> i < length xs \<Longrightarrow>
   fst (xs ! i) = at + of_nat (Suc i) \<and> fst (snd (xs ! i)) = (if i = 0 then named else snd (snd (xs ! (i - 1))))"
proof (induction xs arbitrary: at named i)
  case (Cons x xs)
  obtain seq prev rid where x: "x = (seq, prev, rid)" by (cases x)
  show ?case
  proof (cases i)
    case 0
    then show ?thesis using Cons.prems x by simp
  next
    case (Suc n)
    then show ?thesis using Cons.IH [of seq rid n] Cons.prems x by (cases n) (auto simp: algebra_simps)
  qed
qed simp

text \<open>What a stream that stands at \<open>at\<close>, its last record being \<open>named\<close>, answers to a record with its predecessor.\<close>

definition chain_answer :: "u64 \<Rightarrow> bytes \<Rightarrow> u64 \<Rightarrow> bytes \<Rightarrow> bytes \<Rightarrow> fzn_journal_err" where
  "chain_answer at named seq prev rid =
     (if seq = 0 then FZN_JOURNAL_ERR_MALFORMED
      else if seq = at \<and> rid \<noteq> named \<or> seq = at + 1 \<and> prev \<noteq> named then FZN_JOURNAL_ERR_FORK
      else if seq \<le> at then FZN_JOURNAL_ERR_DUPLICATE
      else if seq \<noteq> at + 1 then FZN_JOURNAL_ERR_GAP
      else FZN_JOURNAL_OK)"

lemma chained_answer:
  assumes "m k = Some e" and "je_has_head e"
  shows "fst (journal_spec room m (Admit_chained k seq prev rid)) = chain_answer (je_received e) (je_head e) seq prev rid"
  using assms by (auto simp: on_row_def chain_row_def chain_answer_def)

text \<open>
  C33. A stream that is followed from its beginning is one unbroken chain, and a fork of it is noticed. After a new
  stream was anchored, whatever arrives for it with predecessors and whatever happens to other streams: the records it took
  are numbered from one without a gap, the first names no predecessor and each other names the record
  before it; the row stands at the last of them. A further record is answered exactly by where it stands to that
  last one: it is a fork when it has the same number and another identity, or the number after it and names
  another predecessor; otherwise it is a duplicate when its number is not above, a gap when it
  is not the one after, and taken when it is. A record that forks leaves the chain where it stands and marks the row; and
  the row is marked exactly when a record was refused as a fork.
\<close>

theorem journal_holds_chain:
  assumes "journal_wf j" and "journal_map j k = None" and "jn_used j < jn_capacity j" and "\<forall>ev \<in> set es. chained_only k ev"
  defines "tr \<equiv> trace journal_step j (Anchor k 0 # es)"
  defines "xs \<equiv> List.map_filter (took k) tr"
  defines "here \<equiv> final journal_step j (Anchor k 0 # es)"
  defines "named \<equiv> if xs = [] then zero_head else snd (snd (last xs))"
  shows "(\<forall>i < length xs. fst (xs ! i) = of_nat (Suc i) \<and> fst (snd (xs ! i)) = (if i = 0 then zero_head else snd (snd (xs ! (i - 1))))) \<and>
    (\<exists>e. journal_map here k = Some e \<and> je_received e = of_nat (length xs) \<and>
      je_head e = named \<and> (je_forked e \<longleftrightarrow> list_ex (forks k) tr) \<and>
      (\<forall>seq prev rid. fst (journal_step here (Admit_chained k seq prev rid)) = chain_answer (of_nat (length xs)) named seq prev rid \<and>
        (chain_answer (of_nat (length xs)) named seq prev rid = FZN_JOURNAL_ERR_FORK \<longrightarrow>
          journal_map (snd (journal_step here (Admit_chained k seq prev rid))) k = Some (e\<lparr>je_forked := True\<rparr>))))"
proof -
  let ?room = "jn_capacity j" and ?m = "(journal_map j)(k \<mapsto> fresh_row k)"
  have "card (dom (journal_map j)) = jn_used j"
    using assms(1) card_dom_row_map [of journal_key "live_rows j"] by (auto simp: journal_map_def journal_wf_def live_rows_def)
  then have first: "journal_spec ?room (journal_map j) (Anchor k 0) = (FZN_JOURNAL_OK, ?m)" using assms(2,3) by simp
  note run = journal_run_refines [OF assms(1), of "Anchor k 0 # es"]
  have tr: "tr = (Anchor k 0, FZN_JOURNAL_OK) # trace (journal_spec ?room) ?m es" unfolding tr_def run(1) using first by (simp add: split_beta)
  have xs: "xs = List.map_filter (took k) (trace (journal_spec ?room) ?m es)" by (simp add: xs_def tr List.map_filter_simps)
  have fin: "journal_map here = final (journal_spec ?room) ?m es" unfolding here_def run(2) using first by (simp add: split_beta)
  have row0: "je_received (fresh_row k) = 0" "je_head (fresh_row k) = zero_head" "\<not> je_forked (fresh_row k)" by (simp_all add: fresh_row_def)
  have "?m k = Some (fresh_row k)" "je_has_head (fresh_row k)" by (simp_all add: fresh_row_def)
  from chained_run [where m = ?m and k = k and room = ?room, OF this assms(4)] obtain e where
    chain: "chain_from 0 zero_head xs" and row: "journal_map here k = Some e" "je_has_head e" "je_received e = of_nat (length xs)"
      "je_head e = named" "je_forked e = list_ex (forks k) tr"
    unfolding Let_def xs [symmetric] row0 fin by (auto simp: row0(3) tr named_def)
  have wf: "journal_wf here" unfolding here_def by (rule run(3))
  have further: "fst (journal_step here ev) = fst (journal_spec (jn_capacity here) (journal_map here) ev)"
    "journal_map (snd (journal_step here ev)) = snd (journal_spec (jn_capacity here) (journal_map here) ev)" for ev
    using journal_step_refines [OF wf, of ev] by (simp_all add: refines_map_def)
  have "fst (journal_step here (Admit_chained k seq prev rid)) = chain_answer (of_nat (length xs)) named seq prev rid" for seq prev rid
    unfolding further(1) using chained_answer [where m = "journal_map here", OF row(1,2)] row(3,4) by simp
  moreover have "journal_map (snd (journal_step here (Admit_chained k seq prev rid))) k = Some (e\<lparr>je_forked := True\<rparr>)"
    if "chain_answer (of_nat (length xs)) named seq prev rid = FZN_JOURNAL_ERR_FORK" for seq prev rid
    unfolding further(2) using that row(1-4) by (auto simp: chain_answer_def on_row_def chain_row_def split: if_splits)
  ultimately show ?thesis using chain_from_nth [OF chain] row by auto
qed

definition demo_journal :: fzn_journal where
  "demo_journal = \<lparr>jn_entries = Some (replicate 2 zero_entry), jn_capacity = 2, jn_used = 0\<rparr>"

definition demo_stream :: "key \<times> u32" where
  "demo_stream = ([5], 3)"

definition demo_events :: "journal_event list" where
  "demo_events = [Admit_chained demo_stream 1 zero_head [1], Admit_chained demo_stream 2 [1] [2], Admit_chained demo_stream 2 [1] [7],
     Admit_chained demo_stream 4 [8] [9], Confirm demo_stream 1]"

lemma demo_journal_wf: "journal_wf demo_journal" "journal_map demo_journal = Map.empty" "jn_used demo_journal < jn_capacity demo_journal"
  by (simp_all add: demo_journal_def journal_wf_def live_rows_def journal_map_def row_map_def)

lemma demo_journal_trace:
  "map snd (trace journal_step demo_journal (Anchor demo_stream 0 # demo_events)) =
    [FZN_JOURNAL_OK, FZN_JOURNAL_OK, FZN_JOURNAL_OK, FZN_JOURNAL_ERR_FORK, FZN_JOURNAL_ERR_GAP, FZN_JOURNAL_OK]"
  "List.map_filter (took demo_stream) (trace journal_step demo_journal (Anchor demo_stream 0 # demo_events)) = [(1, zero_head, [1]), (2, [1], [2])]"
  "list_ex (forks demo_stream) (trace journal_step demo_journal (Anchor demo_stream 0 # demo_events))"
  by code_simp+

theorem journal_refines_map_witness:
  "journal_wf (final journal_step demo_journal (Anchor demo_stream 0 # demo_events)) \<and>
   fzn_journal_next (Some demo_journal) (Some [5]) 3 = 1 \<and> fzn_journal_pending (Some demo_journal) (Some [5]) 3 = 0"
  using journal_refines_map [OF demo_journal_wf(1), of "Anchor demo_stream 0 # demo_events" "[5]" 3]
  unfolding demo_journal_wf(2) by (simp add: unat_eq_zero del: run.simps)

theorem journal_admits_once_witness:
  "journal_wf demo_journal \<and> distinct (List.map_filter admitted (trace journal_step demo_journal (Anchor demo_stream 0 # demo_events)))"
  using journal_admits_once [OF demo_journal_wf(1), of "Anchor demo_stream 0 # demo_events"] demo_journal_wf(1) by blast

theorem journal_holds_chain_witness:
  "\<exists>e. journal_map (final journal_step demo_journal (Anchor demo_stream 0 # demo_events)) demo_stream = Some e \<and>
     je_received e = 2 \<and> je_head e = [2] \<and> je_forked e \<and>
     fst (journal_step (final journal_step demo_journal (Anchor demo_stream 0 # demo_events)) (Admit_chained demo_stream 2 [1] [6])) = FZN_JOURNAL_ERR_FORK \<and>
     fst (journal_step (final journal_step demo_journal (Anchor demo_stream 0 # demo_events)) (Admit_chained demo_stream 3 [6] [7])) = FZN_JOURNAL_ERR_FORK \<and>
     fst (journal_step (final journal_step demo_journal (Anchor demo_stream 0 # demo_events)) (Admit_chained demo_stream 3 [2] [3])) = FZN_JOURNAL_OK"
proof -
  have "journal_map demo_journal demo_stream = None" "\<forall>ev \<in> set demo_events. chained_only demo_stream ev"
    by (simp_all add: demo_journal_wf(2) demo_events_def)
  from journal_holds_chain [OF demo_journal_wf(1) this(1) demo_journal_wf(3) this(2)]
  obtain e where e: "journal_map (final journal_step demo_journal (Anchor demo_stream 0 # demo_events)) demo_stream = Some e"
      "je_received e = 2" "je_head e = [2]" "je_forked e"
    and answers: "fst (journal_step (final journal_step demo_journal (Anchor demo_stream 0 # demo_events)) (Admit_chained demo_stream seq prev rid)) =
      chain_answer 2 [2] seq prev rid" for seq prev rid
    unfolding demo_journal_trace(2) using demo_journal_trace(3) by (auto simp del: run.simps journal_step.simps)
  show ?thesis unfolding answers using e by (intro exI [of _ e]) (simp add: chain_answer_def del: run.simps)
qed

end
