(* ===== verification/Sync.thy ===== *)
theory Sync
  imports Journal
begin

text \<open>
  Comparing journals (\<open>record/sync.c\<close>): a host's digest of its positions, what to fetch from a peer and what
  to offer it. Shown are that the two plans of a pair of hosts are the same, and that a host that
  carries out its plans round by round catches up with its peer.
\<close>

section \<open>The model\<close>

datatype fzn_sync_err = FZN_SYNC_OK | FZN_SYNC_ERR_MALFORMED

abbreviation FZN_SYNC_MAX_POSITIONS :: nat where "FZN_SYNC_MAX_POSITIONS \<equiv> 1024"

record fzn_sync_position =
  sp_issuer :: key
  sp_stream :: u32
  sp_received :: u64

record fzn_sync_request =
  rq_issuer :: key
  rq_stream :: u32
  rq_from :: u64
  rq_count :: u64

record fzn_sync_plan =
  pl_request_count :: nat
  pl_unknown_issuers :: nat
  pl_truncated :: nat
  pl_positions_ignored :: nat

text \<open>The position with the greatest counter among those of the stream, the first of equals.\<close>

definition theirs_for :: "fzn_sync_position list \<Rightarrow> nat \<Rightarrow> key \<Rightarrow> u32 \<Rightarrow> fzn_sync_position option" where
  "theirs_for theirs their_count issuer stream =
     fold (\<lambda>i hit.
       if sp_stream (theirs ! i) \<noteq> stream \<or> sp_issuer (theirs ! i) \<noteq> issuer then hit
       else if hit = None \<or> sp_received (theirs ! i) > sp_received (the hit) then Some (theirs ! i) else hit)
     [0..<their_count] None"

definition follows_stream :: "fzn_journal \<Rightarrow> key \<Rightarrow> u32 \<Rightarrow> bool" where
  "follows_stream journal issuer stream =
     fold (\<lambda>i found. if je_stream (journal_row journal i) = stream \<and> je_issuer (journal_row journal i) = issuer then True else found)
       [0..<jn_used journal] False"

definition to_examine :: "nat \<Rightarrow> fzn_sync_plan \<Rightarrow> nat \<times> fzn_sync_plan" where
  "to_examine their_count plan =
     (if their_count \<le> FZN_SYNC_MAX_POSITIONS then (their_count, plan)
      else (FZN_SYNC_MAX_POSITIONS, plan\<lparr>pl_positions_ignored := their_count - FZN_SYNC_MAX_POSITIONS\<rparr>))"

definition position_of :: "fzn_journal_entry \<Rightarrow> fzn_sync_position" where
  "position_of e = \<lparr>sp_issuer = je_issuer e, sp_stream = je_stream e, sp_received = je_received e\<rparr>"

text \<open>The digest: the positions written to the front of \<open>out\<close>, and how many did not fit.\<close>

definition digest_step :: "fzn_journal \<Rightarrow> nat \<Rightarrow> nat \<Rightarrow> fzn_sync_position list \<times> nat \<Rightarrow> fzn_sync_position list \<times> nat" where
  "digest_step j out_cap i = (\<lambda>(out, dropped).
     if length out \<ge> out_cap then (out, dropped + 1) else (out @ [position_of (journal_row j i)], dropped))"

definition fzn_sync_digest :: "fzn_journal option \<Rightarrow> nat \<Rightarrow> fzn_sync_position list \<times> nat" where
  "fzn_sync_digest journal out_cap =
     (if journal = None \<or> jn_entries (the journal) = None \<or> jn_used (the journal) > jn_capacity (the journal) then ([], 0)
      else fold (digest_step (the journal) out_cap) [0..<jn_used (the journal)] ([], 0))"

text \<open>The requests written so far and the plan: one more range, if there is anything in it and room for it.\<close>

definition add_range :: "key \<Rightarrow> u32 \<Rightarrow> u64 \<Rightarrow> u64 \<Rightarrow> u64 \<Rightarrow> nat \<Rightarrow> fzn_sync_request list \<times> fzn_sync_plan \<Rightarrow> fzn_sync_request list \<times> fzn_sync_plan" where
  "add_range issuer stream low high max_per_request out_cap = (\<lambda>(out, plan).
     if high \<le> low then (out, plan)
     else if pl_request_count plan \<ge> out_cap then (out, plan\<lparr>pl_truncated := pl_truncated plan + 1\<rparr>)
     else let wanted = high - low;
              wanted = (if wanted > max_per_request then max_per_request else wanted)
          in (out @ [\<lparr>rq_issuer = issuer, rq_stream = stream, rq_from = low + 1, rq_count = wanted\<rparr>],
              plan\<lparr>pl_request_count := pl_request_count plan + 1\<rparr>))"

definition args_ok :: "fzn_journal option \<Rightarrow> fzn_sync_position list option \<Rightarrow> nat \<Rightarrow> u64 \<Rightarrow> bool" where
  "args_ok journal theirs their_count max_per_request =
     (if journal = None \<or> jn_entries (the journal) = None then False
      else if theirs = None \<and> their_count \<noteq> 0 then False
      else if max_per_request = 0 then False
      else jn_used (the journal) \<le> jn_capacity (the journal))"

definition zero_plan :: fzn_sync_plan where
  "zero_plan = \<lparr>pl_request_count = 0, pl_unknown_issuers = 0, pl_truncated = 0, pl_positions_ignored = 0\<rparr>"

definition count_unknown :: "fzn_journal \<Rightarrow> fzn_sync_position list \<Rightarrow> nat \<Rightarrow> fzn_sync_plan \<Rightarrow> fzn_sync_plan" where
  "count_unknown j theirs i plan =
     (if follows_stream j (sp_issuer (theirs ! i)) (sp_stream (theirs ! i)) then plan
      else plan\<lparr>pl_unknown_issuers := pl_unknown_issuers plan + 1\<rparr>)"

definition fetch_step :: "fzn_journal \<Rightarrow> fzn_sync_position list \<Rightarrow> nat \<Rightarrow> u64 \<Rightarrow> nat \<Rightarrow> nat \<Rightarrow>
    fzn_sync_request list \<times> fzn_sync_plan \<Rightarrow> fzn_sync_request list \<times> fzn_sync_plan" where
  "fetch_step j theirs look max_per_request out_cap k st =
     (let ours = journal_row j k in
      case theirs_for theirs look (je_issuer ours) (je_stream ours) of
        None \<Rightarrow> st
      | Some t \<Rightarrow> add_range (je_issuer ours) (je_stream ours) (je_received ours) (sp_received t) max_per_request out_cap st)"

definition fzn_sync_plan_fetch :: "fzn_journal option \<Rightarrow> fzn_sync_position list option \<Rightarrow> nat \<Rightarrow> u64 \<Rightarrow> nat \<Rightarrow>
    fzn_sync_err \<times> fzn_sync_request list \<times> fzn_sync_plan" where
  "fzn_sync_plan_fetch journal theirs their_count max_per_request out_cap =
     (if \<not> args_ok journal theirs their_count max_per_request then (FZN_SYNC_ERR_MALFORMED, [], zero_plan)
      else let j = the journal; ts = (case theirs of None \<Rightarrow> [] | Some ts \<Rightarrow> ts);
               (look, plan) = to_examine their_count zero_plan;
               plan = fold (count_unknown j ts) [0..<look] plan
           in (FZN_SYNC_OK, fold (fetch_step j ts look max_per_request out_cap) [0..<jn_used j] ([], plan)))"

definition offer_step :: "fzn_journal \<Rightarrow> fzn_sync_position list \<Rightarrow> nat \<Rightarrow> u64 \<Rightarrow> nat \<Rightarrow> nat \<Rightarrow>
    fzn_sync_request list \<times> fzn_sync_plan \<Rightarrow> fzn_sync_request list \<times> fzn_sync_plan" where
  "offer_step j theirs look max_per_request out_cap i st =
     (let ours = journal_row j i in
      case theirs_for theirs look (je_issuer ours) (je_stream ours) of
        None \<Rightarrow> (fst st, (snd st)\<lparr>pl_unknown_issuers := pl_unknown_issuers (snd st) + 1\<rparr>)
      | Some t \<Rightarrow> add_range (je_issuer ours) (je_stream ours) (sp_received t) (je_received ours) max_per_request out_cap st)"

definition fzn_sync_plan_offer :: "fzn_journal option \<Rightarrow> fzn_sync_position list option \<Rightarrow> nat \<Rightarrow> u64 \<Rightarrow> nat \<Rightarrow>
    fzn_sync_err \<times> fzn_sync_request list \<times> fzn_sync_plan" where
  "fzn_sync_plan_offer journal theirs their_count max_per_request out_cap =
     (if \<not> args_ok journal theirs their_count max_per_request then (FZN_SYNC_ERR_MALFORMED, [], zero_plan)
      else let j = the journal; ts = (case theirs of None \<Rightarrow> [] | Some ts \<Rightarrow> ts);
               (look, plan) = to_examine their_count zero_plan
           in (FZN_SYNC_OK, fold (offer_step j ts look max_per_request out_cap) [0..<jn_used j] ([], plan)))"

definition fzn_sync_err_str :: "fzn_sync_err \<Rightarrow> string" where
  "fzn_sync_err_str err = (case err of FZN_SYNC_OK \<Rightarrow> ''ok'' | FZN_SYNC_ERR_MALFORMED \<Rightarrow> ''malformed argument'')"

section \<open>What the plans are\<close>

definition sp_key :: "fzn_sync_position \<Rightarrow> key \<times> u32" where "sp_key p = (sp_issuer p, sp_stream p)"

lemma theirs_for_row:
  assumes "distinct (map sp_key (take n ts))" and "n \<le> length ts"
  shows "theirs_for ts n issuer stream = row_map sp_key (take n ts) (issuer, stream)"
  using assms
proof (induction n)
  case 0
  then show ?case by (simp add: theirs_for_def row_map_def)
next
  case (Suc n)
  have tk: "take (Suc n) ts = take n ts @ [ts ! n]" using Suc.prems(2) by (simp add: take_Suc_conv_app_nth)
  have d: "distinct (map sp_key (take n ts))" and new: "sp_key (ts ! n) \<notin> sp_key ` set (take n ts)" using Suc.prems(1) unfolding tk by auto
  have none: "row_map sp_key (take n ts) (sp_key (ts ! n)) = None" using new by (simp add: row_map_None)
  have "theirs_for ts (Suc n) issuer stream =
      (if sp_stream (ts ! n) \<noteq> stream \<or> sp_issuer (ts ! n) \<noteq> issuer then theirs_for ts n issuer stream
       else if theirs_for ts n issuer stream = None \<or> sp_received (ts ! n) > sp_received (the (theirs_for ts n issuer stream)) then Some (ts ! n)
       else theirs_for ts n issuer stream)"
    by (simp add: theirs_for_def)
  also have "\<dots> = row_map sp_key (take (Suc n) ts) (issuer, stream)"
  proof (cases "sp_key (ts ! n) = (issuer, stream)")
    case True
    then have "sp_stream (ts ! n) = stream" "sp_issuer (ts ! n) = issuer" by (auto simp: sp_key_def)
    then show ?thesis unfolding tk row_map_append [OF new] using Suc.IH [OF d] Suc.prems(2) none True by simp
  next
    case False
    then have "sp_stream (ts ! n) \<noteq> stream \<or> sp_issuer (ts ! n) \<noteq> issuer" by (auto simp: sp_key_def)
    then show ?thesis unfolding tk row_map_append [OF new] using Suc.IH [OF d] Suc.prems(2) False by simp
  qed
  finally show ?case .
qed

lemma digest_prefix: "n \<le> out_cap \<Longrightarrow> fold (digest_step j out_cap) [0..<n] ([], 0) = (map (position_of \<circ> journal_row j) [0..<n], 0)"
  by (induction n) (auto simp: digest_step_def)

lemma rows_upto: "journal_wf j \<Longrightarrow> map (journal_row j) [0..<jn_used j] = live_rows j"
  by (rule nth_equalityI) (auto simp: journal_wf_def live_rows_def journal_row_def)

lemma digest_all:
  assumes "journal_wf j" and "jn_used j \<le> out_cap"
  shows "fzn_sync_digest (Some j) out_cap = (map position_of (live_rows j), 0)"
proof -
  have "map (position_of \<circ> journal_row j) [0..<jn_used j] = map position_of (live_rows j)" using rows_upto [OF assms(1)] by (metis map_map)
  then show ?thesis using assms digest_prefix [OF assms(2), of j] by (auto simp: fzn_sync_digest_def journal_wf_def)
qed

lemma length_live: "journal_wf j \<Longrightarrow> length (live_rows j) = jn_used j"
  by (auto simp: journal_wf_def live_rows_def)

lemma row_map_positions: "row_map sp_key (map position_of xs) k = map_option position_of (row_map journal_key xs k)"
  by (induction xs) (auto simp: row_map_def sp_key_def journal_key_def position_of_def)

lemma theirs_in_digest:
  assumes "journal_wf j"
  shows "theirs_for (map position_of (live_rows j)) (jn_used j) issuer stream = map_option position_of (journal_map j (issuer, stream))"
proof -
  have keys: "sp_key \<circ> position_of = journal_key" by (rule ext) (simp add: sp_key_def position_of_def journal_key_def)
  have "theirs_for (map position_of (live_rows j)) (jn_used j) issuer stream = row_map sp_key (map position_of (live_rows j)) (issuer, stream)"
    using theirs_for_row [of "jn_used j" "map position_of (live_rows j)" issuer stream] assms length_live [OF assms] by (simp add: keys journal_wf_def)
  also have "\<dots> = map_option position_of (journal_map j (issuer, stream))"
    unfolding journal_map_def by (rule row_map_positions)
  finally show ?thesis .
qed

definition range_of :: "u64 \<Rightarrow> key \<times> u32 \<Rightarrow> u64 \<Rightarrow> u64 \<Rightarrow> fzn_sync_request option" where
  "range_of most k low high =
     (if high \<le> low then None
      else Some \<lparr>rq_issuer = fst k, rq_stream = snd k, rq_from = low + 1, rq_count = min (high - low) most\<rparr>)"

lemma add_range_of:
  "pl_request_count plan < out_cap \<Longrightarrow>
   fst (add_range issuer stream low high most out_cap (out, plan)) =
     (case range_of most (issuer, stream) low high of None \<Rightarrow> out | Some r \<Rightarrow> out @ [r])"
  by (auto simp: add_range_def range_of_def Let_def min_def not_le)

lemma add_range_count: "pl_request_count (snd (add_range issuer stream low high most out_cap (out, plan))) \<le> Suc (pl_request_count plan)"
  by (auto simp: add_range_def Let_def)

lemma map_filter_Suc: "List.map_filter F [0..<Suc n] = List.map_filter F [0..<n] @ (case F n of None \<Rightarrow> [] | Some r \<Rightarrow> [r])"
  by (simp add: List.map_filter_def split: option.split)

lemma range_fold:
  assumes step: "\<And>i out pl. pl_request_count pl < out_cap \<Longrightarrow>
      fst (f i (out, pl)) = out @ (case F i of None \<Rightarrow> [] | Some r \<Rightarrow> [r]) \<and> pl_request_count (snd (f i (out, pl))) \<le> pl_request_count pl + 1"
    and "n \<le> out_cap" and "pl_request_count plan = 0"
  shows "fst (fold f [0..<n] ([], plan)) = List.map_filter F [0..<n] \<and> pl_request_count (snd (fold f [0..<n] ([], plan))) \<le> n"
  using assms(2)
proof (induction n)
  case (Suc n)
  obtain out pl where st: "fold f [0..<n] ([], plan) = (out, pl)" by fastforce
  have "pl_request_count pl < out_cap" "out = List.map_filter F [0..<n]" "pl_request_count pl \<le> n" using Suc st by auto
  moreover have "fold f [0..<Suc n] ([], plan) = f n (out, pl)" using st by simp
  ultimately show ?case using step [of pl n out] unfolding map_filter_Suc by simp
qed (simp add: assms(3) List.map_filter_simps)

text \<open>What a host asks for and what it offers, row by row of its journal.\<close>

definition fetch_range :: "u64 \<Rightarrow> (key \<times> u32 \<rightharpoonup> fzn_journal_entry) \<Rightarrow> fzn_journal_entry \<Rightarrow> fzn_sync_request option" where
  "fetch_range most theirs e = (case theirs (journal_key e) of None \<Rightarrow> None | Some t \<Rightarrow> range_of most (journal_key e) (je_received e) (je_received t))"

definition offer_range :: "u64 \<Rightarrow> (key \<times> u32 \<rightharpoonup> fzn_journal_entry) \<Rightarrow> fzn_journal_entry \<Rightarrow> fzn_sync_request option" where
  "offer_range most theirs e = (case theirs (journal_key e) of None \<Rightarrow> None | Some t \<Rightarrow> range_of most (journal_key e) (je_received t) (je_received e))"

lemma range_Some:
  "fetch_range most m e = Some r \<longleftrightarrow> (\<exists>t. m (journal_key e) = Some t \<and> je_received e < je_received t \<and>
     r = \<lparr>rq_issuer = fst (journal_key e), rq_stream = snd (journal_key e), rq_from = je_received e + 1, rq_count = min (je_received t - je_received e) most\<rparr>)"
  "offer_range most m e = Some r \<longleftrightarrow> (\<exists>t. m (journal_key e) = Some t \<and> je_received t < je_received e \<and>
     r = \<lparr>rq_issuer = fst (journal_key e), rq_stream = snd (journal_key e), rq_from = je_received t + 1, rq_count = min (je_received e - je_received t) most\<rparr>)"
  by (auto simp: fetch_range_def offer_range_def range_of_def not_le split: option.split)

lemma map_filter_map: "List.map_filter (F \<circ> g) xs = List.map_filter F (map g xs)"
  by (simp add: List.map_filter_def filter_map comp_def)

lemma unknown_keeps: "pl_request_count (fold (count_unknown j ts) xs plan) = pl_request_count plan"
  by (induction xs arbitrary: plan) (simp_all add: count_unknown_def)

lemma plans:
  assumes "journal_wf a" and "journal_wf b" and "jn_used b \<le> FZN_SYNC_MAX_POSITIONS" and "most \<noteq> 0" and "jn_used a \<le> out_cap"
  defines "ts \<equiv> fst (fzn_sync_digest (Some b) (jn_used b))"
  shows "fst (fzn_sync_plan_fetch (Some a) (Some ts) (length ts) most out_cap) = FZN_SYNC_OK"
    and "fst (snd (fzn_sync_plan_fetch (Some a) (Some ts) (length ts) most out_cap)) = List.map_filter (fetch_range most (journal_map b)) (live_rows a)"
    and "fst (fzn_sync_plan_offer (Some a) (Some ts) (length ts) most out_cap) = FZN_SYNC_OK"
    and "fst (snd (fzn_sync_plan_offer (Some a) (Some ts) (length ts) most out_cap)) = List.map_filter (offer_range most (journal_map b)) (live_rows a)"
proof -
  have ts: "ts = map position_of (live_rows b)" unfolding ts_def using digest_all [OF assms(2), of "jn_used b"] by simp
  have len: "length ts = jn_used b" using length_live [OF assms(2)] ts by simp
  note th = theirs_in_digest [OF assms(2), folded ts]
  have args: "args_ok (Some a) (Some ts) (length ts) most" using assms(1,4) by (auto simp: args_ok_def journal_wf_def)
  have ex: "to_examine (length ts) zero_plan = (jn_used b, zero_plan)" using assms(3) len by (simp add: to_examine_def)
  have mf: "List.map_filter (\<lambda>i. F (journal_row a i)) [0..<jn_used a] = List.map_filter F (live_rows a)" for F :: "fzn_journal_entry \<Rightarrow> fzn_sync_request option"
    using map_filter_map [of F "journal_row a" "[0..<jn_used a]"] rows_upto [OF assms(1)] by (simp add: comp_def)
  have z: "pl_request_count zero_plan = 0" by (simp add: zero_plan_def)
  have step: "fst (fetch_step a ts (jn_used b) most out_cap i (out, pl)) = out @ (case (fetch_range most (journal_map b) \<circ> journal_row a) i of None \<Rightarrow> [] | Some r \<Rightarrow> [r]) \<and>
      pl_request_count (snd (fetch_step a ts (jn_used b) most out_cap i (out, pl))) \<le> pl_request_count pl + 1"
    if "pl_request_count pl < out_cap" for i out pl
    using that by (simp add: fetch_step_def Let_def fetch_range_def th journal_key_def add_range_of add_range_count position_of_def split: option.split)
  have ostep: "fst (offer_step a ts (jn_used b) most out_cap i (out, pl)) = out @ (case (offer_range most (journal_map b) \<circ> journal_row a) i of None \<Rightarrow> [] | Some r \<Rightarrow> [r]) \<and>
      pl_request_count (snd (offer_step a ts (jn_used b) most out_cap i (out, pl))) \<le> pl_request_count pl + 1"
    if "pl_request_count pl < out_cap" for i out pl
    using that by (simp add: offer_step_def Let_def offer_range_def th journal_key_def add_range_of add_range_count position_of_def split: option.split)
  show "fst (fzn_sync_plan_fetch (Some a) (Some ts) (length ts) most out_cap) = FZN_SYNC_OK"
    "fst (fzn_sync_plan_offer (Some a) (Some ts) (length ts) most out_cap) = FZN_SYNC_OK"
    using args ex by (simp_all add: fzn_sync_plan_fetch_def fzn_sync_plan_offer_def Let_def)
  show "fst (snd (fzn_sync_plan_fetch (Some a) (Some ts) (length ts) most out_cap)) = List.map_filter (fetch_range most (journal_map b)) (live_rows a)"
    using args ex range_fold [OF step assms(5)] z
    by (simp add: fzn_sync_plan_fetch_def Let_def unknown_keeps mf)
  show "fst (snd (fzn_sync_plan_offer (Some a) (Some ts) (length ts) most out_cap)) = List.map_filter (offer_range most (journal_map b)) (live_rows a)"
    using args ex range_fold [OF ostep assms(5)] z
    by (simp add: fzn_sync_plan_offer_def Let_def mf)
qed

lemma in_map_filter: "r \<in> set (List.map_filter F xs) \<longleftrightarrow> (\<exists>x \<in> set xs. F x = Some r)"
  by (force simp: List.map_filter_def)

lemma journal_map_iff: "journal_wf j \<Longrightarrow> journal_map j k = Some e \<longleftrightarrow> e \<in> set (live_rows j) \<and> journal_key e = k"
  using row_map_in [of journal_key "live_rows j" k e] row_map_nth [of journal_key "live_rows j"]
  by (auto simp: journal_map_def journal_wf_def in_set_conv_nth)

text \<open>
  The two sides of a comparison agree: what one host plans to fetch, told the other's digest, is
  exactly what the other plans to offer, told the first one's digest. It is a range for each stream that both
  follow and on which the other is further, from the first record that is missing and at most as long as
  allowed, and nothing else.
\<close>

theorem fetch_is_offer:
  assumes "journal_wf a" and "journal_wf b" and "jn_used a \<le> FZN_SYNC_MAX_POSITIONS" and "jn_used b \<le> FZN_SYNC_MAX_POSITIONS" and "most \<noteq> 0"
  defines "of_a \<equiv> fst (fzn_sync_digest (Some a) (jn_used a))" and "of_b \<equiv> fst (fzn_sync_digest (Some b) (jn_used b))"
  shows "set (fst (snd (fzn_sync_plan_fetch (Some a) (Some of_b) (length of_b) most (jn_used a)))) =
      set (fst (snd (fzn_sync_plan_offer (Some b) (Some of_a) (length of_a) most (jn_used b)))) \<and>
    set (fst (snd (fzn_sync_plan_fetch (Some a) (Some of_b) (length of_b) most (jn_used a)))) =
      {r. \<exists>k ea eb. journal_map a k = Some ea \<and> journal_map b k = Some eb \<and> je_received ea < je_received eb \<and>
        r = \<lparr>rq_issuer = fst k, rq_stream = snd k, rq_from = je_received ea + 1, rq_count = min (je_received eb - je_received ea) most\<rparr>}"
proof -
  note fetch = plans(2) [OF assms(1,2,4,5) order_refl, folded of_b_def] and offer = plans(4) [OF assms(2,1,3,5) order_refl, folded of_a_def]
  let ?R = "{r. \<exists>k ea eb. journal_map a k = Some ea \<and> journal_map b k = Some eb \<and> je_received ea < je_received eb \<and>
        r = \<lparr>rq_issuer = fst k, rq_stream = snd k, rq_from = je_received ea + 1, rq_count = min (je_received eb - je_received ea) most\<rparr>}"
  have "set (List.map_filter (fetch_range most (journal_map b)) (live_rows a)) = ?R"
    by (rule set_eqI, unfold mem_Collect_eq in_map_filter range_Some journal_map_iff [OF assms(1)]) metis
  moreover have "set (List.map_filter (offer_range most (journal_map a)) (live_rows b)) = ?R"
    by (rule set_eqI, unfold mem_Collect_eq in_map_filter range_Some journal_map_iff [OF assms(2)]) metis
  ultimately show ?thesis unfolding fetch offer by simp
qed

section \<open>Catching up\<close>

text \<open>
  Carrying out a plan: the records of each range are admitted in order. A round of a host \<open>a\<close> with a peer
  \<open>b\<close> that does not move meanwhile compares \<open>a\<close>'s journal with \<open>b\<close>'s digest and carries out the plan.
  This drives the plans and stands for no routine of the library: the fetch of the library, which admits
  records with their predecessors after verifying them, is in \<open>Exchange\<close>.
\<close>

definition request_events :: "fzn_sync_request \<Rightarrow> journal_event list" where
  "request_events r = map (\<lambda>i. Admit_plain (rq_issuer r, rq_stream r) (rq_from r + of_nat i)) [0..<unat (rq_count r)]"

definition sync_round :: "u64 \<Rightarrow> fzn_journal \<Rightarrow> fzn_journal \<Rightarrow> fzn_journal" where
  "sync_round most b a =
     (let ts = fst (fzn_sync_digest (Some b) (jn_used b));
          plan = fst (snd (fzn_sync_plan_fetch (Some a) (Some ts) (length ts) most (jn_used a)))
      in final journal_step a (concat (map request_events plan)))"

definition received_at :: "(key \<times> u32 \<rightharpoonup> fzn_journal_entry) \<Rightarrow> key \<times> u32 \<Rightarrow> u64 option" where
  "received_at m k = map_option je_received (m k)"

lemma final_append: "final step s (xs @ ys) = final step (final step s xs) ys"
  by (simp add: run_append)

lemma admit_next: "received_at m k = Some r \<Longrightarrow> r < r + 1 \<Longrightarrow> received_at (snd (journal_spec room m (Admit_plain k (r + 1)))) = (received_at m)(k \<mapsto> r + 1)"
  by (rule ext) (auto simp: received_at_def on_row_def admit_row_def)

lemma plus_below:
  assumes "unat (r :: u64) + n < 2 ^ 64"
  shows "unat (r + of_nat n) = unat r + n"
proof -
  have "unat (of_nat n :: u64) = n" using assms by (simp add: unsigned_of_nat take_bit_nat_eq_self)
  then show ?thesis using assms unat_add_lem [of r "of_nat n"] by simp
qed

lemma request_run:
  assumes "received_at m k = Some r" and "unat r + n < 2 ^ 64"
  shows "received_at (final (journal_spec room) m (map (\<lambda>i. Admit_plain k (r + 1 + of_nat i)) [0..<n])) = (received_at m)(k \<mapsto> r + of_nat n)"
  using assms(2)
proof (induction n)
  case 0
  then show ?case using assms(1) by (simp add: fun_upd_idem)
next
  case (Suc n)
  let ?m = "final (journal_spec room) m (map (\<lambda>i. Admit_plain k (r + 1 + of_nat i)) [0..<n])"
  have m: "received_at ?m = (received_at m)(k \<mapsto> r + of_nat n)" using Suc.prems by (intro Suc.IH) simp
  have u: "unat (r + of_nat n) = unat r + n" "unat (r + of_nat (Suc n)) = unat r + Suc n" by (intro plus_below, use Suc.prems in linarith)+
  then have less: "r + of_nat n < r + of_nat n + 1" by (simp add: word_less_nat_alt algebra_simps)
  have "final (journal_spec room) m (map (\<lambda>i. Admit_plain k (r + 1 + of_nat i)) [0..<Suc n]) =
      snd (journal_spec room ?m (Admit_plain k (r + of_nat n + 1)))"
    by (simp add: final_append split_beta algebra_simps del: journal_spec.simps)
  then show ?case using admit_next [of ?m k "r + of_nat n" room] m less by (simp add: algebra_simps)
qed

lemma request_events_run:
  assumes "received_at m (rq_issuer q, rq_stream q) = Some r" and "rq_from q = r + 1" and "unat r + unat (rq_count q) < 2 ^ 64"
  shows "received_at (final (journal_spec room) m (request_events q)) = (received_at m)((rq_issuer q, rq_stream q) \<mapsto> r + rq_count q)"
  using request_run [OF assms(1,3), of room] by (simp add: request_events_def assms(2))

text \<open>Ranges of different streams do not touch each other.\<close>

lemma requests_run:
  assumes "\<forall>q \<in> set qs. \<exists>r. received_at m (rq_issuer q, rq_stream q) = Some r \<and> rq_from q = r + 1 \<and> unat r + unat (rq_count q) < 2 ^ 64"
    and "distinct (map (\<lambda>q. (rq_issuer q, rq_stream q)) qs)"
  shows "received_at (final (journal_spec room) m (concat (map request_events qs))) k =
    (case find (\<lambda>q. (rq_issuer q, rq_stream q) = k) qs of None \<Rightarrow> received_at m k | Some q \<Rightarrow> Some (rq_from q - 1 + rq_count q))"
  using assms
proof (induction qs arbitrary: m)
  case (Cons q qs)
  let ?m = "final (journal_spec room) m (request_events q)" and ?k = "(rq_issuer q, rq_stream q)"
  from Cons.prems(1) obtain r where r: "received_at m ?k = Some r" "rq_from q = r + 1" "unat r + unat (rq_count q) < 2 ^ 64" by auto
  have m: "received_at ?m = (received_at m)(?k \<mapsto> r + rq_count q)" by (rule request_events_run [OF r])
  have other: "?k \<noteq> (rq_issuer p, rq_stream p)" if "p \<in> set qs" for p using Cons.prems(2) that by force
  have "received_at (final (journal_spec room) ?m (concat (map request_events qs))) k =
    (case find (\<lambda>q. (rq_issuer q, rq_stream q) = k) qs of None \<Rightarrow> received_at ?m k | Some q \<Rightarrow> Some (rq_from q - 1 + rq_count q))"
  proof (rule Cons.IH)
    show "\<forall>p \<in> set qs. \<exists>r. received_at ?m (rq_issuer p, rq_stream p) = Some r \<and> rq_from p = r + 1 \<and> unat r + unat (rq_count p) < 2 ^ 64"
      unfolding m using Cons.prems(1) other by (metis fun_upd_apply list.set_intros(2))
    show "distinct (map (\<lambda>q. (rq_issuer q, rq_stream q)) qs)" using Cons.prems(2) by simp
  qed
  moreover have "find (\<lambda>q. (rq_issuer q, rq_stream q) = k) qs = None" if "k = ?k"
    unfolding find_None_iff that using other by (metis (no_types))
  ultimately show ?case using r fun_cong [OF m, of k] by (cases "k = ?k") (simp_all add: final_append eq_commute [of k] split: option.split)
qed simp

lemma fetch_key: "fetch_range most m e = Some q \<Longrightarrow> (rq_issuer q, rq_stream q) = journal_key e"
  by (auto simp: range_Some)

lemma fetch_from: "fetch_range most m e = Some q \<Longrightarrow> rq_from q = je_received e + 1"
  by (auto simp: range_Some)

lemma fetch_keys_distinct:
  assumes "distinct (map journal_key es)"
  shows "distinct (map (\<lambda>q. (rq_issuer q, rq_stream q)) (List.map_filter (fetch_range most m) es))"
  using assms
proof (induction es)
  case (Cons e es)
  then show ?case by (auto simp: List.map_filter_simps in_map_filter fetch_key dest!: fetch_key split: option.split)
qed (simp add: List.map_filter_simps)

lemma find_fetch:
  assumes "distinct (map journal_key es)"
  shows "find (\<lambda>q. (rq_issuer q, rq_stream q) = k) (List.map_filter (fetch_range most m) es) =
    (case row_map journal_key es k of None \<Rightarrow> None | Some e \<Rightarrow> fetch_range most m e)"
  using assms
proof (induction es)
  case (Cons e es)
  have row: "row_map journal_key (e # es) k = (if journal_key e = k then Some e else row_map journal_key es k)" by (simp add: row_map_def)
  show ?case
  proof (cases "journal_key e = k")
    case True
    then have "row_map journal_key es k = None" using Cons.prems by (auto simp: row_map_None)
    then show ?thesis using Cons True row fetch_key [of most m e] by (auto simp: List.map_filter_simps split: option.split)
  next
    case False
    then show ?thesis using Cons row fetch_key [of most m e] by (auto simp: List.map_filter_simps split: option.split)
  qed
qed (simp add: List.map_filter_simps row_map_def)

lemma round_received:
  assumes "journal_wf a" and "journal_wf b" and "jn_used b \<le> FZN_SYNC_MAX_POSITIONS" and "most \<noteq> 0"
  shows "journal_wf (sync_round most b a)"
    and "received_at (journal_map (sync_round most b a)) k =
      (case journal_map a k of None \<Rightarrow> None
       | Some ea \<Rightarrow> (case fetch_range most (journal_map b) ea of None \<Rightarrow> Some (je_received ea) | Some q \<Rightarrow> Some (je_received ea + rq_count q)))"
proof -
  let ?qs = "List.map_filter (fetch_range most (journal_map b)) (live_rows a)"
  have round: "sync_round most b a = final journal_step a (concat (map request_events ?qs))"
    unfolding sync_round_def Let_def plans(2) [OF assms order_refl] ..
  show "journal_wf (sync_round most b a)" unfolding round by (rule journal_run_refines(3) [OF assms(1)])
  have d: "distinct (map journal_key (live_rows a))" using assms(1) by (simp add: journal_wf_def)
  have "\<exists>r. received_at (journal_map a) (rq_issuer q, rq_stream q) = Some r \<and> rq_from q = r + 1 \<and> unat r + unat (rq_count q) < 2 ^ 64"
    if "q \<in> set ?qs" for q
  proof -
    from that obtain e where e: "e \<in> set (live_rows a)" "fetch_range most (journal_map b) e = Some q" by (auto simp: in_map_filter)
    then obtain t :: fzn_journal_entry where t: "je_received e < je_received t" "q = \<lparr>rq_issuer = fst (journal_key e), rq_stream = snd (journal_key e),
        rq_from = je_received e + 1, rq_count = min (je_received t - je_received e) most\<rparr>"
      unfolding range_Some by blast
    have "unat (rq_count q) \<le> unat (je_received t - je_received e)" unfolding t(2) by (simp add: min_def word_le_nat_alt)
    also have "\<dots> = unat (je_received t) - unat (je_received e)" using t(1) by (simp add: unat_sub)
    finally have c: "unat (rq_count q) \<le> unat (je_received t) - unat (je_received e)" .
    have "unat (je_received t) < 2 ^ 64" using unsigned_less [of "je_received t"] by simp
    then have "unat (je_received e) + unat (rq_count q) < 2 ^ 64" using c t(1) by (simp add: word_less_nat_alt)
    moreover have "journal_map a (rq_issuer q, rq_stream q) = Some e" using e t(2) by (simp add: journal_map_iff [OF assms(1)])
    ultimately show ?thesis using t(2) by (auto simp: received_at_def)
  qed
  then have "received_at (journal_map (sync_round most b a)) k =
      (case find (\<lambda>q. (rq_issuer q, rq_stream q) = k) ?qs of None \<Rightarrow> received_at (journal_map a) k | Some q \<Rightarrow> Some (rq_from q - 1 + rq_count q))"
    unfolding round journal_run_refines(2) [OF assms(1)] using requests_run [OF _ fetch_keys_distinct [OF d], of most "journal_map b" "journal_map a" "jn_capacity a" k] by blast
  then show "received_at (journal_map (sync_round most b a)) k =
      (case journal_map a k of None \<Rightarrow> None
       | Some ea \<Rightarrow> (case fetch_range most (journal_map b) ea of None \<Rightarrow> Some (je_received ea) | Some q \<Rightarrow> Some (je_received ea + rq_count q)))"
    unfolding find_fetch [OF d] journal_map_def [symmetric]
    by (cases "journal_map a k") (auto simp: received_at_def fetch_from split: option.split)
qed

lemma round_moves:
  assumes "journal_wf a" and "journal_wf b" and "jn_used b \<le> FZN_SYNC_MAX_POSITIONS" and "most \<noteq> 0"
    and "journal_map a k = Some ea" and "journal_map b k = Some eb"
  obtains ea' where "journal_map (sync_round most b a) k = Some ea'"
    and "unat (je_received ea') = max (unat (je_received ea)) (min (unat (je_received eb)) (unat (je_received ea) + unat most))"
proof -
  have key: "journal_key ea = k" using assms(1,5) by (simp add: journal_map_iff)
  show thesis
  proof (cases "je_received ea < je_received eb")
    case False
    then have "fetch_range most (journal_map b) ea = None" using key assms(6) by (simp add: fetch_range_def range_of_def)
    then obtain ea' where "journal_map (sync_round most b a) k = Some ea'" "je_received ea' = je_received ea"
      using round_received(2) [OF assms(1-4), of k] assms(5) by (auto simp: received_at_def)
    then show thesis using False that [of ea'] by (simp add: not_less word_le_nat_alt max_absorb1 min.coboundedI1)
  next
    case True
    let ?c = "min (je_received eb - je_received ea) most"
    have "fetch_range most (journal_map b) ea = Some \<lparr>rq_issuer = fst k, rq_stream = snd k, rq_from = je_received ea + 1, rq_count = ?c\<rparr>"
      using key assms(6) True by (simp add: fetch_range_def range_of_def not_le)
    then obtain ea' where ea': "journal_map (sync_round most b a) k = Some ea'" "je_received ea' = je_received ea + ?c"
      using round_received(2) [OF assms(1-4), of k] assms(5) by (auto simp: received_at_def)
    have c: "unat ?c = min (unat (je_received eb) - unat (je_received ea)) (unat most)"
      using unat_sub [OF less_imp_le [OF True]] by (simp add: min_def word_le_nat_alt)
    have "unat (je_received eb) < 2 ^ 64" using unsigned_less [of "je_received eb"] by simp
    then have "unat (je_received ea) + unat ?c < 2 ^ 64" unfolding c using True by (auto simp: word_less_nat_alt min_def)
    then have "unat (je_received ea + ?c) = unat (je_received ea) + unat ?c" using unat_add_lem [of "je_received ea" ?c] by simp
    then show thesis using that [OF ea'(1)] ea'(2) c True by (simp add: word_less_nat_alt)
  qed
qed

lemma rounds_received:
  assumes "journal_wf b" and "jn_used b \<le> FZN_SYNC_MAX_POSITIONS" and "most \<noteq> 0" and "journal_map b k = Some eb"
    and "journal_wf a" and "journal_map a k = Some ea"
  shows "\<exists>e. journal_map ((sync_round most b ^^ n) a) k = Some e \<and>
    unat (je_received e) = max (unat (je_received ea)) (min (unat (je_received eb)) (unat (je_received ea) + n * unat most))"
  using assms(5,6)
proof (induction n arbitrary: a ea)
  case (Suc n)
  obtain ea' where ea': "journal_map (sync_round most b a) k = Some ea'"
    "unat (je_received ea') = max (unat (je_received ea)) (min (unat (je_received eb)) (unat (je_received ea) + unat most))"
    by (rule round_moves [OF Suc.prems(1) assms(1-3) Suc.prems(2) assms(4)])
  have wf: "journal_wf (sync_round most b a)" by (rule round_received(1) [OF Suc.prems(1) assms(1-3)])
  have "unat most > 0" using assms(3) by (simp add: unat_gt_0)
  then show ?case using Suc.IH [OF wf ea'(1)] ea'(2) unfolding funpow_Suc_right comp_apply by (auto simp: max_def min_def algebra_simps split: if_splits)
qed auto

text \<open>
  C34. Rounds of comparing and fetching make progress and end: after \<open>n\<close> of them a host stands, on every
  stream that it and its peer follow, at its peer's position or \<open>n\<close> times the allowed range further, so with
  \<open>n\<close> times the range at least as great as the distance it has caught up, having admitted every record in
  between in order. The journal stays well-formed throughout and no position goes back.
\<close>

theorem sync_catches_up:
  assumes "journal_wf a" and "journal_wf b" and "jn_used b \<le> FZN_SYNC_MAX_POSITIONS" and "most \<noteq> 0"
    and "journal_map a k = Some ea" and "journal_map b k = Some eb"
    and "unat (je_received eb) \<le> unat (je_received ea) + n * unat most"
  shows "journal_wf ((sync_round most b ^^ n) a) \<and>
    (\<exists>e. journal_map ((sync_round most b ^^ n) a) k = Some e \<and> je_received e = max (je_received ea) (je_received eb))"
proof -
  have "journal_wf ((sync_round most b ^^ n) a)"
    by (induction n) (simp_all add: assms(1) round_received(1) [OF _ assms(2-4)])
  moreover obtain e where e: "journal_map ((sync_round most b ^^ n) a) k = Some e"
    "unat (je_received e) = max (unat (je_received ea)) (min (unat (je_received eb)) (unat (je_received ea) + n * unat most))"
    using rounds_received [OF assms(2-4,6,1,5)] by blast
  moreover have "je_received e = max (je_received ea) (je_received eb)"
    using e(2) assms(7) by (auto simp: max_def min_def word_le_nat_alt word_unat_eq_iff split: if_splits)
  ultimately show ?thesis by blast
qed

definition demo_peer :: fzn_journal where
  "demo_peer = \<lparr>jn_entries = Some [zero_entry\<lparr>je_issuer := [5], je_stream := 3, je_received := 5\<rparr>], jn_capacity = 1, jn_used = 1\<rparr>"

definition demo_host :: fzn_journal where
  "demo_host = \<lparr>jn_entries = Some [zero_entry\<lparr>je_issuer := [5], je_stream := 3, je_received := 1\<rparr>], jn_capacity = 1, jn_used = 1\<rparr>"

lemma demo_hosts:
  "journal_wf demo_peer" "journal_wf demo_host" "jn_used demo_peer \<le> FZN_SYNC_MAX_POSITIONS" "jn_used demo_host \<le> FZN_SYNC_MAX_POSITIONS"
  "journal_map demo_peer ([5], 3) = Some (zero_entry\<lparr>je_issuer := [5], je_stream := 3, je_received := 5\<rparr>)"
  "journal_map demo_host ([5], 3) = Some (zero_entry\<lparr>je_issuer := [5], je_stream := 3, je_received := 1\<rparr>)"
  by (simp_all add: demo_peer_def demo_host_def journal_wf_def live_rows_def zero_entry_def journal_map_def row_map_def journal_key_def)

theorem fetch_is_offer_witness:
  "set (fst (snd (fzn_sync_plan_fetch (Some demo_host) (Some (fst (fzn_sync_digest (Some demo_peer) (jn_used demo_peer))))
      (length (fst (fzn_sync_digest (Some demo_peer) (jn_used demo_peer)))) 3 (jn_used demo_host)))) =
   set (fst (snd (fzn_sync_plan_offer (Some demo_peer) (Some (fst (fzn_sync_digest (Some demo_host) (jn_used demo_host))))
      (length (fst (fzn_sync_digest (Some demo_host) (jn_used demo_host)))) 3 (jn_used demo_peer)))) \<and>
   fst (snd (fzn_sync_plan_fetch (Some demo_host) (Some (fst (fzn_sync_digest (Some demo_peer) (jn_used demo_peer))))
      (length (fst (fzn_sync_digest (Some demo_peer) (jn_used demo_peer)))) 3 (jn_used demo_host))) =
     [\<lparr>rq_issuer = [5], rq_stream = 3, rq_from = 2, rq_count = 3\<rparr>]"
proof -
  have "fst (snd (fzn_sync_plan_fetch (Some demo_host) (Some (fst (fzn_sync_digest (Some demo_peer) (jn_used demo_peer))))
      (length (fst (fzn_sync_digest (Some demo_peer) (jn_used demo_peer)))) 3 (jn_used demo_host))) =
     [\<lparr>rq_issuer = [5], rq_stream = 3, rq_from = 2, rq_count = 3\<rparr>]" by code_simp
  moreover have "(3 :: u64) \<noteq> 0" by simp
  ultimately show ?thesis using fetch_is_offer [OF demo_hosts(2,1,4,3), of 3] by blast
qed

theorem sync_catches_up_witness:
  "\<exists>e. journal_map ((sync_round 3 demo_peer ^^ 2) demo_host) ([5], 3) = Some e \<and> je_received e = 5"
proof -
  have "(3 :: u64) \<noteq> 0" "unat (je_received (zero_entry\<lparr>je_issuer := [5], je_stream := 3, je_received := 5\<rparr>))
      \<le> unat (je_received (zero_entry\<lparr>je_issuer := [5], je_stream := 3, je_received := 1\<rparr>)) + 2 * unat (3 :: u64)" by simp_all
  from sync_catches_up [OF demo_hosts(2,1,3) this(1) demo_hosts(6,5) this(2)] show ?thesis by (simp add: max_def)
qed

end
