(* ===== verification/Ledger.thy ===== *)
theory Ledger
  imports Signed_Record Keyed_Map
begin

text \<open>
  The ledger of confirmations (\<open>record/ledger.c\<close>): the newest version of each subject that each peer has
  confirmed, so that a host sends a peer only what it is behind on. A ledger is a map to versions that
  only grow, and reads as the greatest version that was ever taken.
\<close>

section \<open>The model\<close>

datatype fzn_ledger_err = FZN_LEDGER_OK | FZN_LEDGER_ERR_MALFORMED | FZN_LEDGER_ERR_FULL | FZN_LEDGER_ERR_STALE

record fzn_ledger_entry =
  lg_peer :: key
  lg_subject :: bytes
  lg_kind :: u32
  lg_version :: u64

record fzn_ledger =
  ld_entries :: "fzn_ledger_entry list option"
  ld_capacity :: nat
  ld_used :: nat

definition unscannable :: "fzn_ledger \<Rightarrow> bool" where
  "unscannable ledger \<longleftrightarrow> ld_used ledger > ld_capacity ledger \<or> (ld_used ledger > 0 \<and> ld_entries ledger = None)"

definition ledger_corrupt :: "fzn_ledger \<Rightarrow> bool" where
  "ledger_corrupt ledger = (if \<not> unscannable ledger then False else True)"

fun ledger_scan :: "fzn_ledger \<Rightarrow> key \<Rightarrow> bytes \<Rightarrow> u32 \<Rightarrow> nat \<Rightarrow> nat \<Rightarrow> nat" where
  "ledger_scan ledger peer subject kind at 0 = ld_used ledger"
| "ledger_scan ledger peer subject kind at (Suc left) =
     (let e = the (ld_entries ledger) ! at in
      if lg_kind e = kind \<and> lg_peer e = peer \<and> lg_subject e = subject then at
      else ledger_scan ledger peer subject kind (Suc at) left)"

definition ledger_find_row :: "fzn_ledger \<Rightarrow> key \<Rightarrow> bytes \<Rightarrow> u32 \<Rightarrow> nat" where
  "ledger_find_row ledger peer subject kind = ledger_scan ledger peer subject kind 0 (ld_used ledger)"

definition zero_ledger_entry :: fzn_ledger_entry where
  "zero_ledger_entry = \<lparr>lg_peer = replicate FZN_PUBKEY_LEN 0, lg_subject = replicate FZN_SUBJECT_LEN 0, lg_kind = 0, lg_version = 0\<rparr>"

definition fzn_ledger_init :: "fzn_ledger option \<Rightarrow> fzn_ledger_entry list option \<Rightarrow> nat \<Rightarrow> fzn_ledger_err \<times> fzn_ledger option" where
  "fzn_ledger_init ledger entries capacity =
     (if ledger = None \<or> entries = None \<or> capacity = 0 then (FZN_LEDGER_ERR_MALFORMED, ledger)
      else (FZN_LEDGER_OK, Some \<lparr>ld_entries = Some (replicate capacity zero_ledger_entry @ drop capacity (the entries)), ld_capacity = capacity, ld_used = 0\<rparr>))"

definition fzn_ledger_confirm :: "fzn_ledger option \<Rightarrow> key option \<Rightarrow> bytes option \<Rightarrow> u32 \<Rightarrow> u64 \<Rightarrow> fzn_ledger_err \<times> fzn_ledger option" where
  "fzn_ledger_confirm ledger peer subject kind version =
     (if ledger = None \<or> peer = None \<or> subject = None then (FZN_LEDGER_ERR_MALFORMED, ledger)
      else if version = 0 then (FZN_LEDGER_ERR_MALFORMED, ledger)
      else let l = the ledger in
        if ledger_corrupt l \<or> ld_entries l = None then (FZN_LEDGER_ERR_MALFORMED, ledger)
        else let es = the (ld_entries l); at = ledger_find_row l (the peer) (the subject) kind in
          if at < ld_used l then
            (if version \<le> lg_version (es ! at) then (FZN_LEDGER_ERR_STALE, ledger)
             else (FZN_LEDGER_OK, Some (l\<lparr>ld_entries := Some (es[at := (es ! at)\<lparr>lg_version := version\<rparr>])\<rparr>)))
          else if ld_used l \<ge> ld_capacity l then (FZN_LEDGER_ERR_FULL, ledger)
          else (FZN_LEDGER_OK, Some (l\<lparr>ld_entries := Some (es[ld_used l :=
                  \<lparr>lg_peer = the peer, lg_subject = the subject, lg_kind = kind, lg_version = version\<rparr>]), ld_used := ld_used l + 1\<rparr>)))"

definition fzn_ledger_confirmed :: "fzn_ledger option \<Rightarrow> key option \<Rightarrow> bytes option \<Rightarrow> u32 \<Rightarrow> u64" where
  "fzn_ledger_confirmed ledger peer subject kind =
     (if ledger = None \<or> peer = None \<or> subject = None then 0
      else let l = the ledger in
        if ledger_corrupt l \<or> ld_entries l = None then 0
        else let at = ledger_find_row l (the peer) (the subject) kind in
          if at = ld_used l then 0 else lg_version (the (ld_entries l) ! at))"

definition fzn_ledger_behind :: "fzn_ledger option \<Rightarrow> key option \<Rightarrow> bytes option \<Rightarrow> u32 \<Rightarrow> u64 \<Rightarrow> bool" where
  "fzn_ledger_behind ledger peer subject kind current \<longleftrightarrow> fzn_ledger_confirmed ledger peer subject kind < current"

definition fzn_ledger_sound :: "fzn_ledger option \<Rightarrow> bool" where
  "fzn_ledger_sound ledger = (case ledger of None \<Rightarrow> True | Some l \<Rightarrow> \<not> unscannable l)"

definition fzn_ledger_count :: "fzn_ledger option \<Rightarrow> nat" where
  "fzn_ledger_count ledger = (case ledger of None \<Rightarrow> 0 | Some l \<Rightarrow> if ledger_corrupt l then 0 else ld_used l)"

definition fzn_ledger_err_str :: "fzn_ledger_err \<Rightarrow> string" where
  "fzn_ledger_err_str err =
     (case err of FZN_LEDGER_OK \<Rightarrow> ''ok'' | FZN_LEDGER_ERR_MALFORMED \<Rightarrow> ''malformed'' | FZN_LEDGER_ERR_FULL \<Rightarrow> ''ledger full''
      | FZN_LEDGER_ERR_STALE \<Rightarrow> ''stale confirmation'')"

section \<open>A ledger is a map to versions\<close>

type_synonym ledger_key = "key \<times> bytes \<times> u32"

definition ledger_key :: "fzn_ledger_entry \<Rightarrow> ledger_key" where "ledger_key e = (lg_peer e, lg_subject e, lg_kind e)"
definition ledger_rows :: "fzn_ledger \<Rightarrow> fzn_ledger_entry list" where "ledger_rows l = take (ld_used l) (the (ld_entries l))"

definition ledger_wf :: "fzn_ledger \<Rightarrow> bool" where
  "ledger_wf l \<longleftrightarrow> ld_entries l \<noteq> None \<and> ld_capacity l \<le> length (the (ld_entries l)) \<and> ld_used l \<le> ld_capacity l \<and> distinct (map ledger_key (ledger_rows l))"

definition ledger_map :: "fzn_ledger \<Rightarrow> (ledger_key \<rightharpoonup> u64)" where
  "ledger_map l k = map_option lg_version (row_map ledger_key (ledger_rows l) k)"

lemma scan_hit:
  "ledger_scan l p s kd at n = (case find (\<lambda>i. ledger_key (the (ld_entries l) ! i) = (p, s, kd)) [at..<at + n] of None \<Rightarrow> ld_used l | Some i \<Rightarrow> i)"
proof (induction n arbitrary: at)
  case (Suc n)
  have "[at..<at + Suc n] = at # [Suc at..<Suc at + n]" by (simp add: upt_conv_Cons)
  then show ?case using Suc by (auto simp: Let_def ledger_key_def)
qed simp

lemma ledger_cases:
  assumes "ledger_wf l"
  obtains (absent) "ledger_find_row l (fst k) (fst (snd k)) (snd (snd k)) = ld_used l" "row_map ledger_key (ledger_rows l) k = None"
    | (present) i where "ledger_find_row l (fst k) (fst (snd k)) (snd (snd k)) = i" "i < ld_used l" "ledger_key (the (ld_entries l) ! i) = k"
        "row_map ledger_key (ledger_rows l) k = Some (the (ld_entries l) ! i)"
proof -
  let ?es = "the (ld_entries l)" and ?n = "ld_used l"
  have n: "?n \<le> length ?es" using assms by (simp add: ledger_wf_def)
  have f: "ledger_find_row l (fst k) (fst (snd k)) (snd (snd k)) = (case find (\<lambda>i. ledger_key (?es ! i) = k) [0..<?n] of None \<Rightarrow> ?n | Some i \<Rightarrow> i)"
    by (simp add: ledger_find_row_def scan_hit)
  show thesis
  proof (cases "find (\<lambda>i. ledger_key (?es ! i) = k) [0..<?n]")
    case None
    then have "k \<notin> ledger_key ` set (ledger_rows l)" using n by (fastforce simp: find_None_iff ledger_rows_def in_set_conv_nth)
    then show thesis using None f by (intro absent) (simp_all add: row_map_None)
  next
    case (Some i)
    then have i: "i < ?n" "ledger_key (?es ! i) = k" by (auto simp: find_Some_iff)
    moreover have "row_map ledger_key (ledger_rows l) (ledger_key (ledger_rows l ! i)) = Some (ledger_rows l ! i)"
      using assms i(1) n by (intro row_map_nth) (auto simp: ledger_wf_def ledger_rows_def)
    ultimately show thesis using Some f i n by (intro present [of i]) (simp_all add: ledger_rows_def)
  qed
qed

text \<open>What a confirmation does to the map, with room for as many rows as the table has cells.\<close>

definition ledger_spec :: "nat \<Rightarrow> (ledger_key \<rightharpoonup> u64) \<Rightarrow> ledger_key \<times> u64 \<Rightarrow> fzn_ledger_err \<times> (ledger_key \<rightharpoonup> u64)" where
  "ledger_spec room m = (\<lambda>(k, version).
     if version = 0 then (FZN_LEDGER_ERR_MALFORMED, m)
     else case m k of
         Some v \<Rightarrow> if version \<le> v then (FZN_LEDGER_ERR_STALE, m) else (FZN_LEDGER_OK, m(k \<mapsto> version))
       | None \<Rightarrow> if room \<le> card (dom m) then (FZN_LEDGER_ERR_FULL, m) else (FZN_LEDGER_OK, m(k \<mapsto> version)))"

definition ledger_step :: "fzn_ledger \<Rightarrow> ledger_key \<times> u64 \<Rightarrow> fzn_ledger_err \<times> fzn_ledger" where
  "ledger_step l = (\<lambda>((p, s, kd), version). apsnd the (fzn_ledger_confirm (Some l) (Some p) (Some s) kd version))"

lemma ledger_confirm_refines:
  assumes "ledger_wf l"
  shows "fst (ledger_step l (k, version)) = fst (ledger_spec (ld_capacity l) (ledger_map l) (k, version)) \<and>
    ledger_map (snd (ledger_step l (k, version))) = snd (ledger_spec (ld_capacity l) (ledger_map l) (k, version)) \<and>
    ledger_wf (snd (ledger_step l (k, version))) \<and> ld_capacity (snd (ledger_step l (k, version))) = ld_capacity l"
proof -
  obtain p s kd where k: "k = (p, s, kd)" by (cases k)
  have ok: "ld_entries l \<noteq> None" "\<not> ledger_corrupt l" using assms by (auto simp: ledger_corrupt_def unscannable_def ledger_wf_def)
  have dom: "dom (ledger_map l) = dom (row_map ledger_key (ledger_rows l))" by (auto simp: ledger_map_def)
  have room: "card (dom (ledger_map l)) = ld_used l"
    unfolding dom using assms card_dom_row_map [of ledger_key "ledger_rows l"] by (auto simp: ledger_wf_def ledger_rows_def)
  let ?es = "the (ld_entries l)"
  show ?thesis using assms
  proof (cases rule: ledger_cases [of l k])
    case absent
    have m: "ledger_map l k = None" using absent(2) by (simp add: ledger_map_def)
    let ?e = "\<lparr>lg_peer = p, lg_subject = s, lg_kind = kd, lg_version = version\<rparr>"
    let ?l = "l\<lparr>ld_entries := Some (?es[ld_used l := ?e]), ld_used := ld_used l + 1\<rparr>"
    have add: "ledger_wf ?l \<and> ledger_map ?l = (ledger_map l)(k \<mapsto> version)" if "ld_used l < ld_capacity l"
    proof -
      have key: "ledger_key ?e = k" by (simp add: k ledger_key_def)
      have live: "ledger_rows ?l = ledger_rows l @ [?e]" using that assms by (simp add: ledger_rows_def ledger_wf_def take_append_cell)
      have new: "ledger_key ?e \<notin> ledger_key ` set (ledger_rows l)" using absent(2) key by (simp add: row_map_None)
      have "ledger_map ?l = (ledger_map l)(k \<mapsto> version)"
        unfolding ledger_map_def live row_map_append [OF new] key by (rule ext) simp
      then show ?thesis using assms that live new by (simp add: ledger_wf_def)
    qed
    then show ?thesis using assms ok absent(1) m room
      by (auto simp: ledger_step_def ledger_spec_def fzn_ledger_confirm_def Let_def k)
  next
    case (present i)
    have m: "ledger_map l k = Some (lg_version (?es ! i))" using present(4) by (simp add: ledger_map_def)
    let ?e = "(?es ! i)\<lparr>lg_version := version\<rparr>"
    let ?l = "l\<lparr>ld_entries := Some (?es[i := ?e])\<rparr>"
    have len: "i < length (ledger_rows l)" "ledger_rows l ! i = ?es ! i" using present(2) assms by (auto simp: ledger_rows_def ledger_wf_def)
    have live: "ledger_rows ?l = (ledger_rows l)[i := ?e]" using present(2) by (simp add: ledger_rows_def take_update_swap)
    have key: "ledger_key ?e = ledger_key (ledger_rows l ! i)" using len by (simp add: ledger_key_def)
    have "ledger_map ?l = (ledger_map l)(k \<mapsto> version)"
      using row_map_update [of ledger_key "ledger_rows l" i ?e] assms key len present(3) by (auto simp: ledger_map_def live ledger_wf_def fun_eq_iff)
    moreover have "ledger_wf ?l" using assms update_keys [of i "ledger_rows l" ledger_key ?e] key len live by (simp add: ledger_wf_def)
    ultimately show ?thesis using assms ok present(1,2) m
      by (auto simp: ledger_step_def ledger_spec_def fzn_ledger_confirm_def Let_def k)
  qed
qed

lemma ledger_run_refines:
  assumes "ledger_wf l"
  shows "trace ledger_step l es = trace (ledger_spec (ld_capacity l)) (ledger_map l) es \<and>
    ledger_map (final ledger_step l es) = final (ledger_spec (ld_capacity l)) (ledger_map l) es \<and> ledger_wf (final ledger_step l es)"
  using assms
proof (induction es arbitrary: l)
  case (Cons ev es)
  obtain k v where ev: "ev = (k, v)" by (cases ev)
  show ?case unfolding ev using ledger_confirm_refines [OF Cons.prems, of k v] Cons.IH [of "snd (ledger_step l (k, v))"]
    by (simp add: split_beta)
qed simp

lemma confirmed_map:
  assumes "ledger_wf l"
  shows "fzn_ledger_confirmed (Some l) (Some p) (Some s) kd = (case ledger_map l (p, s, kd) of None \<Rightarrow> 0 | Some v \<Rightarrow> v)"
proof -
  have ok: "ld_entries l \<noteq> None" "\<not> ledger_corrupt l" using assms by (auto simp: ledger_corrupt_def unscannable_def ledger_wf_def)
  show ?thesis using assms ok by (cases rule: ledger_cases [of l "(p, s, kd)"]) (auto simp: fzn_ledger_confirmed_def Let_def ledger_map_def)
qed

definition confirmed_by :: "(ledger_key \<rightharpoonup> u64) \<Rightarrow> ledger_key \<Rightarrow> u64" where
  "confirmed_by m k = (case m k of None \<Rightarrow> 0 | Some v \<Rightarrow> v)"

fun taken :: "ledger_key \<Rightarrow> (ledger_key \<times> u64) \<times> fzn_ledger_err \<Rightarrow> u64 option" where
  "taken k ((k', v), err) = (if k' = k \<and> err = FZN_LEDGER_OK then Some v else None)"

lemma spec_taken:
  "case taken k (ev, fst (ledger_spec room m ev)) of
     None \<Rightarrow> confirmed_by (snd (ledger_spec room m ev)) k = confirmed_by m k
   | Some v \<Rightarrow> confirmed_by m k < v \<and> confirmed_by (snd (ledger_spec room m ev)) k = v"
  by (cases ev) (auto simp: ledger_spec_def confirmed_by_def word_gt_0 split: option.splits if_splits)

lemma spec_newest:
  "let vs = List.map_filter (taken k) (trace (ledger_spec room) m es) in
   sorted_wrt (<) (confirmed_by m k # vs) \<and> confirmed_by (final (ledger_spec room) m es) k = last (confirmed_by m k # vs)"
proof (induction es arbitrary: m)
  case (Cons ev es)
  let ?m = "snd (ledger_spec room m ev)" and ?r = "fst (ledger_spec room m ev)"
  have tr: "trace (ledger_spec room) m (ev # es) = (ev, ?r) # trace (ledger_spec room) ?m es" by (simp add: split_beta)
  have fin: "final (ledger_spec room) m (ev # es) = final (ledger_spec room) ?m es" by (simp add: split_beta)
  from Cons.IH [of ?m] spec_taken [where k = k and ev = ev and room = room and m = m] show ?case unfolding tr fin
    by (auto simp: List.map_filter_simps Let_def split: option.splits intro: less_trans)
qed (simp add: List.map_filter_simps)

text \<open>
  A ledger answers with the newest version a peer confirmed. Whatever is confirmed, in whatever order and
  by whom: the versions taken for a peer's subject strictly increase, and what is confirmed for it
  is the last of them, or what was confirmed before when none was taken; so a peer is behind on a
  version exactly when that version is newer than every one taken from it.
\<close>

theorem ledger_newest:
  fixes p :: key and s :: bytes and kd :: u32 and es :: "(ledger_key \<times> u64) list"
  assumes "ledger_wf l"
  defines "vs \<equiv> List.map_filter (taken (p, s, kd)) (trace ledger_step l es)"
  shows "ledger_wf (final ledger_step l es) \<and>
    sorted_wrt (<) (fzn_ledger_confirmed (Some l) (Some p) (Some s) kd # vs) \<and>
    fzn_ledger_confirmed (Some (final ledger_step l es)) (Some p) (Some s) kd = last (fzn_ledger_confirmed (Some l) (Some p) (Some s) kd # vs) \<and>
    (fzn_ledger_behind (Some (final ledger_step l es)) (Some p) (Some s) kd current \<longleftrightarrow>
      fzn_ledger_confirmed (Some l) (Some p) (Some s) kd < current \<and> (\<forall>v \<in> set vs. v < current))"
proof -
  note run = ledger_run_refines [OF assms(1), of es]
  let ?c = "fzn_ledger_confirmed (Some l) (Some p) (Some s) kd"
  have start: "?c = confirmed_by (ledger_map l) (p, s, kd)" using confirmed_map [OF assms(1)] by (simp add: confirmed_by_def)
  have stop: "fzn_ledger_confirmed (Some (final ledger_step l es)) (Some p) (Some s) kd = confirmed_by (ledger_map (final ledger_step l es)) (p, s, kd)"
    using confirmed_map [of "final ledger_step l es"] run by (simp add: confirmed_by_def)
  have vs: "vs = List.map_filter (taken (p, s, kd)) (trace (ledger_spec (ld_capacity l)) (ledger_map l) es)" unfolding vs_def using run by simp
  have up: "sorted_wrt (<) (?c # vs)" and last: "confirmed_by (ledger_map (final ledger_step l es)) (p, s, kd) = last (?c # vs)"
    using spec_newest [where k = "(p, s, kd)" and room = "ld_capacity l" and m = "ledger_map l" and es = es, folded vs start] run unfolding Let_def by auto
  have top: "x \<le> last xs" if "x \<in> set xs" "sorted_wrt (<) xs" for x and xs :: "u64 list"
    using that by (induction xs) (auto dest: less_imp_le)
  have "last (?c # vs) < current \<longleftrightarrow> (\<forall>v \<in> set (?c # vs). v < current)"
  proof
    assume "last (?c # vs) < current"
    then show "\<forall>v \<in> set (?c # vs). v < current" using top [OF _ up] by (blast intro: le_less_trans)
  next
    assume "\<forall>v \<in> set (?c # vs). v < current"
    then show "last (?c # vs) < current" using last_in_set [of "?c # vs"] by blast
  qed
  then show ?thesis using run up last stop unfolding fzn_ledger_behind_def by simp
qed

definition demo_ledger :: fzn_ledger where
  "demo_ledger = \<lparr>ld_entries = Some (replicate 1 zero_ledger_entry), ld_capacity = 1, ld_used = 0\<rparr>"

theorem ledger_newest_witness:
  "ledger_wf demo_ledger \<and>
   fzn_ledger_confirmed (Some (final ledger_step demo_ledger [(([1], [2], 3), 5), (([1], [2], 3), 4), (([1], [2], 3), 9), (([7], [2], 3), 1)])) (Some [1]) (Some [2]) 3 = 9"
proof -
  have wf: "ledger_wf demo_ledger" by (simp add: demo_ledger_def ledger_wf_def ledger_rows_def)
  have "List.map_filter (taken ([1], [2], 3)) (trace ledger_step demo_ledger [(([1], [2], 3), 5), (([1], [2], 3), 4), (([1], [2], 3), 9), (([7], [2], 3), 1)]) = [5, 9]"
    by code_simp
  with ledger_newest [OF wf, where p = "[1]" and s = "[2]" and kd = 3 and es = "[(([1], [2], 3), 5), (([1], [2], 3), 4), (([1], [2], 3), 9), (([7], [2], 3), 1)]" and current = 0] wf
  show ?thesis by (simp del: run.simps)
qed

end
