(* ===== verification/Record_Tree.thy ===== *)
theory Record_Tree
  imports Signed_Record "HOL-Library.While_Combinator"
begin

text \<open>
  Trees of records (\<open>tree/tree.c\<close>): a record's body names its parent and its place among its siblings.
  Shown are that a body reads back as it was written, that a key between two others can be found while there
  is one, that the children of a node come in one order whatever order the nodes are stored in, and that
  the marking of what hangs on the root ends with exactly the nodes that do.
\<close>

unbundle bit_operations_syntax

section \<open>The model\<close>

datatype fzn_tree_err = FZN_TREE_OK | FZN_TREE_ERR_SHORT_BODY | FZN_TREE_ERR_CONTENT_LEN | FZN_TREE_ERR_NULL | FZN_TREE_ERR_CAPACITY
  | FZN_TREE_ERR_RANGE | FZN_TREE_ERR_CLOSED | FZN_TREE_ORDER_EXHAUSTED

abbreviation FZN_TREE_ID_LEN :: nat where "FZN_TREE_ID_LEN \<equiv> 32"
abbreviation FZN_TREE_BODY_HEADER_LEN :: nat where "FZN_TREE_BODY_HEADER_LEN \<equiv> 42"
abbreviation FZN_TREE_CONTENT_MAX :: nat where "FZN_TREE_CONTENT_MAX \<equiv> 470"

record fzn_tree_node =
  tn_id :: bytes
  tn_parent :: bytes
  tn_content :: bytes
  tn_content_len :: nat
  tn_order :: u64
  tn_content_type :: u16

record fzn_tree_walk =
  tw_emitted :: nat
  tw_examined :: nat
  tw_truncated :: bool

definition fzn_tree_is_root :: "bytes option \<Rightarrow> bool" where
  "fzn_tree_is_root nid = (case nid of None \<Rightarrow> False | Some b \<Rightarrow> list_all (\<lambda>i. b ! i = 0) [0..<FZN_TREE_ID_LEN])"

definition fzn_tree_open :: "bytes option \<Rightarrow> fzn_tree_err \<times> fzn_tree_node option" where
  "fzn_tree_open record =
     (if \<not> fzn_record_is_open record then (FZN_TREE_ERR_CLOSED, None)
      else let r = the record; body_len = fzn_record_body_len r in
        if body_len < FZN_TREE_BODY_HEADER_LEN then (FZN_TREE_ERR_SHORT_BODY, None)
        else let body = fzn_record_body r in
          (FZN_TREE_OK, Some \<lparr>tn_id = fzn_record_subject r, tn_parent = bytes_at 0 FZN_TREE_ID_LEN body,
             tn_content = bytes_at 42 (body_len - FZN_TREE_BODY_HEADER_LEN) body, tn_content_len = body_len - FZN_TREE_BODY_HEADER_LEN,
             tn_order = fzn_get_be64 (bytes_at 32 8 body), tn_content_type = fzn_get_be16 (bytes_at 40 2 body)\<rparr>))"

definition fzn_tree_body :: "bytes option \<Rightarrow> u64 \<Rightarrow> u16 \<Rightarrow> bytes option \<Rightarrow> nat \<Rightarrow> bytes option \<Rightarrow> nat \<Rightarrow> fzn_tree_err \<times> bytes option \<times> nat option" where
  "fzn_tree_body parent order content_type content content_len out out_cap =
     (if parent = None \<or> out = None then (FZN_TREE_ERR_NULL, out, None)
      else if content = None \<and> content_len \<noteq> 0 then (FZN_TREE_ERR_NULL, out, None)
      else if content_len > FZN_TREE_CONTENT_MAX then (FZN_TREE_ERR_CONTENT_LEN, out, None)
      else let need = FZN_TREE_BODY_HEADER_LEN + content_len in
        if out_cap < need then (FZN_TREE_ERR_CAPACITY, out, None)
        else (FZN_TREE_OK,
          Some (put_at 0 (the parent @ fzn_put_be64 order @ fzn_put_be16 content_type @ (if content_len \<noteq> 0 then take content_len (the content) else [])) (the out)),
          Some need))"

text \<open>The second component is what was written, which an exhausted gap also has.\<close>

definition fzn_tree_order_between :: "u64 \<Rightarrow> u64 \<Rightarrow> fzn_tree_err \<times> u64 option" where
  "fzn_tree_order_between lo hi =
     (if lo > hi then (FZN_TREE_ERR_RANGE, None)
      else let out = lo + (hi - lo) div 2 in
        if out = lo then (FZN_TREE_ORDER_EXHAUSTED, Some out) else (FZN_TREE_OK, Some out))"

definition fzn_tree_cmp :: "fzn_tree_node \<Rightarrow> fzn_tree_node \<Rightarrow> int" where
  "fzn_tree_cmp a b =
     (if tn_order a < tn_order b then - 1 else if tn_order a > tn_order b then 1 else memcmp (tn_id a) (tn_id b))"

text \<open>Pointers into the array of nodes are indices.\<close>

definition child_cmp :: "fzn_tree_node list \<Rightarrow> nat \<Rightarrow> nat \<Rightarrow> int" where
  "child_cmp nodes x y =
     (let cmp = fzn_tree_cmp (nodes ! x) (nodes ! y) in
      if cmp \<noteq> 0 then cmp else (if x > y then 1 else 0) - (if x < y then 1 else 0))"

text \<open>The library's \<open>qsort\<close>, by insertion: with a comparison that never ties there is one result.\<close>

fun insert_by :: "('a \<Rightarrow> 'a \<Rightarrow> int) \<Rightarrow> 'a \<Rightarrow> 'a list \<Rightarrow> 'a list" where
  "insert_by cmp x [] = [x]"
| "insert_by cmp x (y # ys) = (if cmp x y \<le> 0 then x # y # ys else y # insert_by cmp x ys)"

definition qsort :: "('a \<Rightarrow> 'a \<Rightarrow> int) \<Rightarrow> 'a list \<Rightarrow> 'a list" where
  "qsort cmp xs = foldr (insert_by cmp) xs []"

definition gather_child :: "fzn_tree_node list \<Rightarrow> bytes \<Rightarrow> nat \<Rightarrow> nat \<Rightarrow> nat list \<times> bool \<Rightarrow> nat list \<times> bool" where
  "gather_child nodes parent out_cap i = (\<lambda>(out, truncated).
     if tn_parent (nodes ! i) \<noteq> parent then (out, truncated)
     else if length out = out_cap then (out, True)
     else (out @ [i], truncated))"

definition fzn_tree_children :: "fzn_tree_node list option \<Rightarrow> nat \<Rightarrow> bytes option \<Rightarrow> nat \<Rightarrow> fzn_tree_err \<times> nat list \<times> fzn_tree_walk option" where
  "fzn_tree_children nodes node_count parent out_cap =
     (if parent = None then (FZN_TREE_ERR_NULL, [], None)
      else if nodes = None \<and> node_count \<noteq> 0 then (FZN_TREE_ERR_NULL, [], None)
      else let ns = (case nodes of None \<Rightarrow> [] | Some ns \<Rightarrow> ns);
               (out, truncated) = fold (gather_child ns (the parent) out_cap) [0..<node_count] ([], False)
           in (FZN_TREE_OK, if length out > 1 then qsort (child_cmp ns) out else out,
               Some \<lparr>tw_emitted = length out, tw_examined = node_count, tw_truncated = truncated\<rparr>))"

text \<open>Marking: one node, one pass over all nodes, and passes until one of them marks nothing.\<close>

definition mark_node :: "fzn_tree_node list \<Rightarrow> nat \<Rightarrow> nat \<Rightarrow> bytes \<times> bool \<times> nat \<Rightarrow> bytes \<times> bool \<times> nat" where
  "mark_node nodes node_count i = (\<lambda>(mark, changed, examined).
     if mark ! i \<noteq> 0 then (mark, changed, examined)
     else if fzn_tree_is_root (Some (tn_parent (nodes ! i))) then (mark[i := 1], True, examined + 1)
     else if list_ex (\<lambda>j. mark ! j \<noteq> 0 \<and> tn_id (nodes ! j) = tn_parent (nodes ! i)) [0..<node_count] then (mark[i := 1], True, examined + 1)
     else (mark, changed, examined + 1))"

definition mark_pass :: "fzn_tree_node list \<Rightarrow> nat \<Rightarrow> bytes \<Rightarrow> nat \<Rightarrow> bytes \<times> bool \<times> nat" where
  "mark_pass nodes node_count mark examined = fold (mark_node nodes node_count) [0..<node_count] (mark, False, examined)"

definition mark_loop :: "fzn_tree_node list \<Rightarrow> nat \<Rightarrow> bytes \<Rightarrow> (bytes \<times> bool \<times> nat) option" where
  "mark_loop nodes node_count mark =
     while_option (\<lambda>(mark, changed, examined). changed) (\<lambda>(mark, changed, examined). mark_pass nodes node_count mark examined) (mark_pass nodes node_count mark 0)"

text \<open>\<open>None\<close> would be a call that never returns.\<close>

definition fzn_tree_reachable :: "fzn_tree_node list option \<Rightarrow> nat \<Rightarrow> bytes option \<Rightarrow> nat \<Rightarrow>
    (fzn_tree_err \<times> bytes option \<times> fzn_tree_walk option) option" where
  "fzn_tree_reachable nodes node_count mark mark_cap =
     (if nodes = None \<and> node_count \<noteq> 0 then Some (FZN_TREE_ERR_NULL, mark, None)
      else if mark = None \<and> node_count \<noteq> 0 then Some (FZN_TREE_ERR_NULL, mark, None)
      else if mark_cap < node_count then Some (FZN_TREE_ERR_CAPACITY, mark, None)
      else let ns = (case nodes of None \<Rightarrow> [] | Some ns \<Rightarrow> ns); mk = (case mark of None \<Rightarrow> [] | Some m \<Rightarrow> m) in
        map_option (\<lambda>(mk, _, examined).
            (FZN_TREE_OK, map_option (\<lambda>_. mk) mark,
             Some \<lparr>tw_emitted = length (filter (\<lambda>i. mk ! i \<noteq> 0) [0..<node_count]), tw_examined = examined, tw_truncated = False\<rparr>))
          (mark_loop ns node_count (put_at 0 (replicate node_count 0) mk)))"

definition fzn_tree_err_str :: "fzn_tree_err \<Rightarrow> string" where
  "fzn_tree_err_str err =
     (case err of FZN_TREE_OK \<Rightarrow> ''ok'' | FZN_TREE_ERR_SHORT_BODY \<Rightarrow> ''body too short to hold a node''
      | FZN_TREE_ERR_CONTENT_LEN \<Rightarrow> ''content longer than a record body'' | FZN_TREE_ERR_NULL \<Rightarrow> ''null pointer''
      | FZN_TREE_ERR_CAPACITY \<Rightarrow> ''output buffer too small'' | FZN_TREE_ERR_RANGE \<Rightarrow> ''order neighbours are the wrong way round''
      | FZN_TREE_ERR_CLOSED \<Rightarrow> ''record is not open'' | FZN_TREE_ORDER_EXHAUSTED \<Rightarrow> ''no order key between these neighbours'')"

section \<open>What hangs on the root\<close>

inductive reaches_root :: "fzn_tree_node list \<Rightarrow> nat \<Rightarrow> bool" for ns where
  top: "i < length ns \<Longrightarrow> fzn_tree_is_root (Some (tn_parent (ns ! i))) \<Longrightarrow> reaches_root ns i"
| under: "i < length ns \<Longrightarrow> reaches_root ns j \<Longrightarrow> tn_id (ns ! j) = tn_parent (ns ! i) \<Longrightarrow> reaches_root ns i"

inductive_cases reaches_rootE: "reaches_root ns i"

definition marks_sound :: "fzn_tree_node list \<Rightarrow> bytes \<Rightarrow> bool" where
  "marks_sound ns mark \<longleftrightarrow> (\<forall>i < length ns. mark ! i \<noteq> 0 \<longrightarrow> reaches_root ns i)"

definition unmarked :: "nat \<Rightarrow> bytes \<Rightarrow> nat" where
  "unmarked n mark = length (filter (\<lambda>i. mark ! i = 0) [0..<n])"

definition addable :: "fzn_tree_node list \<Rightarrow> bytes \<Rightarrow> nat \<Rightarrow> bool" where
  "addable ns mark i \<longleftrightarrow> mark ! i = 0 \<and> (fzn_tree_is_root (Some (tn_parent (ns ! i))) \<or>
     (\<exists>j < length ns. mark ! j \<noteq> 0 \<and> tn_id (ns ! j) = tn_parent (ns ! i)))"

lemma mark_node_step:
  "mark_node ns (length ns) i (mark, changed, ex) =
     (if addable ns mark i then (mark[i := 1], True, ex + 1) else (mark, changed, if mark ! i \<noteq> 0 then ex else ex + 1))"
  by (auto simp: mark_node_def addable_def list_ex_iff)

lemma unmarked_set: "i < n \<Longrightarrow> n \<le> length mark \<Longrightarrow> mark ! i = 0 \<Longrightarrow> unmarked n (mark[i := 1]) < unmarked n mark"
proof -
  assume i: "i < n" "n \<le> length mark" "mark ! i = 0"
  have "{j. j < n \<and> mark[i := 1] ! j = 0} \<subset> {j. j < n \<and> mark ! j = 0}"
    using i by (auto simp: nth_list_update split: if_splits)
  then have "card {j. j < n \<and> mark[i := 1] ! j = 0} < card {j. j < n \<and> mark ! j = 0}" by (intro psubset_card_mono) auto
  then show ?thesis unfolding unmarked_def by (simp add: distinct_card [symmetric] conj_commute)
qed

lemma addable_sound: "marks_sound ns mark \<Longrightarrow> addable ns mark i \<Longrightarrow> i < length ns \<Longrightarrow> reaches_root ns i"
  by (auto simp: addable_def marks_sound_def intro: reaches_root.intros)

lemma pass_prefix:
  fixes ex :: nat
  assumes "length ns \<le> length mark" and "marks_sound ns mark" and "n \<le> length ns"
  defines "st \<equiv> fold (mark_node ns (length ns)) [0..<n] (mark, False, ex)"
  shows "length (fst st) = length mark \<and> drop (length ns) (fst st) = drop (length ns) mark \<and> marks_sound ns (fst st) \<and>
    (if fst (snd st) then unmarked (length ns) (fst st) < unmarked (length ns) mark else fst st = mark \<and> (\<forall>i < n. \<not> addable ns mark i))"
  using assms(3) unfolding st_def
proof (induction n)
  case (Suc n)
  obtain mk ch x where st: "fold (mark_node ns (length ns)) [0..<n] (mark, False, ex) = (mk, ch, x)"
    by (cases "fold (mark_node ns (length ns)) [0..<n] (mark, False, ex)")
  have loop: "fold (mark_node ns (length ns)) [0..<Suc n] (mark, False, ex) = mark_node ns (length ns) n (mk, ch, x)" using st by simp
  have IH: "length mk = length mark" "drop (length ns) mk = drop (length ns) mark" "marks_sound ns mk"
    "if ch then unmarked (length ns) mk < unmarked (length ns) mark else mk = mark \<and> (\<forall>i < n. \<not> addable ns mark i)"
    using Suc st by auto
  show ?case
  proof (cases "addable ns mk n")
    case True
    have n: "n < length ns" "mk ! n = 0" using Suc.prems True by (auto simp: addable_def)
    have "marks_sound ns (mk[n := 1])" using IH(3) addable_sound [OF IH(3) True n(1)] unfolding marks_sound_def by (metis nth_list_update_neq)
    moreover have "unmarked (length ns) (mk[n := 1]) < unmarked (length ns) mk" using n IH(1) assms(1) by (intro unmarked_set) auto
    ultimately show ?thesis unfolding loop mark_node_step using True IH n(1) by (auto split: if_splits)
  next
    case False
    then show ?thesis unfolding loop mark_node_step using IH by (auto simp: less_Suc_eq split: if_splits)
  qed
qed (simp add: assms(2))

lemma pass_cases:
  assumes "length ns \<le> length mark" and "marks_sound ns mark"
  obtains mk ch x where "mark_pass ns (length ns) mark ex = (mk, ch, x)" and "length mk = length mark"
    and "drop (length ns) mk = drop (length ns) mark" and "marks_sound ns mk"
    and "if ch then unmarked (length ns) mk < unmarked (length ns) mark else mk = mark \<and> (\<forall>i < length ns. \<not> addable ns mark i)"
proof -
  obtain mk ch x where p: "mark_pass ns (length ns) mark ex = (mk, ch, x)" by (cases "mark_pass ns (length ns) mark ex")
  show thesis using pass_prefix [OF assms order_refl, of ex, folded mark_pass_def] that [OF p] unfolding p fst_conv snd_conv by blast
qed

text \<open>When a pass marks nothing, everything that hangs on the root is marked.\<close>

lemma closed_complete:
  assumes "reaches_root ns i" and "\<forall>i < length ns. \<not> addable ns mark i"
  shows "mark ! i \<noteq> 0"
  using assms(1)
proof (induction rule: reaches_root.induct)
  case (top i)
  then show ?case using assms(2) by (auto simp: addable_def)
next
  case (under i j)
  moreover have "j < length ns" using under(2) by (rule reaches_rootE)
  ultimately show ?case using assms(2) unfolding addable_def by metis
qed

lemma loop_returns:
  assumes "length ns \<le> length mark" and "marks_sound ns mark"
  obtains mk ex where "mark_loop ns (length ns) mark = Some (mk, False, ex)" and "length mk = length mark"
    and "drop (length ns) mk = drop (length ns) mark" and "\<forall>i < length ns. mk ! i \<noteq> 0 \<longleftrightarrow> reaches_root ns i"
proof -
  let ?n = "length ns"
  let ?b = "\<lambda>(mk, changed, ex). changed" and ?c = "\<lambda>(mk, changed, ex). mark_pass ns ?n mk ex"
  define P where "P = (\<lambda>(mk, changed, ex :: nat). length mk = length mark \<and> drop ?n mk = drop ?n mark \<and> marks_sound ns mk \<and>
    (changed \<or> (\<forall>i < ?n. \<not> addable ns mk i)))"
  define f where "f = (\<lambda>(mk, changed, ex :: nat). 2 * unmarked ?n mk + (if changed then 1 else 0))"
  have pass: "P (mark_pass ns ?n mk ex) \<and> unmarked ?n (fst (mark_pass ns ?n mk ex)) \<le> unmarked ?n mk \<and>
      (unmarked ?n (fst (mark_pass ns ?n mk ex)) < unmarked ?n mk \<or> \<not> fst (snd (mark_pass ns ?n mk ex)))"
    if mk: "length mk = length mark" "drop ?n mk = drop ?n mark" "marks_sound ns mk" for mk ex
  proof -
    have "?n \<le> length mk" using assms(1) mk(1) by simp
    from pass_cases [OF this mk(3), of ex] obtain mk' ch x where p: "mark_pass ns ?n mk ex = (mk', ch, x)" "length mk' = length mk"
      "drop ?n mk' = drop ?n mk" "marks_sound ns mk'"
      "if ch then unmarked ?n mk' < unmarked ?n mk else mk' = mk \<and> (\<forall>i < ?n. \<not> addable ns mk i)" by blast
    then show ?thesis using mk by (cases ch) (simp_all add: P_def)
  qed
  have step: "P (?c s)" "f (?c s) < f s" if ps: "P s" and bs: "?b s" for s
  proof -
    obtain mk ex where s: "s = (mk, True, ex)" using bs by (cases s) auto
    obtain mk' ch x where c: "mark_pass ns ?n mk ex = (mk', ch, x)" by (cases "mark_pass ns ?n mk ex")
    have "P (mk', ch, x)" "unmarked ?n mk' \<le> unmarked ?n mk" "unmarked ?n mk' < unmarked ?n mk \<or> \<not> ch"
      using pass [of mk ex] ps unfolding s c by (simp_all add: P_def)
    then show "P (?c s)" "f (?c s) < f s" unfolding s prod.case c by (auto simp: f_def)
  qed
  have start: "P (mark_pass ns ?n mark 0)" using pass [of mark 0] assms(2) by simp
  have "\<exists>t. while_option ?b ?c (mark_pass ns ?n mark 0) = Some t"
    by (rule measure_while_option_Some [where P = P and f = f, OF _ start]) (intro conjI step; assumption)
  then obtain mk ch ex where t: "mark_loop ns ?n mark = Some (mk, ch, ex)" by (auto simp: mark_loop_def)
  have "P (mk, ch, ex)" by (rule while_option_rule [where P = P, OF _ t [unfolded mark_loop_def] start]) (rule step(1))
  moreover have "\<not> ch" using while_option_stop [OF t [unfolded mark_loop_def]] by simp
  ultimately have "length mk = length mark" "drop ?n mk = drop ?n mark" "marks_sound ns mk" "\<forall>i < ?n. \<not> addable ns mk i" "ch = False"
    by (auto simp: P_def)
  then show thesis using closed_complete [of ns _ mk] t by (intro that [of mk ex]) (auto simp: marks_sound_def)
qed

text \<open>
  C24. Marking what hangs on the root ends, and it is right: for nodes in any order, with cycles, orphans and
  repeated names among them, the call returns and marks exactly the nodes from which parents lead to
  the root; it counts them and leaves the rest of the caller's buffer alone.
\<close>

theorem reachable_marks_tree:
  assumes "length ns \<le> mark_cap" and "length mark = mark_cap"
  shows "\<exists>mk walk. fzn_tree_reachable (Some ns) (length ns) (Some mark) mark_cap = Some (FZN_TREE_OK, Some mk, Some walk) \<and>
    (\<forall>i < length ns. mk ! i \<noteq> 0 \<longleftrightarrow> reaches_root ns i) \<and> drop (length ns) mk = drop (length ns) mark \<and> length mk = mark_cap \<and>
    tw_emitted walk = card {i. reaches_root ns i}"
proof -
  let ?z = "put_at 0 (replicate (length ns) 0) mark"
  have z: "length ?z = mark_cap" "drop (length ns) ?z = drop (length ns) mark" using assms by (simp_all add: put_at_def)
  have "marks_sound ns ?z" by (simp add: marks_sound_def put_at_def nth_append)
  then obtain mk ex where mk: "mark_loop ns (length ns) ?z = Some (mk, False, ex)" "length mk = length ?z" "drop (length ns) mk = drop (length ns) ?z"
    "\<forall>i < length ns. mk ! i \<noteq> 0 \<longleftrightarrow> reaches_root ns i"
    using loop_returns [of ns ?z] assms(1) z(1) by metis
  have "{i. reaches_root ns i} = set (filter (\<lambda>i. mk ! i \<noteq> 0) [0..<length ns])"
    using mk(4) by (auto elim: reaches_rootE)
  then have "card {i. reaches_root ns i} = length (filter (\<lambda>i. mk ! i \<noteq> 0) [0..<length ns])" by (simp add: distinct_card del: set_filter)
  then show ?thesis using mk z assms(1) by (simp add: fzn_tree_reachable_def)
qed

section \<open>Places among siblings\<close>

text \<open>
  A place between two siblings: in the right order, the key found lies strictly between its neighbours,
  with no wrap-around at any distance, exactly when there is such a key; else it is the lower
  neighbour's and the answer says that the gap is exhausted.
\<close>

theorem order_between:
  "fzn_tree_order_between lo hi =
    (if hi < lo then (FZN_TREE_ERR_RANGE, None)
     else if unat hi \<le> unat lo + 1 then (FZN_TREE_ORDER_EXHAUSTED, Some lo)
     else (FZN_TREE_OK, Some (of_nat ((unat lo + unat hi) div 2)))) \<and>
   (\<forall>k. fzn_tree_order_between lo hi = (FZN_TREE_OK, Some k) \<longrightarrow> lo < k \<and> k < hi)"
proof (cases "hi < lo")
  case True
  then show ?thesis by (simp add: fzn_tree_order_between_def)
next
  case False
  let ?k = "lo + (hi - lo) div 2"
  have le: "unat lo \<le> unat hi" using False by (simp add: word_le_nat_alt not_less)
  have top: "unat hi < 2 ^ 64" using unsigned_less [of hi] by simp
  have half: "unat ((hi - lo) div 2) = (unat hi - unat lo) div 2" using False by (simp add: unat_div unat_sub not_less)
  have "unat lo + (unat hi - unat lo) div 2 < 2 ^ 64" using le top by linarith
  then have k: "unat ?k = unat lo + (unat hi - unat lo) div 2" using unat_add_lem [of lo "(hi - lo) div 2"] half by simp
  also have "\<dots> = (unat lo + unat hi) div 2" using le by linarith
  finally have mid: "unat ?k = (unat lo + unat hi) div 2" .
  have stuck: "?k = lo \<longleftrightarrow> unat hi \<le> unat lo + 1" unfolding word_unat_eq_iff k using le by linarith
  have "?k = of_nat ((unat lo + unat hi) div 2)" using arg_cong [OF mid, of "of_nat :: nat \<Rightarrow> u64"] by simp
  moreover have "lo < ?k \<and> ?k < hi" if "\<not> unat hi \<le> unat lo + 1" unfolding word_less_nat_alt mid using that by linarith
  ultimately show ?thesis using False stuck by (auto simp: fzn_tree_order_between_def Let_def)
qed

lemma set_insert_by: "set (insert_by cmp x xs) = insert x (set xs)"
  by (induction xs) auto

lemma set_qsort: "set (qsort cmp xs) = set xs"
  unfolding qsort_def by (induction xs) (auto simp: set_insert_by)

lemma insert_by_sorted:
  assumes "\<And>a b. a \<in> S \<Longrightarrow> b \<in> S \<Longrightarrow> cmp a b \<le> 0 \<or> cmp b a \<le> 0"
    and "\<And>a b c. a \<in> S \<Longrightarrow> b \<in> S \<Longrightarrow> c \<in> S \<Longrightarrow> cmp a b \<le> 0 \<Longrightarrow> cmp b c \<le> 0 \<Longrightarrow> cmp a c \<le> 0"
    and "x \<in> S" and "set xs \<subseteq> S" and "sorted_wrt (\<lambda>a b. cmp a b \<le> 0) xs"
  shows "sorted_wrt (\<lambda>a b. cmp a b \<le> 0) (insert_by cmp x xs)"
  using assms(4,5)
proof (induction xs)
  case (Cons y ys)
  show ?case
  proof (cases "cmp x y \<le> 0")
    case True
    then show ?thesis using Cons.prems assms(2) [OF assms(3)] by auto
  next
    case False
    then have "cmp y x \<le> 0" using assms(1) [OF assms(3), of y] Cons.prems(1) by auto
    then show ?thesis using False Cons by (auto simp: set_insert_by)
  qed
qed simp

lemma qsort_sorted:
  assumes "\<And>a b. a \<in> S \<Longrightarrow> b \<in> S \<Longrightarrow> cmp a b \<le> 0 \<or> cmp b a \<le> 0"
    and "\<And>a b c. a \<in> S \<Longrightarrow> b \<in> S \<Longrightarrow> c \<in> S \<Longrightarrow> cmp a b \<le> 0 \<Longrightarrow> cmp b c \<le> 0 \<Longrightarrow> cmp a c \<le> 0"
    and "set xs \<subseteq> S"
  shows "sorted_wrt (\<lambda>a b. cmp a b \<le> 0) (qsort cmp xs)"
  using assms(3)
proof (induction xs)
  case (Cons x xs)
  then show ?case using set_qsort [of cmp xs] insert_by_sorted [of S cmp x "qsort cmp xs", OF assms(1,2)] by (auto simp: qsort_def)
qed (simp add: qsort_def)

lemma length_qsort: "length (qsort cmp xs) = length xs"
proof -
  have "length (insert_by cmp x ys) = Suc (length ys)" for x ys by (induction ys) auto
  then show ?thesis unfolding qsort_def by (induction xs) auto
qed

lemma distinct_qsort: "distinct xs \<Longrightarrow> distinct (qsort cmp xs)"
  by (metis card_distinct distinct_card length_qsort set_qsort)

text \<open>Strictly sorted lists of one set are equal.\<close>

lemma strictly_sorted_unique:
  assumes asym: "\<And>a b. R a b \<Longrightarrow> \<not> R b a" and "sorted_wrt R xs" and "sorted_wrt R ys" and "set xs = set ys"
  shows "xs = ys"
  using assms(2-4)
proof (induction xs arbitrary: ys)
  case (Cons x xs)
  then have "x \<in> set ys" by auto
  then obtain y ys' where ys: "ys = y # ys'" by (cases ys) simp_all
  have below: "\<forall>z \<in> set xs. R x z" "\<forall>z \<in> set ys'. R y z" and same: "insert x (set xs) = insert y (set ys')" using Cons.prems unfolding ys by simp_all
  have "x = y"
  proof (rule ccontr)
    assume "x \<noteq> y"
    moreover have "x \<in> insert y (set ys')" "y \<in> insert x (set xs)" using same by blast+
    ultimately have "R y x" "R x y" using below by auto
    then show False using asym by blast
  qed
  have "x \<notin> set xs" "y \<notin> set ys'" using below asym by blast+
  then have "set xs = set ys'" using same \<open>x = y\<close> by (simp add: insert_ident)
  then show ?case using Cons.IH [of ys'] Cons.prems(1,2) \<open>x = y\<close> unfolding ys by simp
qed simp

lemma gather_spec:
  "fold (gather_child ns p cap) [0..<n] ([], False) =
     (take cap (filter (\<lambda>i. tn_parent (ns ! i) = p) [0..<n]), cap < length (filter (\<lambda>i. tn_parent (ns ! i) = p) [0..<n]))"
  by (induction n) (auto simp: gather_child_def)

definition sibling_less :: "fzn_tree_node \<Rightarrow> fzn_tree_node \<Rightarrow> bool" where
  "sibling_less a b \<longleftrightarrow> fzn_tree_cmp a b < 0"

lemma sibling_less_asym: "sibling_less a b \<Longrightarrow> \<not> sibling_less b a"
  using memcmp_anti [of "tn_id b" "tn_id a"] by (auto simp: sibling_less_def fzn_tree_cmp_def split: if_splits)

lemma sibling_less_trans: "sibling_less a b \<Longrightarrow> sibling_less b c \<Longrightarrow> sibling_less a c"
  using memcmp_trans [of "tn_id a" "tn_id b" "tn_id c"] by (auto simp: sibling_less_def fzn_tree_cmp_def split: if_splits)

lemma sibling_total:
  assumes "length (tn_id a) = length (tn_id b)" and "(tn_order a, tn_id a) \<noteq> (tn_order b, tn_id b)"
  shows "sibling_less a b \<or> sibling_less b a"
  using assms memcmp_eq [OF assms(1)] memcmp_anti [of "tn_id b" "tn_id a"] by (auto simp: sibling_less_def fzn_tree_cmp_def)

definition tie_free :: "fzn_tree_node list \<Rightarrow> nat set \<Rightarrow> bool" where
  "tie_free ns S \<longleftrightarrow> (\<forall>i \<in> S. \<forall>j \<in> S. length (tn_id (ns ! i)) = length (tn_id (ns ! j)) \<and>
     (tn_order (ns ! i) = tn_order (ns ! j) \<and> tn_id (ns ! i) = tn_id (ns ! j) \<longrightarrow> i = j))"

lemma child_cmp_less:
  assumes "tie_free ns S" and "x \<in> S" and "y \<in> S"
  shows "child_cmp ns x y \<le> 0 \<longleftrightarrow> x = y \<or> sibling_less (ns ! x) (ns ! y)" and "x = y \<or> sibling_less (ns ! x) (ns ! y) \<or> sibling_less (ns ! y) (ns ! x)"
proof -
  have l: "length (tn_id (ns ! x)) = length (tn_id (ns ! y))" and apart: "x \<noteq> y \<Longrightarrow> (tn_order (ns ! x), tn_id (ns ! x)) \<noteq> (tn_order (ns ! y), tn_id (ns ! y))"
    using assms(1) [unfolded tie_free_def, rule_format, OF assms(2,3)] by blast+
  show "x = y \<or> sibling_less (ns ! x) (ns ! y) \<or> sibling_less (ns ! y) (ns ! x)" using sibling_total [OF l apart] by blast
  show "child_cmp ns x y \<le> 0 \<longleftrightarrow> x = y \<or> sibling_less (ns ! x) (ns ! y)"
  proof (cases "x = y")
    case True
    then show ?thesis using memcmp_eq [of "tn_id (ns ! y)" "tn_id (ns ! y)"] by (simp add: child_cmp_def fzn_tree_cmp_def)
  next
    case False
    have "fzn_tree_cmp (ns ! x) (ns ! y) \<noteq> 0" using apart [OF False] memcmp_eq [OF l] by (auto simp: fzn_tree_cmp_def)
    then show ?thesis using False by (auto simp: child_cmp_def sibling_less_def)
  qed
qed

lemma children_sorted:
  assumes "tie_free ns (set xs)" and "distinct xs"
  shows "sorted_wrt sibling_less (map ((!) ns) (qsort (child_cmp ns) xs))"
proof -
  let ?out = "qsort (child_cmp ns) xs"
  note less = child_cmp_less [OF assms(1)]
  have "sorted_wrt (\<lambda>x y. child_cmp ns x y \<le> 0) ?out"
  proof (rule qsort_sorted [where S = "set xs", OF _ _ order_refl])
    show "child_cmp ns a b \<le> 0 \<or> child_cmp ns b a \<le> 0" if "a \<in> set xs" "b \<in> set xs" for a b
      using less(1) [OF that] less(1) [OF that(2,1)] less(2) [OF that] by blast
    show "child_cmp ns a c \<le> 0" if "a \<in> set xs" "b \<in> set xs" "c \<in> set xs" "child_cmp ns a b \<le> 0" "child_cmp ns b c \<le> 0" for a b c
      using that(4,5) sibling_less_trans unfolding less(1) [OF that(1,2)] less(1) [OF that(2,3)] less(1) [OF that(1,3)] by blast
  qed
  then have step: "child_cmp ns (?out ! i) (?out ! j) \<le> 0" if "i < j" "j < length ?out" for i j
    using that by (simp add: sorted_wrt_iff_nth_less)
  have d: "distinct ?out" by (rule distinct_qsort [OF assms(2)])
  have "sibling_less (ns ! (?out ! i)) (ns ! (?out ! j))" if ij: "i < j" "j < length ?out" for i j
  proof -
    have "?out ! i \<noteq> ?out ! j" using nth_eq_iff_index_eq [OF d, of i j] ij by simp
    moreover have "?out ! i \<in> set xs" "?out ! j \<in> set xs" using nth_mem [of i ?out] nth_mem [of j ?out] ij unfolding set_qsort by simp_all
    ultimately show ?thesis using step [OF ij] less(1) by blast
  qed
  then show ?thesis by (simp add: sorted_wrt_iff_nth_less)
qed

lemma qsort_short: "\<not> length xs > 1 \<Longrightarrow> qsort cmp xs = xs"
  by (cases xs rule: list.exhaust [case_product list.exhaust [of "tl xs"]]) (auto simp: qsort_def)

lemma children_eq:
  assumes "length (filter (\<lambda>x. tn_parent x = p) ns) \<le> cap"
  defines "xs \<equiv> filter (\<lambda>i. tn_parent (ns ! i) = p) [0..<length ns]"
  shows "fzn_tree_children (Some ns) (length ns) (Some p) cap = (FZN_TREE_OK, qsort (child_cmp ns) xs,
      Some \<lparr>tw_emitted = length (filter (\<lambda>x. tn_parent x = p) ns), tw_examined = length ns, tw_truncated = False\<rparr>)"
proof -
  have "map ((!) ns) xs = filter (\<lambda>x. tn_parent x = p) ns" unfolding xs_def
    using filter_map [of "\<lambda>x. tn_parent x = p" "(!) ns" "[0..<length ns]"] by (simp add: map_nth comp_def)
  then have len: "length xs = length (filter (\<lambda>x. tn_parent x = p) ns)" by (metis length_map)
  then have g: "fold (gather_child ns p cap) [0..<length ns] ([], False) = (xs, False)"
    unfolding gather_spec xs_def [symmetric] using assms(1) by simp
  show ?thesis unfolding fzn_tree_children_def using qsort_short [of xs "child_cmp ns"] by (simp add: g len Let_def del: One_nat_def)
qed

lemma children_spec:
  assumes "\<forall>x \<in> set ns. length (tn_id x) = FZN_TREE_ID_LEN"
    and "\<forall>i < length ns. \<forall>j < length ns. tn_parent (ns ! i) = p \<and> tn_parent (ns ! j) = p \<and> tn_order (ns ! i) = tn_order (ns ! j) \<and> tn_id (ns ! i) = tn_id (ns ! j) \<longrightarrow> i = j"
    and "length (filter (\<lambda>x. tn_parent x = p) ns) \<le> cap"
  shows "\<exists>out. fzn_tree_children (Some ns) (length ns) (Some p) cap = (FZN_TREE_OK, out,
      Some \<lparr>tw_emitted = length (filter (\<lambda>x. tn_parent x = p) ns), tw_examined = length ns, tw_truncated = False\<rparr>) \<and>
    sorted_wrt sibling_less (map ((!) ns) out) \<and> set (map ((!) ns) out) = {x \<in> set ns. tn_parent x = p}"
proof (intro exI conjI, rule children_eq [OF assms(3)])
  let ?xs = "filter (\<lambda>i. tn_parent (ns ! i) = p) [0..<length ns]"
  have "tie_free ns (set ?xs)" unfolding tie_free_def
  proof (intro ballI)
    fix i j assume "i \<in> set ?xs" "j \<in> set ?xs"
    then show "length (tn_id (ns ! i)) = length (tn_id (ns ! j)) \<and> (tn_order (ns ! i) = tn_order (ns ! j) \<and> tn_id (ns ! i) = tn_id (ns ! j) \<longrightarrow> i = j)"
      using assms(1) assms(2) [rule_format, of i j] by simp
  qed
  then show "sorted_wrt sibling_less (map ((!) ns) (qsort (child_cmp ns) ?xs))" by (intro children_sorted) simp_all
  show "set (map ((!) ns) (qsort (child_cmp ns) ?xs)) = {x \<in> set ns. tn_parent x = p}"
    unfolding set_map set_qsort by (auto simp: in_set_conv_nth)
qed

text \<open>
  Siblings come in one order. With room for all of them and no two that share their key and their
  name, the children of a node are listed completely, in the order of their keys and then of
  their names, and the list is the same however the nodes are stored.
\<close>

theorem children_order_free:
  assumes "\<forall>x \<in> set ns. length (tn_id x) = FZN_TREE_ID_LEN" and "distinct ns'" and "distinct ns" and "set ns' = set ns"
    and "\<forall>x \<in> set ns. \<forall>y \<in> set ns. tn_parent x = p \<and> tn_parent y = p \<and> tn_order x = tn_order y \<and> tn_id x = tn_id y \<longrightarrow> x = y"
    and "length (filter (\<lambda>x. tn_parent x = p) ns) \<le> cap"
  shows "\<exists>out out' walk. fzn_tree_children (Some ns) (length ns) (Some p) cap = (FZN_TREE_OK, out, Some walk) \<and>
    fzn_tree_children (Some ns') (length ns') (Some p) cap = (FZN_TREE_OK, out', Some walk) \<and>
    map ((!) ns) out = map ((!) ns') out' \<and> \<not> tw_truncated walk \<and>
    sorted_wrt sibling_less (map ((!) ns) out) \<and> set (map ((!) ns) out) = {x \<in> set ns. tn_parent x = p}"
proof -
  have tie: "\<forall>i < length xs. \<forall>j < length xs. tn_parent (xs ! i) = p \<and> tn_parent (xs ! j) = p \<and> tn_order (xs ! i) = tn_order (xs ! j) \<and> tn_id (xs ! i) = tn_id (xs ! j) \<longrightarrow> i = j"
    if "distinct xs" "set xs = set ns" for xs
    using assms(5) that nth_eq_iff_index_eq [OF that(1)] nth_mem by (metis (no_types, lifting))
  have same: "length ns' = length ns" "length (filter (\<lambda>x. tn_parent x = p) ns') = length (filter (\<lambda>x. tn_parent x = p) ns)"
    using assms(2-4) by (metis distinct_card, metis distinct_card distinct_filter set_filter)
  obtain out where out: "fzn_tree_children (Some ns) (length ns) (Some p) cap = (FZN_TREE_OK, out,
      Some \<lparr>tw_emitted = length (filter (\<lambda>x. tn_parent x = p) ns), tw_examined = length ns, tw_truncated = False\<rparr>)"
    "sorted_wrt sibling_less (map ((!) ns) out)" "set (map ((!) ns) out) = {x \<in> set ns. tn_parent x = p}"
    using children_spec [OF assms(1) tie [OF assms(3) refl] assms(6)] by blast
  have "\<forall>x \<in> set ns'. length (tn_id x) = FZN_TREE_ID_LEN" "length (filter (\<lambda>x. tn_parent x = p) ns') \<le> cap" using assms(1,4,6) same by simp_all
  from children_spec [OF this(1) tie [OF assms(2,4)] this(2)] obtain out' where out': "fzn_tree_children (Some ns') (length ns') (Some p) cap = (FZN_TREE_OK, out',
      Some \<lparr>tw_emitted = length (filter (\<lambda>x. tn_parent x = p) ns), tw_examined = length ns, tw_truncated = False\<rparr>)"
    "sorted_wrt sibling_less (map ((!) ns') out')" "set (map ((!) ns') out') = {x \<in> set ns. tn_parent x = p}"
    unfolding same assms(4) by blast
  have "map ((!) ns) out = map ((!) ns') out'"
    by (rule strictly_sorted_unique [OF sibling_less_asym out(2) out'(2)]) (simp_all only: out(3) out'(3))
  then show ?thesis
    by (intro exI conjI) (rule out(1), rule out'(1), assumption, simp, rule out(2), rule out(3))
qed

section \<open>Bodies\<close>

text \<open>
  A node survives its record: a body that was laid out for a parent, a key, a type and a content, signed
  as the body of any record, opens to a node of the record's subject with exactly these, and a
  record too short for a node is refused.
\<close>

theorem tree_node_round_trip:
  assumes "length parent = FZN_TREE_ID_LEN" and "length out = out_cap"
    and "fzn_tree_body (Some parent) order ct (Some content) (length content) (Some out) out_cap = (FZN_TREE_OK, Some out', Some n)"
    and "length issuer = FZN_PUBKEY_LEN" and "length subject = FZN_SUBJECT_LEN" and "\<forall>p. prev = Some p \<longrightarrow> length p = FZN_RECORD_ID_LEN"
    and "length sig = FZN_SIG_LEN" and "seq \<noteq> 0" and "\<not> (seq = 1 \<and> prev \<noteq> None \<and> \<not> prev_is_zero (the prev))"
  shows "fzn_tree_open (Some (record_signed issuer subject stream kind seq prev issued_at (take n out') @ sig)) =
      (FZN_TREE_OK, Some \<lparr>tn_id = subject, tn_parent = parent, tn_content = content, tn_content_len = length content, tn_order = order, tn_content_type = ct\<rparr>) \<and>
    (m < FZN_TREE_BODY_HEADER_LEN \<longrightarrow>
      fzn_tree_open (Some (record_signed issuer subject stream kind seq prev issued_at (take m out') @ sig)) = (FZN_TREE_ERR_SHORT_BODY, None))"
proof -
  let ?b = "parent @ fzn_put_be64 order @ fzn_put_be16 ct @ content"
  have n: "n = FZN_TREE_BODY_HEADER_LEN + length content" "out' = put_at 0 ?b out" "length content \<le> FZN_TREE_CONTENT_MAX" "n \<le> out_cap"
    using assms(3) by (auto simp: fzn_tree_body_def Let_def split: if_splits)
  have lb: "length ?b = n" using n(1) assms(1) by simp
  have tb: "take n out' = ?b" unfolding n(2) by (rule take_put_front [OF lb])
  have max: "length (take k out') \<le> FZN_RECORD_BODY_MAX" if "k \<le> n" for k using that n(1,3) by simp
  have lo: "length out' = out_cap" unfolding n(2) using assms(2) n(4) lb by simp
  note f = record_fields [OF assms(4-6) max assms(7), of _ stream kind seq issued_at]
  note op = signed_is_open [OF assms(4-6) max assms(7,8,9), of _ stream kind issued_at]
  have "fzn_tree_open (Some (record_signed issuer subject stream kind seq prev issued_at (take n out') @ sig)) =
      (FZN_TREE_OK, Some \<lparr>tn_id = subject, tn_parent = parent, tn_content = content, tn_content_len = length content, tn_order = order, tn_content_type = ct\<rparr>)"
    using op [OF order_refl] f(2,8,9) [OF order_refl] assms(1) n(1) unfolding tb fzn_tree_open_def
    by (simp add: get_put_be64 get_put_be16)
  moreover have "fzn_tree_open (Some (record_signed issuer subject stream kind seq prev issued_at (take m out') @ sig)) = (FZN_TREE_ERR_SHORT_BODY, None)"
    if "m < FZN_TREE_BODY_HEADER_LEN"
  proof -
    have m: "m \<le> n" using that n(1) by simp
    have "length (take m out') < FZN_TREE_BODY_HEADER_LEN" using that by simp
    then show ?thesis using op [OF m] unfolding fzn_tree_open_def Let_def option.sel f(9) [OF m] by simp
  qed
  ultimately show ?thesis by blast
qed

definition demo_node :: "u8 \<Rightarrow> u8 \<Rightarrow> u64 \<Rightarrow> fzn_tree_node" where
  "demo_node name par order = \<lparr>tn_id = replicate 32 name, tn_parent = replicate 32 par, tn_content = [], tn_content_len = 0, tn_order = order, tn_content_type = 0\<rparr>"

definition demo_tree :: "fzn_tree_node list" where
  "demo_tree = [demo_node 3 2 7, demo_node 2 0 9, demo_node 4 2 7, demo_node 5 6 1, demo_node 6 5 1, demo_node 7 2 1]"

theorem reachable_marks_tree_witness:
  "\<exists>mk walk. fzn_tree_reachable (Some demo_tree) (length demo_tree) (Some (replicate 8 9)) 8 = Some (FZN_TREE_OK, Some mk, Some walk) \<and>
    (\<forall>i < length demo_tree. mk ! i \<noteq> 0 \<longleftrightarrow> reaches_root demo_tree i) \<and> drop 6 mk = [9, 9]"
proof -
  have "length demo_tree = 6" by (simp add: demo_tree_def)
  then show ?thesis using reachable_marks_tree [of demo_tree 8 "replicate 8 9"] by (auto simp: numeral_eq_Suc)
qed

theorem tree_node_round_trip_witness:
  "\<exists>out'. fzn_tree_body (Some (replicate 32 1)) 5 6 (Some [7]) 1 (Some (replicate 50 0)) 50 = (FZN_TREE_OK, Some out', Some 43) \<and>
    fzn_tree_open (Some (record_signed (replicate 32 2) (replicate 32 3) 4 4 1 None 5 (take 43 out') @ replicate 64 7)) =
      (FZN_TREE_OK, Some \<lparr>tn_id = replicate 32 3, tn_parent = replicate 32 1, tn_content = [7], tn_content_len = 1, tn_order = 5, tn_content_type = 6\<rparr>)"
proof -
  let ?r = "fzn_tree_body (Some (replicate 32 1)) 5 6 (Some [7]) (length [7 :: u8]) (Some (replicate 50 0)) 50"
  have "fst ?r = FZN_TREE_OK \<and> fst (snd ?r) \<noteq> None \<and> snd (snd ?r) = Some 43" by code_simp
  then obtain out' where r: "?r = (FZN_TREE_OK, Some out', Some 43)" by (metis option.exhaust_sel prod.collapse)
  from tree_node_round_trip [OF _ _ r, of "replicate 32 2" "replicate 32 3" None "replicate 64 7" 1 4 4 5 0]
  have "fzn_tree_open (Some (record_signed (replicate 32 2) (replicate 32 3) 4 4 1 None 5 (take 43 out') @ replicate 64 7)) =
      (FZN_TREE_OK, Some \<lparr>tn_id = replicate 32 3, tn_parent = replicate 32 1, tn_content = [7], tn_content_len = 1, tn_order = 5, tn_content_type = 6\<rparr>)"
    by simp
  with r show ?thesis by (intro exI [of _ out']) simp
qed

theorem children_order_free_witness:
  "\<exists>out out' walk. fzn_tree_children (Some demo_tree) (length demo_tree) (Some (replicate 32 2)) 3 = (FZN_TREE_OK, out, Some walk) \<and>
    fzn_tree_children (Some (rev demo_tree)) (length (rev demo_tree)) (Some (replicate 32 2)) 3 = (FZN_TREE_OK, out', Some walk) \<and>
    map ((!) demo_tree) out = map ((!) (rev demo_tree)) out'"
proof -
  have a: "distinct demo_tree \<and> length (filter (\<lambda>x. tn_parent x = replicate 32 2) demo_tree) \<le> 3 \<and>
      (\<forall>x \<in> set demo_tree. length (tn_id x) = FZN_TREE_ID_LEN) \<and>
      (\<forall>x \<in> set demo_tree. \<forall>y \<in> set demo_tree. tn_parent x = replicate 32 2 \<and> tn_parent y = replicate 32 2 \<and> tn_order x = tn_order y \<and> tn_id x = tn_id y \<longrightarrow> x = y)"
    by code_simp
  then have "distinct (rev demo_tree)" "set (rev demo_tree) = set demo_tree" by simp_all
  from children_order_free [OF _ this(1) _ this(2), of "replicate 32 2" 3] a show ?thesis by blast
qed

theorem order_between_witness:
  "fzn_tree_order_between 4 9 = (FZN_TREE_OK, Some 6) \<and> (4 :: u64) < 6 \<and> (6 :: u64) < 9"
proof -
  have "fzn_tree_order_between 4 9 = (FZN_TREE_OK, Some 6)" by code_simp
  then show ?thesis using order_between [of 4 9] by blast
qed

end
