(* ===== verification/Trust.thy ===== *)
theory Trust
  imports Chain_Hop Wire_Bytes
begin

text \<open>
  The anchor of trust (\<open>trust/trust.c\<close>): the one root a host answers to and where it came from. Shown are the
  moves of the anchor as a step relation that the operations implement exactly, that an anchor records the call it came from,
  that a pinned or adopted root stays for ever, and that a fingerprint tells keys apart.
\<close>

unbundle bit_operations_syntax

section \<open>The model\<close>

datatype fzn_trust_err = FZN_TRUST_OK | FZN_TRUST_ERR_MALFORMED | FZN_TRUST_ERR_ANCHORED | FZN_TRUST_ERR_UNCHANGED

datatype fzn_trust_source = FZN_TRUST_NONE | FZN_TRUST_PINNED | FZN_TRUST_ADOPTED | FZN_TRUST_SELF

abbreviation FZN_TRUST_FINGERPRINT_LEN :: nat where "FZN_TRUST_FINGERPRINT_LEN \<equiv> 80"

record fzn_trust =
  tr_root :: key
  tr_adopted_at :: u64
  tr_source :: fzn_trust_source

definition fzn_trust_init :: "fzn_trust option \<Rightarrow> fzn_trust option" where
  "fzn_trust_init trust =
     (case trust of None \<Rightarrow> None
      | Some _ \<Rightarrow> Some \<lparr>tr_root = replicate FZN_PUBKEY_LEN 0, tr_adopted_at = 0, tr_source = FZN_TRUST_NONE\<rparr>)"

definition anchor :: "fzn_trust option \<Rightarrow> key option \<Rightarrow> fzn_trust_source \<Rightarrow> u64 \<Rightarrow> fzn_trust_err \<times> fzn_trust option" where
  "anchor trust root source now =
     (if trust = None \<or> root = None then (FZN_TRUST_ERR_MALFORMED, trust)
      else let t = the trust; r = the root in
        if fold (\<lambda>i any. any OR r ! i) [0..<FZN_PUBKEY_LEN] 0 = 0 then (FZN_TRUST_ERR_MALFORMED, trust)
        else if tr_source t \<noteq> FZN_TRUST_NONE \<and> tr_root t = r then (FZN_TRUST_ERR_UNCHANGED, trust)
        else if tr_source t \<noteq> FZN_TRUST_NONE \<and> \<not> (tr_source t = FZN_TRUST_SELF \<and> source = FZN_TRUST_PINNED) then (FZN_TRUST_ERR_ANCHORED, trust)
        else (FZN_TRUST_OK, Some (t\<lparr>tr_root := r, tr_source := source, tr_adopted_at := (if source = FZN_TRUST_ADOPTED then now else 0)\<rparr>)))"

definition fzn_trust_pin :: "fzn_trust option \<Rightarrow> key option \<Rightarrow> fzn_trust_err \<times> fzn_trust option" where
  "fzn_trust_pin trust root = anchor trust root FZN_TRUST_PINNED 0"

definition fzn_trust_adopt :: "fzn_trust option \<Rightarrow> key option \<Rightarrow> u64 \<Rightarrow> fzn_trust_err \<times> fzn_trust option" where
  "fzn_trust_adopt trust root now = anchor trust root FZN_TRUST_ADOPTED now"

definition fzn_trust_self :: "fzn_trust option \<Rightarrow> key option \<Rightarrow> fzn_trust_err \<times> fzn_trust option" where
  "fzn_trust_self trust own = anchor trust own FZN_TRUST_SELF 0"

definition fzn_trust_root :: "fzn_trust option \<Rightarrow> key option" where
  "fzn_trust_root trust = (if trust = None \<or> tr_source (the trust) = FZN_TRUST_NONE then None else Some (tr_root (the trust)))"

definition fzn_trust_source_of :: "fzn_trust option \<Rightarrow> fzn_trust_source" where
  "fzn_trust_source_of trust = (case trust of Some t \<Rightarrow> tr_source t | None \<Rightarrow> FZN_TRUST_NONE)"

definition fzn_trust_adopted_at :: "fzn_trust option \<Rightarrow> u64" where
  "fzn_trust_adopted_at trust = (case trust of Some t \<Rightarrow> tr_adopted_at t | None \<Rightarrow> 0)"

definition fzn_trust_err_str :: "fzn_trust_err \<Rightarrow> string" where
  "fzn_trust_err_str err =
     (case err of FZN_TRUST_OK \<Rightarrow> ''ok'' | FZN_TRUST_ERR_MALFORMED \<Rightarrow> ''malformed argument''
      | FZN_TRUST_ERR_ANCHORED \<Rightarrow> ''already anchored to a different root'' | FZN_TRUST_ERR_UNCHANGED \<Rightarrow> ''already anchored to this root'')"

definition fzn_trust_source_str :: "fzn_trust_source \<Rightarrow> string" where
  "fzn_trust_source_str source =
     (case source of FZN_TRUST_NONE \<Rightarrow> ''no anchor'' | FZN_TRUST_PINNED \<Rightarrow> ''configured out of band''
      | FZN_TRUST_ADOPTED \<Rightarrow> ''adopted on first contact'' | FZN_TRUST_SELF \<Rightarrow> ''this node'' @ [CHR 0x27] @ ''s own key'')"

text \<open>The fingerprint as a string, its terminating zero left out: \<open>cap\<close> must have room for both.\<close>

definition hex_digit :: "u8 \<Rightarrow> char" where
  "hex_digit d = ''0123456789abcdef'' ! unat d"

definition print_byte :: "key \<Rightarrow> nat \<Rightarrow> string \<Rightarrow> string" where
  "print_byte k i out = out @ (if i \<noteq> 0 \<and> i mod 2 = 0 then '' '' else []) @ [hex_digit (drop_bit 4 (k ! i)), hex_digit (k ! i AND 0x0f)]"

definition fzn_trust_fingerprint :: "key option \<Rightarrow> nat \<Rightarrow> fzn_trust_err \<times> string option" where
  "fzn_trust_fingerprint k cap =
     (if k = None then (FZN_TRUST_ERR_MALFORMED, None)
      else if cap < FZN_TRUST_FINGERPRINT_LEN then (FZN_TRUST_ERR_MALFORMED, None)
      else (FZN_TRUST_OK, Some (fold (print_byte (the k)) [0..<FZN_PUBKEY_LEN] [])))"

section \<open>The moves of an anchor\<close>

datatype trust_event = Pin key | Adopt key u64 | Self_root key

fun trust_step :: "fzn_trust \<Rightarrow> trust_event \<Rightarrow> fzn_trust_err \<times> fzn_trust" where
  "trust_step t (Pin r) = apsnd the (fzn_trust_pin (Some t) (Some r))"
| "trust_step t (Adopt r now) = apsnd the (fzn_trust_adopt (Some t) (Some r) now)"
| "trust_step t (Self_root r) = apsnd the (fzn_trust_self (Some t) (Some r))"

text \<open>What a call stands for: the root it names, how that root was come by, and when.\<close>

fun event_root :: "trust_event \<Rightarrow> key" where
  "event_root (Pin r) = r" | "event_root (Adopt r _) = r" | "event_root (Self_root r) = r"

fun event_source :: "trust_event \<Rightarrow> fzn_trust_source" where
  "event_source (Pin _) = FZN_TRUST_PINNED" | "event_source (Adopt _ _) = FZN_TRUST_ADOPTED" | "event_source (Self_root _) = FZN_TRUST_SELF"

fun event_time :: "trust_event \<Rightarrow> u64" where
  "event_time (Pin _) = 0" | "event_time (Adopt _ now) = now" | "event_time (Self_root _) = 0"

definition anchored_by :: "trust_event \<Rightarrow> fzn_trust \<Rightarrow> bool" where
  "anchored_by ev t \<longleftrightarrow> tr_root t = event_root ev \<and> tr_source t = event_source ev \<and> tr_adopted_at t = event_time ev"

text \<open>
  The moves of a host: one without an anchor may take any root that is not zero; one that answers to
  itself may be pinned to another; nothing else moves. The anchor taken is the one of the call.
\<close>

inductive moves :: "trust_event \<Rightarrow> fzn_trust \<Rightarrow> fzn_trust \<Rightarrow> bool" where
  first: "tr_source t = FZN_TRUST_NONE \<Longrightarrow> event_root ev \<noteq> replicate FZN_PUBKEY_LEN 0 \<Longrightarrow> anchored_by ev t' \<Longrightarrow> moves ev t t'"
| pinned: "tr_source t = FZN_TRUST_SELF \<Longrightarrow> r \<noteq> replicate FZN_PUBKEY_LEN 0 \<Longrightarrow> r \<noteq> tr_root t \<Longrightarrow> anchored_by (Pin r) t' \<Longrightarrow> moves (Pin r) t t'"

inductive_cases movesE: "moves ev t t'"

lemma event_sourced [simp]: "event_source ev \<noteq> FZN_TRUST_NONE" "event_source ev \<noteq> FZN_TRUST_ADOPTED \<Longrightarrow> event_time ev = 0"
  and event_timed: "event_time ev \<noteq> 0 \<Longrightarrow> event_source ev = FZN_TRUST_ADOPTED"
  by (cases ev; simp)+

lemma trust_step_anchor: "trust_step t ev = apsnd the (anchor (Some t) (Some (event_root ev)) (event_source ev) (event_time ev))"
  by (cases ev) (simp_all add: fzn_trust_pin_def fzn_trust_adopt_def fzn_trust_self_def)

lemma root_nonzero: "length (r :: key) = FZN_PUBKEY_LEN \<Longrightarrow> fold (\<lambda>i any. any OR r ! i) [0..<FZN_PUBKEY_LEN] 0 = 0 \<longleftrightarrow> r = replicate FZN_PUBKEY_LEN 0"
  unfolding or_fold_zero by (simp add: list_eq_iff_nth_eq Ball_def del: upt_rec_numeral)

lemma trust_step_moves:
  assumes "length (event_root ev) = FZN_PUBKEY_LEN"
  shows "if fst (trust_step t ev) = FZN_TRUST_OK then moves ev t (snd (trust_step t ev)) else snd (trust_step t ev) = t \<and> (\<nexists>t'. moves ev t t')"
proof -
  have pin: "event_source ev = FZN_TRUST_PINNED \<longleftrightarrow> (\<exists>r. ev = Pin r)" by (cases ev) simp_all
  have time: "(if event_source ev = FZN_TRUST_ADOPTED then event_time ev else 0) = event_time ev" by simp
  show ?thesis
    unfolding trust_step_anchor anchor_def Let_def option.sel root_nonzero [OF assms] time pin
    by (auto simp: anchored_by_def intro: moves.intros elim!: movesE)
qed

abbreviation moved_by :: "trust_event list \<Rightarrow> fzn_trust \<Rightarrow> fzn_trust \<Rightarrow> bool" where
  "moved_by evs \<equiv> (\<lambda>t t'. \<exists>ev \<in> set evs. moves ev t t')\<^sup>*\<^sup>*"

lemma run_moves: "\<forall>ev \<in> set evs. length (event_root ev) = FZN_PUBKEY_LEN \<Longrightarrow> set evs \<subseteq> set all \<Longrightarrow> moved_by all t (final trust_step t evs)"
proof (induction evs arbitrary: t)
  case (Cons ev evs)
  have "moved_by all t (snd (trust_step t ev))" using trust_step_moves [of ev t] Cons.prems by (auto split: if_splits)
  then show ?case using Cons.IH [of "snd (trust_step t ev)"] Cons.prems by (simp add: split_beta)
qed simp

lemma anchored_stays: "moved_by evs t t' \<Longrightarrow> tr_source t \<in> {FZN_TRUST_PINNED, FZN_TRUST_ADOPTED} \<Longrightarrow> t' = t"
  by (induction rule: converse_rtranclp_induct) (auto elim: movesE)

lemma moved_anchored: "moved_by evs t t' \<Longrightarrow> t' = t \<or> (\<exists>ev \<in> set evs. anchored_by ev t' \<and> event_root ev \<noteq> replicate FZN_PUBKEY_LEN 0)"
  by (induction rule: rtranclp_induct) (auto elim!: movesE)

lemma settled: "moved_by evs t t' \<Longrightarrow> tr_source t = FZN_TRUST_SELF \<Longrightarrow>
  t' = t \<or> tr_source t' = FZN_TRUST_PINNED \<and> tr_root t' \<noteq> tr_root t"
proof (induction rule: rtranclp_induct)
  case (step y z)
  then show ?case by (auto simp: anchored_by_def elim!: movesE)
qed simp

text \<open>
  C23. An anchor holds, and says how it was come by. Whatever roots are pinned, adopted or taken as one's
  own, in any order: a call succeeds exactly when it is an allowed move, a call that succeeds leaves the host with the
  root it named, recorded as pinned, adopted or the host's own as the call was, with the time of an adoption and
  no time otherwise, and every other call leaves the host as it was; so after any calls the host is as it was or its anchor is
  the root, source and time of one of them. A host that was pinned or has adopted a root answers to that root for ever;
  one that answers to itself only ever changes by being pinned to another root; and a host that started
  without an anchor never has the zero key for its root, and reports a time of adoption only for a root it adopted.
\<close>

theorem anchor_holds:
  assumes "\<forall>ev \<in> set evs. length (event_root ev) = FZN_PUBKEY_LEN"
  shows "(\<forall>n < length evs. let here = final trust_step t (take n evs); there = snd (trust_step here (evs ! n)) in
      (fst (trust_step here (evs ! n)) = FZN_TRUST_OK \<longleftrightarrow> (\<exists>t'. moves (evs ! n) here t')) \<and>
      (if fst (trust_step here (evs ! n)) = FZN_TRUST_OK then moves (evs ! n) here there \<and> anchored_by (evs ! n) there else there = here)) \<and>
    (final trust_step t evs = t \<or> (\<exists>ev \<in> set evs. anchored_by ev (final trust_step t evs))) \<and>
    (tr_source t \<in> {FZN_TRUST_PINNED, FZN_TRUST_ADOPTED} \<longrightarrow> final trust_step t evs = t) \<and>
    (tr_source t = FZN_TRUST_SELF \<longrightarrow> final trust_step t evs = t \<or>
      tr_source (final trust_step t evs) = FZN_TRUST_PINNED \<and> tr_root (final trust_step t evs) \<noteq> tr_root t) \<and>
    (\<forall>t0. t = the (fzn_trust_init (Some t0)) \<longrightarrow> fzn_trust_root (Some (final trust_step t evs)) \<noteq> Some (replicate FZN_PUBKEY_LEN 0) \<and>
      (fzn_trust_adopted_at (Some (final trust_step t evs)) \<noteq> 0 \<longrightarrow> fzn_trust_source_of (Some (final trust_step t evs)) = FZN_TRUST_ADOPTED))"
proof -
  note run = run_moves [OF assms subset_refl, of t]
  have called: "moves ev here there \<Longrightarrow> anchored_by ev there" for ev here there by (auto elim: movesE)
  have each: "(fst (trust_step here ev) = FZN_TRUST_OK \<longleftrightarrow> (\<exists>t'. moves ev here t')) \<and>
      (if fst (trust_step here ev) = FZN_TRUST_OK then moves ev here (snd (trust_step here ev)) \<and> anchored_by ev (snd (trust_step here ev))
       else snd (trust_step here ev) = here)" if "ev \<in> set evs" for here ev
    using trust_step_moves [of ev here] called [of ev here] assms that by (auto split: if_splits)
  have inv: "(tr_source t' \<noteq> FZN_TRUST_NONE \<longrightarrow> tr_root t' \<noteq> replicate FZN_PUBKEY_LEN 0) \<and> (tr_adopted_at t' \<noteq> 0 \<longrightarrow> tr_source t' = FZN_TRUST_ADOPTED)"
    if "moved_by evs t t'" "tr_source t = FZN_TRUST_NONE" "tr_adopted_at t = 0" for t'
    using moved_anchored [OF that(1)] that(2,3) by (auto simp: anchored_by_def dest: event_timed)
  show ?thesis using each anchored_stays [OF run] moved_anchored [OF run] settled [OF run] inv [OF run]
    by (auto simp: fzn_trust_init_def fzn_trust_root_def fzn_trust_adopted_at_def fzn_trust_source_of_def Let_def)
qed

section \<open>Fingerprints\<close>

lemma nibbles:
  fixes b :: u8
  shows "unat (drop_bit 4 b) = unat b div 16" and "unat (b AND 0x0f) = unat b mod 16"
proof -
  show "unat (drop_bit 4 b) = unat b div 16" by (simp add: drop_bit_eq_div unat_div)
  have "b AND 0x0f = take_bit 4 b" by (simp add: take_bit_eq_mask mask_eq_exp_minus_1)
  then show "unat (b AND 0x0f) = unat b mod 16" by (simp add: take_bit_eq_mod unat_mod)
qed

lemma hex_digit_inj: "unat a < 16 \<Longrightarrow> unat b < 16 \<Longrightarrow> hex_digit a = hex_digit b \<longleftrightarrow> a = b"
proof -
  assume ab: "unat a < 16" "unat b < 16"
  have "distinct ''0123456789abcdef''" by code_simp
  from nth_eq_iff_index_eq [OF this, of "unat a" "unat b"] show ?thesis using ab by (simp add: hex_digit_def word_unat_eq_iff)
qed

lemma print_byte_inj:
  assumes "[hex_digit (drop_bit 4 a), hex_digit (a AND 0x0f)] = [hex_digit (drop_bit 4 b), hex_digit (b AND 0x0f)]"
  shows "a = (b :: u8)"
proof -
  have lt: "unat (x :: u8) < 256" for x using unsigned_less [of x] by simp
  have "drop_bit 4 a = drop_bit 4 b" "a AND 0x0f = b AND 0x0f"
    using assms hex_digit_inj [of "drop_bit 4 a" "drop_bit 4 b"] hex_digit_inj [of "a AND 0x0f" "b AND 0x0f"] lt [of a] lt [of b]
    by (simp_all add: nibbles)
  then have "unat a div 16 = unat b div 16" "unat a mod 16 = unat b mod 16" using nibbles [of a] nibbles [of b] by simp_all
  then show ?thesis by (metis div_mult_mod_eq word_unat_eq_iff)
qed

lemma print_one: "length (print_byte k i out) = length out + (if i \<noteq> 0 \<and> i mod 2 = 0 then 1 else 0) + 2"
  by (simp add: print_byte_def)

lemma print_length: "length (fold (print_byte k) [0..<n] []) = 2 * n + (n - 1) div 2"
proof (induction n)
  case (Suc n)
  have "length (fold (print_byte k) [0..<Suc n] []) = 2 * n + (n - 1) div 2 + (if n \<noteq> 0 \<and> n mod 2 = 0 then 1 else 0) + 2"
    using Suc by (simp add: print_one)
  also have "\<dots> = 2 * Suc n + (Suc n - 1) div 2" by (split if_split) presburger
  finally show ?case .
qed simp

lemma print_inj: "fold (print_byte a) [0..<n] [] = fold (print_byte b) [0..<n] [] \<Longrightarrow> i < n \<Longrightarrow> a ! i = b ! i"
proof (induction n)
  case (Suc n)
  let ?a = "fold (print_byte a) [0..<n] []" and ?b = "fold (print_byte b) [0..<n] []"
  have len: "length ?a = length ?b" by (simp add: print_length)
  have "print_byte a n ?a = print_byte b n ?b" using Suc.prems(1) by simp
  then have "?a = ?b" "[hex_digit (drop_bit 4 (a ! n)), hex_digit (a ! n AND 0x0f)] = [hex_digit (drop_bit 4 (b ! n)), hex_digit (b ! n AND 0x0f)]"
    using len unfolding print_byte_def by (simp_all split: if_splits)
  then show ?case using Suc.IH Suc.prems(2) print_byte_inj [of "a ! n" "b ! n"] by (auto simp: less_Suc_eq)
qed simp

text \<open>
  A fingerprint tells keys apart: for a buffer of the documented size it is always written, it fits with
  its terminating zero, and different keys have different fingerprints.
\<close>

theorem fingerprint_tells_keys:
  assumes "length a = FZN_PUBKEY_LEN" and "length b = FZN_PUBKEY_LEN" and "FZN_TRUST_FINGERPRINT_LEN \<le> cap"
  shows "\<exists>s. fzn_trust_fingerprint (Some a) cap = (FZN_TRUST_OK, Some s) \<and> length s + 1 = FZN_TRUST_FINGERPRINT_LEN \<and>
    (fzn_trust_fingerprint (Some b) cap = (FZN_TRUST_OK, Some s) \<longleftrightarrow> b = a)"
proof -
  let ?s = "fold (print_byte a) [0..<FZN_PUBKEY_LEN] []"
  have "fzn_trust_fingerprint (Some k) cap = (FZN_TRUST_OK, Some (fold (print_byte k) [0..<FZN_PUBKEY_LEN] []))" for k
    using assms(3) by (simp add: fzn_trust_fingerprint_def del: upt_rec_numeral)
  moreover have "length ?s + 1 = FZN_TRUST_FINGERPRINT_LEN" unfolding print_length by simp
  moreover have "b = a" if "fold (print_byte b) [0..<FZN_PUBKEY_LEN] [] = ?s"
    using print_inj [OF that] assms(1,2) by (intro nth_equalityI) simp_all
  ultimately show ?thesis by (metis option.inject prod.inject)
qed

theorem fingerprint_tells_keys_witness:
  "\<exists>s. fzn_trust_fingerprint (Some (replicate 32 1)) 80 = (FZN_TRUST_OK, Some s) \<and> length s + 1 = 80 \<and>
    fzn_trust_fingerprint (Some (replicate 32 2)) 80 \<noteq> (FZN_TRUST_OK, Some s)"
proof -
  have "replicate 32 2 \<noteq> replicate 32 (1 :: u8)" by (simp add: replicate_eq_replicate)
  then show ?thesis using fingerprint_tells_keys [of "replicate 32 1" "replicate 32 2" 80] by auto
qed

definition demo_trust :: fzn_trust where
  "demo_trust = \<lparr>tr_root = replicate 32 0, tr_adopted_at = 0, tr_source = FZN_TRUST_NONE\<rparr>"

theorem anchor_holds_witness:
  "final trust_step (final trust_step demo_trust [Self_root (replicate 32 1), Pin (replicate 32 2)]) [Pin (replicate 32 3), Adopt (replicate 32 4) 9]
    = final trust_step demo_trust [Self_root (replicate 32 1), Pin (replicate 32 2)] \<and>
   tr_root (final trust_step demo_trust [Self_root (replicate 32 1), Pin (replicate 32 2)]) = replicate 32 2 \<and>
   anchored_by (Adopt (replicate 32 4) 9) (final trust_step demo_trust [Adopt (replicate 32 4) 9])"
proof -
  let ?t = "final trust_step demo_trust [Self_root (replicate 32 1), Pin (replicate 32 2)]"
  have t: "tr_source ?t = FZN_TRUST_PINNED \<and> tr_root ?t = replicate 32 2" by code_simp
  have moved: "tr_source (final trust_step demo_trust [Adopt (replicate 32 4) 9]) \<noteq> tr_source demo_trust" by code_simp
  have "\<forall>ev \<in> set [Pin (replicate 32 3), Adopt (replicate 32 4) 9]. length (event_root ev) = FZN_PUBKEY_LEN"
    "\<forall>ev \<in> set [Adopt (replicate 32 4) 9]. length (event_root ev) = FZN_PUBKEY_LEN" by simp_all
  from anchor_holds [OF this(1), of ?t] anchor_holds [OF this(2), of demo_trust] t moved show ?thesis by (auto simp del: run.simps)
qed

end
