(* ===== verification/Blob.thy ===== *)
theory Blob
  imports Ratchet
begin

text \<open>
  Content as a hash tree (\<open>blob/blob.c\<close>): where a byte of the content lives, how a leaf is sealed and opened,
  the streaming tree with its stack of finished subtrees, and proofs that a leaf or a whole span of
  leaves belongs to a root. Counts and indices are natural numbers here: every one is refused above
  \<open>FZN_BLOB_MAX_LEAVES\<close> before it is used, so no sum reaches the width of the machine's integers. Rows of
  hashes that the code packs into one buffer are lists of hashes; a hash table and the operation in it
  may each be absent. The hash and the cipher are parameters.
\<close>

section \<open>The model\<close>

datatype fzn_blob_err = FZN_BLOB_OK | FZN_BLOB_ERR_MALFORMED | FZN_BLOB_ERR_HASH | FZN_BLOB_ERR_SHAPE | FZN_BLOB_ERR_COMMITMENT
  | FZN_BLOB_ERR_AUTH | FZN_BLOB_ERR_PROOF | FZN_BLOB_ERR_FULL | FZN_BLOB_ERR_IO

abbreviation FZN_BLOB_LEAF_SIZE :: nat where "FZN_BLOB_LEAF_SIZE \<equiv> 1024"
abbreviation FZN_BLOB_HASH_LEN :: nat where "FZN_BLOB_HASH_LEN \<equiv> 32"
abbreviation FZN_BLOB_LEAF_OVERHEAD :: nat where "FZN_BLOB_LEAF_OVERHEAD \<equiv> FZN_COMMITMENT_LEN + FZN_AEAD_TAG_LEN"
abbreviation FZN_BLOB_SEALED_MAX :: nat where "FZN_BLOB_SEALED_MAX \<equiv> FZN_BLOB_LEAF_SIZE + FZN_BLOB_LEAF_OVERHEAD"
abbreviation FZN_BLOB_MAX_DEPTH :: nat where "FZN_BLOB_MAX_DEPTH \<equiv> 40"
abbreviation FZN_BLOB_MAX_LEAVES :: nat where "FZN_BLOB_MAX_LEAVES \<equiv> 2 ^ FZN_BLOB_MAX_DEPTH"
abbreviation FZN_BLOB_DERIVED_LEN :: nat where "FZN_BLOB_DERIVED_LEN \<equiv> FZN_AEAD_KEY_LEN + FZN_COMMITMENT_LEN"
abbreviation FZN_BLOB_LEAF_PREFIX :: u8 where "FZN_BLOB_LEAF_PREFIX \<equiv> 0x00"
abbreviation FZN_BLOB_NODE_PREFIX :: u8 where "FZN_BLOB_NODE_PREFIX \<equiv> 0x01"
abbreviation BLOB_MAX_CONTENT :: u64 where "BLOB_MAX_CONTENT \<equiv> 0x4000000000000"

definition FZN_BLOB_KEY_LABEL :: bytes where
  "FZN_BLOB_KEY_LABEL = ascii ''fuzznet-blob-v1'' @ [0]"

definition FZN_BLOB_ROOT_LABEL :: bytes where
  "FZN_BLOB_ROOT_LABEL = ascii ''fuzznet-root-v1'' @ [0]"

record fzn_blob_extent =
  be_first :: u64
  be_count :: u64
  be_skip :: nat

record fzn_blob_tree =
  bt_stack :: "bytes list"
  bt_level :: "nat list"
  bt_depth :: nat
  bt_leaves :: nat

type_synonym hash_ops = "fzn_hash_fn option option"

definition nonce_for_index :: "u64 \<Rightarrow> bytes" where
  "nonce_for_index index = put_at (FZN_AEAD_NONCE_LEN - 8) (fzn_put_be64 index) (replicate FZN_AEAD_NONCE_LEN 0)"

definition fzn_blob_geometry :: "u64 \<Rightarrow> fzn_blob_err \<times> (u64 \<times> nat) option" where
  "fzn_blob_geometry content_len =
     (if content_len = 0 then (FZN_BLOB_ERR_MALFORMED, None)
      else if content_len > BLOB_MAX_CONTENT then (FZN_BLOB_ERR_SHAPE, None)
      else let leaves = content_len div 1024; tail = content_len mod 1024 in
        (FZN_BLOB_OK, Some (if tail \<noteq> 0 then (leaves + 1, unat tail) else (leaves, FZN_BLOB_LEAF_SIZE))))"

definition fzn_blob_extent_of :: "u64 \<Rightarrow> u64 \<Rightarrow> u64 \<Rightarrow> fzn_blob_err \<times> fzn_blob_extent option" where
  "fzn_blob_extent_of content_len offset len =
     (if content_len = 0 then (FZN_BLOB_ERR_MALFORMED, None)
      else if content_len > BLOB_MAX_CONTENT then (FZN_BLOB_ERR_SHAPE, None)
      else if len = 0 then (FZN_BLOB_ERR_MALFORMED, None)
      else if offset \<ge> content_len \<or> len > content_len - offset then (FZN_BLOB_ERR_MALFORMED, None)
      else let last_byte = offset + len - 1; last_leaf = last_byte div 1024; first = offset div 1024 in
        (FZN_BLOB_OK, Some \<lparr>be_first = first, be_count = last_leaf - first + 1, be_skip = unat (offset mod 1024)\<rparr>))"

definition fzn_blob_derive_leaf :: "hash_ops \<Rightarrow> bytes option \<Rightarrow> u64 \<Rightarrow> fzn_blob_err \<times> (bytes \<times> bytes) option" where
  "fzn_blob_derive_leaf hash content_key index =
     (case (hash, content_key) of
        (Some (Some h), Some ck) \<Rightarrow>
          (case h FZN_BLOB_DERIVED_LEN (FZN_BLOB_KEY_LABEL @ ck @ fzn_put_be64 index) of
             None \<Rightarrow> (FZN_BLOB_ERR_HASH, None)
           | Some derived \<Rightarrow> (FZN_BLOB_OK, Some (take FZN_AEAD_KEY_LEN derived, bytes_at FZN_AEAD_KEY_LEN FZN_COMMITMENT_LEN derived)))
      | _ \<Rightarrow> (FZN_BLOB_ERR_MALFORMED, None))"

text \<open>
  Sealing writes the commitment, the sealed bytes and the tag one after the other; opening hands the
  plain bytes back. A cipher table of \<open>None\<close> is the absent one.
\<close>

definition fzn_blob_leaf_seal :: "hash_ops \<Rightarrow> fzn_aead_ops option \<Rightarrow> bytes option \<Rightarrow> u64 \<Rightarrow> bytes option \<Rightarrow> nat \<Rightarrow> fzn_blob_err \<times> bytes option" where
  "fzn_blob_leaf_seal hash aead content_key index plain out_cap =
     (if hash = None \<or> aead = None \<or> ao_seal (the aead) = None \<or> content_key = None \<or> plain = None then (FZN_BLOB_ERR_MALFORMED, None)
      else let p = the plain; plain_len = length p in
        if plain_len = 0 \<or> plain_len > FZN_BLOB_LEAF_SIZE then (FZN_BLOB_ERR_MALFORMED, None)
        else if out_cap < plain_len + FZN_BLOB_LEAF_OVERHEAD then (FZN_BLOB_ERR_MALFORMED, None)
        else (case fzn_blob_derive_leaf hash content_key index of
            (FZN_BLOB_OK, Some (key, commitment)) \<Rightarrow>
              (case the (ao_seal (the aead)) key (nonce_for_index index) commitment p of
                 None \<Rightarrow> (FZN_BLOB_ERR_HASH, None)
               | Some (body, tag) \<Rightarrow> (FZN_BLOB_OK, Some (commitment @ body @ tag)))
          | (err, _) \<Rightarrow> (err, None)))"

definition fzn_blob_leaf_open :: "hash_ops \<Rightarrow> fzn_aead_ops option \<Rightarrow> bytes option \<Rightarrow> u64 \<Rightarrow> bytes option \<Rightarrow> nat \<Rightarrow> fzn_blob_err \<times> bytes option" where
  "fzn_blob_leaf_open hash aead content_key index sealed out_cap =
     (if hash = None \<or> aead = None \<or> ao_open (the aead) = None \<or> content_key = None \<or> sealed = None then (FZN_BLOB_ERR_MALFORMED, None)
      else let s = the sealed; sealed_len = length s in
        if sealed_len \<le> FZN_BLOB_LEAF_OVERHEAD \<or> sealed_len > FZN_BLOB_SEALED_MAX then (FZN_BLOB_ERR_SHAPE, None)
        else let plain_len = sealed_len - FZN_BLOB_LEAF_OVERHEAD in
          if out_cap < plain_len then (FZN_BLOB_ERR_MALFORMED, None)
          else (case fzn_blob_derive_leaf hash content_key index of
              (FZN_BLOB_OK, Some (key, commitment)) \<Rightarrow>
                if \<not> fzn_ct_memeq (Some s) (Some commitment) FZN_COMMITMENT_LEN then (FZN_BLOB_ERR_COMMITMENT, None)
                else (case the (ao_open (the aead)) key (nonce_for_index index) (take FZN_COMMITMENT_LEN s)
                        (bytes_at FZN_COMMITMENT_LEN plain_len s) (bytes_at (FZN_COMMITMENT_LEN + plain_len) FZN_AEAD_TAG_LEN s) of
                   None \<Rightarrow> (FZN_BLOB_ERR_AUTH, None)
                 | Some p \<Rightarrow> (FZN_BLOB_OK, Some p))
            | (err, _) \<Rightarrow> (err, None)))"

definition fzn_blob_leaf_hash :: "hash_ops \<Rightarrow> bytes option \<Rightarrow> fzn_blob_err \<times> bytes option" where
  "fzn_blob_leaf_hash hash sealed =
     (case (hash, sealed) of
        (Some (Some h), Some s) \<Rightarrow>
          if length s = 0 \<or> length s > FZN_BLOB_SEALED_MAX then (FZN_BLOB_ERR_SHAPE, None)
          else (case h FZN_BLOB_HASH_LEN (FZN_BLOB_LEAF_PREFIX # s) of
                  None \<Rightarrow> (FZN_BLOB_ERR_HASH, None) | Some d \<Rightarrow> (FZN_BLOB_OK, Some d))
      | _ \<Rightarrow> (FZN_BLOB_ERR_MALFORMED, None))"

definition fzn_blob_node_hash :: "hash_ops \<Rightarrow> bytes \<Rightarrow> bytes \<Rightarrow> fzn_blob_err \<times> bytes option" where
  "fzn_blob_node_hash hash left right =
     (case hash of
        Some (Some h) \<Rightarrow>
          (case h FZN_BLOB_HASH_LEN (FZN_BLOB_NODE_PREFIX # left @ right) of
             None \<Rightarrow> (FZN_BLOB_ERR_HASH, None) | Some d \<Rightarrow> (FZN_BLOB_OK, Some d))
      | _ \<Rightarrow> (FZN_BLOB_ERR_MALFORMED, None))"

definition fzn_blob_tree_init :: fzn_blob_tree where
  "fzn_blob_tree_init = \<lparr>bt_stack = replicate FZN_BLOB_MAX_DEPTH (replicate FZN_BLOB_HASH_LEN 0),
     bt_level = replicate FZN_BLOB_MAX_DEPTH 0, bt_depth = 0, bt_leaves = 0\<rparr>"

text \<open>
  The loop that folds two finished subtrees of one height into their parent. Its last argument is the
  depth of the stack, which every turn takes one from.
\<close>

fun merge_loop :: "hash_ops \<Rightarrow> bytes list \<Rightarrow> nat list \<Rightarrow> nat \<Rightarrow> fzn_blob_err \<times> bytes list \<times> nat list \<times> nat" where
  "merge_loop hash stack level (Suc (Suc d)) =
     (if level ! Suc d = level ! d then
        (case fzn_blob_node_hash hash (stack ! d) (stack ! Suc d) of
           (FZN_BLOB_OK, Some n) \<Rightarrow> merge_loop hash (stack[d := n]) (level[d := (level ! d + 1) mod 256]) (Suc d)
         | (err, _) \<Rightarrow> (err, stack, level, Suc (Suc d)))
      else (FZN_BLOB_OK, stack, level, Suc (Suc d)))"
| "merge_loop hash stack level d = (FZN_BLOB_OK, stack, level, d)"

definition fzn_blob_tree_push :: "hash_ops \<Rightarrow> fzn_blob_tree \<Rightarrow> bytes option \<Rightarrow> fzn_blob_err \<times> fzn_blob_tree" where
  "fzn_blob_tree_push hash tree leaf_hash =
     (if hash = None \<or> leaf_hash = None then (FZN_BLOB_ERR_MALFORMED, tree)
      else if bt_leaves tree \<ge> FZN_BLOB_MAX_LEAVES then (FZN_BLOB_ERR_FULL, tree)
      else if bt_depth tree \<ge> FZN_BLOB_MAX_DEPTH then (FZN_BLOB_ERR_FULL, tree)
      else (case merge_loop hash ((bt_stack tree)[bt_depth tree := the leaf_hash]) ((bt_level tree)[bt_depth tree := 0]) (bt_depth tree + 1) of
          (err, stack, level, depth) \<Rightarrow>
            (err, tree\<lparr>bt_stack := stack, bt_level := level, bt_depth := depth,
                       bt_leaves := (if err = FZN_BLOB_OK then bt_leaves tree + 1 else bt_leaves tree)\<rparr>)))"

fun apex_loop :: "hash_ops \<Rightarrow> bytes list \<Rightarrow> nat \<Rightarrow> bytes \<Rightarrow> fzn_blob_err \<times> bytes option" where
  "apex_loop hash stack 0 acc = (FZN_BLOB_OK, Some acc)"
| "apex_loop hash stack (Suc i) acc =
     (case fzn_blob_node_hash hash (stack ! i) acc of
        (FZN_BLOB_OK, Some n) \<Rightarrow> apex_loop hash stack i n
      | (err, _) \<Rightarrow> (err, None))"

definition tree_apex :: "hash_ops \<Rightarrow> fzn_blob_tree \<Rightarrow> fzn_blob_err \<times> bytes option" where
  "tree_apex hash tree =
     (if bt_depth tree = 0 then (FZN_BLOB_ERR_MALFORMED, None)
      else apex_loop hash (bt_stack tree) (bt_depth tree - 1) (bt_stack tree ! (bt_depth tree - 1)))"

definition finalise_root :: "fzn_hash_fn \<Rightarrow> bytes \<Rightarrow> nat \<Rightarrow> fzn_blob_err \<times> bytes option" where
  "finalise_root h apex leaf_count =
     (case h FZN_BLOB_HASH_LEN (FZN_BLOB_ROOT_LABEL @ fzn_put_be64 (of_nat leaf_count) @ apex) of
        None \<Rightarrow> (FZN_BLOB_ERR_HASH, None) | Some d \<Rightarrow> (FZN_BLOB_OK, Some d))"

definition fzn_blob_tree_root :: "hash_ops \<Rightarrow> fzn_blob_tree option \<Rightarrow> fzn_blob_err \<times> bytes option" where
  "fzn_blob_tree_root hash tree =
     (case (hash, tree) of
        (Some (Some h), Some t) \<Rightarrow>
          if bt_depth t = 0 then (FZN_BLOB_ERR_MALFORMED, None)
          else (case tree_apex hash t of
                  (FZN_BLOB_OK, Some apex) \<Rightarrow> finalise_root h apex (bt_leaves t)
                | (err, _) \<Rightarrow> (err, None))
      | _ \<Rightarrow> (FZN_BLOB_ERR_MALFORMED, None))"

text \<open>
  The loop of \<open>split_at\<close> starts at one and doubles, so its first argument is never zero.
\<close>

function split_loop :: "nat \<Rightarrow> nat \<Rightarrow> nat" where
  "split_loop k n = (if k \<noteq> 0 \<and> 2 * k < n then split_loop (2 * k) n else k)"
  by auto
termination by (relation "measure (\<lambda>(k, n). n - k)") auto

declare split_loop.simps [simp del]

definition split_at :: "nat \<Rightarrow> nat" where
  "split_at n = split_loop 1 n"

fun push_all :: "hash_ops \<Rightarrow> fzn_blob_tree \<Rightarrow> bytes list \<Rightarrow> fzn_blob_err \<times> fzn_blob_tree" where
  "push_all hash tree [] = (FZN_BLOB_OK, tree)"
| "push_all hash tree (x # xs) =
     (case fzn_blob_tree_push hash tree (Some x) of
        (FZN_BLOB_OK, tree') \<Rightarrow> push_all hash tree' xs
      | (err, tree') \<Rightarrow> (err, tree'))"

definition subtree_root :: "hash_ops \<Rightarrow> bytes list \<Rightarrow> nat \<Rightarrow> nat \<Rightarrow> fzn_blob_err \<times> bytes option" where
  "subtree_root hash leaf_hashes lo n =
     (if n = 0 then (FZN_BLOB_ERR_MALFORMED, None)
      else (case push_all hash fzn_blob_tree_init (map ((!) leaf_hashes) [lo..<lo + n]) of
              (FZN_BLOB_OK, tree) \<Rightarrow> tree_apex hash tree
            | (err, _) \<Rightarrow> (err, None)))"

definition fzn_blob_span_root :: "hash_ops \<Rightarrow> bytes list option \<Rightarrow> nat \<Rightarrow> fzn_blob_err \<times> bytes option" where
  "fzn_blob_span_root hash leaf_hashes n =
     (case (hash, leaf_hashes) of
        (Some (Some h), Some ls) \<Rightarrow>
          if n = 0 \<or> n > FZN_BLOB_MAX_LEAVES then (FZN_BLOB_ERR_MALFORMED, None) else subtree_root hash ls 0 n
      | _ \<Rightarrow> (FZN_BLOB_ERR_MALFORMED, None))"

definition fzn_blob_err_str :: "fzn_blob_err \<Rightarrow> string" where
  "fzn_blob_err_str err =
     (case err of FZN_BLOB_OK \<Rightarrow> ''ok'' | FZN_BLOB_ERR_MALFORMED \<Rightarrow> ''malformed argument'' | FZN_BLOB_ERR_HASH \<Rightarrow> ''hash or aead refused or absent''
      | FZN_BLOB_ERR_SHAPE \<Rightarrow> ''not this shape'' | FZN_BLOB_ERR_COMMITMENT \<Rightarrow> ''key commitment mismatch'' | FZN_BLOB_ERR_AUTH \<Rightarrow> ''authentication failed''
      | FZN_BLOB_ERR_PROOF \<Rightarrow> ''inclusion proof does not reach the root'' | FZN_BLOB_ERR_FULL \<Rightarrow> ''tree is full''
      | FZN_BLOB_ERR_IO \<Rightarrow> ''the levels' storage refused'')"

lemma split_bounds: "k \<noteq> 0 \<Longrightarrow> k < n \<Longrightarrow> 0 < split_loop k n \<and> split_loop k n < n \<and> n \<le> 2 * split_loop k n"
  by (induction k n rule: split_loop.induct) (subst (1 2 3) split_loop.simps, auto)

lemma split_at_bounds: "1 < n \<Longrightarrow> 0 < split_at n \<and> split_at n < n \<and> n \<le> 2 * split_at n"
  unfolding split_at_def by (rule split_bounds) simp_all

section \<open>The tree that is meant\<close>

text \<open>
  The tree of RFC 6962 over a list of leaves, by recursion: split at the largest power of two below the
  number of leaves and hash the two halves. The streaming tree holds it in pieces: a forest of full
  subtrees, the newest on top.
\<close>

definition node_of :: "fzn_hash_fn \<Rightarrow> bytes \<Rightarrow> bytes \<Rightarrow> bytes" where
  "node_of h l r = the (h FZN_BLOB_HASH_LEN (FZN_BLOB_NODE_PREFIX # l @ r))"

function merkle :: "fzn_hash_fn \<Rightarrow> bytes list \<Rightarrow> bytes" where
  "merkle h xs = (if length xs \<le> 1 then hd xs else node_of h (merkle h (take (split_at (length xs)) xs)) (merkle h (drop (split_at (length xs)) xs)))"
  by auto
termination
  by (relation "measure (\<lambda>(h, xs). length xs)") (use split_at_bounds in \<open>force simp: not_le\<close>)+

declare merkle.simps [simp del]

fun forest :: "fzn_hash_fn \<Rightarrow> (bytes \<times> nat) list \<Rightarrow> bytes list \<Rightarrow> bool" where
  "forest h [] xs \<longleftrightarrow> xs = []"
| "forest h ((d, l) # st) xs \<longleftrightarrow> (\<exists>ys zs. xs = ys @ zs \<and> length zs = 2 ^ l \<and> d = merkle h zs \<and> forest h st ys)"

definition live :: "bytes list \<Rightarrow> nat list \<Rightarrow> nat \<Rightarrow> (bytes \<times> nat) list" where
  "live stack level d = rev (zip (take d stack) (take d level))"

lemma node_hash_total: "hash_total h \<Longrightarrow> fzn_blob_node_hash (Some (Some h)) l r = (FZN_BLOB_OK, Some (node_of h l r))"
  unfolding hash_total_def fzn_blob_node_hash_def node_of_def by (metis option.case(2) option.sel prod.case)

lemma length_node_of: "hash_total h \<Longrightarrow> length (node_of h l r) = FZN_BLOB_HASH_LEN"
  unfolding hash_total_def node_of_def by (metis option.sel)

lemma split_loop_power: "j \<le> e \<Longrightarrow> 2 ^ e < n \<Longrightarrow> n \<le> 2 * 2 ^ e \<Longrightarrow> split_loop (2 ^ j) n = 2 ^ e"
proof (induction "e - j" arbitrary: j)
  case 0
  then show ?case by (subst split_loop.simps) simp
next
  case (Suc m)
  then have "2 * (2 :: nat) ^ j \<le> 2 ^ e" using power_increasing [of "Suc j" e "2 :: nat"] by simp
  then have "split_loop (2 ^ j) n = split_loop (2 ^ Suc j) n" using Suc.prems by (subst split_loop.simps) simp
  moreover have "split_loop (2 ^ Suc j) n = 2 ^ e" using Suc.hyps(2) Suc.prems by (intro Suc.hyps(1)) simp_all
  ultimately show ?case by (rule trans)
qed

lemma split_at_power: "2 ^ e < n \<Longrightarrow> n \<le> 2 * 2 ^ e \<Longrightarrow> split_at n = 2 ^ e"
  unfolding split_at_def using split_loop_power [of 0 e n] by simp

lemma merkle_append:
  assumes "length ys = 2 ^ e" and "zs \<noteq> []" and "length zs \<le> 2 ^ e"
  shows "merkle h (ys @ zs) = node_of h (merkle h ys) (merkle h zs)"
proof -
  have "0 < length zs" using assms(2) by simp
  moreover have "0 < length ys" unfolding assms(1) by simp
  ultimately have "\<not> length (ys @ zs) \<le> 1" "split_at (length (ys @ zs)) = 2 ^ e"
    unfolding length_append using assms by (linarith, intro split_at_power) simp_all
  then show ?thesis using assms(1) by (subst merkle.simps) simp
qed

lemma live_Suc: "d < length stack \<Longrightarrow> d < length level \<Longrightarrow> live stack level (Suc d) = (stack ! d, level ! d) # live stack level d"
  by (simp add: live_def take_Suc_conv_app_nth)

lemma live_update: "d \<le> i \<Longrightarrow> live (stack[i := x]) (level[i := l]) d = live stack level d"
  by (simp add: live_def)

lemma length_held_live: "d \<le> length stack \<Longrightarrow> d \<le> length level \<Longrightarrow> length (live stack level d) = d"
  by (simp add: live_def)

definition rising :: "nat list \<Rightarrow> bool" where
  "rising ls \<longleftrightarrow> sorted_wrt (<) (tl ls) \<and> (case ls of a # b # _ \<Rightarrow> a \<le> b | _ \<Rightarrow> True)"

lemma forest_length_ge: "forest h ((d, l) # st) xs \<Longrightarrow> 2 ^ l \<le> length xs"
  by auto

lemma merge_forest:
  assumes "hash_total h"
  shows "forest h (live stack level d) xs \<Longrightarrow> length xs < 2 ^ 255 \<Longrightarrow> rising (map snd (live stack level d)) \<Longrightarrow>
    length level = length stack \<Longrightarrow> d \<le> length stack \<Longrightarrow>
    \<exists>stack' level' d'. merge_loop (Some (Some h)) stack level d = (FZN_BLOB_OK, stack', level', d') \<and> forest h (live stack' level' d') xs \<and>
      sorted_wrt (<) (map snd (live stack' level' d')) \<and> length stack' = length stack \<and> length level' = length stack \<and> d' \<le> d \<and> (0 < d \<longrightarrow> 0 < d')"
proof (induction d arbitrary: stack level)
  case 0
  then show ?case by (simp add: live_def)
next
  case (Suc d)
  note sorted = Suc.prems(3)
  show ?case
  proof (cases d)
    case 0
    then have "length (map snd (live stack level (Suc d))) = 1" using Suc.prems(4,5) by (simp add: length_held_live)
    then have "sorted_wrt (<) (map snd (live stack level (Suc d)))" by (auto simp: length_Suc_conv)
    then show ?thesis using Suc.prems 0 by simp
  next
    case (Suc e)
    have two: "live stack level (Suc d) = (stack ! d, level ! d) # (stack ! e, level ! e) # live stack level e"
      using Suc Suc.prems(4,5) by (simp add: live_Suc)
    show ?thesis
    proof (cases "level ! d = level ! e")
      case False
      then have "sorted_wrt (<) (map snd (live stack level (Suc d)))" using sorted unfolding two rising_def by (auto simp: Suc)
      then show ?thesis using Suc Suc.prems False by simp
    next
      case True
      let ?n = "node_of h (stack ! e) (stack ! d)" and ?l = "level ! e"
      from Suc.prems(1) True obtain ys zs ws where xs: "xs = (ws @ ys) @ zs" "length zs = 2 ^ ?l" "length ys = 2 ^ ?l"
        "stack ! d = merkle h zs" "stack ! e = merkle h ys" "forest h (live stack level e) ws" unfolding two by auto
      have n: "?n = merkle h (ys @ zs)" using xs(2-5) merkle_append [of ys ?l zs h] by fastforce
      have "(2 :: nat) ^ ?l < 2 ^ 255" using xs(1,2) Suc.prems(2) by simp
      then have l: "(?l + 1) mod 256 = ?l + 1" by (simp add: power_strict_increasing_iff del: power_numeral)
      have same: "live (stack[e := ?n]) (level[e := ?l + 1]) d = (?n, ?l + 1) # live stack level e"
        using Suc Suc.prems(4,5) by (simp add: live_Suc live_update)
      have "forest h (live (stack[e := ?n]) (level[e := ?l + 1]) d) xs" unfolding same forest.simps
        using xs n by (intro exI [of _ ws] exI [of _ "ys @ zs"]) simp
      moreover have "rising (map snd (live (stack[e := ?n]) (level[e := ?l + 1]) d))" unfolding same
        using sorted unfolding two rising_def by (auto split: list.splits)
      ultimately show ?thesis using Suc.IH [of "stack[e := ?n]" "level[e := ?l + 1]"] Suc.prems(2,4,5) True l Suc
        by (simp add: node_hash_total [OF assms] le_SucI) (metis le_SucI)
    qed
  qed
qed

text \<open>
  The state of the streaming tree after some leaves.
\<close>

definition tree_holds :: "fzn_hash_fn \<Rightarrow> fzn_blob_tree \<Rightarrow> bytes list \<Rightarrow> bool" where
  "tree_holds h t xs \<longleftrightarrow> forest h (live (bt_stack t) (bt_level t) (bt_depth t)) xs \<and>
     sorted_wrt (<) (map snd (live (bt_stack t) (bt_level t) (bt_depth t))) \<and> bt_leaves t = length xs \<and>
     length (bt_stack t) = FZN_BLOB_MAX_DEPTH \<and> length (bt_level t) = FZN_BLOB_MAX_DEPTH \<and> bt_depth t \<le> FZN_BLOB_MAX_DEPTH"

lemma init_holds: "tree_holds h fzn_blob_tree_init []"
  by (simp add: tree_holds_def fzn_blob_tree_init_def live_def)

lemma forest_size: "forest h st xs \<Longrightarrow> length xs = (\<Sum>l\<leftarrow>map snd st. 2 ^ l)"
  by (induction h st xs rule: forest.induct) auto

lemma sorted_levels: "sorted_wrt (<) ls \<Longrightarrow> (\<Sum>l\<leftarrow>ls. 2 ^ l) = (\<Sum>l \<in> set ls. 2 ^ l :: nat)"
  by (simp add: sum_list_distinct_conv_sum_set strict_sorted_iff)

lemma powers_ge: "finite L \<Longrightarrow> 2 ^ card L \<le> 1 + (\<Sum>l \<in> L. 2 ^ l :: nat)"
proof (induction L rule: finite_linorder_max_induct)
  case (insert b A)
  have "A \<subseteq> {..<b}" using insert.hyps by auto
  then have "card A \<le> b" using card_mono [of "{..<b}" A] by simp
  then have "(2 :: nat) ^ card A \<le> 2 ^ b" by (rule power_increasing) simp
  moreover have "b \<notin> A" using insert.hyps by blast
  ultimately have "(\<Sum>l \<in> insert b A. 2 ^ l :: nat) = 2 ^ b + (\<Sum>l \<in> A. 2 ^ l)" "(2 :: nat) ^ card (insert b A) = 2 * 2 ^ card A" "(2 :: nat) ^ card A \<le> 2 ^ b"
    using insert.hyps(1) by simp_all
  then show ?case using insert.IH by linarith
qed simp

lemma powers_below: "(\<Sum>l < n. 2 ^ l :: nat) = 2 ^ n - 1"
  using mask_eq_sum_exp_nat [of n] by (simp add: lessThan_def)

lemma levels_set:
  assumes "tree_holds h t xs"
  defines "L \<equiv> set (map snd (live (bt_stack t) (bt_level t) (bt_depth t)))"
  shows "card L = bt_depth t" and "(\<Sum>l \<in> L. 2 ^ l) = length xs"
proof -
  let ?st = "live (bt_stack t) (bt_level t) (bt_depth t)"
  have "sorted_wrt (<) (map snd ?st)" "length (map snd ?st) = bt_depth t" "forest h ?st xs"
    using assms(1) by (simp_all add: tree_holds_def length_held_live)
  then show "card L = bt_depth t" "(\<Sum>l \<in> L. 2 ^ l) = length xs"
    unfolding L_def by (metis distinct_card strict_sorted_iff, metis forest_size sorted_levels)
qed

lemma depth_room: "tree_holds h t xs \<Longrightarrow> length xs < FZN_BLOB_MAX_LEAVES - 1 \<Longrightarrow> bt_depth t < FZN_BLOB_MAX_DEPTH"
proof (rule ccontr)
  assume t: "tree_holds h t xs" "length xs < FZN_BLOB_MAX_LEAVES - 1" and "\<not> bt_depth t < FZN_BLOB_MAX_DEPTH"
  then have "(2 :: nat) ^ FZN_BLOB_MAX_DEPTH \<le> 2 ^ bt_depth t" by (intro power_increasing) simp_all
  then show False using powers_ge [of "set (map snd (live (bt_stack t) (bt_level t) (bt_depth t)))"] levels_set [OF t(1)] t(2) by simp
qed

lemma depth_full:
  assumes "tree_holds h t xs" and "length xs = FZN_BLOB_MAX_LEAVES - 1"
  shows "bt_depth t = FZN_BLOB_MAX_DEPTH"
proof -
  let ?L = "set (map snd (live (bt_stack t) (bt_level t) (bt_depth t)))"
  have sum: "(\<Sum>l \<in> ?L. 2 ^ l) = FZN_BLOB_MAX_LEAVES - 1" using levels_set(2) [OF assms(1)] assms(2) by simp
  have "l < FZN_BLOB_MAX_DEPTH" if "l \<in> ?L" for l
  proof (rule ccontr)
    assume "\<not> l < FZN_BLOB_MAX_DEPTH"
    then have "(2 :: nat) ^ FZN_BLOB_MAX_DEPTH \<le> 2 ^ l" by (intro power_increasing) simp_all
    also have "\<dots> \<le> (\<Sum>l \<in> ?L. 2 ^ l)" using that by (intro member_le_sum) simp_all
    finally show False unfolding sum by simp
  qed
  then have sub: "?L \<subseteq> {..<FZN_BLOB_MAX_DEPTH}" by blast
  have "?L = {..<FZN_BLOB_MAX_DEPTH}"
  proof (rule ccontr)
    assume "?L \<noteq> {..<FZN_BLOB_MAX_DEPTH}"
    then obtain b where "b \<in> {..<FZN_BLOB_MAX_DEPTH} - ?L" using sub by blast
    from sum_strict_mono2 [OF _ sub this, of "\<lambda>l. 2 ^ l :: nat"] show False unfolding sum powers_below by simp
  qed
  then show ?thesis using levels_set(1) [OF assms(1)] by (metis card_lessThan)
qed

lemma push_holds:
  assumes "hash_total h" and "tree_holds h t xs" and "length xs < FZN_BLOB_MAX_LEAVES - 1"
  shows "\<exists>t'. fzn_blob_tree_push (Some (Some h)) t (Some x) = (FZN_BLOB_OK, t') \<and> tree_holds h t' (xs @ [x])"
proof -
  let ?d = "bt_depth t" and ?s = "(bt_stack t)[bt_depth t := x]" and ?l = "(bt_level t)[bt_depth t := 0]"
  have d: "?d < FZN_BLOB_MAX_DEPTH" using depth_room [OF assms(2,3)] .
  have len: "length (bt_stack t) = FZN_BLOB_MAX_DEPTH" "length (bt_level t) = FZN_BLOB_MAX_DEPTH" using assms(2) by (simp_all add: tree_holds_def)
  have top: "live ?s ?l (?d + 1) = (x, 0) # live (bt_stack t) (bt_level t) ?d" using d len by (simp add: live_Suc live_update)
  have x: "x = merkle h [x]" by (simp add: merkle.simps)
  have "forest h (live ?s ?l (?d + 1)) (xs @ [x])" unfolding top forest.simps using assms(2) x
    by (intro exI [of _ xs] exI [of _ "[x]"]) (simp add: tree_holds_def)
  moreover have "rising (map snd (live ?s ?l (?d + 1)))" unfolding top using assms(2) by (auto simp: tree_holds_def rising_def split: list.splits)
  moreover have "length (xs @ [x]) < 2 ^ 255" using assms(3) by simp
  ultimately obtain s' l' d' where m: "merge_loop (Some (Some h)) ?s ?l (?d + 1) = (FZN_BLOB_OK, s', l', d')" "forest h (live s' l' d') (xs @ [x])"
      "sorted_wrt (<) (map snd (live s' l' d'))" "length s' = length ?s" "length l' = length ?s" "d' \<le> ?d + 1"
    using merge_forest [OF assms(1), of ?s ?l "?d + 1" "xs @ [x]"] d len by auto
  then show ?thesis using d len assms(2,3) by (auto simp: fzn_blob_tree_push_def tree_holds_def)
qed

lemma push_all_holds:
  assumes "hash_total h"
  shows "tree_holds h t xs \<Longrightarrow> length xs + length ys < FZN_BLOB_MAX_LEAVES \<Longrightarrow>
    \<exists>t'. push_all (Some (Some h)) t ys = (FZN_BLOB_OK, t') \<and> tree_holds h t' (xs @ ys)"
proof (induction ys arbitrary: t xs)
  case (Cons y ys)
  from push_holds [OF assms Cons.prems(1), of y] Cons.prems(2) obtain t' where
    t': "fzn_blob_tree_push (Some (Some h)) t (Some y) = (FZN_BLOB_OK, t')" "tree_holds h t' (xs @ [y])" by auto
  then show ?case using Cons.IH [OF t'(2)] Cons.prems(2) by simp
qed simp

lemma apex_forest:
  assumes "hash_total h"
  shows "forest h (live stack level i) ys \<Longrightarrow> sorted_wrt (<) (map snd (live stack level i)) \<Longrightarrow> (0 < i \<Longrightarrow> length zs \<le> 2 ^ (level ! (i - 1))) \<Longrightarrow>
    zs \<noteq> [] \<Longrightarrow> i \<le> length stack \<Longrightarrow> i \<le> length level \<Longrightarrow> apex_loop (Some (Some h)) stack i (merkle h zs) = (FZN_BLOB_OK, Some (merkle h (ys @ zs)))"
proof (induction i arbitrary: ys zs)
  case 0
  then show ?case by (simp add: live_def)
next
  case (Suc i)
  have top: "live stack level (Suc i) = (stack ! i, level ! i) # live stack level i" using Suc.prems(5,6) by (simp add: live_Suc)
  then obtain ws vs where ys: "ys = ws @ vs" "length vs = 2 ^ (level ! i)" "stack ! i = merkle h vs" "forest h (live stack level i) ws"
    using Suc.prems(1) by auto
  have node: "node_of h (stack ! i) (merkle h zs) = merkle h (vs @ zs)" using merkle_append [OF ys(2) Suc.prems(4)] Suc.prems(3) ys(3) by simp
  have next_level: "length (vs @ zs) \<le> 2 ^ (level ! (i - 1))" if "0 < i"
  proof -
    obtain j where j: "i = Suc j" using \<open>0 < i\<close> gr0_conv_Suc by blast
    have "level ! i < level ! j" using Suc.prems(2,5,6) unfolding top j by (simp add: live_Suc)
    then have "(2 :: nat) * 2 ^ (level ! i) \<le> 2 ^ (level ! j)" using power_increasing [of "Suc (level ! i)" "level ! j" "2 :: nat"] by simp
    then show ?thesis using ys(2) Suc.prems(3) j by simp
  qed
  have "sorted_wrt (<) (map snd (live stack level i))" using Suc.prems(2) unfolding top by simp
  then show ?case using Suc.IH [OF ys(4) _ next_level] Suc.prems(4-6) ys(1) by (simp add: node_hash_total [OF assms] node)
qed

lemma apex_holds:
  assumes "hash_total h" and "tree_holds h t xs" and "xs \<noteq> []"
  shows "tree_apex (Some (Some h)) t = (FZN_BLOB_OK, Some (merkle h xs))" and "bt_depth t \<noteq> 0"
proof -
  show d: "bt_depth t \<noteq> 0" using assms(2,3) by (metis forest.simps(1) live_def rev.simps(1) take0 tree_holds_def zip.simps(1) take_0)
  then obtain i where i: "bt_depth t = Suc i" using not0_implies_Suc by blast
  let ?s = "bt_stack t" and ?l = "bt_level t"
  have len: "Suc i \<le> length ?s" "Suc i \<le> length ?l" using assms(2) i by (simp_all add: tree_holds_def)
  then have top: "live ?s ?l (Suc i) = (?s ! i, ?l ! i) # live ?s ?l i" by (simp add: live_Suc)
  then obtain ys zs where xs: "xs = ys @ zs" "length zs = 2 ^ (?l ! i)" "?s ! i = merkle h zs" "forest h (live ?s ?l i) ys"
    using assms(2) i by (auto simp: tree_holds_def)
  have "sorted_wrt (<) (map snd (live ?s ?l (Suc i)))" using assms(2) i by (simp add: tree_holds_def)
  then have s: "sorted_wrt (<) (map snd (live ?s ?l i))" and "0 < i \<Longrightarrow> ?l ! i < ?l ! (i - 1)"
    using len by (auto simp: top) (cases i; simp add: live_Suc)
  then have "0 < i \<Longrightarrow> length zs \<le> 2 ^ (?l ! (i - 1))" unfolding xs(2) by (intro power_increasing) simp_all
  moreover have "zs \<noteq> []" using xs(2) by (metis list.size(3) power_not_zero zero_neq_numeral)
  ultimately show "tree_apex (Some (Some h)) t = (FZN_BLOB_OK, Some (merkle h xs))"
    using apex_forest [OF assms(1) xs(4) s] len xs(1,3) i by (simp add: tree_apex_def)
qed

lemma subtree_root_is_merkle:
  assumes "hash_total h" and "0 < n" and "n < FZN_BLOB_MAX_LEAVES" and "lo + n \<le> length ls"
  shows "subtree_root (Some (Some h)) ls lo n = (FZN_BLOB_OK, Some (merkle h (take n (drop lo ls))))"
proof -
  have ls: "map ((!) ls) [lo..<lo + n] = take n (drop lo ls)" using assms(4) by (intro nth_equalityI) simp_all
  obtain t where "push_all (Some (Some h)) fzn_blob_tree_init (take n (drop lo ls)) = (FZN_BLOB_OK, t)" "tree_holds h t (take n (drop lo ls))"
    using push_all_holds [OF assms(1) init_holds, of "take n (drop lo ls)"] assms(3,4) by auto
  moreover have "take n (drop lo ls) \<noteq> []" using assms(2,4) by auto
  ultimately show ?thesis using apex_holds(1) [OF assms(1)] assms(2) unfolding subtree_root_def ls by simp
qed

section \<open>Properties\<close>

text \<open>
  C26. The streaming tree is the tree that is meant. Leaves taken one by one are all accepted, and after
  each of them the root asked for is the hash of the label, the number of leaves and the tree of RFC
  6962 over the leaves so far, whatever their number; the root of any run of leaves taken from an array is the
  tree over that run. The stack never leaves its array.
\<close>

theorem stream_is_merkle:
  assumes "hash_total h" and "xs \<noteq> []" and "length xs < FZN_BLOB_MAX_LEAVES"
  shows "\<exists>t. push_all (Some (Some h)) fzn_blob_tree_init xs = (FZN_BLOB_OK, t) \<and> bt_leaves t = length xs \<and>
    bt_depth t \<le> FZN_BLOB_MAX_DEPTH \<and> length (bt_stack t) = FZN_BLOB_MAX_DEPTH \<and>
    fzn_blob_tree_root (Some (Some h)) (Some t) =
      (FZN_BLOB_OK, h FZN_BLOB_HASH_LEN (FZN_BLOB_ROOT_LABEL @ fzn_put_be64 (of_nat (length xs)) @ merkle h xs)) \<and>
    (\<forall>lo n. 0 < n \<and> lo + n \<le> length xs \<longrightarrow> subtree_root (Some (Some h)) xs lo n = (FZN_BLOB_OK, Some (merkle h (take n (drop lo xs)))))"
proof -
  obtain t where t: "push_all (Some (Some h)) fzn_blob_tree_init xs = (FZN_BLOB_OK, t)" "tree_holds h t xs"
    using push_all_holds [OF assms(1) init_holds, of xs] assms(3) by auto
  obtain d where "h FZN_BLOB_HASH_LEN (FZN_BLOB_ROOT_LABEL @ fzn_put_be64 (of_nat (length xs)) @ merkle h xs) = Some d"
    using assms(1) unfolding hash_total_def by blast
  moreover have "subtree_root (Some (Some h)) xs lo n = (FZN_BLOB_OK, Some (merkle h (take n (drop lo xs))))" if "0 < n" "lo + n \<le> length xs" for lo n
    using subtree_root_is_merkle [OF assms(1) that(1) _ that(2)] that(2) assms(3) by simp
  ultimately show ?thesis using t apex_holds [OF assms(1) t(2) assms(2)]
    by (auto simp: fzn_blob_tree_root_def finalise_root_def tree_holds_def)
qed

text \<open>
  The last leaf of the largest tree is refused: with one leaf less than \<open>FZN_BLOB_MAX_LEAVES\<close> taken, the
  stack is full, and the leaf that the bound on leaves still allows is answered as full.
\<close>

theorem last_leaf_refused:
  assumes "hash_total h" and "length xs = FZN_BLOB_MAX_LEAVES - 1"
  shows "\<exists>t. push_all (Some (Some h)) fzn_blob_tree_init xs = (FZN_BLOB_OK, t) \<and> bt_leaves t < FZN_BLOB_MAX_LEAVES \<and>
    fzn_blob_tree_push (Some (Some h)) t (Some x) = (FZN_BLOB_ERR_FULL, t)"
proof -
  obtain t where t: "push_all (Some (Some h)) fzn_blob_tree_init xs = (FZN_BLOB_OK, t)" "tree_holds h t xs"
    using push_all_holds [OF assms(1) init_holds, of xs] assms(2) by auto
  moreover have "bt_leaves t = FZN_BLOB_MAX_LEAVES - 1" using t(2) assms(2) by (simp add: tree_holds_def)
  ultimately show ?thesis using depth_full [OF t(2) assms(2)] by (simp add: fzn_blob_tree_push_def)
qed

text \<open>
  A leaf survives its seal: what was sealed under a content key at an index fits the caller's buffer, is of
  the size a tree takes, and opens under the same key and index to the bytes that were sealed; sealed bytes
  that begin with another commitment are refused before the cipher is asked.
\<close>

theorem leaf_round_trip:
  assumes "hash_total h" and "aead_inverts aead"
    and "fzn_blob_leaf_seal (Some (Some h)) (Some aead) (Some ck) index (Some plain) out_cap = (FZN_BLOB_OK, Some sealed)" and "length plain \<le> cap"
  shows "fzn_blob_leaf_open (Some (Some h)) (Some aead) (Some ck) index (Some sealed) cap = (FZN_BLOB_OK, Some plain) \<and>
    length sealed = length plain + FZN_BLOB_LEAF_OVERHEAD \<and> length sealed \<le> out_cap \<and> 1 \<le> length plain \<and> length plain \<le> FZN_BLOB_LEAF_SIZE \<and>
    (\<exists>d. fzn_blob_leaf_hash (Some (Some h)) (Some sealed) = (FZN_BLOB_OK, Some d)) \<and>
    (\<forall>forged. length forged = length sealed \<and> take FZN_COMMITMENT_LEN forged \<noteq> take FZN_COMMITMENT_LEN sealed \<longrightarrow>
      fzn_blob_leaf_open (Some (Some h)) (Some aead) (Some ck) index (Some forged) cap = (FZN_BLOB_ERR_COMMITMENT, None))"
proof -
  obtain aseal aopen where a: "ao_seal aead = Some aseal" "ao_open aead = Some aopen"
    using assms(2) by (auto simp: aead_inverts_def split: option.splits)
  obtain d where d: "h FZN_BLOB_DERIVED_LEN (FZN_BLOB_KEY_LABEL @ ck @ fzn_put_be64 index) = Some d" "length d = FZN_BLOB_DERIVED_LEN"
    using assms(1) unfolding hash_total_def by blast
  let ?key = "take FZN_AEAD_KEY_LEN d" and ?c = "bytes_at FZN_AEAD_KEY_LEN FZN_COMMITMENT_LEN d"
  have derived: "fzn_blob_derive_leaf (Some (Some h)) (Some ck) index = (FZN_BLOB_OK, Some (?key, ?c))" using d(1) by (simp add: fzn_blob_derive_leaf_def)
  have c: "length ?c = 16" using d(2) by simp
  obtain body tag where s: "aseal ?key (nonce_for_index index) ?c plain = Some (body, tag)" "sealed = ?c @ body @ tag"
      "1 \<le> length plain" "length plain \<le> 1024" "length plain + FZN_BLOB_LEAF_OVERHEAD \<le> out_cap"
    using assms(3) derived a by (auto simp: fzn_blob_leaf_seal_def Let_def Suc_le_eq split: if_splits option.splits)
  have inv: "length body = length plain" "length tag = 16" "aopen ?key (nonce_for_index index) ?c body tag = Some plain"
    using assms(2) s(1) a by (auto simp: aead_inverts_def)
  have "plain \<noteq> []" using s(3) by auto
  obtain lh where "h FZN_BLOB_HASH_LEN (FZN_BLOB_LEAF_PREFIX # sealed) = Some lh" using assms(1) unfolding hash_total_def by blast
  then have "fzn_blob_leaf_hash (Some (Some h)) (Some sealed) = (FZN_BLOB_OK, Some lh)" using s c inv by (simp add: fzn_blob_leaf_hash_def)
  moreover have "fzn_blob_leaf_open (Some (Some h)) (Some aead) (Some ck) index (Some sealed) cap = (FZN_BLOB_OK, Some plain)"
    using a derived s c inv assms(4) \<open>plain \<noteq> []\<close> by (simp add: fzn_blob_leaf_open_def Let_def ct_memeq_prefix bytes_at_def)
  moreover have "fzn_blob_leaf_open (Some (Some h)) (Some aead) (Some ck) index (Some forged) cap = (FZN_BLOB_ERR_COMMITMENT, None)"
    if "length forged = length sealed" "take FZN_COMMITMENT_LEN forged \<noteq> take FZN_COMMITMENT_LEN sealed" for forged
    using that a derived s c inv assms(4) \<open>plain \<noteq> []\<close> by (simp add: fzn_blob_leaf_open_def Let_def ct_memeq_prefix)
  ultimately show ?thesis using s c inv by auto
qed

lemma unat_1024: "unat (a div (1024 :: u64)) = unat a div 1024" "unat (a mod (1024 :: u64)) = unat a mod 1024"
  by (simp_all add: unat_div unat_mod)

lemma unat_inc: "unat (a :: u64) \<le> 2 ^ 50 \<Longrightarrow> unat (a + 1) = unat a + 1"
  using unat_add_lem [THEN iffD1, of a 1] by simp

lemma leaf_count_nat:
  assumes "0 < c"
  shows "((c + 1023) div 1024 - 1) * 1024 + (if c mod 1024 = 0 then 1024 else c mod 1024) = c" and "1 \<le> (c + 1023) div (1024 :: nat)"
proof -
  obtain q r where c: "c = 1024 * q + r" "r < 1024" using mod_less_divisor [of 1024 c] by (metis mult_div_mod_eq zero_less_numeral)
  have "(r + 1023) div 1024 = (if r = 0 then 0 else 1)" using c(2) by (auto simp: div_nat_eqI)
  moreover have "c + 1023 = r + 1023 + 1024 * q" using c(1) by simp
  ultimately have leaves: "(c + 1023) div 1024 = (if r = 0 then 0 else 1) + q" by simp
  have "c mod 1024 = r" using c by simp
  then show "((c + 1023) div 1024 - 1) * 1024 + (if c mod 1024 = 0 then 1024 else c mod 1024) = c" "1 \<le> (c + 1023) div (1024 :: nat)"
    unfolding leaves using c(1) assms by (cases q; simp)+
qed

lemma leaf_count_div: "(c + 1023) div 1024 = (if c mod 1024 = 0 then c div 1024 else c div 1024 + 1 :: nat)"
  using div_add1_eq [of c 1023 1024] by (auto simp: div_nat_eqI)

lemma geometry_spec:
  assumes "content_len \<noteq> 0" and "content_len \<le> BLOB_MAX_CONTENT"
  defines "c \<equiv> unat content_len"
  shows "\<exists>leaves last_len. fzn_blob_geometry content_len = (FZN_BLOB_OK, Some (leaves, last_len)) \<and> unat leaves = (c + 1023) div 1024 \<and>
    last_len = (if c mod 1024 = 0 then 1024 else c mod 1024)"
proof -
  have c: "c \<le> 2 ^ 50" using assms(2) by (simp add: c_def word_le_nat_alt)
  have tail: "content_len mod 1024 = 0 \<longleftrightarrow> c mod 1024 = 0" by (simp add: word_unat_eq_iff unat_1024 c_def)
  have "unat (content_len div 1024 + 1) = c div 1024 + 1"
    using c div_le_dividend [of c 1024] unat_inc [of "content_len div 1024"] by (simp add: unat_1024 c_def)
  then show ?thesis using assms(1,2) tail unfolding fzn_blob_geometry_def
    by (cases "c mod 1024 = 0") (simp_all add: Let_def unat_1024 c_def [symmetric] not_less leaf_count_div)
qed

lemma extent_spec:
  assumes "content_len \<noteq> 0" and "content_len \<le> BLOB_MAX_CONTENT" and "len \<noteq> 0" and "unat offset + unat len \<le> unat content_len"
  shows "\<exists>x. fzn_blob_extent_of content_len offset len = (FZN_BLOB_OK, Some x) \<and> unat (be_first x) = unat offset div 1024 \<and>
    unat (be_count x) = (unat offset + unat len - 1) div 1024 - unat offset div 1024 + 1 \<and> be_skip x = unat offset mod 1024"
proof -
  have c: "unat content_len \<le> 2 ^ 50" using assms(2) by (simp add: word_le_nat_alt)
  have n: "0 < unat len" using assms(3) unat_gt_0 by blast
  have sum: "unat (offset + len) = unat offset + unat len" using unat_add_lem [of offset len] assms(4) c by simp
  have lt: "\<not> content_len \<le> offset" using assms(4) n by (simp add: word_le_nat_alt)
  then have "unat (content_len - offset) = unat content_len - unat offset" by (simp add: unat_sub)
  then have room: "\<not> content_len - offset < len" using assms(4) by (simp add: word_less_nat_alt)
  have "1 \<le> offset + len" using sum n by (simp add: word_le_nat_alt)
  then have last: "unat ((offset + len - 1) div 1024) = (unat offset + unat len - 1) div 1024" by (simp add: unat_1024 unat_sub sum)
  let ?k = "(offset + len - 1) div 1024 - offset div 1024"
  have "unat offset div 1024 \<le> (unat offset + unat len - 1) div 1024" using n by (intro div_le_mono) simp
  then have k: "unat ?k = (unat offset + unat len - 1) div 1024 - unat offset div 1024" using last by (subst unat_sub) (simp_all add: word_le_nat_alt unat_1024)
  have "(unat offset + unat len - 1) div 1024 \<le> 2 ^ 50" using div_le_dividend [of "unat offset + unat len - 1" 1024] assms(4) c by linarith
  then have "unat (?k + 1) = unat ?k + 1" using k by (intro unat_inc) linarith
  then show ?thesis using assms(1-3) lt room k by (simp add: fzn_blob_extent_of_def Let_def not_less unat_1024)
qed

lemma extent_refused:
  assumes "content_len \<noteq> 0" and "content_len \<le> BLOB_MAX_CONTENT" and "len = 0 \<or> unat offset + unat len > unat content_len"
  shows "fzn_blob_extent_of content_len offset len = (FZN_BLOB_ERR_MALFORMED, None)"
proof -
  have "len > content_len - offset" if "\<not> content_len \<le> offset" "len \<noteq> 0"
    using that assms(3) by (simp add: word_less_nat_alt word_le_nat_alt unat_sub not_le)
  then show ?thesis using assms(1,2) by (auto simp: fzn_blob_extent_of_def not_less)
qed

text \<open>
  C39. Where a byte lives. For every size of content the leaves and the length of the last one add up to it; a
  range inside the content is covered by the leaves it is answered with, the first of them holds its
  first byte, at the offset answered, the last its last byte, and all of them are leaves of the content. Nothing
  wraps, at any size and offset of 64 bits; every range that leaves the content is refused.
\<close>

theorem extent_covers:
  assumes "content_len \<noteq> 0" and "content_len \<le> BLOB_MAX_CONTENT"
  shows "\<exists>leaves last_len. fzn_blob_geometry content_len = (FZN_BLOB_OK, Some (leaves, last_len)) \<and>
    1 \<le> last_len \<and> last_len \<le> FZN_BLOB_LEAF_SIZE \<and> (unat leaves - 1) * FZN_BLOB_LEAF_SIZE + last_len = unat content_len \<and>
    1 \<le> unat leaves \<and> unat leaves \<le> FZN_BLOB_MAX_LEAVES \<and>
    (\<exists>x. fzn_blob_extent_of content_len offset len =
      (if len = 0 \<or> unat offset + unat len > unat content_len then (FZN_BLOB_ERR_MALFORMED, None) else (FZN_BLOB_OK, Some x)) \<and>
      (len \<noteq> 0 \<and> unat offset + unat len \<le> unat content_len \<longrightarrow>
        unat (be_first x) * FZN_BLOB_LEAF_SIZE + be_skip x = unat offset \<and> be_skip x < FZN_BLOB_LEAF_SIZE \<and> 1 \<le> unat (be_count x) \<and>
        (unat (be_first x) + unat (be_count x) - 1) * FZN_BLOB_LEAF_SIZE < unat offset + unat len \<and>
        unat offset + unat len \<le> (unat (be_first x) + unat (be_count x)) * FZN_BLOB_LEAF_SIZE \<and>
        unat (be_first x) + unat (be_count x) \<le> unat leaves))"
proof -
  let ?c = "unat content_len" and ?o = "unat offset" and ?n = "unat len"
  have c: "0 < ?c" "?c \<le> 2 ^ 50" using assms by (simp_all add: word_le_nat_alt unat_gt_0)
  obtain leaves last_len where g: "fzn_blob_geometry content_len = (FZN_BLOB_OK, Some (leaves, last_len))" "unat leaves = (?c + 1023) div 1024"
    "last_len = (if ?c mod 1024 = 0 then 1024 else ?c mod 1024)" using geometry_spec [OF assms] by blast
  have "1 \<le> last_len \<and> last_len \<le> 1024 \<and> (unat leaves - 1) * 1024 + last_len = ?c \<and> 1 \<le> unat leaves" 
    using leaf_count_nat [OF c(1)] unfolding g(2,3) by (simp add: Suc_le_eq less_imp_le)
  moreover have "unat leaves \<le> 2 ^ 40" unfolding g(2) using c(2) by simp
  moreover have "\<exists>x. fzn_blob_extent_of content_len offset len = (if len = 0 \<or> ?o + ?n > ?c then (FZN_BLOB_ERR_MALFORMED, None) else (FZN_BLOB_OK, Some x)) \<and>
      (len \<noteq> 0 \<and> ?o + ?n \<le> ?c \<longrightarrow> unat (be_first x) * 1024 + be_skip x = ?o \<and> be_skip x < 1024 \<and> 1 \<le> unat (be_count x) \<and>
        (unat (be_first x) + unat (be_count x) - 1) * 1024 < ?o + ?n \<and> ?o + ?n \<le> (unat (be_first x) + unat (be_count x)) * 1024 \<and>
        unat (be_first x) + unat (be_count x) \<le> unat leaves)"
  proof (cases "len = 0 \<or> ?o + ?n > ?c")
    case True
    then show ?thesis using extent_refused [OF assms, of len offset] by auto
  next
    case False
    then obtain x where x: "fzn_blob_extent_of content_len offset len = (FZN_BLOB_OK, Some x)" "unat (be_first x) = ?o div 1024"
      "unat (be_count x) = (?o + ?n - 1) div 1024 - ?o div 1024 + 1" "be_skip x = ?o mod 1024" using extent_spec [OF assms, of len offset] by auto
    let ?m = "?o + ?n - 1"
    have n: "0 < ?n" using False by (simp add: unat_gt_0)
    then have m: "?m + 1 = ?o + ?n" by simp
    have "?o div 1024 \<le> ?m div 1024" using n by (intro div_le_mono) simp
    then have sum: "unat (be_first x) + unat (be_count x) = ?m div 1024 + 1" unfolding x(2,3) by simp
    have "(?m + 1024) div 1024 \<le> unat leaves" unfolding g(2) using False m by (intro div_le_mono) linarith
    then have top: "?m div 1024 + 1 \<le> unat leaves" by simp
    have whole: "(k div 1024 + 1 - 1) * 1024 < k + 1 \<and> k + 1 \<le> (k div 1024 + 1) * 1024" for k :: nat
      using dividend_less_div_times [of 1024 k] div_times_less_eq_dividend [of k 1024] by simp
    note cov = whole [of ?m, unfolded m]
    then show ?thesis using x False sum top by (intro exI [of _ x]) (simp only: if_False simp_thms sum cov, simp add: x)
  qed
  ultimately show ?thesis using g(1) by (intro exI [of _ leaves] exI [of _ last_len]) simp
qed

section \<open>Witnesses\<close>

theorem stream_is_merkle_witness:
  "\<exists>t. push_all (Some (Some demo_hash)) fzn_blob_tree_init [replicate 32 1, replicate 32 2, replicate 32 3] = (FZN_BLOB_OK, t) \<and>
    fzn_blob_tree_root (Some (Some demo_hash)) (Some t) = (FZN_BLOB_OK, demo_hash 32 (FZN_BLOB_ROOT_LABEL @ fzn_put_be64 3 @
      merkle demo_hash [replicate 32 1, replicate 32 2, replicate 32 3]))"
  using stream_is_merkle [OF demo_ratchet(1), of "[replicate 32 1, replicate 32 2, replicate 32 3]"] by auto

theorem last_leaf_refused_witness:
  "\<exists>t. push_all (Some (Some demo_hash)) fzn_blob_tree_init (replicate (2 ^ 40 - 1) (replicate 32 0)) = (FZN_BLOB_OK, t) \<and>
    fzn_blob_tree_push (Some (Some demo_hash)) t (Some (replicate 32 0)) = (FZN_BLOB_ERR_FULL, t)"
  using last_leaf_refused [OF demo_ratchet(1) length_replicate, of "replicate 32 0" "replicate 32 0"] by blast

theorem leaf_round_trip_witness:
  "\<exists>s. fzn_blob_leaf_seal (Some (Some demo_hash)) (Some demo_aead) (Some (replicate 32 7)) 5 (Some [1, 2, 3]) 100 = (FZN_BLOB_OK, Some s) \<and>
    fzn_blob_leaf_open (Some (Some demo_hash)) (Some demo_aead) (Some (replicate 32 7)) 5 (Some s) 3 = (FZN_BLOB_OK, Some [1, 2, 3])"
proof -
  have "fst (fzn_blob_leaf_seal (Some (Some demo_hash)) (Some demo_aead) (Some (replicate 32 7)) 5 (Some [1, 2, 3]) 100) = FZN_BLOB_OK \<and>
      snd (fzn_blob_leaf_seal (Some (Some demo_hash)) (Some demo_aead) (Some (replicate 32 7)) 5 (Some [1, 2, 3]) 100) \<noteq> None" by code_simp
  then obtain s where s: "fzn_blob_leaf_seal (Some (Some demo_hash)) (Some demo_aead) (Some (replicate 32 7)) 5 (Some [1, 2, 3]) 100 = (FZN_BLOB_OK, Some s)"
    by (metis option.exhaust prod.collapse)
  then show ?thesis using leaf_round_trip [OF demo_ratchet(1) demo_seams(1) s, of 3] by auto
qed

theorem extent_covers_witness:
  "\<exists>x. fzn_blob_extent_of 5000 1000 3000 = (FZN_BLOB_OK, Some x) \<and> unat (be_first x) * 1024 + be_skip x = 1000 \<and>
    (unat (be_first x) + unat (be_count x) - 1) * 1024 < 4000 \<and> 4000 \<le> (unat (be_first x) + unat (be_count x)) * 1024"
  using extent_covers [of 5000 1000 3000] by auto

end
