(* ===== verification/Blob_Proof.thy ===== *)
theory Blob_Proof
  imports Blob
begin

text \<open>
  Proofs over the hash tree (\<open>blob/blob.c\<close>): that a leaf, or a span of leaves that is a node of the tree,
  belongs to a root. The walk down the tree is shown to follow the one route to the node, a proof
  that was built to be accepted, and an accepted proof to name what the tree holds there, or to
  exhibit two different inputs of one hash.
\<close>

section \<open>The model\<close>

text \<open>
  Siblings are written from the root downwards; a path holds \<open>0\<close> for the left half and \<open>1\<close> for the right. What the
  loops carry in a counter is the length of the list written so far.
\<close>

function proof_loop :: "hash_ops \<Rightarrow> bytes list \<Rightarrow> nat \<Rightarrow> nat \<Rightarrow> nat \<Rightarrow> nat \<Rightarrow> bytes list \<Rightarrow> fzn_blob_err \<times> bytes list" where
  "proof_loop hash leaf_hashes index out_cap lo n out =
     (if n \<le> 1 then (FZN_BLOB_OK, out)
      else if length out \<ge> FZN_BLOB_MAX_DEPTH then (FZN_BLOB_ERR_SHAPE, out)
      else if out_cap < (length out + 1) * FZN_BLOB_HASH_LEN then (FZN_BLOB_ERR_MALFORMED, out)
      else if index - lo < split_at n then
        (case subtree_root hash leaf_hashes (lo + split_at n) (n - split_at n) of
           (FZN_BLOB_OK, Some sibling) \<Rightarrow> proof_loop hash leaf_hashes index out_cap lo (split_at n) (out @ [sibling])
         | (err, _) \<Rightarrow> (err, out))
      else
        (case subtree_root hash leaf_hashes lo (split_at n) of
           (FZN_BLOB_OK, Some sibling) \<Rightarrow> proof_loop hash leaf_hashes index out_cap (lo + split_at n) (n - split_at n) (out @ [sibling])
         | (err, _) \<Rightarrow> (err, out)))"
  by pat_completeness auto
termination
  by (relation "measure (\<lambda>(hash, leaf_hashes, index, out_cap, lo, n, out). n)") (use split_at_bounds in \<open>auto simp: not_le\<close>)

declare proof_loop.simps [simp del]

definition fzn_blob_proof_build :: "hash_ops \<Rightarrow> bytes list option \<Rightarrow> nat \<Rightarrow> nat \<Rightarrow> nat \<Rightarrow> fzn_blob_err \<times> bytes list" where
  "fzn_blob_proof_build hash leaf_hashes leaf_count index out_cap =
     (if hash = None \<or> leaf_hashes = None then (FZN_BLOB_ERR_MALFORMED, [])
      else if leaf_count = 0 \<or> leaf_count > FZN_BLOB_MAX_LEAVES \<or> index \<ge> leaf_count then (FZN_BLOB_ERR_MALFORMED, [])
      else proof_loop hash (the leaf_hashes) index out_cap 0 leaf_count [])"

function path_loop :: "nat \<Rightarrow> nat \<Rightarrow> nat \<Rightarrow> nat list \<Rightarrow> fzn_blob_err \<times> nat list" where
  "path_loop index lo n path =
     (if n \<le> 1 then (FZN_BLOB_OK, path)
      else if length path \<ge> FZN_BLOB_MAX_DEPTH then (FZN_BLOB_ERR_SHAPE, path)
      else if index - lo < split_at n then path_loop index lo (split_at n) (path @ [0])
      else path_loop index (lo + split_at n) (n - split_at n) (path @ [1]))"
  by pat_completeness auto
termination
  by (relation "measure (\<lambda>(index, lo, n, path). n)") (use split_at_bounds in \<open>auto simp: not_le\<close>)

declare path_loop.simps [simp del]

fun climb :: "hash_ops \<Rightarrow> nat list \<Rightarrow> bytes list \<Rightarrow> nat \<Rightarrow> bytes \<Rightarrow> fzn_blob_err \<times> bytes option" where
  "climb hash path siblings 0 acc = (FZN_BLOB_OK, Some acc)"
| "climb hash path siblings (Suc i) acc =
     (case (if path ! i = 0 then fzn_blob_node_hash hash acc (siblings ! i) else fzn_blob_node_hash hash (siblings ! i) acc) of
        (FZN_BLOB_OK, Some acc') \<Rightarrow> climb hash path siblings i acc'
      | (err, _) \<Rightarrow> (err, None))"

text \<open>
  Verifying a leaf asks for the table of hash operations and not for the operation in it; the result
  \<open>None\<close> is a call through the absent operation, which the program does not survive.
\<close>

definition fzn_blob_proof_verify :: "hash_ops \<Rightarrow> bytes option \<Rightarrow> nat \<Rightarrow> nat \<Rightarrow> bytes list option \<Rightarrow> nat \<Rightarrow> bytes option \<Rightarrow> fzn_blob_err option" where
  "fzn_blob_proof_verify hash leaf_hash index leaf_count siblings sibling_count root =
     (if hash = None \<or> leaf_hash = None \<or> root = None then Some FZN_BLOB_ERR_MALFORMED
      else if leaf_count = 0 \<or> leaf_count > FZN_BLOB_MAX_LEAVES \<or> index \<ge> leaf_count then Some FZN_BLOB_ERR_MALFORMED
      else if sibling_count > FZN_BLOB_MAX_DEPTH then Some FZN_BLOB_ERR_SHAPE
      else if sibling_count > 0 \<and> siblings = None then Some FZN_BLOB_ERR_MALFORMED
      else (case path_loop index 0 leaf_count [] of
          (FZN_BLOB_OK, path) \<Rightarrow>
            if sibling_count \<noteq> length path then Some FZN_BLOB_ERR_PROOF
            else (case climb hash path (case siblings of Some ss \<Rightarrow> ss | None \<Rightarrow> []) (length path) (the leaf_hash) of
                (FZN_BLOB_OK, Some acc) \<Rightarrow>
                  (case the hash of
                     None \<Rightarrow> None
                   | Some h \<Rightarrow> (case finalise_root h acc leaf_count of
                       (FZN_BLOB_OK, Some r) \<Rightarrow> Some (if fzn_ct_memeq (Some r) root FZN_BLOB_HASH_LEN then FZN_BLOB_OK else FZN_BLOB_ERR_PROOF)
                     | (err, _) \<Rightarrow> Some err))
              | (err, _) \<Rightarrow> Some err)
        | (err, _) \<Rightarrow> Some err))"

text \<open>
  The descent shared by the span functions. Where the caller gives no room for siblings it only looks
  for the node.
\<close>

type_synonym fzn_blob_subtree = "nat \<Rightarrow> nat \<Rightarrow> fzn_blob_err \<times> bytes option"

definition put_sibling :: "fzn_blob_subtree option \<Rightarrow> nat \<Rightarrow> nat \<Rightarrow> nat \<Rightarrow> nat \<Rightarrow> bytes list \<Rightarrow> fzn_blob_err \<times> bytes list" where
  "put_sibling subtree cap depth lo n siblings =
     (case subtree of
        None \<Rightarrow> (FZN_BLOB_OK, siblings)
      | Some f \<Rightarrow>
          if cap < (depth + 1) * FZN_BLOB_HASH_LEN then (FZN_BLOB_ERR_MALFORMED, siblings)
          else (case f lo n of (FZN_BLOB_OK, Some s) \<Rightarrow> (FZN_BLOB_OK, siblings @ [s]) | (err, _) \<Rightarrow> (err, siblings)))"

function span_loop :: "fzn_blob_subtree option \<Rightarrow> nat \<Rightarrow> nat \<Rightarrow> nat \<Rightarrow> nat \<Rightarrow> nat \<Rightarrow> bytes list \<Rightarrow> nat list \<Rightarrow> fzn_blob_err \<times> bytes list \<times> nat list" where
  "span_loop subtree cap first cnt lo n siblings path =
     (if lo = first \<and> n = cnt then (FZN_BLOB_OK, siblings, path)
      else if n \<le> 1 then (FZN_BLOB_ERR_SHAPE, siblings, path)
      else if length path \<ge> FZN_BLOB_MAX_DEPTH then (FZN_BLOB_ERR_SHAPE, siblings, path)
      else if first + cnt \<le> lo + split_at n then
        (case put_sibling subtree cap (length path) (lo + split_at n) (n - split_at n) siblings of
           (FZN_BLOB_OK, siblings') \<Rightarrow> span_loop subtree cap first cnt lo (split_at n) siblings' (path @ [0])
         | (err, siblings') \<Rightarrow> (err, siblings', path))
      else if first \<ge> lo + split_at n then
        (case put_sibling subtree cap (length path) lo (split_at n) siblings of
           (FZN_BLOB_OK, siblings') \<Rightarrow> span_loop subtree cap first cnt (lo + split_at n) (n - split_at n) siblings' (path @ [1])
         | (err, siblings') \<Rightarrow> (err, siblings', path))
      else (FZN_BLOB_ERR_SHAPE, siblings, path))"
  by pat_completeness auto
termination
  by (relation "measure (\<lambda>(subtree, cap, first, cnt, lo, n, siblings, path). n)") (use split_at_bounds in \<open>auto simp: not_le\<close>)

declare span_loop.simps [simp del]

definition span_walk :: "fzn_blob_subtree option \<Rightarrow> nat \<Rightarrow> nat \<Rightarrow> nat \<Rightarrow> nat \<Rightarrow> fzn_blob_err \<times> bytes list \<times> nat list" where
  "span_walk subtree leaf_count first cnt cap =
     (if cnt = 0 \<or> first > leaf_count - cnt then (FZN_BLOB_ERR_MALFORMED, [], [])
      else span_loop subtree cap first cnt 0 leaf_count [] [])"

definition bad_span :: "nat \<Rightarrow> nat \<Rightarrow> nat \<Rightarrow> bool" where
  "bad_span leaf_count first cnt \<longleftrightarrow> cnt = 0 \<or> cnt > leaf_count \<or> first > leaf_count - cnt"

definition fzn_blob_span_is_canonical :: "nat \<Rightarrow> nat \<Rightarrow> nat \<Rightarrow> bool" where
  "fzn_blob_span_is_canonical leaf_count first cnt =
     (if leaf_count = 0 \<or> leaf_count > FZN_BLOB_MAX_LEAVES then False
      else if bad_span leaf_count first cnt then False
      else fst (span_walk None leaf_count first cnt 0) = FZN_BLOB_OK)"

definition fzn_blob_span_proof_from :: "fzn_blob_subtree option \<Rightarrow> nat \<Rightarrow> nat \<Rightarrow> nat \<Rightarrow> nat \<Rightarrow> fzn_blob_err \<times> bytes list" where
  "fzn_blob_span_proof_from subtree leaf_count first cnt out_cap =
     (if subtree = None then (FZN_BLOB_ERR_MALFORMED, [])
      else if leaf_count = 0 \<or> leaf_count > FZN_BLOB_MAX_LEAVES then (FZN_BLOB_ERR_MALFORMED, [])
      else if bad_span leaf_count first cnt then (FZN_BLOB_ERR_MALFORMED, [])
      else (case span_walk subtree leaf_count first cnt out_cap of (err, siblings, _) \<Rightarrow> (err, siblings)))"

definition fzn_blob_span_proof_build :: "hash_ops \<Rightarrow> bytes list option \<Rightarrow> nat \<Rightarrow> nat \<Rightarrow> nat \<Rightarrow> nat \<Rightarrow> fzn_blob_err \<times> bytes list" where
  "fzn_blob_span_proof_build hash leaf_hashes leaf_count first cnt out_cap =
     (case (hash, leaf_hashes) of
        (Some (Some h), Some ls) \<Rightarrow>
          if leaf_count = 0 \<or> leaf_count > FZN_BLOB_MAX_LEAVES then (FZN_BLOB_ERR_MALFORMED, [])
          else if bad_span leaf_count first cnt then (FZN_BLOB_ERR_MALFORMED, [])
          else (case span_walk (Some (subtree_root hash ls)) leaf_count first cnt out_cap of (err, siblings, _) \<Rightarrow> (err, siblings))
      | _ \<Rightarrow> (FZN_BLOB_ERR_MALFORMED, []))"

definition fzn_blob_span_proof_verify :: "hash_ops \<Rightarrow> bytes option \<Rightarrow> nat \<Rightarrow> nat \<Rightarrow> nat \<Rightarrow> bytes list option \<Rightarrow> nat \<Rightarrow> bytes option \<Rightarrow> fzn_blob_err" where
  "fzn_blob_span_proof_verify hash span_root first cnt leaf_count siblings sibling_count root =
     (case (hash, span_root) of
        (Some (Some h), Some sr) \<Rightarrow>
          if root = None then FZN_BLOB_ERR_MALFORMED
          else if leaf_count = 0 \<or> leaf_count > FZN_BLOB_MAX_LEAVES then FZN_BLOB_ERR_MALFORMED
          else if bad_span leaf_count first cnt then FZN_BLOB_ERR_MALFORMED
          else if sibling_count > FZN_BLOB_MAX_DEPTH then FZN_BLOB_ERR_SHAPE
          else if sibling_count > 0 \<and> siblings = None then FZN_BLOB_ERR_MALFORMED
          else (case span_walk None leaf_count first cnt 0 of
              (FZN_BLOB_OK, _, path) \<Rightarrow>
                if sibling_count \<noteq> length path then FZN_BLOB_ERR_SHAPE
                else (case climb hash path (case siblings of Some ss \<Rightarrow> ss | None \<Rightarrow> []) (length path) sr of
                    (FZN_BLOB_OK, Some acc) \<Rightarrow>
                      (case finalise_root h acc leaf_count of
                         (FZN_BLOB_OK, Some r) \<Rightarrow> if fzn_ct_memeq (Some r) root FZN_BLOB_HASH_LEN then FZN_BLOB_OK else FZN_BLOB_ERR_PROOF
                       | (err, _) \<Rightarrow> err)
                  | (err, _) \<Rightarrow> err)
            | (err, _) \<Rightarrow> err)
      | _ \<Rightarrow> FZN_BLOB_ERR_MALFORMED)"

function largest_loop :: "nat \<Rightarrow> nat \<Rightarrow> nat \<Rightarrow> nat \<Rightarrow> nat" where
  "largest_loop first max_count lo n =
     (if lo = first \<and> n \<le> max_count then n
      else if n \<le> 1 then 0
      else if first < lo + split_at n then largest_loop first max_count lo (split_at n)
      else largest_loop first max_count (lo + split_at n) (n - split_at n))"
  by pat_completeness auto
termination
  by (relation "measure (\<lambda>(first, max_count, lo, n). n)") (use split_at_bounds in \<open>auto simp: not_le\<close>)

declare largest_loop.simps [simp del]

definition fzn_blob_span_largest_at :: "nat \<Rightarrow> nat \<Rightarrow> nat \<Rightarrow> nat" where
  "fzn_blob_span_largest_at leaf_count first max_count =
     (if leaf_count = 0 \<or> leaf_count > FZN_BLOB_MAX_LEAVES \<or> first \<ge> leaf_count then 0
      else if max_count = 0 then 0
      else largest_loop first max_count 0 leaf_count)"

section \<open>Routes through the tree\<close>

text \<open>
  The one way from a node of the tree down to another: at each step the half that is entered and the
  range of the half that is left aside.
\<close>

inductive route :: "nat \<Rightarrow> nat \<Rightarrow> nat \<Rightarrow> nat \<Rightarrow> (nat \<times> nat \<times> nat) list \<Rightarrow> bool" where
  here: "route lo n lo n []"
| left: "1 < n \<Longrightarrow> route lo (split_at n) f c r \<Longrightarrow> route lo n f c ((0, lo + split_at n, n - split_at n) # r)"
| right: "1 < n \<Longrightarrow> route (lo + split_at n) (n - split_at n) f c r \<Longrightarrow> route lo n f c ((1, lo, split_at n) # r)"

inductive_cases route_here: "route lo n f c []"
inductive_cases route_step: "route lo n f c (s # r)"

lemma route_range: "route lo n f c r \<Longrightarrow> 0 < n \<Longrightarrow> lo \<le> f \<and> f + c \<le> lo + n \<and> 0 < c"
  by (induction rule: route.induct) (use split_at_bounds in fastforce)+

lemma split_loop_is_power: "\<exists>e. split_loop (2 ^ j) n = 2 ^ e"
proof (induction "n - 2 ^ j" arbitrary: j rule: less_induct)
  case less
  show ?case
  proof (cases "2 * 2 ^ j < n")
    case True
    moreover have "0 < (2 :: nat) ^ j" by simp
    ultimately have "n - 2 ^ Suc j < n - 2 ^ j" unfolding power_Suc by linarith
    from less [OF this] True show ?thesis by (subst split_loop.simps) simp
  qed (subst split_loop.simps, auto)
qed

lemma split_half:
  assumes "1 < n" and "n \<le> 2 ^ d"
  shows "\<exists>d'. d = Suc d' \<and> split_at n \<le> 2 ^ d' \<and> n - split_at n \<le> 2 ^ d'"
proof -
  obtain e where e: "split_at n = 2 ^ e" using split_loop_is_power [of 0 n] by (auto simp: split_at_def)
  have "(2 :: nat) ^ e < 2 ^ d" using split_at_bounds [OF assms(1)] assms(2) unfolding e by linarith
  then have "e < d" by simp
  then obtain d' where d': "d = Suc d'" "e \<le> d'" by (cases d) simp_all
  then have "split_at n \<le> 2 ^ d'" unfolding e by (intro power_increasing) simp_all
  then show ?thesis using d' split_at_bounds [OF assms(1)] by auto
qed

lemma route_length: "route lo n f c r \<Longrightarrow> n \<le> 2 ^ d \<Longrightarrow> length r \<le> d"
proof (induction arbitrary: d rule: route.induct)
  case (left n lo f c r)
  then show ?case using split_half [OF left(1,4)] by auto
next
  case (right n lo f c r)
  then show ?case using split_half [OF right(1,4)] by auto
qed simp

lemma route_leaf: "lo \<le> i \<Longrightarrow> i < lo + n \<Longrightarrow> \<exists>r. route lo n i 1 r"
proof (induction n arbitrary: lo rule: less_induct)
  case (less n)
  show ?case
  proof (cases "n \<le> 1")
    case True
    then have "n = 1" "lo = i" using less.prems by auto
    then show ?thesis using route.here by blast
  next
    case False
    then have s: "0 < split_at n" "split_at n < n" using split_at_bounds by auto
    show ?thesis
    proof (cases "i < lo + split_at n")
      case True
      then show ?thesis using less.IH [OF s(2) less.prems(1)] False route.left by (metis not_le)
    next
      case right: False
      then show ?thesis using less.IH [of "n - split_at n" "lo + split_at n"] less.prems(2) s False route.right by (metis add.assoc diff_less le_add_diff_inverse less_imp_le not_le zero_less_one less_trans)
    qed
  qed
qed

lemma span_loop_follows:
  assumes "\<forall>(p, a, b) \<in> set r. \<forall>depth < FZN_BLOB_MAX_DEPTH. \<forall>ss. put_sibling sub cap depth a b ss = (FZN_BLOB_OK, ss @ gs a b)"
    and "route lo n f c r" and "0 < n" and "length path + length r \<le> FZN_BLOB_MAX_DEPTH"
  shows "span_loop sub cap f c lo n sibs path = (FZN_BLOB_OK, sibs @ concat (map (\<lambda>(p, a, b). gs a b) r), path @ map fst r)"
  using assms(2,1,3,4)
proof (induction arbitrary: sibs path rule: route.induct)
  case (here lo n)
  then show ?case by (simp add: span_loop.simps)
next
  case (left n lo f c r)
  note b = split_at_bounds [OF left(1)]
  have rg: "lo \<le> f \<and> f + c \<le> lo + split_at n \<and> 0 < c" using route_range [OF left(2)] b by simp
  have "put_sibling sub cap (length path) (lo + split_at n) (n - split_at n) sibs = (FZN_BLOB_OK, sibs @ gs (lo + split_at n) (n - split_at n))"
    using left(4,6) by simp
  moreover have "span_loop sub cap f c lo (split_at n) (sibs @ gs (lo + split_at n) (n - split_at n)) (path @ [0]) =
      (FZN_BLOB_OK, (sibs @ gs (lo + split_at n) (n - split_at n)) @ concat (map (\<lambda>(p, a, b). gs a b) r), (path @ [0]) @ map fst r)"
    using left b by (intro left.IH) simp_all
  ultimately show ?case using rg b left(1,6) by (subst span_loop.simps) simp
next
  case (right n lo f c r)
  note b = split_at_bounds [OF right(1)]
  have rg: "lo + split_at n \<le> f \<and> 0 < c" using route_range [OF right(2)] b by simp
  have "put_sibling sub cap (length path) lo (split_at n) sibs = (FZN_BLOB_OK, sibs @ gs lo (split_at n))"
    using right(4,6) by simp
  moreover have "span_loop sub cap f c (lo + split_at n) (n - split_at n) (sibs @ gs lo (split_at n)) (path @ [1]) =
      (FZN_BLOB_OK, (sibs @ gs lo (split_at n)) @ concat (map (\<lambda>(p, a, b). gs a b) r), (path @ [1]) @ map fst r)"
    using right b by (intro right.IH) simp_all
  ultimately show ?case using rg b right(1,6) by (subst span_loop.simps) simp
qed

lemma span_loop_route:
  "span_loop sub cap f c lo n sibs path = (FZN_BLOB_OK, sibs', path') \<Longrightarrow> \<exists>r. route lo n f c r \<and> path' = path @ map fst r"
proof (induction sub cap f c lo n sibs path rule: span_loop.induct)
  case (1 sub cap f c lo n sibs path)
  note run = 1(3) [unfolded span_loop.simps [of sub cap f c lo n sibs path]]
  show ?case
  proof (cases "lo = f \<and> n = c")
    case True
    then show ?thesis using run route.here by auto
  next
    case False
    then have n: "\<not> n \<le> 1" "\<not> FZN_BLOB_MAX_DEPTH \<le> length path" using run by (simp_all split: if_splits)
    show ?thesis
    proof (cases "f + c \<le> lo + split_at n")
      case True
      then obtain ss where ss: "put_sibling sub cap (length path) (lo + split_at n) (n - split_at n) sibs = (FZN_BLOB_OK, ss)"
          "span_loop sub cap f c lo (split_at n) ss (path @ [0]) = (FZN_BLOB_OK, sibs', path')"
        using run False n by (auto split: prod.splits fzn_blob_err.splits)
      from 1(1) [OF False n True ss(1) [symmetric] refl ss(2)] obtain r where "route lo (split_at n) f c r" "path' = (path @ [0]) @ map fst r" by blast
      then show ?thesis using route.left [of n lo f c r] n(1) by (intro exI [of _ "(0, lo + split_at n, n - split_at n) # r"]) simp
    next
      case nl: False
      then have gt: "lo + split_at n \<le> f" using run False n by (auto split: if_splits)
      then obtain ss where ss: "put_sibling sub cap (length path) lo (split_at n) sibs = (FZN_BLOB_OK, ss)"
          "span_loop sub cap f c (lo + split_at n) (n - split_at n) ss (path @ [1]) = (FZN_BLOB_OK, sibs', path')"
        using run False n nl by (auto split: prod.splits fzn_blob_err.splits)
      from 1(2) [OF False n nl gt ss(1) [symmetric] refl ss(2)] obtain r where "route (lo + split_at n) (n - split_at n) f c r" "path' = (path @ [1]) @ map fst r" by blast
      then show ?thesis using route.right [of n lo f c r] n(1) by (intro exI [of _ "(1, lo, split_at n) # r"]) simp
    qed
  qed
qed

lemma path_loop_follows:
  "route lo n f c r \<Longrightarrow> c = 1 \<Longrightarrow> 0 < n \<Longrightarrow> length path + length r \<le> FZN_BLOB_MAX_DEPTH \<Longrightarrow> path_loop f lo n path = (FZN_BLOB_OK, path @ map fst r)"
proof (induction arbitrary: path rule: route.induct)
  case (here lo n)
  then show ?case by (simp add: path_loop.simps)
next
  case (left n lo f c r)
  note b = split_at_bounds [OF left(1)]
  have "f - lo < split_at n" using route_range [OF left(2)] b left(4) by linarith
  then show ?case using left b by (subst path_loop.simps) simp
next
  case (right n lo f c r)
  note b = split_at_bounds [OF right(1)]
  have "\<not> f - lo < split_at n" using route_range [OF right(2)] b right(4) by linarith
  then show ?case using right b by (subst path_loop.simps) simp
qed

lemma proof_loop_follows:
  "route lo n f c r \<Longrightarrow> c = 1 \<Longrightarrow> 0 < n \<Longrightarrow> \<forall>(p, a, b) \<in> set r. subtree_root hash ls a b = (FZN_BLOB_OK, Some (g a b)) \<Longrightarrow>
    length out + length r \<le> FZN_BLOB_MAX_DEPTH \<Longrightarrow> FZN_BLOB_MAX_DEPTH * FZN_BLOB_HASH_LEN \<le> cap \<Longrightarrow>
    proof_loop hash ls f cap lo n out = (FZN_BLOB_OK, out @ map (\<lambda>(p, a, b). g a b) r)"
proof (induction arbitrary: out rule: route.induct)
  case (here lo n)
  then show ?case by (simp add: proof_loop.simps)
next
  case (left n lo f c r)
  note b = split_at_bounds [OF left(1)]
  have "f - lo < split_at n" using route_range [OF left(2)] b left(4) by linarith
  then show ?case using left b by (subst proof_loop.simps) simp
next
  case (right n lo f c r)
  note b = split_at_bounds [OF right(1)]
  have "\<not> f - lo < split_at n" using route_range [OF right(2)] b right(4) by linarith
  then show ?case using right b by (subst proof_loop.simps) simp
qed

section \<open>Climbing back\<close>

abbreviation run_of :: "bytes list \<Rightarrow> nat \<Rightarrow> nat \<Rightarrow> bytes list" where
  "run_of xs lo n \<equiv> take n (drop lo xs)"

fun rise :: "fzn_hash_fn \<Rightarrow> nat list \<Rightarrow> bytes list \<Rightarrow> bytes \<Rightarrow> bytes" where
  "rise h (p # ps) (s # ss) acc = (if p = 0 then node_of h (rise h ps ss acc) s else node_of h s (rise h ps ss acc))"
| "rise h _ _ acc = acc"

text \<open>
  The inputs the verifier hashes on the way up, and those of the inner nodes of a tree.
\<close>

fun rise_inputs :: "fzn_hash_fn \<Rightarrow> nat list \<Rightarrow> bytes list \<Rightarrow> bytes \<Rightarrow> bytes list" where
  "rise_inputs h (p # ps) (s # ss) acc =
     (FZN_BLOB_NODE_PREFIX # (if p = 0 then rise h ps ss acc @ s else s @ rise h ps ss acc)) # rise_inputs h ps ss acc"
| "rise_inputs h _ _ acc = []"

function tree_inputs :: "fzn_hash_fn \<Rightarrow> bytes list \<Rightarrow> bytes list" where
  "tree_inputs h xs =
     (if length xs \<le> 1 then []
      else let l = take (split_at (length xs)) xs; r = drop (split_at (length xs)) xs in
        (FZN_BLOB_NODE_PREFIX # merkle h l @ merkle h r) # tree_inputs h l @ tree_inputs h r)"
  by auto
termination
  by (relation "measure (\<lambda>(h, xs). length xs)") (use split_at_bounds in \<open>force simp: not_le\<close>)+

declare tree_inputs.simps [simp del]

definition root_input :: "nat \<Rightarrow> bytes \<Rightarrow> bytes" where
  "root_input n apex = FZN_BLOB_ROOT_LABEL @ fzn_put_be64 (of_nat n) @ apex"

definition collision :: "fzn_hash_fn \<Rightarrow> bytes list \<Rightarrow> bytes list \<Rightarrow> bool" where
  "collision h as bs \<longleftrightarrow> (\<exists>a \<in> set as. \<exists>b \<in> set bs. a \<noteq> b \<and> h FZN_BLOB_HASH_LEN a = h FZN_BLOB_HASH_LEN b)"

lemma rise_append: "length ps = length ss \<Longrightarrow> rise h (ps @ [p]) (ss @ [s]) acc = rise h ps ss (rise h [p] [s] acc)"
  by (induction ps ss rule: list_induct2) simp_all

lemma climb_is_rise:
  assumes "hash_total h"
  shows "i \<le> length path \<Longrightarrow> i \<le> length sibs \<Longrightarrow> climb (Some (Some h)) path sibs i acc = (FZN_BLOB_OK, Some (rise h (take i path) (take i sibs) acc))"
  by (induction i arbitrary: acc) (simp_all add: node_hash_total [OF assms] take_Suc_conv_app_nth rise_append)

lemma merkle_slice:
  assumes "1 < n" and "lo + n \<le> length xs"
  shows "merkle h (run_of xs lo n) = node_of h (merkle h (run_of xs lo (split_at n))) (merkle h (run_of xs (lo + split_at n) (n - split_at n)))"
    and "tree_inputs h (run_of xs lo n) = (FZN_BLOB_NODE_PREFIX # merkle h (run_of xs lo (split_at n)) @ merkle h (run_of xs (lo + split_at n) (n - split_at n))) #
      tree_inputs h (run_of xs lo (split_at n)) @ tree_inputs h (run_of xs (lo + split_at n) (n - split_at n))"
proof -
  have len: "length (run_of xs lo n) = n" using assms(2) by simp
  have halves: "take (split_at n) (run_of xs lo n) = run_of xs lo (split_at n)" "drop (split_at n) (run_of xs lo n) = run_of xs (lo + split_at n) (n - split_at n)"
    using split_at_bounds [OF assms(1)] by (simp_all add: drop_take min_def add.commute)
  show "merkle h (run_of xs lo n) = node_of h (merkle h (run_of xs lo (split_at n))) (merkle h (run_of xs (lo + split_at n) (n - split_at n)))"
    using assms(1) by (subst merkle.simps) (simp only: len halves, simp)
  show "tree_inputs h (run_of xs lo n) = (FZN_BLOB_NODE_PREFIX # merkle h (run_of xs lo (split_at n)) @ merkle h (run_of xs (lo + split_at n) (n - split_at n))) #
      tree_inputs h (run_of xs lo (split_at n)) @ tree_inputs h (run_of xs (lo + split_at n) (n - split_at n))"
    using assms(1) by (subst tree_inputs.simps) (simp only: len halves Let_def, simp)
qed

lemma rise_reaches:
  "route lo n f c r \<Longrightarrow> lo + n \<le> length xs \<Longrightarrow>
    rise h (map fst r) (map (\<lambda>(p, a, b). merkle h (run_of xs a b)) r) (merkle h (run_of xs f c)) = merkle h (run_of xs lo n)"
proof (induction rule: route.induct)
  case (left n lo f c r)
  then show ?case using split_at_bounds [OF left(1)] merkle_slice(1) [OF left(1,4)] by simp
next
  case (right n lo f c r)
  then show ?case using split_at_bounds [OF right(1)] merkle_slice(1) [OF right(1,4)] by simp
qed simp

lemma length_rise: "hash_total h \<Longrightarrow> length acc = FZN_BLOB_HASH_LEN \<Longrightarrow> length (rise h ps ss acc) = FZN_BLOB_HASH_LEN"
  by (induction h ps ss acc rule: rise.induct) (simp_all add: length_node_of)

lemma length_merkle:
  assumes "hash_total h" and "\<forall>x \<in> set xs. length x = FZN_BLOB_HASH_LEN" and "xs \<noteq> []"
  shows "length (merkle h xs) = FZN_BLOB_HASH_LEN"
  using assms by (cases "length xs \<le> 1") (subst merkle.simps, simp add: length_node_of)+

lemma length_merkle_run:
  assumes "hash_total h" and "\<forall>x \<in> set xs. length x = FZN_BLOB_HASH_LEN" and "0 < n" and "lo + n \<le> length xs"
  shows "length (merkle h (run_of xs lo n)) = FZN_BLOB_HASH_LEN"
proof (rule length_merkle [OF assms(1)])
  show "\<forall>x \<in> set (run_of xs lo n). length x = FZN_BLOB_HASH_LEN" using assms(2) by (meson in_set_dropD in_set_takeD)
  show "run_of xs lo n \<noteq> []" using assms(3,4) by simp
qed

lemma node_eq_cases:
  assumes "hash_total h" and "node_of h a b = node_of h a' b'"
  shows "a @ b = a' @ b' \<or> collision h [FZN_BLOB_NODE_PREFIX # a @ b] [FZN_BLOB_NODE_PREFIX # a' @ b']"
proof -
  have "h FZN_BLOB_HASH_LEN (FZN_BLOB_NODE_PREFIX # a @ b) = h FZN_BLOB_HASH_LEN (FZN_BLOB_NODE_PREFIX # a' @ b')"
    using assms unfolding hash_total_def node_of_def by (metis option.sel)
  then show ?thesis by (auto simp: collision_def)
qed

lemma rise_sound:
  assumes "hash_total h" and "\<forall>x \<in> set xs. length x = FZN_BLOB_HASH_LEN"
  shows "route lo n f c r \<Longrightarrow> 0 < n \<Longrightarrow> lo + n \<le> length xs \<Longrightarrow> length sibs = length r \<Longrightarrow> \<forall>s \<in> set sibs. length s = FZN_BLOB_HASH_LEN \<Longrightarrow>
    length acc = FZN_BLOB_HASH_LEN \<Longrightarrow> rise h (map fst r) sibs acc = merkle h (run_of xs lo n) \<Longrightarrow>
    acc = merkle h (run_of xs f c) \<or> collision h (rise_inputs h (map fst r) sibs acc) (tree_inputs h (run_of xs lo n))"
proof (induction arbitrary: sibs rule: route.induct)
  case (here lo n)
  then show ?case by simp
next
  case (left n lo f c r)
  from left(6) obtain s ss where s: "sibs = s # ss" "length ss = length r" by (cases sibs) auto
  let ?up = "rise h (map fst r) ss acc" and ?l = "run_of xs lo (split_at n)" and ?r = "run_of xs (lo + split_at n) (n - split_at n)"
  note b = split_at_bounds [OF left(1)]
  have len: "length ?up = FZN_BLOB_HASH_LEN" "length (merkle h ?l) = FZN_BLOB_HASH_LEN"
    using length_rise [OF assms(1) left(8)] length_merkle_run [OF assms, of "split_at n" lo] b left(5) by simp_all
  have "node_of h ?up s = node_of h (merkle h ?l) (merkle h ?r)" using left(9) merkle_slice(1) [OF left(1,5), of h] s by simp
  from node_eq_cases [OF assms(1) this] show ?case
  proof
    assume "?up @ s = merkle h ?l @ merkle h ?r"
    then have "?up = merkle h ?l" using len by simp
    then have "acc = merkle h (run_of xs f c) \<or> collision h (rise_inputs h (map fst r) ss acc) (tree_inputs h ?l)"
      using left.IH [of ss] b left(5,7,8) s by simp
    then show ?thesis unfolding merkle_slice(2) [OF left(1,5)] using s by (auto simp: collision_def)
  next
    assume "collision h [FZN_BLOB_NODE_PREFIX # ?up @ s] [FZN_BLOB_NODE_PREFIX # merkle h ?l @ merkle h ?r]"
    then show ?thesis unfolding merkle_slice(2) [OF left(1,5)] using s by (auto simp: collision_def)
  qed
next
  case (right n lo f c r)
  from right(6) obtain s ss where s: "sibs = s # ss" "length ss = length r" by (cases sibs) auto
  let ?up = "rise h (map fst r) ss acc" and ?l = "run_of xs lo (split_at n)" and ?r = "run_of xs (lo + split_at n) (n - split_at n)"
  note b = split_at_bounds [OF right(1)]
  have len: "length s = FZN_BLOB_HASH_LEN" "length (merkle h ?l) = FZN_BLOB_HASH_LEN"
    using right(7) s length_merkle_run [OF assms, of "split_at n" lo] b right(5) by simp_all
  have "node_of h s ?up = node_of h (merkle h ?l) (merkle h ?r)" using right(9) merkle_slice(1) [OF right(1,5), of h] s by simp
  from node_eq_cases [OF assms(1) this] show ?case
  proof
    assume "s @ ?up = merkle h ?l @ merkle h ?r"
    then have "?up = merkle h ?r" using len by simp
    then have "acc = merkle h (run_of xs f c) \<or> collision h (rise_inputs h (map fst r) ss acc) (tree_inputs h ?r)"
      using right.IH [of ss] b right(5,7,8) s by simp
    then show ?thesis unfolding merkle_slice(2) [OF right(1,5)] using s by (auto simp: collision_def)
  next
    assume "collision h [FZN_BLOB_NODE_PREFIX # s @ ?up] [FZN_BLOB_NODE_PREFIX # merkle h ?l @ merkle h ?r]"
    then show ?thesis unfolding merkle_slice(2) [OF right(1,5)] using s by (auto simp: collision_def)
  qed
qed

section \<open>What is built and what is accepted\<close>

lemma route_sizes: "route lo n f c r \<Longrightarrow> \<forall>(p, a, b) \<in> set r. 0 < b \<and> b < n \<and> a + b \<le> lo + n"
proof (induction rule: route.induct)
  case (left n lo f c r)
  then show ?case using split_at_bounds [OF left(1)] by fastforce
next
  case (right n lo f c r)
  then show ?case using split_at_bounds [OF right(1)] by fastforce
qed simp

lemma siblings_of_route:
  assumes "hash_total h" and "route 0 (length xs) f c r" and "length xs \<le> FZN_BLOB_MAX_LEAVES"
  shows "\<forall>(p, a, b) \<in> set r. subtree_root (Some (Some h)) xs a b = (FZN_BLOB_OK, Some (merkle h (run_of xs a b)))"
  using route_sizes [OF assms(2)] subtree_root_is_merkle [OF assms(1)] assms(3) by fastforce

lemma walk_finds:
  assumes "route 0 n f c r" and "0 < n" and "n \<le> FZN_BLOB_MAX_LEAVES"
  shows "span_walk None n f c cap = (FZN_BLOB_OK, [], map fst r)" and "\<not> bad_span n f c" and "length r \<le> FZN_BLOB_MAX_DEPTH"
proof -
  show len: "length r \<le> FZN_BLOB_MAX_DEPTH" using route_length [OF assms(1,3)] .
  show ok: "\<not> bad_span n f c" using route_range [OF assms(1,2)] by (auto simp: bad_span_def)
  have "span_loop None cap f c 0 n [] [] = (FZN_BLOB_OK, [] @ concat (map (\<lambda>(p, a, b). []) r), [] @ map fst r)"
    using assms len by (intro span_loop_follows) (auto simp: put_sibling_def)
  then show "span_walk None n f c cap = (FZN_BLOB_OK, [], map fst r)" using ok by (simp add: span_walk_def bad_span_def case_prod_unfold)
qed

lemma walk_gathers:
  assumes "route 0 n f c r" and "0 < n" and "n \<le> FZN_BLOB_MAX_LEAVES" and "FZN_BLOB_MAX_DEPTH * FZN_BLOB_HASH_LEN \<le> cap"
    and "\<forall>(p, a, b) \<in> set r. sub a b = (FZN_BLOB_OK, Some (g a b))"
  shows "span_walk (Some sub) n f c cap = (FZN_BLOB_OK, map (\<lambda>(p, a, b). g a b) r, map fst r)"
proof -
  have put: "\<forall>(p, a, b) \<in> set r. \<forall>depth < FZN_BLOB_MAX_DEPTH. \<forall>ss. put_sibling (Some sub) cap depth a b ss = (FZN_BLOB_OK, ss @ [g a b])"
    using assms(4,5) by (auto simp: put_sibling_def)
  have "concat (map (\<lambda>(p, a, b). [g a b]) r) = map (\<lambda>(p, a, b). g a b) r" by (induction r) auto
  then show ?thesis using span_loop_follows [OF put assms(1,2), of "[]" "[]"] walk_finds(2,3) [OF assms(1-3)] by (simp add: span_walk_def bad_span_def)
qed

lemma canonical_iff: "fzn_blob_span_is_canonical n f c \<longleftrightarrow> 0 < n \<and> n \<le> FZN_BLOB_MAX_LEAVES \<and> (\<exists>r. route 0 n f c r)"
proof
  assume c: "fzn_blob_span_is_canonical n f c"
  then obtain ss ps where "span_walk None n f c 0 = (FZN_BLOB_OK, ss, ps)" by (auto simp: fzn_blob_span_is_canonical_def split: if_splits) (metis prod.collapse)
  then show "0 < n \<and> n \<le> FZN_BLOB_MAX_LEAVES \<and> (\<exists>r. route 0 n f c r)"
    using c span_loop_route by (fastforce simp: span_walk_def fzn_blob_span_is_canonical_def split: if_splits)
next
  assume "0 < n \<and> n \<le> FZN_BLOB_MAX_LEAVES \<and> (\<exists>r. route 0 n f c r)"
  then show "fzn_blob_span_is_canonical n f c" using walk_finds by (auto simp: fzn_blob_span_is_canonical_def)
qed

definition blob_root :: "fzn_hash_fn \<Rightarrow> bytes list \<Rightarrow> bytes" where
  "blob_root h xs = the (h FZN_BLOB_HASH_LEN (root_input (length xs) (merkle h xs)))"

lemma finalise_total: "hash_total h \<Longrightarrow> finalise_root h apex n = (FZN_BLOB_OK, Some (the (h FZN_BLOB_HASH_LEN (root_input n apex))))"
  unfolding finalise_root_def root_input_def hash_total_def by (metis option.case(2) option.sel)

lemma length_hash: "hash_total h \<Longrightarrow> length (the (h n b)) = n"
  unfolding hash_total_def by (metis option.sel)

lemma root_compare: "hash_total h \<Longrightarrow> length root = FZN_BLOB_HASH_LEN \<Longrightarrow>
    fzn_ct_memeq (Some (the (h FZN_BLOB_HASH_LEN b))) (Some root) FZN_BLOB_HASH_LEN \<longleftrightarrow> the (h FZN_BLOB_HASH_LEN b) = root"
  by (simp add: ct_memeq_prefix length_hash)

text \<open>
  Both verifiers, on rows of siblings of which there are as many as announced, accept exactly when
  the route has as many steps and the climb ends at the root.
\<close>

lemma leaf_verify_iff:
  assumes "hash_total h" and "length root = FZN_BLOB_HASH_LEN"
  shows "fzn_blob_proof_verify (Some (Some h)) (Some lh) i m (Some ss) (length ss) (Some root) = Some FZN_BLOB_OK \<longleftrightarrow>
    i < m \<and> m \<le> FZN_BLOB_MAX_LEAVES \<and> (\<exists>r. route 0 m i 1 r \<and> snd (path_loop i 0 m []) = map fst r \<and> length ss = length r \<and>
      the (h FZN_BLOB_HASH_LEN (root_input m (rise h (map fst r) ss lh))) = root)"
proof (cases "i < m \<and> m \<le> FZN_BLOB_MAX_LEAVES")
  case True
  then obtain r where r: "route 0 m i 1 r" using route_leaf [of 0 i m] by auto
  have len: "length r \<le> FZN_BLOB_MAX_DEPTH" using route_length [OF r] True by blast
  have path: "path_loop i 0 m [] = (FZN_BLOB_OK, map fst r)" using path_loop_follows [OF r refl, of "[]"] True len by simp
  have "fzn_blob_proof_verify (Some (Some h)) (Some lh) i m (Some ss) (length ss) (Some root) = Some FZN_BLOB_OK \<longleftrightarrow>
    length ss = length r \<and> the (h FZN_BLOB_HASH_LEN (root_input m (rise h (map fst r) ss lh))) = root"
  proof (cases "length ss = length r")
    case same: True
    have up: "climb (Some (Some h)) (map fst r) ss (length r) lh = (FZN_BLOB_OK, Some (rise h (map fst r) ss lh))"
      using climb_is_rise [OF assms(1), of "length r" "map fst r" ss lh] same by simp
    show ?thesis using True len same by (simp add: fzn_blob_proof_verify_def path up finalise_total [OF assms(1)] root_compare [OF assms])
  qed (use True path in \<open>simp add: fzn_blob_proof_verify_def\<close>)
  then show ?thesis using True r path by (metis map_eq_imp_length_eq snd_conv)
qed (auto simp: fzn_blob_proof_verify_def split: if_splits)

lemma span_verify_iff:
  assumes "hash_total h" and "length root = FZN_BLOB_HASH_LEN"
  shows "fzn_blob_span_proof_verify (Some (Some h)) (Some sr) f c m (Some ss) (length ss) (Some root) = FZN_BLOB_OK \<longleftrightarrow>
    fzn_blob_span_is_canonical m f c \<and> (\<exists>r. route 0 m f c r \<and> snd (snd (span_walk None m f c 0)) = map fst r \<and> length ss = length r \<and>
      the (h FZN_BLOB_HASH_LEN (root_input m (rise h (map fst r) ss sr))) = root)"
proof (cases "fzn_blob_span_is_canonical m f c")
  case True
  then obtain r where r: "0 < m" "m \<le> FZN_BLOB_MAX_LEAVES" "route 0 m f c r" unfolding canonical_iff by blast
  note w = walk_finds [OF r(3,1,2)]
  have "fzn_blob_span_proof_verify (Some (Some h)) (Some sr) f c m (Some ss) (length ss) (Some root) = FZN_BLOB_OK \<longleftrightarrow>
    length ss = length r \<and> the (h FZN_BLOB_HASH_LEN (root_input m (rise h (map fst r) ss sr))) = root"
  proof (cases "length ss = length r")
    case same: True
    have up: "climb (Some (Some h)) (map fst r) ss (length r) sr = (FZN_BLOB_OK, Some (rise h (map fst r) ss sr))"
      using climb_is_rise [OF assms(1), of "length r" "map fst r" ss sr] same by simp
    show ?thesis using r w same by (simp add: fzn_blob_span_proof_verify_def up finalise_total [OF assms(1)] root_compare [OF assms])
  qed (use r w in \<open>simp add: fzn_blob_span_proof_verify_def\<close>)
  then show ?thesis using True r(3) w(1) by (metis map_eq_imp_length_eq snd_conv)
next
  case False
  then show ?thesis
    by (auto simp: fzn_blob_span_proof_verify_def fzn_blob_span_is_canonical_def split: if_splits prod.splits fzn_blob_err.splits)
qed

definition claim_inputs :: "fzn_hash_fn \<Rightarrow> nat \<Rightarrow> nat list \<Rightarrow> bytes list \<Rightarrow> bytes \<Rightarrow> bytes list" where
  "claim_inputs h m path ss acc = root_input m (rise h path ss acc) # rise_inputs h path ss acc"

definition blob_inputs :: "fzn_hash_fn \<Rightarrow> bytes list \<Rightarrow> bytes list" where
  "blob_inputs h xs = root_input (length xs) (merkle h xs) # tree_inputs h xs"

lemma root_input_inj:
  assumes "root_input m a = root_input n b" and "m \<le> FZN_BLOB_MAX_LEAVES" and "n \<le> FZN_BLOB_MAX_LEAVES"
  shows "m = n \<and> a = b"
proof -
  have "length (fzn_put_be64 (of_nat m)) = length (fzn_put_be64 (of_nat n))" by (simp add: fzn_put_be64_def)
  then have "fzn_put_be64 (of_nat m) = fzn_put_be64 (of_nat n)" "a = b" using assms(1) by (simp_all add: root_input_def)
  then have "(of_nat m :: u64) = of_nat n" by (metis get_put_be64)
  then have "unat (of_nat m :: u64) = unat (of_nat n :: u64)" by simp
  then show ?thesis using assms(2,3) \<open>a = b\<close> by (simp add: unsigned_of_nat take_bit_nat_eq_self)
qed

lemma accepted_sound:
  assumes "hash_total h" and "\<forall>x \<in> set xs. length x = FZN_BLOB_HASH_LEN" and "xs \<noteq> []" and "length xs \<le> FZN_BLOB_MAX_LEAVES"
    and "route 0 m f c r" and "0 < m" and "m \<le> FZN_BLOB_MAX_LEAVES" and "length ss = length r" and "\<forall>s \<in> set ss. length s = FZN_BLOB_HASH_LEN"
    and "length acc = FZN_BLOB_HASH_LEN" and "the (h FZN_BLOB_HASH_LEN (root_input m (rise h (map fst r) ss acc))) = blob_root h xs"
  shows "m = length xs \<and> acc = merkle h (run_of xs f c) \<or> collision h (claim_inputs h m (map fst r) ss acc) (blob_inputs h xs)"
proof (cases "root_input m (rise h (map fst r) ss acc) = root_input (length xs) (merkle h xs)")
  case True
  then have eq: "m = length xs" "rise h (map fst r) ss acc = merkle h (run_of xs 0 (length xs))" using root_input_inj assms(4,7) by auto
  then have "acc = merkle h (run_of xs f c) \<or> collision h (rise_inputs h (map fst r) ss acc) (tree_inputs h xs)"
    using rise_sound [OF assms(1,2), of 0 "length xs" f c r ss acc] assms(3,5,8,9,10) by simp
  then show ?thesis using eq(1) by (auto simp: collision_def claim_inputs_def blob_inputs_def)
next
  case False
  have "h FZN_BLOB_HASH_LEN (root_input m (rise h (map fst r) ss acc)) = h FZN_BLOB_HASH_LEN (root_input (length xs) (merkle h xs))"
    using assms(1,11) unfolding blob_root_def hash_total_def by (metis option.sel)
  then show ?thesis using False by (auto simp: collision_def claim_inputs_def blob_inputs_def)
qed

lemma run_of_one: "i < length xs \<Longrightarrow> merkle h (run_of xs i 1) = xs ! i"
  by (simp add: merkle.simps take_Suc hd_drop_conv_nth)

lemma rise_to_root:
  assumes "route 0 (length xs) f c r"
  shows "the (h FZN_BLOB_HASH_LEN (root_input (length xs) (rise h (map fst r) (map (\<lambda>(p, a, b). merkle h (run_of xs a b)) r) (merkle h (run_of xs f c))))) = blob_root h xs"
  using rise_reaches [OF assms, of xs h] by (simp add: blob_root_def)

lemma length_blob_root: "hash_total h \<Longrightarrow> length (blob_root h xs) = FZN_BLOB_HASH_LEN"
  unfolding blob_root_def by (rule length_hash)

lemma leaf_proof_accepted:
  assumes "hash_total h" and "xs \<noteq> []" and "length xs \<le> FZN_BLOB_MAX_LEAVES" and "FZN_BLOB_MAX_DEPTH * FZN_BLOB_HASH_LEN \<le> cap" and i: "i < length xs"
  shows "\<exists>ss. fzn_blob_proof_build (Some (Some h)) (Some xs) (length xs) i cap = (FZN_BLOB_OK, ss) \<and> length ss \<le> FZN_BLOB_MAX_DEPTH \<and>
    fzn_blob_proof_verify (Some (Some h)) (Some (xs ! i)) i (length xs) (Some ss) (length ss) (Some (blob_root h xs)) = Some FZN_BLOB_OK"
proof -
  obtain r where r: "route 0 (length xs) i 1 r" using route_leaf [of 0 i "length xs"] i by auto
  let ?ss = "map (\<lambda>(p, a, b). merkle h (run_of xs a b)) r"
  have len: "length r \<le> FZN_BLOB_MAX_DEPTH" using route_length [OF r assms(3)] .
  then have "fzn_blob_proof_build (Some (Some h)) (Some xs) (length xs) i cap = (FZN_BLOB_OK, ?ss)"
    using proof_loop_follows [OF r refl _ siblings_of_route [OF assms(1) r assms(3)], of "[]" cap] assms i by (simp add: fzn_blob_proof_build_def)
  moreover have "snd (path_loop i 0 (length xs) []) = map fst r" using path_loop_follows [OF r refl, of "[]"] len assms(2) by simp
  then have "fzn_blob_proof_verify (Some (Some h)) (Some (xs ! i)) i (length xs) (Some ?ss) (length ?ss) (Some (blob_root h xs)) = Some FZN_BLOB_OK"
    unfolding leaf_verify_iff [OF assms(1) length_blob_root [OF assms(1)]]
    using rise_to_root [OF r, of h, unfolded run_of_one [OF i]] r i assms(3) by (intro conjI exI [of _ r]) simp_all
  ultimately show ?thesis using len by (intro exI [of _ ?ss]) simp
qed

lemma accepted_leaf:
  assumes "hash_total h" and "\<forall>x \<in> set xs. length x = FZN_BLOB_HASH_LEN" and "xs \<noteq> []" and "length xs \<le> FZN_BLOB_MAX_LEAVES"
    and "\<forall>s \<in> set ss. length s = FZN_BLOB_HASH_LEN" and "length acc = FZN_BLOB_HASH_LEN"
    and "fzn_blob_proof_verify (Some (Some h)) (Some acc) i m (Some ss) (length ss) (Some (blob_root h xs)) = Some FZN_BLOB_OK"
  shows "m = length xs \<and> i < length xs \<and> acc = xs ! i \<or> collision h (claim_inputs h m (snd (path_loop i 0 m [])) ss acc) (blob_inputs h xs)"
proof -
  obtain r where r: "i < m" "m \<le> FZN_BLOB_MAX_LEAVES" "route 0 m i 1 r" "snd (path_loop i 0 m []) = map fst r" "length ss = length r"
      "the (h FZN_BLOB_HASH_LEN (root_input m (rise h (map fst r) ss acc))) = blob_root h xs"
    using assms(7) unfolding leaf_verify_iff [OF assms(1) length_blob_root [OF assms(1)]] by blast
  from accepted_sound [OF assms(1-4) r(3) _ r(2,5) assms(5,6) r(6)] r(1,4) show ?thesis
    by (auto simp: run_of_one [unfolded One_nat_def])
qed

text \<open>
  C28. A proof that was built is accepted. For every leaf of a blob, and for every span that is a node of its
  tree, the builder delivers at most forty siblings, and the verifier accepts them with the leaf's or the span's own hash,
  for the blob's root; a span that is no node of the tree gets no proof.
\<close>

theorem proofs_complete:
  assumes "hash_total h" and "xs \<noteq> []" and "length xs \<le> FZN_BLOB_MAX_LEAVES" and "FZN_BLOB_MAX_DEPTH * FZN_BLOB_HASH_LEN \<le> cap"
  shows "(\<forall>i < length xs. \<exists>ss. fzn_blob_proof_build (Some (Some h)) (Some xs) (length xs) i cap = (FZN_BLOB_OK, ss) \<and> length ss \<le> FZN_BLOB_MAX_DEPTH \<and>
      fzn_blob_proof_verify (Some (Some h)) (Some (xs ! i)) i (length xs) (Some ss) (length ss) (Some (blob_root h xs)) = Some FZN_BLOB_OK) \<and>
    (\<forall>f c. if fzn_blob_span_is_canonical (length xs) f c
      then \<exists>ss. fzn_blob_span_proof_build (Some (Some h)) (Some xs) (length xs) f c cap = (FZN_BLOB_OK, ss) \<and> length ss \<le> FZN_BLOB_MAX_DEPTH \<and>
        fzn_blob_span_proof_verify (Some (Some h)) (Some (merkle h (run_of xs f c))) f c (length xs) (Some ss) (length ss) (Some (blob_root h xs)) = FZN_BLOB_OK
      else fst (fzn_blob_span_proof_build (Some (Some h)) (Some xs) (length xs) f c cap) \<noteq> FZN_BLOB_OK)"
proof (intro conjI allI impI)
  show "\<exists>ss. fzn_blob_proof_build (Some (Some h)) (Some xs) (length xs) i cap = (FZN_BLOB_OK, ss) \<and> length ss \<le> FZN_BLOB_MAX_DEPTH \<and>
      fzn_blob_proof_verify (Some (Some h)) (Some (xs ! i)) i (length xs) (Some ss) (length ss) (Some (blob_root h xs)) = Some FZN_BLOB_OK"
    if "i < length xs" for i
    using leaf_proof_accepted [OF assms that] .
  fix f c
  show "if fzn_blob_span_is_canonical (length xs) f c
      then \<exists>ss. fzn_blob_span_proof_build (Some (Some h)) (Some xs) (length xs) f c cap = (FZN_BLOB_OK, ss) \<and> length ss \<le> FZN_BLOB_MAX_DEPTH \<and>
        fzn_blob_span_proof_verify (Some (Some h)) (Some (merkle h (run_of xs f c))) f c (length xs) (Some ss) (length ss) (Some (blob_root h xs)) = FZN_BLOB_OK
      else fst (fzn_blob_span_proof_build (Some (Some h)) (Some xs) (length xs) f c cap) \<noteq> FZN_BLOB_OK"
  proof (cases "fzn_blob_span_is_canonical (length xs) f c")
    case True
    then obtain r where r: "0 < length xs" "route 0 (length xs) f c r" unfolding canonical_iff by blast
    let ?ss = "map (\<lambda>(p, a, b). merkle h (run_of xs a b)) r"
    note w = walk_finds(1) [OF r(2,1) assms(3), of 0] walk_finds(2,3) [OF r(2,1) assms(3)]
    have "fzn_blob_span_proof_build (Some (Some h)) (Some xs) (length xs) f c cap = (FZN_BLOB_OK, ?ss)"
      using walk_gathers [OF r(2,1) assms(3,4) siblings_of_route [OF assms(1) r(2) assms(3)]] w(2) assms(2,3) by (simp add: fzn_blob_span_proof_build_def)
    moreover have "fzn_blob_span_proof_verify (Some (Some h)) (Some (merkle h (run_of xs f c))) f c (length xs) (Some ?ss) (length ?ss) (Some (blob_root h xs)) = FZN_BLOB_OK"
      unfolding span_verify_iff [OF assms(1) length_blob_root [OF assms(1)]] using rise_to_root [OF r(2)] r(2) w(1) True by (intro conjI exI [of _ r]) simp_all
    ultimately show ?thesis using True w(3) by (simp only: if_True) (intro exI [of _ ?ss], simp)
  next
    case False
    then show ?thesis using span_loop_route
      by (fastforce simp: fzn_blob_span_proof_build_def span_walk_def canonical_iff split: prod.splits if_splits)
  qed
qed

text \<open>
  C25. Only what the tree holds is accepted. Against the root of a blob, a verifier that accepts a leaf accepts
  the leaf that the blob has at that index, with the blob's own number of leaves; one that accepts a span accepts the
  tree over exactly those leaves. Otherwise the siblings handed in exhibit a collision: one of the
  inputs hashed on the way up differs from one of the inputs of the blob's tree and has the same hash.
\<close>

theorem proofs_sound:
  assumes "hash_total h" and "\<forall>x \<in> set xs. length x = FZN_BLOB_HASH_LEN" and "xs \<noteq> []" and "length xs \<le> FZN_BLOB_MAX_LEAVES"
    and "\<forall>s \<in> set ss. length s = FZN_BLOB_HASH_LEN" and "length acc = FZN_BLOB_HASH_LEN"
  shows "(fzn_blob_proof_verify (Some (Some h)) (Some acc) i m (Some ss) (length ss) (Some (blob_root h xs)) = Some FZN_BLOB_OK \<longrightarrow>
      m = length xs \<and> i < length xs \<and> acc = xs ! i \<or> collision h (claim_inputs h m (snd (path_loop i 0 m [])) ss acc) (blob_inputs h xs)) \<and>
    (fzn_blob_span_proof_verify (Some (Some h)) (Some acc) f c m (Some ss) (length ss) (Some (blob_root h xs)) = FZN_BLOB_OK \<longrightarrow>
      m = length xs \<and> f + c \<le> length xs \<and> acc = merkle h (run_of xs f c) \<or>
      collision h (claim_inputs h m (snd (snd (span_walk None m f c 0))) ss acc) (blob_inputs h xs))"
proof (intro conjI impI)
  assume "fzn_blob_proof_verify (Some (Some h)) (Some acc) i m (Some ss) (length ss) (Some (blob_root h xs)) = Some FZN_BLOB_OK"
  from accepted_leaf [OF assms this]
  show "m = length xs \<and> i < length xs \<and> acc = xs ! i \<or> collision h (claim_inputs h m (snd (path_loop i 0 m [])) ss acc) (blob_inputs h xs)" .
next
  note sound = accepted_sound [OF assms(1-4) _ _ _ _ assms(5,6)]
  assume "fzn_blob_span_proof_verify (Some (Some h)) (Some acc) f c m (Some ss) (length ss) (Some (blob_root h xs)) = FZN_BLOB_OK"
  then obtain r where r: "0 < m" "m \<le> FZN_BLOB_MAX_LEAVES" "route 0 m f c r" "snd (snd (span_walk None m f c 0)) = map fst r" "length ss = length r"
      "the (h FZN_BLOB_HASH_LEN (root_input m (rise h (map fst r) ss acc))) = blob_root h xs"
    unfolding span_verify_iff [OF assms(1) length_blob_root [OF assms(1)]] canonical_iff by blast
  from sound [OF r(3,1,2,5,6)] r(4) route_range [OF r(3,1)]
  show "m = length xs \<and> f + c \<le> length xs \<and> acc = merkle h (run_of xs f c) \<or>
      collision h (claim_inputs h m (snd (snd (span_walk None m f c 0))) ss acc) (blob_inputs h xs)" by auto
qed

text \<open>
  The spans that begin at one leaf.
\<close>

lemma largest_is_largest:
  "lo \<le> f \<Longrightarrow> f < lo + n \<Longrightarrow> 0 < mx \<Longrightarrow> (\<exists>r. route lo n f (largest_loop f mx lo n) r) \<and> largest_loop f mx lo n \<le> mx \<and>
    (\<forall>c r. route lo n f c r \<and> c \<le> mx \<longrightarrow> c \<le> largest_loop f mx lo n)"
proof (induction f mx lo n rule: largest_loop.induct)
  case (1 f mx lo n)
  show ?case
  proof (cases "lo = f \<and> n \<le> mx")
    case True
    then have "largest_loop f mx lo n = n" by (simp add: largest_loop.simps)
    then show ?thesis using True 1(4) route.here [of lo n] route_range [of lo n f] by auto
  next
    case False
    then have n: "\<not> n \<le> 1" using 1(3,4,5) by auto
    then have b: "0 < split_at n" "split_at n < n" using split_at_bounds by auto
    have down: "r \<noteq> []" if "route lo n f c r" "c \<le> mx" for c r using that False by (auto elim: route_here)
    show ?thesis
    proof (cases "f < lo + split_at n")
      case True
      have eq: "largest_loop f mx lo n = largest_loop f mx lo (split_at n)" using False n True by (subst largest_loop.simps) auto
      have "\<exists>r'. route lo (split_at n) f c r'" if "route lo n f c r" "c \<le> mx" for c r
        using down [OF that] that(1) True route_range [of "lo + split_at n" "n - split_at n" f c] b
        by (cases r) (auto elim!: route_step)
      then show ?thesis unfolding eq using 1(1) [OF False n True 1(3) True 1(5)] route.left [of n lo f] n by (metis not_le)
    next
      case nl: False
      have eq: "largest_loop f mx lo n = largest_loop f mx (lo + split_at n) (n - split_at n)" using False n nl by (subst largest_loop.simps) auto
      have "\<exists>r'. route (lo + split_at n) (n - split_at n) f c r'" if "route lo n f c r" "c \<le> mx" for c r
        using down [OF that] that(1) nl b by (cases r) (auto elim!: route_step dest: route_range)
      moreover have "lo + split_at n \<le> f" "f < lo + split_at n + (n - split_at n)" using nl 1(4) b by simp_all
      ultimately show ?thesis unfolding eq using 1(2) [OF False n nl _ _ 1(5)] route.right [of n lo f] n by (metis not_le)
    qed
  qed
qed

text \<open>
  A planner may take spans greedily: for every leaf and every bound there is a provable span that
  starts there, and the one answered is a node of the tree, within the bound, and the largest such node.
\<close>

theorem span_largest:
  assumes "first < n" and "n \<le> FZN_BLOB_MAX_LEAVES" and "0 < mx"
  shows "fzn_blob_span_is_canonical n first (fzn_blob_span_largest_at n first mx) \<and> 1 \<le> fzn_blob_span_largest_at n first mx \<and>
    fzn_blob_span_largest_at n first mx \<le> mx \<and> (\<forall>c. fzn_blob_span_is_canonical n first c \<and> c \<le> mx \<longrightarrow> c \<le> fzn_blob_span_largest_at n first mx)"
proof -
  have eq: "fzn_blob_span_largest_at n first mx = largest_loop first mx 0 n" using assms by (simp add: fzn_blob_span_largest_at_def)
  have l: "(\<exists>r. route 0 n first (largest_loop first mx 0 n) r) \<and> largest_loop first mx 0 n \<le> mx \<and>
      (\<forall>c r. route 0 n first c r \<and> c \<le> mx \<longrightarrow> c \<le> largest_loop first mx 0 n)"
    using largest_is_largest [of 0 first n mx] assms by simp
  then have "1 \<le> largest_loop first mx 0 n" using route_range [of 0 n first] assms(1) by (metis Suc_leI One_nat_def gr_implies_not0 neq0_conv)
  then show ?thesis unfolding eq canonical_iff using l assms by auto
qed

text \<open>
  A proof for a blob of one leaf is checked through an absent hash: a table without the operation is
  answered as malformed for every larger blob and by the verifier of spans, but the leaf verifier
  calls through it.
\<close>

theorem absent_hash_called:
  "fzn_blob_proof_verify (Some None) (Some lh) 0 1 ss 0 (Some root) = None \<and>
   fzn_blob_span_proof_verify (Some None) (Some lh) 0 1 1 ss 0 (Some root) = FZN_BLOB_ERR_MALFORMED \<and>
   fzn_blob_tree_root (Some None) tree = (FZN_BLOB_ERR_MALFORMED, None)"
  by (simp add: fzn_blob_proof_verify_def fzn_blob_span_proof_verify_def fzn_blob_tree_root_def path_loop.simps)

section \<open>Witnesses\<close>

abbreviation demo_leaves :: "bytes list" where
  "demo_leaves \<equiv> [replicate 32 1, replicate 32 2, replicate 32 3]"

lemma demo_route: "route 0 3 0 2 [(0, 2, 1)]"
proof -
  have "split_at 3 = 2" using split_at_power [of 1 3] by simp
  then show ?thesis using route.left [of 3 0 0 2 "[]"] route.here [of 0 2] by (simp add: numeral_2_eq_2)
qed

theorem proofs_complete_witness:
  "\<exists>ss. fzn_blob_span_proof_build (Some (Some demo_hash)) (Some demo_leaves) 3 0 2 1280 = (FZN_BLOB_OK, ss) \<and>
    fzn_blob_span_proof_verify (Some (Some demo_hash)) (Some (merkle demo_hash (run_of demo_leaves 0 2))) 0 2 3 (Some ss) (length ss)
      (Some (blob_root demo_hash demo_leaves)) = FZN_BLOB_OK"
proof -
  have c: "fzn_blob_span_is_canonical 3 0 2" unfolding canonical_iff using demo_route by auto
  have "length demo_leaves = 3" by simp
  from proofs_complete [OF demo_ratchet(1), of demo_leaves 1280, unfolded this, THEN conjunct2, rule_format, of 0 2, unfolded if_P [OF c]]
  show ?thesis by auto
qed

theorem proofs_sound_witness:
  fixes good bad :: bytes
  defines "good \<equiv> replicate 32 9" and "bad \<equiv> replicate 32 8"
  shows "fzn_blob_proof_verify (Some (Some demo_hash)) (Some bad) 0 1 (Some []) 0 (Some (blob_root demo_hash [good])) = Some FZN_BLOB_OK \<and>
    collision demo_hash (claim_inputs demo_hash 1 (snd (path_loop 0 0 1 [])) [] bad) (blob_inputs demo_hash [good])"
proof -
  have g: "length good = 32" "length bad = 32" "bad \<noteq> good" by (simp_all add: good_def bad_def replicate_eq_replicate)
  note root = length_blob_root [OF demo_ratchet(1), of "[good]"]
  have "the (demo_hash 32 (root_input 1 bad)) = blob_root demo_hash [good]"
    using g by (simp add: blob_root_def root_input_def demo_hash_def merkle.simps)
  then have ok: "fzn_blob_proof_verify (Some (Some demo_hash)) (Some bad) 0 1 (Some []) 0 (Some (blob_root demo_hash [good])) = Some FZN_BLOB_OK"
    using leaf_verify_iff [OF demo_ratchet(1) root, of bad 0 1 "[]"] route.here [of 0 1] by (simp add: path_loop.simps)
  moreover note proofs_sound [OF demo_ratchet(1), of "[good]" "[]" bad 0 1, THEN conjunct1]
  ultimately show ?thesis using g by simp
qed

theorem span_largest_witness:
  "fzn_blob_span_is_canonical 3 0 (fzn_blob_span_largest_at 3 0 2) \<and> fzn_blob_span_largest_at 3 0 2 = 2"
proof -
  have "fzn_blob_span_is_canonical 3 0 2" unfolding canonical_iff using demo_route by auto
  then show ?thesis using span_largest [of 0 3 2] by (auto intro: antisym)
qed

end
