(* ===== verification/Blob_Levels.thy ===== *)
theory Blob_Levels
  imports Blob_Proof
begin

text \<open>
  A blob's tree kept outside memory (\<open>blob/levels.c\<close>): every perfect subtree written level by level as the leaves
  arrive, and any subtree read back or folded from what was written. The caller's storage is a
  parameter, a state with a read and a write at byte offsets; what is shown is that proofs from the
  levels are the proofs from the array of all leaf hashes.
\<close>

unbundle bit_operations_syntax

section \<open>The model\<close>

record 's fzn_blob_levels_io =
  li_read :: "('s \<Rightarrow> nat \<Rightarrow> nat \<Rightarrow> bytes option) option"
  li_write :: "('s \<Rightarrow> nat \<Rightarrow> bytes \<Rightarrow> 's option) option"

record fzn_blob_levels_builder =
  lb_leaves :: nat
  lb_pushed :: nat
  lb_pending :: "bytes list"

record 's fzn_blob_levels =
  le_hash :: hash_ops
  le_io :: "'s fzn_blob_levels_io option"
  le_leaves :: nat

definition level_at :: "nat \<Rightarrow> nat \<Rightarrow> nat" where
  "level_at leaves level = fold (\<lambda>l at. at + drop_bit l leaves) [0..<level] 0"

function levels_loop :: "nat \<Rightarrow> nat \<Rightarrow> nat" where
  "levels_loop leaves levels = (if levels < FZN_BLOB_MAX_DEPTH \<and> drop_bit levels leaves \<noteq> 0 then levels_loop leaves (levels + 1) else levels)"
  by auto
termination by (relation "measure (\<lambda>(leaves, levels). FZN_BLOB_MAX_DEPTH - levels)") auto

declare levels_loop.simps [simp del]

definition fzn_blob_levels_bytes :: "nat \<Rightarrow> nat" where
  "fzn_blob_levels_bytes leaves =
     (if leaves = 0 \<or> leaves > FZN_BLOB_MAX_LEAVES then 0 else level_at leaves (levels_loop leaves 0) * FZN_BLOB_HASH_LEN)"

definition fzn_blob_levels_begin :: "fzn_blob_levels_builder option \<Rightarrow> nat \<Rightarrow> fzn_blob_err \<times> fzn_blob_levels_builder option" where
  "fzn_blob_levels_begin builder leaves =
     (if builder = None \<or> leaves = 0 \<or> leaves > FZN_BLOB_MAX_LEAVES then (FZN_BLOB_ERR_MALFORMED, builder)
      else (FZN_BLOB_OK, Some \<lparr>lb_leaves = leaves, lb_pushed = 0, lb_pending = replicate FZN_BLOB_MAX_DEPTH (replicate FZN_BLOB_HASH_LEN 0)\<rparr>))"

definition put_node :: "('s \<Rightarrow> nat \<Rightarrow> bytes \<Rightarrow> 's option) \<Rightarrow> 's \<Rightarrow> nat \<Rightarrow> nat \<Rightarrow> nat \<Rightarrow> bytes \<Rightarrow> 's option" where
  "put_node wr s leaves level index node = wr s ((level_at leaves level + index) * FZN_BLOB_HASH_LEN) node"

function levels_push_loop :: "hash_ops \<Rightarrow> ('s \<Rightarrow> nat \<Rightarrow> bytes \<Rightarrow> 's option) \<Rightarrow> nat \<Rightarrow> nat \<Rightarrow> nat \<Rightarrow> bytes \<Rightarrow> bytes list \<Rightarrow> 's \<Rightarrow> fzn_blob_err \<times> bytes list \<times> 's" where
  "levels_push_loop hash wr leaves level index node pending s =
     (case put_node wr s leaves level index node of
        None \<Rightarrow> (FZN_BLOB_ERR_IO, pending, s)
      | Some s' \<Rightarrow>
          if index AND 1 = 0 then (FZN_BLOB_OK, pending[level := node], s')
          else if level + 1 \<ge> FZN_BLOB_MAX_DEPTH then (FZN_BLOB_ERR_SHAPE, pending, s')
          else (case fzn_blob_node_hash hash (pending ! level) node of
              (FZN_BLOB_OK, Some node') \<Rightarrow> levels_push_loop hash wr leaves (level + 1) (drop_bit 1 index) node' pending s'
            | (err, _) \<Rightarrow> (err, pending, s')))"
  by pat_completeness auto
termination
  by (relation "measure (\<lambda>(hash, wr, leaves, level, index, node, pending, s). index)") (auto simp: drop_bit_eq_div and_one_eq mod2_eq_if odd_pos split: if_splits)

declare levels_push_loop.simps [simp del]

definition fzn_blob_levels_push :: "hash_ops \<Rightarrow> fzn_blob_levels_builder option \<Rightarrow> 's fzn_blob_levels_io option \<Rightarrow> bytes option \<Rightarrow> 's \<Rightarrow>
    fzn_blob_err \<times> fzn_blob_levels_builder option \<times> 's" where
  "fzn_blob_levels_push hash builder io leaf_hash s =
     (if hash = None \<or> builder = None \<or> io = None \<or> li_write (the io) = None \<or> leaf_hash = None then (FZN_BLOB_ERR_MALFORMED, builder, s)
      else let b = the builder in
        if lb_pushed b \<ge> lb_leaves b then (FZN_BLOB_ERR_FULL, builder, s)
        else (case levels_push_loop hash (the (li_write (the io))) (lb_leaves b) 0 (lb_pushed b) (the leaf_hash) (lb_pending b) s of
            (err, pending, s') \<Rightarrow> (err, Some (b\<lparr>lb_pushed := lb_pushed b + 1, lb_pending := pending\<rparr>), s')))"

function split_below_loop :: "nat \<Rightarrow> nat \<Rightarrow> nat" where
  "split_below_loop k n = (if k \<noteq> 0 \<and> 2 * k < n then split_below_loop (2 * k) n else k)"
  by auto
termination by (relation "measure (\<lambda>(k, n). n - k)") auto

declare split_below_loop.simps [simp del]

definition split_below :: "nat \<Rightarrow> nat" where
  "split_below n = split_below_loop 1 n"

lemma split_below_is: "split_below n = split_at n"
proof -
  have "split_below_loop k n = split_loop k n" for k
    by (induction k n rule: split_loop.induct) (subst split_below_loop.simps, subst split_loop.simps, simp)
  then show ?thesis by (simp add: split_below_def split_at_def)
qed

function level_loop :: "nat \<Rightarrow> nat \<Rightarrow> nat" where
  "level_loop level n = (if push_bit level 1 < n then level_loop (level + 1) n else level)"
  by auto
termination
proof (relation "measure (\<lambda>(level, n). n - level)")
  fix level n :: nat
  assume "push_bit level 1 < n"
  then have "2 ^ level < n" by (simp add: push_bit_eq_mult)
  then have "level < n" using less_exp [of level] by (rule less_trans [rotated])
  then show "((level + 1, n), (level, n)) \<in> measure (\<lambda>(level, n). n - level)" by simp
qed simp

declare level_loop.simps [simp del]

function levels_subtree :: "fzn_hash_fn option \<Rightarrow> (nat \<Rightarrow> nat \<Rightarrow> bytes option) \<Rightarrow> nat \<Rightarrow> nat \<Rightarrow> nat \<Rightarrow> fzn_blob_err \<times> bytes option" where
  "levels_subtree hash rd leaves lo n =
     (if n = 0 \<or> lo > leaves \<or> n > leaves - lo then (FZN_BLOB_ERR_MALFORMED, None)
      else if n AND (n - 1) = 0 \<and> lo AND (n - 1) = 0 then
        (case rd ((level_at leaves (level_loop 0 n) + drop_bit (level_loop 0 n) lo) * FZN_BLOB_HASH_LEN) FZN_BLOB_HASH_LEN of
           Some out \<Rightarrow> (FZN_BLOB_OK, Some out) | None \<Rightarrow> (FZN_BLOB_ERR_IO, None))
      else (case levels_subtree hash rd leaves lo (split_below n) of
          (FZN_BLOB_OK, Some left) \<Rightarrow>
            (case levels_subtree hash rd leaves (lo + split_below n) (n - split_below n) of
               (FZN_BLOB_OK, Some out) \<Rightarrow> fzn_blob_node_hash (Some hash) left out
             | (err, _) \<Rightarrow> (err, None))
        | (err, _) \<Rightarrow> (err, None)))"
  by pat_completeness auto
termination
proof (relation "measure (\<lambda>(hash, rd, leaves, lo, n). n)")
  fix rd :: "nat \<Rightarrow> nat \<Rightarrow> bytes option" and hash :: "fzn_hash_fn option" and lo n leaves :: nat
  assume "\<not> (n = 0 \<or> lo > leaves \<or> n > leaves - lo)" and "\<not> (n AND (n - 1) = 0 \<and> lo AND (n - 1) = 0)"
  then have "1 < n" by (cases "n = 1") auto
  then show "((hash, rd, leaves, lo, split_below n), (hash, rd, leaves, lo, n)) \<in> measure (\<lambda>(hash, rd, leaves, lo, n). n)"
    and "\<And>a b left c. ((hash, rd, leaves, lo + split_below n, n - split_below n), (hash, rd, leaves, lo, n)) \<in> measure (\<lambda>(hash, rd, leaves, lo, n). n)"
    using split_at_bounds by (simp_all add: split_below_is)
qed simp

declare levels_subtree.simps [simp del]

definition fzn_blob_levels_subtree :: "'s fzn_blob_levels option \<Rightarrow> 's \<Rightarrow> nat \<Rightarrow> nat \<Rightarrow> fzn_blob_err \<times> bytes option" where
  "fzn_blob_levels_subtree levels s lo n =
     (if levels = None \<or> le_hash (the levels) = None \<or> le_io (the levels) = None \<or> li_read (the (le_io (the levels))) = None then (FZN_BLOB_ERR_MALFORMED, None)
      else levels_subtree (the (le_hash (the levels))) ((the (li_read (the (le_io (the levels))))) s) (le_leaves (the levels)) lo n)"

definition fzn_blob_levels_leaf :: "'s fzn_blob_levels option \<Rightarrow> 's \<Rightarrow> nat \<Rightarrow> fzn_blob_err \<times> bytes option" where
  "fzn_blob_levels_leaf levels s index =
     (if levels = None \<or> index \<ge> le_leaves (the levels) then (FZN_BLOB_ERR_MALFORMED, None)
      else fzn_blob_levels_subtree levels s index 1)"

definition fzn_blob_levels_span_proof :: "'s fzn_blob_levels option \<Rightarrow> 's \<Rightarrow> nat \<Rightarrow> nat \<Rightarrow> nat \<Rightarrow> fzn_blob_err \<times> bytes list" where
  "fzn_blob_levels_span_proof levels s first cnt out_cap =
     (if levels = None then (FZN_BLOB_ERR_MALFORMED, [])
      else fzn_blob_span_proof_from (Some (fzn_blob_levels_subtree levels s)) (le_leaves (the levels)) first cnt out_cap)"

section \<open>Where a node is kept\<close>

lemma level_at_Suc: "level_at n (Suc l) = level_at n l + n div 2 ^ l"
  by (simp add: level_at_def drop_bit_eq_div)

lemma level_at_mono: "l \<le> l' \<Longrightarrow> level_at n l \<le> level_at n l'"
  by (induction l' rule: dec_induct) (simp_all add: level_at_Suc)

lemma node_room: "(i + 1) * 2 ^ l \<le> n \<Longrightarrow> i < n div (2 :: nat) ^ l"
  using div_le_mono [of "(i + 1) * 2 ^ l" n "2 ^ l"] by simp

lemma node_before: "(i + 1) * 2 ^ l \<le> n \<Longrightarrow> l < l' \<Longrightarrow> level_at n l + i < level_at n l' + i'"
  using node_room [of i l n] level_at_mono [of "Suc l" l' n] by (simp add: level_at_Suc)

lemma nodes_apart:
  assumes "(i + 1) * 2 ^ l \<le> n" and "(i' + 1) * 2 ^ l' \<le> n" and "(l, i) \<noteq> (l', i')"
  shows "level_at n l + i \<noteq> level_at n l' + i'"
  using assms node_before [OF assms(1), of l' i'] node_before [OF assms(2), of l i] by (cases l l' rule: linorder_cases) auto

lemma levels_loop_over: "levels_loop n l < FZN_BLOB_MAX_DEPTH \<Longrightarrow> n div 2 ^ levels_loop n l = 0"
proof (induction n l rule: levels_loop.induct)
  case (1 n l)
  show ?case
  proof (cases "l < FZN_BLOB_MAX_DEPTH \<and> drop_bit l n \<noteq> 0")
    case True
    then have "levels_loop n l = levels_loop n (l + 1)" by (subst levels_loop.simps) simp
    then show ?thesis using 1(1) [OF True] 1(2) by simp
  next
    case False
    then have "levels_loop n l = l" by (subst levels_loop.simps) auto
    then show ?thesis using False 1(2) by (simp add: drop_bit_eq_div)
  qed
qed

lemma node_in_file:
  assumes "(i + 1) * 2 ^ l \<le> n" and "l < FZN_BLOB_MAX_DEPTH" and "n \<le> FZN_BLOB_MAX_LEAVES"
  shows "(level_at n l + i) * FZN_BLOB_HASH_LEN + FZN_BLOB_HASH_LEN \<le> fzn_blob_levels_bytes n"
proof -
  let ?top = "levels_loop n 0"
  have n: "n \<noteq> 0" using assms(1) by (metis add_is_0 le_zero_eq mult_is_0 power_eq_0_iff zero_neq_numeral zero_neq_one)
  have "l < ?top"
  proof (rule ccontr)
    assume "\<not> l < ?top"
    then have "?top < FZN_BLOB_MAX_DEPTH" "(2 :: nat) ^ ?top \<le> 2 ^ l" using assms(2) by (simp_all add: power_increasing)
    then have "n div 2 ^ l = 0" using levels_loop_over [of n 0] by (metis div_le_mono2 le_zero_eq zero_less_numeral zero_less_power)
    then show False using node_room [OF assms(1)] by simp
  qed
  then have "level_at n (Suc l) \<le> level_at n ?top" by (intro level_at_mono) simp
  then have "level_at n l + i + 1 \<le> level_at n ?top" using node_room [OF assms(1)] by (simp add: level_at_Suc)
  then have "(level_at n l + i + 1) * FZN_BLOB_HASH_LEN \<le> level_at n ?top * FZN_BLOB_HASH_LEN" by (rule mult_le_mono1)
  then show ?thesis using n assms(3) by (simp add: fzn_blob_levels_bytes_def)
qed

section \<open>Writing the levels\<close>

text \<open>
  What the caller's storage is relied on for: a write inside the size asked for succeeds, the bytes
  written are read back, and bytes outside them are as before.
\<close>

definition storage_keeps :: "('s \<Rightarrow> nat \<Rightarrow> nat \<Rightarrow> bytes option) \<Rightarrow> ('s \<Rightarrow> nat \<Rightarrow> bytes \<Rightarrow> 's option) \<Rightarrow> nat \<Rightarrow> bool" where
  "storage_keeps rd wr sz \<longleftrightarrow> (\<forall>s off bs. off + length bs \<le> sz \<longrightarrow> (\<exists>s'. wr s off bs = Some s' \<and> rd s' off (length bs) = Some bs \<and>
     (\<forall>o' n. o' + n \<le> off \<or> off + length bs \<le> o' \<longrightarrow> rd s' o' n = rd s o' n)))"

abbreviation perfect :: "bytes list \<Rightarrow> nat \<Rightarrow> nat \<Rightarrow> bytes list" where
  "perfect xs l i \<equiv> run_of xs (i * 2 ^ l) (2 ^ l)"

abbreviation node_at :: "('s \<Rightarrow> nat \<Rightarrow> nat \<Rightarrow> bytes option) \<Rightarrow> 's \<Rightarrow> nat \<Rightarrow> nat \<Rightarrow> nat \<Rightarrow> bytes option" where
  "node_at rd s n l i \<equiv> rd s ((level_at n l + i) * FZN_BLOB_HASH_LEN) FZN_BLOB_HASH_LEN"

definition pending_holds :: "fzn_hash_fn \<Rightarrow> bytes list \<Rightarrow> bytes list \<Rightarrow> nat \<Rightarrow> bool" where
  "pending_holds h xs pending m \<longleftrightarrow> length pending = FZN_BLOB_MAX_DEPTH \<and>
     (\<forall>l < FZN_BLOB_MAX_DEPTH. odd (m div 2 ^ l) \<longrightarrow> pending ! l = merkle h (perfect xs l (m div 2 ^ l - 1)))"

definition nodes_hold :: "fzn_hash_fn \<Rightarrow> ('s \<Rightarrow> nat \<Rightarrow> nat \<Rightarrow> bytes option) \<Rightarrow> bytes list \<Rightarrow> 's \<Rightarrow> nat \<Rightarrow> bool" where
  "nodes_hold h rd xs s m \<longleftrightarrow> (\<forall>l i. (i + 1) * 2 ^ l \<le> m \<longrightarrow> node_at rd s (length xs) l i = Some (merkle h (perfect xs l i)))"

lemma merkle_perfect:
  assumes "odd i" and "(i + 1) * 2 ^ l \<le> length xs"
  shows "merkle h (perfect xs (l + 1) (i div 2)) = node_of h (merkle h (perfect xs l (i - 1))) (merkle h (perfect xs l i))"
proof -
  obtain j where j: "i = 2 * j + 1" using assms(1) by (auto elim: oddE)
  have b: "2 ^ l + 2 * j * 2 ^ l + 2 ^ l \<le> length xs" using assms(2) j by (simp add: algebra_simps)
  have "split_at (2 * 2 ^ l) = 2 ^ l" by (rule split_at_power) simp_all
  moreover have "(1 :: nat) < 2 * 2 ^ l" by (metis one_less_numeral_iff one_less_power power_Suc semiring_norm(76) zero_less_Suc)
  ultimately show ?thesis using merkle_slice(1) [of "2 * 2 ^ l" "2 * j * 2 ^ l" xs h] b by (simp add: j algebra_simps)
qed

lemma put_node_keeps:
  assumes "storage_keeps rd wr (fzn_blob_levels_bytes n)" and "(i + 1) * 2 ^ l \<le> n" and "n < FZN_BLOB_MAX_LEAVES" and "length node = FZN_BLOB_HASH_LEN"
  shows "\<exists>s'. put_node wr s n l i node = Some s' \<and> node_at rd s' n l i = Some node \<and>
    (\<forall>l' i'. (i' + 1) * 2 ^ l' \<le> n \<and> (l', i') \<noteq> (l, i) \<longrightarrow> node_at rd s' n l' i' = node_at rd s n l' i')"
proof -
  have "(2 :: nat) ^ l \<le> n" using assms(2) by simp
  then have "(2 :: nat) ^ l < 2 ^ FZN_BLOB_MAX_DEPTH" using assms(3) by linarith
  then have "l < FZN_BLOB_MAX_DEPTH" by (simp only: power_strict_increasing_iff)
  then have fits: "(level_at n l + i) * FZN_BLOB_HASH_LEN + length node \<le> fzn_blob_levels_bytes n" using node_in_file [OF assms(2)] assms(3,4) by simp
  then obtain s' where s': "put_node wr s n l i node = Some s'" "node_at rd s' n l i = Some node"
      "\<forall>o' m. o' + m \<le> (level_at n l + i) * 32 \<or> (level_at n l + i) * 32 + 32 \<le> o' \<longrightarrow> rd s' o' m = rd s o' m"
    using assms(1,4) unfolding storage_keeps_def put_node_def by metis
  have "node_at rd s' n l' i' = node_at rd s n l' i'" if "(i' + 1) * 2 ^ l' \<le> n" "(l', i') \<noteq> (l, i)" for l' i'
  proof -
    have "level_at n l' + i' + 1 \<le> level_at n l + i \<or> level_at n l + i + 1 \<le> level_at n l' + i'"
      using nodes_apart [OF that(1) assms(2) that(2)] by linarith
    then show ?thesis using s'(3) by auto
  qed
  then show ?thesis using s'(1,2) by blast
qed

lemma twos_factor:
  fixes i j :: nat
  assumes "(i + 1) * 2 ^ l = (j + 1) * 2 ^ k" and "even j"
  shows "l \<le> k"
proof (rule ccontr)
  assume "\<not> l \<le> k"
  then obtain d where d: "l = k + Suc d" by (metis less_imp_Suc_add not_le add_Suc_right)
  then have "((i + 1) * (2 * 2 ^ d)) * 2 ^ k = (j + 1) * 2 ^ k" using assms(1) by (simp add: power_add algebra_simps)
  then have "(i + 1) * (2 * 2 ^ d) = j + 1" by (simp only: mult_cancel2) simp
  then show False using assms(2) by (metis dvd_triv_left even_add odd_one mult.left_commute)
qed

lemma pending_next:
  assumes "m + 1 = (index + 1) * 2 ^ level" and "even index" and "m div 2 ^ level = index" and "level < FZN_BLOB_MAX_DEPTH"
    and "node = merkle h (perfect xs level index)" and "pending_holds h xs pending m"
  shows "pending_holds h xs (pending[level := node]) (m + 1)"
proof -
  have "(pending[level := node]) ! l = merkle h (perfect xs l ((m + 1) div 2 ^ l - 1))" if "l < FZN_BLOB_MAX_DEPTH" "odd ((m + 1) div 2 ^ l)" for l
  proof (cases l level rule: linorder_cases)
    case less
    then obtain d where "level = l + Suc d" by (metis less_imp_Suc_add add_Suc_right)
    then have "m + 1 = (index + 1) * (2 * 2 ^ d) * 2 ^ l" using assms(1) by (simp add: power_add algebra_simps)
    then have "(m + 1) div 2 ^ l = 2 * ((index + 1) * 2 ^ d)" by simp
    then show ?thesis using that(2) by (metis dvd_triv_left)
  next
    case equal
    then have "(m + 1) div 2 ^ l = index + 1" using assms(1) by simp
    then show ?thesis using equal assms(4,5,6) by (simp add: pending_holds_def)
  next
    case greater
    then obtain d where d: "l = level + Suc d" by (metis less_imp_Suc_add add_Suc_right)
    obtain j where j: "index = 2 * j" using assms(2) by (auto elim: evenE)
    have "(m + 1) div 2 ^ level = index + 1" using assms(1) by simp
    then have "(m + 1) div 2 ^ l = m div 2 ^ l" unfolding d power_add power_Suc div_mult2_eq assms(3) j by simp
    then show ?thesis using assms(6) that greater by (simp add: pending_holds_def)
  qed
  then show ?thesis using assms(6) by (simp add: pending_holds_def)
qed

lemma levels_push_holds:
  assumes "hash_total h" and "storage_keeps rd wr (fzn_blob_levels_bytes (length xs))" and "length xs < FZN_BLOB_MAX_LEAVES"
    and "\<forall>x \<in> set xs. length x = FZN_BLOB_HASH_LEN"
  shows "m + 1 = (index + 1) * 2 ^ level \<Longrightarrow> m < length xs \<Longrightarrow> node = merkle h (perfect xs level index) \<Longrightarrow> pending_holds h xs pending m \<Longrightarrow>
    (\<forall>l i. (i + 1) * 2 ^ l \<le> m \<or> (i + 1) * 2 ^ l = m + 1 \<and> l < level \<longrightarrow> node_at rd s (length xs) l i = Some (merkle h (perfect xs l i))) \<Longrightarrow>
    \<exists>pending' s'. levels_push_loop (Some (Some h)) wr (length xs) level index node pending s = (FZN_BLOB_OK, pending', s') \<and>
      pending_holds h xs pending' (m + 1) \<and> nodes_hold h rd xs s' (m + 1)"
proof (induction index arbitrary: level node s rule: less_induct)
  case (less index)
  let ?n = "length xs"
  have top: "(index + 1) * 2 ^ level \<le> ?n" using less.prems(1,2) by simp
  have "length node = FZN_BLOB_HASH_LEN" unfolding less.prems(3)
    using top by (intro length_merkle_run [OF assms(1,4)]) (simp_all add: algebra_simps)
  then obtain s' where s': "put_node wr s ?n level index node = Some s'" "node_at rd s' ?n level index = Some node"
      "\<forall>l' i'. (i' + 1) * 2 ^ l' \<le> ?n \<and> (l', i') \<noteq> (level, index) \<longrightarrow> node_at rd s' ?n l' i' = node_at rd s ?n l' i'"
    using put_node_keeps [OF assms(2) top assms(3)] by blast
  have kept: "node_at rd s' ?n l i = Some (merkle h (perfect xs l i))" if "(i + 1) * 2 ^ l \<le> m \<or> (i + 1) * 2 ^ l = m + 1 \<and> l \<le> level" for l i
  proof (cases "(l, i) = (level, index)")
    case True
    then show ?thesis using s'(2) less.prems(3) by simp
  next
    case False
    have "i = index" if "l = level" "(i + 1) * 2 ^ l = m + 1" using that less.prems(1) by simp
    then have "(i + 1) * 2 ^ l \<le> m \<or> (i + 1) * 2 ^ l = m + 1 \<and> l < level" using \<open>(i + 1) * 2 ^ l \<le> m \<or> _\<close> False by (metis le_neq_implies_less)
    then have "node_at rd s ?n l i = Some (merkle h (perfect xs l i))" "(i + 1) * 2 ^ l \<le> ?n" using less.prems(2,5) by auto
    then show ?thesis using s'(3) False by auto
  qed
  have "m + 1 = 2 ^ level * index + 2 ^ level" "0 < (2 :: nat) ^ level" using less.prems(1) by (simp_all add: algebra_simps)
  then have "2 ^ level * index \<le> m" "m < 2 ^ level * Suc index" unfolding mult_Suc_right by linarith+
  then have mdiv: "m div 2 ^ level = index" by (rule div_nat_eqI)
  have "(2 :: nat) ^ level \<le> m + 1" using less.prems(1) by simp
  then have "(2 :: nat) ^ level < 2 ^ FZN_BLOB_MAX_DEPTH" using less.prems(2) assms(3) by linarith
  then have lev: "level < FZN_BLOB_MAX_DEPTH" by (simp only: power_strict_increasing_iff)
  show ?case
  proof (cases "even index")
    case True
    have "nodes_hold h rd xs s' (m + 1)" unfolding nodes_hold_def using kept twos_factor [OF _ True] less.prems(1) by (metis le_SucE Suc_eq_plus1)
    moreover have "pending_holds h xs (pending[level := node]) (m + 1)" using pending_next [OF less.prems(1) True mdiv lev less.prems(3,4)] .
    ultimately show ?thesis using s'(1) True by (subst levels_push_loop.simps) (simp add: and_one_eq mod2_eq_if)
  next
    case False
    have "level + 1 < FZN_BLOB_MAX_DEPTH"
    proof (rule ccontr)
      assume "\<not> level + 1 < FZN_BLOB_MAX_DEPTH"
      then have "level = 39" using lev by simp
      moreover have "2 \<le> index + 1" using False by (cases index) auto
      ultimately have "2 * 2 ^ 39 \<le> m + 1" using less.prems(1) by (metis mult_le_mono1)
      then show False using less.prems(2) assms(3) by simp
    qed
    moreover have "merkle h (perfect xs (level + 1) (index div 2)) = node_of h (pending ! level) node"
      using merkle_perfect [OF False top, of h] less.prems(3,4) mdiv lev False by (simp add: pending_holds_def)
    moreover have "\<exists>pending' s''. levels_push_loop (Some (Some h)) wr ?n (level + 1) (index div 2) (merkle h (perfect xs (level + 1) (index div 2))) pending s' =
        (FZN_BLOB_OK, pending', s'') \<and> pending_holds h xs pending' (m + 1) \<and> nodes_hold h rd xs s'' (m + 1)"
    proof (rule less.IH [OF _ _ less.prems(2) refl less.prems(4)])
      show "index div 2 < index" using False by (cases index) auto
      obtain j where "index = 2 * j + 1" using False by (auto elim: oddE)
      then show "m + 1 = (index div 2 + 1) * 2 ^ (level + 1)" using less.prems(1) by (simp add: algebra_simps)
      show "\<forall>l i. (i + 1) * 2 ^ l \<le> m \<or> (i + 1) * 2 ^ l = m + 1 \<and> l < level + 1 \<longrightarrow> node_at rd s' ?n l i = Some (merkle h (perfect xs l i))"
        using kept by (metis less_Suc_eq_le Suc_eq_plus1)
    qed
    ultimately show ?thesis using s'(1) False
      by (subst levels_push_loop.simps) (simp add: and_one_eq mod2_eq_if node_hash_total [OF assms(1)] drop_bit_eq_div)
  qed
qed

fun levels_push_all :: "hash_ops \<Rightarrow> 's fzn_blob_levels_io option \<Rightarrow> fzn_blob_levels_builder option \<Rightarrow> 's \<Rightarrow> bytes list \<Rightarrow>
    fzn_blob_err \<times> fzn_blob_levels_builder option \<times> 's" where
  "levels_push_all hash io b s [] = (FZN_BLOB_OK, b, s)"
| "levels_push_all hash io b s (x # xs) =
     (case fzn_blob_levels_push hash b io (Some x) s of
        (FZN_BLOB_OK, b', s') \<Rightarrow> levels_push_all hash io b' s' xs
      | (err, b', s') \<Rightarrow> (err, b', s'))"

lemma levels_push_all_hold:
  assumes "hash_total h" and "storage_keeps rd wr (fzn_blob_levels_bytes (length xs))" and "length xs < FZN_BLOB_MAX_LEAVES"
    and "\<forall>x \<in> set xs. length x = FZN_BLOB_HASH_LEN"
  shows "ys = drop m xs \<Longrightarrow> m \<le> length xs \<Longrightarrow> lb_leaves b = length xs \<Longrightarrow> lb_pushed b = m \<Longrightarrow> pending_holds h xs (lb_pending b) m \<Longrightarrow> nodes_hold h rd xs s m \<Longrightarrow>
    \<exists>b' s'. levels_push_all (Some (Some h)) (Some \<lparr>li_read = Some rd, li_write = Some wr\<rparr>) (Some b) s ys = (FZN_BLOB_OK, Some b', s') \<and>
      lb_pushed b' = length xs \<and> nodes_hold h rd xs s' (length xs)"
proof (induction ys arbitrary: m b s)
  case Nil
  then show ?case by (simp add: le_antisym)
next
  case (Cons y ys)
  then have m: "m < length xs" "y = xs ! m" "ys = drop (m + 1) xs"
    by (metis drop_eq_Nil list.discI not_le, metis hd_drop_conv_nth drop_eq_Nil list.discI list.sel(1) not_le, metis drop_Suc list.sel(3) tl_drop Suc_eq_plus1)
  have leaf: "y = merkle h (perfect xs 0 m)" using run_of_one [OF m(1), of h] m(2) by simp
  have old: "\<forall>l i. (i + 1) * 2 ^ l \<le> m \<or> (i + 1) * 2 ^ l = m + 1 \<and> l < 0 \<longrightarrow> node_at rd s (length xs) l i = Some (merkle h (perfect xs l i))"
    using Cons.prems(6) by (simp add: nodes_hold_def)
  obtain p' s' where p': "levels_push_loop (Some (Some h)) wr (length xs) 0 m y (lb_pending b) s = (FZN_BLOB_OK, p', s')"
      "pending_holds h xs p' (m + 1)" "nodes_hold h rd xs s' (m + 1)"
    using levels_push_holds [OF assms, of m m 0, OF _ m(1) leaf Cons.prems(5) old] by auto
  let ?b = "b\<lparr>lb_pushed := m + 1, lb_pending := p'\<rparr>"
  have "fzn_blob_levels_push (Some (Some h)) (Some b) (Some \<lparr>li_read = Some rd, li_write = Some wr\<rparr>) (Some y) s = (FZN_BLOB_OK, Some ?b, s')"
    using p'(1) m(1) Cons.prems(3,4) by (simp add: fzn_blob_levels_push_def)
  moreover have "\<exists>b' s''. levels_push_all (Some (Some h)) (Some \<lparr>li_read = Some rd, li_write = Some wr\<rparr>) (Some ?b) s' ys = (FZN_BLOB_OK, Some b', s'') \<and>
      lb_pushed b' = length xs \<and> nodes_hold h rd xs s'' (length xs)"
    using p'(2,3) m(1,3) Cons.prems(3) by (intro Cons.IH) simp_all
  ultimately show ?case by simp
qed

section \<open>Reading them back\<close>

lemma power_and: "(2 :: nat) ^ e AND (2 ^ e - 1) = 0" "lo AND (2 ^ e - 1) = lo mod (2 :: nat) ^ e"
  unfolding mask_eq_exp_minus_1 [symmetric] take_bit_eq_mask [symmetric] by (simp_all add: take_bit_eq_mod)

lemma power_test: "0 < n \<Longrightarrow> n AND (n - 1) = 0 \<Longrightarrow> \<exists>e. n = (2 :: nat) ^ e"
proof (induction n rule: less_induct)
  case (less n)
  show ?case
  proof (cases "even n")
    case True
    then obtain k where k: "n = 2 * k" by (auto elim: evenE)
    have "(n - 1) div 2 = k - 1" "n div 2 = k" using k less.prems(1) by auto
    then have "k AND (k - 1) = 0" using less.prems(2) and_rec [of n "n - 1"] by simp
    then obtain e where "k = 2 ^ e" using less.IH [of k] k less.prems(1) by auto
    then have "n = 2 ^ Suc e" using k by simp
    then show ?thesis by blast
  next
    case False
    then obtain k where k: "n = 2 * k + 1" by (auto elim: oddE)
    then have "(n - 1) div 2 = k" "n div 2 = k" by auto
    then have "k = 0" using less.prems(2) and_rec [of n "n - 1"] by simp
    then have "n = 2 ^ 0" using k by simp
    then show ?thesis by blast
  qed
qed

lemma level_loop_power: "l \<le> e \<Longrightarrow> level_loop l (2 ^ e) = e"
proof (induction "e - l" arbitrary: l)
  case 0
  then show ?case by (subst level_loop.simps) (simp add: push_bit_eq_mult)
next
  case (Suc d)
  then have "level_loop l (2 ^ e) = level_loop (l + 1) (2 ^ e)" by (subst level_loop.simps) (simp add: push_bit_eq_mult)
  then show ?case using Suc by simp
qed

lemma levels_subtree_is:
  assumes "hash_total h" and "nodes_hold h rd xs s (length xs)"
  shows "0 < n \<Longrightarrow> lo + n \<le> length xs \<Longrightarrow> levels_subtree (Some h) (rd s) (length xs) lo n = (FZN_BLOB_OK, Some (merkle h (run_of xs lo n)))"
proof (induction n arbitrary: lo rule: less_induct)
  case (less n)
  have in_range: "\<not> (n = 0 \<or> length xs < lo \<or> length xs - lo < n)" using less.prems by auto
  show ?case
  proof (cases "n AND (n - 1) = 0 \<and> lo AND (n - 1) = 0")
    case True
    then obtain e where e: "n = 2 ^ e" using power_test less.prems(1) by blast
    then have "lo mod 2 ^ e = 0" using True power_and(2) [of lo e] by simp
    then have lo: "lo div 2 ^ e * 2 ^ e = lo" by (metis add.right_neutral div_mult_mod_eq)
    have "node_at rd s (length xs) e (lo div 2 ^ e) = Some (merkle h (perfect xs e (lo div 2 ^ e)))"
      using assms(2) less.prems(2) lo unfolding nodes_hold_def e by (metis add_mult_distrib mult_1)
    moreover have "level_loop 0 n = e" using level_loop_power [of 0 e] e by simp
    ultimately show ?thesis using True in_range lo e by (subst levels_subtree.simps) (simp add: drop_bit_eq_div)
  next
    case False
    have n: "1 < n" using False less.prems(1) by (cases "n = 1") auto
    note b = split_at_bounds [OF n]
    have "levels_subtree (Some h) (rd s) (length xs) lo (split_at n) = (FZN_BLOB_OK, Some (merkle h (run_of xs lo (split_at n))))"
      "levels_subtree (Some h) (rd s) (length xs) (lo + split_at n) (n - split_at n) = (FZN_BLOB_OK, Some (merkle h (run_of xs (lo + split_at n) (n - split_at n))))"
      using b less.prems(2) by (intro less.IH; simp)+
    then have "levels_subtree (Some h) (rd s) (length xs) lo n =
        fzn_blob_node_hash (Some (Some h)) (merkle h (run_of xs lo (split_at n))) (merkle h (run_of xs (lo + split_at n) (n - split_at n)))"
      using False in_range by (subst levels_subtree.simps) (simp only: split_below_is if_False prod.case option.case fzn_blob_err.case)
    then show ?thesis by (simp only: node_hash_total [OF assms(1)] merkle_slice(1) [OF n less.prems(2)])
  qed
qed

lemma span_loop_cong:
  "(\<And>a b. 0 < b \<Longrightarrow> a + b \<le> lo + n \<Longrightarrow> f a b = g a b) \<Longrightarrow> span_loop (Some f) cap first c lo n ss path = span_loop (Some g) cap first c lo n ss path"
proof (induction n arbitrary: lo ss path rule: less_induct)
  case (less n)
  show ?case
  proof (cases "1 < n")
    case True
    note b = split_at_bounds [OF True]
    have same: "put_sibling (Some f) cap (length path) (lo + split_at n) (n - split_at n) ss = put_sibling (Some g) cap (length path) (lo + split_at n) (n - split_at n) ss"
      "put_sibling (Some f) cap (length path) lo (split_at n) ss = put_sibling (Some g) cap (length path) lo (split_at n) ss"
      using less.prems b by (simp_all add: put_sibling_def)
    have down: "span_loop (Some f) cap first c lo (split_at n) ss' path' = span_loop (Some g) cap first c lo (split_at n) ss' path'"
      "span_loop (Some f) cap first c (lo + split_at n) (n - split_at n) ss' path' = span_loop (Some g) cap first c (lo + split_at n) (n - split_at n) ss' path'" for ss' path'
      using b by (intro less.IH less.prems; simp)+
    show ?thesis
      by (subst (1 2) span_loop.simps) (simp only: same down)
  next
    case False
    then show ?thesis by (subst (1 2) span_loop.simps) simp
  qed
qed

section \<open>Properties\<close>

text \<open>
  C27. The levels stand in for the leaves. Built leaf by leaf into any storage that keeps what is written to
  it, they answer for every run of leaves with the root that the array of all leaf hashes gives, for
  every index with the leaf, and every request for the proof of a span, canonical or not, whatever room
  it has, exactly as the builder over the array does; no write leaves the size announced.
\<close>

theorem levels_stand_in:
  fixes h rd wr xs
  defines "io \<equiv> \<lparr>li_read = Some rd, li_write = Some wr\<rparr>" and "levels \<equiv> \<lparr>le_hash = Some (Some h), le_io = Some \<lparr>li_read = Some rd, li_write = Some wr\<rparr>, le_leaves = length xs\<rparr>"
  assumes "hash_total h" and "storage_keeps rd wr (fzn_blob_levels_bytes (length xs))" and "xs \<noteq> []" and "length xs < FZN_BLOB_MAX_LEAVES"
    and "\<forall>x \<in> set xs. length x = FZN_BLOB_HASH_LEN"
  shows "\<exists>b b' s'. fzn_blob_levels_begin (Some b0) (length xs) = (FZN_BLOB_OK, b) \<and>
    levels_push_all (Some (Some h)) (Some io) b s xs = (FZN_BLOB_OK, b', s') \<and>
    (\<forall>lo n. 0 < n \<and> lo + n \<le> length xs \<longrightarrow> fzn_blob_levels_subtree (Some levels) s' lo n = subtree_root (Some (Some h)) xs lo n) \<and>
    (\<forall>i < length xs. fzn_blob_levels_leaf (Some levels) s' i = (FZN_BLOB_OK, Some (xs ! i))) \<and>
    (\<forall>f c cap. fzn_blob_levels_span_proof (Some levels) s' f c cap = fzn_blob_span_proof_build (Some (Some h)) (Some xs) (length xs) f c cap)"
proof -
  let ?b = "\<lparr>lb_leaves = length xs, lb_pushed = 0, lb_pending = replicate FZN_BLOB_MAX_DEPTH (replicate FZN_BLOB_HASH_LEN 0)\<rparr>"
  have begin_ok: "fzn_blob_levels_begin (Some b0) (length xs) = (FZN_BLOB_OK, Some ?b)" using assms(5,6) by (simp add: fzn_blob_levels_begin_def)
  have "nodes_hold h rd xs s 0" "pending_holds h xs (lb_pending ?b) 0" by (simp_all add: nodes_hold_def pending_holds_def)
  then obtain b' s' where b': "levels_push_all (Some (Some h)) (Some io) (Some ?b) s xs = (FZN_BLOB_OK, Some b', s')" "nodes_hold h rd xs s' (length xs)"
    using levels_push_all_hold [OF assms(3,4,6,7), of xs 0 ?b s] unfolding io_def by auto
  have sub: "fzn_blob_levels_subtree (Some levels) s' lo n = (FZN_BLOB_OK, Some (merkle h (run_of xs lo n)))" if "0 < n" "lo + n \<le> length xs" for lo n
    using levels_subtree_is [OF assms(3) b'(2) that] by (simp add: fzn_blob_levels_subtree_def levels_def)
  then have agree: "fzn_blob_levels_subtree (Some levels) s' lo n = subtree_root (Some (Some h)) xs lo n" if "0 < n" "lo + n \<le> length xs" for lo n
    using subtree_root_is_merkle [OF assms(3) that(1) _ that(2)] that assms(6) by simp
  have leaf: "fzn_blob_levels_leaf (Some levels) s' i = (FZN_BLOB_OK, Some (xs ! i))" if "i < length xs" for i
    using sub [of 1 i] run_of_one [OF that, of h] that by (simp add: fzn_blob_levels_leaf_def levels_def)
  have "span_walk (Some (fzn_blob_levels_subtree (Some levels) s')) (length xs) f c cap = span_walk (Some (subtree_root (Some (Some h)) xs)) (length xs) f c cap" for f c cap
    unfolding span_walk_def using span_loop_cong [of 0 "length xs" "fzn_blob_levels_subtree (Some levels) s'"] agree by simp
  then have "fzn_blob_levels_span_proof (Some levels) s' f c cap = fzn_blob_span_proof_build (Some (Some h)) (Some xs) (length xs) f c cap" for f c cap
    by (simp add: fzn_blob_levels_span_proof_def fzn_blob_span_proof_from_def fzn_blob_span_proof_build_def levels_def)
  then show ?thesis using begin_ok b'(1) agree leaf by blast
qed

section \<open>Witness\<close>

definition demo_read :: "(nat \<Rightarrow> u8) \<Rightarrow> nat \<Rightarrow> nat \<Rightarrow> bytes option" where
  "demo_read s off n = Some (map s [off..<off + n])"

definition demo_write :: "(nat \<Rightarrow> u8) \<Rightarrow> nat \<Rightarrow> bytes \<Rightarrow> (nat \<Rightarrow> u8) option" where
  "demo_write s off bs = Some (\<lambda>k. if off \<le> k \<and> k < off + length bs then bs ! (k - off) else s k)"

lemma demo_storage: "storage_keeps demo_read demo_write n"
  by (auto simp: storage_keeps_def demo_read_def demo_write_def intro!: nth_equalityI)

theorem levels_stand_in_witness:
  "\<exists>b b' s'. fzn_blob_levels_begin (Some \<lparr>lb_leaves = 0, lb_pushed = 0, lb_pending = []\<rparr>) 3 = (FZN_BLOB_OK, b) \<and>
    levels_push_all (Some (Some demo_hash)) (Some \<lparr>li_read = Some demo_read, li_write = Some demo_write\<rparr>) b (\<lambda>_. 0) demo_leaves = (FZN_BLOB_OK, b', s') \<and>
    fzn_blob_levels_leaf (Some \<lparr>le_hash = Some (Some demo_hash), le_io = Some \<lparr>li_read = Some demo_read, li_write = Some demo_write\<rparr>, le_leaves = 3\<rparr>) s' 2 =
      (FZN_BLOB_OK, Some (replicate 32 3))"
proof -
  have l: "length demo_leaves = 3" "demo_leaves ! 2 = replicate 32 3" by simp_all
  have d: "demo_leaves \<noteq> []" "length demo_leaves < 2 ^ 40" "\<forall>x \<in> set demo_leaves. length x = 32" by simp_all
  from levels_stand_in [OF demo_ratchet(1) demo_storage d, unfolded l(1), of "\<lparr>lb_leaves = 0, lb_pushed = 0, lb_pending = []\<rparr>" "\<lambda>_. 0"] obtain b b' s' where
    run: "fzn_blob_levels_begin (Some \<lparr>lb_leaves = 0, lb_pushed = 0, lb_pending = []\<rparr>) 3 = (FZN_BLOB_OK, b)"
      "levels_push_all (Some (Some demo_hash)) (Some \<lparr>li_read = Some demo_read, li_write = Some demo_write\<rparr>) b (\<lambda>_. 0) demo_leaves = (FZN_BLOB_OK, b', s')"
    and leaf: "\<forall>i < 3. fzn_blob_levels_leaf (Some \<lparr>le_hash = Some (Some demo_hash), le_io = Some \<lparr>li_read = Some demo_read, li_write = Some demo_write\<rparr>, le_leaves = 3\<rparr>) s' i =
      (FZN_BLOB_OK, Some (demo_leaves ! i))" by blast
  have "(2 :: nat) < 3" by simp
  from leaf [rule_format, OF this, unfolded l(2)] run show ?thesis by blast
qed

end
