(* ===== verification/Cells.thy ===== *)
theory Cells
  imports Signed_Record Keyed_Map
begin

text \<open>
  Settings as cells (\<open>state/state.c\<close>): one register for each subject and kind, written by records of one
  issuer and stream in the order of their numbers, cleared by tombstones that a replay cannot lift.
  Shown are that the table implements a map of registers on every branch, that a live cell is never lost, and
  that hosts which applied the same records agree, in whatever order the records came.
\<close>

section \<open>The model\<close>

datatype fzn_state_err = FZN_STATE_OK | FZN_STATE_ERR_MALFORMED | FZN_STATE_ERR_FULL | FZN_STATE_ERR_STALE | FZN_STATE_ERR_CONFLICT
  | FZN_STATE_ABSENT | FZN_STATE_ERR_CROSS_STREAM

text \<open>The body of a tombstone is the null pointer.\<close>

record fzn_state_entry =
  ce_subject :: bytes
  ce_kind :: u32
  ce_stream :: u32
  ce_issuer :: key
  ce_seq :: u64
  ce_body :: "bytes option"
  ce_body_len :: nat
  ce_live :: bool

record fzn_state =
  sa_entries :: "fzn_state_entry list option"
  sa_capacity :: nat
  sa_used :: nat
  sa_forgotten :: u64

definition find_cell :: "fzn_state \<Rightarrow> bytes \<Rightarrow> u32 \<Rightarrow> nat option" where
  "find_cell state subject kind = last_hit (\<lambda>e. ce_kind e = kind \<and> ce_subject e = subject) (the (sa_entries state)) (sa_used state)"

definition fzn_state_sound :: "fzn_state option \<Rightarrow> bool" where
  "fzn_state_sound state \<longleftrightarrow> state \<noteq> None \<and> sa_entries (the state) \<noteq> None \<and> sa_used (the state) \<le> sa_capacity (the state)"

definition usable_cells :: "fzn_state option \<Rightarrow> bool" where
  "usable_cells state = fzn_state_sound state"

definition slot :: "fzn_state \<Rightarrow> nat option \<times> fzn_state" where
  "slot state =
     (if sa_used state < sa_capacity state then (Some (sa_used state), state\<lparr>sa_used := sa_used state + 1\<rparr>)
      else (case List.find (\<lambda>i. \<not> ce_live (the (sa_entries state) ! i)) [0..<sa_used state] of
              Some i \<Rightarrow> (Some i, state\<lparr>sa_forgotten := sa_forgotten state + 1\<rparr>)
            | None \<Rightarrow> (None, state)))"

definition zero_cell :: fzn_state_entry where
  "zero_cell = \<lparr>ce_subject = replicate FZN_SUBJECT_LEN 0, ce_kind = 0, ce_stream = 0, ce_issuer = replicate FZN_PUBKEY_LEN 0, ce_seq = 0,
     ce_body = None, ce_body_len = 0, ce_live = False\<rparr>"

definition fzn_state_init :: "fzn_state option \<Rightarrow> fzn_state_entry list option \<Rightarrow> nat \<Rightarrow> fzn_state_err \<times> fzn_state option" where
  "fzn_state_init state entries capacity =
     (if state = None \<or> entries = None \<or> capacity = 0 then (FZN_STATE_ERR_MALFORMED, state)
      else (FZN_STATE_OK, Some \<lparr>sa_entries = Some (replicate capacity zero_cell @ drop capacity (the entries)), sa_capacity = capacity, sa_used = 0, sa_forgotten = 0\<rparr>))"

definition store_cell :: "bytes \<Rightarrow> bool \<Rightarrow> fzn_state_entry" where
  "store_cell r live = \<lparr>ce_subject = fzn_record_subject r, ce_kind = fzn_record_kind r, ce_stream = fzn_record_stream r, ce_issuer = fzn_record_issuer r,
     ce_seq = fzn_record_seq r, ce_body = (if live then Some (fzn_record_body r) else None),
     ce_body_len = (if live then fzn_record_body_len r else 0), ce_live = live\<rparr>"

definition set_cell :: "fzn_state \<Rightarrow> nat \<Rightarrow> fzn_state_entry \<Rightarrow> fzn_state" where
  "set_cell state i e = state\<lparr>sa_entries := Some ((the (sa_entries state))[i := e])\<rparr>"

definition put_cell :: "fzn_state option \<Rightarrow> bytes option \<Rightarrow> bool \<Rightarrow> bool \<Rightarrow> fzn_state_err \<times> fzn_state option" where
  "put_cell state record over live =
     (if \<not> usable_cells state \<or> record = None then (FZN_STATE_ERR_MALFORMED, state)
      else if \<not> fzn_record_is_open record then (FZN_STATE_ERR_MALFORMED, state)
      else if fzn_record_seq (the record) = 0 then (FZN_STATE_ERR_MALFORMED, state)
      else let st = the state; r = the record in
        (case find_cell st (fzn_record_subject r) (fzn_record_kind r) of
           None \<Rightarrow>
             (case slot st of
                (None, st') \<Rightarrow> (FZN_STATE_ERR_FULL, Some st')
              | (Some i, st') \<Rightarrow> (if live then FZN_STATE_OK else FZN_STATE_ABSENT, Some (set_cell st' i (store_cell r live))))
         | Some i \<Rightarrow> let e = the (sa_entries st) ! i in
             if ce_issuer e \<noteq> fzn_record_issuer r then
               if \<not> over then (FZN_STATE_ERR_CONFLICT, state) else (FZN_STATE_OK, Some (set_cell st i (store_cell r live)))
             else if ce_stream e \<noteq> fzn_record_stream r then
               if \<not> over then (FZN_STATE_ERR_CROSS_STREAM, state) else (FZN_STATE_OK, Some (set_cell st i (store_cell r live)))
             else if fzn_record_seq r \<le> ce_seq e then (FZN_STATE_ERR_STALE, state)
             else (FZN_STATE_OK, Some (set_cell st i (store_cell r live)))))"

definition fzn_state_apply :: "fzn_state option \<Rightarrow> bytes option \<Rightarrow> fzn_state_err \<times> fzn_state option" where
  "fzn_state_apply state record = put_cell state record False True"

definition fzn_state_resolve :: "fzn_state option \<Rightarrow> bytes option \<Rightarrow> fzn_state_err \<times> fzn_state option" where
  "fzn_state_resolve state record = put_cell state record True True"

definition fzn_state_clear :: "fzn_state option \<Rightarrow> bytes option \<Rightarrow> fzn_state_err \<times> fzn_state option" where
  "fzn_state_clear state record = put_cell state record False False"

definition fzn_state_resolve_clear :: "fzn_state option \<Rightarrow> bytes option \<Rightarrow> fzn_state_err \<times> fzn_state option" where
  "fzn_state_resolve_clear state record = put_cell state record True False"

definition fzn_state_get :: "fzn_state option \<Rightarrow> bytes option \<Rightarrow> u32 \<Rightarrow> fzn_state_entry option" where
  "fzn_state_get state subject kind =
     (if \<not> usable_cells state \<or> subject = None then None
      else (case find_cell (the state) (the subject) kind of
              None \<Rightarrow> None
            | Some i \<Rightarrow> let e = the (sa_entries (the state)) ! i in if ce_live e then Some e else None))"

definition fzn_state_count :: "fzn_state option \<Rightarrow> nat" where
  "fzn_state_count state =
     (if \<not> usable_cells state then 0
      else fold (\<lambda>i n. n + (if ce_live (the (sa_entries (the state)) ! i) then 1 else 0)) [0..<sa_used (the state)] 0)"

definition fzn_state_forgotten :: "fzn_state option \<Rightarrow> u64" where
  "fzn_state_forgotten state = (if usable_cells state then sa_forgotten (the state) else 0)"

definition fzn_state_err_str :: "fzn_state_err \<Rightarrow> string" where
  "fzn_state_err_str err =
     (case err of FZN_STATE_OK \<Rightarrow> ''ok'' | FZN_STATE_ERR_MALFORMED \<Rightarrow> ''malformed argument'' | FZN_STATE_ERR_FULL \<Rightarrow> ''no room for another subject''
      | FZN_STATE_ERR_STALE \<Rightarrow> ''older than what is held'' | FZN_STATE_ERR_CONFLICT \<Rightarrow> ''another issuer holds this''
      | FZN_STATE_ABSENT \<Rightarrow> ''nothing was set, and a tombstone now says so''
      | FZN_STATE_ERR_CROSS_STREAM \<Rightarrow> ''another stream of this issuer holds this'')"

section \<open>A map of registers\<close>

type_synonym cell = "bytes \<times> u32"

definition cell_of :: "fzn_state_entry \<Rightarrow> cell" where
  "cell_of e = (ce_subject e, ce_kind e)"

definition record_cell :: "bytes \<Rightarrow> cell" where
  "record_cell r = (fzn_record_subject r, fzn_record_kind r)"

definition cells :: "fzn_state \<Rightarrow> fzn_state_entry list" where
  "cells st = take (sa_used st) (the (sa_entries st))"

definition cell_map :: "fzn_state \<Rightarrow> (cell \<rightharpoonup> fzn_state_entry)" where
  "cell_map st = row_map cell_of (cells st)"

definition cells_wf :: "fzn_state \<Rightarrow> bool" where
  "cells_wf st \<longleftrightarrow> sa_entries st \<noteq> None \<and> sa_used st \<le> sa_capacity st \<and> sa_capacity st \<le> length (the (sa_entries st)) \<and> distinct (map cell_of (cells st))"

text \<open>
  What a write does to the map, in one rule for each branch: a fresh cell where there is room, a fresh cell in
  the place of a tombstone where there is none, a newer record of the cell's writer, and another
  writer's record that was told to override. \<open>refused\<close> lists when nothing is stored, and the answer.
\<close>

inductive cell_write :: "nat \<Rightarrow> bool \<Rightarrow> fzn_state_entry \<Rightarrow> (cell \<rightharpoonup> fzn_state_entry) \<Rightarrow> u64 \<Rightarrow> fzn_state_err \<Rightarrow> (cell \<rightharpoonup> fzn_state_entry) \<Rightarrow> u64 \<Rightarrow> bool"
  for cap over e m n where
  fresh: "m (cell_of e) = None \<Longrightarrow> card (dom m) < cap \<Longrightarrow>
    cell_write cap over e m n (if ce_live e then FZN_STATE_OK else FZN_STATE_ABSENT) (m(cell_of e \<mapsto> e)) n"
| forgetting: "m (cell_of e) = None \<Longrightarrow> \<not> card (dom m) < cap \<Longrightarrow> m k = Some dead \<Longrightarrow> \<not> ce_live dead \<Longrightarrow>
    cell_write cap over e m n (if ce_live e then FZN_STATE_OK else FZN_STATE_ABSENT) ((m(k := None))(cell_of e \<mapsto> e)) (n + 1)"
| newer: "m (cell_of e) = Some old \<Longrightarrow> ce_issuer old = ce_issuer e \<Longrightarrow> ce_stream old = ce_stream e \<Longrightarrow> ce_seq old < ce_seq e \<Longrightarrow>
    cell_write cap over e m n FZN_STATE_OK (m(cell_of e \<mapsto> e)) n"
| overriding: "m (cell_of e) = Some old \<Longrightarrow> ce_issuer old \<noteq> ce_issuer e \<or> ce_stream old \<noteq> ce_stream e \<Longrightarrow> over \<Longrightarrow>
    cell_write cap over e m n FZN_STATE_OK (m(cell_of e \<mapsto> e)) n"
| full: "m (cell_of e) = None \<Longrightarrow> \<not> card (dom m) < cap \<Longrightarrow> \<forall>k dead. m k = Some dead \<longrightarrow> ce_live dead \<Longrightarrow>
    cell_write cap over e m n FZN_STATE_ERR_FULL m n"
| stale: "m (cell_of e) = Some old \<Longrightarrow> ce_issuer old = ce_issuer e \<Longrightarrow> ce_stream old = ce_stream e \<Longrightarrow> ce_seq e \<le> ce_seq old \<Longrightarrow>
    cell_write cap over e m n FZN_STATE_ERR_STALE m n"
| conflict: "m (cell_of e) = Some old \<Longrightarrow> ce_issuer old \<noteq> ce_issuer e \<Longrightarrow> \<not> over \<Longrightarrow>
    cell_write cap over e m n FZN_STATE_ERR_CONFLICT m n"
| cross_stream: "m (cell_of e) = Some old \<Longrightarrow> ce_issuer old = ce_issuer e \<Longrightarrow> ce_stream old \<noteq> ce_stream e \<Longrightarrow> \<not> over \<Longrightarrow>
    cell_write cap over e m n FZN_STATE_ERR_CROSS_STREAM m n"

lemma cell_of_store: "cell_of (store_cell r live) = record_cell r"
  by (simp add: cell_of_def store_cell_def record_cell_def)

lemma store_cell_fields [simp]: "ce_issuer (store_cell r live) = fzn_record_issuer r" "ce_stream (store_cell r live) = fzn_record_stream r"
    "ce_seq (store_cell r live) = fzn_record_seq r" "ce_live (store_cell r live) = live"
  by (simp_all add: store_cell_def)

lemma find_cell_map:
  assumes "cells_wf st"
  obtains (absent) "find_cell st s k = None" "cell_map st (s, k) = None" "(s, k) \<notin> cell_of ` set (cells st)"
    | (present) i where "find_cell st s k = Some i" "i < sa_used st" "cell_of (the (sa_entries st) ! i) = (s, k)" "cell_map st (s, k) = Some (the (sa_entries st) ! i)"
proof -
  have "(\<lambda>e. ce_kind e = k \<and> ce_subject e = s) = (\<lambda>e. cell_of e = (s, k))" by (auto simp: cell_of_def)
  then have f: "find_cell st s k = last_hit (\<lambda>e. cell_of e = (s, k)) (the (sa_entries st)) (sa_used st)" by (simp add: find_cell_def)
  have "sa_used st \<le> length (the (sa_entries st))" "distinct (map cell_of (take (sa_used st) (the (sa_entries st))))"
    using assms by (auto simp: cells_wf_def cells_def)
  then show thesis
    by (cases rule: last_hit_row [of _ _ _ "(s, k)"]) (use absent present in \<open>simp_all add: f cell_map_def cells_def\<close>)
qed

lemma card_cells: "cells_wf st \<Longrightarrow> card (dom (cell_map st)) = sa_used st"
  by (simp add: cell_map_def card_dom_row_map cells_wf_def) (simp add: cells_def)

lemma set_cell_map:
  assumes "cells_wf st" and "i < sa_used st" and "cell_of e = cell_of (the (sa_entries st) ! i)"
  shows "cells_wf (set_cell st i e)" and "cell_map (set_cell st i e) = (cell_map st)(cell_of e \<mapsto> e)"
proof -
  let ?xs = "cells st"
  have i: "i < length ?xs" "cell_of e = cell_of (?xs ! i)" "distinct (map cell_of ?xs)" using assms by (auto simp: cells_def cells_wf_def)
  have eq: "cells (set_cell st i e) = ?xs[i := e]" by (simp add: cells_def set_cell_def take_update_swap)
  show "cells_wf (set_cell st i e)" using assms(1) i update_keys [OF i(1,2)] unfolding cells_wf_def eq by (simp add: set_cell_def)
  show "cell_map (set_cell st i e) = (cell_map st)(cell_of e \<mapsto> e)" using row_map_update [OF i(3,1,2)] i(2) unfolding cell_map_def eq by simp
qed

lemma append_cell_map:
  assumes "cells_wf st" and "sa_used st < sa_capacity st" and "cell_of e \<notin> cell_of ` set (cells st)"
  defines "st' \<equiv> set_cell (st\<lparr>sa_used := sa_used st + 1\<rparr>) (sa_used st) e"
  shows "cells_wf st'" and "cell_map st' = (cell_map st)(cell_of e \<mapsto> e)"
proof -
  have "sa_used st < length (the (sa_entries st))" using assms(1,2) by (auto simp: cells_wf_def)
  then have eq: "cells st' = cells st @ [e]" by (simp add: cells_def st'_def set_cell_def take_Suc_conv_app_nth)
  show "cells_wf st'" using assms(1-3) unfolding cells_wf_def eq by (simp add: st'_def set_cell_def)
  show "cell_map st' = (cell_map st)(cell_of e \<mapsto> e)" unfolding cell_map_def eq by (rule row_map_append [OF assms(3)])
qed

lemma row_map_iff: "distinct (map key_of xs) \<Longrightarrow> row_map key_of xs k = Some e \<longleftrightarrow> e \<in> set xs \<and> key_of e = k"
  using row_map_in [of key_of xs k e] row_map_nth [of key_of xs] by (auto simp: in_set_conv_nth)

lemma row_map_replace:
  assumes "distinct (map key_of xs)" and "i < length xs" and "key_of e \<notin> key_of ` set xs"
  shows "distinct (map key_of (xs[i := e]))" and "row_map key_of (xs[i := e]) = ((row_map key_of xs)(key_of (xs ! i) := None))(key_of e \<mapsto> e)"
proof -
  show d: "distinct (map key_of (xs[i := e]))" using assms by (simp add: map_update distinct_list_update)
  have mem: "e' \<in> set (xs[i := e]) \<longleftrightarrow> e' = e \<or> e' \<in> set xs \<and> e' \<noteq> xs ! i" for e'
    using set_update_distinct [of xs i e] assms(1,2) by (auto simp: distinct_map)
  show "row_map key_of (xs[i := e]) = ((row_map key_of xs)(key_of (xs ! i) := None))(key_of e \<mapsto> e)"
  proof (rule row_map_ext [OF d])
    fix k e'
    have "e' = xs ! i" if "e' \<in> set xs" "key_of e' = key_of (xs ! i)" using assms(1,2) that by (auto simp: distinct_map dest: inj_onD)
    moreover have "key_of e' \<noteq> key_of e" if "e' \<in> set xs" using assms(3) that by (metis imageI)
    ultimately show "(((row_map key_of xs)(key_of (xs ! i) := None))(key_of e \<mapsto> e)) k = Some e' \<longleftrightarrow> e' \<in> set (xs[i := e]) \<and> key_of e' = k"
      unfolding mem using row_map_iff [OF assms(1), of k e'] by auto
  qed
qed

lemma replace_cell_map:
  assumes "cells_wf st" and "i < sa_used st" and "cell_of e \<notin> cell_of ` set (cells st)"
  shows "cells_wf (set_cell st i e)" and "cell_map (set_cell st i e) = ((cell_map st)(cell_of (the (sa_entries st) ! i) := None))(cell_of e \<mapsto> e)"
proof -
  let ?xs = "cells st"
  have i: "i < length ?xs" "distinct (map cell_of ?xs)" "?xs ! i = the (sa_entries st) ! i" using assms by (auto simp: cells_def cells_wf_def)
  have eq: "cells (set_cell st i e) = ?xs[i := e]" by (simp add: cells_def set_cell_def take_update_swap)
  note rep = row_map_replace [OF i(2,1) assms(3)]
  show "cells_wf (set_cell st i e)" using assms(1) rep(1) unfolding cells_wf_def eq by (simp add: set_cell_def)
  show "cell_map (set_cell st i e) = ((cell_map st)(cell_of (the (sa_entries st) ! i) := None))(cell_of e \<mapsto> e)"
    using rep(2) i(3) unfolding cell_map_def eq by simp
qed

lemma slot_cases:
  assumes "cells_wf st"
  obtains (room) "sa_used st < sa_capacity st" "slot st = (Some (sa_used st), st\<lparr>sa_used := sa_used st + 1\<rparr>)"
    | (dead) i where "sa_used st = sa_capacity st" "i < sa_used st" "\<not> ce_live (the (sa_entries st) ! i)" "slot st = (Some i, st\<lparr>sa_forgotten := sa_forgotten st + 1\<rparr>)"
    | (none) "sa_used st = sa_capacity st" "\<forall>e \<in> set (cells st). ce_live e" "slot st = (None, st)"
proof (cases "sa_used st < sa_capacity st")
  case True
  then show thesis using room by (simp add: slot_def)
next
  case False
  then have eq: "sa_used st = sa_capacity st" using assms by (simp add: cells_wf_def)
  show thesis
  proof (cases "List.find (\<lambda>i. \<not> ce_live (the (sa_entries st) ! i)) [0..<sa_used st]")
    case None
    then have "\<forall>e \<in> set (cells st). ce_live e" by (auto simp: find_None_iff cells_def in_set_conv_nth)
    then show thesis using none eq None by (simp add: slot_def)
  next
    case (Some i)
    then have "i < sa_used st" "\<not> ce_live (the (sa_entries st) ! i)" by (auto simp: find_Some_iff)
    then show thesis using dead [of i] eq Some by (simp add: slot_def)
  qed
qed

lemma put_cell_refines:
  assumes "cells_wf st" and "fzn_record_is_open (Some r)" and "fzn_record_seq r \<noteq> 0"
  shows "\<exists>err st'. put_cell (Some st) (Some r) over live = (err, Some st') \<and> cells_wf st' \<and> sa_capacity st' = sa_capacity st \<and>
    cell_write (sa_capacity st) over (store_cell r live) (cell_map st) (sa_forgotten st) err (cell_map st') (sa_forgotten st')"
proof -
  let ?e = "store_cell r live" and ?k = "record_cell r"
  have use: "usable_cells (Some st)" using assms(1) by (simp add: usable_cells_def fzn_state_sound_def cells_wf_def)
  note put = put_cell_def [of "Some st" "Some r"] cell_of_store
  note [simp] = use assms(2,3)
  show ?thesis
  proof (cases rule: find_cell_map [OF assms(1), of "fzn_record_subject r" "fzn_record_kind r", case_names absent present])
    case absent
    then have none: "cell_map st (cell_of ?e) = None" "cell_of ?e \<notin> cell_of ` set (cells st)" by (simp_all add: cell_of_store record_cell_def)
    show ?thesis
    proof (cases rule: slot_cases [OF assms(1), case_names room dead none])
      case room
      then show ?thesis using append_cell_map [OF assms(1) room(1) none(2)] absent(1) cell_write.fresh [of "cell_map st" ?e "sa_capacity st" over "sa_forgotten st"]
          none(1) card_cells [OF assms(1)]
        by (cases live) (simp_all add: put set_cell_def)
    next
      case (dead i)
      let ?st = "st\<lparr>sa_forgotten := sa_forgotten st + 1\<rparr>"
      have st: "cells_wf ?st" "cells ?st = cells st" "cell_map ?st = cell_map st" using assms(1) by (simp_all add: cells_wf_def cells_def cell_map_def)
      have old: "cell_map st (cell_of (the (sa_entries st) ! i)) = Some (the (sa_entries st) ! i)"
        using row_map_nth [of cell_of "cells st" i] assms(1) dead(1,2) by (simp add: cell_map_def cells_wf_def cells_def)
      show ?thesis using replace_cell_map [OF st(1), of i ?e] dead absent(1) none st(2,3) card_cells [OF assms(1)]
          cell_write.forgetting [of "cell_map st" ?e "sa_capacity st" "cell_of (the (sa_entries st) ! i)" "the (sa_entries st) ! i" over "sa_forgotten st"] old
        by (cases live) (simp_all add: put set_cell_def)
    next
      case none': none
      have "\<forall>k dead. cell_map st k = Some dead \<longrightarrow> ce_live dead" using none'(2) row_map_in [of cell_of "cells st"] by (fastforce simp: cell_map_def)
      then show ?thesis using none' absent(1) none(1) assms(1) card_cells [OF assms(1)] cell_write.full [of "cell_map st" ?e "sa_capacity st" over "sa_forgotten st"] by (simp add: put)
    qed
  next
    case (present i)
    let ?old = "the (sa_entries st) ! i"
    have old: "cell_map st (cell_of ?e) = Some ?old" "cell_of ?e = cell_of ?old" using present(3,4) by (simp_all add: cell_of_store record_cell_def)
    note w = set_cell_map [OF assms(1) present(2) old(2)]
    have keep: "sa_capacity (set_cell st i ?e) = sa_capacity st" "sa_forgotten (set_cell st i ?e) = sa_forgotten st" by (simp_all add: set_cell_def)
    consider "ce_issuer ?old \<noteq> ce_issuer ?e \<or> ce_stream ?old \<noteq> ce_stream ?e" over | "ce_issuer ?old \<noteq> ce_issuer ?e" "\<not> over"
      | "ce_issuer ?old = ce_issuer ?e" "ce_stream ?old \<noteq> ce_stream ?e" "\<not> over" | "ce_issuer ?old = ce_issuer ?e" "ce_stream ?old = ce_stream ?e" "ce_seq ?e \<le> ce_seq ?old"
      | "ce_issuer ?old = ce_issuer ?e" "ce_stream ?old = ce_stream ?e" "ce_seq ?old < ce_seq ?e" by fastforce
    then show ?thesis
    proof cases
      case 1
      then have "put_cell (Some st) (Some r) over live = (FZN_STATE_OK, Some (set_cell st i ?e))" using present(1) by (auto simp: put Let_def)
      then show ?thesis using cell_write.overriding [where m = "cell_map st" and e = ?e, OF old(1) 1] w keep by auto
    next
      case 2
      then show ?thesis using cell_write.conflict [where m = "cell_map st" and e = ?e, OF old(1) 2] present(1) assms(1) by (simp add: put Let_def)
    next
      case 3
      then show ?thesis using cell_write.cross_stream [where m = "cell_map st" and e = ?e, OF old(1) 3] present(1) assms(1) by (simp add: put Let_def)
    next
      case 4
      then show ?thesis using cell_write.stale [where m = "cell_map st" and e = ?e, OF old(1) 4] present(1) assms(1) by (simp add: put Let_def)
    next
      case 5
      then have "put_cell (Some st) (Some r) over live = (FZN_STATE_OK, Some (set_cell st i ?e))" using present(1) by (simp add: put Let_def)
      then show ?thesis using cell_write.newer [where m = "cell_map st" and e = ?e, OF old(1) 5] w keep by auto
    qed
  qed
qed

lemma get_cell: "cells_wf st \<Longrightarrow> fzn_state_get (Some st) (Some s) k = (case cell_map st (s, k) of Some e \<Rightarrow> if ce_live e then Some e else None | None \<Rightarrow> None)"
  by (cases rule: find_cell_map [of st s k])
    (simp_all add: fzn_state_get_def usable_cells_def fzn_state_sound_def cells_wf_def Let_def)

section \<open>Histories\<close>

datatype cell_op = Apply bytes | Resolve bytes | Clear bytes | Resolve_clear bytes

fun op_record :: "cell_op \<Rightarrow> bytes" where
  "op_record (Apply r) = r" | "op_record (Resolve r) = r" | "op_record (Clear r) = r" | "op_record (Resolve_clear r) = r"

fun op_sets :: "cell_op \<Rightarrow> bool" where
  "op_sets (Apply r) = True" | "op_sets (Resolve r) = True" | "op_sets (Clear r) = False" | "op_sets (Resolve_clear r) = False"

fun op_overrides :: "cell_op \<Rightarrow> bool" where
  "op_overrides (Apply r) = False" | "op_overrides (Resolve r) = True" | "op_overrides (Clear r) = False" | "op_overrides (Resolve_clear r) = True"

fun cell_step :: "fzn_state option \<Rightarrow> cell_op \<Rightarrow> fzn_state_err \<times> fzn_state option" where
  "cell_step st (Apply r) = fzn_state_apply st (Some r)"
| "cell_step st (Resolve r) = fzn_state_resolve st (Some r)"
| "cell_step st (Clear r) = fzn_state_clear st (Some r)"
| "cell_step st (Resolve_clear r) = fzn_state_resolve_clear st (Some r)"

definition op_entry :: "cell_op \<Rightarrow> fzn_state_entry" where
  "op_entry op = store_cell (op_record op) (op_sets op)"

definition op_ok :: "cell_op \<Rightarrow> bool" where
  "op_ok op \<longleftrightarrow> fzn_record_is_open (Some (op_record op)) \<and> fzn_record_seq (op_record op) \<noteq> 0"

lemma step_refines:
  assumes "cells_wf st" and "op_ok op"
  shows "\<exists>err st'. cell_step (Some st) op = (err, Some st') \<and> cells_wf st' \<and> sa_capacity st' = sa_capacity st \<and>
    cell_write (sa_capacity st) (op_overrides op) (op_entry op) (cell_map st) (sa_forgotten st) err (cell_map st') (sa_forgotten st')"
  using put_cell_refines [OF assms(1), of "op_record op" "op_overrides op" "op_sets op"] assms(2)
  by (cases op) (simp_all add: op_ok_def op_entry_def fzn_state_apply_def fzn_state_resolve_def fzn_state_clear_def fzn_state_resolve_clear_def)

text \<open>
  Every write does to its cell what the rules of the register say and nothing else. Each of the four
  operations answers and stores as one rule of \<open>cell_write\<close>; an answer that is an error stored nothing. A
  live cell changes only by a record about it, from its own writer and newer, or by an operation that overrides;
  a tombstone may also be forgotten when there is no room, and that is counted.
\<close>

theorem cell_changes:
  assumes "cells_wf st" and "op_ok op"
  shows "\<exists>err st'. cell_step (Some st) op = (err, Some st') \<and> cells_wf st' \<and>
    cell_write (sa_capacity st) (op_overrides op) (op_entry op) (cell_map st) (sa_forgotten st) err (cell_map st') (sa_forgotten st') \<and>
    (err \<notin> {FZN_STATE_OK, FZN_STATE_ABSENT} \<longrightarrow> cell_map st' = cell_map st \<and> sa_forgotten st' = sa_forgotten st) \<and>
    (\<forall>k e. cell_map st k = Some e \<and> cell_map st' k \<noteq> Some e \<longrightarrow>
      k = record_cell (op_record op) \<and> cell_map st' k = Some (op_entry op) \<and>
        (op_overrides op \<or> ce_issuer e = fzn_record_issuer (op_record op) \<and> ce_stream e = fzn_record_stream (op_record op) \<and> ce_seq e < fzn_record_seq (op_record op)) \<or>
      \<not> ce_live e \<and> cell_map st' k = None \<and> sa_forgotten st' = sa_forgotten st + 1)"
proof -
  obtain err st' where s: "cell_step (Some st) op = (err, Some st')" "cells_wf st'"
    and w: "cell_write (sa_capacity st) (op_overrides op) (op_entry op) (cell_map st) (sa_forgotten st) err (cell_map st') (sa_forgotten st')"
    using step_refines [OF assms] by blast
  have k: "cell_of (op_entry op) = record_cell (op_record op)" by (simp add: op_entry_def cell_of_store)
  from w have "err \<notin> {FZN_STATE_OK, FZN_STATE_ABSENT} \<longrightarrow> cell_map st' = cell_map st \<and> sa_forgotten st' = sa_forgotten st"
    by (cases rule: cell_write.cases) auto
  moreover from w have "\<forall>k e. cell_map st k = Some e \<and> cell_map st' k \<noteq> Some e \<longrightarrow>
      k = record_cell (op_record op) \<and> cell_map st' k = Some (op_entry op) \<and>
        (op_overrides op \<or> ce_issuer e = fzn_record_issuer (op_record op) \<and> ce_stream e = fzn_record_stream (op_record op) \<and> ce_seq e < fzn_record_seq (op_record op)) \<or>
      \<not> ce_live e \<and> cell_map st' k = None \<and> sa_forgotten st' = sa_forgotten st + 1"
    by (cases rule: cell_write.cases) (auto simp: k [symmetric] op_entry_def split: if_splits)
  ultimately show ?thesis using s w by blast
qed

definition newest :: "fzn_state_entry set \<Rightarrow> (cell \<rightharpoonup> fzn_state_entry) \<Rightarrow> bool" where
  "newest es m \<longleftrightarrow> dom m = cell_of ` es \<and> (\<forall>k e. m k = Some e \<longleftrightarrow> e \<in> es \<and> cell_of e = k \<and> (\<forall>e' \<in> es. cell_of e' = k \<longrightarrow> ce_seq e' \<le> ce_seq e))"

text \<open>
  Statements that hosts can agree on: each cell has one writer, which gave each number once.
\<close>

definition one_writer :: "fzn_state_entry set \<Rightarrow> bool" where
  "one_writer es \<longleftrightarrow> (\<forall>e \<in> es. \<forall>e' \<in> es. cell_of e = cell_of e' \<longrightarrow>
     ce_issuer e = ce_issuer e' \<and> ce_stream e = ce_stream e' \<and> (ce_seq e = ce_seq e' \<longrightarrow> e = e'))"

lemma newest_step:
  assumes "newest es m" and "cell_write cap False e m n err m' n'" and "one_writer (insert e es)" and "card (cell_of ` insert e es) \<le> cap" and "finite es"
  shows "newest (insert e es) m' \<and> n' = n"
proof -
  have dom: "dom m = cell_of ` es" using assms(1) by (simp add: newest_def)
  have at: "m k = Some x \<longleftrightarrow> x \<in> es \<and> cell_of x = k \<and> (\<forall>e' \<in> es. cell_of e' = k \<longrightarrow> ce_seq e' \<le> ce_seq x)" for k x
    using assms(1) unfolding newest_def by blast
  have room: "card (dom m) < cap" if "m (cell_of e) = None"
  proof -
    have "cell_of e \<notin> cell_of ` es" using that dom by (metis domIff)
    then show ?thesis using assms(4,5) dom by simp
  qed
  have writer: "ce_issuer x = ce_issuer e \<and> ce_stream x = ce_stream e \<and> (ce_seq x = ce_seq e \<longrightarrow> x = e)" if "x \<in> es" "cell_of x = cell_of e" for x
    using assms(3) [unfolded one_writer_def, rule_format, of x e] that by simp
  from assms(2) show ?thesis
  proof cases
    case fresh
    then have "cell_of x \<noteq> cell_of e" if "x \<in> es" for x using that dom by (metis domIff imageI)
    then show ?thesis unfolding newest_def using fresh(2,3) dom at by auto
  next
    case (newer old)
    note o = newer(4) [unfolded at]
    have lt: "ce_seq x < ce_seq e" if "x \<in> es" "cell_of x = cell_of e" for x using o newer(7) that by (metis le_less_trans)
    have "m' k = Some x \<longleftrightarrow> x \<in> insert e es \<and> cell_of x = k \<and> (\<forall>e' \<in> insert e es. cell_of e' = k \<longrightarrow> ce_seq e' \<le> ce_seq x)" for k x
    proof (cases "k = cell_of e")
      case True
      then have "m' k = Some x \<longleftrightarrow> x = e" using newer(2) by auto
      then show ?thesis using True lt by (auto simp: less_imp_le) (meson leD)
    next
      case False
      then show ?thesis using newer(2) at [of k x] by auto
    qed
    then show ?thesis unfolding newest_def using newer(2,3) dom o by simp
  next
    case (stale old)
    note o = stale(4) [unfolded at]
    have "m k = Some x \<longleftrightarrow> x \<in> insert e es \<and> cell_of x = k \<and> (\<forall>e' \<in> insert e es. cell_of e' = k \<longrightarrow> ce_seq e' \<le> ce_seq x)" for k x
    proof (cases "k = cell_of e")
      case True
      have "m k = Some x \<longleftrightarrow> x = old" using True stale(4) by auto
      moreover have "e = old" if "\<forall>e' \<in> insert e es. cell_of e' = k \<longrightarrow> ce_seq e' \<le> ce_seq e"
        using that writer [of old] o True stale(7) by auto
      moreover have "x = old" if "x \<in> es" "cell_of x = k" "ce_seq old \<le> ce_seq x"
        using assms(3) o that True unfolding one_writer_def by (metis dual_order.antisym insertCI)
      ultimately show ?thesis using True o stale(7) by auto
    next
      case False
      then show ?thesis using at [of k x] by auto
    qed
    moreover have "cell_of ` insert e es = cell_of ` es" using o by (metis image_insert imageI insert_absorb)
    ultimately show ?thesis unfolding newest_def using stale(2,3) dom by simp
  qed (use room writer at in auto)
qed

lemma run_newest:
  assumes "one_writer (op_entry ` set done \<union> op_entry ` set ops)" and "card (cell_of ` (op_entry ` set done \<union> op_entry ` set ops)) \<le> sa_capacity st"
    and "\<forall>op \<in> set ops. op_ok op \<and> \<not> op_overrides op" and "cells_wf st" and "newest (op_entry ` set done) (cell_map st)"
  shows "\<exists>st'. final cell_step (Some st) ops = Some st' \<and> cells_wf st' \<and> newest (op_entry ` set done \<union> op_entry ` set ops) (cell_map st') \<and>
    sa_forgotten st' = sa_forgotten st"
  using assms
proof (induction ops arbitrary: st "done")
  case Nil
  then show ?case by simp
next
  case (Cons op ops)
  have ok: "op_ok op" "op_overrides op = False" using Cons.prems(3) by simp_all
  obtain err st1 where s: "cell_step (Some st) op = (err, Some st1)" "cells_wf st1" "sa_capacity st1 = sa_capacity st"
    and w: "cell_write (sa_capacity st) False (op_entry op) (cell_map st) (sa_forgotten st) err (cell_map st1) (sa_forgotten st1)"
    using step_refines [OF Cons.prems(4) ok(1)] unfolding ok(2) by blast
  let ?d = "op_entry ` set done" and ?all = "op_entry ` set done \<union> op_entry ` set (op # ops)"
  have sub: "insert (op_entry op) ?d \<subseteq> ?all" by auto
  then have "one_writer (insert (op_entry op) ?d)" using Cons.prems(1) unfolding one_writer_def by (meson subsetD)
  moreover have "card (cell_of ` insert (op_entry op) ?d) \<le> card (cell_of ` ?all)" using sub by (intro card_mono image_mono) simp_all
  ultimately have n: "newest (insert (op_entry op) ?d) (cell_map st1)" "sa_forgotten st1 = sa_forgotten st"
    using newest_step [OF Cons.prems(5) w] Cons.prems(2) by auto
  have all: "op_entry ` set (op # done) \<union> op_entry ` set ops = ?all" by auto
  have "\<exists>st'. final cell_step (Some st1) ops = Some st' \<and> cells_wf st' \<and> newest (op_entry ` set (op # done) \<union> op_entry ` set ops) (cell_map st') \<and>
      sa_forgotten st' = sa_forgotten st1"
    using Cons.prems(1-3) s n by (intro Cons.IH) (simp_all only: all, simp_all)
  then show ?case using s(1) n(2) unfolding all by (simp add: Let_def split_beta)
qed

lemma newest_unique: "newest es m \<Longrightarrow> newest es m' \<Longrightarrow> m = m'"
proof (rule ext)
  fix k
  assume "newest es m" "newest es m'"
  then have "m k = Some e \<longleftrightarrow> m' k = Some e" for e unfolding newest_def by metis
  then show "m k = m' k" by (metis option.exhaust)
qed

lemma init_cells:
  assumes "fzn_state_init (Some s0) (Some xs) cap = (FZN_STATE_OK, Some st)" and "cap \<le> length xs"
  shows "cells_wf st" and "newest {} (cell_map st)" and "sa_capacity st = cap" and "sa_forgotten st = 0"
  using assms by (auto simp: fzn_state_init_def cells_wf_def cells_def cell_map_def row_map_def newest_def split: if_splits)

text \<open>
  C29. Hosts that hold the same records agree. Where each cell is written by one writer that gives each number
  once, and the cells fit, hosts that applied and cleared the same records, in any order and however
  often, answer every question about every cell alike: with the record of the highest number, or with
  nothing when that record cleared the cell, whatever arrived later. Nothing was forgotten on the way.
\<close>

theorem cells_converge:
  assumes "fzn_state_init (Some s0) (Some xs) cap = (FZN_STATE_OK, Some st)" and "cap \<le> length xs"
    and "fzn_state_init (Some s1) (Some ys) cap = (FZN_STATE_OK, Some st1)" and "cap \<le> length ys"
    and "\<forall>op \<in> set ops. op_ok op \<and> \<not> op_overrides op" and "one_writer (op_entry ` set ops)" and "card (cell_of ` op_entry ` set ops) \<le> cap"
    and "set ops' = set ops"
  shows "fzn_state_get (final cell_step (Some st) ops) (Some s) k = fzn_state_get (final cell_step (Some st1) ops') (Some s) k \<and>
    fzn_state_forgotten (final cell_step (Some st) ops) = 0 \<and>
    (\<forall>op \<in> set ops. record_cell (op_record op) = (s, k) \<and>
        (\<forall>op' \<in> set ops. record_cell (op_record op') = (s, k) \<longrightarrow> fzn_record_seq (op_record op') \<le> fzn_record_seq (op_record op)) \<longrightarrow>
      fzn_state_get (final cell_step (Some st) ops) (Some s) k = (if op_sets op then Some (op_entry op) else None))"
proof -
  note i = init_cells [OF assms(1,2)] and i1 = init_cells [OF assms(3,4)]
  obtain a where a: "final cell_step (Some st) ops = Some a" "cells_wf a" "newest (op_entry ` set ops) (cell_map a)" "sa_forgotten a = 0"
    using run_newest [of "[]" ops st] i assms(5-7) by auto
  obtain b where b: "final cell_step (Some st1) ops' = Some b" "cells_wf b" "newest (op_entry ` set ops) (cell_map b)"
    using run_newest [of "[]" ops' st1] i1 assms(5-8) by auto
  have key: "cell_of (op_entry op) = record_cell (op_record op)" "ce_seq (op_entry op) = fzn_record_seq (op_record op)" "ce_live (op_entry op) = op_sets op" for op
    by (simp_all add: op_entry_def cell_of_store)
  have "fzn_state_get (Some a) (Some s) k = (if op_sets op then Some (op_entry op) else None)"
    if "op \<in> set ops" "record_cell (op_record op) = (s, k)"
      "\<forall>op' \<in> set ops. record_cell (op_record op') = (s, k) \<longrightarrow> fzn_record_seq (op_record op') \<le> fzn_record_seq (op_record op)" for op
  proof -
    have "op_entry op \<in> op_entry ` set ops \<and> cell_of (op_entry op) = (s, k) \<and>
        (\<forall>e' \<in> op_entry ` set ops. cell_of e' = (s, k) \<longrightarrow> ce_seq e' \<le> ce_seq (op_entry op))" using that by (auto simp: key)
    then have "cell_map a (s, k) = Some (op_entry op)" using a(3) unfolding newest_def by blast
    then show ?thesis using get_cell [OF a(2), of s k] by (simp add: key)
  qed
  moreover have "fzn_state_forgotten (Some a) = 0" using a(2,4) by (simp add: fzn_state_forgotten_def)
  moreover have "cell_map a = cell_map b" using newest_unique a(3) b(3) by blast
  ultimately show ?thesis using a(1) b(1) get_cell [OF a(2), of s k] get_cell [OF b(2), of s k] by simp
qed

section \<open>Witnesses\<close>

definition demo_cell :: "u64 \<Rightarrow> bytes" where
  "demo_cell seq = record_signed (replicate 32 1) (replicate 32 2) 3 4 seq None 5 [] @ replicate 64 7"

lemma demo_cell_fields:
  "fzn_record_issuer (demo_cell seq) = replicate 32 1" "fzn_record_subject (demo_cell seq) = replicate 32 2" "fzn_record_stream (demo_cell seq) = 3"
  "fzn_record_kind (demo_cell seq) = 4" "fzn_record_seq (demo_cell seq) = seq" "seq \<noteq> 0 \<Longrightarrow> fzn_record_is_open (Some (demo_cell seq))"
  using record_fields [of "replicate 32 1" "replicate 32 2" None "[]" "replicate 64 7", of 3 4 seq 5, folded demo_cell_def]
    signed_is_open [of "replicate 32 1" "replicate 32 2" None "[]" "replicate 64 7" seq 3 4 5, folded demo_cell_def]
  by simp_all

definition demo_cells :: fzn_state where
  "demo_cells = \<lparr>sa_entries = Some [zero_cell], sa_capacity = 1, sa_used = 0, sa_forgotten = 0\<rparr>"

lemma demo_cells_init: "fzn_state_init (Some demo_cells) (Some [zero_cell]) 1 = (FZN_STATE_OK, Some demo_cells)"
  by (simp add: fzn_state_init_def demo_cells_def)

theorem cell_changes_witness:
  "\<exists>err st'. cell_step (Some demo_cells) (Apply (demo_cell 1)) = (err, Some st') \<and> cells_wf st' \<and>
    cell_write 1 False (op_entry (Apply (demo_cell 1))) (cell_map demo_cells) 0 err (cell_map st') (sa_forgotten st')"
proof -
  have "cells_wf demo_cells" "sa_capacity demo_cells = 1" "sa_forgotten demo_cells = 0" using init_cells [OF demo_cells_init] by simp_all
  moreover have "op_ok (Apply (demo_cell 1))" by (simp add: op_ok_def demo_cell_fields)
  ultimately show ?thesis using cell_changes [of demo_cells "Apply (demo_cell 1)"] by auto
qed

theorem cells_converge_witness:
  "fzn_state_get (final cell_step (Some demo_cells) [Apply (demo_cell 1), Clear (demo_cell 2)]) (Some (replicate 32 2)) 4 =
     fzn_state_get (final cell_step (Some demo_cells) [Clear (demo_cell 2), Apply (demo_cell 1)]) (Some (replicate 32 2)) 4 \<and>
   fzn_state_get (final cell_step (Some demo_cells) [Apply (demo_cell 1), Clear (demo_cell 2)]) (Some (replicate 32 2)) 4 = None"
proof -
  let ?ops = "[Apply (demo_cell 1), Clear (demo_cell 2)]"
  have ok: "\<forall>op \<in> set ?ops. op_ok op \<and> \<not> op_overrides op" by (simp add: op_ok_def demo_cell_fields)
  have cell: "cell_of (op_entry (Apply (demo_cell 1))) = (replicate 32 2, 4)" "cell_of (op_entry (Clear (demo_cell 2))) = (replicate 32 2, 4)"
    by (simp_all add: op_entry_def cell_of_store record_cell_def demo_cell_fields)
  have one: "one_writer (op_entry ` set ?ops)" by (auto simp: one_writer_def op_entry_def demo_cell_fields)
  have room: "card (cell_of ` op_entry ` set ?ops) \<le> 1" by (simp add: cell)
  have len: "1 \<le> length [zero_cell]" by simp
  have same: "set [Clear (demo_cell 2), Apply (demo_cell 1)] = set ?ops" by (simp add: insert_commute)
  note c = cells_converge [OF demo_cells_init len demo_cells_init len ok one room same, of "replicate 32 2" 4]
  have "Clear (demo_cell 2) \<in> set ?ops" by simp
  moreover have "record_cell (op_record (Clear (demo_cell 2))) = (replicate 32 2, 4) \<and>
      (\<forall>op' \<in> set ?ops. record_cell (op_record op') = (replicate 32 2, 4) \<longrightarrow> fzn_record_seq (op_record op') \<le> fzn_record_seq (op_record (Clear (demo_cell 2))))"
    by (simp add: record_cell_def demo_cell_fields)
  ultimately have "fzn_state_get (final cell_step (Some demo_cells) ?ops) (Some (replicate 32 2)) 4 = (if op_sets (Clear (demo_cell 2)) then Some (op_entry (Clear (demo_cell 2))) else None)"
    using c [THEN conjunct2, THEN conjunct2] by blast
  then show ?thesis using c [THEN conjunct1] by (simp only: op_sets.simps if_False)
qed

end
