(* ===== verification/Setting.thy ===== *)
theory Setting
  imports Signed_Record Manifest Ratchet
begin

text \<open>
  Settings of an estate (\<open>state/scope.c\<close>, \<open>state/setting.c\<close>): how far a value travels, the signed object that sets or
  clears one, the cell it belongs to, and which of two settings stands. A scope is the byte that carries
  it, so that values this build does not know are in the model. The hash and the signatures are parameters.
\<close>

section \<open>Scopes\<close>

datatype fzn_scope_err = FZN_SCOPE_OK | FZN_SCOPE_ERR_MALFORMED | FZN_SCOPE_ERR_PRIVATE

type_synonym fzn_scope = u8

abbreviation FZN_SCOPE_HOST_PRIVATE :: fzn_scope where "FZN_SCOPE_HOST_PRIVATE \<equiv> 0"
abbreviation FZN_SCOPE_HOST :: fzn_scope where "FZN_SCOPE_HOST \<equiv> 1"
abbreviation FZN_SCOPE_GROUP :: fzn_scope where "FZN_SCOPE_GROUP \<equiv> 2"
abbreviation FZN_SCOPE_ESTATE :: fzn_scope where "FZN_SCOPE_ESTATE \<equiv> 3"
abbreviation FZN_SCOPE_COUNT :: u8 where "FZN_SCOPE_COUNT \<equiv> 4"
abbreviation FZN_SCOPE_GROUP_NAME_MAX :: nat where "FZN_SCOPE_GROUP_NAME_MAX \<equiv> 32"

definition FZN_SCOPE_LABEL :: bytes where
  "FZN_SCOPE_LABEL = ascii ''fuzznet-scope-v1''"

definition NAMES :: "bytes list" where
  "NAMES = [ascii ''host-private'', ascii ''host'', ascii ''group'', ascii ''estate'']"

definition fzn_scope_err_str :: "fzn_scope_err \<Rightarrow> string" where
  "fzn_scope_err_str err = (case err of FZN_SCOPE_OK \<Rightarrow> ''ok'' | FZN_SCOPE_ERR_MALFORMED \<Rightarrow> ''malformed''
     | FZN_SCOPE_ERR_PRIVATE \<Rightarrow> ''a host-private value has no cell'')"

definition fzn_scope_known :: "u8 \<Rightarrow> bool" where
  "fzn_scope_known b \<longleftrightarrow> b < FZN_SCOPE_COUNT"

definition fzn_scope_read :: "u8 \<Rightarrow> fzn_scope" where
  "fzn_scope_read b = (if fzn_scope_known b then b else FZN_SCOPE_HOST_PRIVATE)"

definition fzn_scope_name :: "fzn_scope \<Rightarrow> bytes option" where
  "fzn_scope_name scope = (if scope < FZN_SCOPE_COUNT then Some (NAMES ! unat scope) else None)"

definition fzn_scope_parse :: "bytes option \<Rightarrow> fzn_scope option" where
  "fzn_scope_parse txt =
     (case txt of None \<Rightarrow> None
      | Some t \<Rightarrow> map_option of_nat (List.find (\<lambda>i. length (NAMES ! i) = length t \<and> NAMES ! i = t) [0..<unat FZN_SCOPE_COUNT]))"

definition fzn_scope_reaches :: "fzn_scope \<Rightarrow> bool \<Rightarrow> bool" where
  "fzn_scope_reaches scope in_group \<longleftrightarrow>
     (if scope = FZN_SCOPE_HOST \<or> scope = FZN_SCOPE_ESTATE then True
      else if scope = FZN_SCOPE_GROUP then in_group
      else False)"

definition fzn_scope_replicates :: "fzn_scope \<Rightarrow> bool" where
  "fzn_scope_replicates scope = fzn_scope_reaches scope True"

definition fzn_scope_widens :: "fzn_scope \<Rightarrow> fzn_scope \<Rightarrow> bool" where
  "fzn_scope_widens from' to \<longleftrightarrow>
     (fzn_scope_reaches to True \<and> \<not> fzn_scope_reaches from' True) \<or> (fzn_scope_reaches to False \<and> \<not> fzn_scope_reaches from' False)"

definition fzn_scope_subject :: "fzn_scope \<Rightarrow> bytes option \<Rightarrow> fzn_hash_fn option option \<Rightarrow> fzn_scope_err \<times> bytes option" where
  "fzn_scope_subject scope i hash =
     (case (i, hash) of
        (Some i, Some (Some h)) \<Rightarrow>
          if scope = FZN_SCOPE_HOST_PRIVATE then (FZN_SCOPE_ERR_PRIVATE, None)
          else if scope \<ge> FZN_SCOPE_COUNT then (FZN_SCOPE_ERR_MALFORMED, None)
          else (case h FZN_SUBJECT_LEN (FZN_SCOPE_LABEL @ [scope] @ i) of
                  None \<Rightarrow> (FZN_SCOPE_ERR_MALFORMED, None)
                | Some derived \<Rightarrow> (FZN_SCOPE_OK, Some derived))
      | _ \<Rightarrow> (FZN_SCOPE_ERR_MALFORMED, None))"

text \<open>The characters are the ASCII codes of \<open>a\<close> to \<open>z\<close>, \<open>0\<close> to \<open>9\<close>, the dot, the underscore and the dash.\<close>

definition group_char :: "u8 \<Rightarrow> bool" where
  "group_char c \<longleftrightarrow> (c \<ge> 97 \<and> c \<le> 122) \<or> (c \<ge> 48 \<and> c \<le> 57) \<or> c = 46 \<or> c = 95 \<or> c = 45"

definition fzn_scope_group_id :: "bytes option \<Rightarrow> bytes option" where
  "fzn_scope_group_id name =
     (case name of None \<Rightarrow> None
      | Some nm \<Rightarrow>
          if length nm = 0 \<or> length nm > FZN_SCOPE_GROUP_NAME_MAX \<or> length nm > FZN_SUBJECT_LEN then None
          else if \<not> list_all group_char nm then None
          else Some (put_at 0 nm (replicate FZN_SUBJECT_LEN 0)))"

fun name_len :: "bytes \<Rightarrow> nat \<Rightarrow> nat" where
  "name_len (c # cs) (Suc room) = (if c \<noteq> 0 then Suc (name_len cs room) else 0)"
| "name_len _ _ = 0"

definition fzn_scope_group_name :: "bytes option \<Rightarrow> bytes option" where
  "fzn_scope_group_name i =
     (case i of None \<Rightarrow> None
      | Some i \<Rightarrow> let n = name_len (take FZN_SUBJECT_LEN i) FZN_SCOPE_GROUP_NAME_MAX in
          if n = 0 then None
          else if \<not> list_all group_char (take n i) then None
          else if \<not> list_all (\<lambda>c. c = 0) (drop n (take FZN_SUBJECT_LEN i)) then None
          else Some (take n i))"

section \<open>Settings\<close>

datatype fzn_setting_err = FZN_SETTING_OK | FZN_SETTING_ERR_MALFORMED | FZN_SETTING_ERR_SHAPE | FZN_SETTING_ERR_SIGNATURE | FZN_SETTING_ERR_SCOPE

abbreviation FZN_SETTING_KEY_MAX :: nat where "FZN_SETTING_KEY_MAX \<equiv> 64"
abbreviation FZN_SETTING_VALUE_MAX :: nat where "FZN_SETTING_VALUE_MAX \<equiv> 256"
abbreviation FZN_SETTING_RANKS :: nat where "FZN_SETTING_RANKS \<equiv> 3"
abbreviation FZN_SETTING_OFF_SETTER :: nat where "FZN_SETTING_OFF_SETTER \<equiv> 2"
abbreviation FZN_SETTING_OFF_SCOPE :: nat where "FZN_SETTING_OFF_SCOPE \<equiv> 34"
abbreviation FZN_SETTING_OFF_ABOUT :: nat where "FZN_SETTING_OFF_ABOUT \<equiv> 35"
abbreviation FZN_SETTING_OFF_VERSION :: nat where "FZN_SETTING_OFF_VERSION \<equiv> 67"
abbreviation FZN_SETTING_OFF_KEY_LEN :: nat where "FZN_SETTING_OFF_KEY_LEN \<equiv> 75"
abbreviation FZN_SETTING_OFF_KEY :: nat where "FZN_SETTING_OFF_KEY \<equiv> 76"
abbreviation FZN_SETTING_MIN :: nat where "FZN_SETTING_MIN \<equiv> 144"
abbreviation FZN_SETTING_MAX :: nat where "FZN_SETTING_MAX \<equiv> 464"
abbreviation FZN_OBJECT_SETTING :: u8 where "FZN_OBJECT_SETTING \<equiv> 147"

definition FZN_SETTING_LABEL :: bytes where
  "FZN_SETTING_LABEL = ascii ''fuzznet-cell-v1.''"

record fzn_setting =
  sg_setter :: key
  sg_scope :: fzn_scope
  sg_about :: bytes
  sg_version :: u64
  sg_key :: bytes
  sg_set :: u8
  sg_value :: bytes
  sg_rank :: int

definition fzn_setting_err_str :: "fzn_setting_err \<Rightarrow> string" where
  "fzn_setting_err_str err = (case err of FZN_SETTING_OK \<Rightarrow> ''ok'' | FZN_SETTING_ERR_MALFORMED \<Rightarrow> ''malformed'' | FZN_SETTING_ERR_SHAPE \<Rightarrow> ''not a setting''
     | FZN_SETTING_ERR_SIGNATURE \<Rightarrow> ''its setter did not sign it'' | FZN_SETTING_ERR_SCOPE \<Rightarrow> ''a scope with no cell, or one not served'')"

definition fzn_setting_key_ok :: "bytes option \<Rightarrow> bool" where
  "fzn_setting_key_ok k =
     (case k of None \<Rightarrow> False
      | Some k \<Rightarrow> \<not> (length k = 0 \<or> length k > FZN_SETTING_KEY_MAX) \<and> list_all (\<lambda>c. group_char c \<or> c = 47) k)"

definition value_ok :: "bytes option \<Rightarrow> nat \<Rightarrow> bool" where
  "value_ok v len \<longleftrightarrow> \<not> (len > FZN_SETTING_VALUE_MAX \<or> len \<noteq> 0 \<and> v = None) \<and>
     (case v of None \<Rightarrow> True | Some v \<Rightarrow> list_all (\<lambda>c. \<not> (c < 0x20 \<or> c > 0x7e)) (take len v))"

definition scope_served :: "fzn_scope \<Rightarrow> bool" where
  "scope_served scope \<longleftrightarrow> scope = FZN_SCOPE_HOST \<or> scope = FZN_SCOPE_GROUP \<or> scope = FZN_SCOPE_ESTATE"

definition setting_body :: "key \<Rightarrow> fzn_scope \<Rightarrow> bytes \<Rightarrow> u64 \<Rightarrow> bytes \<Rightarrow> int \<Rightarrow> bytes \<Rightarrow> int \<Rightarrow> bytes" where
  "setting_body setter scope about version k st v rank =
     [FZN_SIGNED_VERSION, FZN_OBJECT_SETTING] @ setter @ [scope] @ about @ fzn_put_be64 version @ [of_nat (length k)] @ k @
     [of_int st] @ fzn_put_be16 (of_nat (length v)) @ v @ (if rank \<ge> 0 then [of_int rank] else [])"

text \<open>The length of a value is given beside it; without a value the bytes are none.\<close>

definition issue :: "key option \<Rightarrow> fzn_sign_ops option \<Rightarrow> fzn_scope \<Rightarrow> bytes option \<Rightarrow> u64 \<Rightarrow> bytes option \<Rightarrow> int \<Rightarrow> bytes option \<Rightarrow> nat \<Rightarrow> int \<Rightarrow>
    fzn_setting_err \<times> bytes option" where
  "issue setter sign scope about version k st v v_len rank =
     (if setter = None \<or> sign = None \<or> so_sign (the sign) = None \<or> about = None \<or> \<not> fzn_setting_key_ok k \<or> (st \<noteq> 0 \<and> st \<noteq> 1) \<or>
         (st = 0 \<and> v_len \<noteq> 0) \<or> \<not> value_ok v v_len \<or> rank < - 1 \<or> rank \<ge> int FZN_SETTING_RANKS then (FZN_SETTING_ERR_MALFORMED, None)
      else if \<not> scope_served scope then (FZN_SETTING_ERR_SCOPE, None)
      else let body = setting_body (the setter) scope (the about) version (the k) st (if v_len \<noteq> 0 then take v_len (the v) else []) rank in
        (case the (so_sign (the sign)) body of
           None \<Rightarrow> (FZN_SETTING_ERR_SIGNATURE, None)
         | Some sig \<Rightarrow> (FZN_SETTING_OK, Some (body @ sig))))"

definition fzn_setting_issue :: "key option \<Rightarrow> fzn_sign_ops option \<Rightarrow> fzn_scope \<Rightarrow> bytes option \<Rightarrow> u64 \<Rightarrow> bytes option \<Rightarrow> int \<Rightarrow> bytes option \<Rightarrow> nat \<Rightarrow>
    fzn_setting_err \<times> bytes option" where
  "fzn_setting_issue setter sign scope about version k st v v_len = issue setter sign scope about version k st v v_len (- 1)"

definition fzn_setting_issue_ranked :: "key option \<Rightarrow> fzn_sign_ops option \<Rightarrow> fzn_scope \<Rightarrow> bytes option \<Rightarrow> u64 \<Rightarrow> bytes option \<Rightarrow> int \<Rightarrow> bytes option \<Rightarrow> nat \<Rightarrow> nat \<Rightarrow>
    fzn_setting_err \<times> bytes option" where
  "fzn_setting_issue_ranked setter sign scope about version k st v v_len rank =
     (if rank \<ge> FZN_SETTING_RANKS then (FZN_SETTING_ERR_MALFORMED, None)
      else issue setter sign scope about version k st v v_len (int rank))"

definition fzn_setting_open :: "bytes option \<Rightarrow> fzn_sign_ops option \<Rightarrow> fzn_setting_err \<times> fzn_setting option" where
  "fzn_setting_open b sign =
     (if b = None \<or> sign = None \<or> so_verify (the sign) = None then (FZN_SETTING_ERR_MALFORMED, None)
      else let b = the b; len = length b in
        if len < FZN_SETTING_MIN \<or> len > FZN_SETTING_MAX \<or> b ! 0 \<noteq> FZN_SIGNED_VERSION \<or> b ! 1 \<noteq> FZN_OBJECT_SETTING then (FZN_SETTING_ERR_SHAPE, None)
        else let key_len = unat (b ! FZN_SETTING_OFF_KEY_LEN); at = FZN_SETTING_OFF_KEY + key_len in
          if key_len > FZN_SETTING_KEY_MAX \<or> \<not> fzn_setting_key_ok (Some (bytes_at FZN_SETTING_OFF_KEY key_len b)) \<or> len < at + 3 + FZN_SIG_LEN \<or> b ! at > 1 then (FZN_SETTING_ERR_SHAPE, None)
          else let value_len = unat (fzn_get_be16 (bytes_at (at + 1) 2 b)); ranked = (len = at + 3 + value_len + 1 + FZN_SIG_LEN) in
            if (\<not> ranked \<and> len \<noteq> at + 3 + value_len + FZN_SIG_LEN) \<or> (b ! at = 0 \<and> value_len \<noteq> 0) \<or> \<not> value_ok (Some (drop (at + 3) b)) value_len \<or>
               (ranked \<and> b ! (at + 3 + value_len) \<ge> of_nat FZN_SETTING_RANKS) then (FZN_SETTING_ERR_SHAPE, None)
            else if \<not> scope_served (b ! FZN_SETTING_OFF_SCOPE) then (FZN_SETTING_ERR_SCOPE, None)
            else if \<not> the (so_verify (the sign)) (bytes_at FZN_SETTING_OFF_SETTER FZN_PUBKEY_LEN b) (take (len - FZN_SIG_LEN) b) (drop (len - FZN_SIG_LEN) b) then (FZN_SETTING_ERR_SIGNATURE, None)
            else (FZN_SETTING_OK, Some \<lparr>sg_setter = bytes_at FZN_SETTING_OFF_SETTER FZN_PUBKEY_LEN b, sg_scope = b ! FZN_SETTING_OFF_SCOPE,
              sg_about = bytes_at FZN_SETTING_OFF_ABOUT FZN_SUBJECT_LEN b, sg_version = fzn_get_be64 (bytes_at FZN_SETTING_OFF_VERSION 8 b),
              sg_key = bytes_at FZN_SETTING_OFF_KEY key_len b, sg_set = b ! at, sg_value = bytes_at (at + 3) value_len b,
              sg_rank = (if ranked then int (unat (b ! (at + 3 + value_len))) else - 1)\<rparr>))"

definition fzn_setting_cell_of :: "fzn_scope \<Rightarrow> bytes option \<Rightarrow> bytes option \<Rightarrow> fzn_hash_fn option option \<Rightarrow> bytes option" where
  "fzn_setting_cell_of scope about k hash =
     (case (about, hash) of
        (Some _, Some (Some h)) \<Rightarrow>
          if \<not> fzn_setting_key_ok k then None
          else (case fzn_scope_subject scope about hash of
                  (FZN_SCOPE_OK, Some subject) \<Rightarrow> h FZN_SUBJECT_LEN (FZN_SETTING_LABEL @ [scope] @ subject @ [of_nat (length (the k))] @ the k)
                | _ \<Rightarrow> None)
      | _ \<Rightarrow> None)"

definition fzn_setting_cell :: "fzn_setting option \<Rightarrow> fzn_hash_fn option option \<Rightarrow> bytes option" where
  "fzn_setting_cell s hash = (case s of None \<Rightarrow> None | Some s \<Rightarrow> fzn_setting_cell_of (sg_scope s) (Some (sg_about s)) (Some (sg_key s)) hash)"

definition fzn_setting_supersedes :: "fzn_setting option \<Rightarrow> fzn_setting option \<Rightarrow> bool" where
  "fzn_setting_supersedes a b =
     (case (a, b) of
        (Some a, Some b) \<Rightarrow>
          if sg_version a \<noteq> sg_version b then sg_version a > sg_version b
          else let c = memcmp (sg_setter a) (sg_setter b) in
            if c \<noteq> 0 then c > 0
            else if sg_set a \<noteq> sg_set b then sg_set a > sg_set b
            else if length (sg_value a) \<noteq> length (sg_value b) then length (sg_value a) > length (sg_value b)
            else length (sg_value a) \<noteq> 0 \<and> memcmp (sg_value a) (sg_value b) > 0
      | _ \<Rightarrow> False)"

section \<open>Which setting stands\<close>

text \<open>What decides between settings of one cell and rank.\<close>

definition standing :: "fzn_setting \<Rightarrow> u64 \<times> key \<times> u8 \<times> bytes" where
  "standing s = (sg_version s, sg_setter s, sg_set s, sg_value s)"

abbreviation stands_over :: "fzn_setting \<Rightarrow> fzn_setting \<Rightarrow> bool" where
  "stands_over a b \<equiv> fzn_setting_supersedes (Some a) (Some b)"

text \<open>A host keeps of two settings the one that supersedes, and the older of two that do not compare.\<close>

fun learn :: "fzn_setting option \<Rightarrow> fzn_setting \<Rightarrow> fzn_setting option" where
  "learn None s = Some s"
| "learn (Some held) s = (if fzn_setting_supersedes (Some s) (Some held) then Some s else Some held)"

lemma memcmp_pos_trans: "memcmp a b > 0 \<Longrightarrow> memcmp b c > 0 \<Longrightarrow> memcmp a c > 0"
  using memcmp_trans [of c b a] memcmp_anti [of a b] memcmp_anti [of b c] memcmp_anti [of a c] by simp

lemma supersedes_iff:
  assumes "length (sg_setter a) = FZN_PUBKEY_LEN" and "length (sg_setter b) = FZN_PUBKEY_LEN"
  shows "stands_over a b \<longleftrightarrow> sg_version b < sg_version a \<or> sg_version a = sg_version b \<and>
    (memcmp (sg_setter a) (sg_setter b) > 0 \<or> sg_setter a = sg_setter b \<and>
      (sg_set b < sg_set a \<or> sg_set a = sg_set b \<and>
        (length (sg_value b) < length (sg_value a) \<or> length (sg_value a) = length (sg_value b) \<and> memcmp (sg_value a) (sg_value b) > 0)))"
  using assms memcmp_eq [of "sg_setter a" "sg_setter b"] by (auto simp: fzn_setting_supersedes_def Let_def)

lemma supersedes_trans:
  assumes "length (sg_setter a) = FZN_PUBKEY_LEN" and "length (sg_setter b) = FZN_PUBKEY_LEN" and "length (sg_setter c) = FZN_PUBKEY_LEN"
    and "stands_over a b" and "stands_over b c"
  shows "stands_over a c"
  using assms(4,5) unfolding supersedes_iff [OF assms(1,2)] supersedes_iff [OF assms(2,3)] supersedes_iff [OF assms(1,3)]
  by (auto intro: memcmp_pos_trans)

lemma supersedes_irrefl: "\<not> stands_over a a"
  using memcmp_anti [of "sg_setter a" "sg_setter a"] memcmp_anti [of "sg_value a" "sg_value a"] by (auto simp: fzn_setting_supersedes_def)

lemma supersedes_total:
  assumes "length (sg_setter a) = FZN_PUBKEY_LEN" and "length (sg_setter b) = FZN_PUBKEY_LEN" and "\<not> stands_over a b" and "\<not> stands_over b a"
  shows "standing a = standing b"
proof -
  have "sg_version a = sg_version b" using assms(3,4) by (auto simp: fzn_setting_supersedes_def split: if_splits)
  moreover have "sg_setter a = sg_setter b" using assms calculation memcmp_anti [of "sg_setter a" "sg_setter b"] memcmp_eq [of "sg_setter a" "sg_setter b"]
    by (auto simp: supersedes_iff)
  moreover have "sg_set a = sg_set b" using assms calculation by (auto simp: supersedes_iff)
  moreover have "length (sg_value a) = length (sg_value b)" using assms calculation by (auto simp: supersedes_iff)
  moreover have "sg_value a = sg_value b"
    using assms calculation memcmp_anti [of "sg_value a" "sg_value b"] memcmp_eq [of "sg_value a" "sg_value b"] by (auto simp: supersedes_iff)
  ultimately show ?thesis by (simp add: standing_def)
qed

lemma learn_all:
  assumes "\<forall>s \<in> set xs. length (sg_setter s) = FZN_PUBKEY_LEN"
  shows "length (sg_setter held) = FZN_PUBKEY_LEN \<Longrightarrow> \<exists>r. fold (\<lambda>s held. learn held s) xs (Some held) = Some r \<and> r \<in> insert held (set xs) \<and>
    (\<forall>s \<in> insert held (set xs). \<not> stands_over s r)"
  using assms
proof (induction xs arbitrary: held)
  case Nil
  then show ?case by (simp add: supersedes_irrefl)
next
  case (Cons x xs)
  show ?case
  proof (cases "stands_over x held")
    case True
    then obtain r where r: "fold (\<lambda>s held. learn held s) xs (Some x) = Some r" "r \<in> insert x (set xs)" "\<forall>s \<in> insert x (set xs). \<not> stands_over s r"
      using Cons.IH [of x] Cons.prems by auto
    have "\<not> stands_over held r"
    proof
      assume over: "stands_over held r"
      have "length (sg_setter x) = FZN_PUBKEY_LEN" "length (sg_setter r) = FZN_PUBKEY_LEN" using Cons.prems(2) r(2) by auto
      from supersedes_trans [OF this(1) Cons.prems(1) this(2) True over] show False using r(3) by simp
    qed
    then show ?thesis using r True by auto
  next
    case False
    then obtain r where r: "fold (\<lambda>s held. learn held s) xs (Some held) = Some r" "r \<in> insert held (set xs)" "\<forall>s \<in> insert held (set xs). \<not> stands_over s r"
      using Cons.IH [of held] Cons.prems by auto
    have "\<not> stands_over x r"
    proof
      assume over: "stands_over x r"
      have len: "length (sg_setter x) = FZN_PUBKEY_LEN" "length (sg_setter r) = FZN_PUBKEY_LEN" using Cons.prems r(2) by auto
      show False
      proof (cases "stands_over r held")
        case True
        from supersedes_trans [OF len Cons.prems(1) over this] False show False by simp
      next
        case not: False
        then have "standing r = standing held" using supersedes_total [OF len(2) Cons.prems(1)] r(3) by blast
        then have "stands_over x r = stands_over x held" by (simp add: fzn_setting_supersedes_def standing_def)
        then show False using over False by simp
      qed
    qed
    then show ?thesis using r False by auto
  qed
qed

text \<open>
  C30. Which setting stands does not depend on the order of arrival. \<open>fzn_setting_supersedes\<close> is a strict order, total on
  what decides, so that hosts which learnt the same settings of a cell in any order, and however often, hold settings
  with one version, setter, operation and value, and no setting that was learnt stands over them.
\<close>

theorem settings_converge:
  assumes "\<forall>s \<in> set xs. length (sg_setter s) = FZN_PUBKEY_LEN" and "xs \<noteq> []" and "set ys = set xs"
  shows "\<exists>a b. fold (\<lambda>s held. learn held s) xs None = Some a \<and> fold (\<lambda>s held. learn held s) ys None = Some b \<and> a \<in> set xs \<and> standing a = standing b \<and>
    (\<forall>s \<in> set xs. \<not> stands_over s a) \<and> (\<forall>s \<in> set xs. standing s = standing a \<or> stands_over a s)"
proof -
  have run: "\<exists>r. fold (\<lambda>s held. learn held s) zs None = Some r \<and> r \<in> set zs \<and> (\<forall>s \<in> set zs. \<not> stands_over s r)"
    if "\<forall>s \<in> set zs. length (sg_setter s) = FZN_PUBKEY_LEN" "zs \<noteq> []" for zs
    using that learn_all [of "tl zs" "hd zs"] by (cases zs) auto
  obtain a where a: "fold (\<lambda>s held. learn held s) xs None = Some a" "a \<in> set xs" "\<forall>s \<in> set xs. \<not> stands_over s a" using run assms by blast
  obtain b where b: "fold (\<lambda>s held. learn held s) ys None = Some b" "b \<in> set xs" "\<forall>s \<in> set xs. \<not> stands_over s b"
    using run [of ys] assms by (metis empty_iff list.set(1) list.set_intros(1) neq_Nil_conv)
  have "standing s = standing a \<or> stands_over a s" if "s \<in> set xs" for s
    using supersedes_total [of s a] assms(1) a that by auto
  moreover have "standing a = standing b" using supersedes_total [of a b] assms(1) a b by auto
  ultimately show ?thesis using a b by blast
qed

section \<open>Names of groups\<close>

lemma name_len_zeros: "list_all group_char nm \<Longrightarrow> length nm \<le> room \<Longrightarrow> name_len (nm @ replicate z 0) room = length nm"
proof (induction nm arbitrary: room)
  case Nil
  then show ?case by (cases z; cases room) simp_all
next
  case (Cons c nm)
  then obtain r where "room = Suc r" by (cases room) auto
  moreover have "c \<noteq> 0" using Cons.prems(1) by (auto simp: group_char_def)
  ultimately show ?case using Cons by simp
qed

lemma name_len_le: "name_len cs room \<le> length cs \<and> name_len cs room \<le> room"
  by (induction cs room rule: name_len.induct) auto

text \<open>
  A group's name and its identity are two spellings of one thing: every name that makes an identity is read back
  from it, and every identity from which a name is read is the one that name makes.
\<close>

theorem group_name_round_trip:
  assumes "length i = FZN_SUBJECT_LEN"
  shows "fzn_scope_group_id (Some nm) = Some i \<longleftrightarrow> fzn_scope_group_name (Some i) = Some nm"
proof
  assume "fzn_scope_group_id (Some nm) = Some i"
  then have nm: "0 < length nm" "length nm \<le> 32" "list_all group_char nm" "i = nm @ replicate (32 - length nm) 0"
    by (auto simp: fzn_scope_group_id_def put_at_def split: if_splits)
  then have "name_len (take 32 i) 32 = length nm" using name_len_zeros [OF nm(3,2)] by simp
  then show "fzn_scope_group_name (Some i) = Some nm" using nm by (simp add: fzn_scope_group_name_def list_all_iff)
next
  let ?n = "name_len (take 32 i) 32"
  assume "fzn_scope_group_name (Some i) = Some nm"
  then have n: "?n \<noteq> 0" "list_all group_char (take ?n i)" "list_all (\<lambda>c. c = 0) (drop ?n (take 32 i))" "nm = take ?n i"
    by (auto simp: fzn_scope_group_name_def Let_def split: if_splits)
  have le: "?n \<le> 32" using name_len_le [of "take 32 i" 32] by simp
  have "drop ?n i = replicate (32 - ?n) 0" using n(3) assms by (intro replicate_eqI) (auto simp: list_all_iff)
  then have "take ?n i @ replicate (32 - ?n) 0 = i" by (metis append_take_drop_id)
  then show "fzn_scope_group_id (Some nm) = Some i" using n le assms by (simp add: fzn_scope_group_id_def put_at_def min_def)
qed

section \<open>The signed object\<close>

lemma setting_fields:
  fixes k v sig setter about :: bytes and st rank :: int and scope :: fzn_scope and version :: u64
  assumes "length setter = FZN_PUBKEY_LEN" and "length about = FZN_SUBJECT_LEN" and "length k \<le> FZN_SETTING_KEY_MAX" and "length v \<le> FZN_SETTING_VALUE_MAX"
    and "length sig = FZN_SIG_LEN"
  defines "b \<equiv> setting_body setter scope about version k st v rank @ sig"
  shows "b ! 0 = FZN_SIGNED_VERSION" "b ! 1 = FZN_OBJECT_SETTING" "bytes_at 2 32 b = setter" "b ! 34 = scope" "bytes_at 35 32 b = about"
    "fzn_get_be64 (bytes_at 67 8 b) = version" "unat (b ! 75) = length k" "bytes_at 76 (length k) b = k" "b ! (76 + length k) = of_int st"
    "unat (fzn_get_be16 (bytes_at (77 + length k) 2 b)) = length v" "bytes_at (79 + length k) (length v) b = v"
    "length b = 79 + length k + length v + (if rank \<ge> 0 then 1 else 0) + 64"
    "rank \<ge> 0 \<Longrightarrow> b ! (79 + length k + length v) = of_int rank" "take (length b - 64) b = setting_body setter scope about version k st v rank" "drop (length b - 64) b = sig"
proof -
  have l8: "length (fzn_put_be64 version) = 8" by (simp add: fzn_put_be64_def)
  have l2: "length (fzn_put_be16 (of_nat (length v))) = 2" by (simp add: fzn_put_be16_def)
  note lens = assms(1,2,5) l8 l2
  have vl: "unat (of_nat (length v) :: u16) = length v" using assms(4) by (simp add: unsigned_of_nat take_bit_nat_eq_self)
  have kl: "unat (of_nat (length k) :: u8) = length k" using assms(3) by (simp add: unsigned_of_nat take_bit_nat_eq_self)
  show "b ! 0 = FZN_SIGNED_VERSION" "b ! 1 = FZN_OBJECT_SETTING" by (simp_all add: b_def setting_body_def)
  show "bytes_at 2 32 b = setter" "bytes_at 35 32 b = about" using lens by (simp_all add: b_def setting_body_def)
  show "b ! 34 = scope" "unat (b ! 75) = length k" using lens kl by (simp_all add: b_def setting_body_def nth_append)
  show "fzn_get_be64 (bytes_at 67 8 b) = version" using lens by (simp add: b_def setting_body_def get_put_be64)
  show "bytes_at 76 (length k) b = k" using lens by (simp add: b_def setting_body_def)
  show "b ! (76 + length k) = of_int st" using lens by (simp add: b_def setting_body_def nth_append)
  define q where "q = [FZN_SIGNED_VERSION, FZN_OBJECT_SETTING] @ setter @ [scope] @ about @ fzn_put_be64 version @ [of_nat (length k)] @ k @ [of_int st]"
  define t where "t = (if rank \<ge> 0 then [of_int rank] else []) @ sig"
  have q: "length q = 77 + length k" using lens by (simp add: q_def)
  have b: "b = q @ fzn_put_be16 (of_nat (length v)) @ v @ t" by (simp add: b_def setting_body_def q_def t_def)
  then have "bytes_at (77 + length k) 2 b = fzn_put_be16 (of_nat (length v))" using q l2 by simp
  then show "unat (fzn_get_be16 (bytes_at (77 + length k) 2 b)) = length v" by (simp add: get_put_be16 vl)
  show "bytes_at (79 + length k) (length v) b = v" using q l2 unfolding b by simp
  show len: "length b = 79 + length k + length v + (if rank \<ge> 0 then 1 else 0) + 64" using lens by (simp add: b_def setting_body_def)
  show "rank \<ge> 0 \<Longrightarrow> b ! (79 + length k + length v) = of_int rank" using q l2 unfolding b by (simp add: nth_append t_def)
  show "take (length b - 64) b = setting_body setter scope about version k st v rank" "drop (length b - 64) b = sig" using assms(5) by (simp_all add: b_def)
qed

text \<open>
  A setting survives its object: whatever was issued, a value or a clear, with a rank stated or without, opens under
  the same signatures to exactly the setter, scope, subject, version, key, value and rank it was issued with,
  and is no longer than the longest object that is read; a scope without a cell is never issued.
\<close>

theorem setting_round_trip:
  assumes "length setter = FZN_PUBKEY_LEN" and "length about = FZN_SUBJECT_LEN" and "so_sign sign = Some do_sign" and "so_verify sign = Some verify"
    and "signs_for verify do_sign setter"
    and "issue (Some setter) (Some sign) scope (Some about) version (Some k) st (Some v) (length v) rank = (FZN_SETTING_OK, Some b)"
  shows "fzn_setting_open (Some b) (Some sign) = (FZN_SETTING_OK, Some \<lparr>sg_setter = setter, sg_scope = scope, sg_about = about, sg_version = version,
      sg_key = k, sg_set = of_int st, sg_value = v, sg_rank = rank\<rparr>) \<and> length b \<le> FZN_SETTING_MAX \<and> scope \<noteq> FZN_SCOPE_HOST_PRIVATE"
proof -
  from assms(6) have g: "fzn_setting_key_ok (Some k)" "st = 0 \<or> st = 1" "st = 0 \<longrightarrow> length v = 0" "value_ok (Some v) (length v)" "- 1 \<le> rank" "rank < 3" "scope_served scope"
    and body: "\<exists>sig. do_sign (setting_body setter scope about version k st v rank) = Some sig \<and> b = setting_body setter scope about version k st v rank @ sig"
    using assms(3) by (auto simp: issue_def Let_def split: if_splits option.splits)
  obtain sig where sig: "do_sign (setting_body setter scope about version k st v rank) = Some sig" "b = setting_body setter scope about version k st v rank @ sig" using body by blast
  have ver: "length sig = FZN_SIG_LEN" "verify setter (setting_body setter scope about version k st v rank) sig" using assms(5) sig(1) by (auto simp: signs_for_def)
  have kv: "length k \<le> 64" "0 < length k" "length v \<le> 256" using g(1,4) by (auto simp: fzn_setting_key_ok_def value_ok_def)
  note f = setting_fields [OF assms(1,2) kv(1,3) ver(1), where scope = scope and version = version and st = st and rank = rank, folded sig(2)]
  have v: "value_ok (Some (drop (79 + length k) b)) (length v)" using g(4) f(11) by (simp add: value_ok_def bytes_at_def)
  have st: "\<not> (of_int st :: u8) > 1" "(of_int st :: u8) = 0 \<longleftrightarrow> st = 0" using g(2) by auto
  have rk: "unat (of_int rank :: u8) = nat rank" "\<not> (of_int rank :: u8) \<ge> 3" if "rank \<ge> 0"
    using that g(6) by (auto simp: unsigned_of_int take_bit_int_eq_self word_le_nat_alt)
  have off: "76 + length k + 1 = 77 + length k" "76 + length k + 3 = 79 + length k" by simp_all
  have len: "144 \<le> length b" "length b \<le> 464" unfolding f(12) using kv by (cases "rank \<ge> 0"; simp only: if_True if_False; linarith)+
  have "fzn_setting_open (Some b) (Some sign) = (FZN_SETTING_OK, Some \<lparr>sg_setter = setter, sg_scope = scope, sg_about = about, sg_version = version,
      sg_key = k, sg_set = of_int st, sg_value = v, sg_rank = rank\<rparr>)"
  proof (cases "rank \<ge> 0")
    case True
    then show ?thesis using assms(4) g(1,3,7) ver(2) v st rk f kv len unfolding fzn_setting_open_def by (simp add: Let_def off)
  next
    case False
    then have "rank = - 1" using g(5) by simp
    then show ?thesis using assms(4) g(1,3,7) ver(2) v st f kv len unfolding fzn_setting_open_def by (simp add: Let_def off)
  qed
  then show ?thesis using len g(7) by (auto simp: scope_served_def)
qed

section \<open>Cells\<close>

text \<open>The two inputs that are hashed for the name of a cell.\<close>

definition cell_inputs :: "fzn_hash_fn \<Rightarrow> fzn_scope \<Rightarrow> bytes \<Rightarrow> bytes \<Rightarrow> bytes list" where
  "cell_inputs h scope about k = [FZN_SCOPE_LABEL @ [scope] @ about,
     FZN_SETTING_LABEL @ [scope] @ the (h FZN_SUBJECT_LEN (FZN_SCOPE_LABEL @ [scope] @ about)) @ [of_nat (length k)] @ k]"

text \<open>
  A cell's name names one setting: if two settings have one cell, they have the same scope, are about the same
  subject and have the same key, or two of the inputs hashed for their names exhibit a collision. A value
  private to its host has no cell.
\<close>

theorem cell_names_setting:
  assumes "hash_total h" and "length about = FZN_SUBJECT_LEN" and "length about' = FZN_SUBJECT_LEN"
    and "fzn_setting_cell_of scope (Some about) (Some k) (Some (Some h)) = Some cell"
    and "fzn_setting_cell_of scope' (Some about') (Some k') (Some (Some h)) = Some cell"
  shows "scope \<noteq> FZN_SCOPE_HOST_PRIVATE \<and>
    (scope = scope' \<and> about = about' \<and> k = k' \<or>
     (\<exists>x \<in> set (cell_inputs h scope about k). \<exists>y \<in> set (cell_inputs h scope' about' k'). x \<noteq> y \<and> h FZN_SUBJECT_LEN x = h FZN_SUBJECT_LEN y))"
proof -
  have parts: "s \<noteq> 0 \<and> h 32 (cell_inputs h s a q ! 1) = Some c \<and> length q \<le> 64"
    if "fzn_setting_cell_of s (Some a) (Some q) (Some (Some h)) = Some c" for s a q c
    using that by (auto simp: fzn_setting_cell_of_def fzn_scope_subject_def cell_inputs_def fzn_setting_key_ok_def split: if_splits option.splits)
  note p = parts [OF assms(4)] and p' = parts [OF assms(5)]
  let ?d = "\<lambda>s a. the (h FZN_SUBJECT_LEN (FZN_SCOPE_LABEL @ [s] @ a))"
  have d: "length (?d s a) = 32" for s a using assms(1) unfolding hash_total_def by (metis option.sel)
  have "scope = scope' \<and> about = about' \<and> k = k'"
    if no: "\<forall>x \<in> set (cell_inputs h scope about k). \<forall>y \<in> set (cell_inputs h scope' about' k'). h FZN_SUBJECT_LEN x = h FZN_SUBJECT_LEN y \<longrightarrow> x = y"
  proof -
    have "cell_inputs h scope about k ! 1 \<in> set (cell_inputs h scope about k)" "cell_inputs h scope' about' k' ! 1 \<in> set (cell_inputs h scope' about' k')"
      by (simp_all add: cell_inputs_def)
    then have "cell_inputs h scope about k ! 1 = cell_inputs h scope' about' k' ! 1" using no p p' by metis
    then have eq: "scope = scope'" "?d scope about = ?d scope' about'" "k = k'" using d by (auto simp: cell_inputs_def)
    then have "h 32 (FZN_SCOPE_LABEL @ [scope] @ about) = h 32 (FZN_SCOPE_LABEL @ [scope'] @ about')"
      using assms(1) unfolding hash_total_def by (metis option.sel)
    then have "FZN_SCOPE_LABEL @ [scope] @ about = FZN_SCOPE_LABEL @ [scope'] @ about'" using no by (metis cell_inputs_def list.set_intros(1))
    then show ?thesis using eq by simp
  qed
  then show ?thesis using p by blast
qed

text \<open>
  An unknown scope travels least. Reading a byte never widens where a value goes: what this build does not know is
  private to its host and reaches nobody; every known scope is read back from its name; and a change of
  scope widens exactly when it lets some host see the value that could not before.
\<close>

theorem scope_travels_least:
  "(\<not> fzn_scope_known b \<longrightarrow> fzn_scope_read b = FZN_SCOPE_HOST_PRIVATE \<and> \<not> fzn_scope_reaches b in_group \<and> \<not> scope_served b \<and> fzn_scope_name b = None) \<and>
   (fzn_scope_known b \<longrightarrow> fzn_scope_read b = b \<and> fzn_scope_parse (fzn_scope_name b) = Some b) \<and>
   (fzn_scope_widens b c \<longleftrightarrow> (\<exists>g. fzn_scope_reaches c g \<and> \<not> fzn_scope_reaches b g)) \<and>
   (fzn_scope_replicates b \<longleftrightarrow> (\<exists>g. fzn_scope_reaches b g))"
proof -
  have four: "unat b < 4 \<Longrightarrow> b = 0 \<or> b = 1 \<or> b = 2 \<or> b = 3"
  proof -
    assume "unat b < 4"
    then consider "unat b = 0" | "unat b = 1" | "unat b = 2" | "unat b = 3" by linarith
    then show ?thesis by cases (simp_all add: word_unat_eq_iff)
  qed
  have "fzn_scope_parse (fzn_scope_name b) = Some b" if "fzn_scope_known b"
  proof -
    have "b = 0 \<or> b = 1 \<or> b = 2 \<or> b = 3" using four that by (simp add: fzn_scope_known_def word_less_nat_alt)
    moreover have "fzn_scope_parse (fzn_scope_name 0) = Some 0" "fzn_scope_parse (fzn_scope_name 1) = Some 1"
      "fzn_scope_parse (fzn_scope_name 2) = Some 2" "fzn_scope_parse (fzn_scope_name 3) = Some 3" by code_simp+
    ultimately show ?thesis by auto
  qed
  moreover have "b \<noteq> 0 \<and> b \<noteq> 1 \<and> b \<noteq> 2 \<and> b \<noteq> 3" if "\<not> fzn_scope_known b" using that by (auto simp: fzn_scope_known_def)
  ultimately show ?thesis
    by (auto simp: fzn_scope_read_def fzn_scope_reaches_def fzn_scope_widens_def fzn_scope_replicates_def scope_served_def fzn_scope_name_def fzn_scope_known_def)
qed

section \<open>Witnesses\<close>

definition demo_setting :: "u64 \<Rightarrow> u8 \<Rightarrow> bytes \<Rightarrow> fzn_setting" where
  "demo_setting ver who v = \<lparr>sg_setter = replicate 32 who, sg_scope = FZN_SCOPE_HOST, sg_about = replicate 32 0, sg_version = ver, sg_key = [97], sg_set = 1, sg_value = v, sg_rank = - 1\<rparr>"

theorem settings_converge_witness:
  "\<exists>a b. fold (\<lambda>s held. learn held s) [demo_setting 1 5 [65], demo_setting 2 4 [66]] None = Some a \<and>
    fold (\<lambda>s held. learn held s) [demo_setting 2 4 [66], demo_setting 1 5 [65]] None = Some b \<and> standing a = standing b"
proof -
  have "set [demo_setting 2 4 [66], demo_setting 1 5 [65]] = set [demo_setting 1 5 [65], demo_setting 2 4 [66]]" by (simp add: insert_commute)
  moreover have "\<forall>s \<in> set [demo_setting 1 5 [65], demo_setting 2 4 [66]]. length (sg_setter s) = FZN_PUBKEY_LEN" by (simp add: demo_setting_def)
  ultimately show ?thesis using settings_converge [of "[demo_setting 1 5 [65], demo_setting 2 4 [66]]"] by blast
qed

theorem group_name_round_trip_witness:
  "fzn_scope_group_id (Some [97, 98]) = Some ([97, 98] @ replicate 30 0) \<and> fzn_scope_group_name (Some ([97, 98] @ replicate 30 0)) = Some [97, 98]"
proof -
  have "fzn_scope_group_id (Some [97, 98]) = Some ([97, 98] @ replicate 30 0)" by code_simp
  moreover have "length ([97, 98] @ replicate 30 (0 :: u8)) = 32" by simp
  ultimately show ?thesis using group_name_round_trip by blast
qed

theorem setting_round_trip_witness:
  "\<exists>b. issue (Some (replicate 32 1)) (Some record_signer) FZN_SCOPE_HOST (Some (replicate 32 2)) 7 (Some [97]) 1 (Some [65, 66]) 2 (- 1) = (FZN_SETTING_OK, Some b) \<and>
    map_option sg_value (snd (fzn_setting_open (Some b) (Some record_signer))) = Some [65, 66]"
proof -
  let ?r = "issue (Some (replicate 32 1)) (Some record_signer) FZN_SCOPE_HOST (Some (replicate 32 2)) 7 (Some [97]) 1 (Some [65, 66]) (length [65, 66 :: u8]) (- 1)"
  have "fst ?r = FZN_SETTING_OK \<and> snd ?r \<noteq> None" by code_simp
  then obtain b where b: "?r = (FZN_SETTING_OK, Some b)" by (metis option.exhaust prod.collapse)
  have "length (replicate 32 (1 :: u8)) = FZN_PUBKEY_LEN" "length (replicate 32 (2 :: u8)) = FZN_SUBJECT_LEN"
    "so_sign record_signer = Some (\<lambda>m. Some (replicate 64 7))" "so_verify record_signer = Some (\<lambda>k m sig. sig = replicate 64 7)"
    "signs_for (\<lambda>k m sig. sig = replicate 64 7) (\<lambda>m. Some (replicate 64 7)) (replicate 32 1)" by (simp_all add: record_signer_def signs_for_def)
  from setting_round_trip [OF this b] have "map_option sg_value (snd (fzn_setting_open (Some b) (Some record_signer))) = Some [65, 66]" by simp
  with b show ?thesis by (intro exI [of _ b]) (simp add: numeral_2_eq_2)
qed

theorem cell_names_setting_witness:
  "fzn_setting_cell_of FZN_SCOPE_HOST (Some (replicate 32 1)) (Some [97]) (Some (Some demo_hash)) =
     fzn_setting_cell_of FZN_SCOPE_HOST (Some (replicate 32 2)) (Some [97]) (Some (Some demo_hash)) \<and>
   (\<exists>x \<in> set (cell_inputs demo_hash FZN_SCOPE_HOST (replicate 32 1) [97]). \<exists>y \<in> set (cell_inputs demo_hash FZN_SCOPE_HOST (replicate 32 2) [97]).
      x \<noteq> y \<and> demo_hash FZN_SUBJECT_LEN x = demo_hash FZN_SUBJECT_LEN y)"
proof -
  let ?c = "\<lambda>n. fzn_setting_cell_of FZN_SCOPE_HOST (Some (replicate 32 n)) (Some [97]) (Some (Some demo_hash))"
  have "?c 1 = ?c 2 \<and> ?c 1 \<noteq> None" by code_simp
  then obtain cell where c: "?c 1 = Some cell" "?c 2 = Some cell" by (metis option.exhaust)
  have "replicate 32 1 \<noteq> replicate 32 (2 :: u8)" by (simp add: replicate_eq_replicate)
  then show ?thesis using c cell_names_setting [OF demo_ratchet(1) _ _ c] by simp
qed

theorem scope_travels_least_witness: "fzn_scope_read 9 = FZN_SCOPE_HOST_PRIVATE \<and> \<not> fzn_scope_reaches 9 True"
  using scope_travels_least [of 9 True] by (simp add: fzn_scope_known_def)

end
