(* ===== verification/Schema.thy ===== *)
theory Schema
  imports Signed_Record
begin

text \<open>
  Declared settings (\<open>state/schema.c\<close>): which declaration a key belongs to, whether two declarations claim one cell, and
  the parsers that read and check values. Counts are kept at their width, so that a digit too many wraps
  as in the code. An absent string has length zero; the grammar that an entry may bring is a parameter.
\<close>

section \<open>The model\<close>

datatype fzn_schema_type = FZN_SCHEMA_FLAG | FZN_SCHEMA_COUNT | FZN_SCHEMA_DURATION | FZN_SCHEMA_ADDRESS | FZN_SCHEMA_TEXT

record fzn_schema_entry =
  sc_key :: "bytes option"
  sc_type :: fzn_schema_type
  sc_scopes :: u32
  sc_min :: u64
  sc_max :: u64
  sc_def :: bytes
  sc_unit :: bytes
  sc_flags :: u32
  sc_summary :: bytes
  sc_check :: "(bytes \<Rightarrow> string option) option"

definition key_len_of :: "bytes option \<Rightarrow> nat" where
  "key_len_of k = (case k of Some k \<Rightarrow> length k | None \<Rightarrow> 0)"

text \<open>The ASCII codes: \<open>47\<close> is the slash, \<open>97\<close> to \<open>122\<close> the letters, \<open>48\<close> to \<open>57\<close> the digits.\<close>

definition word_char :: "u8 \<Rightarrow> bool" where
  "word_char c \<longleftrightarrow> (c \<ge> 97 \<and> c \<le> 122) \<or> (c \<ge> 48 \<and> c \<le> 57)"

definition entry_is :: "fzn_schema_entry \<Rightarrow> bytes \<Rightarrow> bool" where
  "entry_is e key =
     (let n = key_len_of (sc_key e); d = the (sc_key e) in
      if n = 0 then False
      else if d ! (n - 1) \<noteq> 47 then n = length key \<and> d = key
      else if length key \<le> n \<or> take n key \<noteq> d then False
      else list_all word_char (drop n key))"

definition fzn_schema_find :: "fzn_schema_entry list option \<Rightarrow> bytes option \<Rightarrow> nat option" where
  "fzn_schema_find table key =
     (if table = None \<or> key = None \<or> length (the key) = 0 then None
      else List.find (\<lambda>i. entry_is (the table ! i) (the key)) [0..<length (the table)])"

definition fzn_schema_overlap :: "bytes option \<Rightarrow> bytes option \<Rightarrow> bool" where
  "fzn_schema_overlap a b =
     (let la = key_len_of a; lb = key_len_of b in
      if la = 0 \<or> lb = 0 then False
      else if la = lb then the a = the b
      else if la < lb then the a ! (la - 1) = 47 \<and> take la (the b) = the a
      else the b ! (lb - 1) = 47 \<and> take lb (the a) = the b)"

definition fzn_schema_flag :: "bytes option \<Rightarrow> int" where
  "fzn_schema_flag v =
     (case v of None \<Rightarrow> - 1
      | Some v \<Rightarrow> if v = [111, 110] \<or> v = [49] then 1 else if v = [111, 102, 102] \<or> v = [48] then 0 else - 1)"

fun digits_loop :: "nat \<Rightarrow> nat" where
  "digits_loop m = (if m = 0 then 0 else Suc (digits_loop (m div 10)))"

declare digits_loop.simps [simp del]

fun count_loop :: "bytes \<Rightarrow> u64 \<Rightarrow> u64 option" where
  "count_loop [] n = Some n"
| "count_loop (c # cs) n = (if c < 48 \<or> c > 57 then None else count_loop cs (n * 10 + ucast (c - 48)))"

definition fzn_schema_count :: "bytes option \<Rightarrow> u64 \<Rightarrow> u64 \<Rightarrow> u64 option" where
  "fzn_schema_count v least most =
     (let digits = digits_loop (unat most) in
      case v of None \<Rightarrow> None
      | Some v \<Rightarrow>
          if length v = 0 \<or> length v > (if digits \<noteq> 0 then digits else 1) then None
          else (case count_loop v 0 of
                  None \<Rightarrow> None
                | Some n \<Rightarrow> if n < least \<or> n > most then None else Some n))"

definition unit_of :: "u8 \<Rightarrow> u64 option" where
  "unit_of c = (if c = 100 then Some 86400 else if c = 104 then Some 3600 else if c = 109 then Some 60 else if c = 115 then Some 1 else None)"

definition fzn_schema_duration :: "bytes option \<Rightarrow> u64 \<Rightarrow> u64 \<Rightarrow> u64 option" where
  "fzn_schema_duration v least most =
     (case v of None \<Rightarrow> None
      | Some v \<Rightarrow>
          if length v < 2 then None
          else (case unit_of (v ! (length v - 1)) of
                  None \<Rightarrow> None
                | Some unit \<Rightarrow>
                    (case fzn_schema_count (Some (take (length v - 1) v)) 1 (most div unit) of
                       None \<Rightarrow> None
                     | Some n \<Rightarrow> if n * unit < least then None else Some (n * unit))))"

definition host_char :: "u8 \<Rightarrow> bool" where
  "host_char c \<longleftrightarrow> (c \<ge> 97 \<and> c \<le> 122) \<or> (c \<ge> 65 \<and> c \<le> 90) \<or> (c \<ge> 48 \<and> c \<le> 57) \<or> c = 46 \<or> c = 45 \<or> c = 58"

text \<open>\<open>want_host\<close> says whether the caller gave a buffer for the host; the host and the port are the result.\<close>

definition fzn_schema_address :: "bytes option \<Rightarrow> bool \<Rightarrow> nat \<Rightarrow> (bytes \<times> u16) option" where
  "fzn_schema_address v want_host host_cap =
     (case v of None \<Rightarrow> None
      | Some v \<Rightarrow> let space = length (takeWhile (\<lambda>c. c \<noteq> 32) v) in
          if space = 0 \<or> space = length v \<or> (host_cap \<noteq> 0 \<and> space \<ge> host_cap) \<or> (want_host \<and> host_cap = 0) then None
          else if \<not> list_all host_char (take space v) then None
          else (case fzn_schema_count (Some (drop (space + 1) v)) 1 65535 of
                  None \<Rightarrow> None
                | Some p \<Rightarrow> Some (take space v, ucast p)))"

definition fzn_schema_type_name :: "fzn_schema_type \<Rightarrow> string" where
  "fzn_schema_type_name t = (case t of FZN_SCHEMA_FLAG \<Rightarrow> ''flag'' | FZN_SCHEMA_COUNT \<Rightarrow> ''count'' | FZN_SCHEMA_DURATION \<Rightarrow> ''duration''
     | FZN_SCHEMA_ADDRESS \<Rightarrow> ''address'' | FZN_SCHEMA_TEXT \<Rightarrow> ''text'')"

text \<open>The result is \<open>None\<close> where the code answers the null pointer, that is, accepts.\<close>

definition fzn_schema_check :: "fzn_schema_entry option \<Rightarrow> bytes option \<Rightarrow> nat \<Rightarrow> string option" where
  "fzn_schema_check e v len =
     (case e of None \<Rightarrow> None
      | Some e \<Rightarrow>
          if v = None \<and> len \<noteq> 0 then Some ''no value''
          else (case sc_type e of
              FZN_SCHEMA_FLAG \<Rightarrow> if fzn_schema_flag v < 0 then Some ''a flag is on or off'' else None
            | FZN_SCHEMA_COUNT \<Rightarrow> if fzn_schema_count v (sc_min e) (sc_max e) \<noteq> None then None else Some ''not a count in its range''
            | FZN_SCHEMA_DURATION \<Rightarrow> if fzn_schema_duration v (sc_min e) (sc_max e) \<noteq> None then None
                else Some ''not a duration in its range, a count and one of d h m s''
            | FZN_SCHEMA_ADDRESS \<Rightarrow> if fzn_schema_address v False (if sc_max e \<noteq> 0 then unat (sc_max e + 1) else 0) \<noteq> None then None else Some ''not HOST PORT''
            | FZN_SCHEMA_TEXT \<Rightarrow>
                if of_nat len < sc_min e \<or> (sc_max e \<noteq> 0 \<and> of_nat len > sc_max e) then Some ''text of the wrong length''
                else if \<not> list_all (\<lambda>c. \<not> (c < 0x20 \<or> c > 0x7e)) (case v of Some v \<Rightarrow> take len v | None \<Rightarrow> []) then Some ''text that does not print''
                else (case sc_check e of Some check \<Rightarrow> check (case v of Some v \<Rightarrow> take len v | None \<Rightarrow> []) | None \<Rightarrow> None)))"

section \<open>Numbers\<close>

definition digit :: "u8 \<Rightarrow> bool" where
  "digit c \<longleftrightarrow> 48 \<le> c \<and> c \<le> 57"

text \<open>The number a string of digits writes, without a width.\<close>

fun decimal :: "bytes \<Rightarrow> nat \<Rightarrow> nat" where
  "decimal [] n = n"
| "decimal (c # cs) n = decimal cs (n * 10 + (unat c - 48))"

lemma digits_bound: "m < 10 ^ d \<Longrightarrow> digits_loop m \<le> d"
proof (induction d arbitrary: m)
  case 0
  then show ?case by (simp add: digits_loop.simps)
next
  case (Suc d)
  then have "m div 10 < 10 ^ d" by (simp add: less_mult_imp_div_less mult.commute)
  then show ?case using Suc.IH by (subst digits_loop.simps) simp
qed

lemma decimal_bound: "list_all digit v \<Longrightarrow> n < 10 ^ k \<Longrightarrow> decimal v n < 10 ^ (k + length v)"
proof (induction v arbitrary: n k)
  case (Cons c v)
  have "unat c - 48 \<le> 9" using Cons.prems(1) by (auto simp: digit_def word_le_nat_alt)
  then have "n * 10 + (unat c - 48) < 10 ^ Suc k" using Cons.prems(2) by simp
  then show ?case using Cons.IH [of _ "Suc k"] Cons.prems(1) by simp
qed simp

lemma decimal_mono: "n \<le> m \<Longrightarrow> decimal v n \<le> decimal v m"
  by (induction v arbitrary: n m) simp_all

lemma decimal_ge: "n \<le> decimal v n"
proof (induction v arbitrary: n)
  case (Cons c v)
  have "n \<le> n * 10 + (unat c - 48)" by simp
  then have "n \<le> decimal v (n * 10 + (unat c - 48))" using Cons by (rule order_trans)
  then show ?case by simp
qed simp

lemma count_loop_exact:
  "list_all digit v \<Longrightarrow> decimal v (unat n) < 2 ^ 64 \<Longrightarrow> \<exists>r. count_loop v n = Some r \<and> unat r = decimal v (unat n)"
proof (induction v arbitrary: n)
  case (Cons c v)
  have c: "48 \<le> c" "c \<le> 57" using Cons.prems(1) by (simp_all add: digit_def)
  let ?m = "n * 10 + ucast (c - 48)"
  have "unat c < 256" using unsigned_less [of c] by simp
  then have "unat c - 48 < 2 ^ 64" by simp
  then have sub: "unat (ucast (c - 48) :: u64) = unat c - 48" using c by (simp add: unat_sub unsigned_ucast_eq take_bit_nat_eq_self)
  have lt: "unat n * 10 + (unat c - 48) < 2 ^ 64" using decimal_ge [of "unat n * 10 + (unat c - 48)" v] Cons.prems(2) by simp
  have m: "unat ?m = unat n * 10 + (unat c - 48)" using lt sub by (simp add: unat_word_ariths)
  have "\<exists>r. count_loop v ?m = Some r \<and> unat r = decimal v (unat ?m)" using Cons m by (intro Cons.IH) simp_all
  then show ?case using c m by (auto simp: not_less)
qed simp

lemma count_loop_digits: "count_loop v n = Some r \<Longrightarrow> list_all digit v"
  by (induction v arbitrary: n) (auto simp: digit_def not_less split: if_splits)

lemma count_spec:
  assumes "unat most < 10 ^ 19"
  shows "fzn_schema_count (Some v) least most = Some n \<longleftrightarrow>
    v \<noteq> [] \<and> list_all digit v \<and> length v \<le> max 1 (digits_loop (unat most)) \<and> unat n = decimal v 0 \<and> least \<le> n \<and> n \<le> most"
proof (cases "v \<noteq> [] \<and> list_all digit v \<and> length v \<le> max 1 (digits_loop (unat most))")
  case True
  then have "length v \<le> 19" using digits_bound [OF assms] by (simp add: max_def split: if_splits)
  moreover have "decimal v 0 < 10 ^ length v" using decimal_bound [of v 0 0] True by simp
  ultimately have "decimal v 0 < 10 ^ 19" using power_increasing [of "length v" 19 "10 :: nat"] by linarith
  then have "decimal v (unat (0 :: u64)) < 2 ^ 64" by simp
  then obtain r where r: "count_loop v 0 = Some r" "unat r = decimal v 0" using count_loop_exact [of v 0] True by auto
  have "fzn_schema_count (Some v) least most = (if r < least \<or> r > most then None else Some r)" using True r(1) by (auto simp: fzn_schema_count_def Let_def max_def split: if_splits)
  moreover have "unat n = decimal v 0 \<longleftrightarrow> n = r" using r(2) by (metis word_unat_eq_iff)
  ultimately show ?thesis using True by (auto simp: not_less)
next
  case False
  then show ?thesis using count_loop_digits [of v 0] by (auto simp: fzn_schema_count_def Let_def max_def split: if_splits option.splits)
qed

text \<open>
  A count is read exactly: for every bound below ten to the nineteenth, the parser accepts just the strings of digits,
  no longer than the bound's own, that write a number in the range, and answers that number. A
  duration is read exactly too: what is accepted is a count times its unit, within the bounds, with no product that wraps.
\<close>

theorem counts_exact:
  assumes "unat most < 10 ^ 19"
  shows "(fzn_schema_count (Some v) least most = Some n \<longleftrightarrow>
      v \<noteq> [] \<and> list_all digit v \<and> length v \<le> max 1 (digits_loop (unat most)) \<and> unat n = decimal v 0 \<and> least \<le> n \<and> n \<le> most) \<and>
    (fzn_schema_duration (Some v) least most = Some s \<longrightarrow> (\<exists>ds c unit. v = ds @ [c] \<and> unit_of c = Some unit \<and> ds \<noteq> [] \<and> list_all digit ds \<and>
      unat s = decimal ds 0 * unat unit \<and> 1 \<le> decimal ds 0 \<and> least \<le> s \<and> s \<le> most))"
proof (intro conjI impI count_spec [OF assms])
  assume "fzn_schema_duration (Some v) least most = Some s"
  then obtain unit n where len: "2 \<le> length v" and u: "unit_of (v ! (length v - 1)) = Some unit"
    and n: "fzn_schema_count (Some (take (length v - 1) v)) 1 (most div unit) = Some n" "\<not> n * unit < least" "s = n * unit"
    by (auto simp: fzn_schema_duration_def split: if_splits option.splits)
  let ?ds = "take (length v - 1) v" and ?c = "v ! (length v - 1)"
  have v: "v = ?ds @ [?c]" using len by (metis Suc_1 Suc_le_D Suc_le_lessD append_take_drop_id cancel_comm_monoid_add_class.diff_cancel diff_Suc_1 id_take_nth_drop lessI drop_all order_refl take_Suc_conv_app_nth take_all)
  have "unat (most div unit) \<le> unat most" by (simp add: unat_div)
  then have "unat (most div unit) < 10 ^ 19" using assms by linarith
  from count_spec [OF this, of ?ds 1 n] n(1) have d: "?ds \<noteq> []" "list_all digit ?ds" "unat n = decimal ?ds 0" "1 \<le> n" "n \<le> most div unit" by auto
  have "unat n * unat unit \<le> unat most" using d(5) by (simp add: word_le_nat_alt unat_div) (meson div_times_less_eq_dividend le_trans mult_le_mono1)
  moreover have "unat most < 2 ^ 64" using unsigned_less [of most] by simp
  ultimately have s: "unat s = unat n * unat unit" "s \<le> most" using n(3) by (simp_all add: unat_word_ariths word_le_nat_alt)
  show "\<exists>ds c unit. v = ds @ [c] \<and> unit_of c = Some unit \<and> ds \<noteq> [] \<and> list_all digit ds \<and>
      unat s = decimal ds 0 * unat unit \<and> 1 \<le> decimal ds 0 \<and> least \<le> s \<and> s \<le> most"
    using v u d s n(2,3) by (intro exI [of _ ?ds] exI [of _ ?c] exI [of _ unit]) (simp add: not_less word_le_nat_alt)
qed

text \<open>
  A bound of twenty digits lets a count wrap: with the largest bound, the string of two to the
  sixty-fourth has no more digits than the bound and is read as zero.
\<close>

theorem count_wraps:
  "fzn_schema_count (Some [49, 56, 52, 52, 54, 55, 52, 52, 48, 55, 51, 55, 48, 57, 53, 53, 49, 54, 49, 54]) 0 UINT64_MAX = Some 0 \<and>
   decimal [49, 56, 52, 52, 54, 55, 52, 52, 48, 55, 51, 55, 48, 57, 53, 53, 49, 54, 49, 54] 0 = 2 ^ 64"
proof -
  have "digits_loop (unat UINT64_MAX) = 20" by (simp add: unsigned_minus_1_eq_mask mask_eq_exp_minus_1 digits_loop.simps)
  then show ?thesis by (simp add: fzn_schema_count_def)
qed

section \<open>Declarations\<close>

text \<open>
  Declarations that do not overlap never share a cell: if a key is an instance of two declarations, exactly or as a
  member of a family, then the two are reported as overlapping; overlap does not depend on the order.
\<close>

theorem overlap_finds_shared:
  "(entry_is a key \<and> entry_is b key \<longrightarrow> fzn_schema_overlap (sc_key a) (sc_key b)) \<and>
   fzn_schema_overlap (sc_key a) (sc_key b) = fzn_schema_overlap (sc_key b) (sc_key a) \<and>
   (fzn_schema_find (Some table) (Some key) = Some i \<longrightarrow> i < length table \<and> entry_is (table ! i) key \<and> (\<forall>j < i. \<not> entry_is (table ! j) key))"
proof (intro conjI impI)
  have prefix: "key_len_of (sc_key e) \<noteq> 0 \<and> length (the (sc_key e)) = key_len_of (sc_key e) \<and> take (key_len_of (sc_key e)) key = the (sc_key e) \<and>
      (key_len_of (sc_key e) < length key \<longrightarrow> the (sc_key e) ! (key_len_of (sc_key e) - 1) = 47) \<and> key_len_of (sc_key e) \<le> length key" if "entry_is e key" for e
    using that by (auto simp: entry_is_def key_len_of_def Let_def split: if_splits option.splits)
  assume "entry_is a key \<and> entry_is b key"
  then have pa: "entry_is a key" and pb: "entry_is b key" by simp_all
  let ?na = "key_len_of (sc_key a)" and ?nb = "key_len_of (sc_key b)"
  note a = prefix [OF pa] and b = prefix [OF pb]
  show "fzn_schema_overlap (sc_key a) (sc_key b)"
  proof (cases ?na ?nb rule: linorder_cases)
    case less
    then have "take ?na (the (sc_key b)) = the (sc_key a)" using a b by (metis less_imp_le min.absorb1 take_take)
    then show ?thesis using less a b by (simp add: fzn_schema_overlap_def)
  next
    case equal
    then have "the (sc_key a) = the (sc_key b)" using a b by metis
    then show ?thesis using equal a b by (simp add: fzn_schema_overlap_def)
  next
    case greater
    then have "take ?nb (the (sc_key a)) = the (sc_key b)" using a b by (metis less_imp_le min.absorb1 take_take)
    then show ?thesis using greater a b by (simp add: fzn_schema_overlap_def)
  qed
next
  show "fzn_schema_overlap (sc_key a) (sc_key b) = fzn_schema_overlap (sc_key b) (sc_key a)"
    by (cases "key_len_of (sc_key a)" "key_len_of (sc_key b)" rule: linorder_cases) (auto simp: fzn_schema_overlap_def Let_def)
next
  assume "fzn_schema_find (Some table) (Some key) = Some i"
  then have f: "List.find (\<lambda>i. entry_is (table ! i) key) [0..<length table] = Some i" by (auto simp: fzn_schema_find_def split: if_splits)
  then show "i < length table" "entry_is (table ! i) key" by (auto simp: find_Some_iff)
  show "\<forall>j < i. \<not> entry_is (table ! j) key" using f by (auto simp: find_Some_iff)
qed

section \<open>Witnesses\<close>

theorem counts_exact_witness: "fzn_schema_count (Some [52, 50]) 1 100 = Some 42"
proof -
  have "digits_loop (unat (100 :: u64)) = 3" by (simp add: digits_loop.simps)
  then show ?thesis using counts_exact [of 100 "[52, 50]" 1 42] by (simp add: digit_def)
qed

definition demo_entry :: "bytes \<Rightarrow> fzn_schema_entry" where
  "demo_entry k = \<lparr>sc_key = Some k, sc_type = FZN_SCHEMA_TEXT, sc_scopes = 1, sc_min = 0, sc_max = 0, sc_def = [], sc_unit = [], sc_flags = 0, sc_summary = [], sc_check = None\<rparr>"

theorem overlap_finds_shared_witness:
  "entry_is (demo_entry [97, 47]) [97, 47, 98] \<and> entry_is (demo_entry [97, 47, 98]) [97, 47, 98] \<and> fzn_schema_overlap (Some [97, 47]) (Some [97, 47, 98])"
  using overlap_finds_shared [of "demo_entry [97, 47]" "[97, 47, 98]" "demo_entry [97, 47, 98]"]
  by (simp add: entry_is_def demo_entry_def key_len_of_def word_char_def)

end
