(* ===== verification/Prekey.thy ===== *)
theory Prekey
  imports Trust Signed_Record
begin

text \<open>
  Prekeys (\<open>prekey/prekey.c\<close>): a host's signed announcement of the key others may seal to before they have met,
  and the peer that pins one. A pinned peer is composed with the anchor of trust: the first record
  anchors the host, later ones may only rotate forwards. The signatures are a parameter.
\<close>

section \<open>The model\<close>

datatype fzn_prekey_err = FZN_PREKEY_OK | FZN_PREKEY_ERR_MALFORMED | FZN_PREKEY_ERR_SHAPE | FZN_PREKEY_ERR_SIGNATURE | FZN_PREKEY_ERR_SIGNER
  | FZN_PREKEY_ERR_ROLLBACK | FZN_PREKEY_ERR_WRONG_HOST

abbreviation FZN_PREKEY_LEN :: nat where "FZN_PREKEY_LEN \<equiv> 32"
abbreviation FZN_PREKEY_BODY_LEN :: nat where "FZN_PREKEY_BODY_LEN \<equiv> 74"
abbreviation FZN_PREKEY_LEN_TOTAL :: nat where "FZN_PREKEY_LEN_TOTAL \<equiv> 138"
abbreviation FZN_OBJECT_PREKEY :: u8 where "FZN_OBJECT_PREKEY \<equiv> 132"

text \<open>A view over bytes the caller owns; each pointer of it may be absent.\<close>

record fzn_prekey_record =
  pr_bytes :: "bytes option"
  pr_host :: "key option"
  pr_prekey :: "bytes option"
  pr_created_at :: u64

record fzn_prekey_peer =
  pp_trust :: fzn_trust
  pp_prekey :: bytes
  pp_created_at :: u64

definition prekey_body :: "key \<Rightarrow> bytes \<Rightarrow> u64 \<Rightarrow> bytes" where
  "prekey_body host prekey created_at = [FZN_SIGNED_VERSION, FZN_OBJECT_PREKEY] @ host @ prekey @ fzn_put_be64 created_at"

text \<open>\<open>out\<close> is the caller's buffer; a signer that refuses leaves the body written and the rest alone.\<close>

definition fzn_prekey_issue :: "key option \<Rightarrow> bytes option \<Rightarrow> u64 \<Rightarrow> fzn_sign_ops option \<Rightarrow> bytes option \<Rightarrow> fzn_prekey_err \<times> bytes option" where
  "fzn_prekey_issue host prekey created_at signer out =
     (if host = None \<or> prekey = None \<or> out = None then (FZN_PREKEY_ERR_MALFORMED, out)
      else if signer = None \<or> so_sign (the signer) = None then (FZN_PREKEY_ERR_SIGNER, out)
      else let body = prekey_body (the host) (the prekey) created_at in
        (case the (so_sign (the signer)) body of
           None \<Rightarrow> (FZN_PREKEY_ERR_SIGNER, Some (put_at 0 body (the out)))
         | Some sig \<Rightarrow> (FZN_PREKEY_OK, Some (put_at 0 (body @ sig) (the out)))))"

definition fzn_prekey_open :: "bytes option \<Rightarrow> fzn_prekey_err \<times> fzn_prekey_record option" where
  "fzn_prekey_open bytes =
     (case bytes of None \<Rightarrow> (FZN_PREKEY_ERR_MALFORMED, None)
      | Some b \<Rightarrow>
        if length b \<noteq> FZN_PREKEY_LEN_TOTAL then (FZN_PREKEY_ERR_SHAPE, None)
        else if b ! 0 \<noteq> FZN_SIGNED_VERSION then (FZN_PREKEY_ERR_SHAPE, None)
        else if b ! 1 \<noteq> FZN_OBJECT_PREKEY then (FZN_PREKEY_ERR_SHAPE, None)
        else (FZN_PREKEY_OK, Some \<lparr>pr_bytes = Some b, pr_host = Some (bytes_at 2 FZN_PUBKEY_LEN b),
          pr_prekey = Some (bytes_at 34 FZN_PREKEY_LEN b), pr_created_at = fzn_get_be64 (bytes_at 66 8 b)\<rparr>))"

definition fzn_prekey_verify :: "fzn_prekey_record \<Rightarrow> fzn_sign_ops option \<Rightarrow> fzn_prekey_err" where
  "fzn_prekey_verify record verifier =
     (if pr_bytes record = None \<or> pr_host record = None then FZN_PREKEY_ERR_MALFORMED
      else if verifier = None \<or> so_verify (the verifier) = None then FZN_PREKEY_ERR_SIGNER
      else if \<not> the (so_verify (the verifier)) (the (pr_host record)) (take FZN_PREKEY_BODY_LEN (the (pr_bytes record)))
            (bytes_at 74 FZN_SIG_LEN (the (pr_bytes record))) then FZN_PREKEY_ERR_SIGNATURE
      else FZN_PREKEY_OK)"

definition fzn_prekey_peer_init :: "fzn_prekey_peer option \<Rightarrow> fzn_prekey_peer option" where
  "fzn_prekey_peer_init peer =
     (case peer of None \<Rightarrow> None
      | Some p \<Rightarrow> Some \<lparr>pp_trust = the (fzn_trust_init (Some (pp_trust p))), pp_prekey = replicate FZN_PREKEY_LEN 0, pp_created_at = 0\<rparr>)"

definition fzn_prekey_pin :: "fzn_prekey_peer option \<Rightarrow> fzn_prekey_record \<Rightarrow> fzn_sign_ops option \<Rightarrow> fzn_trust_source \<Rightarrow> u64 \<Rightarrow>
    fzn_prekey_err \<times> fzn_prekey_peer option" where
  "fzn_prekey_pin peer record verifier source now =
     (if peer = None \<or> pr_bytes record = None \<or> pr_host record = None \<or> pr_prekey record = None then (FZN_PREKEY_ERR_MALFORMED, peer)
      else if source \<noteq> FZN_TRUST_PINNED \<and> source \<noteq> FZN_TRUST_ADOPTED then (FZN_PREKEY_ERR_MALFORMED, peer)
      else let err = fzn_prekey_verify record verifier; p = the peer; host = pr_host record; prekey = the (pr_prekey record) in
        if err \<noteq> FZN_PREKEY_OK then (err, peer)
        else (case fzn_trust_root (Some (pp_trust p)) of
            None \<Rightarrow>
              let (terr, trust) = (if source = FZN_TRUST_PINNED then fzn_trust_pin (Some (pp_trust p)) host
                                   else fzn_trust_adopt (Some (pp_trust p)) host now)
              in if terr \<noteq> FZN_TRUST_OK then (FZN_PREKEY_ERR_MALFORMED, Some (p\<lparr>pp_trust := the trust\<rparr>))
                 else (FZN_PREKEY_OK, Some (p\<lparr>pp_trust := the trust, pp_prekey := prekey, pp_created_at := pr_created_at record\<rparr>))
          | Some root \<Rightarrow>
              if \<not> fzn_ct_memeq (Some root) host FZN_PUBKEY_LEN then (FZN_PREKEY_ERR_WRONG_HOST, peer)
              else if fzn_ct_memeq (Some (pp_prekey p)) (Some prekey) FZN_PREKEY_LEN \<and> pr_created_at record = pp_created_at p then (FZN_PREKEY_OK, peer)
              else if pr_created_at record \<le> pp_created_at p then (FZN_PREKEY_ERR_ROLLBACK, peer)
              else (FZN_PREKEY_OK, Some (p\<lparr>pp_prekey := prekey, pp_created_at := pr_created_at record\<rparr>))))"

definition fzn_prekey_err_str :: "fzn_prekey_err \<Rightarrow> string" where
  "fzn_prekey_err_str err =
     (case err of FZN_PREKEY_OK \<Rightarrow> ''ok'' | FZN_PREKEY_ERR_MALFORMED \<Rightarrow> ''malformed argument'' | FZN_PREKEY_ERR_SHAPE \<Rightarrow> ''not a prekey record''
      | FZN_PREKEY_ERR_SIGNATURE \<Rightarrow> ''self-signature does not verify'' | FZN_PREKEY_ERR_SIGNER \<Rightarrow> ''signer or verifier refused or absent''
      | FZN_PREKEY_ERR_ROLLBACK \<Rightarrow> ''an older prekey for a host already pinned'' | FZN_PREKEY_ERR_WRONG_HOST \<Rightarrow> ''a different host than the one pinned'')"

section \<open>What a record says\<close>

lemma prekey_fields:
  fixes created_at :: u64
  assumes "length host = FZN_PUBKEY_LEN" and "length prekey = FZN_PREKEY_LEN" and "length sig = FZN_SIG_LEN"
  defines "b \<equiv> prekey_body host prekey created_at @ sig"
  shows "length b = FZN_PREKEY_LEN_TOTAL" and "b ! 0 = FZN_SIGNED_VERSION" and "b ! 1 = FZN_OBJECT_PREKEY" and "bytes_at 2 FZN_PUBKEY_LEN b = host"
    and "bytes_at 34 FZN_PREKEY_LEN b = prekey" and "bytes_at 66 8 b = fzn_put_be64 created_at"
    and "take FZN_PREKEY_BODY_LEN b = prekey_body host prekey created_at" and "bytes_at 74 FZN_SIG_LEN b = sig"
  using assms(1-3) unfolding b_def by (simp_all add: prekey_body_def bytes_at_def)

text \<open>
  A record that was issued opens, verifies under the host's own key and says what it was issued with;
  nothing of another length or with another tag opens.
\<close>

theorem prekey_round_trip:
  assumes "length host = FZN_PUBKEY_LEN" and "length prekey = FZN_PREKEY_LEN" and "length out = FZN_PREKEY_LEN_TOTAL"
    and "so_sign sign = Some do_sign" and "so_verify sign = Some verify" and "signs_for verify do_sign host"
    and "fzn_prekey_issue (Some host) (Some prekey) created_at (Some sign) (Some out) = (FZN_PREKEY_OK, Some b)"
  shows "\<exists>r. fzn_prekey_open (Some b) = (FZN_PREKEY_OK, Some r) \<and> fzn_prekey_verify r (Some sign) = FZN_PREKEY_OK \<and>
    pr_host r = Some host \<and> pr_prekey r = Some prekey \<and> pr_created_at r = created_at"
proof -
  obtain sig where sig: "do_sign (prekey_body host prekey created_at) = Some sig" and b: "b = put_at 0 (prekey_body host prekey created_at @ sig) out"
    using assms(4,7) by (auto simp: fzn_prekey_issue_def Let_def split: option.splits)
  have ver: "length sig = FZN_SIG_LEN" "verify host (prekey_body host prekey created_at) sig" using assms(6) sig by (auto simp: signs_for_def)
  note f = prekey_fields [OF assms(1,2) ver(1), of created_at]
  have "b = prekey_body host prekey created_at @ sig" unfolding b using f(1) assms(3) by (simp add: put_at_def)
  then show ?thesis using f ver(2) assms(5) by (simp add: fzn_prekey_open_def fzn_prekey_verify_def get_put_be64)
qed

section \<open>A peer over time\<close>

text \<open>What a peer receives: a record's bytes, how the host came to be known, and the time.\<close>

record offer =
  of_bytes :: bytes
  of_source :: fzn_trust_source
  of_now :: u64

definition receive :: "fzn_sign_ops \<Rightarrow> fzn_prekey_peer \<Rightarrow> offer \<Rightarrow> fzn_prekey_err \<times> fzn_prekey_peer" where
  "receive sign p e =
     (case fzn_prekey_open (Some (of_bytes e)) of
        (FZN_PREKEY_OK, Some r) \<Rightarrow> apsnd the (fzn_prekey_pin (Some p) r (Some sign) (of_source e) (of_now e))
      | (err, _) \<Rightarrow> (err, p))"

text \<open>
  What the peer is meant to keep: no host, or a host with its newest announcement.
\<close>

type_synonym pinned = "(key \<times> bytes \<times> u64) option"

definition says :: "offer \<Rightarrow> key \<times> bytes \<times> u64" where
  "says e = (bytes_at 2 FZN_PUBKEY_LEN (of_bytes e), bytes_at 34 FZN_PREKEY_LEN (of_bytes e), fzn_get_be64 (bytes_at 66 8 (of_bytes e)))"

definition genuine :: "fzn_sign_ops \<Rightarrow> offer \<Rightarrow> bool" where
  "genuine sign e \<longleftrightarrow> length (of_bytes e) = FZN_PREKEY_LEN_TOTAL \<and> of_bytes e ! 0 = FZN_SIGNED_VERSION \<and> of_bytes e ! 1 = FZN_OBJECT_PREKEY \<and>
     of_source e \<in> {FZN_TRUST_PINNED, FZN_TRUST_ADOPTED} \<and>
     (\<exists>verify. so_verify sign = Some verify \<and> verify (fst (says e)) (take FZN_PREKEY_BODY_LEN (of_bytes e)) (bytes_at 74 FZN_SIG_LEN (of_bytes e)))"

definition pinned_of :: "fzn_prekey_peer \<Rightarrow> pinned" where
  "pinned_of p = map_option (\<lambda>root. (root, pp_prekey p, pp_created_at p)) (fzn_trust_root (Some (pp_trust p)))"

definition acceptable :: "fzn_sign_ops \<Rightarrow> pinned \<Rightarrow> offer \<Rightarrow> bool" where
  "acceptable sign s e \<longleftrightarrow> genuine sign e \<and>
     (case s of None \<Rightarrow> fst (says e) \<noteq> replicate FZN_PUBKEY_LEN 0
      | Some (host, prekey, at) \<Rightarrow> fst (says e) = host \<and> (at < snd (snd (says e)) \<or> says e = (host, prekey, at)))"

definition peer_wf :: "fzn_prekey_peer \<Rightarrow> bool" where
  "peer_wf p \<longleftrightarrow> length (tr_root (pp_trust p)) = FZN_PUBKEY_LEN \<and> length (pp_prekey p) = FZN_PREKEY_LEN"

lemma open_says:
  assumes "length (of_bytes e) = FZN_PREKEY_LEN_TOTAL" and "of_bytes e ! 0 = FZN_SIGNED_VERSION" and "of_bytes e ! 1 = FZN_OBJECT_PREKEY"
  shows "fzn_prekey_open (Some (of_bytes e)) = (FZN_PREKEY_OK, Some \<lparr>pr_bytes = Some (of_bytes e), pr_host = Some (fst (says e)),
      pr_prekey = Some (fst (snd (says e))), pr_created_at = snd (snd (says e))\<rparr>)"
    and "length (fst (says e)) = FZN_PUBKEY_LEN" and "length (fst (snd (says e))) = FZN_PREKEY_LEN"
  using assms by (simp_all add: fzn_prekey_open_def says_def)

lemma first_pin:
  fixes now :: u64
  assumes "length host = FZN_PUBKEY_LEN" and "fzn_trust_root (Some t) = None" and "source \<in> {FZN_TRUST_PINNED, FZN_TRUST_ADOPTED}"
  defines "a \<equiv> (if source = FZN_TRUST_PINNED then fzn_trust_pin (Some t) (Some host) else fzn_trust_adopt (Some t) (Some host) now)"
  shows "if host = replicate FZN_PUBKEY_LEN 0 then a = (FZN_TRUST_ERR_MALFORMED, Some t)
    else \<exists>t'. a = (FZN_TRUST_OK, Some t') \<and> fzn_trust_root (Some t') = Some host \<and> tr_root t' = host"
  using assms(2,3) unfolding a_def fzn_trust_pin_def fzn_trust_adopt_def anchor_def Let_def option.sel root_nonzero [OF assms(1)]
  by (auto simp: fzn_trust_root_def split: if_splits)

lemma receive_refuses: "\<not> genuine sign e \<Longrightarrow> \<exists>err. receive sign p e = (err, p) \<and> err \<noteq> FZN_PREKEY_OK"
  by (auto simp: receive_def fzn_prekey_open_def fzn_prekey_pin_def genuine_def fzn_prekey_verify_def says_def Let_def)

lemma genuine_view:
  assumes "genuine sign e"
  defines "r \<equiv> \<lparr>pr_bytes = Some (of_bytes e), pr_host = Some (fst (says e)), pr_prekey = Some (fst (snd (says e))), pr_created_at = snd (snd (says e))\<rparr>"
  shows "receive sign p e = apsnd the (fzn_prekey_pin (Some p) r (Some sign) (of_source e) (of_now e))" and "fzn_prekey_verify r (Some sign) = FZN_PREKEY_OK"
    and "of_source e \<in> {FZN_TRUST_PINNED, FZN_TRUST_ADOPTED}" and "length (fst (says e)) = FZN_PUBKEY_LEN" and "length (fst (snd (says e))) = FZN_PREKEY_LEN"
proof -
  have o: "fzn_prekey_open (Some (of_bytes e)) = (FZN_PREKEY_OK, Some r)" unfolding r_def using assms(1) by (intro open_says) (simp_all add: genuine_def)
  then show "receive sign p e = apsnd the (fzn_prekey_pin (Some p) r (Some sign) (of_source e) (of_now e))" by (simp add: receive_def)
  show "fzn_prekey_verify r (Some sign) = FZN_PREKEY_OK" using assms(1) by (auto simp: r_def genuine_def fzn_prekey_verify_def)
  show "of_source e \<in> {FZN_TRUST_PINNED, FZN_TRUST_ADOPTED}" "length (fst (says e)) = FZN_PUBKEY_LEN" "length (fst (snd (says e))) = FZN_PREKEY_LEN"
    using assms(1) open_says(2,3) [of e] by (simp_all add: genuine_def)
qed

lemma receive_first:
  assumes "genuine sign e" and "fzn_trust_root (Some (pp_trust p)) = None"
  shows "if fst (says e) = replicate FZN_PUBKEY_LEN 0 then receive sign p e = (FZN_PREKEY_ERR_MALFORMED, p)
    else \<exists>t'. receive sign p e = (FZN_PREKEY_OK, p\<lparr>pp_trust := t', pp_prekey := fst (snd (says e)), pp_created_at := snd (snd (says e))\<rparr>) \<and>
      fzn_trust_root (Some t') = Some (fst (says e)) \<and> tr_root t' = fst (says e)"
proof -
  note v = genuine_view [OF assms(1)]
  show ?thesis using first_pin [OF v(4) assms(2) v(3), of "of_now e"] v(2,3) assms(2)
    unfolding v(1) fzn_prekey_pin_def by (auto simp: Let_def split: if_splits)
qed

lemma receive_later:
  assumes "genuine sign e" and "fzn_trust_root (Some (pp_trust p)) = Some root" and "peer_wf p"
  shows "receive sign p e =
    (if root \<noteq> fst (says e) then (FZN_PREKEY_ERR_WRONG_HOST, p)
     else if pp_prekey p = fst (snd (says e)) \<and> snd (snd (says e)) = pp_created_at p then (FZN_PREKEY_OK, p)
     else if snd (snd (says e)) \<le> pp_created_at p then (FZN_PREKEY_ERR_ROLLBACK, p)
     else (FZN_PREKEY_OK, p\<lparr>pp_prekey := fst (snd (says e)), pp_created_at := snd (snd (says e))\<rparr>))"
proof -
  note v = genuine_view [OF assms(1)]
  have root: "root = tr_root (pp_trust p)" using assms(2) by (simp add: fzn_trust_root_def split: if_splits)
  have eq: "fzn_ct_memeq (Some a) (Some b) FZN_PUBKEY_LEN \<longleftrightarrow> a = b" if "length a = FZN_PUBKEY_LEN" "length b = FZN_PUBKEY_LEN" for a b
    using that by (simp add: ct_memeq_prefix)
  have len: "length root = FZN_PUBKEY_LEN" "length (pp_prekey p) = FZN_PREKEY_LEN" using assms(3) root by (simp_all add: peer_wf_def)
  show ?thesis unfolding v(1) fzn_prekey_pin_def Let_def v(2) using v(3) by (auto simp: v(2,4,5) assms(2) eq len)
qed

lemma receive_refines:
  assumes "peer_wf p"
  shows "peer_wf (snd (receive sign p e))"
    and "fst (receive sign p e) = FZN_PREKEY_OK \<longleftrightarrow> acceptable sign (pinned_of p) e"
    and "pinned_of (snd (receive sign p e)) = (if acceptable sign (pinned_of p) e then Some (says e) else pinned_of p)"
proof -
  have "peer_wf (snd (receive sign p e)) \<and> (fst (receive sign p e) = FZN_PREKEY_OK \<longleftrightarrow> acceptable sign (pinned_of p) e) \<and>
    pinned_of (snd (receive sign p e)) = (if acceptable sign (pinned_of p) e then Some (says e) else pinned_of p)"
  proof (cases "genuine sign e")
    case False
    then show ?thesis using receive_refuses [OF False, of p] assms by (auto simp: acceptable_def)
  next
    case g: True
    note len = genuine_view(4,5) [OF g]
    show ?thesis
    proof (cases "fzn_trust_root (Some (pp_trust p))")
      case None
      then have none: "pinned_of p = None" by (simp add: pinned_of_def)
      show ?thesis
      proof (cases "fst (says e) = replicate FZN_PUBKEY_LEN 0")
        case True
        then show ?thesis using receive_first [OF g None, unfolded if_P [OF True]] assms none by (simp add: acceptable_def)
      next
        case False
        from receive_first [OF g None, unfolded if_not_P [OF False]] show ?thesis
          using False g len none by (auto simp: acceptable_def pinned_of_def peer_wf_def)
      qed
    next
      case (Some root)
      then have held: "pinned_of p = Some (root, pp_prekey p, pp_created_at p)" by (simp add: pinned_of_def)
      obtain host prekey at where says: "says e = (host, prekey, at)" by (cases "says e")
      show ?thesis unfolding receive_later [OF g Some assms] held acceptable_def says
        using g Some assms len says by (auto simp: pinned_of_def peer_wf_def)
    qed
  qed
  then show "peer_wf (snd (receive sign p e))"
    and "fst (receive sign p e) = FZN_PREKEY_OK \<longleftrightarrow> acceptable sign (pinned_of p) e"
    and "pinned_of (snd (receive sign p e)) = (if acceptable sign (pinned_of p) e then Some (says e) else pinned_of p)" by blast+
qed

interpretation peers: invariant_machine "receive sign" peer_wf for sign
  by unfold_locales (rule receive_refines(1))

lemma fresh_peer: "peer_wf (the (fzn_prekey_peer_init (Some p)))" "pinned_of (the (fzn_prekey_peer_init (Some p))) = None"
  by (simp_all add: fzn_prekey_peer_init_def fzn_trust_init_def peer_wf_def pinned_of_def fzn_trust_root_def)

text \<open>The newest announcement among those accepted; of two with one time the same was said twice.\<close>

definition newest :: "(offer \<times> fzn_prekey_err) list \<Rightarrow> pinned \<Rightarrow> bool" where
  "newest tr s \<longleftrightarrow>
     (case s of None \<Rightarrow> FZN_PREKEY_OK \<notin> snd ` set tr
      | Some (host, prekey, at) \<Rightarrow> (\<exists>(e, err) \<in> set tr. err = FZN_PREKEY_OK \<and> says e = (host, prekey, at)) \<and>
          (\<forall>(e, err) \<in> set tr. err = FZN_PREKEY_OK \<longrightarrow> fst (says e) = host \<and> (snd (snd (says e)) < at \<or> says e = (host, prekey, at))))"

lemma newest_snoc:
  assumes "newest tr s" and "ok \<longleftrightarrow> acceptable sign s e" and "err = FZN_PREKEY_OK \<longleftrightarrow> ok"
  shows "newest (tr @ [(e, err)]) (if ok then Some (says e) else s)"
proof (cases ok)
  case True
  then have ok: "err = FZN_PREKEY_OK" "acceptable sign s e" using assms by simp_all
  show ?thesis
  proof (cases s)
    case None
    then have "\<forall>(e', err') \<in> set tr. err' \<noteq> FZN_PREKEY_OK" using assms(1) by (force simp: newest_def)
    then show ?thesis using True ok by (cases "says e") (auto simp: newest_def)
  next
    case (Some held)
    obtain host prekey at where held: "held = (host, prekey, at)" by (cases held)
    obtain k c where e: "says e = (host, k, c)" "at < c \<or> k = prekey \<and> c = at"
      using ok(2) Some held by (cases "says e") (auto simp: acceptable_def)
    have forward: "x < c \<or> w = (host, k, c)" if "at < c \<or> k = prekey \<and> c = at" "x < at \<or> w = (host, prekey, at)" "x = snd (snd w)" for x w
      using that by auto
    have "\<forall>(e', err') \<in> set tr. err' = FZN_PREKEY_OK \<longrightarrow> fst (says e') = host \<and> (snd (snd (says e')) < at \<or> says e' = (host, prekey, at))"
      using assms(1) Some held by (simp add: newest_def)
    then have "\<forall>(e', err') \<in> set tr. err' = FZN_PREKEY_OK \<longrightarrow> fst (says e') = host \<and> (snd (snd (says e')) < c \<or> says e' = (host, k, c))"
      using forward [OF e(2) _ refl] by (simp add: case_prod_beta)
    then show ?thesis using True ok(1) e(1) by (auto simp: newest_def)
  qed
next
  case False
  then show ?thesis using assms by (auto simp: newest_def split: option.splits)
qed

lemma peer_run_newest:
  assumes "peer_wf p" and "pinned_of p = None"
  shows "newest (trace (receive sign) p es) (pinned_of (final (receive sign) p es))"
proof (induction es rule: rev_induct)
  case Nil
  then show ?case using assms(2) by (simp add: newest_def)
next
  case (snoc e es)
  let ?q = "final (receive sign) p es"
  note r = receive_refines [OF peers.run_invar [OF assms(1), of sign es], of sign e]
  have tr: "trace (receive sign) p (es @ [e]) = trace (receive sign) p es @ [(e, fst (receive sign ?q e))]"
    "final (receive sign) p (es @ [e]) = snd (receive sign ?q e)" by (simp_all add: run_append split_beta)
  show ?case unfolding tr r(3) using newest_snoc [OF snoc refl, of "fst (receive sign ?q e)" sign e] r(2) by simp
qed

text \<open>
  C37. A pinned peer never goes back. From a fresh peer on, whatever records arrive, genuine, forged, replayed or
  malformed: what is held is the newest announcement among those accepted, all of one host, and every
  offer is accepted exactly when its host signed it and it either names the first host, other than the
  zero key, or rotates the held one strictly forwards or repeats it; a refused offer changes nothing that is held.
\<close>

theorem prekey_never_rolls_back:
  fixes sign :: fzn_sign_ops and es :: "offer list" and p0 :: fzn_prekey_peer
  defines "p \<equiv> the (fzn_prekey_peer_init (Some p0))"
  shows "newest (trace (receive sign) p es) (pinned_of (final (receive sign) p es)) \<and>
    (fst (receive sign (final (receive sign) p es) e) = FZN_PREKEY_OK \<longleftrightarrow> acceptable sign (pinned_of (final (receive sign) p es)) e) \<and>
    pinned_of (snd (receive sign (final (receive sign) p es) e)) =
      (if acceptable sign (pinned_of (final (receive sign) p es)) e then Some (says e) else pinned_of (final (receive sign) p es))"
  unfolding p_def using peer_run_newest [OF fresh_peer] receive_refines(2,3) [OF peers.run_invar [OF fresh_peer(1)]] by simp

section \<open>Witnesses\<close>

theorem prekey_round_trip_witness:
  "\<exists>b r. fzn_prekey_issue (Some (replicate 32 1)) (Some (replicate 32 2)) 5 (Some record_signer) (Some (replicate 138 0)) = (FZN_PREKEY_OK, Some b) \<and>
    fzn_prekey_open (Some b) = (FZN_PREKEY_OK, Some r) \<and> fzn_prekey_verify r (Some record_signer) = FZN_PREKEY_OK \<and> pr_created_at r = 5"
proof -
  let ?i = "fzn_prekey_issue (Some (replicate 32 1)) (Some (replicate 32 2)) 5 (Some record_signer) (Some (replicate 138 0))"
  have "fst ?i = FZN_PREKEY_OK \<and> snd ?i \<noteq> None" by code_simp
  then obtain b where b: "?i = (FZN_PREKEY_OK, Some b)" by (metis option.exhaust_sel prod.collapse)
  from prekey_round_trip [OF _ _ _ _ _ _ b, of "\<lambda>m. Some (replicate 64 7)" "\<lambda>k m sig. sig = replicate 64 7"] b
  show ?thesis by (auto simp: record_signer_def signs_for_def)
qed

definition demo_offer :: "u8 \<Rightarrow> u64 \<Rightarrow> offer" where
  "demo_offer k at = \<lparr>of_bytes = prekey_body (replicate 32 1) (replicate 32 k) at @ replicate 64 7, of_source = FZN_TRUST_ADOPTED, of_now = 9\<rparr>"

definition demo_peer :: fzn_prekey_peer where
  "demo_peer = the (fzn_prekey_peer_init (Some \<lparr>pp_trust = \<lparr>tr_root = [], tr_adopted_at = 0, tr_source = FZN_TRUST_NONE\<rparr>, pp_prekey = [], pp_created_at = 0\<rparr>))"

theorem prekey_never_rolls_back_witness:
  "newest (trace (receive record_signer) demo_peer [demo_offer 2 5, demo_offer 3 6, demo_offer 2 5]) (Some (replicate 32 1, replicate 32 3, 6)) \<and>
    map snd (trace (receive record_signer) demo_peer [demo_offer 2 5, demo_offer 3 6, demo_offer 2 5]) = [FZN_PREKEY_OK, FZN_PREKEY_OK, FZN_PREKEY_ERR_ROLLBACK]"
proof -
  let ?es = "[demo_offer 2 5, demo_offer 3 6, demo_offer 2 5]"
  have "pinned_of (final (receive record_signer) demo_peer ?es) = Some (replicate 32 1, replicate 32 3, 6)" by code_simp
  moreover have "map snd (trace (receive record_signer) demo_peer ?es) = [FZN_PREKEY_OK, FZN_PREKEY_OK, FZN_PREKEY_ERR_ROLLBACK]" by code_simp
  ultimately show ?thesis using prekey_never_rolls_back [of record_signer _ ?es, folded demo_peer_def] by (metis demo_peer_def)
qed

end
