(* ===== verification/Disclose.thy ===== *)
theory Disclose
  imports Blob_Proof
begin

text \<open>
  Selective disclosure (\<open>disclose/disclose.c\<close>): fields committed under a salt as the leaves of a hash tree, so
  that one can be shown and proved without the others. The tree and its proofs are those of
  \<open>blob/blob.c\<close>; the source of randomness and the hash are parameters.
\<close>

section \<open>The model\<close>

datatype fzn_disclose_err = FZN_DISCLOSE_OK | FZN_DISCLOSE_ERR_MALFORMED | FZN_DISCLOSE_ERR_SHAPE | FZN_DISCLOSE_ERR_NO_SALT
  | FZN_DISCLOSE_ERR_HASH | FZN_DISCLOSE_ERR_PROOF

abbreviation FZN_DISCLOSE_SALT_LEN :: nat where "FZN_DISCLOSE_SALT_LEN \<equiv> 16"
abbreviation FZN_DISCLOSE_MAX_FIELD :: nat where "FZN_DISCLOSE_MAX_FIELD \<equiv> 256"
abbreviation FZN_DISCLOSE_MAX_LEN :: nat where "FZN_DISCLOSE_MAX_LEN \<equiv> FZN_DISCLOSE_SALT_LEN + FZN_DISCLOSE_MAX_FIELD"

definition fzn_disclose_commit :: "fzn_random_ops option \<Rightarrow> bytes option \<Rightarrow> nat \<Rightarrow> bytes option \<Rightarrow> nat \<Rightarrow> fzn_disclose_err \<times> bytes option \<times> nat option" where
  "fzn_disclose_commit rng field field_len out out_cap =
     (if out = None then (FZN_DISCLOSE_ERR_MALFORMED, out, None)
      else if field = None \<and> field_len \<noteq> 0 then (FZN_DISCLOSE_ERR_MALFORMED, out, None)
      else if field_len > FZN_DISCLOSE_MAX_FIELD then (FZN_DISCLOSE_ERR_MALFORMED, out, None)
      else if out_cap < FZN_DISCLOSE_SALT_LEN + field_len then (FZN_DISCLOSE_ERR_MALFORMED, out, None)
      else (case rng of
          Some (Some fill) \<Rightarrow>
            (case fill FZN_DISCLOSE_SALT_LEN of
               None \<Rightarrow> (FZN_DISCLOSE_ERR_NO_SALT, out, None)
             | Some salt \<Rightarrow>
                 (FZN_DISCLOSE_OK, Some (put_at 0 (salt @ (if field_len \<noteq> 0 then take field_len (the field) else [])) (the out)),
                  Some (FZN_DISCLOSE_SALT_LEN + field_len)))
        | _ \<Rightarrow> (FZN_DISCLOSE_ERR_NO_SALT, out, None)))"

definition committed_shape :: "bytes option \<Rightarrow> bool" where
  "committed_shape committed =
     (case committed of None \<Rightarrow> False
      | Some c \<Rightarrow> if length c < FZN_DISCLOSE_SALT_LEN then False else length c \<le> FZN_DISCLOSE_MAX_LEN)"

definition fzn_disclose_leaf :: "hash_ops \<Rightarrow> bytes option \<Rightarrow> fzn_disclose_err \<times> bytes option" where
  "fzn_disclose_leaf hash committed =
     (if hash = None \<or> the hash = None then (FZN_DISCLOSE_ERR_HASH, None)
      else if \<not> committed_shape committed then (FZN_DISCLOSE_ERR_SHAPE, None)
      else (case fzn_blob_leaf_hash hash committed of
          (FZN_BLOB_OK, Some d) \<Rightarrow> (FZN_DISCLOSE_OK, Some d) | _ \<Rightarrow> (FZN_DISCLOSE_ERR_HASH, None)))"

definition fzn_disclose_field :: "bytes option \<Rightarrow> fzn_disclose_err \<times> bytes option" where
  "fzn_disclose_field committed =
     (if \<not> committed_shape committed then (FZN_DISCLOSE_ERR_SHAPE, None)
      else (FZN_DISCLOSE_OK, Some (drop FZN_DISCLOSE_SALT_LEN (the committed))))"

text \<open>The error \<open>None\<close> is the call through an absent hash that the verifier of leaves may make.\<close>

definition fzn_disclose_verify :: "hash_ops \<Rightarrow> bytes option \<Rightarrow> nat \<Rightarrow> nat \<Rightarrow> bytes list option \<Rightarrow> nat \<Rightarrow> bytes option \<Rightarrow>
    fzn_disclose_err option \<times> bytes option" where
  "fzn_disclose_verify hash committed index field_count siblings sibling_count root =
     (if root = None then (Some FZN_DISCLOSE_ERR_MALFORMED, None)
      else (case fzn_disclose_leaf hash committed of
          (FZN_DISCLOSE_OK, leaf) \<Rightarrow>
            (case fzn_blob_proof_verify hash leaf index field_count siblings sibling_count root of
               None \<Rightarrow> (None, None)
             | Some FZN_BLOB_OK \<Rightarrow> apfst Some (fzn_disclose_field committed)
             | Some _ \<Rightarrow> (Some FZN_DISCLOSE_ERR_PROOF, None))
        | (err, _) \<Rightarrow> (Some err, None)))"

definition fzn_disclose_err_str :: "fzn_disclose_err \<Rightarrow> string" where
  "fzn_disclose_err_str err =
     (case err of FZN_DISCLOSE_OK \<Rightarrow> ''ok'' | FZN_DISCLOSE_ERR_MALFORMED \<Rightarrow> ''malformed argument'' | FZN_DISCLOSE_ERR_SHAPE \<Rightarrow> ''not a committed field''
      | FZN_DISCLOSE_ERR_NO_SALT \<Rightarrow> ''no entropy for a salt'' | FZN_DISCLOSE_ERR_HASH \<Rightarrow> ''hash refused or absent''
      | FZN_DISCLOSE_ERR_PROOF \<Rightarrow> ''the field is not in that root'')"

section \<open>What is disclosed\<close>

abbreviation leaf_input :: "bytes \<Rightarrow> bytes" where "leaf_input c \<equiv> FZN_BLOB_LEAF_PREFIX # c"

definition field_leaf :: "fzn_hash_fn \<Rightarrow> bytes \<Rightarrow> bytes" where
  "field_leaf h c = the (h FZN_BLOB_HASH_LEN (leaf_input c))"

lemma leaf_of_field:
  assumes "hash_total h" and "committed_shape (Some c)"
  shows "fzn_disclose_leaf (Some (Some h)) (Some c) = (FZN_DISCLOSE_OK, Some (field_leaf h c))" and "length (field_leaf h c) = FZN_BLOB_HASH_LEN"
proof -
  obtain d where d: "h FZN_BLOB_HASH_LEN (leaf_input c) = Some d" using assms(1) unfolding hash_total_def by blast
  show "fzn_disclose_leaf (Some (Some h)) (Some c) = (FZN_DISCLOSE_OK, Some (field_leaf h c))"
    using assms(2) d by (auto simp: fzn_disclose_leaf_def fzn_blob_leaf_hash_def field_leaf_def committed_shape_def split: if_splits)
  show "length (field_leaf h c) = FZN_BLOB_HASH_LEN" unfolding field_leaf_def by (rule length_hash [OF assms(1)])
qed

text \<open>The answer is the field exactly when the tree's verifier accepts the leaf.\<close>

lemma disclose_verify_iff:
  assumes "hash_total h"
  shows "fst (fzn_disclose_verify (Some (Some h)) (Some c) i m (Some ss) n (Some root)) = Some FZN_DISCLOSE_OK \<longleftrightarrow>
      committed_shape (Some c) \<and> fzn_blob_proof_verify (Some (Some h)) (Some (field_leaf h c)) i m (Some ss) n (Some root) = Some FZN_BLOB_OK"
    and "snd (fzn_disclose_verify (Some (Some h)) (Some c) i m (Some ss) n (Some root)) =
      (if fst (fzn_disclose_verify (Some (Some h)) (Some c) i m (Some ss) n (Some root)) = Some FZN_DISCLOSE_OK
       then Some (drop FZN_DISCLOSE_SALT_LEN c) else None)"
proof -
  show "fst (fzn_disclose_verify (Some (Some h)) (Some c) i m (Some ss) n (Some root)) = Some FZN_DISCLOSE_OK \<longleftrightarrow>
      committed_shape (Some c) \<and> fzn_blob_proof_verify (Some (Some h)) (Some (field_leaf h c)) i m (Some ss) n (Some root) = Some FZN_BLOB_OK"
  proof (cases "committed_shape (Some c)")
    case True
    then show ?thesis using leaf_of_field [OF assms True]
      by (auto simp: fzn_disclose_verify_def fzn_disclose_field_def split: option.splits fzn_blob_err.splits)
  qed (simp add: fzn_disclose_verify_def fzn_disclose_leaf_def)
  show "snd (fzn_disclose_verify (Some (Some h)) (Some c) i m (Some ss) n (Some root)) =
      (if fst (fzn_disclose_verify (Some (Some h)) (Some c) i m (Some ss) n (Some root)) = Some FZN_DISCLOSE_OK
       then Some (drop FZN_DISCLOSE_SALT_LEN c) else None)"
    by (auto simp: fzn_disclose_verify_def fzn_disclose_field_def split: option.splits fzn_blob_err.splits prod.splits fzn_disclose_err.splits if_splits)
qed

text \<open>
  C38. A field can be shown alone. For the root over a list of committed fields: with the siblings the
  builder delivers, every field is accepted and what the verifier hands out is the field without its salt; and whatever
  is accepted, with any siblings, is a committed field of the list at that place, or what was handed in exhibits a
  collision of the hash.
\<close>

theorem disclosure_exact:
  assumes "hash_total h" and "cs \<noteq> []" and "length cs \<le> FZN_BLOB_MAX_LEAVES" and "\<forall>c \<in> set cs. committed_shape (Some c)"
    and "\<forall>s \<in> set ss. length s = FZN_BLOB_HASH_LEN"
  defines "xs \<equiv> map (field_leaf h) cs"
  shows "(\<forall>i < length cs. \<exists>sibs. fzn_blob_proof_build (Some (Some h)) (Some xs) (length cs) i (FZN_BLOB_MAX_DEPTH * FZN_BLOB_HASH_LEN) = (FZN_BLOB_OK, sibs) \<and>
      fzn_disclose_verify (Some (Some h)) (Some (cs ! i)) i (length cs) (Some sibs) (length sibs) (Some (blob_root h xs)) =
        (Some FZN_DISCLOSE_OK, Some (drop FZN_DISCLOSE_SALT_LEN (cs ! i)))) \<and>
    (\<forall>field. fzn_disclose_verify (Some (Some h)) (Some c) i m (Some ss) (length ss) (Some (blob_root h xs)) = (Some FZN_DISCLOSE_OK, Some field) \<longrightarrow>
      m = length cs \<and> i < length cs \<and> c = cs ! i \<and> field = drop FZN_DISCLOSE_SALT_LEN (cs ! i) \<or>
      collision h (leaf_input c # claim_inputs h m (snd (path_loop i 0 m [])) ss (field_leaf h c)) (map leaf_input cs @ blob_inputs h xs))"
proof (intro conjI allI impI)
  have xs: "xs \<noteq> []" "length xs = length cs" "\<forall>x \<in> set xs. length x = FZN_BLOB_HASH_LEN"
    using assms(2,4) leaf_of_field(2) [OF assms(1)] by (auto simp: xs_def)
  {
    fix i
    assume i: "i < length cs"
    then obtain sibs where sibs: "fzn_blob_proof_build (Some (Some h)) (Some xs) (length xs) i (FZN_BLOB_MAX_DEPTH * FZN_BLOB_HASH_LEN) = (FZN_BLOB_OK, sibs)"
        "fzn_blob_proof_verify (Some (Some h)) (Some (xs ! i)) i (length xs) (Some sibs) (length sibs) (Some (blob_root h xs)) = Some FZN_BLOB_OK"
      using leaf_proof_accepted [OF assms(1) xs(1) _ order_refl, of i] assms(3) xs(2) by auto
    have "xs ! i = field_leaf h (cs ! i)" "committed_shape (Some (cs ! i))" using i assms(4) by (simp_all add: xs_def)
    then show "\<exists>sibs. fzn_blob_proof_build (Some (Some h)) (Some xs) (length cs) i (FZN_BLOB_MAX_DEPTH * FZN_BLOB_HASH_LEN) = (FZN_BLOB_OK, sibs) \<and>
      fzn_disclose_verify (Some (Some h)) (Some (cs ! i)) i (length cs) (Some sibs) (length sibs) (Some (blob_root h xs)) =
        (Some FZN_DISCLOSE_OK, Some (drop FZN_DISCLOSE_SALT_LEN (cs ! i)))"
      using sibs disclose_verify_iff [OF assms(1), of "cs ! i" i "length cs" sibs "length sibs" "blob_root h xs"] xs(2)
      by (intro exI [of _ sibs]) (simp add: prod_eq_iff)
  }
  fix field
  assume v: "fzn_disclose_verify (Some (Some h)) (Some c) i m (Some ss) (length ss) (Some (blob_root h xs)) = (Some FZN_DISCLOSE_OK, Some field)"
  note d = disclose_verify_iff [OF assms(1), of c i m ss "length ss" "blob_root h xs", unfolded v fst_conv snd_conv]
  have ok: "committed_shape (Some c)" "field = drop FZN_DISCLOSE_SALT_LEN c"
    "fzn_blob_proof_verify (Some (Some h)) (Some (field_leaf h c)) i m (Some ss) (length ss) (Some (blob_root h xs)) = Some FZN_BLOB_OK"
    using d by simp_all
  from accepted_leaf [OF assms(1) xs(3,1) _ assms(5) leaf_of_field(2) [OF assms(1) ok(1)] ok(3)] assms(3) xs(2)
  consider "m = length cs" "i < length cs" "field_leaf h c = xs ! i"
    | "collision h (claim_inputs h m (snd (path_loop i 0 m [])) ss (field_leaf h c)) (blob_inputs h xs)" by auto
  then show "m = length cs \<and> i < length cs \<and> c = cs ! i \<and> field = drop FZN_DISCLOSE_SALT_LEN (cs ! i) \<or>
      collision h (leaf_input c # claim_inputs h m (snd (path_loop i 0 m [])) ss (field_leaf h c)) (map leaf_input cs @ blob_inputs h xs)"
  proof cases
    case 1
    then have "h FZN_BLOB_HASH_LEN (leaf_input c) = h FZN_BLOB_HASH_LEN (leaf_input (cs ! i))"
      using assms(1) unfolding xs_def field_leaf_def hash_total_def by (metis nth_map option.sel)
    then have "c = cs ! i \<or> collision h [leaf_input c] (map leaf_input cs)" using 1(2) by (auto simp: collision_def)
    then show ?thesis using 1 ok(2) by (auto simp: collision_def)
  next
    case 2
    then show ?thesis by (auto simp: collision_def)
  qed
qed

text \<open>
  A commitment is a salt and the field, and the field comes back out of it; without a salt nothing is committed; and
  the verifier of fields never reaches an absent hash.
\<close>

theorem commit_round_trip:
  assumes "length f \<le> FZN_DISCLOSE_MAX_FIELD" and "FZN_DISCLOSE_SALT_LEN + length f \<le> cap" and "length out = cap"
    and "\<forall>salt. fill FZN_DISCLOSE_SALT_LEN = Some salt \<longrightarrow> length salt = FZN_DISCLOSE_SALT_LEN"
  shows "(case fzn_disclose_commit (Some (Some fill)) (Some f) (length f) (Some out) cap of
      (FZN_DISCLOSE_OK, Some out', Some n) \<Rightarrow> fzn_disclose_field (Some (take n out')) = (FZN_DISCLOSE_OK, Some f) \<and>
        fill FZN_DISCLOSE_SALT_LEN = Some (take FZN_DISCLOSE_SALT_LEN out') \<and> drop n out' = drop n out
    | (err, out', n) \<Rightarrow> err = FZN_DISCLOSE_ERR_NO_SALT \<and> fill FZN_DISCLOSE_SALT_LEN = None \<and> out' = Some out \<and> n = None) \<and>
    fst (fzn_disclose_verify (Some None) c i m ss k root) \<in> {Some FZN_DISCLOSE_ERR_MALFORMED, Some FZN_DISCLOSE_ERR_HASH}"
proof (cases "fill FZN_DISCLOSE_SALT_LEN")
  case None
  then show ?thesis using assms(1,2) by (auto simp: fzn_disclose_commit_def fzn_disclose_verify_def fzn_disclose_leaf_def)
next
  case (Some salt)
  then have "length salt = 16" using assms(4) by simp
  then show ?thesis using Some assms(1-3)
    by (auto simp: fzn_disclose_commit_def fzn_disclose_verify_def fzn_disclose_leaf_def fzn_disclose_field_def committed_shape_def put_at_def)
qed

section \<open>Witnesses\<close>

definition demo_fields :: "bytes list" where
  "demo_fields = [replicate 16 1 @ [7], replicate 16 2 @ [8, 8], replicate 16 3]"

theorem disclosure_exact_witness:
  "\<exists>sibs. fzn_disclose_verify (Some (Some demo_hash)) (Some (replicate 16 2 @ [8, 8])) 1 3 (Some sibs) (length sibs)
      (Some (blob_root demo_hash (map (field_leaf demo_hash) demo_fields))) = (Some FZN_DISCLOSE_OK, Some [8, 8])"
proof -
  have "demo_fields \<noteq> []" "length demo_fields \<le> FZN_BLOB_MAX_LEAVES" "\<forall>c \<in> set demo_fields. committed_shape (Some c)"
    by (simp_all add: demo_fields_def committed_shape_def)
  note d = disclosure_exact [OF demo_ratchet(1) this, of "[]", THEN conjunct1, rule_format, of 1]
  have f: "length demo_fields = 3" "demo_fields ! 1 = replicate 16 2 @ [8, 8]" by (simp_all add: demo_fields_def)
  from d [unfolded f] show ?thesis by auto
qed

theorem commit_round_trip_witness:
  "fzn_disclose_commit (Some (Some (\<lambda>n. Some (replicate n 9)))) (Some [7]) 1 (Some (replicate 20 0)) 20 =
      (FZN_DISCLOSE_OK, Some (replicate 16 9 @ [7, 0, 0, 0]), Some 17) \<and>
    fzn_disclose_field (Some (take 17 (replicate 16 9 @ [7, 0, 0, 0]))) = (FZN_DISCLOSE_OK, Some [7])"
proof -
  have c: "fzn_disclose_commit (Some (Some (\<lambda>n. Some (replicate n 9)))) (Some [7]) (length [7 :: u8]) (Some (replicate 20 0)) 20 =
      (FZN_DISCLOSE_OK, Some (replicate 16 9 @ [7, 0, 0, 0]), Some 17)" by code_simp
  from commit_round_trip [of "[7]" 20 "replicate 20 0" "\<lambda>n. Some (replicate n 9)", unfolded c] show ?thesis using c by simp
qed

end
