(* ===== verification/Exchange.thy ===== *)
theory Exchange
  imports Sync
begin

text \<open>
  Exchanging records (\<open>record/exchange.c\<close>): how a host pages a peer's digest in, pulls the ranges it lacks and
  pushes the ranges the peer lacks, and how it answers a peer that does. It is where signed records, the
  journal, the store and the plans of \<open>Sync\<close> meet. What the peer answers is a parameter, a function
  of a state of its own: nothing is assumed of it. Counters of the machine's address width that count
  records of this run are natural numbers.
\<close>

section \<open>The model\<close>

datatype fzn_exchange_err = FZN_EXCHANGE_OK | FZN_EXCHANGE_ERR_MALFORMED | FZN_EXCHANGE_ERR_NO_ANSWER | FZN_EXCHANGE_ERR_SHAPE
  | FZN_EXCHANGE_ERR_STORE

abbreviation FZN_EXCHANGE_VERSION :: u8 where "FZN_EXCHANGE_VERSION \<equiv> 5"
abbreviation FZN_EXCHANGE_DIGEST_QUERY_LEN :: nat where "FZN_EXCHANGE_DIGEST_QUERY_LEN \<equiv> 4"
abbreviation FZN_EXCHANGE_POSITION_LEN :: nat where "FZN_EXCHANGE_POSITION_LEN \<equiv> 44"
abbreviation FZN_EXCHANGE_DIGEST_HEAD_LEN :: nat where "FZN_EXCHANGE_DIGEST_HEAD_LEN \<equiv> 8"
abbreviation FZN_EXCHANGE_RECORDS_QUERY_LEN :: nat where "FZN_EXCHANGE_RECORDS_QUERY_LEN \<equiv> 48"
abbreviation FZN_EXCHANGE_RECORDS_HEAD_LEN :: nat where "FZN_EXCHANGE_RECORDS_HEAD_LEN \<equiv> 4"
abbreviation FZN_EXCHANGE_PUSH_HEAD_LEN :: nat where "FZN_EXCHANGE_PUSH_HEAD_LEN \<equiv> 4"
abbreviation FZN_EXCHANGE_PUSHED_LEN :: nat where "FZN_EXCHANGE_PUSHED_LEN \<equiv> 10"
abbreviation FZN_EXCHANGE_REPLY_MIN :: nat where "FZN_EXCHANGE_REPLY_MIN \<equiv> FZN_EXCHANGE_RECORDS_HEAD_LEN + 2 + FZN_RECORD_MAX_LEN"
abbreviation FZN_EXCHANGE_MISSED_MAX :: nat where "FZN_EXCHANGE_MISSED_MAX \<equiv> 8"

datatype fzn_exchange_type = FZN_EXCHANGE_DIGEST_QUERY | FZN_EXCHANGE_DIGEST | FZN_EXCHANGE_RECORDS_QUERY | FZN_EXCHANGE_RECORDS
  | FZN_EXCHANGE_PUSH | FZN_EXCHANGE_PUSHED

fun type_byte :: "fzn_exchange_type \<Rightarrow> u8" where
  "type_byte FZN_EXCHANGE_DIGEST_QUERY = 1" | "type_byte FZN_EXCHANGE_DIGEST = 2" | "type_byte FZN_EXCHANGE_RECORDS_QUERY = 3"
| "type_byte FZN_EXCHANGE_RECORDS = 4" | "type_byte FZN_EXCHANGE_PUSH = 5" | "type_byte FZN_EXCHANGE_PUSHED = 6"

definition fzn_exchange_err_str :: "fzn_exchange_err \<Rightarrow> string" where
  "fzn_exchange_err_str err =
     (case err of FZN_EXCHANGE_OK \<Rightarrow> ''ok'' | FZN_EXCHANGE_ERR_MALFORMED \<Rightarrow> ''malformed argument''
      | FZN_EXCHANGE_ERR_NO_ANSWER \<Rightarrow> ''the peer did not answer''
      | FZN_EXCHANGE_ERR_SHAPE \<Rightarrow> ''the peer'' @ [CHR 0x27] @ ''s answer is not a journal message''
      | FZN_EXCHANGE_ERR_STORE \<Rightarrow> ''a record was admitted and not kept'')"

definition is_message :: "bytes \<Rightarrow> fzn_exchange_type \<Rightarrow> bool" where
  "is_message m ty \<longleftrightarrow> length m \<ge> 2 \<and> m ! 0 = FZN_EXCHANGE_VERSION \<and> m ! 1 = type_byte ty"

text \<open>What a message is made of: a number in two bytes, a position, a record behind its length.\<close>

abbreviation num16 :: "nat \<Rightarrow> bytes" where "num16 n \<equiv> fzn_put_be16 (of_nat n)"
abbreviation num16_at :: "nat \<Rightarrow> bytes \<Rightarrow> nat" where "num16_at at m \<equiv> unat (fzn_get_be16 (bytes_at at 2 m))"

definition put_position :: "fzn_sync_position \<Rightarrow> bytes" where
  "put_position p = sp_issuer p @ fzn_put_be32 (sp_stream p) @ fzn_put_be64 (sp_received p)"

definition get_position :: "bytes \<Rightarrow> nat \<Rightarrow> fzn_sync_position" where
  "get_position reply at = \<lparr>sp_issuer = bytes_at at FZN_PUBKEY_LEN reply, sp_stream = fzn_get_be32 (bytes_at (at + 32) 4 reply),
     sp_received = fzn_get_be64 (bytes_at (at + 36) 8 reply)\<rparr>"

subsection \<open>Answering\<close>

text \<open>An answer of length 0 is \<open>None\<close>.\<close>

definition answer_digest :: "fzn_journal \<Rightarrow> bytes \<Rightarrow> nat \<Rightarrow> bytes option" where
  "answer_digest journal request reply_cap =
     (if length request \<noteq> FZN_EXCHANGE_DIGEST_QUERY_LEN \<or> reply_cap < FZN_EXCHANGE_DIGEST_HEAD_LEN then None
      else let held = fst (fzn_sync_digest (Some journal) FZN_SYNC_MAX_POSITIONS);
               start = min (num16_at 2 request) (length held);
               room = (reply_cap - FZN_EXCHANGE_DIGEST_HEAD_LEN) div FZN_EXCHANGE_POSITION_LEN;
               sent = take room (drop start held)
           in Some ([FZN_EXCHANGE_VERSION, type_byte FZN_EXCHANGE_DIGEST] @ num16 (length held) @ num16 start @ num16 (length sent) @
                    concat (map put_position sent)))"

text \<open>The first argument bounds how many records more may be sent.\<close>

fun answer_loop :: "nat \<Rightarrow> 'b fzn_record_store_ops \<Rightarrow> 'b \<Rightarrow> key \<Rightarrow> u32 \<Rightarrow> u64 \<Rightarrow> nat \<Rightarrow> u64 \<Rightarrow> bytes list \<Rightarrow> bytes list" where
  "answer_loop 0 store held issuer stream upto_seq room seq out = out"
| "answer_loop (Suc n) store held issuer stream upto_seq room seq out =
     (if upto_seq < seq then out
      else case fzn_record_store_get (Some store) held (Some issuer) stream seq FZN_RECORD_MAX_LEN of
          (FZN_RECORD_STORE_OK, Some rec) \<Rightarrow>
            if room < 2 + length rec then out
            else answer_loop n store held issuer stream upto_seq (room - (2 + length rec)) (seq + 1) (out @ [rec])
        | _ \<Rightarrow> out)"

definition framed :: "bytes \<Rightarrow> bytes" where
  "framed rec = num16 (length rec) @ rec"

definition answer_records :: "fzn_journal \<Rightarrow> 'b fzn_record_store_ops \<Rightarrow> 'b \<Rightarrow> bytes \<Rightarrow> nat \<Rightarrow> bytes option" where
  "answer_records journal store held request reply_cap =
     (if length request \<noteq> FZN_EXCHANGE_RECORDS_QUERY_LEN \<or> reply_cap < FZN_EXCHANGE_RECORDS_HEAD_LEN then None
      else let issuer = bytes_at 2 FZN_PUBKEY_LEN request; stream = fzn_get_be32 (bytes_at 34 4 request);
               start = fzn_get_be64 (bytes_at 38 8 request); most = num16_at 46 request in
        if start = 0 \<or> most = 0 then None
        else let upto_seq = fzn_journal_next (Some journal) (Some issuer) stream - 1;
                 sent = answer_loop (min most 0xffff) store held issuer stream upto_seq (reply_cap - FZN_EXCHANGE_RECORDS_HEAD_LEN) start []
             in Some ([FZN_EXCHANGE_VERSION, type_byte FZN_EXCHANGE_RECORDS] @ num16 (length sent) @ concat (map framed sent)))"

definition fzn_exchange_answer :: "fzn_journal option \<Rightarrow> 'b fzn_record_store_ops option \<Rightarrow> 'b \<Rightarrow> bytes option \<Rightarrow> nat \<Rightarrow> bytes option" where
  "fzn_exchange_answer journal store held request reply_cap =
     (if journal = None \<or> store = None \<or> request = None then None
      else if is_message (the request) FZN_EXCHANGE_DIGEST_QUERY then answer_digest (the journal) (the request) reply_cap
      else if is_message (the request) FZN_EXCHANGE_RECORDS_QUERY then answer_records (the journal) (the store) held (the request) reply_cap
      else None)"

subsection \<open>Pulling\<close>

record fzn_exchange_tally =
  ta_positions :: nat
  ta_requested :: nat
  ta_learned :: nat
  ta_refused :: nat
  ta_forks :: nat
  ta_missing :: nat
  ta_missed :: "(key \<times> u32) list"

text \<open>What one reply of records works on: the journal and the store, where in the range it is, and the tally.\<close>

record 'b taking =
  tk_journal :: fzn_journal
  tk_held :: 'b
  tk_next :: u64
  tk_left :: u64
  tk_tally :: fzn_exchange_tally

definition tally_missing :: "fzn_sync_request \<Rightarrow> fzn_exchange_tally \<Rightarrow> fzn_exchange_tally" where
  "tally_missing wanted t =
     t\<lparr>ta_missed := (if ta_missing t < FZN_EXCHANGE_MISSED_MAX then ta_missed t @ [(rq_issuer wanted, rq_stream wanted)] else ta_missed t),
       ta_missing := ta_missing t + 1\<rparr>"

abbreviation tally_refused :: "fzn_exchange_tally \<Rightarrow> fzn_exchange_tally" where "tally_refused t \<equiv> t\<lparr>ta_refused := ta_refused t + 1\<rparr>"
abbreviation tally_fork :: "fzn_exchange_tally \<Rightarrow> fzn_exchange_tally" where "tally_fork t \<equiv> t\<lparr>ta_forks := ta_forks t + 1\<rparr>"
abbreviation tally_learned :: "fzn_exchange_tally \<Rightarrow> fzn_exchange_tally" where "tally_learned t \<equiv> t\<lparr>ta_learned := ta_learned t + 1\<rparr>"

text \<open>The test of one record of a reply: the wanted one, signed by its issuer, with its hash.\<close>

definition wanted_record :: "fzn_sign_ops \<Rightarrow> fzn_hash_fn \<Rightarrow> fzn_sync_request \<Rightarrow> u64 \<Rightarrow> bytes \<Rightarrow> (bytes \<times> bytes) option" where
  "wanted_record sign hash wanted seq b =
     (case fzn_record_open (Some b) of
        (FZN_RECORD_OK, Some rec) \<Rightarrow>
          if fzn_record_issuer rec \<noteq> rq_issuer wanted \<or> fzn_record_stream rec \<noteq> rq_stream wanted \<or> fzn_record_seq rec \<noteq> seq \<or>
             fzn_record_verify (Some rec) (Some sign) \<noteq> FZN_RECORD_OK then None
          else (case hash FZN_RECORD_ID_LEN rec of None \<Rightarrow> None | Some rid \<Rightarrow> Some (rec, rid))
      | _ \<Rightarrow> None)"

datatype verdict = Stop fzn_exchange_err | Go_on

text \<open>One record that passed the test: admitted, kept, or the reason to stop.\<close>

definition take_one :: "'b fzn_record_store_ops \<Rightarrow> fzn_sync_request \<Rightarrow> bytes \<Rightarrow> bytes \<Rightarrow> 'b taking \<Rightarrow> verdict \<times> 'b taking" where
  "take_one store wanted rec rid s =
     (case fzn_journal_admit_chained (Some (tk_journal s)) (Some (rq_issuer wanted)) (rq_stream wanted) (tk_next s) (Some (fzn_record_prev rec)) (Some rid) of
        (jerr, j') \<Rightarrow>
          let s = s\<lparr>tk_journal := the j'\<rparr>;
              past = (\<lambda>s. let s = s\<lparr>tk_next := tk_next s + 1, tk_left := tk_left s - 1\<rparr>
                          in (if tk_left s = 0 then Stop FZN_EXCHANGE_OK else Go_on, s))
          in if jerr = FZN_JOURNAL_ERR_FORK then (Stop FZN_EXCHANGE_OK, s\<lparr>tk_tally := tally_fork (tk_tally s)\<rparr>)
             else if jerr = FZN_JOURNAL_OK then
               (case fzn_record_store_put (Some store) (tk_held s) (Some rec) of
                  (perr, held') \<Rightarrow>
                    let s = s\<lparr>tk_held := held'\<rparr> in
                    if perr \<noteq> FZN_RECORD_STORE_OK then (Stop FZN_EXCHANGE_ERR_STORE, s) else past (s\<lparr>tk_tally := tally_learned (tk_tally s)\<rparr>))
             else if jerr \<noteq> FZN_JOURNAL_ERR_DUPLICATE then (Stop FZN_EXCHANGE_OK, s\<lparr>tk_tally := tally_refused (tk_tally s)\<rparr>)
             else past s)"

text \<open>The loop over the records of a reply, of which as many are left as the first argument says.\<close>

fun take_loop :: "nat \<Rightarrow> 'b fzn_record_store_ops \<Rightarrow> fzn_sign_ops \<Rightarrow> fzn_hash_fn \<Rightarrow> fzn_sync_request \<Rightarrow> bytes \<Rightarrow> nat \<Rightarrow> 'b taking \<Rightarrow> verdict \<times> 'b taking" where
  "take_loop 0 store sign hash wanted reply at s = (Go_on, s)"
| "take_loop (Suc n) store sign hash wanted reply at s =
     (if length reply - at < 2 then (Stop FZN_EXCHANGE_ERR_SHAPE, s)
      else let len = num16_at at reply in
        if length reply - at - 2 < len then (Stop FZN_EXCHANGE_ERR_SHAPE, s)
        else case wanted_record sign hash wanted (tk_next s) (bytes_at (at + 2) len reply) of
            None \<Rightarrow> (Stop FZN_EXCHANGE_OK, s\<lparr>tk_tally := tally_refused (tk_tally s)\<rparr>)
          | Some (rec, rid) \<Rightarrow>
              (case take_one store wanted rec rid s of
                 (Go_on, s') \<Rightarrow> take_loop n store sign hash wanted reply (at + 2 + len) s'
               | (stop, s') \<Rightarrow> (stop, s')))"

definition take_records :: "'b fzn_record_store_ops \<Rightarrow> fzn_sign_ops \<Rightarrow> fzn_hash_fn \<Rightarrow> fzn_sync_request \<Rightarrow> bytes \<Rightarrow> 'b taking \<Rightarrow> verdict \<times> 'b taking" where
  "take_records store sign hash wanted reply s =
     (if \<not> is_message reply FZN_EXCHANGE_RECORDS \<or> length reply < FZN_EXCHANGE_RECORDS_HEAD_LEN then (Stop FZN_EXCHANGE_ERR_SHAPE, s)
      else let cnt = num16_at 2 reply in
        if cnt = 0 then (Stop FZN_EXCHANGE_OK, s\<lparr>tk_tally := tally_missing wanted (tk_tally s)\<rparr>)
        else take_loop cnt store sign hash wanted reply FZN_EXCHANGE_RECORDS_HEAD_LEN s)"

text \<open>
  The digest read so far: the positions in the front of \<open>theirs\<close>, of which \<open>n\<close> is the number. Its query asks
  for the next page; the difference of \<open>total\<close> and \<open>n\<close> is that of the machine's addresses.
\<close>

record fzn_exchange_digest =
  dg_theirs :: "fzn_sync_position list"
  dg_total :: nat
  dg_pages :: nat

abbreviation dg_n :: "fzn_exchange_digest \<Rightarrow> nat" where "dg_n d \<equiv> length (dg_theirs d)"

definition digest_query :: "fzn_exchange_digest \<Rightarrow> bytes" where
  "digest_query d = [FZN_EXCHANGE_VERSION, type_byte FZN_EXCHANGE_DIGEST_QUERY] @ num16 (dg_n d)"

definition digest_begin :: "fzn_exchange_digest \<times> bytes" where
  "digest_begin = (let d = \<lparr>dg_theirs = [], dg_total = 0, dg_pages = 0\<rparr> in (d, digest_query d))"

datatype digest_answer = Bad | More bytes | Enough

definition digest_take :: "fzn_exchange_digest \<Rightarrow> bytes \<Rightarrow> digest_answer \<times> fzn_exchange_digest" where
  "digest_take d reply =
     (if \<not> is_message reply FZN_EXCHANGE_DIGEST \<or> length reply < FZN_EXCHANGE_DIGEST_HEAD_LEN then (Bad, d)
      else let d = d\<lparr>dg_total := num16_at 2 reply\<rparr>; cnt = num16_at 6 reply in
        if num16_at 4 reply \<noteq> dg_n d \<or> length reply \<noteq> FZN_EXCHANGE_DIGEST_HEAD_LEN + cnt * FZN_EXCHANGE_POSITION_LEN \<or>
           int cnt > (int (dg_total d) - int (dg_n d)) mod 2 ^ 64 \<or> cnt = 0 \<and> dg_n d < dg_total d then (Bad, d)
        else let read = map (\<lambda>i. get_position reply (FZN_EXCHANGE_DIGEST_HEAD_LEN + i * FZN_EXCHANGE_POSITION_LEN))
                          [0..<min cnt (FZN_SYNC_MAX_POSITIONS - dg_n d)];
                 d = d\<lparr>dg_theirs := dg_theirs d @ read\<rparr> in
          if dg_n d < dg_total d \<and> dg_n d < FZN_SYNC_MAX_POSITIONS then
            let d = d\<lparr>dg_pages := dg_pages d + 1\<rparr>
            in if dg_pages d \<le> FZN_SYNC_MAX_POSITIONS then (More (digest_query d), d) else (Enough, d)
          else (Enough, d))"

datatype pull_phase = PULL_DIGEST | PULL_RECORDS | PULL_DONE

record 'b fzn_exchange_pulling =
  pu_journal :: fzn_journal
  pu_store :: "'b fzn_record_store_ops"
  pu_held :: 'b
  pu_sign :: fzn_sign_ops
  pu_hash :: fzn_hash_fn
  pu_max_per_request :: u64
  pu_phase :: pull_phase
  pu_digest :: fzn_exchange_digest
  pu_plan_out :: "fzn_sync_request list"
  pu_request_count :: nat
  pu_want :: nat
  pu_next :: u64
  pu_left :: u64
  pu_tally :: fzn_exchange_tally

definition records_query :: "'b fzn_exchange_pulling \<Rightarrow> bytes" where
  "records_query p =
     (let wanted = pu_plan_out p ! pu_want p in
      [FZN_EXCHANGE_VERSION, type_byte FZN_EXCHANGE_RECORDS_QUERY] @ rq_issuer wanted @ fzn_put_be32 (rq_stream wanted) @ fzn_put_be64 (pu_next p) @
      fzn_put_be16 (if pu_left p > 0xffff then 0xffff else ucast (pu_left p)))"

text \<open>The next range with anything in it, and its query; \<open>None\<close> when there is none and the pull is done.\<close>

function next_want :: "'b fzn_exchange_pulling \<Rightarrow> 'b fzn_exchange_pulling \<times> bytes option" where
  "next_want p =
     (if pu_want p < pu_request_count p then
        let p = p\<lparr>pu_next := rq_from (pu_plan_out p ! pu_want p), pu_left := rq_count (pu_plan_out p ! pu_want p)\<rparr> in
        if pu_left p \<noteq> 0 then (p, Some (records_query p))
        else next_want (p\<lparr>pu_want := pu_want p + 1\<rparr>)
      else (p\<lparr>pu_phase := PULL_DONE\<rparr>, None))"
  by pat_completeness auto
termination
  by (relation "measure (\<lambda>p. pu_request_count p - pu_want p)") auto

declare next_want.simps [simp del]

definition zero_tally :: fzn_exchange_tally where
  "zero_tally = \<lparr>ta_positions = 0, ta_requested = 0, ta_learned = 0, ta_refused = 0, ta_forks = 0, ta_missing = 0, ta_missed = []\<rparr>"

text \<open>
  Beginning overwrites what it does not name with nothing: the plan and the place in it are what the caller's
  struct held, \<open>p0\<close>.
\<close>

definition fzn_exchange_pull_begin :: "'b fzn_exchange_pulling option \<Rightarrow> fzn_journal option \<Rightarrow> ('b fzn_record_store_ops \<times> 'b) option \<Rightarrow>
    fzn_sign_ops option \<Rightarrow> fzn_hash_fn option option \<Rightarrow> u64 \<Rightarrow> nat \<Rightarrow> fzn_exchange_err \<times> ('b fzn_exchange_pulling \<times> bytes) option" where
  "fzn_exchange_pull_begin p0 journal store sign hash max_per_request cap =
     (if p0 = None \<or> journal = None \<or> store = None \<or> sign = None \<or> so_verify (the sign) = None \<or> hash = None \<or> the hash = None \<or>
         cap < FZN_EXCHANGE_RECORDS_QUERY_LEN \<or> max_per_request = 0 then (FZN_EXCHANGE_ERR_MALFORMED, None)
      else (FZN_EXCHANGE_OK, Some ((the p0)\<lparr>pu_tally := zero_tally, pu_journal := the journal, pu_store := fst (the store), pu_held := snd (the store),
          pu_sign := the sign, pu_hash := the (the hash), pu_max_per_request := max_per_request, pu_phase := PULL_DIGEST, pu_want := 0,
          pu_digest := fst digest_begin\<rparr>, snd digest_begin)))"

definition taking_of :: "'b fzn_exchange_pulling \<Rightarrow> 'b taking" where
  "taking_of p = \<lparr>tk_journal = pu_journal p, tk_held = pu_held p, tk_next = pu_next p, tk_left = pu_left p, tk_tally = pu_tally p\<rparr>"

definition with_taking :: "'b fzn_exchange_pulling \<Rightarrow> 'b taking \<Rightarrow> 'b fzn_exchange_pulling" where
  "with_taking p s = p\<lparr>pu_journal := tk_journal s, pu_held := tk_held s, pu_next := tk_next s, pu_left := tk_left s, pu_tally := tk_tally s\<rparr>"

text \<open>A step answers with the next request; with none and no error the pull is done.\<close>

definition fzn_exchange_pull_step :: "'b fzn_exchange_pulling option \<Rightarrow> bytes option \<Rightarrow> nat \<Rightarrow>
    fzn_exchange_err \<times> 'b fzn_exchange_pulling option \<times> bytes option" where
  "fzn_exchange_pull_step p0 reply cap =
     (if p0 = None \<or> cap < FZN_EXCHANGE_RECORDS_QUERY_LEN \<or> pu_phase (the p0) = PULL_DONE then (FZN_EXCHANGE_ERR_MALFORMED, p0, None)
      else let p = the p0 in
        if reply = None then (FZN_EXCHANGE_ERR_NO_ANSWER, Some (p\<lparr>pu_phase := PULL_DONE\<rparr>), None)
        else if pu_phase p = PULL_DIGEST then
          (case digest_take (pu_digest p) (the reply) of
             (Bad, d) \<Rightarrow> (FZN_EXCHANGE_ERR_SHAPE, Some (p\<lparr>pu_digest := d, pu_phase := PULL_DONE\<rparr>), None)
           | (More request, d) \<Rightarrow> (FZN_EXCHANGE_OK, Some (p\<lparr>pu_digest := d\<rparr>), Some request)
           | (Enough, d) \<Rightarrow>
               let p = p\<lparr>pu_digest := d, pu_tally := (pu_tally p)\<lparr>ta_positions := dg_n d\<rparr>\<rparr> in
               (case fzn_sync_plan_fetch (Some (pu_journal p)) (Some (dg_theirs d)) (dg_n d) (pu_max_per_request p) FZN_SYNC_MAX_POSITIONS of
                  (FZN_SYNC_OK, out, plan) \<Rightarrow>
                    let p = p\<lparr>pu_plan_out := out, pu_request_count := pl_request_count plan,
                              pu_tally := (pu_tally p)\<lparr>ta_requested := pl_request_count plan\<rparr>, pu_phase := PULL_RECORDS, pu_want := 0\<rparr>
                    in (case next_want p of (p, request) \<Rightarrow> (FZN_EXCHANGE_OK, Some p, request))
                | _ \<Rightarrow> (FZN_EXCHANGE_ERR_MALFORMED, Some (p\<lparr>pu_phase := PULL_DONE\<rparr>), None)))
        else
          (case take_records (pu_store p) (pu_sign p) (pu_hash p) (pu_plan_out p ! pu_want p) (the reply) (taking_of p) of
             (verdict, s) \<Rightarrow>
               let p = with_taking p s in
               if verdict = Go_on \<and> pu_left p \<noteq> 0 then (FZN_EXCHANGE_OK, Some p, Some (records_query p))
               else (case verdict of
                   Stop (FZN_EXCHANGE_OK) \<Rightarrow> (case next_want (p\<lparr>pu_want := pu_want p + 1\<rparr>) of (p, request) \<Rightarrow> (FZN_EXCHANGE_OK, Some p, request))
                 | Stop err \<Rightarrow> (err, Some (p\<lparr>pu_phase := PULL_DONE\<rparr>), None)
                 | Go_on \<Rightarrow> (case next_want (p\<lparr>pu_want := pu_want p + 1\<rparr>) of (p, request) \<Rightarrow> (FZN_EXCHANGE_OK, Some p, request)))))"

text \<open>
  The whole pull over a peer that answers as \<open>ask\<close> says; a run that never ends is \<open>None\<close>.
\<close>

partial_function (option) pull_loop ::
    "('p \<Rightarrow> bytes \<Rightarrow> bytes option \<times> 'p) \<Rightarrow> 'p \<Rightarrow> 'b fzn_exchange_pulling \<Rightarrow> bytes \<Rightarrow> (fzn_exchange_err \<times> 'b fzn_exchange_pulling \<times> 'p) option" where
  "pull_loop ask peer p request =
     (case ask peer request of (answer, peer') \<Rightarrow>
        (case fzn_exchange_pull_step (Some p) answer FZN_EXCHANGE_RECORDS_QUERY_LEN of
           (err, p', next) \<Rightarrow>
             if err = FZN_EXCHANGE_OK \<and> next \<noteq> None then pull_loop ask peer' (the p') (the next) else Some (err, the p', peer')))"

definition fzn_exchange_pull :: "fzn_journal option \<Rightarrow> ('b fzn_record_store_ops \<times> 'b) option \<Rightarrow> fzn_sign_ops option \<Rightarrow> fzn_hash_fn option option \<Rightarrow> u64 \<Rightarrow>
    ('p \<Rightarrow> bytes \<Rightarrow> bytes option \<times> 'p) option \<Rightarrow> 'p \<Rightarrow> nat \<Rightarrow> 'b fzn_exchange_pulling \<Rightarrow>
    (fzn_exchange_err \<times> 'b fzn_exchange_pulling option \<times> 'p) option" where
  "fzn_exchange_pull journal store sign hash max_per_request ask peer reply_cap p0 =
     (if ask = None \<or> reply_cap < FZN_EXCHANGE_REPLY_MIN then Some (FZN_EXCHANGE_ERR_MALFORMED, None, peer)
      else (case fzn_exchange_pull_begin (Some p0) journal store sign hash max_per_request FZN_EXCHANGE_RECORDS_QUERY_LEN of
          (FZN_EXCHANGE_OK, Some (p, request)) \<Rightarrow> map_option (\<lambda>(err, p, peer). (err, Some p, peer)) (pull_loop (the ask) peer p request)
        | (err, _) \<Rightarrow> Some (err, None, peer)))"

subsection \<open>Being pushed to\<close>

record 'b being_pushed =
  bp_journal :: fzn_journal
  bp_store_held :: 'b
  bp_taken :: nat
  bp_held :: nat
  bp_refused :: nat
  bp_forks :: nat

definition signed_record :: "fzn_sign_ops \<Rightarrow> fzn_hash_fn \<Rightarrow> bytes \<Rightarrow> (bytes \<times> bytes) option" where
  "signed_record sign hash b =
     (case fzn_record_open (Some b) of
        (FZN_RECORD_OK, Some rec) \<Rightarrow>
          if fzn_record_verify (Some rec) (Some sign) \<noteq> FZN_RECORD_OK then None
          else (case hash FZN_RECORD_ID_LEN rec of None \<Rightarrow> None | Some rid \<Rightarrow> Some (rec, rid))
      | _ \<Rightarrow> None)"

text \<open>One record of a push; the flag tells to go on.\<close>

definition push_one :: "'b fzn_record_store_ops \<Rightarrow> bytes \<Rightarrow> bytes \<Rightarrow> 'b being_pushed \<Rightarrow> bool \<times> 'b being_pushed" where
  "push_one store rec rid s =
     (let issuer = fzn_record_issuer rec; stream = fzn_record_stream rec; seq = fzn_record_seq rec in
      if seq < fzn_journal_next (Some (bp_journal s)) (Some issuer) stream then (True, s\<lparr>bp_held := bp_held s + 1\<rparr>)
      else (case fzn_journal_admit_chained (Some (bp_journal s)) (Some issuer) stream seq (Some (fzn_record_prev rec)) (Some rid) of
          (jerr, j') \<Rightarrow>
            let s = s\<lparr>bp_journal := the j'\<rparr> in
            if jerr = FZN_JOURNAL_ERR_FORK then (False, s\<lparr>bp_forks := bp_forks s + 1\<rparr>)
            else if jerr = FZN_JOURNAL_ERR_DUPLICATE then (True, s\<lparr>bp_held := bp_held s + 1\<rparr>)
            else if jerr \<noteq> FZN_JOURNAL_OK then (False, s\<lparr>bp_refused := bp_refused s + 1\<rparr>)
            else (case fzn_record_store_put (Some store) (bp_store_held s) (Some rec) of
                (perr, held') \<Rightarrow>
                  let s = s\<lparr>bp_store_held := held'\<rparr> in
                  if perr \<noteq> FZN_RECORD_STORE_OK then (False, s\<lparr>bp_refused := bp_refused s + 1\<rparr>)
                  else (True, s\<lparr>bp_taken := bp_taken s + 1\<rparr>))))"

fun push_take_loop :: "nat \<Rightarrow> 'b fzn_record_store_ops \<Rightarrow> fzn_sign_ops \<Rightarrow> fzn_hash_fn \<Rightarrow> bytes \<Rightarrow> nat \<Rightarrow> 'b being_pushed \<Rightarrow> 'b being_pushed" where
  "push_take_loop 0 store sign hash request at s = s"
| "push_take_loop (Suc n) store sign hash request at s =
     (let len = num16_at at request in
      if length request - at < 2 \<or> length request - at - 2 < len then s\<lparr>bp_refused := bp_refused s + 1\<rparr>
      else case signed_record sign hash (bytes_at (at + 2) len request) of
          None \<Rightarrow> s\<lparr>bp_refused := bp_refused s + 1\<rparr>
        | Some (rec, rid) \<Rightarrow>
            (case push_one store rec rid s of
               (go_on, s') \<Rightarrow> if go_on then push_take_loop n store sign hash request (at + 2 + len) s' else s'))"

text \<open>The reply, or \<open>None\<close> for the length 0, with the journal and the store afterwards.\<close>

definition fzn_exchange_take_push :: "fzn_journal option \<Rightarrow> ('b fzn_record_store_ops \<times> 'b) option \<Rightarrow> fzn_sign_ops option \<Rightarrow> fzn_hash_fn option option \<Rightarrow>
    bytes option \<Rightarrow> nat \<Rightarrow> (bytes \<times> 'b being_pushed) option" where
  "fzn_exchange_take_push journal store sign hash request reply_cap =
     (if journal = None \<or> store = None \<or> sign = None \<or> so_verify (the sign) = None \<or> hash = None \<or> the hash = None \<or>
         request = None \<or> \<not> is_message (the request) FZN_EXCHANGE_PUSH \<or> length (the request) < FZN_EXCHANGE_PUSH_HEAD_LEN \<or>
         reply_cap < FZN_EXCHANGE_PUSHED_LEN then None
      else let s = push_take_loop (num16_at 2 (the request)) (fst (the store)) (the sign) (the (the hash)) (the request) FZN_EXCHANGE_PUSH_HEAD_LEN
                     \<lparr>bp_journal = the journal, bp_store_held = snd (the store), bp_taken = 0, bp_held = 0, bp_refused = 0, bp_forks = 0\<rparr>
           in Some ([FZN_EXCHANGE_VERSION, type_byte FZN_EXCHANGE_PUSHED] @ num16 (bp_taken s) @ num16 (bp_held s) @ num16 (bp_refused s) @ num16 (bp_forks s), s))"

subsection \<open>Pushing\<close>

record fzn_exchange_push_tally =
  pt_positions :: nat
  pt_offered :: nat
  pt_taken :: nat
  pt_held :: nat
  pt_refused :: nat
  pt_forks :: nat

datatype push_phase = PUSH_DIGEST | PUSH_OFFERS | PUSH_DONE

record 'b fzn_exchange_pushing =
  ps_journal :: fzn_journal
  ps_store :: "'b fzn_record_store_ops"
  ps_held :: 'b
  ps_phase :: push_phase
  ps_digest :: fzn_exchange_digest
  ps_at :: nat
  ps_seq :: u64
  ps_mine :: u64
  ps_tally :: fzn_exchange_push_tally

definition offer_bounds :: "'b fzn_exchange_pushing \<Rightarrow> 'b fzn_exchange_pushing" where
  "offer_bounds p =
     (if ps_at p \<ge> dg_n (ps_digest p) then p
      else let theirs = dg_theirs (ps_digest p) ! ps_at p
           in p\<lparr>ps_mine := fzn_journal_next (Some (ps_journal p)) (Some (sp_issuer theirs)) (sp_stream theirs) - 1, ps_seq := sp_received theirs + 1\<rparr>)"

text \<open>The records of one message; the first argument bounds how many more it may hold.\<close>

fun offer_loop :: "nat \<Rightarrow> 'b fzn_record_store_ops \<Rightarrow> 'b \<Rightarrow> key \<Rightarrow> u32 \<Rightarrow> u64 \<Rightarrow> nat \<Rightarrow> u64 \<Rightarrow> bytes list \<Rightarrow> u64 \<times> bytes list" where
  "offer_loop 0 store held issuer stream own_last room seq out = (seq, out)"
| "offer_loop (Suc n) store held issuer stream own_last room seq out =
     (if own_last < seq then (seq, out)
      else case fzn_record_store_get (Some store) held (Some issuer) stream seq FZN_RECORD_MAX_LEN of
          (FZN_RECORD_STORE_OK, Some rec) \<Rightarrow>
            if room < 2 + length rec then (seq, out)
            else offer_loop n store held issuer stream own_last (room - (2 + length rec)) (seq + 1) (out @ [rec])
        | _ \<Rightarrow> (seq, out))"

function next_offer :: "nat \<Rightarrow> 'b fzn_exchange_pushing \<Rightarrow> 'b fzn_exchange_pushing \<times> bytes option" where
  "next_offer cap p =
     (if ps_at p < dg_n (ps_digest p) then
        let theirs = dg_theirs (ps_digest p) ! ps_at p in
        (case offer_loop 0xffff (ps_store p) (ps_held p) (sp_issuer theirs) (sp_stream theirs) (ps_mine p) (cap - FZN_EXCHANGE_PUSH_HEAD_LEN) (ps_seq p) [] of
           (seq, sent) \<Rightarrow>
             let p = p\<lparr>ps_seq := seq\<rparr> in
             if sent \<noteq> [] then (p\<lparr>ps_tally := (ps_tally p)\<lparr>pt_offered := pt_offered (ps_tally p) + length sent\<rparr>\<rparr>,
               Some ([FZN_EXCHANGE_VERSION, type_byte FZN_EXCHANGE_PUSH] @ num16 (length sent) @ concat (map framed sent)))
             else next_offer cap (offer_bounds (p\<lparr>ps_at := ps_at p + 1\<rparr>)))
      else (p\<lparr>ps_phase := PUSH_DONE\<rparr>, None))"
  by pat_completeness auto
termination
  by (relation "measure (\<lambda>(cap, p). dg_n (ps_digest p) - ps_at p)") (auto simp: offer_bounds_def Let_def)

declare next_offer.simps [simp del]

definition zero_push_tally :: fzn_exchange_push_tally where
  "zero_push_tally = \<lparr>pt_positions = 0, pt_offered = 0, pt_taken = 0, pt_held = 0, pt_refused = 0, pt_forks = 0\<rparr>"

definition fzn_exchange_push_begin :: "'b fzn_exchange_pushing option \<Rightarrow> fzn_journal option \<Rightarrow> ('b fzn_record_store_ops \<times> 'b) option \<Rightarrow> nat \<Rightarrow>
    fzn_exchange_err \<times> ('b fzn_exchange_pushing \<times> bytes) option" where
  "fzn_exchange_push_begin p0 journal store cap =
     (if p0 = None \<or> journal = None \<or> store = None \<or> cap < FZN_EXCHANGE_REPLY_MIN then (FZN_EXCHANGE_ERR_MALFORMED, None)
      else (FZN_EXCHANGE_OK, Some ((the p0)\<lparr>ps_tally := zero_push_tally, ps_journal := the journal, ps_store := fst (the store), ps_held := snd (the store),
          ps_phase := PUSH_DIGEST, ps_at := 0, ps_digest := fst digest_begin\<rparr>, snd digest_begin)))"

definition tally_pushed :: "bytes \<Rightarrow> fzn_exchange_push_tally \<Rightarrow> fzn_exchange_push_tally" where
  "tally_pushed reply t = t\<lparr>pt_taken := pt_taken t + num16_at 2 reply, pt_held := pt_held t + num16_at 4 reply,
     pt_refused := pt_refused t + num16_at 6 reply, pt_forks := pt_forks t + num16_at 8 reply\<rparr>"

definition fzn_exchange_push_step :: "'b fzn_exchange_pushing option \<Rightarrow> bytes option \<Rightarrow> nat \<Rightarrow>
    fzn_exchange_err \<times> 'b fzn_exchange_pushing option \<times> bytes option" where
  "fzn_exchange_push_step p0 reply cap =
     (if p0 = None \<or> cap < FZN_EXCHANGE_REPLY_MIN \<or> ps_phase (the p0) = PUSH_DONE then (FZN_EXCHANGE_ERR_MALFORMED, p0, None)
      else let p = the p0 in
        if reply = None then (FZN_EXCHANGE_ERR_NO_ANSWER, Some (p\<lparr>ps_phase := PUSH_DONE\<rparr>), None)
        else if ps_phase p = PUSH_DIGEST then
          (case digest_take (ps_digest p) (the reply) of
             (Bad, d) \<Rightarrow> (FZN_EXCHANGE_ERR_SHAPE, Some (p\<lparr>ps_digest := d, ps_phase := PUSH_DONE\<rparr>), None)
           | (More request, d) \<Rightarrow> (FZN_EXCHANGE_OK, Some (p\<lparr>ps_digest := d\<rparr>), Some request)
           | (Enough, d) \<Rightarrow>
               let p = p\<lparr>ps_digest := d, ps_tally := (ps_tally p)\<lparr>pt_positions := dg_n d\<rparr>, ps_phase := PUSH_OFFERS, ps_at := 0\<rparr>
               in (case next_offer cap (offer_bounds p) of (p, message) \<Rightarrow> (FZN_EXCHANGE_OK, Some p, message)))
        else if \<not> is_message (the reply) FZN_EXCHANGE_PUSHED \<or> length (the reply) \<noteq> FZN_EXCHANGE_PUSHED_LEN then
          (FZN_EXCHANGE_ERR_SHAPE, Some (p\<lparr>ps_phase := PUSH_DONE\<rparr>), None)
        else let p = p\<lparr>ps_tally := tally_pushed (the reply) (ps_tally p)\<rparr>;
                 p = (if num16_at 6 (the reply) \<noteq> 0 \<or> num16_at 8 (the reply) \<noteq> 0 then offer_bounds (p\<lparr>ps_at := ps_at p + 1\<rparr>) else p)
             in (case next_offer cap p of (p, message) \<Rightarrow> (FZN_EXCHANGE_OK, Some p, message)))"

partial_function (option) push_loop ::
    "('p \<Rightarrow> bytes \<Rightarrow> bytes option \<times> 'p) \<Rightarrow> nat \<Rightarrow> 'p \<Rightarrow> 'b fzn_exchange_pushing \<Rightarrow> bytes \<Rightarrow> (fzn_exchange_err \<times> 'b fzn_exchange_pushing \<times> 'p) option" where
  "push_loop ask cap peer p message =
     (case ask peer message of (answer, peer') \<Rightarrow>
        (case fzn_exchange_push_step (Some p) answer cap of
           (err, p', next) \<Rightarrow>
             if err = FZN_EXCHANGE_OK \<and> next \<noteq> None then push_loop ask cap peer' (the p') (the next) else Some (err, the p', peer')))"

definition fzn_exchange_push :: "fzn_journal option \<Rightarrow> ('b fzn_record_store_ops \<times> 'b) option \<Rightarrow> ('p \<Rightarrow> bytes \<Rightarrow> bytes option \<times> 'p) option \<Rightarrow> 'p \<Rightarrow> nat \<Rightarrow>
    'b fzn_exchange_pushing \<Rightarrow> (fzn_exchange_err \<times> 'b fzn_exchange_pushing option \<times> 'p) option" where
  "fzn_exchange_push journal store ask peer reply_cap p0 =
     (let cap = min reply_cap (FZN_EXCHANGE_PUSH_HEAD_LEN + 16 * (2 + FZN_RECORD_MAX_LEN)) in
      if ask = None \<or> reply_cap < FZN_EXCHANGE_REPLY_MIN then Some (FZN_EXCHANGE_ERR_MALFORMED, None, peer)
      else (case fzn_exchange_push_begin (Some p0) journal store cap of
          (FZN_EXCHANGE_OK, Some (p, message)) \<Rightarrow> map_option (\<lambda>(err, p, peer). (err, Some p, peer)) (push_loop (the ask) cap peer p message)
        | (err, _) \<Rightarrow> Some (err, None, peer)))"

section \<open>What a host learns\<close>

text \<open>
  A record is taken for genuine when it verifies under its issuer's key and was hashed. What a host
  learned is a list of genuine records, each the next of its stream on the chain held so far, each kept in
  the store; a genuine record that does not extend the chain marks its stream as forked.
\<close>

definition genuine_record :: "fzn_sign_ops \<Rightarrow> fzn_hash_fn \<Rightarrow> bytes \<Rightarrow> bytes \<Rightarrow> bool" where
  "genuine_record sign h r rid \<longleftrightarrow> fzn_record_verify (Some r) (Some sign) = FZN_RECORD_OK \<and> h FZN_RECORD_ID_LEN r = Some rid"

definition admission :: "bytes \<Rightarrow> bytes \<Rightarrow> journal_event" where
  "admission r rid = Admit_chained (fzn_record_issuer r, fzn_record_stream r) (fzn_record_seq r) (fzn_record_prev r) rid"

inductive learned :: "'b fzn_record_store_ops \<Rightarrow> fzn_sign_ops \<Rightarrow> fzn_hash_fn \<Rightarrow> fzn_journal \<times> 'b \<Rightarrow> bytes list \<Rightarrow> fzn_journal \<times> 'b \<Rightarrow> bool"
  for store sign h s where
  nothing: "learned store sign h s [] s"
| kept: "learned store sign h s rs (j, held) \<Longrightarrow> genuine_record sign h r rid \<Longrightarrow> journal_step j (admission r rid) = (FZN_JOURNAL_OK, j') \<Longrightarrow>
    fzn_record_store_put (Some store) held (Some r) = (FZN_RECORD_STORE_OK, held') \<Longrightarrow> learned store sign h s (rs @ [r]) (j', held')"
| forked: "learned store sign h s rs (j, held) \<Longrightarrow> genuine_record sign h r rid \<Longrightarrow> journal_step j (admission r rid) = (FZN_JOURNAL_ERR_FORK, j') \<Longrightarrow>
    learned store sign h s rs (j', held)"

text \<open>The one other end: a record was admitted and the store would not keep it.\<close>

definition lost_last :: "'b fzn_record_store_ops \<Rightarrow> fzn_sign_ops \<Rightarrow> fzn_hash_fn \<Rightarrow> fzn_journal \<times> 'b \<Rightarrow> bytes list \<Rightarrow> fzn_journal \<times> 'b \<Rightarrow> bool" where
  "lost_last store sign h s rs s' \<longleftrightarrow> (\<exists>j held r rid perr. learned store sign h s rs (j, held) \<and> genuine_record sign h r rid \<and>
     journal_step j (admission r rid) = (FZN_JOURNAL_OK, fst s') \<and> fzn_record_store_put (Some store) held (Some r) = (perr, snd s') \<and> perr \<noteq> FZN_RECORD_STORE_OK)"

lemma wanted_genuine:
  assumes "wanted_record sign h w seq b = Some (r, rid)"
  shows "genuine_record sign h r rid" and "admission r rid = Admit_chained (rq_issuer w, rq_stream w) seq (fzn_record_prev r) rid"
    and "fzn_record_is_open (Some r)"
  using assms by (auto simp: wanted_record_def genuine_record_def admission_def record_open_iff split: prod.splits fzn_record_err.splits option.splits if_splits)

text \<open>An error of the journal other than a fork leaves it as it was.\<close>

lemma chained_refused:
  assumes "fzn_journal_admit_chained (Some j) (Some k) stream seq (Some prev) (Some rid) = (err, j')" and "err \<notin> {FZN_JOURNAL_OK, FZN_JOURNAL_ERR_FORK}"
  shows "j' = Some j"
  using assms by (auto simp: fzn_journal_admit_chained_def fzn_journal_admit_def Let_def split: if_splits option.splits prod.splits)

lemma chained_some:
  assumes "fzn_journal_admit_chained (Some j) k stream seq prev rid = (err, j')"
  shows "\<exists>j''. j' = Some j''"
  using assms by (auto simp: fzn_journal_admit_chained_def fzn_journal_admit_def Let_def split: if_splits option.splits prod.splits)

end
