(* ===== verification/Exchange_Ends.thy ===== *)
theory Exchange_Ends
  imports Exchange
begin

text \<open>
  What an exchange does against any peer: a pull and a push end whatever the peer answers, a pull
  changes the journal and the store only by genuine records, each the next of its chain, and counts them.
\<close>

section \<open>What a pull takes\<close>

fun verdict_err :: "verdict \<Rightarrow> fzn_exchange_err" where
  "verdict_err (Stop err) = err" | "verdict_err Go_on = FZN_EXCHANGE_OK"

definition outcome :: "'b fzn_record_store_ops \<Rightarrow> fzn_sign_ops \<Rightarrow> fzn_hash_fn \<Rightarrow> fzn_journal \<times> 'b \<Rightarrow> fzn_exchange_err \<Rightarrow> 'b taking \<Rightarrow> bool" where
  "outcome store sign h s0 err s \<longleftrightarrow> (\<exists>rs. ta_learned (tk_tally s) = length rs \<and>
     (if err = FZN_EXCHANGE_ERR_STORE then lost_last store sign h s0 rs (tk_journal s, tk_held s) else learned store sign h s0 rs (tk_journal s, tk_held s)))"

lemma outcome_other: "outcome store sign h s0 FZN_EXCHANGE_OK s \<Longrightarrow> err \<noteq> FZN_EXCHANGE_ERR_STORE \<Longrightarrow> tk_journal s' = tk_journal s \<Longrightarrow> tk_held s' = tk_held s \<Longrightarrow>
    ta_learned (tk_tally s') = ta_learned (tk_tally s) \<Longrightarrow> outcome store sign h s0 err s'"
  by (simp add: outcome_def)

lemma take_one_outcome:
  assumes "wanted_record sign h w (tk_next s) b = Some (r, rid)" and "outcome store sign h s0 FZN_EXCHANGE_OK s" and "take_one store w r rid s = (v, s')"
  shows "outcome store sign h s0 (verdict_err v) s'"
    and "v = Go_on \<Longrightarrow> tk_next s' = tk_next s + 1 \<and> tk_left s' = tk_left s - 1 \<and> tk_left s' \<noteq> 0"
proof -
  note g = wanted_genuine [OF assms(1)]
  obtain jerr j' where ad: "fzn_journal_admit_chained (Some (tk_journal s)) (Some (rq_issuer w)) (rq_stream w) (tk_next s) (Some (fzn_record_prev r)) (Some rid) = (jerr, Some j')"
    using chained_some by (metis prod.exhaust)
  then have step: "journal_step (tk_journal s) (admission r rid) = (jerr, j')" by (simp add: g(2))
  obtain rs where rs: "ta_learned (tk_tally s) = length rs" "learned store sign h s0 rs (tk_journal s, tk_held s)" using assms(2) by (auto simp: outcome_def)
  obtain perr held' where put: "fzn_record_store_put (Some store) (tk_held s) (Some r) = (perr, held')" by fastforce
  consider (ok) "jerr = FZN_JOURNAL_OK" "perr = FZN_RECORD_STORE_OK" | (lost) "jerr = FZN_JOURNAL_OK" "perr \<noteq> FZN_RECORD_STORE_OK"
    | (fork) "jerr = FZN_JOURNAL_ERR_FORK" | (other) "jerr \<notin> {FZN_JOURNAL_OK, FZN_JOURNAL_ERR_FORK}" by auto
  then have "outcome store sign h s0 (verdict_err v) s' \<and> (v = Go_on \<longrightarrow> tk_next s' = tk_next s + 1 \<and> tk_left s' = tk_left s - 1 \<and> tk_left s' \<noteq> 0)"
  proof cases
    case ok
    have "learned store sign h s0 (rs @ [r]) (j', held')" using learned.kept [OF rs(2) g(1)] step put ok by simp
    moreover have "ta_learned (tk_tally s') = length (rs @ [r]) \<and> tk_journal s' = j' \<and> tk_held s' = held' \<and> verdict_err v = FZN_EXCHANGE_OK"
      using assms(3) ok rs(1) by (auto simp: take_one_def ad put Let_def split: if_splits)
    ultimately have "outcome store sign h s0 (verdict_err v) s'" unfolding outcome_def by (intro exI [of _ "rs @ [r]"]) simp
    then show ?thesis using assms(3) ok by (auto simp: take_one_def ad put Let_def split: if_splits)
  next
    case lost
    then have "lost_last store sign h s0 rs (j', held')" using rs(2) g(1) step put unfolding lost_last_def fst_conv snd_conv by blast
    then show ?thesis using assms(3) lost rs(1) by (auto simp: take_one_def ad put Let_def outcome_def split: if_splits)
  next
    case fork
    have "learned store sign h s0 rs (j', tk_held s)" using learned.forked [OF rs(2) g(1)] step fork by simp
    then show ?thesis using assms(3) fork rs(1) by (auto simp: take_one_def ad Let_def outcome_def)
  next
    case other
    then have "j' = tk_journal s" using chained_refused [OF ad] by simp
    then show ?thesis using assms(3) other rs by (auto simp: take_one_def ad Let_def outcome_def split: if_splits)
  qed
  then show "outcome store sign h s0 (verdict_err v) s'"
    and "v = Go_on \<Longrightarrow> tk_next s' = tk_next s + 1 \<and> tk_left s' = tk_left s - 1 \<and> tk_left s' \<noteq> 0" by blast+
qed

lemma take_loop_outcome:
  assumes "outcome store sign h s0 FZN_EXCHANGE_OK s" and "take_loop n store sign h w reply at s = (v, s')"
  shows "outcome store sign h s0 (verdict_err v) s' \<and> (v = Go_on \<and> tk_left s \<noteq> 0 \<longrightarrow> tk_left s' \<noteq> 0 \<and> unat (tk_left s') + n = unat (tk_left s))"
  using assms
proof (induction n arbitrary: at s)
  case (Suc n)
  let ?len = "num16_at at reply"
  show ?case
  proof (cases "length reply - at < 2 \<or> length reply - at - 2 < ?len")
    case True
    then have "v = Stop FZN_EXCHANGE_ERR_SHAPE" "s' = s" using Suc.prems(2) by (auto simp: Let_def split: if_splits)
    then show ?thesis using Suc.prems(1) by (auto intro: outcome_other)
  next
    case room: False
    show ?thesis
    proof (cases "wanted_record sign h w (tk_next s) (bytes_at (at + 2) ?len reply)")
      case None
      then have "v = Stop FZN_EXCHANGE_OK" "s' = s\<lparr>tk_tally := tally_refused (tk_tally s)\<rparr>" using room Suc.prems(2) by (auto simp: Let_def)
      then show ?thesis using Suc.prems(1) by (auto intro: outcome_other)
    next
      case (Some rr)
      obtain r rid where rr: "rr = (r, rid)" by (cases rr)
      obtain v1 s1 where one: "take_one store w r rid s = (v1, s1)" by (cases "take_one store w r rid s")
      note o = take_one_outcome [OF Some [unfolded rr] Suc.prems(1) one]
      show ?thesis
      proof (cases v1)
        case (Stop err)
        then have "v = v1" "s' = s1" using Suc.prems(2) room Some rr one by (auto simp: Let_def)
        then show ?thesis using o(1) Stop by simp
      next
        case Go_on
        then have rest: "take_loop n store sign h w reply (at + 2 + ?len) s1 = (v, s')" using Suc.prems(2) room Some rr one by (auto simp: Let_def)
        have left: "tk_left s1 = tk_left s - 1" "tk_left s1 \<noteq> 0" using o(2) [OF Go_on] by blast+
        have "unat (tk_left s1) + 1 = unat (tk_left s)" if "tk_left s \<noteq> 0"
          using unat_minus_one [OF that] that unat_gt_0 [of "tk_left s"] unfolding left(1) by linarith
        then show ?thesis using Suc.IH [OF _ rest] o(1) Go_on left(2) by auto
      qed
    qed
  qed
qed (use assms in auto)

lemma take_records_outcome:
  assumes "outcome store sign h s0 FZN_EXCHANGE_OK s" and "take_records store sign h w reply s = (v, s')"
  shows "outcome store sign h s0 (verdict_err v) s'" and "v = Go_on \<Longrightarrow> tk_left s \<noteq> 0 \<Longrightarrow> tk_left s' \<noteq> 0 \<and> tk_left s' < tk_left s"
proof -
  have "outcome store sign h s0 (verdict_err v) s' \<and> (v = Go_on \<and> tk_left s \<noteq> 0 \<longrightarrow> tk_left s' \<noteq> 0 \<and> tk_left s' < tk_left s)"
  proof (cases "\<not> is_message reply FZN_EXCHANGE_RECORDS \<or> length reply < FZN_EXCHANGE_RECORDS_HEAD_LEN")
    case True
    then show ?thesis using assms by (auto simp: take_records_def intro: outcome_other)
  next
    case head: False
    show ?thesis
    proof (cases "num16_at 2 reply = 0")
      case True
      then show ?thesis using assms head by (auto simp: take_records_def tally_missing_def intro: outcome_other)
    next
      case False
      then have "take_loop (num16_at 2 reply) store sign h w reply FZN_EXCHANGE_RECORDS_HEAD_LEN s = (v, s')" using assms(2) head by (simp add: take_records_def)
      from take_loop_outcome [OF assms(1) this] False show ?thesis by (auto simp: word_less_nat_alt)
    qed
  qed
  then show "outcome store sign h s0 (verdict_err v) s'" and "v = Go_on \<Longrightarrow> tk_left s \<noteq> 0 \<Longrightarrow> tk_left s' \<noteq> 0 \<and> tk_left s' < tk_left s" by blast+
qed

section \<open>A pull ends\<close>

lemma digest_more:
  assumes "digest_take d reply = (More request, d')"
  shows "dg_n d < dg_n d'" and "dg_n d' < FZN_SYNC_MAX_POSITIONS" and "request = digest_query d'"
  using assms by (auto simp: digest_take_def Let_def digest_query_def split: if_splits)

lemma digest_bounded: "digest_take d reply = (v, d') \<Longrightarrow> dg_n d \<le> FZN_SYNC_MAX_POSITIONS \<Longrightarrow> dg_n d' \<le> FZN_SYNC_MAX_POSITIONS"
  by (auto simp: digest_take_def Let_def split: if_splits)

text \<open>The place in the plan only moves on, and a request is for a range with something in it.\<close>

lemma next_want_moves:
  "case next_want p of (p', request) \<Rightarrow>
     (request = None \<longrightarrow> pu_phase p' = PULL_DONE) \<and>
     (request \<noteq> None \<longrightarrow> pu_phase p' = pu_phase p \<and> pu_want p \<le> pu_want p' \<and> pu_want p' < pu_request_count p' \<and> pu_left p' \<noteq> 0 \<and> request = Some (records_query p')) \<and>
     pu_request_count p' = pu_request_count p \<and> pu_journal p' = pu_journal p \<and> pu_held p' = pu_held p \<and> pu_tally p' = pu_tally p \<and>
     pu_store p' = pu_store p \<and> pu_sign p' = pu_sign p \<and> pu_hash p' = pu_hash p \<and> pu_plan_out p' = pu_plan_out p"
proof (induction p rule: next_want.induct)
  case (1 p)
  show ?case
  proof (cases "pu_want p < pu_request_count p \<and> rq_count (pu_plan_out p ! pu_want p) = 0")
    case True
    then have eq: "next_want p = next_want (p\<lparr>pu_next := rq_from (pu_plan_out p ! pu_want p), pu_left := rq_count (pu_plan_out p ! pu_want p), pu_want := pu_want p + 1\<rparr>)"
      by (subst next_want.simps) (simp add: Let_def)
    from 1 True show ?thesis unfolding eq by (auto simp: Let_def split_beta intro: Suc_leD)
  next
    case False
    then show ?thesis by (subst next_want.simps) (auto simp: Let_def)
  qed
qed

definition pull_rank :: "'b fzn_exchange_pulling \<Rightarrow> nat \<times> nat \<times> nat" where
  "pull_rank p =
     (case pu_phase p of PULL_DIGEST \<Rightarrow> (1, FZN_SYNC_MAX_POSITIONS - dg_n (pu_digest p), 0)
      | PULL_RECORDS \<Rightarrow> (0, pu_request_count p - pu_want p, unat (pu_left p)) | PULL_DONE \<Rightarrow> (0, 0, 0))"

definition pull_inv :: "fzn_journal \<times> 'b \<Rightarrow> 'b fzn_record_store_ops \<Rightarrow> fzn_sign_ops \<Rightarrow> fzn_hash_fn \<Rightarrow> fzn_exchange_err \<Rightarrow> 'b fzn_exchange_pulling \<Rightarrow> bool" where
  "pull_inv s0 store sign h err p \<longleftrightarrow> pu_store p = store \<and> pu_sign p = sign \<and> pu_hash p = h \<and> outcome store sign h s0 err (taking_of p) \<and>
     (pu_phase p = PULL_RECORDS \<longrightarrow> pu_want p < pu_request_count p \<and> pu_left p \<noteq> 0)"

abbreviation lower :: "((nat \<times> nat \<times> nat) \<times> (nat \<times> nat \<times> nat)) set" where "lower \<equiv> less_than <*lex*> (less_than <*lex*> less_than)"

lemma next_want_inv:
  assumes "outcome store sign h s0 FZN_EXCHANGE_OK (taking_of p)" and "pu_store p = store" and "pu_sign p = sign" and "pu_hash p = h"
    and "next_want p = (p', request)" and "pu_phase p = PULL_RECORDS"
  shows "pull_inv s0 store sign h FZN_EXCHANGE_OK p'"
proof -
  have "outcome store sign h s0 FZN_EXCHANGE_OK (taking_of p')"
    using outcome_other [OF assms(1), of FZN_EXCHANGE_OK "taking_of p'"] next_want_moves [of p] assms(5) by (simp add: taking_of_def)
  then show ?thesis using next_want_moves [of p] assms(2-6) by (cases request) (auto simp: pull_inv_def)
qed

lemma pull_step_ends:
  assumes "pull_inv s0 store sign h FZN_EXCHANGE_OK p" and "pu_phase p \<noteq> PULL_DONE" and "fzn_exchange_pull_step (Some p) answer FZN_EXCHANGE_RECORDS_QUERY_LEN = (err, p', next)"
  shows "\<exists>q. p' = Some q \<and> pull_inv s0 store sign h err q \<and>
    (err = FZN_EXCHANGE_OK \<and> next \<noteq> None \<longrightarrow> pu_phase q \<noteq> PULL_DONE \<and> (pull_rank q, pull_rank p) \<in> lower)"
proof -
  note i = assms(1) [unfolded pull_inv_def]
  have oc0: "outcome store sign h s0 FZN_EXCHANGE_OK (taking_of p)" using i by blast
  have out: "outcome store sign h s0 e (taking_of q)" if "e \<noteq> FZN_EXCHANGE_ERR_STORE" "pu_journal q = pu_journal p" "pu_held q = pu_held p"
      "ta_learned (pu_tally q) = ta_learned (pu_tally p)" for e q
    using outcome_other [of store sign h s0 "taking_of p" e "taking_of q"] oc0 that by (simp add: taking_of_def)
  show ?thesis
  proof (cases answer)
    case None
    then have "err = FZN_EXCHANGE_ERR_NO_ANSWER" "p' = Some (p\<lparr>pu_phase := PULL_DONE\<rparr>)" "next = None" using assms(2,3) by (auto simp: fzn_exchange_pull_step_def)
    then show ?thesis using i out [of err "p\<lparr>pu_phase := PULL_DONE\<rparr>"] by (simp add: pull_inv_def)
  next
    case reply: (Some reply)
    show ?thesis
    proof (cases "pu_phase p")
      case PULL_DIGEST
      obtain v d where dt: "digest_take (pu_digest p) reply = (v, d)" by (cases "digest_take (pu_digest p) reply")
      show ?thesis
      proof (cases v)
        case Bad
        then show ?thesis using assms(3) reply PULL_DIGEST dt i out [of FZN_EXCHANGE_ERR_SHAPE "p\<lparr>pu_digest := d, pu_phase := PULL_DONE\<rparr>"]
          by (auto simp: fzn_exchange_pull_step_def pull_inv_def)
      next
        case (More request)
        then have "dg_n (pu_digest p) < dg_n d" "dg_n d < FZN_SYNC_MAX_POSITIONS" using digest_more dt by blast+
        then show ?thesis using More assms(3) reply PULL_DIGEST dt i out [of FZN_EXCHANGE_OK "p\<lparr>pu_digest := d\<rparr>"]
          by (auto simp: fzn_exchange_pull_step_def pull_inv_def pull_rank_def)
      next
        case Enough
        let ?p = "p\<lparr>pu_digest := d, pu_tally := (pu_tally p)\<lparr>ta_positions := dg_n d\<rparr>\<rparr>"
        obtain serr plan_out plan where sp: "fzn_sync_plan_fetch (Some (pu_journal p)) (Some (dg_theirs d)) (dg_n d) (pu_max_per_request p) FZN_SYNC_MAX_POSITIONS = (serr, plan_out, plan)"
          by (metis prod.exhaust)
        let ?q = "?p\<lparr>pu_plan_out := plan_out, pu_request_count := pl_request_count plan,
          pu_tally := (pu_tally ?p)\<lparr>ta_requested := pl_request_count plan\<rparr>, pu_phase := PULL_RECORDS, pu_want := 0\<rparr>"
        obtain q r where nw: "next_want ?q = (q, r)" by (cases "next_want ?q")
        show ?thesis
        proof (cases serr)
          case FZN_SYNC_OK
          then have res: "err = FZN_EXCHANGE_OK" "p' = Some q" "next = r" using assms(3) reply PULL_DIGEST dt Enough sp nw by (auto simp: fzn_exchange_pull_step_def Let_def)
          have "pull_inv s0 store sign h FZN_EXCHANGE_OK q" using i by (intro next_want_inv [OF _ _ _ _ nw]) (simp_all add: out)
          then show ?thesis using res next_want_moves [of ?q] PULL_DIGEST nw by (auto simp: pull_rank_def)
        next
          case FZN_SYNC_ERR_MALFORMED
          then show ?thesis using assms(3) reply PULL_DIGEST dt Enough sp i out [of FZN_EXCHANGE_ERR_MALFORMED "?p\<lparr>pu_phase := PULL_DONE\<rparr>"]
            by (auto simp: fzn_exchange_pull_step_def pull_inv_def Let_def)
        qed
      qed
    next
      case PULL_RECORDS
      obtain v s where tr: "take_records (pu_store p) (pu_sign p) (pu_hash p) (pu_plan_out p ! pu_want p) reply (taking_of p) = (v, s)" by fastforce
      let ?p = "with_taking p s"
      have tk: "taking_of ?p = s" by (simp add: taking_of_def with_taking_def)
      have ops: "pu_store p = store" "pu_sign p = sign" "pu_hash p = h" using i by simp_all
      have oc: "outcome store sign h s0 (verdict_err v) s" using take_records_outcome(1) tr i by (metis (no_types))
      have left: "pu_left ?p \<noteq> 0 \<and> pu_left ?p < pu_left p" if "v = Go_on"
        using take_records_outcome(2) [OF oc0 tr [unfolded ops] that] i PULL_RECORDS by (simp add: taking_of_def with_taking_def)
      show ?thesis
      proof (cases "v = Go_on")
        case True
        then have "err = FZN_EXCHANGE_OK" "p' = Some ?p" "next = Some (records_query ?p)" using assms(3) reply PULL_RECORDS tr left by (auto simp: fzn_exchange_pull_step_def Let_def)
        then show ?thesis using left [OF True] oc True tk i PULL_RECORDS
          by (simp add: pull_inv_def pull_rank_def with_taking_def word_less_nat_alt)
      next
        case False
        then obtain e where v: "v = Stop e" by (cases v) simp_all
        obtain q r where nw: "next_want (?p\<lparr>pu_want := pu_want ?p + 1\<rparr>) = (q, r)" by fastforce
        show ?thesis
        proof (cases "e = FZN_EXCHANGE_OK")
          case True
          then have res: "err = FZN_EXCHANGE_OK" "p' = Some q" "next = r" using assms(3) reply PULL_RECORDS tr v nw by (auto simp: fzn_exchange_pull_step_def Let_def)
          have "taking_of (?p\<lparr>pu_want := pu_want ?p + 1\<rparr>) = s" using tk by (simp add: taking_of_def)
          then have "pull_inv s0 store sign h FZN_EXCHANGE_OK q"
            using oc v True ops PULL_RECORDS by (intro next_want_inv [OF _ _ _ _ nw]) (simp_all add: with_taking_def)
          then show ?thesis using res next_want_moves [of "?p\<lparr>pu_want := pu_want ?p + 1\<rparr>"] PULL_RECORDS nw i
            by (auto simp: pull_rank_def with_taking_def)
        next
          case False
          then have "err = e" "p' = Some (?p\<lparr>pu_phase := PULL_DONE\<rparr>)" "next = None" using assms(3) reply PULL_RECORDS tr v by (cases e; auto simp: fzn_exchange_pull_step_def Let_def)+
          moreover have "taking_of (?p\<lparr>pu_phase := PULL_DONE\<rparr>) = s" using tk by (simp add: taking_of_def)
          ultimately show ?thesis using oc v False ops by (simp add: pull_inv_def with_taking_def)
        qed
      qed
    qed (use assms(2) in simp)
  qed
qed

lemma pull_loop_ends:
  assumes "pull_inv s0 store sign h FZN_EXCHANGE_OK p" and "pu_phase p \<noteq> PULL_DONE"
  shows "\<exists>err q peer'. pull_loop ask peer p request = Some (err, q, peer') \<and> pull_inv s0 store sign h err q"
  using assms
proof (induction "pull_rank p" arbitrary: p peer request rule: wf_induct_rule [OF wf_lex_prod [OF wf_less_than wf_lex_prod [OF wf_less_than wf_less_than]]])
  case 1
  obtain answer peer' where ask: "ask peer request = (answer, peer')" by fastforce
  obtain err p' nxt where step: "fzn_exchange_pull_step (Some p) answer FZN_EXCHANGE_RECORDS_QUERY_LEN = (err, p', nxt)" by (metis prod.exhaust)
  obtain q where q: "p' = Some q" "pull_inv s0 store sign h err q" "err = FZN_EXCHANGE_OK \<and> nxt \<noteq> None \<longrightarrow> pu_phase q \<noteq> PULL_DONE \<and> (pull_rank q, pull_rank p) \<in> lower"
    using pull_step_ends [OF 1(2,3) step] by blast
  show ?case
  proof (cases "err = FZN_EXCHANGE_OK \<and> nxt \<noteq> None")
    case True
    then have "pull_loop ask peer p request = pull_loop ask peer' q (the nxt)" using ask step q(1) by (subst pull_loop.simps) simp
    then show ?thesis using 1(1) [of q peer' "the nxt"] q True by auto
  next
    case False
    then have "pull_loop ask peer p request = Some (err, q, peer')" using ask step q(1) by (subst pull_loop.simps) auto
    then show ?thesis using q(2) by blast
  qed
qed

text \<open>What was learned moves each stream by as many records as were learned of it.\<close>

definition stream_of :: "bytes \<Rightarrow> key \<times> u32" where
  "stream_of r = (fzn_record_issuer r, fzn_record_stream r)"

lemma chain_row_moves:
  "unat (je_received (snd (chain_row seq prev rid e))) = unat (je_received e) + (if fst (chain_row seq prev rid e) = FZN_JOURNAL_OK then 1 else 0)"
proof -
  have "unat (x + 1) = unat x + 1" if "x < x + 1" for x :: u64
    using that unatSuc [of x] by (cases "x + 1 = 0") (simp_all add: add.commute)
  then show ?thesis by (auto simp: chain_row_def not_le)
qed

lemma admission_moves:
  assumes "journal_wf j" and "journal_step j (admission r rid) = (err, j')"
  shows "journal_wf j'" and "dom (journal_map j') = dom (journal_map j)"
    and "journal_map j k = Some e \<Longrightarrow> \<exists>e'. journal_map j' k = Some e' \<and>
      unat (je_received e') = unat (je_received e) + (if err = FZN_JOURNAL_OK \<and> stream_of r = k then 1 else 0)"
proof -
  have ref: "refines_map j (journal_step j (admission r rid)) (journal_spec (jn_capacity j) (journal_map j) (admission r rid))"
    unfolding admission_def by (rule chained_refines [OF assms(1)])
  have eq: "err = fst (journal_spec (jn_capacity j) (journal_map j) (admission r rid))" "journal_map j' = snd (journal_spec (jn_capacity j) (journal_map j) (admission r rid))"
    and wf: "journal_wf j'"
    using ref [unfolded assms(2) refines_map_def fst_conv snd_conv] by blast+
  show "journal_wf j'" by (rule wf)
  show "dom (journal_map j') = dom (journal_map j)" unfolding eq(2) by (auto simp: admission_def on_row_def split: option.splits)
  show "\<exists>e'. journal_map j' k = Some e' \<and> unat (je_received e') = unat (je_received e) + (if err = FZN_JOURNAL_OK \<and> stream_of r = k then 1 else 0)"
    if e: "journal_map j k = Some e"
  proof (cases "fzn_record_seq r \<noteq> 0 \<and> stream_of r = k")
    case True
    then have "err = fst (chain_row (fzn_record_seq r) (fzn_record_prev r) rid e)" "journal_map j' k = Some (snd (chain_row (fzn_record_seq r) (fzn_record_prev r) rid e))"
      using e unfolding eq by (simp_all add: admission_def stream_of_def on_row_def)
    then show ?thesis using True chain_row_moves by simp
  next
    case False
    then show ?thesis using e unfolding eq by (auto simp: admission_def stream_of_def on_row_def split: option.splits)
  qed
qed

lemma learned_moves:
  assumes "learned store sign h s rs s'" and "journal_wf (fst s)"
  shows "journal_wf (fst s') \<and> dom (journal_map (fst s')) = dom (journal_map (fst s)) \<and> (\<forall>k e. journal_map (fst s) k = Some e \<longrightarrow>
    (\<exists>e'. journal_map (fst s') k = Some e' \<and> unat (je_received e') = unat (je_received e) + length (filter (\<lambda>r. stream_of r = k) rs)))"
  using assms
proof (induction rule: learned.induct)
  case (kept rs j held r rid j' held')
  then have wf: "journal_wf j" by simp
  note m = admission_moves [OF wf kept(3)]
  show ?case using kept.IH [OF kept.prems] m(1,2) m(3) by (fastforce simp: add.assoc)
next
  case (forked rs j held r rid j')
  then have wf: "journal_wf j" by simp
  note m = admission_moves [OF wf forked(3)]
  show ?case using forked.IH [OF forked.prems] m(1,2) m(3) by fastforce
qed simp

text \<open>
  C36. A pull ends and learns only what is genuine, whatever the peer answers. For every peer, honest or not, the pull
  returns; the journal and the store it leaves come from those it began with by a list of records, each
  verified under its issuer's key, each the next on the chain held of its stream, each kept in the store, and the
  tally is the number of them; a record that was admitted and not kept is the last, and is reported as such. Every stream
  followed is then exactly as much further as there were records learned of it, and none is added or lost.
\<close>

theorem pull_ends:
  assumes "so_verify sign \<noteq> None" and "most \<noteq> 0" and "FZN_EXCHANGE_REPLY_MIN \<le> cap"
  shows "\<exists>err q peer' rs. fzn_exchange_pull (Some j) (Some (store, held)) (Some sign) (Some (Some h)) most (Some ask) peer cap p0 = Some (err, Some q, peer') \<and>
    ta_learned (pu_tally q) = length rs \<and>
    (if err = FZN_EXCHANGE_ERR_STORE then lost_last store sign h (j, held) rs (pu_journal q, pu_held q)
     else learned store sign h (j, held) rs (pu_journal q, pu_held q) \<and>
       (journal_wf j \<longrightarrow> journal_wf (pu_journal q) \<and> dom (journal_map (pu_journal q)) = dom (journal_map j) \<and>
         (\<forall>k e. journal_map j k = Some e \<longrightarrow> (\<exists>e'. journal_map (pu_journal q) k = Some e' \<and>
           unat (je_received e') = unat (je_received e) + length (filter (\<lambda>r. stream_of r = k) rs)))))"
proof -
  obtain p request where b: "fzn_exchange_pull_begin (Some p0) (Some j) (Some (store, held)) (Some sign) (Some (Some h)) most FZN_EXCHANGE_RECORDS_QUERY_LEN
      = (FZN_EXCHANGE_OK, Some (p, request))" and p: "pu_phase p = PULL_DIGEST" "pull_inv (j, held) store sign h FZN_EXCHANGE_OK p"
    using assms(1,2) by (auto simp: fzn_exchange_pull_begin_def pull_inv_def outcome_def taking_of_def zero_tally_def intro: learned.nothing)
  obtain err q peer' where e: "pull_loop ask peer p request = Some (err, q, peer')" "pull_inv (j, held) store sign h err q"
    using pull_loop_ends [OF p(2)] p(1) by fastforce
  then obtain rs where rs: "ta_learned (pu_tally q) = length rs" "if err = FZN_EXCHANGE_ERR_STORE then lost_last store sign h (j, held) rs (pu_journal q, pu_held q)
      else learned store sign h (j, held) rs (pu_journal q, pu_held q)"
    by (auto simp: pull_inv_def outcome_def taking_of_def split: if_splits)
  have "fzn_exchange_pull (Some j) (Some (store, held)) (Some sign) (Some (Some h)) most (Some ask) peer cap p0 = Some (err, Some q, peer')"
    using assms(3) b e(1) by (simp add: fzn_exchange_pull_def)
  then show ?thesis using rs learned_moves [of store sign h "(j, held)" rs "(pu_journal q, pu_held q)"] by (auto split: if_splits)
qed

section \<open>A push ends\<close>

lemma offer_loop_moves:
  assumes "own_last \<noteq> UINT64_MAX" and "offer_loop n store held issuer stream own_last room seq out = (seq', out')"
  shows "(out' = out \<and> seq' = seq) \<or> (out' \<noteq> [] \<and> seq < seq' \<and> unat seq' \<le> unat own_last + 1)"
  using assms(2)
proof (induction n arbitrary: room seq out)
  case (Suc n)
  show ?case
  proof (cases "\<exists>rec. seq \<le> own_last \<and> fzn_record_store_get (Some store) held (Some issuer) stream seq FZN_RECORD_MAX_LEN = (FZN_RECORD_STORE_OK, Some rec) \<and> 2 + length rec \<le> room")
    case True
    then obtain rec where r: "seq \<le> own_last" "fzn_record_store_get (Some store) held (Some issuer) stream seq FZN_RECORD_MAX_LEN = (FZN_RECORD_STORE_OK, Some rec)" "2 + length rec \<le> room" by blast
    then have "offer_loop n store held issuer stream own_last (room - (2 + length rec)) (seq + 1) (out @ [rec]) = (seq', out')" using Suc.prems by (simp add: leD)
    note rest = Suc.IH [OF this]
    have "seq + 1 \<noteq> 0" using assms(1) r(1) by (auto simp: eq_neg_iff_add_eq_0 [symmetric] word_order.extremum_unique)
    then have "unat (seq + 1) = unat seq + 1" using unatSuc [of seq] by (simp add: add.commute)
    then show ?thesis using rest r(1) by (auto simp: word_less_nat_alt word_le_nat_alt)
  next
    case False
    then show ?thesis using Suc.prems by (auto simp: not_le not_less split: if_splits prod.splits option.splits fzn_record_store_err.splits)
  qed
qed simp

lemma journal_next_pos: "fzn_journal_next j k stream \<noteq> 0"
proof -
  have "x + 1 \<noteq> 0" if "x \<noteq> UINT64_MAX" for x :: u64 using that by (simp add: eq_neg_iff_add_eq_0)
  then show ?thesis by (auto simp: fzn_journal_next_def Let_def split: option.splits)
qed

lemma offer_bounds_keeps:
  "ps_phase (offer_bounds p) = ps_phase p" "ps_digest (offer_bounds p) = ps_digest p" "ps_at (offer_bounds p) = ps_at p"
  "ps_journal (offer_bounds p) = ps_journal p" "ps_store (offer_bounds p) = ps_store p" "ps_held (offer_bounds p) = ps_held p"
  "ps_at p < dg_n (ps_digest p) \<Longrightarrow> ps_mine (offer_bounds p) \<noteq> UINT64_MAX"
  using journal_next_pos by (auto simp: offer_bounds_def Let_def)

definition push_rank :: "'b fzn_exchange_pushing \<Rightarrow> nat \<times> nat \<times> nat" where
  "push_rank p =
     (case ps_phase p of PUSH_DIGEST \<Rightarrow> (1, FZN_SYNC_MAX_POSITIONS - dg_n (ps_digest p), 0)
      | PUSH_OFFERS \<Rightarrow> (0, dg_n (ps_digest p) - ps_at p, unat (ps_mine p) + 1 - unat (ps_seq p)) | PUSH_DONE \<Rightarrow> (0, 0, 0))"

definition push_inv :: "fzn_journal \<Rightarrow> 'b \<Rightarrow> 'b fzn_exchange_pushing \<Rightarrow> bool" where
  "push_inv j held p \<longleftrightarrow> ps_journal p = j \<and> ps_held p = held \<and> (ps_phase p = PUSH_OFFERS \<and> ps_at p < dg_n (ps_digest p) \<longrightarrow> ps_mine p \<noteq> UINT64_MAX)"

lemma lower_trans: "trans lower"
  by (intro trans_lex_prod trans_less_than)

lemma next_offer_moves:
  assumes "push_inv j held p" and "ps_phase p = PUSH_OFFERS" and "next_offer cap p = (p', message)"
  shows "push_inv j held p' \<and> (message = None \<longleftrightarrow> ps_phase p' = PUSH_DONE) \<and> (message \<noteq> None \<longrightarrow> ps_phase p' = PUSH_OFFERS \<and> (push_rank p', push_rank p) \<in> lower)"
  using assms
proof (induction cap p arbitrary: p' rule: next_offer.induct)
  case (1 cap p)
  show ?case
  proof (cases "ps_at p < dg_n (ps_digest p)")
    case at: True
    let ?t = "dg_theirs (ps_digest p) ! ps_at p"
    obtain seq sent where ol: "offer_loop 0xffff (ps_store p) (ps_held p) (sp_issuer ?t) (sp_stream ?t) (ps_mine p) (cap - FZN_EXCHANGE_PUSH_HEAD_LEN) (ps_seq p) [] = (seq, sent)"
      by fastforce
    have "ps_mine p \<noteq> UINT64_MAX" using 1(2,3) at by (simp add: push_inv_def)
    note m = offer_loop_moves [OF this ol]
    show ?thesis
    proof (cases "sent = []")
      case False
      then have "p' = p\<lparr>ps_seq := seq, ps_tally := (ps_tally p)\<lparr>pt_offered := pt_offered (ps_tally p) + length sent\<rparr>\<rparr>" "message \<noteq> None"
        using 1(4) at ol by (auto simp: next_offer.simps [of cap p] Let_def simp del: offer_loop.simps)
      moreover have "unat (ps_seq p) < unat seq" "unat seq \<le> unat (ps_mine p) + 1" using m False by (auto simp: word_less_nat_alt)
      ultimately show ?thesis using 1(2,3) at by (auto simp: push_inv_def push_rank_def)
    next
      case True
      let ?r = "p\<lparr>ps_seq := seq\<rparr>"
      let ?q = "offer_bounds (?r\<lparr>ps_at := ps_at ?r + 1\<rparr>)"
      have nq: "next_offer cap ?q = (p', message)"
        using 1(4) at ol True by (simp add: next_offer.simps [of cap p] Let_def del: offer_loop.simps)
      have q: "push_inv j held ?q" "ps_phase ?q = PUSH_OFFERS"
        using 1(2,3) offer_bounds_keeps [of "?r\<lparr>ps_at := ps_at ?r + 1\<rparr>"] by (auto simp: push_inv_def)
      have "dg_n (ps_digest p) - (ps_at p + 1) < dg_n (ps_digest p) - ps_at p" using at by linarith
      then have "(push_rank ?q, push_rank p) \<in> lower" using 1(3) by (simp add: push_rank_def offer_bounds_keeps)
      then have "(push_rank p', push_rank p) \<in> lower" if "(push_rank p', push_rank ?q) \<in> lower" using that by (rule transD [OF lower_trans, rotated])
      then show ?thesis using 1(1) [OF at refl ol [symmetric] refl _ q nq] True by blast
    qed
  next
    case False
    then show ?thesis using 1(2-4) by (auto simp: next_offer.simps [of cap p] push_inv_def)
  qed
qed

lemma push_step_ends:
  assumes "push_inv j held p" and "ps_phase p \<noteq> PUSH_DONE" and "FZN_EXCHANGE_REPLY_MIN \<le> cap" and "fzn_exchange_push_step (Some p) answer cap = (err, p', message)"
  shows "\<exists>q. p' = Some q \<and> push_inv j held q \<and>
    (err = FZN_EXCHANGE_OK \<and> message \<noteq> None \<longrightarrow> ps_phase q \<noteq> PUSH_DONE \<and> (push_rank q, push_rank p) \<in> lower)"
proof -
  note i = assms(1) [unfolded push_inv_def]
  show ?thesis
  proof (cases answer)
    case None
    then show ?thesis using assms i by (auto simp: fzn_exchange_push_step_def push_inv_def)
  next
    case reply: (Some reply)
    show ?thesis
    proof (cases "ps_phase p")
      case PUSH_DIGEST
      obtain v d where dt: "digest_take (ps_digest p) reply = (v, d)" by (cases "digest_take (ps_digest p) reply")
      show ?thesis
      proof (cases v)
        case Bad
        then show ?thesis using assms(3,4) reply PUSH_DIGEST dt i by (auto simp: fzn_exchange_push_step_def push_inv_def)
      next
        case (More request)
        then have "dg_n (ps_digest p) < dg_n d" "dg_n d < FZN_SYNC_MAX_POSITIONS" using digest_more dt by blast+
        then show ?thesis using More assms(3,4) reply PUSH_DIGEST dt i by (auto simp: fzn_exchange_push_step_def push_inv_def push_rank_def)
      next
        case Enough
        let ?p = "p\<lparr>ps_digest := d, ps_tally := (ps_tally p)\<lparr>pt_positions := dg_n d\<rparr>, ps_phase := PUSH_OFFERS, ps_at := 0\<rparr>"
        obtain q m where no: "next_offer cap (offer_bounds ?p) = (q, m)" by fastforce
        then have res: "err = FZN_EXCHANGE_OK" "p' = Some q" "message = m" using assms(3,4) reply PUSH_DIGEST dt Enough by (auto simp: fzn_exchange_push_step_def Let_def)
        have "push_inv j held (offer_bounds ?p)" "ps_phase (offer_bounds ?p) = PUSH_OFFERS" using i offer_bounds_keeps [of ?p] by (auto simp: push_inv_def)
        note n = next_offer_moves [OF this no]
        have "(push_rank q, push_rank p) \<in> lower" if "m \<noteq> None" using n that PUSH_DIGEST by (auto simp: push_rank_def split: push_phase.splits)
        then show ?thesis using n res by auto
      qed
    next
      case PUSH_OFFERS
      show ?thesis
      proof (cases "is_message reply FZN_EXCHANGE_PUSHED \<and> length reply = FZN_EXCHANGE_PUSHED_LEN")
        case False
        then have "p' = Some (p\<lparr>ps_phase := PUSH_DONE\<rparr>)" "err = FZN_EXCHANGE_ERR_SHAPE" using assms(3,4) reply PUSH_OFFERS by (auto simp: fzn_exchange_push_step_def)
        then show ?thesis using i by (simp add: push_inv_def)
      next
        case True
        let ?p = "p\<lparr>ps_tally := tally_pushed reply (ps_tally p)\<rparr>"
        define pq where "pq = (if num16_at 6 reply \<noteq> 0 \<or> num16_at 8 reply \<noteq> 0 then offer_bounds (?p\<lparr>ps_at := ps_at ?p + 1\<rparr>) else ?p)"
        obtain q m where no: "next_offer cap pq = (q, m)" by fastforce
        then have res: "err = FZN_EXCHANGE_OK" "p' = Some q" "message = m" using assms(3,4) reply PUSH_OFFERS True by (auto simp: fzn_exchange_push_step_def Let_def pq_def)
        have q: "push_inv j held pq" "ps_phase pq = PUSH_OFFERS"
          unfolding pq_def using i PUSH_OFFERS offer_bounds_keeps [of "?p\<lparr>ps_at := ps_at ?p + 1\<rparr>"] by (auto simp: push_inv_def)
        note n = next_offer_moves [OF q no]
        have low: "(push_rank pq, push_rank p) \<in> lower \<or> push_rank pq = push_rank p \<or> ps_at pq \<ge> dg_n (ps_digest pq)"
          unfolding pq_def using PUSH_OFFERS by (auto simp: push_rank_def offer_bounds_keeps)
        have "m = None" if "ps_at pq \<ge> dg_n (ps_digest pq)" using no that by (subst (asm) next_offer.simps) auto
        then have "(push_rank q, push_rank p) \<in> lower" if "m \<noteq> None" using n low that transD [OF lower_trans, of "push_rank q" "push_rank pq" "push_rank p"] by auto
        then show ?thesis using n res by auto
      qed
    qed (use assms(2) in simp)
  qed
qed

lemma push_loop_ends:
  assumes "push_inv j held p" and "ps_phase p \<noteq> PUSH_DONE" and "FZN_EXCHANGE_REPLY_MIN \<le> cap"
  shows "\<exists>err q peer'. push_loop ask cap peer p message = Some (err, q, peer') \<and> push_inv j held q"
  using assms(1,2)
proof (induction "push_rank p" arbitrary: p peer message rule: wf_induct_rule [OF wf_lex_prod [OF wf_less_than wf_lex_prod [OF wf_less_than wf_less_than]]])
  case 1
  obtain answer peer' where ask: "ask peer message = (answer, peer')" by fastforce
  obtain err p' nxt where step: "fzn_exchange_push_step (Some p) answer cap = (err, p', nxt)" by (metis prod.exhaust)
  obtain q where q: "p' = Some q" "push_inv j held q" "err = FZN_EXCHANGE_OK \<and> nxt \<noteq> None \<longrightarrow> ps_phase q \<noteq> PUSH_DONE \<and> (push_rank q, push_rank p) \<in> lower"
    using push_step_ends [OF 1(2,3) assms(3) step] by blast
  show ?case
  proof (cases "err = FZN_EXCHANGE_OK \<and> nxt \<noteq> None")
    case True
    then have "push_loop ask cap peer p message = push_loop ask cap peer' q (the nxt)" using ask step q(1) by (subst push_loop.simps) simp
    then show ?thesis using 1(1) [of q peer' "the nxt"] q True by auto
  next
    case False
    then have "push_loop ask cap peer p message = Some (err, q, peer')" using ask step q(1) by (subst push_loop.simps) auto
    then show ?thesis using q(2) by blast
  qed
qed

text \<open>
  A push ends whatever the peer answers, and leaves the journal and the store of the host that pushes as they were.
\<close>

theorem push_ends:
  assumes "FZN_EXCHANGE_REPLY_MIN \<le> cap"
  shows "\<exists>err q peer'. fzn_exchange_push (Some j) (Some (store, held)) (Some ask) peer cap p0 = Some (err, Some q, peer') \<and>
    ps_journal q = j \<and> ps_held q = held"
proof -
  let ?cap = "min cap (FZN_EXCHANGE_PUSH_HEAD_LEN + 16 * (2 + FZN_RECORD_MAX_LEN))"
  have c: "FZN_EXCHANGE_REPLY_MIN \<le> ?cap" using assms by simp
  then obtain p message where b: "fzn_exchange_push_begin (Some p0) (Some j) (Some (store, held)) ?cap = (FZN_EXCHANGE_OK, Some (p, message))"
      and p: "ps_phase p = PUSH_DIGEST" "push_inv j held p"
    by (auto simp: fzn_exchange_push_begin_def push_inv_def min_less_iff_disj)
  obtain err q peer' where "push_loop ask ?cap peer p message = Some (err, q, peer')" "push_inv j held q" using push_loop_ends [OF p(2) _ c] p(1) by fastforce
  then show ?thesis using assms b by (auto simp: fzn_exchange_push_def Let_def push_inv_def)
qed

section \<open>Being pushed to\<close>

lemma signed_genuine: "signed_record sign h b = Some (r, rid) \<Longrightarrow> genuine_record sign h r rid"
  by (auto simp: signed_record_def genuine_record_def record_open_iff split: prod.splits fzn_record_err.splits option.splits if_splits)

definition pushed_outcome :: "'b fzn_record_store_ops \<Rightarrow> fzn_sign_ops \<Rightarrow> fzn_hash_fn \<Rightarrow> fzn_journal \<times> 'b \<Rightarrow> bool \<Rightarrow> 'b being_pushed \<Rightarrow> bool" where
  "pushed_outcome store sign h s0 unbroken s \<longleftrightarrow> (\<exists>rs. bp_taken s = length rs \<and>
     (learned store sign h s0 rs (bp_journal s, bp_store_held s) \<or>
      \<not> unbroken \<and> bp_refused s \<noteq> 0 \<and> lost_last store sign h s0 rs (bp_journal s, bp_store_held s)))"

lemma push_one_outcome:
  assumes "genuine_record sign h r rid" and "pushed_outcome store sign h s0 True s" and "push_one store r rid s = (go_on, s')"
  shows "pushed_outcome store sign h s0 go_on s'"
    and "bp_taken s' + bp_held s' + bp_refused s' + bp_forks s' = bp_taken s + bp_held s + bp_refused s + bp_forks s + 1"
proof -
  obtain rs where rs: "bp_taken s = length rs" "learned store sign h s0 rs (bp_journal s, bp_store_held s)" using assms(2) by (auto simp: pushed_outcome_def)
  obtain jerr j' where ad: "fzn_journal_admit_chained (Some (bp_journal s)) (Some (fzn_record_issuer r)) (fzn_record_stream r) (fzn_record_seq r)
      (Some (fzn_record_prev r)) (Some rid) = (jerr, Some j')"
    using chained_some by (metis prod.exhaust)
  then have step: "journal_step (bp_journal s) (admission r rid) = (jerr, j')" by (simp add: admission_def)
  obtain perr held' where put: "fzn_record_store_put (Some store) (bp_store_held s) (Some r) = (perr, held')" by fastforce
  have same: "j' = bp_journal s" if "jerr \<notin> {FZN_JOURNAL_OK, FZN_JOURNAL_ERR_FORK}" using chained_refused [OF ad that] by simp
  have kept: "learned store sign h s0 (rs @ [r]) (j', held')" if "jerr = FZN_JOURNAL_OK" "perr = FZN_RECORD_STORE_OK"
    using learned.kept [OF rs(2) assms(1)] step put that by simp
  have lost: "lost_last store sign h s0 rs (j', held')" if "jerr = FZN_JOURNAL_OK" "perr \<noteq> FZN_RECORD_STORE_OK"
    using rs(2) assms(1) step put that unfolding lost_last_def fst_conv snd_conv by blast
  have fork: "learned store sign h s0 rs (j', bp_store_held s)" if "jerr = FZN_JOURNAL_ERR_FORK"
    using learned.forked [OF rs(2) assms(1)] step that by simp
  show "bp_taken s' + bp_held s' + bp_refused s' + bp_forks s' = bp_taken s + bp_held s + bp_refused s + bp_forks s + 1"
    using assms(3) by (auto simp: push_one_def ad put Let_def split: if_splits)
  show "pushed_outcome store sign h s0 go_on s'"
  proof (cases "jerr = FZN_JOURNAL_OK \<and> perr = FZN_RECORD_STORE_OK \<and> \<not> fzn_record_seq r < fzn_journal_next (Some (bp_journal s)) (Some (fzn_record_issuer r)) (fzn_record_stream r)")
    case True
    then have "bp_taken s' = length (rs @ [r])" "bp_journal s' = j'" "bp_store_held s' = held'" using assms(3) rs(1) by (auto simp: push_one_def ad put Let_def)
    then show ?thesis using kept True unfolding pushed_outcome_def by (metis (no_types))
  next
    case False
    have "bp_taken s' = length rs \<and> (learned store sign h s0 rs (bp_journal s', bp_store_held s') \<or>
      \<not> go_on \<and> bp_refused s' \<noteq> 0 \<and> lost_last store sign h s0 rs (bp_journal s', bp_store_held s'))"
      using assms(3) False rs lost fork same by (auto simp: push_one_def ad put Let_def split: if_splits)
    then show ?thesis unfolding pushed_outcome_def by blast
  qed
qed

lemma pushed_mono: "pushed_outcome store sign h s0 True s \<Longrightarrow> pushed_outcome store sign h s0 b (s\<lparr>bp_refused := n\<rparr>)"
  by (auto simp: pushed_outcome_def)

lemma push_take_loop_outcome:
  assumes "pushed_outcome store sign h s0 True s"
  shows "pushed_outcome store sign h s0 False (push_take_loop n store sign h request at s) \<and>
    (let s' = push_take_loop n store sign h request at s in bp_taken s' + bp_held s' + bp_refused s' + bp_forks s' \<le> bp_taken s + bp_held s + bp_refused s + bp_forks s + n)"
  using assms
proof (induction n arbitrary: at s)
  case (Suc n)
  let ?len = "num16_at at request"
  show ?case
  proof (cases "length request - at < 2 \<or> length request - at - 2 < ?len \<or> signed_record sign h (bytes_at (at + 2) ?len request) = None")
    case True
    then have "push_take_loop (Suc n) store sign h request at s = s\<lparr>bp_refused := bp_refused s + 1\<rparr>" by (auto simp: Let_def)
    then show ?thesis using pushed_mono [OF Suc.prems, of False] by (simp add: Let_def)
  next
    case False
    then obtain r rid where r: "signed_record sign h (bytes_at (at + 2) ?len request) = Some (r, rid)" by fastforce
    obtain go_on s1 where one: "push_one store r rid s = (go_on, s1)" by fastforce
    note o = push_one_outcome [OF signed_genuine [OF r] Suc.prems one]
    have eq: "push_take_loop (Suc n) store sign h request at s = (if go_on then push_take_loop n store sign h request (at + 2 + ?len) s1 else s1)"
      using False r one by (simp add: Let_def)
    show ?thesis
    proof (cases go_on)
      case True
      then show ?thesis unfolding eq using Suc.IH [of s1 "at + 2 + ?len"] o by (simp add: Let_def)
    next
      case no: False
      then show ?thesis unfolding eq using o by (simp add: Let_def)
    qed
  qed
qed (auto simp: pushed_outcome_def)

text \<open>
  A host that is pushed to learns only what is genuine, as one that pulls does, and tells of every record it looked at what became of
  it: the four counts of its reply are read back as they were, and together they are no more than the
  number of records announced.
\<close>

theorem push_taken:
  assumes "fzn_exchange_take_push (Some j) (Some (store, held)) (Some sign) (Some (Some h)) (Some request) cap = Some (reply, s)"
  shows "\<exists>rs. bp_taken s = length rs \<and> (learned store sign h (j, held) rs (bp_journal s, bp_store_held s) \<or>
      bp_refused s \<noteq> 0 \<and> lost_last store sign h (j, held) rs (bp_journal s, bp_store_held s)) \<and>
    is_message reply FZN_EXCHANGE_PUSHED \<and> length reply = FZN_EXCHANGE_PUSHED_LEN \<and> length reply \<le> cap \<and>
    num16_at 2 reply = bp_taken s \<and> num16_at 4 reply = bp_held s \<and> num16_at 6 reply = bp_refused s \<and> num16_at 8 reply = bp_forks s \<and>
    bp_taken s + bp_held s + bp_refused s + bp_forks s \<le> num16_at 2 request"
proof -
  let ?s = "\<lparr>bp_journal = j, bp_store_held = held, bp_taken = 0, bp_held = 0, bp_refused = 0, bp_forks = 0\<rparr>"
  have s: "s = push_take_loop (num16_at 2 request) store sign h request FZN_EXCHANGE_PUSH_HEAD_LEN ?s" and cap: "FZN_EXCHANGE_PUSHED_LEN \<le> cap"
    and reply: "reply = [FZN_EXCHANGE_VERSION, type_byte FZN_EXCHANGE_PUSHED] @ num16 (bp_taken s) @ num16 (bp_held s) @ num16 (bp_refused s) @ num16 (bp_forks s)"
    using assms by (auto simp: fzn_exchange_take_push_def Let_def split: if_splits)
  have "pushed_outcome store sign h (j, held) True ?s" by (auto simp: pushed_outcome_def intro: learned.nothing)
  note o = push_take_loop_outcome [OF this, of "num16_at 2 request" request FZN_EXCHANGE_PUSH_HEAD_LEN, folded s]
  have sum: "bp_taken s + bp_held s + bp_refused s + bp_forks s \<le> num16_at 2 request" using o by (simp add: Let_def)
  have lt: "num16_at 2 request < 2 ^ 16" using unsigned_less [of "fzn_get_be16 (bytes_at 2 2 request)"] by simp
  have rt: "unat (fzn_get_be16 (num16 n)) = n" if "n < 2 ^ 16" for n using that by (simp add: get_put_be16 unsigned_of_nat take_bit_nat_eq_self)
  have at: "bytes_at 2 2 reply = num16 (bp_taken s)" "bytes_at 4 2 reply = num16 (bp_held s)" "bytes_at 6 2 reply = num16 (bp_refused s)" "bytes_at 8 2 reply = num16 (bp_forks s)"
    "length reply = FZN_EXCHANGE_PUSHED_LEN" "is_message reply FZN_EXCHANGE_PUSHED"
    unfolding reply by (simp_all add: bytes_at_def fzn_put_be16_def is_message_def)
  obtain rs where "bp_taken s = length rs" "learned store sign h (j, held) rs (bp_journal s, bp_store_held s) \<or>
      bp_refused s \<noteq> 0 \<and> lost_last store sign h (j, held) rs (bp_journal s, bp_store_held s)" using o by (auto simp: pushed_outcome_def)
  moreover have "bp_taken s < 2 ^ 16" "bp_held s < 2 ^ 16" "bp_refused s < 2 ^ 16" "bp_forks s < 2 ^ 16" using sum lt by linarith+
  ultimately show ?thesis using at sum cap rt by (intro exI [of _ rs]) simp
qed

section \<open>Witnesses\<close>

text \<open>
  A host that follows one stream, and a peer that answers with a digest and then with the first record of it.
\<close>

declare pull_loop.simps [code] push_loop.simps [code]

definition keeping_store :: "bytes list fzn_record_store_ops" where
  "keeping_store = \<lparr>st_put = Some (\<lambda>_ _ _ r held. (True, held @ [r])),
     st_get = Some (\<lambda>_ _ seq _ held. if unat seq \<le> length held then Inl (held ! (unat seq - 1)) else Inr False), st_cut = None\<rparr>"

definition exchange_row :: "u64 \<Rightarrow> fzn_journal" where
  "exchange_row received = \<lparr>jn_entries = Some [(fresh_row (replicate 32 1, 3))\<lparr>je_received := received\<rparr>], jn_capacity = 1, jn_used = 1\<rparr>"

definition demo_push :: bytes where
  "demo_push = [5, 5, 0, 1] @ framed demo_rec1"

fun demo_ask :: "nat \<Rightarrow> bytes \<Rightarrow> bytes option \<times> nat" where
  "demo_ask 0 _ = (Some ([5, 2, 0, 1, 0, 0, 0, 1] @ put_position \<lparr>sp_issuer = replicate 32 1, sp_stream = 3, sp_received = 1\<rparr>), 1)"
| "demo_ask (Suc n) _ = (Some ([5, 4] @ drop 2 demo_push), n + 2)"

definition demo_pulling :: "bytes list fzn_exchange_pulling" where
  "demo_pulling = \<lparr>pu_journal = exchange_row 0, pu_store = keeping_store, pu_held = [], pu_sign = record_signer, pu_hash = demo_id, pu_max_per_request = 0,
     pu_phase = PULL_DONE, pu_digest = fst digest_begin, pu_plan_out = [], pu_request_count = 0, pu_want = 0, pu_next = 0, pu_left = 0, pu_tally = zero_tally\<rparr>"

definition demo_pull :: "(fzn_exchange_err \<times> bytes list fzn_exchange_pulling option \<times> nat) option" where
  "demo_pull = fzn_exchange_pull (Some (exchange_row 0)) (Some (keeping_store, [])) (Some record_signer) (Some (Some demo_id)) 9 (Some demo_ask) 0 706 demo_pulling"

lemma demo_pull_runs: "map_option (\<lambda>(err, q, peer). (err, peer, ta_learned (pu_tally (the q)), length (pu_held (the q)), pu_phase (the q))) demo_pull = Some (FZN_EXCHANGE_OK, 2, 1, 1, PULL_DONE)"
  by code_simp

theorem pull_ends_witness:
  "\<exists>q rs. demo_pull = Some (FZN_EXCHANGE_OK, Some q, 2) \<and> length rs = 1 \<and> learned keeping_store record_signer demo_id (exchange_row 0, []) rs (pu_journal q, pu_held q)"
proof -
  have "so_verify record_signer \<noteq> None" by (simp add: record_signer_def)
  then obtain err q peer' rs where r: "demo_pull = Some (err, Some q, peer')" "ta_learned (pu_tally q) = length rs"
      "if err = FZN_EXCHANGE_ERR_STORE then lost_last keeping_store record_signer demo_id (exchange_row 0, []) rs (pu_journal q, pu_held q)
       else learned keeping_store record_signer demo_id (exchange_row 0, []) rs (pu_journal q, pu_held q)"
    using pull_ends [of record_signer 9 706 "exchange_row 0" keeping_store "[]" demo_id demo_ask 0 demo_pulling, folded demo_pull_def]
    by (fastforce split: if_splits)
  have "map_option (\<lambda>(err, q, peer). (err, peer, ta_learned (pu_tally (the q)), length (pu_held (the q)), pu_phase (the q))) (Some (err, Some q, peer')) =
      Some (FZN_EXCHANGE_OK, 2, 1, 1, PULL_DONE)"
    using demo_pull_runs unfolding r(1) .
  then have ok: "err = FZN_EXCHANGE_OK" "ta_learned (pu_tally q) = 1" "peer' = 2" by simp_all
  then have "length rs = 1" using r(2) by simp
  then show ?thesis using r(1) r(3) [unfolded ok(1)] ok by (intro exI [of _ q] exI [of _ rs]) simp
qed

definition demo_pushing :: "bytes list fzn_exchange_pushing" where
  "demo_pushing = \<lparr>ps_journal = exchange_row 2, ps_store = keeping_store, ps_held = [], ps_phase = PUSH_DONE, ps_digest = fst digest_begin, ps_at = 0,
     ps_seq = 0, ps_mine = 0, ps_tally = zero_push_tally\<rparr>"

theorem push_ends_witness:
  "\<exists>err q peer'. fzn_exchange_push (Some (exchange_row 2)) (Some (keeping_store, [demo_rec1, demo_rec2])) (Some demo_ask) 0 706 demo_pushing = Some (err, Some q, peer') \<and>
    ps_journal q = exchange_row 2"
  using push_ends [of 706 "exchange_row 2" keeping_store "[demo_rec1, demo_rec2]" demo_ask 0 demo_pushing] by auto

theorem push_taken_witness:
  "\<exists>reply s rs. fzn_exchange_take_push (Some (exchange_row 0)) (Some (keeping_store, [])) (Some record_signer) (Some (Some demo_id)) (Some demo_push) 10 = Some (reply, s) \<and>
    num16_at 2 reply = 1 \<and> length rs = 1 \<and> learned keeping_store record_signer demo_id (exchange_row 0, []) rs (bp_journal s, bp_store_held s)"
proof -
  let ?t = "fzn_exchange_take_push (Some (exchange_row 0)) (Some (keeping_store, [])) (Some record_signer) (Some (Some demo_id)) (Some demo_push) 10"
  have "map_option (\<lambda>(reply, s). (bp_taken s, bp_refused s)) ?t = Some (1, 0)" by code_simp
  then obtain reply s where t: "?t = Some (reply, s)" "bp_taken s = 1" "bp_refused s = 0" by auto
  from push_taken [OF t(1)] t show ?thesis by auto
qed

end
