(* ===== verification/Spec2Isabelle.thy ===== *)
theory Spec2Isabelle
  imports Admit Erasure_Round_Trip Link Succession Session_Frame Sync Ledger Record_Tree Trust Blob_Levels Cells Setting Schema Prekey Disclose Exchange_Ends
begin

text \<open>
  \<^bold>\<open>A verification of the core of fuzznet.\<close>

  fuzznet is a C library, with a daemon over it, for the devices of one person and the people they talk
  to. Hosts send one another sealed datagrams over lossy links; every request names a capability and is
  allowed by a chain of grants back to a root, which revocations can cut; what hosts agree on in the
  long run travels as signed records in streams, as settings, and as content named by a hash. This
  development models the library part of it, file by file. Each theory below names the file or
  files it translates and declares one definition per C function, under the function's name where
  that is free; static helpers keep their names, qualified by a word where two files share one.

  \<^bold>\<open>How the code is modelled.\<close> A struct is a record, an enum a datatype, a fixed-width integer a word
  of that width, so that arithmetic wraps as it does in C. A pointer that may be null is an
  option, and a buffer with its length is a list of bytes; tables the caller owns are lists with a
  capacity and a count of live rows. A function that writes through a pointer returns what it
  wrote beside its error code, also on the error paths. Loops are recursions on what they count; where a
  loop is not bounded by its own counter (\<open>while_option\<close>, \<open>partial_function\<close>) the result \<open>None\<close> stands for a run
  that never ends, and it is shown not to arise. Counts and sizes of the machine's address width are
  natural numbers where the code bounds them before it computes with them: the leaves of a blob
  (at most \<open>2 ^ 40\<close>), the positions of a digest (at most 1024), records counted in one run. Where
  such a difference can wrap in C it is written out.

  \<^bold>\<open>What is a parameter.\<close> Signatures, hash, authenticated cipher, key agreement, randomness, the
  backends of stores and levels, clocks, callbacks of the host and the peer of an exchange are
  arguments of the definitions that call them. Where a theorem needs more than their type it says so by
  a named hypothesis: \<open>signs_for\<close> (what a signer signs verifies under its key), \<open>hash_fills\<close> and
  \<open>hash_total\<close> (a digest has the length asked for, and is always given), \<open>aead_inverts\<close> (what was sealed
  opens), \<open>storage_keeps\<close> (bytes written are read back). No hypothesis says that the hash is free of
  collisions: theorems that rest on it conclude that the claim holds or that two different inputs
  with one digest are at hand.

  \<^bold>\<open>Foundations.\<close> \<open>Fzn_Prelude\<close> holds the names of the C types, slices and writes of byte strings,
  searches and runs, and the interfaces shared by several components as locales: \<open>keyed_rows\<close> for a search
  over a table with distinct keys, \<open>invariant_machine\<close> for a component whose steps keep an
  invariant, \<open>once_only\<close> for one that hands out each tag once. \<open>Wire_Bytes\<close> has the big-endian
  fields of \<open>wire/bytes.h\<close> (locale \<open>fixed_codec\<close>) and \<open>constant_time/\<close>; \<open>Keyed_Map\<close> reads tables as maps.
  The interpretations of these locales stand in the theories of the components that provide them.

  \<^bold>\<open>From datagram to command.\<close> \<open>Freshness\<close> (\<open>frame/freshness.c\<close>): expiry, and a replay window that
  refines a set of nonces, through the locale \<open>replay_memory\<close>. \<open>Seal\<close> (\<open>wire/seal.c\<close>, \<open>wire/relay.c\<close> and the generated
  accessors of \<open>wire/generated/frame.h\<close>, \<open>session/commitment.c\<close>, \<open>session/random.c\<close>): frames that are sealed open to what was sealed, and a relayed frame runs out of hops.
  \<open>Split\<close> and \<open>Reassembly\<close> (\<open>chunk/\<close>): the chunks of a message tile it, the table stays within its
  bounds and quotas, and a message whose chunks all arrive is delivered. \<open>Byte_Field\<close>, \<open>Erasure\<close> and
  \<open>Erasure_Round_Trip\<close> (\<open>chunk/erasure.c\<close>): the tables are the field of 256 elements, and any \<open>k\<close> of the \<open>k + m\<close> pieces give
  the message back. \<open>Sched\<close> and \<open>Link\<close> (\<open>sched/sched.c\<close>, \<open>link/link.c\<close>): the choice of a link and the table of their estimates.
  \<open>Admit\<close> (\<open>admit/admit.c\<close>) composes all of it with authority: a frame that is admitted was fresh, was opened under a key the
  host has, is admitted once, and was authorised by a verified chain.

  \<^bold>\<open>Authority.\<close> \<open>Chain_Hop\<close> and \<open>Chain_Verify\<close> (\<open>chain/chain.c\<close>): what a chain of grants must be to verify, exactly. \<open>Manifest\<close>, \<open>Manifest_State\<close>,
  \<open>Revocation_Store\<close>, \<open>Revocation_Rule\<close> and \<open>Revocation_Admit\<close> (\<open>chain/manifest.c\<close>, \<open>chain/revocation.c\<close>): the store of revocations with its
  quorum rule, that it never forgets a revocation it must keep, and when an admission leaves answers alone. \<open>Memo\<close> (\<open>chain/memo.c\<close>, \<open>chain/authz.c\<close>),
  \<open>Chain_Store\<close> (\<open>chain/chain_store.c\<close>), \<open>Succession\<close> (\<open>chain/succession.c\<close>, and the names of \<open>chain/service.c\<close>), \<open>Trust\<close> (\<open>trust/trust.c\<close>) and \<open>Prekey\<close> (\<open>prekey/prekey.c\<close>):
  remembered verdicts, the chains kept for others, the keys that follow keys, the anchor that holds, and the announcement of a key that
  never goes back to an older one.

  \<^bold>\<open>Keys.\<close> \<open>Ratchet\<close> (\<open>ratchet/ratchet.c\<close>): a key chain reached by any path is the same, and a refusal writes no more than skipped keys. \<open>Session\<close> and \<open>Session_Frame\<close> (\<open>session/agree.c\<close>, \<open>session/session.c\<close>,
  \<open>session/box.c\<close>, \<open>wire/session_frame.c\<close>): two hosts that agree derive mirrored sessions, messages pass between them, and no counter
  is accepted twice.

  \<^bold>\<open>Records.\<close> \<open>Signed_Record\<close> (\<open>record/record.c\<close>, \<open>record/store.c\<close>): signing and reading, and what stands under a cut. \<open>Journal\<close> (\<open>record/journal.c\<close>): a
  map from streams to positions on one unbroken chain. \<open>Sync\<close> (\<open>record/sync.c\<close>): the plans of two hosts agree, and rounds of them catch up.
  \<open>Exchange\<close> and \<open>Exchange_Ends\<close> (\<open>record/exchange.c\<close>): the protocol that carries the plans out; against any peer it ends, by a lexicographic
  order on the phase, the positions and the records left, and learns only genuine records. \<open>Ledger\<close> (\<open>record/ledger.c\<close>): confirmations.
  \<open>Record_Tree\<close> (\<open>tree/tree.c\<close>): records as a tree, its order and what is reachable.

  \<^bold>\<open>Content and settings.\<close> \<open>Blob\<close>, \<open>Blob_Proof\<close> and \<open>Blob_Levels\<close> (\<open>blob/blob.c\<close>, \<open>blob/levels.c\<close>): the streaming tree computes the recursive one,
  proofs are complete and sound, levels kept in storage answer as the leaves do. \<open>Disclose\<close> (\<open>disclose/disclose.c\<close>): a committed field shown alone.
  \<open>Cells\<close>, \<open>Setting\<close> and \<open>Schema\<close> (\<open>state/\<close>): registers that converge, settings that supersede one another by an order, and the
  declarations of what may be set.

  \<^bold>\<open>Not modelled.\<close> The daemon and the features it offers its user (\<open>node/\<close>, \<open>messages/\<close>, \<open>notes/\<close>, \<open>catalog/\<close>, \<open>sticker/\<close>) are wiring, text and
  files over the components above. The transfer of blobs between hosts (\<open>spool/\<close>), the signed descriptions of hosts and people (\<open>roster/\<close>, \<open>contact/\<close>, \<open>device/\<close>, \<open>provision/\<close>,
  \<open>facet/\<close>) and the log of roots (\<open>chain/root_log.c\<close>) have protocol logic of their own that is left open. Input and output (\<open>net/\<close>, \<open>local/\<close>,
  \<open>persist/\<close>, \<open>claim/\<close>, \<open>log/\<close>, \<open>cli/\<close>, \<open>gui/\<close>, \<open>qr/\<close>, \<open>location/\<close>), the seams to the cryptographic library and the operating system, the simulator, the
  tools and the tests are outside the model; log setters and log lines change no other state and are left out of the components that have them. That a pull
  from an honest peer brings over all that was planned is not shown: \<open>Sync\<close> shows it of the plans, \<open>Exchange_Ends\<close> that a pull ends and is safe.
\<close>

end
